(* ===== verification/Prelude.thy ===== *)
theory Prelude
  imports Main "HOL-Library.Word" "HOL-Library.List_Lexorder" "HOL-Library.Product_Lexorder"
begin

unbundle bit_operations_syntax

text \<open>
  Shared vocabulary of the development: byte strings and machine words, the result type of
  fallible Rust code with its \<^verbatim>\<open>?\<close> operator, little-endian field encodings, and the
  generic lemmas on them that every component proof uses.
\<close>

section \<open>Machine words and byte strings\<close>

type_synonym byte = "8 word"
type_synonym u16 = "16 word"
type_synonym u32 = "32 word"
type_synonym u64 = "64 word"
type_synonym bytes = "8 word list"

text \<open>
  \<^verbatim>\<open>usize\<close> values (lengths, counts, indices) are natural numbers: the target is a 64-bit
  platform, where \<^verbatim>\<open>as usize\<close> on a \<^verbatim>\<open>u64\<close> is \<open>unat\<close> and a length always fits.
\<close>

definition u64_max :: nat where
  "u64_max = 2 ^ 64 - 1"

text \<open>\<^verbatim>\<open>u64::saturating_add\<close> and \<^verbatim>\<open>saturating_mul\<close>, on natural numbers.\<close>

definition sat_add64 :: "nat \<Rightarrow> nat \<Rightarrow> nat" where
  "sat_add64 a b = min (a + b) u64_max"

definition sat_mul64 :: "nat \<Rightarrow> nat \<Rightarrow> nat" where
  "sat_mul64 a b = min (a * b) u64_max"

lemma unat_byte: "unat (b :: byte) < 256"
  using unsigned_less [of b, where 'a = nat] by simp

lemma unat_u64: "unat (x :: u64) < 2 ^ 64"
  using unsigned_less [of x, where 'a = nat] by simp

text \<open>ASCII literals such as \<^verbatim>\<open>b"cavs-object-v1"\<close>.\<close>

definition ascii :: "string \<Rightarrow> bytes" where
  "ascii s = map (\<lambda>c. of_nat (of_char c)) s"

lemma length_ascii [simp]: "length (ascii s) = length s"
  by (simp add: ascii_def)

section \<open>Results\<close>

named_theorems result_simps "unfolding the result monad on success"

text \<open>The \<^verbatim>\<open>?\<close> operator: stop at the first error, otherwise go on with the value.\<close>

definition rbind :: "'e + 'a \<Rightarrow> ('a \<Rightarrow> 'e + 'b) \<Rightarrow> 'e + 'b" where
  "rbind m f = (case m of Inl e \<Rightarrow> Inl e | Inr x \<Rightarrow> f x)"

definition map_err :: "('e \<Rightarrow> 'f) \<Rightarrow> 'e + 'a \<Rightarrow> 'f + 'a" where
  "map_err g m = (case m of Inl e \<Rightarrow> Inl (g e) | Inr x \<Rightarrow> Inr x)"

definition ok_or :: "'e \<Rightarrow> 'a option \<Rightarrow> 'e + 'a" where
  "ok_or e m = (case m of None \<Rightarrow> Inl e | Some x \<Rightarrow> Inr x)"

definition is_ok :: "'e + 'a \<Rightarrow> bool" where
  "is_ok m = (case m of Inl _ \<Rightarrow> False | Inr _ \<Rightarrow> True)"

lemma rbind_simps [simp]:
  "rbind (Inl e) f = Inl e"
  "rbind (Inr x) f = f x"
  by (simp_all add: rbind_def)

lemma rbind_eq_Inr [result_simps]:
  "rbind m f = Inr y \<longleftrightarrow> (\<exists>x. m = Inr x \<and> f x = Inr y)"
  by (cases m) simp_all

lemma map_err_simps [simp]:
  "map_err g (Inl e) = Inl (g e)"
  "map_err g (Inr x) = Inr x"
  by (simp_all add: map_err_def)

lemma map_err_eq_Inr [result_simps]: "map_err g m = Inr y \<longleftrightarrow> m = Inr y"
  by (cases m) simp_all

lemma ok_or_simps [simp]:
  "ok_or e None = Inl e"
  "ok_or e (Some x) = Inr x"
  by (simp_all add: ok_or_def)

lemma ok_or_eq_Inr [result_simps]: "ok_or e m = Inr y \<longleftrightarrow> m = Some y"
  by (cases m) simp_all

lemma is_ok_simps [simp]: "is_ok (Inl e) = False" "is_ok (Inr x) = True"
  by (simp_all add: is_ok_def)

lemma is_ok_iff: "is_ok m \<longleftrightarrow> (\<exists>x. m = Inr x)"
  by (cases m) simp_all

lemma guard_eq_Inr [result_simps]:
  "(if c then Inl e else m) = Inr y \<longleftrightarrow> \<not> c \<and> m = Inr y"
  by simp

section \<open>Little-endian fields\<close>

text \<open>
  \<^verbatim>\<open>to_le_bytes\<close> and \<^verbatim>\<open>from_le_bytes\<close> of an integer of \<open>n\<close> bytes.
\<close>

fun to_le :: "nat \<Rightarrow> 'a::len word \<Rightarrow> bytes" where
  "to_le 0 x = []"
| "to_le (Suc n) x = ucast x # to_le n (drop_bit 8 x)"

fun from_le :: "bytes \<Rightarrow> 'a::len word" where
  "from_le [] = 0"
| "from_le (b # bs) = ucast b OR push_bit 8 (from_le bs)"

lemma length_to_le [simp]: "length (to_le n x) = n"
  by (induction n arbitrary: x) simp_all

lemma bit_from_to_le:
  "bit (from_le (to_le n x) :: 'a::len word) k \<longleftrightarrow> k < 8 * n \<and> k < LENGTH('a) \<and> bit (x :: 'a word) k"
proof (induction n arbitrary: x k)
  case 0
  show ?case by simp
next
  case (Suc n)
  show ?case
    using Suc.IH [of "drop_bit 8 x" "k - 8"]
    by (cases "k < 8") (auto simp: bit_simps dest: bit_imp_le_length)
qed

lemma from_to_le: "(from_le (to_le n x) :: 'a::len word) = take_bit (8 * n) (x :: 'a word)"
  by (rule bit_word_eqI) (simp add: bit_from_to_le bit_simps)

lemma from_to_le_full [simp]:
  fixes x :: "'a::len word"
  assumes "LENGTH('a) \<le> 8 * n"
  shows "(from_le (to_le n x) :: 'a word) = x"
proof -
  have "take_bit (8 * n) x = x"
    using assms by (simp add: take_bit_word_eq_self)
  then show ?thesis by (simp add: from_to_le)
qed

lemma to_from_le:
  assumes "8 * length bs \<le> LENGTH('a::len)"
  shows "to_le (length bs) (from_le bs :: 'a word) = bs"
  using assms
proof (induction bs)
  case Nil
  show ?case by simp
next
  case (Cons b bs)
  let ?y = "from_le bs :: 'a word"
  have w: "8 \<le> LENGTH('a)" using Cons.prems by simp
  have low: "ucast (ucast b OR push_bit 8 ?y :: 'a word) = b"
    by (rule bit_word_eqI) (use w in \<open>auto simp: bit_simps\<close>)
  have len: "8 + 8 * length bs \<le> LENGTH('a)" using Cons.prems by simp
  have small: "take_bit (8 * length bs) ?y = ?y"
  proof -
    have "to_le (length bs) ?y = bs"
      using Cons.prems by (intro Cons.IH) simp
    then have "from_le (to_le (length bs) ?y) = ?y" by simp
    then show ?thesis by (simp add: from_to_le)
  qed
  have high: "drop_bit 8 (ucast b OR push_bit 8 ?y :: 'a word) = ?y"
  proof (rule bit_word_eqI)
    fix k assume k: "k < LENGTH('a)"
    have "bit ?y k \<longleftrightarrow> k < 8 * length bs \<and> bit ?y k"
      using small by (metis bit_take_bit_iff)
    then show "bit (drop_bit 8 (ucast b OR push_bit 8 ?y :: 'a word)) k = bit ?y k"
      using len k by (auto simp: bit_simps dest: bit_imp_le_length)
  qed
  have ih: "to_le (length bs) ?y = bs"
    using Cons.prems by (intro Cons.IH) simp
  show ?case
    by (simp only: from_le.simps list.size(4) add_Suc_right add_0_right to_le.simps low high ih)
qed

lemma to_le_inj:
  fixes x y :: "'a::len word"
  assumes "LENGTH('a) \<le> 8 * n" and "to_le n x = to_le n y"
  shows "x = y"
  using assms by (metis from_to_le_full)

section \<open>Sorted lists without repeats\<close>

text \<open>\<^verbatim>\<open>sort\<close> followed by \<^verbatim>\<open>dedup\<close> lists a set in strictly ascending order.\<close>

lemma strict_sorted_sort_dedup: "sorted_wrt (<) (remdups_adj (sort (xs :: 'a::linorder list)))"
proof -
  have "sorted_wrt (<) (remdups_adj ys)" if "sorted ys" for ys :: "'a list"
    using that
  proof (induction ys rule: remdups_adj.induct)
    case (3 x y ys)
    show ?case
    proof (cases "x = y")
      case True
      then show ?thesis using 3 by simp
    next
      case False
      then have "\<forall>z \<in> set (y # ys). x < z" using "3.prems" by auto
      then show ?thesis using 3 False by (auto simp: less_le)
    qed
  qed simp_all
  then show ?thesis by simp
qed

lemma sort_dedup_eq:
  assumes "set xs = set (ys :: 'a::linorder list)"
  shows "remdups_adj (sort xs) = remdups_adj (sort ys)"
  using assms strict_sorted_sort_dedup [of xs] strict_sorted_sort_dedup [of ys]
  by (intro sorted_distinct_set_unique) (auto simp: strict_sorted_iff)

section \<open>Splitting a list at a position\<close>

lemma in_set_drop_nth: "x \<in> set (drop j xs) \<longleftrightarrow> (\<exists>m. j \<le> m \<and> m < length xs \<and> x = xs ! m)"
proof
  assume "x \<in> set (drop j xs)"
  then obtain i where i: "i < length xs - j" "x = drop j xs ! i" by (auto simp: in_set_conv_nth)
  have "j + i < length xs" using i(1) by linarith
  moreover have "x = xs ! (j + i)" using i calculation by simp
  ultimately show "\<exists>m. j \<le> m \<and> m < length xs \<and> x = xs ! m" by (intro exI [of _ "j + i"]) simp
next
  assume "\<exists>m. j \<le> m \<and> m < length xs \<and> x = xs ! m"
  then show "x \<in> set (drop j xs)" by (metis Cons_nth_drop_Suc in_mono list.set_intros(1) set_drop_subset_set_drop)
qed

lemma set_take_drop: "set xs = set (take d xs) \<union> set (drop d xs)"
  by (metis append_take_drop_id set_append)

section \<open>Text\<close>

fun decimal :: "nat \<Rightarrow> string" where
  "decimal n =
     (let digit = [char_of (48 + n mod 10)] in if n < 10 then digit else decimal (n div 10) @ digit)"

declare decimal.simps [simp del]

fun intersperse :: "'a \<Rightarrow> 'a list \<Rightarrow> 'a list" where
  "intersperse sep (x # y # xs) = x # sep # intersperse sep (y # xs)"
| "intersperse sep xs = xs"

section \<open>UTF-8\<close>

text \<open>
  The validity test of \<^verbatim>\<open>String::from_utf8\<close>, which the readers of names and labels apply to the
  bytes they take.  A Rust \<^verbatim>\<open>String\<close> is modelled as its bytes.
\<close>

text \<open>\<^verbatim>\<open>String::from_utf8\<close> accepts exactly the well-formed sequences.\<close>

definition utf8_cont :: "byte \<Rightarrow> bool" where
  "utf8_cont b \<longleftrightarrow> 0x80 \<le> b \<and> b \<le> 0xbf"

definition utf8_second :: "byte \<Rightarrow> byte \<Rightarrow> bool" where
  "utf8_second b c \<longleftrightarrow> utf8_cont c \<and> (b = 0xe0 \<longrightarrow> 0xa0 \<le> c) \<and> (b = 0xed \<longrightarrow> c \<le> 0x9f)
     \<and> (b = 0xf0 \<longrightarrow> 0x90 \<le> c) \<and> (b = 0xf4 \<longrightarrow> c \<le> 0x8f)"

definition utf8_length :: "byte \<Rightarrow> nat" where
  "utf8_length b =
     (if b < 0x80 then 1 else if 0xc2 \<le> b \<and> b \<le> 0xdf then 2 else if 0xe0 \<le> b \<and> b \<le> 0xef then 3
      else if 0xf0 \<le> b \<and> b \<le> 0xf4 then 4 else 0)"

function is_utf8 :: "bytes \<Rightarrow> bool" where
  "is_utf8 [] = True"
| "is_utf8 (b # bs) =
     (let n = utf8_length b; tail = take (n - 1) bs in
      if n = 0 \<or> length tail < n - 1 then False
      else (tail = [] \<or> utf8_second b (hd tail)) \<and> list_all utf8_cont tail \<and> is_utf8 (drop (n - 1) bs))"
  by pat_completeness auto
termination by (relation "measure length") auto

lemma utf8_ascii: "list_all (\<lambda>b. b < 0x80) s \<Longrightarrow> is_utf8 s"
  by (induction s) (simp_all add: utf8_length_def)

end
