(* ===== verification/Codec.thy ===== *)
theory Codec
  imports Prelude
begin

text \<open>
  The interface every wire field satisfies.  A codec is an encoder and a decoder that consumes a
  prefix of its input; its two laws say that decoding an encoding gives the value back and that a
  decoder accepts nothing but encodings (so each value has one byte form).  Counted sequences,
  which the formats use everywhere, are codecs again: that is proved once here.  Fixed-width
  little-endian integers and LEB128 varints (\<^verbatim>\<open>core/cavs-object/src/varint.rs\<close> and
  \<^verbatim>\<open>core/cavs-manifest/src/varint.rs\<close>) are the basic codecs.
\<close>

section \<open>Counted sequences\<close>

text \<open>\<^verbatim>\<open>for _ in 0..count { out.push(read(&mut input)?) }\<close>\<close>

fun decode_n :: "(bytes \<Rightarrow> 'e + 'a \<times> bytes) \<Rightarrow> nat \<Rightarrow> bytes \<Rightarrow> 'e + 'a list \<times> bytes" where
  "decode_n dec 0 input = Inr ([], input)"
| "decode_n dec (Suc n) input =
     rbind (dec input) (\<lambda>(x, input).
     rbind (decode_n dec n input) (\<lambda>(xs, input). Inr (x # xs, input)))"

definition encode_all :: "('a \<Rightarrow> bytes) \<Rightarrow> 'a list \<Rightarrow> bytes" where
  "encode_all enc xs = concat (map enc xs)"

lemma encode_all_simps [simp]:
  "encode_all enc [] = []"
  "encode_all enc (x # xs) = enc x @ encode_all enc xs"
  "encode_all enc (xs @ ys) = encode_all enc xs @ encode_all enc ys"
  by (simp_all add: encode_all_def)

lemma decode_n_length: "decode_n dec n input = Inr (xs, rest) \<Longrightarrow> length xs = n"
  by (induction n arbitrary: input xs) (auto simp: rbind_eq_Inr)

section \<open>The codec interface\<close>

locale codec =
  fixes enc :: "'a \<Rightarrow> bytes"
    and dec :: "bytes \<Rightarrow> 'e + 'a \<times> bytes"
    and valid :: "'a \<Rightarrow> bool"
  assumes dec_enc: "valid x \<Longrightarrow> dec (enc x @ rest) = Inr (x, rest)"
    and dec_sound: "dec input = Inr (x, rest) \<Longrightarrow> valid x \<and> input = enc x @ rest"
begin

lemma enc_prefix_free:
  assumes "valid x" "valid y" "enc x @ r = enc y @ s"
  shows "x = y \<and> r = s"
proof -
  have "Inr (x, r) = dec (enc x @ r)" by (rule dec_enc [OF assms(1), symmetric])
  also have "\<dots> = dec (enc y @ s)" by (simp only: assms(3))
  also have "\<dots> = Inr (y, s)" by (rule dec_enc [OF assms(2)])
  finally show ?thesis by simp
qed

lemma enc_inj: "valid x \<Longrightarrow> valid y \<Longrightarrow> enc x = enc y \<Longrightarrow> x = y"
  using enc_prefix_free [of x y "[]" "[]"] by simp

lemma dec_n_enc:
  assumes "\<forall>x \<in> set xs. valid x"
  shows "decode_n dec (length xs) (encode_all enc xs @ rest) = Inr (xs, rest)"
  using assms by (induction xs) (simp_all add: dec_enc)

lemma dec_n_sound:
  assumes "decode_n dec n input = Inr (xs, rest)"
  shows "length xs = n \<and> (\<forall>x \<in> set xs. valid x) \<and> input = encode_all enc xs @ rest"
  using assms
proof (induction n arbitrary: input xs)
  case 0
  then show ?case by simp
next
  case (Suc n)
  then obtain x mid ys where "dec input = Inr (x, mid)" "decode_n dec n mid = Inr (ys, rest)"
      "xs = x # ys"
    by (auto simp: rbind_eq_Inr)
  then show ?case using Suc.IH dec_sound by auto
qed

lemma dec_shrinks: "dec input = Inr (x, rest) \<Longrightarrow> length rest \<le> length input"
  using dec_sound by fastforce

end

section \<open>Fixed-width fields\<close>

text \<open>
  \<^verbatim>\<open>take_array::<N>\<close> and \<^verbatim>\<open>take::<N>\<close>: the first \<open>n\<close> bytes, or the given
  truncation error.
\<close>

definition take_bytes :: "'e \<Rightarrow> nat \<Rightarrow> bytes \<Rightarrow> 'e + bytes \<times> bytes" where
  "take_bytes err n input =
     (if length input < n then Inl err else Inr (take n input, drop n input))"

definition take_le :: "'e \<Rightarrow> nat \<Rightarrow> bytes \<Rightarrow> 'e + 'a::len word \<times> bytes" where
  "take_le err n input =
     rbind (take_bytes err n input) (\<lambda>(field, input). Inr (from_le field, input))"

lemma take_bytes_append [simp]:
  "length field = n \<Longrightarrow> take_bytes err n (field @ rest) = Inr (field, rest)"
  by (simp add: take_bytes_def)

lemma take_bytes_eq_Inr [result_simps]:
  "take_bytes err n input = Inr (field, rest) \<longleftrightarrow> input = field @ rest \<and> length field = n"
  by (auto simp: take_bytes_def)

lemma take_le_enc [simp]:
  fixes x :: "'a::len word"
  assumes "LENGTH('a) \<le> 8 * n"
  shows "take_le err n (to_le n x @ rest) = Inr (x, rest)"
  using assms by (simp add: take_le_def)

lemma take_le_sound:
  fixes x :: "'a::len word"
  assumes "8 * n \<le> LENGTH('a)" "take_le err n input = Inr (x, rest)"
  shows "input = to_le n x @ rest"
  using assms to_from_le [where 'a = 'a]
  by (auto simp: take_le_def rbind_eq_Inr take_bytes_eq_Inr)

interpretation fixed_bytes: codec "\<lambda>x. x" "take_bytes err n" "\<lambda>x. length x = n"
  for err :: 'e and n :: nat
  by unfold_locales (auto simp: take_bytes_eq_Inr)

interpretation le16: codec "to_le 2" "take_le err 2 :: bytes \<Rightarrow> 'e + u16 \<times> bytes" "\<lambda>_. True"
  for err :: 'e
  by unfold_locales (auto simp: take_le_sound)

interpretation le32: codec "to_le 4" "take_le err 4 :: bytes \<Rightarrow> 'e + u32 \<times> bytes" "\<lambda>_. True"
  for err :: 'e
  by unfold_locales (auto simp: take_le_sound)

interpretation le64: codec "to_le 8" "take_le err 8 :: bytes \<Rightarrow> 'e + u64 \<times> bytes" "\<lambda>_. True"
  for err :: 'e
  by unfold_locales (auto simp: take_le_sound)

section \<open>LEB128 varints\<close>

function write_varuint :: "u64 \<Rightarrow> bytes" where
  "write_varuint value =
     (if 0x80 \<le> value
      then (ucast value OR 0x80) # write_varuint (drop_bit 7 value)
      else [ucast value])"
  by pat_completeness auto
termination
proof (relation "measure unat")
  fix v :: u64
  assume "0x80 \<le> v"
  then have "128 \<le> unat v" by (simp add: word_le_nat_alt)
  then show "(drop_bit 7 v, v) \<in> measure unat"
    by (simp only: in_measure unat_drop_bit_eq) (simp add: drop_bit_eq_div)
qed simp

declare write_varuint.simps [simp del]

definition max_varint_bytes :: nat where
  "max_varint_bytes = 10"

text \<open>
  The reading loop, over the rounds left, the round \<open>i\<close>, the value so far and the input from
  position \<open>i\<close> on.  The two crates differ only in which error each rejection reports:
  truncated input, an overlong form, and bits past a \<^verbatim>\<open>u64\<close>.
\<close>

fun read_varuint_loop ::
    "'e \<Rightarrow> 'e \<Rightarrow> 'e \<Rightarrow> nat \<Rightarrow> nat \<Rightarrow> u64 \<Rightarrow> bytes \<Rightarrow> 'e + u64 \<times> bytes" where
  "read_varuint_loop truncated overlong overflow 0 i value input = Inl overlong"
| "read_varuint_loop truncated overlong overflow (Suc n) i value input =
     (case input of
        [] \<Rightarrow> Inl truncated
      | byte # rest \<Rightarrow>
          if byte = 0 \<and> 7 * i \<noteq> 0 then Inl overlong
          else if i = max_varint_bytes - 1 \<and> 1 < byte then Inl overflow
          else
            let value = value OR push_bit (7 * i) (ucast (byte AND 0x7f)) in
            if byte AND 0x80 = 0 then Inr (value, rest)
            else read_varuint_loop truncated overlong overflow n (i + 1) value rest)"

definition read_varuint_with :: "'e \<Rightarrow> 'e \<Rightarrow> 'e \<Rightarrow> bytes \<Rightarrow> 'e + u64 \<times> bytes" where
  "read_varuint_with truncated overlong overflow input =
     read_varuint_loop truncated overlong overflow max_varint_bytes 0 0 input"

subsection \<open>Bits of one varint byte\<close>

lemma bit_80: "bit (0x80 :: byte) k \<longleftrightarrow> k = 7"
proof (cases "k < 8")
  case True
  then have "k \<in> {0, 1, 2, 3, 4, 5, 6, 7}" by (simp only: insert_iff empty_iff) presburger
  then show ?thesis by auto
next
  case False
  then show ?thesis by (auto dest: bit_imp_le_length)
qed

lemma and_7f: "(b :: byte) AND 0x7f = take_bit 7 b"
  by (simp add: take_bit_eq_mask mask_eq_exp_minus_1)

lemma and_80_eq_0: "(b :: byte) AND 0x80 = 0 \<longleftrightarrow> \<not> bit b 7"
  using bit_iff_and_push_bit_not_eq_0 [of b 7] by simp

lemma le_7f_iff: "(v :: u64) < 0x80 \<longleftrightarrow> drop_bit 7 v = 0"
proof -
  have "drop_bit 7 v = 0 \<longleftrightarrow> unat (drop_bit 7 v) = 0" by (simp add: unat_eq_zero)
  also have "\<dots> \<longleftrightarrow> unat v div 128 = 0"
    by (simp only: unat_drop_bit_eq) (simp add: drop_bit_eq_div)
  also have "\<dots> \<longleftrightarrow> v < 0x80" by (simp add: word_less_nat_alt div_eq_0_iff)
  finally show ?thesis by simp
qed

lemma drop7_bits:
  fixes v :: u64
  assumes "drop_bit 7 v = 0" "bit v k"
  shows "k < 7"
proof (rule ccontr)
  assume "\<not> k < 7"
  then have "bit (drop_bit 7 v) (k - 7)" using assms(2) by (simp add: bit_drop_bit_eq)
  then show False by (simp add: assms(1))
qed

lemma one_bit_cases:
  fixes v :: u64
  assumes "take_bit 1 v = v"
  shows "v = 0 \<or> v = 1"
proof -
  have low: "\<And>k. bit v k \<Longrightarrow> k = 0" by (metis assms bit_take_bit_iff less_one)
  show ?thesis
  proof (cases "bit v 0")
    case True
    then have "v = 1" by (intro bit_word_eqI) (auto simp: bit_1_iff dest: low)
    then show ?thesis ..
  next
    case False
    then have "v = 0" by (intro bit_word_eqI) (auto dest: low)
    then show ?thesis ..
  qed
qed

lemma last_byte:
  fixes v :: u64
  assumes "v < 0x80"
  shows "ucast ((ucast v :: byte) AND 0x7f) = v" "(ucast v :: byte) AND 0x80 = 0"
    "(ucast v :: byte) = 0 \<longleftrightarrow> v = 0"
proof -
  have low: "\<And>k. bit v k \<Longrightarrow> k < 7" using assms drop7_bits le_7f_iff by blast
  then have low8: "\<And>k. bit v k \<Longrightarrow> k < 8" by fastforce
  show "ucast ((ucast v :: byte) AND 0x7f) = v"
    by (rule bit_word_eqI) (use low low8 in \<open>auto simp: and_7f bit_simps\<close>)
  show "(ucast v :: byte) AND 0x80 = 0"
    using low by (force simp: and_80_eq_0 bit_simps)
  show "(ucast v :: byte) = 0 \<longleftrightarrow> v = 0"
  proof
    assume z: "(ucast v :: byte) = 0"
    have "\<not> bit v k" for k
    proof
      assume k: "bit v k"
      then have "bit (ucast v :: byte) k" using low [OF k] by (simp add: bit_simps)
      then show False by (simp add: z)
    qed
    then show "v = 0" by (simp add: bit_eq_iff)
  qed simp
qed

lemma continued_byte:
  fixes v :: u64
  shows "(ucast v OR 0x80 :: byte) AND 0x80 \<noteq> 0" "(ucast v OR 0x80 :: byte) \<noteq> 0"
    "ucast ((ucast v OR 0x80 :: byte) AND 0x7f) = take_bit 7 v"
proof -
  show "(ucast v OR 0x80 :: byte) AND 0x80 \<noteq> 0"
    by (simp add: and_80_eq_0 bit_simps bit_80)
  then show "(ucast v OR 0x80 :: byte) \<noteq> 0" by (metis and_zero_eq bit.conj_zero_left)
  show "ucast ((ucast v OR 0x80 :: byte) AND 0x7f) = take_bit 7 v"
    by (rule bit_word_eqI) (auto simp: and_7f bit_simps bit_80)
qed

lemma or_push_step:
  fixes v :: u64
  shows "(acc OR push_bit (7 * i) (take_bit 7 v)) OR push_bit (7 * (i + 1)) (drop_bit 7 v)
    = acc OR push_bit (7 * i) v"
proof (rule bit_word_eqI)
  fix k assume "k < LENGTH(64)"
  then show "bit ((acc OR push_bit (7 * i) (take_bit 7 v)) OR push_bit (7 * (i + 1)) (drop_bit 7 v)) k
    = bit (acc OR push_bit (7 * i) v) k"
    by (cases "7 * (i + 1) \<le> k") (auto simp: bit_simps)
qed

subsection \<open>Varint round trip\<close>

lemma read_loop_write:
  assumes "i \<le> 9" "take_bit (64 - 7 * i) v = v" "0 < i \<Longrightarrow> v \<noteq> 0"
  shows "read_varuint_loop t ol ov (10 - i) i acc (write_varuint v @ rest)
    = Inr (acc OR push_bit (7 * i) v, rest)"
  using assms
proof (induction v arbitrary: i acc rule: write_varuint.induct)
  case (1 v)
  obtain n where n: "10 - i = Suc n" "n = 10 - (i + 1)"
    using "1.prems"(1) by (cases "10 - i") auto
  show ?case
  proof (cases "0x80 \<le> v")
    case True
    then have d: "drop_bit 7 v \<noteq> 0" using le_7f_iff [of v] by (simp add: not_less [symmetric])
    have "i \<noteq> 9"
    proof
      assume "i = 9"
      then have "take_bit 1 v = v" using "1.prems"(2) by simp
      then have "v = 0 \<or> v = 1" by (rule one_bit_cases)
      with True show False by (auto simp: word_le_nat_alt)
    qed
    then have i: "i + 1 \<le> 9" using "1.prems"(1) by simp
    have tb: "take_bit (64 - 7 * (i + 1)) (drop_bit 7 v) = drop_bit 7 v"
    proof (rule bit_word_eqI)
      fix k assume "k < LENGTH(64)"
      have "bit v (7 + k) \<Longrightarrow> 7 + k < 64 - 7 * i" using "1.prems"(2) by (metis bit_take_bit_iff)
      then show "bit (take_bit (64 - 7 * (i + 1)) (drop_bit 7 v)) k = bit (drop_bit 7 v) k"
        by (auto simp: bit_simps)
    qed
    have "read_varuint_loop t ol ov n (i + 1) (acc OR push_bit (7 * i) (take_bit 7 v))
        (write_varuint (drop_bit 7 v) @ rest) = Inr (acc OR push_bit (7 * i) v, rest)"
      unfolding n(2) using "1.IH" [OF True i tb] d or_push_step [of acc i v] by simp
    then show ?thesis
      using True n \<open>i \<noteq> 9\<close>
      by (simp add: write_varuint.simps [of v] continued_byte max_varint_bytes_def)
  next
    case False
    then have v: "v < 0x80" by simp
    have "i = 9 \<Longrightarrow> \<not> 1 < (ucast v :: byte)"
    proof
      assume "i = 9" and less: "1 < (ucast v :: byte)"
      then have "take_bit 1 v = v" using "1.prems"(2) by simp
      with less show False using one_bit_cases [of v] by auto
    qed
    then show ?thesis
      using v n "1.prems"(3)
      by (auto simp: write_varuint.simps [of v] last_byte max_varint_bytes_def not_le)
  qed
qed

lemma read_write_varuint:
  "read_varuint_with t ol ov (write_varuint v @ rest) = Inr (v, rest)"
  using read_loop_write [of 0 v t ol ov 0 rest]
  by (simp add: read_varuint_with_def max_varint_bytes_def take_bit_word_eq_self)

subsection \<open>Only canonical varints are accepted\<close>

lemma final_byte_value:
  fixes b :: byte
  assumes "b AND 0x80 = 0"
  shows "write_varuint (ucast b) = [b]" "ucast (b AND 0x7f) = (ucast b :: u64)"
    "(ucast b :: u64) < 0x80" "bit (ucast b :: u64) k \<Longrightarrow> k < 7"
proof -
  have n7: "\<not> bit b 7" using assms by (simp add: and_80_eq_0)
  have low: "k < 7" if "bit (ucast b :: u64) k" for k
  proof -
    have "bit b k" "k < 8" using that by (auto simp: bit_simps dest: bit_imp_le_length)
    then show ?thesis using n7 by (cases "k = 7") auto
  qed
  have "drop_bit 7 (ucast b :: u64) = 0"
    by (rule bit_word_eqI) (auto simp: bit_drop_bit_eq dest: low)
  then show less: "(ucast b :: u64) < 0x80" by (simp add: le_7f_iff)
  have "(ucast (ucast b :: u64) :: byte) = b"
    by (rule bit_word_eqI) (auto simp: bit_simps)
  then show "write_varuint (ucast b) = [b]"
    using less by (simp add: write_varuint.simps [of "ucast b"] not_le [symmetric])
  show "ucast (b AND 0x7f) = (ucast b :: u64)"
    by (rule bit_word_eqI) (use low in \<open>auto simp: and_7f bit_simps\<close>)
  show "bit (ucast b :: u64) k \<Longrightarrow> k < 7" by (rule low)
qed

lemma joined_value:
  fixes b :: byte and w :: u64
  assumes "b AND 0x80 \<noteq> 0" "w \<noteq> 0" "take_bit 57 w = w"
  defines "v \<equiv> ucast (b AND 0x7f) OR push_bit 7 w"
  shows "write_varuint v = b # write_varuint w"
    "(acc OR push_bit (7 * i) (ucast (b AND 0x7f))) OR push_bit (7 * (i + 1)) w
      = acc OR push_bit (7 * i) v"
proof -
  have w57: "k < 57" if "bit w k" for k using assms(3) that by (metis bit_take_bit_iff)
  have hi: "drop_bit 7 v = w"
    by (rule bit_word_eqI) (auto simp: v_def and_7f bit_simps dest: w57)
  then have "0x80 \<le> v" using le_7f_iff [of v] assms(2) by (auto simp: not_less [symmetric])
  moreover have "(ucast v OR 0x80 :: byte) = b"
  proof (rule bit_word_eqI)
    fix k assume "k < LENGTH(8)"
    moreover have "bit b 7" using assms(1) by (simp add: and_80_eq_0)
    ultimately show "bit (ucast v OR 0x80 :: byte) k = bit b k"
      using bit_80 [of k] by (cases "k = 7") (auto simp: v_def and_7f bit_simps)
  qed
  ultimately show "write_varuint v = b # write_varuint w"
    by (simp add: write_varuint.simps [of v] hi)
  show "(acc OR push_bit (7 * i) (ucast (b AND 0x7f))) OR push_bit (7 * (i + 1)) w
      = acc OR push_bit (7 * i) v"
    by (rule bit_word_eqI) (auto simp: v_def and_7f bit_simps algebra_simps)
qed

lemma read_loop_sound:
  assumes "read_varuint_loop t ol ov n i acc input = Inr (v, rest)" "n + i = 10"
  shows "\<exists>w. input = write_varuint w @ rest \<and> v = acc OR push_bit (7 * i) w
    \<and> take_bit (64 - 7 * i) w = w \<and> (0 < i \<longrightarrow> w \<noteq> 0)"
  using assms
proof (induction n arbitrary: i acc input)
  case 0
  then show ?case by simp
next
  case (Suc n)
  then obtain b input' where input: "input = b # input'" by (cases input) auto
  have b0: "0 < i \<Longrightarrow> b \<noteq> 0" and b9: "i = 9 \<Longrightarrow> \<not> 1 < b"
    using Suc.prems(1) by (auto simp: input max_varint_bytes_def split: if_splits)
  show ?case
  proof (cases "b AND 0x80 = 0")
    case True
    have fin: "input' = rest" "v = acc OR push_bit (7 * i) (ucast b)"
      using Suc.prems(1) b0 b9 True
      by (auto simp: input max_varint_bytes_def final_byte_value split: if_splits)
    have "take_bit (64 - 7 * i) (ucast b) = (ucast b :: u64)"
    proof (cases "i = 9")
      case True
      have "unat b = 0 \<or> unat b = 1" using b9 [OF True] by (auto simp: word_less_nat_alt)
      then have "b = 0 \<or> b = 1" by (auto simp: word_unat_eq_iff)
      with \<open>i = 9\<close> show ?thesis by auto
    next
      case False
      then have "7 * i \<le> 56" using Suc.prems(2) by simp
      then show ?thesis
        by (intro bit_word_eqI) (auto simp: bit_take_bit_iff dest: final_byte_value(4) [OF True])
    qed
    moreover have "0 < i \<longrightarrow> (ucast b :: u64) \<noteq> 0"
      using b0 final_byte_value(1) [OF True] by (auto simp: write_varuint.simps)
    ultimately show ?thesis
      using fin True by (intro exI [of _ "ucast b"]) (simp add: input final_byte_value)
  next
    case False
    have i: "i \<noteq> 9"
    proof
      assume "i = 9"
      then have "unat b = 0 \<or> unat b = 1" using b9 by (auto simp: word_less_nat_alt)
      then have "b = 0 \<or> b = 1" by (auto simp: word_unat_eq_iff)
      with False show False by auto
    qed
    have ni: "n + (i + 1) = 10" and i8: "i \<le> 8" using Suc.prems(2) i by simp_all
    have rec: "read_varuint_loop t ol ov n (i + 1)
        (acc OR push_bit (7 * i) (ucast (b AND 0x7f))) input' = Inr (v, rest)"
      using Suc.prems(1) b0 i False by (auto simp: input max_varint_bytes_def Let_def split: if_splits)
    from Suc.IH [OF rec ni] obtain w where w: "input' = write_varuint w @ rest"
        "v = (acc OR push_bit (7 * i) (ucast (b AND 0x7f))) OR push_bit (7 * (i + 1)) w"
        "take_bit (64 - 7 * (i + 1)) w = w" "w \<noteq> 0"
      by auto
    let ?v = "ucast (b AND 0x7f) OR push_bit 7 w"
    have wbit: "k < 57 - 7 * i" if "bit w k" for k
    proof -
      have "k < 64 - 7 * (i + 1)" using w(3) that by (metis bit_take_bit_iff)
      then show ?thesis by simp
    qed
    have tb: "take_bit 57 w = w"
      by (rule bit_word_eqI) (auto simp: bit_take_bit_iff dest: wbit)
    note joined = joined_value [OF False w(4) tb]
    have vbit: "k < 64 - 7 * i" if "bit ?v k" for k
    proof (cases "k < 7")
      case True
      then show ?thesis using i8 by simp
    next
      case False
      then have "bit w (k - 7)" using that by (auto simp: and_7f bit_simps)
      then show ?thesis using wbit False i8 by fastforce
    qed
    have "take_bit (64 - 7 * i) ?v = ?v"
      by (rule bit_word_eqI) (auto simp only: bit_take_bit_iff dest: vbit)
    moreover have "?v \<noteq> 0"
      using joined(1) w(4) by (auto simp: write_varuint.simps split: if_splits)
    ultimately show ?thesis
      using joined w(1,2) by (intro exI [of _ ?v]) (simp add: input)
  qed
qed

lemma read_varuint_sound:
  assumes "read_varuint_with t ol ov input = Inr (v, rest)"
  shows "input = write_varuint v @ rest"
  using read_loop_sound [of t ol ov 10 0 0 input v rest] assms
  by (auto simp: read_varuint_with_def max_varint_bytes_def)

interpretation varuint: codec write_varuint "read_varuint_with t ol ov" "\<lambda>_. True"
  for t ol ov :: 'e
  by unfold_locales (auto simp: read_write_varuint read_varuint_sound)

lemma length_write_varuint_le:
  "unat v < 2 ^ (7 * Suc n) \<Longrightarrow> length (write_varuint v) \<le> Suc n"
proof (induction n arbitrary: v)
  case 0
  then have "\<not> 0x80 \<le> v" by (simp add: word_le_nat_alt)
  then show ?case by (simp add: write_varuint.simps)
next
  case (Suc n)
  have "unat (drop_bit 7 v) < 2 ^ (7 * Suc n)"
    using Suc.prems by (simp only: unat_drop_bit_eq) (simp add: drop_bit_eq_div div_less_iff_less_mult power_add)
  then have "length (write_varuint (drop_bit 7 v)) \<le> Suc n" by (rule Suc.IH)
  then show ?case by (simp add: write_varuint.simps [of v])
qed

lemma length_write_varuint: "length (write_varuint v) \<le> max_varint_bytes"
proof -
  have "unat v < 2 ^ (7 * Suc 9)" using unat_u64 [of v] by (rule less_trans) simp
  then show ?thesis using length_write_varuint_le [of v 9] by (simp add: max_varint_bytes_def)
qed

lemma write_varuint_nonempty: "write_varuint v \<noteq> []"
  by (simp add: write_varuint.simps)

end
