(* ===== verification/Cavs_Hash.thy ===== *)
theory Cavs_Hash
  imports Prelude
begin

text \<open>
  The crate \<^verbatim>\<open>cavs-hash\<close> (\<^verbatim>\<open>core/cavs-hash/src/lib.rs\<close>): hash identifiers, hexadecimal
  display and parsing of digests, the message a content signature covers, and the Merkle root over
  an ordered list of chunk hashes.  BLAKE3 is third-party code, so it is the parameter
  \<open>blake3\<close> of every definition that hashes; what a theorem needs of it is a hypothesis
  (32-byte digests, no collision among the finitely many strings that are actually hashed).
\<close>

section \<open>Digests\<close>

type_synonym chunk_hash = bytes
type_synonym hash_fun = "bytes \<Rightarrow> bytes"

datatype hash_algo = HA_Blake3

definition hash_algo_from_u8 :: "byte \<Rightarrow> hash_algo option" where
  "hash_algo_from_u8 v = (if v = 1 then Some HA_Blake3 else None)"

definition hash_chunk :: "hash_fun \<Rightarrow> bytes \<Rightarrow> chunk_hash" where
  "hash_chunk blake3 data = blake3 data"

text \<open>
  The incremental hasher is the list of bytes fed to it so far; \<^verbatim>\<open>finalize\<close> is documented
  to be the hash of their concatenation.
\<close>

datatype hasher = Hasher bytes

definition hasher_new :: hasher where
  "hasher_new = Hasher []"

fun hasher_update :: "bytes \<Rightarrow> hasher \<Rightarrow> hasher" where
  "hasher_update data (Hasher fed) = Hasher (fed @ data)"

fun hasher_finalize :: "hash_fun \<Rightarrow> hasher \<Rightarrow> chunk_hash" where
  "hasher_finalize blake3 (Hasher fed) = blake3 fed"

section \<open>Hexadecimal digests\<close>

definition hex_digit :: "byte \<Rightarrow> char" where
  "hex_digit v = ''0123456789abcdef'' ! unat v"

definition to_hex :: "chunk_hash \<Rightarrow> string" where
  "to_hex hash = concat (map (\<lambda>b. [hex_digit (drop_bit 4 b), hex_digit (b AND 0x0f)]) hash)"

text \<open>
  \<^verbatim>\<open>char::to_digit(16)\<close> and \<^verbatim>\<open>u8::from_str_radix(_, 16)\<close> of the standard library: a
  leading plus sign is accepted, and a value past 255 is an overflow error.
\<close>

definition char_code :: "char \<Rightarrow> nat" where
  "char_code c = of_char c"

definition to_digit16 :: "char \<Rightarrow> nat option" where
  "to_digit16 c = (let n = char_code c in
     if 48 \<le> n \<and> n \<le> 57 then Some (n - 48)
     else if 97 \<le> n \<and> n \<le> 102 then Some (n - 87)
     else if 65 \<le> n \<and> n \<le> 70 then Some (n - 55)
     else None)"

fun radix16_digits :: "nat \<Rightarrow> string \<Rightarrow> nat option" where
  "radix16_digits acc [] = Some acc"
| "radix16_digits acc (c # cs) =
     (case to_digit16 c of None \<Rightarrow> None
      | Some d \<Rightarrow> if 255 < 16 * acc + d then None else radix16_digits (16 * acc + d) cs)"

definition u8_from_str_radix16 :: "string \<Rightarrow> byte option" where
  "u8_from_str_radix16 s =
     (if s = [] \<or> s = ''+'' \<or> s = ''-'' then None
      else map_option of_nat
             (radix16_digits 0 (if hd s = CHR ''+'' then tl s else s)))"

text \<open>
  A string slice panics unless both ends fall on a character boundary: its byte there is not a
  UTF-8 continuation byte.  \<open>Inl\<close> is that panic.
\<close>

fun starts_at_boundary :: "string \<Rightarrow> bool" where
  "starts_at_boundary [] = True"
| "starts_at_boundary (c # cs) = (char_code c < 128 \<or> 192 \<le> char_code c)"

fun from_hex_pairs :: "string \<Rightarrow> string + chunk_hash option" where
  "from_hex_pairs (a # b # rest) =
     (if \<not> starts_at_boundary (a # b # rest) \<or> \<not> starts_at_boundary rest
      then Inl ''byte index is not a char boundary''
      else case u8_from_str_radix16 [a, b] of
             None \<Rightarrow> Inr None
           | Some x \<Rightarrow> rbind (from_hex_pairs rest) (\<lambda>out. Inr (map_option ((#) x) out)))"
| "from_hex_pairs _ = Inr (Some [])"

definition from_hex :: "string \<Rightarrow> string + chunk_hash option" where
  "from_hex s = (if length s \<noteq> 64 then Inr None else from_hex_pairs s)"

lemma length_to_hex [simp]: "length (to_hex hash) = 2 * length hash"
  by (induction hash) (simp_all add: to_hex_def)

lemma less_16_cases:
  "(n::nat) < 16 \<Longrightarrow> n \<in> {0,1,2,3,4,5,6,7,8,9,10,11,12,13,14,15}"
  by (simp only: insert_iff empty_iff) presburger

lemma to_digit16_nth: "n < 16 \<Longrightarrow> to_digit16 (''0123456789abcdef'' ! n) = Some n"
  by (drule less_16_cases) (auto simp: to_digit16_def char_code_def)

lemma hex_nth_code: "n < 16 \<Longrightarrow> char_code (''0123456789abcdef'' ! n) < 128 \<and>
    ''0123456789abcdef'' ! n \<noteq> CHR ''+'' \<and> ''0123456789abcdef'' ! n \<noteq> CHR ''-''"
  by (drule less_16_cases) (auto simp: char_code_def)

lemma nibbles:
  fixes b :: byte
  shows "unat (drop_bit 4 b) < 16" "unat (b AND 0x0f) < 16"
    "16 * unat (drop_bit 4 b) + unat (b AND 0x0f) = unat b"
proof -
  have d: "unat (drop_bit 4 b) = unat b div 16"
    by (simp only: unat_drop_bit_eq) (simp add: drop_bit_eq_div)
  have m: "unat (b AND 0x0f) = unat b mod 16"
  proof -
    have "b AND 0x0f = take_bit 4 b"
      by (simp add: take_bit_eq_mask mask_eq_exp_minus_1)
    then show ?thesis by (simp only: unsigned_take_bit_eq) (simp add: take_bit_eq_mod)
  qed
  have "unat b < 256" by (rule unat_byte)
  then show "unat (drop_bit 4 b) < 16" by (simp add: d)
  show "unat (b AND 0x0f) < 16" by (simp add: m)
  show "16 * unat (drop_bit 4 b) + unat (b AND 0x0f) = unat b" by (simp add: d m)
qed

lemma u8_from_hex_digits:
  "u8_from_str_radix16 [hex_digit (drop_bit 4 b), hex_digit (b AND 0x0f)] = Some b"
proof -
  have "unat b \<le> 255" using unat_byte [of b] by simp
  then show ?thesis
    using nibbles [of b] hex_nth_code [of "unat (drop_bit 4 b)"]
    by (simp add: u8_from_str_radix16_def hex_digit_def to_digit16_nth)
qed

lemma starts_at_boundary_to_hex: "starts_at_boundary (to_hex hash)"
  using hex_nth_code nibbles by (cases hash) (simp_all add: to_hex_def hex_digit_def)

lemma from_hex_pairs_to_hex: "from_hex_pairs (to_hex hash) = Inr (Some hash)"
proof (induction hash)
  case Nil
  show ?case by (simp add: to_hex_def)
next
  case (Cons b hash)
  have "to_hex (b # hash) = hex_digit (drop_bit 4 b) # hex_digit (b AND 0x0f) # to_hex hash"
    by (simp add: to_hex_def)
  moreover have "char_code (hex_digit (drop_bit 4 b)) < 128"
    using hex_nth_code nibbles by (simp add: hex_digit_def)
  ultimately show ?case
    using Cons.IH by (simp add: u8_from_hex_digits starts_at_boundary_to_hex)
qed

lemma from_to_hex [simp]: "length hash = 32 \<Longrightarrow> from_hex (to_hex hash) = Inr (Some hash)"
  by (simp add: from_hex_def from_hex_pairs_to_hex)

lemma to_hex_inj: "to_hex x = to_hex y \<Longrightarrow> x = y"
  by (metis from_hex_pairs_to_hex option.inject sum.inject(2))

lemma length_from_hex_pairs:
  "from_hex_pairs s = Inr (Some d) \<Longrightarrow> length d = length s div 2"
  by (induction s arbitrary: d rule: from_hex_pairs.induct)
    (auto simp: rbind_eq_Inr split: if_splits option.splits)

lemma length_from_hex: "from_hex s = Inr (Some d) \<Longrightarrow> length d = 32"
  by (auto simp: from_hex_def dest: length_from_hex_pairs split: if_splits)

section \<open>The Merkle root\<close>

fun merkle_level :: "hash_fun \<Rightarrow> chunk_hash list \<Rightarrow> chunk_hash list" where
  "merkle_level blake3 (a # b # rest) = blake3 (a @ b) # merkle_level blake3 rest"
| "merkle_level blake3 level = level"

lemma length_merkle_level: "length (merkle_level blake3 level) = (length level + 1) div 2"
  by (induction blake3 level rule: merkle_level.induct) simp_all

function merkle_reduce :: "hash_fun \<Rightarrow> chunk_hash list \<Rightarrow> chunk_hash" where
  "merkle_reduce blake3 level =
     (if 1 < length level then merkle_reduce blake3 (merkle_level blake3 level) else level ! 0)"
  by pat_completeness auto
termination
  by (relation "measure (\<lambda>(_, level). length level)") (auto simp: length_merkle_level)

declare merkle_reduce.simps [simp del]

definition merkle_root :: "hash_fun \<Rightarrow> chunk_hash list \<Rightarrow> chunk_hash" where
  "merkle_root blake3 hashes = (if hashes = [] then blake3 [] else merkle_reduce blake3 hashes)"

definition content_signature_message :: "chunk_hash \<Rightarrow> u64 \<Rightarrow> bytes" where
  "content_signature_message root chunk_count = ascii ''CAVS1-SIG-V1'' @ root @ to_le 8 chunk_count"

text \<open>The strings hashed while a root is computed: the concatenated pairs of every level.\<close>

fun level_inputs :: "chunk_hash list \<Rightarrow> bytes list" where
  "level_inputs (a # b # rest) = (a @ b) # level_inputs rest"
| "level_inputs level = []"

function merkle_inputs :: "hash_fun \<Rightarrow> chunk_hash list \<Rightarrow> bytes list" where
  "merkle_inputs blake3 level =
     (if 1 < length level
      then level_inputs level @ merkle_inputs blake3 (merkle_level blake3 level) else [])"
  by pat_completeness auto
termination
  by (relation "measure (\<lambda>(_, level). length level)") (auto simp: length_merkle_level)

declare merkle_inputs.simps [simp del]

text \<open>A digest is 32 bytes long.\<close>

definition hash_ok :: "hash_fun \<Rightarrow> bool" where
  "hash_ok blake3 \<longleftrightarrow> (\<forall>x. length (blake3 x) = 32)"

definition digests :: "chunk_hash list \<Rightarrow> bool" where
  "digests level \<longleftrightarrow> (\<forall>d \<in> set level. length d = 32)"

lemma digests_simps [simp]:
  "digests []" "digests (d # ds) \<longleftrightarrow> length d = 32 \<and> digests ds"
  by (simp_all add: digests_def)

lemma digests_merkle_level:
  "(\<And>x. length (blake3 x) = 32) \<Longrightarrow> digests level \<Longrightarrow> digests (merkle_level blake3 level)"
  by (induction blake3 level rule: merkle_level.induct) simp_all

lemma merkle_level_inj:
  assumes "length xs = length ys" "digests xs" "digests ys"
    and "inj_on blake3 (set (level_inputs xs) \<union> set (level_inputs ys))"
    and "merkle_level blake3 xs = merkle_level blake3 ys"
  shows "xs = ys"
  using assms
proof (induction xs arbitrary: ys rule: level_inputs.induct)
  case (1 a b rest)
  from "1.prems"(1) obtain c d rest' where ys: "ys = c # d # rest'"
    by (cases ys; cases "tl ys") auto
  have "blake3 (a @ b) = blake3 (c @ d)"
    using "1.prems"(5) by (simp add: ys)
  then have "a @ b = c @ d"
    by (rule inj_onD [OF "1.prems"(4)]) (simp_all add: ys)
  moreover have "inj_on blake3 (set (level_inputs rest) \<union> set (level_inputs rest'))"
    using "1.prems"(4) by (rule inj_on_subset) (auto simp: ys)
  then have "rest = rest'"
    using "1.prems"(1,2,3,5) by (intro "1.IH") (simp_all add: ys)
  ultimately show ?case using "1.prems"(2,3) by (simp add: ys)
next
  case "2_1"
  then show ?case by simp
next
  case "2_2"
  then show ?case by (cases ys) auto
qed

lemma merkle_reduce_inj:
  assumes "\<And>x. length (blake3 x) = 32"
    and "length xs = length ys" "xs \<noteq> []" "digests xs" "digests ys"
    and "inj_on blake3 (set (merkle_inputs blake3 xs) \<union> set (merkle_inputs blake3 ys))"
    and "merkle_reduce blake3 xs = merkle_reduce blake3 ys"
  shows "xs = ys"
  using assms(2-)
proof (induction "length xs" arbitrary: xs ys rule: less_induct)
  case less
  show ?case
  proof (cases "1 < length xs")
    case False
    then obtain x y where "xs = [x]" "ys = [y]"
      using less.prems(1,2) by (cases xs; cases ys) auto
    then show ?thesis using less.prems(6) by (simp add: merkle_reduce.simps)
  next
    case True
    let ?X = "merkle_level blake3 xs" and ?Y = "merkle_level blake3 ys"
    have inputs: "set (merkle_inputs blake3 xs) = set (level_inputs xs) \<union> set (merkle_inputs blake3 ?X)"
      "set (merkle_inputs blake3 ys) = set (level_inputs ys) \<union> set (merkle_inputs blake3 ?Y)"
      using True less.prems(1)
      by (simp_all add: merkle_inputs.simps [of blake3 xs] merkle_inputs.simps [of blake3 ys])
    have inj: "inj_on blake3 (set (merkle_inputs blake3 ?X) \<union> set (merkle_inputs blake3 ?Y))"
      using less.prems(5) by (rule inj_on_subset) (auto simp: inputs)
    have lens: "length ?X < length xs" "length ?X = length ?Y"
      using True less.prems(1) by (auto simp: length_merkle_level)
    have "0 < length ?X" using True by (simp add: length_merkle_level)
    then have ne: "?X \<noteq> []" by blast
    have red: "merkle_reduce blake3 ?X = merkle_reduce blake3 ?Y"
      using True less.prems(1,6)
      by (simp add: merkle_reduce.simps [of blake3 xs] merkle_reduce.simps [of blake3 ys])
    have "?X = ?Y"
      by (rule less.hyps [OF lens ne digests_merkle_level [OF assms(1) less.prems(3)]
            digests_merkle_level [OF assms(1) less.prems(4)] inj red])
    moreover have "inj_on blake3 (set (level_inputs xs) \<union> set (level_inputs ys))"
      using less.prems(5) by (rule inj_on_subset) (auto simp: inputs)
    ultimately show ?thesis
      using merkle_level_inj [OF less.prems(1,3,4)] by blast
  qed
qed

lemma length_merkle_root:
  assumes "\<And>x. length (blake3 x) = 32" "digests xs"
  shows "length (merkle_root blake3 xs) = 32"
proof -
  have "length (merkle_reduce blake3 xs) = 32" if "xs \<noteq> []" "digests xs"
    using that
  proof (induction blake3\<equiv>blake3 xs rule: merkle_reduce.induct)
    case (1 level)
    show ?case
    proof (cases "1 < length level")
      case True
      then have "length (merkle_level blake3 level) \<noteq> 0" by (simp add: length_merkle_level)
      with 1 True show ?thesis
        by (simp add: merkle_reduce.simps [of blake3 level] digests_merkle_level [OF assms(1)])
    next
      case False
      with 1 obtain d where "level = [d]" by (cases level) auto
      with 1 show ?thesis by (simp add: merkle_reduce.simps)
    qed
  qed
  with assms show ?thesis by (simp add: merkle_root_def)
qed

end
