(* ===== verification/Object_Id.thy ===== *)
theory Object_Id
  imports Codec Cavs_Hash
begin

text \<open>
  Object classes, errors and ids: \<^verbatim>\<open>core/cavs-object/src/id.rs\<close>,
  \<^verbatim>\<open>core/cavs-object/src/error.rs\<close> and the object crate's instance of the varint reader
  (\<^verbatim>\<open>core/cavs-object/src/varint.rs\<close>).  A panic of the code is one more error value,
  \<open>Panicked\<close>; messages built with \<^verbatim>\<open>format!\<close> keep their fixed text.
\<close>

section \<open>Object classes\<close>

datatype object_kind =
    Chunk | Manifest | Tree | Commit | PackIndex | BundleIndex | Application u32

definition application_tag_base :: u32 where
  "application_tag_base = 0x80000000"

fun kind_tag :: "object_kind \<Rightarrow> u32" where
  "kind_tag Chunk = 0"
| "kind_tag Manifest = 1"
| "kind_tag Tree = 2"
| "kind_tag Commit = 3"
| "kind_tag PackIndex = 4"
| "kind_tag BundleIndex = 5"
| "kind_tag (Application i) = application_tag_base OR (i AND NOT application_tag_base)"

definition kind_from_tag :: "u32 \<Rightarrow> object_kind option" where
  "kind_from_tag t =
     (if t = 0 then Some Chunk
      else if t = 1 then Some Manifest
      else if t = 2 then Some Tree
      else if t = 3 then Some Commit
      else if t = 4 then Some PackIndex
      else if t = 5 then Some BundleIndex
      else if application_tag_base \<le> t then Some (Application (t AND NOT application_tag_base))
      else None)"

fun kind_name :: "object_kind \<Rightarrow> string" where
  "kind_name Chunk = ''chunk''"
| "kind_name Manifest = ''manifest''"
| "kind_name Tree = ''tree''"
| "kind_name Commit = ''commit''"
| "kind_name PackIndex = ''packindex''"
| "kind_name BundleIndex = ''bundleindex''"
| "kind_name (Application _) = ''application''"

fun is_payload :: "object_kind \<Rightarrow> bool" where
  "is_payload Chunk = True"
| "is_payload _ = False"

text \<open>The application ids whose class survives its tag: those below the tag base.\<close>

fun valid_kind :: "object_kind \<Rightarrow> bool" where
  "valid_kind (Application i) = (i < application_tag_base)"
| "valid_kind _ = True"

lemma bit_tag_base: "bit application_tag_base k \<longleftrightarrow> k = 31"
proof -
  have "application_tag_base = push_bit 31 (1 :: u32)" by (simp add: application_tag_base_def)
  then have "bit application_tag_base k \<longleftrightarrow> bit (push_bit 31 (1 :: u32)) k" by (rule arg_cong)
  also have "\<dots> \<longleftrightarrow> k = 31" unfolding bit_push_bit_iff bit_1_iff by auto
  finally show ?thesis .
qed

lemma tag_base_le_iff: "application_tag_base \<le> t \<longleftrightarrow> bit t 31"
proof -
  have "bit t 31 \<longleftrightarrow> bit (unat t) 31" by (simp add: bit_unsigned_iff)
  also have "\<dots> \<longleftrightarrow> odd (unat t div 2 ^ 31)" by (simp only: bit_iff_odd)
  also have "\<dots> \<longleftrightarrow> 2 ^ 31 \<le> unat t"
  proof -
    have "unat t < 2 ^ 32" using unsigned_less [of t, where 'a = nat] by simp
    then have "unat t div 2 ^ 31 < 2" by (simp add: less_mult_imp_div_less)
    moreover have "unat t div 2 ^ 31 = 0 \<longleftrightarrow> \<not> 2 ^ 31 \<le> unat t" by (simp add: div_eq_0_iff not_le)
    ultimately show ?thesis by (metis less_2_cases odd_one even_zero One_nat_def)
  qed
  also have "\<dots> \<longleftrightarrow> application_tag_base \<le> t"
    by (simp add: application_tag_base_def word_le_nat_alt)
  finally show ?thesis by simp
qed

lemma masked_below_base: "\<not> bit i 31 \<Longrightarrow> i AND NOT application_tag_base = (i :: u32)"
  by (rule bit_word_eqI) (auto simp: bit_simps bit_tag_base)

lemma tag_bit_31: "bit (kind_tag (Application i)) 31"
  by (simp add: bit_or_iff bit_tag_base)

lemma kind_from_tag_tag:
  assumes "valid_kind k"
  shows "kind_from_tag (kind_tag k) = Some k"
proof (cases k)
  case (Application i)
  have i31: "\<not> bit i 31" using assms Application by (simp flip: tag_base_le_iff)
  have "kind_tag k AND NOT application_tag_base = i AND NOT application_tag_base"
    by (rule bit_word_eqI) (auto simp: Application bit_simps bit_tag_base)
  then have unmasked: "kind_tag k AND NOT application_tag_base = i"
    using i31 masked_below_base by simp
  have b: "bit (kind_tag k) 31" using tag_bit_31 [of i] Application by (simp only:)
  then have "kind_tag k \<noteq> 0" "kind_tag k \<noteq> 1" "kind_tag k \<noteq> 2" "kind_tag k \<noteq> 3"
      "kind_tag k \<noteq> 4" "kind_tag k \<noteq> 5"
    by (auto simp del: kind_tag.simps)
  then show ?thesis
    using b unmasked Application by (simp add: kind_from_tag_def tag_base_le_iff del: kind_tag.simps)
qed (simp_all add: kind_from_tag_def)

lemma kind_tag_from_tag:
  assumes "kind_from_tag t = Some k"
  shows "valid_kind k \<and> kind_tag k = t"
proof -
  have app: "valid_kind (Application (t AND NOT application_tag_base))"
      "kind_tag (Application (t AND NOT application_tag_base)) = t" if "application_tag_base \<le> t"
  proof -
    have b: "bit t 31" using that by (simp only: tag_base_le_iff)
    show "kind_tag (Application (t AND NOT application_tag_base)) = t"
      by (rule bit_word_eqI) (use b in \<open>auto simp: bit_simps bit_tag_base\<close>)
    have "\<not> bit (t AND NOT application_tag_base) 31" by (simp add: bit_simps bit_tag_base)
    then show "valid_kind (Application (t AND NOT application_tag_base))"
      by (simp add: not_le [symmetric] tag_base_le_iff)
  qed
  show ?thesis
    using assms app by (auto simp: kind_from_tag_def simp del: kind_tag.simps(7) valid_kind.simps(1) split: if_splits)
qed

lemma kind_tag_inj: "valid_kind k \<Longrightarrow> valid_kind l \<Longrightarrow> kind_tag k = kind_tag l \<Longrightarrow> k = l"
  by (metis kind_from_tag_tag option.inject)

lemma payload_tag_iff: "is_payload k \<longleftrightarrow> k = Chunk"
  by (cases k) simp_all

section \<open>Errors\<close>

datatype object_error =
    Truncated string
  | VarintNotCanonical
  | UnsupportedFormat u16
  | UnknownKind u32
  | UnknownHashAlgorithm byte
  | KindMismatch object_kind object_kind
  | DependenciesNotCanonical
  | PayloadWithDependencies
  | TooLarge string nat nat
  | TooManyDependencies nat nat
  | TrailingBytes
  | IdMismatch string string
  | NotFound string
  | Corrupt string
  | CycleDetected string
  | WalkBudget string nat
  | WalkCancelled
  | WalkDeadlineExceeded
  | Io string
  | Panicked string

type_synonym 'a result = "object_error + 'a"

definition read_varuint :: "bytes \<Rightarrow> (u64 \<times> bytes) result" where
  "read_varuint = read_varuint_with (Truncated ''varint'') VarintNotCanonical VarintNotCanonical"

interpretation obj_varuint: codec write_varuint read_varuint "\<lambda>_. True"
  unfolding read_varuint_def by (rule varuint.codec_axioms)

section \<open>Object ids\<close>

datatype hash_algorithm = Blake3

fun algorithm_code :: "hash_algorithm \<Rightarrow> byte" where
  "algorithm_code Blake3 = 1"

definition algorithm_from_code :: "byte \<Rightarrow> hash_algorithm option" where
  "algorithm_from_code code = (if code = 1 then Some Blake3 else None)"

lemma algorithm_codes [simp]:
  "algorithm_from_code (algorithm_code a) = Some a"
  by (cases a) (simp add: algorithm_from_code_def)

lemma algorithm_from_codeD: "algorithm_from_code c = Some a \<Longrightarrow> c = algorithm_code a"
  by (auto simp: algorithm_from_code_def split: if_splits)

datatype object_id = ObjectId (id_algorithm: hash_algorithm) (digest: bytes)

text \<open>The derived order: algorithm first, then the digest byte by byte.\<close>

instantiation object_id :: linorder
begin

definition less_eq_object_id :: "object_id \<Rightarrow> object_id \<Rightarrow> bool" where
  "a \<le> b \<longleftrightarrow> (algorithm_code (id_algorithm a), digest a) \<le> (algorithm_code (id_algorithm b), digest b)"

definition less_object_id :: "object_id \<Rightarrow> object_id \<Rightarrow> bool" where
  "a < b \<longleftrightarrow> (algorithm_code (id_algorithm a), digest a) < (algorithm_code (id_algorithm b), digest b)"

instance
proof
  fix x y z :: object_id
  show "x < y \<longleftrightarrow> x \<le> y \<and> \<not> y \<le> x"
    by (simp only: less_object_id_def less_eq_object_id_def less_le_not_le)
  show "x \<le> x" by (simp only: less_eq_object_id_def)
  show "x \<le> y \<Longrightarrow> y \<le> z \<Longrightarrow> x \<le> z" by (simp only: less_eq_object_id_def)
  show "x \<le> y \<Longrightarrow> y \<le> x \<Longrightarrow> x = y"
    by (cases x; cases y; cases "id_algorithm x"; cases "id_algorithm y")
      (auto simp: less_eq_object_id_def)
  show "x \<le> y \<or> y \<le> x" by (simp only: less_eq_object_id_def linear)
qed

end

definition valid_id :: "object_id \<Rightarrow> bool" where
  "valid_id i \<longleftrightarrow> length (digest i) = 32"

definition from_blake3 :: "bytes \<Rightarrow> object_id" where
  "from_blake3 d = ObjectId Blake3 d"

definition object_domain :: bytes where
  "object_domain = ascii ''cavs-object-v1''"

definition compute_id :: "hash_fun \<Rightarrow> object_kind \<Rightarrow> bytes \<Rightarrow> object_id" where
  "compute_id blake3 kind canonical =
     (if is_payload kind then from_blake3 (hash_chunk blake3 canonical)
      else
        let hasher = hasher_new;
            hasher = hasher_update object_domain hasher;
            hasher = hasher_update (to_le 4 (kind_tag kind)) hasher;
            hasher = hasher_update canonical hasher
        in from_blake3 (hasher_finalize blake3 hasher))"

definition id_to_hex :: "object_id \<Rightarrow> string" where
  "id_to_hex i = to_hex (digest i)"

definition id_parse_hex :: "string \<Rightarrow> object_id option result" where
  "id_parse_hex s = map_err Panicked (rbind (from_hex s) (\<lambda>d. Inr (map_option from_blake3 d)))"

definition ascii_lowercase :: "char \<Rightarrow> char" where
  "ascii_lowercase c =
     (if 65 \<le> char_code c \<and> char_code c \<le> 90 then char_of (char_code c + 32) else c)"

definition has_hex_prefix :: "object_id \<Rightarrow> string \<Rightarrow> bool" where
  "has_hex_prefix i p =
     (let low = map ascii_lowercase p in take (length low) (id_to_hex i) = low)"

definition id_preimage :: "object_kind \<Rightarrow> bytes \<Rightarrow> bytes" where
  "id_preimage kind canonical =
     (if is_payload kind then canonical
      else object_domain @ to_le 4 (kind_tag kind) @ canonical)"

lemma compute_id_preimage: "compute_id blake3 kind c = from_blake3 (blake3 (id_preimage kind c))"
  by (simp add: compute_id_def id_preimage_def hash_chunk_def hasher_new_def)

lemma compute_id_tag:
  "kind_tag k = kind_tag l \<Longrightarrow> is_payload k = is_payload l \<Longrightarrow> compute_id h k c = compute_id h l c"
  by (simp add: compute_id_preimage id_preimage_def)

lemma valid_compute_id: "(\<And>x. length (blake3 x) = 32) \<Longrightarrow> valid_id (compute_id blake3 k c)"
  by (simp add: compute_id_preimage valid_id_def from_blake3_def)

lemma id_preimage_inj:
  assumes "\<not> is_payload k" "\<not> is_payload l" "id_preimage k c = id_preimage l d"
  shows "kind_tag k = kind_tag l \<and> c = d"
proof -
  have "to_le 4 (kind_tag k) @ c = to_le 4 (kind_tag l) @ d"
    using assms by (simp add: id_preimage_def)
  then show ?thesis using le32.enc_prefix_free by blast
qed

lemma from_blake3_inj [simp]: "from_blake3 a = from_blake3 b \<longleftrightarrow> a = b"
  by (simp add: from_blake3_def)

lemma digest_from_blake3 [simp]: "digest (from_blake3 d) = d"
  by (simp add: from_blake3_def)

lemma object_id_eq_iff: "(i :: object_id) = j \<longleftrightarrow> digest i = digest j"
  by (cases i; cases j; cases "id_algorithm i"; cases "id_algorithm j") auto

lemma from_blake3_digest [simp]: "from_blake3 (digest i) = i"
  by (simp add: object_id_eq_iff)

lemma parse_id_to_hex: "valid_id i \<Longrightarrow> id_parse_hex (id_to_hex i) = Inr (Some i)"
  by (simp add: id_parse_hex_def id_to_hex_def valid_id_def)

lemma id_to_hex_inj: "id_to_hex i = id_to_hex j \<Longrightarrow> i = j"
  by (auto simp: id_to_hex_def object_id_eq_iff dest: to_hex_inj)

lemma valid_id_parse_hex: "id_parse_hex s = Inr (Some i) \<Longrightarrow> valid_id i"
  by (auto simp: id_parse_hex_def valid_id_def map_err_eq_Inr rbind_eq_Inr dest: length_from_hex)

text \<open>An id on the wire: an algorithm code and a 32-byte digest.\<close>

definition write_id :: "object_id \<Rightarrow> bytes" where
  "write_id i = algorithm_code (id_algorithm i) # digest i"

definition read_id_with :: "string \<Rightarrow> string \<Rightarrow> bytes \<Rightarrow> (object_id \<times> bytes) result" where
  "read_id_with what_code what_digest input =
     rbind (take_bytes (Truncated what_code) 1 input) (\<lambda>(code, input).
     rbind (ok_or (UnknownHashAlgorithm (hd code)) (algorithm_from_code (hd code))) (\<lambda>algorithm.
     rbind (take_bytes (Truncated what_digest) 32 input) (\<lambda>(d, input).
     Inr (ObjectId algorithm d, input))))"

interpretation id_codec: codec write_id "read_id_with wc wd" valid_id for wc wd
proof
  fix x rest assume "valid_id x"
  then show "read_id_with wc wd (write_id x @ rest) = Inr (x, rest)"
    by (simp add: read_id_with_def write_id_def valid_id_def take_bytes_def)
next
  fix input x rest assume "read_id_with wc wd input = Inr (x, rest)"
  then show "valid_id x \<and> input = write_id x @ rest"
    by (auto simp: read_id_with_def write_id_def valid_id_def result_simps length_Suc_conv
        dest!: algorithm_from_codeD)
qed

lemma length_write_id: "valid_id i \<Longrightarrow> length (write_id i) = 33"
  by (simp add: write_id_def valid_id_def)

section \<open>Messages\<close>

text \<open>
  The messages of \<^verbatim>\<open>core/cavs-object/src/error.rs\<close> and the display of kinds of \<^verbatim>\<open>id.rs\<close>, where
  the code puts one error's text inside another.  The text of an operating-system error is left
  out.
\<close>

fun kind_display :: "object_kind \<Rightarrow> string" where
  "kind_display (Application i) = ''application('' @ decimal (unat i) @ '')''"
| "kind_display k = kind_name k"

fun hex_number :: "nat \<Rightarrow> string" where
  "hex_number n =
     (let digit = [''0123456789abcdef'' ! (n mod 16)]
      in if n < 16 then digit else hex_number (n div 16) @ digit)"

declare hex_number.simps [simp del]

fun render_error :: "object_error \<Rightarrow> string" where
  "render_error (Truncated what) = ''truncated object: ran out of bytes reading '' @ what"
| "render_error VarintNotCanonical = ''varint is not in canonical form''"
| "render_error (UnsupportedFormat v) = ''unsupported object format version '' @ decimal (unat v)"
| "render_error (UnknownKind tag) = ''unknown object kind tag 0x'' @ hex_number (unat tag)"
| "render_error (UnknownHashAlgorithm a) = ''unknown hash algorithm '' @ decimal (unat a)"
| "render_error (KindMismatch expected found) =
     ''object declares kind '' @ kind_display found @ '' but was read as '' @ kind_display expected"
| "render_error DependenciesNotCanonical = ''dependencies are not in canonical order, or repeat''"
| "render_error PayloadWithDependencies = ''a payload object cannot declare dependencies''"
| "render_error (TooLarge what len m) =
     what @ '' is '' @ decimal len @ '' bytes, over the '' @ decimal m @ ''-byte limit''"
| "render_error (TooManyDependencies count m) =
     ''object declares '' @ decimal count @ '' dependencies, over the limit of '' @ decimal m"
| "render_error TrailingBytes = ''bytes remain after the object body''"
| "render_error (IdMismatch expected actual) =
     ''object id mismatch: expected '' @ expected @ '', computed '' @ actual"
| "render_error (NotFound i) = ''object '' @ i @ '' is not in this store''"
| "render_error (Corrupt msg) = msg"
| "render_error (CycleDetected i) = ''the object graph contains a cycle through '' @ i"
| "render_error (WalkBudget what limit) =
     ''walk exceeded its budget of '' @ decimal limit @ '' '' @ what"
| "render_error WalkCancelled = ''walk was cancelled''"
| "render_error WalkDeadlineExceeded = ''walk ran past its deadline''"
| "render_error (Io what) = ''failed to '' @ what @ '': ''"
| "render_error (Panicked msg) = msg"

end
