(* ===== verification/Graph_Walk.thy ===== *)
theory Graph_Walk
  imports Object_Id
begin

text \<open>
  The budgeted depth-first walk over the object graph: \<^verbatim>\<open>core/cavs-object/src/walk.rs\<close>,
  lines 1 to 394.  A graph source is a lookup function, the model of the trait
  \<^verbatim>\<open>GraphSource\<close>.  The stack \<^verbatim>\<open>pending\<close> is kept top first (the code pushes
  and pops at the end of a vector).  The clock and the cancel flag are read from outside: the n-th
  budget check of a walk sees the n-th value of a boolean sequence, and \<open>w_polls\<close> counts the
  checks done, which is the only field without a counterpart in the code.
\<close>

section \<open>Nodes, filters and options\<close>

record object_node =
  node_id :: object_id
  node_kind :: object_kind
  node_len :: nat
  node_deps :: "object_id list"

type_synonym graph_lookup = "object_id \<Rightarrow> object_node option result"

record kind_filter =
  include_kinds :: "object_kind set"
  exclude_kinds :: "object_kind set"

definition no_filter :: kind_filter where
  "no_filter = \<lparr>include_kinds = {}, exclude_kinds = {}\<rparr>"

definition filter_only :: "object_kind list \<Rightarrow> kind_filter" where
  "filter_only ks = \<lparr>include_kinds = set ks, exclude_kinds = {}\<rparr>"

definition filter_without :: "object_kind list \<Rightarrow> kind_filter" where
  "filter_without ks = \<lparr>include_kinds = {}, exclude_kinds = set ks\<rparr>"

definition filter_metadata_only :: kind_filter where
  "filter_metadata_only = filter_without [Chunk]"

definition admits :: "kind_filter \<Rightarrow> object_kind \<Rightarrow> bool" where
  "admits f k = (if k \<in> exclude_kinds f then False
                 else include_kinds f = {} \<or> k \<in> include_kinds f)"

definition is_unrestricted :: "kind_filter \<Rightarrow> bool" where
  "is_unrestricted f \<longleftrightarrow> include_kinds f = {} \<and> exclude_kinds f = {}"

record walk_options =
  max_depth :: nat
  max_deps_per_object :: nat
  max_objects :: nat
  max_bytes :: nat
  kinds :: kind_filter
  missing_is_error :: bool
  deadline_passed :: "(nat \<Rightarrow> bool) option"
  cancel_flag :: "(nat \<Rightarrow> bool) option"

definition default_walk_options :: walk_options where
  "default_walk_options = \<lparr>max_depth = 4096, max_deps_per_object = 2 ^ 20,
     max_objects = 100000000, max_bytes = 2 ^ 44, kinds = no_filter, missing_is_error = False,
     deadline_passed = None, cancel_flag = None\<rparr>"

definition options_metadata_only :: walk_options where
  "options_metadata_only = default_walk_options\<lparr>kinds := filter_metadata_only\<rparr>"

definition with_kinds :: "walk_options \<Rightarrow> kind_filter \<Rightarrow> walk_options" where
  "with_kinds opts f = opts\<lparr>kinds := f\<rparr>"

definition requiring_every_object :: "walk_options \<Rightarrow> walk_options" where
  "requiring_every_object opts = opts\<lparr>missing_is_error := True\<rparr>"

section \<open>Visits and walk states\<close>

record visit =
  visit_id :: object_id
  visit_depth :: nat
  visit_node :: "object_node option"

definition is_present :: "visit \<Rightarrow> bool" where
  "is_present v = (visit_node v \<noteq> None)"

definition visit_len :: "visit \<Rightarrow> nat" where
  "visit_len v = (case visit_node v of None \<Rightarrow> 0 | Some n \<Rightarrow> node_len n)"

record walk_state =
  pending :: "(object_id \<times> nat) list"
  visited :: "object_id set"
  path :: "object_id list"
  objects_seen :: nat
  bytes_seen :: nat

definition is_finished :: "walk_state \<Rightarrow> bool" where
  "is_finished st \<longleftrightarrow> pending st = []"

definition frontier :: "walk_state \<Rightarrow> object_id list" where
  "frontier st = rev (map fst (pending st))"

record walk =
  w_state :: walk_state
  w_failed :: bool
  w_pushed_last :: nat
  w_polls :: nat

text \<open>The roots, read from the last to the first, each kept where it is first met.\<close>

fun fresh_roots :: "object_id set \<Rightarrow> object_id list \<Rightarrow> object_id list" where
  "fresh_roots seen [] = []"
| "fresh_roots seen (i # is) =
     (if i \<in> seen then fresh_roots seen is else i # fresh_roots (insert i seen) is)"

definition walk_new :: "object_id list \<Rightarrow> walk" where
  "walk_new roots =
     \<lparr>w_state = \<lparr>pending = rev (map (\<lambda>i. (i, 0)) (fresh_roots {} (rev roots))),
                 visited = {}, path = [], objects_seen = 0, bytes_seen = 0\<rparr>,
      w_failed = False, w_pushed_last = 0, w_polls = 0\<rparr>"

definition walk_resume :: "walk_state \<Rightarrow> walk" where
  "walk_resume st = \<lparr>w_state = st, w_failed = False, w_pushed_last = 0, w_polls = 0\<rparr>"

definition walk_pause :: "walk \<Rightarrow> walk_state" where
  "walk_pause w = w_state w"

definition prune_last :: "walk \<Rightarrow> walk" where
  "prune_last w = w\<lparr>w_state := (w_state w)\<lparr>pending := drop (w_pushed_last w) (pending (w_state w))\<rparr>,
                    w_pushed_last := 0\<rparr>"

section \<open>One step of the walk\<close>

definition budget_check :: "walk_options \<Rightarrow> nat \<Rightarrow> walk_state \<Rightarrow> unit result" where
  "budget_check opts poll st =
     (if (case cancel_flag opts of None \<Rightarrow> False | Some flag \<Rightarrow> flag poll) then Inl WalkCancelled
      else if (case deadline_passed opts of None \<Rightarrow> False | Some late \<Rightarrow> late poll)
      then Inl WalkDeadlineExceeded
      else if max_objects opts < objects_seen st then Inl (WalkBudget ''objects'' (max_objects opts))
      else if max_bytes opts < bytes_seen st then Inl (WalkBudget ''bytes'' (max_bytes opts))
      else Inr ())"

text \<open>
  The loop over the dependencies, last to first: an edge back into the path stops it with the
  offending id; an unvisited target is pushed.
\<close>

fun push_deps :: "object_id list \<Rightarrow> object_id set \<Rightarrow> nat \<Rightarrow> object_id list
    \<Rightarrow> (object_id \<times> nat) list \<Rightarrow> nat \<Rightarrow> object_id option \<times> (object_id \<times> nat) list \<times> nat" where
  "push_deps pth vis depth [] stack pushed = (None, stack, pushed)"
| "push_deps pth vis depth (dep # deps) stack pushed =
     (if dep \<in> set pth then (Some dep, stack, pushed)
      else if dep \<notin> vis
      then push_deps pth vis depth deps ((dep, depth + 1) # stack) (pushed + 1)
      else push_deps pth vis depth deps stack pushed)"

text \<open>What one round of the loop of \<^verbatim>\<open>next_visit\<close> does: return, or go round again.\<close>

datatype round = Return "visit result option" | Continue

definition walk_round :: "graph_lookup \<Rightarrow> walk_options \<Rightarrow> walk \<Rightarrow> round \<times> walk" where
  "walk_round lookup opts w =
     (let st = w_state w; w = w\<lparr>w_polls := w_polls w + 1\<rparr> in
      case budget_check opts (w_polls w - 1) st of
        Inl e \<Rightarrow> (Return (Some (Inl e)), w)
      | Inr _ \<Rightarrow>
      (case pending st of
         [] \<Rightarrow> (Return None, w)
       | (i, depth) # stack \<Rightarrow>
         let st = st\<lparr>pending := stack, path := take depth (path st)\<rparr>;
             w = w\<lparr>w_pushed_last := 0\<rparr>
         in if i \<in> visited st then (Continue, w\<lparr>w_state := st\<rparr>)
         else
         let st = st\<lparr>visited := insert i (visited st)\<rparr> in
         if max_depth opts < depth
         then (Return (Some (Inl (WalkBudget ''depth'' (max_depth opts)))), w\<lparr>w_state := st\<rparr>)
         else
         (case lookup i of
            Inl e \<Rightarrow> (Return (Some (Inl e)), w\<lparr>w_state := st\<rparr>)
          | Inr None \<Rightarrow>
              if missing_is_error opts
              then (Return (Some (Inl (NotFound (id_to_hex i)))), w\<lparr>w_state := st\<rparr>)
              else (Return (Some (Inr \<lparr>visit_id = i, visit_depth = depth, visit_node = None\<rparr>)),
                    w\<lparr>w_state := st\<lparr>objects_seen := objects_seen st + 1\<rparr>\<rparr>)
          | Inr (Some node) \<Rightarrow>
              if \<not> admits (kinds opts) (node_kind node) then (Continue, w\<lparr>w_state := st\<rparr>)
              else if max_deps_per_object opts < length (node_deps node)
              then (Return (Some (Inl (TooManyDependencies (length (node_deps node))
                                        (max_deps_per_object opts)))), w\<lparr>w_state := st\<rparr>)
              else
              let st = st\<lparr>objects_seen := objects_seen st + 1,
                          bytes_seen := sat_add64 (bytes_seen st) (node_len node),
                          path := path st @ [i]\<rparr>;
                  (cycle, stack, pushed) =
                    push_deps (path st) (visited st) depth (rev (node_deps node)) (pending st) 0;
                  w = w\<lparr>w_state := st\<lparr>pending := stack\<rparr>, w_pushed_last := pushed\<rparr>
              in (case cycle of
                    Some dep \<Rightarrow> (Return (Some (Inl (CycleDetected (id_to_hex dep)))), w)
                  | None \<Rightarrow> (Return (Some (Inr \<lparr>visit_id = i, visit_depth = depth,
                                                visit_node = Some node\<rparr>)), w)))))"

lemma walk_round_pending:
  "walk_round lookup opts w = (Continue, w') \<Longrightarrow>
     length (pending (w_state w')) < length (pending (w_state w))"
  by (auto simp: walk_round_def Let_def split: sum.splits list.splits prod.splits if_splits option.splits)

function next_visit :: "graph_lookup \<Rightarrow> walk_options \<Rightarrow> walk \<Rightarrow> visit result option \<times> walk" where
  "next_visit lookup opts w =
     (case walk_round lookup opts w of
        (Return item, w) \<Rightarrow> (item, w)
      | (Continue, w) \<Rightarrow> next_visit lookup opts w)"
  by pat_completeness auto
termination
  by (relation "measure (\<lambda>(_, _, w). length (pending (w_state w)))")
    (auto dest: walk_round_pending [OF sym])

declare next_visit.simps [simp del]

text \<open>\<^verbatim>\<open>Iterator::next\<close>: nothing more after the first error.\<close>

definition walk_next :: "graph_lookup \<Rightarrow> walk_options \<Rightarrow> walk \<Rightarrow> visit result option \<times> walk" where
  "walk_next lookup opts w =
     (if w_failed w then (None, w)
      else
        let (item, w) = next_visit lookup opts w in
        (item, case item of Some (Inl _) \<Rightarrow> w\<lparr>w_failed := True\<rparr> | _ \<Rightarrow> w))"

lemma push_deps_cycle:
  "push_deps pth vis depth deps stack pushed = (Some d, stack', pushed') \<Longrightarrow>
     d \<in> set deps \<and> d \<in> set pth"
  by (induction pth vis depth deps stack pushed rule: push_deps.induct) (auto split: if_splits)

text \<open>How one round ends: it finishes, it skips an entry, or it yields a visit.\<close>

definition filtered_out :: "graph_lookup \<Rightarrow> kind_filter \<Rightarrow> object_id \<Rightarrow> bool" where
  "filtered_out lookup f i =
     (case lookup i of Inr (Some n) \<Rightarrow> \<not> admits f (node_kind n) | _ \<Rightarrow> False)"

lemma round_Done:
  "walk_round lookup opts w = (Return None, w') \<Longrightarrow>
     pending (w_state w) = [] \<and> w_state w' = w_state w \<and> w_pushed_last w' = w_pushed_last w
     \<and> objects_seen (w_state w) \<le> max_objects opts \<and> bytes_seen (w_state w) \<le> max_bytes opts"
  by (auto simp: walk_round_def budget_check_def Let_def
      split: sum.splits list.splits prod.splits if_splits option.splits)

lemma round_Continue:
  assumes "walk_round lookup opts w = (Continue, w')"
  obtains i depth stack where "pending (w_state w) = (i, depth) # stack"
    "i \<in> visited (w_state w) \<or> filtered_out lookup (kinds opts) i"
    "w_state w' = (w_state w)\<lparr>pending := stack, path := take depth (path (w_state w)),
       visited := insert i (visited (w_state w))\<rparr>"
    "w_pushed_last w' = 0"
  using assms
  by (auto simp: walk_round_def filtered_out_def Let_def insert_absorb
      split: sum.splits list.splits prod.splits if_splits option.splits)

lemma round_Visit:
  assumes "walk_round lookup opts w = (Return (Some (Inr v)), w')"
  obtains (gap) i depth stack where "pending (w_state w) = (i, depth) # stack"
    "i \<notin> visited (w_state w)" "lookup i = Inr None" "\<not> missing_is_error opts"
    "v = \<lparr>visit_id = i, visit_depth = depth, visit_node = None\<rparr>"
    "depth \<le> max_depth opts" "objects_seen (w_state w) \<le> max_objects opts"
    "w_pushed_last w' = 0"
    "w_state w' = (w_state w)\<lparr>pending := stack, path := take depth (path (w_state w)),
       visited := insert i (visited (w_state w)), objects_seen := objects_seen (w_state w) + 1\<rparr>"
  | (node) i depth stack n stack' where "pending (w_state w) = (i, depth) # stack"
    "i \<notin> visited (w_state w)" "lookup i = Inr (Some n)" "admits (kinds opts) (node_kind n)"
    "v = \<lparr>visit_id = i, visit_depth = depth, visit_node = Some n\<rparr>"
    "depth \<le> max_depth opts" "objects_seen (w_state w) \<le> max_objects opts"
    "push_deps (take depth (path (w_state w)) @ [i]) (insert i (visited (w_state w))) depth
       (rev (node_deps n)) stack 0 = (None, stack', w_pushed_last w')"
    "w_state w' = (w_state w)\<lparr>pending := stack', path := take depth (path (w_state w)) @ [i],
       visited := insert i (visited (w_state w)), objects_seen := objects_seen (w_state w) + 1,
       bytes_seen := sat_add64 (bytes_seen (w_state w)) (node_len n)\<rparr>"
  using assms
  by (auto simp: walk_round_def budget_check_def Let_def
      split: sum.splits list.splits prod.splits if_splits option.splits)

lemma round_Fail:
  assumes "walk_round lookup opts w = (Return (Some (Inl e)), w')"
  obtains (budget) "budget_check opts (w_polls w) (w_state w) = Inl e"
  | (depth) i depth stack where "pending (w_state w) = (i, depth) # stack"
    "max_depth opts < depth" "e = WalkBudget ''depth'' (max_depth opts)"
  | (source) i depth stack where "pending (w_state w) = (i, depth) # stack" "lookup i = Inl e"
  | (absent) i depth stack where "pending (w_state w) = (i, depth) # stack"
    "lookup i = Inr None" "missing_is_error opts" "e = NotFound (id_to_hex i)"
  | (fan_out) i depth stack n where "pending (w_state w) = (i, depth) # stack"
    "lookup i = Inr (Some n)" "admits (kinds opts) (node_kind n)"
    "max_deps_per_object opts < length (node_deps n)"
    "e = TooManyDependencies (length (node_deps n)) (max_deps_per_object opts)"
  | (cycle) i depth stack n dep where "pending (w_state w) = (i, depth) # stack"
    "lookup i = Inr (Some n)" "admits (kinds opts) (node_kind n)" "dep \<in> set (node_deps n)"
    "dep \<in> set (take depth (path (w_state w)) @ [i])" "e = CycleDetected (id_to_hex dep)"
proof (cases "budget_check opts (w_polls w) (w_state w)")
  case (Inl e')
  then have "e' = e" using assms by (simp add: walk_round_def Let_def)
  with Inl show ?thesis using budget by simp
next
  case (Inr u)
  show ?thesis
  proof (cases "pending (w_state w)")
    case Nil
    then show ?thesis using assms Inr by (simp add: walk_round_def Let_def)
  next
    case (Cons x stack)
    obtain i d where x: "x = (i, d)" by fastforce
    show ?thesis
      using assms Inr Cons x depth [of i d stack] source [of i d stack] absent [of i d stack]
        fan_out [of i d stack] cycle [of i d stack]
      by (fastforce simp: walk_round_def Let_def dest!: push_deps_cycle
          split: option.splits sum.splits if_splits prod.splits)
  qed
qed

lemma walk_next_objects:
  assumes "walk_next lookup opts w = (Some (Inr v), w')"
  shows "objects_seen (w_state w') = objects_seen (w_state w) + 1
    \<and> objects_seen (w_state w) \<le> max_objects opts"
proof -
  have "next_visit lookup opts w = (Some (Inr v), w') \<Longrightarrow>
      objects_seen (w_state w') = objects_seen (w_state w) + 1
      \<and> objects_seen (w_state w) \<le> max_objects opts"
  proof (induction lookup opts w rule: next_visit.induct)
    case (1 lookup opts w)
    show ?case
    proof (cases "walk_round lookup opts w")
      case (Pair r u)
      show ?thesis
      proof (cases r)
        case (Return item)
        then have "walk_round lookup opts w = (Return (Some (Inr v)), w')"
          using "1.prems" Pair by (simp add: next_visit.simps [of lookup opts w])
        then show ?thesis by (elim round_Visit) simp_all
      next
        case Continue
        with Pair have c: "walk_round lookup opts w = (Continue, u)" by simp
        have "next_visit lookup opts u = (Some (Inr v), w')"
          using "1.prems" c by (simp add: next_visit.simps [of lookup opts w])
        from "1.IH" [OF c [symmetric] refl this] show ?thesis
          using c by (elim round_Continue) simp
      qed
    qed
  qed
  then show ?thesis
    using assms by (auto simp: walk_next_def split: if_splits prod.splits)
qed

function walk_collect :: "graph_lookup \<Rightarrow> walk_options \<Rightarrow> walk \<Rightarrow> visit list result" where
  "walk_collect lookup opts w =
     (case walk_next lookup opts w of
        (None, _) \<Rightarrow> Inr []
      | (Some (Inl e), _) \<Rightarrow> Inl e
      | (Some (Inr v), w) \<Rightarrow> rbind (walk_collect lookup opts w) (\<lambda>vs. Inr (v # vs)))"
  by pat_completeness auto
termination
  by (relation "measure (\<lambda>(_, opts, w). Suc (max_objects opts) - objects_seen (w_state w))")
    (auto dest: walk_next_objects [OF sym])

declare walk_collect.simps [simp del]

definition walk_reachable ::
    "graph_lookup \<Rightarrow> object_id list \<Rightarrow> walk_options \<Rightarrow> visit list result" where
  "walk_reachable lookup roots opts = walk_collect lookup opts (walk_new roots)"

end
