(* ===== verification/Walk_Reach.thy ===== *)
theory Walk_Reach
  imports Graph_Walk
begin

text \<open>
  What the walk computes.  The graph under a lookup function and a class filter has an edge from
  each admitted object to each of its dependencies; \<open>reach\<close> is reachability in it.  An invariant
  that every round keeps is carried to the end of a walk once, in the locale
  \<open>walk_invariant\<close>; the two invariants of this development (closure, and the path that makes
  cycle detection right) are its interpretations.
\<close>

section \<open>The graph\<close>

definition children :: "graph_lookup \<Rightarrow> kind_filter \<Rightarrow> object_id \<Rightarrow> object_id set" where
  "children lookup f i =
     (case lookup i of
        Inr (Some n) \<Rightarrow> if admits f (node_kind n) then set (node_deps n) else {}
      | _ \<Rightarrow> {})"

inductive reach :: "graph_lookup \<Rightarrow> kind_filter \<Rightarrow> object_id set \<Rightarrow> object_id \<Rightarrow> bool"
  for lookup f roots where
  reach_root: "i \<in> roots \<Longrightarrow> reach lookup f roots i"
| reach_child: "reach lookup f roots i \<Longrightarrow> j \<in> children lookup f i \<Longrightarrow> reach lookup f roots j"

definition edges :: "graph_lookup \<Rightarrow> kind_filter \<Rightarrow> (object_id \<times> object_id) set" where
  "edges lookup f = {(i, j). j \<in> children lookup f i}"

lemma children_simps [simp]:
  "lookup i = Inr None \<Longrightarrow> children lookup f i = {}"
  "lookup i = Inl e \<Longrightarrow> children lookup f i = {}"
  "lookup i = Inr (Some n) \<Longrightarrow> admits f (node_kind n) \<Longrightarrow> children lookup f i = set (node_deps n)"
  by (simp_all add: children_def)

lemma filtered_children: "filtered_out lookup f i \<Longrightarrow> children lookup f i = {}"
  by (auto simp: filtered_out_def children_def split: sum.splits option.splits)

lemma reach_least:
  assumes "reach lookup f roots i" "roots \<subseteq> S" "\<And>j. j \<in> S \<Longrightarrow> children lookup f j \<subseteq> S"
  shows "i \<in> S"
  using assms(1) by (induction rule: reach.induct) (use assms(2,3) in auto)

lemma trancl_stays:
  assumes "(i, j) \<in> (edges lookup f)\<^sup>+" "children lookup f i \<subseteq> S"
    and "\<And>k. k \<in> S \<Longrightarrow> children lookup f k \<subseteq> S"
  shows "j \<in> S"
  using assms(1) by (induction rule: trancl_induct) (use assms(2,3) in \<open>auto simp: edges_def\<close>)

lemma push_deps_None:
  assumes "push_deps pth vis depth deps stack pushed = (None, stack', pushed')"
  shows "\<exists>new. stack' = new @ stack \<and> pushed' = pushed + length new
    \<and> fst ` set new = set deps - vis \<and> (\<forall>x \<in> set new. snd x = depth + 1)
    \<and> set deps \<inter> set pth = {}"
  using assms
proof (induction pth vis depth deps stack pushed rule: push_deps.induct)
  case (1 pth vis depth stack pushed)
  then show ?case by simp
next
  case (2 pth vis depth dep deps stack pushed)
  then have dep: "dep \<notin> set pth" by (auto split: if_splits)
  show ?case
  proof (cases "dep \<in> vis")
    case True
    with dep "2.prems" have "push_deps pth vis depth deps stack pushed = (None, stack', pushed')"
      by simp
    from "2.IH"(2) [OF dep _ this] True dep show ?thesis by auto
  next
    case False
    with dep "2.prems" have
      "push_deps pth vis depth deps ((dep, depth + 1) # stack) (pushed + 1) = (None, stack', pushed')"
      by simp
    from "2.IH"(1) [OF dep False this] obtain new where
      "stack' = new @ (dep, depth + 1) # stack" "pushed' = pushed + 1 + length new"
      "fst ` set new = set deps - vis" "\<forall>x \<in> set new. snd x = depth + 1"
      "set deps \<inter> set pth = {}" by blast
    with dep False show ?thesis by (intro exI [of _ "new @ [(dep, depth + 1)]"]) auto
  qed
qed

section \<open>Invariants of a walk\<close>

lemma walk_round_failed: "walk_round lookup opts w = (r, w') \<Longrightarrow> w_failed w' = w_failed w"
  by (auto simp: walk_round_def Let_def
      split: sum.splits list.splits prod.splits if_splits option.splits)

lemma next_visit_failed: "next_visit lookup opts w = (item, w') \<Longrightarrow> w_failed w' = w_failed w"
proof (induction lookup opts w rule: next_visit.induct)
  case (1 lookup opts w)
  then show ?case
    by (auto simp: next_visit.simps [of lookup opts w] walk_round_failed
        split: prod.splits round.splits)
qed

lemma walk_next_keeps:
  "walk_next lookup opts w = (Some (Inr v), w') \<Longrightarrow> \<not> w_failed w \<Longrightarrow> \<not> w_failed w'"
  by (auto simp: walk_next_def dest: next_visit_failed split: if_splits prod.splits)

locale walk_invariant =
  fixes lookup :: graph_lookup
    and opts :: walk_options
    and inv :: "visit list \<Rightarrow> walk \<Rightarrow> bool"
  assumes inv_continue: "inv vs w \<Longrightarrow> walk_round lookup opts w = (Continue, w') \<Longrightarrow> inv vs w'"
    and inv_visit: "inv vs w \<Longrightarrow> walk_round lookup opts w = (Return (Some (Inr v)), w') \<Longrightarrow>
      inv (vs @ [v]) w'"
    and inv_frame: "inv vs w \<Longrightarrow> w_state w' = w_state w \<Longrightarrow> w_pushed_last w' = w_pushed_last w \<Longrightarrow>
      inv vs w'"
begin

text \<open>Every call of \<^verbatim>\<open>next_visit\<close> ends with one returning round, from a state of the invariant.\<close>

lemma next_last_round:
  assumes "inv vs w" "next_visit lookup opts w = (item, w')"
  shows "\<exists>u. inv vs u \<and> walk_round lookup opts u = (Return item, w')"
  using assms
proof (induction "length (pending (w_state w))" arbitrary: w rule: less_induct)
  case less
  obtain r u where u: "walk_round lookup opts w = (r, u)" by fastforce
  show ?case
  proof (cases r)
    case (Return item')
    then show ?thesis
      using u less.prems by (auto simp: next_visit.simps [of lookup opts w])
  next
    case Continue
    with u have c: "walk_round lookup opts w = (Continue, u)" by simp
    have "next_visit lookup opts u = (item, w')"
      using less.prems(2) c by (simp add: next_visit.simps [of lookup opts w])
    then show ?thesis
      by (rule less.hyps [OF walk_round_pending [OF c] inv_continue [OF less.prems(1) c]])
  qed
qed

lemma next_ok:
  assumes "inv vs w" "walk_next lookup opts w = (Some (Inr v), w')"
  shows "inv (vs @ [v]) w'"
proof -
  have "next_visit lookup opts w = (Some (Inr v), w')"
    using assms(2) by (auto simp: walk_next_def split: if_splits prod.splits)
  with assms(1) obtain u where "inv vs u" "walk_round lookup opts u = (Return (Some (Inr v)), w')"
    using next_last_round by blast
  then show ?thesis by (rule inv_visit)
qed

lemma next_done:
  assumes "inv vs w" "walk_next lookup opts w = (None, w')" "\<not> w_failed w"
  shows "inv vs w' \<and> pending (w_state w') = []
    \<and> objects_seen (w_state w') \<le> max_objects opts \<and> bytes_seen (w_state w') \<le> max_bytes opts"
proof -
  have "next_visit lookup opts w = (None, w')"
    using assms(2,3) by (auto simp: walk_next_def split: prod.splits)
  with assms(1) obtain u where u: "inv vs u" "walk_round lookup opts u = (Return None, w')"
    using next_last_round by blast
  have "inv vs w'" by (rule inv_frame [OF u(1)]) (simp_all add: round_Done [OF u(2)])
  then show ?thesis using round_Done [OF u(2)] by simp
qed

lemma next_fails:
  assumes "inv vs w" "walk_next lookup opts w = (Some (Inl e), w')"
  shows "\<exists>u u'. inv vs u \<and> walk_round lookup opts u = (Return (Some (Inl e)), u')"
proof -
  obtain w'' where "next_visit lookup opts w = (Some (Inl e), w'')"
    using assms(2) by (auto simp: walk_next_def split: if_splits prod.splits)
  with assms(1) show ?thesis using next_last_round by blast
qed

lemma collect_ok:
  assumes "inv vs w" "walk_collect lookup opts w = Inr rest" "\<not> w_failed w"
  shows "\<exists>w'. inv (vs @ rest) w' \<and> pending (w_state w') = []
    \<and> objects_seen (w_state w') \<le> max_objects opts \<and> bytes_seen (w_state w') \<le> max_bytes opts"
  using assms
proof (induction rest arbitrary: vs w)
  case Nil
  then obtain w' where "walk_next lookup opts w = (None, w')"
    by (auto simp: walk_collect.simps [of lookup opts w] rbind_eq_Inr
        split: prod.splits option.splits sum.splits)
  from next_done [OF Nil.prems(1) this Nil.prems(3)] show ?case by auto
next
  case (Cons v rest)
  then obtain w' where w': "walk_next lookup opts w = (Some (Inr v), w')"
      "walk_collect lookup opts w' = Inr rest"
    by (auto simp: walk_collect.simps [of lookup opts w] rbind_eq_Inr
        split: prod.splits option.splits sum.splits)
  have "\<not> w_failed w'" using Cons.prems(3) w'(1) walk_next_keeps by blast
  from Cons.IH [OF next_ok [OF Cons.prems(1) w'(1)] w'(2) this] show ?case by simp
qed

lemma collect_err:
  assumes "inv vs w" "walk_collect lookup opts w = Inl e"
  shows "\<exists>vs' u u'. inv vs' u \<and> walk_round lookup opts u = (Return (Some (Inl e)), u')"
  using assms
proof (induction lookup\<equiv>lookup opts\<equiv>opts w arbitrary: vs rule: walk_collect.induct)
  case (1 w)
  obtain item w' where n: "walk_next lookup opts w = (item, w')" by fastforce
  consider "item = None" | e' where "item = Some (Inl e')" | v where "item = Some (Inr v)"
    by (cases item; cases "the item") auto
  then show ?case
  proof cases
    case 1
    with "1.prems" n show ?thesis by (simp add: walk_collect.simps [of lookup opts w])
  next
    case 2
    with "1.prems" n show ?thesis
      using next_fails by (fastforce simp: walk_collect.simps [of lookup opts w])
  next
    case 3
    with "1.prems" n have "walk_collect lookup opts w' = Inl e"
      by (auto simp: walk_collect.simps [of lookup opts w] rbind_def split: sum.splits)
    then show ?thesis
      using "1.hyps" [OF n [symmetric] 3 refl next_ok] "1.prems"(1) n 3 by blast
  qed
qed

end

section \<open>The closure invariant\<close>

text \<open>
  Every object met is reachable, every root is met, and the children of every visited object,
  but for the objects in \<open>pruned\<close>, are met.  The yielded visits are the visited objects that no
  filter leaves out, each once and each with the node the source returned.
\<close>

definition met :: "walk_state \<Rightarrow> object_id set" where
  "met st = visited st \<union> fst ` set (pending st)"

definition last_id :: "visit list \<Rightarrow> object_id set" where
  "last_id vs = (if vs = [] then {} else {visit_id (last vs)})"

definition right_visit :: "graph_lookup \<Rightarrow> walk_options \<Rightarrow> visit \<Rightarrow> bool" where
  "right_visit lookup opts v \<longleftrightarrow> lookup (visit_id v) = Inr (visit_node v)
     \<and> \<not> filtered_out lookup (kinds opts) (visit_id v) \<and> visit_depth v \<le> max_depth opts
     \<and> (missing_is_error opts \<longrightarrow> visit_node v \<noteq> None)"

definition closure_inv :: "graph_lookup \<Rightarrow> walk_options \<Rightarrow> object_id set \<Rightarrow> object_id set
    \<Rightarrow> visit list \<Rightarrow> walk \<Rightarrow> bool" where
  "closure_inv lookup opts roots pruned vs w \<longleftrightarrow>
     (let st = w_state w; rest = fst ` set (drop (w_pushed_last w) (pending st)) in
      met st \<subseteq> Collect (reach lookup (kinds opts) roots)
      \<and> roots \<subseteq> visited st \<union> rest
      \<and> (\<forall>i \<in> visited st - pruned. children lookup (kinds opts) i \<subseteq> met st)
      \<and> (\<forall>i \<in> visited st - pruned - last_id vs. children lookup (kinds opts) i \<subseteq> visited st \<union> rest)
      \<and> visit_id ` set vs = {i \<in> visited st. \<not> filtered_out lookup (kinds opts) i}
      \<and> distinct (map visit_id vs)
      \<and> (\<forall>v \<in> set vs. right_visit lookup opts v)
      \<and> objects_seen st = length vs
      \<and> bytes_seen st = min (sum_list (map visit_len vs)) u64_max)"

lemma set_drop_subset: "fst ` set (drop n xs) \<subseteq> fst ` set xs"
  by (auto dest: in_set_dropD)

lemma met_old_rest:
  assumes "roots \<subseteq> visited st \<union> fst ` set (drop n (pending st))"
    and "pending st = (i, depth) # stack"
  shows "roots \<subseteq> insert i (visited st) \<union> fst ` set stack"
proof -
  have "fst ` set (drop n (pending st)) \<subseteq> insert i (fst ` set stack)"
    using set_drop_subset [of n "pending st"] assms(2) by simp
  then show ?thesis using assms(1) by blast
qed

lemma closure_continue:
  assumes inv: "closure_inv lookup opts roots pruned vs w"
    and step: "walk_round lookup opts w = (Continue, w')"
  shows "closure_inv lookup opts roots pruned vs w'"
proof -
  obtain i depth stack where st: "pending (w_state w) = (i, depth) # stack"
      "i \<in> visited (w_state w) \<or> filtered_out lookup (kinds opts) i"
      "w_state w' = (w_state w)\<lparr>pending := stack, path := take depth (path (w_state w)),
         visited := insert i (visited (w_state w))\<rparr>"
      "w_pushed_last w' = 0"
    using step by (rule round_Continue)
  have "roots \<subseteq> insert i (visited (w_state w)) \<union> fst ` set stack"
    using inv by (intro met_old_rest [OF _ st(1)]) (auto simp: closure_inv_def Let_def)
  then show ?thesis
    using inv st filtered_children [of lookup "kinds opts" i]
    by (auto simp: closure_inv_def Let_def met_def)
qed

lemma closure_visit:
  assumes inv: "closure_inv lookup opts roots pruned vs w"
    and step: "walk_round lookup opts w = (Return (Some (Inr v)), w')"
  shows "closure_inv lookup opts roots pruned (vs @ [v]) w'"
  using step
proof (cases rule: round_Visit)
  case (gap i depth stack)
  have r: "roots \<subseteq> insert i (visited (w_state w)) \<union> fst ` set stack"
    using inv by (intro met_old_rest [OF _ gap(1)]) (auto simp: closure_inv_def Let_def)
  show ?thesis
    using inv gap r
    by (auto simp: closure_inv_def Let_def met_def right_visit_def filtered_out_def visit_len_def)
next
  case (node i depth stack n stack')
  have r: "roots \<subseteq> insert i (visited (w_state w)) \<union> fst ` set stack"
    using inv by (intro met_old_rest [OF _ node(1)]) (auto simp: closure_inv_def Let_def)
  obtain new where new: "stack' = new @ stack" "w_pushed_last w' = length new"
      "fst ` set new = set (node_deps n) - insert i (visited (w_state w))"
    using push_deps_None [OF node(8)] by auto
  let ?C = "children lookup (kinds opts)"
  have ci: "?C i = set (node_deps n)" using node(3,4) by simp
  have reach_i: "reach lookup (kinds opts) roots i"
    using inv node(1) by (auto simp: closure_inv_def Let_def met_def)
  then have "\<And>j. j \<in> set (node_deps n) \<Longrightarrow> reach lookup (kinds opts) roots j"
    using ci by (blast intro: reach_child)
  then have sub: "met (w_state w') \<subseteq> Collect (reach lookup (kinds opts) roots)"
    using inv node(1) reach_i new by (auto simp: closure_inv_def Let_def met_def node(9))
  have old: "\<And>j. j \<in> visited (w_state w) - pruned \<Longrightarrow>
      ?C j \<subseteq> insert i (visited (w_state w)) \<union> fst ` set stack"
    using inv node(1) by (auto simp: closure_inv_def Let_def met_def)
  have nf: "\<not> filtered_out lookup (kinds opts) i"
    using node(3,4) by (simp add: filtered_out_def)
  have closed: "\<forall>j \<in> visited (w_state w') - pruned. ?C j \<subseteq> met (w_state w')"
  proof
    fix j assume j: "j \<in> visited (w_state w') - pruned"
    show "?C j \<subseteq> met (w_state w')"
    proof (cases "j = i")
      case True
      then show ?thesis using ci new(3) by (auto simp: met_def node(9) new(1))
    next
      case False
      then have "?C j \<subseteq> insert i (visited (w_state w)) \<union> fst ` set stack"
        using j by (intro old) (simp add: node(9))
      then show ?thesis by (auto simp: met_def node(9) new(1))
    qed
  qed
  have rest: "drop (w_pushed_last w') (pending (w_state w')) = stack"
    by (simp add: new node(9))
  have last: "\<forall>j \<in> visited (w_state w') - pruned - last_id (vs @ [v]).
      ?C j \<subseteq> visited (w_state w') \<union> fst ` set stack"
    using old by (auto simp: node(5,9) last_id_def)
  have ids: "visit_id ` set (vs @ [v]) = {j \<in> visited (w_state w'). \<not> filtered_out lookup (kinds opts) j}"
      "distinct (map visit_id (vs @ [v]))"
    using inv nf node(2) by (auto simp: closure_inv_def Let_def node(5,9))
  have rv: "\<forall>u \<in> set (vs @ [v]). right_visit lookup opts u"
    using inv nf node(3,6) by (auto simp: closure_inv_def Let_def node(5) right_visit_def)
  have counts: "objects_seen (w_state w') = length (vs @ [v])"
      "bytes_seen (w_state w') = min (sum_list (map visit_len (vs @ [v]))) u64_max"
    using inv by (auto simp: closure_inv_def Let_def node(5,9) visit_len_def sat_add64_def)
  have roots: "roots \<subseteq> visited (w_state w') \<union> fst ` set stack"
    using r by (simp add: node(9))
  show ?thesis
    unfolding closure_inv_def Let_def rest
    using sub roots closed last ids rv counts by blast
qed

lemma closure_frame:
  "closure_inv lookup opts roots pruned vs w \<Longrightarrow> w_state w' = w_state w \<Longrightarrow>
     w_pushed_last w' = w_pushed_last w \<Longrightarrow> closure_inv lookup opts roots pruned vs w'"
  by (simp add: closure_inv_def Let_def)

interpretation closure: walk_invariant lookup opts "closure_inv lookup opts roots pruned"
  for lookup opts roots pruned
  by unfold_locales (fact closure_continue closure_visit closure_frame)+

text \<open>Pruning after a visit makes that object's children optional, and no one else's.\<close>

lemma closure_prune:
  assumes "closure_inv lookup opts roots pruned (vs @ [v]) w"
  shows "closure_inv lookup opts roots (insert (visit_id v) pruned) (vs @ [v]) (prune_last w)"
  using assms set_drop_subset [of "w_pushed_last w" "pending (w_state w)"]
  by (auto simp: closure_inv_def Let_def met_def prune_last_def last_id_def)

lemma set_fresh_roots: "set (fresh_roots seen is) = set is - seen"
  by (induction seen "is" rule: fresh_roots.induct) auto

lemma closure_init: "closure_inv lookup opts (set roots) {} [] (walk_new roots)"
  by (auto simp: closure_inv_def Let_def met_def walk_new_def last_id_def image_image
      set_fresh_roots intro: reach_root)

lemma closure_final:
  assumes "closure_inv lookup opts roots pruned vs w" "pending (w_state w) = []"
    and "reach lookup (kinds opts) roots i"
    and "\<And>j. j \<in> pruned \<Longrightarrow> children lookup (kinds opts) j \<subseteq> visited (w_state w) \<union> S"
    and "\<And>j. j \<in> S \<Longrightarrow> children lookup (kinds opts) j \<subseteq> visited (w_state w) \<union> S"
  shows "i \<in> visited (w_state w) \<union> S"
  using assms(3)
proof (rule reach_least)
  show "roots \<subseteq> visited (w_state w) \<union> S"
    using assms(1,2) by (auto simp: closure_inv_def Let_def)
next
  fix j assume "j \<in> visited (w_state w) \<union> S"
  then show "children lookup (kinds opts) j \<subseteq> visited (w_state w) \<union> S"
    using assms(1,2,4,5) by (cases "j \<in> pruned") (auto simp: closure_inv_def Let_def met_def)
qed

section \<open>The walk visits exactly the reachable objects\<close>

lemma walk_reachable_closure:
  assumes "walk_reachable lookup roots opts = Inr vs"
  shows "visit_id ` set vs
      = {i. reach lookup (kinds opts) (set roots) i \<and> \<not> filtered_out lookup (kinds opts) i}"
    "distinct (map visit_id vs)" "\<forall>v \<in> set vs. right_visit lookup opts v"
    "length vs \<le> max_objects opts"
    "min (sum_list (map visit_len vs)) u64_max \<le> max_bytes opts"
proof -
  obtain w where inv: "closure_inv lookup opts (set roots) {} vs w" and fin: "pending (w_state w) = []"
      "objects_seen (w_state w) \<le> max_objects opts" "bytes_seen (w_state w) \<le> max_bytes opts"
    using closure.collect_ok [OF closure_init, of lookup opts roots vs] assms
    by (auto simp: walk_reachable_def walk_new_def)
  have "visited (w_state w) = Collect (reach lookup (kinds opts) (set roots))"
  proof
    show "visited (w_state w) \<subseteq> Collect (reach lookup (kinds opts) (set roots))"
      using inv by (auto simp: closure_inv_def Let_def met_def)
    show "Collect (reach lookup (kinds opts) (set roots)) \<subseteq> visited (w_state w)"
      using closure_final [OF inv fin(1), where S = "{}"] by auto
  qed
  then show "visit_id ` set vs
      = {i. reach lookup (kinds opts) (set roots) i \<and> \<not> filtered_out lookup (kinds opts) i}"
    using inv by (auto simp: closure_inv_def Let_def)
  show "distinct (map visit_id vs)" "\<forall>v \<in> set vs. right_visit lookup opts v"
    "length vs \<le> max_objects opts" "min (sum_list (map visit_len vs)) u64_max \<le> max_bytes opts"
    using inv fin by (auto simp: closure_inv_def Let_def)
qed

section \<open>A walk reads only what it reaches\<close>

lemma walk_round_cong:
  assumes "\<And>i. i \<in> fst ` set (pending (w_state w)) \<Longrightarrow> lookup i = lookup' i"
  shows "walk_round lookup opts w = walk_round lookup' opts w"
proof (cases "pending (w_state w)")
  case Nil
  then show ?thesis by (simp add: walk_round_def Let_def split: sum.splits)
next
  case (Cons x stack)
  obtain i depth where x: "x = (i, depth)" by fastforce
  then have "lookup i = lookup' i" using assms Cons by simp
  then show ?thesis by (simp add: walk_round_def Let_def Cons x split: sum.splits)
qed

lemma met_agree:
  assumes "closure_inv lookup opts roots pruned vs w"
    and "\<And>i. reach lookup (kinds opts) roots i \<Longrightarrow> lookup i = lookup' i"
    and "i \<in> fst ` set (pending (w_state w))"
  shows "lookup i = lookup' i"
proof -
  have "i \<in> met (w_state w)" using assms(3) by (simp add: met_def)
  then have "reach lookup (kinds opts) roots i" using assms(1) by (auto simp: closure_inv_def Let_def)
  then show ?thesis by (rule assms(2))
qed

lemma next_visit_cong:
  assumes agree: "\<And>i. reach lookup (kinds opts) roots i \<Longrightarrow> lookup i = lookup' i"
    and "closure_inv lookup opts roots pruned vs w"
  shows "next_visit lookup opts w = next_visit lookup' opts w"
  using assms(2)
proof (induction "length (pending (w_state w))" arbitrary: w rule: less_induct)
  case less
  have r: "walk_round lookup opts w = walk_round lookup' opts w"
    using met_agree [OF less.prems agree] by (rule walk_round_cong)
  obtain ret u where u: "walk_round lookup opts w = (ret, u)" by fastforce
  show ?case
  proof (cases ret)
    case (Return item)
    then show ?thesis
      using u r by (simp add: next_visit.simps [of _ opts w])
  next
    case Continue
    with u have c: "walk_round lookup opts w = (Continue, u)" by simp
    have "next_visit lookup opts u = next_visit lookup' opts u"
      by (rule less.hyps [OF walk_round_pending [OF c] closure_continue [OF less.prems c]])
    then show ?thesis using c r by (simp add: next_visit.simps [of _ opts w])
  qed
qed

lemma walk_collect_cong:
  assumes agree: "\<And>i. reach lookup (kinds opts) roots i \<Longrightarrow> lookup i = lookup' i"
    and "closure_inv lookup opts roots pruned vs w"
  shows "walk_collect lookup opts w = walk_collect lookup' opts w"
  using assms(2)
proof (induction "Suc (max_objects opts) - objects_seen (w_state w)" arbitrary: vs w rule: less_induct)
  case less
  have n: "walk_next lookup opts w = walk_next lookup' opts w"
    using next_visit_cong [OF agree less.prems] by (simp add: walk_next_def)
  obtain item u where u: "walk_next lookup opts w = (item, u)" by fastforce
  consider "item = None" | e where "item = Some (Inl e)" | v where "item = Some (Inr v)"
    by (cases item; cases "the item") auto
  then show ?case
  proof cases
    case 3
    with u have v: "walk_next lookup opts w = (Some (Inr v), u)" by simp
    have "walk_collect lookup opts u = walk_collect lookup' opts u"
    proof (rule less.hyps)
      show "Suc (max_objects opts) - objects_seen (w_state u)
          < Suc (max_objects opts) - objects_seen (w_state w)"
        using walk_next_objects [OF v] by auto
    qed (rule closure.next_ok [OF less.prems v])
    then show ?thesis
      using v n by (simp add: walk_collect.simps [of _ opts w])
  qed (use u n in \<open>simp_all add: walk_collect.simps [of _ opts w]\<close>)
qed

lemma walk_reachable_cong:
  assumes "\<And>i. reach lookup (kinds opts) (set roots) i \<Longrightarrow> lookup i = lookup' i"
  shows "walk_reachable lookup roots opts = walk_reachable lookup' roots opts"
  unfolding walk_reachable_def by (rule walk_collect_cong [OF assms closure_init])

end
