(* ===== verification/Walk_Cycles.thy ===== *)
theory Walk_Cycles
  imports Walk_Reach
begin

text \<open>
  Cycle detection.  The second invariant of the walk relates the stack to the path of ancestors:
  entries of the stack are children of the path, everything visited that has left the path has all
  its descendants off the path and lies on no cycle.  It follows that a walk that ends without an
  error has seen an acyclic graph, and that a reported cycle is one.
\<close>

section \<open>The path invariant\<close>

definition path_ok :: "graph_lookup \<Rightarrow> kind_filter \<Rightarrow> object_id set \<Rightarrow> object_id list
    \<Rightarrow> (object_id \<times> nat) list \<Rightarrow> bool" where
  "path_ok lookup f vis pth stack \<longleftrightarrow>
     sorted_wrt (\<lambda>x y. snd y \<le> snd x) stack
     \<and> (\<forall>x \<in> set stack. snd x \<le> length pth)
     \<and> distinct pth \<and> set pth \<subseteq> vis
     \<and> (\<forall>j < length pth. \<forall>c \<in> children lookup f (pth ! j).
          c \<notin> set (take (Suc j) pth) \<and> (c \<in> vis \<or> (c, Suc j) \<in> set stack))
     \<and> (\<forall>i \<in> vis - set pth. children lookup f i \<subseteq> vis - set pth)
     \<and> (\<forall>i \<in> vis - set pth. (i, i) \<notin> (edges lookup f)\<^sup>+)
     \<and> (\<forall>j. Suc j < length pth \<longrightarrow> pth ! Suc j \<in> children lookup f (pth ! j))
     \<and> (\<forall>(c, k) \<in> set stack. 0 < k \<longrightarrow> c \<in> children lookup f (pth ! (k - 1)))"

text \<open>Leaving the tail of the path: its nodes are finished, the last ones first.\<close>

lemma path_tail_closed:
  assumes ok: "path_ok lookup f vis pth stack" and d: "d \<le> length pth"
    and shallow: "\<forall>x \<in> set stack. snd x \<le> d" and j: "d \<le> j"
    and k: "k \<in> (vis - set pth) \<union> set (drop j pth)"
  shows "children lookup f k \<subseteq> (vis - set pth) \<union> set (drop j pth)"
proof (cases "k \<in> set pth")
  case False
  then show ?thesis using ok k by (auto simp: path_ok_def dest: in_set_dropD)
next
  case True
  then have "k \<in> set (drop j pth)" using k by simp
  then obtain m where m: "j \<le> m" "m < length pth" "k = pth ! m"
    by (auto simp: in_set_drop_nth)
  show ?thesis
  proof
    fix c assume c: "c \<in> children lookup f k"
    have "(c, Suc m) \<notin> set stack" using shallow j m(1) by fastforce
    then have vis: "c \<in> vis" and off: "c \<notin> set (take (Suc m) pth)"
      using ok c m by (auto simp: path_ok_def)
    show "c \<in> (vis - set pth) \<union> set (drop j pth)"
    proof (cases "c \<in> set pth")
      case True
      moreover have "set pth = set (take j pth) \<union> set (drop j pth)" by (rule set_take_drop)
      moreover have "set (take j pth) \<subseteq> set (take (Suc m) pth)"
        by (rule set_take_subset_set_take) (use m in simp)
      ultimately show ?thesis using off by blast
    qed (use vis in simp)
  qed
qed

lemma path_tail_acyclic:
  assumes ok: "path_ok lookup f vis pth stack" and d: "d \<le> length pth"
    and shallow: "\<forall>x \<in> set stack. snd x \<le> d" and j: "d \<le> j" "j < length pth"
  shows "(pth ! j, pth ! j) \<notin> (edges lookup f)\<^sup>+"
proof
  assume cyc: "(pth ! j, pth ! j) \<in> (edges lookup f)\<^sup>+"
  let ?S = "(vis - set pth) \<union> set (drop (Suc j) pth)"
  have "children lookup f (pth ! j) \<subseteq> ?S"
  proof
    fix c assume c: "c \<in> children lookup f (pth ! j)"
    then have off: "c \<notin> set (take (Suc j) pth)" using ok j by (auto simp: path_ok_def)
    have "pth ! j \<in> set (drop j pth)"
      using j by (metis Cons_nth_drop_Suc list.set_intros(1))
    then have "c \<in> (vis - set pth) \<union> set (drop j pth)"
      using c path_tail_closed [OF ok d shallow j(1), of "pth ! j"] by auto
    moreover have "set (drop j pth) = insert (pth ! j) (set (drop (Suc j) pth))"
      using j by (metis Cons_nth_drop_Suc list.simps(15))
    moreover have "pth ! j \<in> set (take (Suc j) pth)"
      using j by (simp add: take_Suc_conv_app_nth)
    ultimately show "c \<in> ?S" using off by auto
  qed
  then have "pth ! j \<in> ?S"
    using path_tail_closed [OF ok d shallow, of "Suc j"] j by (intro trancl_stays [OF cyc]) auto
  moreover have "distinct (take (Suc j) pth @ drop (Suc j) pth)"
    using ok by (simp add: path_ok_def)
  then have "set (take (Suc j) pth) \<inter> set (drop (Suc j) pth) = {}" by (simp only: distinct_append)
  moreover have "pth ! j \<in> set (take (Suc j) pth)" "pth ! j \<in> set pth"
    using j by (simp_all add: take_Suc_conv_app_nth)
  ultimately show False by blast
qed

lemma path_truncate:
  assumes ok: "path_ok lookup f vis pth stack" and d: "d \<le> length pth"
    and shallow: "\<forall>x \<in> set stack. snd x \<le> d"
  shows "path_ok lookup f vis (take d pth) stack"
proof -
  have split: "vis - set (take d pth) = (vis - set pth) \<union> set (drop d pth)"
  proof -
    have "distinct pth" and sub: "set pth \<subseteq> vis" using ok by (simp_all add: path_ok_def)
    then have "set (take d pth) \<inter> set (drop d pth) = {}"
      by (intro set_take_disj_set_drop_if_distinct) simp_all
    then show ?thesis using set_take_drop [of pth d] sub by blast
  qed
  have closed: "\<forall>i \<in> vis - set (take d pth). children lookup f i \<subseteq> vis - set (take d pth)"
    unfolding split using path_tail_closed [OF ok d shallow order_refl] by blast
  have acyclic: "\<forall>i \<in> vis - set (take d pth). (i, i) \<notin> (edges lookup f)\<^sup>+"
  proof
    fix i assume "i \<in> vis - set (take d pth)"
    then consider "i \<in> vis - set pth" | "i \<in> set (drop d pth)" unfolding split by blast
    then show "(i, i) \<notin> (edges lookup f)\<^sup>+"
    proof cases
      case 1
      then show ?thesis using ok by (simp add: path_ok_def)
    next
      case 2
      then obtain m where "d \<le> m" "m < length pth" "i = pth ! m"
        by (auto simp: in_set_drop_nth)
      then show ?thesis using path_tail_acyclic [OF ok d shallow, of m] by simp
    qed
  qed
  have "\<forall>(c, k) \<in> set stack. 0 < k \<longrightarrow> c \<in> children lookup f (take d pth ! (k - 1))"
    using ok shallow by (force simp: path_ok_def)
  moreover have "\<forall>j < length (take d pth). \<forall>c \<in> children lookup f (take d pth ! j).
      c \<notin> set (take (Suc j) (take d pth)) \<and> (c \<in> vis \<or> (c, Suc j) \<in> set stack)"
    using ok d by (auto simp: path_ok_def min_def)
  moreover have "set (take d pth) \<subseteq> vis"
    using ok by (auto simp: path_ok_def dest: in_set_takeD)
  moreover have "distinct (take d pth)" using ok by (simp add: path_ok_def)
  moreover have "\<forall>j. Suc j < length (take d pth) \<longrightarrow>
      take d pth ! Suc j \<in> children lookup f (take d pth ! j)"
    using ok d by (simp add: path_ok_def)
  moreover have "sorted_wrt (\<lambda>x y. snd y \<le> snd x) stack" "\<forall>x \<in> set stack. snd x \<le> length (take d pth)"
    using ok d shallow by (simp_all add: path_ok_def)
  ultimately show ?thesis
    using closed acyclic unfolding path_ok_def by blast
qed

text \<open>Popping an entry, and descending into it.\<close>

lemma path_pop:
  assumes "path_ok lookup f vis pth ((i, d) # stack)"
  shows "path_ok lookup f vis (take d pth) ((i, d) # stack)" "length (take d pth) = d"
    "\<forall>x \<in> set stack. snd x \<le> d"
proof -
  have d: "d \<le> length pth" and shallow: "\<forall>x \<in> set ((i, d) # stack). snd x \<le> d"
    using assms by (auto simp: path_ok_def)
  show "path_ok lookup f vis (take d pth) ((i, d) # stack)"
    by (rule path_truncate [OF assms d shallow])
  show "length (take d pth) = d" using d by simp
  show "\<forall>x \<in> set stack. snd x \<le> d" using shallow by simp
qed

lemma path_skip_aux:
  assumes "path_ok lookup f vis p ((i, d) # stack)" "i \<in> vis"
  shows "path_ok lookup f vis p stack"
  using assms by (auto simp: path_ok_def)

lemma path_leaf_aux:
  assumes "path_ok lookup f vis p ((i, d) # stack)" "i \<notin> vis" "children lookup f i = {}"
  shows "path_ok lookup f (insert i vis) p stack"
proof -
  have "(i, i) \<notin> (edges lookup f)\<^sup>+"
    using trancl_stays [of i i lookup f "{}"] assms(3) by auto
  moreover have "i \<notin> set p" using assms(1,2) by (auto simp: path_ok_def)
  ultimately show ?thesis using assms(1,3) by (auto simp: path_ok_def)
qed

lemma same_depth_sorted:
  "\<forall>x \<in> set xs. snd x = (k :: nat) \<Longrightarrow> sorted_wrt (\<lambda>x y. snd y \<le> snd x) xs"
  by (induction xs) auto

lemma path_skip:
  assumes "path_ok lookup f vis pth ((i, d) # stack)"
    and "i \<in> vis \<or> children lookup f i = {}"
  shows "path_ok lookup f (insert i vis) (take d pth) stack"
proof -
  note pop = path_pop [OF assms(1)]
  show ?thesis
  proof (cases "i \<in> vis")
    case True
    then show ?thesis using path_skip_aux [OF pop(1) True] by (simp add: insert_absorb)
  next
    case False
    then show ?thesis using path_leaf_aux [OF pop(1) False] assms(2) by simp
  qed
qed

lemma path_descend:
  assumes ok: "path_ok lookup f vis pth ((i, d) # stack)" and fresh: "i \<notin> vis"
    and new: "fst ` set new = children lookup f i - insert i vis" "\<forall>x \<in> set new. snd x = d + 1"
    and free: "children lookup f i \<inter> set (take d pth @ [i]) = {}"
  shows "path_ok lookup f (insert i vis) (take d pth @ [i]) (new @ stack)"
proof -
  note pop = path_pop [OF ok]
  let ?p = "take d pth @ [i]"
  have nth: "?p ! j = (if j < d then pth ! j else i)" if "j \<le> d" for j
    using that pop(2) by (auto simp: nth_append)
  have old: "path_ok lookup f vis (take d pth) ((i, d) # stack)" by (rule pop(1))
  have "sorted_wrt (\<lambda>x y. snd y \<le> snd x) (new @ stack)"
  proof -
    have "sorted_wrt (\<lambda>x y. snd y \<le> snd x) new"
      using new(2) by (rule same_depth_sorted)
    then show ?thesis
      using old new(2) pop(3) by (force simp: path_ok_def sorted_wrt_append)
  qed
  moreover have "\<forall>x \<in> set (new @ stack). snd x \<le> length ?p"
    using new(2) pop(2,3) by fastforce
  moreover have "distinct ?p" "set ?p \<subseteq> insert i vis"
    using old fresh by (auto simp: path_ok_def dest: in_set_takeD)
  moreover have "\<forall>j < length ?p. \<forall>c \<in> children lookup f (?p ! j).
      c \<notin> set (take (Suc j) ?p) \<and> (c \<in> insert i vis \<or> (c, Suc j) \<in> set (new @ stack))"
  proof (intro allI impI ballI)
    fix j c assume j: "j < length ?p" and c: "c \<in> children lookup f (?p ! j)"
    show "c \<notin> set (take (Suc j) ?p) \<and> (c \<in> insert i vis \<or> (c, Suc j) \<in> set (new @ stack))"
    proof (cases "j < d")
      case True
      then have "c \<in> children lookup f (take d pth ! j)" "j < length (take d pth)"
        using c pop(2) nth [of j] by simp_all
      then have "c \<notin> set (take (Suc j) (take d pth)) \<and> (c \<in> vis \<or> (c, Suc j) \<in> set ((i, d) # stack))"
        using old unfolding path_ok_def by blast
      then show ?thesis using True pop(2) by auto
    next
      case False
      then have jd: "j = d" using j pop(2) by simp
      then have ci: "c \<in> children lookup f i" using c nth [of d] by simp
      then have "c \<in> insert i vis \<or> c \<in> fst ` set new" using new(1) by blast
      then have "c \<in> insert i vis \<or> (c, Suc d) \<in> set new" using new(2) by force
      then show ?thesis using ci free jd pop(2) by auto
    qed
  qed
  moreover have "insert i vis - set ?p = vis - set (take d pth)" using fresh by auto
  moreover have "\<forall>j. Suc j < length ?p \<longrightarrow> ?p ! Suc j \<in> children lookup f (?p ! j)"
  proof (intro allI impI)
    fix j assume j: "Suc j < length ?p"
    show "?p ! Suc j \<in> children lookup f (?p ! j)"
    proof (cases "Suc j < d")
      case True
      then have "take d pth ! Suc j \<in> children lookup f (take d pth ! j)"
        using old pop(2) by (simp add: path_ok_def)
      then show ?thesis using True nth [of j] nth [of "Suc j"] by simp
    next
      case False
      then have "Suc j = d" using j pop(2) by simp
      moreover have "0 < d \<longrightarrow> i \<in> children lookup f (take d pth ! (d - 1))"
        using old by (simp add: path_ok_def)
      ultimately show ?thesis using nth [of j] nth [of d] by auto
    qed
  qed
  moreover have "\<forall>(c, k) \<in> set (new @ stack). 0 < k \<longrightarrow> c \<in> children lookup f (?p ! (k - 1))"
  proof -
    have "c \<in> children lookup f (?p ! (k - 1))" if "(c, k) \<in> set new" for c k
    proof -
      have "c \<in> fst ` set new" using that by force
      then show ?thesis using that new nth [of d] by auto
    qed
    moreover have "c \<in> children lookup f (?p ! (k - 1))" if "(c, k) \<in> set stack" "0 < k" for c k
    proof -
      have "k \<le> d" using pop(3) that(1) by fastforce
      moreover have "c \<in> children lookup f (take d pth ! (k - 1))"
        using old that by (fastforce simp: path_ok_def)
      ultimately show ?thesis using nth [of "k - 1"] that(2) by simp
    qed
    ultimately show ?thesis by auto
  qed
  ultimately show ?thesis
    using old unfolding path_ok_def by simp
qed

definition path_inv :: "graph_lookup \<Rightarrow> walk_options \<Rightarrow> visit list \<Rightarrow> walk \<Rightarrow> bool" where
  "path_inv lookup opts vs w \<longleftrightarrow>
     path_ok lookup (kinds opts) (visited (w_state w)) (path (w_state w)) (pending (w_state w))"

lemma path_inv_continue:
  assumes "path_inv lookup opts vs w" "walk_round lookup opts w = (Continue, w')"
  shows "path_inv lookup opts vs w'"
  using assms(2)
proof (rule round_Continue)
  fix i depth stack
  assume "pending (w_state w) = (i, depth) # stack"
    and i: "i \<in> visited (w_state w) \<or> filtered_out lookup (kinds opts) i"
    and "w_state w' = (w_state w)\<lparr>pending := stack, path := take depth (path (w_state w)),
       visited := insert i (visited (w_state w))\<rparr>"
  moreover have "i \<in> visited (w_state w) \<or> children lookup (kinds opts) i = {}"
    using i filtered_children by blast
  ultimately show ?thesis
    using assms(1) path_skip by (simp add: path_inv_def)
qed

lemma path_inv_visit:
  assumes "path_inv lookup opts vs w" "walk_round lookup opts w = (Return (Some (Inr v)), w')"
  shows "path_inv lookup opts (vs @ [v]) w'"
  using assms(2)
proof (cases rule: round_Visit)
  case (gap i depth stack)
  then show ?thesis
    using assms(1) path_skip [of lookup "kinds opts" "visited (w_state w)" "path (w_state w)" i depth stack]
    by (simp add: path_inv_def)
next
  case (node i depth stack n stack')
  let ?p = "take depth (path (w_state w)) @ [i]"
  obtain new where new: "stack' = new @ stack"
      "fst ` set new = set (node_deps n) - insert i (visited (w_state w))"
      "\<forall>x \<in> set new. snd x = depth + 1" "set (node_deps n) \<inter> set ?p = {}"
    using push_deps_None [OF node(8)] by auto
  have "children lookup (kinds opts) i = set (node_deps n)" using node(3,4) by simp
  then have "path_ok lookup (kinds opts) (insert i (visited (w_state w))) ?p (new @ stack)"
    using assms(1) node(1,2) new(2-4) by (intro path_descend) (auto simp: path_inv_def)
  then show ?thesis by (simp add: path_inv_def node(9) new(1))
qed

interpretation ancestry: walk_invariant lookup opts "path_inv lookup opts" for lookup opts
  by unfold_locales (fact path_inv_continue path_inv_visit | simp add: path_inv_def)+

lemma path_init: "path_inv lookup opts [] (walk_new roots)"
  by (auto simp: path_inv_def path_ok_def walk_new_def intro!: same_depth_sorted)

text \<open>Both invariants together, for facts that need the two.\<close>

definition walk_inv :: "graph_lookup \<Rightarrow> walk_options \<Rightarrow> object_id set \<Rightarrow> visit list \<Rightarrow> walk \<Rightarrow> bool" where
  "walk_inv lookup opts roots vs w \<longleftrightarrow>
     closure_inv lookup opts roots {} vs w \<and> path_inv lookup opts vs w"

interpretation traversal: walk_invariant lookup opts "walk_inv lookup opts roots"
  for lookup opts roots
  by unfold_locales
    (auto simp: walk_inv_def intro: closure_continue closure_visit closure_frame path_inv_continue
      path_inv_visit ancestry.inv_frame)

lemma walk_inv_init: "walk_inv lookup opts (set roots) [] (walk_new roots)"
  by (simp add: walk_inv_def closure_init path_init)

section \<open>Cycles\<close>

text \<open>A walk that ends well has seen no cycle.\<close>

lemma walk_reachable_acyclic:
  assumes "walk_reachable lookup roots opts = Inr vs"
    and "reach lookup (kinds opts) (set roots) i"
  shows "(i, i) \<notin> (edges lookup (kinds opts))\<^sup>+"
proof -
  have collect: "walk_collect lookup opts (walk_new roots) = Inr vs" "\<not> w_failed (walk_new roots)"
    using assms(1) by (simp_all add: walk_reachable_def walk_new_def)
  obtain w where inv: "closure_inv lookup opts (set roots) {} vs w" "path_inv lookup opts vs w"
      "pending (w_state w) = []"
    using traversal.collect_ok [OF walk_inv_init collect] by (auto simp: walk_inv_def)
  have "i \<in> visited (w_state w)"
    using closure_final [OF inv(1,3) assms(2), where S = "{}"] by simp
  moreover have "path_ok lookup (kinds opts) (visited (w_state w)) (take 0 (path (w_state w))) []"
    using inv(2,3) by (intro path_truncate) (auto simp: path_inv_def)
  ultimately show ?thesis by (simp add: path_ok_def)
qed

lemma chain_trancl:
  assumes "\<forall>j. Suc j < length p \<longrightarrow> p ! Suc j \<in> children lookup f (p ! j)"
    and "a < b" "b < length p"
  shows "(p ! a, p ! b) \<in> (edges lookup f)\<^sup>+"
  using assms(2,3)
proof (induction b)
  case 0
  then show ?case by simp
next
  case (Suc b)
  have e: "(p ! b, p ! Suc b) \<in> edges lookup f" using assms(1) Suc.prems by (simp add: edges_def)
  show ?case
  proof (cases "a = b")
    case True
    with e show ?thesis by auto
  next
    case False
    with Suc have "(p ! a, p ! b) \<in> (edges lookup f)\<^sup>+" by simp
    then show ?thesis using e by (rule trancl_into_trancl)
  qed
qed

text \<open>The ancestors of the entry on top of the stack, ending in the entry itself.\<close>

definition dependency_chain :: "graph_lookup \<Rightarrow> kind_filter \<Rightarrow> object_id set \<Rightarrow> object_id list \<Rightarrow> bool" where
  "dependency_chain lookup f roots p \<longleftrightarrow> set p \<subseteq> Collect (reach lookup f roots)
     \<and> (\<forall>j. Suc j < length p \<longrightarrow> p ! Suc j \<in> children lookup f (p ! j))"

lemma top_chain:
  assumes "walk_inv lookup opts roots vs w" "pending (w_state w) = (i, depth) # stack"
  shows "dependency_chain lookup (kinds opts) roots (take depth (path (w_state w)) @ [i])"
    "length (take depth (path (w_state w)) @ [i]) = Suc depth"
proof -
  let ?p = "take depth (path (w_state w))"
  have ok: "path_ok lookup (kinds opts) (visited (w_state w)) (path (w_state w)) ((i, depth) # stack)"
    using assms by (simp add: walk_inv_def path_inv_def)
  note pop = path_pop [OF ok]
  show len: "length (?p @ [i]) = Suc depth" using pop(2) by simp
  have "set (?p @ [i]) \<subseteq> Collect (reach lookup (kinds opts) roots)"
    using assms pop(1) by (auto simp: walk_inv_def closure_inv_def Let_def met_def path_ok_def)
  moreover have "(?p @ [i]) ! Suc j \<in> children lookup (kinds opts) ((?p @ [i]) ! j)"
    if "Suc j < length (?p @ [i])" for j
  proof (cases "Suc j < depth")
    case True
    then have "?p ! Suc j \<in> children lookup (kinds opts) (?p ! j)"
      using pop(1,2) by (simp add: path_ok_def)
    with True pop(2) show ?thesis by (simp add: nth_append)
  next
    case False
    then have "Suc j = depth" using that pop(2) by simp
    moreover have "0 < depth \<longrightarrow> i \<in> children lookup (kinds opts) (?p ! (depth - 1))"
      using pop(1) by (simp add: path_ok_def)
    ultimately show ?thesis using pop(2) by (auto simp: nth_append)
  qed
  ultimately show "dependency_chain lookup (kinds opts) roots (?p @ [i])"
    by (simp add: dependency_chain_def)
qed

text \<open>Why a walk fails: every error it returns has its cause in the graph or in the options.\<close>

inductive walk_error_cause :: "graph_lookup \<Rightarrow> walk_options \<Rightarrow> object_id set \<Rightarrow> object_error \<Rightarrow> bool"
  for lookup opts roots where
  cause_cancel: "cancel_flag opts = Some flag \<Longrightarrow> flag poll \<Longrightarrow>
    walk_error_cause lookup opts roots WalkCancelled"
| cause_deadline: "deadline_passed opts = Some late \<Longrightarrow> late poll \<Longrightarrow>
    walk_error_cause lookup opts roots WalkDeadlineExceeded"
| cause_objects: "distinct is \<Longrightarrow> set is \<subseteq> Collect (reach lookup (kinds opts) roots) \<Longrightarrow>
    max_objects opts < length is \<Longrightarrow>
    walk_error_cause lookup opts roots (WalkBudget ''objects'' (max_objects opts))"
| cause_bytes: "distinct (map visit_id vs) \<Longrightarrow>
    visit_id ` set vs \<subseteq> Collect (reach lookup (kinds opts) roots) \<Longrightarrow>
    \<forall>v \<in> set vs. lookup (visit_id v) = Inr (visit_node v) \<Longrightarrow>
    max_bytes opts < sum_list (map visit_len vs) \<Longrightarrow>
    walk_error_cause lookup opts roots (WalkBudget ''bytes'' (max_bytes opts))"
| cause_depth: "dependency_chain lookup (kinds opts) roots p \<Longrightarrow> Suc (max_depth opts) < length p \<Longrightarrow>
    walk_error_cause lookup opts roots (WalkBudget ''depth'' (max_depth opts))"
| cause_source: "reach lookup (kinds opts) roots i \<Longrightarrow> lookup i = Inl e \<Longrightarrow>
    walk_error_cause lookup opts roots e"
| cause_missing: "reach lookup (kinds opts) roots i \<Longrightarrow> lookup i = Inr None \<Longrightarrow>
    missing_is_error opts \<Longrightarrow> walk_error_cause lookup opts roots (NotFound (id_to_hex i))"
| cause_fan_out: "reach lookup (kinds opts) roots i \<Longrightarrow> lookup i = Inr (Some n) \<Longrightarrow>
    max_deps_per_object opts < length (node_deps n) \<Longrightarrow>
    walk_error_cause lookup opts roots
      (TooManyDependencies (length (node_deps n)) (max_deps_per_object opts))"
| cause_cycle: "reach lookup (kinds opts) roots i \<Longrightarrow> (i, i) \<in> (edges lookup (kinds opts))\<^sup>+ \<Longrightarrow>
    walk_error_cause lookup opts roots (CycleDetected (id_to_hex i))"

lemma budget_cause:
  assumes inv: "closure_inv lookup opts roots {} vs w"
    and fail: "budget_check opts poll (w_state w) = Inl e"
  shows "walk_error_cause lookup opts roots e"
proof -
  have ids: "visit_id ` set vs \<subseteq> Collect (reach lookup (kinds opts) roots)"
      "distinct (map visit_id vs)" "objects_seen (w_state w) = length vs"
      "bytes_seen (w_state w) \<le> sum_list (map visit_len vs)"
      "\<forall>v \<in> set vs. lookup (visit_id v) = Inr (visit_node v)"
    using inv by (auto simp: closure_inv_def Let_def met_def right_visit_def)
  consider (cancel) flag where "e = WalkCancelled" "cancel_flag opts = Some flag" "flag poll"
    | (late) late where "e = WalkDeadlineExceeded" "deadline_passed opts = Some late" "late poll"
    | (objects) "e = WalkBudget ''objects'' (max_objects opts)" "max_objects opts < objects_seen (w_state w)"
    | (bytes) "e = WalkBudget ''bytes'' (max_bytes opts)" "max_bytes opts < bytes_seen (w_state w)"
    using fail by (auto simp: budget_check_def split: if_splits option.splits)
  then show ?thesis
  proof cases
    case cancel
    then show ?thesis by (auto intro: cause_cancel)
  next
    case late
    then show ?thesis by (auto intro: cause_deadline)
  next
    case objects
    then show ?thesis
      using ids(1,2,3) cause_objects [of "map visit_id vs"] by simp
  next
    case bytes
    then show ?thesis
      using cause_bytes [OF ids(2,1,5) less_le_trans [OF bytes(2) ids(4)]] by simp
  qed
qed

lemma walk_reachable_error:
  assumes "walk_reachable lookup roots opts = Inl e"
  shows "walk_error_cause lookup opts (set roots) e"
proof -
  obtain vs u u' where inv: "walk_inv lookup opts (set roots) vs u"
      and fail: "walk_round lookup opts u = (Return (Some (Inl e)), u')"
    using traversal.collect_err [OF walk_inv_init assms [unfolded walk_reachable_def]] by blast
  have R: "reach lookup (kinds opts) (set roots) i" if "pending (w_state u) = (i, d) # stack" for i d stack
    using inv that by (auto simp: walk_inv_def closure_inv_def Let_def met_def)
  show ?thesis
    using fail
  proof (cases rule: round_Fail)
    case budget
    then show ?thesis using inv budget_cause by (auto simp: walk_inv_def)
  next
    case (depth i depth stack)
    have "Suc (max_depth opts) < length (take depth (path (w_state u)) @ [i])"
      using top_chain(2) [OF inv depth(1)] depth(2) by simp
    then show ?thesis
      using top_chain(1) [OF inv depth(1)] depth(3) by (simp add: cause_depth)
  next
    case (source i depth stack)
    then show ?thesis using R [OF source(1)] by (simp add: cause_source)
  next
    case (absent i depth stack)
    then show ?thesis using R [OF absent(1)] by (simp add: cause_missing)
  next
    case (fan_out i depth stack n)
    then show ?thesis using R [OF fan_out(1)] by (simp add: cause_fan_out)
  next
    case (cycle i depth stack n dep)
    let ?p = "take depth (path (w_state u)) @ [i]"
    note chain = top_chain [OF inv cycle(1)]
    have step: "(i, dep) \<in> edges lookup (kinds opts)" using cycle(2,3,4) by (simp add: edges_def)
    obtain a where a: "a < length ?p" "?p ! a = dep" using cycle(5) by (meson in_set_conv_nth)
    have last: "?p ! depth = i" using chain(2) by (simp add: nth_append)
    have "(dep, dep) \<in> (edges lookup (kinds opts))\<^sup>+"
    proof (cases "a = depth")
      case True
      then show ?thesis using a last step by auto
    next
      case False
      then have "(?p ! a, ?p ! depth) \<in> (edges lookup (kinds opts))\<^sup>+"
        using chain a(1) by (intro chain_trancl) (auto simp: dependency_chain_def)
      then show ?thesis using a(2) last step by (auto intro: trancl_into_trancl)
    qed
    moreover have "reach lookup (kinds opts) (set roots) dep"
      using chain(1) cycle(5) by (auto simp: dependency_chain_def)
    ultimately show ?thesis using cycle(6) by (simp add: cause_cycle)
  qed
qed

end
