(* ===== verification/Have_Sets.thy ===== *)
theory Have_Sets
  imports Walk_Reach
begin

text \<open>
  Have-sets and the transfer plan: \<^verbatim>\<open>core/cavs-object/src/walk.rs\<close>, lines 396 to 494.
  The contract of a have-set (no false negative; a definite set has no false positive) is the
  locale \<open>have_contract\<close>, in which the completeness of \<open>compute_missing\<close> is proved; exact
  sets and the empty set are its interpretations here, the Bloom filter is one in the theory of
  negotiation.
\<close>

record have_set =
  may_have :: "object_id \<Rightarrow> bool"
  is_definite :: bool

definition have_exact :: "object_id set \<Rightarrow> have_set" where
  "have_exact ids = \<lparr>may_have = (\<lambda>i. i \<in> ids), is_definite = True\<rparr>"

definition have_nothing :: have_set where
  "have_nothing = \<lparr>may_have = (\<lambda>_. False), is_definite = True\<rparr>"

record missing_plan =
  plan_missing :: "object_id list"
  plan_bytes :: nat
  plan_uncertain :: "object_id list"
  plan_unavailable :: "object_id list"
  plan_already_present :: nat

definition empty_plan :: missing_plan where
  "empty_plan = \<lparr>plan_missing = [], plan_bytes = 0, plan_uncertain = [], plan_unavailable = [],
     plan_already_present = 0\<rparr>"

definition plan_is_empty :: "missing_plan \<Rightarrow> bool" where
  "plan_is_empty p \<longleftrightarrow> plan_missing p = [] \<and> plan_uncertain p = []"

definition plan_is_fulfillable :: "missing_plan \<Rightarrow> bool" where
  "plan_is_fulfillable p \<longleftrightarrow> plan_unavailable p = []"

function missing_loop :: "graph_lookup \<Rightarrow> walk_options \<Rightarrow> have_set \<Rightarrow> missing_plan \<Rightarrow> walk
    \<Rightarrow> missing_plan result" where
  "missing_loop lookup opts hs plan w =
     (case walk_next lookup opts w of
        (None, _) \<Rightarrow> Inr plan
      | (Some (Inl e), _) \<Rightarrow> Inl e
      | (Some (Inr v), w) \<Rightarrow>
          let held = may_have hs (visit_id v) in
          if held \<and> is_definite hs
          then missing_loop lookup opts hs
                 (plan\<lparr>plan_already_present := plan_already_present plan + 1\<rparr>) (prune_last w)
          else
          (case visit_node v of
             None \<Rightarrow>
               missing_loop lookup opts hs
                 (plan\<lparr>plan_unavailable := plan_unavailable plan @ [visit_id v]\<rparr>) w
           | Some node \<Rightarrow>
               if held
               then missing_loop lookup opts hs
                      (plan\<lparr>plan_uncertain := plan_uncertain plan @ [visit_id v]\<rparr>) w
               else missing_loop lookup opts hs
                      (plan\<lparr>plan_missing := plan_missing plan @ [visit_id v],
                            plan_bytes := sat_add64 (plan_bytes plan) (node_len node)\<rparr>) w))"
  by pat_completeness auto
termination
  by (relation "measure (\<lambda>(_, opts, _, _, w). Suc (max_objects opts) - objects_seen (w_state w))")
    (auto dest!: walk_next_objects [OF sym] simp: prune_last_def)

declare missing_loop.simps [simp del]

definition compute_missing ::
    "graph_lookup \<Rightarrow> object_id list \<Rightarrow> have_set \<Rightarrow> walk_options \<Rightarrow> missing_plan result" where
  "compute_missing lookup roots hs opts =
     missing_loop lookup opts hs empty_plan (walk_new roots)"

section \<open>What a finished plan says\<close>

text \<open>The plan as a function of the visits made, and the objects whose subtree was pruned.\<close>

definition plan_of :: "have_set \<Rightarrow> visit list \<Rightarrow> missing_plan" where
  "plan_of hs vs =
     (let pruned = (\<lambda>v. may_have hs (visit_id v) \<and> is_definite hs);
          needed = filter (\<lambda>v. \<not> may_have hs (visit_id v) \<and> visit_node v \<noteq> None) vs in
      \<lparr>plan_missing = map visit_id needed,
       plan_bytes = min (sum_list (map visit_len needed)) u64_max,
       plan_uncertain = map visit_id (filter (\<lambda>v. \<not> pruned v \<and> may_have hs (visit_id v)
                                                   \<and> visit_node v \<noteq> None) vs),
       plan_unavailable = map visit_id (filter (\<lambda>v. \<not> pruned v \<and> visit_node v = None) vs),
       plan_already_present = length (filter pruned vs)\<rparr>)"

definition pruned_by :: "have_set \<Rightarrow> visit list \<Rightarrow> object_id set" where
  "pruned_by hs vs = {i \<in> visit_id ` set vs. may_have hs i \<and> is_definite hs}"

lemma pruned_by_snoc:
  "pruned_by hs (vs @ [v]) =
     (if may_have hs (visit_id v) \<and> is_definite hs then insert (visit_id v) (pruned_by hs vs)
      else pruned_by hs vs)"
  by (auto simp: pruned_by_def)

lemma min_add_min: "min (min a m + b) m = min (a + b) (m::nat)"
  by simp

lemma missing_loop_ok:
  assumes "missing_loop lookup opts hs (plan_of hs vs) w = Inr plan"
    and "closure_inv lookup opts roots (pruned_by hs vs) vs w" "\<not> w_failed w"
  shows "\<exists>vs' w'. plan = plan_of hs vs' \<and> closure_inv lookup opts roots (pruned_by hs vs') vs' w'
    \<and> pending (w_state w') = [] \<and> objects_seen (w_state w') \<le> max_objects opts"
  using assms
proof (induction "Suc (max_objects opts) - objects_seen (w_state w)" arbitrary: vs w rule: less_induct)
  case less
  obtain item u where n: "walk_next lookup opts w = (item, u)" by fastforce
  consider (none) "item = None" | (err) e where "item = Some (Inl e)" | (visit) v where "item = Some (Inr v)"
    by (cases item; cases "the item") auto
  then show ?case
  proof cases
    case none
    with n closure.next_done [OF less.prems(2) _ less.prems(3)] less.prems(1) show ?thesis
      by (auto simp: missing_loop.simps [of lookup opts hs _ w])
  next
    case err
    with n less.prems(1) show ?thesis by (simp add: missing_loop.simps [of lookup opts hs _ w])
  next
    case visit
    with n have nv: "walk_next lookup opts w = (Some (Inr v), u)" by simp
    define u' where "u' = (if may_have hs (visit_id v) \<and> is_definite hs then prune_last u else u)"
    have inv: "closure_inv lookup opts roots (pruned_by hs vs) (vs @ [v]) u"
      by (rule closure.next_ok [OF less.prems(2) nv])
    then have inv': "closure_inv lookup opts roots (pruned_by hs (vs @ [v])) (vs @ [v]) u'"
      using closure_prune by (simp add: u'_def pruned_by_snoc)
    have smaller: "Suc (max_objects opts) - objects_seen (w_state u')
        < Suc (max_objects opts) - objects_seen (w_state w)"
      using walk_next_objects [OF nv] by (auto simp: u'_def prune_last_def)
    have ok: "\<not> w_failed u'"
      using walk_next_keeps [OF nv] less.prems(3) by (simp add: u'_def prune_last_def)
    have "missing_loop lookup opts hs (plan_of hs (vs @ [v])) u' = Inr plan"
      using less.prems(1) nv
      by (cases "visit_node v")
        (auto simp: missing_loop.simps [of lookup opts hs _ w] plan_of_def u'_def Let_def
          sat_add64_def visit_len_def min_add_min split: if_splits)
    from less.hyps [OF smaller this inv' ok] show ?thesis .
  qed
qed

lemma compute_missing_ok:
  assumes "compute_missing lookup roots hs opts = Inr plan"
  shows "\<exists>vs w. plan = plan_of hs vs
    \<and> closure_inv lookup opts (set roots) (pruned_by hs vs) vs w
    \<and> pending (w_state w) = [] \<and> length vs \<le> max_objects opts"
proof -
  have "plan_of hs [] = empty_plan" by (simp add: plan_of_def empty_plan_def u64_max_def)
  moreover have "pruned_by hs [] = {}" by (simp add: pruned_by_def)
  ultimately obtain vs w where "plan = plan_of hs vs"
      "closure_inv lookup opts (set roots) (pruned_by hs vs) vs w"
      "pending (w_state w) = []" "objects_seen (w_state w) \<le> max_objects opts"
    using missing_loop_ok [of lookup opts hs "[]" "walk_new roots" plan "set roots"] assms
      closure_init [of lookup opts roots]
    by (auto simp: compute_missing_def walk_new_def)
  moreover have "objects_seen (w_state w) = length vs"
    using calculation by (simp add: closure_inv_def Let_def)
  ultimately show ?thesis by auto
qed

section \<open>The contract of a have-set\<close>

locale have_contract =
  fixes hs :: have_set
    and held :: "object_id set"
  assumes no_false_negative: "i \<in> held \<Longrightarrow> may_have hs i"
    and definite_exact: "is_definite hs \<Longrightarrow> may_have hs i \<Longrightarrow> i \<in> held"
begin

lemma pruned_held: "pruned_by hs vs \<subseteq> held"
  using definite_exact by (auto simp: pruned_by_def)

lemma indefinite_keeps: "\<not> is_definite hs \<Longrightarrow> pruned_by hs vs = {}"
  by (simp add: pruned_by_def)

text \<open>
  A plan is complete: when what the receiver holds is closed under dependencies, every reachable
  object is held or is named by the plan.
\<close>

lemma plan_complete:
  assumes plan: "compute_missing lookup roots hs opts = Inr plan"
    and closed: "\<And>i. i \<in> held \<Longrightarrow> children lookup (kinds opts) i \<subseteq> held"
    and reach: "reach lookup (kinds opts) (set roots) i" "\<not> filtered_out lookup (kinds opts) i"
  shows "i \<in> held \<union> set (plan_missing plan) \<union> set (plan_uncertain plan) \<union> set (plan_unavailable plan)"
proof -
  obtain vs w where p: "plan = plan_of hs vs"
    and inv: "closure_inv lookup opts (set roots) (pruned_by hs vs) vs w"
    and fin: "pending (w_state w) = []"
    using compute_missing_ok [OF plan] by blast
  let ?V = "visited (w_state w)"
  have roots: "set roots \<subseteq> ?V" and kids: "\<And>j. j \<in> ?V - pruned_by hs vs \<Longrightarrow>
      children lookup (kinds opts) j \<subseteq> ?V"
    and yielded: "visit_id ` set vs = {j \<in> ?V. \<not> filtered_out lookup (kinds opts) j}"
    using inv fin by (auto simp: closure_inv_def Let_def met_def)
  have "i \<in> ?V \<union> held"
    using reach(1)
  proof (rule reach_least)
    show "children lookup (kinds opts) j \<subseteq> ?V \<union> held" if "j \<in> ?V \<union> held" for j
      using that kids closed pruned_held by (cases "j \<in> held") blast+
  qed (use roots in blast)
  then consider "i \<in> held" | v where "v \<in> set vs" "i = visit_id v"
    using yielded reach(2) by blast
  then show ?thesis
  proof cases
    case 2
    then show ?thesis
      using definite_exact by (fastforce simp: p plan_of_def Let_def image_iff)
  qed simp
qed

text \<open>
  An indefinite set prunes nothing, so the plan names every reachable object whatever is held.
\<close>

lemma plan_indefinite_complete:
  assumes plan: "compute_missing lookup roots hs opts = Inr plan" and indefinite: "\<not> is_definite hs"
    and reach: "reach lookup (kinds opts) (set roots) i" "\<not> filtered_out lookup (kinds opts) i"
  shows "i \<in> set (plan_missing plan) \<union> set (plan_uncertain plan) \<union> set (plan_unavailable plan)"
proof -
  obtain vs w where p: "plan = plan_of hs vs"
    and inv: "closure_inv lookup opts (set roots) {} vs w"
    and fin: "pending (w_state w) = []"
    using compute_missing_ok [OF plan] indefinite_keeps [OF indefinite] by metis
  have "i \<in> visited (w_state w)"
    using reach(1) by (rule reach_least) (use inv fin in \<open>auto simp: closure_inv_def Let_def met_def\<close>)
  moreover have "visit_id ` set vs = {i \<in> visited (w_state w). \<not> filtered_out lookup (kinds opts) i}"
    using inv by (simp add: closure_inv_def Let_def)
  ultimately obtain v where "v \<in> set vs" "i = visit_id v"
    using reach(2) by blast
  then show ?thesis
    using indefinite by (fastforce simp: p plan_of_def Let_def image_iff)
qed

text \<open>A plan is exact: what it calls missing is there to send, is not held, and is named once.\<close>

lemma plan_exact:
  assumes plan: "compute_missing lookup roots hs opts = Inr plan"
  shows "distinct (plan_missing plan @ plan_uncertain plan @ plan_unavailable plan)"
    and "i \<in> set (plan_missing plan) \<Longrightarrow> reach lookup (kinds opts) (set roots) i \<and> i \<notin> held
      \<and> (\<exists>n. lookup i = Inr (Some n))"
    and "plan_bytes plan = min (sum_list (map (\<lambda>i. case lookup i of Inr (Some n) \<Rightarrow> node_len n | _ \<Rightarrow> 0)
      (plan_missing plan))) u64_max"
    and "is_definite hs \<Longrightarrow> plan_uncertain plan = []"
proof -
  obtain vs w where p: "plan = plan_of hs vs"
    and inv: "closure_inv lookup opts (set roots) (pruned_by hs vs) vs w"
    and fin: "pending (w_state w) = []"
    using compute_missing_ok [OF plan] by blast
  have d: "distinct (map visit_id vs)"
    and "\<forall>v \<in> set vs. right_visit lookup opts v"
    and m: "met (w_state w) \<subseteq> Collect (reach lookup (kinds opts) (set roots))"
    and y: "visit_id ` set vs = {i \<in> visited (w_state w). \<not> filtered_out lookup (kinds opts) i}"
    using inv by (simp_all add: closure_inv_def Let_def)
  then have right: "\<And>v. v \<in> set vs \<Longrightarrow> lookup (visit_id v) = Inr (visit_node v)"
    by (simp add: right_visit_def)
  have r: "reach lookup (kinds opts) (set roots) (visit_id v)" if "v \<in> set vs" for v
  proof -
    have "visit_id v \<in> visited (w_state w)" using y that by blast
    then show ?thesis using m by (auto simp: met_def)
  qed
  have once: "v = u" if "v \<in> set vs" "u \<in> set vs" "visit_id v = visit_id u" for v u
    using d that by (auto simp: distinct_map inj_on_def)
  show "distinct (plan_missing plan @ plan_uncertain plan @ plan_unavailable plan)"
    using d once by (auto simp: p plan_of_def Let_def distinct_map inj_on_def) (metis option.simps(3))+
  show "reach lookup (kinds opts) (set roots) i \<and> i \<notin> held \<and> (\<exists>n. lookup i = Inr (Some n))"
    if "i \<in> set (plan_missing plan)"
    using that r right no_false_negative by (auto simp: p plan_of_def Let_def)
  let ?len = "\<lambda>i. case lookup i of Inr (Some n) \<Rightarrow> node_len n | _ \<Rightarrow> 0"
  let ?needed = "filter (\<lambda>v. \<not> may_have hs (visit_id v) \<and> visit_node v \<noteq> None) vs"
  have lens: "map ?len (map visit_id us) = map visit_len us" if "set us \<subseteq> set vs" for us
    using that right by (auto simp: visit_len_def split: option.splits)
  have "map ?len (map visit_id ?needed) = map visit_len ?needed"
    by (rule lens [OF filter_is_subset])
  moreover have "plan_missing plan = map visit_id ?needed"
    "plan_bytes plan = min (sum_list (map visit_len ?needed)) u64_max"
    by (simp_all add: p plan_of_def Let_def)
  ultimately show "plan_bytes plan = min (sum_list (map ?len (plan_missing plan))) u64_max"
    by (simp only:)
  show "plan_uncertain plan = []" if "is_definite hs"
    using that by (auto simp: p plan_of_def Let_def filter_empty_conv)
qed

end

interpretation exact: have_contract "have_exact ids" ids for ids
  by unfold_locales (simp_all add: have_exact_def)

interpretation empty: have_contract have_nothing "{}"
  by unfold_locales (simp_all add: have_nothing_def)

end
