(* ===== verification/Traversal.thy ===== *)
theory Traversal
  imports Walk_Cycles Have_Sets
begin

text \<open>
  What the traversal of \<^verbatim>\<open>core/cavs-object/src/walk.rs\<close> promises: the properties of a walk and of
  a transfer plan, each with an instance on the graphs of the module's own tests.
\<close>

section \<open>Concrete graphs\<close>

text \<open>
  The graph of the tests of \<^verbatim>\<open>walk.rs\<close>: commit 1 names trees 2 and 5, tree 2 the chunks 3 and 4,
  tree 5 the chunk 4; and the ring 1, 2, 3 of its cycle test.
\<close>

definition nid :: "byte \<Rightarrow> object_id" where
  "nid n = from_blake3 [n]"

definition node :: "object_kind \<Rightarrow> byte list \<Rightarrow> nat \<Rightarrow> byte \<Rightarrow> object_node" where
  "node kind deps len n =
     \<lparr>node_id = nid n, node_kind = kind, node_len = len, node_deps = map nid deps\<rparr>"

definition diamond :: graph_lookup where
  "diamond i =
     (if i = nid 1 then Inr (Some (node Commit [2, 5] 100 1))
      else if i = nid 2 then Inr (Some (node Tree [3, 4] 200 2))
      else if i = nid 5 then Inr (Some (node Tree [4] 200 5))
      else if i = nid 3 then Inr (Some (node Chunk [] 1000 3))
      else if i = nid 4 then Inr (Some (node Chunk [] 2000 4))
      else Inr None)"

definition ring :: graph_lookup where
  "ring i =
     (if i = nid 1 then Inr (Some (node Tree [2] 10 1))
      else if i = nid 2 then Inr (Some (node Tree [3] 10 2))
      else if i = nid 3 then Inr (Some (node Tree [1] 10 3))
      else Inr None)"

definition diamond_visits :: "visit list" where
  "diamond_visits =
     [\<lparr>visit_id = nid 1, visit_depth = 0, visit_node = Some (node Commit [2, 5] 100 1)\<rparr>,
      \<lparr>visit_id = nid 2, visit_depth = 1, visit_node = Some (node Tree [3, 4] 200 2)\<rparr>,
      \<lparr>visit_id = nid 3, visit_depth = 2, visit_node = Some (node Chunk [] 1000 3)\<rparr>,
      \<lparr>visit_id = nid 4, visit_depth = 2, visit_node = Some (node Chunk [] 2000 4)\<rparr>,
      \<lparr>visit_id = nid 5, visit_depth = 1, visit_node = Some (node Tree [4] 200 5)\<rparr>]"

lemma nid_eq_iff [simp]: "nid a = nid b \<longleftrightarrow> a = b"
  by (simp add: nid_def)

lemmas walk_steps = walk_reachable_def walk_collect.simps walk_next_def next_visit.simps
  walk_round_def budget_check_def walk_new_def Let_def default_walk_options_def no_filter_def
  admits_def sat_add64_def u64_max_def rbind_def

lemma diamond_walk: "walk_reachable diamond [nid 1] default_walk_options = Inr diamond_visits"
  by (simp add: walk_steps diamond_def node_def diamond_visits_def)

lemma ring_walk:
  "walk_reachable ring [nid 1] default_walk_options = Inl (CycleDetected (id_to_hex (nid 1)))"
  by (simp add: walk_steps ring_def node_def)

section \<open>Traversal\<close>

text \<open>
  C30.  A walk that succeeds yields exactly the admitted objects that the roots reach through
  admitted objects: the walk never descends below an object that the class filter refuses, whether
  the filter includes or excludes.  Absent objects are yielded too.  Each object comes once, with
  the node the source returned and within the depth bound; and the walk respects the object and
  byte budgets.
\<close>

theorem walk_yields_reachable:
  assumes "walk_reachable lookup roots opts = Inr vs"
  shows "visit_id ` set vs
      = {i. reach lookup (kinds opts) (set roots) i \<and> \<not> filtered_out lookup (kinds opts) i}
    \<and> distinct (map visit_id vs) \<and> (\<forall>v \<in> set vs. right_visit lookup opts v)
    \<and> length vs \<le> max_objects opts
    \<and> min (sum_list (map visit_len vs)) u64_max \<le> max_bytes opts"
  using walk_reachable_closure [OF assms] by blast

lemma walk_yields_reachable_witness:
  "visit_id ` set diamond_visits = {i. reach diamond (kinds default_walk_options) (set [nid 1]) i
      \<and> \<not> filtered_out diamond (kinds default_walk_options) i}
    \<and> length diamond_visits = 5"
  using walk_yields_reachable [OF diamond_walk] by (simp add: diamond_visits_def)

text \<open>
  C32.  A walk that succeeds has read an acyclic graph: no object it can reach is its own
  transitive dependency.  (A diamond, where an object is reached twice, is not a cycle.)
\<close>

theorem walk_success_acyclic:
  assumes "walk_reachable lookup roots opts = Inr vs"
    and "reach lookup (kinds opts) (set roots) i"
  shows "(i, i) \<notin> (edges lookup (kinds opts))\<^sup>+"
  by (rule walk_reachable_acyclic [OF assms])

lemma walk_success_acyclic_witness:
  "(nid 1, nid 1) \<notin> (edges diamond (kinds default_walk_options))\<^sup>+"
  by (rule walk_success_acyclic [OF diamond_walk reach_root]) simp

text \<open>
  C34.  Every error of a walk has its cause: the flag was raised or the deadline passed; that many
  distinct reachable objects, or bytes, exceed the budget; a dependency chain is longer than the
  depth bound; the source failed on, or (in strict mode) does not hold, a reachable object; an
  object names too many dependencies; or the object named in the error really is on a cycle.
\<close>

theorem walk_error_has_cause:
  assumes "walk_reachable lookup roots opts = Inl e"
  shows "walk_error_cause lookup opts (set roots) e"
  by (rule walk_reachable_error [OF assms])

lemma walk_error_has_cause_witness:
  "walk_error_cause ring default_walk_options {nid 1} (CycleDetected (id_to_hex (nid 1)))"
  using walk_error_has_cause [OF ring_walk] by simp

section \<open>Transfer plans\<close>

text \<open>
  C36.  A transfer plan against an exact have-set is complete up to the filter: when the held set is
  closed under the dependencies of admitted objects, every admitted object that the roots reach
  through admitted objects is held, or is named missing, or is reported as unavailable at the
  sender; nothing is left uncertain, and nothing held is sent.  (What lies below a refused object
  is not planned.)
\<close>

theorem exact_plan_complete:
  assumes "compute_missing lookup roots (have_exact held) opts = Inr plan"
    and "\<And>i. i \<in> held \<Longrightarrow> children lookup (kinds opts) i \<subseteq> held"
  shows "{i. reach lookup (kinds opts) (set roots) i \<and> \<not> filtered_out lookup (kinds opts) i}
      \<subseteq> held \<union> set (plan_missing plan) \<union> set (plan_unavailable plan)
    \<and> plan_uncertain plan = [] \<and> set (plan_missing plan) \<inter> held = {}"
proof -
  have none: "plan_uncertain plan = []"
    by (rule exact.plan_exact(4) [OF assms(1)]) (simp add: have_exact_def)
  have "i \<in> held \<union> set (plan_missing plan) \<union> set (plan_unavailable plan)"
    if "reach lookup (kinds opts) (set roots) i" "\<not> filtered_out lookup (kinds opts) i" for i
    using exact.plan_complete [OF assms(1) assms(2) that] none by simp
  then show ?thesis
    using none exact.plan_exact(2) [OF assms(1)] by blast
qed

lemma exact_plan_complete_witness:
  "{i. reach diamond (kinds default_walk_options) (set [nid 1]) i
      \<and> \<not> filtered_out diamond (kinds default_walk_options) i}
    \<subseteq> {nid 2, nid 3, nid 4} \<union> {nid 1, nid 5}"
proof -
  have plan: "compute_missing diamond [nid 1] (have_exact {nid 2, nid 3, nid 4}) default_walk_options
      = Inr \<lparr>plan_missing = [nid 1, nid 5], plan_bytes = 300, plan_uncertain = [],
             plan_unavailable = [], plan_already_present = 2\<rparr>"
    by (simp add: compute_missing_def missing_loop.simps walk_steps diamond_def node_def
        have_exact_def empty_plan_def prune_last_def)
  have closed: "children diamond (kinds default_walk_options) i \<subseteq> {nid 2, nid 3, nid 4}"
    if "i \<in> {nid 2, nid 3, nid 4}" for i
    using that by (auto simp: children_def diamond_def node_def split: if_splits)
  show ?thesis using exact_plan_complete [OF plan closed] by auto
qed

end
