(* ===== verification/Envelope.thy ===== *)
theory Envelope
  imports Object_Id
begin

text \<open>
  The canonical wire form of a structural object: \<^verbatim>\<open>core/cavs-object/src/envelope.rs\<close>.
  The lemmas show that encoding and decoding are inverse on well-formed envelopes and that the
  decoder accepts nothing but canonical encodings, so each object has one byte form.
\<close>

definition envelope_format_v1 :: u16 where
  "envelope_format_v1 = 1"

section \<open>Limits\<close>

record decode_limits =
  max_encoded_len :: nat
  max_body_len :: nat
  max_dependencies :: nat
  max_payload_len :: nat

definition default_limits :: decode_limits where
  "default_limits = \<lparr>max_encoded_len = 64 * 1024 * 1024, max_body_len = 64 * 1024 * 1024,
     max_dependencies = 2 ^ 20, max_payload_len = 2 ^ 30\<rparr>"

definition with_max_payload_len :: "nat \<Rightarrow> decode_limits \<Rightarrow> decode_limits" where
  "with_max_payload_len m lim = lim\<lparr>max_payload_len := m\<rparr>"

definition max_len_for :: "decode_limits \<Rightarrow> object_kind \<Rightarrow> nat" where
  "max_len_for lim kind = (if is_payload kind then max_payload_len lim else max_encoded_len lim)"

section \<open>Envelopes\<close>

record object_envelope =
  env_format :: u16
  env_kind :: object_kind
  env_deps :: "object_id list"
  env_body :: bytes

definition envelope_new :: "object_kind \<Rightarrow> object_id list \<Rightarrow> bytes \<Rightarrow> object_envelope result" where
  "envelope_new kind deps body =
     (let deps = remdups_adj (sort deps) in
      if is_payload kind \<and> deps \<noteq> [] then Inl PayloadWithDependencies
      else Inr \<lparr>env_format = envelope_format_v1, env_kind = kind, env_deps = deps,
                 env_body = body\<rparr>)"

definition envelope_leaf :: "object_kind \<Rightarrow> bytes \<Rightarrow> object_envelope result" where
  "envelope_leaf kind body = envelope_new kind [] body"

definition canonical_bytes :: "object_envelope \<Rightarrow> bytes" where
  "canonical_bytes e =
     (if is_payload (env_kind e) then env_body e
      else to_le 2 (env_format e)
         @ to_le 4 (kind_tag (env_kind e))
         @ write_varuint (of_nat (length (env_deps e)))
         @ encode_all write_id (env_deps e)
         @ write_varuint (of_nat (length (env_body e)))
         @ env_body e)"

definition envelope_id :: "hash_fun \<Rightarrow> object_envelope \<Rightarrow> object_id" where
  "envelope_id blake3 e = compute_id blake3 (env_kind e) (canonical_bytes e)"

text \<open>The dependency loop: each id must be greater than the one before.\<close>

fun decode_deps :: "nat \<Rightarrow> object_id option \<Rightarrow> bytes \<Rightarrow> (object_id list \<times> bytes) result" where
  "decode_deps 0 previous input = Inr ([], input)"
| "decode_deps (Suc n) previous input =
     rbind (read_id_with ''dependency algorithm'' ''dependency digest'' input) (\<lambda>(i, input).
     if (case previous of None \<Rightarrow> False | Some p \<Rightarrow> i \<le> p) then Inl DependenciesNotCanonical
     else rbind (decode_deps n (Some i) input) (\<lambda>(deps, input). Inr (i # deps, input)))"

definition envelope_decode ::
    "object_kind \<Rightarrow> bytes \<Rightarrow> decode_limits \<Rightarrow> object_envelope result" where
  "envelope_decode kind bs lim =
     (let m = max_len_for lim kind in
      if m < length bs then Inl (TooLarge ''object'' (length bs) m)
      else if is_payload kind then
        Inr \<lparr>env_format = envelope_format_v1, env_kind = kind, env_deps = [], env_body = bs\<rparr>
      else
        rbind (take_le (Truncated ''format_version'') 2 bs) (\<lambda>(format_version, input).
        if format_version \<noteq> envelope_format_v1 then Inl (UnsupportedFormat format_version)
        else
        rbind (take_le (Truncated ''kind'') 4 input) (\<lambda>(tag, input).
        rbind (ok_or (UnknownKind tag) (kind_from_tag tag)) (\<lambda>decoded_kind.
        if decoded_kind \<noteq> kind then Inl (KindMismatch kind decoded_kind)
        else
        rbind (read_varuint input) (\<lambda>(dep_count, input).
        let dep_count = unat dep_count in
        if max_dependencies lim < dep_count
        then Inl (TooManyDependencies dep_count (max_dependencies lim))
        else if length input < sat_mul64 dep_count 33 then Inl (Truncated ''dependencies'')
        else
        rbind (decode_deps dep_count None input) (\<lambda>(deps, input).
        rbind (read_varuint input) (\<lambda>(body_len, input).
        let body_len = unat body_len in
        if max_body_len lim < body_len then Inl (TooLarge ''body'' body_len (max_body_len lim))
        else if body_len \<noteq> length input then Inl TrailingBytes
        else Inr \<lparr>env_format = format_version, env_kind = kind, env_deps = deps,
                   env_body = input\<rparr>)))))))"

definition decode_verified ::
    "hash_fun \<Rightarrow> object_kind \<Rightarrow> object_id \<Rightarrow> bytes \<Rightarrow> decode_limits \<Rightarrow> object_envelope result" where
  "decode_verified blake3 kind expected bs lim =
     (let actual = compute_id blake3 kind bs in
      if actual \<noteq> expected then Inl (IdMismatch (id_to_hex expected) (id_to_hex actual))
      else envelope_decode kind bs lim)"

section \<open>Well-formed envelopes\<close>

definition canonical_deps :: "object_id list \<Rightarrow> bool" where
  "canonical_deps deps \<longleftrightarrow> sorted_wrt (<) deps \<and> (\<forall>d \<in> set deps. valid_id d)"

definition wf_envelope :: "object_envelope \<Rightarrow> bool" where
  "wf_envelope e \<longleftrightarrow> env_format e = envelope_format_v1 \<and> valid_kind (env_kind e)
     \<and> canonical_deps (env_deps e) \<and> (is_payload (env_kind e) \<longrightarrow> env_deps e = [])
     \<and> length (env_deps e) < 2 ^ 64 \<and> length (env_body e) < 2 ^ 64"

definition within_limits :: "decode_limits \<Rightarrow> object_envelope \<Rightarrow> bool" where
  "within_limits lim e \<longleftrightarrow> length (canonical_bytes e) \<le> max_len_for lim (env_kind e)
     \<and> (\<not> is_payload (env_kind e) \<longrightarrow>
          length (env_deps e) \<le> max_dependencies lim \<and> length (env_body e) \<le> max_body_len lim)"

lemma decode_deps_encode:
  assumes "canonical_deps deps" "\<And>p d. previous = Some p \<Longrightarrow> d \<in> set deps \<Longrightarrow> p < d"
  shows "decode_deps (length deps) previous (encode_all write_id deps @ rest) = Inr (deps, rest)"
  using assms
proof (induction deps arbitrary: previous)
  case Nil
  show ?case by simp
next
  case (Cons d deps)
  have "decode_deps (length deps) (Some d) (encode_all write_id deps @ rest) = Inr (deps, rest)"
    using Cons.prems(1) by (intro Cons.IH) (auto simp: canonical_deps_def)
  moreover have "\<not> (case previous of None \<Rightarrow> False | Some p \<Rightarrow> d \<le> p)"
    using Cons.prems(2) by (force split: option.splits)
  ultimately show ?case
    using Cons.prems(1) by (simp add: canonical_deps_def id_codec.dec_enc)
qed

lemma decode_deps_sound:
  assumes "decode_deps n previous input = Inr (deps, rest)"
  shows "length deps = n \<and> canonical_deps deps \<and> input = encode_all write_id deps @ rest
    \<and> (\<forall>p. previous = Some p \<longrightarrow> (\<forall>d \<in> set deps. p < d))"
  using assms
proof (induction n arbitrary: previous input deps)
  case 0
  then show ?case by (simp add: canonical_deps_def)
next
  case (Suc n)
  then obtain i mid deps' where
      i: "read_id_with ''dependency algorithm'' ''dependency digest'' input = Inr (i, mid)"
      "\<not> (case previous of None \<Rightarrow> False | Some p \<Rightarrow> i \<le> p)" "deps = i # deps'"
      and rec: "decode_deps n (Some i) mid = Inr (deps', rest)"
    by (auto simp: rbind_eq_Inr split: if_splits)
  have "valid_id i \<and> input = write_id i @ mid" by (rule id_codec.dec_sound [OF i(1)])
  with Suc.IH [OF rec] i(2,3) show ?case
    by (auto simp: canonical_deps_def split: option.splits)
qed

lemma sat_mul_le: "33 * n \<le> m \<Longrightarrow> sat_mul64 n 33 \<le> m"
  by (simp add: sat_mul64_def mult.commute)

lemma length_encode_ids: "\<forall>d \<in> set deps. valid_id d \<Longrightarrow> length (encode_all write_id deps) = 33 * length deps"
  by (induction deps) (simp_all add: length_write_id)

lemma decode_canonical:
  assumes "wf_envelope e" "within_limits lim e"
  shows "envelope_decode (env_kind e) (canonical_bytes e) lim = Inr e"
proof (cases "is_payload (env_kind e)")
  case True
  then show ?thesis
    using assms
    by (cases e) (simp add: envelope_decode_def canonical_bytes_def wf_envelope_def
        within_limits_def Let_def)
next
  case False
  let ?tail = "write_varuint (of_nat (length (env_body e))) @ env_body e"
  have deps: "decode_deps (length (env_deps e)) None (encode_all write_id (env_deps e) @ ?tail)
      = Inr (env_deps e, ?tail)"
    using assms(1) by (intro decode_deps_encode) (auto simp: wf_envelope_def)
  have "length (encode_all write_id (env_deps e)) = 33 * length (env_deps e)"
    using assms(1) by (intro length_encode_ids) (simp add: wf_envelope_def canonical_deps_def)
  then have room: "sat_mul64 (length (env_deps e)) 33 \<le> length (encode_all write_id (env_deps e) @ ?tail)"
    by (intro sat_mul_le) simp
  show ?thesis
    using False assms deps room
    by (simp add: envelope_decode_def canonical_bytes_def wf_envelope_def within_limits_def
        Let_def kind_from_tag_tag obj_varuint.dec_enc unat_of_nat not_less)
qed

lemma decode_sound:
  assumes "envelope_decode kind bs lim = Inr e" "valid_kind kind" "length bs < 2 ^ 64"
  shows "env_kind e = kind \<and> wf_envelope e \<and> within_limits lim e \<and> canonical_bytes e = bs"
proof (cases "is_payload kind")
  case True
  then show ?thesis
    using assms
    by (auto simp: envelope_decode_def canonical_bytes_def wf_envelope_def within_limits_def
        canonical_deps_def Let_def split: if_splits)
next
  case False
  then obtain fv i1 tag i2 n i3 deps i4 m where
      fv: "take_le (Truncated ''format_version'') 2 bs = Inr (fv, i1)" "fv = envelope_format_v1"
      and tag: "take_le (Truncated ''kind'') 4 i1 = Inr (tag, i2)" "kind_from_tag tag = Some kind"
      and n: "read_varuint i2 = Inr (n, i3)" "unat n \<le> max_dependencies lim"
      and deps: "decode_deps (unat n) None i3 = Inr (deps, i4)"
      and m: "read_varuint i4 = Inr (m, env_body e)" "unat m \<le> max_body_len lim"
        "unat m = length (env_body e)"
      and e: "env_format e = fv" "env_kind e = kind" "env_deps e = deps"
      and len: "length bs \<le> max_len_for lim kind"
    using assms(1)
    by (auto simp: envelope_decode_def result_simps Let_def not_less split: if_splits)
  have bs: "bs = to_le 2 fv @ i1" "i1 = to_le 4 tag @ i2" "i2 = write_varuint n @ i3"
      "i4 = write_varuint m @ env_body e"
    using le16.dec_sound [OF fv(1)] le32.dec_sound [OF tag(1)] obj_varuint.dec_sound [OF n(1)]
      obj_varuint.dec_sound [OF m(1)] by simp_all
  have i3: "length deps = unat n" "canonical_deps deps" "i3 = encode_all write_id deps @ i4"
    using decode_deps_sound [OF deps] by simp_all
  have small: "unat n < 2 ^ 64" "unat m < 2 ^ 64" by (rule unat_u64)+
  have canon: "canonical_bytes e = bs"
    using False bs i3 m(3) kind_tag_from_tag [OF tag(2)]
    by (simp add: canonical_bytes_def e flip: m(3))
  then show ?thesis
    using False fv(2) e i3 n(2) m(2,3) small assms(2) len
    by (simp add: wf_envelope_def within_limits_def)
qed

lemma envelope_new_wf:
  assumes "envelope_new kind deps body = Inr e" "valid_kind kind" "\<forall>d \<in> set deps. valid_id d"
    and "length deps < 2 ^ 64" "length body < 2 ^ 64"
  shows "wf_envelope e"
proof -
  have "length (remdups_adj (sort deps)) \<le> length deps"
    using remdups_adj_length [of "sort deps"] by simp
  then show ?thesis
    using assms
    using strict_sorted_sort_dedup [of deps]
    by (auto simp: envelope_new_def wf_envelope_def canonical_deps_def Let_def split: if_splits)
qed

lemma envelope_new_set:
  "set deps = set deps' \<Longrightarrow> envelope_new kind deps body = envelope_new kind deps' body"
  using sort_dedup_eq [of deps deps'] by (simp add: envelope_new_def)

lemma envelope_new_deps:
  assumes "envelope_new kind deps body = Inr e"
  shows "set (env_deps e) = set deps"
proof -
  have "e = \<lparr>env_format = envelope_format_v1, env_kind = kind,
      env_deps = remdups_adj (sort deps), env_body = body\<rparr>"
    using assms by (simp only: envelope_new_def Let_def split: if_splits) simp_all
  then show ?thesis by simp
qed

lemma decode_verified_id:
  "decode_verified blake3 kind i bs lim = Inr e \<Longrightarrow>
     compute_id blake3 kind bs = i \<and> envelope_decode kind bs lim = Inr e"
  by (simp add: decode_verified_def Let_def split: if_splits)

lemma decode_payload_deps: "envelope_decode Chunk bs lim = Inr e \<Longrightarrow> env_deps e = []"
  by (auto simp: envelope_decode_def Let_def split: if_splits)

end
