(* ===== verification/Encodings.thy ===== *)
theory Encodings
  imports Envelope
begin

text \<open>
  The properties of the encodings: objects, identifiers, kinds, varints and digests.
\<close>

section \<open>Encodings\<close>

text \<open>
  C40.  Encoding and decoding of objects are inverse on both sides: a well-formed envelope within
  the limits decodes from its canonical bytes to itself, and whatever bytes the decoder accepts
  are the canonical bytes of the envelope it returns.  So an object has one encoding, and one id.
\<close>

theorem envelope_encoding_canonical:
  assumes "valid_kind kind" "length bs < 2 ^ 64"
  shows "envelope_decode kind bs lim = Inr e
    \<longleftrightarrow> env_kind e = kind \<and> wf_envelope e \<and> within_limits lim e \<and> canonical_bytes e = bs"
  using decode_sound [OF _ assms] decode_canonical by metis

definition sample_tree :: object_envelope where
  "sample_tree = \<lparr>env_format = 1, env_kind = Tree,
     env_deps = [from_blake3 (replicate 32 1), from_blake3 (replicate 32 2)], env_body = [1, 2, 3]\<rparr>"

lemma replicate_less: "0 < n \<Longrightarrow> a < b \<Longrightarrow> replicate n a < replicate n (b :: 'a::linorder)"
  by (cases n) simp_all

lemma envelope_encoding_canonical_witness:
  "envelope_decode Tree (canonical_bytes sample_tree) default_limits = Inr sample_tree"
  by (subst envelope_encoding_canonical)
    (simp_all add: sample_tree_def wf_envelope_def within_limits_def canonical_deps_def
      canonical_bytes_def envelope_format_v1_def default_limits_def max_len_for_def valid_id_def
      less_object_id_def length_write_id from_blake3_def write_varuint.simps replicate_less)

text \<open>
  The dependency list is a set: the order and the repetitions in which a caller names the
  dependencies change neither the envelope, nor its bytes, nor its id.
\<close>

theorem envelope_order_independent:
  assumes "set deps = set deps'"
  shows "envelope_new kind deps body = envelope_new kind deps' body
    \<and> map_sum id (envelope_id blake3) (envelope_new kind deps body)
        = map_sum id (envelope_id blake3) (envelope_new kind deps' body)
    \<and> (\<forall>e. envelope_new kind deps body = Inr e \<longrightarrow> set (env_deps e) = set deps
           \<and> sorted_wrt (<) (env_deps e))"
  using envelope_new_set [OF assms] envelope_new_deps [of kind deps body]
  by (auto simp: envelope_new_def Let_def strict_sorted_sort_dedup split: if_splits)

lemma envelope_order_independent_witness:
  "envelope_new Tree [from_blake3 [2], from_blake3 [1], from_blake3 [2]] []
    = envelope_new Tree [from_blake3 [1], from_blake3 [2]] []"
  using envelope_order_independent [of "[from_blake3 [2], from_blake3 [1], from_blake3 [2]]"
      "[from_blake3 [1], from_blake3 [2]]" Tree "[]"] by auto

text \<open>
  Structural ids separate the classes: if the hash does not collide on the two inputs, two
  objects of structural classes have the same id only when class and bytes agree.
\<close>

theorem object_id_separates_kinds:
  assumes "valid_kind k" "valid_kind l" "\<not> is_payload k" "\<not> is_payload l"
    and "inj_on blake3 {id_preimage k c, id_preimage l d}"
    and "compute_id blake3 k c = compute_id blake3 l d"
  shows "k = l \<and> c = d"
  using assms id_preimage_inj [of k l c d] kind_tag_inj [of k l]
  by (simp add: compute_id_preimage inj_on_def)

lemma object_id_separates_kinds_witness:
  "compute_id (\<lambda>x. x) Tree [1] \<noteq> compute_id (\<lambda>x. x) Commit [1]"
  using object_id_separates_kinds [of Tree Commit "\<lambda>x. x" "[1]" "[1]"] by fastforce

text \<open>
  The kind tags of structural, payload and in-range application classes are read back as the
  class that wrote them, and no other tag is read as that class.
\<close>

theorem kind_tag_codec:
  assumes "valid_kind k"
  shows "kind_from_tag t = Some k \<longleftrightarrow> t = kind_tag k"
  using kind_from_tag_tag [OF assms] kind_tag_from_tag [of t k] by auto

lemma kind_tag_codec_witness: "kind_from_tag (kind_tag (Application 7)) = Some (Application 7)"
  by (subst kind_tag_codec) (simp_all add: application_tag_base_def)

text \<open>
  The varint codec is exact: the reader returns a value and a rest exactly when the input is
  the (unique, at most ten bytes long) encoding of the value followed by the rest; so truncated,
  overlong and overflowing encodings are all refused.
\<close>

theorem varuint_codec_exact:
  "(read_varuint input = Inr (v, rest)) = (input = write_varuint v @ rest)
    \<and> 0 < length (write_varuint v) \<and> length (write_varuint v) \<le> max_varint_bytes"
  using read_write_varuint read_varuint_sound length_write_varuint write_varuint_nonempty
  unfolding read_varuint_def by (metis length_greater_0_conv)

text \<open>
  Identifiers survive their text form: a 32-byte id printed in hexadecimal parses back to
  itself, distinct ids print differently, and whatever parses is a 32-byte id.
\<close>

theorem object_id_hex_roundtrip:
  assumes "valid_id i"
  shows "id_parse_hex (id_to_hex i) = Inr (Some i) \<and> length (id_to_hex i) = 64
    \<and> (\<forall>j. id_to_hex j = id_to_hex i \<longrightarrow> j = i)
    \<and> (\<forall>s j. id_parse_hex s = Inr (Some j) \<longrightarrow> valid_id j)"
proof -
  have "length (id_to_hex i) = 64" using assms by (simp add: id_to_hex_def valid_id_def)
  then show ?thesis
    using parse_id_to_hex [OF assms] id_to_hex_inj valid_id_parse_hex by blast
qed

lemma object_id_hex_roundtrip_witness:
  "id_parse_hex (id_to_hex (from_blake3 (replicate 32 0xab))) = Inr (Some (from_blake3 (replicate 32 0xab)))"
  using object_id_hex_roundtrip [of "from_blake3 (replicate 32 0xab)"]
  by (simp add: valid_id_def from_blake3_def)

text \<open>
  A content signature binds the chunk list: the message signed is the Merkle root and the
  number of chunks, and when the hash does not collide on the inputs met while hashing the two
  lists, equal messages come from equal lists.  (The root alone does not bind: see the findings.)
\<close>

theorem content_signature_binds:
  assumes "\<And>x. length (blake3 x) = 32" "digests xs" "digests ys" "xs \<noteq> []"
    and "length xs < 2 ^ 64" "length ys < 2 ^ 64"
    and "inj_on blake3 (set (merkle_inputs blake3 xs) \<union> set (merkle_inputs blake3 ys))"
    and "content_signature_message (merkle_root blake3 xs) (of_nat (length xs))
      = content_signature_message (merkle_root blake3 ys) (of_nat (length ys))"
  shows "xs = ys"
proof -
  have roots: "length (merkle_root blake3 xs) = 32" "length (merkle_root blake3 ys) = 32"
    using assms(1-3) length_merkle_root by blast+
  have "merkle_root blake3 xs = merkle_root blake3 ys
      \<and> to_le 8 (of_nat (length xs) :: u64) = to_le 8 (of_nat (length ys) :: u64)"
    using assms(8) roots by (simp add: content_signature_message_def)
  then have "(of_nat (length xs) :: u64) = of_nat (length ys)"
    using le64.enc_inj by blast
  then have "unat (of_nat (length xs) :: u64) = unat (of_nat (length ys) :: u64)" by (rule arg_cong)
  then have "length xs = length ys"
    using assms(5,6) by (simp add: unsigned_of_nat take_bit_nat_eq_self)
  moreover from this have "ys \<noteq> []" using assms(4) by auto
  ultimately show ?thesis
    using \<open>_ \<and> _\<close> assms merkle_reduce_inj [of blake3 xs ys] by (simp add: merkle_root_def)
qed

lemma content_signature_binds_witness:
  "content_signature_message
      (merkle_root (\<lambda>x. take 32 (drop 32 x @ replicate 32 0)) [replicate 32 1, replicate 32 2]) 2
    \<noteq> content_signature_message
      (merkle_root (\<lambda>x. take 32 (drop 32 x @ replicate 32 0)) [replicate 32 1, replicate 32 3]) 2"
proof
  let ?h = "\<lambda>x :: bytes. take 32 (drop 32 x @ replicate 32 (0 :: byte))"
  let ?xs = "[replicate 32 1, replicate 32 (2 :: byte)]" and ?ys = "[replicate 32 1, replicate 32 (3 :: byte)]"
  assume eq: "content_signature_message (merkle_root ?h ?xs) 2 = content_signature_message (merkle_root ?h ?ys) 2"
  have "replicate 32 2 \<noteq> replicate 32 (3 :: byte)" by (simp add: replicate_eq_replicate)
  then have "inj_on ?h (set (merkle_inputs ?h ?xs) \<union> set (merkle_inputs ?h ?ys))"
    by (simp add: merkle_inputs.simps inj_on_def)
  moreover have "length (?h x) = 32" for x by (auto simp: min_def)
  ultimately have "?xs = ?ys"
    using eq by (intro content_signature_binds [of ?h]) simp_all
  then show False by (simp add: replicate_eq_replicate)
qed

end
