(* ===== verification/Object_Store.thy ===== *)
theory Object_Store
  imports Envelope Graph_Walk "HOL-Library.AList"
begin

text \<open>
  The object directory: \<^verbatim>\<open>core/cavs-object/src/store.rs\<close>.  A directory is a finite map from
  two-level paths to files; a file has its bytes, the time it was written (when the platform tells)
  and whether its bytes and its name have been forced to the disk.  Storing an object is split where
  the code can be overtaken: \<open>put_begin\<close> up to the complete temporary file, \<open>put_publish\<close> from the
  rename on.  How the file system answers a write is an argument (\<open>io_outcome\<close>): the write may be
  refused at the shard, at the temporary file (which may be left with any part of its bytes), at
  the sync or at the rename.  Reading and removing fail only because a file is missing.
\<close>

section \<open>State\<close>

definition loose_magic :: bytes where
  "loose_magic = ascii ''CAVSOBJ'' @ [1]"

definition store_format_v1 :: u16 where
  "store_format_v1 = 1"

definition loose_header_len :: nat where
  "loose_header_len = 8 + 2 + 4"

record stored_object =
  so_id :: object_id
  so_kind :: object_kind
  so_bytes :: bytes

record verify_result =
  vr_id :: object_id
  vr_kind :: object_kind
  vr_stored_len :: nat
  vr_dependencies :: nat

record verify_report =
  checked :: nat
  report_bytes :: nat
  failures :: "(object_id \<times> object_error) list"

definition is_clean :: "verify_report \<Rightarrow> bool" where
  "is_clean r \<longleftrightarrow> failures r = []"

datatype durability = OnFlush | PerObject | Never

type_synonym path = "string \<times> string"
type_synonym temp_name = "object_id \<times> nat \<times> nat"

record loose_file =
  lf_raw :: bytes
  lf_mtime :: "int option"
  lf_synced :: bool
  lf_named :: bool

record object_dir =
  loose :: "(path \<times> loose_file) list"
  temps :: "(temp_name \<times> loose_file) list"

record handle =
  h_limits :: decode_limits
  h_durability :: durability
  h_pending :: "path list"

definition empty_dir :: object_dir where
  "empty_dir = \<lparr>loose = [], temps = []\<rparr>"

definition open_store :: handle where
  "open_store = \<lparr>h_limits = default_limits, h_durability = OnFlush, h_pending = []\<rparr>"

definition with_limits :: "handle \<Rightarrow> decode_limits \<Rightarrow> handle" where
  "with_limits h lim = h\<lparr>h_limits := lim\<rparr>"

definition with_durability :: "handle \<Rightarrow> durability \<Rightarrow> handle" where
  "with_durability h dur = h\<lparr>h_durability := dur\<rparr>"

definition loose_path :: "object_id \<Rightarrow> path" where
  "loose_path i = (let hex = id_to_hex i in (take 2 hex, drop 2 hex))"

definition file_at :: "object_dir \<Rightarrow> object_id \<Rightarrow> loose_file option" where
  "file_at d i = map_of (loose d) (loose_path i)"

section \<open>Reading\<close>

definition parse_loose :: "object_id \<Rightarrow> bytes \<Rightarrow> (object_kind \<times> bytes) result" where
  "parse_loose i raw =
     (if length raw < loose_header_len then Inl (Truncated ''loose object header'')
      else if take 8 raw \<noteq> loose_magic
      then Inl (Corrupt (''object '' @ id_to_hex i @ '' has a bad file header''))
      else
      let version = from_le (take 2 (drop 8 raw)) in
      if version \<noteq> store_format_v1 then Inl (UnsupportedFormat version)
      else
      let tag = from_le (take 4 (drop 10 raw)) in
      rbind (ok_or (UnknownKind tag) (kind_from_tag tag)) (\<lambda>kind.
      Inr (kind, drop loose_header_len raw)))"

definition read_loose :: "object_dir \<Rightarrow> object_id \<Rightarrow> (object_kind \<times> bytes) option result" where
  "read_loose d i =
     (case file_at d i of
        None \<Rightarrow> Inr None
      | Some f \<Rightarrow> rbind (parse_loose i (lf_raw f)) (\<lambda>p. Inr (Some p)))"

definition has_object :: "object_dir \<Rightarrow> object_id \<Rightarrow> bool result" where
  "has_object d i = Inr (file_at d i \<noteq> None)"

definition get_object :: "hash_fun \<Rightarrow> object_dir \<Rightarrow> object_id \<Rightarrow> stored_object result" where
  "get_object blake3 d i =
     rbind (read_loose d i) (\<lambda>found.
     case found of
       None \<Rightarrow> Inl (NotFound (id_to_hex i))
     | Some (kind, bs) \<Rightarrow>
         let actual = compute_id blake3 kind bs in
         if actual \<noteq> i then Inl (IdMismatch (id_to_hex i) (id_to_hex actual))
         else Inr \<lparr>so_id = i, so_kind = kind, so_bytes = bs\<rparr>)"

definition stored_envelope :: "decode_limits \<Rightarrow> stored_object \<Rightarrow> object_envelope result" where
  "stored_envelope lim so = envelope_decode (so_kind so) (so_bytes so) lim"

definition verify_object ::
    "hash_fun \<Rightarrow> handle \<Rightarrow> object_dir \<Rightarrow> object_id \<Rightarrow> verify_result result" where
  "verify_object blake3 h d i =
     rbind (get_object blake3 d i) (\<lambda>so.
     rbind (stored_envelope (h_limits h) so) (\<lambda>e.
     Inr \<lparr>vr_id = so_id so, vr_kind = so_kind so, vr_stored_len = length (so_bytes so),
          vr_dependencies = length (env_deps e)\<rparr>))"

text \<open>Every file whose two path components read as an id; a name that cannot be cut is a panic.\<close>

fun scan_loose :: "(path \<times> loose_file) list \<Rightarrow> object_id list result" where
  "scan_loose [] = Inr []"
| "scan_loose (((prefix, name), f) # entries) =
     rbind (id_parse_hex (prefix @ name)) (\<lambda>found.
     rbind (scan_loose entries) (\<lambda>ids.
     Inr (case found of None \<Rightarrow> ids | Some i \<Rightarrow> i # ids)))"

definition list_objects :: "object_dir \<Rightarrow> object_id list result" where
  "list_objects d = rbind (scan_loose (loose d)) (\<lambda>ids. Inr (remdups_adj (sort ids)))"

definition object_count :: "object_dir \<Rightarrow> nat result" where
  "object_count d = rbind (list_objects d) (\<lambda>ids. Inr (length ids))"

definition verify_one :: "hash_fun \<Rightarrow> handle \<Rightarrow> object_dir \<Rightarrow> object_id \<Rightarrow> verify_report \<Rightarrow> verify_report" where
  "verify_one blake3 h d i r =
     (case verify_object blake3 h d i of
        Inr ok \<Rightarrow> r\<lparr>checked := checked r + 1, report_bytes := report_bytes r + vr_stored_len ok\<rparr>
      | Inl e \<Rightarrow> r\<lparr>failures := failures r @ [(i, e)]\<rparr>)"

definition verify_all :: "hash_fun \<Rightarrow> handle \<Rightarrow> object_dir \<Rightarrow> verify_report result" where
  "verify_all blake3 h d =
     rbind (list_objects d) (\<lambda>ids.
     Inr (fold (verify_one blake3 h d) ids \<lparr>checked = 0, report_bytes = 0, failures = []\<rparr>))"

definition object_written_at :: "object_dir \<Rightarrow> object_id \<Rightarrow> int option" where
  "object_written_at d i = Option.bind (file_at d i) lf_mtime"

text \<open>\<^verbatim>\<open>GraphSource::lookup\<close>: payload is resolved from its header, structure from its envelope.\<close>

definition store_lookup :: "handle \<Rightarrow> object_dir \<Rightarrow> graph_lookup" where
  "store_lookup h d i =
     (case file_at d i of
        None \<Rightarrow> Inr None
      | Some f \<Rightarrow>
          rbind (parse_loose i (lf_raw f)) (\<lambda>(kind, bs).
          rbind (if is_payload kind then Inr []
                 else rbind (envelope_decode kind bs (h_limits h)) (\<lambda>e. Inr (env_deps e)))
            (\<lambda>deps.
          Inr (Some \<lparr>node_id = i, node_kind = kind,
                     node_len = length (lf_raw f) - loose_header_len, node_deps = deps\<rparr>))))"

section \<open>Writing\<close>

datatype put_phase = PutDone object_id | PutPublish object_id temp_name

definition loose_header :: "object_kind \<Rightarrow> bytes" where
  "loose_header kind = loose_magic @ to_le 2 store_format_v1 @ to_le 4 (kind_tag kind)"

definition put_begin :: "hash_fun \<Rightarrow> handle \<Rightarrow> int option \<Rightarrow> nat \<times> nat \<Rightarrow> object_kind \<Rightarrow> bytes
    \<Rightarrow> object_dir \<Rightarrow> object_dir \<times> put_phase result" where
  "put_begin blake3 h now suffix kind bs d =
     (let m = max_len_for (h_limits h) kind in
      if m < length bs then (d, Inl (TooLarge ''object'' (length bs) m))
      else
      let i = compute_id blake3 kind bs in
      if file_at d i \<noteq> None then (d, Inr (PutDone i))
      else
      let f = \<lparr>lf_raw = loose_header kind @ bs, lf_mtime = now,
               lf_synced = (h_durability h = PerObject), lf_named = False\<rparr>;
          tmp = (i, suffix)
      in (d\<lparr>temps := AList.update tmp f (temps d)\<rparr>, Inr (PutPublish i tmp)))"

definition put_publish :: "bool \<Rightarrow> object_id \<Rightarrow> temp_name \<Rightarrow> handle \<times> object_dir
    \<Rightarrow> (handle \<times> object_dir) \<times> object_id result" where
  "put_publish renamed i tmp = (\<lambda>(h, d).
     (case (renamed, map_of (temps d) tmp) of
        (True, Some f) \<Rightarrow>
          ((if h_durability h = OnFlush then h\<lparr>h_pending := h_pending h @ [loose_path i]\<rparr> else h,
            d\<lparr>loose := AList.update (loose_path i) f (loose d),
              temps := AList.delete tmp (temps d)\<rparr>), Inr i)
      | _ \<Rightarrow>
          ((h, d\<lparr>temps := AList.delete tmp (temps d)\<rparr>),
           if file_at d i \<noteq> None then Inr i else Inl (Io ''publish object''))))"

text \<open>
  A whole store, not overtaken.  A write that is cut short leaves its temporary file behind with the
  bytes written so far.
\<close>

datatype io_outcome = WriteDone | ShardRefused | TempRefused | WriteCut nat | SyncRefused | RenameRefused

definition put_object :: "hash_fun \<Rightarrow> int option \<Rightarrow> nat \<times> nat \<Rightarrow> io_outcome \<Rightarrow> object_kind \<Rightarrow> bytes
    \<Rightarrow> handle \<times> object_dir \<Rightarrow> (handle \<times> object_dir) \<times> object_id result" where
  "put_object blake3 now suffix io kind bs = (\<lambda>(h, d).
     (case put_begin blake3 h now suffix kind bs d of
        (d1, Inl e) \<Rightarrow> ((h, d1), Inl e)
      | (d1, Inr (PutDone i)) \<Rightarrow> ((h, d1), Inr i)
      | (d1, Inr (PutPublish i tmp)) \<Rightarrow>
          let raw = loose_header kind @ bs;
              torn = (\<lambda>written. d\<lparr>temps := AList.update tmp \<lparr>lf_raw = written, lf_mtime = now,
                        lf_synced = False, lf_named = False\<rparr> (temps d)\<rparr>)
          in (case io of
                WriteDone \<Rightarrow> put_publish True i tmp (h, d1)
              | ShardRefused \<Rightarrow> ((h, d), Inl (Io ''create object shard''))
              | TempRefused \<Rightarrow> ((h, d), Inl (Io ''create temporary object''))
              | WriteCut n \<Rightarrow> ((h, torn (take n raw)), Inl (Io ''write object''))
              | SyncRefused \<Rightarrow> if h_durability h = PerObject then ((h, torn raw), Inl (Io ''sync object''))
                               else put_publish True i tmp (h, d1)
              | RenameRefused \<Rightarrow> put_publish False i tmp (h, d1))))"

definition put_envelope :: "hash_fun \<Rightarrow> int option \<Rightarrow> nat \<times> nat \<Rightarrow> io_outcome \<Rightarrow> object_envelope
    \<Rightarrow> handle \<times> object_dir \<Rightarrow> (handle \<times> object_dir) \<times> object_id result" where
  "put_envelope blake3 now suffix io e = put_object blake3 now suffix io (env_kind e) (canonical_bytes e)"

definition remove_object :: "object_id \<Rightarrow> object_dir \<Rightarrow> object_dir \<times> bool" where
  "remove_object i d =
     (if file_at d i = None then (d, False)
      else (d\<lparr>loose := AList.delete (loose_path i) (loose d)\<rparr>, True))"

text \<open>
  \<^verbatim>\<open>flush\<close> forces the bytes of every pending file that is still there, and the names in the shards
  those files are in; it returns how many files it forced.
\<close>

definition force_file :: "path list \<Rightarrow> path \<Rightarrow> loose_file \<Rightarrow> loose_file" where
  "force_file forced p f =
     f\<lparr>lf_synced := lf_synced f \<or> p \<in> set forced,
       lf_named := lf_named f \<or> fst p \<in> fst ` set forced\<rparr>"

definition flush :: "handle \<times> object_dir \<Rightarrow> (handle \<times> object_dir) \<times> nat" where
  "flush = (\<lambda>(h, d).
     (let forced = filter (\<lambda>p. map_of (loose d) p \<noteq> None) (h_pending h);
          h = h\<lparr>h_pending := []\<rparr>
      in if h_durability h = Never then ((h, d), 0)
         else ((h, d\<lparr>loose := map (\<lambda>(p, f). (p, force_file forced p f)) (loose d)\<rparr>),
               length forced)))"

end
