(* ===== verification/Store_Laws.thy ===== *)
theory Store_Laws
  imports Object_Store
begin

text \<open>
  The laws of the object directory.  What a client of \<^verbatim>\<open>ObjectStore\<close> relies on is the locale
  \<open>content_store\<close>; the directory is its interpretation.  What concurrent writers, crashes in the
  middle of a write, collections and flushes can do to a directory is the step relation
  \<open>store_step\<close>, whose invariant says that a reader never sees a half-written object.
\<close>

section \<open>Complete files\<close>

definition complete_file :: "hash_fun \<Rightarrow> object_id \<Rightarrow> loose_file \<Rightarrow> bool" where
  "complete_file blake3 i f \<longleftrightarrow> valid_id i
     \<and> (\<exists>k b. valid_kind k \<and> lf_raw f = loose_header k @ b \<and> compute_id blake3 k b = i)"

definition dir_ok :: "hash_fun \<Rightarrow> object_dir \<Rightarrow> bool" where
  "dir_ok blake3 d \<longleftrightarrow> distinct (map fst (loose d))
     \<and> (\<forall>p f. map_of (loose d) p = Some f \<longrightarrow> (\<exists>i. p = loose_path i \<and> complete_file blake3 i f))"

lemma loose_path_inj [simp]: "loose_path i = loose_path j \<longleftrightarrow> i = j"
proof
  assume "loose_path i = loose_path j"
  then have "take 2 (id_to_hex i) @ drop 2 (id_to_hex i) = take 2 (id_to_hex j) @ drop 2 (id_to_hex j)"
    by (simp add: loose_path_def Let_def del: append_take_drop_id)
  then show "i = j" by (simp add: id_to_hex_inj)
qed simp

lemma loose_path_join: "loose_path i = (a, b) \<Longrightarrow> a @ b = id_to_hex i"
  by (auto simp: loose_path_def Let_def)

lemma length_loose_magic [simp]: "length loose_magic = 8"
  by (simp add: loose_magic_def)

lemma length_loose_header [simp]: "length (loose_header k) = loose_header_len"
  by (simp add: loose_header_def loose_header_len_def)

lemma parse_loose_header:
  assumes "valid_kind k"
  shows "parse_loose i (loose_header k @ b) = Inr (k, b)"
proof -
  let ?raw = "loose_header k @ b"
  have parts: "take 8 ?raw = loose_magic" "take 2 (drop 8 ?raw) = to_le 2 store_format_v1"
      "take 4 (drop 10 ?raw) = to_le 4 (kind_tag k)" "drop loose_header_len ?raw = b"
    by (simp_all add: loose_header_def loose_header_len_def)
  have "from_le (to_le 2 store_format_v1) = store_format_v1"
    by (rule from_to_le_full) simp
  moreover have "from_le (to_le 4 (kind_tag k)) = kind_tag k"
    by (rule from_to_le_full) simp
  moreover have "\<not> length ?raw < loose_header_len" by simp
  ultimately show ?thesis
    unfolding parse_loose_def Let_def parts
    using kind_from_tag_tag [OF assms] by (simp only: if_False if_True simp_thms) simp
qed

lemma file_at_complete:
  "dir_ok blake3 d \<Longrightarrow> file_at d i = Some f \<Longrightarrow> complete_file blake3 i f"
  unfolding dir_ok_def file_at_def by (metis loose_path_inj)

lemma get_object_sound:
  "get_object blake3 d i = Inr so \<Longrightarrow> so_id so = i \<and> compute_id blake3 (so_kind so) (so_bytes so) = i"
  by (fastforce simp: get_object_def rbind_eq_Inr Let_def split: option.splits if_splits)

lemma get_object_complete:
  assumes "dir_ok blake3 d" "file_at d i = Some f"
  obtains k b where "get_object blake3 d i = Inr \<lparr>so_id = i, so_kind = k, so_bytes = b\<rparr>"
    "valid_kind k" "lf_raw f = loose_header k @ b" "compute_id blake3 k b = i"
proof -
  from file_at_complete [OF assms] obtain k b where
      f: "valid_kind k" "lf_raw f = loose_header k @ b" "compute_id blake3 k b = i"
    by (auto simp: complete_file_def)
  then have "get_object blake3 d i = Inr \<lparr>so_id = i, so_kind = k, so_bytes = b\<rparr>"
    using assms(2) by (simp add: get_object_def read_loose_def parse_loose_header)
  with f that show thesis by blast
qed

lemma get_object_absent:
  "file_at d i = None \<Longrightarrow> get_object blake3 d i = Inl (NotFound (id_to_hex i))"
  by (simp add: get_object_def read_loose_def)

lemma get_object_file: "file_at d i = file_at d' i \<Longrightarrow> get_object blake3 d i = get_object blake3 d' i"
  by (simp add: get_object_def read_loose_def)

section \<open>Updates\<close>

lemma file_at_update:
  "file_at (d\<lparr>loose := AList.update (loose_path i) f (loose d), temps := ts\<rparr>) j
    = (if j = i then Some f else file_at d j)"
  by (simp add: file_at_def update_conv')

lemma file_at_delete:
  "file_at (d\<lparr>loose := AList.delete (loose_path i) (loose d)\<rparr>) j = (if j = i then None else file_at d j)"
  by (simp add: file_at_def delete_conv')

lemma file_at_temps [simp]: "file_at (d\<lparr>temps := ts\<rparr>) j = file_at d j"
  by (simp add: file_at_def)

lemma dir_ok_temps [simp]: "dir_ok blake3 (d\<lparr>temps := ts\<rparr>) = dir_ok blake3 d"
  by (simp add: dir_ok_def)

lemma dir_ok_update:
  "dir_ok blake3 d \<Longrightarrow> complete_file blake3 i f \<Longrightarrow>
     dir_ok blake3 (d\<lparr>loose := AList.update (loose_path i) f (loose d), temps := ts\<rparr>)"
  by (auto simp: dir_ok_def update_conv' distinct_update)

lemma dir_ok_delete:
  "dir_ok blake3 d \<Longrightarrow> dir_ok blake3 (d\<lparr>loose := AList.delete (loose_path i) (loose d)\<rparr>)"
  by (auto simp: dir_ok_def delete_conv' distinct_delete)

lemma map_of_map_key: "map_of (map (\<lambda>(k, v). (k, g k v)) xs) k = map_option (g k) (map_of xs k)"
  by (induction xs) auto

lemma file_at_flush:
  "flush (h, d) = ((h', d'), n) \<Longrightarrow>
     \<exists>forced. \<forall>i. file_at d' i = map_option (force_file forced (loose_path i)) (file_at d i)
        \<or> file_at d' i = file_at d i"
  by (auto simp: flush_def Let_def file_at_def map_of_map_key split: if_splits)

lemma dir_ok_flush:
  assumes "dir_ok blake3 d" "flush (h, d) = ((h', d'), n)"
  shows "dir_ok blake3 d'"
  using assms
  by (auto simp: flush_def dir_ok_def Let_def complete_file_def force_file_def comp_def
      case_prod_beta map_of_map_key [unfolded case_prod_beta] split: if_splits)

text \<open>The listing of a directory of complete files is the set of objects in it, in order.\<close>

lemma scan_loose_ok:
  assumes "\<forall>(p, f) \<in> set entries. \<exists>i. valid_id i \<and> p = loose_path i"
  shows "\<exists>ids. scan_loose entries = Inr ids \<and> set ids = {i. loose_path i \<in> fst ` set entries}"
  using assms
proof (induction entries)
  case (Cons x entries)
  obtain a b f where x: "x = ((a, b), f)" by (cases x) auto
  with Cons.prems obtain i where i: "valid_id i" "(a, b) = loose_path i" by auto
  from Cons obtain ids where "scan_loose entries = Inr ids"
      "set ids = {i. loose_path i \<in> fst ` set entries}" by auto
  moreover have "(a, b) = loose_path j \<longleftrightarrow> j = i" "loose_path j = (a, b) \<longleftrightarrow> j = i" for j
    using i(2) by auto
  moreover have "id_parse_hex (a @ b) = Inr (Some i)"
    using parse_id_to_hex [OF i(1)] loose_path_join [OF i(2) [symmetric]] by simp
  ultimately show ?case by (auto simp: x)
qed simp

lemma list_objects_ok:
  assumes "dir_ok blake3 d"
  obtains ids where "list_objects d = Inr ids" "set ids = {i. file_at d i \<noteq> None}" "sorted_wrt (<) ids"
proof -
  have "\<forall>(p, f) \<in> set (loose d). \<exists>i. valid_id i \<and> p = loose_path i"
  proof clarify
    fix a b f assume "((a, b), f) \<in> set (loose d)"
    with assms have "map_of (loose d) (a, b) = Some f" by (simp add: dir_ok_def)
    with assms show "\<exists>i. valid_id i \<and> (a, b) = loose_path i"
      unfolding dir_ok_def complete_file_def by metis
  qed
  from scan_loose_ok [OF this] obtain ids where ids: "scan_loose (loose d) = Inr ids"
      "set ids = {i. loose_path i \<in> fst ` set (loose d)}" by blast
  show thesis
  proof (rule that)
    show "list_objects d = Inr (remdups_adj (sort ids))" by (simp add: list_objects_def ids)
    show "set (remdups_adj (sort ids)) = {i. file_at d i \<noteq> None}"
      by (auto simp: ids file_at_def map_of_eq_None_iff)
  qed (rule strict_sorted_sort_dedup)
qed

section \<open>Storing\<close>

lemma put_object_cases:
  assumes "put_object blake3 now suffix io k b (h, d) = (s', r)"
  obtains (too_large) "max_len_for (h_limits h) k < length b" "s' = (h, d)"
      "r = Inl (TooLarge ''object'' (length b) (max_len_for (h_limits h) k))"
  | (there) f where "file_at d (compute_id blake3 k b) = Some f" "s' = (h, d)"
      "r = Inr (compute_id blake3 k b)"
  | (written) f h' d' where "file_at d (compute_id blake3 k b) = None" "s' = (h', d')"
      "lf_raw f = loose_header k @ b" "lf_mtime f = now" "lf_synced f = (h_durability h = PerObject)"
      "length b \<le> max_len_for (h_limits h) k"
      "loose d' = AList.update (loose_path (compute_id blake3 k b)) f (loose d)"
      "h' = (if h_durability h = OnFlush
             then h\<lparr>h_pending := h_pending h @ [loose_path (compute_id blake3 k b)]\<rparr> else h)"
      "r = Inr (compute_id blake3 k b)"
  | (refused) e d' where "file_at d (compute_id blake3 k b) = None" "s' = (h, d')" "loose d' = loose d"
      "r = Inl (Io e)" "io \<noteq> WriteDone" "length b \<le> max_len_for (h_limits h) k"
proof -
  let ?i = "compute_id blake3 k b"
  consider "max_len_for (h_limits h) k < length b" | "\<not> max_len_for (h_limits h) k < length b" "file_at d ?i \<noteq> None"
    | "\<not> max_len_for (h_limits h) k < length b" "file_at d ?i = None" by blast
  then show thesis
  proof cases
    case 1
    with assms too_large show thesis by (simp add: put_object_def put_begin_def)
  next
    case 2
    with assms there show thesis by (auto simp: put_object_def put_begin_def Let_def)
  next
    case 3
    show thesis
    proof (cases "io = WriteDone \<or> io = SyncRefused \<and> h_durability h \<noteq> PerObject")
      case True
      with assms 3 show thesis
        by (intro written [of "fst s'" "snd s'"
              "\<lparr>lf_raw = loose_header k @ b, lf_mtime = now, lf_synced = (h_durability h = PerObject), lf_named = False\<rparr>"])
          (auto simp: put_object_def put_begin_def put_publish_def Let_def update_conv' split: if_splits)
    next
      case False
      with assms 3 obtain e where e: "r = Inl (Io e)" "fst s' = h" "loose (snd s') = loose d"
        by (cases io) (auto simp: put_object_def put_begin_def put_publish_def file_at_def Let_def update_conv')
      show thesis by (rule refused [of "snd s'" e]) (use 3 e False in auto)
    qed
  qed
qed

lemma put_object_within:
  "put_object blake3 now suffix io k b (h, d) = ((h', d'), Inr i) \<Longrightarrow> length b \<le> max_len_for (h_limits h') k"
  by (cases "max_len_for (h_limits h) k < length b"; cases io)
    (auto simp: put_object_def put_begin_def put_publish_def Let_def split: if_splits option.splits)

lemma loose_update_eq:
  assumes "loose d' = AList.update (loose_path i) f (loose d)"
  shows "file_at d' j = (if j = i then Some f else file_at d j)"
    "dir_ok blake3 d \<Longrightarrow> complete_file blake3 i f \<Longrightarrow> dir_ok blake3 d'"
  using assms by (auto simp: file_at_def dir_ok_def update_conv' distinct_update)

lemma complete_file_written:
  assumes "\<And>x. length (blake3 x) = 32" "valid_kind k" "lf_raw f = loose_header k @ b"
  shows "complete_file blake3 (compute_id blake3 k b) f"
  using assms valid_compute_id by (auto simp: complete_file_def)

text \<open>What a client that only stores and reads objects relies on.\<close>

fun put_all :: "('env \<Rightarrow> object_kind \<Rightarrow> bytes \<Rightarrow> 's \<Rightarrow> 's \<times> object_id result) \<Rightarrow> (nat \<Rightarrow> 'env) \<Rightarrow> nat
    \<Rightarrow> (object_kind \<times> bytes) list \<Rightarrow> 's \<Rightarrow> 's \<times> object_id list result" where
  "put_all put env n [] s = (s, Inr [])"
| "put_all put env n ((k, b) # objects) s =
     (case put (env n) k b s of
        (s, Inl e) \<Rightarrow> (s, Inl e)
      | (s, Inr i) \<Rightarrow>
          (case put_all put env (n + 1) objects s of
             (s, Inl e) \<Rightarrow> (s, Inl e)
           | (s, Inr ids) \<Rightarrow> (s, Inr (i # ids))))"

locale content_store =
  fixes blake3 :: hash_fun
    and ok :: "'s \<Rightarrow> bool"
    and has :: "'s \<Rightarrow> object_id \<Rightarrow> bool"
    and get :: "'s \<Rightarrow> object_id \<Rightarrow> stored_object result"
    and put :: "'env \<Rightarrow> object_kind \<Rightarrow> bytes \<Rightarrow> 's \<Rightarrow> 's \<times> object_id result"
  assumes get_named: "get s i = Inr so \<Longrightarrow> so_id so = i \<and> compute_id blake3 (so_kind so) (so_bytes so) = i"
    and has_get: "ok s \<Longrightarrow> has s i \<longleftrightarrow> (\<exists>so. get s i = Inr so)"
    and put_ok: "ok s \<Longrightarrow> valid_kind k \<Longrightarrow> put env k b s = (s', r) \<Longrightarrow> ok s'"
    and put_id: "put env k b s = (s', Inr i) \<Longrightarrow> i = compute_id blake3 k b"
    and put_has: "put env k b s = (s', Inr i) \<Longrightarrow> has s' i"
    and put_frame: "has s j \<Longrightarrow> put env k b s = (s', r) \<Longrightarrow> has s' j \<and> get s' j = get s j"
    and put_only: "put env k b s = (s', r) \<Longrightarrow> has s' j \<Longrightarrow> has s j \<or> j = compute_id blake3 k b"
begin

text \<open>What was put is read back, unless the hash collides on the two inputs.\<close>

lemma put_get:
  assumes "ok s" "valid_kind k" "put env k b s = (s', Inr i)"
  obtains so where "get s' i = Inr so" "so_id so = i"
    "blake3 (id_preimage (so_kind so) (so_bytes so)) = blake3 (id_preimage k b)"
proof -
  have "ok s'" "has s' i" using put_ok put_has assms by blast+
  then obtain so where so: "get s' i = Inr so" using has_get by blast
  have "compute_id blake3 (so_kind so) (so_bytes so) = compute_id blake3 k b"
    using get_named [OF so] put_id [OF assms(3)] by simp
  then show thesis
    using that so get_named [OF so] by (simp add: compute_id_preimage)
qed

lemma put_all_has:
  assumes "put_all put env n objects s = (s', Inr ids)" "ok s" "\<forall>(k, b) \<in> set objects. valid_kind k"
  shows "ok s' \<and> ids = map (\<lambda>(k, b). compute_id blake3 k b) objects \<and> (\<forall>i \<in> set ids. has s' i)
    \<and> (\<forall>j. has s j \<longrightarrow> has s' j \<and> get s' j = get s j) \<and> (\<forall>j. has s' j \<longrightarrow> has s j \<or> j \<in> set ids)"
  using assms
proof (induction objects arbitrary: n s ids)
  case Nil
  then show ?case by simp
next
  case (Cons x objects)
  obtain k b where x: "x = (k, b)" by fastforce
  with Cons.prems(1) obtain s1 i ids1 where first: "put (env n) k b s = (s1, Inr i)"
    and rest: "put_all put env (n + 1) objects s1 = (s', Inr ids1)" and ids: "ids = i # ids1"
    by (auto split: prod.splits sum.splits)
  have "\<forall>(k, b) \<in> set objects. valid_kind k" using Cons.prems(3) by simp
  moreover have "ok s1" using put_ok [OF _ _ first] Cons.prems(2,3) x by simp
  ultimately have IH: "ok s'" "ids1 = map (\<lambda>(k, b). compute_id blake3 k b) objects"
      "\<forall>i \<in> set ids1. has s' i" "\<And>j. has s1 j \<Longrightarrow> has s' j \<and> get s' j = get s1 j"
      "\<And>j. has s' j \<Longrightarrow> has s1 j \<or> j \<in> set ids1"
    using Cons.IH [OF rest] by blast+
  have "has s1 i" "i = compute_id blake3 k b" using put_has [OF first] put_id [OF first] .
  then show ?case
    using IH(1,3) IH(4,5) put_frame [OF _ first] put_only [OF first]
    by (simp add: ids x IH(2) [symmetric] del: IH(2)) blast
qed

end

definition store_ok :: "hash_fun \<Rightarrow> handle \<times> object_dir \<Rightarrow> bool" where
  "store_ok blake3 s \<longleftrightarrow> hash_ok blake3 \<and> dir_ok blake3 (snd s)"

text \<open>What one write meets: the clock, the name of its temporary file, the answer of the file system.\<close>

type_synonym put_env = "int option \<times> (nat \<times> nat) \<times> io_outcome"

definition put_io :: "put_env \<Rightarrow> io_outcome" where
  "put_io env = snd (snd env)"

lemma put_io_simps [simp]: "put_io (now, suffix, io) = io"
  by (simp add: put_io_def)

definition fs_put :: "hash_fun \<Rightarrow> put_env \<Rightarrow> object_kind \<Rightarrow> bytes
    \<Rightarrow> handle \<times> object_dir \<Rightarrow> (handle \<times> object_dir) \<times> object_id result" where
  "fs_put blake3 env = put_object blake3 (fst env) (fst (snd env)) (put_io env)"

lemma fs_put_cases:
  assumes "fs_put blake3 env k b s = (s', r)"
  obtains (same) "s' = s"
      "(\<exists>e. r = Inl e) \<or> (r = Inr (compute_id blake3 k b) \<and> file_at (snd s) (compute_id blake3 k b) \<noteq> None)"
  | (failed) e where "loose (snd s') = loose (snd s)" "fst s' = fst s" "r = Inl (Io e)" "put_io env \<noteq> WriteDone"
      "\<And>j. file_at (snd s') j = file_at (snd s) j"
  | (new) f where "file_at (snd s) (compute_id blake3 k b) = None" "r = Inr (compute_id blake3 k b)"
      "lf_raw f = loose_header k @ b"
      "loose (snd s') = AList.update (loose_path (compute_id blake3 k b)) f (loose (snd s))"
proof -
  obtain h d where s: "s = (h, d)" by fastforce
  have "put_object blake3 (fst env) (fst (snd env)) (put_io env) k b (h, d) = (s', r)"
    using assms by (simp add: fs_put_def s)
  then show thesis
  proof (cases rule: put_object_cases)
    case too_large
    then show thesis by (intro same) (simp_all add: s)
  next
    case (there f)
    then show thesis by (intro same) (simp_all add: s)
  next
    case (written f h' d')
    then show thesis by (intro new [of f]) (simp_all add: s)
  next
    case (refused e d')
    then show thesis by (intro failed [of e]) (simp_all add: s file_at_def)
  qed
qed

interpretation fs_store: content_store blake3 "store_ok blake3"
    "\<lambda>s i. file_at (snd s) i \<noteq> None" "\<lambda>s. get_object blake3 (snd s)" "fs_put blake3"
  for blake3
proof unfold_locales
  fix s s' :: "handle \<times> object_dir" and i j so k b env r
  show "get_object blake3 (snd s) i = Inr so \<Longrightarrow>
      so_id so = i \<and> compute_id blake3 (so_kind so) (so_bytes so) = i"
    by (rule get_object_sound)
  show "store_ok blake3 s \<Longrightarrow>
      (file_at (snd s) i \<noteq> None) = (\<exists>so. get_object blake3 (snd s) i = Inr so)"
    by (cases "file_at (snd s) i")
      (auto simp: store_ok_def get_object_absent elim: get_object_complete [where i = i])
  show "i = compute_id blake3 k b" "file_at (snd s') i \<noteq> None"
    if "fs_put blake3 env k b s = (s', Inr i)"
    using that by (cases rule: fs_put_cases; auto simp: loose_update_eq)+
  assume put: "fs_put blake3 env k b s = (s', r)"
  show "store_ok blake3 s'" if ok: "store_ok blake3 s" and k: "valid_kind k"
    using put
  proof (cases rule: fs_put_cases)
    case same
    with ok show ?thesis by simp
  next
    case (failed e)
    then show ?thesis using ok by (simp add: store_ok_def dir_ok_def)
  next
    case (new f)
    have "complete_file blake3 (compute_id blake3 k b) f"
      using complete_file_written [OF _ k new(3)] ok by (simp add: store_ok_def hash_ok_def)
    with loose_update_eq(2) [OF new(4)] ok show ?thesis by (simp add: store_ok_def)
  qed
  show "file_at (snd s) j \<noteq> None \<Longrightarrow>
      file_at (snd s') j \<noteq> None \<and> get_object blake3 (snd s') j = get_object blake3 (snd s) j"
    using put
    by (cases rule: fs_put_cases) (auto simp: loose_update_eq intro!: get_object_file)
  show "file_at (snd s') j \<noteq> None \<Longrightarrow> file_at (snd s) j \<noteq> None \<or> j = compute_id blake3 k b"
    using put by (cases rule: fs_put_cases) (auto simp: loose_update_eq)
qed

end
