(* ===== verification/Store_Steps.thy ===== *)
theory Store_Steps
  imports Store_Laws
begin

text \<open>
  Many writers over one object directory.  A step is what one process does without being overtaken:
  write a temporary file, publish it (or fail to), remove an object, flush.  A writer may die or
  fail part-way through its temporary file, which leaves any bytes there under its own name.
  Processes are numbers; each has its handle and its counter of temporary names
  (\<^verbatim>\<open>writer_suffix\<close>).
\<close>

record system =
  sys_dir :: object_dir
  sys_handle :: "nat \<Rightarrow> handle"
  sys_next :: "nat \<Rightarrow> nat"
  sys_inflight :: "(object_id \<times> temp_name) set"

definition start :: "(nat \<Rightarrow> handle) \<Rightarrow> system" where
  "start handles = \<lparr>sys_dir = empty_dir, sys_handle = handles, sys_next = (\<lambda>_. 0), sys_inflight = {}\<rparr>"

definition writer_suffix :: "nat \<Rightarrow> system \<Rightarrow> (nat \<times> nat) \<times> system" where
  "writer_suffix pid s = ((pid, sys_next s pid), s\<lparr>sys_next := (sys_next s)(pid := sys_next s pid + 1)\<rparr>)"

inductive store_step :: "hash_fun \<Rightarrow> system \<Rightarrow> system \<Rightarrow> bool" for blake3 where
  step_begin: "valid_kind k \<Longrightarrow> writer_suffix pid s = (suffix, s') \<Longrightarrow>
    put_begin blake3 (sys_handle s pid) now suffix k b (sys_dir s) = (d, Inr (PutPublish i tmp)) \<Longrightarrow>
    store_step blake3 s (s'\<lparr>sys_dir := d, sys_inflight := insert (i, tmp) (sys_inflight s)\<rparr>)"
| step_torn: "writer_suffix pid s = (suffix, s') \<Longrightarrow>
    store_step blake3 s
      (s'\<lparr>sys_dir := (sys_dir s)\<lparr>temps := AList.update (i, suffix) f (temps (sys_dir s))\<rparr>\<rparr>)"
| step_publish: "(i, tmp) \<in> sys_inflight s \<Longrightarrow>
    put_publish renamed i tmp (sys_handle s pid, sys_dir s) = ((h, d), r) \<Longrightarrow>
    store_step blake3 s (s\<lparr>sys_dir := d, sys_handle := (sys_handle s)(pid := h),
                           sys_inflight := sys_inflight s - {(i, tmp)}\<rparr>)"
| step_remove: "remove_object i (sys_dir s) = (d, there) \<Longrightarrow>
    store_step blake3 s (s\<lparr>sys_dir := d\<rparr>)"
| step_flush: "flush (sys_handle s pid, sys_dir s) = ((h, d), n) \<Longrightarrow>
    store_step blake3 s (s\<lparr>sys_dir := d, sys_handle := (sys_handle s)(pid := h)\<rparr>)"

inductive_cases store_stepE: "store_step blake3 s s'"

definition temps_ok :: "hash_fun \<Rightarrow> system \<Rightarrow> bool" where
  "temps_ok blake3 s \<longleftrightarrow>
     (\<forall>(i, tmp) \<in> sys_inflight s. fst tmp = i \<and> snd (snd tmp) < sys_next s (fst (snd tmp))
        \<and> (\<exists>f. map_of (temps (sys_dir s)) tmp = Some f \<and> complete_file blake3 i f))"

definition system_ok :: "hash_fun \<Rightarrow> system \<Rightarrow> bool" where
  "system_ok blake3 s \<longleftrightarrow> hash_ok blake3 \<and> dir_ok blake3 (sys_dir s) \<and> temps_ok blake3 s"

lemma put_begin_publish:
  assumes "put_begin blake3 h now suffix k b d = (d', Inr (PutPublish i tmp))"
  shows "\<exists>f. d' = d\<lparr>temps := AList.update tmp f (temps d)\<rparr> \<and> tmp = (i, suffix)
    \<and> i = compute_id blake3 k b \<and> lf_raw f = loose_header k @ b"
  using assms by (auto simp: put_begin_def Let_def split: if_splits)

lemma put_publish_dir:
  assumes "put_publish renamed i tmp (h, d) = ((h', d'), r)"
  shows "temps d' = AList.delete tmp (temps d) \<and>
    (loose d' = loose d \<or>
     (\<exists>f. map_of (temps d) tmp = Some f \<and> loose d' = AList.update (loose_path i) f (loose d)))"
  using assms by (auto simp: put_publish_def split: bool.splits option.splits if_splits)

lemma start_ok: "hash_ok blake3 \<Longrightarrow> system_ok blake3 (start handles)"
  by (simp add: system_ok_def start_def temps_ok_def dir_ok_def empty_dir_def)

lemma inflight_counter:
  "temps_ok blake3 s \<Longrightarrow> (i, t, pid, n) \<in> sys_inflight s \<Longrightarrow> n < sys_next s pid"
  by (fastforce simp: temps_ok_def)

lemma temps_ok_write:
  assumes ok: "temps_ok blake3 s" and counter: "sys_next s' = (sys_next s)(pid := sys_next s pid + 1)"
    and temps: "temps (sys_dir s') = AList.update (i, pid, sys_next s pid) f (temps (sys_dir s))"
    and flight: "sys_inflight s' \<subseteq> insert (i, i, pid, sys_next s pid) (sys_inflight s)"
    and new: "(i, i, pid, sys_next s pid) \<in> sys_inflight s' \<Longrightarrow> complete_file blake3 i f"
  shows "temps_ok blake3 s'"
  unfolding temps_ok_def
proof (intro ballI, clarify)
  fix j t1 p n assume "(j, t1, p, n) \<in> sys_inflight s'"
  with flight new consider "(j, t1, p, n) = (i, i, pid, sys_next s pid)" "complete_file blake3 i f"
    | "(j, t1, p, n) \<in> sys_inflight s" by auto
  then show "fst (t1, p, n) = j \<and> snd (snd (t1, p, n)) < sys_next s' (fst (snd (t1, p, n)))
      \<and> (\<exists>f. map_of (temps (sys_dir s')) (t1, p, n) = Some f \<and> complete_file blake3 j f)"
  proof cases
    case 1
    then show ?thesis by (simp add: counter temps update_conv')
  next
    case 2
    then have "t1 = j" "n < sys_next s p"
        "\<exists>f. map_of (temps (sys_dir s)) (t1, p, n) = Some f \<and> complete_file blake3 j f"
      using ok by (auto simp: temps_ok_def)
    then show ?thesis by (auto simp: counter temps update_conv')
  qed
qed

lemma temps_ok_publish:
  assumes ok: "temps_ok blake3 s" and pair: "(i, tmp) \<in> sys_inflight s"
    and s': "sys_next s' = sys_next s" "sys_inflight s' = sys_inflight s - {(i, tmp)}"
      "temps (sys_dir s') = AList.delete tmp (temps (sys_dir s))"
  shows "temps_ok blake3 s'"
  unfolding temps_ok_def
proof (intro ballI, clarify)
  fix j t1 p n assume "(j, t1, p, n) \<in> sys_inflight s'"
  then have j: "(j, t1, p, n) \<in> sys_inflight s" "(j, t1, p, n) \<noteq> (i, tmp)" by (auto simp: s'(2))
  then have "t1 = j" "fst tmp = i" using ok pair by (fastforce simp: temps_ok_def)+
  then have "tmp \<noteq> (t1, p, n)" using j(2) by auto
  then show "fst (t1, p, n) = j \<and> snd (snd (t1, p, n)) < sys_next s' (fst (snd (t1, p, n)))
      \<and> (\<exists>f. map_of (temps (sys_dir s')) (t1, p, n) = Some f \<and> complete_file blake3 j f)"
    using ok j(1) by (auto simp: temps_ok_def s' delete_conv')
qed

lemma step_ok:
  assumes "system_ok blake3 s" "store_step blake3 s s'"
  shows "system_ok blake3 s'"
  using assms(2)
proof cases
  case (step_begin k pid suffix s1 now b d i tmp)
  obtain f where d: "d = (sys_dir s)\<lparr>temps := AList.update tmp f (temps (sys_dir s))\<rparr>"
      and tmp: "tmp = (i, suffix)" and i: "i = compute_id blake3 k b" and raw: "lf_raw f = loose_header k @ b"
    using put_begin_publish [OF step_begin(4)] by blast
  have "complete_file blake3 i f"
    using complete_file_written [OF _ step_begin(2) raw] assms(1)
    by (simp add: system_ok_def hash_ok_def i)
  then have "temps_ok blake3 s'"
    using assms(1) step_begin(3)
    by (intro temps_ok_write [of blake3 s s' pid i f])
      (auto simp: step_begin(1) d tmp system_ok_def writer_suffix_def)
  then show ?thesis
    using assms(1) step_begin(3) by (auto simp: step_begin(1) d system_ok_def)
next
  case (step_torn pid suffix s1 i f)
  then have "temps_ok blake3 s'"
    using assms(1)
    by (intro temps_ok_write [of blake3 s s' pid i f])
      (auto simp: system_ok_def writer_suffix_def dest: inflight_counter)
  then show ?thesis
    using assms(1) step_torn by (auto simp: system_ok_def)
next
  case (step_publish i tmp renamed pid h d r)
  note eff = put_publish_dir [OF step_publish(3)]
  have f: "complete_file blake3 i f" if "map_of (temps (sys_dir s)) tmp = Some f" for f
    using assms(1) step_publish(2) that by (fastforce simp: system_ok_def temps_ok_def)
  have "dir_ok blake3 d"
  proof (cases "loose d = loose (sys_dir s)")
    case True
    then show ?thesis using assms(1) by (simp add: system_ok_def dir_ok_def)
  next
    case False
    with eff obtain g where g: "map_of (temps (sys_dir s)) tmp = Some g"
        "loose d = AList.update (loose_path i) g (loose (sys_dir s))" by blast
    have "dir_ok blake3 (sys_dir s)" using assms(1) by (simp add: system_ok_def)
    then show ?thesis by (rule loose_update_eq(2) [OF g(2) _ f [OF g(1)]])
  qed
  moreover have "temps_ok blake3 s'"
  proof (rule temps_ok_publish)
    show "temps_ok blake3 s" using assms(1) by (simp add: system_ok_def)
    show "(i, tmp) \<in> sys_inflight s" by (rule step_publish(2))
  qed (simp_all add: step_publish(1) eff)
  ultimately show ?thesis using assms(1) by (simp add: step_publish(1) system_ok_def)
next
  case (step_remove i d there)
  then show ?thesis
    using assms(1) dir_ok_delete [of blake3 "sys_dir s" i]
    by (cases "file_at (sys_dir s) i") (auto simp: system_ok_def temps_ok_def remove_object_def)
next
  case (step_flush pid h d n)
  have "temps d = temps (sys_dir s)"
    using step_flush(2) by (auto simp: flush_def Let_def split: if_splits)
  then show ?thesis
    using assms(1) dir_ok_flush [OF _ step_flush(2)]
    by (simp add: step_flush(1) system_ok_def temps_ok_def)
qed

lemma reachable_ok:
  "(store_step blake3)\<^sup>*\<^sup>* s s' \<Longrightarrow> system_ok blake3 s \<Longrightarrow> system_ok blake3 s'"
  by (induction rule: rtranclp_induct) (auto intro: step_ok)

end
