(* ===== verification/Store_Durability.thy ===== *)
theory Store_Durability
  imports Store_Laws
begin

text \<open>
  What a power cut leaves: a file whose bytes and name were forced is untouched, a file whose bytes
  were forced may lose its name, and a file that was never forced may hold anything or be gone.
  The names forced are those in a shard directory; the shard directory's own name, in the
  directory above, is never forced, so a cut may also take whole shards (\<open>lost\<close>).  The batch
  contract of \<^verbatim>\<open>Durability::OnFlush\<close> (write the objects, flush, then publish) is that nothing
  written before the flush is lost.
\<close>

definition power_loss :: "string set \<Rightarrow> object_dir \<Rightarrow> object_dir \<Rightarrow> bool" where
  "power_loss lost d d' \<longleftrightarrow>
     (\<forall>p. case map_of (loose d) p of
            None \<Rightarrow> map_of (loose d') p = None
          | Some f \<Rightarrow>
              if fst p \<in> lost then map_of (loose d') p = None
              else (lf_synced f \<and> lf_named f \<longrightarrow> map_of (loose d') p = Some f)
                 \<and> (lf_synced f \<longrightarrow> map_of (loose d') p \<in> {None, Some f}))"

text \<open>An object that the next flush of the handle leaves durable, if it is there.\<close>

definition covered :: "object_id \<Rightarrow> handle \<times> object_dir \<Rightarrow> bool" where
  "covered i s \<longleftrightarrow> h_durability (fst s) = OnFlush \<and>
     (\<forall>f. file_at (snd s) i = Some f \<longrightarrow>
        (lf_synced f \<and> lf_named f) \<or> loose_path i \<in> set (h_pending (fst s)))"

lemma put_all_keeps:
  assumes "\<And>env k b s s' r. P s \<Longrightarrow> put env k b s = (s', r) \<Longrightarrow> P s'"
    and "P s" "put_all put env n objects s = (s', r)"
  shows "P s'"
  using assms(2,3)
proof (induction objects arbitrary: n s s' r)
  case Nil
  then show ?case by simp
next
  case (Cons x objects)
  obtain k b where x: "x = (k, b)" by fastforce
  obtain s1 r1 where first: "put (env n) k b s = (s1, r1)" by fastforce
  have P1: "P s1" by (rule assms(1) [OF Cons.prems(1) first])
  show ?case
  proof (cases r1)
    case (Inl e)
    with Cons.prems(2) first x P1 show ?thesis by simp
  next
    case (Inr i)
    obtain s2 r2 where rest: "put_all put env (n + 1) objects s1 = (s2, r2)" by fastforce
    have "P s2" by (rule Cons.IH [OF P1 rest])
    moreover have "s' = s2" using Cons.prems(2) first x Inr rest by (simp split: sum.splits)
    ultimately show ?thesis by simp
  qed
qed

lemma put_covered:
  assumes "covered i s" "fs_put blake3 env k b s = (s', r)"
  shows "covered i s'"
proof -
  obtain h d where s: "s = (h, d)" by fastforce
  have "put_object blake3 (fst env) (fst (snd env)) (put_io env) k b (h, d) = (s', r)"
    using assms(2) by (simp add: fs_put_def s)
  then show ?thesis
  proof (cases rule: put_object_cases)
    case (written f h' d')
    then show ?thesis using assms(1) by (auto simp: covered_def s file_at_def update_conv' split: if_splits)
  qed (use assms(1) s in \<open>simp_all add: covered_def file_at_def\<close>)
qed

lemma coveredD:
  "covered i (h, d) \<Longrightarrow> file_at d i = Some f \<Longrightarrow>
     (lf_synced f \<and> lf_named f) \<or> loose_path i \<in> set (h_pending h)"
  by (simp add: covered_def del: split_paired_All)

lemma power_lossD:
  "power_loss lost d d' \<Longrightarrow> map_of (loose d) p = Some f \<Longrightarrow> fst p \<notin> lost \<Longrightarrow> lf_synced f \<Longrightarrow> lf_named f \<Longrightarrow>
     map_of (loose d') p = Some f"
  unfolding power_loss_def by (drule spec [of _ p]) simp

lemma flush_forces:
  assumes "covered i (h, d)" "flush (h, d) = ((h', d'), n)" "file_at d i = Some f"
  shows "\<exists>g. file_at d' i = Some g \<and> lf_synced g \<and> lf_named g \<and> lf_raw g = lf_raw f"
proof -
  let ?forced = "filter (\<lambda>p. map_of (loose d) p \<noteq> None) (h_pending h)"
  have "d' = d\<lparr>loose := map (\<lambda>(p, f). (p, force_file ?forced p f)) (loose d)\<rparr>"
    using assms(1,2) by (simp add: flush_def covered_def Let_def)
  then have "file_at d' i = Some (force_file ?forced (loose_path i) f)"
    using assms(3) by (simp add: file_at_def map_of_map_key)
  moreover have "(lf_synced f \<and> lf_named f) \<or> loose_path i \<in> set ?forced"
    using coveredD [OF assms(1)] assms(3) by (auto simp: file_at_def)
  ultimately show ?thesis by (auto simp: force_file_def)
qed

lemma get_object_raw:
  "file_at d i = Some f \<Longrightarrow> file_at d' i = Some g \<Longrightarrow> lf_raw f = lf_raw g \<Longrightarrow>
     get_object blake3 d i = get_object blake3 d' i"
  by (simp add: get_object_def read_loose_def)

lemma flushed_survives:
  assumes "covered i (h, d)" "flush (h, d) = ((h', d'), n)" "power_loss lost d' d''" "file_at d i \<noteq> None"
    and "fst (loose_path i) \<notin> lost"
  shows "get_object blake3 d'' i = get_object blake3 d i"
proof -
  obtain f where f: "file_at d i = Some f" using assms(4) by blast
  obtain g where g: "file_at d' i = Some g" "lf_synced g" "lf_named g" "lf_raw g = lf_raw f"
    using flush_forces [OF assms(1,2) f] by blast
  have "file_at d'' i = Some g"
    using power_lossD [OF assms(3)] assms(5) g(1-3) by (simp add: file_at_def)
  then show ?thesis using get_object_raw f g(4) by metis
qed

text \<open>
  With \<^verbatim>\<open>Durability::PerObject\<close> the bytes of a new object are forced, but neither the write nor a
  later flush forces its name: a power cut may still lose it.
\<close>

lemma per_object_name_lost:
  assumes "h_durability h = PerObject" "h_pending h = []"
    and "put_object blake3 now suffix io k b (h, d) = ((h1, d1), Inr i)" "file_at d i = None"
    and "flush (h1, d1) = ((h2, d2), n)"
  shows "\<exists>d3. power_loss {} d2 d3 \<and> file_at d3 i = None"
proof -
  let ?f = "\<lparr>lf_raw = loose_header k @ b, lf_mtime = now, lf_synced = True, lf_named = False\<rparr>"
  have put: "h1 = h" "loose d1 = AList.update (loose_path i) ?f (loose d)"
    using assms(1,3,4)
    by (auto simp: put_object_def put_begin_def put_publish_def Let_def update_conv' split: if_splits io_outcome.splits)
  have keep: "force_file [] p f = f" for p f by (simp add: force_file_def)
  have "d2 = d1" using assms(1,2,5) by (auto simp: flush_def put(1) Let_def keep)
  then have "power_loss {} d2 (d2\<lparr>loose := AList.delete (loose_path i) (loose d2)\<rparr>)"
    using put(2) by (auto simp: power_loss_def delete_conv' update_conv' split: option.splits)
  moreover have "file_at (d2\<lparr>loose := AList.delete (loose_path i) (loose d2)\<rparr>) i = None"
    by (simp add: file_at_delete)
  ultimately show ?thesis by blast
qed

text \<open>
  An object that another handle stored and has not flushed: storing it again reports success, queues
  nothing, and the flush that follows does not force it, so a power cut may still take it.
\<close>

lemma unflushed_elsewhere_lost:
  assumes "file_at d (compute_id blake3 k b) = Some f" "\<not> lf_synced f" "h_pending h = []"
    and "put_object blake3 now suffix io k b (h, d) = ((h1, d1), Inr i)" "flush (h1, d1) = ((h2, d2), n)"
  shows "i = compute_id blake3 k b \<and> (\<exists>d3. power_loss {} d2 d3 \<and> file_at d3 i = None)"
proof -
  have put: "h1 = h" "d1 = d" "i = compute_id blake3 k b"
    using assms(4) by (cases rule: put_object_cases; use assms(1) in simp)+
  have keep: "force_file [] p g = g" for p g by (simp add: force_file_def)
  have "d2 = d" using assms(3,5) by (auto simp: flush_def put Let_def keep split: if_splits)
  then have "power_loss {} d2 (d2\<lparr>loose := AList.delete (loose_path i) (loose d2)\<rparr>)"
    using assms(1,2) by (auto simp: power_loss_def delete_conv' file_at_def put split: option.splits)
  moreover have "file_at (d2\<lparr>loose := AList.delete (loose_path i) (loose d2)\<rparr>) i = None"
    by (simp add: file_at_delete)
  ultimately show ?thesis using put by blast
qed

text \<open>Storing over an existing file changes nothing: a torn file is not repaired by a new write.\<close>

lemma put_existing:
  assumes "file_at d (compute_id blake3 k b) \<noteq> None" "length b \<le> max_len_for (h_limits h) k"
  shows "put_object blake3 now suffix io k b (h, d) = ((h, d), Inr (compute_id blake3 k b))"
  using assms by (simp add: put_object_def put_begin_def Let_def)

end
