(* ===== verification/Gc.thy ===== *)
theory Gc
  imports Store_Laws Walk_Reach
begin

text \<open>
  Collection: \<^verbatim>\<open>core/cavs-object/src/gc.rs\<close>.  Collection runs beside other processes, and
  \<open>read_roots n\<close> is what the \<open>n\<close>-th reading of the references returns.  Every lookup of the mark
  reads the directory of its own moment; the listing, each age that is looked at, each size that is
  read and each removal are accesses of their own, with the others' work before them as an argument.
  (The listing itself, a scan of the shards, is one access.)
\<close>

section \<open>Options and report\<close>

record gc_options =
  gc_grace :: nat
  gc_leases :: "object_id set"
  gc_dry_run :: bool
  gc_walk :: walk_options

definition default_gc_options :: gc_options where
  "default_gc_options = \<lparr>gc_grace = 2 * 60 * 60 * 10 ^ 9, gc_leases = {}, gc_dry_run = False,
     gc_walk = default_walk_options\<rparr>"

definition gc_options_dry_run :: gc_options where
  "gc_options_dry_run = default_gc_options\<lparr>gc_dry_run := True\<rparr>"

definition with_grace :: "gc_options \<Rightarrow> nat \<Rightarrow> gc_options" where
  "with_grace opts grace = opts\<lparr>gc_grace := grace\<rparr>"

definition with_leases :: "gc_options \<Rightarrow> object_id list \<Rightarrow> gc_options" where
  "with_leases opts leases = opts\<lparr>gc_leases := set leases\<rparr>"

record gc_report =
  rep_dry_run :: bool
  rep_roots :: nat
  rep_reachable :: nat
  kept_by_grace :: nat
  kept_by_lease :: nat
  removed :: "object_id list"
  bytes_removed :: nat
  missing_roots :: "object_id list"
  aborted_because_roots_moved :: bool

definition removed_count :: "gc_report \<Rightarrow> nat" where
  "removed_count r = length (removed r)"

text \<open>Time in nanoseconds from the epoch; the earliest representable time has 64-bit seconds.\<close>

definition system_time_min :: int where
  "system_time_min = - (2 ^ 63) * 10 ^ 9"

definition gc_cutoff :: "int \<Rightarrow> nat \<Rightarrow> int" where
  "gc_cutoff now grace = (if now - int grace < system_time_min then 0 else now - int grace)"

definition written_since :: "object_dir \<Rightarrow> object_id \<Rightarrow> int \<Rightarrow> bool" where
  "written_since d i cutoff =
     (case object_written_at d i of Some written \<Rightarrow> cutoff < written | None \<Rightarrow> True)"

section \<open>Mark, list, sweep\<close>

definition gc_mark :: "visit list \<Rightarrow> object_id set \<times> object_id list" where
  "gc_mark visits = (visit_id ` set (filter is_present visits),
                     map visit_id (filter (\<lambda>v. \<not> is_present v) visits))"

text \<open>
  \<open>n\<close> counts the accesses to the directory; \<open>env n\<close> is what the others do before the \<open>n\<close>-th.
\<close>

type_synonym others = "nat \<Rightarrow> object_dir \<Rightarrow> object_dir"

fun gc_candidates :: "others \<Rightarrow> nat \<Rightarrow> object_dir \<Rightarrow> object_id set \<Rightarrow> object_id set \<Rightarrow> int
    \<Rightarrow> object_id list \<Rightarrow> gc_report \<Rightarrow> object_id list \<times> nat \<times> object_dir \<times> gc_report" where
  "gc_candidates env n d reachable leases cutoff [] rep = ([], n, d, rep)"
| "gc_candidates env n d reachable leases cutoff (i # is) rep =
     (if i \<in> reachable then gc_candidates env n d reachable leases cutoff is rep
      else if i \<in> leases
      then gc_candidates env n d reachable leases cutoff is (rep\<lparr>kept_by_lease := kept_by_lease rep + 1\<rparr>)
      else let d = env n d in
      if written_since d i cutoff
      then gc_candidates env (n + 1) d reachable leases cutoff is
             (rep\<lparr>kept_by_grace := kept_by_grace rep + 1\<rparr>)
      else let (candidates, rest) = gc_candidates env (n + 1) d reachable leases cutoff is rep
           in (i # candidates, rest))"

definition gc_sweep_one :: "hash_fun \<Rightarrow> others \<Rightarrow> nat \<Rightarrow> bool \<Rightarrow> int
    \<Rightarrow> object_id \<Rightarrow> object_dir \<Rightarrow> gc_report \<Rightarrow> object_dir \<times> gc_report" where
  "gc_sweep_one blake3 env n dry cutoff i d rep =
     (let d = env n d in
      if written_since d i cutoff then (d, rep\<lparr>kept_by_grace := kept_by_grace rep + 1\<rparr>)
      else
      let d = env (n + 1) d;
          size = (case get_object blake3 d i of Inr so \<Rightarrow> length (so_bytes so) | Inl _ \<Rightarrow> 0);
          d = env (n + 2) d;
          gone = rep\<lparr>removed := removed rep @ [i], bytes_removed := bytes_removed rep + size\<rparr>
      in if dry then (d, gone)
         else (case remove_object i d of (d, True) \<Rightarrow> (d, gone) | (d, False) \<Rightarrow> (d, rep)))"

fun gc_sweep :: "hash_fun \<Rightarrow> others \<Rightarrow> nat \<Rightarrow> bool \<Rightarrow> int \<Rightarrow> object_id list
    \<Rightarrow> object_dir \<Rightarrow> gc_report \<Rightarrow> object_dir \<times> gc_report" where
  "gc_sweep blake3 env n dry cutoff [] d rep = (d, rep)"
| "gc_sweep blake3 env n dry cutoff (i # is) d rep =
     (let (d, rep) = gc_sweep_one blake3 env n dry cutoff i d rep
      in gc_sweep blake3 env (n + 3) dry cutoff is d rep)"

text \<open>
  The mark looks each object up at most once: an object is marked visited before it is looked up
  (\<open>looked_up_once\<close>).  So what the mark reads beside other processes is one answer for every
  object, each from the directory of its own moment, \<open>during i d\<close> for the object \<open>i\<close>.
\<close>

definition mark_lookup :: "handle \<Rightarrow> (object_id \<Rightarrow> object_dir \<Rightarrow> object_dir) \<Rightarrow> object_dir \<Rightarrow> graph_lookup" where
  "mark_lookup h during d = (\<lambda>i. store_lookup h (during i d) i)"

definition collect :: "hash_fun \<Rightarrow> handle \<Rightarrow> (object_id \<Rightarrow> object_dir \<Rightarrow> object_dir) \<Rightarrow> others \<Rightarrow> int
    \<Rightarrow> (nat \<Rightarrow> object_id list result) \<Rightarrow> gc_options \<Rightarrow> object_dir \<Rightarrow> object_dir \<times> gc_report result" where
  "collect blake3 h during env now read_roots opts d =
     (case read_roots 0 of
        Inl e \<Rightarrow> (d, Inl e)
      | Inr frozen \<Rightarrow>
      (case walk_reachable (mark_lookup h during d) frozen (gc_walk opts) of
         Inl e \<Rightarrow> (env 0 d, Inl e)
       | Inr visits \<Rightarrow>
       let (reachable, missing) = gc_mark visits;
           rep = \<lparr>rep_dry_run = gc_dry_run opts, rep_roots = length frozen,
                  rep_reachable = card reachable, kept_by_grace = 0, kept_by_lease = 0,
                  removed = [], bytes_removed = 0, missing_roots = missing,
                  aborted_because_roots_moved = False\<rparr>;
           cutoff = gc_cutoff now (gc_grace opts);
           d = env 0 d
       in (case list_objects d of
             Inl e \<Rightarrow> (d, Inl e)
           | Inr ids \<Rightarrow>
           let (candidates, n, d, rep) = gc_candidates env 1 d reachable (gc_leases opts) cutoff ids rep in
           if candidates = [] then (d, Inr rep)
           else
           (case read_roots 1 of
              Inl e \<Rightarrow> (d, Inl e)
            | Inr roots_now \<Rightarrow>
              if roots_now \<noteq> frozen then (d, Inr (rep\<lparr>aborted_because_roots_moved := True\<rparr>))
              else
              let (d, rep) = gc_sweep blake3 env n (gc_dry_run opts) cutoff candidates d rep
              in (d, Inr rep)))))"

definition unreachable_objects ::
    "graph_lookup \<Rightarrow> object_id list \<Rightarrow> object_id list \<Rightarrow> walk_options \<Rightarrow> object_id list result" where
  "unreachable_objects lookup roots everything opts =
     rbind (walk_reachable lookup roots opts) (\<lambda>visits.
     Inr (filter (\<lambda>i. i \<notin> visit_id ` set visits) everything))"

section \<open>What is a candidate, and what the sweep does to it\<close>

lemma gc_candidates_report:
  "gc_candidates env n d reachable leases cutoff ids rep = (candidates, n', d', rep') \<Longrightarrow>
     removed rep' = removed rep \<and> aborted_because_roots_moved rep' = aborted_because_roots_moved rep
     \<and> set candidates \<subseteq> {i \<in> set ids. i \<notin> reachable \<and> i \<notin> leases}"
proof (induction ids arbitrary: n d rep candidates)
  case (Cons i ids)
  then show ?case
    by (cases "i \<in> reachable"; cases "i \<in> leases"; cases "written_since (env n d) i cutoff")
      (fastforce simp: Let_def split: prod.splits)+
qed simp

lemma written_since_file:
  "file_at d i = file_at d' i \<Longrightarrow> written_since d i cutoff = written_since d' i cutoff"
  by (simp add: written_since_def object_written_at_def)

lemma file_at_remove:
  "remove_object i d = (d', there) \<Longrightarrow> file_at d' j = (if j = i then None else file_at d j)"
  by (auto simp: remove_object_def file_at_delete split: if_splits)

text \<open>A file that the others leave alone survives a sweep if no candidate, or if written since.\<close>

definition fresh_file :: "int \<Rightarrow> loose_file \<Rightarrow> bool" where
  "fresh_file cutoff f \<longleftrightarrow> (case lf_mtime f of None \<Rightarrow> True | Some t \<Rightarrow> cutoff < t)"

lemma written_since_Some: "file_at d i = Some f \<Longrightarrow> written_since d i cutoff = fresh_file cutoff f"
  by (simp add: written_since_def object_written_at_def fresh_file_def split: option.splits)

lemma written_since_None: "file_at d i = None \<Longrightarrow> written_since d i cutoff"
  by (simp add: written_since_def object_written_at_def)

lemma sweep_one_keeps:
  assumes "gc_sweep_one blake3 env n dry cutoff i d rep = (d', rep')" "file_at d j = Some f"
    and "\<And>n d. file_at d j = Some f \<Longrightarrow> file_at (env n d) j = Some f"
    and "j \<noteq> i \<or> fresh_file cutoff f"
  shows "file_at d' j = Some f"
proof -
  have "file_at (env n d) j = Some f" "file_at (env (n + 2) (env (n + 1) (env n d))) j = Some f"
    using assms(2,3) by blast+
  then show ?thesis
    using assms(1,4) written_since_Some [of "env n d" j f cutoff]
    by (auto simp: gc_sweep_one_def Let_def file_at_remove split: if_splits prod.splits bool.splits)
qed

lemma sweep_keeps:
  assumes "gc_sweep blake3 env n dry cutoff cands d rep = (d', rep')" "file_at d j = Some f"
    and "\<And>n d. file_at d j = Some f \<Longrightarrow> file_at (env n d) j = Some f"
    and "j \<notin> set cands \<or> fresh_file cutoff f"
  shows "file_at d' j = Some f"
  using assms(1,2,4)
proof (induction cands arbitrary: n d rep)
  case (Cons i cands)
  obtain d1 rep1 where one: "gc_sweep_one blake3 env n dry cutoff i d rep = (d1, rep1)" by fastforce
  have "file_at d1 j = Some f"
    using sweep_one_keeps [OF one Cons.prems(2) assms(3)] Cons.prems(3) by auto
  then show ?case using Cons.IH [of "n + 3" d1 rep1] Cons.prems(1,3) one by auto
qed simp

lemma candidates_keep:
  assumes "gc_candidates env n d reachable leases cutoff ids rep = (cands, n', d', rep')" "file_at d j = Some f"
    and "\<And>n d. file_at d j = Some f \<Longrightarrow> file_at (env n d) j = Some f"
  shows "file_at d' j = Some f"
  using assms(1,2)
proof (induction ids arbitrary: n d rep cands)
  case (Cons i ids)
  have "file_at (env n d) j = Some f" by (rule assms(3) [OF Cons.prems(2)])
  then show ?case
    using Cons by (fastforce simp: Let_def split: if_splits prod.splits)
qed simp

text \<open>What a sweep removes was a candidate.\<close>

lemma sweep_one_removed:
  "gc_sweep_one blake3 env n dry cutoff i d rep = (d', rep') \<Longrightarrow>
     set (removed rep') \<subseteq> insert i (set (removed rep))
     \<and> aborted_because_roots_moved rep' = aborted_because_roots_moved rep"
  by (auto simp: gc_sweep_one_def Let_def split: if_splits prod.splits bool.splits)

lemma sweep_removed:
  "gc_sweep blake3 env n dry cutoff cands d rep = (d', rep') \<Longrightarrow>
     set (removed rep') \<subseteq> set cands \<union> set (removed rep)
     \<and> aborted_because_roots_moved rep' = aborted_because_roots_moved rep"
proof (induction cands arbitrary: n d rep)
  case (Cons i cands)
  obtain d1 rep1 where one: "gc_sweep_one blake3 env n dry cutoff i d rep = (d1, rep1)" by fastforce
  then show ?case
    using Cons.IH [of "n + 3" d1 rep1] Cons.prems sweep_one_removed [OF one] by auto
qed simp

text \<open>Alone, a sweep removes every candidate that is there and old, and nothing else.\<close>

abbreviation alone :: others where
  "alone \<equiv> (\<lambda>_ d. d)"

lemma candidates_alone:
  "gc_candidates alone n d reachable leases cutoff ids rep = (cands, n', d', rep') \<Longrightarrow>
     d' = d \<and> cands = filter (\<lambda>i. i \<notin> reachable \<and> i \<notin> leases \<and> \<not> written_since d i cutoff) ids"
proof (induction ids arbitrary: n rep cands)
  case (Cons i ids)
  show ?case
    using Cons.prems Cons.IH [of n _ cands] Cons.IH [of "n + 1"]
    by (cases "i \<in> reachable"; cases "i \<in> leases"; cases "written_since d i cutoff")
      (auto simp: Let_def split: prod.splits)
qed simp

lemma sweep_alone:
  assumes "gc_sweep blake3 alone n dry cutoff cands d rep = (d', rep')"
    and "\<And>j. j \<in> set cands \<Longrightarrow> \<not> written_since d j cutoff" "distinct cands"
  shows "removed rep' = removed rep @ cands
    \<and> (\<forall>j. file_at d' j = (if \<not> dry \<and> j \<in> set cands then None else file_at d j))"
  using assms
proof (induction cands arbitrary: n d rep)
  case (Cons i cands)
  have old: "\<not> written_since d i cutoff" using Cons.prems(2) by simp
  then have there: "file_at d i \<noteq> None" using written_since_None by blast
  obtain d1 rep1 where one: "gc_sweep_one blake3 alone n dry cutoff i d rep = (d1, rep1)"
    by fastforce
  have step: "removed rep1 = removed rep @ [i]"
      "file_at d1 j = (if \<not> dry \<and> j = i then None else file_at d j)" for j
    using one old there
    by (auto simp: gc_sweep_one_def Let_def remove_object_def file_at_delete split: if_splits)
  have "\<not> written_since d1 j cutoff" if "j \<in> set cands" for j
  proof -
    have "j \<noteq> i" using that Cons.prems(3) by auto
    then have "file_at d1 j = file_at d j" by (simp add: step(2))
    then have "written_since d1 j cutoff = written_since d j cutoff" by (rule written_since_file)
    then show ?thesis using that Cons.prems(2) [of j] by simp
  qed
  then have "removed rep' = removed rep1 @ cands
      \<and> (\<forall>j. file_at d' j = (if \<not> dry \<and> j \<in> set cands then None else file_at d1 j))"
    using Cons.IH [of "n + 3" d1 rep1] Cons.prems(1,3) one by auto
  then show ?case using step by auto
qed simp

section \<open>The mark beside other processes\<close>

text \<open>
  Once an object is visited its lookup is never consulted again, and a round that consults one marks
  it visited: every object is looked up at most once in a walk.
\<close>

lemma visited_not_looked_up:
  assumes "i \<in> visited (w_state w)"
  shows "walk_round (lookup(i := r)) opts w = walk_round lookup opts w"
  using assms
  by (cases "budget_check opts (w_polls w) (w_state w)"; cases "pending (w_state w)")
    (auto simp: walk_round_def Let_def)

lemma looked_up_once:
  assumes "walk_round lookup opts w = (r, w')" "walk_round (lookup(i := x)) opts w \<noteq> (r, w')"
  shows "i \<notin> visited (w_state w) \<and> i \<in> visited (w_state w')"
proof
  show "i \<notin> visited (w_state w)" using visited_not_looked_up assms by metis
  then show "i \<in> visited (w_state w')"
    using assms
    by (cases "budget_check opts (w_polls w) (w_state w)"; cases "pending (w_state w)")
      (auto simp: walk_round_def Let_def split: if_splits sum.splits option.splits prod.splits)
qed

section \<open>A whole collection\<close>

text \<open>What a mark that read \<open>lookup\<close> finds alive.\<close>

definition alive :: "graph_lookup \<Rightarrow> walk_options \<Rightarrow> object_id list \<Rightarrow> object_id set" where
  "alive lookup opts roots =
     {i. reach lookup (kinds opts) (set roots) i
       \<and> \<not> filtered_out lookup (kinds opts) i \<and> lookup i \<noteq> Inr None}"

lemma store_lookup_absent: "store_lookup h d i = Inr None \<longleftrightarrow> file_at d i = None"
  by (auto simp: store_lookup_def rbind_eq_Inr split: option.splits)

lemma marked_alive:
  assumes "walk_reachable lookup roots opts = Inr visits"
  shows "fst (gc_mark visits) = alive lookup opts roots"
proof -
  note w = walk_reachable_closure [OF assms]
  have "is_present v \<longleftrightarrow> lookup (visit_id v) \<noteq> Inr None" if "v \<in> set visits" for v
    using w(3) that by (auto simp: right_visit_def is_present_def)
  then have "fst (gc_mark visits) = {i \<in> visit_id ` set visits. lookup i \<noteq> Inr None}"
    by (auto simp: gc_mark_def)
  then show ?thesis unfolding w(1) alive_def by blast
qed

lemma gc_run:
  assumes "collect blake3 h during env now read_roots opts d = (d', Inr rep)"
  obtains frozen ids cands n d1 rep0 rep1 where "read_roots 0 = Inr frozen"
    "list_objects (env 0 d) = Inr ids"
    "gc_candidates env 1 (env 0 d) (alive (mark_lookup h during d) (gc_walk opts) frozen) (gc_leases opts)
       (gc_cutoff now (gc_grace opts)) ids rep0 = (cands, n, d1, rep1)"
    "removed rep0 = []"
    "(d' = d1 \<and> removed rep = [] \<and> (cands = [] \<or> read_roots 1 \<noteq> Inr frozen \<and> aborted_because_roots_moved rep))
      \<or> (read_roots 1 = Inr frozen \<and> cands \<noteq> [] \<and> gc_sweep blake3 env n (gc_dry_run opts)
          (gc_cutoff now (gc_grace opts)) cands d1 rep1 = (d', rep))"
proof -
  from assms obtain frozen where r0: "read_roots 0 = Inr frozen"
    by (cases "read_roots 0") (auto simp: collect_def)
  with assms obtain visits where w: "walk_reachable (mark_lookup h during d) frozen (gc_walk opts) = Inr visits"
    by (cases "walk_reachable (mark_lookup h during d) frozen (gc_walk opts)") (auto simp: collect_def Let_def)
  obtain alive' missing where m: "gc_mark visits = (alive', missing)" by fastforce
  have al: "alive' = alive (mark_lookup h during d) (gc_walk opts) frozen" using marked_alive [OF w] m by simp
  from assms r0 w m obtain ids where ids: "list_objects (env 0 d) = Inr ids"
    by (cases "list_objects (env 0 d)") (auto simp: collect_def Let_def simp del: One_nat_def)
  let ?rep = "\<lparr>rep_dry_run = gc_dry_run opts, rep_roots = length frozen,
                  rep_reachable = card alive', kept_by_grace = 0, kept_by_lease = 0,
                  removed = [], bytes_removed = 0, missing_roots = missing,
                  aborted_because_roots_moved = False\<rparr>"
  obtain cands n d1 rep1 where c: "gc_candidates env 1 (env 0 d) alive' (gc_leases opts)
      (gc_cutoff now (gc_grace opts)) ids ?rep = (cands, n, d1, rep1)" by (metis prod_cases4)
  have "removed rep1 = []" using gc_candidates_report [OF c] by simp
  then have "(d' = d1 \<and> removed rep = [] \<and> (cands = [] \<or> read_roots 1 \<noteq> Inr frozen \<and> aborted_because_roots_moved rep))
      \<or> (read_roots 1 = Inr frozen \<and> cands \<noteq> [] \<and> gc_sweep blake3 env n (gc_dry_run opts)
          (gc_cutoff now (gc_grace opts)) cands d1 rep1 = (d', rep))"
    using assms c
    by (auto simp: collect_def r0 w m ids c Let_def simp del: One_nat_def
        split: if_splits sum.splits prod.splits)
  then show thesis by (intro that [OF r0 ids c [unfolded al]]) simp_all
qed

text \<open>
  Whatever the others do, a collection does not delete a file that the mark found alive, that is
  leased, or that is younger than the grace period.
\<close>

lemma collect_keeps:
  assumes "collect blake3 h during env now read_roots opts d = (d', Inr rep)"
    and env_all: "\<And>n d. file_at d j = Some f \<Longrightarrow> file_at (env n d) j = Some f"
    and there: "file_at d j = Some f"
    and safe: "(\<exists>frozen. read_roots 0 = Inr frozen \<and> j \<in> alive (mark_lookup h during d) (gc_walk opts) frozen)
      \<or> j \<in> gc_leases opts \<or> fresh_file (gc_cutoff now (gc_grace opts)) f"
  shows "file_at d' j = Some f"
  using assms(1)
proof (cases rule: gc_run)
  case (1 frozen ids cands n d1 rep0 rep1)
  have "file_at d1 j = Some f" by (rule candidates_keep [OF 1(3) env_all [OF there] env_all])
  moreover have "j \<notin> set cands \<or> fresh_file (gc_cutoff now (gc_grace opts)) f"
    using gc_candidates_report [OF 1(3)] safe 1(1) by auto
  ultimately show ?thesis
    using 1(5) sweep_keeps [of blake3 env n "gc_dry_run opts" "gc_cutoff now (gc_grace opts)" cands d1 rep1 d' rep j f]
      env_all by blast
qed

text \<open>
  What the others leave alone in a collection that starts in \<open>d\<close>: the mark finds the file, and no
  later access does away with it.
\<close>

definition left_alone :: "(object_id \<Rightarrow> object_dir \<Rightarrow> object_dir) \<Rightarrow> others \<Rightarrow> object_dir \<Rightarrow> object_id \<Rightarrow> bool" where
  "left_alone during env d i \<longleftrightarrow> (\<forall>f. file_at d i = Some f \<longrightarrow> file_at (during i d) i = Some f
     \<and> (\<forall>n d. file_at d i = Some f \<longrightarrow> file_at (env n d) i = Some f))"

definition untouched_part :: "handle \<Rightarrow> (object_id \<Rightarrow> object_dir \<Rightarrow> object_dir) \<Rightarrow> others \<Rightarrow> object_dir \<Rightarrow> graph_lookup" where
  "untouched_part h during env d = (\<lambda>i. if left_alone during env d i then store_lookup h d i else Inr None)"

lemma untouched_is_marked:
  "untouched_part h during env d i = Inr (Some node) \<Longrightarrow> mark_lookup h during d i = Inr (Some node)"
  by (cases "file_at d i")
    (auto simp: untouched_part_def mark_lookup_def left_alone_def store_lookup_def split: if_splits)

lemma reach_mono:
  assumes "\<And>i node. lookup i = Inr (Some node) \<Longrightarrow> lookup' i = Inr (Some node)" "reach lookup f roots i"
  shows "reach lookup' f roots i"
proof -
  have "i \<in> Collect (reach lookup' f roots)"
    using assms(2)
  proof (rule reach_least)
    show "roots \<subseteq> Collect (reach lookup' f roots)" by (auto intro: reach_root)
    fix i assume "i \<in> Collect (reach lookup' f roots)"
    moreover have "children lookup f i \<subseteq> children lookup' f i"
      using assms(1) by (fastforce simp: children_def split: sum.splits option.splits)
    ultimately show "children lookup f i \<subseteq> Collect (reach lookup' f roots)"
      by (auto intro: reach_child)
  qed
  then show ?thesis by simp
qed

lemma collect_keeps_reachable:
  assumes "collect blake3 h during env now read_roots opts d = (d', Inr rep)"
    and "left_alone during env d j" "file_at d j = Some f"
    and "(\<exists>frozen. read_roots 0 = Inr frozen \<and> j \<in> alive (untouched_part h during env d) (gc_walk opts) frozen)
      \<or> j \<in> gc_leases opts \<or> fresh_file (gc_cutoff now (gc_grace opts)) f"
  shows "file_at d' j = Some f"
proof (rule collect_keeps [OF assms(1) _ assms(3)])
  show "file_at (env n d1) j = Some f" if "file_at d1 j = Some f" for n d1
    using assms(2,3) that by (auto simp: left_alone_def)
  have same: "mark_lookup h during d j = untouched_part h during env d j"
    using assms(2,3) by (auto simp: mark_lookup_def untouched_part_def left_alone_def store_lookup_def)
  have "j \<in> alive (mark_lookup h during d) (gc_walk opts) frozen"
    if "j \<in> alive (untouched_part h during env d) (gc_walk opts) frozen" for frozen
    using that reach_mono [of "untouched_part h during env d" "mark_lookup h during d", OF untouched_is_marked]
    by (simp add: alive_def filtered_out_def same)
  then show "(\<exists>frozen. read_roots 0 = Inr frozen \<and> j \<in> alive (mark_lookup h during d) (gc_walk opts) frozen)
      \<or> j \<in> gc_leases opts \<or> fresh_file (gc_cutoff now (gc_grace opts)) f"
    using assms(4) by blast
qed

lemma collect_alone:
  assumes "collect blake3 h (\<lambda>_ d. d) alone now (\<lambda>_. Inr roots) opts d = (d', Inr rep)"
    and "list_objects d = Inr ids"
  defines "garbage \<equiv> filter (\<lambda>i. i \<notin> alive (store_lookup h d) (gc_walk opts) roots \<and> i \<notin> gc_leases opts
        \<and> \<not> written_since d i (gc_cutoff now (gc_grace opts))) ids"
  shows "removed rep = garbage
    \<and> (\<forall>j. file_at d' j = (if \<not> gc_dry_run opts \<and> j \<in> set garbage then None else file_at d j))"
  using assms(1)
proof (cases rule: gc_run)
  case (1 frozen ids' cands n d1 rep0 rep1)
  have cands: "cands = garbage" "d1 = d" "removed rep1 = []"
    using candidates_alone [OF 1(3)] gc_candidates_report [OF 1(3)] 1(1,2,4) assms(2)
    by (simp_all add: garbage_def mark_lookup_def)
  have "distinct ids"
    using assms(2) strict_sorted_sort_dedup strict_sorted_iff by (fastforce simp: list_objects_def rbind_eq_Inr)
  then have "distinct garbage" by (simp add: garbage_def)
  moreover have "\<And>j. j \<in> set garbage \<Longrightarrow> \<not> written_since d j (gc_cutoff now (gc_grace opts))"
    by (simp add: garbage_def)
  ultimately show ?thesis
    using 1(1,5) sweep_alone [of blake3 n "gc_dry_run opts" "gc_cutoff now (gc_grace opts)" garbage d rep1 d' rep]
    by (auto simp: cands)
qed

end
