(* ===== verification/Storage.thy ===== *)
theory Storage
  imports Store_Steps Store_Durability Gc
begin

text \<open>
  What the object directory and its collection promise: the properties of \<^verbatim>\<open>store.rs\<close> and
  \<^verbatim>\<open>gc.rs\<close>, each with an instance.  The instances hash every input to 32 zero bytes.
\<close>

definition zero_hash :: hash_fun where
  "zero_hash x = replicate 32 0"

lemma hash_ok_zero [simp]: "hash_ok zero_hash"
  by (simp add: hash_ok_def zero_hash_def)

definition zero_id :: object_id where
  "zero_id = from_blake3 (replicate 32 0)"

lemma compute_zero [simp]: "compute_id zero_hash k b = zero_id"
  by (simp add: compute_id_preimage zero_hash_def zero_id_def)

lemma valid_zero [simp]: "valid_id zero_id"
  by (simp add: zero_id_def valid_id_def)

section \<open>Storing and reading\<close>

text \<open>
  C10.  Whatever writers, removals and flushes of many processes do, in any order, and wherever a
  writer dies in the middle of a file, reading any id either finds nothing or returns an object
  whose bytes hash to that id; and the listing is exactly the set of ids that read.
\<close>

theorem readers_see_whole_objects:
  assumes "hash_ok blake3" "(store_step blake3)\<^sup>*\<^sup>* (start handles) s"
  shows "(case get_object blake3 (sys_dir s) i of
            Inl e \<Rightarrow> file_at (sys_dir s) i = None \<and> e = NotFound (id_to_hex i)
          | Inr so \<Rightarrow> so_id so = i \<and> compute_id blake3 (so_kind so) (so_bytes so) = i)
    \<and> (\<exists>ids. list_objects (sys_dir s) = Inr ids \<and> sorted_wrt (<) ids
          \<and> set ids = {i. \<exists>so. get_object blake3 (sys_dir s) i = Inr so})"
proof -
  have ok: "dir_ok blake3 (sys_dir s)"
    using reachable_ok [OF assms(2) start_ok [OF assms(1)]] by (simp add: system_ok_def)
  have get: "(\<exists>so. get_object blake3 (sys_dir s) i = Inr so) \<longleftrightarrow> file_at (sys_dir s) i \<noteq> None" for i
    using fs_store.has_get [of blake3 "(handles 0, sys_dir s)" i] ok assms(1)
    by (auto simp: store_ok_def)
  obtain ids where ids: "list_objects (sys_dir s) = Inr ids" "sorted_wrt (<) ids"
      "set ids = {i. file_at (sys_dir s) i \<noteq> None}"
    by (rule list_objects_ok [OF ok])
  have "case get_object blake3 (sys_dir s) i of
            Inl e \<Rightarrow> file_at (sys_dir s) i = None \<and> e = NotFound (id_to_hex i)
          | Inr so \<Rightarrow> so_id so = i \<and> compute_id blake3 (so_kind so) (so_bytes so) = i"
    using get [of i] get_object_sound [of blake3 "sys_dir s" i] get_object_absent [of "sys_dir s" i blake3]
    by (cases "file_at (sys_dir s) i") (auto split: sum.splits)
  then show ?thesis using ids get by simp
qed

lemma readers_see_whole_objects_witness:
  "\<exists>s. (store_step zero_hash)\<^sup>*\<^sup>* (start (\<lambda>_. open_store)) s \<and> temps (sys_dir s) \<noteq> []
    \<and> get_object zero_hash (sys_dir s) zero_id = Inl (NotFound (id_to_hex zero_id))"
proof -
  let ?torn = "\<lparr>lf_raw = [1, 2, 3], lf_mtime = None, lf_synced = False, lf_named = False\<rparr>"
  obtain suffix s1 where w: "writer_suffix 0 (start (\<lambda>_. open_store)) = (suffix, s1)" by fastforce
  let ?s = "s1\<lparr>sys_dir := (sys_dir (start (\<lambda>_. open_store)))
      \<lparr>temps := AList.update (zero_id, suffix) ?torn (temps (sys_dir (start (\<lambda>_. open_store))))\<rparr>\<rparr>"
  have run: "(store_step zero_hash)\<^sup>*\<^sup>* (start (\<lambda>_. open_store)) ?s"
    using step_torn [OF w] by blast
  have "file_at (sys_dir ?s) zero_id = None" by (simp add: start_def empty_dir_def file_at_def)
  then have "get_object zero_hash (sys_dir ?s) zero_id = Inl (NotFound (id_to_hex zero_id))"
    using readers_see_whole_objects [OF hash_ok_zero run, of zero_id]
    by (auto simp: get_object_absent)
  moreover have "temps (sys_dir ?s) \<noteq> []" by (simp add: start_def empty_dir_def)
  ultimately show ?thesis using run by blast
qed



section \<open>Durability\<close>

text \<open>
  C20.  The batch contract: objects stored under the default durability and then flushed survive a
  power cut.  Whatever the cut leaves of unforced files, each of them reads back as it was, on two
  conditions the code does not see to itself.  An object that was already in the store before the
  batch must have been durable or queued by this handle: one that another handle stored and has not
  flushed is reported stored, but this flush does not force it.  And the cut must leave the
  object's shard directory in place: the flush forces the names in a shard, never the name of the
  shard, so a shard that the batch created can be lost whole.
\<close>

theorem flushed_batch_survives:
  assumes "h_durability (fst s) = OnFlush" "store_ok blake3 s" "\<forall>(k, b) \<in> set objects. valid_kind k"
    and "put_all (fs_put blake3) env n objects s = ((h, d), Inr ids)"
    and "flush (h, d) = ((h', d'), forced)" "power_loss lost d' d''"
    and stored: "\<And>i f. i \<in> set ids \<Longrightarrow> file_at (snd s) i = Some f \<Longrightarrow>
      (lf_synced f \<and> lf_named f) \<or> loose_path i \<in> set (h_pending (fst s))"
    and shards: "\<And>i. i \<in> set ids \<Longrightarrow> fst (loose_path i) \<notin> lost"
  shows "\<forall>i \<in> set ids. \<exists>so. get_object blake3 d i = Inr so \<and> get_object blake3 d'' i = Inr so"
proof
  fix i assume i: "i \<in> set ids"
  have covers: "covered i s" using assms(1) stored [OF i] by (simp add: covered_def)
  have all: "store_ok blake3 (h, d)" "file_at d i \<noteq> None"
    using fs_store.put_all_has [OF assms(4,2,3)] i by auto
  have "covered i (h, d)"
    by (rule put_all_keeps [of "covered i" "fs_put blake3", OF put_covered covers assms(4)])
  from flushed_survives [OF this assms(5,6) all(2) shards [OF i]]
  have "get_object blake3 d'' i = get_object blake3 d i" .
  moreover obtain so where "get_object blake3 d i = Inr so"
    using fs_store.has_get [OF all(1), of i] all(2) by auto
  ultimately show "\<exists>so. get_object blake3 d i = Inr so \<and> get_object blake3 d'' i = Inr so" by simp
qed

lemma flushed_batch_survives_witness:
  "\<exists>h d h' d' forced. put_all (fs_put zero_hash) (\<lambda>n. (Some 5, (0, n), WriteDone)) 0 [(Chunk, [1])] (open_store, empty_dir)
      = ((h, d), Inr [zero_id])
    \<and> flush (h, d) = ((h', d'), forced) \<and> (\<exists>so. get_object zero_hash d' zero_id = Inr so)"
proof -
  let ?s = "(open_store, empty_dir)"
  obtain h d r where put: "put_all (fs_put zero_hash) (\<lambda>n. (Some 5, (0, n), WriteDone)) 0 [(Chunk, [1])] ?s = ((h, d), r)"
    by (metis surj_pair)
  have r: "r = Inr [zero_id]"
    using put by (auto simp: fs_put_def put_object_def put_begin_def put_publish_def open_store_def
        empty_dir_def default_limits_def max_len_for_def file_at_def Let_def)
  obtain h' d' forced where f: "flush (h, d) = ((h', d'), forced)" by (metis surj_pair)
  have "h_durability (fst ?s) = OnFlush" "store_ok zero_hash ?s" "\<And>i. file_at (snd ?s) i = None"
    by (simp_all add: store_ok_def dir_ok_def empty_dir_def open_store_def file_at_def)
  moreover have "power_loss {} d' d'" by (auto simp: power_loss_def split: option.splits)
  ultimately have "\<exists>so. get_object zero_hash d' zero_id = Inr so"
    using flushed_batch_survives [of ?s zero_hash "[(Chunk, [1])]" "\<lambda>n. (Some 5, (0, n), WriteDone)" 0 h d "[zero_id]" h' d' forced "{}" d']
      put r f by auto
  then show ?thesis using put r f by blast
qed

section \<open>Collection\<close>

text \<open>
  C15.  Collection is safe against everything that runs beside it, whatever other processes do
  between its accesses, those between two lookups of the mark included.  An object they leave alone
  is not deleted if it is leased, or younger than the grace period (or of unknown age), or if, in
  the directory as the collection began, the roots that were read reach it through objects that
  are left alone too and that the walk filter admits (itself included).  (An object whose only
  path is cut while the mark runs is not protected by this.)
\<close>

theorem collection_keeps_protected:
  assumes "collect blake3 h during env now read_roots opts d = (d', Inr rep)"
    and "left_alone during env d j" "file_at d j = Some f"
    and "(\<exists>frozen. read_roots 0 = Inr frozen \<and> j \<in> alive (untouched_part h during env d) (gc_walk opts) frozen)
      \<or> j \<in> gc_leases opts \<or> fresh_file (gc_cutoff now (gc_grace opts)) f"
  shows "file_at d' j = Some f \<and> get_object blake3 d' j = get_object blake3 d j"
  using collect_keeps_reachable [OF assms] assms(3) by (simp add: get_object_file)

definition chunk_file :: loose_file where
  "chunk_file = \<lparr>lf_raw = loose_header Chunk @ [7], lf_mtime = Some 0, lf_synced = True, lf_named = True\<rparr>"

definition chunk_dir :: object_dir where
  "chunk_dir = \<lparr>loose = [(loose_path zero_id, chunk_file)], temps = []\<rparr>"

lemma chunk_dir_file: "file_at chunk_dir j = (if j = zero_id then Some chunk_file else None)"
  by (simp add: file_at_def chunk_dir_def)

lemma chunk_dir_ok: "dir_ok zero_hash chunk_dir"
  by (auto simp: dir_ok_def chunk_dir_def chunk_file_def complete_file_def
      intro!: exI [of _ zero_id] exI [of _ Chunk] split: if_splits)

lemma chunk_dir_list: "list_objects chunk_dir = Inr [zero_id]"
proof -
  obtain ids where ids: "list_objects chunk_dir = Inr ids" "set ids = {i. file_at chunk_dir i \<noteq> None}"
      "sorted_wrt (<) ids"
    by (rule list_objects_ok [OF chunk_dir_ok])
  then have "set ids = set [zero_id]" by (auto simp: chunk_dir_file split: if_splits)
  then have "ids = [zero_id]" using ids(3) by (intro strict_sorted_equal) auto
  then show ?thesis using ids(1) by simp
qed

lemma collection_keeps_protected_witness:
  "\<exists>d' rep. collect zero_hash open_store (\<lambda>_ d. d) alone (10 ^ 18) (\<lambda>_. Inr [zero_id])
      default_gc_options chunk_dir = (d', Inr rep) \<and> file_at d' zero_id = Some chunk_file"
proof -
  let ?run = "collect zero_hash open_store (\<lambda>_ d. d) alone (10 ^ 18) (\<lambda>_. Inr [zero_id])
      default_gc_options chunk_dir"
  let ?w = "walk_reachable (mark_lookup open_store (\<lambda>_ d. d) chunk_dir) [zero_id] default_walk_options"
  have look: "store_lookup open_store chunk_dir i = (if i = zero_id then
      Inr (Some \<lparr>node_id = zero_id, node_kind = Chunk, node_len = 1, node_deps = []\<rparr>) else Inr None)" for i
    by (simp add: store_lookup_def chunk_dir_file chunk_file_def parse_loose_header)
  have w: "?w = Inr [\<lparr>visit_id = zero_id, visit_depth = 0, visit_node = Some \<lparr>node_id = zero_id,
      node_kind = Chunk, node_len = 1, node_deps = []\<rparr>\<rparr>]"
    by (simp add: walk_reachable_def walk_collect.simps walk_next_def next_visit.simps walk_round_def
        budget_check_def walk_new_def default_walk_options_def mark_lookup_def look no_filter_def admits_def
        Let_def rbind_def sat_add64_def u64_max_def)
  have free: "left_alone (\<lambda>_ d. d) alone chunk_dir i" for i by (simp add: left_alone_def)
  have "zero_id \<in> alive (untouched_part open_store (\<lambda>_ d. d) alone chunk_dir) (gc_walk default_gc_options) [zero_id]"
    by (simp add: alive_def untouched_part_def free look filtered_out_def reach_root default_gc_options_def
        default_walk_options_def no_filter_def admits_def)
  moreover obtain d' rep where run: "?run = (d', Inr rep)"
    by (simp add: collect_def w chunk_dir_list gc_mark_def is_present_def default_gc_options_def Let_def)
  ultimately show ?thesis
    using collection_keeps_protected [OF run free, of zero_id chunk_file] run by (auto simp: chunk_dir_file)
qed

text \<open>
  C18.  Run alone and with a walk that filters no class, collection is exact: afterwards the
  directory holds what it held except the objects that no root reaches, nobody leases and that are
  older than the grace period (or everything, in a dry run); exactly those are reported removed;
  and the walk from the roots gives the same result as before.
\<close>

theorem collection_exact:
  assumes "dir_ok blake3 d" "collect blake3 h (\<lambda>_ d. d) alone now (\<lambda>_. Inr roots) opts d = (d', Inr rep)"
    and "is_unrestricted (kinds (gc_walk opts))"
  defines "garbage \<equiv> {i. file_at d i \<noteq> None \<and> i \<notin> alive (store_lookup h d) (gc_walk opts) roots \<and> i \<notin> gc_leases opts
      \<and> \<not> written_since d i (gc_cutoff now (gc_grace opts))}"
  shows "set (removed rep) = garbage
    \<and> (\<forall>j. file_at d' j = (if \<not> gc_dry_run opts \<and> j \<in> garbage then None else file_at d j))
    \<and> walk_reachable (store_lookup h d') roots (gc_walk opts)
        = walk_reachable (store_lookup h d) roots (gc_walk opts)"
proof -
  obtain ids where ids: "list_objects d = Inr ids" "set ids = {i. file_at d i \<noteq> None}"
    by (rule list_objects_ok [OF assms(1)])
  note run = collect_alone [OF assms(2) ids(1)]
  then have removed: "set (removed rep) = garbage"
    using ids(2) by (auto simp: garbage_def)
  have files: "file_at d' j = (if \<not> gc_dry_run opts \<and> j \<in> garbage then None else file_at d j)" for j
    using run removed by auto
  have "store_lookup h d i = store_lookup h d' i"
    if "reach (store_lookup h d) (kinds (gc_walk opts)) (set roots) i" for i
  proof -
    have "\<not> filtered_out (store_lookup h d) (kinds (gc_walk opts)) i"
      using assms(3) by (auto simp: filtered_out_def is_unrestricted_def admits_def split: sum.splits option.splits)
    then have "i \<notin> garbage" using that by (auto simp: garbage_def alive_def store_lookup_absent)
    then show ?thesis by (simp add: store_lookup_def files)
  qed
  then have "walk_reachable (store_lookup h d') roots (gc_walk opts)
      = walk_reachable (store_lookup h d) roots (gc_walk opts)"
    using walk_reachable_cong by metis
  with removed files show ?thesis by blast
qed

lemma collection_exact_witness:
  "\<exists>d' rep. collect zero_hash open_store (\<lambda>_ d. d) alone (10 ^ 18) (\<lambda>_. Inr []) default_gc_options chunk_dir
      = (d', Inr rep) \<and> set (removed rep) = {zero_id} \<and> file_at d' zero_id = None"
proof -
  let ?run = "collect zero_hash open_store (\<lambda>_ d. d) alone (10 ^ 18) (\<lambda>_. Inr []) default_gc_options chunk_dir"
  have w: "walk_reachable (store_lookup open_store chunk_dir) [] default_walk_options = Inr []"
    by (simp add: walk_reachable_def walk_collect.simps walk_next_def next_visit.simps walk_round_def
        budget_check_def walk_new_def default_walk_options_def)
  obtain d' rep where run: "?run = (d', Inr rep)"
    by (cases ?run; cases "snd ?run")
      (auto simp: collect_def mark_lookup_def w chunk_dir_list gc_mark_def default_gc_options_def Let_def
        split: prod.splits if_splits)
  have none: "alive (store_lookup open_store chunk_dir) (gc_walk default_gc_options) [] = {}"
    using marked_alive [OF w] by (simp add: gc_mark_def default_gc_options_def)
  show ?thesis
    using collection_exact [OF chunk_dir_ok run] run none
    by (auto simp: chunk_dir_file written_since_def object_written_at_def chunk_file_def gc_cutoff_def
        default_gc_options_def system_time_min_def default_walk_options_def no_filter_def
        is_unrestricted_def)
qed

text \<open>
  An object stored again keeps its old age: the write reports success, and a collection that
  follows deletes the object although it was stored a moment ago.
\<close>

lemma stored_again_then_collected:
  assumes "dir_ok blake3 d" "file_at d i = Some f" "i = compute_id blake3 k b"
    and "length b \<le> max_len_for (h_limits h) k"
    and "\<not> fresh_file (gc_cutoff now (gc_grace opts)) f" "i \<notin> gc_leases opts" "\<not> gc_dry_run opts"
    and "i \<notin> alive (store_lookup h d) (gc_walk opts) roots"
    and "put_object blake3 (Some now) suffix io k b (h, d) = ((h1, d1), r)"
    and "collect blake3 h (\<lambda>_ d. d) alone now (\<lambda>_. Inr roots) opts d1 = (d', Inr rep)"
  shows "r = Inr i \<and> file_at d' i = None"
proof -
  have put: "((h1, d1), r) = ((h, d), Inr i)"
    using put_existing [of d blake3 k b h "Some now" suffix] assms(2-4,9) by simp
  obtain ids where ids: "list_objects d = Inr ids" "set ids = {i. file_at d i \<noteq> None}"
    by (rule list_objects_ok [OF assms(1)])
  show ?thesis
    using collect_alone [of blake3 h now roots opts d d' rep ids] assms(2,5-8,10) put ids
    by (simp add: written_since_Some)
qed

end
