(* ===== verification/Negotiate.thy ===== *)
theory Negotiate
  imports Have_Sets Envelope Complex_Main
begin

text \<open>
  Negotiation: \<^verbatim>\<open>core/cavs-object/src/negotiate.rs\<close>.  Capabilities and what two sides settle on;
  the Bloom filter with its bit operations and its encoding; and the summary a receiver sends.  The
  floating-point sizing of a filter is read over the real numbers.  The Bloom filter is the third
  interpretation of the contract of have-sets.
\<close>

section \<open>Capabilities\<close>

datatype have_form = FormExact | FormBloom

definition protocol_v2 :: u16 where
  "protocol_v2 = 2"

definition bundle_format_v1 :: u16 where
  "bundle_format_v1 = 1"

record capabilities =
  protocol_versions :: "u16 list"
  object_formats :: "u16 list"
  bundle_formats :: "u16 list"
  have_forms :: "have_form list"
  cap_filters :: bool
  cap_resumable :: bool
  cap_max_roots :: nat
  cap_max_objects_per_response :: nat
  cap_max_exact_have :: nat

definition default_capabilities :: capabilities where
  "default_capabilities = \<lparr>protocol_versions = [protocol_v2], object_formats = [envelope_format_v1],
     bundle_formats = [bundle_format_v1], have_forms = [FormExact, FormBloom],
     cap_filters = True, cap_resumable = True, cap_max_roots = 1024,
     cap_max_objects_per_response = 100000, cap_max_exact_have = 4096\<rparr>"

record agreement =
  agreed_protocol :: u16
  agreed_object_format :: u16
  agreed_have_form :: have_form
  agreed_filters :: bool
  agreed_resumable :: bool
  agreed_max_roots :: nat
  agreed_max_objects_per_response :: nat
  agreed_max_exact_have :: nat

fun max_of :: "u16 list \<Rightarrow> u16 option" where
  "max_of [] = None"
| "max_of (v # vs) = (case max_of vs of None \<Rightarrow> Some v | Some w \<Rightarrow> Some (max v w))"

definition highest_common :: "u16 list \<Rightarrow> u16 list \<Rightarrow> u16 option" where
  "highest_common a b = max_of (filter (\<lambda>v. v \<in> set b) a)"

definition debug_versions :: "u16 list \<Rightarrow> string" where
  "debug_versions vs =
     ''['' @ concat (intersperse '', '' (map (\<lambda>v. decimal (unat v)) vs)) @ '']''"

definition agree :: "capabilities \<Rightarrow> capabilities \<Rightarrow> agreement result" where
  "agree self other =
     rbind (ok_or (Corrupt (''no protocol version in common: this side speaks ''
              @ debug_versions (protocol_versions self) @ '', the other ''
              @ debug_versions (protocol_versions other)))
            (highest_common (protocol_versions self) (protocol_versions other))) (\<lambda>protocol.
     rbind (ok_or (Corrupt ''no object format in common'')
            (highest_common (object_formats self) (object_formats other))) (\<lambda>object_format.
     rbind (if FormExact \<in> set (have_forms self) \<and> FormExact \<in> set (have_forms other)
            then Inr FormExact
            else if FormBloom \<in> set (have_forms self) \<and> FormBloom \<in> set (have_forms other)
            then Inr FormBloom
            else Inl (Corrupt ''no have-set form in common'')) (\<lambda>have_form.
     Inr \<lparr>agreed_protocol = protocol, agreed_object_format = object_format,
          agreed_have_form = have_form,
          agreed_filters = (cap_filters self \<and> cap_filters other),
          agreed_resumable = (cap_resumable self \<and> cap_resumable other),
          agreed_max_roots = min (cap_max_roots self) (cap_max_roots other),
          agreed_max_objects_per_response =
            min (cap_max_objects_per_response self) (cap_max_objects_per_response other),
          agreed_max_exact_have = min (cap_max_exact_have self) (cap_max_exact_have other)\<rparr>)))"

lemma max_of_eq: "max_of vs = (if vs = [] then None else Some (Max (set vs)))"
  by (induction vs) (auto simp: max_def)

lemma highest_common_eq:
  "highest_common a b = (if set a \<inter> set b = {} then None else Some (Max (set a \<inter> set b)))"
proof -
  have "set (filter (\<lambda>v. v \<in> set b) a) = set a \<inter> set b" by auto
  then show ?thesis unfolding highest_common_def max_of_eq by (metis empty_set set_empty)
qed

lemma highest_common_commute: "highest_common a b = highest_common b a"
  by (simp add: highest_common_eq Int_commute)

section \<open>The Bloom filter\<close>

record bloom =
  bl_bits :: bytes
  bl_hashes :: byte
  bl_inserted :: u64

text \<open>\<^verbatim>\<open>sized_for\<close>: m = -n ln p / (ln 2)^2 bits and k = (m/n) ln 2 rounds, both clamped.\<close>

definition bloom_bit_count :: "nat \<Rightarrow> real \<Rightarrow> nat" where
  "bloom_bit_count expected rate =
     (let expected = max expected 1; rate = max (1 / 10 ^ 6) (min rate (1 / 2))
      in max 64 (min (nat \<lceil>- real expected * ln rate / (ln 2)\<^sup>2\<rceil>) (2 ^ 31)))"

definition bloom_rounds :: "nat \<Rightarrow> nat \<Rightarrow> nat" where
  "bloom_rounds bits expected =
     max 1 (min (nat (round (real bits / real (max expected 1) * ln 2))) 16)"

definition sized_for :: "nat \<Rightarrow> real \<Rightarrow> bloom" where
  "sized_for expected rate =
     (let bits = bloom_bit_count expected rate in
      \<lparr>bl_bits = replicate ((bits + 7) div 8) 0, bl_hashes = of_nat (bloom_rounds bits expected),
       bl_inserted = 0\<rparr>)"

definition bloom_index :: "nat \<Rightarrow> object_id \<Rightarrow> nat \<Rightarrow> nat" where
  "bloom_index bits i n =
     (let h1 = from_le (take 8 (digest i)) :: u64;
          h2 = from_le (take 8 (drop 8 (digest i))) OR 1
      in unat (h1 + of_nat n * h2) mod bits)"

text \<open>The remainder by an empty filter's zero bits is a panic, at the first round.\<close>

definition bloom_indices :: "bloom \<Rightarrow> object_id \<Rightarrow> nat list result" where
  "bloom_indices b i =
     (let bits = 8 * length (bl_bits b) in
      if bits = 0 \<and> bl_hashes b \<noteq> 0
      then Inl (Panicked ''remainder with a divisor of zero'')
      else Inr (map (bloom_index bits i) [0..<unat (bl_hashes b)]))"

definition set_index :: "nat \<Rightarrow> bytes \<Rightarrow> bytes" where
  "set_index k bits = bits[k div 8 := (bits ! (k div 8)) OR push_bit (k mod 8) 1]"

definition index_set :: "bytes \<Rightarrow> nat \<Rightarrow> bool" where
  "index_set bits k \<longleftrightarrow> (bits ! (k div 8)) AND push_bit (k mod 8) 1 \<noteq> 0"

definition bloom_insert :: "object_id \<Rightarrow> bloom \<Rightarrow> bloom result" where
  "bloom_insert i b =
     rbind (bloom_indices b i) (\<lambda>ks.
     Inr (b\<lparr>bl_bits := fold set_index ks (bl_bits b), bl_inserted := bl_inserted b + 1\<rparr>))"

definition bloom_contains :: "bloom \<Rightarrow> object_id \<Rightarrow> bool result" where
  "bloom_contains b i =
     rbind (bloom_indices b i) (\<lambda>ks. Inr (list_all (index_set (bl_bits b)) ks))"

definition bloom_encode :: "bloom \<Rightarrow> bytes" where
  "bloom_encode b =
     [bl_hashes b] @ write_varuint (bl_inserted b) @ write_varuint (of_nat (length (bl_bits b)))
     @ bl_bits b"

definition bloom_decode :: "bytes \<Rightarrow> nat \<Rightarrow> bloom result" where
  "bloom_decode bs limit =
     (case bs of
        [] \<Rightarrow> Inl (Truncated ''bloom filter'')
      | hashes # input \<Rightarrow>
          if hashes = 0 \<or> 16 < hashes
          then Inl (Corrupt (''a bloom filter with '' @ decimal (unat hashes)
                      @ '' hash rounds is not one this build made''))
          else
          rbind (read_varuint input) (\<lambda>(inserted, input).
          rbind (read_varuint input) (\<lambda>(len, input).
          let len = unat len in
          if limit < len then Inl (TooLarge ''bloom filter'' len limit)
          else if len \<noteq> length input
          then Inl (Corrupt ''a bloom filter's declared length is not its actual length'')
          else Inr \<lparr>bl_bits = input, bl_hashes = hashes, bl_inserted = inserted\<rparr>)))"

text \<open>A filter as a have-set: a hit is a maybe.\<close>

definition have_bloom :: "bloom \<Rightarrow> have_set" where
  "have_bloom b = \<lparr>may_have = (\<lambda>i. bloom_contains b i = Inr True), is_definite = False\<rparr>"

fun bloom_insert_all :: "object_id list \<Rightarrow> bloom \<Rightarrow> bloom result" where
  "bloom_insert_all [] b = Inr b"
| "bloom_insert_all (i # is) b = rbind (bloom_insert i b) (bloom_insert_all is)"

definition bloom_of :: "object_id list \<Rightarrow> real \<Rightarrow> bloom result" where
  "bloom_of ids rate = bloom_insert_all ids (sized_for (length ids) rate)"

section \<open>No false negative\<close>

lemma bit_byte_one: "k < 8 \<Longrightarrow> bit (2 ^ k :: byte) j \<longleftrightarrow> j = k"
  by (auto simp: bit_exp_iff)

lemma and_bit_eq_0: "k < 8 \<Longrightarrow> (b :: byte) AND 2 ^ k = 0 \<longleftrightarrow> \<not> bit b k"
proof -
  assume k: "k < 8"
  have bits: "bit (b AND 2 ^ k) n \<longleftrightarrow> bit b n \<and> n = k" for n
    using bit_byte_one [OF k] by (simp add: bit_and_iff)
  have "b AND 2 ^ k = 0 \<Longrightarrow> \<not> bit b k" using bits [of k] by simp
  moreover have "\<not> bit b k \<Longrightarrow> b AND 2 ^ k = 0" by (rule bit_word_eqI) (auto simp: bits)
  ultimately show "b AND 2 ^ k = 0 \<longleftrightarrow> \<not> bit b k" by blast
qed

lemma length_set_index [simp]: "length (set_index k bits) = length bits"
  by (simp add: set_index_def)

lemma length_fold_set_index [simp]: "length (fold set_index ks bits) = length bits"
  by (induction ks arbitrary: bits) simp_all

lemma index_set_bit: "index_set bits k \<longleftrightarrow> bit (bits ! (k div 8)) (k mod 8)"
  by (simp add: index_set_def and_bit_eq_0)

lemma index_set_set:
  assumes "k div 8 < length bits"
  shows "index_set (set_index k bits) j \<longleftrightarrow> j = k \<or> index_set bits j"
proof (cases "j div 8 = k div 8")
  case True
  then have "j mod 8 = k mod 8 \<longleftrightarrow> j = k" by (metis div_mult_mod_eq)
  then show ?thesis
    using assms True by (auto simp: index_set_bit set_index_def bit_or_iff bit_byte_one)
next
  case False
  then show ?thesis by (auto simp: index_set_bit set_index_def)
qed

lemma index_set_fold:
  assumes "\<forall>k \<in> set ks. k div 8 < length bits"
  shows "index_set (fold set_index ks bits) j \<longleftrightarrow> j \<in> set ks \<or> index_set bits j"
  using assms by (induction ks arbitrary: bits) (auto simp: index_set_set)

lemma bloom_index_bound: "bits \<noteq> [] \<Longrightarrow> bloom_index (8 * length bits) i r div 8 < length bits"
  by (simp add: bloom_index_def Let_def less_mult_imp_div_less mult.commute)

lemma bloom_insert_contains:
  assumes "bl_bits b \<noteq> []"
  obtains b' where "bloom_insert i b = Inr b'" "bl_bits b' \<noteq> []" "bl_hashes b' = bl_hashes b"
    "bloom_contains b' i = Inr True"
    "\<And>j. bloom_contains b j = Inr True \<Longrightarrow> bloom_contains b' j = Inr True"
proof -
  let ?ks = "\<lambda>i. map (bloom_index (8 * length (bl_bits b)) i) [0..<unat (bl_hashes b)]"
  let ?b = "b\<lparr>bl_bits := fold set_index (?ks i) (bl_bits b), bl_inserted := bl_inserted b + 1\<rparr>"
  have ks: "bloom_indices b i = Inr (?ks i)" "bloom_indices ?b i = Inr (?ks i)" for i
    using assms by (simp_all add: bloom_indices_def Let_def)
  have bound: "\<forall>k \<in> set (?ks i). k div 8 < length (bl_bits b)"
    using bloom_index_bound [OF assms] by simp
  show thesis
  proof (rule that [of ?b])
    show "bloom_insert i b = Inr ?b" by (simp add: bloom_insert_def ks)
    show "bl_bits ?b \<noteq> []" using assms length_fold_set_index by (metis length_0_conv bloom.simps(1) bloom.update_convs(1,3) bloom.surjective)
    show "bl_hashes ?b = bl_hashes b" by simp
    show "bloom_contains ?b i = Inr True"
      unfolding bloom_contains_def ks rbind_simps
      using index_set_fold [OF bound] by (simp add: list_all_iff)
    show "bloom_contains ?b j = Inr True" if "bloom_contains b j = Inr True" for j
      using that unfolding bloom_contains_def ks rbind_simps
      using index_set_fold [OF bound] by (simp add: list_all_iff)
  qed
qed

lemma bloom_insert_all_contains:
  assumes "bl_bits b \<noteq> []"
  shows "\<exists>b'. bloom_insert_all ids b = Inr b' \<and> (\<forall>i \<in> set ids. bloom_contains b' i = Inr True)
    \<and> (\<forall>i. bloom_contains b i = Inr True \<longrightarrow> bloom_contains b' i = Inr True)"
  using assms
proof (induction ids arbitrary: b)
  case (Cons i ids)
  obtain b1 where b1: "bloom_insert i b = Inr b1" "bl_bits b1 \<noteq> []" "bloom_contains b1 i = Inr True"
      "\<And>j. bloom_contains b j = Inr True \<Longrightarrow> bloom_contains b1 j = Inr True"
    using bloom_insert_contains [OF Cons.prems, of i] by metis
  then show ?case using Cons.IH [OF b1(2)] by fastforce
qed simp

lemma sized_for_bits: "bl_bits (sized_for n rate) \<noteq> []"
proof -
  have "64 \<le> bloom_bit_count n rate" by (simp add: bloom_bit_count_def Let_def)
  then show ?thesis by (simp add: sized_for_def Let_def)
qed

text \<open>The filter over a set always exists, and holds each of its members.\<close>

definition filter_of :: "object_id list \<Rightarrow> real \<Rightarrow> bloom" where
  "filter_of ids rate = (case bloom_of ids rate of Inr b \<Rightarrow> b | Inl _ \<Rightarrow> sized_for 0 rate)"

lemma bloom_of_contains:
  "bloom_of ids rate = Inr (filter_of ids rate)"
  "i \<in> set ids \<Longrightarrow> bloom_contains (filter_of ids rate) i = Inr True"
  using bloom_insert_all_contains [OF sized_for_bits, of ids "length ids" rate]
  by (auto simp: bloom_of_def filter_of_def)

interpretation bloom: have_contract "have_bloom (filter_of ids rate)" "set ids" for ids rate
  by unfold_locales (simp_all add: have_bloom_def bloom_of_contains)

section \<open>Encoding of a filter\<close>

definition wf_bloom :: "bloom \<Rightarrow> bool" where
  "wf_bloom b \<longleftrightarrow> bl_hashes b \<noteq> 0 \<and> bl_hashes b \<le> 16 \<and> length (bl_bits b) < 2 ^ 64"

lemma bloom_decode_encode:
  assumes "wf_bloom b" "length (bl_bits b) \<le> limit"
  shows "bloom_decode (bloom_encode b) limit = Inr b"
proof -
  have "read_varuint (write_varuint (bl_inserted b) @ write_varuint (of_nat (length (bl_bits b))) @ bl_bits b)
      = Inr (bl_inserted b, write_varuint (of_nat (length (bl_bits b))) @ bl_bits b)"
    by (rule obj_varuint.dec_enc) simp
  moreover have "read_varuint (write_varuint (of_nat (length (bl_bits b))) @ bl_bits b)
      = Inr (of_nat (length (bl_bits b)), bl_bits b)"
    by (rule obj_varuint.dec_enc) simp
  moreover have "unat (of_nat (length (bl_bits b)) :: u64) = length (bl_bits b)"
    using assms(1) by (simp add: wf_bloom_def unsigned_of_nat take_bit_nat_eq_self)
  moreover have "\<not> (bl_hashes b = 0 \<or> 16 < bl_hashes b)"
    using assms(1) by (auto simp: wf_bloom_def)
  ultimately show ?thesis
    using assms(2) by (simp add: bloom_decode_def bloom_encode_def)
qed

lemma bloom_decode_sound:
  assumes "bloom_decode bs limit = Inr b" "length bs < 2 ^ 64"
  shows "wf_bloom b \<and> length (bl_bits b) \<le> limit \<and> bloom_encode b = bs"
proof -
  from assms(1) obtain hashes input where bs: "bs = hashes # input" by (cases bs) (auto simp: bloom_decode_def)
  have h: "\<not> (hashes = 0 \<or> 16 < hashes)"
    using assms(1) by (cases "hashes = 0 \<or> 16 < hashes") (simp_all add: bs bloom_decode_def)
  with assms(1) obtain inserted rest where r1: "read_varuint input = Inr (inserted, rest)"
    by (cases "read_varuint input") (auto simp: bs bloom_decode_def)
  with assms(1) h obtain len bits where r2: "read_varuint rest = Inr (len, bits)"
    by (cases "read_varuint rest") (auto simp: bs bloom_decode_def)
  have b: "unat len \<le> limit \<and> unat len = length bits
      \<and> b = \<lparr>bl_bits = bits, bl_hashes = hashes, bl_inserted = inserted\<rparr>"
    using assms(1) h r1 r2 by (simp add: bs bloom_decode_def Let_def split: if_splits)
  have "input = write_varuint inserted @ rest" "rest = write_varuint len @ bits"
    using obj_varuint.dec_sound [OF r1] obj_varuint.dec_sound [OF r2] by simp_all
  moreover have "of_nat (length bits) = len" by (simp flip: b [THEN conjunct2, THEN conjunct1])
  moreover have "length bits < 2 ^ 64" using unat_u64 [of len] b by simp
  ultimately show ?thesis
    using bs h b by (simp add: wf_bloom_def bloom_encode_def not_less)
qed

text \<open>An accepted filter of no bytes panics on the first membership test.\<close>

lemma empty_filter_panics:
  "bloom_decode [1, 0, 0] limit = Inr \<lparr>bl_bits = [], bl_hashes = 1, bl_inserted = 0\<rparr>"
  "bloom_contains \<lparr>bl_bits = [], bl_hashes = 1, bl_inserted = 0\<rparr> i
    = Inl (Panicked ''remainder with a divisor of zero'')"
proof -
  have "bloom_encode \<lparr>bl_bits = [], bl_hashes = 1, bl_inserted = 0\<rparr> = [1, 0, 0]"
    by (simp add: bloom_encode_def write_varuint.simps)
  then show "bloom_decode [1, 0, 0] limit = Inr \<lparr>bl_bits = [], bl_hashes = 1, bl_inserted = 0\<rparr>"
    using bloom_decode_encode [of "\<lparr>bl_bits = [], bl_hashes = 1, bl_inserted = 0\<rparr>" limit]
    by (simp add: wf_bloom_def)
qed (simp add: bloom_contains_def bloom_indices_def)

section \<open>Summaries\<close>

datatype have_summary = SummaryEmpty | SummaryExact "object_id list" | SummaryBloom bloom

text \<open>\<^verbatim>\<open>HaveSummary::of\<close>: the ids are the set's elements in order; one percent false positives.\<close>

definition summary_of :: "object_id list \<Rightarrow> nat \<Rightarrow> have_summary result" where
  "summary_of ids exact_below =
     (if ids = [] then Inr SummaryEmpty
      else if length ids < exact_below then Inr (SummaryExact ids)
      else rbind (bloom_of ids (1 / 100)) (\<lambda>b. Inr (SummaryBloom b)))"

fun as_have_set :: "have_summary \<Rightarrow> have_set" where
  "as_have_set SummaryEmpty = have_nothing"
| "as_have_set (SummaryExact ids) = have_exact (set ids)"
| "as_have_set (SummaryBloom b) = have_bloom b"

fun summary_len :: "have_summary \<Rightarrow> nat" where
  "summary_len SummaryEmpty = 0"
| "summary_len (SummaryExact ids) = length ids"
| "summary_len (SummaryBloom b) = unat (bl_inserted b)"

definition summary_is_empty :: "have_summary \<Rightarrow> bool" where
  "summary_is_empty s \<longleftrightarrow> summary_len s = 0"

fun needs_confirmation :: "have_summary \<Rightarrow> bool" where
  "needs_confirmation (SummaryBloom _) = True"
| "needs_confirmation _ = False"

definition the_summary :: "object_id list \<Rightarrow> nat \<Rightarrow> have_summary" where
  "the_summary ids exact_below =
     (if ids = [] then SummaryEmpty
      else if length ids < exact_below then SummaryExact ids
      else SummaryBloom (filter_of ids (1 / 100)))"

lemma summary_of_eq: "summary_of ids n = Inr (the_summary ids n)"
  by (simp add: summary_of_def the_summary_def bloom_of_contains)

text \<open>Whatever form is chosen, the contract of have-sets holds.\<close>

interpretation summary: have_contract "as_have_set (the_summary ids n)" "set ids" for ids n
proof unfold_locales
  show "i \<in> set ids \<Longrightarrow> may_have (as_have_set (the_summary ids n)) i" for i
    using exact.no_false_negative [of i "set ids"] bloom.no_false_negative [of i ids "1 / 100"]
    by (auto simp: the_summary_def)
  show "is_definite (as_have_set (the_summary ids n)) \<Longrightarrow> may_have (as_have_set (the_summary ids n)) i \<Longrightarrow>
      i \<in> set ids" for i
    using exact.definite_exact [of "set ids" i] empty.definite_exact [of i] bloom.definite_exact [of ids "1 / 100" i]
    by (auto simp: the_summary_def split: if_splits)
qed

end
