(* ===== verification/Negotiation.thy ===== *)
theory Negotiation
  imports Negotiate Traversal
begin

text \<open>
  What negotiation promises: the properties of \<^verbatim>\<open>negotiate.rs\<close>, each with an instance.
\<close>

section \<open>Agreement\<close>

definition in_common :: "'a list \<Rightarrow> 'a list \<Rightarrow> 'a set" where
  "in_common a b = set a \<inter> set b"

lemma highest_common_Max: "highest_common a b = Some v \<Longrightarrow> in_common a b \<noteq> {} \<and> v = Max (in_common a b)"
  by (simp add: highest_common_eq in_common_def split: if_splits)

lemma highest_common_None: "highest_common a b = None \<longleftrightarrow> in_common a b = {}"
  by (simp add: highest_common_eq in_common_def)

lemma agree_cases:
  obtains (settled) x where "agree a b = Inr x" "agree b a = Inr x"
    "highest_common (protocol_versions a) (protocol_versions b) = Some (agreed_protocol x)"
    "highest_common (object_formats a) (object_formats b) = Some (agreed_object_format x)"
    "agreed_have_form x \<in> in_common (have_forms a) (have_forms b)"
    "agreed_max_roots x = min (cap_max_roots a) (cap_max_roots b)"
  | (none) e f where "agree a b = Inl e" "agree b a = Inl f"
    "in_common (protocol_versions a) (protocol_versions b) = {} \<or> in_common (object_formats a) (object_formats b) = {}
     \<or> in_common (have_forms a) (have_forms b) = {}"
proof (cases "highest_common (protocol_versions a) (protocol_versions b)")
  case p: None
  then have p': "highest_common (protocol_versions b) (protocol_versions a) = None"
    by (simp only: highest_common_commute)
  obtain e f where "agree a b = Inl e" "agree b a = Inl f"
    using p p' by (simp add: agree_def)
  then show thesis by (rule none) (use p in \<open>simp add: highest_common_None\<close>)
next
  case p: (Some p)
  then have p': "highest_common (protocol_versions b) (protocol_versions a) = Some p"
    by (simp only: highest_common_commute)
  show thesis
  proof (cases "highest_common (object_formats a) (object_formats b)")
    case o: None
    then have o': "highest_common (object_formats b) (object_formats a) = None"
      by (simp only: highest_common_commute)
    obtain e f where "agree a b = Inl e" "agree b a = Inl f"
      using p p' o o' by (simp add: agree_def)
    then show thesis by (rule none) (use o in \<open>simp add: highest_common_None\<close>)
  next
    case o: (Some v)
    then have o': "highest_common (object_formats b) (object_formats a) = Some v"
      by (simp only: highest_common_commute)
    show thesis
    proof (cases "in_common (have_forms a) (have_forms b) = {}")
      case True
      then have "x \<notin> set (have_forms a) \<or> x \<notin> set (have_forms b)" for x by (auto simp: in_common_def)
      then have "agree a b = Inl (Corrupt ''no have-set form in common'')"
        "agree b a = Inl (Corrupt ''no have-set form in common'')"
        using p p' o o' by (simp_all add: agree_def) metis+
      then show thesis by (rule none) (use True in simp)
    next
      case False
      then obtain f where f: "f \<in> set (have_forms a)" "f \<in> set (have_forms b)" by (auto simp: in_common_def)
      let ?x = "\<lparr>agreed_protocol = p, agreed_object_format = v,
          agreed_have_form = (if FormExact \<in> in_common (have_forms a) (have_forms b) then FormExact else FormBloom),
          agreed_filters = (cap_filters a \<and> cap_filters b), agreed_resumable = (cap_resumable a \<and> cap_resumable b),
          agreed_max_roots = min (cap_max_roots a) (cap_max_roots b),
          agreed_max_objects_per_response =
            min (cap_max_objects_per_response a) (cap_max_objects_per_response b),
          agreed_max_exact_have = min (cap_max_exact_have a) (cap_max_exact_have b)\<rparr>"
      have "agree a b = Inr ?x" "agree b a = Inr ?x"
        using p p' o o' f by (cases f; auto simp: agree_def in_common_def min.commute)+
      then show thesis
        by (rule settled) (use p o f in \<open>cases f; auto simp: in_common_def\<close>)+
    qed
  qed
qed

text \<open>
  Negotiation is symmetric: whichever side runs it, both settle on the same terms or both
  refuse.  The terms are the highest protocol and object format both speak and a have-set form both
  accept; a refusal means that one of the three has nothing in common.
\<close>

theorem agreement_symmetric:
  "case agree a b of
     Inr x \<Rightarrow> agree b a = Inr x
       \<and> agreed_protocol x = Max (in_common (protocol_versions a) (protocol_versions b))
       \<and> agreed_object_format x = Max (in_common (object_formats a) (object_formats b))
       \<and> agreed_have_form x \<in> in_common (have_forms a) (have_forms b)
       \<and> agreed_max_roots x = min (cap_max_roots a) (cap_max_roots b)
   | Inl e \<Rightarrow> is_ok (agree b a) = False
       \<and> (in_common (protocol_versions a) (protocol_versions b) = {} \<or> in_common (object_formats a) (object_formats b) = {}
          \<or> in_common (have_forms a) (have_forms b) = {})"
  by (cases rule: agree_cases [of a b]) (use highest_common_Max in auto)

section \<open>Plans against a summary\<close>

text \<open>
  Whatever form the receiver's summary takes (nothing, a list, or a Bloom filter with false
  positives), the sender's plan leaves no gap among the objects its class filter lets it see: when
  the receiver's set is closed under the dependencies of admitted objects, every admitted object
  that the roots reach through admitted objects is held by the receiver, or is named missing, or is
  named for confirmation, or is reported unavailable at the sender; and nothing named missing is
  held.  (Objects of refused classes, and what lies below them, are not named at all.)
\<close>

theorem summary_plan_complete:
  assumes "summary_of ids n = Inr summary"
    and "compute_missing lookup roots (as_have_set summary) opts = Inr plan"
    and "\<And>i. i \<in> set ids \<Longrightarrow> children lookup (kinds opts) i \<subseteq> set ids"
  shows "{i. reach lookup (kinds opts) (set roots) i \<and> \<not> filtered_out lookup (kinds opts) i}
      \<subseteq> set ids \<union> set (plan_missing plan) \<union> set (plan_uncertain plan) \<union> set (plan_unavailable plan)
    \<and> set (plan_missing plan) \<inter> set ids = {}"
proof -
  have plan: "compute_missing lookup roots (as_have_set (the_summary ids n)) opts = Inr plan"
    using assms(1,2) by (simp add: summary_of_eq)
  show ?thesis
    using summary.plan_complete [OF plan assms(3)] summary.plan_exact(2) [OF plan] by blast
qed

lemma summary_plan_complete_witness:
  "\<exists>plan. compute_missing diamond [nid 1] (as_have_set (SummaryExact [nid 3, nid 4])) default_walk_options = Inr plan
    \<and> {i. reach diamond (kinds default_walk_options) {nid 1} i
      \<and> \<not> filtered_out diamond (kinds default_walk_options) i} \<subseteq> {nid 3, nid 4} \<union> {nid 1, nid 2, nid 5}"
proof -
  have s: "summary_of [nid 3, nid 4] 10 = Inr (SummaryExact [nid 3, nid 4])"
    by (simp add: summary_of_def)
  have plan: "compute_missing diamond [nid 1] (as_have_set (SummaryExact [nid 3, nid 4])) default_walk_options
      = Inr \<lparr>plan_missing = [nid 1, nid 2, nid 5], plan_bytes = 500, plan_uncertain = [],
             plan_unavailable = [], plan_already_present = 2\<rparr>"
    by (simp add: compute_missing_def missing_loop.simps walk_steps diamond_def node_def
        have_exact_def empty_plan_def prune_last_def)
  have closed: "children diamond (kinds default_walk_options) i \<subseteq> set [nid 3, nid 4]"
    if "i \<in> set [nid 3, nid 4]" for i
    using that by (auto simp: children_def diamond_def node_def split: if_splits)
  show ?thesis using summary_plan_complete [OF s plan closed] plan by auto
qed

section \<open>Filters on the wire\<close>

lemma bloom_insert_shape:
  assumes "bloom_insert i b = Inr b'"
  shows "bl_hashes b' = bl_hashes b \<and> length (bl_bits b') = length (bl_bits b)"
  using assms by (auto simp: bloom_insert_def rbind_eq_Inr)

lemma bloom_insert_all_shape:
  "bloom_insert_all ids b = Inr b' \<Longrightarrow> bl_hashes b' = bl_hashes b \<and> length (bl_bits b') = length (bl_bits b)"
proof (induction ids arbitrary: b)
  case (Cons i ids)
  then obtain b1 where "bloom_insert i b = Inr b1" "bloom_insert_all ids b1 = Inr b'"
    by (auto simp: rbind_eq_Inr)
  then show ?case using Cons.IH bloom_insert_shape by metis
qed simp

lemma bloom_rounds_range: "1 \<le> bloom_rounds bits n \<and> bloom_rounds bits n \<le> 16"
  by (simp add: bloom_rounds_def)

lemma bloom_bits_range: "64 \<le> bloom_bit_count n rate \<and> bloom_bit_count n rate \<le> 2 ^ 31"
  by (simp add: bloom_bit_count_def Let_def)

lemma sized_for_shape:
  "8 \<le> length (bl_bits (sized_for n rate)) \<and> length (bl_bits (sized_for n rate)) \<le> 2 ^ 28"
  "bl_hashes (sized_for n rate) \<noteq> 0 \<and> bl_hashes (sized_for n rate) \<le> 16"
proof -
  show "8 \<le> length (bl_bits (sized_for n rate)) \<and> length (bl_bits (sized_for n rate)) \<le> 2 ^ 28"
    using bloom_bits_range [of n rate] by (auto simp: sized_for_def Let_def)
  have "unat (of_nat (bloom_rounds b n) :: byte) = bloom_rounds b n" for b
    using bloom_rounds_range [of b n] by (simp add: unsigned_of_nat take_bit_nat_eq_self)
  moreover have "bl_hashes (sized_for n rate) = of_nat (bloom_rounds (bloom_bit_count n rate) n)"
    by (simp add: sized_for_def Let_def)
  ultimately have h: "1 \<le> unat (bl_hashes (sized_for n rate)) \<and> unat (bl_hashes (sized_for n rate)) \<le> 16"
    using bloom_rounds_range [of "bloom_bit_count n rate" n] by simp
  then show "bl_hashes (sized_for n rate) \<noteq> 0 \<and> bl_hashes (sized_for n rate) \<le> 16"
    by (auto simp: word_le_nat_alt)
qed

lemma bloom_small:
  assumes "bloom_of ids rate = Inr b"
  shows "length (bl_bits b) \<le> 2 ^ 28"
proof -
  have "length (bl_bits b) = length (bl_bits (sized_for (length ids) rate))"
    using assms bloom_insert_all_shape unfolding bloom_of_def by blast
  then show ?thesis using sized_for_shape(1) [of "length ids" rate] by simp
qed

text \<open>
  A filter that this build makes is one it accepts: it has between one and sixteen rounds and
  at most 256 MiB, whatever the set and the rate asked for; sent and decoded under any limit of at
  least the number of its bytes it is the same filter; and at the other end it still answers yes
  for every member of the set.
\<close>

theorem filter_survives_the_wire:
  assumes "bloom_of ids rate = Inr b" "length (bl_bits b) \<le> limit"
  shows "1 \<le> bl_hashes b \<and> bl_hashes b \<le> 16 \<and> 8 \<le> length (bl_bits b) \<and> length (bl_bits b) \<le> 2 ^ 28
    \<and> bloom_decode (bloom_encode b) limit = Inr b
    \<and> (\<forall>i \<in> set ids. bloom_contains b i = Inr True)"
proof -
  have b: "b = filter_of ids rate" using assms(1) by (simp add: bloom_of_contains)
  have shape: "bl_hashes b = bl_hashes (sized_for (length ids) rate)"
    "length (bl_bits b) = length (bl_bits (sized_for (length ids) rate))"
    using assms(1) bloom_insert_all_shape unfolding bloom_of_def by blast+
  note sized = sized_for_shape [of "length ids" rate]
  have "wf_bloom b" using sized by (simp add: wf_bloom_def shape)
  then have "bloom_decode (bloom_encode b) limit = Inr b" using assms(2) by (rule bloom_decode_encode)
  moreover have "1 \<le> bl_hashes b"
    using sized(2) by (simp add: shape word_le_nat_alt) (metis One_nat_def Suc_leI gr0I unat_eq_zero)
  ultimately show ?thesis using sized shape b by (simp add: bloom_of_contains)
qed

lemma filter_survives_the_wire_witness:
  "\<exists>b. bloom_of [nid 1, nid 2] (1 / 100) = Inr b \<and> bloom_decode (bloom_encode b) (2 ^ 28) = Inr b"
  using filter_survives_the_wire [OF bloom_of_contains(1) bloom_small [OF bloom_of_contains(1)],
      of "[nid 1, nid 2]" "1 / 100"]
    bloom_of_contains(1) [of "[nid 1, nid 2]" "1 / 100"] by blast

text \<open>
  The decoder of filters accepts only encodings: what it returns has one to sixteen rounds, is
  within the limit and encodes to exactly the bytes read.
\<close>

theorem filter_decoder_exact:
  assumes "length bs < 2 ^ 64"
  shows "bloom_decode bs limit = Inr b \<longleftrightarrow> wf_bloom b \<and> length (bl_bits b) \<le> limit \<and> bloom_encode b = bs"
  using bloom_decode_sound [OF _ assms] bloom_decode_encode by blast

lemma filter_decoder_exact_witness:
  "bloom_decode [1, 0, 1, 5] 10 = Inr \<lparr>bl_bits = [5], bl_hashes = 1, bl_inserted = 0\<rparr>"
  using filter_decoder_exact [of "[1, 0, 1, 5]" 10 "\<lparr>bl_bits = [5], bl_hashes = 1, bl_inserted = 0\<rparr>"]
  by (simp add: wf_bloom_def bloom_encode_def write_varuint.simps word_le_nat_alt)

end
