(* ===== verification/Sign.thy ===== *)
theory Sign
  imports Object_Id "HOL-Library.AList"
begin

text \<open>
  Signatures: \<^verbatim>\<open>core/cavs-object/src/sign.rs\<close>.  Ed25519 is a library: the record \<open>ed25519\<close> of its
  operations is a parameter of the model, over keys and signatures as the bytes they are made of.
\<close>

record ed25519 =
  ed_public :: "bytes \<Rightarrow> bytes"
  ed_sign :: "bytes \<Rightarrow> bytes \<Rightarrow> bytes"
  ed_verify :: "bytes \<Rightarrow> bytes \<Rightarrow> bytes \<Rightarrow> bool"
  ed_valid_public :: "bytes \<Rightarrow> bool"

type_synonym key_id = bytes

record signature =
  sig_key :: key_id
  sig_bytes :: bytes

definition root_domain :: bytes where
  "root_domain = ascii ''cavs-root-signature-v1''"

definition bundle_domain :: bytes where
  "bundle_domain = ascii ''cavs-bundle-signature-v1''"

definition key_id_of :: "hash_fun \<Rightarrow> bytes \<Rightarrow> key_id" where
  "key_id_of blake3 public = take 8 (hash_chunk blake3 public)"

definition root_message :: "object_kind \<Rightarrow> object_id \<Rightarrow> bytes \<Rightarrow> bytes" where
  "root_message kind root metadata_hash =
     root_domain @ to_le 4 (kind_tag kind) @ digest root @ metadata_hash"

definition bundle_message :: "bytes \<Rightarrow> bytes" where
  "bundle_message checksum = bundle_domain @ checksum"

definition sign_root ::
    "ed25519 \<Rightarrow> hash_fun \<Rightarrow> bytes \<Rightarrow> object_kind \<Rightarrow> object_id \<Rightarrow> bytes \<Rightarrow> signature" where
  "sign_root ed blake3 key kind root metadata_hash =
     \<lparr>sig_key = key_id_of blake3 (ed_public ed key),
      sig_bytes = ed_sign ed key (root_message kind root metadata_hash)\<rparr>"

definition sign_bundle_checksum :: "ed25519 \<Rightarrow> hash_fun \<Rightarrow> bytes \<Rightarrow> bytes \<Rightarrow> signature" where
  "sign_bundle_checksum ed blake3 key checksum =
     \<lparr>sig_key = key_id_of blake3 (ed_public ed key),
      sig_bytes = ed_sign ed key (bundle_message checksum)\<rparr>"

record key_ring =
  ring_keys :: "(key_id \<times> bytes) list"
  ring_revoked :: "key_id set"

definition empty_ring :: key_ring where
  "empty_ring = \<lparr>ring_keys = [], ring_revoked = {}\<rparr>"

definition trust :: "hash_fun \<Rightarrow> bytes \<Rightarrow> key_ring \<Rightarrow> key_ring \<times> key_id" where
  "trust blake3 public ring =
     (let i = key_id_of blake3 public
      in (ring\<lparr>ring_keys := AList.update i public (ring_keys ring)\<rparr>, i))"

definition revoke :: "key_id \<Rightarrow> key_ring \<Rightarrow> key_ring" where
  "revoke i ring = ring\<lparr>ring_revoked := insert i (ring_revoked ring)\<rparr>"

definition is_revoked :: "key_ring \<Rightarrow> key_id \<Rightarrow> bool" where
  "is_revoked ring i \<longleftrightarrow> i \<in> ring_revoked ring"

definition ring_get :: "key_ring \<Rightarrow> key_id \<Rightarrow> bytes option" where
  "ring_get ring i = map_of (ring_keys ring) i"

definition ring_len :: "key_ring \<Rightarrow> nat" where
  "ring_len ring = length (ring_keys ring)"

record signature_check =
  accepted :: "key_id list"
  unknown_keys :: "key_id list"
  revoked :: "key_id list"
  invalid :: "key_id list"

definition empty_check :: signature_check where
  "empty_check = \<lparr>accepted = [], unknown_keys = [], revoked = [], invalid = []\<rparr>"

definition is_trusted :: "signature_check \<Rightarrow> bool" where
  "is_trusted c \<longleftrightarrow> accepted c \<noteq> [] \<and> invalid c = []"

definition has_failures :: "signature_check \<Rightarrow> bool" where
  "has_failures c \<longleftrightarrow> invalid c \<noteq> []"

definition check_signature ::
    "ed25519 \<Rightarrow> bytes \<Rightarrow> key_ring \<Rightarrow> signature \<Rightarrow> signature_check \<Rightarrow> signature_check" where
  "check_signature ed message ring s c =
     (if is_revoked ring (sig_key s) then c\<lparr>revoked := revoked c @ [sig_key s]\<rparr>
      else (case ring_get ring (sig_key s) of
              None \<Rightarrow> c\<lparr>unknown_keys := unknown_keys c @ [sig_key s]\<rparr>
            | Some public \<Rightarrow>
                if ed_verify ed public message (sig_bytes s)
                then c\<lparr>accepted := accepted c @ [sig_key s]\<rparr>
                else c\<lparr>invalid := invalid c @ [sig_key s]\<rparr>))"

definition verify_signatures ::
    "ed25519 \<Rightarrow> bytes \<Rightarrow> signature list \<Rightarrow> key_ring \<Rightarrow> signature_check" where
  "verify_signatures ed message signatures ring =
     fold (check_signature ed message ring) signatures empty_check"

definition verify_root :: "ed25519 \<Rightarrow> object_kind \<Rightarrow> object_id \<Rightarrow> bytes \<Rightarrow> signature list
    \<Rightarrow> key_ring \<Rightarrow> signature_check" where
  "verify_root ed kind root metadata_hash signatures ring =
     verify_signatures ed (root_message kind root metadata_hash) signatures ring"

definition signing_key_from_bytes :: "bytes \<Rightarrow> bytes result" where
  "signing_key_from_bytes bs =
     (if length bs \<noteq> 32 then Inl (Corrupt ''an Ed25519 secret key is 32 bytes'') else Inr bs)"

definition verifying_key_from_bytes :: "ed25519 \<Rightarrow> bytes \<Rightarrow> bytes result" where
  "verifying_key_from_bytes ed bs =
     (if length bs \<noteq> 32 then Inl (Corrupt ''an Ed25519 public key is 32 bytes'')
      else if ed_valid_public ed bs then Inr bs
      else Inl (Corrupt ''not a usable Ed25519 public key''))"

section \<open>What is signed\<close>

lemma root_message_inj:
  assumes "valid_id r" "valid_id s" "root_message k r m = root_message l s n"
  shows "kind_tag k = kind_tag l \<and> r = s \<and> m = n"
proof -
  have "to_le 4 (kind_tag k) @ digest r @ m = to_le 4 (kind_tag l) @ digest s @ n"
    using assms(3) by (simp add: root_message_def)
  moreover have "to_le 4 (kind_tag k) = to_le 4 (kind_tag l)"
    using calculation by (simp add: append_eq_append_conv)
  ultimately have "digest r @ m = digest s @ n" "kind_tag k = kind_tag l"
    using le32.enc_inj by auto
  then show ?thesis
    using assms(1,2) by (simp add: valid_id_def object_id_eq_iff)
qed

lemma root_not_bundle: "root_message k r m \<noteq> bundle_message c"
  by (simp add: root_message_def bundle_message_def root_domain_def bundle_domain_def ascii_def)

section \<open>What a check finds\<close>

text \<open>Each signature lands in exactly one list, in the order given.\<close>

definition good_signature :: "ed25519 \<Rightarrow> bytes \<Rightarrow> key_ring \<Rightarrow> signature \<Rightarrow> bool" where
  "good_signature ed message ring s \<longleftrightarrow> \<not> is_revoked ring (sig_key s)
     \<and> (\<exists>public. ring_get ring (sig_key s) = Some public \<and> ed_verify ed public message (sig_bytes s))"

definition bad_signature :: "ed25519 \<Rightarrow> bytes \<Rightarrow> key_ring \<Rightarrow> signature \<Rightarrow> bool" where
  "bad_signature ed message ring s \<longleftrightarrow> \<not> is_revoked ring (sig_key s)
     \<and> (\<exists>public. ring_get ring (sig_key s) = Some public \<and> \<not> ed_verify ed public message (sig_bytes s))"

lemma check_fold:
  "fold (check_signature ed message ring) sigs c =
     \<lparr>accepted = accepted c @ map sig_key (filter (good_signature ed message ring) sigs),
      unknown_keys = unknown_keys c @ map sig_key
        (filter (\<lambda>s. \<not> is_revoked ring (sig_key s) \<and> ring_get ring (sig_key s) = None) sigs),
      revoked = revoked c @ map sig_key (filter (\<lambda>s. is_revoked ring (sig_key s)) sigs),
      invalid = invalid c @ map sig_key (filter (bad_signature ed message ring) sigs)\<rparr>"
proof (induction sigs arbitrary: c)
  case (Cons s sigs)
  then show ?case
    by (cases "ring_get ring (sig_key s)")
      (simp_all add: check_signature_def good_signature_def bad_signature_def)
qed simp

lemma verify_signatures_eq:
  "verify_signatures ed message sigs ring =
     \<lparr>accepted = map sig_key (filter (good_signature ed message ring) sigs),
      unknown_keys = map sig_key
        (filter (\<lambda>s. \<not> is_revoked ring (sig_key s) \<and> ring_get ring (sig_key s) = None) sigs),
      revoked = map sig_key (filter (\<lambda>s. is_revoked ring (sig_key s)) sigs),
      invalid = map sig_key (filter (bad_signature ed message ring) sigs)\<rparr>"
  by (simp add: verify_signatures_def check_fold empty_check_def)

end
