(* ===== verification/Bundle_Format.thy ===== *)
theory Bundle_Format
  imports Sign Envelope Prelude
begin

text \<open>
  The bundle file: the layout of \<^verbatim>\<open>core/cavs-object/src/bundle.rs\<close>.  Each kind of entry (root,
  prerequisite, reference, table row, signature) is an interpretation of the codec contract; the
  reader is split where the code turns from the footer to the body.  The compressor is a library:
  \<open>unzip\<close> is what it makes of a payload and the size it declares.
\<close>

section \<open>Limits and contents\<close>

definition bundle_magic :: bytes where
  "bundle_magic = ascii ''CAVSBND1''"

definition bundle_format :: u16 where
  "bundle_format = 1"

definition flag_zstd :: u16 where
  "flag_zstd = 1"

record bundle_limits =
  bl_max_objects :: nat
  bl_max_roots :: nat
  bl_max_refs :: nat
  bl_max_payload_bytes :: nat
  bl_max_expansion_ratio :: nat
  bl_objects :: decode_limits

definition default_bundle_limits :: bundle_limits where
  "default_bundle_limits = \<lparr>bl_max_objects = 100000000, bl_max_roots = 4096, bl_max_refs = 65536,
     bl_max_payload_bytes = 64 * 2 ^ 30, bl_max_expansion_ratio = 1000, bl_objects = default_limits\<rparr>"

record bundle_ref =
  ref_name :: bytes
  ref_target :: object_id

type_synonym table_row = "object_kind \<times> object_id \<times> u64 \<times> u64"

record bundle_info =
  bi_format_version :: u16
  bi_compressed :: bool
  bi_created_at :: u64
  bi_roots :: "(object_kind \<times> object_id) list"
  bi_prerequisites :: "object_id list"
  bi_refs :: "bundle_ref list"
  bi_object_count :: nat
  bi_payload_bytes :: u64
  bi_payload_raw_bytes :: u64
  bi_signatures :: "signature list"

definition is_thin :: "bundle_info \<Rightarrow> bool" where
  "is_thin info \<longleftrightarrow> bi_prerequisites info \<noteq> []"

record opened_bundle =
  ob_info :: bundle_info
  ob_table :: "table_row list"
  ob_payload :: bytes
  ob_content_checksum :: bytes

section \<open>Entries\<close>

definition read_kind :: "string \<Rightarrow> bytes \<Rightarrow> (object_kind \<times> bytes) result" where
  "read_kind what input =
     rbind (take_le (Truncated what) 4 input) (\<lambda>(tag, input).
     rbind (ok_or (UnknownKind tag) (kind_from_tag tag)) (\<lambda>kind. Inr (kind, input)))"

definition write_kind :: "object_kind \<Rightarrow> bytes" where
  "write_kind kind = to_le 4 (kind_tag kind)"

definition read_id :: "bytes \<Rightarrow> (object_id \<times> bytes) result" where
  "read_id = read_id_with ''hash algorithm'' ''object id''"

definition read_root :: "bytes \<Rightarrow> ((object_kind \<times> object_id) \<times> bytes) result" where
  "read_root input =
     rbind (read_kind ''root kind'' input) (\<lambda>(kind, input).
     rbind (read_id input) (\<lambda>(i, input). Inr ((kind, i), input)))"

fun write_root :: "object_kind \<times> object_id \<Rightarrow> bytes" where
  "write_root (kind, i) = write_kind kind @ write_id i"

definition read_ref :: "bytes \<Rightarrow> (bundle_ref \<times> bytes) result" where
  "read_ref input =
     rbind (read_varuint input) (\<lambda>(name_len, input).
     let name_len = unat name_len in
     if 512 < name_len \<or> length input < name_len
     then Inl (Corrupt ''bundle reference name is bad'')
     else
     let name = take name_len input; input = drop name_len input in
     if \<not> is_utf8 name then Inl (Corrupt ''bundle reference name is not UTF-8'')
     else rbind (read_id input) (\<lambda>(target, input). Inr (\<lparr>ref_name = name, ref_target = target\<rparr>, input)))"

definition write_ref :: "bundle_ref \<Rightarrow> bytes" where
  "write_ref r = write_varuint (of_nat (length (ref_name r))) @ ref_name r @ write_id (ref_target r)"

definition read_row :: "bytes \<Rightarrow> (table_row \<times> bytes) result" where
  "read_row input =
     rbind (read_kind ''object kind'' input) (\<lambda>(kind, input).
     rbind (read_id input) (\<lambda>(i, input).
     rbind (read_varuint input) (\<lambda>(offset, input).
     rbind (read_varuint input) (\<lambda>(len, input). Inr ((kind, i, offset, len), input)))))"

fun write_row :: "table_row \<Rightarrow> bytes" where
  "write_row (kind, i, offset, len) =
     write_kind kind @ write_id i @ write_varuint offset @ write_varuint len"

definition read_signature :: "bytes \<Rightarrow> (signature \<times> bytes) result" where
  "read_signature input =
     rbind (take_bytes (Truncated ''signature key id'') 8 input) (\<lambda>(key, input).
     rbind (take_bytes (Truncated ''signature'') 64 input) (\<lambda>(sig, input).
     Inr (\<lparr>sig_key = key, sig_bytes = sig\<rparr>, input)))"

definition write_signature :: "signature \<Rightarrow> bytes" where
  "write_signature s = sig_key s @ sig_bytes s"

definition valid_ref :: "bundle_ref \<Rightarrow> bool" where
  "valid_ref r \<longleftrightarrow> length (ref_name r) \<le> 512 \<and> is_utf8 (ref_name r) \<and> valid_id (ref_target r)"

definition valid_signature :: "signature \<Rightarrow> bool" where
  "valid_signature s \<longleftrightarrow> length (sig_key s) = 8 \<and> length (sig_bytes s) = 64"

fun valid_row :: "table_row \<Rightarrow> bool" where
  "valid_row (kind, i, _, _) \<longleftrightarrow> valid_kind kind \<and> valid_id i"

interpretation kind_codec: codec write_kind "read_kind what" valid_kind for what
proof unfold_locales
  fix k rest input
  show "valid_kind k \<Longrightarrow> read_kind what (write_kind k @ rest) = Inr (k, rest)"
    by (simp add: read_kind_def write_kind_def le32.dec_enc kind_from_tag_tag)
  assume "read_kind what input = Inr (k, rest)"
  then obtain tag where "take_le (Truncated what) 4 input = Inr (tag, rest)" "kind_from_tag tag = Some k"
    by (auto simp: read_kind_def rbind_eq_Inr ok_or_eq_Inr)
  then show "valid_kind k \<and> input = write_kind k @ rest"
    using le32.dec_sound kind_tag_from_tag by (fastforce simp: write_kind_def)
qed

interpretation ref_id: codec write_id read_id valid_id
  unfolding read_id_def by (rule id_codec.codec_axioms)

interpretation root_codec: codec write_root read_root "\<lambda>(k, i). valid_kind k \<and> valid_id i"
proof unfold_locales
  fix x :: "object_kind \<times> object_id" and rest input
  show "case x of (k, i) \<Rightarrow> valid_kind k \<and> valid_id i \<Longrightarrow> read_root (write_root x @ rest) = Inr (x, rest)"
    by (cases x) (simp add: read_root_def kind_codec.dec_enc ref_id.dec_enc)
  show "(case x of (k, i) \<Rightarrow> valid_kind k \<and> valid_id i) \<and> input = write_root x @ rest"
    if "read_root input = Inr (x, rest)"
    using that kind_codec.dec_sound ref_id.dec_sound by (fastforce simp: read_root_def rbind_eq_Inr)
qed

interpretation row_codec: codec write_row read_row valid_row
proof unfold_locales
  fix x :: table_row and rest input
  show "valid_row x \<Longrightarrow> read_row (write_row x @ rest) = Inr (x, rest)"
    by (cases x) (simp add: read_row_def kind_codec.dec_enc ref_id.dec_enc obj_varuint.dec_enc)
  assume "read_row input = Inr (x, rest)"
  then obtain k i off len r1 r2 r3 where x: "x = (k, i, off, len)"
      "read_kind ''object kind'' input = Inr (k, r1)" "read_id r1 = Inr (i, r2)"
      "read_varuint r2 = Inr (off, r3)" "read_varuint r3 = Inr (len, rest)"
    by (auto simp: read_row_def rbind_eq_Inr)
  then show "valid_row x \<and> input = write_row x @ rest"
    using kind_codec.dec_sound [OF x(2)] ref_id.dec_sound [OF x(3)]
      obj_varuint.dec_sound [OF x(4)] obj_varuint.dec_sound [OF x(5)] by simp
qed

interpretation signature_codec: codec write_signature read_signature valid_signature
proof unfold_locales
  fix x :: signature and rest input
  show "valid_signature x \<Longrightarrow> read_signature (write_signature x @ rest) = Inr (x, rest)"
    by (simp add: read_signature_def write_signature_def valid_signature_def)
  show "valid_signature x \<and> input = write_signature x @ rest" if "read_signature input = Inr (x, rest)"
    using that
    by (auto simp: read_signature_def write_signature_def valid_signature_def rbind_eq_Inr take_bytes_eq_Inr)
qed

interpretation ref_codec: codec write_ref read_ref valid_ref
proof unfold_locales
  fix x :: bundle_ref and rest input
  assume v: "valid_ref x"
  then have "unat (of_nat (length (ref_name x)) :: u64) = length (ref_name x)"
    by (simp add: valid_ref_def unsigned_of_nat take_bit_nat_eq_self)
  then show "read_ref (write_ref x @ rest) = Inr (x, rest)"
    using v by (simp add: read_ref_def write_ref_def valid_ref_def obj_varuint.dec_enc ref_id.dec_enc)
next
  fix x :: bundle_ref and rest input
  assume r: "read_ref input = Inr (x, rest)"
  then obtain n r1 where n: "read_varuint input = Inr (n, r1)"
    by (cases "read_varuint input") (auto simp: read_ref_def)
  then obtain t where t: "unat n \<le> 512" "unat n \<le> length r1" "is_utf8 (take (unat n) r1)"
      "read_id (drop (unat n) r1) = Inr (t, rest)" "x = \<lparr>ref_name = take (unat n) r1, ref_target = t\<rparr>"
    using r by (auto simp: read_ref_def rbind_eq_Inr Let_def not_less split: if_splits)
  then show "valid_ref x \<and> input = write_ref x @ rest"
    using obj_varuint.dec_sound [OF n] ref_id.dec_sound [OF t(4)]
    by (simp add: valid_ref_def write_ref_def) (metis append_assoc append_take_drop_id)
qed

end
