(* ===== verification/Bundle_File.thy ===== *)
theory Bundle_File
  imports Bundle_Format Object_Id
begin

text \<open>
  Sealing and opening a bundle file: \<^verbatim>\<open>seal\<close>, \<^verbatim>\<open>open_bytes\<close>, \<^verbatim>\<open>append_signature\<close> of
  \<^verbatim>\<open>core/cavs-object/src/bundle.rs\<close>, and the round trip between what is written and what is read.
\<close>

section \<open>Writing\<close>

definition footer_len :: nat where
  "footer_len = 8 + 32 + 32 + 8"

text \<open>Everything before the signature block.\<close>

definition bundle_content :: "u16 \<Rightarrow> u64 \<Rightarrow> (object_kind \<times> object_id) list \<Rightarrow> object_id list
    \<Rightarrow> bundle_ref list \<Rightarrow> table_row list \<Rightarrow> bytes \<Rightarrow> nat \<Rightarrow> bytes" where
  "bundle_content flags created_at roots prerequisites refs table stored raw_len =
     bundle_magic @ to_le 2 bundle_format @ to_le 2 flags @ to_le 8 created_at
     @ write_varuint (of_nat (length roots)) @ encode_all write_root roots
     @ write_varuint (of_nat (length prerequisites)) @ encode_all write_id prerequisites
     @ write_varuint (of_nat (length refs)) @ encode_all write_ref refs
     @ write_varuint (of_nat (length table)) @ encode_all write_row table
     @ to_le 8 (of_nat (length stored) :: u64) @ to_le 8 (of_nat raw_len :: u64) @ stored"

definition signature_block :: "signature list \<Rightarrow> bytes" where
  "signature_block sigs = write_varuint (of_nat (length sigs)) @ encode_all write_signature sigs"

definition seal :: "hash_fun \<Rightarrow> bytes \<Rightarrow> nat \<Rightarrow> bytes \<Rightarrow> bytes" where
  "seal blake3 body content_len content_checksum =
     (let body = body @ to_le 8 (of_nat content_len :: u64) @ content_checksum
      in body @ hash_chunk blake3 body @ bundle_magic)"

section \<open>Reading\<close>

definition bounded :: "u64 \<Rightarrow> nat \<Rightarrow> string \<Rightarrow> nat result" where
  "bounded v m what = (if m < unat v then Inl (TooLarge what (unat v) m) else Inr (unat v))"

text \<open>The footer: the body, the length of the signed region, and its checksum.\<close>

definition open_footer :: "hash_fun \<Rightarrow> bytes \<Rightarrow> (bytes \<times> nat \<times> bytes) result" where
  "open_footer blake3 raw =
     (if length raw < length bundle_magic + footer_len then Inl (Truncated ''bundle'')
      else if take 8 raw \<noteq> bundle_magic
      then Inl (Corrupt ''this file does not start like a bundle'')
      else
      let body = take (length raw - footer_len) raw; footer = drop (length raw - footer_len) raw in
      if drop (footer_len - 8) footer \<noteq> bundle_magic
      then Inl (Corrupt ''bundle does not end where a bundle ends; it is truncated or damaged'')
      else if hash_chunk blake3 (take (length raw - 40) raw) \<noteq> take 32 (drop 40 footer)
      then Inl (Corrupt ''bundle checksum does not match its contents'')
      else
      let content_len = unat (from_le (take 8 footer) :: u64);
          content_checksum = take 32 (drop 8 footer)
      in if length body < content_len
      then Inl (Corrupt ''bundle says its signed region runs past its own end'')
      else if hash_chunk blake3 (take content_len body) \<noteq> content_checksum
      then Inl (Corrupt ''bundle content checksum does not match what the signatures cover'')
      else Inr (body, content_len, content_checksum))"

definition read_payload :: "(bytes \<Rightarrow> nat \<Rightarrow> bytes result) \<Rightarrow> bundle_limits \<Rightarrow> u16 \<Rightarrow> bytes
    \<Rightarrow> ((u64 \<times> u64 \<times> bytes) \<times> bytes) result" where
  "read_payload unzip limits flags input =
     rbind (take_le (Truncated ''payload length'') 8 input) (\<lambda>(payload_len :: u64, input).
     rbind (take_le (Truncated ''payload raw length'') 8 input) (\<lambda>(payload_raw_len :: u64, input).
     if bl_max_payload_bytes limits < unat payload_raw_len
     then Inl (TooLarge ''bundle payload'' (unat payload_raw_len) (bl_max_payload_bytes limits))
     else if flags AND flag_zstd \<noteq> 0
       \<and> sat_mul64 (max (unat payload_len) 1) (bl_max_expansion_ratio limits) < unat payload_raw_len
     then Inl (Corrupt (''bundle claims '' @ decimal (unat payload_raw_len) @ '' bytes from ''
            @ decimal (unat payload_len) @ '' stored, past the ''
            @ decimal (bl_max_expansion_ratio limits) @ ''x expansion this reader accepts''))
     else if length input < unat payload_len then Inl (Truncated ''bundle payload'')
     else
     let stored = take (unat payload_len) input; rest = drop (unat payload_len) input in
     rbind (if flags AND flag_zstd \<noteq> 0 then unzip stored (unat payload_raw_len)
            else if payload_len \<noteq> payload_raw_len
            then Inl (Corrupt ''an uncompressed bundle disagrees with itself about its payload size'')
            else Inr stored) (\<lambda>payload.
     Inr ((payload_len, payload_raw_len, payload), rest))))"

definition read_signatures :: "bytes \<Rightarrow> signature list result" where
  "read_signatures rest =
     rbind (read_varuint rest) (\<lambda>(n, rest).
     rbind (bounded n 64 ''signatures'') (\<lambda>n.
     rbind (decode_n read_signature n rest) (\<lambda>(sigs, rest).
     if rest \<noteq> [] then Inl TrailingBytes else Inr sigs)))"

definition open_body :: "(bytes \<Rightarrow> nat \<Rightarrow> bytes result) \<Rightarrow> bundle_limits \<Rightarrow> bytes \<Rightarrow> bytes
    \<Rightarrow> opened_bundle result" where
  "open_body unzip limits content_checksum input =
     rbind (take_le (Truncated ''format version'') 2 input) (\<lambda>(format_version, input).
     if format_version \<noteq> bundle_format then Inl (UnsupportedFormat format_version)
     else
     rbind (take_le (Truncated ''flags'') 2 input) (\<lambda>(flags, input).
     if flags AND NOT flag_zstd \<noteq> 0
     then Inl (Corrupt (''bundle sets flag bits 0x'' @ hex_number (unat flags)
            @ '' this build does not understand''))
     else
     rbind (take_le (Truncated ''created_at'') 8 input) (\<lambda>(created_at, input).
     rbind (read_varuint input) (\<lambda>(n, input).
     rbind (bounded n (bl_max_roots limits) ''roots'') (\<lambda>root_count.
     rbind (decode_n read_root root_count input) (\<lambda>(roots, input).
     rbind (read_varuint input) (\<lambda>(n, input).
     rbind (bounded n (bl_max_objects limits) ''prerequisites'') (\<lambda>prerequisite_count.
     if length input < sat_mul64 prerequisite_count 33 then Inl (Truncated ''prerequisites'')
     else
     rbind (decode_n read_id prerequisite_count input) (\<lambda>(prerequisites, input).
     rbind (read_varuint input) (\<lambda>(n, input).
     rbind (bounded n (bl_max_refs limits) ''refs'') (\<lambda>ref_count.
     rbind (decode_n read_ref ref_count input) (\<lambda>(refs, input).
     rbind (read_varuint input) (\<lambda>(n, input).
     rbind (bounded n (bl_max_objects limits) ''objects'') (\<lambda>object_count.
     if length input < sat_mul64 object_count 39
     then Inl (Corrupt ''bundle object count is larger than the bytes that follow'')
     else
     rbind (decode_n read_row object_count input) (\<lambda>(table, input).
     rbind (read_payload unzip limits flags input) (\<lambda>((payload_len, payload_raw_len, payload), rest).
     rbind (read_signatures rest) (\<lambda>sigs.
     Inr \<lparr>ob_info = \<lparr>bi_format_version = format_version,
                       bi_compressed = (flags AND flag_zstd \<noteq> 0),
                       bi_created_at = created_at, bi_roots = roots,
                       bi_prerequisites = prerequisites, bi_refs = refs,
                       bi_object_count = length table, bi_payload_bytes = payload_len,
                       bi_payload_raw_bytes = payload_raw_len, bi_signatures = sigs\<rparr>,
          ob_table = table, ob_payload = payload,
          ob_content_checksum = content_checksum\<rparr>)))))))))))))))))"

definition open_bytes :: "hash_fun \<Rightarrow> (bytes \<Rightarrow> nat \<Rightarrow> bytes result) \<Rightarrow> bundle_limits \<Rightarrow> bytes
    \<Rightarrow> opened_bundle result" where
  "open_bytes blake3 unzip limits raw =
     rbind (open_footer blake3 raw) (\<lambda>(body, _, content_checksum).
     open_body unzip limits content_checksum (drop 8 body))"

text \<open>\<^verbatim>\<open>zstd_decompress\<close> over the library's decompressor \<open>zd\<close>, which may refuse with a message.\<close>

definition zstd_decompress :: "(bytes \<Rightarrow> nat \<Rightarrow> string + bytes) \<Rightarrow> bytes \<Rightarrow> nat \<Rightarrow> bytes result" where
  "zstd_decompress zd stored expected =
     rbind (map_err (\<lambda>e. Corrupt (''bundle payload will not decompress: '' @ e)) (zd stored expected)) (\<lambda>out.
     if length out \<noteq> expected
     then Inl (Corrupt (''bundle payload decompressed to '' @ decimal (length out) @ '' bytes, not the ''
            @ decimal expected @ '' it declared''))
     else Inr out)"

definition inspect_bundle :: "hash_fun \<Rightarrow> (bytes \<Rightarrow> nat \<Rightarrow> bytes result) \<Rightarrow> bundle_limits \<Rightarrow> bytes
    \<Rightarrow> bundle_info result" where
  "inspect_bundle blake3 unzip limits raw =
     rbind (open_bytes blake3 unzip limits raw) (\<lambda>b. Inr (ob_info b))"

definition bundle_content_checksum :: "hash_fun \<Rightarrow> (bytes \<Rightarrow> nat \<Rightarrow> bytes result) \<Rightarrow> bundle_limits
    \<Rightarrow> bytes \<Rightarrow> bytes result" where
  "bundle_content_checksum blake3 unzip limits raw =
     rbind (open_bytes blake3 unzip limits raw) (\<lambda>b. Inr (ob_content_checksum b))"

definition append_signature :: "hash_fun \<Rightarrow> (bytes \<Rightarrow> nat \<Rightarrow> bytes result) \<Rightarrow> bundle_limits
    \<Rightarrow> signature \<Rightarrow> bytes \<Rightarrow> bytes result" where
  "append_signature blake3 unzip limits signature raw =
     rbind (open_bytes blake3 unzip limits raw) (\<lambda>opened.
     let content_len = unat (from_le (take 8 (drop (length raw - footer_len) raw)) :: u64);
         body = take content_len raw;
         sigs = bi_signatures (ob_info opened)
     in if sig_key signature \<in> sig_key ` set sigs
        then Inl (Corrupt ''this bundle already carries a signature from that key'')
        else Inr (seal blake3 (body @ signature_block (sigs @ [signature])) content_len
                    (ob_content_checksum opened)))"

section \<open>The footer\<close>

lemma length_bundle_magic [simp]: "length bundle_magic = 8"
  by (simp add: bundle_magic_def)

lemma seal_parts:
  fixes body cs :: bytes and n :: nat
  assumes "\<forall>x. length (blake3 x) = 32" "length cs = 32"
  defines "file \<equiv> seal blake3 body n cs"
  shows "length file = length body + footer_len"
    "take (length file - footer_len) file = body"
    "drop (length file - footer_len) file = to_le 8 (of_nat n :: u64) @ cs
       @ blake3 (body @ to_le 8 (of_nat n :: u64) @ cs) @ bundle_magic"
    "take (length file - 40) file = body @ to_le 8 (of_nat n :: u64) @ cs"
proof -
  let ?head = "body @ to_le 8 (of_nat n :: u64) @ cs"
  have eq: "file = ?head @ blake3 ?head @ bundle_magic"
    by (simp add: file_def seal_def hash_chunk_def Let_def)
  then show len: "length file = length body + footer_len"
    using assms(1,2) by (simp add: footer_len_def)
  have n1: "length file - footer_len = length body" by (simp add: len)
  have n2: "length file - 40 = length ?head" using assms(2) by (simp add: len footer_len_def)
  show "take (length file - footer_len) file = body" unfolding n1 by (simp add: eq)
  show "drop (length file - footer_len) file = to_le 8 (of_nat n :: u64) @ cs @ blake3 ?head @ bundle_magic"
    unfolding n1 by (simp add: eq)
  show "take (length file - 40) file = ?head" unfolding n2 by (simp add: eq)
qed

lemma open_footer_seal:
  assumes hash: "hash_ok blake3" and magic: "take 8 body = bundle_magic" "8 \<le> length body"
    and n: "n \<le> length body" "n < 2 ^ 64"
  shows "open_footer blake3 (seal blake3 body n (blake3 (take n body))) = Inr (body, n, blake3 (take n body))"
proof -
  let ?cs = "blake3 (take n body)"
  let ?file = "seal blake3 body n ?cs" and ?le = "to_le 8 (of_nat n :: u64)"
  have h: "\<forall>x. length (blake3 x) = 32" using hash by (simp add: hash_ok_def)
  note p = seal_parts [of blake3 ?cs body n, OF h h [rule_format]]
  have t8: "take 8 ?file = bundle_magic"
    using magic by (simp add: seal_def Let_def take_append)
  have le: "unat (from_le ?le :: u64) = n"
    using n(2) from_to_le_full [of 8 "of_nat n :: u64"]
    by (simp add: unsigned_of_nat take_bit_nat_eq_self)
  have f: "drop (footer_len - 8) (?le @ ?cs @ blake3 (body @ ?le @ ?cs) @ bundle_magic) = bundle_magic"
    "take 32 (drop 40 (?le @ ?cs @ blake3 (body @ ?le @ ?cs) @ bundle_magic)) = blake3 (body @ ?le @ ?cs)"
    "take 8 (?le @ ?cs @ blake3 (body @ ?le @ ?cs) @ bundle_magic) = ?le"
    "take 32 (drop 8 (?le @ ?cs @ blake3 (body @ ?le @ ?cs) @ bundle_magic)) = ?cs"
    using h by (simp_all add: footer_len_def)
  have "\<not> length ?file < length bundle_magic + footer_len" using magic(2) by (simp add: p(1))
  then show ?thesis
    unfolding open_footer_def Let_def t8 p(2,3,4) f le hash_chunk_def
    using n(1) by simp
qed

section \<open>The body\<close>

definition bundle_fits :: "(bytes \<Rightarrow> nat \<Rightarrow> bytes result) \<Rightarrow> bundle_limits \<Rightarrow> bool
    \<Rightarrow> (object_kind \<times> object_id) list \<Rightarrow> object_id list \<Rightarrow> bundle_ref list \<Rightarrow> table_row list
    \<Rightarrow> bytes \<Rightarrow> bytes \<Rightarrow> signature list \<Rightarrow> bool" where
  "bundle_fits unzip limits compressed roots prerequisites refs table stored payload sigs \<longleftrightarrow>
     (\<forall>(k, i) \<in> set roots. valid_kind k \<and> valid_id i) \<and> (\<forall>i \<in> set prerequisites. valid_id i)
     \<and> (\<forall>r \<in> set refs. valid_ref r) \<and> (\<forall>row \<in> set table. valid_row row)
     \<and> (\<forall>s \<in> set sigs. valid_signature s)
     \<and> length roots \<le> bl_max_roots limits \<and> length prerequisites \<le> bl_max_objects limits
     \<and> length refs \<le> bl_max_refs limits \<and> length table \<le> bl_max_objects limits \<and> length sigs \<le> 64
     \<and> length payload \<le> bl_max_payload_bytes limits
     \<and> length roots < 2 ^ 64 \<and> length prerequisites < 2 ^ 64 \<and> length refs < 2 ^ 64
     \<and> length table < 2 ^ 64 \<and> length stored < 2 ^ 64 \<and> length payload < 2 ^ 64
     \<and> (if compressed then unzip stored (length payload) = Inr payload
           \<and> length payload \<le> sat_mul64 (max (length stored) 1) (bl_max_expansion_ratio limits)
        else stored = payload)"

lemma unat_of_length: "n < 2 ^ 64 \<Longrightarrow> unat (of_nat n :: u64) = n"
  by (simp add: unsigned_of_nat take_bit_nat_eq_self)

lemma bounded_length: "n < 2 ^ 64 \<Longrightarrow> n \<le> m \<Longrightarrow> bounded (of_nat n) m what = Inr n"
  by (simp add: bounded_def unat_of_length)

lemma flag_bits: "flag_zstd \<noteq> 0" "(flag_zstd AND flag_zstd) \<noteq> 0" "(0 :: u16) AND flag_zstd = 0"
  "flag_zstd AND NOT flag_zstd = 0" "(0 :: u16) AND NOT flag_zstd = 0"
  by (simp_all add: flag_zstd_def)

lemma length_write_row: "valid_row r \<Longrightarrow> 39 \<le> length (write_row r)"
proof (induction r)
  case (fields k i off len)
  then show ?case
    using write_varuint_nonempty [of off] write_varuint_nonempty [of len]
    by (cases "write_varuint off"; cases "write_varuint len")
      (auto simp: write_kind_def length_write_id)
qed

lemma length_encode_rows:
  "\<forall>r \<in> set table. valid_row r \<Longrightarrow> 39 * length table \<le> length (encode_all write_row table)"
  by (induction table) (use length_write_row in fastforce)+

lemma sat_mul_le_general: "k * n \<le> m \<Longrightarrow> sat_mul64 n k \<le> m"
  by (simp add: sat_mul64_def mult.commute min.coboundedI1)

lemma read_payload_write:
  assumes "bundle_fits unzip limits compressed roots prerequisites refs table stored payload sigs"
  shows "read_payload unzip limits (if compressed then flag_zstd else 0)
      (to_le 8 (of_nat (length stored) :: u64) @ to_le 8 (of_nat (length payload) :: u64) @ stored @ rest)
    = Inr ((of_nat (length stored), of_nat (length payload), payload), rest)"
proof -
  have lens: "length stored < 2 ^ 64" "length payload < 2 ^ 64" "length payload \<le> bl_max_payload_bytes limits"
    using assms by (simp_all add: bundle_fits_def)
  note un = unat_of_length [OF lens(1)] unat_of_length [OF lens(2)]
  have le: "take_le e 8 (to_le 8 x @ r) = Inr (x, r)" for e :: object_error and x :: u64 and r
    by (rule le64.dec_enc) simp
  show ?thesis
  proof (cases compressed)
    case True
    then have z: "unzip stored (length payload) = Inr payload"
      "\<not> sat_mul64 (max (length stored) 1) (bl_max_expansion_ratio limits) < length payload"
      using assms by (simp_all add: bundle_fits_def)
    show ?thesis using lens(3) True z by (simp add: read_payload_def le un flag_bits Let_def)
  next
    case False
    then have "stored = payload" using assms by (simp add: bundle_fits_def)
    then show ?thesis using lens(3) False un by (simp add: read_payload_def le flag_bits Let_def)
  qed
qed

lemma read_signature_block:
  assumes "\<forall>s \<in> set sigs. valid_signature s" "length sigs \<le> 64"
  shows "read_signatures (signature_block sigs) = Inr sigs"
proof -
  have "read_varuint (signature_block sigs) = Inr (of_nat (length sigs), encode_all write_signature sigs)"
    unfolding signature_block_def by (rule obj_varuint.dec_enc) simp
  moreover have "bounded (of_nat (length sigs)) 64 ''signatures'' = Inr (length sigs)"
    using assms(2) by (intro bounded_length) simp_all
  moreover have "decode_n read_signature (length sigs) (encode_all write_signature sigs) = Inr (sigs, [])"
    using signature_codec.dec_n_enc [OF assms(1), of "[]"] by simp
  ultimately show ?thesis by (simp add: read_signatures_def)
qed

lemma open_body_write:
  assumes fits: "bundle_fits unzip limits compressed roots prerequisites refs table stored payload sigs"
  defines "flags \<equiv> if compressed then flag_zstd else 0"
  shows "open_body unzip limits cs (drop 8
      (bundle_content flags created_at roots prerequisites refs table stored (length payload) @ signature_block sigs))
    = Inr \<lparr>ob_info = \<lparr>bi_format_version = bundle_format, bi_compressed = compressed,
                       bi_created_at = created_at, bi_roots = roots, bi_prerequisites = prerequisites,
                       bi_refs = refs, bi_object_count = length table,
                       bi_payload_bytes = of_nat (length stored),
                       bi_payload_raw_bytes = of_nat (length payload), bi_signatures = sigs\<rparr>,
          ob_table = table, ob_payload = payload, ob_content_checksum = cs\<rparr>"
proof -
  have v: "\<forall>x \<in> set roots. case x of (k, i) \<Rightarrow> valid_kind k \<and> valid_id i" "\<forall>i \<in> set prerequisites. valid_id i"
      "\<forall>r \<in> set refs. valid_ref r" "\<forall>row \<in> set table. valid_row row" "\<forall>s \<in> set sigs. valid_signature s"
      "length sigs \<le> 64"
    using fits by (simp_all add: bundle_fits_def)
  have b: "bounded (of_nat (length roots)) (bl_max_roots limits) w = Inr (length roots)"
      "bounded (of_nat (length prerequisites)) (bl_max_objects limits) w = Inr (length prerequisites)"
      "bounded (of_nat (length refs)) (bl_max_refs limits) w = Inr (length refs)"
      "bounded (of_nat (length table)) (bl_max_objects limits) w = Inr (length table)" for w
    using fits by (simp_all add: bundle_fits_def bounded_length)
  have le: "take_le e 2 (to_le 2 x @ r) = Inr (x, r)" "take_le e 8 (to_le 8 y @ r) = Inr (y, r)"
    for e :: object_error and x :: u16 and y :: u64 and r
    by (rule le16.dec_enc le64.dec_enc, simp)+
  have vu: "read_varuint (write_varuint n @ r) = Inr (n, r)" for n r
    by (rule obj_varuint.dec_enc) simp
  have room: "\<not> length (encode_all write_id prerequisites) + m < sat_mul64 (length prerequisites) 33"
      "\<not> length (encode_all write_row table) + m < sat_mul64 (length table) 39" for m
    using length_encode_ids [OF v(2)] length_encode_rows [OF v(4)]
    by (simp_all add: not_less sat_mul_le_general)
  have fl: "\<not> flags AND NOT flag_zstd \<noteq> 0" "(flags AND flag_zstd \<noteq> 0) = compressed"
    by (simp_all add: flags_def flag_bits)
  have d: "drop 8 (bundle_magic @ xs) = xs" for xs by simp
  show ?thesis
    unfolding bundle_content_def append_assoc d open_body_def le rbind_simps prod.case vu b
      root_codec.dec_n_enc [OF v(1)] ref_id.dec_n_enc [OF v(2)] ref_codec.dec_n_enc [OF v(3)]
      row_codec.dec_n_enc [OF v(4)]
    using fl room read_payload_write [OF fits, folded flags_def] read_signature_block [OF v(5,6)]
    by (simp add: le vu b root_codec.dec_n_enc [OF v(1)] ref_id.dec_n_enc [OF v(2)]
        ref_codec.dec_n_enc [OF v(3)] row_codec.dec_n_enc [OF v(4)])
qed

section \<open>A whole file\<close>

definition bundle_file :: "hash_fun \<Rightarrow> bytes \<Rightarrow> signature list \<Rightarrow> bytes" where
  "bundle_file blake3 content sigs =
     seal blake3 (content @ signature_block sigs) (length content) (blake3 content)"

lemma bundle_content_magic:
  "take 8 (bundle_content flags c roots pre refs table stored n @ rest) = bundle_magic"
  "8 \<le> length (bundle_content flags c roots pre refs table stored n @ rest)"
  by (simp_all add: bundle_content_def)

text \<open>
  The signed region is not compared with where the signatures start: any prefix of the body may be
  sealed as the signed region, and the file opens with the same contents.
\<close>

lemma open_sealed_prefix:
  fixes created_at :: u64
  assumes "hash_ok blake3"
    and fits: "bundle_fits unzip limits compressed roots prerequisites refs table stored payload sigs"
  defines "flags \<equiv> if compressed then flag_zstd else 0"
  defines "body \<equiv> bundle_content flags created_at roots prerequisites refs table stored (length payload)
      @ signature_block sigs"
  assumes n: "n \<le> length body" "n < 2 ^ 64"
  shows "open_bytes blake3 unzip limits (seal blake3 body n (blake3 (take n body)))
    = Inr \<lparr>ob_info = \<lparr>bi_format_version = bundle_format, bi_compressed = compressed,
                       bi_created_at = created_at, bi_roots = roots, bi_prerequisites = prerequisites,
                       bi_refs = refs, bi_object_count = length table,
                       bi_payload_bytes = of_nat (length stored),
                       bi_payload_raw_bytes = of_nat (length payload), bi_signatures = sigs\<rparr>,
          ob_table = table, ob_payload = payload, ob_content_checksum = blake3 (take n body)\<rparr>"
proof -
  have "open_footer blake3 (seal blake3 body n (blake3 (take n body))) = Inr (body, n, blake3 (take n body))"
    by (rule open_footer_seal [OF assms(1) _ _ n]) (simp_all only: body_def bundle_content_magic)
  then show ?thesis
    unfolding open_bytes_def by (simp add: body_def flags_def open_body_write [OF fits] del: drop_append)
qed

lemma open_bundle_file:
  fixes created_at :: u64
  assumes "hash_ok blake3"
    and fits: "bundle_fits unzip limits compressed roots prerequisites refs table stored payload sigs"
  defines "flags \<equiv> if compressed then flag_zstd else 0"
  defines "content \<equiv> bundle_content flags created_at roots prerequisites refs table stored (length payload)"
  assumes n: "length content < 2 ^ 64"
  shows "open_bytes blake3 unzip limits (bundle_file blake3 content sigs)
    = Inr \<lparr>ob_info = \<lparr>bi_format_version = bundle_format, bi_compressed = compressed,
                       bi_created_at = created_at, bi_roots = roots, bi_prerequisites = prerequisites,
                       bi_refs = refs, bi_object_count = length table,
                       bi_payload_bytes = of_nat (length stored),
                       bi_payload_raw_bytes = of_nat (length payload), bi_signatures = sigs\<rparr>,
          ob_table = table, ob_payload = payload, ob_content_checksum = blake3 content\<rparr>"
  using open_sealed_prefix [OF assms(1) fits, of "length content" created_at] n
  by (simp add: bundle_file_def content_def flags_def)

text \<open>Adding a signature keeps the content, and so the checksum every signature is over.\<close>

lemma append_signature_file:
  fixes created_at :: u64
  assumes "hash_ok blake3"
    and fits: "bundle_fits unzip limits compressed roots prerequisites refs table stored payload sigs"
  defines "flags \<equiv> if compressed then flag_zstd else 0"
  defines "content \<equiv> bundle_content flags created_at roots prerequisites refs table stored (length payload)"
  assumes n: "length content < 2 ^ 64" and fresh: "sig_key s \<notin> sig_key ` set sigs"
  shows "append_signature blake3 unzip limits s (bundle_file blake3 content sigs)
    = Inr (bundle_file blake3 content (sigs @ [s]))"
proof -
  let ?body = "content @ signature_block sigs"
  have h: "\<forall>x. length (blake3 x) = 32" using assms(1) by (simp add: hash_ok_def)
  note p = seal_parts [of blake3 "blake3 content" ?body "length content", OF h h [rule_format]]
  let ?raw = "bundle_file blake3 content sigs"
  have "drop (length ?raw - footer_len) ?raw = to_le 8 (of_nat (length content) :: u64) @ blake3 content
       @ blake3 (?body @ to_le 8 (of_nat (length content) :: u64) @ blake3 content) @ bundle_magic"
    unfolding bundle_file_def by (rule p(3))
  then have "take 8 (drop (length ?raw - footer_len) ?raw) = to_le 8 (of_nat (length content) :: u64)"
    by (simp only: take_append length_to_le) simp
  then have len: "unat (from_le (take 8 (drop (length ?raw - footer_len) ?raw)) :: u64) = length content"
    using n from_to_le_full [of 8 "of_nat (length content) :: u64"] by (simp add: unat_of_length)
  have "take (length content) ?raw = content"
    by (simp add: bundle_file_def seal_def Let_def)
  moreover have "seal blake3 (content @ signature_block (sigs @ [s])) (length content) (blake3 content)
      = bundle_file blake3 content (sigs @ [s])"
    by (simp add: bundle_file_def)
  ultimately show ?thesis
    using open_bundle_file [OF assms(1) fits, of created_at] n fresh
    unfolding append_signature_def
    by (simp add: content_def [symmetric] flags_def [symmetric] len Let_def)
qed

end
