(* ===== verification/Bundle.thy ===== *)
theory Bundle
  imports Bundle_File Store_Laws Have_Sets
begin

text \<open>
  Building, verifying and importing bundles: the rest of \<^verbatim>\<open>core/cavs-object/src/bundle.rs\<close>.  A store
  is used through its operations (\<open>get\<close>, \<open>lookup\<close>, \<open>has\<close>, \<open>put\<close>), so the import is a client of the
  contract \<open>content_store\<close>.
\<close>

section \<open>Creation\<close>

record bundle_options =
  bo_refs :: "bundle_ref list"
  bo_exclude_have :: "object_id set option"
  bo_walk :: "walk_options option"
  bo_compress :: bool
  bo_created_at :: "u64 option"

definition default_bundle_options :: bundle_options where
  "default_bundle_options = \<lparr>bo_refs = [], bo_exclude_have = None, bo_walk = None,
     bo_compress = False, bo_created_at = None\<rparr>"

definition with_refs :: "bundle_options \<Rightarrow> bundle_ref list \<Rightarrow> bundle_options" where
  "with_refs opts refs = opts\<lparr>bo_refs := refs\<rparr>"

definition excluding :: "bundle_options \<Rightarrow> object_id list \<Rightarrow> bundle_options" where
  "excluding opts ids = opts\<lparr>bo_exclude_have := Some (set ids)\<rparr>"

definition compressed :: "bundle_options \<Rightarrow> bundle_options" where
  "compressed opts = opts\<lparr>bo_compress := True\<rparr>"

record bundle_summary =
  bs_objects :: nat
  bs_payload_bytes :: nat
  bs_file_bytes :: nat
  bs_prerequisites :: nat

definition limits_for :: "stored_object \<Rightarrow> decode_limits" where
  "limits_for so = with_max_payload_len (max (length (so_bytes so)) 1) default_limits"

definition stored_dependencies :: "decode_limits \<Rightarrow> stored_object \<Rightarrow> object_id list result" where
  "stored_dependencies lim so = rbind (stored_envelope lim so) (\<lambda>e. Inr (env_deps e))"

text \<open>Which objects travel.\<close>

definition included_objects :: "graph_lookup \<Rightarrow> object_id list \<Rightarrow> bundle_options \<Rightarrow> object_id list result" where
  "included_objects lookup roots opts =
     (let w = requiring_every_object (case bo_walk opts of None \<Rightarrow> default_walk_options | Some w \<Rightarrow> w) in
      case bo_exclude_have opts of
        Some held \<Rightarrow> rbind (compute_missing lookup roots (have_exact held) w) (\<lambda>plan. Inr (plan_missing plan))
      | None \<Rightarrow> rbind (walk_reachable lookup roots w) (\<lambda>visits. Inr (map visit_id visits)))"

text \<open>
  The payload, the table with its offsets, and the prerequisites: the dependencies of included
  objects that are excluded and that the have-set claims.
\<close>

fun gather :: "(object_id \<Rightarrow> stored_object result) \<Rightarrow> object_id set option \<Rightarrow> object_id set \<Rightarrow> object_id list
    \<Rightarrow> bytes \<Rightarrow> (bytes \<times> table_row list \<times> object_id list) result" where
  "gather get held included [] payload = Inr (payload, [], [])"
| "gather get held included (i # is) payload =
     rbind (get i) (\<lambda>so.
     rbind (case held of
              None \<Rightarrow> Inr []
            | Some h \<Rightarrow> rbind (stored_dependencies (limits_for so) so) (\<lambda>deps.
                        Inr (filter (\<lambda>d. d \<notin> included \<and> d \<in> h) deps))) (\<lambda>pre.
     rbind (gather get held included is (payload @ so_bytes so)) (\<lambda>(whole, table, prerequisites).
     Inr (whole, (so_kind so, i, of_nat (length payload), of_nat (length (so_bytes so))) # table,
          pre @ prerequisites))))"

definition create_bundle :: "hash_fun \<Rightarrow> (bytes \<Rightarrow> bytes result) \<Rightarrow> (object_id \<Rightarrow> stored_object result)
    \<Rightarrow> graph_lookup \<Rightarrow> (object_kind \<times> object_id) list \<Rightarrow> bundle_options
    \<Rightarrow> (bytes \<times> bundle_summary) result" where
  "create_bundle blake3 squeeze get lookup roots opts =
     rbind (included_objects lookup (map snd roots) opts) (\<lambda>included.
     rbind (gather get (bo_exclude_have opts) (set included) included []) (\<lambda>(payload, table, pre).
     let prerequisites = remdups_adj (sort pre); raw_len = length payload in
     rbind (if bo_compress opts then squeeze payload else Inr payload) (\<lambda>stored.
     let flags = (if bo_compress opts then flag_zstd else 0);
         created_at = (case bo_created_at opts of None \<Rightarrow> 0 | Some t \<Rightarrow> t);
         content = bundle_content flags created_at roots prerequisites (bo_refs opts) table stored raw_len;
         file = seal blake3 (content @ write_varuint 0) (length content) (hash_chunk blake3 content)
     in Inr (file, \<lparr>bs_objects = length table, bs_payload_bytes = raw_len,
                    bs_file_bytes = length file, bs_prerequisites = length prerequisites\<rparr>))))"

section \<open>Verification\<close>

record bundle_verification =
  bv_info :: bundle_info
  bv_objects_verified :: nat
  bv_bytes_verified :: nat
  bv_unsatisfied_roots :: "object_id list"
  bv_dangling :: "object_id list"

definition is_complete :: "bundle_verification \<Rightarrow> bool" where
  "is_complete v \<longleftrightarrow> bv_unsatisfied_roots v = [] \<and> bv_dangling v = []"

type_synonym bundle_contents = "(object_id \<times> object_kind \<times> bytes) list"

text \<open>
  A slice of the payload by offset and length, as the code cuts it where nothing was checked before:
  an end that overflows or lies past the payload is a panic.
\<close>

definition payload_slice :: "bytes \<Rightarrow> u64 \<Rightarrow> u64 \<Rightarrow> bytes result" where
  "payload_slice payload offset len =
     (if 2 ^ 64 \<le> unat offset + unat len then Inl (Panicked ''attempt to add with overflow'')
      else if length payload < unat offset + unat len
      then Inl (Panicked ''range end index out of range for slice'')
      else Inr (take (unat len) (drop (unat offset) payload)))"

fun verify_rows :: "hash_fun \<Rightarrow> bytes \<Rightarrow> table_row list \<Rightarrow> bundle_contents \<Rightarrow> nat
    \<Rightarrow> (bundle_contents \<times> nat) result" where
  "verify_rows blake3 payload [] contents verified = Inr (contents, verified)"
| "verify_rows blake3 payload ((kind, i, offset, len) # rows) contents verified =
     (if 2 ^ 64 \<le> unat offset + unat len then Inl (Corrupt ''bundle table entry overflows'')
      else if length payload < unat offset + unat len
      then Inl (Corrupt (''bundle table points object '' @ id_to_hex i @ '' past the end of the payload''))
      else
      let piece = take (unat len) (drop (unat offset) payload);
          actual = compute_id blake3 kind piece
      in if actual \<noteq> i then Inl (IdMismatch (id_to_hex i) (id_to_hex actual))
      else (case map_of contents i of
              Some (kind', piece') \<Rightarrow>
                if kind' \<noteq> kind \<or> piece' \<noteq> piece
                then Inl (Corrupt (''bundle contains two different objects under '' @ id_to_hex i))
                else verify_rows blake3 payload rows contents verified
            | None \<Rightarrow>
                verify_rows blake3 payload rows (insort_key fst (i, kind, piece) contents)
                  (verified + unat len)))"

fun find_dangling :: "decode_limits \<Rightarrow> object_id set \<Rightarrow> bundle_contents \<Rightarrow> object_id list result" where
  "find_dangling lim known [] = Inr []"
| "find_dangling lim known ((i, kind, piece) # contents) =
     rbind (map_err (\<lambda>e. Corrupt (''object '' @ id_to_hex i @ '' in bundle: '' @ render_error e))
              (envelope_decode kind piece lim)) (\<lambda>e.
     rbind (find_dangling lim known contents) (\<lambda>dangling.
     Inr (filter (\<lambda>d. d \<notin> known) (env_deps e) @ dangling)))"

definition verify_open :: "hash_fun \<Rightarrow> bundle_limits \<Rightarrow> opened_bundle \<Rightarrow> bundle_verification result" where
  "verify_open blake3 limits b =
     rbind (verify_rows blake3 (ob_payload b) (ob_table b) [] 0) (\<lambda>(contents, verified).
     let known = fst ` set contents \<union> set (bi_prerequisites (ob_info b)) in
     rbind (find_dangling (bl_objects limits) known contents) (\<lambda>dangling.
     Inr \<lparr>bv_info = ob_info b, bv_objects_verified = length contents, bv_bytes_verified = verified,
          bv_unsatisfied_roots =
            map snd (filter (\<lambda>(_, i). i \<notin> known) (bi_roots (ob_info b))),
          bv_dangling = remdups_adj (sort dangling)\<rparr>))"

definition verify_bundle :: "hash_fun \<Rightarrow> (bytes \<Rightarrow> nat \<Rightarrow> bytes result) \<Rightarrow> bundle_limits \<Rightarrow> bytes
    \<Rightarrow> bundle_verification result" where
  "verify_bundle blake3 unzip limits raw =
     rbind (open_bytes blake3 unzip limits raw) (verify_open blake3 limits)"

section \<open>Import\<close>

record import_report =
  ir_objects_added :: nat
  ir_objects_already_present :: nat
  ir_bytes_added :: nat
  ir_missing_prerequisites :: "object_id list"
  ir_refs :: "bundle_ref list"

definition import_is_complete :: "import_report \<Rightarrow> bool" where
  "import_is_complete r \<longleftrightarrow> ir_missing_prerequisites r = []"

fun import_rows :: "('s \<Rightarrow> object_id \<Rightarrow> bool) \<Rightarrow> ('env \<Rightarrow> object_kind \<Rightarrow> bytes \<Rightarrow> 's \<Rightarrow> 's \<times> object_id result)
    \<Rightarrow> (nat \<Rightarrow> 'env) \<Rightarrow> nat \<Rightarrow> bytes \<Rightarrow> table_row list \<Rightarrow> 's \<Rightarrow> import_report \<Rightarrow> 's \<times> import_report result" where
  "import_rows has put env n payload [] s rep = (s, Inr rep)"
| "import_rows has put env n payload ((kind, i, offset, len) # rows) s rep =
     (case payload_slice payload offset len of
        Inl e \<Rightarrow> (s, Inl e)
      | Inr piece \<Rightarrow>
          if has s i
          then import_rows has put env (n + 1) payload rows s
                 (rep\<lparr>ir_objects_already_present := ir_objects_already_present rep + 1\<rparr>)
          else (case put (env n) kind piece s of
                  (s, Inl e) \<Rightarrow> (s, Inl e)
                | (s, Inr _) \<Rightarrow>
                    import_rows has put env (n + 1) payload rows s
                      (rep\<lparr>ir_objects_added := ir_objects_added rep + 1,
                           ir_bytes_added := ir_bytes_added rep + unat len\<rparr>)))"

definition import_opened :: "('s \<Rightarrow> object_id \<Rightarrow> bool) \<Rightarrow> ('env \<Rightarrow> object_kind \<Rightarrow> bytes \<Rightarrow> 's \<Rightarrow> 's \<times> object_id result)
    \<Rightarrow> (nat \<Rightarrow> 'env) \<Rightarrow> opened_bundle \<Rightarrow> 's \<Rightarrow> 's \<times> import_report result" where
  "import_opened has put env b s =
     import_rows has put env 0 (ob_payload b) (ob_table b) s
       \<lparr>ir_objects_added = 0, ir_objects_already_present = 0, ir_bytes_added = 0,
        ir_missing_prerequisites = filter (\<lambda>i. \<not> has s i) (bi_prerequisites (ob_info b)),
        ir_refs = bi_refs (ob_info b)\<rparr>"

definition import_bundle :: "hash_fun \<Rightarrow> (bytes \<Rightarrow> nat \<Rightarrow> bytes result) \<Rightarrow> bundle_limits
    \<Rightarrow> ('s \<Rightarrow> object_id \<Rightarrow> bool) \<Rightarrow> ('env \<Rightarrow> object_kind \<Rightarrow> bytes \<Rightarrow> 's \<Rightarrow> 's \<times> object_id result)
    \<Rightarrow> (nat \<Rightarrow> 'env) \<Rightarrow> bytes \<Rightarrow> 's \<Rightarrow> 's \<times> import_report result" where
  "import_bundle blake3 unzip limits has put env raw s =
     (case open_bytes blake3 unzip limits raw of
        Inl e \<Rightarrow> (s, Inl e)
      | Inr b \<Rightarrow>
          (case verify_open blake3 limits b of
             Inl e \<Rightarrow> (s, Inl e)
           | Inr v \<Rightarrow>
               if bv_dangling v \<noteq> []
               then (s, Inl (Corrupt (''bundle references '' @ decimal (length (bv_dangling v))
                       @ '' objects it neither contains nor declares as prerequisites'')))
               else import_opened has put env b s))"

fun find_row :: "hash_fun \<Rightarrow> bytes \<Rightarrow> object_id \<Rightarrow> table_row list \<Rightarrow> stored_object option result" where
  "find_row blake3 payload i [] = Inr None"
| "find_row blake3 payload i ((kind, entry, offset, len) # rows) =
     (if entry \<noteq> i then find_row blake3 payload i rows
      else
      rbind (payload_slice payload offset len) (\<lambda>bs.
      let actual = compute_id blake3 kind bs in
      if actual \<noteq> i then Inl (IdMismatch (id_to_hex i) (id_to_hex actual))
      else Inr (Some \<lparr>so_id = i, so_kind = kind, so_bytes = bs\<rparr>)))"

definition read_from_bundle :: "hash_fun \<Rightarrow> (bytes \<Rightarrow> nat \<Rightarrow> bytes result) \<Rightarrow> bundle_limits \<Rightarrow> bytes
    \<Rightarrow> object_id \<Rightarrow> stored_object option result" where
  "read_from_bundle blake3 unzip limits raw i =
     rbind (open_bytes blake3 unzip limits raw) (\<lambda>b. find_row blake3 (ob_payload b) i (ob_table b))"

end
