(* ===== verification/Bundle_Laws.thy ===== *)
theory Bundle_Laws
  imports Bundle
begin

text \<open>
  What verification and import of bundles guarantee.  The import is a client of the store's
  contract: its lemmas are proved in \<open>content_store\<close>, and in the extension \<open>bounded_store\<close> for a
  store that refuses only objects over its size limit.
\<close>

section \<open>Verified rows\<close>

definition row_piece :: "bytes \<Rightarrow> table_row \<Rightarrow> bytes" where
  "row_piece payload row = (case row of (_, _, offset, len) \<Rightarrow> take (unat len) (drop (unat offset) payload))"

fun row_id :: "table_row \<Rightarrow> object_id" where
  "row_id (_, i, _, _) = i"

fun row_kind :: "table_row \<Rightarrow> object_kind" where
  "row_kind (k, _, _, _) = k"

fun row_in :: "bytes \<Rightarrow> table_row \<Rightarrow> bool" where
  "row_in payload (_, _, offset, len) \<longleftrightarrow> unat offset + unat len \<le> length payload
     \<and> unat offset + unat len < 2 ^ 64"

definition good_row :: "hash_fun \<Rightarrow> bytes \<Rightarrow> table_row \<Rightarrow> bool" where
  "good_row blake3 payload row \<longleftrightarrow> row_in payload row
     \<and> compute_id blake3 (row_kind row) (row_piece payload row) = row_id row"

lemma row_piece_simps [simp]:
  "row_piece payload (k, i, offset, len) = take (unat len) (drop (unat offset) payload)"
  by (simp add: row_piece_def)

lemma payload_slice_row:
  "row_in payload (k, i, offset, len) \<Longrightarrow>
     payload_slice payload offset len = Inr (row_piece payload (k, i, offset, len))"
  by (simp add: payload_slice_def)

lemma map_of_insort_new:
  "fst p \<notin> fst ` set c \<Longrightarrow> map_of (insort_key fst p c) = (map_of c)(fst p \<mapsto> snd p)"
  by (induction c) (auto simp: fun_eq_iff)

lemma verify_rows_step:
  assumes "verify_rows blake3 payload (row # rows) contents v = Inr (contents', v')"
  obtains (again) "good_row blake3 payload row"
      "map_of contents (row_id row) = Some (row_kind row, row_piece payload row)"
      "verify_rows blake3 payload rows contents v = Inr (contents', v')"
  | (first) w where "good_row blake3 payload row" "map_of contents (row_id row) = None"
      "verify_rows blake3 payload rows
         (insort_key fst (row_id row, row_kind row, row_piece payload row) contents) w = Inr (contents', v')"
proof -
  obtain k i off len where row: "row = (k, i, off, len)" by (cases row) auto
  have sizes: "\<not> 2 ^ 64 \<le> unat off + unat len" "\<not> length payload < unat off + unat len"
      "compute_id blake3 k (take (unat len) (drop (unat off) payload)) = i"
    using assms by (auto simp: row Let_def split: if_splits)
  then have "good_row blake3 payload row" by (simp add: good_row_def row)
  with assms sizes show thesis
    by (cases "map_of contents i") (auto simp: row Let_def intro: again first split: if_splits)
qed

lemma verify_rows_ok:
  assumes "verify_rows blake3 payload rows contents v = Inr (contents', v')"
  shows "(\<forall>row \<in> set rows. good_row blake3 payload row
        \<and> map_of contents' (row_id row) = Some (row_kind row, row_piece payload row))
    \<and> fst ` set contents' = fst ` set contents \<union> row_id ` set rows
    \<and> (\<forall>i x. map_of contents i = Some x \<longrightarrow> map_of contents' i = Some x)"
  using assms
proof (induction rows arbitrary: contents v)
  case (Cons row rows)
  from Cons.prems show ?case
  proof (cases rule: verify_rows_step)
    case again
    then have "row_id row \<in> fst ` set contents" by (metis domI dom_map_of_conv_image_fst)
    with again Cons.IH [OF again(3)] show ?thesis by auto
  next
    case (first w)
    let ?new = "insort_key fst (row_id row, row_kind row, row_piece payload row) contents"
    have "row_id row \<notin> fst ` set contents" using first(2) by (simp add: map_of_eq_None_iff)
    then have "map_of ?new = (map_of contents)(row_id row \<mapsto> (row_kind row, row_piece payload row))"
      using map_of_insort_new [of "(row_id row, row_kind row, row_piece payload row)" contents] by simp
    moreover have "fst ` set ?new = insert (row_id row) (fst ` set contents)"
      by (simp add: set_insort_key)
    ultimately show ?thesis
      using first(1,2) Cons.IH [OF first(3)] by (auto; metis option.distinct(1))
  qed
qed simp

lemma verify_rows_succeeds:
  assumes "\<forall>row \<in> set rows. good_row blake3 payload row" "distinct (map row_id rows)"
    and "row_id ` set rows \<inter> fst ` set contents = {}"
  shows "\<exists>contents' v'. verify_rows blake3 payload rows contents v = Inr (contents', v')
    \<and> set contents' = set contents \<union> (\<lambda>row. (row_id row, row_kind row, row_piece payload row)) ` set rows"
  using assms
proof (induction rows arbitrary: contents v)
  case (Cons row rows)
  obtain k i off len where row: "row = (k, i, off, len)" by (cases row) auto
  have good: "good_row blake3 payload row" and fresh: "map_of contents i = None"
    using Cons.prems(1,3) by (auto simp: row map_of_eq_None_iff)
  let ?new = "insort_key fst (i, k, row_piece payload row) contents"
  obtain contents' v' where
      "verify_rows blake3 payload rows ?new (v + unat len) = Inr (contents', v')"
      "set contents' = set ?new \<union> (\<lambda>row. (row_id row, row_kind row, row_piece payload row)) ` set rows"
    using Cons.IH [of ?new "v + unat len"] Cons.prems by (auto simp: row set_insort_key)
  then show ?case
    using good fresh by (auto simp: row good_row_def Let_def set_insort_key)
qed simp

lemma find_dangling_ok:
  assumes "find_dangling lim known contents = Inr dangling" "(i, k, piece) \<in> set contents"
  shows "\<exists>e. envelope_decode k piece lim = Inr e \<and> set (env_deps e) \<subseteq> known \<union> set dangling"
  using assms
proof (induction contents arbitrary: dangling)
  case (Cons x contents)
  obtain j l p where x: "x = (j, l, p)" by (cases x) auto
  from Cons.prems(1) obtain e rest where
      "envelope_decode l p lim = Inr e" "find_dangling lim known contents = Inr rest"
      "dangling = filter (\<lambda>d. d \<notin> known) (env_deps e) @ rest"
    by (auto simp: x rbind_eq_Inr map_err_eq_Inr)
  then show ?case using Cons.IH [of rest] Cons.prems(2) by (fastforce simp: x)
qed simp

lemma find_dangling_none:
  assumes "\<forall>(i, k, piece) \<in> set contents. \<exists>e. envelope_decode k piece lim = Inr e \<and> set (env_deps e) \<subseteq> known"
  shows "find_dangling lim known contents = Inr []"
  using assms by (induction contents) (fastforce simp: filter_empty_conv)+

section \<open>Import\<close>

context content_store begin

text \<open>An import of good rows keeps what was there, and leaves every row's object in the store.\<close>

lemma import_rows_ok:
  assumes "import_rows has put env n payload rows s rep = (s', Inr rep')" "ok s"
    and "\<forall>row \<in> set rows. good_row blake3 payload row \<and> valid_kind (row_kind row)"
  shows "ok s' \<and> (\<forall>row \<in> set rows. has s' (row_id row))
    \<and> (\<forall>j. has s j \<longrightarrow> has s' j \<and> get s' j = get s j)
    \<and> (\<forall>j. has s' j \<longrightarrow> has s j \<or> j \<in> row_id ` set rows)
    \<and> ir_missing_prerequisites rep' = ir_missing_prerequisites rep
    \<and> ir_objects_added rep' + ir_objects_already_present rep'
        = ir_objects_added rep + ir_objects_already_present rep + length rows"
  using assms
proof (induction rows arbitrary: n s rep)
  case Nil
  then show ?case by simp
next
  case (Cons row rows)
  obtain k i off len where row: "row = (k, i, off, len)" by (cases row) auto
  have slice: "payload_slice payload off len = Inr (row_piece payload row)"
    and id: "compute_id blake3 k (row_piece payload row) = i" and k: "valid_kind k"
    using Cons.prems(3) payload_slice_row [of payload k i off len] by (auto simp: good_row_def row)
  have rest: "\<forall>row \<in> set rows. good_row blake3 payload row \<and> valid_kind (row_kind row)"
    using Cons.prems(3) by simp
  show ?case
  proof (cases "has s i")
    case True
    let ?rep = "rep\<lparr>ir_objects_already_present := ir_objects_already_present rep + 1\<rparr>"
    have "import_rows has put env (n + 1) payload rows s ?rep = (s', Inr rep')"
      using Cons.prems(1) True slice by (simp add: row)
    from Cons.IH [OF this Cons.prems(2) rest] True show ?thesis by (auto simp: row)
  next
    case False
    obtain s1 r1 where p: "put (env n) k (row_piece payload row) s = (s1, r1)" by fastforce
    let ?rep = "rep\<lparr>ir_objects_added := ir_objects_added rep + 1,
                    ir_bytes_added := ir_bytes_added rep + unat len\<rparr>"
    obtain j where r1: "r1 = Inr j"
      and run: "import_rows has put env (n + 1) payload rows s1 ?rep = (s', Inr rep')"
      using Cons.prems(1) False slice p by (cases r1) (auto simp: row)
    have p': "put (env n) k (row_piece payload row) s = (s1, Inr i)"
      using p r1 put_id [of "env n" k "row_piece payload row" s s1 j] id by simp
    have "ok s1" by (rule put_ok [OF Cons.prems(2) k p])
    note IH = Cons.IH [OF run this rest]
    have "has s' i" using IH put_has [OF p'] by blast
    moreover have "\<And>j. has s' j \<Longrightarrow> has s j \<or> j = i \<or> j \<in> row_id ` set rows"
      using IH put_only [OF p'] id by blast
    moreover have "\<And>j. has s j \<Longrightarrow> has s' j \<and> get s' j = get s j"
      using IH put_frame [OF _ p'] by metis
    ultimately show ?thesis using IH by (auto simp: row)
  qed
qed

end

text \<open>A store that accepts every object up to a size it does not change.\<close>

locale bounded_store = content_store +
  fixes cap :: "'a \<Rightarrow> object_kind \<Rightarrow> nat" and fine :: "'b \<Rightarrow> bool"
  assumes put_accepts: "fine env \<Longrightarrow> length b \<le> cap s k \<Longrightarrow> \<exists>s' i. put env k b s = (s', Inr i)"
    and put_cap: "put env k b s = (s', r) \<Longrightarrow> cap s' = cap s"
    and put_refused: "put env k b s = (s', Inl e) \<Longrightarrow> has s' j = has s j \<and> get s' j = get s j"
begin

lemma import_rows_total:
  assumes "\<forall>row \<in> set rows. row_in payload row \<and> length (row_piece payload row) \<le> cap s (row_kind row)"
    and "\<forall>n. fine (env n)"
  shows "\<exists>s' rep'. import_rows has put env n payload rows s rep = (s', Inr rep')"
  using assms
proof (induction rows arbitrary: n s rep)
  case (Cons row rows)
  obtain k i off len where row: "row = (k, i, off, len)" by (cases row) auto
  have slice: "payload_slice payload off len = Inr (row_piece payload row)"
    using Cons.prems payload_slice_row [of payload k i off len] by (auto simp: row)
  show ?case
  proof (cases "has s i")
    case True
    then show ?thesis using Cons slice by (simp add: row)
  next
    case False
    obtain s1 j where p: "put (env n) k (row_piece payload row) s = (s1, Inr j)"
      using put_accepts [of "env n" "row_piece payload row" s k] Cons.prems by (auto simp: row)
    have "cap s1 = cap s" by (rule put_cap [OF p])
    then show ?thesis using Cons False slice p by (simp add: row)
  qed
qed simp

end

interpretation fs_bounded: bounded_store blake3 "store_ok blake3"
    "\<lambda>s i. file_at (snd s) i \<noteq> None" "\<lambda>s. get_object blake3 (snd s)" "fs_put blake3"
    "\<lambda>s k. max_len_for (h_limits (fst s)) k" "\<lambda>env. put_io env = WriteDone"
  for blake3
proof unfold_locales
  fix s s' :: "handle \<times> object_dir" and b k env r e j
  show "put_io env = WriteDone \<Longrightarrow> length b \<le> max_len_for (h_limits (fst s)) k \<Longrightarrow>
      \<exists>s' i. fs_put blake3 env k b s = (s', Inr i)"
    by (cases s)
      (auto simp: fs_put_def put_object_def put_begin_def put_publish_def Let_def update_conv')
  show "(file_at (snd s') j \<noteq> None) = (file_at (snd s) j \<noteq> None)
      \<and> get_object blake3 (snd s') j = get_object blake3 (snd s) j"
    if "fs_put blake3 env k b s = (s', Inl e)"
    using that by (cases rule: fs_put_cases) (auto intro!: get_object_file)
  show "(\<lambda>k. max_len_for (h_limits (fst s')) k) = (\<lambda>k. max_len_for (h_limits (fst s)) k)"
    if "fs_put blake3 env k b s = (s', r)"
  proof -
    obtain h d where s: "s = (h, d)" by fastforce
    have "put_object blake3 (fst env) (fst (snd env)) (put_io env) k b (h, d) = (s', r)"
      using that by (simp add: fs_put_def s)
    then show ?thesis by (cases rule: put_object_cases) (auto simp: s)
  qed
qed

end
