(* ===== verification/Exchange.thy ===== *)
theory Exchange
  imports Bundle_Laws
begin

text \<open>
  From one store to another: what is created from a store, opened, verified and imported leaves the
  receiver with the graph.
\<close>

lemma gather_all:
  assumes "gather get None included ids payload = Inr (whole, table, pre)"
  shows "pre = [] \<and> map row_id table = ids \<and> (\<exists>rest. whole = payload @ rest)
    \<and> (length whole < 2 ^ 64 \<longrightarrow> (\<forall>row \<in> set table. row_in whole row
         \<and> (\<exists>so. get (row_id row) = Inr so \<and> row_kind row = so_kind so \<and> row_piece whole row = so_bytes so)))"
  using assms
proof (induction ids arbitrary: payload whole table pre)
  case (Cons i ids)
  from Cons.prems obtain so table' pre' where so: "get i = Inr so"
      "gather get None included ids (payload @ so_bytes so) = Inr (whole, table', pre')"
    and out: "table = (so_kind so, i, of_nat (length payload), of_nat (length (so_bytes so))) # table'"
      "pre = pre'"
    by (auto simp: rbind_eq_Inr)
  note IH = Cons.IH [OF so(2)]
  then obtain rest where rest: "whole = payload @ so_bytes so @ rest" by auto
  have "row_in whole (so_kind so, i, of_nat (length payload), of_nat (length (so_bytes so)))
      \<and> row_piece whole (so_kind so, i, of_nat (length payload), of_nat (length (so_bytes so))) = so_bytes so"
    if "length whole < 2 ^ 64"
    using that rest unat_of_length [of "length payload"] unat_of_length [of "length (so_bytes so)"]
    by simp
  then show ?case using IH so(1) rest by (auto simp: out)
qed simp

lemma get_object_valid_kind:
  "get_object blake3 d i = Inr so \<Longrightarrow> valid_kind (so_kind so)"
  using kind_tag_from_tag
  by (fastforce simp: get_object_def read_loose_def parse_loose_def rbind_eq_Inr ok_or_eq_Inr Let_def
      split: option.splits if_splits)

text \<open>The node a store reports for a whole object is the one its envelope describes.\<close>

lemma store_lookup_node:
  assumes "dir_ok blake3 d" "store_lookup h d i = Inr (Some n)"
  shows "\<exists>so. get_object blake3 d i = Inr so \<and> node_kind n = so_kind so
    \<and> (if is_payload (so_kind so) then node_deps n = []
       else \<exists>e. envelope_decode (so_kind so) (so_bytes so) (h_limits h) = Inr e \<and> node_deps n = env_deps e)"
proof -
  obtain f where f: "file_at d i = Some f" using assms(2) by (auto simp: store_lookup_def split: option.splits)
  obtain k b where g: "get_object blake3 d i = Inr \<lparr>so_id = i, so_kind = k, so_bytes = b\<rparr>"
      "valid_kind k" "lf_raw f = loose_header k @ b" "compute_id blake3 k b = i"
    by (rule get_object_complete [OF assms(1) f])
  have "parse_loose i (lf_raw f) = Inr (k, b)" by (simp add: g(3) parse_loose_header [OF g(2)])
  then show ?thesis
    using assms(2) f g(1) by (auto simp: store_lookup_def rbind_eq_Inr split: if_splits)
qed

lemma find_dangling_store:
  assumes ok: "dir_ok blake3 d" and walk: "walk_reachable (store_lookup h d) roots opts = Inr vs"
    and strict: "missing_is_error opts" "is_unrestricted (kinds opts)"
    and contents: "\<forall>(i, k, piece) \<in> set contents. i \<in> visit_id ` set vs
      \<and> get_object blake3 d i = Inr \<lparr>so_id = i, so_kind = k, so_bytes = piece\<rparr>
      \<and> (is_payload k \<longrightarrow> length piece \<le> max_len_for (h_limits h) k)"
    and known: "visit_id ` set vs \<subseteq> known"
  shows "find_dangling (h_limits h) known contents = Inr []"
proof (rule find_dangling_none, clarify)
  fix i k piece assume c: "(i, k, piece) \<in> set contents"
  then have so: "get_object blake3 d i = Inr \<lparr>so_id = i, so_kind = k, so_bytes = piece\<rparr>"
    and len: "is_payload k \<longrightarrow> length piece \<le> max_len_for (h_limits h) k"
    and i: "i \<in> visit_id ` set vs" using contents by auto
  note w = walk_reachable_closure [OF walk]
  obtain v where v: "v \<in> set vs" "i = visit_id v" using i by blast
  have "right_visit (store_lookup h d) opts v" using w(3) v(1) by blast
  then obtain n where n: "store_lookup h d i = Inr (Some n)"
    using strict(1) v(2) by (auto simp: right_visit_def)
  have adm: "admits (kinds opts) kd" for kd
    using strict(2) by (simp add: is_unrestricted_def admits_def)
  have ri: "reach (store_lookup h d) (kinds opts) (set roots) i" using w(1) i by blast
  have "reach (store_lookup h d) (kinds opts) (set roots) j" if "j \<in> set (node_deps n)" for j
    by (rule reach_child [OF ri]) (use that n adm in \<open>simp add: children_def\<close>)
  moreover have "\<not> filtered_out (store_lookup h d) (kinds opts) j" for j
    using adm by (simp add: filtered_out_def split: sum.splits option.splits)
  ultimately have deps: "set (node_deps n) \<subseteq> known" using w(1) known by blast
  show "\<exists>e. envelope_decode k piece (h_limits h) = Inr e \<and> set (env_deps e) \<subseteq> known"
  proof (cases "is_payload k")
    case True
    then show ?thesis using len by (simp add: envelope_decode_def Let_def)
  next
    case False
    then show ?thesis using store_lookup_node [OF ok n] so deps by auto
  qed
qed

text \<open>What a bundle must fit to be readable under the limits of its reader.\<close>

definition fits_reader :: "bundle_limits \<Rightarrow> decode_limits \<Rightarrow> (object_kind \<times> object_id) list
    \<Rightarrow> bundle_ref list \<Rightarrow> table_row list \<Rightarrow> bytes \<Rightarrow> bool" where
  "fits_reader limits lim roots refs table payload \<longleftrightarrow>
     (\<forall>(k, i) \<in> set roots. valid_kind k \<and> valid_id i) \<and> (\<forall>r \<in> set refs. valid_ref r)
     \<and> length roots \<le> bl_max_roots limits \<and> length refs \<le> bl_max_refs limits
     \<and> length table \<le> bl_max_objects limits \<and> length payload \<le> bl_max_payload_bytes limits
     \<and> length roots < 2 ^ 64 \<and> length refs < 2 ^ 64 \<and> length table < 2 ^ 64
     \<and> bl_objects limits = lim"

lemma created_bundle_verifies:
  assumes ok: "dir_ok blake3 d" "hash_ok blake3"
    and walk: "walk_reachable (store_lookup h d) (map snd roots) opts = Inr vs"
      "missing_is_error opts" "is_unrestricted (kinds opts)"
    and gather: "gather (get_object blake3 d) None included (map visit_id vs) [] = Inr (payload, table, pre)"
    and fits: "fits_reader limits (h_limits h) roots refs table payload"
    and sizes: "\<forall>row \<in> set table. length (row_piece payload row) \<le> max_len_for (h_limits h) (row_kind row)"
    and bytes: "length (bundle_content 0 created roots [] refs table payload (length payload)) < 2 ^ 64"
  defines "file \<equiv> bundle_file blake3 (bundle_content 0 created roots [] refs table payload (length payload)) []"
  shows "\<exists>b v. open_bytes blake3 unzip limits file = Inr b \<and> verify_open blake3 limits b = Inr v
    \<and> ob_table b = table \<and> ob_payload b = payload \<and> bi_prerequisites (ob_info b) = []
    \<and> bi_roots (ob_info b) = roots \<and> is_complete v
    \<and> (\<forall>row \<in> set table. good_row blake3 payload row \<and> valid_kind (row_kind row))
    \<and> row_id ` set table = visit_id ` set vs"
proof -
  note w = walk_reachable_closure [OF walk(1)]
  have len: "length payload < 2 ^ 64" using bytes by (simp add: bundle_content_def)
  note g = gather_all [OF gather]
  have rows: "\<forall>row \<in> set table. row_in payload row \<and> (\<exists>so. get_object blake3 d (row_id row) = Inr so
      \<and> row_kind row = so_kind so \<and> row_piece payload row = so_bytes so)"
    and ids: "map row_id table = map visit_id vs" using g len by simp_all
  have idset: "row_id ` set table = visit_id ` set vs" using arg_cong [OF ids, of set] by simp
  have good: "\<forall>row \<in> set table. good_row blake3 payload row \<and> valid_kind (row_kind row)"
    using rows get_object_sound get_object_valid_kind by (fastforce simp: good_row_def)
  have vid: "valid_id (row_id row)" if "row \<in> set table" for row
  proof -
    have "compute_id blake3 (row_kind row) (row_piece payload row) = row_id row"
      using good that by (simp add: good_row_def)
    moreover have "valid_id (compute_id blake3 (row_kind row) (row_piece payload row))"
      using ok(2) by (intro valid_compute_id) (simp add: hash_ok_def)
    ultimately show ?thesis by simp
  qed
  have "valid_row row" if "row \<in> set table" for row
    using good vid [OF that] that by (cases row) auto
  then have "bundle_fits unzip limits False roots [] refs table payload payload []"
    using fits len by (simp add: fits_reader_def bundle_fits_def)
  from open_bundle_file [OF ok(2) this, of created] bytes
  obtain b where b: "open_bytes blake3 unzip limits file = Inr b" "ob_table b = table" "ob_payload b = payload"
      "bi_prerequisites (ob_info b) = []" "bi_roots (ob_info b) = roots"
    by (simp add: file_def)
  have "distinct (map row_id table)" using w(2) ids by simp
  then obtain contents verified where c: "verify_rows blake3 payload table [] 0 = Inr (contents, verified)"
      "set contents = (\<lambda>row. (row_id row, row_kind row, row_piece payload row)) ` set table"
    using verify_rows_succeeds [of table blake3 payload "[]" 0] good by auto
  have known: "fst ` set contents = visit_id ` set vs" by (simp add: c(2) image_image idset)
  have "find_dangling (h_limits h) (fst ` set contents) contents = Inr []"
  proof (rule find_dangling_store [OF ok(1) walk])
    show "\<forall>(i, k, piece) \<in> set contents. i \<in> visit_id ` set vs
      \<and> get_object blake3 d i = Inr \<lparr>so_id = i, so_kind = k, so_bytes = piece\<rparr>
      \<and> (is_payload k \<longrightarrow> length piece \<le> max_len_for (h_limits h) k)"
    proof clarify
      fix i k piece assume "(i, k, piece) \<in> set contents"
      then obtain row where row: "row \<in> set table" "i = row_id row" "k = row_kind row" "piece = row_piece payload row"
        by (auto simp: c(2))
      then obtain so where so: "get_object blake3 d i = Inr so" "k = so_kind so" "piece = so_bytes so"
        using rows by auto
      then have "so = \<lparr>so_id = i, so_kind = k, so_bytes = piece\<rparr>"
        using get_object_sound [OF so(1)] by (cases so) simp
      then show "i \<in> visit_id ` set vs \<and> get_object blake3 d i = Inr \<lparr>so_id = i, so_kind = k, so_bytes = piece\<rparr>
          \<and> (is_payload k \<longrightarrow> length piece \<le> max_len_for (h_limits h) k)"
        using so(1) row sizes idset by blast
    qed
  qed (simp add: known)
  moreover have "bl_objects limits = h_limits h" using fits by (simp add: fits_reader_def)
  moreover have "filter (\<lambda>(_, i). i \<notin> fst ` set contents) roots = []"
  proof -
    have "i \<in> fst ` set contents" if "(k, i) \<in> set roots" for k i
    proof -
      have "reach (store_lookup h d) (kinds opts) (set (map snd roots)) i"
        using that by (intro reach_root) force
      moreover have "\<not> filtered_out (store_lookup h d) (kinds opts) i"
        using walk(3) by (auto simp: filtered_out_def is_unrestricted_def admits_def split: sum.splits option.splits)
      ultimately show ?thesis using w(1) known by blast
    qed
    then show ?thesis by (auto simp: filter_empty_conv)
  qed
  ultimately have "verify_open blake3 limits b = Inr \<lparr>bv_info = ob_info b, bv_objects_verified = length contents,
      bv_bytes_verified = verified, bv_unsatisfied_roots = [], bv_dangling = []\<rparr>"
    using b(2-5) c(1) by (simp add: verify_open_def)
  then show ?thesis using b good idset by (simp add: is_complete_def)
qed

lemma write_nonempty:
  "write_root x \<noteq> []" "write_ref r \<noteq> []" "write_row t \<noteq> []"
proof -
  have kind: "write_kind k \<noteq> []" for k
    by (rule length_greater_0_conv [THEN iffD1]) (simp add: write_kind_def)
  show "write_root x \<noteq> []" "write_ref r \<noteq> []" "write_row t \<noteq> []"
    using kind by (cases x, simp, simp add: write_ref_def write_varuint_nonempty, cases t, simp)
qed

lemma encode_all_length: "(\<And>x. enc x \<noteq> []) \<Longrightarrow> length xs \<le> length (encode_all enc xs)"
proof (induction xs)
  case (Cons x xs)
  then show ?case by (cases "enc x") auto
qed simp

definition objects_within :: "hash_fun \<Rightarrow> decode_limits \<Rightarrow> object_dir \<Rightarrow> bool" where
  "objects_within blake3 lim d \<longleftrightarrow>
     (\<forall>i so. get_object blake3 d i = Inr so \<longrightarrow> length (so_bytes so) \<le> max_len_for lim (so_kind so))"

lemma create_bundle_parts:
  assumes "create_bundle blake3 squeeze get lookup roots opts = Inr (file, summary)"
    and "bo_exclude_have opts = None" "bo_walk opts = None" "\<not> bo_compress opts"
  obtains vs payload table created where
    "walk_reachable lookup (map snd roots) (requiring_every_object default_walk_options) = Inr vs"
    "gather get None (set (map visit_id vs)) (map visit_id vs) [] = Inr (payload, table, [])"
    "file = bundle_file blake3
       (bundle_content 0 created roots [] (bo_refs opts) table payload (length payload)) []"
    "bs_objects summary = length table" "bs_payload_bytes summary = length payload"
    "bs_file_bytes summary = length file"
proof -
  from assms obtain vs payload table pre where w:
      "walk_reachable lookup (map snd roots) (requiring_every_object default_walk_options) = Inr vs"
      "gather get None (set (map visit_id vs)) (map visit_id vs) [] = Inr (payload, table, pre)"
    and out: "create_bundle blake3 squeeze get lookup roots opts = Inr (file, summary)"
    by (auto simp: create_bundle_def included_objects_def rbind_eq_Inr Let_def)
  have pre: "pre = []" using gather_all [OF w(2)] by blast
  show thesis
    by (rule that [OF w(1) w(2) [unfolded pre], of "case bo_created_at opts of None \<Rightarrow> 0 | Some t \<Rightarrow> t"])
      (use out w pre assms(2-4) in \<open>auto simp: create_bundle_def included_objects_def Let_def
          bundle_file_def signature_block_def hash_chunk_def\<close>)
qed

lemma bundle_file_longer:
  assumes "hash_ok blake3"
  shows "length content < length (bundle_file blake3 content sigs)"
  using assms by (simp add: bundle_file_def seal_def hash_ok_def hash_chunk_def Let_def)

lemma transfer:
  assumes hash: "hash_ok blake3"
    and source: "dir_ok blake3 d" "objects_within blake3 (h_limits h) d"
    and create: "create_bundle blake3 squeeze (get_object blake3 d) (store_lookup h d) roots opts = Inr (file, summary)"
      "bo_exclude_have opts = None" "bo_walk opts = None" "\<not> bo_compress opts"
    and reader: "\<forall>(k, i) \<in> set roots. valid_kind k \<and> valid_id i" "\<forall>r \<in> set (bo_refs opts). valid_ref r"
      "length roots \<le> bl_max_roots limits" "length (bo_refs opts) \<le> bl_max_refs limits"
      "bs_objects summary \<le> bl_max_objects limits" "bs_payload_bytes summary \<le> bl_max_payload_bytes limits"
      "bs_file_bytes summary < 2 ^ 64" "bl_objects limits = h_limits h"
    and receiver: "store_ok blake3 s" "\<forall>k. max_len_for (h_limits h) k \<le> max_len_for (h_limits (fst s)) k"
      "\<forall>n. put_io (env n) = WriteDone"
  shows "\<exists>s' rep. import_bundle blake3 unzip limits (\<lambda>s i. file_at (snd s) i \<noteq> None) (fs_put blake3) env file s
      = (s', Inr rep) \<and> import_is_complete rep \<and> store_ok blake3 s'
    \<and> (\<forall>j. file_at (snd s) j \<noteq> None \<longrightarrow> get_object blake3 (snd s') j = get_object blake3 (snd s) j)
    \<and> (\<forall>i. reach (store_lookup h d) no_filter (set (map snd roots)) i \<longrightarrow>
          (\<exists>so. get_object blake3 (snd s') i = Inr so))"
proof -
  let ?has = "\<lambda>s i. file_at (snd s) i \<noteq> None"
  let ?w = "requiring_every_object default_walk_options"
  obtain vs payload table created where parts:
    "walk_reachable (store_lookup h d) (map snd roots) ?w = Inr vs"
    "gather (get_object blake3 d) None (set (map visit_id vs)) (map visit_id vs) [] = Inr (payload, table, [])"
    "file = bundle_file blake3
       (bundle_content 0 created roots [] (bo_refs opts) table payload (length payload)) []"
    "bs_objects summary = length table" "bs_payload_bytes summary = length payload"
    "bs_file_bytes summary = length file"
    by (rule create_bundle_parts [OF create])
  let ?content = "bundle_content 0 created roots [] (bo_refs opts) table payload (length payload)"
  have w: "missing_is_error ?w" "is_unrestricted (kinds ?w)" "kinds ?w = no_filter"
    by (simp_all add: requiring_every_object_def default_walk_options_def is_unrestricted_def no_filter_def)
  have content: "length ?content < 2 ^ 64"
    using bundle_file_longer [OF hash, of ?content "[]"] reader(7) by (simp add: parts(3,6))
  have "length roots < 2 ^ 64 \<and> length (bo_refs opts) < 2 ^ 64 \<and> length table < 2 ^ 64 \<and> length payload < 2 ^ 64"
    using content encode_all_length [of write_root roots] encode_all_length [of write_ref "bo_refs opts"]
      encode_all_length [of write_row table] write_nonempty
    by (simp add: bundle_content_def)
  then have fits: "fits_reader limits (h_limits h) roots (bo_refs opts) table payload"
    using reader by (simp add: fits_reader_def parts(4,5))
  have gathered: "row_in payload row \<and> (\<exists>so. get_object blake3 d (row_id row) = Inr so
      \<and> row_kind row = so_kind so \<and> row_piece payload row = so_bytes so)" if "row \<in> set table" for row
    using gather_all [OF parts(2)] \<open>_ \<and> _\<close> that by blast
  then have sizes: "\<forall>row \<in> set table. length (row_piece payload row) \<le> max_len_for (h_limits h) (row_kind row)"
    using source(2) by (fastforce simp: objects_within_def)
  obtain b v where b: "open_bytes blake3 unzip limits file = Inr b" "verify_open blake3 limits b = Inr v"
      "ob_table b = table" "ob_payload b = payload" "bi_prerequisites (ob_info b) = []" "is_complete v"
      "\<forall>row \<in> set table. good_row blake3 payload row \<and> valid_kind (row_kind row)"
      "row_id ` set table = visit_id ` set vs"
    using created_bundle_verifies [OF source(1) hash parts(1) w(1,2) parts(2) fits sizes content, of unzip]
    by (auto simp: parts(3))
  have "\<forall>row \<in> set table. row_in payload row
      \<and> length (row_piece payload row) \<le> max_len_for (h_limits (fst s)) (row_kind row)"
    using gathered sizes receiver(2) by (meson le_trans)
  then obtain s' rep where run: "import_opened ?has (fs_put blake3) env b s = (s', Inr rep)"
    using fs_bounded.import_rows_total [of table payload s, OF _ receiver(3)] unfolding import_opened_def b(3,4) by blast
  then have rows: "import_rows ?has (fs_put blake3) env 0 payload table s
       \<lparr>ir_objects_added = 0, ir_objects_already_present = 0, ir_bytes_added = 0,
        ir_missing_prerequisites = [], ir_refs = bi_refs (ob_info b)\<rparr> = (s', Inr rep)"
    by (simp add: import_opened_def b(3-5))
  note imported = fs_store.import_rows_ok [OF rows receiver(1) b(7)]
  have "import_bundle blake3 unzip limits ?has (fs_put blake3) env file s = (s', Inr rep)"
    using b(1,2,6) run by (simp add: import_bundle_def is_complete_def)
  moreover have "import_is_complete rep" using imported by (simp add: import_is_complete_def)
  moreover have "\<exists>so. get_object blake3 (snd s') i = Inr so"
    if "reach (store_lookup h d) no_filter (set (map snd roots)) i" for i
  proof -
    have "\<not> filtered_out (store_lookup h d) no_filter i"
      by (auto simp: filtered_out_def no_filter_def admits_def split: sum.splits option.splits)
    then have "i \<in> row_id ` set table"
      using walk_reachable_closure(1) [OF parts(1)] that b(8) w(3) by auto
    then have "file_at (snd s') i \<noteq> None" using imported by blast
    then show ?thesis using fs_store.has_get [of blake3 s' i] imported by blast
  qed
  ultimately show ?thesis using imported by blast
qed

end
