(* ===== verification/Bundle_Transfer.thy ===== *)
theory Bundle_Transfer
  imports Exchange Storage Sign Traversal
begin

text \<open>
  What exchanging objects promises: the properties of bundles and of importing them, each with an
  instance.
\<close>

section \<open>Verified bundles\<close>

lemma decode_within_limit:
  "envelope_decode k piece lim = Inr e \<Longrightarrow> length piece \<le> max_len_for lim k"
  by (auto simp: envelope_decode_def Let_def split: if_splits)

lemma open_body_rows:
  "open_body unzip limits cs input = Inr b \<Longrightarrow> \<forall>row \<in> set (ob_table b). valid_row row"
  using row_codec.dec_n_sound
  by (fastforce simp: open_body_def rbind_eq_Inr split: if_splits)

lemma open_bytes_rows:
  "open_bytes blake3 unzip limits raw = Inr b \<Longrightarrow> \<forall>row \<in> set (ob_table b). valid_kind (row_kind row)"
  using open_body_rows by (fastforce simp: open_bytes_def rbind_eq_Inr)

text \<open>What a bundle that verifies without dangling references has shown.\<close>

lemma verified_rows:
  assumes "open_bytes blake3 unzip limits raw = Inr b" "verify_open blake3 limits b = Inr v" "bv_dangling v = []"
  shows "\<forall>row \<in> set (ob_table b). good_row blake3 (ob_payload b) row \<and> valid_kind (row_kind row)
    \<and> (\<exists>e. envelope_decode (row_kind row) (row_piece (ob_payload b) row) (bl_objects limits) = Inr e
         \<and> set (env_deps e) \<subseteq> row_id ` set (ob_table b) \<union> set (bi_prerequisites (ob_info b)))"
proof
  fix row assume row: "row \<in> set (ob_table b)"
  obtain contents verified dangling where parts:
      "verify_rows blake3 (ob_payload b) (ob_table b) [] 0 = Inr (contents, verified)"
      "find_dangling (bl_objects limits) (fst ` set contents \<union> set (bi_prerequisites (ob_info b))) contents
        = Inr dangling" "remdups_adj (sort dangling) = []"
    using assms(2,3) by (auto simp: verify_open_def rbind_eq_Inr Let_def)
  have none: "set dangling = {}" using arg_cong [OF parts(3), of set] by simp
  note rows = verify_rows_ok [OF parts(1)]
  have "map_of contents (row_id row) = Some (row_kind row, row_piece (ob_payload b) row)"
    using rows row by blast
  then have "(row_id row, row_kind row, row_piece (ob_payload b) row) \<in> set contents"
    by (rule map_of_SomeD)
  from find_dangling_ok [OF parts(2) this] obtain e where
      "envelope_decode (row_kind row) (row_piece (ob_payload b) row) (bl_objects limits) = Inr e"
      "set (env_deps e) \<subseteq> row_id ` set (ob_table b) \<union> set (bi_prerequisites (ob_info b))"
    using rows none by auto
  moreover have "good_row blake3 (ob_payload b) row \<and> valid_kind (row_kind row)"
    using rows row open_bytes_rows [OF assms(1)] by blast
  ultimately show "good_row blake3 (ob_payload b) row \<and> valid_kind (row_kind row)
    \<and> (\<exists>e. envelope_decode (row_kind row) (row_piece (ob_payload b) row) (bl_objects limits) = Inr e
         \<and> set (env_deps e) \<subseteq> row_id ` set (ob_table b) \<union> set (bi_prerequisites (ob_info b)))"
    by (intro conjI exI) simp_all
qed

lemma import_bundle_success:
  assumes "import_bundle blake3 unzip limits has put env raw s = (s', Inr rep)"
  obtains b v where "open_bytes blake3 unzip limits raw = Inr b" "verify_open blake3 limits b = Inr v"
    "bv_dangling v = []" "import_opened has put env b s = (s', Inr rep)"
  using assms by (auto simp: import_bundle_def split: sum.splits if_splits)

context content_store begin

lemma import_closed:
  assumes "import_bundle blake3 unzip limits has put env raw s = (s', Inr rep)" "ok s"
  shows "ok s' \<and> (\<forall>j. has s j \<longrightarrow> has s' j \<and> get s' j = get s j)
    \<and> (\<exists>b. open_bytes blake3 unzip limits raw = Inr b
        \<and> {j. has s' j} = {j. has s j} \<union> row_id ` set (ob_table b)
        \<and> ir_missing_prerequisites rep = filter (\<lambda>i. \<not> has s i) (bi_prerequisites (ob_info b))
        \<and> ir_objects_added rep + ir_objects_already_present rep = length (ob_table b)
        \<and> (\<forall>row \<in> set (ob_table b). \<exists>e.
             envelope_decode (row_kind row) (row_piece (ob_payload b) row) (bl_objects limits) = Inr e
           \<and> (\<forall>d \<in> set (env_deps e). has s' d \<or> d \<in> set (ir_missing_prerequisites rep))))"
proof -
  obtain b v where b: "open_bytes blake3 unzip limits raw = Inr b" "verify_open blake3 limits b = Inr v"
      "bv_dangling v = []" "import_opened has put env b s = (s', Inr rep)"
    by (rule import_bundle_success [OF assms(1)])
  note rows = verified_rows [OF b(1-3)]
  have "\<forall>row \<in> set (ob_table b). good_row blake3 (ob_payload b) row \<and> valid_kind (row_kind row)"
    using rows by blast
  note imported = import_rows_ok [OF b(4) [unfolded import_opened_def] assms(2) this, simplified]
  have state: "ok s' \<and> (\<forall>j. has s j \<longrightarrow> has s' j \<and> get s' j = get s j)" using imported by blast
  have held: "{j. has s' j} = {j. has s j} \<union> row_id ` set (ob_table b)" using imported by blast
  have report: "ir_missing_prerequisites rep = filter (\<lambda>i. \<not> has s i) (bi_prerequisites (ob_info b))"
    "ir_objects_added rep + ir_objects_already_present rep = length (ob_table b)"
    using imported by blast+
  have "has s' d \<or> d \<in> set (ir_missing_prerequisites rep)"
    if "d \<in> row_id ` set (ob_table b) \<union> set (bi_prerequisites (ob_info b))" for d
    using that held state report(1) by (auto 0 2)
  then have closed: "\<forall>row \<in> set (ob_table b). \<exists>e.
             envelope_decode (row_kind row) (row_piece (ob_payload b) row) (bl_objects limits) = Inr e
           \<and> (\<forall>d \<in> set (env_deps e). has s' d \<or> d \<in> set (ir_missing_prerequisites rep))"
    using rows by (meson subsetD)
  show ?thesis
    by (intro conjI exI [of _ b]) (use state held report closed b(1) in simp_all)
qed

end

context bounded_store begin

text \<open>
  An import that fails half way keeps the store sound and what it held, and has added only objects
  of the bundle.
\<close>

lemma import_rows_error:
  assumes "import_rows has put env n payload rows s rep = (s', Inl e)" "ok s"
    and "\<forall>row \<in> set rows. good_row blake3 payload row \<and> valid_kind (row_kind row)"
  shows "ok s' \<and> (\<forall>j. has s j \<longrightarrow> has s' j \<and> get s' j = get s j)
    \<and> (\<forall>j. has s' j \<longrightarrow> has s j \<or> j \<in> row_id ` set rows)"
  using assms
proof (induction rows arbitrary: n s rep)
  case (Cons row rows)
  obtain k i off len where row: "row = (k, i, off, len)" by (cases row) auto
  have slice: "payload_slice payload off len = Inr (row_piece payload row)"
    and id: "compute_id blake3 k (row_piece payload row) = i" and k: "valid_kind k"
    using Cons.prems(3) payload_slice_row [of payload k i off len] by (auto simp: good_row_def row)
  have rest: "\<forall>row \<in> set rows. good_row blake3 payload row \<and> valid_kind (row_kind row)"
    using Cons.prems(3) by simp
  show ?case
  proof (cases "has s i")
    case True
    let ?rep = "rep\<lparr>ir_objects_already_present := ir_objects_already_present rep + 1\<rparr>"
    have "import_rows has put env (n + 1) payload rows s ?rep = (s', Inl e)"
      using Cons.prems(1) True slice by (simp add: row)
    from Cons.IH [OF this Cons.prems(2) rest] show ?thesis by auto
  next
    case False
    obtain s1 r1 where p: "put (env n) k (row_piece payload row) s = (s1, r1)" by fastforce
    have ok: "ok s1" by (rule put_ok [OF Cons.prems(2) k p])
    have step: "\<And>j. has s j \<Longrightarrow> has s1 j \<and> get s1 j = get s j" "\<And>j. has s1 j \<Longrightarrow> has s j \<or> j = i"
      using put_frame [OF _ p] put_only [OF p] id by blast+
    show ?thesis
    proof (cases r1)
      case (Inl e1)
      then have "s' = s1" using Cons.prems(1) False slice p by (simp add: row)
      then show ?thesis using ok step by (auto simp: row)
    next
      case (Inr j)
      let ?rep = "rep\<lparr>ir_objects_added := ir_objects_added rep + 1,
                      ir_bytes_added := ir_bytes_added rep + unat len\<rparr>"
      have "import_rows has put env (n + 1) payload rows s1 ?rep = (s', Inl e)"
        using Cons.prems(1) False slice p Inr by (simp add: row)
      from Cons.IH [OF this ok rest] step show ?thesis by (fastforce simp: row)
    qed
  qed
qed simp

lemma import_fails:
  assumes "import_bundle blake3 unzip limits has put env raw s = (s', Inl e)" "ok s"
  shows "s' = s \<or> (\<exists>b v. open_bytes blake3 unzip limits raw = Inr b \<and> verify_open blake3 limits b = Inr v
      \<and> bv_dangling v = [] \<and> ok s' \<and> (\<forall>j. has s j \<longrightarrow> has s' j \<and> get s' j = get s j)
      \<and> (\<forall>j. has s' j \<longrightarrow> has s j \<or> j \<in> row_id ` set (ob_table b)))"
proof -
  consider "s' = s" | b v where "open_bytes blake3 unzip limits raw = Inr b" "verify_open blake3 limits b = Inr v"
      "bv_dangling v = []" "import_opened has put env b s = (s', Inl e)"
    using assms(1) by (auto simp: import_bundle_def split: sum.splits if_splits)
  then show ?thesis
  proof cases
    case 2
    have "\<forall>row \<in> set (ob_table b). good_row blake3 (ob_payload b) row \<and> valid_kind (row_kind row)"
      using verified_rows [OF 2(1-3)] by blast
    from import_rows_error [OF 2(4) [unfolded import_opened_def] assms(2) this] 2(1-3) show ?thesis by blast
  qed simp
qed

text \<open>
  A failed import of a bundle whose object limits the store shares changed nothing, when no write
  was refused.
\<close>

lemma import_atomic:
  assumes "import_bundle blake3 unzip limits has put env raw s = (s', Inl e)"
    and "\<forall>k. max_len_for (bl_objects limits) k \<le> cap s k" "\<forall>n. fine (env n)"
  shows "s' = s"
proof (cases "open_bytes blake3 unzip limits raw")
  case (Inr b)
  show ?thesis
  proof (cases "verify_open blake3 limits b")
    case (Inr v)
    show ?thesis
    proof (cases "bv_dangling v = []")
      case True
      have "row_in (ob_payload b) row \<and> length (row_piece (ob_payload b) row) \<le> cap s (row_kind row)"
        if "row \<in> set (ob_table b)" for row
        using verified_rows [OF \<open>open_bytes _ _ _ _ = Inr b\<close> Inr True] that assms(2)
          decode_within_limit [of "row_kind row" "row_piece (ob_payload b) row" "bl_objects limits"]
        by (meson good_row_def le_trans)
      then obtain s1 rep where "import_opened has put env b s = (s1, Inr rep)"
        using import_rows_total [of "ob_table b" "ob_payload b" s, OF _ assms(3)] unfolding import_opened_def by blast
      then show ?thesis
        using assms(1) True Inr \<open>open_bytes _ _ _ _ = Inr b\<close> by (simp add: import_bundle_def)
    qed (use assms(1) Inr \<open>open_bytes _ _ _ _ = Inr b\<close> in \<open>simp add: import_bundle_def\<close>)
  qed (use assms(1) Inr in \<open>simp add: import_bundle_def\<close>)
qed (use assms(1) in \<open>simp add: import_bundle_def\<close>)

end

section \<open>An instance\<close>

text \<open>The directory of one chunk, bundled whole.\<close>

definition sample_table :: "table_row list" where
  "sample_table = [(Chunk, zero_id, 0, 1)]"

definition sample_file :: bytes where
  "sample_file = bundle_file zero_hash
     (bundle_content 0 0 [(Chunk, zero_id)] [] [] sample_table [7] 1) []"

definition no_zstd :: "bytes \<Rightarrow> nat \<Rightarrow> bytes result" where
  "no_zstd stored n = Inl (Corrupt ''no decompressor'')"

definition sample_limits :: bundle_limits where
  "sample_limits = default_bundle_limits"

lemma chunk_dir_get:
  "get_object zero_hash chunk_dir zero_id = Inr \<lparr>so_id = zero_id, so_kind = Chunk, so_bytes = [7]\<rparr>"
  by (simp add: get_object_def read_loose_def chunk_dir_file chunk_file_def parse_loose_header)

lemma chunk_dir_lookup:
  "store_lookup open_store chunk_dir i = (if i = zero_id then
     Inr (Some \<lparr>node_id = zero_id, node_kind = Chunk, node_len = 1, node_deps = []\<rparr>) else Inr None)"
  by (simp add: store_lookup_def read_loose_def chunk_dir_file chunk_file_def parse_loose_header)

lemma chunk_dir_walk:
  "walk_reachable (store_lookup open_store chunk_dir) [zero_id] (requiring_every_object default_walk_options)
    = Inr [\<lparr>visit_id = zero_id, visit_depth = 0,
        visit_node = Some \<lparr>node_id = zero_id, node_kind = Chunk, node_len = 1, node_deps = []\<rparr>\<rparr>]"
  by (simp add: walk_steps requiring_every_object_def chunk_dir_lookup)

lemma sample_created:
  "create_bundle zero_hash Inr (get_object zero_hash chunk_dir) (store_lookup open_store chunk_dir)
     [(Chunk, zero_id)] default_bundle_options
   = Inr (sample_file, \<lparr>bs_objects = 1, bs_payload_bytes = 1, bs_file_bytes = length sample_file,
       bs_prerequisites = 0\<rparr>)"
  by (simp add: create_bundle_def default_bundle_options_def included_objects_def chunk_dir_walk
      chunk_dir_get sample_file_def sample_table_def bundle_file_def signature_block_def hash_chunk_def Let_def)

lemma sample_length: "length sample_file < 2 ^ 64"
  by (simp add: sample_file_def sample_table_def bundle_file_def signature_block_def seal_def
      bundle_content_def write_varuint.simps write_kind_def length_write_id hash_chunk_def
      zero_hash_def Let_def)

lemma empty_store_ok: "store_ok zero_hash (open_store, empty_dir)"
  by (simp add: store_ok_def dir_ok_def empty_dir_def)

lemma chunk_store_ok: "store_ok zero_hash (open_store, chunk_dir)"
  using chunk_dir_ok by (simp add: store_ok_def)

definition fs_has :: "handle \<times> object_dir \<Rightarrow> object_id \<Rightarrow> bool" where
  "fs_has s i \<longleftrightarrow> file_at (snd s) i \<noteq> None"

lemma fs_has_eq: "fs_has = (\<lambda>s i. file_at (snd s) i \<noteq> None)"
  by (simp add: fs_has_def fun_eq_iff)

section \<open>Transfer\<close>

text \<open>
  C1.  A full, uncompressed transfer from one store to another succeeds, whole.  The bundle is
  created with no have-set to exclude, the default walk and no compression, from a directory of
  complete objects within the sender's size limits, and its counts and sizes are within what the
  reader accepts; the reader decodes objects under the sender's limits; the receiving store is
  consistent, takes objects as large, and no write to it is refused.  Then the import succeeds,
  nothing the receiver held changes, no missing prerequisite is reported, and every object
  reachable from the roots at the sender can be read at the receiver.
\<close>

theorem bundle_transfer_complete:
  assumes "hash_ok blake3" "dir_ok blake3 d" "objects_within blake3 (h_limits h) d"
    and "create_bundle blake3 squeeze (get_object blake3 d) (store_lookup h d) roots opts = Inr (file, summary)"
    and "bo_exclude_have opts = None" "bo_walk opts = None" "\<not> bo_compress opts"
    and "\<forall>(k, i) \<in> set roots. valid_kind k \<and> valid_id i" "\<forall>r \<in> set (bo_refs opts). valid_ref r"
    and "length roots \<le> bl_max_roots limits" "length (bo_refs opts) \<le> bl_max_refs limits"
    and "bs_objects summary \<le> bl_max_objects limits" "bs_payload_bytes summary \<le> bl_max_payload_bytes limits"
    and "bs_file_bytes summary < 2 ^ 64" "bl_objects limits = h_limits h"
    and "store_ok blake3 s" "\<forall>k. max_len_for (h_limits h) k \<le> max_len_for (h_limits (fst s)) k"
    and "\<forall>n. put_io (env n) = WriteDone"
  shows "\<exists>s' rep. import_bundle blake3 unzip limits fs_has (fs_put blake3) env file s = (s', Inr rep)
    \<and> import_is_complete rep \<and> store_ok blake3 s'
    \<and> (\<forall>j. fs_has s j \<longrightarrow> get_object blake3 (snd s') j = get_object blake3 (snd s) j)
    \<and> (\<forall>i. reach (store_lookup h d) no_filter (set (map snd roots)) i \<longrightarrow>
          (\<exists>so. get_object blake3 (snd s') i = Inr so))"
  unfolding fs_has_eq by (rule transfer [OF assms])

lemma chunk_dir_within: "objects_within zero_hash (h_limits open_store) chunk_dir"
  unfolding objects_within_def
proof (intro allI impI)
  fix i so assume g: "get_object zero_hash chunk_dir i = Inr so"
  then have "file_at chunk_dir i \<noteq> None" using get_object_absent [of chunk_dir i zero_hash] by auto
  then have "i = zero_id" by (simp add: chunk_dir_file split: if_splits)
  then show "length (so_bytes so) \<le> max_len_for (h_limits open_store) (so_kind so)"
    using g chunk_dir_get by (auto simp: open_store_def max_len_for_def default_limits_def)
qed

lemma sample_limits:
  "bl_objects default_bundle_limits = h_limits open_store" "1 \<le> bl_max_roots default_bundle_limits"
  "0 \<le> bl_max_refs default_bundle_limits" "1 \<le> bl_max_objects default_bundle_limits"
  "1 \<le> bl_max_payload_bytes default_bundle_limits"
  by (simp_all add: default_bundle_limits_def open_store_def)

lemma bundle_transfer_complete_witness:
  "\<exists>s' rep so. import_bundle zero_hash no_zstd default_bundle_limits fs_has (fs_put zero_hash)
      (\<lambda>n. (Some 5, (0, n), WriteDone)) sample_file (open_store, empty_dir) = (s', Inr rep)
    \<and> import_is_complete rep \<and> get_object zero_hash (snd s') zero_id = Inr so"
proof -
  have "reach (store_lookup open_store chunk_dir) no_filter (set (map snd [(Chunk, zero_id)])) zero_id"
    by (rule reach_root) simp
  then show ?thesis
    using bundle_transfer_complete [OF hash_ok_zero chunk_dir_ok chunk_dir_within sample_created,
        of default_bundle_limits "(open_store, empty_dir)" "\<lambda>n. (Some 5, (0, n), WriteDone)" no_zstd]
      sample_limits sample_length empty_store_ok
    by (auto simp: default_bundle_options_def)
qed

section \<open>Imports\<close>

text \<open>
  C8.  Importing any file at all into a consistent store, when it succeeds, adds exactly the
  objects of the bundle's table, leaves everything the store held as it was, and leaves no
  dangling reference unreported: each dependency of an imported object is in the store or is in
  the report's list of missing prerequisites.
\<close>

theorem import_leaves_closed_graph:
  assumes "import_bundle blake3 unzip limits fs_has (fs_put blake3) env raw s = (s', Inr rep)" "store_ok blake3 s"
  shows "store_ok blake3 s'
    \<and> (\<forall>j. fs_has s j \<longrightarrow> fs_has s' j \<and> get_object blake3 (snd s') j = get_object blake3 (snd s) j)
    \<and> (\<exists>b. open_bytes blake3 unzip limits raw = Inr b
        \<and> {j. fs_has s' j} = {j. fs_has s j} \<union> row_id ` set (ob_table b)
        \<and> ir_missing_prerequisites rep = filter (\<lambda>i. \<not> fs_has s i) (bi_prerequisites (ob_info b))
        \<and> ir_objects_added rep + ir_objects_already_present rep = length (ob_table b)
        \<and> (\<forall>row \<in> set (ob_table b). \<exists>e.
             envelope_decode (row_kind row) (row_piece (ob_payload b) row) (bl_objects limits) = Inr e
           \<and> (\<forall>d \<in> set (env_deps e). fs_has s' d \<or> d \<in> set (ir_missing_prerequisites rep))))"
  using fs_store.import_closed [OF assms(1) [unfolded fs_has_eq] assms(2)] unfolding fs_has_eq .

lemma sample_imported:
  "\<exists>s' rep. import_bundle zero_hash no_zstd default_bundle_limits fs_has (fs_put zero_hash)
      (\<lambda>n. (Some 5, (0, n), WriteDone)) sample_file (open_store, empty_dir) = (s', Inr rep)"
  using transfer [OF hash_ok_zero chunk_dir_ok chunk_dir_within sample_created,
      of default_bundle_limits "(open_store, empty_dir)" "\<lambda>n. (Some 5, (0, n), WriteDone)" no_zstd]
    sample_limits sample_length empty_store_ok
  unfolding fs_has_eq by (auto simp: default_bundle_options_def)

lemma import_leaves_closed_graph_witness:
  "\<exists>s' rep. import_bundle zero_hash no_zstd default_bundle_limits fs_has (fs_put zero_hash)
      (\<lambda>n. (Some 5, (0, n), WriteDone)) sample_file (open_store, empty_dir) = (s', Inr rep) \<and> store_ok zero_hash s'"
proof -
  obtain s' rep where run: "import_bundle zero_hash no_zstd default_bundle_limits fs_has (fs_put zero_hash)
      (\<lambda>n. (Some 5, (0, n), WriteDone)) sample_file (open_store, empty_dir) = (s', Inr rep)"
    using sample_imported by blast
  have "store_ok zero_hash s'"
    using import_leaves_closed_graph [OF run empty_store_ok] by (rule conjunct1)
  then show ?thesis using run by blast
qed

text \<open>
  C5.  What an import that reports an error has done, whatever the file is.  Either the store is
  untouched, or the whole bundle had verified without a dangling reference and a write failed half
  way: then the store is still consistent, everything it held is as it was, and all that was added
  are whole objects of the bundle's table (the code does not take them back).  When no write is
  refused and the store accepts objects as large as the limits the bundle is read under, it is the
  first: nothing at all has changed.
\<close>

theorem failed_import_leaves_whole_objects:
  assumes "import_bundle blake3 unzip limits fs_has (fs_put blake3) env raw s = (s', Inl e)" "store_ok blake3 s"
  shows "(s' = s \<or> (\<exists>b v. open_bytes blake3 unzip limits raw = Inr b \<and> verify_open blake3 limits b = Inr v
      \<and> bv_dangling v = [] \<and> store_ok blake3 s'
      \<and> (\<forall>j. fs_has s j \<longrightarrow> fs_has s' j \<and> get_object blake3 (snd s') j = get_object blake3 (snd s) j)
      \<and> (\<forall>j. fs_has s' j \<longrightarrow> fs_has s j \<or> j \<in> row_id ` set (ob_table b))))
    \<and> ((\<forall>n. put_io (env n) = WriteDone) \<and>
         (\<forall>k. max_len_for (bl_objects limits) k \<le> max_len_for (h_limits (fst s)) k) \<longrightarrow> s' = s)"
  using fs_bounded.import_fails [OF assms(1) [unfolded fs_has_eq] assms(2)]
    fs_bounded.import_atomic [OF assms(1) [unfolded fs_has_eq]]
  unfolding fs_has_eq by blast

lemma failed_import_leaves_whole_objects_witness:
  "\<exists>s' e. import_bundle zero_hash no_zstd default_bundle_limits fs_has (fs_put zero_hash)
      (\<lambda>n. (Some 5, (0, n), WriteDone)) (take 60 sample_file) (open_store, chunk_dir) = (s', Inl e) \<and> s' = (open_store, chunk_dir)"
proof -
  obtain s' where run: "import_bundle zero_hash no_zstd default_bundle_limits fs_has (fs_put zero_hash)
      (\<lambda>n. (Some 5, (0, n), WriteDone)) (take 60 sample_file) (open_store, chunk_dir) = (s', Inl (Truncated ''bundle''))"
    by (simp add: import_bundle_def open_bytes_def open_footer_def footer_len_def min_def)
  show ?thesis
    using failed_import_leaves_whole_objects [OF run chunk_store_ok] run
    by (simp add: default_bundle_limits_def open_store_def)
qed

section \<open>Bundle files\<close>

text \<open>
  C39.  What is written into a bundle file is what is read out of it: roots, prerequisites, names,
  table, payload and signatures, and the checksum the signatures cover, whatever the hash, and for
  a compressed payload whenever the decompressor gives the payload back.
\<close>

theorem bundle_file_roundtrip:
  fixes created_at :: u64
  assumes "hash_ok blake3"
    and "bundle_fits unzip limits zipped roots prerequisites refs table stored payload sigs"
    and "length (bundle_content (if zipped then flag_zstd else 0) created_at roots prerequisites refs
           table stored (length payload)) < 2 ^ 64"
  shows "open_bytes blake3 unzip limits (bundle_file blake3 (bundle_content
        (if zipped then flag_zstd else 0) created_at roots prerequisites refs table stored (length payload)) sigs)
    = Inr \<lparr>ob_info = \<lparr>bi_format_version = bundle_format, bi_compressed = zipped,
                       bi_created_at = created_at, bi_roots = roots, bi_prerequisites = prerequisites,
                       bi_refs = refs, bi_object_count = length table,
                       bi_payload_bytes = of_nat (length stored),
                       bi_payload_raw_bytes = of_nat (length payload), bi_signatures = sigs\<rparr>,
          ob_table = table, ob_payload = payload,
          ob_content_checksum = blake3 (bundle_content (if zipped then flag_zstd else 0) created_at
             roots prerequisites refs table stored (length payload))\<rparr>"
  by (rule open_bundle_file [OF assms])

lemma sample_content: "length (bundle_content 0 0 [(Chunk, zero_id)] [] [] sample_table [7] 1) < 2 ^ 64"
  by (simp add: sample_table_def bundle_content_def write_varuint.simps write_kind_def length_write_id)

lemma bundle_file_roundtrip_witness:
  "\<exists>b. open_bytes zero_hash no_zstd default_bundle_limits sample_file = Inr b
    \<and> ob_table b = sample_table \<and> ob_payload b = [7]"
proof -
  have "bundle_fits no_zstd default_bundle_limits False [(Chunk, zero_id)] [] [] sample_table [7] [7] []"
    by (simp add: bundle_fits_def default_bundle_limits_def sample_table_def)
  from bundle_file_roundtrip [OF hash_ok_zero this, of 0] sample_content show ?thesis
    by (simp add: sample_file_def)
qed

section \<open>Signatures\<close>

text \<open>What the documentation of Ed25519 promises of its operations.\<close>

definition ed25519_ok :: "ed25519 \<Rightarrow> bool" where
  "ed25519_ok ed \<longleftrightarrow> (\<forall>key m. length (ed_sign ed key m) = 64 \<and> ed_verify ed (ed_public ed key) m (ed_sign ed key m))"

lemma bundle_fits_signed:
  assumes "bundle_fits unzip limits zipped roots prerequisites refs table stored payload sigs"
    and "length sigs < 64" "valid_signature s"
  shows "bundle_fits unzip limits zipped roots prerequisites refs table stored payload (sigs @ [s])"
  using assms by (auto simp: bundle_fits_def)

text \<open>
  Signing a bundle that has fewer than 64 signatures (the most a reader takes), none of them
  under the id of the signing key: adding the signature of its content checksum gives a file that
  opens with the same contents, the same checksum and one more signature, and whose check against
  any ring that trusts the key (under its id, not revoked) accepts that signature.
\<close>

theorem signed_bundle_accepted:
  fixes created_at :: u64
  assumes hash: "hash_ok blake3" and ed: "ed25519_ok ed"
    and fits: "bundle_fits unzip limits zipped roots prerequisites refs table stored payload sigs"
    and content: "content = bundle_content (if zipped then flag_zstd else 0) created_at roots prerequisites
           refs table stored (length payload)" "length content < 2 ^ 64"
    and s: "s = sign_bundle_checksum ed blake3 key (blake3 content)"
    and room: "length sigs < 64" "sig_key s \<notin> sig_key ` set sigs"
    and trust: "ring_get trusted (sig_key s) = Some (ed_public ed key)" "\<not> is_revoked trusted (sig_key s)"
  shows "\<exists>file. append_signature blake3 unzip limits s (bundle_file blake3 content sigs) = Inr file
    \<and> bundle_content_checksum blake3 unzip limits file
        = bundle_content_checksum blake3 unzip limits (bundle_file blake3 content sigs)
    \<and> (\<exists>info. inspect_bundle blake3 unzip limits file = Inr info
         \<and> inspect_bundle blake3 unzip limits (bundle_file blake3 content sigs) = Inr (info\<lparr>bi_signatures := sigs\<rparr>)
         \<and> bi_signatures info = sigs @ [s]
         \<and> sig_key s \<in> set (accepted (verify_signatures ed (bundle_message (blake3 content)) (bi_signatures info) trusted)))"
proof -
  have "valid_signature s"
    using hash ed by (simp add: s sign_bundle_checksum_def valid_signature_def key_id_of_def hash_chunk_def
        hash_ok_def ed25519_ok_def)
  note signed = bundle_fits_signed [OF fits room(1) this]
  have "good_signature ed (bundle_message (blake3 content)) trusted s"
    using trust ed by (simp add: good_signature_def s sign_bundle_checksum_def ed25519_ok_def)
  then have "sig_key s \<in> set (accepted (verify_signatures ed (bundle_message (blake3 content)) (sigs @ [s]) trusted))"
    by (simp add: verify_signatures_eq)
  then show ?thesis
    using append_signature_file [OF hash fits, of created_at s] content room(2)
      open_bundle_file [OF hash fits, of created_at] open_bundle_file [OF hash signed, of created_at]
    by (simp add: bundle_content_checksum_def inspect_bundle_def)
qed

definition toy_ed :: ed25519 where
  "toy_ed = \<lparr>ed_public = id, ed_sign = (\<lambda>key m. take 64 (key @ replicate 64 0)),
     ed_verify = (\<lambda>public m s. s = take 64 (public @ replicate 64 0)), ed_valid_public = (\<lambda>_. True)\<rparr>"

lemma signed_bundle_accepted_witness:
  "\<exists>file. append_signature zero_hash no_zstd default_bundle_limits
      (sign_bundle_checksum toy_ed zero_hash [1] (replicate 32 0)) sample_file = Inr file"
proof -
  let ?c = "bundle_content (if False then flag_zstd else 0) 0 [(Chunk, zero_id)] [] [] sample_table [7] (length [7 :: byte])"
  let ?s = "sign_bundle_checksum toy_ed zero_hash [1] (zero_hash ?c)"
  let ?ring = "fst (trust zero_hash [1] empty_ring)"
  have fits: "bundle_fits no_zstd default_bundle_limits False [(Chunk, zero_id)] [] [] sample_table [7] [7] []"
    by (simp add: bundle_fits_def default_bundle_limits_def sample_table_def)
  have ed: "ed25519_ok toy_ed" by (auto simp: ed25519_ok_def toy_ed_def min_def)
  have key: "sig_key ?s = key_id_of zero_hash [1]"
    by (simp add: sign_bundle_checksum_def toy_ed_def)
  have trusted: "ring_get ?ring (sig_key ?s) = Some (ed_public toy_ed [1])" "\<not> is_revoked ?ring (sig_key ?s)"
    unfolding key by (simp_all add: toy_ed_def trust_def empty_ring_def ring_get_def is_revoked_def Let_def)
  have len: "length ?c < 2 ^ 64" using sample_content by simp
  have room: "length ([] :: signature list) < 64" "sig_key ?s \<notin> sig_key ` set []" by simp_all
  have "\<exists>file. append_signature zero_hash no_zstd default_bundle_limits ?s (bundle_file zero_hash ?c []) = Inr file"
    using signed_bundle_accepted [OF hash_ok_zero ed fits refl len refl room trusted] by blast
  then show ?thesis by (simp add: sample_file_def zero_hash_def)
qed

text \<open>
  What a signature check reports: every signature is in exactly one of the four lists; a
  bundle is trusted exactly when some signature by a trusted, unrevoked key verifies and no
  signature by such a key fails.  A revoked key is never accepted.
\<close>

theorem signature_check_exact:
  "let c = verify_signatures ed message sigs trusted in
     length (accepted c) + length (unknown_keys c) + length (revoked c) + length (invalid c) = length sigs
   \<and> (is_trusted c \<longleftrightarrow> (\<exists>s \<in> set sigs. good_signature ed message trusted s) \<and> filter (bad_signature ed message trusted) sigs = [])
   \<and> set (accepted c) \<inter> ring_revoked trusted = {} \<and> set (revoked c) \<subseteq> ring_revoked trusted"
proof -
  have "length (filter (good_signature ed message trusted) sigs)
      + length (filter (\<lambda>s. \<not> is_revoked trusted (sig_key s) \<and> ring_get trusted (sig_key s) = None) sigs)
      + length (filter (\<lambda>s. is_revoked trusted (sig_key s)) sigs)
      + length (filter (bad_signature ed message trusted) sigs) = length sigs"
    by (induction sigs) (auto simp: good_signature_def bad_signature_def)
  then show ?thesis
    by (auto simp: Let_def verify_signatures_eq is_trusted_def filter_empty_conv good_signature_def is_revoked_def)
qed

text \<open>
  Signed messages are separated: a signature over a root binds its kind, its object and the
  metadata hash, and no signed root is at once a signed bundle.
\<close>

theorem signed_messages_separate:
  assumes "valid_id r" "valid_id r'"
  shows "(root_message k r m = root_message k' r' m' \<longleftrightarrow> kind_tag k = kind_tag k' \<and> r = r' \<and> m = m')
    \<and> root_message k r m \<noteq> bundle_message checksum"
  using root_message_inj [OF assms, of k m k' m'] root_not_bundle [of k r m checksum]
  by (auto simp: root_message_def)

lemma signed_messages_separate_witness:
  "root_message Commit zero_id [1] \<noteq> root_message Tree zero_id [1]"
  using signed_messages_separate [OF valid_zero valid_zero, of Commit "[1]" Tree "[1]"]
  by (simp add: kind_tag.simps)

end
