(* ===== verification/Weak_Hash.thy ===== *)
theory Weak_Hash
  imports Prelude
begin

text \<open>
  The weak rolling hash: \<^verbatim>\<open>core/cavs-signature/src/weak.rs\<close>.  Arithmetic is that of \<^verbatim>\<open>u32\<close>, wrapping.
\<close>

section \<open>The hash and its rolling form\<close>

definition mod_mask :: u32 where
  "mod_mask = 0xffff"

text \<open>The loop of \<^verbatim>\<open>weak32\<close> and of \<^verbatim>\<open>RollingWeak::new\<close>, at index \<open>i\<close>.\<close>

fun weak_loop :: "u32 \<Rightarrow> nat \<Rightarrow> bytes \<Rightarrow> u32 \<Rightarrow> u32 \<Rightarrow> u32 \<times> u32" where
  "weak_loop len i [] a b = (a, b)"
| "weak_loop len i (x # xs) a b =
     weak_loop len (i + 1) xs (a + ucast x) (b + (len - of_nat i) * ucast x)"

definition weak_pack :: "u32 \<Rightarrow> u32 \<Rightarrow> u32" where
  "weak_pack a b = (a AND mod_mask) OR push_bit 16 (b AND mod_mask)"

definition weak32 :: "bytes \<Rightarrow> u32" where
  "weak32 window = (let (a, b) = weak_loop (of_nat (length window)) 0 window 0 0 in weak_pack a b)"

record rolling_weak =
  rw_a :: u32
  rw_b :: u32
  rw_len :: u32

definition rolling_new :: "bytes \<Rightarrow> rolling_weak" where
  "rolling_new window =
     (let len = of_nat (length window); (a, b) = weak_loop len 0 window 0 0
      in \<lparr>rw_a = a, rw_b = b, rw_len = len\<rparr>)"

definition roll :: "byte \<Rightarrow> byte \<Rightarrow> rolling_weak \<Rightarrow> rolling_weak" where
  "roll out inp rw =
     (let a = rw_a rw - ucast out + ucast inp
      in rw\<lparr>rw_a := a, rw_b := rw_b rw - rw_len rw * ucast out + a\<rparr>)"

definition rolling_digest :: "rolling_weak \<Rightarrow> u32" where
  "rolling_digest rw = weak_pack (rw_a rw) (rw_b rw)"

section \<open>Sums\<close>

text \<open>The two sums of the definition in the module's documentation, as words.\<close>

definition byte_sum :: "bytes \<Rightarrow> u32" where
  "byte_sum xs = sum_list (map ucast xs)"

fun weighted_sum :: "u32 \<Rightarrow> bytes \<Rightarrow> u32" where
  "weighted_sum w [] = 0"
| "weighted_sum w (x # xs) = w * ucast x + weighted_sum (w - 1) xs"

lemma byte_sum_simps [simp]:
  "byte_sum [] = 0" "byte_sum (x # xs) = ucast x + byte_sum xs" "byte_sum (xs @ ys) = byte_sum xs + byte_sum ys"
  by (simp_all add: byte_sum_def)

lemma weak_loop_sums:
  "weak_loop len i xs a b = (a + byte_sum xs, b + weighted_sum (len - of_nat i) xs)"
  by (induction xs arbitrary: i a b) (simp_all add: algebra_simps)

lemma weighted_sum_append:
  "weighted_sum w (xs @ ys) = weighted_sum w xs + weighted_sum (w - of_nat (length xs)) ys"
  by (induction xs arbitrary: w) (simp_all add: algebra_simps)

lemma weighted_sum_less: "weighted_sum (w - 1) xs = weighted_sum w xs - byte_sum xs"
proof (induction xs arbitrary: w)
  case (Cons x xs)
  show ?case using Cons [of "w - 1"] by (simp add: algebra_simps)
qed simp

lemma rolling_new_sums:
  "rolling_new xs = \<lparr>rw_a = byte_sum xs, rw_b = weighted_sum (of_nat (length xs)) xs,
     rw_len = of_nat (length xs)\<rparr>"
  by (simp add: rolling_new_def weak_loop_sums Let_def)

lemma roll_slides: "roll out inp (rolling_new (out # w)) = rolling_new (w @ [inp])"
proof -
  let ?n = "of_nat (length w) :: u32"
  have "weighted_sum (?n + 1) (w @ [inp]) = weighted_sum (?n + 1) w + ucast inp"
    by (simp add: weighted_sum_append)
  moreover have "weighted_sum ?n w = weighted_sum (?n + 1) w - byte_sum w"
    using weighted_sum_less [of "?n + 1" w] by simp
  ultimately show ?thesis
    by (simp add: roll_def rolling_new_sums Let_def algebra_simps)
qed

lemma digest_new: "rolling_digest (rolling_new w) = weak32 w"
  by (simp add: rolling_digest_def weak32_def rolling_new_sums weak_loop_sums Let_def)

text \<open>The hash of a window is a function of the two sums modulo 2^16.\<close>

lemma mod_mask_and: "(x :: u32) AND mod_mask = take_bit 16 x"
proof -
  have "mod_mask = mask 16" by (simp add: mod_mask_def mask_eq_exp_minus_1)
  then show ?thesis by (simp add: take_bit_eq_mask)
qed

lemma unat_weak_pack: "unat (weak_pack a b) = unat a mod 2 ^ 16 + 2 ^ 16 * (unat b mod 2 ^ 16)"
proof -
  let ?lo = "take_bit 16 a" and ?hi = "push_bit 16 (take_bit 16 b)"
  have lo: "unat ?lo = unat a mod 2 ^ 16" by (simp only: unsigned_take_bit_eq) (simp add: take_bit_eq_mod)
  have hi: "unat ?hi = 2 ^ 16 * (unat b mod 2 ^ 16)"
    unfolding unsigned_push_bit_eq unsigned_take_bit_eq
    by (simp add: push_bit_eq_mult take_bit_eq_mod mod_mult_mult2 mult.commute)
  have "?lo AND ?hi = 0"
    by (rule bit_word_eqI) (auto simp: bit_and_iff bit_take_bit_iff bit_push_bit_iff)
  then have "weak_pack a b = ?lo + ?hi"
    by (simp add: weak_pack_def mod_mask_and disjunctive_add_eq_or)
  moreover have "unat (?lo + ?hi) = unat ?lo + unat ?hi"
  proof (rule unat_add_lem [THEN iffD1])
    have "unat a mod 65536 < 65536" "unat b mod 65536 < 65536" by simp_all
    then have "unat a mod 65536 + 65536 * (unat b mod 65536) < 4294967296" by linarith
    then have "unat ?lo + unat ?hi < 2 ^ 32" unfolding lo hi by simp
    then show "unat ?lo + unat ?hi < 2 ^ LENGTH(32)" by simp
  qed
  ultimately show ?thesis by (simp only: lo hi)
qed

text \<open>The definition of the module's documentation, over the natural numbers.\<close>

fun plain_weighted :: "bytes \<Rightarrow> nat" where
  "plain_weighted [] = 0"
| "plain_weighted (x # xs) = (length xs + 1) * unat x + plain_weighted xs"

definition weak_reference :: "bytes \<Rightarrow> nat" where
  "weak_reference xs = sum_list (map unat xs) mod 2 ^ 16 + 2 ^ 16 * (plain_weighted xs mod 2 ^ 16)"

lemma byte_sum_of_nat: "byte_sum xs = of_nat (sum_list (map unat xs))"
  by (induction xs) simp_all

lemma weighted_sum_of_nat: "weighted_sum (of_nat (length xs)) xs = of_nat (plain_weighted xs)"
  by (induction xs) (simp_all add: algebra_simps)

lemma unat_of_nat_mod: "unat (of_nat n :: u32) mod 2 ^ 16 = n mod 2 ^ 16"
  by (simp add: unsigned_of_nat take_bit_eq_mod mod_mod_cancel)

lemma weak32_reference: "unat (weak32 xs) = weak_reference xs"
proof -
  have "weighted_sum (of_nat (length xs) - of_nat 0) xs = of_nat (plain_weighted xs)"
    by (simp add: weighted_sum_of_nat)
  then show ?thesis
    by (simp only: weak32_def weak_loop_sums Let_def prod.case unat_weak_pack weak_reference_def add_0
      byte_sum_of_nat unat_of_nat_mod)
qed

end
