(* ===== verification/Block_Signature.thy ===== *)
theory Block_Signature
  imports Codec Cavs_Hash Prelude Weak_Hash
begin

text \<open>
  Block signatures (\<^verbatim>\<open>.cavssig\<close>): the types, the encoder and the decoder of
  \<^verbatim>\<open>core/cavs-signature/src/lib.rs\<close>.  Entries and blocks are codecs whose validity depends on what
  was read before them: the ids already seen, and how far each entry is covered.
\<close>

section \<open>Types\<close>

definition signature_magic :: bytes where
  "signature_magic = ascii ''CAVSSIG1''"

definition signature_version :: u16 where
  "signature_version = 1"

definition default_block_size :: u32 where
  "default_block_size = 64 * 1024"

definition max_entries :: u64 where
  "max_entries = push_bit 24 1"

definition max_blocks :: u64 where
  "max_blocks = push_bit 28 1"

definition min_block_size :: u32 where
  "min_block_size = push_bit 10 1"

definition max_block_size :: u32 where
  "max_block_size = push_bit 26 1"

datatype signature_error = SigBadMagic | SigUnsupportedVersion u16 | SigTruncated string | SigMalformed string
  | SigIntegrityMismatch | SigSourceMismatch string | SigIo string

datatype signature_kind = SingleArtifact | DirectoryContainer

fun signature_kind_code :: "signature_kind \<Rightarrow> byte" where
  "signature_kind_code SingleArtifact = 1"
| "signature_kind_code DirectoryContainer = 2"

definition signature_kind_from_u8 :: "byte \<Rightarrow> signature_kind option" where
  "signature_kind_from_u8 v =
     (if v = 1 then Some SingleArtifact else if v = 2 then Some DirectoryContainer else None)"

fun signature_kind_label :: "signature_kind \<Rightarrow> string" where
  "signature_kind_label SingleArtifact = ''single-artifact''"
| "signature_kind_label DirectoryContainer = ''directory-container''"

datatype entry_kind = EntryFile | EntryDirectory | EntrySymlink

fun entry_kind_code :: "entry_kind \<Rightarrow> byte" where
  "entry_kind_code EntryFile = 1"
| "entry_kind_code EntryDirectory = 2"
| "entry_kind_code EntrySymlink = 3"

definition entry_kind_from_u8 :: "byte \<Rightarrow> entry_kind option" where
  "entry_kind_from_u8 v = (if v = 1 then Some EntryFile else if v = 2 then Some EntryDirectory
     else if v = 3 then Some EntrySymlink else None)"

record signature_entry =
  entry_id :: u32
  entry_path :: bytes
  entry_kind :: entry_kind
  entry_size :: u64
  entry_executable :: bool
  symlink_target :: "bytes option"

record block_hash =
  block_entry :: u32
  block_offset :: u64
  block_len :: u32
  block_weak :: u32
  block_strong :: chunk_hash

record cavs_signature =
  cs_kind :: signature_kind
  created_at_unix_ms :: u64
  source_label :: bytes
  cs_source_size :: u64
  source_blake3 :: "chunk_hash option"
  chunker_profile :: bytes
  cs_block_size :: u32
  cs_entries :: "signature_entry list"
  cs_blocks :: "block_hash list"
  cs_merkle_root :: chunk_hash

section \<open>Fields\<close>

definition read_var :: "bytes \<Rightarrow> signature_error + u64 \<times> bytes" where
  "read_var = read_varuint_with (SigTruncated ''varint'') (SigMalformed ''overlong varint'')
     (SigMalformed ''varint overflow'')"

definition write_str :: "bytes \<Rightarrow> bytes" where
  "write_str s = write_varuint (of_nat (length s)) @ s"

definition read_str :: "bytes \<Rightarrow> signature_error + bytes \<times> bytes" where
  "read_str input =
     rbind (read_var input) (\<lambda>(len, input).
     let len = unat len in
     if length input < len \<or> 2 ^ 16 < len then Inl (SigTruncated ''string'')
     else if is_utf8 (take len input) then Inr (take len input, drop len input)
     else Inl (SigMalformed ''string not UTF-8''))"

definition take_byte :: "string \<Rightarrow> bytes \<Rightarrow> signature_error + byte \<times> bytes" where
  "take_byte what input = rbind (take_bytes (SigTruncated what) 1 input) (\<lambda>(b, input). Inr (hd b, input))"

fun flag_byte :: "bool \<Rightarrow> byte" where
  "flag_byte b = (if b then 1 else 0)"

definition read_flag :: "string \<Rightarrow> bytes \<Rightarrow> signature_error + bool \<times> bytes" where
  "read_flag what input =
     rbind (take_byte what input) (\<lambda>(b, input).
     if b = 0 then Inr (False, input) else if b = 1 then Inr (True, input) else Inl (SigMalformed what))"

definition write_source_hash :: "chunk_hash option \<Rightarrow> bytes" where
  "write_source_hash h = (case h of Some h \<Rightarrow> 1 # h | None \<Rightarrow> [0])"

definition read_source_hash :: "bytes \<Rightarrow> signature_error + chunk_hash option \<times> bytes" where
  "read_source_hash input =
     rbind (take_byte ''source hash flag'' input) (\<lambda>(b, input).
     if b = 0 then Inr (None, input)
     else if b = 1 then
       rbind (take_bytes (SigTruncated ''source hash'') 32 input) (\<lambda>(h, input). Inr (Some h, input))
     else Inl (SigMalformed ''source hash flag''))"

section \<open>Entries\<close>

definition write_entry :: "signature_entry \<Rightarrow> bytes" where
  "write_entry e =
     write_varuint (ucast (entry_id e)) @ write_str (entry_path e) @ [entry_kind_code (entry_kind e)]
     @ write_varuint (entry_size e) @ [flag_byte (entry_executable e)]
     @ write_str (case symlink_target e of None \<Rightarrow> [] | Some t \<Rightarrow> t)"

definition read_entry :: "u32 set \<Rightarrow> bytes \<Rightarrow> signature_error + signature_entry \<times> bytes" where
  "read_entry seen input =
     rbind (read_var input) (\<lambda>(i, input).
     if 0xffffffff < i \<or> ucast i \<in> seen then Inl (SigMalformed ''duplicate or invalid entry id'')
     else
     rbind (read_str input) (\<lambda>(path, input).
     rbind (take_byte ''entry kind'' input) (\<lambda>(k, input).
     rbind (ok_or (SigMalformed ''unknown entry kind'') (entry_kind_from_u8 k)) (\<lambda>kind.
     rbind (read_var input) (\<lambda>(size, input).
     rbind (read_flag ''executable flag'' input) (\<lambda>(exec, input).
     rbind (read_str input) (\<lambda>(target, input).
     Inr (\<lparr>entry_id = ucast i, entry_path = path, entry_kind = kind, entry_size = size,
           entry_executable = exec, symlink_target = (if target = [] then None else Some target)\<rparr>, input))))))))"

fun read_entries :: "nat \<Rightarrow> u32 set \<Rightarrow> bytes \<Rightarrow> signature_error + signature_entry list \<times> bytes" where
  "read_entries 0 seen input = Inr ([], input)"
| "read_entries (Suc n) seen input =
     rbind (read_entry seen input) (\<lambda>(e, input).
     rbind (read_entries n (insert (entry_id e) seen) input) (\<lambda>(es, input). Inr (e # es, input)))"

section \<open>Blocks\<close>

definition write_block :: "block_hash \<Rightarrow> bytes" where
  "write_block b =
     write_varuint (ucast (block_entry b)) @ write_varuint (block_offset b)
     @ write_varuint (ucast (block_len b)) @ to_le 4 (block_weak b) @ block_strong b"

definition read_block :: "u64 \<Rightarrow> u32 set \<Rightarrow> (u32 \<Rightarrow> u64) \<Rightarrow> bytes \<Rightarrow> signature_error + block_hash \<times> bytes" where
  "read_block bsize seen covered input =
     rbind (read_var input) (\<lambda>(i, input).
     if 0xffffffff < i \<or> ucast i \<notin> seen then Inl (SigMalformed ''block references unknown entry'')
     else
     rbind (read_var input) (\<lambda>(offset, input).
     rbind (read_var input) (\<lambda>(len, input).
     if len = 0 \<or> bsize < len then Inl (SigMalformed ''block length out of range'')
     else if offset \<noteq> covered (ucast i) then Inl (SigMalformed ''blocks not contiguous'')
     else
     rbind (take_le (SigTruncated ''weak hash'') 4 input) (\<lambda>(weak, input).
     rbind (take_bytes (SigTruncated ''strong hash'') 32 input) (\<lambda>(strong, input).
     Inr (\<lparr>block_entry = ucast i, block_offset = offset, block_len = ucast len, block_weak = weak,
           block_strong = strong\<rparr>, input))))))"

definition cover_block :: "block_hash \<Rightarrow> (u32 \<Rightarrow> u64) \<Rightarrow> u32 \<Rightarrow> u64" where
  "cover_block b covered = covered(block_entry b := block_offset b + ucast (block_len b))"

fun read_blocks :: "u64 \<Rightarrow> u32 set \<Rightarrow> nat \<Rightarrow> (u32 \<Rightarrow> u64) \<Rightarrow> bytes
    \<Rightarrow> signature_error + (block_hash list \<times> (u32 \<Rightarrow> u64)) \<times> bytes" where
  "read_blocks bsize seen 0 covered input = Inr (([], covered), input)"
| "read_blocks bsize seen (Suc n) covered input =
     rbind (read_block bsize seen covered input) (\<lambda>(b, input).
     rbind (read_blocks bsize seen n (cover_block b covered) input) (\<lambda>((bs, covered), input).
     Inr ((b # bs, covered), input)))"

definition covers_entry :: "(u32 \<Rightarrow> u64) \<Rightarrow> signature_entry \<Rightarrow> bool" where
  "covers_entry covered e \<longleftrightarrow> covered (entry_id e) = (if entry_kind e = EntryFile then entry_size e else 0)"

section \<open>The file\<close>

definition signature_body :: "cavs_signature \<Rightarrow> bytes" where
  "signature_body s =
     to_le 2 signature_version @ [signature_kind_code (cs_kind s)]
     @ write_varuint (created_at_unix_ms s) @ write_varuint (ucast (cs_block_size s))
     @ write_varuint (cs_source_size s) @ write_source_hash (source_blake3 s)
     @ write_str (source_label s) @ write_str (chunker_profile s)
     @ write_varuint (of_nat (length (cs_entries s))) @ encode_all write_entry (cs_entries s)
     @ write_varuint (of_nat (length (cs_blocks s))) @ encode_all write_block (cs_blocks s)
     @ cs_merkle_root s"

definition signature_encode :: "hash_fun \<Rightarrow> cavs_signature \<Rightarrow> bytes" where
  "signature_encode blake3 s =
     (let out = signature_magic @ signature_body s in out @ hash_chunk blake3 out)"

definition read_signature_body :: "hash_fun \<Rightarrow> bytes \<Rightarrow> signature_error + cavs_signature" where
  "read_signature_body blake3 input =
     rbind (take_le (SigTruncated ''version'') 2 input) (\<lambda>(version, input).
     if version \<noteq> signature_version then Inl (SigUnsupportedVersion version)
     else
     rbind (take_byte ''kind'' input) (\<lambda>(k, input).
     rbind (ok_or (SigMalformed ''unknown signature kind'') (signature_kind_from_u8 k)) (\<lambda>kind.
     rbind (read_var input) (\<lambda>(created_at, input).
     rbind (read_var input) (\<lambda>(bsize, input).
     if \<not> (ucast min_block_size \<le> bsize \<and> bsize \<le> ucast max_block_size)
     then Inl (SigMalformed ''block size out of range'')
     else
     rbind (read_var input) (\<lambda>(size, input).
     rbind (read_source_hash input) (\<lambda>(hash, input).
     rbind (read_str input) (\<lambda>(label, input).
     rbind (read_str input) (\<lambda>(profile, input).
     rbind (read_var input) (\<lambda>(entry_count, input).
     if max_entries < entry_count then Inl (SigMalformed ''entry count too large'')
     else
     rbind (read_entries (unat entry_count) {} input) (\<lambda>(es, input).
     rbind (read_var input) (\<lambda>(block_count, input).
     if max_blocks < block_count then Inl (SigMalformed ''block count too large'')
     else
     rbind (read_blocks bsize (entry_id ` set es) (unat block_count) (\<lambda>_. 0) input)
       (\<lambda>((bs, covered), input).
     if \<not> list_all (covers_entry covered) es
     then Inl (SigMalformed ''blocks do not cover entry size'')
     else
     rbind (take_bytes (SigTruncated ''merkle root'') 32 input) (\<lambda>(root, input).
     if input \<noteq> [] then Inl (SigMalformed ''trailing bytes'')
     else if merkle_root blake3 (map block_strong bs) \<noteq> root
     then Inl (SigMalformed ''merkle root mismatch'')
     else Inr \<lparr>cs_kind = kind, created_at_unix_ms = created_at, source_label = label,
               cs_source_size = size, source_blake3 = hash, chunker_profile = profile,
               cs_block_size = ucast bsize, cs_entries = es, cs_blocks = bs, cs_merkle_root = root\<rparr>))))))))))))))"

definition signature_decode :: "hash_fun \<Rightarrow> bytes \<Rightarrow> signature_error + cavs_signature" where
  "signature_decode blake3 bs =
     (if length bs < length signature_magic + 2 + 32 then Inl (SigTruncated ''header'')
      else if take 8 bs \<noteq> signature_magic then Inl SigBadMagic
      else
      let body_len = length bs - 32 in
      if hash_chunk blake3 (take body_len bs) \<noteq> drop body_len bs then Inl SigIntegrityMismatch
      else read_signature_body blake3 (drop 8 (take body_len bs)))"

end
