(* ===== verification/Signature_Laws.thy ===== *)
theory Signature_Laws
  imports Block_Signature
begin

text \<open>
  The signature format is a codec: the decoder accepts exactly the encodings of well-formed
  signatures.  Well-formedness says that the blocks of each entry lie one after the other from its
  start, and cover it.
\<close>

section \<open>Fields\<close>

interpretation sig_var: codec write_varuint read_var "\<lambda>_. True"
  unfolding read_var_def by (rule varuint.codec_axioms)

definition valid_str :: "bytes \<Rightarrow> bool" where
  "valid_str s \<longleftrightarrow> is_utf8 s \<and> length s \<le> 2 ^ 16"

interpretation sig_str: codec write_str read_str valid_str
proof unfold_locales
  fix s rest input :: bytes
  assume v: "valid_str s"
  then have "unat (of_nat (length s) :: u64) = length s"
    by (simp add: valid_str_def unsigned_of_nat take_bit_nat_eq_self)
  then show "read_str (write_str s @ rest) = Inr (s, rest)"
    using v by (simp add: read_str_def write_str_def valid_str_def sig_var.dec_enc)
next
  fix s rest input :: bytes
  assume r: "read_str input = Inr (s, rest)"
  then obtain n r1 where n: "read_var input = Inr (n, r1)"
    by (cases "read_var input") (auto simp: read_str_def)
  with r have "unat n \<le> length r1" "unat n \<le> 2 ^ 16" "s = take (unat n) r1" "rest = drop (unat n) r1" "is_utf8 s"
    by (auto simp: read_str_def Let_def not_less split: if_splits)
  then show "valid_str s \<and> input = write_str s @ rest"
    using sig_var.dec_sound [OF n] by (simp add: valid_str_def write_str_def)
qed

interpretation sig_byte: codec "\<lambda>b. [b]" "take_byte what" "\<lambda>_. True" for what
proof unfold_locales
  fix b :: byte and rest input
  show "take_byte what ([b] @ rest) = Inr (b, rest)" by (simp add: take_byte_def take_bytes_def)
  show "True \<and> input = [b] @ rest" if "take_byte what input = Inr (b, rest)"
    using that by (auto simp: take_byte_def rbind_eq_Inr take_bytes_eq_Inr length_Suc_conv)
qed

interpretation sig_flag: codec "\<lambda>b. [flag_byte b]" "read_flag what" "\<lambda>_. True" for what
proof unfold_locales
  fix b rest input
  show "read_flag what ([flag_byte b] @ rest) = Inr (b, rest)"
    unfolding read_flag_def sig_byte.dec_enc [OF TrueI] by simp
  show "True \<and> input = [flag_byte b] @ rest" if "read_flag what input = Inr (b, rest)"
    using that sig_byte.dec_sound by (fastforce simp: read_flag_def rbind_eq_Inr split: if_splits)
qed

definition valid_hash_opt :: "chunk_hash option \<Rightarrow> bool" where
  "valid_hash_opt h \<longleftrightarrow> (case h of None \<Rightarrow> True | Some h \<Rightarrow> length h = 32)"

interpretation sig_hash: codec write_source_hash read_source_hash valid_hash_opt
proof unfold_locales
  fix h rest input
  assume v: "valid_hash_opt h"
  have cons: "x # r = [x] @ r" for x :: byte and r by simp
  show "read_source_hash (write_source_hash h @ rest) = Inr (h, rest)"
  proof (cases h)
    case None
    then show ?thesis
      unfolding read_source_hash_def write_source_hash_def None option.case sig_byte.dec_enc [OF TrueI] by simp
  next
    case (Some x)
    have "write_source_hash h @ rest = [1] @ x @ rest" by (simp add: write_source_hash_def Some)
    then show ?thesis
      using v unfolding read_source_hash_def
      by (simp only: sig_byte.dec_enc [OF TrueI]) (simp add: Some valid_hash_opt_def)
  qed
next
  fix h rest input
  assume r: "read_source_hash input = Inr (h, rest)"
  then obtain b r1 where b: "take_byte ''source hash flag'' input = Inr (b, r1)"
    by (cases "take_byte ''source hash flag'' input") (auto simp: read_source_hash_def)
  then show "valid_hash_opt h \<and> input = write_source_hash h @ rest"
    using r sig_byte.dec_sound [OF b]
    by (auto simp: read_source_hash_def rbind_eq_Inr take_bytes_eq_Inr valid_hash_opt_def
        write_source_hash_def split: if_splits)
qed

section \<open>Kinds\<close>

lemma signature_kind_code [simp]: "signature_kind_from_u8 (signature_kind_code k) = Some k"
  by (cases k) (simp_all add: signature_kind_from_u8_def)

lemma signature_kind_from_u8_Some: "signature_kind_from_u8 v = Some k \<Longrightarrow> v = signature_kind_code k"
  by (auto simp: signature_kind_from_u8_def split: if_splits)

lemma entry_kind_code [simp]: "entry_kind_from_u8 (entry_kind_code k) = Some k"
  by (cases k) (simp_all add: entry_kind_from_u8_def)

lemma entry_kind_from_u8_Some: "entry_kind_from_u8 v = Some k \<Longrightarrow> v = entry_kind_code k"
  by (auto simp: entry_kind_from_u8_def split: if_splits)

section \<open>Entries\<close>

text \<open>A 32-bit number written as a 64-bit varint.\<close>

lemma u32_u64 [simp]: "ucast (ucast (x :: u32) :: u64) = x" "\<not> 0xffffffff < (ucast (x :: u32) :: u64)"
proof -
  show "ucast (ucast x :: u64) = x" by (rule bit_word_eqI) (simp add: bit_ucast_iff)
  have "unat x < 2 ^ 32" using unsigned_less [of x, where 'a = nat] by simp
  then show "\<not> 0xffffffff < (ucast x :: u64)"
    by (simp add: word_less_nat_alt unsigned_ucast_eq take_bit_nat_eq_self)
qed

lemma u64_u32: "\<not> 0xffffffff < (x :: u64) \<Longrightarrow> ucast (ucast x :: u32) = x"
proof -
  assume "\<not> 0xffffffff < x"
  then have "unat x < 2 ^ 32" by (simp add: word_less_nat_alt)
  then have "unat (ucast (ucast x :: u32) :: u64) = unat x"
    by (simp add: unsigned_ucast_eq unsigned_take_bit_eq take_bit_nat_eq_self)
  then show ?thesis by (simp only: unsigned_word_eqI)
qed

definition valid_entry :: "u32 set \<Rightarrow> signature_entry \<Rightarrow> bool" where
  "valid_entry seen e \<longleftrightarrow> entry_id e \<notin> seen \<and> valid_str (entry_path e)
     \<and> (case symlink_target e of None \<Rightarrow> True | Some t \<Rightarrow> t \<noteq> [] \<and> valid_str t)"

lemma valid_str_Nil [simp]: "valid_str []"
  by (simp add: valid_str_def)

interpretation sig_entry: codec write_entry "read_entry seen" "valid_entry seen" for seen
proof unfold_locales
  fix e rest input
  assume v: "valid_entry seen e"
  let ?target = "case symlink_target e of None \<Rightarrow> [] | Some t \<Rightarrow> t"
  have t: "valid_str ?target" "(if ?target = [] then None else Some ?target) = symlink_target e"
    using v by (auto simp: valid_entry_def split: option.splits)
  have p: "valid_str (entry_path e)" "entry_id e \<notin> seen" using v by (simp_all add: valid_entry_def)
  show "read_entry seen (write_entry e @ rest) = Inr (e, rest)"
    unfolding read_entry_def write_entry_def append_assoc sig_var.dec_enc [OF TrueI] rbind_simps prod.case
      sig_str.dec_enc [OF p(1)] sig_byte.dec_enc [OF TrueI] sig_flag.dec_enc [OF TrueI]
      sig_str.dec_enc [OF t(1)] t(2) entry_kind_code ok_or_simps u32_u64
    using p(2) by (simp add: sig_var.dec_enc sig_str.dec_enc [OF p(1)] sig_str.dec_enc [OF t(1)]
        sig_byte.dec_enc [simplified] sig_flag.dec_enc [simplified] t(2))
next
  fix e rest input
  assume r: "read_entry seen input = Inr (e, rest)"
  then obtain i r1 where i: "read_var input = Inr (i, r1)" "\<not> 0xffffffff < i" "ucast i \<notin> seen"
    by (cases "read_var input") (auto simp: read_entry_def split: if_splits)
  with r obtain path r2 k r3 kind size r4 exec r5 target where parts:
      "read_str r1 = Inr (path, r2)" "take_byte ''entry kind'' r2 = Inr (k, r3)"
      "entry_kind_from_u8 k = Some kind" "read_var r3 = Inr (size, r4)"
      "read_flag ''executable flag'' r4 = Inr (exec, r5)" "read_str r5 = Inr (target, rest)"
      "e = \<lparr>entry_id = ucast i, entry_path = path, entry_kind = kind, entry_size = size,
           entry_executable = exec, symlink_target = (if target = [] then None else Some target)\<rparr>"
    by (auto simp: read_entry_def rbind_eq_Inr ok_or_eq_Inr)
  show "valid_entry seen e \<and> input = write_entry e @ rest"
    using sig_var.dec_sound [OF i(1)] sig_str.dec_sound [OF parts(1)] sig_byte.dec_sound [OF parts(2)]
      entry_kind_from_u8_Some [OF parts(3)] sig_var.dec_sound [OF parts(4)] sig_flag.dec_sound [OF parts(5)]
      sig_str.dec_sound [OF parts(6)] i(3) u64_u32 [OF i(2)]
    by (simp add: valid_entry_def write_entry_def parts(7))
qed

fun valid_entries :: "u32 set \<Rightarrow> signature_entry list \<Rightarrow> bool" where
  "valid_entries seen [] = True"
| "valid_entries seen (e # es) \<longleftrightarrow> valid_entry seen e \<and> valid_entries (insert (entry_id e) seen) es"

lemma read_entries_write:
  "valid_entries seen es \<Longrightarrow> read_entries (length es) seen (encode_all write_entry es @ rest) = Inr (es, rest)"
  by (induction es arbitrary: seen) (simp_all add: sig_entry.dec_enc)

lemma read_entries_sound:
  "read_entries n seen input = Inr (es, rest) \<Longrightarrow>
     length es = n \<and> valid_entries seen es \<and> input = encode_all write_entry es @ rest"
proof (induction n arbitrary: seen input es)
  case (Suc n)
  then obtain e r1 es' where "read_entry seen input = Inr (e, r1)"
      "read_entries n (insert (entry_id e) seen) r1 = Inr (es', rest)" "es = e # es'"
    by (auto simp: rbind_eq_Inr)
  then show ?case using sig_entry.dec_sound Suc.IH by fastforce
qed simp

section \<open>Blocks\<close>

definition valid_block :: "u32 \<Rightarrow> u32 set \<Rightarrow> (u32 \<Rightarrow> u64) \<Rightarrow> block_hash \<Rightarrow> bool" where
  "valid_block bsize seen covered b \<longleftrightarrow> block_entry b \<in> seen \<and> block_len b \<noteq> 0 \<and> block_len b \<le> bsize
     \<and> block_offset b = covered (block_entry b) \<and> length (block_strong b) = 32"

lemma u32_le_u64 [simp]: "(ucast (x :: u32) :: u64) \<le> ucast (y :: u32) \<longleftrightarrow> x \<le> y"
  "(ucast x :: u64) = 0 \<longleftrightarrow> x = 0"
proof -
  have u: "unat (ucast z :: u64) = unat z" for z :: u32
    using unsigned_less [of z, where 'a = nat] by (simp add: unsigned_ucast_eq take_bit_nat_eq_self)
  show "(ucast x :: u64) \<le> ucast y \<longleftrightarrow> x \<le> y" by (simp add: word_le_nat_alt u)
  show "(ucast x :: u64) = 0 \<longleftrightarrow> x = 0" using u [of x] by (metis unat_eq_zero)
qed

lemma u64_below_u32:
  assumes "len \<le> (ucast (y :: u32) :: u64)"
  shows "(ucast (ucast len :: u32) :: u64) = len" "ucast len \<le> y" "len \<noteq> 0 \<Longrightarrow> (ucast len :: u32) \<noteq> 0"
proof -
  have "\<not> 0xffffffff < len" using assms u32_u64(2) [of y] by (meson le_less_trans not_less)
  then show e: "(ucast (ucast len :: u32) :: u64) = len" by (rule u64_u32)
  show "ucast len \<le> y" using assms u32_le_u64(1) [of "ucast len" y] by (simp add: e)
  show "(ucast len :: u32) \<noteq> 0" if "len \<noteq> 0" using that e by auto
qed

interpretation sig_block: codec write_block "read_block (ucast bsize) seen covered"
    "valid_block bsize seen covered" for bsize :: u32 and seen covered
proof unfold_locales
  fix b rest input
  assume v: "valid_block bsize seen covered b"
  have le: "take_le e 4 (to_le 4 x @ r) = Inr (x, r)" for e :: signature_error and x :: u32 and r
    by (rule le32.dec_enc) simp
  show "read_block (ucast bsize) seen covered (write_block b @ rest) = Inr (b, rest)"
    using v by (simp add: read_block_def write_block_def valid_block_def sig_var.dec_enc le not_less)
next
  fix b rest input
  assume r: "read_block (ucast bsize) seen covered input = Inr (b, rest)"
  then obtain i r1 where i: "read_var input = Inr (i, r1)" "\<not> 0xffffffff < i" "ucast i \<in> seen"
    by (cases "read_var input") (auto simp: read_block_def split: if_splits)
  with r obtain r2 len r3 weak r4 strong where parts:
      "read_var r1 = Inr (covered (ucast i), r2)" "read_var r2 = Inr (len, r3)" "len \<noteq> 0" "len \<le> ucast bsize"
      "take_le (SigTruncated ''weak hash'') 4 r3 = Inr (weak, r4)" "r4 = strong @ rest" "length strong = 32"
      "b = \<lparr>block_entry = ucast i, block_offset = covered (ucast i), block_len = ucast len, block_weak = weak,
           block_strong = strong\<rparr>"
    by (auto simp: read_block_def rbind_eq_Inr take_bytes_eq_Inr not_less split: if_splits)
  show "valid_block bsize seen covered b \<and> input = write_block b @ rest"
    using sig_var.dec_sound [OF i(1)] sig_var.dec_sound [OF parts(1)] sig_var.dec_sound [OF parts(2)]
      le32.dec_sound [OF parts(5)] u64_u32 [OF i(2)] i(3) u64_below_u32 [OF parts(4)] parts(3,6,7)
    by (simp add: valid_block_def write_block_def parts(8))
qed

fun valid_blocks :: "u32 \<Rightarrow> u32 set \<Rightarrow> (u32 \<Rightarrow> u64) \<Rightarrow> block_hash list \<Rightarrow> bool" where
  "valid_blocks bsize seen covered [] = True"
| "valid_blocks bsize seen covered (b # bs) \<longleftrightarrow>
     valid_block bsize seen covered b \<and> valid_blocks bsize seen (cover_block b covered) bs"

definition coverage :: "block_hash list \<Rightarrow> (u32 \<Rightarrow> u64) \<Rightarrow> u32 \<Rightarrow> u64" where
  "coverage bs covered = fold cover_block bs covered"

lemma read_blocks_write:
  "valid_blocks bsize seen covered bs \<Longrightarrow>
     read_blocks (ucast bsize) seen (length bs) covered (encode_all write_block bs @ rest)
     = Inr ((bs, coverage bs covered), rest)"
  by (induction bs arbitrary: covered) (simp_all add: sig_block.dec_enc coverage_def)

lemma read_blocks_sound:
  "read_blocks (ucast bsize) seen n covered input = Inr ((bs, covered'), rest) \<Longrightarrow>
     length bs = n \<and> valid_blocks bsize seen covered bs \<and> covered' = coverage bs covered
     \<and> input = encode_all write_block bs @ rest"
proof (induction n arbitrary: covered input bs)
  case (Suc n)
  then obtain b r1 bs' where "read_block (ucast bsize) seen covered input = Inr (b, r1)"
      "read_blocks (ucast bsize) seen n (cover_block b covered) r1 = Inr ((bs', covered'), rest)" "bs = b # bs'"
    by (auto simp: rbind_eq_Inr)
  then show ?case using sig_block.dec_sound Suc.IH by (fastforce simp: coverage_def)
qed (simp add: coverage_def)

section \<open>The file\<close>

definition wf_signature :: "hash_fun \<Rightarrow> cavs_signature \<Rightarrow> bool" where
  "wf_signature blake3 s \<longleftrightarrow>
     min_block_size \<le> cs_block_size s \<and> cs_block_size s \<le> max_block_size
     \<and> valid_hash_opt (source_blake3 s) \<and> valid_str (source_label s) \<and> valid_str (chunker_profile s)
     \<and> length (cs_entries s) \<le> 2 ^ 24 \<and> valid_entries {} (cs_entries s)
     \<and> length (cs_blocks s) \<le> 2 ^ 28
     \<and> valid_blocks (cs_block_size s) (entry_id ` set (cs_entries s)) (\<lambda>_. 0) (cs_blocks s)
     \<and> list_all (covers_entry (coverage (cs_blocks s) (\<lambda>_. 0))) (cs_entries s)
     \<and> length (cs_merkle_root s) = 32 \<and> cs_merkle_root s = merkle_root blake3 (map block_strong (cs_blocks s))"

lemma count_fits:
  "n \<le> 2 ^ 24 \<Longrightarrow> unat (of_nat n :: u64) = n \<and> \<not> max_entries < of_nat n"
  "n \<le> 2 ^ 28 \<Longrightarrow> unat (of_nat n :: u64) = n \<and> \<not> max_blocks < of_nat n"
proof -
  assume n: "n \<le> 2 ^ 24"
  then have u: "unat (of_nat n :: u64) = n" by (simp add: unsigned_of_nat take_bit_nat_eq_self)
  then show "unat (of_nat n :: u64) = n \<and> \<not> max_entries < of_nat n"
    using n by (simp add: max_entries_def word_less_nat_alt)
next
  assume n: "n \<le> 2 ^ 28"
  then have u: "unat (of_nat n :: u64) = n" by (simp add: unsigned_of_nat take_bit_nat_eq_self)
  then show "unat (of_nat n :: u64) = n \<and> \<not> max_blocks < of_nat n"
    using n by (simp add: max_blocks_def word_less_nat_alt)
qed

lemma body_decodes:
  assumes "wf_signature blake3 s"
  shows "read_signature_body blake3 (signature_body s) = Inr s"
proof -
  have le: "take_le e 2 (to_le 2 x @ r) = Inr (x, r)" for e :: signature_error and x :: u16 and r
    by (rule le16.dec_enc) simp
  have w: "valid_hash_opt (source_blake3 s)" "valid_str (source_label s)" "valid_str (chunker_profile s)"
    "valid_entries {} (cs_entries s)" "length (cs_merkle_root s) = 32"
    "valid_blocks (cs_block_size s) (entry_id ` set (cs_entries s)) (\<lambda>_. 0) (cs_blocks s)"
    "list_all (covers_entry (coverage (cs_blocks s) (\<lambda>_. 0))) (cs_entries s)"
    "cs_merkle_root s = merkle_root blake3 (map block_strong (cs_blocks s))"
    using assms unfolding wf_signature_def by blast+
  have range: "(ucast min_block_size :: u64) \<le> ucast (cs_block_size s)"
    "(ucast (cs_block_size s) :: u64) \<le> ucast max_block_size"
    using assms by (simp_all only: u32_le_u64 wf_signature_def)
  have n: "unat (of_nat (length (cs_entries s)) :: u64) = length (cs_entries s)"
    "\<not> max_entries < of_nat (length (cs_entries s))"
    "unat (of_nat (length (cs_blocks s)) :: u64) = length (cs_blocks s)"
    "\<not> max_blocks < of_nat (length (cs_blocks s))"
    using assms count_fits by (simp_all add: wf_signature_def)
  have root: "take_bytes e 32 (cs_merkle_root s) = Inr (cs_merkle_root s, [])" for e :: signature_error
    using w(5) by (simp add: take_bytes_def)
  show ?thesis
    unfolding read_signature_body_def signature_body_def append_assoc le rbind_simps prod.case
    by (simp only: le rbind_simps prod.case sig_byte.dec_enc [OF TrueI] sig_var.dec_enc [OF TrueI]
        signature_kind_code ok_or_simps sig_hash.dec_enc [OF w(1)] sig_str.dec_enc [OF w(2)]
        sig_str.dec_enc [OF w(3)] n read_entries_write [OF w(4)] read_blocks_write [OF w(6)] w(7) w(8) [symmetric] root
        range if_False if_True simp_thms u32_u64) simp
qed

lemma count_bound:
  "\<not> max_entries < c \<Longrightarrow> unat c \<le> 2 ^ 24" "\<not> max_blocks < c \<Longrightarrow> unat c \<le> 2 ^ 28"
  by (simp_all add: max_entries_def max_blocks_def word_less_nat_alt)

lemma block_size_range:
  assumes "(ucast min_block_size :: u64) \<le> n" "n \<le> ucast max_block_size"
  obtains m where "n = ucast m" "min_block_size \<le> m" "m \<le> max_block_size"
proof (rule that [of "ucast n"])
  show e: "n = ucast (ucast n :: u32)" using u64_below_u32(1) [OF assms(2)] by simp
  show "ucast n \<le> max_block_size" by (rule u64_below_u32(2) [OF assms(2)])
  show "min_block_size \<le> ucast n" using assms(1) u32_le_u64(1) [of min_block_size "ucast n"] e by simp
qed

lemma body_sound:
  assumes "read_signature_body blake3 input = Inr s"
  shows "wf_signature blake3 s \<and> input = signature_body s"
proof -
  from assms obtain r1 k r2 kind created r3 n r4 size r5 hash r6 label r7 profile r8 where head:
      "take_le (SigTruncated ''version'') 2 input = Inr (signature_version, r1)"
      "take_byte ''kind'' r1 = Inr (k, r2)" "signature_kind_from_u8 k = Some kind"
      "read_var r2 = Inr (created, r3)" "read_var r3 = Inr (n, r4)"
      "ucast min_block_size \<le> n" "n \<le> ucast max_block_size"
      "read_var r4 = Inr (size, r5)" "read_source_hash r5 = Inr (hash, r6)"
      "read_str r6 = Inr (label, r7)" "read_str r7 = Inr (profile, r8)"
    and rest: "rbind (read_var r8) (\<lambda>(entry_count, input).
     if max_entries < entry_count then Inl (SigMalformed ''entry count too large'')
     else
     rbind (read_entries (unat entry_count) {} input) (\<lambda>(es, input).
     rbind (read_var input) (\<lambda>(block_count, input).
     if max_blocks < block_count then Inl (SigMalformed ''block count too large'')
     else
     rbind (read_blocks n (entry_id ` set es) (unat block_count) (\<lambda>_. 0) input)
       (\<lambda>((bs, covered), input).
     if \<not> list_all (covers_entry covered) es
     then Inl (SigMalformed ''blocks do not cover entry size'')
     else
     rbind (take_bytes (SigTruncated ''merkle root'') 32 input) (\<lambda>(root, input).
     if input \<noteq> [] then Inl (SigMalformed ''trailing bytes'')
     else if merkle_root blake3 (map block_strong bs) \<noteq> root
     then Inl (SigMalformed ''merkle root mismatch'')
     else Inr \<lparr>cs_kind = kind, created_at_unix_ms = created, source_label = label,
               cs_source_size = size, source_blake3 = hash, chunker_profile = profile,
               cs_block_size = ucast n, cs_entries = es, cs_blocks = bs, cs_merkle_root = root\<rparr>))))) = Inr s"
    unfolding read_signature_body_def
    by (auto simp: rbind_eq_Inr ok_or_eq_Inr split: if_splits)
  obtain m where m: "n = ucast m" "min_block_size \<le> m" "m \<le> max_block_size"
    by (rule block_size_range [OF head(6,7)])
  from rest obtain ec r9 es r10 bc r11 bs covered r12 root where tail:
      "read_var r8 = Inr (ec, r9)" "\<not> max_entries < ec" "read_entries (unat ec) {} r9 = Inr (es, r10)"
      "read_var r10 = Inr (bc, r11)" "\<not> max_blocks < bc"
      "read_blocks n (entry_id ` set es) (unat bc) (\<lambda>_. 0) r11 = Inr ((bs, covered), r12)"
      "list_all (covers_entry covered) es" "take_bytes (SigTruncated ''merkle root'') 32 r12 = Inr (root, [])"
      "merkle_root blake3 (map block_strong bs) = root"
    and s: "s = \<lparr>cs_kind = kind, created_at_unix_ms = created, source_label = label,
               cs_source_size = size, source_blake3 = hash, chunker_profile = profile,
               cs_block_size = ucast n, cs_entries = es, cs_blocks = bs, cs_merkle_root = root\<rparr>"
    by (auto simp: rbind_eq_Inr split: if_splits)
  note es = read_entries_sound [OF tail(3)] and bs = read_blocks_sound [OF tail(6) [unfolded m(1)]]
  have counts: "of_nat (length es) = ec" "of_nat (length bs) = bc" using es bs by simp_all
  show ?thesis
    using le16.dec_sound [OF head(1)] sig_byte.dec_sound [OF head(2)] signature_kind_from_u8_Some [OF head(3)]
      sig_var.dec_sound [OF head(4)] sig_var.dec_sound [OF head(5)] sig_var.dec_sound [OF head(8)]
      sig_hash.dec_sound [OF head(9)] sig_str.dec_sound [OF head(10)] sig_str.dec_sound [OF head(11)]
      sig_var.dec_sound [OF tail(1)] es sig_var.dec_sound [OF tail(4)] bs tail(7,8,9) m
      count_bound(1) [OF tail(2)] count_bound(2) [OF tail(5)]
    by (simp add: s wf_signature_def signature_body_def counts take_bytes_eq_Inr)
qed

text \<open>Decoding is exact.\<close>

lemma length_signature_magic [simp]: "length signature_magic = 8"
  by (simp add: signature_magic_def)

lemma signature_decode_encode:
  assumes "hash_ok blake3" "wf_signature blake3 s"
  shows "signature_decode blake3 (signature_encode blake3 s) = Inr s"
proof -
  let ?out = "signature_magic @ signature_body s"
  have h: "length (blake3 ?out) = 32" using assms(1) by (simp add: hash_ok_def)
  have parts: "length (signature_encode blake3 s) - 32 = length ?out" "take 8 (signature_encode blake3 s) = signature_magic"
    "signature_encode blake3 s = ?out @ blake3 ?out"
    using h by (simp_all add: signature_encode_def hash_chunk_def Let_def)
  have "\<not> length (signature_encode blake3 s) < 8 + 2 + 32"
    using h by (simp add: parts(3) signature_body_def)
  then show ?thesis
    unfolding signature_decode_def Let_def parts(1,2) length_signature_magic
    by (simp add: parts(3) hash_chunk_def body_decodes [OF assms(2)])
qed

lemma signature_decode_sound:
  assumes "signature_decode blake3 bs = Inr s"
  shows "wf_signature blake3 s \<and> signature_encode blake3 s = bs"
proof -
  let ?body = "take (length bs - 32) bs"
  from assms have long: "42 \<le> length bs" and magic: "take 8 bs = signature_magic"
    and hash: "blake3 ?body = drop (length bs - 32) bs"
    and body: "read_signature_body blake3 (drop 8 ?body) = Inr s"
    by (auto simp: signature_decode_def Let_def hash_chunk_def split: if_splits)
  note sound = body_sound [OF body]
  have "8 \<le> length bs - 32" using long by linarith
  then have "take 8 ?body = signature_magic" using magic by (simp add: min_def)
  then have "signature_magic @ signature_body s = ?body"
    using sound append_take_drop_id [of 8 ?body] by simp
  then have "signature_encode blake3 s = ?body @ blake3 ?body"
    by (simp add: signature_encode_def hash_chunk_def Let_def)
  then show ?thesis using sound by (simp add: hash)
qed

end
