(* ===== verification/Signature_Builder.thy ===== *)
theory Signature_Builder
  imports Signature_Laws "HOL-Library.Monad_Syntax"
begin

text \<open>
  The streaming builder of signatures, and signing and checking of sources
  (\<^verbatim>\<open>core/cavs-signature/src/lib.rs\<close>).  The loop of \<^verbatim>\<open>append\<close> may not return for a full buffer, so
  it is a partial function; the builder's invariant shows that it always returns.
\<close>

section \<open>The builder\<close>

record signature_builder =
  sb_kind :: signature_kind
  sb_block_size :: u32
  sb_profile :: bytes
  sb_entries :: "signature_entry list"
  sb_blocks :: "block_hash list"
  sb_hasher :: hasher
  sb_total_size :: u64
  sb_buf :: bytes
  sb_offset :: u64

definition clamp_block_size :: "u32 \<Rightarrow> u32" where
  "clamp_block_size n = max min_block_size (min n max_block_size)"

definition builder_new :: "signature_kind \<Rightarrow> u32 \<Rightarrow> bytes \<Rightarrow> signature_builder" where
  "builder_new kind bsize profile =
     \<lparr>sb_kind = kind, sb_block_size = clamp_block_size bsize, sb_profile = profile, sb_entries = [],
      sb_blocks = [], sb_hasher = hasher_new, sb_total_size = 0, sb_buf = [], sb_offset = 0\<rparr>"

definition emit_block :: "hash_fun \<Rightarrow> signature_builder \<Rightarrow> signature_builder" where
  "emit_block blake3 b =
     (let i = (case rev (sb_entries b) of [] \<Rightarrow> 0 | e # _ \<Rightarrow> entry_id e);
          len = of_nat (length (sb_buf b)) :: u32
      in b\<lparr>sb_blocks := sb_blocks b @ [\<lparr>block_entry = i, block_offset = sb_offset b, block_len = len,
                          block_weak = weak32 (sb_buf b), block_strong = hash_chunk blake3 (sb_buf b)\<rparr>],
           sb_offset := sb_offset b + ucast len, sb_buf := []\<rparr>)"

definition flush_block :: "hash_fun \<Rightarrow> signature_builder \<Rightarrow> signature_builder" where
  "flush_block blake3 b = (if sb_buf b \<noteq> [] then emit_block blake3 b else b)"

definition begin_entry :: "hash_fun \<Rightarrow> bytes \<Rightarrow> bool \<Rightarrow> bytes option \<Rightarrow> signature_builder \<Rightarrow> signature_builder" where
  "begin_entry blake3 path exec target b =
     (let b = flush_block blake3 b
      in b\<lparr>sb_entries := sb_entries b @ [\<lparr>entry_id = of_nat (length (sb_entries b)), entry_path = path,
             entry_kind = EntryFile, entry_size = 0, entry_executable = exec, symlink_target = target\<rparr>],
           sb_offset := 0\<rparr>)"

definition on_last :: "('a \<Rightarrow> 'a) \<Rightarrow> 'a list \<Rightarrow> 'a list" where
  "on_last f xs = (case rev xs of [] \<Rightarrow> [] | x # ys \<Rightarrow> rev ys @ [f x])"

definition set_entry_kind :: "entry_kind \<Rightarrow> signature_builder \<Rightarrow> signature_builder" where
  "set_entry_kind kind b = b\<lparr>sb_entries := on_last (\<lambda>e. e\<lparr>entry_kind := kind\<rparr>) (sb_entries b)\<rparr>"

partial_function (option) append_loop :: "hash_fun \<Rightarrow> bytes \<Rightarrow> signature_builder \<Rightarrow> signature_builder option" where
  "append_loop blake3 data b =
     (if data = [] then Some b
      else
      let n = min (unat (sb_block_size b) - length (sb_buf b)) (length data);
          b = b\<lparr>sb_buf := sb_buf b @ take n data\<rparr>;
          b = (if length (sb_buf b) = unat (sb_block_size b) then emit_block blake3 b else b)
      in append_loop blake3 (drop n data) b)"

text \<open>\<^verbatim>\<open>append\<close> before any entry is a panic; \<open>None\<close> is a call that never returns.\<close>

definition builder_append :: "hash_fun \<Rightarrow> bytes \<Rightarrow> signature_builder \<Rightarrow> (string + signature_builder) option" where
  "builder_append blake3 data b =
     (if sb_entries b = [] then Some (Inl ''append before begin_entry'')
      else map_option Inr (append_loop blake3 data
        (b\<lparr>sb_entries := on_last (\<lambda>e. e\<lparr>entry_size := entry_size e + of_nat (length data)\<rparr>) (sb_entries b),
           sb_total_size := sb_total_size b + of_nat (length data),
           sb_hasher := hasher_update data (sb_hasher b)\<rparr>)))"

definition builder_finish :: "hash_fun \<Rightarrow> bytes \<Rightarrow> signature_builder \<Rightarrow> cavs_signature" where
  "builder_finish blake3 label b =
     (let b = flush_block blake3 b
      in \<lparr>cs_kind = sb_kind b, created_at_unix_ms = 0, source_label = label,
          cs_source_size = sb_total_size b, source_blake3 = Some (hasher_finalize blake3 (sb_hasher b)),
          chunker_profile = sb_profile b, cs_block_size = sb_block_size b, cs_entries = sb_entries b,
          cs_blocks = sb_blocks b, cs_merkle_root = merkle_root blake3 (map block_strong (sb_blocks b))\<rparr>)"

fun append_pieces :: "hash_fun \<Rightarrow> bytes list \<Rightarrow> signature_builder \<Rightarrow> (string + signature_builder) option" where
  "append_pieces blake3 [] b = Some (Inr b)"
| "append_pieces blake3 (p # ps) b =
     (case builder_append blake3 p b of
        Some (Inr b) \<Rightarrow> append_pieces blake3 ps b
      | stop \<Rightarrow> stop)"

section \<open>Signing a source\<close>

text \<open>The pieces are what successive reads of the file returned.\<close>

definition sign_file :: "hash_fun \<Rightarrow> bytes list \<Rightarrow> u32 \<Rightarrow> bytes \<Rightarrow> (string + cavs_signature) option" where
  "sign_file blake3 pieces bsize label =
     map_option (map_sum id (builder_finish blake3 label))
       (append_pieces blake3 pieces
         (begin_entry blake3 label False None (builder_new SingleArtifact bsize (ascii ''fixed''))))"

datatype source_item = SourceLink bytes | SourceDir | SourceFile bool "bytes list"

definition unix_path :: "bytes \<Rightarrow> bytes" where
  "unix_path p = map (\<lambda>c. if c = 0x5c then 0x2f else c) p"

fun sign_item :: "hash_fun \<Rightarrow> bytes \<times> source_item \<Rightarrow> signature_builder \<Rightarrow> (string + signature_builder) option" where
  "sign_item blake3 (rel, SourceLink target) b =
     Some (Inr (set_entry_kind EntrySymlink (begin_entry blake3 (unix_path rel) False (Some target) b)))"
| "sign_item blake3 (rel, SourceDir) b =
     Some (Inr (set_entry_kind EntryDirectory (begin_entry blake3 (unix_path rel) False None b)))"
| "sign_item blake3 (rel, SourceFile exec pieces) b =
     append_pieces blake3 pieces (begin_entry blake3 (unix_path rel) exec None b)"

fun sign_items :: "hash_fun \<Rightarrow> (bytes \<times> source_item) list \<Rightarrow> signature_builder \<Rightarrow> (string + signature_builder) option" where
  "sign_items blake3 [] b = Some (Inr b)"
| "sign_items blake3 (x # xs) b =
     (case sign_item blake3 x b of
        Some (Inr b) \<Rightarrow> sign_items blake3 xs b
      | stop \<Rightarrow> stop)"

text \<open>The tree is its relative paths in sorted order, with what is at each.\<close>

definition sign_dir :: "hash_fun \<Rightarrow> (bytes \<times> source_item) list \<Rightarrow> u32 \<Rightarrow> bytes \<Rightarrow> (string + cavs_signature) option" where
  "sign_dir blake3 tree bsize label =
     map_option (map_sum id (builder_finish blake3 label))
       (sign_items blake3 tree (builder_new DirectoryContainer bsize (ascii ''fixed'')))"

text \<open>\<^verbatim>\<open>verify_against\<close>, from the signature freshly made of the source.\<close>

definition compare_fresh :: "cavs_signature \<Rightarrow> cavs_signature \<Rightarrow> signature_error + unit" where
  "compare_fresh self fresh =
     (if cs_source_size fresh \<noteq> cs_source_size self
      then Inl (SigSourceMismatch (''size differs: signature says '' @ decimal (unat (cs_source_size self))
             @ '' bytes, source has '' @ decimal (unat (cs_source_size fresh))))
      else if (case (source_blake3 self, source_blake3 fresh) of (Some a, Some b) \<Rightarrow> a \<noteq> b | _ \<Rightarrow> False)
      then Inl (SigSourceMismatch ''content BLAKE3 differs'')
      else if cs_merkle_root fresh \<noteq> cs_merkle_root self
      then
        let differ = length (filter (\<lambda>(a, b). block_strong a \<noteq> block_strong b) (zip (cs_blocks self) (cs_blocks fresh)));
            gap = nat \<bar>int (length (cs_blocks self)) - int (length (cs_blocks fresh))\<bar>
        in Inl (SigSourceMismatch (decimal (max differ gap) @ '' block(s) differ''))
      else Inr ())"

end
