(* ===== verification/Builder_Laws.thy ===== *)
theory Builder_Laws
  imports Signature_Builder
begin

text \<open>
  The builder refines a plain description of a signature: a list of entries with their contents,
  each cut into blocks from its start.  However the content arrives, and whatever entries come
  before, the finished signature is the one described.
\<close>

section \<open>The description\<close>

type_synonym signed_item = "signature_entry \<times> bytes"

definition one_block :: "hash_fun \<Rightarrow> u32 \<Rightarrow> u64 \<Rightarrow> bytes \<Rightarrow> block_hash" where
  "one_block blake3 i off c = \<lparr>block_entry = i, block_offset = off, block_len = of_nat (length c),
     block_weak = weak32 c, block_strong = blake3 c\<rparr>"

function content_blocks :: "hash_fun \<Rightarrow> nat \<Rightarrow> u32 \<Rightarrow> u64 \<Rightarrow> bytes \<Rightarrow> block_hash list" where
  "content_blocks blake3 bs i off c =
     (if c = [] \<or> bs = 0 then []
      else one_block blake3 i off (take bs c)
         # content_blocks blake3 bs i (off + of_nat (length (take bs c))) (drop bs c))"
  by pat_completeness auto
termination by (relation "measure (\<lambda>(_, _, _, _, c). length c)") auto

declare content_blocks.simps [simp del]

lemma content_blocks_Nil [simp]: "content_blocks blake3 bs i off [] = []"
  by (simp add: content_blocks.simps)

lemma content_blocks_short:
  "c \<noteq> [] \<Longrightarrow> length c \<le> bs \<Longrightarrow> content_blocks blake3 bs i off c = [one_block blake3 i off c]"
  by (cases c) (simp_all add: content_blocks.simps)

lemma content_blocks_append:
  assumes "bs dvd length done" "0 < bs"
  shows "content_blocks blake3 bs i off (done @ c)
    = content_blocks blake3 bs i off done @ content_blocks blake3 bs i (off + of_nat (length done)) c"
  using assms
proof (induction "length done" arbitrary: "done" off rule: less_induct)
  case less
  show ?case
  proof (cases "done = []")
    case False
    then have long: "bs \<le> length done" using less.prems by (auto intro: dvd_imp_le)
    have "content_blocks blake3 bs i (off + of_nat bs) (drop bs done @ c)
        = content_blocks blake3 bs i (off + of_nat bs) (drop bs done)
        @ content_blocks blake3 bs i (off + of_nat bs + of_nat (length (drop bs done))) c"
      using less.prems False by (intro less.hyps) (auto simp: dvd_minus_self)
    moreover have "of_nat bs + of_nat (length (drop bs done)) = (of_nat (length done) :: u64)"
      using long by (simp flip: of_nat_add)
    ultimately show ?thesis
      using False long less.prems(2)
      by (simp add: content_blocks.simps [of blake3 bs i off "done @ c"] content_blocks.simps [of blake3 bs i off "done"]
          add.assoc min_def)
  qed simp
qed

definition item_blocks :: "hash_fun \<Rightarrow> nat \<Rightarrow> signed_item list \<Rightarrow> block_hash list" where
  "item_blocks blake3 bs es = concat (map (\<lambda>(e, c). content_blocks blake3 bs (entry_id e) 0 c) es)"

definition described_signature :: "hash_fun \<Rightarrow> signature_kind \<Rightarrow> u32 \<Rightarrow> bytes \<Rightarrow> bytes \<Rightarrow> signed_item list \<Rightarrow> cavs_signature" where
  "described_signature blake3 kind bsize profile label es =
     \<lparr>cs_kind = kind, created_at_unix_ms = 0, source_label = label,
      cs_source_size = of_nat (length (concat (map snd es))), source_blake3 = Some (blake3 (concat (map snd es))),
      chunker_profile = profile, cs_block_size = bsize, cs_entries = map fst es,
      cs_blocks = item_blocks blake3 (unat bsize) es,
      cs_merkle_root = merkle_root blake3 (map block_strong (item_blocks blake3 (unat bsize) es))\<rparr>"

section \<open>What a builder stands for\<close>

definition block_size_ok :: "u32 \<Rightarrow> bool" where
  "block_size_ok n \<longleftrightarrow> min_block_size \<le> n \<and> n \<le> max_block_size"

lemma block_size_okD: "block_size_ok n \<Longrightarrow> 0 < unat n \<and> unat n \<le> 2 ^ 26"
  by (auto simp: block_size_ok_def min_block_size_def max_block_size_def word_le_nat_alt)

lemma clamp_ok: "block_size_ok (clamp_block_size n)"
  by (auto simp: block_size_ok_def clamp_block_size_def min_block_size_def max_block_size_def max_def min_def)

text \<open>
  All blocks but those of the last entry are out; of the last entry the blocks of \<open>done\<close> are out,
  and the rest is in the buffer.
\<close>

definition stands_for :: "hash_fun \<Rightarrow> signature_builder \<Rightarrow> signed_item list \<Rightarrow> bool" where
  "stands_for blake3 b es \<longleftrightarrow> block_size_ok (sb_block_size b) \<and> length (sb_buf b) < unat (sb_block_size b)
     \<and> sb_entries b = map fst es \<and> sb_hasher b = Hasher (concat (map snd es))
     \<and> sb_total_size b = of_nat (length (concat (map snd es)))
     \<and> (if es = [] then sb_buf b = [] \<and> sb_blocks b = []
        else \<exists>done. snd (last es) = done @ sb_buf b \<and> unat (sb_block_size b) dvd length done
          \<and> sb_blocks b = item_blocks blake3 (unat (sb_block_size b)) (butlast es)
              @ content_blocks blake3 (unat (sb_block_size b)) (entry_id (fst (last es))) 0 done
          \<and> sb_offset b = of_nat (length done))"

lemma small_length: "n \<le> 2 ^ 26 \<Longrightarrow> (ucast (of_nat n :: u32) :: u64) = of_nat n"
proof -
  assume "n \<le> 2 ^ 26"
  then have "unat (ucast (of_nat n :: u32) :: u64) = unat (of_nat n :: u64)"
    by (simp add: unsigned_ucast_eq unsigned_of_nat take_bit_nat_eq_self)
  then show ?thesis by (simp only: unsigned_word_eqI)
qed

lemma last_entry: "es \<noteq> [] \<Longrightarrow> (case rev (map fst es) of [] \<Rightarrow> 0 | e # _ \<Rightarrow> entry_id e) = entry_id (fst (last es))"
  by (cases es rule: rev_cases) simp_all

lemma stands_new: "stands_for blake3 (builder_new kind bsize profile) []"
  using block_size_okD [OF clamp_ok [of bsize]] clamp_ok
  by (simp add: stands_for_def builder_new_def hasher_new_def)

lemma flush_stands:
  assumes "stands_for blake3 b es"
  shows "sb_blocks (flush_block blake3 b) = item_blocks blake3 (unat (sb_block_size b)) es"
    and "sb_buf (flush_block blake3 b) = []" "sb_entries (flush_block blake3 b) = sb_entries b"
    and "sb_block_size (flush_block blake3 b) = sb_block_size b" "sb_hasher (flush_block blake3 b) = sb_hasher b"
    and "sb_total_size (flush_block blake3 b) = sb_total_size b" "sb_kind (flush_block blake3 b) = sb_kind b"
    and "sb_profile (flush_block blake3 b) = sb_profile b"
proof -
  show "sb_blocks (flush_block blake3 b) = item_blocks blake3 (unat (sb_block_size b)) es"
  proof (cases es rule: rev_cases)
    case Nil
    then show ?thesis using assms by (simp add: stands_for_def flush_block_def item_blocks_def)
  next
    case (snoc es' x)
    let ?bs = "unat (sb_block_size b)"
    obtain "done" where d: "snd x = done @ sb_buf b" "?bs dvd length done" "sb_offset b = of_nat (length done)"
        "sb_blocks b = item_blocks blake3 ?bs es' @ content_blocks blake3 ?bs (entry_id (fst x)) 0 done"
      using assms by (auto simp: stands_for_def snoc)
    have bs: "0 < ?bs" "length (sb_buf b) < ?bs" "sb_entries b = map fst es"
      using assms block_size_okD [of "sb_block_size b"] by (auto simp: stands_for_def)
    have "content_blocks blake3 ?bs (entry_id (fst x)) 0 (snd x)
        = content_blocks blake3 ?bs (entry_id (fst x)) 0 done
          @ (if sb_buf b = [] then [] else [one_block blake3 (entry_id (fst x)) (sb_offset b) (sb_buf b)])"
      using bs(2) content_blocks_append [OF d(2) bs(1)] by (simp add: d(1,3) content_blocks_short)
    then show ?thesis
      using bs(3) by (auto simp: flush_block_def emit_block_def item_blocks_def snoc d(4) one_block_def
          hash_chunk_def split_beta Let_def)
  qed
qed (simp_all add: flush_block_def emit_block_def Let_def)

lemma begin_stands:
  assumes "stands_for blake3 b es"
  shows "stands_for blake3 (begin_entry blake3 path exec target b)
    (es @ [(\<lparr>entry_id = of_nat (length es), entry_path = path, entry_kind = EntryFile, entry_size = 0,
             entry_executable = exec, symlink_target = target\<rparr>, [])])"
  using assms flush_stands [OF assms] block_size_okD [of "sb_block_size b"]
  by (simp add: stands_for_def begin_entry_def Let_def)

lemma on_last_snoc [simp]: "on_last f (xs @ [x]) = xs @ [f x]"
  by (simp add: on_last_def)

lemma kind_stands:
  assumes "stands_for blake3 b (es @ [(e, c)])"
  shows "stands_for blake3 (set_entry_kind kind b) (es @ [(e\<lparr>entry_kind := kind\<rparr>, c)])"
  using assms by (simp add: stands_for_def set_entry_kind_def)

section \<open>Appending\<close>

definition loop_state :: "hash_fun \<Rightarrow> block_hash list \<Rightarrow> u32 \<Rightarrow> bytes \<Rightarrow> signature_builder \<Rightarrow> bool" where
  "loop_state blake3 pre i done b \<longleftrightarrow> block_size_ok (sb_block_size b) \<and> length (sb_buf b) < unat (sb_block_size b)
     \<and> unat (sb_block_size b) dvd length done
     \<and> sb_blocks b = pre @ content_blocks blake3 (unat (sb_block_size b)) i 0 done
     \<and> sb_offset b = of_nat (length done)
     \<and> (case rev (sb_entries b) of [] \<Rightarrow> 0 | e # _ \<Rightarrow> entry_id e) = i"

lemma emit_full:
  assumes "loop_state blake3 pre i done (b\<lparr>sb_buf := old\<rparr>)" "length (sb_buf b) = unat (sb_block_size b)"
  shows "loop_state blake3 pre i (done @ sb_buf b) (emit_block blake3 b)"
proof -
  let ?bs = "unat (sb_block_size b)"
  have bs: "0 < ?bs" "?bs \<le> 2 ^ 26" "?bs dvd length done"
    using assms(1) block_size_okD by (auto simp: loop_state_def)
  have "content_blocks blake3 ?bs i 0 (done @ sb_buf b)
      = content_blocks blake3 ?bs i 0 done @ [one_block blake3 i (of_nat (length done)) (sb_buf b)]"
  proof -
    have "sb_buf b \<noteq> []" using assms(2) bs(1) by auto
    then show ?thesis using content_blocks_append [OF bs(3,1)] assms(2) by (simp add: content_blocks_short)
  qed
  then show ?thesis
    using assms bs small_length [of ?bs]
    by (simp add: loop_state_def emit_block_def one_block_def hash_chunk_def Let_def)
qed

lemma append_loop_returns:
  assumes "loop_state blake3 pre i done b"
  shows "\<exists>b' done'. append_loop blake3 data b = Some b' \<and> loop_state blake3 pre i done' b'
    \<and> done' @ sb_buf b' = done @ sb_buf b @ data
    \<and> b' = b\<lparr>sb_blocks := sb_blocks b', sb_buf := sb_buf b', sb_offset := sb_offset b'\<rparr>"
  using assms
proof (induction "length data" arbitrary: data b "done" rule: less_induct)
  case less
  show ?case
  proof (cases "data = []")
    case True
    then show ?thesis using less.prems by (auto simp: append_loop.simps)
  next
    case False
    let ?bs = "unat (sb_block_size b)"
    define n where "n = min (?bs - length (sb_buf b)) (length data)"
    define b1 where "b1 = b\<lparr>sb_buf := sb_buf b @ take n data\<rparr>"
    define b2 where "b2 = (if length (sb_buf b1) = ?bs then emit_block blake3 b1 else b1)"
    have room: "length (sb_buf b) < ?bs" using less.prems by (simp add: loop_state_def)
    then have n: "0 < n" "n \<le> length data" using False by (auto simp: n_def)
    have step: "append_loop blake3 data b = append_loop blake3 (drop n data) b2"
      using False by (simp add: append_loop.simps [of blake3 data b] Let_def n_def b1_def b2_def)
    have "\<exists>done1. loop_state blake3 pre i done1 b2 \<and> done1 @ sb_buf b2 = done @ sb_buf b1
        \<and> b2 = b\<lparr>sb_blocks := sb_blocks b2, sb_buf := sb_buf b2, sb_offset := sb_offset b2\<rparr>"
    proof (cases "length (sb_buf b1) = ?bs")
      case True
      have "loop_state blake3 pre i done (b1\<lparr>sb_buf := sb_buf b\<rparr>)" using less.prems by (simp add: b1_def)
      from emit_full [OF this] True have ls: "loop_state blake3 pre i (done @ sb_buf b1) (emit_block blake3 b1)"
        by (simp add: b1_def)
      let ?e = "emit_block blake3 b1"
      have e: "b2 = ?e" using True by (simp add: b2_def)
      have "(done @ sb_buf b1) @ sb_buf ?e = done @ sb_buf b1" by (simp add: emit_block_def Let_def)
      moreover have "?e = b\<lparr>sb_blocks := sb_blocks ?e, sb_buf := sb_buf ?e, sb_offset := sb_offset ?e\<rparr>"
        by (simp add: emit_block_def b1_def Let_def)
      ultimately show ?thesis unfolding e using ls by blast
    next
      case False
      have "length (sb_buf b1) < ?bs" using False room n_def by (auto simp: b1_def)
      then have "loop_state blake3 pre i done b1" using less.prems by (simp add: loop_state_def b1_def)
      then show ?thesis using False by (intro exI [of _ "done"]) (simp add: b2_def b1_def)
    qed
    then obtain done1 where b2: "loop_state blake3 pre i done1 b2" "done1 @ sb_buf b2 = done @ sb_buf b1"
        "b2 = b\<lparr>sb_blocks := sb_blocks b2, sb_buf := sb_buf b2, sb_offset := sb_offset b2\<rparr>" by blast
    have "length (drop n data) < length data" using n by simp
    from less.hyps [OF this b2(1)] obtain b' done' where b':
        "append_loop blake3 (drop n data) b2 = Some b'" "loop_state blake3 pre i done' b'"
        "done' @ sb_buf b' = done1 @ sb_buf b2 @ drop n data"
        "b' = b2\<lparr>sb_blocks := sb_blocks b', sb_buf := sb_buf b', sb_offset := sb_offset b'\<rparr>" by blast
    have "done' @ sb_buf b' = (done1 @ sb_buf b2) @ drop n data" by (simp add: b'(3))
    also have "\<dots> = done @ sb_buf b @ data" by (simp only: b2(2)) (simp add: b1_def)
    finally have "done' @ sb_buf b' = done @ sb_buf b @ data" .
    moreover have "b' = b\<lparr>sb_blocks := sb_blocks b', sb_buf := sb_buf b', sb_offset := sb_offset b'\<rparr>"
      by (subst b'(4), subst b2(3)) simp
    ultimately show ?thesis using b'(1,2) step by metis
  qed
qed

lemma append_stands:
  assumes "stands_for blake3 b (es @ [(e, c)])"
  obtains b' where "builder_append blake3 data b = Some (Inr b')"
    "stands_for blake3 b' (es @ [(e\<lparr>entry_size := entry_size e + of_nat (length data)\<rparr>, c @ data)])"
    "sb_kind b' = sb_kind b" "sb_profile b' = sb_profile b" "sb_block_size b' = sb_block_size b"
proof -
  let ?bs = "unat (sb_block_size b)"
  let ?e = "e\<lparr>entry_size := entry_size e + of_nat (length data)\<rparr>"
  let ?b = "b\<lparr>sb_entries := map fst es @ [?e], sb_total_size := sb_total_size b + of_nat (length data),
      sb_hasher := hasher_update data (sb_hasher b)\<rparr>"
  obtain "done" where d: "c = done @ sb_buf b" "?bs dvd length done" "sb_offset b = of_nat (length done)"
      "sb_blocks b = item_blocks blake3 ?bs es @ content_blocks blake3 ?bs (entry_id e) 0 done"
    using assms by (auto simp: stands_for_def)
  have "loop_state blake3 (item_blocks blake3 ?bs es) (entry_id e) done ?b"
    using assms d by (simp add: loop_state_def stands_for_def)
  from append_loop_returns [OF this, of data] obtain b' done' where b':
      "append_loop blake3 data ?b = Some b'" "loop_state blake3 (item_blocks blake3 ?bs es) (entry_id e) done' b'"
      "done' @ sb_buf b' = c @ data"
      "b' = ?b\<lparr>sb_blocks := sb_blocks b', sb_buf := sb_buf b', sb_offset := sb_offset b'\<rparr>"
    by (auto simp: d(1))
  have f: "sb_kind b' = sb_kind b" "sb_profile b' = sb_profile b" "sb_block_size b' = sb_block_size b"
    "sb_entries b' = map fst es @ [?e]" "sb_total_size b' = sb_total_size b + of_nat (length data)"
    "sb_hasher b' = hasher_update data (sb_hasher b)"
    by (subst b'(4), simp)+
  have "sb_entries b = map fst es @ [e]" using assms by (simp add: stands_for_def)
  then have "builder_append blake3 data b = Some (Inr b')"
    using b'(1) by (simp add: builder_append_def)
  moreover have "stands_for blake3 b' (es @ [(?e, c @ data)])"
  proof -
    have "sb_hasher b = Hasher (concat (map snd es) @ c)"
      "sb_total_size b = of_nat (length (concat (map snd es)) + length c)"
      using assms by (simp_all add: stands_for_def)
    moreover have "(of_nat (length c) + of_nat (length data) :: u64) = of_nat (length done') + of_nat (length (sb_buf b'))"
      using arg_cong [OF b'(3), of "\<lambda>x. of_nat (length x) :: u64"] by simp
    ultimately show ?thesis
      using b'(2) b'(3) [symmetric] f unfolding stands_for_def loop_state_def
      by (auto intro!: exI [of _ done'])
  qed
  ultimately show thesis using that f(1-3) by blast
qed

lemma pieces_stand:
  assumes "stands_for blake3 b (es @ [(e, c)])"
  obtains b' where "append_pieces blake3 ps b = Some (Inr b')"
    "stands_for blake3 b' (es @ [(e\<lparr>entry_size := entry_size e + of_nat (length (concat ps))\<rparr>, c @ concat ps)])"
    "sb_kind b' = sb_kind b" "sb_profile b' = sb_profile b" "sb_block_size b' = sb_block_size b"
  using assms
proof (induction ps arbitrary: b e c thesis)
  case Nil
  show ?case by (rule Nil.prems(1) [of b]) (use Nil.prems(2) in simp_all)
next
  case (Cons p ps)
  obtain b1 where b1: "builder_append blake3 p b = Some (Inr b1)"
    "stands_for blake3 b1 (es @ [(e\<lparr>entry_size := entry_size e + of_nat (length p)\<rparr>, c @ p)])"
    "sb_kind b1 = sb_kind b" "sb_profile b1 = sb_profile b" "sb_block_size b1 = sb_block_size b"
    by (rule append_stands [OF Cons.prems(2)])
  obtain b2 where "append_pieces blake3 ps b1 = Some (Inr b2)"
    "stands_for blake3 b2 (es @ [(e\<lparr>entry_size := entry_size e + of_nat (length (concat (p # ps)))\<rparr>, c @ concat (p # ps))])"
    "sb_kind b2 = sb_kind b1" "sb_profile b2 = sb_profile b1" "sb_block_size b2 = sb_block_size b1"
    using Cons.IH [OF _ b1(2)] by (auto simp: add.assoc)
  then show ?case using Cons.prems(1) [of b2] b1 by simp
qed

lemma finish_stands:
  assumes "stands_for blake3 b es"
  shows "builder_finish blake3 label b
    = described_signature blake3 (sb_kind b) (sb_block_size b) (sb_profile b) label es"
  using assms flush_stands [OF assms]
  by (simp add: builder_finish_def described_signature_def stands_for_def Let_def)

section \<open>Signing\<close>

text \<open>What the entry of an item of the tree is, and its content.\<close>

fun item_entry :: "nat \<Rightarrow> bytes \<times> source_item \<Rightarrow> signed_item" where
  "item_entry n (rel, SourceLink target) =
     (\<lparr>entry_id = of_nat n, entry_path = unix_path rel, entry_kind = EntrySymlink, entry_size = 0,
       entry_executable = False, symlink_target = Some target\<rparr>, [])"
| "item_entry n (rel, SourceDir) =
     (\<lparr>entry_id = of_nat n, entry_path = unix_path rel, entry_kind = EntryDirectory, entry_size = 0,
       entry_executable = False, symlink_target = None\<rparr>, [])"
| "item_entry n (rel, SourceFile exec pieces) =
     (\<lparr>entry_id = of_nat n, entry_path = unix_path rel, entry_kind = EntryFile,
       entry_size = of_nat (length (concat pieces)), entry_executable = exec, symlink_target = None\<rparr>, concat pieces)"

fun tree_entries :: "nat \<Rightarrow> (bytes \<times> source_item) list \<Rightarrow> signed_item list" where
  "tree_entries n [] = []"
| "tree_entries n (x # xs) = item_entry n x # tree_entries (n + 1) xs"

lemma item_stands:
  assumes "stands_for blake3 b es"
  obtains b' where "sign_item blake3 x b = Some (Inr b')" "stands_for blake3 b' (es @ [item_entry (length es) x])"
    "sb_kind b' = sb_kind b" "sb_profile b' = sb_profile b" "sb_block_size b' = sb_block_size b"
proof -
  have keep: "sb_kind (begin_entry blake3 p ex t b) = sb_kind b" "sb_profile (begin_entry blake3 p ex t b) = sb_profile b"
    "sb_block_size (begin_entry blake3 p ex t b) = sb_block_size b" for p ex t
    using flush_stands [OF assms] by (simp_all add: begin_entry_def Let_def)
  have keep': "sb_kind (set_entry_kind k c) = sb_kind c" "sb_profile (set_entry_kind k c) = sb_profile c"
    "sb_block_size (set_entry_kind k c) = sb_block_size c" for k c
    by (simp_all add: set_entry_kind_def)
  obtain rel item where x: "x = (rel, item)" by fastforce
  show thesis
  proof (cases item)
    case (SourceLink target)
    show thesis
      by (rule that [of "set_entry_kind EntrySymlink (begin_entry blake3 (unix_path rel) False (Some target) b)"])
        (use kind_stands [OF begin_stands [OF assms]] keep keep' in \<open>simp_all add: x SourceLink\<close>)
  next
    case SourceDir
    show thesis
      by (rule that [of "set_entry_kind EntryDirectory (begin_entry blake3 (unix_path rel) False None b)"])
        (use kind_stands [OF begin_stands [OF assms]] keep keep' in \<open>simp_all add: x SourceDir\<close>)
  next
    case (SourceFile exec pieces)
    let ?b = "begin_entry blake3 (unix_path rel) exec None b"
    obtain b' where "append_pieces blake3 pieces ?b = Some (Inr b')"
      "stands_for blake3 b' (es @ [item_entry (length es) x])" "sb_kind b' = sb_kind ?b"
      "sb_profile b' = sb_profile ?b" "sb_block_size b' = sb_block_size ?b"
      using pieces_stand [OF begin_stands [OF assms, of "unix_path rel" exec None], of pieces]
      by (auto simp: x SourceFile)
    then show thesis using keep by (intro that [of b']) (simp_all add: x SourceFile)
  qed
qed

lemma items_stand:
  assumes "stands_for blake3 b es"
  obtains b' where "sign_items blake3 xs b = Some (Inr b')" "stands_for blake3 b' (es @ tree_entries (length es) xs)"
    "sb_kind b' = sb_kind b" "sb_profile b' = sb_profile b" "sb_block_size b' = sb_block_size b"
  using assms
proof (induction xs arbitrary: b es thesis)
  case Nil
  show ?case by (rule Nil.prems(1) [of b]) (use Nil.prems(2) in simp_all)
next
  case (Cons x xs)
  obtain b1 where b1: "sign_item blake3 x b = Some (Inr b1)" "stands_for blake3 b1 (es @ [item_entry (length es) x])"
    "sb_kind b1 = sb_kind b" "sb_profile b1 = sb_profile b" "sb_block_size b1 = sb_block_size b"
    by (rule item_stands [OF Cons.prems(2)])
  obtain b2 where "sign_items blake3 xs b1 = Some (Inr b2)" "stands_for blake3 b2 (es @ tree_entries (length es) (x # xs))"
    "sb_kind b2 = sb_kind b1" "sb_profile b2 = sb_profile b1" "sb_block_size b2 = sb_block_size b1"
    using Cons.IH [OF _ b1(2)] by auto
  then show ?case using b1 by (intro Cons.prems(1) [of b2]) simp_all
qed

lemma sign_dir_described:
  "sign_dir blake3 tree bsize label
    = Some (Inr (described_signature blake3 DirectoryContainer (clamp_block_size bsize) (ascii ''fixed'') label
        (tree_entries 0 tree)))"
proof -
  let ?new = "builder_new DirectoryContainer bsize (ascii ''fixed'')"
  obtain b' where "sign_items blake3 tree ?new = Some (Inr b')" "stands_for blake3 b' (tree_entries 0 tree)"
    "sb_kind b' = sb_kind ?new" "sb_profile b' = sb_profile ?new" "sb_block_size b' = sb_block_size ?new"
    using items_stand [OF stands_new, of blake3 tree DirectoryContainer bsize "ascii ''fixed''"] by auto
  then show ?thesis by (simp add: sign_dir_def finish_stands builder_new_def)
qed

definition file_item :: "bytes \<Rightarrow> bytes \<Rightarrow> signed_item" where
  "file_item label content = (\<lparr>entry_id = 0, entry_path = label, entry_kind = EntryFile,
     entry_size = of_nat (length content), entry_executable = False, symlink_target = None\<rparr>, content)"

lemma sign_file_described:
  "sign_file blake3 pieces bsize label
    = Some (Inr (described_signature blake3 SingleArtifact (clamp_block_size bsize) (ascii ''fixed'') label
        [file_item label (concat pieces)]))"
proof -
  let ?new = "builder_new SingleArtifact bsize (ascii ''fixed'')"
  note begun = begin_stands [OF stands_new [of blake3 SingleArtifact bsize "ascii ''fixed''"], of label False None]
  have keep: "sb_kind (begin_entry blake3 label False None ?new) = SingleArtifact"
    "sb_profile (begin_entry blake3 label False None ?new) = ascii ''fixed''"
    "sb_block_size (begin_entry blake3 label False None ?new) = clamp_block_size bsize"
    by (simp_all add: begin_entry_def flush_block_def builder_new_def Let_def)
  obtain b' where b': "append_pieces blake3 pieces (begin_entry blake3 label False None ?new) = Some (Inr b')"
    "stands_for blake3 b' [file_item label (concat pieces)]" "sb_kind b' = SingleArtifact"
    "sb_profile b' = ascii ''fixed''" "sb_block_size b' = clamp_block_size bsize"
    using pieces_stand [OF begun, of pieces] keep by (auto simp: file_item_def)
  then show ?thesis by (simp add: sign_file_def finish_stands)
qed

end
