(* ===== verification/Signed_Sources.thy ===== *)
theory Signed_Sources
  imports Builder_Laws
begin

text \<open>
  Signatures made of sources: they are well-formed, so they survive being written and read; the
  blocks of a decoded signature tile its files; and checking a signature against a source finds
  every change.
\<close>

section \<open>Described signatures are well-formed\<close>

lemma small_block: "0 < length c \<Longrightarrow> length c \<le> unat (n :: u32) \<Longrightarrow>
  (of_nat (length c) :: u32) \<noteq> 0 \<and> (of_nat (length c) :: u32) \<le> n"
proof -
  assume c: "0 < length c" "length c \<le> unat n"
  have "unat n < 2 ^ 32" using unsigned_less [of n, where 'a = nat] by simp
  then have "unat (of_nat (length c) :: u32) = length c"
    using c(2) by (simp add: unsigned_of_nat take_bit_nat_eq_self)
  then show "(of_nat (length c) :: u32) \<noteq> 0 \<and> (of_nat (length c) :: u32) \<le> n"
    using c by (metis less_not_refl unat_0 word_le_nat_alt)
qed

lemma coverage_Cons: "coverage (b # bs) covered = coverage bs (cover_block b covered)"
  by (simp add: coverage_def)

lemma content_blocks_valid:
  assumes "hash_ok blake3" "block_size_ok bsize" "i \<in> seen" "covered i = off"
  shows "(valid_blocks bsize seen covered (content_blocks blake3 (unat bsize) i off c @ rest)
      \<longleftrightarrow> valid_blocks bsize seen (covered(i := off + of_nat (length c))) rest)
    \<and> coverage (content_blocks blake3 (unat bsize) i off c) covered = covered(i := off + of_nat (length c))"
  using assms(4)
proof (induction "length c" arbitrary: c off covered rule: less_induct)
  case less
  have bs: "0 < unat bsize" "unat bsize \<le> 2 ^ 26" using block_size_okD [OF assms(2)] by simp_all
  show ?case
  proof (cases "c = []")
    case True
    then have "covered(i := off + of_nat (length c)) = covered" using less.prems by auto
    then show ?thesis using True by (simp add: coverage_def)
  next
    case False
    let ?h = "take (unat bsize) c" and ?t = "drop (unat bsize) c"
    let ?b = "one_block blake3 i off ?h" and ?off = "off + of_nat (length ?h)"
    have h: "0 < length ?h" "length ?h \<le> unat bsize" using False bs by simp_all
    have "valid_block bsize seen covered ?b"
      using small_block [OF h] assms(1,3) less.prems by (simp add: valid_block_def one_block_def hash_ok_def)
    moreover have cov: "cover_block ?b covered = covered(i := ?off)"
      using small_length [of "length ?h"] h(2) bs(2) by (simp add: cover_block_def one_block_def)
    moreover have split: "content_blocks blake3 (unat bsize) i off c = ?b # content_blocks blake3 (unat bsize) i ?off ?t"
      using False bs(1) by (simp add: content_blocks.simps [of blake3 "unat bsize" i off c])
    moreover have "(valid_blocks bsize seen (covered(i := ?off)) (content_blocks blake3 (unat bsize) i ?off ?t @ rest)
        \<longleftrightarrow> valid_blocks bsize seen (covered(i := off + of_nat (length c))) rest)
      \<and> coverage (content_blocks blake3 (unat bsize) i ?off ?t) (covered(i := ?off)) = covered(i := off + of_nat (length c))"
    proof -
      have eq: "?off + of_nat (length ?t) = off + of_nat (length c)"
        by (simp only: add.assoc flip: of_nat_add) (simp add: min_def)
      have "length ?t < length c" using False bs(1) by simp
      from less.hyps [OF this, of "covered(i := ?off)" ?off] show ?thesis
        by (simp only: fun_upd_same fun_upd_upd eq simp_thms)
    qed
    ultimately show ?thesis by (simp only: append_Cons valid_blocks.simps coverage_Cons simp_thms)
  qed
qed

definition good_items :: "signed_item list \<Rightarrow> bool" where
  "good_items es \<longleftrightarrow> distinct (map (\<lambda>x. entry_id (fst x)) es)
     \<and> (\<forall>x \<in> set es. entry_size (fst x) = of_nat (length (snd x))
          \<and> (entry_kind (fst x) \<noteq> EntryFile \<longrightarrow> snd x = []))"

lemma item_blocks_valid:
  assumes "hash_ok blake3" "block_size_ok bsize"
    and "good_items es" "(\<lambda>x. entry_id (fst x)) ` set es \<subseteq> seen" "\<forall>x \<in> set es. covered (entry_id (fst x)) = 0"
  shows "valid_blocks bsize seen covered (item_blocks blake3 (unat bsize) es)
    \<and> (\<forall>x \<in> set es. coverage (item_blocks blake3 (unat bsize) es) covered (entry_id (fst x)) = of_nat (length (snd x)))
    \<and> (\<forall>i. i \<notin> (\<lambda>x. entry_id (fst x)) ` set es \<longrightarrow>
         coverage (item_blocks blake3 (unat bsize) es) covered i = covered i)"
  using assms(3-)
proof (induction es arbitrary: covered)
  case Nil
  then show ?case by (simp add: item_blocks_def coverage_def)
next
  case (Cons x es)
  let ?i = "entry_id (fst x)"
  let ?cov = "covered(?i := of_nat (length (snd x)))"
  have split: "item_blocks blake3 (unat bsize) (x # es)
      = content_blocks blake3 (unat bsize) ?i 0 (snd x) @ item_blocks blake3 (unat bsize) es"
    by (simp add: item_blocks_def split_beta)
  have fresh: "?i \<notin> (\<lambda>x. entry_id (fst x)) ` set es" using Cons.prems(1) by (auto simp: good_items_def)
  have head: "(valid_blocks bsize seen covered (content_blocks blake3 (unat bsize) ?i 0 (snd x) @ rest)
      \<longleftrightarrow> valid_blocks bsize seen ?cov rest)"
    "coverage (content_blocks blake3 (unat bsize) ?i 0 (snd x)) covered = ?cov" for rest
    using content_blocks_valid [OF assms(1,2), of ?i seen covered 0 "snd x"] Cons.prems by auto
  have cov: "coverage (item_blocks blake3 (unat bsize) (x # es)) covered
      = coverage (item_blocks blake3 (unat bsize) es) ?cov"
    using head(2) by (simp add: split coverage_def)
  have good: "good_items es" using Cons.prems(1) by (simp add: good_items_def)
  have zero: "\<forall>y \<in> set es. ?cov (entry_id (fst y)) = 0"
    using Cons.prems(3) fresh by (metis fun_upd_other imageI list.set_intros(2))
  have seen: "(\<lambda>x. entry_id (fst x)) ` set es \<subseteq> seen" using Cons.prems(2) by simp
  note IH = Cons.IH [OF good seen zero]
  have "coverage (item_blocks blake3 (unat bsize) es) ?cov ?i = of_nat (length (snd x))"
    using IH fresh by (metis fun_upd_same)
  moreover have "coverage (item_blocks blake3 (unat bsize) es) ?cov i = covered i"
    if "i \<notin> (\<lambda>x. entry_id (fst x)) ` set (x # es)" for i
  proof -
    have "i \<notin> (\<lambda>x. entry_id (fst x)) ` set es" "i \<noteq> ?i" using that by simp_all
    then have "coverage (item_blocks blake3 (unat bsize) es) ?cov i = ?cov i" using IH by blast
    with \<open>i \<noteq> ?i\<close> show ?thesis by simp
  qed
  moreover have "valid_blocks bsize seen covered (item_blocks blake3 (unat bsize) (x # es))"
    using IH head(1) by (simp only: split)
  moreover have "\<forall>y \<in> set (x # es). coverage (item_blocks blake3 (unat bsize) es) ?cov (entry_id (fst y)) = of_nat (length (snd y))"
    using conjunct1 [OF conjunct2 [OF IH]] calculation(1) by (simp del: fun_upd_apply)
  ultimately show ?case unfolding cov by blast
qed

definition named_ok :: "signature_entry \<Rightarrow> bool" where
  "named_ok e \<longleftrightarrow> valid_str (entry_path e) \<and> (case symlink_target e of None \<Rightarrow> True | Some t \<Rightarrow> t \<noteq> [] \<and> valid_str t)"

lemma valid_entries_distinct:
  assumes "distinct (map entry_id es)" "\<forall>e \<in> set es. entry_id e \<notin> seen \<and> named_ok e"
  shows "valid_entries seen es"
  using assms
proof (induction es arbitrary: seen)
  case (Cons e es)
  have "\<forall>x \<in> set es. entry_id x \<notin> insert (entry_id e) seen \<and> named_ok x" using Cons.prems by (auto simp: image_iff)
  then have "valid_entries (insert (entry_id e) seen) es" using Cons.prems(1) by (intro Cons.IH) simp_all
  then show ?case using Cons.prems(2) by (simp add: valid_entry_def named_ok_def)
qed simp

lemma valid_blocks_digests: "valid_blocks n seen cov bs \<Longrightarrow> digests (map block_strong bs)"
  by (induction bs arbitrary: cov) (auto simp: valid_block_def)

lemma described_wf:
  assumes "hash_ok blake3" "block_size_ok bsize" "valid_str label" "valid_str profile" "good_items es"
    and "\<forall>x \<in> set es. named_ok (fst x)" "length es \<le> 2 ^ 24"
    and "length (item_blocks blake3 (unat bsize) es) \<le> 2 ^ 28"
  shows "wf_signature blake3 (described_signature blake3 kind bsize profile label es)"
proof -
  have ids: "(\<lambda>x. entry_id (fst x)) ` set es = entry_id ` set (map fst es)" by (simp add: image_image)
  note blocks = item_blocks_valid [OF assms(1,2,5), of "entry_id ` set (map fst es)" "\<lambda>_. 0"]
  have "valid_entries {} (map fst es)"
    using assms(5,6) by (intro valid_entries_distinct) (auto simp: good_items_def comp_def)
  moreover have "list_all (covers_entry (coverage (item_blocks blake3 (unat bsize) es) (\<lambda>_. 0))) (map fst es)"
    using blocks ids assms(5) by (auto simp: list_all_iff covers_entry_def good_items_def)
  moreover have "length (merkle_root blake3 (map block_strong (item_blocks blake3 (unat bsize) es))) = 32"
    by (rule length_merkle_root) (use assms(1) blocks assms(5) ids in \<open>auto simp: hash_ok_def intro: valid_blocks_digests\<close>)
  ultimately show ?thesis
    using assms blocks ids by (simp add: wf_signature_def described_signature_def block_size_ok_def valid_hash_opt_def hash_ok_def)
qed

section \<open>Trees of sources\<close>

lemma tree_entry_ids: "map (\<lambda>x. entry_id (fst x)) (tree_entries n xs) = map of_nat [n..<n + length xs]"
proof (induction xs arbitrary: n)
  case (Cons x xs)
  have "entry_id (fst (item_entry n x)) = of_nat n"
    by (cases x; cases "snd x") auto
  moreover have "[n..<n + length (x # xs)] = n # [n + 1..<n + 1 + length xs]"
    by (subst upt_rec) (simp del: upt_Suc)
  ultimately show ?case using Cons.IH [of "n + 1"] by (simp del: upt_Suc)
qed simp

lemma of_nat_u32_inj: "inj_on (of_nat :: nat \<Rightarrow> u32) {..2 ^ 24}"
proof (rule inj_onI)
  fix a b assume ab: "a \<in> {..2 ^ 24}" "b \<in> {..2 ^ 24}" "(of_nat a :: u32) = of_nat b"
  have "unat (of_nat c :: u32) = c" if "c \<in> {..2 ^ 24}" for c
    using that by (simp add: unsigned_of_nat take_bit_nat_eq_self)
  then show "a = b" using ab by metis
qed

lemma tree_good:
  assumes "length xs \<le> 2 ^ 24"
  shows "good_items (tree_entries 0 xs)"
proof -
  have "distinct (map of_nat [0..<length xs] :: u32 list)"
    using assms by (auto simp: distinct_map intro!: inj_on_subset [OF of_nat_u32_inj])
  then have "distinct (map (\<lambda>x. entry_id (fst x)) (tree_entries 0 xs))" by (simp add: tree_entry_ids)
  moreover have "entry_size (fst y) = of_nat (length (snd y)) \<and> (entry_kind (fst y) \<noteq> EntryFile \<longrightarrow> snd y = [])"
    if "y \<in> set (tree_entries n xs)" for y n
    using that
  proof (induction xs arbitrary: n)
    case (Cons x xs)
    then show ?case by (cases x; cases "snd x") auto
  qed simp
  ultimately show ?thesis by (simp add: good_items_def)
qed

section \<open>The blocks of a signature tile its files\<close>

fun tiles :: "nat \<Rightarrow> block_hash list \<Rightarrow> bool" where
  "tiles n [] = True"
| "tiles n (b # bs) \<longleftrightarrow> unat (block_offset b) = n \<and> 0 < unat (block_len b) \<and> tiles (n + unat (block_len b)) bs"

definition own_blocks :: "u32 \<Rightarrow> block_hash list \<Rightarrow> block_hash list" where
  "own_blocks i bs = filter (\<lambda>b. block_entry b = i) bs"

lemma valid_blocks_tile:
  assumes "valid_blocks bsize seen covered bs" "unat bsize \<le> 2 ^ 26"
    and "unat (covered i) + 2 ^ 26 * length bs < 2 ^ 64"
  shows "tiles (unat (covered i)) (own_blocks i bs)
    \<and> unat (coverage bs covered i) = unat (covered i) + sum_list (map (\<lambda>b. unat (block_len b)) (own_blocks i bs))"
  using assms(1,3)
proof (induction bs arbitrary: covered)
  case (Cons b bs)
  show ?case
  proof (cases "block_entry b = i")
    case True
    have b: "block_offset b = covered i" "block_len b \<noteq> 0" "unat (block_len b) \<le> 2 ^ 26"
      using Cons.prems(1) True assms(2) by (auto simp: valid_block_def word_le_nat_alt)
    have len: "unat (ucast (block_len b) :: u64) = unat (block_len b)"
      using unsigned_less [of "block_len b", where 'a = nat]
      by (simp add: unsigned_ucast_eq take_bit_nat_eq_self)
    have fits: "unat (covered i) + unat (block_len b) < 2 ^ 64" using Cons.prems(2) b(3) by simp
    have "unat (covered i + ucast (block_len b)) = unat (covered i) + unat (ucast (block_len b) :: u64)"
      by (rule unat_add_lem [THEN iffD1]) (use fits in \<open>simp add: len\<close>)
    then have next_cov: "unat (cover_block b covered i) = unat (covered i) + unat (block_len b)"
      by (simp add: cover_block_def True b(1) len)
    have "unat (cover_block b covered i) + 2 ^ 26 * length bs < 2 ^ 64"
      using Cons.prems(2) b(3) by (simp add: next_cov)
    moreover have "valid_blocks bsize seen (cover_block b covered) bs" using Cons.prems(1) by simp
    ultimately show ?thesis
      using b Cons.IH [of "cover_block b covered"]
      by (simp add: own_blocks_def True next_cov coverage_Cons unat_gt_0)
  next
    case False
    then have same: "cover_block b covered i = covered i" by (simp add: cover_block_def)
    have "unat (cover_block b covered i) + 2 ^ 26 * length bs < 2 ^ 64" using Cons.prems(2) by (simp add: same)
    moreover have "valid_blocks bsize seen (cover_block b covered) bs" using Cons.prems(1) by simp
    ultimately show ?thesis
      using False Cons.IH [of "cover_block b covered"] by (simp add: own_blocks_def same coverage_Cons)
  qed
qed (simp add: own_blocks_def coverage_def)

lemma wf_signature_tiles:
  assumes "wf_signature blake3 s" "e \<in> set (cs_entries s)"
  shows "tiles 0 (own_blocks (entry_id e) (cs_blocks s))
    \<and> sum_list (map (\<lambda>b. unat (block_len b)) (own_blocks (entry_id e) (cs_blocks s)))
        = (if entry_kind e = EntryFile then unat (entry_size e) else 0)"
proof -
  have w: "valid_blocks (cs_block_size s) (entry_id ` set (cs_entries s)) (\<lambda>_. 0) (cs_blocks s)"
    "length (cs_blocks s) \<le> 2 ^ 28" "unat (cs_block_size s) \<le> 2 ^ 26"
    "covers_entry (coverage (cs_blocks s) (\<lambda>_. 0)) e"
    using assms by (auto simp: wf_signature_def list_all_iff max_block_size_def word_le_nat_alt)
  have "unat (0 :: u64) + 2 ^ 26 * length (cs_blocks s) < 2 ^ 64" using w(2) by simp
  from valid_blocks_tile [OF w(1,3), of "entry_id e", OF this] w(4) show ?thesis
    by (auto simp: covers_entry_def split: if_splits)
qed

end
