(* ===== verification/Block_Diff.thy ===== *)
theory Block_Diff
  imports Signed_Sources "HOL-Library.AList"
begin

text \<open>
  The diff of a new payload against an old signature: \<^verbatim>\<open>core/cavs-signature/src/diff.rs\<close>.  Offsets are
  natural numbers: those of a signature the decoder accepts stay below \<open>2 ^ 54\<close>, those of a payload
  below its length.  The scan is a partial function, because with blocks of size zero it would not
  end; the laws show that it ends for every other size.
\<close>

section \<open>Plans\<close>

definition max_inline_data :: nat where
  "max_inline_data = 4 * 1024 * 1024"

datatype diff_op =
    CopyOldRange (copy_entry: u32) (old_offset: nat) (new_offset: nat) (op_len: nat)
  | InlineData (new_offset: nat) (op_len: nat)

record diff_plan =
  dp_ops :: "diff_op list"
  reused_bytes :: nat
  inline_bytes :: nat
  ops_before_coalescing :: nat

section \<open>The index\<close>

record weak_index =
  wi_sig :: cavs_signature
  by_weak :: "(u32 \<times> nat list) list"
  wi_paths :: "(u32 \<times> bytes) list"

fun index_blocks :: "u32 \<Rightarrow> nat \<Rightarrow> block_hash list \<Rightarrow> (u32 \<times> nat list) list \<Rightarrow> (u32 \<times> nat list) list" where
  "index_blocks bsize i [] m = m"
| "index_blocks bsize i (b # bs) m =
     index_blocks bsize (i + 1) bs
       (if block_len b = bsize
        then AList.update (block_weak b) ((case map_of m (block_weak b) of None \<Rightarrow> [] | Some l \<Rightarrow> l) @ [i]) m
        else m)"

definition index_build :: "cavs_signature \<Rightarrow> weak_index" where
  "index_build sig =
     \<lparr>wi_sig = sig, by_weak = index_blocks (cs_block_size sig) 0 (cs_blocks sig) [],
      wi_paths = fold (\<lambda>e. AList.update (entry_id e) (entry_path e))
        (filter (\<lambda>e. entry_kind e = EntryFile) (cs_entries sig)) []\<rparr>"

definition index_block :: "weak_index \<Rightarrow> nat \<Rightarrow> block_hash" where
  "index_block idx i = cs_blocks (wi_sig idx) ! i"

definition index_candidates :: "weak_index \<Rightarrow> u32 \<Rightarrow> nat list" where
  "index_candidates idx weak = (case map_of (by_weak idx) weak of None \<Rightarrow> [] | Some l \<Rightarrow> l)"

text \<open>\<^verbatim>\<open>Iterator::max_by_key\<close>: of several greatest elements, the last.\<close>

fun max_by_key :: "('a \<Rightarrow> int) \<Rightarrow> 'a list \<Rightarrow> 'a option" where
  "max_by_key f [] = None"
| "max_by_key f (x # xs) =
     (case max_by_key f xs of None \<Rightarrow> Some x | Some y \<Rightarrow> Some (if f y < f x then x else y))"

definition pick_score :: "weak_index \<Rightarrow> bytes option \<Rightarrow> (u32 \<times> nat) option \<Rightarrow> nat \<Rightarrow> int" where
  "pick_score idx target prev i =
     (let b = index_block idx i;
          along = (if prev = Some (block_entry b, unat (block_offset b)) then 500 else 0);
          same = (case (target, map_of (wi_paths idx) (block_entry b)) of
                    (Some t, Some path) \<Rightarrow> if path = t then 1000 else 0
                  | _ \<Rightarrow> 0)
      in (along + same) * 1000000 - int (min (unat (block_offset b)) 500000) - int (unat (block_entry b)))"

definition index_pick :: "weak_index \<Rightarrow> nat list \<Rightarrow> bytes option \<Rightarrow> (u32 \<times> nat) option \<Rightarrow> nat option" where
  "index_pick idx matching target prev = max_by_key (pick_score idx target prev) matching"

section \<open>The scan\<close>

function emit_inline :: "nat \<Rightarrow> nat \<Rightarrow> diff_plan \<Rightarrow> diff_plan" where
  "emit_inline at stop plan =
     (if at < stop then
        let len = min (stop - at) max_inline_data
        in emit_inline (at + len) stop
             (plan\<lparr>dp_ops := dp_ops plan @ [InlineData at len], inline_bytes := inline_bytes plan + len,
                   ops_before_coalescing := ops_before_coalescing plan + 1\<rparr>)
      else plan)"
  by pat_completeness auto
termination by (relation "measure (\<lambda>(at, stop, _). stop - at)") (auto simp: max_inline_data_def)

declare emit_inline.simps [simp del]

fun coalesce_onto :: "diff_op list \<Rightarrow> diff_op list \<Rightarrow> diff_op list" where
  "coalesce_onto out [] = rev out"
| "coalesce_onto out (op # ops) =
     (case (out, op) of
        (CopyOldRange pe po pn pl # out', CopyOldRange e off noff len) \<Rightarrow>
          if pe = e \<and> po + pl = off \<and> pn + pl = noff
          then coalesce_onto (CopyOldRange pe po pn (pl + len) # out') ops
          else coalesce_onto (op # out) ops
      | _ \<Rightarrow> coalesce_onto (op # out) ops)"

definition coalesce :: "diff_op list \<Rightarrow> diff_op list" where
  "coalesce ops = coalesce_onto [] ops"

text \<open>The state of the scan: the operations so far (uncoalesced), what is owed, the previous copy.\<close>

record scan =
  sc_plan :: diff_plan
  sc_owed :: nat
  sc_prev :: "(u32 \<times> nat) option"

definition find_match :: "hash_fun \<Rightarrow> weak_index \<Rightarrow> bytes \<Rightarrow> bytes option \<Rightarrow> u32 \<Rightarrow> (u32 \<times> nat) option \<Rightarrow> nat option" where
  "find_match blake3 idx window target weak prev =
     (let cands = index_candidates idx weak in
      if cands = [] then None
      else
      let strong = hash_chunk blake3 window;
          matching = filter (\<lambda>i. block_strong (index_block idx i) = strong) cands
      in index_pick idx matching target prev)"

definition take_match :: "weak_index \<Rightarrow> nat \<Rightarrow> nat \<Rightarrow> nat \<Rightarrow> scan \<Rightarrow> scan" where
  "take_match idx bs pos i st =
     (let b = index_block idx i;
          plan = emit_inline (sc_owed st) pos (sc_plan st);
          plan = plan\<lparr>dp_ops := dp_ops plan @ [CopyOldRange (block_entry b) (unat (block_offset b)) pos bs],
                      reused_bytes := reused_bytes plan + bs,
                      ops_before_coalescing := ops_before_coalescing plan + 1\<rparr>
      in \<lparr>sc_plan = plan, sc_owed = pos + bs, sc_prev = Some (block_entry b, unat (block_offset b) + bs)\<rparr>)"

partial_function (option) scan_loop :: "hash_fun \<Rightarrow> weak_index \<Rightarrow> nat \<Rightarrow> bytes \<Rightarrow> bytes option \<Rightarrow> nat
    \<Rightarrow> rolling_weak \<Rightarrow> scan \<Rightarrow> scan option" where
  "scan_loop blake3 idx bs new target pos rw st =
     (case find_match blake3 idx (take bs (drop pos new)) target (rolling_digest rw) (sc_prev st) of
        Some i \<Rightarrow>
          let st = take_match idx bs pos i st; pos = pos + bs in
          if length new < pos + bs then Some st
          else scan_loop blake3 idx bs new target pos (rolling_new (take bs (drop pos new))) st
      | None \<Rightarrow>
          if length new \<le> pos + bs then Some st
          else scan_loop blake3 idx bs new target (pos + 1) (roll (new ! pos) (new ! (pos + bs)) rw) st)"

definition empty_diff_plan :: diff_plan where
  "empty_diff_plan = \<lparr>dp_ops = [], reused_bytes = 0, inline_bytes = 0, ops_before_coalescing = 0\<rparr>"

definition diff_bytes :: "hash_fun \<Rightarrow> weak_index \<Rightarrow> bytes \<Rightarrow> bytes option \<Rightarrow> diff_plan option" where
  "diff_bytes blake3 idx new target =
     (let bs = unat (cs_block_size (wi_sig idx));
          start = \<lparr>sc_plan = empty_diff_plan, sc_owed = 0, sc_prev = None\<rparr>
      in map_option (\<lambda>st. let plan = emit_inline (sc_owed st) (length new) (sc_plan st)
                         in plan\<lparr>dp_ops := coalesce (dp_ops plan)\<rparr>)
           (if bs \<le> length new \<and> by_weak idx \<noteq> []
            then scan_loop blake3 idx bs new target 0 (rolling_new (take bs new)) start
            else Some start))"

fun coverage_end :: "nat \<Rightarrow> diff_op list \<Rightarrow> nat option" where
  "coverage_end at [] = Some at"
| "coverage_end at (op # ops) = (if new_offset op \<noteq> at then None else coverage_end (at + op_len op) ops)"

definition validate_coverage :: "diff_plan \<Rightarrow> nat \<Rightarrow> bool" where
  "validate_coverage plan new_len \<longleftrightarrow> coverage_end 0 (dp_ops plan) = Some new_len"

section \<open>What a plan rebuilds\<close>

text \<open>The bytes an operation yields, from the old entries and the new payload.\<close>

fun op_bytes :: "(u32 \<Rightarrow> bytes) \<Rightarrow> bytes \<Rightarrow> diff_op \<Rightarrow> bytes" where
  "op_bytes old new (CopyOldRange e off _ len) = take len (drop off (old e))"
| "op_bytes old new (InlineData off len) = take len (drop off new)"

definition rebuild :: "(u32 \<Rightarrow> bytes) \<Rightarrow> bytes \<Rightarrow> diff_op list \<Rightarrow> bytes" where
  "rebuild old new ops = concat (map (op_bytes old new) ops)"

lemma rebuild_simps [simp]:
  "rebuild old new [] = []"
  "rebuild old new (op # ops) = op_bytes old new op @ rebuild old new ops"
  "rebuild old new (xs @ ys) = rebuild old new xs @ rebuild old new ys"
  by (simp_all add: rebuild_def)

lemma take_drop_join: "take a (drop k xs) @ take b (drop (k + a) xs) = take (a + b) (drop k xs)"
  by (simp add: take_add add.commute)

lemma coverage_end_append:
  "coverage_end at (xs @ ys) = (case coverage_end at xs of None \<Rightarrow> None | Some m \<Rightarrow> coverage_end m ys)"
  by (induction xs arbitrary: at) auto

lemma coalesce_onto_keeps:
  "rebuild old new (coalesce_onto out ops) = rebuild old new (rev out @ ops)
   \<and> coverage_end at (coalesce_onto out ops) = coverage_end at (rev out @ ops)"
proof (induction ops arbitrary: out)
  case (Cons op ops)
  show ?case
  proof (cases "\<exists>pe po pn pl out' len. out = CopyOldRange pe po pn pl # out' \<and> op = CopyOldRange pe (po + pl) (pn + pl) len")
    case True
    then obtain pe po pn pl out' len where c: "out = CopyOldRange pe po pn pl # out'"
        "op = CopyOldRange pe (po + pl) (pn + pl) len" by blast
    have "rebuild old new (rev out @ op # ops) = rebuild old new (rev (CopyOldRange pe po pn (pl + len) # out') @ ops)"
      by (simp add: c take_drop_join)
    moreover have "coverage_end at (rev out @ op # ops) = coverage_end at (rev (CopyOldRange pe po pn (pl + len) # out') @ ops)"
      by (simp add: c coverage_end_append add.assoc split: option.split)
    ultimately show ?thesis using Cons.IH [of "CopyOldRange pe po pn (pl + len) # out'"] by (simp add: c)
  next
    case False
    then have "coalesce_onto out (op # ops) = coalesce_onto (op # out) ops"
      by (cases out; cases op) (auto split: list.splits diff_op.splits)
    then show ?thesis using Cons.IH [of "op # out"] by simp
  qed
qed simp

lemma coalesce_keeps:
  "rebuild old new (coalesce ops) = rebuild old new ops" "coverage_end at (coalesce ops) = coverage_end at ops"
  using coalesce_onto_keeps [of old new "[]" ops] coalesce_onto_keeps [of _ _ "[]" ops at] by (simp_all add: coalesce_def)

text \<open>
  A plan in progress: its operations tile the payload up to \<open>n\<close> and, where the signature is \<open>good\<close>,
  rebuild it that far.
\<close>

definition plan_upto :: "bool \<Rightarrow> (u32 \<Rightarrow> bytes) \<Rightarrow> bytes \<Rightarrow> nat \<Rightarrow> diff_plan \<Rightarrow> bool" where
  "plan_upto good old new n plan \<longleftrightarrow> n \<le> length new \<and> (good \<longrightarrow> rebuild old new (dp_ops plan) = take n new)
     \<and> coverage_end 0 (dp_ops plan) = Some n \<and> reused_bytes plan + inline_bytes plan = n
     \<and> ops_before_coalescing plan = length (dp_ops plan)
     \<and> (\<forall>op \<in> set (dp_ops plan). case op of InlineData _ len \<Rightarrow> len \<le> max_inline_data | _ \<Rightarrow> True)"

lemma take_extend: "take n xs @ take k (drop n xs) = take (n + k) xs"
  by (simp add: take_add)

lemma emit_inline_upto:
  assumes "plan_upto good old new n plan" "n \<le> m" "m \<le> length new"
  shows "plan_upto good old new m (emit_inline n m plan)
    \<and> reused_bytes (emit_inline n m plan) = reused_bytes plan
    \<and> inline_bytes (emit_inline n m plan) = inline_bytes plan + (m - n)"
  using assms
proof (induction n m plan rule: emit_inline.induct)
  case (1 n m plan)
  show ?case
  proof (cases "n < m")
    case True
    let ?len = "min (m - n) max_inline_data"
    let ?plan = "plan\<lparr>dp_ops := dp_ops plan @ [InlineData n ?len], inline_bytes := inline_bytes plan + ?len,
                   ops_before_coalescing := ops_before_coalescing plan + 1\<rparr>"
    have "n + ?len \<le> m" using True by simp
    moreover have "plan_upto good old new (n + ?len) ?plan"
      using "1.prems" calculation by (auto simp: plan_upto_def take_extend coverage_end_append)
    ultimately show ?thesis
      using "1.IH" [OF True refl] "1.prems"(3) True by (simp add: emit_inline.simps [of n m plan] Let_def)
  next
    case False
    then have "n = m" using "1.prems"(2) by simp
    then show ?thesis using "1.prems" by (simp add: emit_inline.simps [of m m plan])
  qed
qed

section \<open>What a match means\<close>

text \<open>The signature describes the old entries: each block is a range of its entry.\<close>

definition describes :: "hash_fun \<Rightarrow> cavs_signature \<Rightarrow> (u32 \<Rightarrow> bytes) \<Rightarrow> bool" where
  "describes blake3 sig old \<longleftrightarrow> (\<forall>b \<in> set (cs_blocks sig).
     unat (block_offset b) + unat (block_len b) \<le> length (old (block_entry b))
     \<and> block_strong b = blake3 (take (unat (block_len b)) (drop (unat (block_offset b)) (old (block_entry b)))))"

definition block_bytes :: "(u32 \<Rightarrow> bytes) \<Rightarrow> block_hash \<Rightarrow> bytes" where
  "block_bytes old b = take (unat (block_len b)) (drop (unat (block_offset b)) (old (block_entry b)))"

text \<open>No window of the new payload collides with a different block of the old entries.\<close>

definition no_collision :: "hash_fun \<Rightarrow> cavs_signature \<Rightarrow> (u32 \<Rightarrow> bytes) \<Rightarrow> bytes \<Rightarrow> bool" where
  "no_collision blake3 sig old new \<longleftrightarrow> (\<forall>b \<in> set (cs_blocks sig). \<forall>pos.
     blake3 (take (unat (cs_block_size sig)) (drop pos new)) = blake3 (block_bytes old b)
       \<longrightarrow> take (unat (cs_block_size sig)) (drop pos new) = block_bytes old b)"

lemma index_blocks_in:
  assumes "map_of (index_blocks bsize k bs m) w = Some l" "i \<in> set l"
  shows "(\<exists>l'. map_of m w = Some l' \<and> i \<in> set l')
    \<or> (k \<le> i \<and> i < k + length bs \<and> block_len (bs ! (i - k)) = bsize \<and> block_weak (bs ! (i - k)) = w)"
  using assms
proof (induction bs arbitrary: k m)
  case (Cons b bs)
  let ?m = "if block_len b = bsize
        then AList.update (block_weak b) ((case map_of m (block_weak b) of None \<Rightarrow> [] | Some l \<Rightarrow> l) @ [k]) m
        else m"
  have "map_of (index_blocks bsize (k + 1) bs ?m) w = Some l" using Cons.prems(1) by simp
  from Cons.IH [OF this Cons.prems(2)] consider
      (old) l' where "map_of ?m w = Some l'" "i \<in> set l'"
    | (new) "k + 1 \<le> i" "i < k + 1 + length bs" "block_len (bs ! (i - (k + 1))) = bsize" "block_weak (bs ! (i - (k + 1))) = w"
    by blast
  then show ?case
  proof cases
    case old
    then show ?thesis
      by (auto simp: update_conv' split: if_splits option.splits)
  next
    case new
    then have "(b # bs) ! (i - k) = bs ! (i - (k + 1))" by (simp add: nth_Cons' )
    then show ?thesis using new by simp
  qed
qed simp

lemma candidates_in:
  assumes "i \<in> set (index_candidates (index_build sig) weak)"
  shows "i < length (cs_blocks sig) \<and> block_len (cs_blocks sig ! i) = cs_block_size sig"
proof -
  from assms obtain l where "map_of (index_blocks (cs_block_size sig) 0 (cs_blocks sig) []) weak = Some l" "i \<in> set l"
    by (cases "map_of (index_blocks (cs_block_size sig) 0 (cs_blocks sig) []) weak")
      (auto simp: index_candidates_def index_build_def)
  from index_blocks_in [OF this] show ?thesis by simp
qed

lemma max_by_key_in: "max_by_key f xs = Some x \<Longrightarrow> x \<in> set xs"
  by (induction xs arbitrary: x) (auto split: option.splits if_splits)

lemma max_by_key_None: "max_by_key f xs = None \<longleftrightarrow> xs = []"
  by (induction xs) (auto split: option.splits)

lemma find_match_sound:
  assumes "find_match blake3 (index_build sig) window target weak prev = Some i"
  shows "i < length (cs_blocks sig) \<and> block_len (cs_blocks sig ! i) = cs_block_size sig
    \<and> block_strong (cs_blocks sig ! i) = blake3 window"
proof -
  have "i \<in> set (index_candidates (index_build sig) weak)"
    "block_strong (index_block (index_build sig) i) = blake3 window"
    using assms max_by_key_in
    by (auto simp: find_match_def index_pick_def Let_def hash_chunk_def split: if_splits dest!: max_by_key_in)
  then show ?thesis using candidates_in by (simp add: index_block_def index_build_def)
qed

section \<open>The scan ends, and what it has made\<close>

definition scan_ok :: "bool \<Rightarrow> (u32 \<Rightarrow> bytes) \<Rightarrow> bytes \<Rightarrow> scan \<Rightarrow> bool" where
  "scan_ok good old new st \<longleftrightarrow> plan_upto good old new (sc_owed st) (sc_plan st)"

lemma take_match_ok:
  assumes st: "scan_ok good old new st" "sc_owed st \<le> pos" "pos + bs \<le> length new"
    and bs: "bs = unat (cs_block_size sig)"
    and good: "good \<Longrightarrow> describes blake3 sig old \<and> no_collision blake3 sig old new"
    and found: "find_match blake3 (index_build sig) (take bs (drop pos new)) target weak prev = Some i"
  shows "scan_ok good old new (take_match (index_build sig) bs pos i st)
    \<and> sc_owed (take_match (index_build sig) bs pos i st) = pos + bs"
proof -
  let ?b = "cs_blocks sig ! i"
  note f = find_match_sound [OF found]
  have b: "index_block (index_build sig) i = ?b" by (simp add: index_block_def index_build_def)
  have "plan_upto good old new pos (emit_inline (sc_owed st) pos (sc_plan st))"
    using emit_inline_upto [of good old new "sc_owed st" "sc_plan st" pos] st by (simp add: scan_ok_def)
  moreover have "take bs (drop (unat (block_offset ?b)) (old (block_entry ?b))) = take bs (drop pos new)" if good
  proof -
    have m: "?b \<in> set (cs_blocks sig)" using f by simp
    have "block_strong ?b = blake3 (block_bytes old ?b)"
      using good [OF that] m by (simp add: describes_def block_bytes_def)
    then have "take bs (drop pos new) = block_bytes old ?b"
      using good [OF that] m f by (simp add: no_collision_def bs)
    then show ?thesis using f by (simp add: block_bytes_def bs)
  qed
  ultimately show ?thesis
    using st(3) by (auto simp: take_match_def b Let_def scan_ok_def plan_upto_def coverage_end_append take_extend)
qed

lemma window_roll:
  assumes "pos + bs < length new" "0 < bs"
  shows "roll (new ! pos) (new ! (pos + bs)) (rolling_new (take bs (drop pos new)))
    = rolling_new (take bs (drop (pos + 1) new))"
proof -
  obtain k where k: "bs = Suc k" using assms(2) by (cases bs) auto
  have "take bs (drop pos new) = new ! pos # take k (drop (pos + 1) new)"
    using assms(1) by (simp add: k Cons_nth_drop_Suc [symmetric])
  moreover have "take bs (drop (pos + 1) new) = take k (drop (pos + 1) new) @ [new ! (pos + bs)]"
    using assms(1) by (simp add: k take_Suc_conv_app_nth)
  ultimately show ?thesis by (simp only: roll_slides)
qed

lemma scan_loop_returns:
  assumes "scan_ok good old new st" "sc_owed st \<le> pos" "pos + bs \<le> length new" "0 < bs"
    and "bs = unat (cs_block_size sig)" "rw = rolling_new (take bs (drop pos new))"
    and "good \<Longrightarrow> describes blake3 sig old \<and> no_collision blake3 sig old new"
  shows "\<exists>st'. scan_loop blake3 (index_build sig) bs new target pos rw st = Some st' \<and> scan_ok good old new st'"
  using assms(1-3,6)
proof (induction "length new - pos" arbitrary: pos rw st rule: less_induct)
  case less
  let ?idx = "index_build sig"
  show ?case
  proof (cases "find_match blake3 ?idx (take bs (drop pos new)) target (rolling_digest rw) (sc_prev st)")
    case (Some i)
    let ?st = "take_match ?idx bs pos i st"
    note m = take_match_ok [OF less.prems(1-3) assms(5,7) Some]
    show ?thesis
    proof (cases "length new < pos + bs + bs")
      case True
      then show ?thesis
        using m Some by (simp add: scan_loop.simps [of blake3 ?idx bs new target pos] Let_def)
    next
      case False
      have "length new - (pos + bs) < length new - pos" using less.prems(3) assms(4) by linarith
      from less.hyps [OF this, of ?st "rolling_new (take bs (drop (pos + bs) new))"] m False show ?thesis
        using Some by (simp add: scan_loop.simps [of blake3 ?idx bs new target pos] Let_def)
    qed
  next
    case None
    show ?thesis
    proof (cases "length new \<le> pos + bs")
      case True
      then show ?thesis
        using None less.prems(1) by (simp add: scan_loop.simps [of blake3 ?idx bs new target pos])
    next
      case False
      let ?rw = "roll (new ! pos) (new ! (pos + bs)) rw"
      have "length new - (pos + 1) < length new - pos" using False by linarith
      moreover have "?rw = rolling_new (take bs (drop (pos + 1) new))"
        using window_roll [of pos bs new] False assms(4) less.prems(4) by simp
      ultimately show ?thesis
        using less.hyps [of "pos + 1" st ?rw] False None less.prems(1,2)
        by (simp add: scan_loop.simps [of blake3 ?idx bs new target pos])
    qed
  qed
qed

lemma plan_upto_empty: "plan_upto good old new 0 empty_diff_plan"
  by (simp add: plan_upto_def empty_diff_plan_def)

lemma wi_sig_build [simp]: "wi_sig (index_build sig) = sig"
  by (simp add: index_build_def)

lemma diff_bytes_returns:
  assumes "0 < cs_block_size sig"
    and "good \<Longrightarrow> describes blake3 sig old \<and> no_collision blake3 sig old new"
  obtains plan where "diff_bytes blake3 (index_build sig) new target = Some plan"
    "validate_coverage plan (length new)" "reused_bytes plan + inline_bytes plan = length new"
    "good \<Longrightarrow> rebuild old new (dp_ops plan) = new"
proof -
  let ?idx = "index_build sig" and ?bs = "unat (cs_block_size sig)"
  let ?start = "\<lparr>sc_plan = empty_diff_plan, sc_owed = 0, sc_prev = None\<rparr>"
  let ?run = "if ?bs \<le> length new \<and> by_weak ?idx \<noteq> []
            then scan_loop blake3 ?idx ?bs new target 0 (rolling_new (take ?bs new)) ?start else Some ?start"
  have bs: "0 < ?bs" using assms(1) by (simp add: word_less_nat_alt)
  have start: "scan_ok good old new ?start" by (simp add: scan_ok_def plan_upto_empty)
  have "\<exists>st. ?run = Some st \<and> scan_ok good old new st"
  proof (cases "?bs \<le> length new \<and> by_weak ?idx \<noteq> []")
    case True
    have "\<exists>st. scan_loop blake3 ?idx ?bs new target 0 (rolling_new (take ?bs new)) ?start = Some st
        \<and> scan_ok good old new st"
      by (rule scan_loop_returns [OF start _ _ bs refl _ assms(2)]) (use True in simp_all)
    then show ?thesis using True by simp
  qed (use start in auto)
  then obtain st where st: "?run = Some st" "scan_ok good old new st" by blast
  let ?plan = "emit_inline (sc_owed st) (length new) (sc_plan st)"
  have plan: "plan_upto good old new (length new) ?plan"
    by (rule conjunct1 [OF emit_inline_upto]) (use st(2) in \<open>simp_all add: scan_ok_def plan_upto_def\<close>)
  have "diff_bytes blake3 ?idx new target = Some (?plan\<lparr>dp_ops := coalesce (dp_ops ?plan)\<rparr>)"
    using st(1) unfolding diff_bytes_def Let_def wi_sig_build by simp
  then show thesis
    by (rule that [of "?plan\<lparr>dp_ops := coalesce (dp_ops ?plan)\<rparr>"])
      (use plan in \<open>simp_all add: plan_upto_def validate_coverage_def coalesce_keeps\<close>)
qed

end
