(* ===== verification/Diff_Laws.thy ===== *)
theory Diff_Laws
  imports Block_Diff
begin

text \<open>
  The diff against a signature made of a source: such a signature describes the source, and every
  full block of the source is found again.
\<close>

section \<open>A signature made of a source describes it\<close>

lemma unat_u32_small: "n < 2 ^ 32 \<Longrightarrow> unat (of_nat n :: u32) = n"
  by (simp add: unsigned_of_nat take_bit_nat_eq_self)

lemma content_blocks_describe:
  assumes "b \<in> set (content_blocks blake3 bs i off c)" "c = drop n whole" "off = of_nat n"
    and "n + length c = length whole" "length whole < 2 ^ 64" "bs \<le> 2 ^ 26"
  shows "block_entry b = i \<and> unat (block_offset b) + unat (block_len b) \<le> length whole
    \<and> block_strong b = blake3 (take (unat (block_len b)) (drop (unat (block_offset b)) whole))"
  using assms(1-4)
proof (induction "length c" arbitrary: c off n rule: less_induct)
  case less
  let ?h = "take bs c"
  have ne: "c \<noteq> []" "bs \<noteq> 0" using less.prems(1) by (auto simp: content_blocks.simps [of blake3 bs i off c] split: if_splits)
  from less.prems(1) ne consider (first) "b = one_block blake3 i off ?h"
    | (rest) "b \<in> set (content_blocks blake3 bs i (off + of_nat (length ?h)) (drop bs c))"
    by (auto simp: content_blocks.simps [of blake3 bs i off c])
  then show ?case
  proof cases
    case first
    have "unat off = n" using less.prems(3,4) assms(5) by (simp add: unsigned_of_nat take_bit_nat_eq_self)
    moreover have "unat (of_nat (length ?h) :: u32) = length ?h"
    proof (rule unat_u32_small)
      have "length ?h \<le> bs" by simp
      then have "length ?h \<le> 2 ^ 26" using assms(6) by (rule le_trans)
      then show "length ?h < 2 ^ 32" by (rule le_less_trans) simp
    qed
    moreover have "take (length ?h) c = ?h" "n + length ?h \<le> length whole"
      using less.prems(4) by (simp_all add: min_def)
    ultimately show ?thesis
      by (simp only: first one_block_def block_hash.simps flip: less.prems(2))
  next
    case rest
    have shrink: "length (drop bs c) < length c" using ne by simp
    have "drop bs c = drop (n + length ?h) whole" using less.prems(2) ne by (simp add: add.commute min_def)
    moreover have "off + of_nat (length ?h) = of_nat (n + length ?h)" using less.prems(3) by simp
    moreover have "n + length ?h + length (drop bs c) = length whole" using less.prems(4) by simp
    ultimately show ?thesis by (rule less.hyps [OF shrink rest])
  qed
qed

definition content_of :: "signed_item list \<Rightarrow> u32 \<Rightarrow> bytes" where
  "content_of es i = (case map_of (map (\<lambda>(e, c). (entry_id e, c)) es) i of None \<Rightarrow> [] | Some c \<Rightarrow> c)"

lemma content_of_item:
  assumes "distinct (map (\<lambda>x. entry_id (fst x)) es)" "x \<in> set es"
  shows "content_of es (entry_id (fst x)) = snd x"
proof -
  have "map fst (map (\<lambda>(e, c). (entry_id e, c)) es) = map (\<lambda>x. entry_id (fst x)) es" by auto
  moreover have "(entry_id (fst x), snd x) \<in> set (map (\<lambda>(e, c). (entry_id e, c)) es)" using assms(2) by force
  ultimately have "map_of (map (\<lambda>(e, c). (entry_id e, c)) es) (entry_id (fst x)) = Some (snd x)"
    using assms(1) by (metis map_of_is_SomeI)
  then show ?thesis by (simp add: content_of_def)
qed

lemma described_describes:
  assumes "good_items es" "\<forall>x \<in> set es. length (snd x) < 2 ^ 64" "block_size_ok bsize"
  shows "describes blake3 (described_signature blake3 kind bsize profile label es) (content_of es)"
  unfolding describes_def
proof
  fix b assume "b \<in> set (cs_blocks (described_signature blake3 kind bsize profile label es))"
  then obtain x where x: "x \<in> set es" "b \<in> set (content_blocks blake3 (unat bsize) (entry_id (fst x)) 0 (snd x))"
    by (auto simp: described_signature_def item_blocks_def)
  have c: "content_of es (entry_id (fst x)) = snd x"
    using assms(1) x(1) by (intro content_of_item) (simp_all add: good_items_def)
  have "block_entry b = entry_id (fst x) \<and> unat (block_offset b) + unat (block_len b) \<le> length (snd x)
    \<and> block_strong b = blake3 (take (unat (block_len b)) (drop (unat (block_offset b)) (snd x)))"
    by (rule content_blocks_describe [OF x(2), of 0]) (use assms(2) x(1) block_size_okD [OF assms(3)] in simp_all)
  then show "unat (block_offset b) + unat (block_len b) \<le> length (content_of es (block_entry b))
     \<and> block_strong b = blake3 (take (unat (block_len b)) (drop (unat (block_offset b)) (content_of es (block_entry b))))"
    using c by simp
qed

section \<open>Every full block is found\<close>

lemma index_blocks_keep:
  assumes "map_of m w = Some l" "i \<in> set l"
  shows "\<exists>l'. map_of (index_blocks bsize k bs m) w = Some l' \<and> i \<in> set l'"
  using assms
proof (induction bs arbitrary: k m l)
  case (Cons b bs)
  let ?m = "if block_len b = bsize
        then AList.update (block_weak b) ((case map_of m (block_weak b) of None \<Rightarrow> [] | Some l \<Rightarrow> l) @ [k]) m else m"
  obtain l1 where "map_of ?m w = Some l1" "i \<in> set l1"
    using Cons.prems by (cases "block_len b = bsize"; cases "block_weak b = w") (auto simp: update_conv')
  from Cons.IH [OF this, of "k + 1"] show ?case by simp
qed auto

lemma index_blocks_complete:
  assumes "j < length bs" "block_len (bs ! j) = bsize"
  shows "\<exists>l. map_of (index_blocks bsize k bs m) (block_weak (bs ! j)) = Some l \<and> k + j \<in> set l"
  using assms
proof (induction bs arbitrary: k m j)
  case (Cons b bs)
  show ?case
  proof (cases j)
    case 0
    let ?l = "(case map_of m (block_weak b) of None \<Rightarrow> [] | Some l \<Rightarrow> l) @ [k]"
    have "map_of (AList.update (block_weak b) ?l m) (block_weak b) = Some ?l" by (simp add: update_conv')
    from index_blocks_keep [OF this, of k bsize "k + 1" bs] show ?thesis using Cons.prems 0 by simp
  next
    case (Suc j')
    then show ?thesis using Cons.IH [of j' "k + 1"] Cons.prems by simp
  qed
qed simp

lemma find_match_complete:
  assumes "b \<in> set (cs_blocks sig)" "block_len b = cs_block_size sig" "block_strong b = blake3 window"
  shows "find_match blake3 (index_build sig) window target (block_weak b) prev \<noteq> None"
proof -
  obtain j where j: "j < length (cs_blocks sig)" "cs_blocks sig ! j = b" using assms(1) by (auto simp: in_set_conv_nth)
  obtain l where l: "map_of (index_blocks (cs_block_size sig) 0 (cs_blocks sig) []) (block_weak b) = Some l" "j \<in> set l"
    using index_blocks_complete [OF j(1), of "cs_block_size sig" 0 "[]"] assms(2) j(2) by auto
  have "index_candidates (index_build sig) (block_weak b) = l"
    using l(1) by (simp add: index_candidates_def index_build_def)
  moreover have "j \<in> set (filter (\<lambda>i. block_strong (index_block (index_build sig) i) = blake3 window) l)"
    using l(2) j(2) assms(3) by (simp add: index_block_def index_build_def)
  then have "filter (\<lambda>i. block_strong (index_block (index_build sig) i) = blake3 window) l \<noteq> []"
    by (metis empty_iff empty_set)
  ultimately show ?thesis
    using l(2) by (auto simp: find_match_def index_pick_def hash_chunk_def max_by_key_None Let_def simp del: not_None_eq)
qed

lemma full_blocks:
  assumes "bs dvd n" "n + bs \<le> length c" "0 < bs" "bs \<le> 2 ^ 26"
  shows "one_block blake3 i (off + of_nat n) (take bs (drop n c)) \<in> set (content_blocks blake3 bs i off c)"
proof -
  have d: "bs dvd length (take n c)" using assms(1,2) by simp
  have "content_blocks blake3 bs i off c = content_blocks blake3 bs i off (take n c)
      @ content_blocks blake3 bs i (off + of_nat n) (drop n c)"
    using content_blocks_append [OF d assms(3), of blake3 i off "drop n c"] assms(2) by simp
  moreover have "drop n c \<noteq> []" using assms(2,3) by auto
  ultimately show ?thesis
    using assms(3) by (simp add: content_blocks.simps [of blake3 bs i "off + of_nat n"])
qed

lemma scan_all_match:
  assumes found: "\<And>n prev. bs dvd n \<Longrightarrow> n + bs \<le> length new \<Longrightarrow>
      find_match blake3 (index_build sig) (take bs (drop n new)) target (weak32 (take bs (drop n new))) prev \<noteq> None"
    and "0 < bs" "bs dvd pos" "pos + bs \<le> length new" "rw = rolling_new (take bs (drop pos new))"
    and "sc_owed st = pos" "inline_bytes (sc_plan st) = 0"
  shows "\<exists>st'. scan_loop blake3 (index_build sig) bs new target pos rw st = Some st'
    \<and> inline_bytes (sc_plan st') = 0 \<and> bs dvd sc_owed st' \<and> sc_owed st' \<le> length new \<and> length new < sc_owed st' + bs"
  using assms(3-)
proof (induction "length new - pos" arbitrary: pos rw st rule: less_induct)
  case less
  let ?idx = "index_build sig"
  obtain i where i: "find_match blake3 ?idx (take bs (drop pos new)) target (rolling_digest rw) (sc_prev st) = Some i"
    using found [OF less.prems(1,2), of "sc_prev st"] by (auto simp: less.prems(3) digest_new)
  let ?st = "take_match ?idx bs pos i st"
  have st: "sc_owed ?st = pos + bs" "inline_bytes (sc_plan ?st) = 0"
    using less.prems(4,5) by (simp_all add: take_match_def emit_inline.simps [of pos pos] Let_def)
  show ?case
  proof (cases "length new < pos + bs + bs")
    case True
    then show ?thesis
      using i st less.prems(1,2) by (simp add: scan_loop.simps [of blake3 ?idx bs new target pos] Let_def)
  next
    case False
    have "length new - (pos + bs) < length new - pos" using less.prems(2) assms(2) by linarith
    from less.hyps [OF this _ _ refl st] less.prems(1) False show ?thesis
      using i by (simp add: scan_loop.simps [of blake3 ?idx bs new target pos] Let_def)
  qed
qed

lemma emit_inline_adds: "n \<le> m \<Longrightarrow> inline_bytes (emit_inline n m plan) = inline_bytes plan + (m - n)"
proof (induction n m plan rule: emit_inline.induct)
  case (1 n m plan)
  show ?case
  proof (cases "n < m")
    case True
    let ?len = "min (m - n) max_inline_data"
    have "n + ?len \<le> m" using True by simp
    then show ?thesis
      using "1.IH" [OF True refl] True by (simp add: emit_inline.simps [of n m plan] Let_def)
  next
    case False
    then have "n = m" using "1.prems" by simp
    then show ?thesis by (simp add: emit_inline.simps [of m m plan])
  qed
qed

end
