(* ===== verification/Delta.thy ===== *)
theory Delta
  imports Diff_Laws
begin

text \<open>
  What block signatures and diffs promise: the properties of the crate \<^verbatim>\<open>cavs-signature\<close>, each with an
  instance.
\<close>

section \<open>The rolling hash\<close>

text \<open>The hash state after sliding a window of \<open>n\<close> bytes over the first \<open>pos\<close> positions.\<close>

definition rolled :: "nat \<Rightarrow> bytes \<Rightarrow> nat \<Rightarrow> rolling_weak" where
  "rolled n data pos = fold (\<lambda>k. roll (data ! k) (data ! (k + n))) [0..<pos] (rolling_new (take n data))"

lemma rolled_window:
  assumes "0 < n" "pos + n \<le> length data"
  shows "rolled n data pos = rolling_new (take n (drop pos data))"
  using assms(2)
proof (induction pos)
  case (Suc pos)
  then show ?case using window_roll [of pos n data] assms(1) by (simp add: rolled_def)
qed (simp add: rolled_def)

text \<open>
  C35.  Rolling is recomputing: sliding the window byte by byte gives at every position the hash
  computed from the window itself, and that hash is the documented pair of sums modulo 65536,
  although the code computes in wrapping 32-bit words.
\<close>

theorem rolling_equals_recompute:
  assumes "0 < n" "pos + n \<le> length data"
  shows "rolling_digest (rolled n data pos) = weak32 (take n (drop pos data))
    \<and> unat (weak32 (take n (drop pos data))) = weak_reference (take n (drop pos data))"
  by (simp add: rolled_window [OF assms] digest_new weak32_reference)

lemma rolling_equals_recompute_witness:
  "rolling_digest (rolled 2 [97, 98, 99] 1) = weak32 [98, 99] \<and> unat (weak32 [98, 99]) = 98 + 99 + 2 ^ 16 * (2 * 98 + 99)"
  using rolling_equals_recompute [of 2 1 "[97, 98, 99]"] by (simp add: weak_reference_def)

section \<open>The signature file\<close>

text \<open>
  C38.  The decoder of signature files is exact: it returns a signature for precisely the bytes that
  encoding a well-formed signature gives, so nothing that fails the integrity trailer, the limits,
  the coverage of entries by blocks or the Merkle root is accepted, and no signature has two files.
\<close>

theorem signature_file_exact:
  assumes "hash_ok blake3"
  shows "signature_decode blake3 bs = Inr s \<longleftrightarrow> wf_signature blake3 s \<and> signature_encode blake3 s = bs"
  using signature_decode_encode [OF assms] signature_decode_sound by blast

definition flat_hash :: hash_fun where
  "flat_hash x = replicate 32 0"

lemma hash_ok_flat: "hash_ok flat_hash"
  by (simp add: hash_ok_def flat_hash_def)

definition sample_tree :: "(bytes \<times> source_item) list" where
  "sample_tree = [([97], SourceFile False [[1, 2], [3]]), ([98], SourceDir), ([99], SourceLink [97])]"

lemma min_block_1024: "unat (clamp_block_size 0) = 1024" "block_size_ok (clamp_block_size 0)"
  by (simp add: clamp_block_size_def min_block_size_def max_block_size_def max_def min_def) (rule clamp_ok)

lemma valid_ascii: "list_all (\<lambda>b. b < 0x80) s \<Longrightarrow> length s \<le> 2 ^ 16 \<Longrightarrow> valid_str s"
  by (simp add: valid_str_def utf8_ascii)

definition sample_signature :: cavs_signature where
  "sample_signature = described_signature flat_hash DirectoryContainer (clamp_block_size 0) (ascii ''fixed'') []
     (tree_entries 0 sample_tree)"

lemma sample_blocks: "item_blocks flat_hash 1024 (tree_entries 0 sample_tree) = [one_block flat_hash 0 0 [1, 2, 3]]"
  by (simp add: item_blocks_def sample_tree_def content_blocks_short)

lemma sample_wf: "wf_signature flat_hash sample_signature"
  unfolding sample_signature_def
proof (rule described_wf [OF hash_ok_flat min_block_1024(2)])
  show "valid_str []" "valid_str (ascii ''fixed'')" by (simp_all add: valid_ascii ascii_def)
  show "good_items (tree_entries 0 sample_tree)" by (rule tree_good) (simp add: sample_tree_def)
  show "\<forall>x \<in> set (tree_entries 0 sample_tree). named_ok (fst x)"
    by (simp add: sample_tree_def named_ok_def unix_path_def valid_ascii)
  show "length (tree_entries 0 sample_tree) \<le> 2 ^ 24" by (simp add: sample_tree_def)
  show "length (item_blocks flat_hash (unat (clamp_block_size 0)) (tree_entries 0 sample_tree)) \<le> 2 ^ 28"
    by (simp add: min_block_1024 sample_blocks)
qed

lemma signature_file_exact_witness:
  "signature_decode flat_hash (signature_encode flat_hash sample_signature) = Inr sample_signature"
  using signature_file_exact [OF hash_ok_flat, of "signature_encode flat_hash sample_signature" sample_signature]
    sample_wf by blast

text \<open>
  C29.  A decoded signature is internally consistent: the blocks of each entry lie end to end from
  offset zero with no gap and no overlap, and end exactly at the file's size (a directory or link
  has none); so every range derived from it is a valid read of the source.
\<close>

theorem decoded_blocks_tile:
  assumes "signature_decode blake3 bs = Inr s" "e \<in> set (cs_entries s)"
  shows "tiles 0 (own_blocks (entry_id e) (cs_blocks s))
    \<and> sum_list (map (\<lambda>b. unat (block_len b)) (own_blocks (entry_id e) (cs_blocks s)))
        = (if entry_kind e = EntryFile then unat (entry_size e) else 0)"
  using wf_signature_tiles signature_decode_sound [OF assms(1)] assms(2) by blast

lemma decoded_blocks_tile_witness:
  "tiles 0 (own_blocks 0 (cs_blocks sample_signature))
    \<and> sum_list (map (\<lambda>b. unat (block_len b)) (own_blocks 0 (cs_blocks sample_signature))) = 3"
proof -
  let ?e = "\<lparr>entry_id = 0, entry_path = [97], entry_kind = EntryFile, entry_size = 3,
       entry_executable = False, symlink_target = None\<rparr>"
  have "?e \<in> set (cs_entries sample_signature)"
    by (simp add: sample_signature_def described_signature_def sample_tree_def unix_path_def)
  from decoded_blocks_tile [OF signature_decode_encode [OF hash_ok_flat sample_wf] this] show ?thesis by simp
qed

section \<open>Signing\<close>

text \<open>
  C31.  Signing a directory tree refines its plain description: the loop always returns, and the
  signature has one entry per path, numbered in order, each with its content cut into blocks from
  the start, and the hash of all contents; in particular it does not depend on how the reads cut
  the files into pieces.
\<close>

theorem signing_refines_description:
  "sign_dir blake3 tree bsize label
    = Some (Inr (described_signature blake3 DirectoryContainer (clamp_block_size bsize) (ascii ''fixed'') label
        (tree_entries 0 tree)))"
  by (rule sign_dir_described)

text \<open>
  C17.  A signature of a tree survives being written and read, when its paths and link targets are
  valid names, its size is within the format's limits, and no link target is empty.
\<close>

theorem signed_tree_roundtrip:
  assumes "hash_ok blake3" "sign_dir blake3 tree bsize label = Some (Inr s)"
    and "valid_str label" "\<forall>x \<in> set (tree_entries 0 tree). named_ok (fst x)"
    and "length tree \<le> 2 ^ 24" "length (cs_blocks s) \<le> 2 ^ 28"
  shows "signature_decode blake3 (signature_encode blake3 s) = Inr s"
proof -
  let ?es = "tree_entries 0 tree"
  have s: "s = described_signature blake3 DirectoryContainer (clamp_block_size bsize) (ascii ''fixed'') label ?es"
    using assms(2) by (simp add: sign_dir_described)
  have fixed: "valid_str (ascii ''fixed'')" by (simp add: valid_ascii ascii_def)
  have "length ?es = length tree"
    using arg_cong [OF tree_entry_ids, of length 0 tree] by simp
  then have "wf_signature blake3 s"
    unfolding s using assms(4-6) described_wf [OF assms(1) clamp_ok assms(3) fixed tree_good [OF assms(5)]]
    by (simp add: s described_signature_def)
  then show ?thesis by (rule signature_decode_encode [OF assms(1)])
qed

lemma signed_tree_roundtrip_witness:
  "\<exists>s. sign_dir flat_hash sample_tree 0 [] = Some (Inr s)
    \<and> signature_decode flat_hash (signature_encode flat_hash s) = Inr s"
proof -
  have run: "sign_dir flat_hash sample_tree 0 [] = Some (Inr sample_signature)"
    by (simp add: sign_dir_described sample_signature_def)
  have "\<forall>x \<in> set (tree_entries 0 sample_tree). named_ok (fst x)"
    by (simp add: sample_tree_def named_ok_def unix_path_def valid_ascii)
  moreover have "length sample_tree \<le> 2 ^ 24" by (simp add: sample_tree_def)
  moreover have "length (cs_blocks sample_signature) \<le> 2 ^ 28"
    by (simp add: sample_signature_def described_signature_def min_block_1024 sample_blocks)
  ultimately show ?thesis
    using signed_tree_roundtrip [OF hash_ok_flat run] run valid_str_Nil by blast
qed

lemma compare_fresh_same: "compare_fresh s s = Inr ()"
  by (simp add: compare_fresh_def split: option.split)

text \<open>
  C37.  Checking a file against a signature detects every change: with the same block size, the
  check succeeds exactly when the file has the content that was signed, unless the hash collides
  on the two contents.
\<close>

theorem verify_detects_change:
  assumes "sign_file blake3 old bsize label = Some (Inr s)" "sign_file blake3 new bsize label = Some (Inr fresh)"
    and "blake3 (concat old) = blake3 (concat new) \<Longrightarrow> concat old = concat new"
  shows "compare_fresh s fresh = Inr () \<longleftrightarrow> concat old = concat new"
proof -
  have s: "source_blake3 s = Some (blake3 (concat old))" "source_blake3 fresh = Some (blake3 (concat new))"
    using assms(1,2) by (auto simp: sign_file_described described_signature_def file_item_def)
  show ?thesis
  proof (cases "concat old = concat new")
    case True
    then have "fresh = s" using assms(1,2) by (simp add: sign_file_described)
    then show ?thesis using True by (simp add: compare_fresh_same)
  next
    case False
    then have "blake3 (concat old) \<noteq> blake3 (concat new)" using assms(3) by blast
    then show ?thesis using False s by (simp add: compare_fresh_def)
  qed
qed

lemma verify_detects_change_witness:
  "\<exists>s fresh. sign_file (\<lambda>x. x) [[1], [2]] 1024 [] = Some (Inr s) \<and> sign_file (\<lambda>x. x) [[1, 3]] 1024 [] = Some (Inr fresh)
    \<and> compare_fresh s fresh \<noteq> Inr ()"
proof -
  obtain s fresh where run: "sign_file (\<lambda>x. x) [[1], [2]] 1024 [] = Some (Inr s)"
      "sign_file (\<lambda>x. x) [[1, 3]] 1024 [] = Some (Inr fresh)"
    by (simp add: sign_file_described)
  have "compare_fresh s fresh = Inr () \<longleftrightarrow> concat [[1], [2]] = concat [[1, 3 :: byte]]"
    by (rule verify_detects_change [OF run]) simp
  with run show ?thesis by auto
qed

section \<open>Diffs\<close>

text \<open>
  C19.  The diff always returns, and its plan is right: against any signature with a positive block
  size, the scan ends; the operations tile the new payload exactly, in order, without gap or
  overlap; what is reused and what is inline add up to its length; and, if the signature describes
  the old entries and no window collides with a block, executing the plan rebuilds the new payload.
\<close>

theorem diff_plan_correct:
  assumes "0 < cs_block_size sig"
  shows "\<exists>plan. diff_bytes blake3 (index_build sig) new target = Some plan
    \<and> validate_coverage plan (length new) \<and> reused_bytes plan + inline_bytes plan = length new
    \<and> (describes blake3 sig old \<and> no_collision blake3 sig old new \<longrightarrow> rebuild old new (dp_ops plan) = new)"
  by (rule diff_bytes_returns [OF assms, where good = "describes blake3 sig old \<and> no_collision blake3 sig old new"]) auto

lemma diff_plan_correct_witness:
  "\<exists>plan. diff_bytes flat_hash (index_build sample_signature) [1, 2] None = Some plan \<and> validate_coverage plan 2"
proof -
  have "0 < cs_block_size sample_signature"
    using min_block_1024(1) by (simp add: sample_signature_def described_signature_def word_less_nat_alt)
  from diff_plan_correct [OF this, of flat_hash "[1, 2]" None "\<lambda>_. []"] show ?thesis
    by (auto simp: numeral_2_eq_2)
qed

text \<open>
  C2.  Update end to end: sign an old tree, diff a new payload against the signature, execute the
  plan against the old tree; the result is the new payload, unless the hash collides on a window of
  the payload and a block of the tree.
\<close>

theorem signed_diff_rebuilds:
  assumes "sign_dir blake3 tree bsize label = Some (Inr s)" "length tree \<le> 2 ^ 24"
    and "\<forall>x \<in> set (tree_entries 0 tree). length (snd x) < 2 ^ 64"
    and "no_collision blake3 s (content_of (tree_entries 0 tree)) new"
  shows "\<exists>plan. diff_bytes blake3 (index_build s) new target = Some plan
    \<and> rebuild (content_of (tree_entries 0 tree)) new (dp_ops plan) = new"
proof -
  let ?old = "content_of (tree_entries 0 tree)"
  have s: "s = described_signature blake3 DirectoryContainer (clamp_block_size bsize) (ascii ''fixed'') label (tree_entries 0 tree)"
    using assms(1) by (simp add: sign_dir_described)
  have d: "describes blake3 s ?old"
    unfolding s by (rule described_describes [OF tree_good [OF assms(2)] assms(3) clamp_ok])
  have b: "0 < cs_block_size s"
    using block_size_okD [OF clamp_ok [of bsize]] by (simp add: s described_signature_def word_less_nat_alt)
  show ?thesis
    by (rule diff_bytes_returns [OF b, where good = True and old = ?old]) (use d assms(4) in auto)
qed

lemma signed_diff_rebuilds_witness:
  "\<exists>s plan. sign_dir (\<lambda>x. x) sample_tree 0 [] = Some (Inr s)
    \<and> diff_bytes (\<lambda>x. x) (index_build s) [5, 6] None = Some plan
    \<and> rebuild (content_of (tree_entries 0 sample_tree)) [5, 6] (dp_ops plan) = [5, 6]"
proof -
  obtain s where run: "sign_dir (\<lambda>x. x) sample_tree 0 [] = Some (Inr s)" by (simp add: sign_dir_described)
  have "\<forall>x \<in> set (tree_entries 0 sample_tree). length (snd x) < 2 ^ 64" "length sample_tree \<le> 2 ^ 24"
    by (simp_all add: sample_tree_def)
  moreover have "no_collision (\<lambda>x. x) s (content_of (tree_entries 0 sample_tree)) [5, 6]"
    by (simp add: no_collision_def)
  ultimately show ?thesis using signed_diff_rebuilds [OF run] run by blast
qed

text \<open>
  Identical input is all reuse: the diff of a file against its own signature finds every full
  block again, whatever the hash; only the tail shorter than a block travels inline.
\<close>

theorem identical_input_is_reused:
  assumes "sign_file blake3 pieces bsize label = Some (Inr s)"
  shows "\<exists>plan. diff_bytes blake3 (index_build s) (concat pieces) target = Some plan
    \<and> inline_bytes plan = length (concat pieces) mod unat (cs_block_size s)"
proof -
  let ?c = "concat pieces" and ?n = "clamp_block_size bsize"
  let ?bs = "unat ?n"
  have s: "s = described_signature blake3 SingleArtifact ?n (ascii ''fixed'') label [file_item label ?c]"
    using assms by (simp add: sign_file_described)
  have n: "cs_block_size s = ?n" by (simp add: s described_signature_def)
  have bs: "0 < ?bs" "?bs \<le> 2 ^ 26" using block_size_okD [OF clamp_ok] by simp_all
  let ?start = "\<lparr>sc_plan = empty_diff_plan, sc_owed = 0, sc_prev = None\<rparr>"
  have found: "find_match blake3 (index_build s) (take ?bs (drop k ?c)) target (weak32 (take ?bs (drop k ?c))) prev \<noteq> None"
    if k: "?bs dvd k" "k + ?bs \<le> length ?c" for k prev
  proof -
    let ?b = "one_block blake3 0 (of_nat k) (take ?bs (drop k ?c))"
    have len: "length (take ?bs (drop k ?c)) = ?bs" using k(2) by simp
    have "?b \<in> set (cs_blocks s)"
      using full_blocks [OF k bs, of blake3 0 0] by (simp add: s described_signature_def item_blocks_def file_item_def)
    moreover have "block_len ?b = cs_block_size s"
      unfolding one_block_def block_hash.simps len n by simp
    ultimately show ?thesis
      using find_match_complete [of ?b s blake3 "take ?bs (drop k ?c)" target prev] by (simp add: one_block_def)
  qed
  have "\<exists>st. (if ?bs \<le> length ?c \<and> by_weak (index_build s) \<noteq> []
        then scan_loop blake3 (index_build s) ?bs ?c target 0 (rolling_new (take ?bs ?c)) ?start else Some ?start) = Some st
      \<and> inline_bytes (sc_plan st) = 0 \<and> ?bs dvd sc_owed st \<and> sc_owed st \<le> length ?c \<and> length ?c < sc_owed st + ?bs"
  proof (cases "?bs \<le> length ?c")
    case True
    have "by_weak (index_build s) \<noteq> []"
      using found [of 0 None] True by (auto simp: find_match_def index_candidates_def Let_def split: if_splits)
    then show ?thesis
      using scan_all_match [OF found bs(1), of 0 "rolling_new (take ?bs ?c)" ?start] True
      by (simp add: empty_diff_plan_def)
  qed (simp add: empty_diff_plan_def)
  then obtain st where st: "(if ?bs \<le> length ?c \<and> by_weak (index_build s) \<noteq> []
        then scan_loop blake3 (index_build s) ?bs ?c target 0 (rolling_new (take ?bs ?c)) ?start else Some ?start) = Some st"
      "inline_bytes (sc_plan st) = 0" "?bs dvd sc_owed st" "sc_owed st \<le> length ?c" "length ?c < sc_owed st + ?bs" by blast
  have "length ?c - sc_owed st = length ?c mod ?bs"
  proof -
    obtain q where q: "sc_owed st = ?bs * q" using st(3) by (rule dvdE)
    have "length ?c = ?bs * q + (length ?c - sc_owed st)" using st(4) by (simp add: q)
    then have "length ?c mod ?bs = (length ?c - sc_owed st) mod ?bs" by (metis mod_mult_self4)
    moreover have "length ?c - sc_owed st < ?bs" using st(4,5) by linarith
    ultimately show ?thesis by simp
  qed
  then show ?thesis
    using st(1,2) emit_inline_adds [OF st(4), of "sc_plan st"] by (simp add: diff_bytes_def n Let_def)
qed

lemma identical_input_is_reused_witness:
  "\<exists>s plan. sign_file flat_hash [replicate 1024 7, [8]] 0 [] = Some (Inr s)
    \<and> diff_bytes flat_hash (index_build s) (concat [replicate 1024 7, [8]]) None = Some plan \<and> inline_bytes plan = 1"
proof -
  obtain s where run: "sign_file flat_hash [replicate 1024 7, [8]] 0 [] = Some (Inr s)" by (simp add: sign_file_described)
  then have "unat (cs_block_size s) = 1024" using min_block_1024 by (auto simp: sign_file_described described_signature_def)
  then show ?thesis using identical_input_is_reused [OF run] run by fastforce
qed

end
