(* ===== verification/Seg_Format.thy ===== *)
theory Seg_Format
  imports Cavs_Hash Codec Prelude "HOL-Library.Char_ord"
begin

text \<open>
  Segment files of the chunk ledger (\<^verbatim>\<open>core/cavs-store/src/segindex.rs\<close>): the record
  layout, the interned table of packs, the writer and the reader of one segment, and the binary
  search in it.  Texts are their bytes as characters.  A failed slice or index is the error
  \<open>StPanicked\<close>.  Messages of the operating system and of libraries are left out of the
  error texts.
\<close>

section \<open>Errors and ledger entries\<close>

datatype store_layout = LooseLayout | PackfileLayout

datatype store_error =
    StIo string | StJson string | MissingChunk string | AssetNotFound string | StBadHash string
  | BadAssetName string | PackCorrupt string | IndexCorrupt string
  | LayoutMismatch store_layout store_layout | NotExportable string | StReadOnly
  | StPanicked string

type_synonym 'a store_result = "store_error + 'a"

record chunk_info =
  len_raw :: u32
  len_stored :: u32
  ci_flags :: u32
  refcount :: u64
  zero_since :: "u64 option"
  ci_pack :: "string option"
  pack_offset :: "u64 option"

section \<open>Layout\<close>

definition seg_magic :: bytes where
  "seg_magic = ascii ''CAVSSEG1''"

definition seg_version :: u16 where
  "seg_version = 1"

definition seg_header_len :: nat where
  "seg_header_len = 8 + 2 + 1 + 1 + 8"

definition seg_record_len :: nat where
  "seg_record_len = 32 + 4 + 4 + 4 + 8 + 8 + 4 + 8 + 1"

definition no_pack :: u32 where
  "no_pack = - 1"

definition no_offset :: u64 where
  "no_offset = - 1"

definition no_zero_since :: u64 where
  "no_zero_since = - 1"

definition state_live :: byte where
  "state_live = 0"

definition state_tombstone :: byte where
  "state_tombstone = 1"

definition seg_target_records :: nat where
  "seg_target_records = 64 * 1024 * 1024 div seg_record_len"

datatype seg_kind = BaseSeg | DeltaSeg

fun seg_kind_code :: "seg_kind \<Rightarrow> byte" where
  "seg_kind_code BaseSeg = 0"
| "seg_kind_code DeltaSeg = 1"

fun seg_kind_name :: "seg_kind \<Rightarrow> string" where
  "seg_kind_name BaseSeg = ''base''"
| "seg_kind_name DeltaSeg = ''delta''"

text \<open>What a root says of a segment, and an opened segment.\<close>

record root_segment =
  rs_file :: string
  rs_kind :: string
  rs_records :: u64
  rs_size :: u64
  rs_min :: string
  rs_max :: string

record segment =
  sg_file :: string
  sg_kind :: seg_kind
  sg_mmap :: bytes
  sg_count :: nat
  sg_packs :: "string list"
  sg_min :: bytes
  sg_max :: bytes

definition hex_to_hash :: "string \<Rightarrow> chunk_hash option store_result" where
  "hex_to_hash hex = (if length hex \<noteq> 64 then Inr None else map_err StPanicked (from_hex_pairs hex))"

text \<open>The text that a string's bytes spell.\<close>

definition text_of :: "bytes \<Rightarrow> string" where
  "text_of bs = map (\<lambda>b. char_of (unat b)) bs"

lemma text_of_ascii [simp]: "text_of (ascii s) = s"
proof -
  have "char_of (unat (of_nat (of_char c) :: byte)) = c" for c :: char
  proof -
    have "(of_char c :: nat) < 256" by simp
    then have "unat (of_nat (of_char c) :: byte) = of_char c" by (simp add: unsigned_of_nat take_bit_nat_eq_self)
    then show ?thesis by simp
  qed
  then show ?thesis by (simp add: text_of_def ascii_def map_idI)
qed

section \<open>The writer\<close>

text \<open>The table of packs: the ids in order of first use, and the map from id to ordinal.\<close>

record pack_table =
  pt_ids :: "string list"
  pt_map :: "(string \<times> u32) list"

definition pack_table_new :: pack_table where
  "pack_table_new = \<lparr>pt_ids = [], pt_map = []\<rparr>"

definition pack_ordinal :: "string \<Rightarrow> pack_table \<Rightarrow> u32 \<times> pack_table" where
  "pack_ordinal pack t =
     (case map_of (pt_map t) pack of
        Some ord \<Rightarrow> (ord, t)
      | None \<Rightarrow>
          let ord = of_nat (length (pt_ids t))
          in (ord, t\<lparr>pt_ids := pt_ids t @ [pack], pt_map := (pack, ord) # pt_map t\<rparr>))"

definition encode_record :: "chunk_hash \<Rightarrow> chunk_info option \<Rightarrow> pack_table \<Rightarrow> bytes \<times> pack_table" where
  "encode_record hash info packs =
     (case info of
        Some info \<Rightarrow>
          let (ord, packs) = (case ci_pack info of Some p \<Rightarrow> pack_ordinal p packs | None \<Rightarrow> (no_pack, packs))
          in (hash @ to_le 4 (len_raw info) @ to_le 4 (len_stored info) @ to_le 4 (ci_flags info)
              @ to_le 8 (refcount info)
              @ to_le 8 (case zero_since info of Some z \<Rightarrow> z | None \<Rightarrow> no_zero_since)
              @ to_le 4 ord
              @ to_le 8 (case pack_offset info of Some p \<Rightarrow> p | None \<Rightarrow> no_offset)
              @ [state_live], packs)
      | None \<Rightarrow> (hash @ replicate (seg_record_len - 32 - 1) 0 @ [state_tombstone], packs))"

type_synonym seg_record = "string \<times> chunk_info option"

fun encode_records :: "seg_record list \<Rightarrow> pack_table \<Rightarrow> (bytes \<times> pack_table) store_result" where
  "encode_records [] packs = Inr ([], packs)"
| "encode_records ((hex, info) # records) packs =
     rbind (hex_to_hash hex) (\<lambda>hash.
     rbind (ok_or (IndexCorrupt (''bad chunk hex '' @ hex)) hash) (\<lambda>hash.
     let (rec, packs) = encode_record hash info packs in
     rbind (encode_records records packs) (\<lambda>(recs, packs). Inr (rec @ recs, packs))))"

definition encode_pack_id :: "string \<Rightarrow> bytes" where
  "encode_pack_id p = to_le 2 (of_nat (length p) :: u16) @ ascii p"

definition segment_body :: "seg_kind \<Rightarrow> seg_record list \<Rightarrow> bytes store_result" where
  "segment_body kind records =
     rbind (encode_records records pack_table_new) (\<lambda>(recs, packs).
     Inr (seg_magic @ to_le 2 seg_version @ [seg_kind_code kind] @ [0]
          @ to_le 8 (of_nat (length records) :: u64) @ recs
          @ to_le 4 (of_nat (length (pt_ids packs)) :: u32) @ encode_all encode_pack_id (pt_ids packs)))"

definition seg_file_name :: "chunk_hash \<Rightarrow> string" where
  "seg_file_name seal = to_hex seal @ ''.seg''"

definition first_hex :: "seg_record list \<Rightarrow> string" where
  "first_hex records = (case records of [] \<Rightarrow> '''' | r # _ \<Rightarrow> fst r)"

definition last_hex :: "seg_record list \<Rightarrow> string" where
  "last_hex records = (if records = [] then '''' else fst (last records))"

definition root_entry :: "hash_fun \<Rightarrow> seg_kind \<Rightarrow> seg_record list \<Rightarrow> bytes \<Rightarrow> root_segment" where
  "root_entry blake3 kind records body =
     \<lparr>rs_file = seg_file_name (hash_chunk blake3 body), rs_kind = seg_kind_name kind,
      rs_records = of_nat (length records), rs_size = of_nat (length body + 32),
      rs_min = first_hex records, rs_max = last_hex records\<rparr>"

section \<open>The reader\<close>

text \<open>\<^verbatim>\<open>&bytes[a..b]\<close>.\<close>

definition slice_of :: "nat \<Rightarrow> nat \<Rightarrow> bytes \<Rightarrow> bytes store_result" where
  "slice_of a b bs =
     (if a \<le> b \<and> b \<le> length bs then Inr (take (b - a) (drop a bs))
      else Inl (StPanicked ''range out of bounds''))"

fun read_pack_ids :: "string \<Rightarrow> bytes \<Rightarrow> nat \<Rightarrow> nat \<Rightarrow> string list store_result" where
  "read_pack_ids name mmap 0 at = Inr []"
| "read_pack_ids name mmap (Suc n) at =
     (if length mmap - 32 < at + 2
      then Inl (IndexCorrupt (''segment '' @ name @ '': pack table truncated''))
      else
      let len = unat (from_le (take 2 (drop at mmap)) :: u16); at = at + 2 in
      if length mmap - 32 < at + len
      then Inl (IndexCorrupt (''segment '' @ name @ '': pack table truncated''))
      else if \<not> is_utf8 (take len (drop at mmap))
      then Inl (IndexCorrupt (''segment '' @ name @ '': bad pack id''))
      else
      rbind (read_pack_ids name mmap n (at + len)) (\<lambda>ids.
      Inr (text_of (take len (drop at mmap)) # ids)))"

text \<open>
  The offset of the table of packs wraps at the width of \<^verbatim>\<open>usize\<close>, as it does in a release
  build.
\<close>

definition open_segment :: "root_segment \<Rightarrow> bytes \<Rightarrow> segment store_result" where
  "open_segment rs mmap =
     (if length mmap \<noteq> unat (rs_size rs) \<or> length mmap < seg_header_len + 32 \<or> take 8 mmap \<noteq> seg_magic
      then Inl (IndexCorrupt (''segment '' @ rs_file rs @ '' does not match its root entry''))
      else
      let version = from_le (take 2 (drop 8 mmap)) :: u16 in
      if seg_version < version
      then Inl (IndexCorrupt (''segment '' @ rs_file rs @ '' is version '' @ decimal (unat version)
             @ ''; this build reads up to '' @ decimal (unat seg_version)))
      else
      rbind (if mmap ! 10 = 0 then Inr BaseSeg else if mmap ! 10 = 1 then Inr DeltaSeg
             else Inl (IndexCorrupt (''segment '' @ rs_file rs @ '': unknown kind '' @ decimal (unat (mmap ! 10)))))
       (\<lambda>kind.
      let count = unat (from_le (take 8 (drop 12 mmap)) :: u64);
          packs_off = (seg_header_len + count * seg_record_len) mod 2 ^ 64 in
      if length mmap < packs_off + 4 + 32 \<or> count \<noteq> unat (rs_records rs)
      then Inl (IndexCorrupt (''segment '' @ rs_file rs @ '' is truncated''))
      else
      let pack_count = from_le (take 4 (drop packs_off mmap)) :: u32 in
      rbind (read_pack_ids (rs_file rs) mmap (unat pack_count) (packs_off + 4)) (\<lambda>packs.
      rbind (hex_to_hash (rs_min rs)) (\<lambda>lo.
      rbind (hex_to_hash (rs_max rs)) (\<lambda>hi.
      Inr \<lparr>sg_file = rs_file rs, sg_kind = kind, sg_mmap = mmap, sg_count = count, sg_packs = packs,
           sg_min = (case lo of Some h \<Rightarrow> h | None \<Rightarrow> replicate 32 0),
           sg_max = (case hi of Some h \<Rightarrow> h | None \<Rightarrow> replicate 32 0xff)\<rparr>)))))"

definition decode_record :: "bytes \<Rightarrow> string list \<Rightarrow> (chunk_info option \<times> byte) store_result" where
  "decode_record rec packs =
     (let state = rec ! (seg_record_len - 1) in
      if state = state_tombstone then Inr (None, state)
      else
      let u32_at = (\<lambda>off. from_le (take 4 (drop off rec)) :: u32);
          u64_at = (\<lambda>off. from_le (take 8 (drop off rec)) :: u64);
          zs = u64_at 52; ord = u32_at 60; off = u64_at 64 in
      rbind (if ord = no_pack then Inr None
             else if unat ord < length packs then Inr (Some (packs ! unat ord))
             else Inl (StPanicked ''index out of bounds'')) (\<lambda>pack.
      Inr (Some \<lparr>len_raw = u32_at 32, len_stored = u32_at 36, ci_flags = u32_at 40, refcount = u64_at 44,
              zero_since = (if zs \<noteq> no_zero_since then Some zs else None), ci_pack = pack,
              pack_offset = (if off \<noteq> no_offset then Some off else None)\<rparr>, state)))"

definition record_at :: "segment \<Rightarrow> nat \<Rightarrow> bytes store_result" where
  "record_at s i = slice_of (seg_header_len + i * seg_record_len) (seg_header_len + (i + 1) * seg_record_len) (sg_mmap s)"

definition hash_at :: "segment \<Rightarrow> nat \<Rightarrow> bytes store_result" where
  "hash_at s i = rbind (record_at s i) (\<lambda>rec. Inr (take 32 rec))"

function seg_search :: "segment \<Rightarrow> chunk_hash \<Rightarrow> nat \<Rightarrow> nat \<Rightarrow> (chunk_info option \<times> byte) option store_result" where
  "seg_search s hash lo hi =
     (if lo < hi then
        let mid = (lo + hi) div 2 in
        rbind (hash_at s mid) (\<lambda>h.
        if h < hash then seg_search s hash (mid + 1) hi
        else if hash < h then seg_search s hash lo mid
        else
          rbind (record_at s mid) (\<lambda>rec.
          rbind (decode_record rec (sg_packs s)) (\<lambda>found. Inr (Some found))))
      else Inr None)"
  by pat_completeness auto
termination by (relation "measure (\<lambda>(_, _, lo, hi). hi - lo)") auto

declare seg_search.simps [simp del]

definition seg_lookup :: "segment \<Rightarrow> chunk_hash \<Rightarrow> (chunk_info option \<times> byte) option store_result" where
  "seg_lookup s hash =
     (if hash < sg_min s \<or> sg_max s < hash then Inr None else seg_search s hash 0 (sg_count s))"

end
