(* ===== verification/Seg_Laws.thy ===== *)
theory Seg_Laws
  imports Seg_Format
begin

text \<open>
  The laws of segment files: a written segment opens, and holds the records it was written from;
  the binary search in it is the lookup in that list.
\<close>

section \<open>The order of hexadecimal names\<close>

lemma hex_digit_code:
  "unat v < 16 \<Longrightarrow> (of_char (hex_digit v) :: nat) = (if unat v < 10 then 48 + unat v else 87 + unat v)"
  unfolding hex_digit_def by (drule less_16_cases) auto

lemma hex_digit_less:
  assumes "unat a < 16" "unat b < 16"
  shows "hex_digit a < hex_digit b \<longleftrightarrow> unat a < unat b"
  unfolding less_char_def using assms by (auto simp: hex_digit_code)

lemma hex_digit_eq:
  assumes "unat a < 16" "unat b < 16"
  shows "hex_digit a = hex_digit b \<longleftrightarrow> unat a = unat b"
  using hex_digit_less [OF assms] hex_digit_less [OF assms(2,1)] by (metis less_irrefl linorder_neqE)

lemma to_hex_Cons:
  "to_hex (b # bs) = hex_digit (drop_bit 4 b) # hex_digit (b AND 0x0f) # to_hex bs"
  by (simp add: to_hex_def)

lemma to_hex_less: "to_hex x < to_hex y \<longleftrightarrow> x < y"
proof (induction x arbitrary: y)
  case Nil
  show ?case by (cases y) (simp_all add: to_hex_def)
next
  case (Cons b x)
  show ?case
  proof (cases y)
    case Nil
    then show ?thesis by (simp add: to_hex_def)
  next
    case y: (Cons c y')
    let ?h = "\<lambda>v :: byte. unat (drop_bit 4 v)" and ?l = "\<lambda>v :: byte. unat (v AND 0x0f)"
    have lt: "b < c \<longleftrightarrow> ?h b < ?h c \<or> ?h b = ?h c \<and> ?l b < ?l c"
      using nibbles [of b] nibbles [of c] unfolding word_less_nat_alt by linarith
    have eq: "b = c \<longleftrightarrow> ?h b = ?h c \<and> ?l b = ?l c"
      using nibbles [of b] nibbles [of c] by (metis unsigned_word_eqI)
    show ?thesis
      using Cons.IH [of y'] nibbles(1,2) [of b] nibbles(1,2) [of c]
      by (auto simp: y to_hex_Cons hex_digit_less hex_digit_eq lt eq)
  qed
qed

lemma to_hex_eq: "to_hex x = to_hex y \<longleftrightarrow> x = y"
  using to_hex_inj by blast

lemma sorted_to_hex: "sorted_wrt (<) (map to_hex hs) \<longleftrightarrow> sorted_wrt (<) hs"
  by (simp add: sorted_wrt_map to_hex_less)

lemma hex_to_hash_to_hex [simp]: "length h = 32 \<Longrightarrow> hex_to_hash (to_hex h) = Inr (Some h)"
  by (simp add: hex_to_hash_def from_hex_pairs_to_hex)

section \<open>Records\<close>

text \<open>Entries as hash and payload; \<open>None\<close> is a deletion.\<close>

type_synonym seg_entry = "chunk_hash \<times> chunk_info option"

definition hex_records :: "seg_entry list \<Rightarrow> seg_record list" where
  "hex_records es = map (\<lambda>(h, info). (to_hex h, info)) es"

definition pack_id_ok :: "string \<Rightarrow> bool" where
  "pack_id_ok p \<longleftrightarrow> length p < 2 ^ 16 \<and> is_utf8 (ascii p)"

definition valid_info :: "chunk_info \<Rightarrow> bool" where
  "valid_info info \<longleftrightarrow> zero_since info \<noteq> Some no_zero_since \<and> pack_offset info \<noteq> Some no_offset
     \<and> (\<forall>p. ci_pack info = Some p \<longrightarrow> pack_id_ok p)"

definition valid_entry :: "seg_entry \<Rightarrow> bool" where
  "valid_entry e \<longleftrightarrow> length (fst e) = 32 \<and> (\<forall>info. snd e = Some info \<longrightarrow> valid_info info)"

fun state_code :: "chunk_info option \<Rightarrow> byte" where
  "state_code None = state_tombstone"
| "state_code (Some _) = state_live"

text \<open>The table of packs while a segment is written.\<close>

definition pt_ok :: "pack_table \<Rightarrow> bool" where
  "pt_ok t \<longleftrightarrow> (\<forall>p ord. map_of (pt_map t) p = Some ord \<longrightarrow> unat ord < length (pt_ids t) \<and> pt_ids t ! unat ord = p)"

lemma pt_ok_new: "pt_ok pack_table_new"
  by (simp add: pt_ok_def pack_table_new_def)

lemma unat_no_pack: "unat no_pack = 2 ^ 32 - 1"
  by (simp add: no_pack_def unsigned_minus_1_eq_mask mask_eq_exp_minus_1)

lemma pack_ordinal_ok:
  assumes "pack_ordinal p t = (ord, t')" "pt_ok t" "length (pt_ids t) < 2 ^ 32 - 1"
  shows "pt_ok t' \<and> (\<exists>ext. pt_ids t' = pt_ids t @ ext \<and> set ext \<subseteq> {p} \<and> length ext \<le> 1)
    \<and> unat ord < length (pt_ids t') \<and> pt_ids t' ! unat ord = p \<and> ord \<noteq> no_pack"
proof (cases "map_of (pt_map t) p")
  case None
  have n: "unat (of_nat (length (pt_ids t)) :: u32) = length (pt_ids t)"
    using assms(3) by (simp add: unsigned_of_nat take_bit_nat_eq_self)
  then have "of_nat (length (pt_ids t)) \<noteq> no_pack" using unat_no_pack assms(3) by auto
  moreover have "ord = of_nat (length (pt_ids t))"
      "t' = t\<lparr>pt_ids := pt_ids t @ [p], pt_map := (p, ord) # pt_map t\<rparr>"
    using assms(1) None by (auto simp: pack_ordinal_def Let_def)
  moreover have "pt_ok t'"
    using assms(2) n calculation(2,3) by (fastforce simp: pt_ok_def nth_append split: if_splits)
  ultimately show ?thesis using n by simp
next
  case (Some o')
  then have "ord = o'" "t' = t" using assms(1) by (auto simp: pack_ordinal_def)
  moreover have "unat o' < length (pt_ids t)" "pt_ids t ! unat o' = p"
    using assms(2) Some by (auto simp: pt_ok_def)
  moreover have "o' \<noteq> no_pack" using calculation(3) unat_no_pack assms(3) by auto
  ultimately show ?thesis using assms(2) by simp
qed

lemma length_record: "seg_record_len = 73"
  by (simp add: seg_record_len_def)

text \<open>One record, written and read.\<close>

lemma encode_record_ok:
  assumes "encode_record h info t = (rec, t')" "pt_ok t" "length (pt_ids t) < 2 ^ 32 - 1" "valid_entry (h, info)"
  shows "length rec = 73 \<and> take 32 rec = h \<and> pt_ok t'
    \<and> (\<exists>ext. pt_ids t' = pt_ids t @ ext \<and> (\<forall>p \<in> set ext. pack_id_ok p) \<and> length ext \<le> 1)
    \<and> (\<forall>more. decode_record rec (pt_ids t' @ more) = Inr (info, state_code info))"
proof (cases info)
  case None
  then show ?thesis
    using assms by (auto simp: encode_record_def valid_entry_def decode_record_def length_record nth_append Let_def)
next
  case (Some i)
  have h: "length h = 32" and vi: "valid_info i" using assms(4) Some by (auto simp: valid_entry_def)
  obtain ord t1 where o: "(case ci_pack i of Some p \<Rightarrow> pack_ordinal p t | None \<Rightarrow> (no_pack, t)) = (ord, t1)"
    by fastforce
  let ?zs = "case zero_since i of Some z \<Rightarrow> z | None \<Rightarrow> no_zero_since"
  let ?off = "case pack_offset i of Some p \<Rightarrow> p | None \<Rightarrow> no_offset"
  have rec: "rec = h @ to_le 4 (len_raw i) @ to_le 4 (len_stored i) @ to_le 4 (ci_flags i) @ to_le 8 (refcount i)
      @ to_le 8 ?zs @ to_le 4 ord @ to_le 8 ?off @ [state_live]" and t': "t' = t1"
    using assms(1) Some o by (auto simp: encode_record_def)
  have pack: "pt_ok t1 \<and> (\<exists>ext. pt_ids t1 = pt_ids t @ ext \<and> (\<forall>p \<in> set ext. pack_id_ok p) \<and> length ext \<le> 1)
      \<and> (if ord = no_pack then ci_pack i = None
         else unat ord < length (pt_ids t1) \<and> ci_pack i = Some (pt_ids t1 ! unat ord))"
  proof (cases "ci_pack i")
    case None
    then show ?thesis using o assms(2) by auto
  next
    case (Some p)
    then have "pack_ordinal p t = (ord, t1)" "pack_id_ok p" using o vi by (auto simp: valid_info_def)
    then show ?thesis using pack_ordinal_ok [of p t ord t1] assms(2,3) Some by auto
  qed
  have zs: "(if ?zs \<noteq> no_zero_since then Some ?zs else None) = zero_since i"
    and off: "(if ?off \<noteq> no_offset then Some ?off else None) = pack_offset i"
    using vi by (auto simp: valid_info_def split: option.splits)
  have le4: "LENGTH(32) \<le> 8 * 4" and le8: "LENGTH(64) \<le> 8 * 8" by simp_all
  have fields: "rec ! 72 = state_live" "take 4 (drop 32 rec) = to_le 4 (len_raw i)"
    "take 4 (drop 36 rec) = to_le 4 (len_stored i)" "take 4 (drop 40 rec) = to_le 4 (ci_flags i)"
    "take 8 (drop 44 rec) = to_le 8 (refcount i)" "take 8 (drop 52 rec) = to_le 8 ?zs"
    "take 4 (drop 60 rec) = to_le 4 ord" "take 8 (drop 64 rec) = to_le 8 ?off"
    using h by (simp_all add: rec nth_append del: to_le.simps)
  have rec72: "rec ! (73 - 1) = state_live" using fields(1) by simp
  have "decode_record rec (pt_ids t1 @ more) = Inr (info, state_code info)" for more
  proof -
    have pk: "(if ord = no_pack then Inr None
        else if unat ord < length (pt_ids t1 @ more) then Inr (Some ((pt_ids t1 @ more) ! unat ord))
        else Inl (StPanicked ''index out of bounds'')) = Inr (ci_pack i)"
      using pack by (cases "ord = no_pack") (auto simp: nth_append)
    have "state_live \<noteq> state_tombstone" by (simp add: state_live_def state_tombstone_def)
    then have "decode_record rec (pt_ids t1 @ more) = Inr (Some i, state_live)"
      by (simp only: decode_record_def Let_def length_record rec72 fields from_to_le_full le4 le8 zs off pk rbind_simps if_False)
        simp
    then show ?thesis by (simp add: Some)
  qed
  then show ?thesis using pack h t' by (simp add: rec)
qed

section \<open>The record region\<close>

lemma hex_records_simps [simp]:
  "hex_records [] = []"
  "hex_records ((h, info) # es) = (to_hex h, info) # hex_records es"
  "length (hex_records es) = length es"
  by (simp_all add: hex_records_def)

definition record_in :: "bytes \<Rightarrow> nat \<Rightarrow> bytes" where
  "record_in recs i = take 73 (drop (73 * i) recs)"

lemma record_in_append:
  "length r = 73 \<Longrightarrow> record_in (r @ recs) 0 = r"
  "length r = 73 \<Longrightarrow> record_in (r @ recs) (Suc i) = record_in recs i"
  by (simp_all add: record_in_def)

lemma encode_records_ok:
  assumes "list_all valid_entry es" "pt_ok t" "length (pt_ids t) + length es < 2 ^ 32"
  shows "\<exists>recs t' ext. encode_records (hex_records es) t = Inr (recs, t') \<and> pt_ids t' = pt_ids t @ ext
    \<and> (\<forall>p \<in> set ext. pack_id_ok p) \<and> length ext \<le> length es \<and> length recs = 73 * length es
    \<and> (\<forall>i < length es. take 32 (record_in recs i) = fst (es ! i)
         \<and> decode_record (record_in recs i) (pt_ids t') = Inr (snd (es ! i), state_code (snd (es ! i))))"
  using assms
proof (induction es arbitrary: t)
  case Nil
  then show ?case by simp
next
  case (Cons e es)
  obtain h info where e: "e = (h, info)" by fastforce
  obtain r t1 where r: "encode_record h info t = (r, t1)" by fastforce
  have len: "length (pt_ids t) < 2 ^ 32 - 1" using Cons.prems(3) by simp
  have v: "valid_entry (h, info)" using Cons.prems(1) e by simp
  from encode_record_ok [OF r Cons.prems(2) len v] obtain ext1 where r1: "length r = 73" "take 32 r = h" "pt_ok t1"
    "pt_ids t1 = pt_ids t @ ext1" "\<forall>p \<in> set ext1. pack_id_ok p" "length ext1 \<le> 1"
    "\<And>more. decode_record r (pt_ids t1 @ more) = Inr (info, state_code info)" by blast
  have h32: "length h = 32" using v by (simp add: valid_entry_def)
  have "list_all valid_entry es" "length (pt_ids t1) + length es < 2 ^ 32"
    using Cons.prems r1(4,6) by simp_all
  from Cons.IH [OF this(1) r1(3) this(2)] obtain recs t' ext where
    r2: "encode_records (hex_records es) t1 = Inr (recs, t')" "pt_ids t' = pt_ids t1 @ ext"
      "\<forall>p \<in> set ext. pack_id_ok p" "length ext \<le> length es" "length recs = 73 * length es"
      "\<And>i. i < length es \<Longrightarrow> take 32 (record_in recs i) = fst (es ! i)
         \<and> decode_record (record_in recs i) (pt_ids t') = Inr (snd (es ! i), state_code (snd (es ! i)))"
    by blast
  have enc: "encode_records (hex_records (e # es)) t = Inr (r @ recs, t')"
    using h32 r r2(1) by (simp add: e)
  have each: "take 32 (record_in (r @ recs) i) = fst ((e # es) ! i)
      \<and> decode_record (record_in (r @ recs) i) (pt_ids t') = Inr (snd ((e # es) ! i), state_code (snd ((e # es) ! i)))"
    if "i < length (e # es)" for i
  proof (cases i)
    case 0
    then show ?thesis using r1(1,2) r1(7) [of ext] by (simp add: record_in_append r2(2) e)
  next
    case (Suc j)
    then show ?thesis using that r2(6) [of j] r1(1) by (simp add: record_in_append)
  qed
  show ?case
    using enc each r1(1,4,5,6) r2(2-5)
    by (intro exI [of _ "r @ recs"] exI [of _ t'] exI [of _ "ext1 @ ext"]) auto
qed

section \<open>The table of packs\<close>

lemma length_encode_pack_id [simp]: "length (encode_pack_id p) = 2 + length p"
  by (simp add: encode_pack_id_def)

lemma read_pack_ids_ok:
  assumes "\<forall>p \<in> set ids. pack_id_ok p" "drop at mmap = encode_all encode_pack_id ids @ tail"
    and "length tail = 32" "at \<le> length mmap"
  shows "read_pack_ids name mmap (length ids) at = Inr ids"
  using assms
proof (induction ids arbitrary: at)
  case Nil
  then show ?case by simp
next
  case (Cons p ids)
  let ?n = "length p"
  have n: "unat (of_nat ?n :: u16) = ?n"
    using Cons.prems(1) by (simp add: pack_id_ok_def unsigned_of_nat take_bit_nat_eq_self)
  have d: "drop at mmap = to_le 2 (of_nat ?n :: u16) @ ascii p @ encode_all encode_pack_id ids @ tail"
    using Cons.prems(2) by (simp add: encode_pack_id_def [of p])
  have "length mmap - at = 2 + ?n + length (encode_all encode_pack_id ids) + 32"
    using arg_cong [OF d, of length] Cons.prems(3) by simp
  then have room: "at + 2 + ?n \<le> length mmap - 32" using Cons.prems(4) by linarith
  have d2: "drop (at + 2) mmap = ascii p @ encode_all encode_pack_id ids @ tail"
    using arg_cong [OF d, of "drop 2"] by (simp add: add.commute del: to_le.simps)
  have str: "take ?n (drop (at + 2) mmap) = ascii p" by (simp only: d2) simp
  have len: "from_le (take 2 (drop at mmap)) = (of_nat ?n :: u16)" by (simp add: d del: to_le.simps)
  have "drop (at + 2 + ?n) mmap = encode_all encode_pack_id ids @ tail"
    using arg_cong [OF d2, of "drop ?n"] by (simp add: add.commute add.left_commute)
  then have "read_pack_ids name mmap (length ids) (at + 2 + ?n) = Inr ids"
    using Cons.prems room by (intro Cons.IH) auto
  moreover have "is_utf8 (ascii p)" using Cons.prems(1) by (simp add: pack_id_ok_def)
  ultimately show ?case
    using room str by (simp add: len n Let_def del: add_2_eq_Suc add_2_eq_Suc')
qed

lemma length_pack_ids:
  assumes "\<forall>p \<in> set ids. pack_id_ok p"
  shows "length (encode_all encode_pack_id ids) \<le> length ids * 2 ^ 17"
  using assms by (induction ids) (auto simp: pack_id_ok_def)

section \<open>What an open segment holds\<close>

definition seg_holds :: "segment \<Rightarrow> seg_entry list \<Rightarrow> bool" where
  "seg_holds s es \<longleftrightarrow> sg_count s = length es \<and> sorted_wrt (<) (map fst es)
     \<and> (\<forall>i < length es. \<exists>r. record_at s i = Inr r \<and> take 32 r = fst (es ! i)
          \<and> decode_record r (sg_packs s) = Inr (snd (es ! i), state_code (snd (es ! i))))
     \<and> (\<forall>e \<in> set es. length (fst e) = 32 \<and> sg_min s \<le> fst e \<and> fst e \<le> sg_max s)"

lemma sorted_first_last:
  assumes "sorted_wrt (<) (map fst es)" "e \<in> set es"
  shows "fst (hd es) \<le> fst e \<and> fst e \<le> (fst (last es) :: 'a::linorder)"
  using assms
proof (induction es)
  case (Cons x es)
  then show ?case by (cases es) (auto simp: less_imp_le intro: order.trans)
qed simp

lemma record_slice:
  assumes "length pre = seg_header_len" "i < n" "length recs = 73 * n"
  shows "slice_of (seg_header_len + i * seg_record_len) (seg_header_len + (i + 1) * seg_record_len) (pre @ recs @ rest)
    = Inr (record_in recs i)"
proof -
  have "(i + 1) * 73 \<le> n * 73" using assms(2) by (intro mult_right_mono) simp_all
  then have le: "i * 73 + 73 \<le> length recs" using assms(3) by simp
  then have "take 73 (drop (i * 73) (recs @ rest)) = record_in recs i"
    by (simp add: record_in_def mult.commute)
  then show ?thesis using le assms(1)
    by (simp add: slice_of_def length_record seg_header_len_def)
qed

theorem segment_opens:
  assumes "hash_ok blake3" "list_all valid_entry es" "length es < 2 ^ 31" "es \<noteq> []" "sorted_wrt (<) (map fst es)"
  shows "\<exists>body s. segment_body kind (hex_records es) = Inr body
    \<and> open_segment (root_entry blake3 kind (hex_records es) body) (body @ hash_chunk blake3 body) = Inr s
    \<and> seg_holds s es \<and> sg_kind s = kind \<and> sg_mmap s = body @ hash_chunk blake3 body
    \<and> sg_file s = seg_file_name (hash_chunk blake3 body)"
proof -
  have "length (pt_ids pack_table_new) + length es < 2 ^ 32" using assms(3) by (simp add: pack_table_new_def)
  from encode_records_ok [OF assms(2) pt_ok_new this] obtain recs t where
    r: "encode_records (hex_records es) pack_table_new = Inr (recs, t)" "\<forall>p \<in> set (pt_ids t). pack_id_ok p"
      "length (pt_ids t) \<le> length es" "length recs = 73 * length es"
      "\<And>i. i < length es \<Longrightarrow> take 32 (record_in recs i) = fst (es ! i)
         \<and> decode_record (record_in recs i) (pt_ids t) = Inr (snd (es ! i), state_code (snd (es ! i)))"
    by (auto simp: pack_table_new_def)
  let ?n = "length es" and ?k = "length (pt_ids t)" and ?ids = "encode_all encode_pack_id (pt_ids t)"
  define pre where "pre = seg_magic @ to_le 2 seg_version @ [seg_kind_code kind] @ [0] @ to_le 8 (of_nat ?n :: u64)"
  define body where "body = pre @ recs @ to_le 4 (of_nat ?k :: u32) @ ?ids"
  have body: "segment_body kind (hex_records es) = Inr body"
    by (simp add: segment_body_def r(1) body_def pre_def del: to_le.simps)
  define seal where "seal = hash_chunk blake3 body"
  have seal: "length seal = 32" using assms(1) by (simp add: seal_def hash_ok_def hash_chunk_def)
  have pre: "length pre = seg_header_len"
    by (simp add: pre_def seg_header_len_def seg_magic_def del: to_le.simps)
  have n64: "unat (of_nat ?n :: u64) = ?n" and k32: "unat (of_nat ?k :: u32) = ?k"
    using assms(3) r(3) by (simp_all add: unsigned_of_nat take_bit_nat_eq_self)
  have "length ?ids \<le> ?n * 2 ^ 17"
    using length_pack_ids [OF r(2)] r(3) by (meson le_trans mult_le_mono1)
  then have small: "length body + 32 < 2 ^ 60"
    using assms(3) r(4) pre by (simp add: body_def seg_header_len_def)
  then have size: "unat (of_nat (length body + 32) :: u64) = length body + 32"
    by (simp add: unsigned_of_nat take_bit_nat_eq_self del: of_nat_add)
  define mm where "mm = body @ seal"
  have m: "mm = pre @ recs @ to_le 4 (of_nat ?k :: u32) @ ?ids @ seal" by (simp add: body_def mm_def)
  have off: "(seg_header_len + ?n * seg_record_len) mod 2 ^ 64 = length pre + length recs"
    using assms(3) by (simp add: pre length_record r(4) seg_header_len_def)
  have magic: "take 8 mm = seg_magic" by (simp add: m pre_def seg_magic_def del: to_le.simps)
  have version: "from_le (take 2 (drop 8 mm)) = seg_version"
    by (simp add: m pre_def seg_magic_def del: to_le.simps)
  have kind: "mm ! 10 = seg_kind_code kind"
    by (simp add: m pre_def seg_magic_def nth_append del: to_le.simps)
  have count: "from_le (take 8 (drop 12 mm)) = (of_nat ?n :: u64)"
    by (simp add: m pre_def seg_magic_def del: to_le.simps)
  have pcount: "from_le (take 4 (drop (length pre + length recs) mm)) = (of_nat ?k :: u32)"
    by (simp add: m del: to_le.simps)
  have ids: "read_pack_ids name mm (unat (of_nat ?k :: u32)) (length pre + length recs + 4) = Inr (pt_ids t)" for name
    unfolding k32 by (rule read_pack_ids_ok [OF r(2), of _ _ seal]) (simp_all add: m seal del: to_le.simps)
  have room: "\<not> length mm < length pre + length recs + 4 + 32" by (simp add: m seal)
  have h32: "length (fst e) = 32" if "e \<in> set es" for e
    using assms(2) that by (auto simp: list_all_iff valid_entry_def)
  have lo: "hex_to_hash (first_hex (hex_records es)) = Inr (Some (fst (hd es)))"
    using h32 [of "hd es"] assms(4) by (cases es) (auto simp: first_hex_def hex_records_def split: prod.splits)
  have hi: "hex_to_hash (last_hex (hex_records es)) = Inr (Some (fst (last es)))"
    using h32 [OF last_in_set [OF assms(4)]] assms(4)
    by (cases "last es") (simp add: last_hex_def hex_records_def last_map)
  let ?s = "\<lparr>sg_file = seg_file_name seal, sg_kind = kind, sg_mmap = mm, sg_count = ?n, sg_packs = pt_ids t,
    sg_min = fst (hd es), sg_max = fst (last es)\<rparr>"
  have knd: "(if seg_kind_code kind = 0 then Inr BaseSeg else if seg_kind_code kind = 1 then Inr DeltaSeg else Inl x) = Inr kind" for x :: store_error
    by (cases kind) simp_all
  define rs where "rs = root_entry blake3 kind (hex_records es) body"
  have rs: "length mm = unat (rs_size rs)" "rs_records rs = of_nat ?n" "rs_file rs = seg_file_name seal"
      "rs_min rs = first_hex (hex_records es)" "rs_max rs = last_hex (hex_records es)"
    using size seal by (simp_all add: rs_def root_entry_def seal_def mm_def del: of_nat_add)
  have "\<not> length mm < seg_header_len + 32" by (simp add: m pre seal)
  then have "open_segment rs mm = Inr ?s"
    unfolding open_segment_def Let_def version pcount kind knd count off ids rs(2-) n64 lo hi magic
    using room rs(1) by (simp add: ids lo hi)
  moreover have "seg_holds ?s es"
    unfolding seg_holds_def
  proof (intro conjI allI impI ballI)
    fix i assume i: "i < length es"
    show "\<exists>x. record_at ?s i = Inr x \<and> take 32 x = fst (es ! i)
        \<and> decode_record x (sg_packs ?s) = Inr (snd (es ! i), state_code (snd (es ! i)))"
      using record_slice [OF pre i r(4)] r(5) [OF i] by (simp add: record_at_def m)
  next
    fix e assume e: "e \<in> set es"
    show "length (fst e) = 32" by (rule h32 [OF e])
    show "sg_min ?s \<le> fst e" "fst e \<le> sg_max ?s" using sorted_first_last [OF assms(5) e] by simp_all
  qed (use assms(5) in simp_all)
  ultimately show ?thesis using body by (intro exI [of _ body] exI [of _ ?s]) (simp add: seal_def mm_def rs_def)
qed

section \<open>Lookups\<close>

lemma seg_hash_at:
  assumes "seg_holds s es" "i < length es"
  shows "hash_at s i = Inr (fst (es ! i))"
  using assms by (auto simp: seg_holds_def hash_at_def)

lemma seg_record_at:
  assumes "seg_holds s es" "i < length es"
  shows "rbind (record_at s i) (\<lambda>rec. decode_record rec (sg_packs s)) = Inr (snd (es ! i), state_code (snd (es ! i)))"
  using assms by (auto simp: seg_holds_def)

lemma sorted_nth_less:
  assumes "sorted_wrt (<) (map fst es)" "i < j" "j < length es"
  shows "fst (es ! i) < (fst (es ! j) :: 'a::linorder)"
  using assms by (simp add: sorted_wrt_iff_nth_less)

lemma sorted_map_of:
  assumes "sorted_wrt (<) (map fst es)" "i < length es"
  shows "map_of es (fst (es ! i) :: 'a::linorder) = Some (snd (es ! i))"
proof -
  have "distinct (map fst es)" using assms(1) by (simp add: strict_sorted_iff)
  then show ?thesis using assms(2) by (simp add: map_of_eq_Some_iff)
qed

text \<open>The search keeps the position of the hash, if it occurs, between its bounds.\<close>

lemma seg_search_correct:
  assumes "seg_holds s es" "hi \<le> length es"
    and "\<forall>i < length es. fst (es ! i) = hash \<longrightarrow> lo \<le> i \<and> i < hi"
  shows "seg_search s hash lo hi = Inr (map_option (\<lambda>info. (info, state_code info)) (map_of es hash))"
  using assms
proof (induction "hi - lo" arbitrary: lo hi rule: less_induct)
  case less
  have srt: "sorted_wrt (<) (map fst es)" using less.prems(1) by (simp add: seg_holds_def)
  show ?case
  proof (cases "lo < hi")
    case False
    then have "hash \<notin> fst ` set es" using less.prems(3) by (fastforce simp: in_set_conv_nth)
    then show ?thesis using False by (simp add: seg_search.simps [of s hash lo] map_of_eq_None_iff)
  next
    case True
    define mid where "mid = (lo + hi) div 2"
    have mid: "lo \<le> mid" "mid < hi" using True by (simp_all add: mid_def)
    then have m: "mid < length es" using less.prems(2) by simp
    note h = seg_hash_at [OF less.prems(1) m] and r = seg_record_at [OF less.prems(1) m]
    consider (below) "fst (es ! mid) < hash" | (above) "hash < fst (es ! mid)" | (here) "fst (es ! mid) = hash"
      by (meson linorder_neqE)
    then show ?thesis
    proof cases
      case below
      have "mid + 1 \<le> i" if "i < length es" "fst (es ! i) = hash" for i
      proof (rule ccontr)
        assume "\<not> mid + 1 \<le> i"
        then have "fst (es ! i) \<le> fst (es ! mid)"
          using sorted_nth_less [OF srt, of i mid] m by (cases "i = mid") auto
        then show False using below that by simp
      qed
      then have "seg_search s hash (mid + 1) hi = Inr (map_option (\<lambda>info. (info, state_code info)) (map_of es hash))"
        using mid less.prems by (intro less.hyps) auto
      then show ?thesis using True below h by (simp add: seg_search.simps [of s hash lo] mid_def [symmetric])
    next
      case above
      have "i < mid" if "i < length es" "fst (es ! i) = hash" for i
      proof (rule ccontr)
        assume "\<not> i < mid"
        then have "fst (es ! mid) \<le> fst (es ! i)"
          using sorted_nth_less [OF srt, of mid i] that by (cases "i = mid") auto
        then show False using above that by simp
      qed
      then have "seg_search s hash lo mid = Inr (map_option (\<lambda>info. (info, state_code info)) (map_of es hash))"
        using mid less.prems by (intro less.hyps) auto
      then show ?thesis using True above h by (simp add: seg_search.simps [of s hash lo] mid_def [symmetric] less_not_sym)
    next
      case here
      then have "map_of es hash = Some (snd (es ! mid))" using sorted_map_of [OF srt m] by simp
      then show ?thesis
        using True here h r by (auto simp: seg_search.simps [of s hash lo] mid_def [symmetric] rbind_eq_Inr Let_def)
    qed
  qed
qed

theorem seg_lookup_correct:
  assumes "seg_holds s es"
  shows "seg_lookup s hash = Inr (map_option (\<lambda>info. (info, state_code info)) (map_of es hash))"
proof (cases "hash < sg_min s \<or> sg_max s < hash")
  case True
  then have "hash \<notin> fst ` set es" using assms by (fastforce simp: seg_holds_def)
  then show ?thesis using True by (simp add: seg_lookup_def map_of_eq_None_iff)
next
  case False
  have "sg_count s = length es" using assms by (simp add: seg_holds_def)
  then show ?thesis using False seg_search_correct [OF assms, of "length es" hash 0] by (auto simp: seg_lookup_def)
qed

end
