(* ===== verification/Seg_Merge.thy ===== *)
theory Seg_Merge
  imports Seg_Laws
begin

text \<open>
  The streaming merge over the segments of an index (\<^verbatim>\<open>MergeIter\<close> in
  \<^verbatim>\<open>core/cavs-store/src/segindex.rs\<close>).  Segments come newest first; a hash is yielded from the
  newest segment that has it, and not at all when that is a deletion.  The law: it ends, and yields
  in ascending order exactly the live entries.
\<close>

section \<open>The iterator\<close>

fun merge_min :: "(segment \<times> nat) list \<Rightarrow> nat \<Rightarrow> (bytes \<times> nat) option \<Rightarrow> (bytes \<times> nat) option store_result" where
  "merge_min [] i least = Inr least"
| "merge_min ((seg, cursor) # rest) i least =
     (if sg_count seg \<le> cursor then merge_min rest (i + 1) least
      else
      rbind (hash_at seg cursor) (\<lambda>h.
      merge_min rest (i + 1)
        (case least of Some (mh, _) \<Rightarrow> if mh \<le> h then least else Some (h, i) | None \<Rightarrow> Some (h, i))))"

function skip_hash :: "segment \<Rightarrow> bytes \<Rightarrow> nat \<Rightarrow> nat store_result" where
  "skip_hash seg hash cursor =
     (if cursor < sg_count seg
      then rbind (hash_at seg cursor) (\<lambda>h. if h = hash then skip_hash seg hash (cursor + 1) else Inr cursor)
      else Inr cursor)"
  by pat_completeness auto
termination by (relation "measure (\<lambda>(seg, _, cursor). sg_count seg - cursor)") auto

declare skip_hash.simps [simp del]

fun advance_cursors :: "bytes \<Rightarrow> (segment \<times> nat) list \<Rightarrow> nat list store_result" where
  "advance_cursors hash [] = Inr []"
| "advance_cursors hash ((seg, cursor) # rest) =
     rbind (skip_hash seg hash cursor) (\<lambda>c. rbind (advance_cursors hash rest) (\<lambda>cs. Inr (c # cs)))"

text \<open>\<^verbatim>\<open>next\<close>; the outer \<open>None\<close> would be a call that never returns.\<close>

partial_function (option) merge_next ::
    "segment list \<Rightarrow> nat list \<Rightarrow> ((string \<times> chunk_info) option \<times> nat list) store_result option" where
  "merge_next segs cursors =
     (case merge_min (zip segs cursors) 0 None of
        Inl e \<Rightarrow> Some (Inl e)
      | Inr None \<Rightarrow> Some (Inr (None, cursors))
      | Inr (Some (hash, winner)) \<Rightarrow>
          (case rbind (record_at (segs ! winner) (cursors ! winner))
                  (\<lambda>rec. decode_record rec (sg_packs (segs ! winner))) of
             Inl e \<Rightarrow> Some (Inl e)
           | Inr (info, _) \<Rightarrow>
               (case advance_cursors hash (zip segs cursors) of
                  Inl e \<Rightarrow> Some (Inl e)
                | Inr cursors \<Rightarrow>
                    (case info of
                       Some info \<Rightarrow> Some (Inr (Some (to_hex hash, info), cursors))
                     | None \<Rightarrow> merge_next segs cursors))))"

text \<open>All that successive calls of \<^verbatim>\<open>next\<close> yield.\<close>

partial_function (option) merge_collect :: "segment list \<Rightarrow> nat list \<Rightarrow> (string \<times> chunk_info) list store_result option" where
  "merge_collect segs cursors =
     (case merge_next segs cursors of
        None \<Rightarrow> None
      | Some (Inl e) \<Rightarrow> Some (Inl e)
      | Some (Inr (None, _)) \<Rightarrow> Some (Inr [])
      | Some (Inr (Some x, cursors)) \<Rightarrow>
          Option.bind (merge_collect segs cursors) (\<lambda>r. Some (rbind r (\<lambda>xs. Inr (x # xs)))))"

definition iter_live :: "segment list \<Rightarrow> (string \<times> chunk_info) list store_result option" where
  "iter_live segs = merge_collect segs (replicate (length segs) 0)"

section \<open>What it yields\<close>

text \<open>The live entries of lists of records, the newest first.\<close>

definition live_map :: "seg_entry list \<Rightarrow> chunk_hash \<Rightarrow> chunk_info option" where
  "live_map es h = (case map_of es h of Some (Some info) \<Rightarrow> Some info | _ \<Rightarrow> None)"

text \<open>The head a round of the merge chooses, on the lists that are left.\<close>

fun head_min :: "seg_entry list list \<Rightarrow> nat \<Rightarrow> (bytes \<times> nat) option \<Rightarrow> (bytes \<times> nat) option" where
  "head_min [] i least = least"
| "head_min ([] # rest) i least = head_min rest (i + 1) least"
| "head_min ((e # es) # rest) i least =
     head_min rest (i + 1)
       (case least of Some (mh, _) \<Rightarrow> if mh \<le> fst e then least else Some (fst e, i) | None \<Rightarrow> Some (fst e, i))"

lemma merge_min_heads:
  assumes "list_all2 (\<lambda>(s, c) es. seg_holds s es) ps ess"
  shows "merge_min ps i least = Inr (head_min (map2 (\<lambda>(s, c) es. drop c es) ps ess) i least)"
  using assms
proof (induction ps arbitrary: ess i least)
  case Nil
  then show ?case by simp
next
  case (Cons p ps)
  obtain s c es ess' where p: "p = (s, c)" "ess = es # ess'" "seg_holds s es"
      "list_all2 (\<lambda>(s, c) es. seg_holds s es) ps ess'"
    using Cons.prems by (cases p) (auto simp: list_all2_Cons1)
  have n: "sg_count s = length es" using p(3) by (simp add: seg_holds_def)
  show ?case
  proof (cases "c < length es")
    case True
    then have "drop c es = es ! c # drop (Suc c) es" by (simp add: Cons_nth_drop_Suc)
    then show ?thesis using Cons.IH [OF p(4)] True n seg_hash_at [OF p(3) True] by (simp add: p(1,2))
  next
    case False
    then show ?thesis using Cons.IH [OF p(4)] n by (simp add: p(1,2))
  qed
qed

lemma head_min_spec:
  "(head_min xs i least = least
      \<or> (\<exists>k < length xs. xs ! k \<noteq> [] \<and> head_min xs i least = Some (fst (hd (xs ! k)), i + k)
            \<and> (\<forall>j < k. xs ! j \<noteq> [] \<longrightarrow> fst (hd (xs ! k)) < fst (hd (xs ! j)))
            \<and> (\<forall>h w. least = Some (h, w) \<longrightarrow> fst (hd (xs ! k)) < h)))
    \<and> (\<forall>r \<in> set xs. r \<noteq> [] \<longrightarrow> (\<exists>h w. head_min xs i least = Some (h, w) \<and> h \<le> fst (hd r)))
    \<and> (\<forall>h w. least = Some (h, w) \<longrightarrow> (\<exists>h' w'. head_min xs i least = Some (h', w') \<and> h' \<le> h))"
proof (induction xs i least rule: head_min.induct)
  case (1 i least)
  then show ?case by simp
next
  case (2 rest i least)
  let ?m = "head_min rest (i + 1) least"
  have "?m = least \<or> (\<exists>k < length ([] # rest). ([] # rest) ! k \<noteq> [] \<and> ?m = Some (fst (hd (([] # rest) ! k)), i + k)
            \<and> (\<forall>j < k. ([] # rest) ! j \<noteq> [] \<longrightarrow> fst (hd (([] # rest) ! k)) < fst (hd (([] # rest) ! j)))
            \<and> (\<forall>h w. least = Some (h, w) \<longrightarrow> fst (hd (([] # rest) ! k)) < h))"
  proof (cases "?m = least")
    case False
    then obtain k where "k < length rest" "rest ! k \<noteq> []" "?m = Some (fst (hd (rest ! k)), i + 1 + k)"
      "\<forall>j < k. rest ! j \<noteq> [] \<longrightarrow> fst (hd (rest ! k)) < fst (hd (rest ! j))"
      "\<forall>h w. least = Some (h, w) \<longrightarrow> fst (hd (rest ! k)) < h" using 2 by blast
    then show ?thesis by (intro disjI2 exI [of _ "Suc k"]) (auto simp: nth_Cons split: nat.splits)
  qed simp
  then show ?case using 2 by simp
next
  case (3 e es rest i least)
  let ?l = "case least of Some (mh, _) \<Rightarrow> if mh \<le> fst e then least else Some (fst e, i) | None \<Rightarrow> Some (fst e, i)"
  let ?m = "head_min rest (i + 1) ?l" and ?xs = "(e # es) # rest"
  have "\<exists>lh lw. ?l = Some (lh, lw) \<and> lh \<le> fst e" by (auto split: option.splits)
  then obtain lh lw where l: "?l = Some (lh, lw)" "lh \<le> fst e" by blast
  have lm: "lh \<le> h" if "least = Some (h, w)" for h w using l that by (auto split: if_splits)
  obtain h' w' where m: "?m = Some (h', w')" "h' \<le> lh" using 3 l(1) by blast
  have first: "?m = least \<or> (\<exists>k < length ?xs. ?xs ! k \<noteq> [] \<and> ?m = Some (fst (hd (?xs ! k)), i + k)
            \<and> (\<forall>j < k. ?xs ! j \<noteq> [] \<longrightarrow> fst (hd (?xs ! k)) < fst (hd (?xs ! j)))
            \<and> (\<forall>h w. least = Some (h, w) \<longrightarrow> fst (hd (?xs ! k)) < h))"
  proof (cases "?m = ?l")
    case True
    show ?thesis
    proof (cases "?l = least")
      case False
      then have "?l = Some (fst e, i)" "\<forall>h w. least = Some (h, w) \<longrightarrow> fst e < h"
        by (auto split: option.splits if_splits)
      then show ?thesis using True by (intro disjI2 exI [of _ 0]) simp
    qed (use True in simp)
  next
    case False
    then obtain k where k: "k < length rest" "rest ! k \<noteq> []" "?m = Some (fst (hd (rest ! k)), i + 1 + k)"
      "\<forall>j < k. rest ! j \<noteq> [] \<longrightarrow> fst (hd (rest ! k)) < fst (hd (rest ! j))"
      "\<forall>h w. ?l = Some (h, w) \<longrightarrow> fst (hd (rest ! k)) < h" using 3 by blast
    then have "fst (hd (rest ! k)) < lh" using l(1) by blast
    then have "fst (hd (rest ! k)) < fst e" "\<forall>h w. least = Some (h, w) \<longrightarrow> fst (hd (rest ! k)) < h"
      using l(2) lm by (auto intro: less_le_trans)
    then show ?thesis using k(1-4)
      by (intro disjI2 exI [of _ "Suc k"]) (auto simp: nth_Cons split: nat.splits)
  qed
  have "\<forall>r \<in> set ?xs. r \<noteq> [] \<longrightarrow> (\<exists>h w. ?m = Some (h, w) \<and> h \<le> fst (hd r))"
    using 3 m l(2) by (auto intro: order.trans)
  moreover have "\<forall>h w. least = Some (h, w) \<longrightarrow> (\<exists>h' w'. ?m = Some (h', w') \<and> h' \<le> h)"
    using m lm by (auto intro: order.trans)
  ultimately show ?case unfolding head_min.simps using first by (intro conjI)
qed

section \<open>One round\<close>

text \<open>What is left of each segment's entries.\<close>

definition left_of :: "nat list \<Rightarrow> seg_entry list list \<Rightarrow> seg_entry list list" where
  "left_of cursors ess = map2 drop cursors ess"

lemma left_of_zip:
  assumes "length segs = length ess" "length cs = length ess"
  shows "map2 (\<lambda>(s, c) es. drop c es) (zip segs cs) ess = left_of cs ess"
  using assms by (intro nth_equalityI) (simp_all add: left_of_def)

lemma zip_holds:
  assumes "list_all2 seg_holds segs ess" "length cs = length ess"
  shows "list_all2 (\<lambda>(s, c) es. seg_holds s es) (zip segs cs) ess"
  using assms by (auto simp: list_all2_conv_all_nth)

lemma skip_hash_ok:
  assumes "seg_holds s es" "\<forall>e \<in> set (drop c es). hash \<le> fst e"
  shows "\<exists>c'. skip_hash s hash c = Inr c' \<and> drop c' es = filter (\<lambda>e. fst e \<noteq> hash) (drop c es)"
  using assms
proof (induction "length es - c" arbitrary: c rule: less_induct)
  case less
  have n: "sg_count s = length es" and srt: "sorted_wrt (<) (map fst es)"
    using less.prems(1) by (simp_all add: seg_holds_def)
  show ?case
  proof (cases "c < length es")
    case False
    then show ?thesis using n by (simp add: skip_hash.simps [of s hash c])
  next
    case True
    then have d: "drop c es = es ! c # drop (Suc c) es" by (simp add: Cons_nth_drop_Suc)
    have later: "fst (es ! c) < fst e" if "e \<in> set (drop (Suc c) es)" for e
      using that sorted_nth_less [OF srt, of c] by (auto simp: in_set_drop_nth)
    show ?thesis
    proof (cases "fst (es ! c) = hash")
      case eq: True
      have "\<exists>c'. skip_hash s hash (Suc c) = Inr c' \<and> drop c' es = filter (\<lambda>e. fst e \<noteq> hash) (drop (Suc c) es)"
        using True less.prems(2) d by (intro less.hyps less.prems(1)) auto
      then show ?thesis
        using True eq n seg_hash_at [OF less.prems(1) True] by (simp add: skip_hash.simps [of s hash c] d)
    next
      case False
      then have "hash < fst (es ! c)" using less.prems(2) d by (simp add: less_le)
      then have "filter (\<lambda>e. fst e \<noteq> hash) (drop c es) = drop c es"
        using later False \<open>hash < fst (es ! c)\<close> by (fastforce simp: d filter_id_conv)
      then show ?thesis
        using True False n seg_hash_at [OF less.prems(1) True] by (simp add: skip_hash.simps [of s hash c])
    qed
  qed
qed

lemma advance_ok:
  assumes "list_all2 seg_holds segs ess" "length cs = length ess"
    and "\<forall>e \<in> set (concat (left_of cs ess)). hash \<le> fst e"
  shows "\<exists>cs'. advance_cursors hash (zip segs cs) = Inr cs' \<and> length cs' = length ess
    \<and> left_of cs' ess = map (filter (\<lambda>e. fst e \<noteq> hash)) (left_of cs ess)"
  using assms
proof (induction segs ess arbitrary: cs rule: list_all2_induct)
  case Nil
  then show ?case by (simp add: left_of_def)
next
  case (Cons s segs es ess)
  then obtain c cs1 where cs: "cs = c # cs1" "length cs1 = length ess" by (cases cs) auto
  have "\<forall>e \<in> set (drop c es). hash \<le> fst e" "\<forall>e \<in> set (concat (left_of cs1 ess)). hash \<le> fst e"
    using Cons.prems(2) by (auto simp: cs left_of_def)
  then show ?case
    using skip_hash_ok [OF Cons.hyps(1), of c hash] Cons.IH [of cs1] cs
    by (fastforce simp: left_of_def)
qed

lemma map_of_first_list:
  assumes "w < length xs" "xs ! w = e # es" "\<forall>j < w. fst e \<notin> fst ` set (xs ! j)"
  shows "map_of (concat xs) (fst e) = Some (snd e)"
proof -
  have "concat xs = concat (take w xs) @ (e # es) @ concat (drop (Suc w) xs)"
    using assms(1,2) by (metis append.assoc concat.simps(2) concat_append id_take_nth_drop)
  moreover have "map_of (concat (take w xs)) (fst e) = None"
  proof -
    have "fst e \<notin> fst ` set r" if r: "r \<in> set (take w xs)" for r
    proof -
      obtain j where "j < w" "r = xs ! j" using r by (auto simp: in_set_conv_nth)
      then show ?thesis using assms(3) by blast
    qed
    then show ?thesis by (auto simp: map_of_eq_None_iff)
  qed
  ultimately show ?thesis by (simp add: map_add_def)
qed

lemma map_of_without: "map_of (filter (\<lambda>e. fst e \<noteq> k) xs) = (map_of xs)(k := None)"
  by (induction xs) auto

text \<open>The head chosen is the least hash left, with the newest entry for it.\<close>

lemma head_min_newest:
  assumes "\<forall>r \<in> set xs. sorted_wrt (<) (map fst r)" "head_min xs 0 None = Some (h, w)"
  shows "w < length xs \<and> (\<exists>e es. xs ! w = e # es \<and> fst e = h \<and> map_of (concat xs) h = Some (snd e))
    \<and> (\<forall>e \<in> set (concat xs). h \<le> fst e)"
proof -
  from head_min_spec [of xs 0 None] assms(2) obtain
    w: "w < length xs" "xs ! w \<noteq> []" "h = fst (hd (xs ! w))"
      "\<forall>j < w. xs ! j \<noteq> [] \<longrightarrow> h < fst (hd (xs ! j))"
    and least: "\<forall>r \<in> set xs. r \<noteq> [] \<longrightarrow> h \<le> fst (hd r)" by auto
  have hd_le: "fst (hd r) \<le> fst e" if "r \<in> set xs" "e \<in> set r" for r e
    using sorted_first_last [of r e] assms(1) that by blast
  obtain e es where e: "xs ! w = e # es" using w(2) by (cases "xs ! w") auto
  have "fst e \<notin> fst ` set (xs ! j)" if "j < w" for j
  proof
    assume "fst e \<in> fst ` set (xs ! j)"
    then obtain x where x: "x \<in> set (xs ! j)" "fst x = fst e" by auto
    then have "h < fst (hd (xs ! j))" using w(4) that by (metis empty_iff list.set(1))
    moreover have "fst (hd (xs ! j)) \<le> fst x" using hd_le [OF nth_mem x(1)] that w(1) by simp
    ultimately show False using x(2) w(3) e by simp
  qed
  then have "map_of (concat xs) (fst e) = Some (snd e)" using map_of_first_list [OF w(1) e] by blast
  moreover have "\<forall>e \<in> set (concat xs). h \<le> fst e" using least hd_le by (fastforce intro: order.trans)
  ultimately show ?thesis using w(1,3) e by simp
qed

section \<open>The whole merge\<close>

lemma live_map_eq_None: "h \<notin> fst ` set es \<Longrightarrow> live_map es h = None"
  by (simp add: live_map_def map_of_eq_None_iff [THEN iffD2])

lemma live_map_without: "live_map (filter (\<lambda>e. fst e \<noteq> k) xs) = (live_map xs)(k := None)"
  by (rule ext) (simp add: live_map_def map_of_without)

lemma filter_above:
  assumes "\<forall>e \<in> set xs. h \<le> fst e"
  shows "\<forall>e \<in> set (filter (\<lambda>e. fst e \<noteq> h) xs). (h :: 'a::order) < fst e"
  using assms by (auto simp: less_le)

lemma left_of_sorted:
  assumes "list_all2 seg_holds segs ess" "r \<in> set (left_of cs ess)"
  shows "sorted_wrt (<) (map fst r)"
proof -
  obtain c es where "r = drop c es" "es \<in> set ess"
    using assms(2) by (auto simp: left_of_def dest: set_zip_rightD)
  moreover have "\<forall>es \<in> set ess. \<exists>s. seg_holds s es"
    using assms(1) by (metis in_set_conv_nth list_all2_conv_all_nth)
  ultimately show ?thesis by (auto simp: seg_holds_def sorted_wrt_drop simp flip: drop_map)
qed

lemma merge_next_ok:
  assumes "list_all2 seg_holds segs ess" "length cs = length ess"
  shows "\<exists>found cs'. merge_next segs cs = Some (Inr (found, cs')) \<and> length cs' = length ess
    \<and> (case found of
         None \<Rightarrow> live_map (concat (left_of cs ess)) = Map.empty
       | Some (hex, info) \<Rightarrow> \<exists>h. hex = to_hex h
           \<and> live_map (concat (left_of cs ess)) = (live_map (concat (left_of cs' ess)))(h \<mapsto> info)
           \<and> (\<forall>e \<in> set (concat (left_of cs' ess)). h < fst e)
           \<and> length (concat (left_of cs' ess)) < length (concat (left_of cs ess)))"
  using assms(2)
proof (induction "length (concat (left_of cs ess))" arbitrary: cs rule: less_induct)
  case less
  let ?xs = "left_of cs ess"
  have len: "length segs = length ess" using assms(1) by (rule list_all2_lengthD)
  have mm: "merge_min (zip segs cs) 0 None = Inr (head_min ?xs 0 None)"
    using merge_min_heads [OF zip_holds [OF assms(1) less.prems]] left_of_zip [OF len less.prems] by simp
  show ?case
  proof (cases "head_min ?xs 0 None")
    case None
    then have "concat ?xs = []" using head_min_spec [of ?xs 0 None] by auto
    then have "live_map (concat ?xs) = live_map []" by (simp only:)
    then have "live_map (concat ?xs) = Map.empty" by (auto simp: live_map_def)
    then show ?thesis using less.prems by (simp add: merge_next.simps [of segs cs] mm None)
  next
    case (Some least)
    then obtain h w where hw: "head_min ?xs 0 None = Some (h, w)" by (cases least) simp
    have "\<forall>r \<in> set ?xs. sorted_wrt (<) (map fst r)" using left_of_sorted [OF assms(1)] by blast
    from head_min_newest [OF this hw] obtain e es where
      e: "w < length ?xs" "?xs ! w = e # es" "fst e = h" "map_of (concat ?xs) h = Some (snd e)"
      and least: "\<forall>e \<in> set (concat ?xs). h \<le> fst e" by blast
    have w: "w < length ess" using e(1) less.prems by (simp add: left_of_def)
    then have d: "drop (cs ! w) (ess ! w) = e # es" using e(2) less.prems by (simp add: left_of_def)
    then have c: "cs ! w < length (ess ! w)" "ess ! w ! (cs ! w) = e"
      by (metis drop_all list.distinct(1) not_le_imp_less) (metis d nth_via_drop)
    have "seg_holds (segs ! w) (ess ! w)" using assms(1) w len by (simp add: list_all2_conv_all_nth)
    from seg_record_at [OF this c(1)] have rec:
      "rbind (record_at (segs ! w) (cs ! w)) (\<lambda>rec. decode_record rec (sg_packs (segs ! w))) = Inr (snd e, state_code (snd e))"
      by (simp add: c(2))
    from advance_ok [OF assms(1) less.prems least] obtain cs' where
      adv: "advance_cursors h (zip segs cs) = Inr cs'" "length cs' = length ess"
        "left_of cs' ess = map (filter (\<lambda>e. fst e \<noteq> h)) ?xs" by blast
    have rest: "concat (left_of cs' ess) = filter (\<lambda>e. fst e \<noteq> h) (concat ?xs)"
      by (simp add: adv(3) filter_concat)
    have "e \<in> set (concat ?xs)" using e(1,2) by (metis UN_I list.set_intros(1) nth_mem set_concat)
    then have shorter: "length (concat (left_of cs' ess)) < length (concat ?xs)"
      unfolding rest using e(3) by (intro length_filter_less) auto
    have above: "\<forall>e \<in> set (concat (left_of cs' ess)). h < fst e"
      unfolding rest by (rule filter_above [OF least])
    have lm: "live_map (concat (left_of cs' ess)) = (live_map (concat ?xs))(h := None)"
      by (simp add: rest live_map_without)
    show ?thesis
    proof (cases "snd e")
      case (Some info)
      then have "live_map (concat ?xs) h = Some info" using e(4) by (simp add: live_map_def)
      then have "live_map (concat ?xs) = (live_map (concat (left_of cs' ess)))(h \<mapsto> info)" by (auto simp: lm)
      then show ?thesis
        using shorter above adv(2) Some
        by (auto simp: merge_next.simps [of segs cs] mm hw rec adv(1))
    next
      case None
      then have "live_map (concat ?xs) h = None" using e(4) by (simp add: live_map_def)
      then have same: "live_map (concat (left_of cs' ess)) = live_map (concat ?xs)" by (auto simp: lm)
      have "merge_next segs cs = merge_next segs cs'"
        by (simp add: merge_next.simps [of segs cs] mm hw rec adv(1) None)
      then show ?thesis using less.hyps [OF shorter adv(2)] same shorter
        by (fastforce split: option.splits)
    qed
  qed
qed

lemma merge_collect_ok:
  assumes "list_all2 seg_holds segs ess" "length cs = length ess"
  shows "\<exists>xs. merge_collect segs cs = Some (Inr (map (\<lambda>(h, info). (to_hex h, info)) xs))
    \<and> sorted_wrt (<) (map fst xs) \<and> map_of xs = live_map (concat (left_of cs ess))"
  using assms(2)
proof (induction "length (concat (left_of cs ess))" arbitrary: cs rule: less_induct)
  case less
  from merge_next_ok [OF assms(1) less.prems] obtain found cs' where
    n: "merge_next segs cs = Some (Inr (found, cs'))" "length cs' = length ess"
    and f: "case found of
         None \<Rightarrow> live_map (concat (left_of cs ess)) = Map.empty
       | Some (hex, info) \<Rightarrow> \<exists>h. hex = to_hex h
           \<and> live_map (concat (left_of cs ess)) = (live_map (concat (left_of cs' ess)))(h \<mapsto> info)
           \<and> (\<forall>e \<in> set (concat (left_of cs' ess)). h < fst e)
           \<and> length (concat (left_of cs' ess)) < length (concat (left_of cs ess))" by blast
  show ?case
  proof (cases found)
    case None
    then show ?thesis using f n(1) by (intro exI [of _ "[]"]) (simp add: merge_collect.simps [of segs cs])
  next
    case (Some x)
    then obtain h info where x: "found = Some (to_hex h, info)"
      and f: "live_map (concat (left_of cs ess)) = (live_map (concat (left_of cs' ess)))(h \<mapsto> info)"
        "\<forall>e \<in> set (concat (left_of cs' ess)). h < fst e"
        "length (concat (left_of cs' ess)) < length (concat (left_of cs ess))"
      using f by (cases x) auto
    from less.hyps [OF f(3) n(2)] obtain xs where
      xs: "merge_collect segs cs' = Some (Inr (map (\<lambda>(h, info). (to_hex h, info)) xs))"
        "sorted_wrt (<) (map fst xs)" "map_of xs = live_map (concat (left_of cs' ess))" by blast
    have "h < k" if "k \<in> fst ` set xs" for k
    proof -
      have "map_of xs k \<noteq> None" using that by (simp add: map_of_eq_None_iff)
      then have "k \<in> fst ` set (concat (left_of cs' ess))" using xs(3) live_map_eq_None by metis
      then show ?thesis using f(2) by auto
    qed
    then have "sorted_wrt (<) (map fst ((h, info) # xs))" using xs(2) by auto
    moreover have "map_of ((h, info) # xs) = live_map (concat (left_of cs ess))" using f(1) xs(3) by auto
    ultimately show ?thesis
      using xs(1) n(1) x by (intro exI [of _ "(h, info) # xs"]) (simp add: merge_collect.simps [of segs cs])
  qed
qed

theorem iter_live_ok:
  assumes "list_all2 seg_holds segs ess"
  shows "\<exists>xs. iter_live segs = Some (Inr (map (\<lambda>(h, info). (to_hex h, info)) xs))
    \<and> sorted_wrt (<) (map fst xs) \<and> map_of xs = live_map (concat ess)"
proof -
  have len: "length segs = length ess" using assms by (rule list_all2_lengthD)
  have "left_of (replicate (length ess) 0) ess = ess"
    by (intro nth_equalityI) (simp_all add: left_of_def)
  then show ?thesis using merge_collect_ok [OF assms, of "replicate (length ess) 0"] len by (simp add: iter_live_def)
qed

end
