(* ===== verification/Seg_Index.thy ===== *)
theory Seg_Index
  imports Seg_Merge "HOL-Library.AList"
begin

text \<open>
  The segmented chunk ledger on disk (\<^verbatim>\<open>SegIndex\<close> in
  \<^verbatim>\<open>core/cavs-store/src/segindex.rs\<close>): generations, the pool of segments, and the
  operations that open, read, commit to, compact and prune them.  An operation is run on the
  directory \<^verbatim>\<open>index/\<close>; beside its result and the directory it leaves, it gives every
  directory it passed through, one per change, which are the states a crash can leave.
  \<^verbatim>\<open>serde_json\<close>, the code derived for it and \<^verbatim>\<open>zstd\<close> are the parameter
  \<open>lib\<close>.
\<close>

section \<open>Names and numbers\<close>

text \<open>The UTF-8 encodings of the characters with the Unicode property White_Space.\<close>

definition white_space :: "string list" where
  "white_space = map text_of ([[9], [10], [11], [12], [13], [32], [0xc2, 0x85], [0xc2, 0xa0], [0xe1, 0x9a, 0x80]]
     @ map (\<lambda>c. [0xe2, 0x80, c]) [0x80, 0x81, 0x82, 0x83, 0x84, 0x85, 0x86, 0x87, 0x88, 0x89, 0x8a, 0xa8, 0xa9, 0xaf]
     @ [[0xe2, 0x81, 0x9f], [0xe3, 0x80, 0x80]])"

lemma white_space_nonempty: "w \<in> set white_space \<Longrightarrow> w \<noteq> []"
  by (auto simp: white_space_def text_of_def)

function trim_start :: "string \<Rightarrow> string" where
  "trim_start s =
     (case find (\<lambda>w. take (length w) s = w) white_space of
        None \<Rightarrow> s
      | Some w \<Rightarrow> trim_start (drop (length w) s))"
  by pat_completeness auto
termination
proof (relation "measure length")
  fix s w assume "find (\<lambda>w. take (length w) s = w) white_space = Some w"
  then have "w \<in> set white_space" "take (length w) s = w" by (auto simp: find_Some_iff)
  then show "(drop (length w) s, s) \<in> measure length"
    using white_space_nonempty by (metis diff_less in_measure length_drop length_greater_0_conv take_Nil)
qed simp

declare trim_start.simps [simp del]

definition ends_with :: "string \<Rightarrow> string \<Rightarrow> bool" where
  "ends_with s w \<longleftrightarrow> length w \<le> length s \<and> drop (length s - length w) s = w"

function trim_end :: "string \<Rightarrow> string" where
  "trim_end s =
     (case find (ends_with s) white_space of
        None \<Rightarrow> s
      | Some w \<Rightarrow> trim_end (take (length s - length w) s))"
  by pat_completeness auto
termination
proof (relation "measure length")
  fix s w assume "find (ends_with s) white_space = Some w"
  then have "w \<noteq> []" "length w \<le> length s"
    using white_space_nonempty by (auto simp: find_Some_iff ends_with_def)
  then show "(take (length s - length w) s, s) \<in> measure length" by (cases w) auto
qed simp

declare trim_end.simps [simp del]

text \<open>\<^verbatim>\<open>str::parse::<u64>\<close>.\<close>

fun parse_digits :: "nat \<Rightarrow> string \<Rightarrow> nat option" where
  "parse_digits acc [] = Some acc"
| "parse_digits acc (c # cs) =
     (if 48 \<le> char_code c \<and> char_code c \<le> 57
      then let acc = 10 * acc + (char_code c - 48) in if 2 ^ 64 \<le> acc then None else parse_digits acc cs
      else None)"

definition parse_u64 :: "string \<Rightarrow> u64 option" where
  "parse_u64 s =
     (if s = [] \<or> s = ''+'' then None
      else map_option of_nat (parse_digits 0 (if hd s = CHR ''+'' then tl s else s)))"

text \<open>\<^verbatim>\<open>format!("gen-{g:010}")\<close>, and its reading.\<close>

definition gen_name :: "u64 \<Rightarrow> string" where
  "gen_name g = (let n = decimal (unat g) in ''gen-'' @ replicate (10 - length n) CHR ''0'' @ n)"

definition gen_number :: "string \<Rightarrow> u64 option" where
  "gen_number s = (if take 4 s = ''gen-'' then parse_u64 (drop 4 s) else None)"

section \<open>The directory\<close>

datatype index_path = CurrentFile | CurrentTmp | WalLog | PoolFile string | GenFile string string

record index_dir =
  id_files :: "(index_path \<times> bytes) list"
  id_gens :: "string list"

definition get_file :: "index_dir \<Rightarrow> index_path \<Rightarrow> bytes option" where
  "get_file d p = map_of (id_files d) p"

definition put_file :: "index_path \<Rightarrow> bytes \<Rightarrow> index_dir \<Rightarrow> index_dir" where
  "put_file p bs d = d\<lparr>id_files := AList.update p bs (id_files d)\<rparr>"

definition drop_file :: "index_path \<Rightarrow> index_dir \<Rightarrow> index_dir" where
  "drop_file p d = d\<lparr>id_files := AList.delete p (id_files d)\<rparr>"

text \<open>A run: the result, the state after it, and the states passed on the way, one per change.\<close>

type_synonym ('s, 'a) state_run = "'s \<Rightarrow> 'a store_result \<times> 's \<times> 's list"

type_synonym 'a run = "(index_dir, 'a) state_run"

definition ret :: "'a \<Rightarrow> ('s, 'a) state_run" where
  "ret x d = (Inr x, d, [])"

definition ask :: "('s \<Rightarrow> 'a store_result) \<Rightarrow> ('s, 'a) state_run" where
  "ask f d = (f d, d, [])"

definition act :: "('s \<Rightarrow> 's) \<Rightarrow> ('s, unit) state_run" where
  "act f d = (Inr (), f d, [f d])"

definition bind_run :: "('s, 'a) state_run \<Rightarrow> ('a \<Rightarrow> ('s, 'b) state_run) \<Rightarrow> ('s, 'b) state_run" where
  "bind_run m k d =
     (case m d of
        (Inl e, d1, tr) \<Rightarrow> (Inl e, d1, tr)
      | (Inr x, d1, tr) \<Rightarrow> (case k x d1 of (r, d2, tr2) \<Rightarrow> (r, d2, tr @ tr2)))"

definition append_file :: "index_path \<Rightarrow> bytes \<Rightarrow> unit run" where
  "append_file p bs = act (\<lambda>d. put_file p ((case get_file d p of None \<Rightarrow> [] | Some old \<Rightarrow> old) @ bs) d)"

text \<open>Creating or truncating, and then writing.\<close>

definition write_file :: "index_path \<Rightarrow> bytes \<Rightarrow> unit run" where
  "write_file p bs = bind_run (act (put_file p [])) (\<lambda>_. act (put_file p bs))"

definition rename_file :: "index_path \<Rightarrow> index_path \<Rightarrow> unit run" where
  "rename_file a b d =
     (case get_file d a of
        None \<Rightarrow> (Inl (StIo ''no such file''), d, [])
      | Some bs \<Rightarrow> act (\<lambda>d. put_file b bs (drop_file a d)) d)"

definition make_gen :: "string \<Rightarrow> unit run" where
  "make_gen g = act (\<lambda>d. d\<lparr>id_gens := List.insert g (id_gens d)\<rparr>)"

fun drop_files :: "index_path list \<Rightarrow> unit run" where
  "drop_files [] = ret ()"
| "drop_files (p # ps) = bind_run (act (drop_file p)) (\<lambda>_. drop_files ps)"

fun in_gen :: "string \<Rightarrow> index_path \<Rightarrow> bool" where
  "in_gen g (GenFile h f) = (g = h)"
| "in_gen g _ = False"

text \<open>\<^verbatim>\<open>remove_dir_all\<close> of a generation, whose failure the callers ignore.\<close>

definition remove_gen :: "string \<Rightarrow> unit run" where
  "remove_gen g =
     bind_run (ask (\<lambda>d. Inr (filter (in_gen g) (map fst (id_files d))))) (\<lambda>ps.
     bind_run (drop_files ps) (\<lambda>_.
     act (\<lambda>d. d\<lparr>id_gens := removeAll g (id_gens d)\<rparr>)))"

definition wal_append :: "string \<Rightarrow> u64 \<Rightarrow> unit run" where
  "wal_append op g =
     append_file WalLog (ascii (''{'' @ [CHR 0x22] @ ''op'' @ [CHR 0x22] @ '':'' @ [CHR 0x22] @ op @ [CHR 0x22] @ '',''
       @ [CHR 0x22] @ ''gen'' @ [CHR 0x22] @ '':'' @ decimal (unat g) @ ''}'' @ [CHR 0x0a]))"

section \<open>Roots and asset tables\<close>

record root_body =
  rb_version :: u32
  rb_generation :: u64
  rb_layout :: store_layout
  rb_segments :: "root_segment list"

type_synonym asset_table = "(string \<times> string list) list"

text \<open>
  What the ledger uses of the JSON library (over its values \<open>'v\<close>), of the code derived for its
  records, and of the compressor.
\<close>

record 'v ledger_lib =
  to_vec :: "'v \<Rightarrow> bytes"
  from_slice :: "bytes \<Rightarrow> 'v option"
  json_get :: "string \<Rightarrow> 'v \<Rightarrow> 'v option"
  json_str :: "'v \<Rightarrow> string option"
  json_doc :: "string \<Rightarrow> 'v \<Rightarrow> 'v"
  root_to_value :: "root_body \<Rightarrow> 'v"
  root_from_value :: "'v \<Rightarrow> root_body option"
  assets_to_vec :: "asset_table \<Rightarrow> bytes"
  assets_from_slice :: "bytes \<Rightarrow> asset_table option"
  compress :: "bytes \<Rightarrow> bytes option"
  decompress :: "bytes \<Rightarrow> bytes option"

definition write_seg_root :: "'v ledger_lib \<Rightarrow> hash_fun \<Rightarrow> string \<Rightarrow> root_body \<Rightarrow> unit run" where
  "write_seg_root lib blake3 g body =
     (let v = root_to_value lib body;
          doc = json_doc lib (to_hex (hash_chunk blake3 (to_vec lib v))) v
      in bind_run (write_file (GenFile g ''root.idx.tmp'') (to_vec lib doc)) (\<lambda>_.
         rename_file (GenFile g ''root.idx.tmp'') (GenFile g ''root.idx'')))"

definition parse_root :: "'v ledger_lib \<Rightarrow> hash_fun \<Rightarrow> bytes \<Rightarrow> root_body store_result" where
  "parse_root lib blake3 bs =
     rbind (ok_or (IndexCorrupt ''root.idx malformed'') (from_slice lib bs)) (\<lambda>doc.
     rbind (ok_or (IndexCorrupt ''root.idx has no body'') (json_get lib ''body'' doc)) (\<lambda>body.
     let expect = (case Option.bind (json_get lib ''checksum'' doc) (json_str lib) of None \<Rightarrow> '''' | Some s \<Rightarrow> s) in
     if to_hex (hash_chunk blake3 (to_vec lib body)) \<noteq> expect
     then Inl (IndexCorrupt ''root.idx failed its checksum'')
     else
     rbind (ok_or (IndexCorrupt ''root.idx body malformed'') (root_from_value lib body)) (\<lambda>body.
     if rb_version body \<noteq> 1
     then Inl (IndexCorrupt (''root.idx version '' @ decimal (unat (rb_version body)) @ '' not supported''))
     else Inr body)))"

definition read_seg_root :: "'v ledger_lib \<Rightarrow> hash_fun \<Rightarrow> string \<Rightarrow> index_dir \<Rightarrow> root_body store_result" where
  "read_seg_root lib blake3 g d =
     rbind (ok_or (IndexCorrupt ''root.idx unreadable'') (get_file d (GenFile g ''root.idx'')))
       (parse_root lib blake3)"

definition write_assets :: "'v ledger_lib \<Rightarrow> string \<Rightarrow> asset_table \<Rightarrow> unit run" where
  "write_assets lib g assets =
     bind_run (ask (\<lambda>_. ok_or (IndexCorrupt ''compressing assets'') (compress lib (assets_to_vec lib assets)))) (\<lambda>bs.
     bind_run (write_file (GenFile g ''assets.json.zst.tmp'') bs) (\<lambda>_.
     rename_file (GenFile g ''assets.json.zst.tmp'') (GenFile g ''assets.json.zst'')))"

definition read_assets :: "'v ledger_lib \<Rightarrow> string \<Rightarrow> index_dir \<Rightarrow> asset_table store_result" where
  "read_assets lib g d =
     rbind (ok_or (IndexCorrupt ''assets table unreadable'') (get_file d (GenFile g ''assets.json.zst''))) (\<lambda>bs.
     rbind (ok_or (IndexCorrupt ''assets table corrupt'') (decompress lib bs)) (\<lambda>raw.
     ok_or (IndexCorrupt ''assets table malformed'') (assets_from_slice lib raw)))"

section \<open>Opening and reading\<close>

record seg_index =
  si_generation :: u64
  si_layout :: store_layout
  si_segments :: "segment list"

fun open_segments :: "root_segment list \<Rightarrow> index_dir \<Rightarrow> segment list store_result" where
  "open_segments [] d = Inr []"
| "open_segments (rs # rss) d =
     rbind (ok_or (IndexCorrupt (''segment '' @ rs_file rs @ '' unreadable'')) (get_file d (PoolFile (rs_file rs)))) (\<lambda>mmap.
     rbind (open_segment rs mmap) (\<lambda>s.
     rbind (open_segments rss d) (\<lambda>ss. Inr (s # ss))))"

definition current_generation :: "index_dir \<Rightarrow> u64 store_result" where
  "current_generation d =
     rbind (ok_or (StIo ''no such file'') (get_file d CurrentFile)) (\<lambda>bs.
     if \<not> is_utf8 bs then Inl (StIo ''stream did not contain valid UTF-8'')
     else ok_or (IndexCorrupt (''bad CURRENT: '' @ text_of bs)) (gen_number (trim_end (trim_start (text_of bs)))))"

text \<open>The sweep of the generations begun and never committed.\<close>

fun sweep_gens :: "u64 \<Rightarrow> string list \<Rightarrow> unit run" where
  "sweep_gens generation [] = ret ()"
| "sweep_gens generation (g # gs) =
     bind_run
       (case gen_number g of
          Some gen \<Rightarrow> if generation < gen then remove_gen g else ret ()
        | None \<Rightarrow> ret ())
       (\<lambda>_. sweep_gens generation gs)"

definition read_generation :: "'v ledger_lib \<Rightarrow> hash_fun \<Rightarrow> u64 \<Rightarrow> index_dir \<Rightarrow> (seg_index \<times> asset_table) store_result" where
  "read_generation lib blake3 generation d =
     rbind (read_seg_root lib blake3 (gen_name generation) d) (\<lambda>root.
     if rb_generation root \<noteq> generation
     then Inl (IndexCorrupt (''root.idx generation '' @ decimal (unat (rb_generation root)) @ '' != CURRENT ''
            @ decimal (unat generation)))
     else
     rbind (open_segments (rb_segments root) d) (\<lambda>segs.
     rbind (read_assets lib (gen_name generation) d) (\<lambda>assets.
     Inr (\<lparr>si_generation = generation, si_layout = rb_layout root,
            si_segments = rev (filter (\<lambda>s. sg_kind s = DeltaSeg) segs) @ filter (\<lambda>s. sg_kind s = BaseSeg) segs\<rparr>, assets))))"

definition open_index :: "'v ledger_lib \<Rightarrow> hash_fun \<Rightarrow> (seg_index \<times> asset_table) run" where
  "open_index lib blake3 =
     bind_run (ask current_generation) (\<lambda>generation.
     bind_run (ask (\<lambda>d. Inr (id_gens d))) (\<lambda>gens.
     bind_run (sweep_gens generation gens) (\<lambda>_.
     ask (read_generation lib blake3 generation))))"

fun first_hit :: "segment list \<Rightarrow> chunk_hash \<Rightarrow> chunk_info option store_result" where
  "first_hit [] hash = Inr None"
| "first_hit (s # ss) hash =
     rbind (seg_lookup s hash) (\<lambda>found.
     case found of Some (info, _) \<Rightarrow> Inr info | None \<Rightarrow> first_hit ss hash)"

definition index_lookup :: "seg_index \<Rightarrow> string \<Rightarrow> chunk_info option store_result" where
  "index_lookup idx hex =
     rbind (hex_to_hash hex) (\<lambda>hash.
     case hash of None \<Rightarrow> Inr None | Some hash \<Rightarrow> first_hit (si_segments idx) hash)"

definition segment_count :: "seg_index \<Rightarrow> nat" where
  "segment_count idx = length (si_segments idx)"

definition delta_count :: "seg_index \<Rightarrow> nat" where
  "delta_count idx = length (filter (\<lambda>s. sg_kind s = DeltaSeg) (si_segments idx))"

definition delta_bytes :: "seg_index \<Rightarrow> nat" where
  "delta_bytes idx = sum_list (map (\<lambda>s. length (sg_mmap s)) (filter (\<lambda>s. sg_kind s = DeltaSeg) (si_segments idx)))"

definition base_bytes :: "seg_index \<Rightarrow> nat" where
  "base_bytes idx = sum_list (map (\<lambda>s. length (sg_mmap s)) (filter (\<lambda>s. sg_kind s = BaseSeg) (si_segments idx)))"

text \<open>The explicit check of every segment's seal.\<close>

fun verify_seals :: "hash_fun \<Rightarrow> segment list \<Rightarrow> unit store_result" where
  "verify_seals blake3 [] = Inr ()"
| "verify_seals blake3 (s # ss) =
     (let n = length (sg_mmap s) - 32 in
      if hash_chunk blake3 (take n (sg_mmap s)) \<noteq> drop n (sg_mmap s)
      then Inl (IndexCorrupt (''segment '' @ sg_file s @ '' failed its BLAKE3 seal''))
      else verify_seals blake3 ss)"

definition verify_segments :: "hash_fun \<Rightarrow> seg_index \<Rightarrow> nat store_result" where
  "verify_segments blake3 idx = rbind (verify_seals blake3 (si_segments idx)) (\<lambda>_. Inr (segment_count idx))"

end
