(* ===== verification/Seg_Commit.thy ===== *)
theory Seg_Commit
  imports Seg_Index
begin

text \<open>
  Changing the segmented ledger (\<^verbatim>\<open>core/cavs-store/src/segindex.rs\<close>): writing segments,
  committing a session's records as a delta, folding the deltas into fresh bases, creating the
  index, and pruning old generations.  The handle is the value returned; what an operation that
  fails leaves in it is not described, what it leaves on disk is.
\<close>

definition max_delta_segments :: nat where
  "max_delta_segments = 8"

definition delta_bytes_ratio_pct :: nat where
  "delta_bytes_ratio_pct = 25"

definition write_segment :: "hash_fun \<Rightarrow> seg_kind \<Rightarrow> seg_record list \<Rightarrow> root_segment run" where
  "write_segment blake3 kind records =
     bind_run (ask (\<lambda>_. segment_body kind records)) (\<lambda>body.
     let seal = hash_chunk blake3 body; file = seg_file_name seal; tmp = file @ ''.tmp'' in
     bind_run (ask (\<lambda>d. Inr (get_file d (PoolFile file)))) (\<lambda>present.
     bind_run
       (case present of
          Some _ \<Rightarrow> ret ()
        | None \<Rightarrow>
            bind_run (write_file (PoolFile tmp) body) (\<lambda>_.
            bind_run (append_file (PoolFile tmp) seal) (\<lambda>_.
            rename_file (PoolFile tmp) (PoolFile file))))
       (\<lambda>_. ret (root_entry blake3 kind records body))))"

text \<open>Records batched into base segments; \<open>limit\<close> is \<^verbatim>\<open>SEG_TARGET_RECORDS\<close>.\<close>

fun write_batches :: "hash_fun \<Rightarrow> nat \<Rightarrow> seg_record list \<Rightarrow> (string \<times> chunk_info) list \<Rightarrow> root_segment list run" where
  "write_batches blake3 limit batch [] =
     (if batch = [] then ret []
      else bind_run (write_segment blake3 BaseSeg batch) (\<lambda>rs. ret [rs]))"
| "write_batches blake3 limit batch ((hex, info) # rest) =
     (let batch = batch @ [(hex, Some info)] in
      if limit \<le> length batch
      then bind_run (write_segment blake3 BaseSeg batch) (\<lambda>rs.
           bind_run (write_batches blake3 limit [] rest) (\<lambda>rss. ret (rs # rss)))
      else write_batches blake3 limit batch rest)"

definition swap_current :: "u64 \<Rightarrow> unit run" where
  "swap_current g =
     bind_run (write_file CurrentTmp (ascii (gen_name g @ [CHR 0x0a]))) (\<lambda>_.
     rename_file CurrentTmp CurrentFile)"

text \<open>The end that every new generation has: asset table, root, and the swap.\<close>

definition publish_generation ::
    "'v ledger_lib \<Rightarrow> hash_fun \<Rightarrow> u64 \<Rightarrow> store_layout \<Rightarrow> root_segment list \<Rightarrow> asset_table \<Rightarrow> unit run" where
  "publish_generation lib blake3 g layout segs assets =
     bind_run (write_assets lib (gen_name g) assets) (\<lambda>_.
     bind_run (write_seg_root lib blake3 (gen_name g)
       \<lparr>rb_version = 1, rb_generation = g, rb_layout = layout, rb_segments = segs\<rparr>) (\<lambda>_.
     bind_run (swap_current g) (\<lambda>_.
     wal_append ''commit'' g)))"

section \<open>Pruning\<close>

text \<open>Removing the named generations, and then the segments no kept root names.\<close>

fun remove_gens :: "u64 list \<Rightarrow> unit run" where
  "remove_gens [] = ret ()"
| "remove_gens (g # gs) = bind_run (remove_gen (gen_name g)) (\<lambda>_. remove_gens gs)"

definition kept_gens :: "u64 list \<Rightarrow> u64 list" where
  "kept_gens gens = take 2 (rev (sort gens))"

definition referenced_files :: "'v ledger_lib \<Rightarrow> hash_fun \<Rightarrow> u64 list \<Rightarrow> index_dir \<Rightarrow> string list" where
  "referenced_files lib blake3 keep d =
     concat (map (\<lambda>g. case read_seg_root lib blake3 (gen_name g) d of
                        Inl _ \<Rightarrow> []
                      | Inr root \<Rightarrow> map rs_file (rb_segments root)) keep)"

fun pool_name :: "index_path \<Rightarrow> string option" where
  "pool_name (PoolFile name) = Some name"
| "pool_name _ = None"

definition orphan_segments :: "string list \<Rightarrow> index_dir \<Rightarrow> index_path list" where
  "orphan_segments referenced d =
     map PoolFile (filter (\<lambda>name. ends_with name ''.seg'' \<and> name \<notin> set referenced)
       (List.map_filter pool_name (map fst (id_files d))))"

definition prune_generations :: "'v ledger_lib \<Rightarrow> hash_fun \<Rightarrow> unit run" where
  "prune_generations lib blake3 =
     bind_run (ask (\<lambda>d. Inr (sort (List.map_filter gen_number (id_gens d))))) (\<lambda>gens.
     let keep = kept_gens gens in
     bind_run (remove_gens (filter (\<lambda>g. g \<notin> set keep) gens)) (\<lambda>_.
     bind_run (ask (\<lambda>d. Inr (orphan_segments (referenced_files lib blake3 keep d) d))) (\<lambda>orphans.
     bind_run (drop_files orphans) (\<lambda>_.
     write_file WalLog []))))"

section \<open>Compacting, committing, creating\<close>

text \<open>A merge that never returned would be reported as the error below; it always returns.\<close>

definition live_records :: "seg_index \<Rightarrow> (string \<times> chunk_info) list store_result" where
  "live_records idx =
     (case iter_live (si_segments idx) of None \<Rightarrow> Inl (StPanicked ''does not return'') | Some r \<Rightarrow> r)"

definition compact_index :: "'v ledger_lib \<Rightarrow> hash_fun \<Rightarrow> asset_table \<Rightarrow> seg_index \<Rightarrow> seg_index run" where
  "compact_index lib blake3 assets idx =
     (let g = si_generation idx + 1 in
      bind_run (wal_append ''begin'' g) (\<lambda>_.
      bind_run (make_gen (gen_name g)) (\<lambda>_.
      bind_run (ask (\<lambda>_. live_records idx)) (\<lambda>live.
      bind_run (write_batches blake3 seg_target_records [] live) (\<lambda>segs.
      bind_run (publish_generation lib blake3 g (si_layout idx) segs assets) (\<lambda>_.
      bind_run (open_index lib blake3) (\<lambda>(fresh, _).
      bind_run (prune_generations lib blake3) (\<lambda>_.
      ret fresh))))))))"

definition needs_compaction :: "seg_index \<Rightarrow> bool" where
  "needs_compaction idx \<longleftrightarrow> max_delta_segments < delta_count idx
     \<or> max (base_bytes idx) 1 * delta_bytes_ratio_pct < delta_bytes idx * 100"

definition commit_generation ::
    "'v ledger_lib \<Rightarrow> hash_fun \<Rightarrow> seg_record list \<Rightarrow> asset_table \<Rightarrow> seg_index \<Rightarrow> seg_index run" where
  "commit_generation lib blake3 dirty assets idx =
     (let g = si_generation idx + 1 in
      bind_run (wal_append ''begin'' g) (\<lambda>_.
      bind_run (make_gen (gen_name g)) (\<lambda>_.
      bind_run (ask (read_seg_root lib blake3 (gen_name (si_generation idx)))) (\<lambda>root.
      bind_run
        (if dirty = [] then ret (rb_segments root)
         else bind_run (write_segment blake3 DeltaSeg dirty) (\<lambda>rs. ret (rb_segments root @ [rs]))) (\<lambda>segs.
      bind_run (publish_generation lib blake3 g (si_layout idx) segs assets) (\<lambda>_.
      bind_run (open_index lib blake3) (\<lambda>(fresh, _).
      bind_run (if needs_compaction fresh then compact_index lib blake3 assets fresh else ret fresh) (\<lambda>idx.
      bind_run (prune_generations lib blake3) (\<lambda>_.
      ret idx)))))))))"

definition create_index ::
    "'v ledger_lib \<Rightarrow> hash_fun \<Rightarrow> u64 \<Rightarrow> store_layout \<Rightarrow> (string \<times> chunk_info) list \<Rightarrow> asset_table \<Rightarrow> (seg_index \<times> asset_table) run" where
  "create_index lib blake3 g layout chunks assets =
     bind_run (make_gen (gen_name g)) (\<lambda>_.
     bind_run (wal_append ''begin'' g) (\<lambda>_.
     bind_run (write_batches blake3 seg_target_records [] chunks) (\<lambda>segs.
     bind_run (publish_generation lib blake3 g layout segs assets) (\<lambda>_.
     open_index lib blake3))))"

section \<open>Generation names read back\<close>

text \<open>
  Generation names read back: the file \<^verbatim>\<open>CURRENT\<close> and the directory names of the ledger
  denote the generation they were written for.
\<close>

section \<open>Decimal numerals\<close>

lemma parse_digits_append:
  "parse_digits acc (s @ [c]) = Option.bind (parse_digits acc s) (\<lambda>a. parse_digits a [c])"
  by (induction acc s rule: parse_digits.induct) (simp_all add: Let_def)

lemma parse_one_digit:
  assumes "k < 10"
  shows "parse_digits acc [char_of (48 + k)] = (if 2 ^ 64 \<le> 10 * acc + k then None else Some (10 * acc + k))"
  using assms by (simp add: char_code_def Let_def del: char_of_nat)

lemma parse_decimal:
  assumes "n < 2 ^ 64"
  shows "parse_digits 0 (decimal n) = Some n"
  using assms
proof (induction n rule: decimal.induct)
  case (1 n)
  have digit: "parse_digits acc [char_of (48 + n mod 10)]
      = (if 2 ^ 64 \<le> 10 * acc + n mod 10 then None else Some (10 * acc + n mod 10))" for acc
    by (rule parse_one_digit) simp
  show ?case
  proof (cases "n < 10")
    case True
    then show ?thesis using digit [of 0] by (simp add: decimal.simps [of n])
  next
    case False
    have "n div 10 < 2 ^ 64" using "1.prems" by (simp add: div_less_dividend less_trans)
    then have "parse_digits 0 (decimal (n div 10)) = Some (n div 10)" using "1.IH" False by simp
    then show ?thesis
      using False "1.prems" digit [of "n div 10"]
      by (simp add: decimal.simps [of n] parse_digits_append Let_def)
  qed
qed

definition is_digit :: "char \<Rightarrow> bool" where
  "is_digit c \<longleftrightarrow> 48 \<le> char_code c \<and> char_code c \<le> 57"

lemma decimal_digits: "decimal n \<noteq> [] \<and> (\<forall>c \<in> set (decimal n). is_digit c)"
proof (induction n rule: decimal.induct)
  case (1 n)
  have "n mod 10 < 10" by simp
  then have "is_digit (char_of (48 + n mod 10))" by (simp add: is_digit_def char_code_def)
  then show ?case using 1 by (cases "n < 10") (simp_all add: decimal.simps [of n] Let_def)
qed

lemma parse_zeros: "parse_digits 0 (replicate k CHR ''0'' @ s) = parse_digits 0 s"
  by (induction k) (simp_all add: char_code_def)

lemma gen_name_digits:
  obtains ds where "gen_name g = ''gen-'' @ ds" "ds \<noteq> []" "\<forall>c \<in> set ds. is_digit c"
    "parse_digits 0 ds = Some (unat g)"
proof -
  let ?n = "decimal (unat g)"
  let ?ds = "replicate (10 - length ?n) CHR ''0'' @ ?n"
  have "is_digit CHR ''0''" by (simp add: is_digit_def char_code_def)
  then have "\<forall>c \<in> set ?ds. is_digit c" using decimal_digits [of "unat g"] by auto
  moreover have "parse_digits 0 ?ds = Some (unat g)"
    using unat_u64 [of g] by (simp add: parse_zeros parse_decimal)
  ultimately show ?thesis
    using decimal_digits [of "unat g"] by (intro that [of ?ds]) (simp_all add: gen_name_def Let_def)
qed

lemma gen_number_name [simp]: "gen_number (gen_name g) = Some g"
proof -
  obtain ds where ds: "gen_name g = ''gen-'' @ ds" "ds \<noteq> []" "\<forall>c \<in> set ds. is_digit c"
    "parse_digits 0 ds = Some (unat g)" by (rule gen_name_digits)
  have plus: "\<not> is_digit CHR ''+''" by (simp add: is_digit_def char_code_def)
  then have "hd ds \<noteq> CHR ''+''" "ds \<noteq> ''+''" using ds(2,3) by (cases ds; auto)+
  then show ?thesis using ds by (simp add: gen_number_def parse_u64_def)
qed

lemma gen_name_inj [simp]: "gen_name g = gen_name h \<longleftrightarrow> g = h"
  by (metis gen_number_name option.inject)

section \<open>The file CURRENT\<close>

lemma last_white_space: "w \<in> set white_space \<Longrightarrow> \<not> is_digit (last w)"
  by (auto simp: white_space_def text_of_def is_digit_def char_code_def)

lemma first_white_space:
  assumes "w \<in> set white_space"
  shows "hd w \<noteq> CHR ''g''"
proof -
  have "char_code (hd w) \<noteq> 103" using assms by (auto simp: white_space_def text_of_def char_code_def)
  moreover have "char_code CHR ''g'' = 103" by (simp add: char_code_def)
  ultimately show ?thesis by metis
qed

lemma trim_start_gen: "trim_start (CHR ''g'' # s) = CHR ''g'' # s"
proof -
  have "find (\<lambda>w. take (length w) (CHR ''g'' # s) = w) white_space = None"
    unfolding find_None_iff
  proof clarify
    fix w assume w: "w \<in> set white_space" "take (length w) (CHR ''g'' # s) = w"
    then obtain c cs where "w = c # cs" using white_space_nonempty [OF w(1)] list.exhaust by blast
    then show False using w first_white_space [of w] by simp
  qed
  then show ?thesis by (simp add: trim_start.simps)
qed

lemma ends_with_last: "ends_with s w \<Longrightarrow> w \<noteq> [] \<Longrightarrow> last s = last w"
  unfolding ends_with_def by (metis drop_all last_drop not_le_imp_less)

lemma trim_end_digit: "s \<noteq> [] \<Longrightarrow> is_digit (last s) \<Longrightarrow> trim_end s = s"
proof -
  assume "s \<noteq> []" "is_digit (last s)"
  then have "find (ends_with s) white_space = None"
    using ends_with_last last_white_space white_space_nonempty by (force simp: find_None_iff)
  then show ?thesis by (simp add: trim_end.simps)
qed

lemma trim_end_newline:
  assumes "s \<noteq> []" "is_digit (last s)"
  shows "trim_end (s @ [CHR 0x0a]) = s"
proof -
  have tab: "\<not> ends_with (s @ [CHR 0x0a]) (text_of [9])"
  proof
    assume "ends_with (s @ [CHR 0x0a]) (text_of [9])"
    from ends_with_last [OF this] have "char_code (CHR 0x0a) = char_code (last (text_of [9]))" by (simp add: text_of_def)
    then show False by (simp add: char_code_def text_of_def)
  qed
  have nl: "ends_with (s @ [CHR 0x0a]) (text_of [10])"
  proof -
    have "(10 :: nat) = of_char (CHR 0x0a)" by simp
    then have "char_of (10 :: nat) = CHR 0x0a" by (simp only: char_of_char)
    then show ?thesis by (simp add: ends_with_def text_of_def)
  qed
  have "find (ends_with (s @ [CHR 0x0a])) white_space = Some (text_of [10])"
    by (simp add: white_space_def tab nl)
  moreover have "length (text_of [10]) = 1" by (simp add: text_of_def)
  ultimately show ?thesis
    using trim_end_digit [OF assms] by (simp add: trim_end.simps [of "s @ [CHR 0x0a]"])
qed

definition current_text :: "u64 \<Rightarrow> bytes" where
  "current_text g = ascii (gen_name g @ [CHR 0x0a])"

lemma current_text_ok: "is_utf8 (current_text g)" "gen_number (trim_end (trim_start (text_of (current_text g)))) = Some g"
proof -
  obtain ds where ds: "gen_name g = ''gen-'' @ ds" "ds \<noteq> []" "\<forall>c \<in> set ds. is_digit c" by (rule gen_name_digits)
  have small: "(of_nat (of_char c) :: byte) < 0x80" if "char_code c < 128" for c
  proof -
    have "unat (of_nat (of_char c) :: byte) = of_char c"
      using that by (simp add: char_code_def unsigned_of_nat take_bit_nat_eq_self)
    then show ?thesis using that by (simp add: word_less_nat_alt char_code_def)
  qed
  have "\<forall>c \<in> set (gen_name g @ [CHR 0x0a]). char_code c < 128"
    using ds(3) by (auto simp: ds(1) is_digit_def char_code_def)
  then show "is_utf8 (current_text g)"
    by (intro utf8_ascii) (auto simp: current_text_def ascii_def list_all_iff small)
  have "gen_name g \<noteq> []" "is_digit (last (gen_name g))" using ds by simp_all
  then have "trim_end (gen_name g @ [CHR 0x0a]) = gen_name g" by (rule trim_end_newline)
  moreover have "trim_start (gen_name g @ [CHR 0x0a]) = gen_name g @ [CHR 0x0a]"
    using trim_start_gen by (simp add: ds(1))
  ultimately show "gen_number (trim_end (trim_start (text_of (current_text g)))) = Some g"
    unfolding current_text_def text_of_ascii by (simp only: gen_number_name)
qed

end
