(* ===== verification/Pack_File.thy ===== *)
theory Pack_File
  imports Seg_Laws
begin

text \<open>
  Pack files and their sidecar indexes (\<^verbatim>\<open>core/cavs-store/src/packfile.rs\<close>): the
  streaming writer, the range reader, the check of a pack's seal, and the table of a pack's chunks.
  A writer is what it has written to its \<^verbatim>\<open>.part\<close> file; the names of finished files are
  dealt with where the store's directory is modelled.  Buffers of a mebibyte are read full.
\<close>

section \<open>Layout\<close>

definition pack_magic :: bytes where
  "pack_magic = ascii ''CAVSPK1'' @ [0]"

definition pack_footer_magic :: bytes where
  "pack_footer_magic = ascii ''CAVSPEND''"

definition pack_index_magic :: bytes where
  "pack_index_magic = ascii ''CAVSIDX1''"

definition pack_header_len :: nat where
  "pack_header_len = 16"

definition pack_footer_len :: nat where
  "pack_footer_len = 40"

definition preferred_pack_size :: u64 where
  "preferred_pack_size = 128 * 1024 * 1024"

definition pack_entry_len :: nat where
  "pack_entry_len = 52"

definition pack_buffer :: nat where
  "pack_buffer = 2 ^ 20"

lemma length_magics [simp]:
  "length pack_magic = 8" "length pack_footer_magic = 8" "length pack_index_magic = 8"
  by (simp_all add: pack_magic_def pack_footer_magic_def pack_index_magic_def)

section \<open>The writer\<close>

record pack_entry =
  pe_hash :: chunk_hash
  pe_offset :: u64
  pe_stored_len :: u32
  pe_raw_len :: u32
  pe_flags :: u32

record pack_writer =
  pw_out :: bytes
  pw_hasher :: hasher
  pw_data_len :: u64
  pw_entries :: "pack_entry list"

definition pack_header :: bytes where
  "pack_header = pack_magic @ to_le 2 (1 :: u16) @ to_le 2 (0 :: u16) @ to_le 4 (0 :: u32)"

definition create_pack :: pack_writer where
  "create_pack = \<lparr>pw_out = pack_header, pw_hasher = hasher_update pack_header hasher_new,
     pw_data_len = 0, pw_entries = []\<rparr>"

definition pack_append :: "chunk_hash \<Rightarrow> bytes \<Rightarrow> u32 \<Rightarrow> u32 \<Rightarrow> pack_writer \<Rightarrow> u64 \<times> pack_writer" where
  "pack_append hash stored raw_len flags w =
     (pw_data_len w,
      \<lparr>pw_out = pw_out w @ stored, pw_hasher = hasher_update stored (pw_hasher w),
       pw_data_len = pw_data_len w + of_nat (length stored),
       pw_entries = pw_entries w @ [\<lparr>pe_hash = hash, pe_offset = pw_data_len w,
         pe_stored_len = of_nat (length stored), pe_raw_len = raw_len, pe_flags = flags\<rparr>]\<rparr>)"

function hash_stream :: "bytes \<Rightarrow> hasher \<Rightarrow> hasher" where
  "hash_stream bs hasher =
     (if bs = [] then hasher
      else hash_stream (drop pack_buffer bs) (hasher_update (take pack_buffer bs) hasher))"
  by pat_completeness auto
termination by (relation "measure (\<lambda>(bs, _). length bs)") (auto simp: pack_buffer_def)

declare hash_stream.simps [simp del]

definition hash_file :: "hash_fun \<Rightarrow> bytes \<Rightarrow> chunk_hash" where
  "hash_file blake3 bs = hasher_finalize blake3 (hash_stream bs hasher_new)"

definition encode_pack_entry :: "pack_entry \<Rightarrow> bytes" where
  "encode_pack_entry e = pe_hash e @ to_le 8 (pe_offset e) @ to_le 4 (pe_stored_len e)
     @ to_le 4 (pe_raw_len e) @ to_le 4 (pe_flags e)"

definition pack_index_bytes :: "hash_fun \<Rightarrow> chunk_hash \<Rightarrow> pack_entry list \<Rightarrow> bytes" where
  "pack_index_bytes blake3 pack_id entries =
     (let body = pack_index_magic @ pack_id @ to_le 4 (of_nat (length entries) :: u32)
            @ encode_all encode_pack_entry entries
      in body @ hash_chunk blake3 body)"

text \<open>What \<^verbatim>\<open>finish_with\<close> makes: the bytes of the pack and its identity.\<close>

definition sealed_pack :: "hash_fun \<Rightarrow> pack_writer \<Rightarrow> bytes" where
  "sealed_pack blake3 w = pw_out w @ pack_footer_magic @ hasher_finalize blake3 (pw_hasher w)"

definition sealed_id :: "hash_fun \<Rightarrow> pack_writer \<Rightarrow> chunk_hash" where
  "sealed_id blake3 w = hash_file blake3 (sealed_pack blake3 w)"

section \<open>The readers\<close>

text \<open>
  \<open>file\<close> is the file's contents when it exists, \<open>path\<close> how it is displayed.  The
  absolute offset wraps at 64 bits, as it does in a release build.
\<close>

definition read_pack_range :: "string \<Rightarrow> bytes option \<Rightarrow> u64 \<Rightarrow> u64 \<Rightarrow> bytes store_result" where
  "read_pack_range path file offset len =
     rbind (ok_or (StIo ''no such file'') file) (\<lambda>bs.
     let file_len = length bs; at = (pack_header_len + unat offset) mod 2 ^ 64 in
     if file_len < pack_header_len + pack_footer_len
        \<or> file_len - pack_footer_len < at
        \<or> file_len - pack_footer_len - at < unat len
     then Inl (PackCorrupt (path @ '': range '' @ decimal (unat offset) @ ''+'' @ decimal (unat len)
            @ '' outside data region''))
     else Inr (take (unat len) (drop at bs)))"

function verify_stream :: "string \<Rightarrow> bool \<Rightarrow> bytes \<Rightarrow> hasher \<Rightarrow> hasher store_result" where
  "verify_stream path first rest hasher =
     (if rest = [] then Inr hasher
      else
      let part = take pack_buffer rest; n = min (length pack_magic) (length part) in
      if first \<and> take n part \<noteq> take n pack_magic then Inl (PackCorrupt (path @ '': bad magic''))
      else verify_stream path False (drop pack_buffer rest) (hasher_update part hasher))"
  by pat_completeness auto
termination by (relation "measure (\<lambda>(_, _, rest, _). length rest)") (auto simp: pack_buffer_def)

declare verify_stream.simps [simp del]

definition verify_pack :: "hash_fun \<Rightarrow> string \<Rightarrow> bytes option \<Rightarrow> unit store_result" where
  "verify_pack blake3 path file =
     rbind (ok_or (StIo ''no such file'') file) (\<lambda>bs.
     let n = length bs - pack_footer_len; footer = drop n bs in
     if length bs < pack_header_len + pack_footer_len then Inl (PackCorrupt (path @ '': too short''))
     else
     rbind (verify_stream path True (take n bs) hasher_new) (\<lambda>hasher.
     if take 8 footer \<noteq> pack_footer_magic \<or> drop 8 footer \<noteq> hasher_finalize blake3 hasher
     then Inl (PackCorrupt (path @ '': footer hash mismatch''))
     else Inr ()))"

definition decode_pack_entry :: "bytes \<Rightarrow> pack_entry" where
  "decode_pack_entry e = \<lparr>pe_hash = take 32 e, pe_offset = from_le (take 8 (drop 32 e)),
     pe_stored_len = from_le (take 4 (drop 40 e)), pe_raw_len = from_le (take 4 (drop 44 e)),
     pe_flags = from_le (take 4 (drop 48 e))\<rparr>"

text \<open>\<^verbatim>\<open>as_chunks\<close>: the whole pieces of a given size.\<close>

fun whole_pieces :: "nat \<Rightarrow> nat \<Rightarrow> bytes \<Rightarrow> bytes list" where
  "whole_pieces k 0 bs = []"
| "whole_pieces k (Suc n) bs = take k bs # whole_pieces k n (drop k bs)"

definition read_pack_index :: "hash_fun \<Rightarrow> string \<Rightarrow> bytes option \<Rightarrow> (chunk_hash \<times> pack_entry list) store_result" where
  "read_pack_index blake3 path file =
     rbind (ok_or (StIo ''no such file'') file) (\<lambda>bs.
     if length bs < 44 + 32 \<or> take 8 bs \<noteq> pack_index_magic then Inl (PackCorrupt (path @ '': bad index header''))
     else
     let body = take (length bs - 32) bs; digest = drop (length bs - 32) bs in
     if hash_chunk blake3 body \<noteq> digest then Inl (PackCorrupt (path @ '': index hash mismatch''))
     else
     let pack_id = take 32 (drop 8 body); count = unat (from_le (take 4 (drop 40 body)) :: u32);
         entries = drop 44 body in
     if length entries \<noteq> count * pack_entry_len then Inl (PackCorrupt (path @ '': index entry count mismatch''))
     else Inr (pack_id, map decode_pack_entry (whole_pieces pack_entry_len (length entries div pack_entry_len) entries)))"

end
