(* ===== verification/Sorted_Map.thy ===== *)
theory Sorted_Map
  imports Prelude "HOL-Library.Char_ord"
begin

text \<open>
  \<^verbatim>\<open>BTreeMap\<close> as a list of pairs in strictly ascending order of the keys, with the two
  operations that change it.  Such lists are determined by the maps they stand for.  A
  \<^verbatim>\<open>BTreeSet\<close> is a strictly ascending list, changed by \<^const>\<open>insort_insert\<close> and
  \<^const>\<open>remove1\<close>.
\<close>

fun bt_insert :: "'k::linorder \<Rightarrow> 'v \<Rightarrow> ('k \<times> 'v) list \<Rightarrow> ('k \<times> 'v) list" where
  "bt_insert k v [] = [(k, v)]"
| "bt_insert k v ((k', v') # m) =
     (if k < k' then (k, v) # (k', v') # m
      else if k = k' then (k, v) # m
      else (k', v') # bt_insert k v m)"

definition bt_remove :: "'k \<Rightarrow> ('k \<times> 'v) list \<Rightarrow> ('k \<times> 'v) list" where
  "bt_remove k m = filter (\<lambda>p. fst p \<noteq> k) m"

definition bt_ok :: "('k::linorder \<times> 'v) list \<Rightarrow> bool" where
  "bt_ok m \<longleftrightarrow> sorted_wrt (<) (map fst m)"

lemma bt_ok_Nil [simp]: "bt_ok []"
  by (simp add: bt_ok_def)

lemma bt_ok_Cons [simp]: "bt_ok (p # m) \<longleftrightarrow> (\<forall>q \<in> set m. fst p < fst q) \<and> bt_ok m"
  by (auto simp: bt_ok_def)

lemma keys_insert [simp]: "fst ` set (bt_insert k v m) = insert k (fst ` set m)"
  by (induction k v m rule: bt_insert.induct) auto

lemma set_insert_subset: "set (bt_insert k v m) \<subseteq> insert (k, v) (set m)"
  by (induction k v m rule: bt_insert.induct) auto

lemma bt_ok_insert [simp]: "bt_ok m \<Longrightarrow> bt_ok (bt_insert k v m)"
proof (induction k v m rule: bt_insert.induct)
  case (2 k v k' v' m)
  have "\<forall>q \<in> set (bt_insert k v m). k' < fst q" if "k' < k"
    using 2(2) that set_insert_subset [of k v m] by auto
  then show ?case using 2 by (auto simp: not_less le_less)
qed simp

lemma map_of_insert [simp]: "map_of (bt_insert k v m) = (map_of m)(k \<mapsto> v)"
  by (induction k v m rule: bt_insert.induct) auto

lemma map_of_remove [simp]: "map_of (bt_remove k m) = (map_of m)(k := None)"
proof
  fix x show "map_of (bt_remove k m) x = ((map_of m)(k := None)) x"
    by (induction m) (auto simp: bt_remove_def)
qed

lemma set_remove: "set (bt_remove k m) = {p \<in> set m. fst p \<noteq> k}"
  by (auto simp: bt_remove_def)

lemma bt_ok_remove [simp]: "bt_ok m \<Longrightarrow> bt_ok (bt_remove k m)"
  by (induction m) (auto simp: bt_remove_def)

lemma bt_ok_distinct: "bt_ok m \<Longrightarrow> distinct (map fst m)"
  by (simp add: bt_ok_def strict_sorted_iff)

lemma bt_ok_in: "bt_ok m \<Longrightarrow> (k, v) \<in> set m \<longleftrightarrow> map_of m k = Some v"
  using map_of_eq_Some_iff [OF bt_ok_distinct] by metis

lemma bt_ext:
  assumes "bt_ok a" "bt_ok b" "map_of a = map_of b"
  shows "a = b"
proof -
  have "set a = set b" using assms bt_ok_in [of a] bt_ok_in [of b] by auto
  moreover have "distinct (map fst a)" "distinct (map fst b)" "sorted (map fst a)" "sorted (map fst b)"
    using assms(1,2) by (auto simp: bt_ok_def strict_sorted_iff distinct_map)
  moreover have "inj_on fst (set a \<union> set b)"
    using assms(1) \<open>set a = set b\<close> by (simp add: bt_ok_def strict_sorted_iff distinct_map)
  ultimately show ?thesis using map_sorted_distinct_set_unique by blast
qed

text \<open>Inserting pairs in ascending order builds the list of them.\<close>

lemma insert_last: "bt_ok (m @ [(k, v)]) \<Longrightarrow> bt_insert k v m = m @ [(k, v)]"
proof (induction m)
  case (Cons p m)
  then show ?case by (cases p) (auto dest: less_not_sym)
qed simp

fun bt_build :: "('k::linorder \<times> 'v) list \<Rightarrow> ('k \<times> 'v) list \<Rightarrow> ('k \<times> 'v) list" where
  "bt_build [] m = m"
| "bt_build ((k, v) # xs) m = bt_build xs (bt_insert k v m)"

lemma bt_build_sorted: "bt_ok (m @ xs) \<Longrightarrow> bt_build xs m = m @ xs"
proof (induction xs m rule: bt_build.induct)
  case (2 k v xs m)
  have "bt_ok (m @ [(k, v)])" using "2.prems" by (auto simp: bt_ok_def sorted_wrt_append)
  then show ?case using 2 insert_last [of m k v] by simp
qed simp

lemma remove_absent: "k \<notin> fst ` set m \<Longrightarrow> bt_remove k m = m"
  by (force simp: bt_remove_def filter_id_conv)

fun bt_remove_all :: "'k list \<Rightarrow> ('k \<times> 'v) list \<Rightarrow> ('k \<times> 'v) list" where
  "bt_remove_all [] m = m"
| "bt_remove_all (k # ks) m = bt_remove_all ks (bt_remove k m)"

lemma bt_ok_build: "bt_ok m \<Longrightarrow> bt_ok (bt_build xs m)"
  by (induction xs m rule: bt_build.induct) simp_all

lemma bt_ok_remove_all: "bt_ok m \<Longrightarrow> bt_ok (bt_remove_all ks m)"
  by (induction ks m rule: bt_remove_all.induct) simp_all

lemma map_of_build:
  "distinct (map fst xs) \<Longrightarrow> map_of (bt_build xs m) k = (case map_of xs k of Some v \<Rightarrow> Some v | None \<Rightarrow> map_of m k)"
proof (induction xs m rule: bt_build.induct)
  case (2 a v xs m)
  then have "map_of xs a = None" by (simp add: map_of_eq_None_iff)
  then show ?case using 2 by (cases "k = a") (simp_all split: option.splits)
qed simp

lemma map_of_remove_all: "map_of (bt_remove_all ks m) k = (if k \<in> set ks then None else map_of m k)"
  by (induction ks m rule: bt_remove_all.induct) auto

end
