(* ===== verification/Index_Format.thy ===== *)
theory Index_Format
  imports Seg_Laws Sorted_Map
begin

text \<open>
  The monolithic chunk ledger in memory and its snapshot \<^verbatim>\<open>index.bin\<close>
  (\<^verbatim>\<open>core/cavs-store/src/global.rs\<close>): the encoder, the seal, and the bounds-checked
  decoder.  What the snapshot and the journal share (interned packs, chunk records, texts, hash
  lists, record locations) is defined once, over the width of the pack ordinals.
\<close>

section \<open>The ledger\<close>

datatype journal_file = LiveLog | PrevLog

datatype record_ref = InPack chunk_hash u32 u32 | InJournal journal_file u64 u32

record store_index =
  ix_chunks :: "(string \<times> chunk_info) list"
  ix_assets :: "(string \<times> string list) list"
  ix_records :: "(string \<times> record_ref) list"
  ix_layout :: store_layout
  ix_generation :: u64

section \<open>Shared pieces\<close>

text \<open>\<^verbatim>\<open>from_hex(hex).unwrap_or([0; 32])\<close>, which can fail only by a panic.\<close>

definition hash_or_zero :: "string \<Rightarrow> chunk_hash store_result" where
  "hash_or_zero hex =
     rbind (map_err StPanicked (from_hex hex)) (\<lambda>h.
     Inr (case h of Some h \<Rightarrow> h | None \<Rightarrow> replicate 32 0))"

fun encode_hashes :: "string list \<Rightarrow> bytes store_result" where
  "encode_hashes [] = Inr []"
| "encode_hashes (hex # hexes) =
     rbind (hash_or_zero hex) (\<lambda>h. rbind (encode_hashes hexes) (\<lambda>hs. Inr (h @ hs)))"

definition encode_text :: "string \<Rightarrow> bytes" where
  "encode_text s = to_le 2 (of_nat (length s) :: u16) @ ascii s"

text \<open>Pack ids in order of first use, and the ordinal of each, at the width it is stored with.\<close>

fun intern_packs :: "chunk_info list \<Rightarrow> string list \<times> (string \<times> 'w::len word) list \<Rightarrow> string list \<times> (string \<times> 'w word) list" where
  "intern_packs [] t = t"
| "intern_packs (info # infos) (ids, ords) =
     intern_packs infos
       (case ci_pack info of
          None \<Rightarrow> (ids, ords)
        | Some p \<Rightarrow> if map_of ords p = None then (ids @ [p], (p, of_nat (length ids)) # ords) else (ids, ords))"

definition encode_chunk_entry :: "nat \<Rightarrow> (string \<times> 'w::len word) list \<Rightarrow> chunk_hash \<Rightarrow> chunk_info \<Rightarrow> bytes" where
  "encode_chunk_entry width ords hash info =
     (let ord = (case Option.bind (ci_pack info) (map_of ords) of Some ord \<Rightarrow> ord | None \<Rightarrow> - 1)
      in hash @ to_le 4 (len_raw info) @ to_le 4 (len_stored info) @ to_le 4 (ci_flags info)
         @ to_le 8 (refcount info)
         @ to_le 8 (case zero_since info of Some z \<Rightarrow> z | None \<Rightarrow> (- 1 :: u64))
         @ to_le width ord
         @ to_le 8 (case pack_offset info of Some off \<Rightarrow> off | None \<Rightarrow> 0))"

fun encode_chunks :: "nat \<Rightarrow> (string \<times> 'w::len word) list \<Rightarrow> (string \<times> chunk_info) list \<Rightarrow> bytes store_result" where
  "encode_chunks width ords [] = Inr []"
| "encode_chunks width ords ((hex, info) # rest) =
     rbind (hash_or_zero hex) (\<lambda>hash.
     rbind (encode_chunks width ords rest) (\<lambda>bs. Inr (encode_chunk_entry width ords hash info @ bs)))"

text \<open>The cursor over a sealed body is what is left of it.\<close>

definition truncated :: store_error where
  "truncated = IndexCorrupt ''truncated''"

definition take_text :: "string \<Rightarrow> bytes \<Rightarrow> (string \<times> bytes) store_result" where
  "take_text message input =
     rbind (take_le truncated 2 input) (\<lambda>(len :: u16, input).
     rbind (take_bytes truncated (unat len) input) (\<lambda>(s, input).
     if is_utf8 s then Inr (text_of s, input) else Inl (IndexCorrupt message)))"

definition take_hex :: "bytes \<Rightarrow> (string \<times> bytes) store_result" where
  "take_hex input = rbind (take_bytes truncated 32 input) (\<lambda>(h, input). Inr (to_hex h, input))"

definition take_chunk_entry :: "nat \<Rightarrow> 'w::len word \<Rightarrow> string list \<Rightarrow> bytes \<Rightarrow> ((string \<times> chunk_info) \<times> bytes) store_result" where
  "take_chunk_entry width none packs input =
     rbind (take_bytes truncated 32 input) (\<lambda>(hash, input).
     rbind (take_le truncated 4 input) (\<lambda>(raw, input).
     rbind (take_le truncated 4 input) (\<lambda>(stored, input).
     rbind (take_le truncated 4 input) (\<lambda>(flags, input).
     rbind (take_le truncated 8 input) (\<lambda>(count, input).
     rbind (take_le truncated 8 input) (\<lambda>(zs :: u64, input).
     rbind (take_le truncated width input) (\<lambda>(ord :: 'w word, input).
     rbind (take_le truncated 8 input) (\<lambda>(off, input).
     rbind (if ord = none then Inr None
            else if unat ord < length packs then Inr (Some (packs ! unat ord))
            else Inl (IndexCorrupt ''pack ordinal out of range'')) (\<lambda>pack.
     Inr ((to_hex hash,
           \<lparr>len_raw = raw, len_stored = stored, ci_flags = flags, refcount = count,
            zero_since = (if zs = - 1 then None else Some zs), ci_pack = pack,
            pack_offset = (if pack = None then None else Some off)\<rparr>), input))))))))))"

section \<open>The snapshot: encoding\<close>

definition index_magic :: bytes where
  "index_magic = ascii ''CAVSIDX1''"

definition index_version :: u16 where
  "index_version = 2"

definition index_header_size :: u16 where
  "index_header_size = 40"

definition index_record_size :: u16 where
  "index_record_size = 72"

definition encode_record_ref :: "record_ref option \<Rightarrow> bytes" where
  "encode_record_ref at =
     (case at of
        Some (InPack pack offset len) \<Rightarrow> [1] @ pack @ to_le 4 offset @ to_le 4 len
      | Some (InJournal _ _ _) \<Rightarrow> [0]
      | None \<Rightarrow> [0])"

fun encode_assets :: "(string \<times> record_ref) list \<Rightarrow> (string \<times> string list) list \<Rightarrow> bytes store_result" where
  "encode_assets records [] = Inr []"
| "encode_assets records ((name, chunks) # rest) =
     rbind (encode_hashes chunks) (\<lambda>hs.
     rbind (encode_assets records rest) (\<lambda>bs.
     Inr (encode_text name @ to_le 4 (of_nat (length chunks) :: u32) @ hs
          @ encode_record_ref (map_of records name) @ bs)))"

text \<open>\<open>now\<close> is the second it is written at.\<close>

definition encode_index :: "hash_fun \<Rightarrow> u64 \<Rightarrow> store_index \<Rightarrow> bytes store_result" where
  "encode_index blake3 now ix =
     (case intern_packs (map snd (ix_chunks ix)) ([], []) of (packs, ords :: (string \<times> u32) list) \<Rightarrow>
      rbind (encode_chunks 4 ords (ix_chunks ix)) (\<lambda>chunks.
      rbind (encode_assets (ix_records ix) (ix_assets ix)) (\<lambda>assets.
      let out = index_magic @ to_le 2 index_version @ to_le 2 index_header_size @ to_le 2 index_record_size
            @ to_le 2 (0 :: u16) @ [case ix_layout ix of LooseLayout \<Rightarrow> 0 | PackfileLayout \<Rightarrow> 1] @ [0]
            @ to_le 8 (ix_generation ix) @ to_le 8 now @ replicate 6 0
            @ to_le 4 (of_nat (length packs) :: u32) @ encode_all encode_text packs
            @ to_le 8 (of_nat (length (ix_chunks ix)) :: u64) @ chunks
            @ to_le 4 (of_nat (length (ix_assets ix)) :: u32) @ assets
      in Inr (out @ hash_chunk blake3 out))))"

section \<open>The snapshot: decoding\<close>

definition index_seal_holds :: "hash_fun \<Rightarrow> bytes \<Rightarrow> bool" where
  "index_seal_holds blake3 bs \<longleftrightarrow> unat index_header_size + 32 \<le> length bs
     \<and> hash_chunk blake3 (take (length bs - 32) bs) = drop (length bs - 32) bs"

definition take_record_ref :: "bytes \<Rightarrow> (record_ref option \<times> bytes) store_result" where
  "take_record_ref input =
     rbind (take_bytes truncated 1 input) (\<lambda>(tag, input).
     if tag ! 0 = 0 then Inr (None, input)
     else if tag ! 0 = 1 then
       rbind (take_bytes truncated 32 input) (\<lambda>(pack, input).
       rbind (take_le truncated 4 input) (\<lambda>(offset, input).
       rbind (take_le truncated 4 input) (\<lambda>(len, input).
       Inr (Some (InPack pack offset len), input))))
     else Inl (IndexCorrupt ''bad record location tag''))"

definition take_index_asset :: "u16 \<Rightarrow> bytes \<Rightarrow> ((string \<times> string list \<times> record_ref option) \<times> bytes) store_result" where
  "take_index_asset version input =
     rbind (take_text ''asset name not utf-8'' input) (\<lambda>(name, input).
     rbind (take_le truncated 4 input) (\<lambda>(n :: u32, input).
     if length input div 32 < unat n then Inl (IndexCorrupt ''asset chunk count exceeds file size'')
     else
     rbind (decode_n take_hex (unat n) input) (\<lambda>(hexes, input).
     rbind (if 2 \<le> version then take_record_ref input else Inr (None, input)) (\<lambda>(at, input).
     Inr ((name, hexes, at), input)))))"

definition record_refs :: "(string \<times> string list \<times> record_ref option) list \<Rightarrow> (string \<times> record_ref) list" where
  "record_refs as = List.map_filter (\<lambda>(name, hexes, at). map_option (Pair name) at) as"

definition decode_index_body :: "bytes \<Rightarrow> (store_index \<times> u16) store_result" where
  "decode_index_body body =
     (if take 8 body \<noteq> index_magic then Inl (IndexCorrupt ''bad magic'')
      else
      rbind (take_le truncated 2 (drop 8 body)) (\<lambda>(version, input).
      if index_version < version
      then Inl (IndexCorrupt (''index version '' @ decimal (unat version)
             @ '' was written by a newer CAVS; this build reads up to '' @ decimal (unat index_version)))
      else
      rbind (take_le truncated 2 input) (\<lambda>(header_size :: u16, input).
      if header_size < index_header_size \<or> length body \<le> unat header_size then Inl (IndexCorrupt ''bad header size'')
      else
      rbind (take_le truncated 2 input) (\<lambda>(record_size, input).
      if record_size \<noteq> index_record_size
      then Inl (IndexCorrupt (''record size '' @ decimal (unat record_size) @ '' unsupported (expected ''
             @ decimal (unat index_record_size) @ '')''))
      else
      rbind (take_bytes truncated 2 input) (\<lambda>(_, input).
      rbind (take_bytes truncated 1 input) (\<lambda>(tag, input).
      rbind (if tag ! 0 = 0 then Inr LooseLayout else if tag ! 0 = 1 then Inr PackfileLayout
             else Inl (IndexCorrupt ''bad layout'')) (\<lambda>layout.
      rbind (take_bytes truncated 1 input) (\<lambda>(_, input).
      rbind (take_le truncated 8 input) (\<lambda>(generation, input).
      rbind (take_bytes truncated 8 input) (\<lambda>(_, input).
      rbind (take_bytes truncated (unat header_size - 34) input) (\<lambda>(_, input).
      rbind (take_le truncated 4 input) (\<lambda>(pack_count :: u32, input).
      if length body div 2 < unat pack_count then Inl (IndexCorrupt ''pack count exceeds file size'')
      else
      rbind (decode_n (take_text ''pack id not utf-8'') (unat pack_count) input) (\<lambda>(packs, input).
      rbind (take_le truncated 8 input) (\<lambda>(chunk_count :: u64, input).
      if 2 ^ 64 \<le> unat chunk_count * unat index_record_size \<or> length input < unat chunk_count * unat index_record_size
      then Inl (IndexCorrupt ''chunk count exceeds file size'')
      else
      rbind (decode_n (take_chunk_entry 4 (- 1 :: u32) packs) (unat chunk_count) input) (\<lambda>(chunks, input).
      rbind (take_le truncated 4 input) (\<lambda>(asset_count :: u32, input).
      rbind (decode_n (take_index_asset version) (unat asset_count) input) (\<lambda>(assets, input).
      if input \<noteq> [] then Inl (IndexCorrupt ''trailing bytes'')
      else
      Inr (\<lparr>ix_chunks = bt_build chunks [],
             ix_assets = bt_build (map (\<lambda>(name, hexes, _). (name, hexes)) assets) [],
             ix_records = bt_build (record_refs assets) [],
             ix_layout = layout, ix_generation = generation\<rparr>, version))))))))))))))))))"

definition decode_index_versioned :: "hash_fun \<Rightarrow> bytes \<Rightarrow> (store_index \<times> u16) store_result" where
  "decode_index_versioned blake3 bs =
     (if length bs < unat index_header_size + 32 then Inl truncated
      else if \<not> index_seal_holds blake3 bs then Inl (IndexCorrupt ''seal mismatch'')
      else decode_index_body (take (length bs - 32) bs))"

definition decode_index :: "hash_fun \<Rightarrow> bytes \<Rightarrow> store_index store_result" where
  "decode_index blake3 bs = rbind (decode_index_versioned blake3 bs) (\<lambda>(index, _). Inr index)"

end
