(* ===== verification/Index_Laws.thy ===== *)
theory Index_Laws
  imports Index_Format
begin

text \<open>
  The ledgers a snapshot can hold, and the round trip through it: what was encoded decodes to the
  same ledger.  The lemmas on the shared pieces serve the journal as well.
\<close>

section \<open>Interned packs\<close>

definition packs_of :: "chunk_info list \<Rightarrow> string set" where
  "packs_of infos = {p. \<exists>info \<in> set infos. ci_pack info = Some p}"

lemma packs_of_simps [simp]:
  "packs_of [] = {}"
  "packs_of (info # infos) = set_option (ci_pack info) \<union> packs_of infos"
  by (auto simp: packs_of_def)

lemma packs_of_in: "(hex, info) \<in> set cs \<Longrightarrow> set_option (ci_pack info) \<subseteq> packs_of (map snd cs)"
  by (force simp: packs_of_def elem_set)

lemma finite_packs_of [simp]: "finite (packs_of infos)"
  by (induction infos) simp_all

definition interned :: "string list \<Rightarrow> (string \<times> 'w::len word) list \<Rightarrow> bool" where
  "interned ids ords \<longleftrightarrow> distinct ids \<and> (\<forall>p \<in> set ids. map_of ords p \<noteq> None)
     \<and> (\<forall>p i. map_of ords p = Some i \<longrightarrow> unat i < length ids \<and> ids ! unat i = p)"

lemma interned_Nil: "interned [] []"
  by (simp add: interned_def)

lemma interned_Cons:
  fixes ords :: "(string \<times> 'w::len word) list"
  assumes "interned ids ords" "map_of ords p = None" "length ids < 2 ^ LENGTH('w)"
  shows "interned (ids @ [p]) ((p, of_nat (length ids)) # ords)"
proof -
  have u: "unat (of_nat (length ids) :: 'w word) = length ids"
    using assms(3) by (simp add: unsigned_of_nat take_bit_nat_eq_self)
  have "p \<notin> set ids" using assms(1,2) by (auto simp: interned_def)
  then show ?thesis
    using assms(1) by (fastforce simp: interned_def u nth_append)
qed

lemma intern_packs_ok:
  fixes ords :: "(string \<times> 'w::len word) list"
  assumes "interned ids ords" "card (set ids \<union> packs_of infos) < 2 ^ LENGTH('w)"
    and "intern_packs infos (ids, ords) = (ids', ords')"
  shows "interned ids' ords' \<and> set ids' = set ids \<union> packs_of infos \<and> length ids' < 2 ^ LENGTH('w)"
  using assms
proof (induction infos arbitrary: ids ords)
  case Nil
  then have "length ids = card (set ids)" by (simp add: interned_def distinct_card)
  then show ?case using Nil by auto
next
  case (Cons info infos)
  show ?case
  proof (cases "\<exists>p. ci_pack info = Some p \<and> map_of ords p = None")
    case True
    then obtain p where p: "ci_pack info = Some p" "map_of ords p = None" by blast
    have "card (set ids) \<le> card (set ids \<union> packs_of (info # infos))" by (rule card_mono) auto
    moreover have "length ids = card (set ids)" using Cons.prems(1) by (simp add: interned_def distinct_card)
    ultimately have "length ids < 2 ^ LENGTH('w)" using Cons.prems(2) by linarith
    from interned_Cons [OF Cons.prems(1) p(2) this] have
      i: "interned (ids @ [p]) ((p, of_nat (length ids)) # ords)" .
    have s: "set (ids @ [p]) \<union> packs_of infos = set ids \<union> packs_of (info # infos)" using p by auto
    have c: "card (set (ids @ [p]) \<union> packs_of infos) < 2 ^ LENGTH('w)" unfolding s by (rule Cons.prems(2))
    have e: "intern_packs infos (ids @ [p], (p, of_nat (length ids)) # ords) = (ids', ords')" using Cons.prems(3) p by simp
    from Cons.IH [OF i c e] show ?thesis using s by simp
  next
    case False
    then have "set_option (ci_pack info) \<subseteq> set ids"
      using Cons.prems(1) by (auto simp: interned_def elem_set) (metis nth_mem)
    then have s: "set ids \<union> packs_of (info # infos) = set ids \<union> packs_of infos" by auto
    have e: "intern_packs infos (ids, ords) = (ids', ords')" using Cons.prems(3) False by (auto split: option.splits)
    from Cons.IH [OF Cons.prems(1) _ e] Cons.prems(2) s show ?thesis by simp
  qed
qed

section \<open>Chunk records\<close>

text \<open>The entries that survive: no reserved value, and a pack exactly when there is an offset.\<close>

definition ledger_info :: "chunk_info \<Rightarrow> bool" where
  "ledger_info info \<longleftrightarrow> zero_since info \<noteq> Some (- 1) \<and> (ci_pack info = None \<longleftrightarrow> pack_offset info = None)
     \<and> (\<forall>p. ci_pack info = Some p \<longrightarrow> pack_id_ok p)"

lemma max_word_unat: "unat (- 1 :: 'w::len word) = 2 ^ LENGTH('w) - 1"
  by (simp add: unsigned_minus_1_eq_mask mask_eq_exp_minus_1)

lemma take_chunk_entry_ok:
  fixes ords :: "(string \<times> 'w::len word) list"
  assumes "interned ids ords" "length ids < 2 ^ LENGTH('w)" "LENGTH('w) \<le> 8 * width"
    and "length h = 32" "ledger_info info" "set_option (ci_pack info) \<subseteq> set ids"
  shows "take_chunk_entry width (- 1 :: 'w word) ids (encode_chunk_entry width ords h info @ rest) = Inr ((to_hex h, info), rest)"
proof -
  let ?zs = "case zero_since info of Some z \<Rightarrow> z | None \<Rightarrow> (- 1 :: u64)"
  let ?ord = "case Option.bind (ci_pack info) (map_of ords) of Some ord \<Rightarrow> ord | None \<Rightarrow> (- 1 :: 'w word)"
  let ?off = "case pack_offset info of Some off \<Rightarrow> off | None \<Rightarrow> 0"
  have zs: "(if ?zs = - 1 then None else Some ?zs) = zero_since info"
    using assms(5) by (auto simp: ledger_info_def split: option.splits)
  have pack: "(if ?ord = - 1 then Inr None else if unat ?ord < length ids then Inr (Some (ids ! unat ?ord))
      else Inl (IndexCorrupt ''pack ordinal out of range'')) = Inr (ci_pack info)"
  proof (cases "ci_pack info")
    case (Some p)
    then have "p \<in> set ids" using assms(6) by simp
    then obtain i where i: "map_of ords p = Some i" "unat i < length ids" "ids ! unat i = p"
      using assms(1) by (fastforce simp: interned_def)
    then have "i \<noteq> - 1" using assms(2) max_word_unat [where 'w = 'w] by auto
    then show ?thesis using Some i by simp
  qed simp
  have off: "(if ci_pack info = None then None else Some ?off) = pack_offset info"
    using assms(5) by (auto simp: ledger_info_def split: option.splits)
  have four: "LENGTH(32) \<le> 8 * 4" and eight: "LENGTH(64) \<le> 8 * 8" by simp_all
  show ?thesis
    unfolding take_chunk_entry_def encode_chunk_entry_def Let_def append.assoc
    by (simp only: take_bytes_append [OF assms(4)] rbind_simps prod.case take_le_enc [OF four]
        take_le_enc [OF eight] take_le_enc [OF assms(3)] pack zs off) simp
qed

lemma hash_or_zero_hex [simp]: "length h = 32 \<Longrightarrow> hash_or_zero (to_hex h) = Inr h"
  by (simp add: hash_or_zero_def)

text \<open>Keys and lists of hashes.\<close>

definition hex_of_hash :: "string \<Rightarrow> bool" where
  "hex_of_hash hex \<longleftrightarrow> (\<exists>h. length h = 32 \<and> hex = to_hex h)"

lemma encode_chunks_ok:
  fixes ords :: "(string \<times> 'w::len word) list"
  assumes "interned ids ords" "length ids < 2 ^ LENGTH('w)" "LENGTH('w) \<le> 8 * width"
    and "\<forall>(hex, info) \<in> set cs. hex_of_hash hex \<and> ledger_info info \<and> set_option (ci_pack info) \<subseteq> set ids"
  shows "\<exists>bs. encode_chunks width ords cs = Inr bs \<and> length bs = (68 + width) * length cs
    \<and> (\<forall>rest. decode_n (take_chunk_entry width (- 1 :: 'w word) ids) (length cs) (bs @ rest) = Inr (cs, rest))"
  using assms(4)
proof (induction cs)
  case Nil
  then show ?case by simp
next
  case (Cons c cs)
  obtain hex info where c: "c = (hex, info)" by fastforce
  then obtain h where h: "length h = 32" "hex = to_hex h" "ledger_info info" "set_option (ci_pack info) \<subseteq> set ids"
    using Cons.prems by (auto simp: hex_of_hash_def)
  from Cons obtain bs where bs: "encode_chunks width ords cs = Inr bs" "length bs = (68 + width) * length cs"
    "\<And>rest. decode_n (take_chunk_entry width (- 1 :: 'w word) ids) (length cs) (bs @ rest) = Inr (cs, rest)" by auto
  have "length (encode_chunk_entry width ords h info) = 68 + width"
    using h(1) by (simp add: encode_chunk_entry_def Let_def del: to_le.simps)
  then show ?case
    using c h bs take_chunk_entry_ok [OF assms(1-3) h(1,3,4)] by simp
qed

lemma take_hex_ok: "length h = 32 \<Longrightarrow> take_hex (h @ rest) = Inr (to_hex h, rest)"
  by (simp add: take_hex_def)

lemma encode_hashes_ok:
  assumes "\<forall>hex \<in> set hexes. hex_of_hash hex"
  shows "\<exists>bs. encode_hashes hexes = Inr bs \<and> length bs = 32 * length hexes
    \<and> (\<forall>rest. decode_n take_hex (length hexes) (bs @ rest) = Inr (hexes, rest))"
  using assms
proof (induction hexes)
  case (Cons hex hexes)
  then obtain h bs where "length h = 32" "hex = to_hex h" "encode_hashes hexes = Inr bs" "length bs = 32 * length hexes"
    "\<forall>rest. decode_n take_hex (length hexes) (bs @ rest) = Inr (hexes, rest)"
    by (auto simp: hex_of_hash_def)
  then show ?case by (simp add: take_hex_ok)
qed simp

lemma take_text_ok:
  assumes "pack_id_ok s"
  shows "take_text message (encode_text s @ rest) = Inr (s, rest)"
proof -
  have "unat (of_nat (length s) :: u16) = length s"
    using assms by (simp add: pack_id_ok_def unsigned_of_nat take_bit_nat_eq_self)
  then show ?thesis using assms by (simp add: take_text_def encode_text_def pack_id_ok_def del: to_le.simps)
qed

lemma take_texts_ok:
  assumes "\<forall>s \<in> set ss. pack_id_ok s"
  shows "decode_n (take_text message) (length ss) (encode_all encode_text ss @ rest) = Inr (ss, rest)"
  using assms by (induction ss) (simp_all add: take_text_ok)

lemma length_texts: "2 * length ss \<le> length (encode_all encode_text ss)"
  by (induction ss) (simp_all add: encode_text_def del: to_le.simps)

section \<open>The snapshot\<close>

definition chunks_ok :: "(string \<times> chunk_info) list \<Rightarrow> bool" where
  "chunks_ok cs \<longleftrightarrow> bt_ok cs \<and> (\<forall>(hex, info) \<in> set cs. hex_of_hash hex \<and> ledger_info info)"

text \<open>An asset as it is stored: a name that fits, and the hashes it lists.\<close>

definition asset_ok :: "string \<times> string list \<Rightarrow> bool" where
  "asset_ok a \<longleftrightarrow> pack_id_ok (fst a) \<and> length (snd a) < 2 ^ 32 \<and> (\<forall>hex \<in> set (snd a). hex_of_hash hex)"

definition record_in_pack :: "record_ref \<Rightarrow> bool" where
  "record_in_pack at \<longleftrightarrow> (\<exists>pack offset len. at = InPack pack offset len \<and> length pack = 32)"

definition assets_stored :: "store_index \<Rightarrow> bool" where
  "assets_stored ix \<longleftrightarrow> bt_ok (ix_assets ix) \<and> (\<forall>a \<in> set (ix_assets ix). asset_ok a) \<and> length (ix_assets ix) < 2 ^ 32"

definition snapshot_ok :: "store_index \<Rightarrow> bool" where
  "snapshot_ok ix \<longleftrightarrow> chunks_ok (ix_chunks ix) \<and> card (packs_of (map snd (ix_chunks ix))) < 2 ^ 32
     \<and> length (ix_chunks ix) * 72 < 2 ^ 64 \<and> assets_stored ix
     \<and> bt_ok (ix_records ix) \<and> fst ` set (ix_records ix) \<subseteq> fst ` set (ix_assets ix)
     \<and> (\<forall>(name, at) \<in> set (ix_records ix). record_in_pack at)"

lemma take_record_ref_ok:
  assumes "\<forall>r. at = Some r \<longrightarrow> record_in_pack r"
  shows "take_record_ref (encode_record_ref at @ rest) = Inr (at, rest)"
proof (cases at)
  case (Some r)
  then obtain pack offset len where "r = InPack pack offset len" "length pack = 32" using assms by (auto simp: record_in_pack_def)
  moreover have "take_bytes truncated 1 ([1] @ bs) = Inr ([1], bs)" for bs by (rule take_bytes_append) simp
  ultimately show ?thesis
    using Some by (simp add: take_record_ref_def encode_record_ref_def del: to_le.simps)
next
  case None
  have "take_bytes truncated 1 ([0] @ bs) = Inr ([0], bs)" for bs by (rule take_bytes_append) simp
  then show ?thesis using None by (simp add: take_record_ref_def encode_record_ref_def)
qed

lemma take_index_asset_ok:
  assumes "asset_ok (name, hexes)" "encode_hashes hexes = Inr hs" "\<forall>r. at = Some r \<longrightarrow> record_in_pack r"
  shows "take_index_asset 2 ((encode_text name @ to_le 4 (of_nat (length hexes) :: u32) @ hs @ encode_record_ref at) @ rest)
    = Inr ((name, hexes, at), rest)"
proof -
  have n: "unat (of_nat (length hexes) :: u32) = length hexes"
    using assms(1) by (simp add: asset_ok_def unsigned_of_nat take_bit_nat_eq_self)
  have d: "decode_n take_hex (length hexes) (hs @ rest') = Inr (hexes, rest')" "length hs = 32 * length hexes" for rest'
    using encode_hashes_ok [of hexes] assms(1,2) by (auto simp: asset_ok_def)
  show ?thesis
    using assms(1) take_record_ref_ok [OF assms(3)] d
    by (simp add: take_index_asset_def take_text_ok asset_ok_def n del: to_le.simps)
qed

lemma encode_assets_ok:
  assumes "\<forall>a \<in> set as. asset_ok a" "\<forall>(name, at) \<in> set records. record_in_pack at"
  shows "\<exists>bs. encode_assets records as = Inr bs \<and> (\<forall>rest. decode_n (take_index_asset 2) (length as) (bs @ rest)
    = Inr (map (\<lambda>(name, hexes). (name, hexes, map_of records name)) as, rest))"
  using assms(1)
proof (induction as)
  case (Cons a as)
  obtain name hexes where a: "a = (name, hexes)" by fastforce
  obtain bs where bs: "encode_assets records as = Inr bs" "\<forall>rest. decode_n (take_index_asset 2) (length as) (bs @ rest)
    = Inr (map (\<lambda>(name, hexes). (name, hexes, map_of records name)) as, rest)" using Cons by auto
  obtain hs where hs: "encode_hashes hexes = Inr hs" using encode_hashes_ok [of hexes] Cons.prems a by (auto simp: asset_ok_def)
  have r: "\<forall>r. map_of records name = Some r \<longrightarrow> record_in_pack r" using assms(2) by (auto dest: map_of_SomeD)
  from take_index_asset_ok [OF _ hs r, of name] show ?case using Cons.prems a bs hs by simp
qed simp

lemma record_refs_map_of:
  assumes "distinct (map fst as)"
  shows "map_of (record_refs (map (\<lambda>(name, hexes). (name, hexes, f name)) as)) n
    = (if n \<in> fst ` set as then f n else None)"
  using assms by (induction as) (auto simp: record_refs_def map_filter_simps split: option.splits)

lemma record_refs_keys: "fst ` set (record_refs (map (\<lambda>(name, hexes). (name, hexes, f name)) as)) \<subseteq> fst ` set as"
  by (induction as) (auto simp: record_refs_def map_filter_simps split: option.splits)

lemma record_refs_sorted:
  assumes "bt_ok as"
  shows "bt_ok (record_refs (map (\<lambda>(name, hexes). (name, hexes, f name)) as))"
  using assms
proof (induction as)
  case (Cons a as)
  note k = record_refs_keys [of f as, unfolded record_refs_def]
  show ?case using Cons k by (cases a) (fastforce simp: record_refs_def map_filter_simps split: option.splits)
qed (simp add: record_refs_def map_filter_simps)

lemma seal_split:
  assumes "length seal = 32"
  shows "take (length (out @ seal) - 32) (out @ seal) = out" "drop (length (out @ seal) - 32) (out @ seal) = seal"
  using assms by simp_all

theorem snapshot_decodes:
  assumes "hash_ok blake3" "snapshot_ok ix"
  shows "\<exists>bs. encode_index blake3 now ix = Inr bs \<and> decode_index_versioned blake3 bs = Inr (ix, 2)
    \<and> index_seal_holds blake3 bs"
proof -
  obtain packs and ords :: "(string \<times> u32) list" where p: "intern_packs (map snd (ix_chunks ix)) ([], []) = (packs, ords)" by fastforce
  have "card (set [] \<union> packs_of (map snd (ix_chunks ix))) < 2 ^ LENGTH(32)" using assms(2) by (simp add: snapshot_ok_def)
  from intern_packs_ok [OF interned_Nil this p]
  have i: "interned packs ords" "set packs = packs_of (map snd (ix_chunks ix))" "length packs < 2 ^ 32" by simp_all
  have cok: "\<forall>(hex, info) \<in> set (ix_chunks ix). hex_of_hash hex \<and> ledger_info info \<and> set_option (ci_pack info) \<subseteq> set packs"
    using assms(2) packs_of_in by (fastforce simp: snapshot_ok_def chunks_ok_def i(2))
  have w: "LENGTH(32) \<le> 8 * 4" "length packs < 2 ^ LENGTH(32)" using i(3) by simp_all
  from encode_chunks_ok [OF i(1) w(2,1) cok] obtain cs where
    cs: "encode_chunks 4 ords (ix_chunks ix) = Inr cs" "length cs = 72 * length (ix_chunks ix)"
      "\<And>rest. decode_n (take_chunk_entry 4 (- 1 :: u32) packs) (length (ix_chunks ix)) (cs @ rest) = Inr (ix_chunks ix, rest)" by auto
  let ?as = "map (\<lambda>(name, hexes). (name, hexes, map_of (ix_records ix) name)) (ix_assets ix)"
  from encode_assets_ok [of "ix_assets ix" "ix_records ix"] assms(2) obtain as where
    as: "encode_assets (ix_records ix) (ix_assets ix) = Inr as"
      "\<And>rest. decode_n (take_index_asset 2) (length (ix_assets ix)) (as @ rest) = Inr (?as, rest)"
    by (auto simp: snapshot_ok_def assets_stored_def)
  have pids: "\<forall>s \<in> set packs. pack_id_ok s"
    using assms(2) by (auto simp: i(2) packs_of_def snapshot_ok_def chunks_ok_def ledger_info_def)
  let ?tag = "case ix_layout ix of LooseLayout \<Rightarrow> 0 | PackfileLayout \<Rightarrow> (1 :: byte)"
  let ?out = "index_magic @ to_le 2 index_version @ to_le 2 index_header_size @ to_le 2 index_record_size
            @ to_le 2 (0 :: u16) @ [?tag] @ [0]
            @ to_le 8 (ix_generation ix) @ to_le 8 now @ replicate 6 0
            @ to_le 4 (of_nat (length packs) :: u32) @ encode_all encode_text packs
            @ to_le 8 (of_nat (length (ix_chunks ix)) :: u64) @ cs
            @ to_le 4 (of_nat (length (ix_assets ix)) :: u32) @ as"
  have enc: "encode_index blake3 now ix = Inr (?out @ hash_chunk blake3 ?out)"
    by (simp add: encode_index_def p cs(1) as(1) del: to_le.simps)
  have d: "length (hash_chunk blake3 ?out) = 32" using assms(1) by (simp add: hash_chunk_def hash_ok_def)
  have u: "unat (of_nat (length packs) :: u32) = length packs" "unat (of_nat (length (ix_chunks ix)) :: u64) = length (ix_chunks ix)"
      "unat (of_nat (length (ix_assets ix)) :: u32) = length (ix_assets ix)"
    using i(3) assms(2) by (simp_all add: snapshot_ok_def assets_stored_def unsigned_of_nat take_bit_nat_eq_self)
  have built: "bt_build (ix_chunks ix) [] = ix_chunks ix" "bt_build (map (\<lambda>(name, hexes, _). (name, hexes)) ?as) [] = ix_assets ix"
      "bt_build (record_refs ?as) [] = ix_records ix"
  proof -
    show "bt_build (ix_chunks ix) [] = ix_chunks ix"
      using assms(2) by (subst bt_build_sorted) (simp_all add: snapshot_ok_def chunks_ok_def)
    have "map (\<lambda>(name, hexes, _). (name, hexes)) ?as = ix_assets ix" by (simp add: comp_def case_prod_beta)
    then show "bt_build (map (\<lambda>(name, hexes, _). (name, hexes)) ?as) [] = ix_assets ix"
      using assms(2) by (simp add: bt_build_sorted snapshot_ok_def assets_stored_def)
    have ab: "bt_ok (ix_assets ix)" "bt_ok (ix_records ix)" "fst ` set (ix_records ix) \<subseteq> fst ` set (ix_assets ix)"
      using assms(2) by (auto simp: snapshot_ok_def assets_stored_def)
    have "map_of (record_refs ?as) n = map_of (ix_records ix) n" for n
    proof (cases "n \<in> fst ` set (ix_assets ix)")
      case False
      then have "map_of (ix_records ix) n = None" using ab(3) by (auto simp: map_of_eq_None_iff)
      then show ?thesis
        using False record_refs_map_of [OF bt_ok_distinct [OF ab(1)], of "map_of (ix_records ix)" n] by simp
    qed (simp add: record_refs_map_of [OF bt_ok_distinct [OF ab(1)]])
    then have "record_refs ?as = ix_records ix"
      by (intro bt_ext) (simp_all add: record_refs_sorted ab fun_eq_iff)
    then show "bt_build (record_refs ?as) [] = ix_records ix" using ab(2) by (simp add: bt_build_sorted)
  qed
  have fixed: "take_bytes truncated 2 (to_le 2 (0 :: u16) @ r) = Inr (to_le 2 (0 :: u16), r)"
      "take_bytes truncated 1 ([?tag] @ r) = Inr ([?tag], r)" "take_bytes truncated 1 ([0] @ r) = Inr ([0], r)"
      "take_bytes truncated 8 (to_le 8 now @ r) = Inr (to_le 8 now, r)"
      "take_bytes truncated (unat index_header_size - 34) (replicate 6 0 @ r) = Inr (replicate 6 0, r)" for r
    by (rule take_bytes_append, simp add: index_header_size_def)+
  have tag: "(if [?tag] ! 0 = 0 then Inr LooseLayout else if [?tag] ! 0 = 1 then Inr PackfileLayout
      else Inl (IndexCorrupt ''bad layout'')) = Inr (ix_layout ix)" by (cases "ix_layout ix") simp_all
  have widths: "LENGTH(16) \<le> 8 * 2" "LENGTH(32) \<le> 8 * 4" "LENGTH(64) \<le> 8 * 8" by simp_all
  have enough: "2 * length packs \<le> length (encode_all encode_text packs)"
    by (rule length_texts)
  let ?rest = "to_le 2 index_version @ to_le 2 index_header_size @ to_le 2 index_record_size
            @ to_le 2 (0 :: u16) @ [?tag] @ [0]
            @ to_le 8 (ix_generation ix) @ to_le 8 now @ replicate 6 0
            @ to_le 4 (of_nat (length packs) :: u32) @ encode_all encode_text packs
            @ to_le 8 (of_nat (length (ix_chunks ix)) :: u64) @ cs
            @ to_le 4 (of_nat (length (ix_assets ix)) :: u32) @ as"
  have magic: "take 8 (index_magic @ ?rest) = index_magic" "drop 8 (index_magic @ ?rest) = ?rest"
    by (simp_all add: index_magic_def del: to_le.simps)
  have sizes: "unat index_header_size = 40" "unat index_record_size = 72"
    by (simp_all add: index_header_size_def index_record_size_def)
  have room: "\<not> (index_header_size < index_header_size \<or> length ?out \<le> unat index_header_size)"
    unfolding sizes by (simp add: index_magic_def del: to_le.simps)
  have few: "\<not> length ?out div 2 < length packs" using enough by (simp add: div_less_iff_less_mult del: to_le.simps)
  have fits: "\<not> (2 ^ 64 \<le> length (ix_chunks ix) * unat index_record_size
      \<or> length (cs @ r) < length (ix_chunks ix) * unat index_record_size)" for r
    unfolding sizes using assms(2) by (simp add: snapshot_ok_def cs(2))
  have v2: "index_version = 2" by (simp add: index_version_def)
  have texts: "decode_n (take_text message) (length packs) (encode_all encode_text packs @ r) = Inr (packs, r)" for message r
    by (rule take_texts_ok [OF pids])
  have as0: "decode_n (take_index_asset 2) (length (ix_assets ix)) as = Inr (?as, [])" using as(2) [of "[]"] by simp
  have irrefl: "\<not> index_version < index_version" "\<not> index_record_size \<noteq> index_record_size" by simp_all
  have dec: "decode_index_body ?out = Inr (\<lparr>ix_chunks = ix_chunks ix, ix_assets = ix_assets ix, ix_records = ix_records ix,
      ix_layout = ix_layout ix, ix_generation = ix_generation ix\<rparr>, index_version)"
    unfolding decode_index_body_def magic
    by (simp only: take_le_enc [OF widths(1)] take_le_enc [OF widths(2)] take_le_enc [OF widths(3)] rbind_simps prod.case
        irrefl room if_False fixed tag u few fits texts cs(3) as0 [folded v2] built simp_thms)
  note sealed = seal_split [OF d]
  have big: "40 + 32 \<le> length (?out @ hash_chunk blake3 ?out)" using d by (simp add: index_magic_def del: to_le.simps)
  have holds: "index_seal_holds blake3 (?out @ hash_chunk blake3 ?out)"
    unfolding index_seal_holds_def sealed sizes using big by simp
  have "decode_index_versioned blake3 (?out @ hash_chunk blake3 ?out) = Inr (ix, 2)"
    unfolding decode_index_versioned_def sealed sizes using big holds dec v2 by (simp del: to_le.simps)
  then show ?thesis using enc holds by blast
qed

end
