(* ===== verification/Journal.thy ===== *)
theory Journal
  imports Index_Laws
begin

text \<open>
  The ledger journal \<^verbatim>\<open>index.log\<close> (\<^verbatim>\<open>core/cavs-store/src/global.rs\<close>): one sealed
  record per save, holding the entries the save touched, and the replay of such records over a
  ledger.  Applying a record changes the ledger as it reads: a record that turns out to be malformed
  leaves behind what was read before the fault, as the code does.
\<close>

definition journal_magic :: bytes where
  "journal_magic = ascii ''CAVSIDL1''"

definition journal_version :: u16 where
  "journal_version = 1"

definition journal_header_size :: nat where
  "journal_header_size = 24"

definition journal_seal_size :: nat where
  "journal_seal_size = 32"

definition journal_min_bytes :: u64 where
  "journal_min_bytes = push_bit 20 1"

definition inline_records_max :: nat where
  "inline_records_max = 16 * 1024"

section \<open>Encoding a record\<close>

text \<open>The dirty entries that are there, and the keys of those that are gone.\<close>

definition present :: "('k \<times> 'v) list \<Rightarrow> 'k list \<Rightarrow> ('k \<times> 'v) list" where
  "present m ks = List.map_filter (\<lambda>k. map_option (Pair k) (map_of m k)) ks"

definition absent :: "('k \<times> 'v) list \<Rightarrow> 'k list \<Rightarrow> 'k list" where
  "absent m ks = filter (\<lambda>k. map_of m k = None) ks"

text \<open>
  The assets of a record; \<open>at\<close> is the offset in the record they are written at.  Beside the
  bytes: name, offset and length of every record of a publish that went inline.
\<close>

type_synonym inline_record = "string \<times> u64 \<times> u32"

fun encode_asset_puts ::
    "nat \<Rightarrow> (string \<times> record_ref) list \<Rightarrow> (string \<times> bytes) list \<Rightarrow> (string \<times> string list) list
     \<Rightarrow> (bytes \<times> inline_record list) store_result" where
  "encode_asset_puts at records pending [] = Inr ([], [])"
| "encode_asset_puts at records pending ((name, chunks) # rest) =
     rbind (encode_hashes chunks) (\<lambda>hs.
     let head = encode_text name @ to_le 4 (of_nat (length chunks) :: u32) @ hs;
         (bs, inline) =
           (case (map_of pending name, map_of records name) of
              (Some bytes, _) \<Rightarrow>
                let head = head @ [2] @ to_le 4 (of_nat (length bytes) :: u32)
                in (head @ bytes, [(name, of_nat (at + length head), of_nat (length bytes))])
            | (None, Some (InPack pack offset len)) \<Rightarrow> (head @ encode_record_ref (Some (InPack pack offset len)), [])
            | (None, Some (InJournal _ _ _)) \<Rightarrow> (head @ [0], [])
            | (None, None) \<Rightarrow> (head @ [0], []))
     in rbind (encode_asset_puts (at + length bs) records pending rest) (\<lambda>(more, inlines).
        Inr (bs @ more, inline @ inlines)))"

definition encode_journal_record ::
    "hash_fun \<Rightarrow> store_index \<Rightarrow> u64 \<Rightarrow> string list \<Rightarrow> string list \<Rightarrow> (string \<times> bytes) list
     \<Rightarrow> (bytes \<times> inline_record list) store_result" where
  "encode_journal_record blake3 ix generation dirty_chunks dirty_assets pending =
     (let upserts = present (ix_chunks ix) dirty_chunks; removals = absent (ix_chunks ix) dirty_chunks in
      case intern_packs (map snd upserts) ([], []) of (packs, ords :: (string \<times> u16) list) \<Rightarrow>
      rbind (encode_chunks 2 ords upserts) (\<lambda>chunks.
      rbind (encode_hashes removals) (\<lambda>removed.
      let asset_puts = present (ix_assets ix) dirty_assets; asset_dels = absent (ix_assets ix) dirty_assets;
          body1 = to_le 2 (of_nat (length packs) :: u16) @ encode_all encode_text packs
            @ to_le 4 (of_nat (length upserts) :: u32) @ chunks
            @ to_le 4 (of_nat (length removals) :: u32) @ removed
            @ to_le 4 (of_nat (length asset_puts) :: u32)
      in rbind (encode_asset_puts (journal_header_size + length body1) (ix_records ix) pending asset_puts) (\<lambda>(puts, inline).
      let body = body1 @ puts @ to_le 4 (of_nat (length asset_dels) :: u32) @ encode_all encode_text asset_dels;
          out = journal_magic @ to_le 2 journal_version @ to_le 2 (0 :: u16)
            @ to_le 4 (of_nat (length body) :: u32) @ to_le 8 generation @ body
      in Inr (out @ hash_chunk blake3 out, inline)))))"

section \<open>Finding the next record\<close>

definition next_journal_record :: "hash_fun \<Rightarrow> bytes \<Rightarrow> (bytes \<times> u64) option" where
  "next_journal_record blake3 bs =
     (if length bs < journal_header_size + journal_seal_size \<or> take 8 bs \<noteq> journal_magic then None
      else if journal_version < from_le (take 2 (drop 8 bs)) then None
      else
      let body_len = unat (from_le (take 4 (drop 12 bs)) :: u32);
          total = journal_header_size + body_len + journal_seal_size in
      if length bs < total then None
      else
      let sealed = take (total - journal_seal_size) bs; seal = drop (total - journal_seal_size) (take total bs) in
      if hash_chunk blake3 sealed \<noteq> seal then None
      else Some (take total bs, from_le (take 8 (drop 16 bs))))"

section \<open>Applying a record\<close>

text \<open>Reading and changing the ledger by turns: what has been changed stays when a read fails.\<close>

type_synonym 'a upd = "store_index \<Rightarrow> 'a store_result \<times> store_index"

definition ureturn :: "'a store_result \<Rightarrow> 'a upd" where
  "ureturn r ix = (r, ix)"

definition umodify :: "(store_index \<Rightarrow> store_index) \<Rightarrow> unit upd" where
  "umodify f ix = (Inr (), f ix)"

definition ubind :: "'a upd \<Rightarrow> ('a \<Rightarrow> 'b upd) \<Rightarrow> 'b upd" where
  "ubind m f ix = (case m ix of (Inl e, ix) \<Rightarrow> (Inl e, ix) | (Inr x, ix) \<Rightarrow> f x ix)"

fun apply_upserts :: "nat \<Rightarrow> string list \<Rightarrow> bytes \<Rightarrow> bytes upd" where
  "apply_upserts 0 packs input = ureturn (Inr input)"
| "apply_upserts (Suc n) packs input =
     ubind (ureturn (take_chunk_entry 2 (- 1 :: u16) packs input)) (\<lambda>((hex, info), input).
     ubind (umodify (\<lambda>ix. ix\<lparr>ix_chunks := bt_insert hex info (ix_chunks ix)\<rparr>)) (\<lambda>_.
     apply_upserts n packs input))"

fun apply_removals :: "nat \<Rightarrow> bytes \<Rightarrow> bytes upd" where
  "apply_removals 0 input = ureturn (Inr input)"
| "apply_removals (Suc n) input =
     ubind (ureturn (take_hex input)) (\<lambda>(hex, input).
     ubind (umodify (\<lambda>ix. ix\<lparr>ix_chunks := bt_remove hex (ix_chunks ix)\<rparr>)) (\<lambda>_.
     apply_removals n input))"

text \<open>
  Where an asset's record is, from the tag that follows the asset.  \<open>at\<close> is the offset in the
  file of what is left to read, given what is left.
\<close>

definition apply_record_ref :: "journal_file \<Rightarrow> (bytes \<Rightarrow> u64) \<Rightarrow> string \<Rightarrow> bytes \<Rightarrow> bytes upd" where
  "apply_record_ref file at name input =
     ubind (ureturn (take_bytes truncated 1 input)) (\<lambda>(tag, input).
     if tag ! 0 = 0 then
       ubind (umodify (\<lambda>ix. case map_of (ix_records ix) name of
                  Some (InJournal _ _ _) \<Rightarrow> ix
                | _ \<Rightarrow> ix\<lparr>ix_records := bt_remove name (ix_records ix)\<rparr>)) (\<lambda>_.
       ureturn (Inr input))
     else if tag ! 0 = 1 then
       ubind (ureturn (take_bytes truncated 32 input)) (\<lambda>(pack, input).
       ubind (ureturn (take_le truncated 4 input)) (\<lambda>(offset, input).
       ubind (ureturn (take_le truncated 4 input)) (\<lambda>(len, input).
       ubind (umodify (\<lambda>ix. ix\<lparr>ix_records := bt_insert name (InPack pack offset len) (ix_records ix)\<rparr>)) (\<lambda>_.
       ureturn (Inr input)))))
     else if tag ! 0 = 2 then
       ubind (ureturn (take_le truncated 4 input)) (\<lambda>(len :: u32, input).
       let offset = at input in
       ubind (ureturn (take_bytes truncated (unat len) input)) (\<lambda>(_, input).
       ubind (umodify (\<lambda>ix. ix\<lparr>ix_records := bt_insert name (InJournal file offset len) (ix_records ix)\<rparr>)) (\<lambda>_.
       ureturn (Inr input))))
     else ureturn (Inl (IndexCorrupt ''bad record location tag'')))"

fun apply_asset_puts :: "journal_file \<Rightarrow> (bytes \<Rightarrow> u64) \<Rightarrow> nat \<Rightarrow> bytes \<Rightarrow> bytes upd" where
  "apply_asset_puts file at 0 input = ureturn (Inr input)"
| "apply_asset_puts file at (Suc n) input =
     ubind (ureturn (take_text ''asset name not utf-8'' input)) (\<lambda>(name, input).
     ubind (ureturn (take_le truncated 4 input)) (\<lambda>(k :: u32, input).
     if length input div 32 < unat k then ureturn (Inl (IndexCorrupt ''asset chunk count exceeds record''))
     else
     ubind (ureturn (decode_n take_hex (unat k) input)) (\<lambda>(hexes, input).
     ubind (apply_record_ref file at name input) (\<lambda>input.
     ubind (umodify (\<lambda>ix. ix\<lparr>ix_assets := bt_insert name hexes (ix_assets ix)\<rparr>)) (\<lambda>_.
     apply_asset_puts file at n input)))))"

fun apply_asset_dels :: "nat \<Rightarrow> bytes \<Rightarrow> bytes upd" where
  "apply_asset_dels 0 input = ureturn (Inr input)"
| "apply_asset_dels (Suc n) input =
     ubind (ureturn (take_text ''asset name not utf-8'' input)) (\<lambda>(name, input).
     ubind (umodify (\<lambda>ix. ix\<lparr>ix_assets := bt_remove name (ix_assets ix), ix_records := bt_remove name (ix_records ix)\<rparr>)) (\<lambda>_.
     apply_asset_dels n input))"

definition apply_journal_record :: "bytes \<Rightarrow> journal_file \<Rightarrow> u64 \<Rightarrow> unit upd" where
  "apply_journal_record body file base =
     ubind (ureturn (take_le truncated 2 body)) (\<lambda>(pack_count :: u16, input).
     ubind (ureturn (decode_n (take_text ''pack id not utf-8'') (unat pack_count) input)) (\<lambda>(packs, input).
     ubind (ureturn (take_le truncated 4 input)) (\<lambda>(upserts :: u32, input).
     if length input div 70 < unat upserts then ureturn (Inl (IndexCorrupt ''upsert count exceeds record''))
     else
     ubind (apply_upserts (unat upserts) packs input) (\<lambda>input.
     ubind (ureturn (take_le truncated 4 input)) (\<lambda>(removals :: u32, input).
     if length input div 32 < unat removals then ureturn (Inl (IndexCorrupt ''removal count exceeds record''))
     else
     ubind (apply_removals (unat removals) input) (\<lambda>input.
     ubind (ureturn (take_le truncated 4 input)) (\<lambda>(asset_puts :: u32, input).
     ubind (apply_asset_puts file (\<lambda>left. base + of_nat (length body - length left)) (unat asset_puts) input) (\<lambda>input.
     ubind (ureturn (take_le truncated 4 input)) (\<lambda>(asset_dels :: u32, input).
     ubind (apply_asset_dels (unat asset_dels) input) (\<lambda>input.
     if input \<noteq> [] then ureturn (Inl (IndexCorrupt ''trailing bytes'')) else ureturn (Inr ())))))))))))"

section \<open>Replay\<close>

text \<open>
  The records of \<open>bs\<close> from offset \<open>at\<close> on; the result is the offset where the replay
  stopped, and the ledger it left.
\<close>

lemma next_journal_record_len:
  "next_journal_record blake3 bs = Some (rec, g) \<Longrightarrow> 0 < length rec \<and> length rec \<le> length bs"
  by (auto simp: next_journal_record_def Let_def journal_header_size_def journal_magic_def ascii_def split: if_splits)

lemma next_journal_record_advances:
  assumes "next_journal_record blake3 (drop at bs) = Some (rec, g)"
  shows "length bs - (at + length rec) < length bs - at"
  using next_journal_record_len [OF assms] unfolding length_drop by linarith

function replay_records :: "hash_fun \<Rightarrow> journal_file \<Rightarrow> bytes \<Rightarrow> nat \<Rightarrow> store_index \<Rightarrow> nat \<times> store_index" where
  "replay_records blake3 file bs at ix =
     (case next_journal_record blake3 (drop at bs) of
        None \<Rightarrow> (at, ix)
      | Some (rec, generation) \<Rightarrow>
          if generation = ix_generation ix + 1 then
            (case apply_journal_record
                    (drop journal_header_size (take (length rec - journal_seal_size) rec))
                    file (of_nat at + of_nat journal_header_size) ix of
               (Inl _, ix) \<Rightarrow> (at, ix)
             | (Inr _, ix) \<Rightarrow> replay_records blake3 file bs (at + length rec) (ix\<lparr>ix_generation := generation\<rparr>))
          else if ix_generation ix + 1 < generation then (at, ix)
          else replay_records blake3 file bs (at + length rec) ix)"
  by pat_completeness auto
termination
  by (relation "measure (\<lambda>(_, _, bs, at, _). length bs - at)") (auto dest: next_journal_record_advances)

declare replay_records.simps [simp del]

text \<open>\<open>content\<close> is the journal file's, when it exists; a journal that does not is empty.\<close>

definition replay_journal_from ::
    "hash_fun \<Rightarrow> journal_file \<Rightarrow> bytes option \<Rightarrow> u64 \<Rightarrow> store_index \<Rightarrow> (nat \<times> nat) \<times> store_index" where
  "replay_journal_from blake3 file content from ix =
     (case content of
        None \<Rightarrow> ((0, 0), ix)
      | Some bs \<Rightarrow>
          (case replay_records blake3 file bs (min (unat from) (length bs)) ix of
             (at, ix) \<Rightarrow> ((at, length bs), ix)))"

definition replay_journal :: "hash_fun \<Rightarrow> journal_file \<Rightarrow> bytes option \<Rightarrow> store_index \<Rightarrow> (nat \<times> nat) \<times> store_index" where
  "replay_journal blake3 file content = replay_journal_from blake3 file content 0"

end
