(* ===== verification/Store_Dir.thy ===== *)
theory Store_Dir
  imports Seg_Commit Pack_File Journal
begin

text \<open>
  The directory of a chunk store and the state of an open handle
  (\<^verbatim>\<open>GlobalStore\<close> in \<^verbatim>\<open>core/cavs-store/src/global.rs\<close>), with the steps its
  operations are made of.  Operations are runs over the handle, whose directory is a part of it;
  every change of the directory is on the trace, an append with every prefix it could leave.  Files
  carry the time they were last written; the clock does not advance while an operation runs.  A
  write that the operating system refuses is not modelled, and the hint of how a write is made
  durable (\<^verbatim>\<open>SyncMode\<close>) is left out: writes reach the disk in the order they are issued,
  which every mode promises.
\<close>

section \<open>The directory\<close>

text \<open>Paths under the store's root; the names in them are hexadecimal ids or asset names.\<close>

datatype store_path =
    SnapshotFile | SnapshotTmp | SnapshotPrev | SnapshotRollback | JsonIndex | LogFile journal_file
  | FlatRecord string | FlatRecordTmp string | RecordPack chunk_hash | RecordPackTmp chunk_hash
  | LooseChunk string | LooseChunkTmp string
  | PackPart nat | PackFile string | PackIndex string | PackIndexTmp string
  | QuarantinePack string | QuarantineIndex string | QuarantineSince string

record stored_file =
  sf_bytes :: bytes
  sf_mtime :: nat

text \<open>Times are nanoseconds since the epoch.  The segmented index keeps its own directory.\<close>

record store_dir =
  sd_files :: "(store_path \<times> stored_file) list"
  sd_index :: index_dir
  sd_clock :: nat

definition path_file :: "store_dir \<Rightarrow> store_path \<Rightarrow> stored_file option" where
  "path_file d p = map_of (sd_files d) p"

definition path_bytes :: "store_dir \<Rightarrow> store_path \<Rightarrow> bytes option" where
  "path_bytes d p = map_option sf_bytes (path_file d p)"

definition set_path :: "store_path \<Rightarrow> bytes \<Rightarrow> store_dir \<Rightarrow> store_dir" where
  "set_path p bs d = d\<lparr>sd_files := AList.update p \<lparr>sf_bytes = bs, sf_mtime = sd_clock d\<rparr> (sd_files d)\<rparr>"

definition del_path :: "store_path \<Rightarrow> store_dir \<Rightarrow> store_dir" where
  "del_path p d = d\<lparr>sd_files := AList.delete p (sd_files d)\<rparr>"

definition move_path :: "store_path \<Rightarrow> store_path \<Rightarrow> store_dir \<Rightarrow> store_dir" where
  "move_path a b d =
     (case path_file d a of
        None \<Rightarrow> d
      | Some f \<Rightarrow> d\<lparr>sd_files := AList.update b f (AList.delete a (sd_files d))\<rparr>)"

definition store_paths :: "store_dir \<Rightarrow> store_path list" where
  "store_paths d = map fst (sd_files d)"

text \<open>Whole seconds since the epoch.\<close>

definition now_epoch :: "store_dir \<Rightarrow> u64" where
  "now_epoch d = of_nat (sd_clock d div 10 ^ 9)"

section \<open>Asset records\<close>

record store_track =
  track_id :: u32
  track_kind :: byte
  track_codec :: string
  track_name :: string
  timescale :: u32
  init_chunks :: "string list"

record store_segment =
  segment_id :: u64
  segment_track :: u32
  pts_start :: u64
  duration :: u32
  random_access :: bool
  segment_chunks :: "string list"

record asset_record =
  ar_name :: string
  asset_uuid :: string
  ar_tracks :: "store_track list"
  ar_segments :: "store_segment list"
  ar_dict :: "string list"
  ar_chunk_table :: "string list"
  ar_merkle_root :: string
  ar_signature :: "string option"
  ar_signer_pubkey :: "string option"
  ar_meta :: "(string \<times> string) list"

section \<open>The handle\<close>

text \<open>The segmented index and the records touched since its last commit; \<open>None\<close> is a deletion.\<close>

record seg_state =
  ss_index :: seg_index
  ss_overlay :: "(string \<times> chunk_info option) list"

text \<open>The number of an open pack is that of its \<^verbatim>\<open>.part\<close> file.\<close>

record global_store =
  gs_disk :: store_dir
  gs_index :: store_index
  gs_seg :: "seg_state option"
  gs_open_pack :: "(nat \<times> pack_writer) option"
  gs_parts :: nat
  gs_pack_size :: u64
  gs_batch :: "asset_record list option"
  gs_dirty_chunks :: "string list"
  gs_dirty_assets :: "string list"
  gs_journal_bytes :: u64
  gs_snapshot_bytes :: u64
  gs_journal_budget :: "u64 option"
  gs_pending :: "(string \<times> bytes) list"
  gs_snapshot_id :: "(nat \<times> nat) option"
  gs_read_only :: bool

text \<open>
  What the store takes from elsewhere: the digest, the libraries of the segmented index, the JSON
  forms of an asset's record and of a ledger from before the binary snapshot, a decompressor, and
  the order in which a hash set lists its elements.
\<close>

record 'v store_env =
  se_ledger :: "'v ledger_lib"
  se_blake3 :: hash_fun
  record_to_vec :: "asset_record \<Rightarrow> bytes"
  record_from_slice :: "bytes \<Rightarrow> asset_record option"
  json_index :: "bytes \<Rightarrow> store_index option"
  zstd_decompress :: "bytes \<Rightarrow> nat \<Rightarrow> bytes option"
  hash_order :: "string list \<Rightarrow> string list"

section \<open>Steps\<close>

type_synonym 'a store_run = "(global_store, 'a) state_run"

definition memory :: "(global_store \<Rightarrow> global_store) \<Rightarrow> unit store_run" where
  "memory f s = (Inr (), f s, [])"

definition on_disk :: "(store_dir \<Rightarrow> store_dir) \<Rightarrow> unit store_run" where
  "on_disk f = act (\<lambda>s. s\<lparr>gs_disk := f (gs_disk s)\<rparr>)"

definition fail :: "store_error \<Rightarrow> ('s, 'a) state_run" where
  "fail e s = (Inl e, s, [])"

text \<open>Creating or truncating a file, and then writing it.\<close>

definition write_path :: "store_path \<Rightarrow> bytes \<Rightarrow> unit store_run" where
  "write_path p bs = bind_run (on_disk (set_path p [])) (\<lambda>_. on_disk (set_path p bs))"

definition rename_path :: "store_path \<Rightarrow> store_path \<Rightarrow> unit store_run" where
  "rename_path a b =
     bind_run (ask (\<lambda>s. Inr (path_file (gs_disk s) a))) (\<lambda>found.
     case found of None \<Rightarrow> fail (StIo ''no such file'') | Some _ \<Rightarrow> on_disk (move_path a b))"

definition remove_path :: "store_path \<Rightarrow> unit store_run" where
  "remove_path p = on_disk (del_path p)"

text \<open>An append, byte by byte.\<close>

definition append_path :: "store_path \<Rightarrow> bytes \<Rightarrow> unit store_run" where
  "append_path p bs s =
     (let old = (case path_bytes (gs_disk s) p of None \<Rightarrow> [] | Some old \<Rightarrow> old);
          after = (\<lambda>k. s\<lparr>gs_disk := set_path p (old @ take k bs) (gs_disk s)\<rparr>)
      in (Inr (), after (length bs), map after [0..<length bs + 1]))"

text \<open>A run over the directory of the segmented index.\<close>

definition on_index :: "'a run \<Rightarrow> 'a store_run" where
  "on_index m s =
     (let put = (\<lambda>i. s\<lparr>gs_disk := (gs_disk s)\<lparr>sd_index := i\<rparr>\<rparr>) in
      case m (sd_index (gs_disk s)) of (r, i, tr) \<Rightarrow> (r, put i, map put tr))"

fun for_each :: "('a \<Rightarrow> ('s, unit) state_run) \<Rightarrow> 'a list \<Rightarrow> ('s, unit) state_run" where
  "for_each f [] = ret ()"
| "for_each f (x # xs) = bind_run (f x) (\<lambda>_. for_each f xs)"

end
