(* ===== verification/Store_Chunks.thy ===== *)
theory Store_Chunks
  imports Store_Dir
begin

text \<open>
  The chunks of a store (\<^verbatim>\<open>core/cavs-store/src/global.rs\<close>): the accessors that hide
  which of the two representations the ledger has, storing chunks loose or through the open pack,
  closing packs, and reading chunks back.
\<close>

section \<open>The chunk table\<close>

definition chunk_get :: "string \<Rightarrow> global_store \<Rightarrow> chunk_info option store_result" where
  "chunk_get hex s =
     (case gs_seg s of
        Some seg \<Rightarrow>
          (case map_of (ss_overlay seg) hex of
             Some entry \<Rightarrow> Inr entry
           | None \<Rightarrow> index_lookup (ss_index seg) hex)
      | None \<Rightarrow> Inr (map_of (ix_chunks (gs_index s)) hex))"

definition chunk_contains :: "string \<Rightarrow> global_store \<Rightarrow> bool store_result" where
  "chunk_contains hex s =
     (case gs_seg s of
        Some seg \<Rightarrow>
          (case map_of (ss_overlay seg) hex of
             Some entry \<Rightarrow> Inr (entry \<noteq> None)
           | None \<Rightarrow> rbind (index_lookup (ss_index seg) hex) (\<lambda>found. Inr (found \<noteq> None)))
      | None \<Rightarrow> Inr (map_of (ix_chunks (gs_index s)) hex \<noteq> None))"

definition set_overlay :: "string \<Rightarrow> chunk_info option \<Rightarrow> seg_state \<Rightarrow> global_store \<Rightarrow> global_store" where
  "set_overlay hex entry seg s = s\<lparr>gs_seg := Some (seg\<lparr>ss_overlay := bt_insert hex entry (ss_overlay seg)\<rparr>)\<rparr>"

definition set_chunk :: "string \<Rightarrow> chunk_info \<Rightarrow> global_store \<Rightarrow> global_store" where
  "set_chunk hex info s =
     s\<lparr>gs_index := (gs_index s)\<lparr>ix_chunks := bt_insert hex info (ix_chunks (gs_index s))\<rparr>,
       gs_dirty_chunks := insort_insert hex (gs_dirty_chunks s)\<rparr>"

definition chunk_insert :: "string \<Rightarrow> chunk_info \<Rightarrow> global_store \<Rightarrow> global_store" where
  "chunk_insert hex info s =
     (case gs_seg s of
        Some seg \<Rightarrow> set_overlay hex (Some info) seg s
      | None \<Rightarrow> set_chunk hex info s)"

definition chunk_remove :: "string \<Rightarrow> chunk_info option store_run" where
  "chunk_remove hex s =
     (case gs_seg s of
        Some seg \<Rightarrow>
          (case chunk_get hex s of
             Inl e \<Rightarrow> (Inl e, s, [])
           | Inr None \<Rightarrow> (Inr None, s, [])
           | Inr (Some old) \<Rightarrow> (Inr (Some old), set_overlay hex None seg s, []))
      | None \<Rightarrow>
          (case map_of (ix_chunks (gs_index s)) hex of
             None \<Rightarrow> (Inr None, s, [])
           | Some old \<Rightarrow>
               (Inr (Some old),
                s\<lparr>gs_index := (gs_index s)\<lparr>ix_chunks := bt_remove hex (ix_chunks (gs_index s))\<rparr>,
                  gs_dirty_chunks := insort_insert hex (gs_dirty_chunks s)\<rparr>, [])))"

definition chunk_update :: "string \<Rightarrow> (chunk_info \<Rightarrow> chunk_info) \<Rightarrow> bool store_run" where
  "chunk_update hex f s =
     (case gs_seg s of
        Some seg \<Rightarrow>
          (case chunk_get hex s of
             Inl e \<Rightarrow> (Inl e, s, [])
           | Inr None \<Rightarrow> (Inr False, s, [])
           | Inr (Some info) \<Rightarrow> (Inr True, set_overlay hex (Some (f info)) seg s, []))
      | None \<Rightarrow>
          (case map_of (ix_chunks (gs_index s)) hex of
             Some info \<Rightarrow> (Inr True, set_chunk hex (f info) s, [])
           | None \<Rightarrow> (Inr False, s, [])))"

text \<open>The merge of the index's live entries with the overlay (\<^verbatim>\<open>OverlayMerge\<close>), to its end.\<close>

fun overlay_merge :: "(string \<times> chunk_info) list \<Rightarrow> (string \<times> chunk_info option) list \<Rightarrow> (string \<times> chunk_info) list" where
  "overlay_merge [] [] = []"
| "overlay_merge (b # base) [] = b # overlay_merge base []"
| "overlay_merge [] ((oh, entry) # overlay) =
     (case entry of Some info \<Rightarrow> (oh, info) # overlay_merge [] overlay | None \<Rightarrow> overlay_merge [] overlay)"
| "overlay_merge ((bh, bi) # base) ((oh, entry) # overlay) =
     (if bh < oh then (bh, bi) # overlay_merge base ((oh, entry) # overlay)
      else if oh < bh then
        (case entry of
           Some info \<Rightarrow> (oh, info) # overlay_merge ((bh, bi) # base) overlay
         | None \<Rightarrow> overlay_merge ((bh, bi) # base) overlay)
      else
        (case entry of
           Some info \<Rightarrow> (oh, info) # overlay_merge base overlay
         | None \<Rightarrow> overlay_merge base overlay))"

definition chunks_iter :: "global_store \<Rightarrow> (string \<times> chunk_info) list store_result" where
  "chunks_iter s =
     (case gs_seg s of
        Some seg \<Rightarrow> rbind (live_records (ss_index seg)) (\<lambda>base. Inr (overlay_merge base (ss_overlay seg)))
      | None \<Rightarrow> Inr (ix_chunks (gs_index s)))"

definition chunks_len :: "global_store \<Rightarrow> nat store_result" where
  "chunks_len s =
     (case gs_seg s of
        Some _ \<Rightarrow> rbind (chunks_iter s) (\<lambda>cs. Inr (length cs))
      | None \<Rightarrow> Inr (length (ix_chunks (gs_index s))))"

definition live_pack_set :: "global_store \<Rightarrow> string list store_result" where
  "live_pack_set s = rbind (chunks_iter s) (\<lambda>cs. Inr (List.map_filter (\<lambda>(_, info). ci_pack info) cs))"

definition has_chunk :: "chunk_hash \<Rightarrow> global_store \<Rightarrow> bool store_result" where
  "has_chunk hash = chunk_contains (to_hex hash)"

definition chunk_info_of :: "chunk_hash \<Rightarrow> global_store \<Rightarrow> chunk_info option store_result" where
  "chunk_info_of hash = chunk_get (to_hex hash)"

section \<open>Storing\<close>

text \<open>\<^verbatim>\<open>PackWriter::create\<close>: the \<^verbatim>\<open>.part\<close> file of the next number; it gets its bytes when the pack is closed.\<close>

definition open_pack :: "unit store_run" where
  "open_pack =
     bind_run (ask (\<lambda>s. Inr (gs_parts s))) (\<lambda>n.
     bind_run (on_disk (set_path (PackPart n) [])) (\<lambda>_.
     memory (\<lambda>s. s\<lparr>gs_open_pack := Some (n, create_pack), gs_parts := n + 1\<rparr>)))"

text \<open>\<^verbatim>\<open>finish_with\<close>: the pack under its content's name, then its sidecar index.\<close>

definition finish_pack :: "hash_fun \<Rightarrow> nat \<Rightarrow> pack_writer \<Rightarrow> (string \<times> pack_entry list) store_run" where
  "finish_pack blake3 n w =
     (let file = sealed_pack blake3 w; pack_id = sealed_id blake3 w; hex = to_hex pack_id in
      bind_run (on_disk (set_path (PackPart n) file)) (\<lambda>_.
      bind_run (rename_path (PackPart n) (PackFile hex)) (\<lambda>_.
      bind_run (write_path (PackIndexTmp hex) (pack_index_bytes blake3 pack_id (pw_entries w))) (\<lambda>_.
      bind_run (rename_path (PackIndexTmp hex) (PackIndex hex)) (\<lambda>_.
      ret (hex, pw_entries w))))))"

definition resolve_entry :: "string \<Rightarrow> pack_entry \<Rightarrow> unit store_run" where
  "resolve_entry pack_hex entry =
     (let hex = to_hex (pe_hash entry) in
      bind_run (chunk_update hex (\<lambda>info. info\<lparr>ci_pack := Some pack_hex, pack_offset := Some (pe_offset entry)\<rparr>)) (\<lambda>resolved.
      if resolved then ret ()
      else memory (chunk_insert hex
        \<lparr>len_raw = pe_raw_len entry, len_stored = pe_stored_len entry, ci_flags = pe_flags entry, refcount = 0,
         zero_since = Some 0, ci_pack = Some pack_hex, pack_offset = Some (pe_offset entry)\<rparr>)))"

definition flush_packs :: "hash_fun \<Rightarrow> unit store_run" where
  "flush_packs blake3 =
     bind_run (ask (\<lambda>s. Inr (gs_open_pack s))) (\<lambda>writer.
     case writer of
       None \<Rightarrow> ret ()
     | Some (n, w) \<Rightarrow>
         bind_run (memory (\<lambda>s. s\<lparr>gs_open_pack := None\<rparr>)) (\<lambda>_.
         if pw_entries w = [] then remove_path (PackPart n)
         else
         bind_run (finish_pack blake3 n w) (\<lambda>(pack_hex, entries).
         for_each (resolve_entry pack_hex) entries)))"

definition put_chunk :: "hash_fun \<Rightarrow> chunk_hash \<Rightarrow> bytes \<Rightarrow> u32 \<Rightarrow> u32 \<Rightarrow> bool store_run" where
  "put_chunk blake3 hash stored flags raw_len =
     (let hex = to_hex hash;
          entry = \<lparr>len_raw = raw_len, len_stored = of_nat (length stored), ci_flags = flags, refcount = 0,
                   zero_since = Some 0, ci_pack = None, pack_offset = None\<rparr> in
      bind_run (ask (chunk_contains hex)) (\<lambda>there.
      if there then ret False
      else
      bind_run (ask (\<lambda>s. Inr (ix_layout (gs_index s)))) (\<lambda>layout.
      bind_run
        (case layout of
           LooseLayout \<Rightarrow>
             bind_run (write_path (LooseChunkTmp hex) stored) (\<lambda>_.
             bind_run (rename_path (LooseChunkTmp hex) (LooseChunk hex)) (\<lambda>_.
             memory (chunk_insert hex entry)))
         | PackfileLayout \<Rightarrow>
             bind_run (ask (\<lambda>s. Inr (gs_open_pack s))) (\<lambda>writer.
             bind_run (if writer = None then open_pack else ret ()) (\<lambda>_.
             bind_run (memory (\<lambda>s. s\<lparr>gs_open_pack :=
               map_option (\<lambda>(n, w). (n, snd (pack_append hash stored raw_len flags w))) (gs_open_pack s)\<rparr>)) (\<lambda>_.
             bind_run (ask (\<lambda>s. Inr (case gs_open_pack s of
               None \<Rightarrow> False | Some (n, w) \<Rightarrow> gs_pack_size s \<le> pw_data_len w))) (\<lambda>full.
             bind_run (memory (chunk_insert hex entry)) (\<lambda>_.
             if full then flush_packs blake3 else ret ()))))))
        (\<lambda>_. ret True))))"

section \<open>Reading\<close>

text \<open>The path of a pack takes the first two bytes of its id, which panics when there are none.\<close>

definition pack_path :: "string \<Rightarrow> store_path store_result" where
  "pack_path hex =
     (if 2 \<le> length hex \<and> starts_at_boundary (drop 2 hex) then Inr (PackFile hex)
      else Inl (StPanicked ''byte index is not a char boundary''))"

text \<open>How the path is displayed in the error.\<close>

definition show_pack :: "string \<Rightarrow> string" where
  "show_pack hex = take 2 hex @ ''/'' @ hex @ ''.cavspack''"

definition read_in_pack :: "string \<Rightarrow> u64 \<Rightarrow> u64 \<Rightarrow> store_dir \<Rightarrow> bytes store_result" where
  "read_in_pack pack offset len d =
     rbind (pack_path pack) (\<lambda>path. read_pack_range (show_pack pack) (path_bytes d path) offset len)"

definition read_chunk_stored :: "chunk_hash \<Rightarrow> global_store \<Rightarrow> (bytes \<times> u32 \<times> u32) store_result" where
  "read_chunk_stored hash s =
     (let hex = to_hex hash in
      rbind (chunk_get hex s) (\<lambda>found.
      rbind (ok_or (MissingChunk hex) found) (\<lambda>info.
      rbind
        (case (ci_pack info, pack_offset info) of
           (Some pack, Some offset) \<Rightarrow> read_in_pack pack offset (ucast (len_stored info)) (gs_disk s)
         | _ \<Rightarrow> ok_or (MissingChunk hex) (path_bytes (gs_disk s) (LooseChunk hex)))
        (\<lambda>bs. Inr (bs, ci_flags info, len_raw info)))))"

definition chunk_location :: "chunk_hash \<Rightarrow> global_store \<Rightarrow> (string \<times> u64 \<times> u32) option store_result" where
  "chunk_location hash s =
     rbind (chunk_get (to_hex hash) s) (\<lambda>found.
     Inr (Option.bind found (\<lambda>info.
          Option.bind (ci_pack info) (\<lambda>pack.
          Option.bind (pack_offset info) (\<lambda>offset. Some (pack, offset, len_stored info))))))"

end
