(* ===== verification/Ledger_State.thy ===== *)
theory Ledger_State
  imports Seg_Commit
begin

text \<open>
  What it means that a directory holds a ledger: the generation that \<^verbatim>\<open>CURRENT\<close> names,
  its root, its segments in the pool and its asset table.  Runs are followed change by change; the
  frame lemmas say which changes a ledger does not notice.
\<close>

section \<open>Runs\<close>

text \<open>The run returns, and every directory it passes through satisfies \<open>P\<close>.\<close>

definition goes :: "('s \<Rightarrow> bool) \<Rightarrow> ('s, 'a) state_run \<Rightarrow> 's \<Rightarrow> 'a \<Rightarrow> 's \<Rightarrow> bool" where
  "goes P m d x d' \<longleftrightarrow> (\<exists>tr. m d = (Inr x, d', tr) \<and> (\<forall>s \<in> set tr. P s))"

named_theorems goes_rules "stepping through a run"

lemma goes_ret [goes_rules]: "goes P (ret x) d x d"
  by (simp add: goes_def ret_def)

lemma goes_ask [goes_rules]: "f d = Inr x \<Longrightarrow> goes P (ask f) d x d"
  by (simp add: goes_def ask_def)

lemma goes_act [goes_rules]: "P (f d) \<Longrightarrow> goes P (act f) d () (f d)"
  by (simp add: goes_def act_def)

lemma goes_bind [goes_rules]:
  "goes P m d x d1 \<Longrightarrow> goes P (k x) d1 y d2 \<Longrightarrow> goes P (bind_run m k) d y d2"
  by (auto simp: goes_def bind_run_def)

lemma goes_mono: "goes P m d x d' \<Longrightarrow> (\<And>s. P s \<Longrightarrow> Q s) \<Longrightarrow> goes Q m d x d'"
  by (auto simp: goes_def)

lemma goes_write [goes_rules]:
  "P (put_file p [] d) \<Longrightarrow> P (put_file p bs (put_file p [] d))
    \<Longrightarrow> goes P (write_file p bs) d () (put_file p bs (put_file p [] d))"
  unfolding write_file_def by (rule goes_bind [OF goes_act goes_act])

lemma goes_append [goes_rules]:
  "P (put_file p ((case get_file d p of None \<Rightarrow> [] | Some old \<Rightarrow> old) @ bs) d)
    \<Longrightarrow> goes P (append_file p bs) d () (put_file p ((case get_file d p of None \<Rightarrow> [] | Some old \<Rightarrow> old) @ bs) d)"
  unfolding append_file_def by (rule goes_act)

lemma goes_rename [goes_rules]:
  "get_file d a = Some bs \<Longrightarrow> P (put_file b bs (drop_file a d))
    \<Longrightarrow> goes P (rename_file a b) d () (put_file b bs (drop_file a d))"
  by (simp add: goes_def rename_file_def act_def)

section \<open>Files\<close>

lemma get_put [simp]: "get_file (put_file p bs d) q = (if p = q then Some bs else get_file d q)"
  by (simp add: get_file_def put_file_def update_conv')

lemma get_drop [simp]: "get_file (drop_file p d) q = (if p = q then None else get_file d q)"
  by (simp add: get_file_def drop_file_def delete_conv')

lemma gens_put [simp]: "id_gens (put_file p bs d) = id_gens d" "id_gens (drop_file p d) = id_gens d"
  by (simp_all add: put_file_def drop_file_def)

lemma get_gens [simp]: "get_file (d\<lparr>id_gens := gs\<rparr>) p = get_file d p"
  by (simp add: get_file_def)

lemma get_file_listed: "get_file d p = Some bs \<Longrightarrow> p \<in> set (map fst (id_files d))"
  by (force simp: get_file_def dest: map_of_SomeD)

lemma ends_with_append [simp]: "ends_with (a @ w) w"
  by (simp add: ends_with_def)

lemma seg_file_ends [simp]: "ends_with (seg_file_name h) ''.seg''"
  by (simp add: seg_file_name_def)

lemma tmp_not_seg [simp]: "\<not> ends_with (f @ ''.tmp'') ''.seg''"
  by (simp add: ends_with_def)

section \<open>The libraries\<close>

text \<open>
  The documented behaviour of the libraries: a document that was printed parses to itself, the
  derived conversions are inverse, and what was compressed, up to the limit the reader gives,
  decompresses.
\<close>

definition lib_ok :: "'v ledger_lib \<Rightarrow> bool" where
  "lib_ok lib \<longleftrightarrow>
     (\<forall>c b. from_slice lib (to_vec lib (json_doc lib c (root_to_value lib b))) = Some (json_doc lib c (root_to_value lib b)))
   \<and> (\<forall>c b. json_get lib ''body'' (json_doc lib c (root_to_value lib b)) = Some (root_to_value lib b))
   \<and> (\<forall>c b. Option.bind (json_get lib ''checksum'' (json_doc lib c (root_to_value lib b))) (json_str lib) = Some c)
   \<and> (\<forall>b. root_from_value lib (root_to_value lib b) = Some b)
   \<and> (\<forall>a. sorted_wrt (<) (map fst a) \<longrightarrow> assets_from_slice lib (assets_to_vec lib a) = Some a)
   \<and> (\<forall>raw bs. compress lib raw = Some bs \<and> length raw \<le> 2 ^ 31 \<longrightarrow> decompress lib bs = Some raw)"

definition root_bytes :: "'v ledger_lib \<Rightarrow> hash_fun \<Rightarrow> root_body \<Rightarrow> bytes" where
  "root_bytes lib blake3 body =
     to_vec lib (json_doc lib (to_hex (hash_chunk blake3 (to_vec lib (root_to_value lib body)))) (root_to_value lib body))"

lemma parse_root_bytes:
  assumes "lib_ok lib" "rb_version body = 1"
  shows "parse_root lib blake3 (root_bytes lib blake3 body) = Inr body"
  using assms by (simp add: lib_ok_def parse_root_def root_bytes_def)

text \<open>The asset tables that are read back.\<close>

definition assets_ok :: "'v ledger_lib \<Rightarrow> asset_table \<Rightarrow> bool" where
  "assets_ok lib a \<longleftrightarrow> sorted_wrt (<) (map fst a) \<and> length (assets_to_vec lib a) \<le> 2 ^ 31
     \<and> compress lib (assets_to_vec lib a) \<noteq> None"

section \<open>The ledger on disk\<close>

text \<open>A segment as the root lists it, with its kind and its entries.\<close>

type_synonym seg_desc = "root_segment \<times> seg_kind \<times> seg_entry list"

definition good_entries :: "seg_entry list \<Rightarrow> bool" where
  "good_entries es \<longleftrightarrow> list_all valid_entry es \<and> length es < 2 ^ 31 \<and> es \<noteq> [] \<and> sorted_wrt (<) (map fst es)"

definition desc_ok :: "hash_fun \<Rightarrow> seg_desc \<Rightarrow> bool" where
  "desc_ok blake3 x = (case x of (rs, kind, es) \<Rightarrow> good_entries es
     \<and> (\<exists>body. segment_body kind (hex_records es) = Inr body \<and> rs = root_entry blake3 kind (hex_records es) body))"

definition desc_stored :: "hash_fun \<Rightarrow> index_dir \<Rightarrow> seg_desc \<Rightarrow> bool" where
  "desc_stored blake3 d x = (case x of (rs, kind, es) \<Rightarrow> good_entries es
     \<and> (\<exists>body. segment_body kind (hex_records es) = Inr body \<and> rs = root_entry blake3 kind (hex_records es) body
          \<and> get_file d (PoolFile (rs_file rs)) = Some (body @ hash_chunk blake3 body)))"

text \<open>
  The pool is content addressed: a file in it is named by the hash of what it holds, a body from
  \<open>U\<close>.
\<close>

definition pool_in :: "hash_fun \<Rightarrow> bytes set \<Rightarrow> index_dir \<Rightarrow> bool" where
  "pool_in blake3 U d \<longleftrightarrow> (\<forall>name bs. get_file d (PoolFile name) = Some bs \<and> ends_with name ''.seg'' \<longrightarrow>
     (\<exists>body \<in> U. bs = body @ hash_chunk blake3 body \<and> name = seg_file_name (hash_chunk blake3 body)))"

definition gen_files :: "'v ledger_lib \<Rightarrow> hash_fun \<Rightarrow> index_dir \<Rightarrow> u64 \<Rightarrow> store_layout \<Rightarrow> seg_desc list \<Rightarrow> asset_table \<Rightarrow> bool" where
  "gen_files lib blake3 d g layout descs assets \<longleftrightarrow>
     get_file d (GenFile (gen_name g) ''root.idx'') = Some (root_bytes lib blake3
        \<lparr>rb_version = 1, rb_generation = g, rb_layout = layout, rb_segments = map fst descs\<rparr>)
   \<and> (\<exists>bs. compress lib (assets_to_vec lib assets) = Some bs \<and> get_file d (GenFile (gen_name g) ''assets.json.zst'') = Some bs)
   \<and> (\<forall>x \<in> set descs. desc_stored blake3 d x) \<and> gen_name g \<in> set (id_gens d) \<and> assets_ok lib assets"

definition ledger :: "'v ledger_lib \<Rightarrow> hash_fun \<Rightarrow> bytes set \<Rightarrow> u64 \<Rightarrow> store_layout \<Rightarrow> seg_desc list \<Rightarrow> asset_table \<Rightarrow> index_dir \<Rightarrow> bool" where
  "ledger lib blake3 U g layout descs assets d \<longleftrightarrow>
     get_file d CurrentFile = Some (current_text g) \<and> gen_files lib blake3 d g layout descs assets \<and> pool_in blake3 U d"

text \<open>The files a ledger of generation \<open>g\<close> rests on.\<close>

fun rests_on :: "u64 \<Rightarrow> index_path \<Rightarrow> bool" where
  "rests_on g CurrentFile = True"
| "rests_on g (GenFile h f) = (h = gen_name g \<and> (f = ''root.idx'' \<or> f = ''assets.json.zst''))"
| "rests_on g (PoolFile n) = ends_with n ''.seg''"
| "rests_on g _ = False"

text \<open>No segment file is lost or changed.\<close>

definition pool_grows :: "index_dir \<Rightarrow> index_dir \<Rightarrow> bool" where
  "pool_grows d d' \<longleftrightarrow> (\<forall>n bs. ends_with n ''.seg'' \<and> get_file d (PoolFile n) = Some bs
     \<longrightarrow> get_file d' (PoolFile n) = Some bs)"

lemma pool_grows_refl [simp]: "pool_grows d d"
  by (simp add: pool_grows_def)

lemma pool_grows_trans: "pool_grows a b \<Longrightarrow> pool_grows b c \<Longrightarrow> pool_grows a c"
  by (auto simp: pool_grows_def)

lemma pool_grows_put:
  "\<not> rests_on g p \<Longrightarrow> pool_grows d (put_file p bs d)" "\<not> rests_on g p \<Longrightarrow> pool_grows d (drop_file p d)"
  by (auto simp: pool_grows_def)

lemma desc_stored_mono:
  assumes "desc_stored blake3 d x" "pool_grows d d'"
  shows "desc_stored blake3 d' x"
proof -
  have "ends_with (rs_file (root_entry blake3 k r b)) ''.seg''" for k r b by (simp add: root_entry_def)
  then show ?thesis using assms by (fastforce simp: desc_stored_def pool_grows_def split: prod.splits)
qed

lemma gen_files_mono:
  assumes "gen_files lib blake3 d g layout descs assets" "pool_grows d d'"
    and "get_file d' (GenFile (gen_name g) ''root.idx'') = get_file d (GenFile (gen_name g) ''root.idx'')"
    and "get_file d' (GenFile (gen_name g) ''assets.json.zst'') = get_file d (GenFile (gen_name g) ''assets.json.zst'')"
    and "gen_name g \<in> set (id_gens d')"
  shows "gen_files lib blake3 d' g layout descs assets"
proof -
  have "\<forall>x \<in> set descs. desc_stored blake3 d' x"
    using assms(1,2) desc_stored_mono unfolding gen_files_def by blast
  then show ?thesis using assms(1,3-5) by (simp add: gen_files_def)
qed

lemma pool_in_put:
  assumes "pool_in blake3 U d" "\<not> rests_on g p"
  shows "pool_in blake3 U (put_file p bs d)" "pool_in blake3 U (drop_file p d)"
  using assms by (auto simp: pool_in_def)

lemma ledger_put:
  assumes "ledger lib blake3 U g layout descs assets d" "\<not> rests_on g p"
  shows "ledger lib blake3 U g layout descs assets (put_file p bs d)"
    "ledger lib blake3 U g layout descs assets (drop_file p d)"
proof -
  have c: "p \<noteq> CurrentFile" "p \<noteq> GenFile (gen_name g) ''root.idx''" "p \<noteq> GenFile (gen_name g) ''assets.json.zst''"
    using assms(2) by auto
  have g: "gen_files lib blake3 d g layout descs assets" "gen_name g \<in> set (id_gens d)"
    using assms(1) by (auto simp: ledger_def gen_files_def)
  show "ledger lib blake3 U g layout descs assets (put_file p bs d)"
    using assms c gen_files_mono [OF g(1) pool_grows_put(1) [OF assms(2)]] g(2) pool_in_put(1) [OF _ assms(2)]
    by (simp add: ledger_def)
  show "ledger lib blake3 U g layout descs assets (drop_file p d)"
    using assms c gen_files_mono [OF g(1) pool_grows_put(2) [OF assms(2)]] g(2) pool_in_put(2) [OF _ assms(2)]
    by (simp add: ledger_def)
qed

lemma ledger_gens:
  assumes "ledger lib blake3 U g layout descs assets d" "gen_name g \<in> set gs"
  shows "ledger lib blake3 U g layout descs assets (d\<lparr>id_gens := gs\<rparr>)"
proof -
  have "pool_grows d (d\<lparr>id_gens := gs\<rparr>)" by (simp add: pool_grows_def)
  then show ?thesis
    using assms gen_files_mono [of lib blake3 d g layout descs assets "d\<lparr>id_gens := gs\<rparr>"]
    by (simp add: ledger_def pool_in_def)
qed

end
