(* ===== verification/Ledger_Writes.thy ===== *)
theory Ledger_Writes
  imports Ledger_State
begin

text \<open>
  The writing half of the ledger's operations, over any invariant of the directory that does not
  notice files outside a generation: what each operation adds, and that every directory on the way
  satisfies the invariant.  The invariants it is used with are the ledger of the generation before,
  and, when there is none yet, the pool alone.
\<close>

section \<open>Invariants that allow a new generation\<close>

text \<open>What a step leaves alone: segment files, generation files and the generations.\<close>

definition quiet :: "index_dir \<Rightarrow> index_dir \<Rightarrow> bool" where
  "quiet d d' \<longleftrightarrow> pool_grows d d' \<and> (\<forall>h f. get_file d' (GenFile h f) = get_file d (GenFile h f)) \<and> id_gens d' = id_gens d"

lemma quiet_refl [simp]: "quiet d d"
  by (simp add: quiet_def)

lemma quiet_trans: "quiet a b \<Longrightarrow> quiet b c \<Longrightarrow> quiet a c"
  by (auto simp: quiet_def intro: pool_grows_trans)

text \<open>The bodies of the segments over entries from \<open>E\<close> are in \<open>U\<close>.\<close>

definition bodies_in :: "bytes set \<Rightarrow> seg_entry set \<Rightarrow> bool" where
  "bodies_in U E \<longleftrightarrow> (\<forall>kind es body. good_entries es \<and> set es \<subseteq> E
     \<and> segment_body kind (hex_records es) = Inr body \<longrightarrow> body \<in> U)"

text \<open>Live entries, as the merge yields them and as a base segment holds them.\<close>

definition hex_live :: "(chunk_hash \<times> chunk_info) list \<Rightarrow> (string \<times> chunk_info) list" where
  "hex_live xs = map (\<lambda>(h, info). (to_hex h, info)) xs"

definition live_entries :: "(chunk_hash \<times> chunk_info) list \<Rightarrow> seg_entry list" where
  "live_entries xs = map (\<lambda>(h, info). (h, Some info)) xs"

lemma live_entry_simps:
  "hex_live [] = []" "hex_live ((h, info) # xs) = (to_hex h, info) # hex_live xs"
  "live_entries [] = []" "live_entries ((h, info) # xs) = (h, Some info) # live_entries xs"
  by (simp_all add: hex_live_def live_entries_def)

lemma goes_writeI:
  "d1 = put_file p [] d \<Longrightarrow> d2 = put_file p bs d1 \<Longrightarrow> Q d1 \<Longrightarrow> Q d2 \<Longrightarrow> goes Q (write_file p bs) d () d2"
  by (auto intro: goes_write)

lemma goes_renameI:
  "d' = put_file b bs (drop_file a d) \<Longrightarrow> get_file d a = Some bs \<Longrightarrow> Q d' \<Longrightarrow> goes Q (rename_file a b) d () d'"
  by (auto intro: goes_rename)

locale disk_invariant =
  fixes P :: "index_dir \<Rightarrow> bool" and g :: u64 and blake3 :: hash_fun and U :: "bytes set"
  assumes P_put: "P d \<Longrightarrow> \<not> rests_on g p \<Longrightarrow> P (put_file p bs d)"
    and P_drop: "P d \<Longrightarrow> \<not> rests_on g p \<Longrightarrow> P (drop_file p d)"
    and P_seg: "P d \<Longrightarrow> body \<in> U \<Longrightarrow> get_file d (PoolFile (seg_file_name (hash_chunk blake3 body))) = None
      \<Longrightarrow> P (put_file (PoolFile (seg_file_name (hash_chunk blake3 body))) (body @ hash_chunk blake3 body) d)"
    and P_gen: "P d \<Longrightarrow> P (d\<lparr>id_gens := List.insert n (id_gens d)\<rparr>)"
    and P_pool: "P d \<Longrightarrow> pool_in blake3 U d"
begin

lemma wal_goes:
  assumes "P d"
  shows "\<exists>d'. goes P (wal_append op h) d () d' \<and> P d' \<and> quiet d d'"
proof -
  let ?d = "\<lambda>bs. put_file WalLog bs d"
  have "P (?d bs)" "quiet d (?d bs)" for bs
    using P_put [OF assms, of WalLog] by (auto simp: quiet_def pool_grows_def)
  then show ?thesis unfolding wal_append_def using goes_append [of P WalLog d] by blast
qed

lemma gen_goes:
  assumes "P d"
  shows "\<exists>d'. goes P (make_gen n) d () d' \<and> P d' \<and> pool_grows d d'
    \<and> (\<forall>h f. get_file d' (GenFile h f) = get_file d (GenFile h f)) \<and> set (id_gens d') = insert n (set (id_gens d))"
proof -
  let ?d = "d\<lparr>id_gens := List.insert n (id_gens d)\<rparr>"
  have "P ?d" by (rule P_gen [OF assms])
  then have "goes P (make_gen n) d () ?d" unfolding make_gen_def by (rule goes_act)
  then show ?thesis using \<open>P ?d\<close> by (intro exI [of _ ?d]) (simp add: pool_grows_def)
qed

lemma write_segment_eq:
  assumes "segment_body kind records = Inr body"
  shows "write_segment blake3 kind records d =
    bind_run (case get_file d (PoolFile (seg_file_name (hash_chunk blake3 body))) of
          Some _ \<Rightarrow> ret ()
        | None \<Rightarrow>
            bind_run (write_file (PoolFile (seg_file_name (hash_chunk blake3 body) @ ''.tmp'')) body) (\<lambda>_.
            bind_run (append_file (PoolFile (seg_file_name (hash_chunk blake3 body) @ ''.tmp'')) (hash_chunk blake3 body)) (\<lambda>_.
            rename_file (PoolFile (seg_file_name (hash_chunk blake3 body) @ ''.tmp'')) (PoolFile (seg_file_name (hash_chunk blake3 body))))))
       (\<lambda>_. ret (root_entry blake3 kind records body)) d"
  by (simp add: write_segment_def assms bind_run_def ask_def Let_def)

text \<open>A segment is in the pool after it was written, whether or not it was there before.\<close>

lemma segment_goes:
  assumes "P d" "hash_ok blake3" "inj_on blake3 U" "bodies_in U E" "good_entries es" "set es \<subseteq> E"
  shows "\<exists>rs d'. goes P (write_segment blake3 kind (hex_records es)) d rs d' \<and> P d' \<and> quiet d d'
    \<and> desc_stored blake3 d' (rs, kind, es)"
proof -
  obtain body where body: "segment_body kind (hex_records es) = Inr body"
    using segment_opens [OF assms(2), of es kind] assms(5) by (auto simp: good_entries_def)
  have U: "body \<in> U" using assms(4-6) body by (auto simp: bodies_in_def)
  define seal where "seal = hash_chunk blake3 body"
  define nm where "nm = seg_file_name seal"
  define rs where "rs = root_entry blake3 kind (hex_records es) body"
  have rs: "rs_file rs = nm" by (simp add: rs_def root_entry_def nm_def seal_def)
  have stored: "desc_stored blake3 d' (rs, kind, es)" if "get_file d' (PoolFile nm) = Some (body @ seal)" for d'
    using that assms(5) body rs by (simp add: desc_stored_def rs_def seal_def)
  let ?tmp = "PoolFile (nm @ ''.tmp'')"
  have seg: "segment_body kind (hex_records es) = Inr body" by (rule body)
  show ?thesis
  proof (cases "get_file d (PoolFile nm)")
    case (Some bs)
    have "ends_with nm ''.seg''" by (simp add: nm_def)
    then obtain body' where b: "body' \<in> U" "bs = body' @ hash_chunk blake3 body'" "nm = seg_file_name (hash_chunk blake3 body')"
      using P_pool [OF assms(1)] Some by (auto simp: pool_in_def)
    then have "blake3 body' = blake3 body"
      by (simp add: nm_def seg_file_name_def seal_def hash_chunk_def to_hex_eq)
    then have "body' = body" using assms(3) U b(1) by (auto simp: inj_on_def)
    then have "desc_stored blake3 d (rs, kind, es)" using stored [of d] Some b(2) by (simp add: seal_def)
    moreover have "goes P (write_segment blake3 kind (hex_records es)) d rs d"
      using Some by (simp add: goes_def write_segment_eq [OF body] nm_def seal_def rs_def bind_run_def ret_def)
    ultimately show ?thesis using assms(1) by (intro exI [of _ rs] exI [of _ d]) simp
  next
    case None
    define d1 where "d1 = put_file ?tmp [] d"
    define d2 where "d2 = put_file ?tmp body d1"
    define d3 where "d3 = put_file ?tmp (body @ seal) d2"
    define d4 where "d4 = drop_file ?tmp d3"
    define d5 where "d5 = put_file (PoolFile nm) (body @ seal) d4"
    have tmp: "\<not> rests_on g ?tmp" by simp
    have P1: "P d1" "P d2" "P d3" "P d4"
      unfolding d1_def d2_def d3_def d4_def by (intro P_put P_drop tmp assms(1))+
    have "get_file d4 (PoolFile nm) = None" using None by (simp add: d4_def d3_def d2_def d1_def)
    then have P5: "P d5" unfolding d5_def nm_def seal_def by (intro P_seg P1(4) U)
    have get2: "get_file d2 ?tmp = Some body" and get3: "get_file d3 ?tmp = Some (body @ seal)"
      by (simp_all add: d2_def d3_def)
    have wr: "goes P (write_file ?tmp body) d () d2"
      unfolding d2_def d1_def by (rule goes_write) (use P1(1,2) in \<open>simp_all add: d1_def d2_def\<close>)
    have app: "goes P (append_file ?tmp seal) d2 () d3"
      using goes_append [of P ?tmp d2 seal] P1(3) get2 by (simp add: d3_def)
    have ren: "goes P (rename_file ?tmp (PoolFile nm)) d3 () d5"
      using goes_rename [OF get3, of P "PoolFile nm"] P5 by (simp add: d5_def d4_def)
    have "goes P (write_segment blake3 kind (hex_records es)) d rs d5"
    proof -
      have run: "goes P (bind_run (bind_run (write_file ?tmp body) (\<lambda>_. bind_run (append_file ?tmp seal)
          (\<lambda>_. rename_file ?tmp (PoolFile nm)))) (\<lambda>_. ret rs)) d rs d5"
        by (rule goes_bind, rule goes_bind, rule wr, rule goes_bind, rule app, rule ren, rule goes_ret)
      have absent: "get_file d (PoolFile (seg_file_name (hash_chunk blake3 body))) = None"
        using None by (simp only: nm_def seal_def)
      show ?thesis
        using run unfolding goes_def write_segment_eq [OF body] absent option.case nm_def seal_def rs_def .
    qed
    moreover have "quiet d d5"
      using None by (auto simp: quiet_def pool_grows_def d5_def d4_def d3_def d2_def d1_def)
    moreover have "desc_stored blake3 d5 (rs, kind, es)" by (rule stored) (simp add: d5_def)
    ultimately show ?thesis using P5 by blast
  qed
qed

text \<open>The batches cover the entries they were given, in order.\<close>

lemma batches_goes:
  assumes "P d" "hash_ok blake3" "inj_on blake3 U" "bodies_in U E" "0 < limit" "limit < 2 ^ 31"
    and "list_all valid_entry (bes @ live_entries xs)" "sorted_wrt (<) (map fst (bes @ live_entries xs))"
    and "set (bes @ live_entries xs) \<subseteq> E" "length bes < limit"
  shows "\<exists>descs d'. goes P (write_batches blake3 limit (hex_records bes) (hex_live xs)) d (map fst descs) d' \<and> P d' \<and> quiet d d'
    \<and> (\<forall>x \<in> set descs. desc_stored blake3 d' x \<and> fst (snd x) = BaseSeg)
    \<and> concat (map (\<lambda>x. snd (snd x)) descs) = bes @ live_entries xs"
  using assms(1,7-10)
proof (induction xs arbitrary: bes d)
  case Nil
  show ?case
  proof (cases "bes = []")
    case True
    have "goes P (write_batches blake3 limit (hex_records bes) (hex_live [])) d (map fst ([] :: seg_desc list)) d"
      using True by (simp add: live_entry_simps goes_ret)
    then show ?thesis using True Nil.prems(1) by (intro exI [of _ "[]"] exI [of _ d]) (simp add: live_entry_simps)
  next
    case False
    have good: "good_entries bes"
      using False Nil.prems assms(6) by (simp add: good_entries_def live_entry_simps)
    have "set bes \<subseteq> E" using Nil.prems(4) by simp
    from segment_goes [OF Nil.prems(1) assms(2-4) good this, of BaseSeg] obtain rs d' where
      d': "goes P (write_segment blake3 BaseSeg (hex_records bes)) d rs d'" "P d'" "quiet d d'"
        "desc_stored blake3 d' (rs, BaseSeg, bes)" by blast
    have ne: "hex_records bes \<noteq> []" using False by (cases bes) auto
    have "goes P (bind_run (write_segment blake3 BaseSeg (hex_records bes)) (\<lambda>rs. ret [rs])) d [rs] d'"
      by (rule goes_bind, rule d'(1), rule goes_ret)
    then have "goes P (write_batches blake3 limit (hex_records bes) (hex_live [])) d [rs] d'"
      using ne by (simp add: live_entry_simps)
    then show ?thesis using d'(2-4)
      by (intro exI [of _ "[(rs, BaseSeg, bes)]"] exI [of _ d']) (simp add: live_entry_simps)
  qed
next
  case (Cons x xs)
  obtain h info where x: "x = (h, info)" by fastforce
  let ?b = "bes @ [(h, Some info)]"
  have hb: "hex_records bes @ [(to_hex h, Some info)] = hex_records ?b" by (simp add: hex_records_def)
  have split: "bes @ live_entries (x # xs) = ?b @ live_entries xs" by (simp add: x live_entry_simps)
  have prems: "list_all valid_entry (?b @ live_entries xs)" "sorted_wrt (<) (map fst (?b @ live_entries xs))"
      "set (?b @ live_entries xs) \<subseteq> E"
    using Cons.prems(2-4) unfolding split by simp_all
  show ?case
  proof (cases "limit \<le> length ?b")
    case True
    have good: "good_entries ?b"
      using prems Cons.prems(5) assms(6) by (auto simp: good_entries_def sorted_wrt_append)
    have "set ?b \<subseteq> E" using prems(3) by auto
    from segment_goes [OF Cons.prems(1) assms(2-4) good this, of BaseSeg] obtain rs d1 where
      d1: "goes P (write_segment blake3 BaseSeg (hex_records ?b)) d rs d1" "P d1" "quiet d d1"
        "desc_stored blake3 d1 (rs, BaseSeg, ?b)" by blast
    have rest: "list_all valid_entry ([] @ live_entries xs)" "sorted_wrt (<) (map fst ([] @ live_entries xs))"
        "set ([] @ live_entries xs) \<subseteq> E" "length ([] :: seg_entry list) < limit"
      using prems assms(5) by (auto simp: sorted_wrt_append)
    from Cons.IH [OF d1(2) rest] obtain descs d' where
      d': "goes P (write_batches blake3 limit (hex_records []) (hex_live xs)) d1 (map fst descs) d'" "P d'" "quiet d1 d'"
        "\<forall>x \<in> set descs. desc_stored blake3 d' x \<and> fst (snd x) = BaseSeg"
        "concat (map (\<lambda>x. snd (snd x)) descs) = [] @ live_entries xs" by blast
    have "goes P (bind_run (write_segment blake3 BaseSeg (hex_records ?b)) (\<lambda>rs.
        bind_run (write_batches blake3 limit [] (hex_live xs)) (\<lambda>rss. ret (rs # rss)))) d (rs # map fst descs) d'"
      by (rule goes_bind, rule d1(1), rule goes_bind, rule d'(1) [simplified], rule goes_ret)
    then have run: "goes P (write_batches blake3 limit (hex_records bes) (hex_live (x # xs))) d (map fst ((rs, BaseSeg, ?b) # descs)) d'"
      using True by (simp add: x live_entry_simps hb Let_def)
    have "desc_stored blake3 d' (rs, BaseSeg, ?b)"
      using d1(4) d'(3) by (auto simp: quiet_def intro: desc_stored_mono)
    then show ?thesis using run d'(2,4,5) quiet_trans [OF d1(3) d'(3)] unfolding split
      by (intro exI [of _ "(rs, BaseSeg, ?b) # descs"] exI [of _ d']) simp
  next
    case False
    then have "length ?b < limit" by simp
    from Cons.IH [OF Cons.prems(1) prems this] show ?thesis
      using False unfolding split by (simp add: x live_entry_simps hb Let_def)
  qed
qed

text \<open>
  Publishing a generation: until the swap the invariant holds, from the swap on the new ledger does.
\<close>

lemma publish_goes:
  assumes "P d" "lib_ok lib" "h \<noteq> g" "assets_ok lib assets" "\<forall>x \<in> set descs. desc_stored blake3 d x"
    and "gen_name h \<in> set (id_gens d)"
  shows "\<exists>d'. goes (\<lambda>s. P s \<or> ledger lib blake3 U h layout descs assets s)
      (publish_generation lib blake3 h layout (map fst descs) assets) d () d'
    \<and> ledger lib blake3 U h layout descs assets d' \<and> id_gens d' = id_gens d"
proof -
  let ?L = "ledger lib blake3 U h layout descs assets" and ?f = "GenFile (gen_name h)"
  let ?Q = "\<lambda>s. P s \<or> ?L s"
  let ?root = "\<lparr>rb_version = 1, rb_generation = h, rb_layout = layout, rb_segments = map fst descs\<rparr>"
  obtain bs where bs: "compress lib (assets_to_vec lib assets) = Some bs" using assms(4) by (auto simp: assets_ok_def)
  define a1 where "a1 = put_file (?f ''assets.json.zst.tmp'') [] d"
  define a2 where "a2 = put_file (?f ''assets.json.zst.tmp'') bs a1"
  define a3 where "a3 = put_file (?f ''assets.json.zst'') bs (drop_file (?f ''assets.json.zst.tmp'') a2)"
  define r1 where "r1 = put_file (?f ''root.idx.tmp'') [] a3"
  define r2 where "r2 = put_file (?f ''root.idx.tmp'') (root_bytes lib blake3 ?root) r1"
  define r3 where "r3 = put_file (?f ''root.idx'') (root_bytes lib blake3 ?root) (drop_file (?f ''root.idx.tmp'') r2)"
  define c1 where "c1 = put_file CurrentTmp [] r3"
  define c2 where "c2 = put_file CurrentTmp (current_text h) c1"
  define c3 where "c3 = put_file CurrentFile (current_text h) (drop_file CurrentTmp c2)"
  note defs = a1_def a2_def a3_def r1_def r2_def r3_def c1_def c2_def c3_def
  have nr: "\<not> rests_on g (?f n)" "\<not> rests_on g CurrentTmp" for n using assms(3) by simp_all
  have P: "P a1" "P a2" "P a3" "P r1" "P r2" "P r3" "P c1" "P c2"
    unfolding defs by (intro P_put P_drop nr assms(1))+
  have seg: "get_file c3 (PoolFile n) = get_file d (PoolFile n)" for n by (simp add: defs)
  have L: "?L c3"
  proof -
    have "pool_grows d c3" by (simp add: pool_grows_def seg)
    then have "\<forall>x \<in> set descs. desc_stored blake3 c3 x" using assms(5) desc_stored_mono by blast
    moreover have "pool_in blake3 U c3" using P_pool [OF assms(1)] by (simp add: pool_in_def seg)
    moreover have "id_gens c3 = id_gens d" by (simp add: defs)
    ultimately show ?thesis
      using assms(4,6) bs by (simp add: ledger_def gen_files_def) (simp add: defs)
  qed
  have assets: "goes ?Q (write_assets lib (gen_name h) assets) d () a3"
    unfolding write_assets_def
  proof (rule goes_bind, rule goes_ask)
    show "ok_or (IndexCorrupt ''compressing assets'') (compress lib (assets_to_vec lib assets)) = Inr bs" by (simp add: bs)
    have 1: "goes ?Q (write_file (?f ''assets.json.zst.tmp'') bs) d () a2"
      by (rule goes_writeI [OF a1_def a2_def], rule disjI1 [OF P(1)], rule disjI1 [OF P(2)])
    have 2: "goes ?Q (rename_file (?f ''assets.json.zst.tmp'') (?f ''assets.json.zst'')) a2 () a3"
      by (rule goes_renameI [OF a3_def], simp add: a2_def, rule disjI1 [OF P(3)])
    show "goes ?Q (bind_run (write_file (?f ''assets.json.zst.tmp'') bs)
        (\<lambda>_. rename_file (?f ''assets.json.zst.tmp'') (?f ''assets.json.zst''))) d () a3"
      by (rule goes_bind, rule 1, rule 2)
  qed
  have root: "goes ?Q (write_seg_root lib blake3 (gen_name h) ?root) a3 () r3"
    unfolding write_seg_root_def Let_def root_bytes_def [symmetric]
  proof (rule goes_bind)
    show "goes ?Q (write_file (?f ''root.idx.tmp'') (root_bytes lib blake3 ?root)) a3 () r2"
      by (rule goes_writeI [OF r1_def r2_def], rule disjI1 [OF P(4)], rule disjI1 [OF P(5)])
    show "goes ?Q (rename_file (?f ''root.idx.tmp'') (?f ''root.idx'')) r2 () r3"
      by (rule goes_renameI [OF r3_def], simp add: r2_def, rule disjI1 [OF P(6)])
  qed
  have swap: "goes ?Q (swap_current h) r3 () c3"
    unfolding swap_current_def current_text_def [symmetric]
  proof (rule goes_bind)
    show "goes ?Q (write_file CurrentTmp (current_text h)) r3 () c2"
      by (rule goes_writeI [OF c1_def c2_def], rule disjI1 [OF P(7)], rule disjI1 [OF P(8)])
    show "goes ?Q (rename_file CurrentTmp CurrentFile) c2 () c3"
      by (rule goes_renameI [OF c3_def], simp add: c2_def, rule disjI2 [OF L])
  qed
  define d' where "d' = put_file WalLog ((case get_file c3 WalLog of None \<Rightarrow> [] | Some old \<Rightarrow> old)
      @ ascii (''{'' @ [CHR 0x22] @ ''op'' @ [CHR 0x22] @ '':'' @ [CHR 0x22] @ ''commit'' @ [CHR 0x22] @ '',''
       @ [CHR 0x22] @ ''gen'' @ [CHR 0x22] @ '':'' @ decimal (unat h) @ ''}'' @ [CHR 0x0a])) c3"
  have L': "?L d'" unfolding d'_def by (rule ledger_put(1) [OF L]) simp
  have wal: "goes ?Q (wal_append ''commit'' h) c3 () d'"
    unfolding wal_append_def d'_def by (rule goes_append) (rule disjI2 [OF L' [unfolded d'_def]])
  have "goes ?Q (publish_generation lib blake3 h layout (map fst descs) assets) d () d'"
    unfolding publish_generation_def
    by (rule goes_bind, rule assets, rule goes_bind, rule root, rule goes_bind, rule swap, rule wal)
  moreover have "id_gens d' = id_gens d" by (simp add: d'_def defs)
  ultimately show ?thesis using L' by blast
qed

end

section \<open>The two invariants\<close>

lemma ledger_add_segment:
  assumes "ledger lib blake3 U g layout descs assets d" "body \<in> U"
    and "get_file d (PoolFile (seg_file_name (hash_chunk blake3 body))) = None"
  shows "ledger lib blake3 U g layout descs assets
    (put_file (PoolFile (seg_file_name (hash_chunk blake3 body))) (body @ hash_chunk blake3 body) d)"
    (is "ledger _ _ _ _ _ _ _ ?d")
proof -
  have "pool_grows d ?d" using assms(3) by (auto simp: pool_grows_def)
  moreover have "pool_in blake3 U ?d" using assms(1,2) by (auto simp: ledger_def pool_in_def)
  ultimately show ?thesis
    using assms(1) gen_files_mono [of lib blake3 d g layout descs assets ?d]
    by (auto simp: ledger_def gen_files_def)
qed

interpretation kept: disk_invariant "ledger lib blake3 U g layout descs assets" g blake3 U
  for lib :: "'v ledger_lib" and blake3 U g layout descs assets
proof unfold_locales
  fix d n assume "ledger lib blake3 U g layout descs assets d"
  then show "ledger lib blake3 U g layout descs assets (d\<lparr>id_gens := List.insert n (id_gens d)\<rparr>)"
    by (rule ledger_gens) (use \<open>ledger lib blake3 U g layout descs assets d\<close> in \<open>simp add: ledger_def gen_files_def\<close>)
next
  fix d assume "ledger lib blake3 U g layout descs assets d"
  then show "pool_in blake3 U d" by (simp add: ledger_def)
qed (auto intro: ledger_put ledger_add_segment)

interpretation fresh: disk_invariant "pool_in blake3 U" g blake3 U for blake3 U g
  by unfold_locales (auto intro: pool_in_put, auto simp: pool_in_def)

end
