(* ===== verification/Ledger_Ops.thy ===== *)
theory Ledger_Ops
  imports Ledger_Writes
begin

text \<open>
  The operations on a directory that holds a ledger: opening finds it, pruning keeps it, compacting
  keeps its view, and a commit replaces the view by the old one overridden with the session's
  records.  Every directory on the way holds the old ledger or the new one.
\<close>

section \<open>Sweeping and removing\<close>

lemma drop_files_goes:
  assumes "Q d" "\<And>d p. Q d \<Longrightarrow> p \<in> set ps \<Longrightarrow> Q (drop_file p d)"
  shows "\<exists>d'. goes Q (drop_files ps) d () d' \<and> Q d' \<and> id_gens d' = id_gens d"
  using assms
proof (induction ps arbitrary: d)
  case Nil
  then show ?case by (auto intro: goes_ret)
next
  case (Cons p ps)
  have Q: "Q (drop_file p d)" using Cons.prems by simp
  from Cons.IH [OF this Cons.prems(2)] obtain d' where
    d': "goes Q (drop_files ps) (drop_file p d) () d'" "Q d'" "id_gens d' = id_gens d" by auto
  have "goes Q (drop_files (p # ps)) d () d'"
    unfolding drop_files.simps by (rule goes_bind, rule goes_act, rule Q, rule d'(1))
  then show ?case using d'(2,3) by blast
qed

lemma remove_gen_goes:
  assumes "ledger lib blake3 U g layout descs assets d" "n \<noteq> gen_name g"
  shows "\<exists>d'. goes (ledger lib blake3 U g layout descs assets) (remove_gen n) d () d'
    \<and> ledger lib blake3 U g layout descs assets d' \<and> id_gens d' = removeAll n (id_gens d)"
proof -
  let ?L = "ledger lib blake3 U g layout descs assets"
  define ps where "ps = filter (in_gen n) (map fst (id_files d))"
  have "\<not> rests_on g p" if "p \<in> set ps" for p
  proof -
    have "in_gen n p" using that unfolding ps_def by simp
    then show ?thesis using assms(2) by (cases p) auto
  qed
  then obtain d1 where d1: "goes ?L (drop_files ps) d () d1" "?L d1" "id_gens d1 = id_gens d"
    using drop_files_goes [of ?L d ps] assms(1) ledger_put(2) by blast
  let ?d = "d1\<lparr>id_gens := removeAll n (id_gens d1)\<rparr>"
  have "gen_name g \<in> set (id_gens d1)" using d1(2) by (simp add: ledger_def gen_files_def)
  then have L: "?L ?d" using ledger_gens [OF d1(2)] assms(2) by simp
  have "goes ?L (remove_gen n) d () ?d"
    unfolding remove_gen_def
    by (rule goes_bind, rule goes_ask, rule refl, rule goes_bind, simp only: ps_def [symmetric], rule d1(1), rule goes_act, rule L)
  then show ?thesis using L d1(3) by (intro exI [of _ ?d]) simp
qed

definition gens_upto :: "u64 \<Rightarrow> string list \<Rightarrow> bool" where
  "gens_upto g ns \<longleftrightarrow> (\<forall>n \<in> set ns. \<forall>h. gen_number n = Some h \<longrightarrow> h \<le> g)"

lemma sweep_goes:
  assumes "ledger lib blake3 U g layout descs assets d"
  shows "\<exists>d'. goes (ledger lib blake3 U g layout descs assets) (sweep_gens g ns) d () d'
    \<and> ledger lib blake3 U g layout descs assets d'
    \<and> set (id_gens d') = set (id_gens d) - {n \<in> set ns. \<exists>h. gen_number n = Some h \<and> g < h}"
  using assms
proof (induction ns arbitrary: d)
  case Nil
  then show ?case by (auto intro: goes_ret)
next
  case (Cons n ns)
  let ?L = "ledger lib blake3 U g layout descs assets"
  let ?m = "case gen_number n of Some gen \<Rightarrow> if g < gen then remove_gen n else ret () | None \<Rightarrow> ret ()"
  have "\<exists>d1. goes ?L ?m d () d1 \<and> ?L d1
      \<and> set (id_gens d1) = set (id_gens d) - {x. x = n \<and> (\<exists>h. gen_number n = Some h \<and> g < h)}"
  proof (cases "\<exists>h. gen_number n = Some h \<and> g < h")
    case True
    then have "n \<noteq> gen_name g" by auto
    from remove_gen_goes [OF Cons.prems this] show ?thesis using True by (auto)
  next
    case False
    then have "?m = ret ()" by (auto split: option.splits)
    then show ?thesis using False Cons.prems goes_ret [of ?L "()" d] by (intro exI [of _ d]) auto
  qed
  then obtain d1 where d1: "goes ?L ?m d () d1" "?L d1"
      "set (id_gens d1) = set (id_gens d) - {x. x = n \<and> (\<exists>h. gen_number n = Some h \<and> g < h)}" by blast
  from Cons.IH [OF d1(2)] obtain d' where
    d': "goes ?L (sweep_gens g ns) d1 () d'" "?L d'"
      "set (id_gens d') = set (id_gens d1) - {n \<in> set ns. \<exists>h. gen_number n = Some h \<and> g < h}" by blast
  have "goes ?L (sweep_gens g (n # ns)) d () d'"
    unfolding sweep_gens.simps by (rule goes_bind, rule d1(1), rule d'(1))
  then show ?case using d'(2,3) d1(3) by (intro exI [of _ d']) auto
qed

section \<open>Opening\<close>

text \<open>The entries of a ledger's segments, the newest segment first, and the map they show.\<close>

definition newest_first :: "seg_desc list \<Rightarrow> seg_entry list list" where
  "newest_first descs = rev (map (\<lambda>x. snd (snd x)) (filter (\<lambda>x. fst (snd x) = DeltaSeg) descs))
     @ map (\<lambda>x. snd (snd x)) (filter (\<lambda>x. fst (snd x) = BaseSeg) descs)"

definition view_of :: "seg_desc list \<Rightarrow> chunk_hash \<Rightarrow> chunk_info option" where
  "view_of descs = live_map (concat (newest_first descs))"

definition handle_ok :: "seg_index \<Rightarrow> u64 \<Rightarrow> store_layout \<Rightarrow> seg_desc list \<Rightarrow> bool" where
  "handle_ok idx g layout descs \<longleftrightarrow> si_generation idx = g \<and> si_layout idx = layout
     \<and> list_all2 seg_holds (si_segments idx) (newest_first descs)"

lemma open_segments_ok:
  assumes "hash_ok blake3" "\<forall>x \<in> set descs. desc_stored blake3 d x"
  shows "\<exists>segs. open_segments (map fst descs) d = Inr segs
    \<and> list_all2 (\<lambda>s x. seg_holds s (snd (snd x)) \<and> sg_kind s = fst (snd x)) segs descs"
  using assms(2)
proof (induction descs)
  case Nil
  then show ?case by simp
next
  case (Cons x descs)
  obtain rs kind es where x: "x = (rs, kind, es)" by (cases x)
  obtain body where body: "good_entries es" "segment_body kind (hex_records es) = Inr body"
    "rs = root_entry blake3 kind (hex_records es) body"
    "get_file d (PoolFile (rs_file rs)) = Some (body @ hash_chunk blake3 body)"
    using Cons.prems by (auto simp: desc_stored_def x)
  obtain s where "open_segment rs (body @ hash_chunk blake3 body) = Inr s" "seg_holds s es" "sg_kind s = kind"
    using segment_opens [OF assms(1), of es kind] body by (auto simp: good_entries_def)
  moreover obtain segs where "open_segments (map fst descs) d = Inr segs"
    "list_all2 (\<lambda>s x. seg_holds s (snd (snd x)) \<and> sg_kind s = fst (snd x)) segs descs"
    using Cons.IH Cons.prems by auto
  ultimately show ?case using body(4) by (simp add: x)
qed

lemma by_kind:
  assumes "list_all2 (\<lambda>s x. seg_holds s (snd (snd x)) \<and> sg_kind s = fst (snd x)) segs descs"
  shows "list_all2 seg_holds (filter (\<lambda>s. sg_kind s = k) segs) (map (\<lambda>x. snd (snd x)) (filter (\<lambda>x. fst (snd x) = k) descs))"
  using assms by (induction rule: list_all2_induct) auto

lemma read_generation_ok:
  assumes "lib_ok lib" "hash_ok blake3" "ledger lib blake3 U g layout descs assets d"
  shows "\<exists>idx. read_generation lib blake3 g d = Inr (idx, assets) \<and> handle_ok idx g layout descs"
proof -
  let ?root = "\<lparr>rb_version = 1, rb_generation = g, rb_layout = layout, rb_segments = map fst descs\<rparr>"
  have g: "gen_files lib blake3 d g layout descs assets" using assms(3) by (simp add: ledger_def)
  then obtain segs where segs: "open_segments (map fst descs) d = Inr segs"
    "list_all2 (\<lambda>s x. seg_holds s (snd (snd x)) \<and> sg_kind s = fst (snd x)) segs descs"
    using open_segments_ok [OF assms(2)] unfolding gen_files_def by blast
  have root: "read_seg_root lib blake3 (gen_name g) d = Inr ?root"
    using g parse_root_bytes [OF assms(1), of ?root] by (simp add: read_seg_root_def gen_files_def)
  have table: "read_assets lib (gen_name g) d = Inr assets"
    using g assms(1) by (auto simp: read_assets_def gen_files_def assets_ok_def lib_ok_def)
  let ?idx = "\<lparr>si_generation = g, si_layout = layout,
      si_segments = rev (filter (\<lambda>s. sg_kind s = DeltaSeg) segs) @ filter (\<lambda>s. sg_kind s = BaseSeg) segs\<rparr>"
  have "read_generation lib blake3 g d = Inr (?idx, assets)"
    by (simp add: read_generation_def root segs(1) table)
  moreover have "handle_ok ?idx g layout descs"
    using by_kind [OF segs(2)] by (simp add: handle_ok_def newest_first_def list_all2_appendI list_all2_rev)
  ultimately show ?thesis by blast
qed

theorem open_goes:
  assumes "lib_ok lib" "hash_ok blake3" "ledger lib blake3 U g layout descs assets d"
  shows "\<exists>idx d'. goes (ledger lib blake3 U g layout descs assets) (open_index lib blake3) d (idx, assets) d'
    \<and> ledger lib blake3 U g layout descs assets d' \<and> handle_ok idx g layout descs \<and> gens_upto g (id_gens d')"
proof -
  let ?L = "ledger lib blake3 U g layout descs assets"
  have cur: "current_generation d = Inr g"
    using assms(3) current_text_ok [of g] by (simp add: current_generation_def ledger_def)
  from sweep_goes [OF assms(3), of "id_gens d"] obtain d' where
    d': "goes ?L (sweep_gens g (id_gens d)) d () d'" "?L d'"
      "set (id_gens d') = set (id_gens d) - {n \<in> set (id_gens d). \<exists>h. gen_number n = Some h \<and> g < h}" by blast
  from read_generation_ok [OF assms(1,2) d'(2)] obtain idx where
    idx: "read_generation lib blake3 g d' = Inr (idx, assets)" "handle_ok idx g layout descs" by blast
  have "goes ?L (open_index lib blake3) d (idx, assets) d'"
    unfolding open_index_def
    by (rule goes_bind, rule goes_ask, rule cur, rule goes_bind, rule goes_ask, rule refl,
        rule goes_bind, rule d'(1), rule goes_ask, rule idx(1))
  moreover have "gens_upto g (id_gens d')" using d'(3) by (auto simp: gens_upto_def not_less)
  ultimately show ?thesis using d'(2) idx(2) by blast
qed

text \<open>What a handle answers.\<close>

lemma first_hit_ok:
  assumes "list_all2 seg_holds segs ess"
  shows "first_hit segs hash = Inr (live_map (concat ess) hash)"
  using assms
proof (induction rule: list_all2_induct)
  case Nil
  then show ?case by (simp add: live_map_def)
next
  case (Cons s segs es ess)
  then show ?case
    by (cases "map_of es hash") (auto simp: seg_lookup_correct live_map_def map_add_def split: option.splits)
qed

theorem index_lookup_ok:
  assumes "handle_ok idx g layout descs" "length h = 32"
  shows "index_lookup idx (to_hex h) = Inr (view_of descs h)"
  using assms first_hit_ok by (simp add: index_lookup_def handle_ok_def view_of_def)

theorem live_records_ok:
  assumes "handle_ok idx g layout descs"
  shows "\<exists>xs. live_records idx = Inr (hex_live xs) \<and> sorted_wrt (<) (map fst xs) \<and> map_of xs = view_of descs"
  using iter_live_ok [of "si_segments idx" "newest_first descs"] assms
  by (auto simp: live_records_def handle_ok_def view_of_def hex_live_def)

end
