(* ===== verification/Chunk_Table.thy ===== *)
theory Chunk_Table
  imports Store_Chunks Ledger_Ops Index_Laws
begin

text \<open>
  The interface between a store's logic and the representation of its ledger
  (\<^verbatim>\<open>core/cavs-store/src/global.rs\<close>, the accessors every other operation goes through).
  The contract is that of a finite map from chunk hashes to entries that can be listed in order.
  Both representations keep it: the sorted map in memory, and the segmented index under its overlay.
\<close>

section \<open>What a table operation leaves alone\<close>

definition outside :: "global_store \<Rightarrow> global_store" where
  "outside s = s\<lparr>gs_index := (gs_index s)\<lparr>ix_chunks := []\<rparr>, gs_seg := map_option (\<lambda>seg. seg\<lparr>ss_overlay := []\<rparr>) (gs_seg s),
     gs_dirty_chunks := []\<rparr>"

lemma outsideD:
  assumes "outside s = outside s'"
  shows "gs_disk s = gs_disk s'" "gs_open_pack s = gs_open_pack s'" "gs_parts s = gs_parts s'"
    "gs_pack_size s = gs_pack_size s'" "gs_batch s = gs_batch s'" "gs_dirty_assets s = gs_dirty_assets s'"
    "gs_pending s = gs_pending s'" "gs_read_only s = gs_read_only s'"
    "gs_seg s = None \<longleftrightarrow> gs_seg s' = None"
    "ix_assets (gs_index s) = ix_assets (gs_index s')" "ix_records (gs_index s) = ix_records (gs_index s')"
    "ix_layout (gs_index s) = ix_layout (gs_index s')" "ix_generation (gs_index s) = ix_generation (gs_index s')"
    "gs_journal_bytes s = gs_journal_bytes s'" "gs_snapshot_bytes s = gs_snapshot_bytes s'"
    "gs_journal_budget s = gs_journal_budget s'" "gs_snapshot_id s = gs_snapshot_id s'"
proof -
  from arg_cong [OF assms, of gs_index] arg_cong [OF assms, of gs_seg]
  show "ix_assets (gs_index s) = ix_assets (gs_index s')" "ix_records (gs_index s) = ix_records (gs_index s')"
    "ix_layout (gs_index s) = ix_layout (gs_index s')" "ix_generation (gs_index s) = ix_generation (gs_index s')"
    "gs_seg s = None \<longleftrightarrow> gs_seg s' = None"
    by (auto simp: outside_def dest: arg_cong [where f = ix_assets] arg_cong [where f = ix_records]
        arg_cong [where f = ix_layout] arg_cong [where f = ix_generation])
qed (use assms in \<open>auto simp: outside_def dest: arg_cong [where f = gs_disk] arg_cong [where f = gs_open_pack]
      arg_cong [where f = gs_parts] arg_cong [where f = gs_pack_size] arg_cong [where f = gs_batch]
      arg_cong [where f = gs_dirty_assets] arg_cong [where f = gs_pending] arg_cong [where f = gs_read_only]
      arg_cong [where f = gs_journal_bytes] arg_cong [where f = gs_snapshot_bytes]
      arg_cong [where f = gs_journal_budget] arg_cong [where f = gs_snapshot_id]\<close>)

lemma outside_set_overlay: "gs_seg s = Some seg \<Longrightarrow> outside (set_overlay hex e seg s) = outside s"
  by (simp add: outside_def set_overlay_def)

lemma outside_set_chunk: "outside (set_chunk hex info s) = outside s"
  by (simp add: outside_def set_chunk_def)

section \<open>The contract\<close>

locale chunk_table =
  fixes ok :: "global_store \<Rightarrow> bool"
    and view :: "global_store \<Rightarrow> string \<Rightarrow> chunk_info option"
  assumes view_hex: "ok s \<Longrightarrow> view s hex \<noteq> None \<Longrightarrow> hex_of_hash hex"
    and get_view: "ok s \<Longrightarrow> hex_of_hash hex \<Longrightarrow> chunk_get hex s = Inr (view s hex)"
    and contains_view: "ok s \<Longrightarrow> hex_of_hash hex \<Longrightarrow> chunk_contains hex s = Inr (view s hex \<noteq> None)"
    and insert_view: "ok s \<Longrightarrow> hex_of_hash hex \<Longrightarrow> ok (chunk_insert hex info s)
          \<and> view (chunk_insert hex info s) = (view s)(hex \<mapsto> info) \<and> outside (chunk_insert hex info s) = outside s"
    and remove_view: "ok s \<Longrightarrow> hex_of_hash hex \<Longrightarrow> \<exists>s'. chunk_remove hex s = (Inr (view s hex), s', [])
          \<and> ok s' \<and> view s' = (view s)(hex := None) \<and> outside s' = outside s"
    and update_view: "ok s \<Longrightarrow> hex_of_hash hex \<Longrightarrow> \<exists>s'. chunk_update hex f s = (Inr (view s hex \<noteq> None), s', [])
          \<and> ok s' \<and> view s' = (view s)(hex := map_option f (view s hex)) \<and> outside s' = outside s"
    and iter_view: "ok s \<Longrightarrow> \<exists>cs. chunks_iter s = Inr cs \<and> bt_ok cs \<and> map_of cs = view s"
    and frame_view: "gs_seg s' = gs_seg s \<Longrightarrow> ix_chunks (gs_index s') = ix_chunks (gs_index s) \<Longrightarrow> ok s
          \<Longrightarrow> ok s' \<and> view s' = view s"
begin

lemma iter_set:
  assumes "ok s" "chunks_iter s = Inr cs"
  shows "(hex, info) \<in> set cs \<longleftrightarrow> view s hex = Some info"
proof -
  from iter_view [OF assms(1)] assms(2) have "bt_ok cs" "map_of cs = view s" by auto
  then show ?thesis using bt_ok_in by metis
qed

lemma live_packs:
  assumes "ok s"
  shows "\<exists>live. live_pack_set s = Inr live \<and> set live = {p. \<exists>hex info. view s hex = Some info \<and> ci_pack info = Some p}"
proof -
  from iter_view [OF assms] obtain cs where cs: "chunks_iter s = Inr cs" by blast
  have "set (List.map_filter (\<lambda>(_, info). ci_pack info) cs) = {p. \<exists>hex info. view s hex = Some info \<and> ci_pack info = Some p}"
    using iter_set [OF assms cs] by (force simp: map_filter_def)
  then show ?thesis using cs by (simp add: live_pack_set_def)
qed

lemma len_view:
  assumes "ok s"
  shows "chunks_len s = Inr (card (dom (view s)))"
proof -
  from iter_view [OF assms] obtain cs where cs: "chunks_iter s = Inr cs" "bt_ok cs" "map_of cs = view s" by blast
  have "card (dom (map_of cs)) = length cs"
    using bt_ok_distinct [OF cs(2)] by (metis dom_map_of_conv_image_fst distinct_card length_map set_map)
  moreover have "chunks_len s = Inr (length cs)" using cs(1) by (auto simp: chunks_len_def chunks_iter_def split: option.splits)
  ultimately show ?thesis using cs(3) by simp
qed

end

section \<open>The sorted map in memory\<close>

definition mono_ok :: "global_store \<Rightarrow> bool" where
  "mono_ok s \<longleftrightarrow> gs_seg s = None \<and> bt_ok (ix_chunks (gs_index s))
     \<and> (\<forall>(hex, info) \<in> set (ix_chunks (gs_index s)). hex_of_hash hex)"

definition mono_view :: "global_store \<Rightarrow> string \<Rightarrow> chunk_info option" where
  "mono_view s = map_of (ix_chunks (gs_index s))"

interpretation mono: chunk_table mono_ok mono_view
proof
  fix s s' :: global_store and hex info f
  show "mono_ok s \<Longrightarrow> mono_view s hex \<noteq> None \<Longrightarrow> hex_of_hash hex"
    by (auto simp: mono_ok_def mono_view_def dest!: map_of_SomeD)
  show "mono_ok s \<Longrightarrow> hex_of_hash hex \<Longrightarrow> chunk_get hex s = Inr (mono_view s hex)"
    "mono_ok s \<Longrightarrow> hex_of_hash hex \<Longrightarrow> chunk_contains hex s = Inr (mono_view s hex \<noteq> None)"
    by (simp_all add: mono_ok_def mono_view_def chunk_get_def chunk_contains_def)
  have ins: "mono_ok (set_chunk hex info s) \<and> mono_view (set_chunk hex info s) = (mono_view s)(hex \<mapsto> info)"
    if "mono_ok s" "hex_of_hash hex" for s hex info
    using that set_insert_subset [of hex info "ix_chunks (gs_index s)"]
    by (auto simp: mono_ok_def mono_view_def set_chunk_def)
  then show "mono_ok s \<Longrightarrow> hex_of_hash hex \<Longrightarrow> mono_ok (chunk_insert hex info s)
      \<and> mono_view (chunk_insert hex info s) = (mono_view s)(hex \<mapsto> info) \<and> outside (chunk_insert hex info s) = outside s"
    by (simp add: mono_ok_def chunk_insert_def outside_set_chunk)
  show "mono_ok s \<Longrightarrow> hex_of_hash hex \<Longrightarrow> \<exists>s'. chunk_remove hex s = (Inr (mono_view s hex), s', [])
      \<and> mono_ok s' \<and> mono_view s' = (mono_view s)(hex := None) \<and> outside s' = outside s"
    by (auto simp: mono_ok_def mono_view_def chunk_remove_def set_remove outside_def split: option.splits)
  show "mono_ok s \<Longrightarrow> hex_of_hash hex \<Longrightarrow> \<exists>s'. chunk_update hex f s = (Inr (mono_view s hex \<noteq> None), s', [])
      \<and> mono_ok s' \<and> mono_view s' = (mono_view s)(hex := map_option f (mono_view s hex)) \<and> outside s' = outside s"
    using ins [of s hex] by (cases "mono_view s hex")
      (auto simp: mono_ok_def mono_view_def chunk_update_def outside_set_chunk)
  show "mono_ok s \<Longrightarrow> \<exists>cs. chunks_iter s = Inr cs \<and> bt_ok cs \<and> map_of cs = mono_view s"
    by (simp add: mono_ok_def mono_view_def chunks_iter_def)
  show "gs_seg s' = gs_seg s \<Longrightarrow> ix_chunks (gs_index s') = ix_chunks (gs_index s) \<Longrightarrow> mono_ok s \<Longrightarrow> mono_ok s' \<and> mono_view s' = mono_view s"
    by (simp add: mono_ok_def mono_view_def)
qed

section \<open>The segmented index under its overlay\<close>

definition seg_ok :: "global_store \<Rightarrow> bool" where
  "seg_ok s \<longleftrightarrow> (\<exists>seg g layout descs. gs_seg s = Some seg \<and> handle_ok (ss_index seg) g layout descs
     \<and> bt_ok (ss_overlay seg) \<and> (\<forall>(hex, e) \<in> set (ss_overlay seg). hex_of_hash hex))"

definition base_view :: "seg_index \<Rightarrow> string \<Rightarrow> chunk_info option" where
  "base_view idx hex = (if hex_of_hash hex then (case index_lookup idx hex of Inr found \<Rightarrow> found | Inl _ \<Rightarrow> None) else None)"

definition seg_view :: "global_store \<Rightarrow> string \<Rightarrow> chunk_info option" where
  "seg_view s hex =
     (case gs_seg s of
        None \<Rightarrow> None
      | Some seg \<Rightarrow> (case map_of (ss_overlay seg) hex of Some e \<Rightarrow> e | None \<Rightarrow> base_view (ss_index seg) hex))"

lemma base_lookup:
  assumes "handle_ok idx g layout descs" "hex_of_hash hex"
  shows "index_lookup idx hex = Inr (base_view idx hex)"
  using assms index_lookup_ok [OF assms(1)] by (auto simp: hex_of_hash_def base_view_def)

lemma live_entries_32:
  assumes "handle_ok idx g layout descs" "view_of descs h = Some info"
  shows "length h = 32"
proof -
  have "map_of (concat (newest_first descs)) h = Some (Some info)"
    using assms(2) by (auto simp: view_of_def live_map_def split: option.splits)
  then obtain es where es: "es \<in> set (newest_first descs)" "(h, Some info) \<in> set es" by (auto dest!: map_of_SomeD)
  then obtain i where "i < length (newest_first descs)" "newest_first descs ! i = es" by (auto simp: in_set_conv_nth)
  then have "seg_holds (si_segments idx ! i) es" using assms(1) by (auto simp: handle_ok_def list_all2_conv_all_nth)
  then show ?thesis using es(2) by (auto simp: seg_holds_def)
qed

lemma base_iter:
  assumes "handle_ok idx g layout descs"
  shows "\<exists>base. live_records idx = Inr base \<and> bt_ok base \<and> map_of base = base_view idx"
proof -
  from live_records_ok [OF assms] obtain xs where
    xs: "live_records idx = Inr (hex_live xs)" "sorted_wrt (<) (map fst xs)" "map_of xs = view_of descs" by blast
  have fst: "map fst (hex_live xs) = map to_hex (map fst xs)" by (induction xs) (auto simp: hex_live_def)
  have s: "bt_ok (hex_live xs)" using xs(2) by (simp add: bt_ok_def fst sorted_to_hex del: map_map)
  have "map_of (hex_live xs) hex = base_view idx hex" for hex
  proof (cases "hex_of_hash hex")
    case True
    then obtain h where h: "length h = 32" "hex = to_hex h" by (auto simp: hex_of_hash_def)
    have "map_of (hex_live xs) (to_hex h) = map_of xs h"
      by (induction xs) (auto simp: hex_live_def to_hex_eq)
    then show ?thesis using True index_lookup_ok [OF assms h(1)] h(2) xs(3) by (simp add: base_view_def)
  next
    case False
    have "hex \<notin> fst ` set (hex_live xs)"
    proof
      assume "hex \<in> fst ` set (hex_live xs)"
      then obtain h info where "(h, info) \<in> set xs" "hex = to_hex h" by (auto simp: hex_live_def)
      moreover have "distinct (map fst xs)" using xs(2) by (simp add: strict_sorted_iff)
      ultimately have "view_of descs h = Some info" using xs(3) by (metis map_of_eq_Some_iff)
      then show False using False live_entries_32 [OF assms] \<open>hex = to_hex h\<close> by (auto simp: hex_of_hash_def)
    qed
    then show ?thesis using False by (simp add: base_view_def map_of_eq_None_iff)
  qed
  then show ?thesis using xs(1) s by (auto simp: fun_eq_iff)
qed

lemma overlay_merge_keys: "fst ` set (overlay_merge base overlay) \<subseteq> fst ` set base \<union> fst ` set overlay"
  by (induction base overlay rule: overlay_merge.induct) ((simp split: option.split)?; blast)+

lemma overlay_merge_ok:
  assumes "bt_ok base" "bt_ok overlay"
  shows "bt_ok (overlay_merge base overlay)
    \<and> map_of (overlay_merge base overlay) hex = (case map_of overlay hex of Some e \<Rightarrow> e | None \<Rightarrow> map_of base hex)"
  using assms
proof (induction base overlay rule: overlay_merge.induct)
  case (2 b base)
  then show ?case using overlay_merge_keys [of base "[]"] by (cases b) fastforce
next
  case (3 oh entry overlay)
  have k: "\<forall>q \<in> set (overlay_merge [] overlay). oh < fst q"
    using 3 overlay_merge_keys [of "[]" overlay] by fastforce
  have "map_of overlay oh = None" using 3 by (auto simp: map_of_eq_None_iff)
  then show ?case using 3 k by (cases entry) (auto split: option.splits)
next
  case (4 bh bi base oh entry overlay)
  have o: "map_of overlay oh = None" and b: "map_of base bh = None" using 4 by (auto simp: map_of_eq_None_iff)
  consider "bh < oh" | "oh < bh" | "bh = oh" by (metis neqE)
  then show ?case
  proof cases
    case 1
    have "\<forall>q \<in> set (overlay_merge base ((oh, entry) # overlay)). bh < fst q"
      using 4 1 overlay_merge_keys [of base "(oh, entry) # overlay"] by fastforce
    moreover have "map_of overlay bh = None" using 4 1 by (auto simp: map_of_eq_None_iff)
    ultimately show ?thesis using 4 1 by (auto split: option.splits)
  next
    case 2
    then have nl: "\<not> bh < oh" by simp
    have "\<forall>q \<in> set (overlay_merge ((bh, bi) # base) overlay). oh < fst q"
      using 4 2 overlay_merge_keys [of "(bh, bi) # base" overlay] by fastforce
    moreover have "map_of base oh = None" using 4 2 by (auto simp: map_of_eq_None_iff)
    ultimately show ?thesis using 4 2 nl o by (cases entry) (auto split: option.splits)
  next
    case 3
    have "\<forall>q \<in> set (overlay_merge base overlay). oh < fst q"
      using 4 3 overlay_merge_keys [of base overlay] by fastforce
    then show ?thesis using 4 3 o b by (cases entry) (auto split: option.splits)
  qed
qed simp_all

interpretation segmented: chunk_table seg_ok seg_view
proof
  fix s s' :: global_store and hex info f
  show "seg_ok s \<Longrightarrow> seg_view s hex \<noteq> None \<Longrightarrow> hex_of_hash hex"
    by (auto simp: seg_ok_def seg_view_def base_view_def dest!: map_of_SomeD split: option.splits if_splits)
  have get: "chunk_get hex s = Inr (seg_view s hex)" if "seg_ok s" "hex_of_hash hex" for s hex
    using that base_lookup by (auto simp: seg_ok_def seg_view_def chunk_get_def split: option.splits)
  then show "seg_ok s \<Longrightarrow> hex_of_hash hex \<Longrightarrow> chunk_get hex s = Inr (seg_view s hex)" .
  show "seg_ok s \<Longrightarrow> hex_of_hash hex \<Longrightarrow> chunk_contains hex s = Inr (seg_view s hex \<noteq> None)"
    using base_lookup by (fastforce simp: seg_ok_def seg_view_def chunk_contains_def split: option.splits)
  have ins: "seg_ok (set_overlay hex e seg s) \<and> seg_view (set_overlay hex e seg s) = (seg_view s)(hex := e)"
    if "seg_ok s" "hex_of_hash hex" "gs_seg s = Some seg" for s hex e seg
    using that set_insert_subset [of hex e "ss_overlay seg"]
    by (fastforce simp: seg_ok_def seg_view_def set_overlay_def fun_eq_iff split: option.splits)
  obtain seg where seg: "gs_seg s = Some seg" if "seg_ok s" by (cases "gs_seg s") (auto simp: seg_ok_def)
  show "seg_ok s \<Longrightarrow> hex_of_hash hex \<Longrightarrow> seg_ok (chunk_insert hex info s)
      \<and> seg_view (chunk_insert hex info s) = (seg_view s)(hex \<mapsto> info) \<and> outside (chunk_insert hex info s) = outside s"
    using ins [of s hex seg "Some info"] seg by (simp add: chunk_insert_def outside_set_overlay)
  show "seg_ok s \<Longrightarrow> hex_of_hash hex \<Longrightarrow> \<exists>s'. chunk_remove hex s = (Inr (seg_view s hex), s', [])
      \<and> seg_ok s' \<and> seg_view s' = (seg_view s)(hex := None) \<and> outside s' = outside s"
    using ins [of s hex seg None] seg get [of s hex]
    by (cases "seg_view s hex") (auto simp: chunk_remove_def outside_set_overlay)
  show "seg_ok s \<Longrightarrow> hex_of_hash hex \<Longrightarrow> \<exists>s'. chunk_update hex f s = (Inr (seg_view s hex \<noteq> None), s', [])
      \<and> seg_ok s' \<and> seg_view s' = (seg_view s)(hex := map_option f (seg_view s hex)) \<and> outside s' = outside s"
    using ins [of s hex seg "map_option f (seg_view s hex)"] seg get [of s hex]
    by (cases "seg_view s hex") (auto simp: chunk_update_def outside_set_overlay)
  show "\<exists>cs. chunks_iter s = Inr cs \<and> bt_ok cs \<and> map_of cs = seg_view s" if ok: "seg_ok s"
  proof -
    obtain g layout descs where h: "handle_ok (ss_index seg) g layout descs" "bt_ok (ss_overlay seg)"
      using ok seg [OF ok] by (auto simp: seg_ok_def)
    from base_iter [OF h(1)] obtain base where
      b: "live_records (ss_index seg) = Inr base" "bt_ok base" "map_of base = base_view (ss_index seg)" by blast
    have "map_of (overlay_merge base (ss_overlay seg)) x = seg_view s x" for x
      using overlay_merge_ok [OF b(2) h(2), of x] seg [OF ok] b(3)
      by (cases "map_of (ss_overlay seg) x") (simp_all add: seg_view_def)
    then show ?thesis
      using overlay_merge_ok [OF b(2) h(2)] seg [OF ok] b(1) by (simp add: chunks_iter_def fun_eq_iff)
  qed
  show "gs_seg s' = gs_seg s \<Longrightarrow> ix_chunks (gs_index s') = ix_chunks (gs_index s) \<Longrightarrow> seg_ok s \<Longrightarrow> seg_ok s' \<and> seg_view s' = seg_view s"
    by (simp add: seg_ok_def seg_view_def fun_eq_iff)
qed

end
