(* ===== verification/Store_Save.thy ===== *)
theory Store_Save
  imports Store_Chunks
begin

text \<open>
  Making a store's ledger durable (\<^verbatim>\<open>save_index\<close> and what it calls in
  \<^verbatim>\<open>core/cavs-store/src/global.rs\<close>): a commit of the overlay in segmented mode; in
  monolithic mode a journal record, or a snapshot with its rotation of the snapshot and journal it
  replaces; and the packs that hold asset records.
\<close>

section \<open>Asset records\<close>

text \<open>Records back to back: each one's name, offset and length, and the bytes.\<close>

fun record_spans :: "bytes \<Rightarrow> (string \<times> bytes) list \<Rightarrow> (string \<times> u32 \<times> u32) list \<times> bytes" where
  "record_spans before [] = ([], before)"
| "record_spans before ((name, json) # rest) =
     (case record_spans (before @ json) rest of
        (spans, bs) \<Rightarrow> ((name, of_nat (length before), of_nat (length json)) # spans, bs))"

definition write_record_pack :: "hash_fun \<Rightarrow> (string \<times> bytes) list \<Rightarrow> (string \<times> record_ref) list store_run" where
  "write_record_pack blake3 records =
     (case record_spans [] records of
        (spans, bs) \<Rightarrow>
          let pack = hash_chunk blake3 bs in
          bind_run (ask (\<lambda>s. Inr (path_file (gs_disk s) (RecordPack pack)))) (\<lambda>found.
          bind_run
            (if found = None
             then bind_run (write_path (RecordPackTmp pack) bs) (\<lambda>_. rename_path (RecordPackTmp pack) (RecordPack pack))
             else ret ()) (\<lambda>_.
          ret (map (\<lambda>(name, offset, len). (name, InPack pack offset len)) spans))))"

text \<open>The bytes at a location; \<open>None\<close> when the file is missing or too short.\<close>

definition read_record_at :: "record_ref \<Rightarrow> store_dir \<Rightarrow> bytes option" where
  "read_record_at at d =
     (case (case at of
              InPack pack offset len \<Rightarrow> (RecordPack pack, unat offset, unat len)
            | InJournal log offset len \<Rightarrow> (LogFile log, unat offset, unat len)) of
        (path, offset, len) \<Rightarrow>
          (case path_bytes d path of
             None \<Rightarrow> None
           | Some bs \<Rightarrow> if length bs < offset + len then None else Some (take len (drop offset bs))))"

definition set_records :: "(string \<times> record_ref) list \<Rightarrow> global_store \<Rightarrow> global_store" where
  "set_records recs s = s\<lparr>gs_index := (gs_index s)\<lparr>ix_records := recs\<rparr>\<rparr>"

text \<open>Records inline in a journal, read back: those that could be, and the names of those that could not.\<close>

fun journal_records :: "store_dir \<Rightarrow> (string \<times> record_ref) list \<Rightarrow> (string \<times> bytes) list \<times> string list" where
  "journal_records d [] = ([], [])"
| "journal_records d ((name, at) # rest) =
     (case journal_records d rest of
        (staged, unreadable) \<Rightarrow>
          (case at of
             InPack _ _ _ \<Rightarrow> (staged, unreadable)
           | InJournal _ _ _ \<Rightarrow>
               (case read_record_at at d of
                  Some bs \<Rightarrow> ((name, bs) # staged, unreadable)
                | None \<Rightarrow> (staged, name # unreadable))))"

definition move_records_into_a_pack :: "hash_fun \<Rightarrow> unit store_run" where
  "move_records_into_a_pack blake3 =
     bind_run (ask (\<lambda>s. Inr (journal_records (gs_disk s) (ix_records (gs_index s))))) (\<lambda>(inline, unreadable).
     bind_run (memory (\<lambda>s. set_records (bt_remove_all unreadable (ix_records (gs_index s))) s)) (\<lambda>_.
     bind_run (ask (\<lambda>s. Inr (inline @ gs_pending s))) (\<lambda>staged.
     bind_run (memory (\<lambda>s. s\<lparr>gs_pending := []\<rparr>)) (\<lambda>_.
     if staged = [] then ret ()
     else
     bind_run (write_record_pack blake3 staged) (\<lambda>ats.
     memory (\<lambda>s. set_records (bt_build ats (ix_records (gs_index s))) s))))))"

section \<open>The journal and the snapshot\<close>

definition append_journal :: "bytes \<Rightarrow> unit store_run" where
  "append_journal rec = append_path (LogFile LiveLog) rec"

definition write_snapshot :: "hash_fun \<Rightarrow> unit store_run" where
  "write_snapshot blake3 =
     bind_run (move_records_into_a_pack blake3) (\<lambda>_.
     bind_run (ask (\<lambda>s. encode_index blake3 (now_epoch (gs_disk s)) (gs_index s))) (\<lambda>encoded.
     bind_run (write_path SnapshotTmp encoded) (\<lambda>_.
     bind_run (ask (\<lambda>s. Inr (path_bytes (gs_disk s) SnapshotTmp))) (\<lambda>staged.
     if \<not> (case staged of None \<Rightarrow> False | Some bs \<Rightarrow> index_seal_holds blake3 bs) then
       bind_run (remove_path SnapshotTmp) (\<lambda>_.
       fail (IndexCorrupt ''snapshot read back from disk does not match what was written''))
     else
     bind_run (ask (\<lambda>s. Inr (path_file (gs_disk s) SnapshotFile))) (\<lambda>old.
     bind_run (if old = None then ret () else rename_path SnapshotFile SnapshotPrev) (\<lambda>_.
     bind_run (rename_path SnapshotTmp SnapshotFile) (\<lambda>_.
     bind_run (ask (\<lambda>s. Inr (path_file (gs_disk s) (LogFile LiveLog)))) (\<lambda>log.
     bind_run (if log = None then remove_path (LogFile PrevLog)
               else rename_path (LogFile LiveLog) (LogFile PrevLog)) (\<lambda>_.
     bind_run (remove_path JsonIndex) (\<lambda>_.
     memory (\<lambda>s. s\<lparr>gs_snapshot_bytes := of_nat (length encoded), gs_journal_bytes := 0\<rparr>)))))))))))"

definition journal_budget :: "global_store \<Rightarrow> u64" where
  "journal_budget s =
     (case gs_journal_budget s of Some b \<Rightarrow> b | None \<Rightarrow> max (gs_snapshot_bytes s) journal_min_bytes)"

text \<open>The locations of the records that a journal record at \<open>start\<close> carries inline.\<close>

definition locate_inline :: "u64 \<Rightarrow> inline_record list \<Rightarrow> (string \<times> record_ref) list" where
  "locate_inline start inline = map (\<lambda>(name, offset, len). (name, InJournal LiveLog (start + offset) len)) inline"

text \<open>A save of the monolithic ledger, after the dirty sets were taken.\<close>

definition save_monolithic :: "hash_fun \<Rightarrow> u64 \<Rightarrow> string list \<Rightarrow> string list \<Rightarrow> unit store_run" where
  "save_monolithic blake3 generation dirty_chunks dirty_assets =
     (let snapshot =
        bind_run (memory (\<lambda>s. s\<lparr>gs_index := (gs_index s)\<lparr>ix_generation := generation\<rparr>\<rparr>)) (\<lambda>_. write_snapshot blake3) in
      bind_run (ask (\<lambda>s. Inr (gs_snapshot_bytes s))) (\<lambda>snapshot_bytes.
      if snapshot_bytes = 0 then snapshot
      else
      bind_run (ask (\<lambda>s. Inr (gs_pending s))) (\<lambda>pending.
      bind_run
        (if inline_records_max < sum_list (map (\<lambda>r. length (snd r)) pending) then
           bind_run (memory (\<lambda>s. s\<lparr>gs_pending := []\<rparr>)) (\<lambda>_.
           bind_run (write_record_pack blake3 pending) (\<lambda>ats.
           memory (\<lambda>s. set_records (bt_build ats (ix_records (gs_index s))) s)))
         else ret ()) (\<lambda>_.
      bind_run (ask (\<lambda>s. encode_journal_record blake3 (gs_index s) generation dirty_chunks dirty_assets (gs_pending s)))
        (\<lambda>(rec, inline).
      bind_run (ask (\<lambda>s. Inr (unat (gs_journal_bytes s) + length rec \<le> unat (journal_budget s)))) (\<lambda>fits.
      if fits then
        bind_run (append_journal rec) (\<lambda>_.
        memory (\<lambda>s. set_records (bt_build (locate_inline (gs_journal_bytes s) inline) (ix_records (gs_index s)))
          (s\<lparr>gs_index := (gs_index s)\<lparr>ix_generation := generation\<rparr>, gs_pending := [],
             gs_journal_bytes := gs_journal_bytes s + of_nat (length rec)\<rparr>)))
      else snapshot))))))"

definition save_index :: "'v store_env \<Rightarrow> unit store_run" where
  "save_index env =
     bind_run (ask (\<lambda>s. Inr (gs_read_only s))) (\<lambda>read_only.
     if read_only then fail StReadOnly
     else
     bind_run (ask (\<lambda>s. Inr (gs_seg s))) (\<lambda>seg.
     case seg of
       Some seg \<Rightarrow>
         bind_run (memory (\<lambda>s. s\<lparr>gs_seg := Some (seg\<lparr>ss_overlay := []\<rparr>)\<rparr>)) (\<lambda>_.
         bind_run (ask (\<lambda>s. Inr (ix_assets (gs_index s)))) (\<lambda>assets.
         bind_run (on_index (commit_generation (se_ledger env) (se_blake3 env) (ss_overlay seg) assets (ss_index seg))) (\<lambda>idx.
         memory (\<lambda>s. s\<lparr>gs_seg := Some \<lparr>ss_index = idx, ss_overlay = []\<rparr>,
           gs_index := (gs_index s)\<lparr>ix_generation := si_generation idx\<rparr>\<rparr>))))
     | None \<Rightarrow>
         bind_run (ask (\<lambda>s. Inr (ix_generation (gs_index s) + 1, gs_dirty_chunks s, gs_dirty_assets s)))
           (\<lambda>(generation, dirty_chunks, dirty_assets).
         bind_run (memory (\<lambda>s. s\<lparr>gs_dirty_chunks := [], gs_dirty_assets := []\<rparr>)) (\<lambda>_.
         save_monolithic (se_blake3 env) generation dirty_chunks dirty_assets))))"

end
