(* ===== verification/Store_Open.thy ===== *)
theory Store_Open
  imports Store_Save
begin

text \<open>
  Opening a chunk store (\<^verbatim>\<open>open_inner\<close> in \<^verbatim>\<open>core/cavs-store/src/global.rs\<close>):
  choosing the ledger among the live snapshot, its predecessor and the form from before snapshots,
  replaying the journals over it, and the repairs that an open which is not read-only makes.  An
  open is a run that starts from an empty handle on the directory.
\<close>

section \<open>Loading the ledger\<close>

datatype ledger_source = FromLive u64 | FromPrev | FromLegacy | FromJson

definition load_ledger :: "hash_fun \<Rightarrow> (bytes \<Rightarrow> store_index option) \<Rightarrow> store_dir \<Rightarrow> (store_index \<times> ledger_source) option store_result" where
  "load_ledger blake3 json d =
     (let later = (\<lambda>current.
        case path_bytes d SnapshotPrev of
          Some prev \<Rightarrow>
            (case decode_index blake3 prev of
               Inr index \<Rightarrow> Inr (Some (index, FromPrev))
             | Inl prev_err \<Rightarrow> Inl (case current of Some e \<Rightarrow> e | None \<Rightarrow> prev_err))
        | None \<Rightarrow>
            (case current of
               Some e \<Rightarrow> Inl e
             | None \<Rightarrow>
                 (case path_bytes d JsonIndex of
                    Some bs \<Rightarrow> rbind (ok_or (StJson ''malformed'') (json bs)) (\<lambda>index. Inr (Some (index, FromJson)))
                  | None \<Rightarrow> Inr None))) in
      case path_bytes d SnapshotFile of
        Some bs \<Rightarrow>
          (case decode_index_versioned blake3 bs of
             Inr (index, version) \<Rightarrow>
               Inr (Some (index, if version < 2 then FromLegacy else FromLive (of_nat (length bs))))
           | Inl e \<Rightarrow> later (Some e))
      | None \<Rightarrow> later None)"

definition keep_packed :: "store_index \<Rightarrow> store_index" where
  "keep_packed ix = ix\<lparr>ix_records := filter (\<lambda>(_, at). case at of InPack _ _ _ \<Rightarrow> True | InJournal _ _ _ \<Rightarrow> False) (ix_records ix)\<rparr>"

definition empty_index :: "store_layout option \<Rightarrow> store_index" where
  "empty_index layout = \<lparr>ix_chunks = [], ix_assets = [], ix_records = [],
     ix_layout = (case layout of Some l \<Rightarrow> l | None \<Rightarrow> LooseLayout), ix_generation = 0\<rparr>"

section \<open>Quarantine\<close>

definition restore_pack_from_quarantine :: "string \<Rightarrow> unit store_run" where
  "restore_pack_from_quarantine hex =
     bind_run (ask (\<lambda>_. pack_path hex)) (\<lambda>_.
     bind_run (ask (\<lambda>s. Inr (path_file (gs_disk s) (QuarantinePack hex) \<noteq> None \<and> path_file (gs_disk s) (PackFile hex) = None))) (\<lambda>pack.
     bind_run (if pack then rename_path (QuarantinePack hex) (PackFile hex) else ret ()) (\<lambda>_.
     bind_run (ask (\<lambda>s. Inr (path_file (gs_disk s) (QuarantineIndex hex) \<noteq> None \<and> path_file (gs_disk s) (PackIndex hex) = None))) (\<lambda>index.
     bind_run (if index then rename_path (QuarantineIndex hex) (PackIndex hex) else ret ()) (\<lambda>_.
     remove_path (QuarantineSince hex))))))"

fun quarantined_pack :: "store_path \<Rightarrow> string option" where
  "quarantined_pack (QuarantinePack hex) = Some hex"
| "quarantined_pack _ = None"

definition quarantined_packs :: "store_dir \<Rightarrow> string list" where
  "quarantined_packs d = List.map_filter quarantined_pack (store_paths d)"

definition restore_quarantined_packs :: "unit store_run" where
  "restore_quarantined_packs =
     bind_run (ask (\<lambda>s. Inr (quarantined_packs (gs_disk s)))) (\<lambda>hexes.
     if hexes = [] then ret ()
     else
     bind_run (ask live_pack_set) (\<lambda>live.
     for_each (\<lambda>hex. if hex \<in> set live then restore_pack_from_quarantine hex else ret ()) hexes))"

section \<open>Opening\<close>

fun half_staged :: "store_path \<Rightarrow> bool" where
  "half_staged (PackPart _) = True"
| "half_staged (RecordPackTmp _) = True"
| "half_staged _ = False"

definition sweep_part_packs :: "unit store_run" where
  "sweep_part_packs =
     bind_run (ask (\<lambda>s. Inr (filter half_staged (store_paths (gs_disk s))))) (\<lambda>paths.
     for_each remove_path paths)"

definition snapshot_identity :: "store_dir \<Rightarrow> (nat \<times> nat) option" where
  "snapshot_identity d = map_option (\<lambda>f. (length (sf_bytes f), sf_mtime f)) (path_file d SnapshotFile)"

text \<open>An empty handle; \<open>part\<close> is the number the next \<^verbatim>\<open>.part\<close> file gets.\<close>

definition blank_store :: "nat \<Rightarrow> bool \<Rightarrow> store_dir \<Rightarrow> global_store" where
  "blank_store part read_only d =
     \<lparr>gs_disk = d, gs_index = empty_index None, gs_seg = None, gs_open_pack = None, gs_parts = part,
      gs_pack_size = preferred_pack_size, gs_batch = None, gs_dirty_chunks = [], gs_dirty_assets = [],
      gs_journal_bytes = 0, gs_snapshot_bytes = 0, gs_journal_budget = None, gs_pending = [],
      gs_snapshot_id = None, gs_read_only = read_only\<rparr>"

definition open_segmented :: "'v store_env \<Rightarrow> store_layout option \<Rightarrow> bool \<Rightarrow> unit store_run" where
  "open_segmented env layout read_only =
     bind_run (on_index (open_index (se_ledger env) (se_blake3 env))) (\<lambda>(seg, assets).
     if (case layout of Some requested \<Rightarrow> requested \<noteq> si_layout seg | None \<Rightarrow> False)
     then fail (LayoutMismatch (si_layout seg) (the layout))
     else
     bind_run (if read_only then ret () else sweep_part_packs) (\<lambda>_.
     bind_run (memory (\<lambda>s. s\<lparr>gs_index := \<lparr>ix_chunks = [], ix_assets = assets, ix_records = [],
         ix_layout = si_layout seg, ix_generation = si_generation seg\<rparr>,
       gs_seg := Some \<lparr>ss_index = seg, ss_overlay = []\<rparr>\<rparr>)) (\<lambda>_.
     if read_only then ret () else restore_quarantined_packs)))"

text \<open>
  The ledger that was found, with what came after it: the index, the size of the snapshot a journal
  may extend (0 for none).
\<close>

definition recover_ledger :: "hash_fun \<Rightarrow> store_layout option \<Rightarrow> bool \<Rightarrow> (store_index \<times> ledger_source) option \<Rightarrow> (store_index \<times> u64) store_run" where
  "recover_ledger blake3 layout read_only found =
     (case found of
        Some (index, FromLive bytes) \<Rightarrow> ret (index, bytes)
      | Some (index, FromPrev) \<Rightarrow>
          ask (\<lambda>s. Inr (snd (replay_journal blake3 LiveLog (path_bytes (gs_disk s) (LogFile LiveLog))
                 (snd (replay_journal blake3 PrevLog (path_bytes (gs_disk s) (LogFile PrevLog)) index))), 0))
      | Some (index, _) \<Rightarrow>
          bind_run
            (if read_only then ret ()
             else bind_run (remove_path (LogFile LiveLog)) (\<lambda>_. remove_path (LogFile PrevLog))) (\<lambda>_.
          ret (keep_packed index, 0))
      | None \<Rightarrow>
          let index = empty_index layout in
          if read_only then ret (index, 0)
          else
          bind_run (remove_path (LogFile LiveLog)) (\<lambda>_.
          bind_run (remove_path (LogFile PrevLog)) (\<lambda>_.
          bind_run (ask (\<lambda>s. encode_index blake3 (now_epoch (gs_disk s)) index)) (\<lambda>encoded.
          bind_run (write_path SnapshotTmp encoded) (\<lambda>_.
          bind_run (rename_path SnapshotTmp SnapshotFile) (\<lambda>_.
          ret (index, of_nat (length encoded))))))))"

definition open_monolithic :: "'v store_env \<Rightarrow> store_layout option \<Rightarrow> bool \<Rightarrow> unit store_run" where
  "open_monolithic env layout read_only =
     bind_run (if read_only then ret () else remove_path SnapshotTmp) (\<lambda>_.
     bind_run (ask (\<lambda>s. load_ledger (se_blake3 env) (json_index env) (gs_disk s))) (\<lambda>found.
     bind_run (recover_ledger (se_blake3 env) layout read_only found) (\<lambda>(index, snapshot_bytes).
     bind_run
       (if 0 < snapshot_bytes then
          bind_run (ask (\<lambda>s. Inr (replay_journal (se_blake3 env) LiveLog (path_bytes (gs_disk s) (LogFile LiveLog)) index)))
            (\<lambda>((truncate_to, file_len), index).
          bind_run
            (if truncate_to < file_len \<and> \<not> read_only
             then on_disk (\<lambda>d. set_path (LogFile LiveLog) (take truncate_to (case path_bytes d (LogFile LiveLog) of None \<Rightarrow> [] | Some bs \<Rightarrow> bs)) d)
             else ret ()) (\<lambda>_.
          ret (index, of_nat truncate_to)))
        else ret (index, 0)) (\<lambda>(index, journal_bytes).
     bind_run (ask (\<lambda>s. Inr (path_file (gs_disk s) SnapshotFile \<noteq> None \<or> path_file (gs_disk s) JsonIndex \<noteq> None))) (\<lambda>exists.
     if (case layout of Some requested \<Rightarrow> requested \<noteq> ix_layout index \<and> exists | None \<Rightarrow> False)
     then fail (LayoutMismatch (ix_layout index) (the layout))
     else
     bind_run (if read_only then ret () else sweep_part_packs) (\<lambda>_.
     bind_run (memory (\<lambda>s. s\<lparr>gs_index := index, gs_journal_bytes := journal_bytes, gs_snapshot_bytes := snapshot_bytes,
       gs_snapshot_id := snapshot_identity (gs_disk s)\<rparr>)) (\<lambda>_.
     if read_only then ret () else restore_quarantined_packs)))))))"

definition open_inner :: "'v store_env \<Rightarrow> store_layout option \<Rightarrow> bool \<Rightarrow> unit store_run" where
  "open_inner env layout read_only =
     bind_run (ask (\<lambda>s. Inr (get_file (sd_index (gs_disk s)) CurrentFile))) (\<lambda>current.
     if current \<noteq> None then open_segmented env layout read_only else open_monolithic env layout read_only)"

text \<open>Opening a directory: the handle, when it opens, and the directory.\<close>

definition open_global_store :: "'v store_env \<Rightarrow> nat \<Rightarrow> store_layout option \<Rightarrow> bool \<Rightarrow> store_dir \<Rightarrow> global_store store_result \<times> store_dir" where
  "open_global_store env part layout read_only d =
     (case open_inner env layout read_only (blank_store part read_only d) of
        (r, s, _) \<Rightarrow> (rbind r (\<lambda>_. Inr s), gs_disk s))"

section \<open>Refreshing a reader\<close>

definition reload :: "'v store_env \<Rightarrow> bool store_run" where
  "reload env s =
     (case open_global_store env (gs_parts s) None True (gs_disk s) of
        (opened, d) \<Rightarrow>
          let s = s\<lparr>gs_disk := d\<rparr> in
          case opened of
            Inl e \<Rightarrow> (Inl e, s, [s])
          | Inr fresh \<Rightarrow>
              (Inr True,
               s\<lparr>gs_index := gs_index fresh, gs_seg := gs_seg fresh, gs_journal_bytes := gs_journal_bytes fresh,
                 gs_snapshot_bytes := gs_snapshot_bytes fresh, gs_snapshot_id := gs_snapshot_id fresh\<rparr>, [s]))"

definition refresh :: "'v store_env \<Rightarrow> bool store_run" where
  "refresh env =
     bind_run (ask (\<lambda>s. Inr (gs_batch s \<noteq> None \<or> gs_open_pack s \<noteq> None \<or> gs_dirty_chunks s \<noteq> []
       \<or> gs_dirty_assets s \<noteq> [] \<or> gs_pending s \<noteq> []))) (\<lambda>unpublished.
     if unpublished then fail (IndexCorrupt ''refresh on a store with unpublished state'')
     else
     bind_run (ask (\<lambda>s. Inr (gs_seg s \<noteq> None \<or> snapshot_identity (gs_disk s) \<noteq> gs_snapshot_id s))) (\<lambda>moved.
     if moved then reload env
     else
     bind_run (ask (\<lambda>s. Inr (path_bytes (gs_disk s) (LogFile LiveLog), unat (gs_journal_bytes s), gs_index s))) (\<lambda>(log, at, index).
     let len = (case log of None \<Rightarrow> 0 | Some bs \<Rightarrow> length bs) in
     if len = at then ret False
     else if len < at then reload env
     else
     bind_run (memory (\<lambda>s.
       case replay_journal_from (se_blake3 env) LiveLog log (of_nat at) index of
         ((truncate_to, _), index) \<Rightarrow> s\<lparr>gs_index := index, gs_journal_bytes := of_nat truncate_to\<rparr>)) (\<lambda>_.
     ret True))))"

end
