(* ===== verification/Store_Assets.thy ===== *)
theory Store_Assets
  imports Store_Open
begin

text \<open>
  Assets of a chunk store (\<^verbatim>\<open>core/cavs-store/src/global.rs\<close>): publishing them, alone and
  in batches, with the reference counts of their chunks; their records; unpublishing; garbage
  collection with its quarantine; the full check; and the move to the segmented ledger.
\<close>

section \<open>Publishing\<close>

definition asset_chunks :: "asset_record \<Rightarrow> string list" where
  "asset_chunks rec = concat (map init_chunks (ar_tracks rec)) @ concat (map segment_chunks (ar_segments rec))"

definition bad_asset_name :: "string \<Rightarrow> bool" where
  "bad_asset_name name \<longleftrightarrow> CHR ''/'' \<in> set name \<or> CHR 0x5c \<in> set name \<or> CHR ''.'' \<in> set name \<or> name = ''''"

definition take_reference :: "chunk_info \<Rightarrow> chunk_info" where
  "take_reference info = info\<lparr>refcount := refcount info + 1, zero_since := None\<rparr>"

text \<open>\<^verbatim>\<open>saturating_sub\<close>, and the second at which the count reached zero.\<close>

definition drop_reference :: "u64 \<Rightarrow> chunk_info \<Rightarrow> chunk_info" where
  "drop_reference now info =
     (let count = (if refcount info = 0 then 0 else refcount info - 1) in
      if count = 0 then info\<lparr>refcount := count, zero_since := Some now\<rparr> else info\<lparr>refcount := count\<rparr>)"

definition decrement :: "string list \<Rightarrow> unit store_run" where
  "decrement chunks =
     for_each (\<lambda>hex.
       bind_run (ask (\<lambda>s. Inr (now_epoch (gs_disk s)))) (\<lambda>now.
       bind_run (chunk_update hex (drop_reference now)) (\<lambda>_. ret ()))) chunks"

definition write_flat_record :: "'v store_env \<Rightarrow> asset_record \<Rightarrow> unit store_run" where
  "write_flat_record env rec =
     bind_run (write_path (FlatRecordTmp (ar_name rec)) (record_to_vec env rec)) (\<lambda>_.
     rename_path (FlatRecordTmp (ar_name rec)) (FlatRecord (ar_name rec)))"

definition stage_record :: "'v store_env \<Rightarrow> bool \<Rightarrow> asset_record \<Rightarrow> unit store_run" where
  "stage_record env flat_records_remain rec =
     bind_run (if flat_records_remain then remove_path (FlatRecord (ar_name rec)) else ret ()) (\<lambda>_.
     memory (\<lambda>s. set_records (bt_remove (ar_name rec) (ix_records (gs_index s)))
       (s\<lparr>gs_pending := bt_insert (ar_name rec) (record_to_vec env rec) (gs_pending s)\<rparr>)))"

definition write_asset_records :: "'v store_env \<Rightarrow> asset_record list \<Rightarrow> unit store_run" where
  "write_asset_records env recs =
     (if recs = [] then ret ()
      else
      bind_run (ask (\<lambda>s. Inr (gs_seg s))) (\<lambda>seg.
      if seg \<noteq> None then for_each (write_flat_record env) recs
      else
      bind_run (ask (\<lambda>s. Inr (length (ix_records (gs_index s)) < length (ix_assets (gs_index s))))) (\<lambda>flat.
      for_each (stage_record env flat) recs)))"

definition check_present :: "string list \<Rightarrow> unit store_run" where
  "check_present chunks =
     for_each (\<lambda>hex. bind_run (ask (chunk_contains hex)) (\<lambda>there.
       if there then ret () else fail (MissingChunk hex))) chunks"

definition set_asset :: "string \<Rightarrow> string list \<Rightarrow> global_store \<Rightarrow> global_store" where
  "set_asset name chunks s = s\<lparr>gs_index := (gs_index s)\<lparr>ix_assets := bt_insert name chunks (ix_assets (gs_index s))\<rparr>\<rparr>"

definition remove_asset :: "string \<Rightarrow> global_store \<Rightarrow> global_store" where
  "remove_asset name s = s\<lparr>gs_index := (gs_index s)\<lparr>ix_assets := bt_remove name (ix_assets (gs_index s))\<rparr>\<rparr>"

definition dirty_asset :: "string \<Rightarrow> global_store \<Rightarrow> global_store" where
  "dirty_asset name s = s\<lparr>gs_dirty_assets := insort_insert name (gs_dirty_assets s)\<rparr>"

text \<open>The part of a publish that changes the ledger in memory.\<close>

definition count_asset :: "string \<Rightarrow> string list \<Rightarrow> unit store_run" where
  "count_asset name distinct_chunks =
     bind_run (check_present distinct_chunks) (\<lambda>_.
     bind_run (ask (\<lambda>s. Inr (map_of (ix_assets (gs_index s)) name))) (\<lambda>old.
     bind_run (memory (remove_asset name)) (\<lambda>_.
     bind_run (case old of Some chunks \<Rightarrow> decrement chunks | None \<Rightarrow> ret ()) (\<lambda>_.
     bind_run (memory (dirty_asset name)) (\<lambda>_.
     bind_run (for_each (\<lambda>hex. bind_run (chunk_update hex take_reference) (\<lambda>_. ret ())) distinct_chunks) (\<lambda>_.
     memory (set_asset name distinct_chunks)))))))"

definition publish_asset :: "'v store_env \<Rightarrow> asset_record \<Rightarrow> unit store_run" where
  "publish_asset env rec =
     (if bad_asset_name (ar_name rec) then fail (BadAssetName (ar_name rec))
      else
      bind_run (ask (\<lambda>s. Inr (gs_batch s \<noteq> None))) (\<lambda>batching.
      bind_run (if batching then ret () else flush_packs (se_blake3 env)) (\<lambda>_.
      bind_run (count_asset (ar_name rec) (hash_order env (asset_chunks rec))) (\<lambda>_.
      if batching then memory (\<lambda>s. s\<lparr>gs_batch := map_option (\<lambda>b. b @ [rec]) (gs_batch s)\<rparr>)
      else
      bind_run (write_asset_records env [rec]) (\<lambda>_.
      save_index env)))))"

definition begin_publish_batch :: "unit store_run" where
  "begin_publish_batch =
     memory (\<lambda>s. if gs_batch s = None then s\<lparr>gs_batch := Some []\<rparr> else s)"

definition commit_publish_batch :: "'v store_env \<Rightarrow> unit store_run" where
  "commit_publish_batch env =
     bind_run (ask (\<lambda>s. Inr (gs_batch s))) (\<lambda>batch.
     bind_run (memory (\<lambda>s. s\<lparr>gs_batch := None\<rparr>)) (\<lambda>_.
     case batch of
       None \<Rightarrow> ret ()
     | Some pending \<Rightarrow>
         bind_run (ask (\<lambda>s. Inr (gs_open_pack s \<noteq> None))) (\<lambda>had_open_pack.
         bind_run (flush_packs (se_blake3 env)) (\<lambda>_.
         bind_run (write_asset_records env pending) (\<lambda>_.
         if pending \<noteq> [] \<or> had_open_pack then save_index env else ret ())))))"

definition has_asset :: "string \<Rightarrow> global_store \<Rightarrow> bool" where
  "has_asset name s \<longleftrightarrow> map_of (ix_assets (gs_index s)) name \<noteq> None"

definition asset_names :: "global_store \<Rightarrow> string list" where
  "asset_names s = map fst (ix_assets (gs_index s))"

section \<open>Records\<close>

definition asset_record_bytes :: "string \<Rightarrow> global_store \<Rightarrow> bytes store_result" where
  "asset_record_bytes name s =
     (case map_of (gs_pending s) name of
        Some bs \<Rightarrow> Inr bs
      | None \<Rightarrow>
          (case map_of (ix_records (gs_index s)) name of
             Some at \<Rightarrow> ok_or (AssetNotFound name) (read_record_at at (gs_disk s))
           | None \<Rightarrow> ok_or (AssetNotFound name) (path_bytes (gs_disk s) (FlatRecord name))))"

definition get_asset :: "'v store_env \<Rightarrow> string \<Rightarrow> global_store \<Rightarrow> asset_record store_result" where
  "get_asset env name s =
     rbind (asset_record_bytes name s) (\<lambda>bs. ok_or (StJson ''malformed'') (record_from_slice env bs))"

section \<open>Unpublishing\<close>

definition unpublish_asset :: "'v store_env \<Rightarrow> string \<Rightarrow> bool store_run" where
  "unpublish_asset env name =
     bind_run (ask (\<lambda>s. Inr (map_of (ix_assets (gs_index s)) name))) (\<lambda>found.
     case found of
       None \<Rightarrow> ret False
     | Some chunks \<Rightarrow>
         bind_run (memory (remove_asset name)) (\<lambda>_.
         bind_run (memory (dirty_asset name)) (\<lambda>_.
         bind_run (decrement chunks) (\<lambda>_.
         bind_run (memory (\<lambda>s. set_records (bt_remove name (ix_records (gs_index s))) s)) (\<lambda>_.
         bind_run (remove_path (FlatRecord name)) (\<lambda>_.
         bind_run (save_index env) (\<lambda>_.
         ret True)))))))"

section \<open>Garbage collection\<close>

text \<open>Ages are saturating differences of seconds.\<close>

definition aged_out :: "u64 \<Rightarrow> u64 \<Rightarrow> chunk_info \<Rightarrow> bool" where
  "aged_out now grace info \<longleftrightarrow> refcount info = 0
     \<and> unat grace \<le> unat now - unat (case zero_since info of Some z \<Rightarrow> z | None \<Rightarrow> 0)"

definition quarantine_pack :: "string \<Rightarrow> unit store_run" where
  "quarantine_pack hex =
     bind_run (ask (\<lambda>_. pack_path hex)) (\<lambda>_.
     bind_run (ask (\<lambda>s. Inr (path_file (gs_disk s) (PackFile hex)))) (\<lambda>pack.
     bind_run (if pack \<noteq> None then rename_path (PackFile hex) (QuarantinePack hex) else ret ()) (\<lambda>_.
     bind_run (ask (\<lambda>s. Inr (path_file (gs_disk s) (PackIndex hex)))) (\<lambda>index.
     bind_run (if index \<noteq> None then rename_path (PackIndex hex) (QuarantineIndex hex) else ret ()) (\<lambda>_.
     bind_run (ask (\<lambda>s. Inr (now_epoch (gs_disk s)))) (\<lambda>now.
     write_path (QuarantineSince hex) (ascii (decimal (unat now)))))))))"

text \<open>The bytes reclaimed by removing one doomed chunk, and the pack it was in.\<close>

definition remove_doomed :: "string \<Rightarrow> (u64 \<times> string option) store_run" where
  "remove_doomed hex =
     bind_run (chunk_remove hex) (\<lambda>old.
     case old of
       None \<Rightarrow> ret (0, None)
     | Some info \<Rightarrow>
         (case ci_pack info of
            Some pack \<Rightarrow> ret (0, Some pack)
          | None \<Rightarrow> bind_run (remove_path (LooseChunk hex)) (\<lambda>_. ret (ucast (len_stored info), None))))"

fun remove_all_doomed :: "string list \<Rightarrow> (u64 \<times> string list) store_run" where
  "remove_all_doomed [] = ret (0, [])"
| "remove_all_doomed (hex # hexes) =
     bind_run (remove_doomed hex) (\<lambda>(bs, pack).
     bind_run (remove_all_doomed hexes) (\<lambda>(more, packs).
     ret (bs + more, (case pack of Some p \<Rightarrow> [p] | None \<Rightarrow> []) @ packs)))"

fun live_pack_file :: "store_path \<Rightarrow> string option" where
  "live_pack_file (PackFile hex) = Some hex"
| "live_pack_file _ = None"

definition old_enough :: "u64 \<Rightarrow> store_dir \<Rightarrow> string \<Rightarrow> bool" where
  "old_enough grace d hex \<longleftrightarrow>
     (case path_file d (PackFile hex) of
        None \<Rightarrow> False
      | Some f \<Rightarrow> sf_mtime f \<le> sd_clock d \<and> unat grace \<le> (sd_clock d - sf_mtime f) div 10 ^ 9)"

definition quarantine_orphan_packs :: "u64 \<Rightarrow> unit store_run" where
  "quarantine_orphan_packs grace =
     bind_run (ask live_pack_set) (\<lambda>live.
     bind_run (ask (\<lambda>s. Inr (List.map_filter live_pack_file (store_paths (gs_disk s))))) (\<lambda>hexes.
     for_each (\<lambda>hex.
       if hex \<in> set live then ret ()
       else
       bind_run (ask (\<lambda>s. Inr (old_enough grace (gs_disk s) hex))) (\<lambda>old.
       if old then quarantine_pack hex else ret ())) hexes))"

definition sweep_quarantined :: "u64 \<Rightarrow> string list \<Rightarrow> string \<Rightarrow> u64 store_run" where
  "sweep_quarantined quarantine live hex =
     (if hex \<in> set live then bind_run (restore_pack_from_quarantine hex) (\<lambda>_. ret 0)
      else
      bind_run (ask (\<lambda>s. Inr (now_epoch (gs_disk s)))) (\<lambda>now.
      bind_run (ask (\<lambda>s. Inr (path_bytes (gs_disk s) (QuarantineSince hex)))) (\<lambda>stamp.
      case Option.bind stamp (\<lambda>bs. if is_utf8 bs then parse_u64 (trim_end (trim_start (text_of bs))) else None) of
        None \<Rightarrow> bind_run (write_path (QuarantineSince hex) (ascii (decimal (unat now)))) (\<lambda>_. ret 0)
      | Some since \<Rightarrow>
          if unat now - unat since < unat quarantine then ret 0
          else
          bind_run (ask (\<lambda>s. Inr (case path_bytes (gs_disk s) (QuarantinePack hex) of None \<Rightarrow> 0 | Some bs \<Rightarrow> of_nat (length bs)))) (\<lambda>len.
          bind_run (remove_path (QuarantinePack hex)) (\<lambda>_.
          bind_run (remove_path (QuarantineIndex hex)) (\<lambda>_.
          bind_run (remove_path (QuarantineSince hex)) (\<lambda>_.
          ret len)))))))"

fun sum_runs :: "('a \<Rightarrow> u64 store_run) \<Rightarrow> 'a list \<Rightarrow> u64 store_run" where
  "sum_runs f [] = ret 0"
| "sum_runs f (x # xs) = bind_run (f x) (\<lambda>n. bind_run (sum_runs f xs) (\<lambda>m. ret (n + m)))"

definition sweep_quarantine :: "u64 \<Rightarrow> u64 store_run" where
  "sweep_quarantine quarantine =
     bind_run (ask (\<lambda>s. Inr (quarantined_packs (gs_disk s)))) (\<lambda>hexes.
     if hexes = [] then ret 0
     else bind_run (ask live_pack_set) (\<lambda>live. sum_runs (sweep_quarantined quarantine live) hexes))"

fun record_pack_file :: "store_path \<Rightarrow> chunk_hash option" where
  "record_pack_file (RecordPack h) = Some h"
| "record_pack_file _ = None"

definition live_record_packs :: "store_index \<Rightarrow> chunk_hash list" where
  "live_record_packs ix =
     List.map_filter (\<lambda>(_, at). case at of InPack pack _ _ \<Rightarrow> Some pack | InJournal _ _ _ \<Rightarrow> None) (ix_records ix)"

definition sweep_dead_record_packs :: "unit store_run" where
  "sweep_dead_record_packs =
     bind_run (ask (\<lambda>s. Inr (filter (\<lambda>h. h \<notin> set (live_record_packs (gs_index s)))
       (List.map_filter record_pack_file (store_paths (gs_disk s)))))) (\<lambda>dead.
     for_each (\<lambda>h. remove_path (RecordPack h)) dead)"

definition gc :: "'v store_env \<Rightarrow> u64 \<Rightarrow> (nat \<times> u64) store_run" where
  "gc env grace =
     bind_run (ask (\<lambda>s. rbind (chunks_iter s) (\<lambda>cs.
       Inr (map fst (filter (\<lambda>(_, info). aged_out (now_epoch (gs_disk s)) grace info) cs))))) (\<lambda>doomed.
     bind_run (remove_all_doomed doomed) (\<lambda>(bs, touched).
     bind_run
       (if touched = [] then ret ()
        else
        bind_run (ask live_pack_set) (\<lambda>live.
        for_each (\<lambda>pack. if pack \<in> set live then ret () else quarantine_pack pack) (hash_order env touched))) (\<lambda>_.
     bind_run (quarantine_orphan_packs grace) (\<lambda>_.
     bind_run (sweep_quarantine grace) (\<lambda>more.
     bind_run sweep_dead_record_packs (\<lambda>_.
     bind_run (save_index env) (\<lambda>_.
     ret (length doomed, bs + more))))))))"

end
