(* ===== verification/Store_Counts.thy ===== *)
theory Store_Counts
  imports Chunk_Table Store_Assets Ledger_State
begin

text \<open>
  Reference counts: a chunk's count is the number of assets that list it, every listed chunk is in
  the ledger, and a chunk carries a time of death exactly while its count is zero.  Storing a
  chunk, closing a pack, counting an asset in or out and removing doomed chunks keep this, over
  either representation of the ledger.
\<close>

section \<open>Runs of a store\<close>

abbreviation runs :: "('s, 'a) state_run \<Rightarrow> 's \<Rightarrow> 'a \<Rightarrow> 's \<Rightarrow> bool" where
  "runs \<equiv> goes (\<lambda>_. True)"

lemma runsI: "m s = (Inr x, s', tr) \<Longrightarrow> runs m s x s'"
  by (simp add: goes_def)

lemma runs_result: "runs m s x s' \<Longrightarrow> m s = (r, s'', tr) \<Longrightarrow> r = Inr x \<and> s'' = s'"
  by (auto simp: goes_def)

lemma runs_bind: "runs m s x s1 \<Longrightarrow> runs (k x) s1 y s2 \<Longrightarrow> runs (bind_run m k) s y s2"
  by (rule goes_bind)

lemma runs_memory: "runs (memory f) s () (f s)"
  by (simp add: goes_def memory_def)

lemma runs_ask: "f s = Inr x \<Longrightarrow> runs (ask f) s x s"
  by (simp add: goes_def ask_def)

lemma runs_ret: "runs (ret x) s x s"
  by (simp add: goes_def ret_def)

lemma runs_disk: "runs (on_disk f) s () (s\<lparr>gs_disk := f (gs_disk s)\<rparr>)"
  by (simp add: goes_def on_disk_def act_def)

section \<open>How many assets list a chunk\<close>

definition listed :: "asset_table \<Rightarrow> string \<Rightarrow> nat" where
  "listed assets hex = length (filter (\<lambda>a. hex \<in> set (snd a)) assets)"

lemma listed_simps [simp]:
  "listed [] hex = 0"
  "listed (a # assets) hex = (if hex \<in> set (snd a) then 1 else 0) + listed assets hex"
  by (simp_all add: listed_def)

lemma listed_insert:
  assumes "map_of assets name = None"
  shows "listed (bt_insert name hexes assets) hex = listed assets hex + (if hex \<in> set hexes then 1 else 0)"
  using assms by (induction name hexes assets rule: bt_insert.induct) (auto split: if_splits)

lemma listed_remove:
  assumes "bt_ok assets"
  shows "listed assets hex = listed (bt_remove name assets) hex
    + (case map_of assets name of Some hexes \<Rightarrow> if hex \<in> set hexes then 1 else 0 | None \<Rightarrow> 0)"
  using assms
proof (induction assets)
  case (Cons a assets)
  show ?case
  proof (cases "fst a = name")
    case True
    then have "name \<notin> fst ` set assets" using Cons.prems by auto
    then have "bt_remove name assets = assets" by (rule remove_absent)
    then show ?thesis using True by (simp add: bt_remove_def)
  next
    case False
    then show ?thesis using Cons by (simp add: bt_remove_def split: option.splits)
  qed
qed (simp add: bt_remove_def)

lemma listed_bound: "listed assets hex \<le> length assets"
  by (simp add: listed_def)

lemma listed_zero: "listed assets hex = 0 \<longleftrightarrow> (\<forall>a \<in> set assets. hex \<notin> set (snd a))"
  by (auto simp: listed_def filter_empty_conv)

lemma length_bt_insert: "length (bt_insert k v m) \<le> Suc (length m)"
  by (induction k v m rule: bt_insert.induct) auto

lemma length_bt_remove: "length (bt_remove k m) \<le> length m"
  by (simp add: bt_remove_def)

section \<open>The invariant\<close>

definition counted :: "asset_table \<Rightarrow> string \<Rightarrow> chunk_info \<Rightarrow> bool" where
  "counted assets hex info \<longleftrightarrow> unat (refcount info) = listed assets hex
     \<and> (refcount info = 0 \<longleftrightarrow> zero_since info \<noteq> None)"

definition assets_in :: "(string \<Rightarrow> chunk_info option) \<Rightarrow> asset_table \<Rightarrow> bool" where
  "assets_in v assets \<longleftrightarrow> bt_ok assets \<and> length assets < 2 ^ 64
     \<and> (\<forall>(name, hexes) \<in> set assets. distinct hexes \<and> set hexes \<subseteq> dom v)"

definition counts_match :: "(string \<Rightarrow> chunk_info option) \<Rightarrow> asset_table \<Rightarrow> bool" where
  "counts_match v assets \<longleftrightarrow> assets_in v assets \<and> (\<forall>hex info. v hex = Some info \<longrightarrow> counted assets hex info)"

lemma assets_listed: "assets_in v assets \<Longrightarrow> map_of assets name = Some hexes \<Longrightarrow> distinct hexes \<and> set hexes \<subseteq> dom v"
  by (auto simp: assets_in_def dest!: map_of_SomeD)

lemma take_reference_count:
  assumes "counted assets hex info" "listed assets hex + 1 < 2 ^ 64"
  shows "unat (refcount (take_reference info)) = listed assets hex + 1" "zero_since (take_reference info) = None"
    "refcount (take_reference info) \<noteq> 0"
proof -
  have "unat (refcount info) + 1 < 2 ^ 64" using assms by (simp add: counted_def)
  then show u: "unat (refcount (take_reference info)) = listed assets hex + 1"
    using assms(1) by (simp add: take_reference_def counted_def unat_word_ariths)
  show "zero_since (take_reference info) = None" by (simp add: take_reference_def)
  show "refcount (take_reference info) \<noteq> 0" using u by (metis unat_0 add_is_0 one_neq_zero)
qed

lemma drop_reference_count:
  assumes "counted assets hex info" "listed assets hex = n + 1"
  shows "unat (refcount (drop_reference now info)) = n
    \<and> (refcount (drop_reference now info) = 0 \<longleftrightarrow> zero_since (drop_reference now info) \<noteq> None)"
proof -
  have r: "unat (refcount info) = n + 1" "refcount info \<noteq> 0" "zero_since info = None"
    using assms by (auto simp: counted_def)
  have u: "unat (refcount info - 1) = n"
    using r(1,2) by (simp add: unat_minus_one)
  then have "refcount info - 1 = 0 \<longleftrightarrow> n = 0" by (metis unat_0 unat_eq_zero)
  then show ?thesis using r u by (auto simp: drop_reference_def Let_def)
qed

text \<open>What counting leaves alone: how a chunk is stored, and everything beyond the ledger's tables.\<close>

definition stored_alike :: "chunk_info \<Rightarrow> chunk_info \<Rightarrow> bool" where
  "stored_alike i j \<longleftrightarrow> len_raw i = len_raw j \<and> len_stored i = len_stored j \<and> ci_flags i = ci_flags j
     \<and> ci_pack i = ci_pack j \<and> pack_offset i = pack_offset j"

definition beyond :: "global_store \<Rightarrow> global_store" where
  "beyond s = s\<lparr>gs_index := (gs_index s)\<lparr>ix_chunks := [], ix_assets := []\<rparr>,
     gs_seg := map_option (\<lambda>seg. seg\<lparr>ss_overlay := []\<rparr>) (gs_seg s), gs_dirty_chunks := [], gs_dirty_assets := []\<rparr>"

lemma beyond_outside:
  assumes "outside s = outside s'"
  shows "beyond s = beyond s'"
proof -
  have "beyond s = (outside s)\<lparr>gs_index := (gs_index (outside s))\<lparr>ix_assets := []\<rparr>, gs_dirty_assets := []\<rparr>" for s
    by (simp add: beyond_def outside_def)
  then show ?thesis using assms by simp
qed

section \<open>Counting, over either representation\<close>

context chunk_table
begin

lemma update_each:
  assumes "ok s" "\<forall>hex \<in> set hexes. hex_of_hash hex" "distinct hexes"
  shows "\<exists>s'. for_each (\<lambda>hex. bind_run (chunk_update hex f) (\<lambda>_. ret ())) hexes s = (Inr (), s', [])
    \<and> ok s' \<and> view s' = (\<lambda>hex. if hex \<in> set hexes then map_option f (view s hex) else view s hex) \<and> outside s' = outside s"
  using assms
proof (induction hexes arbitrary: s)
  case Nil
  then show ?case by (simp add: ret_def)
next
  case (Cons hex hexes)
  have h: "hex_of_hash hex" using Cons.prems(2) by simp
  from update_view [OF Cons.prems(1) h, of f] obtain s1 where
    s1: "chunk_update hex f s = (Inr (view s hex \<noteq> None), s1, [])" "ok s1"
      "view s1 = (view s)(hex := map_option f (view s hex))" "outside s1 = outside s" by blast
  from Cons.IH [OF s1(2)] Cons.prems obtain s2 where
    s2: "for_each (\<lambda>hex. bind_run (chunk_update hex f) (\<lambda>_. ret ())) hexes s1 = (Inr (), s2, [])" "ok s2"
      "view s2 = (\<lambda>hex. if hex \<in> set hexes then map_option f (view s1 hex) else view s1 hex)" "outside s2 = outside s1" by auto
  have "for_each (\<lambda>hex. bind_run (chunk_update hex f) (\<lambda>_. ret ())) (hex # hexes) s = (Inr (), s2, [])"
    using s1(1) s2(1) by (simp add: bind_run_def ret_def)
  moreover have "view s2 = (\<lambda>x. if x \<in> set (hex # hexes) then map_option f (view s x) else view s x)"
    using Cons.prems(3) by (auto simp: s2(3) s1(3) fun_eq_iff)
  ultimately show ?case using s2(2,4) s1(4) by auto
qed

lemma decrement_eq:
  assumes "ok s" "\<forall>hex \<in> set hexes. hex_of_hash hex"
  shows "decrement hexes s = for_each (\<lambda>hex. bind_run (chunk_update hex (drop_reference (now_epoch (gs_disk s)))) (\<lambda>_. ret ())) hexes s"
  using assms
proof (induction hexes arbitrary: s)
  case (Cons hex hexes)
  have h: "hex_of_hash hex" using Cons.prems(2) by simp
  from update_view [OF Cons.prems(1) h, of "drop_reference (now_epoch (gs_disk s))"] obtain s1 where
    s1: "chunk_update hex (drop_reference (now_epoch (gs_disk s))) s = (Inr (view s hex \<noteq> None), s1, [])" "ok s1" "outside s1 = outside s" by blast
  have d: "gs_disk s1 = gs_disk s" using outsideD(1) [OF s1(3)] .
  show ?case using Cons.IH [OF s1(2)] Cons.prems(2) s1(1) d
    by (simp add: decrement_def bind_run_def ask_def ret_def)
qed (simp add: decrement_def)

lemma decrement_view:
  assumes "ok s" "\<forall>hex \<in> set hexes. hex_of_hash hex" "distinct hexes"
  shows "\<exists>s'. decrement hexes s = (Inr (), s', []) \<and> ok s' \<and> outside s' = outside s
    \<and> view s' = (\<lambda>hex. if hex \<in> set hexes then map_option (drop_reference (now_epoch (gs_disk s))) (view s hex) else view s hex)"
  using update_each [OF assms, of "drop_reference (now_epoch (gs_disk s))"] decrement_eq [OF assms(1,2)] by auto

lemma check_present_view:
  assumes "ok s" "\<forall>hex \<in> set hexes. hex_of_hash hex"
  shows "check_present hexes s =
    (case find (\<lambda>hex. view s hex = None) hexes of None \<Rightarrow> (Inr (), s, []) | Some hex \<Rightarrow> (Inl (MissingChunk hex), s, []))"
  using assms(2)
proof (induction hexes)
  case (Cons hex hexes)
  then show ?case
    using contains_view [OF assms(1), of hex]
    by (auto simp: check_present_def bind_run_def ask_def ret_def fail_def split: option.splits)
qed (simp add: check_present_def ret_def)

text \<open>Counting an asset in, replacing one of the same name.\<close>

theorem count_asset_missing:
  assumes "ok s" "\<forall>hex \<in> set hexes. hex_of_hash hex" "find (\<lambda>hex. view s hex = None) hexes = Some hex"
  shows "count_asset name hexes s = (Inl (MissingChunk hex), s, [])"
  using check_present_view [OF assms(1,2)] assms(3) by (simp add: count_asset_def bind_run_def)

theorem count_asset_view:
  assumes "ok s" "counts_match (view s) (ix_assets (gs_index s))" "distinct hexes" "set hexes \<subseteq> dom (view s)"
    and "length (ix_assets (gs_index s)) + 1 < 2 ^ 64"
  shows "\<exists>s'. count_asset name hexes s = (Inr (), s', []) \<and> ok s'
    \<and> ix_assets (gs_index s') = bt_insert name hexes (bt_remove name (ix_assets (gs_index s)))
    \<and> counts_match (view s') (ix_assets (gs_index s'))
    \<and> (\<forall>hex. rel_option stored_alike (view s hex) (view s' hex)) \<and> beyond s' = beyond s"
proof -
  let ?a0 = "ix_assets (gs_index s)"
  let ?a1 = "bt_remove name ?a0"
  let ?a2 = "bt_insert name hexes ?a1"
  define old where "old = (case map_of ?a0 name of Some chunks \<Rightarrow> chunks | None \<Rightarrow> [])"
  let ?now = "now_epoch (gs_disk s)"
  have b0: "bt_ok ?a0" "bt_ok ?a1" "bt_ok ?a2" using assms(2) by (simp_all add: counts_match_def assets_in_def)
  have hx: "\<forall>hex \<in> set hexes. hex_of_hash hex" using assms(4) view_hex [OF assms(1)] by blast
  have oldc: "distinct old \<and> set old \<subseteq> dom (view s)"
  proof (cases "map_of ?a0 name")
    case (Some hs)
    then show ?thesis using assets_listed [of "view s" ?a0 name hs] assms(2) by (simp add: counts_match_def old_def)
  qed (simp add: old_def)
  have ohx: "\<forall>hex \<in> set old. hex_of_hash hex" using view_hex [OF assms(1)] conjunct2 [OF oldc] by blast
  have find: "find (\<lambda>hex. view s hex = None) hexes = None" using assms(4) by (auto simp: find_None_iff)
  have present: "check_present hexes s = (Inr (), s, [])" using check_present_view [OF assms(1) hx] find by simp
  let ?s1 = "remove_asset name s"
  have s1: "ok ?s1" "view ?s1 = view s" using frame_view [of ?s1 s] assms(1) by (simp_all add: remove_asset_def)
  have dk: "gs_disk ?s1 = gs_disk s" by (simp add: remove_asset_def)
  from decrement_view [OF s1(1) ohx conjunct1 [OF oldc]] obtain s2 where
    s2: "decrement old ?s1 = (Inr (), s2, [])" "ok s2" "outside s2 = outside ?s1"
      "view s2 = (\<lambda>hex. if hex \<in> set old then map_option (drop_reference ?now) (view s hex) else view s hex)"
    unfolding s1(2) dk by blast
  have d2: "(case map_of ?a0 name of Some chunks \<Rightarrow> decrement chunks | None \<Rightarrow> ret ()) ?s1 = (Inr (), s2, [])"
    using s2(1) by (cases "map_of ?a0 name") (simp_all add: decrement_def old_def)
  let ?s3 = "dirty_asset name s2"
  have s3: "ok ?s3" "view ?s3 = view s2" using frame_view [of ?s3 s2] s2(2) by (simp_all add: dirty_asset_def)
  from update_each [OF s3(1) hx assms(3), of take_reference] obtain s4 where
    s4: "for_each (\<lambda>hex. bind_run (chunk_update hex take_reference) (\<lambda>_. ret ())) hexes ?s3 = (Inr (), s4, [])" "ok s4"
      "view s4 = (\<lambda>hex. if hex \<in> set hexes then map_option take_reference (view s2 hex) else view s2 hex)"
      "outside s4 = outside ?s3" unfolding s3(2) by blast
  let ?s5 = "set_asset name hexes s4"
  have s5: "ok ?s5" "view ?s5 = view s4" using frame_view [of ?s5 s4] s4(2) by (simp_all add: set_asset_def)
  have run: "count_asset name hexes s = (Inr (), ?s5, [])"
    using present d2 s4(1) by (simp add: count_asset_def bind_run_def ask_def memory_def)
  have "ix_assets (gs_index s4) = ix_assets (gs_index ?s3)" by (rule outsideD(10) [OF s4(4)])
  also have "\<dots> = ix_assets (gs_index s2)" by (simp add: dirty_asset_def)
  also have "\<dots> = ix_assets (gs_index ?s1)" by (rule outsideD(10) [OF s2(3)])
  finally have as: "ix_assets (gs_index ?s5) = ?a2" by (simp add: set_asset_def remove_asset_def)
  have v5: "view ?s5 hex = (let v = (if hex \<in> set old then map_option (drop_reference ?now) (view s hex) else view s hex)
      in if hex \<in> set hexes then map_option take_reference v else v)" for hex
    by (simp add: s5(2) s4(3) s2(4) Let_def)
  have alike: "rel_option stored_alike (view s hex) (view ?s5 hex)" for hex
    by (cases "view s hex") (simp_all add: v5 Let_def stored_alike_def take_reference_def drop_reference_def)
  have gone: "map_of ?a1 name = None" by simp
  have cnt: "counted ?a2 hex info5" if v: "view ?s5 hex = Some info5" for hex info5
  proof -
    obtain info where i: "view s hex = Some info" using alike [of hex] v by (cases "view s hex") auto
    have c0: "counted ?a0 hex info" using assms(2) i by (auto simp: counts_match_def)
    let ?info1 = "if hex \<in> set old then drop_reference ?now info else info"
    have l0: "listed ?a0 hex = listed ?a1 hex + (if hex \<in> set old then 1 else 0)"
      using listed_remove [OF b0(1), of hex name] by (cases "map_of ?a0 name") (simp_all add: old_def)
    have c1: "counted ?a1 hex ?info1"
      using drop_reference_count [OF c0, of "listed ?a1 hex" ?now] c0 l0 by (simp add: counted_def)
    have "listed ?a1 hex + 1 < 2 ^ 64" using listed_bound [of ?a0 hex] l0 assms(5) by linarith
    note t = take_reference_count [OF c1 this]
    have "info5 = (if hex \<in> set hexes then take_reference ?info1 else ?info1)" using v i by (simp add: v5 Let_def split: if_splits)
    then show ?thesis using c1 t listed_insert [OF gone, of hexes hex] by (simp add: counted_def)
  qed
  have dom: "dom (view ?s5) = dom (view s)" using alike by (auto simp: dom_def) (metis option.rel_distinct option.exhaust)+
  have "assets_in (view ?s5) ?a2"
  proof -
    have "length ?a2 \<le> length ?a0 + 1" using length_bt_insert [of name hexes ?a1] length_bt_remove [of name ?a0] by linarith
    moreover have "distinct hs \<and> set hs \<subseteq> dom (view s)" if "(n, hs) \<in> set ?a2" for n hs
      using that set_insert_subset [of name hexes ?a1] assms(2-4) by (fastforce simp: set_remove counts_match_def assets_in_def)
    ultimately show ?thesis using b0(3) assms(5) unfolding assets_in_def dom by auto
  qed
  then have match: "counts_match (view ?s5) (ix_assets (gs_index ?s5))" using cnt unfolding as counts_match_def by blast
  have "beyond ?s5 = beyond s4" by (simp add: beyond_def set_asset_def)
  also have "\<dots> = beyond ?s3" by (rule beyond_outside [OF s4(4)])
  also have "\<dots> = beyond s2" by (simp add: beyond_def dirty_asset_def)
  also have "\<dots> = beyond ?s1" by (rule beyond_outside [OF s2(3)])
  also have "\<dots> = beyond s" by (simp add: beyond_def remove_asset_def)
  finally show ?thesis using run s5(1) as match alike by blast
qed

end

end
