(* ===== verification/Pack_Laws.thy ===== *)
theory Pack_Laws
  imports Pack_File
begin

text \<open>
  What the pack writer promises: a writer has written a header and then the chunks it lists, end to
  end; the finished file passes its check, gives every chunk back by its range, and its sidecar
  index reads back as the list of its chunks.
\<close>

section \<open>Hashing streams\<close>

lemma hash_stream_fed: "hash_stream bs (Hasher fed) = Hasher (fed @ bs)"
proof (induction "length bs" arbitrary: bs fed rule: less_induct)
  case less
  show ?case
  proof (cases "bs = []")
    case False
    have "length (drop pack_buffer bs) < length bs" using False by (simp add: pack_buffer_def)
    from less [OF this] False show ?thesis by (simp add: hash_stream.simps [of bs])
  qed (simp add: hash_stream.simps)
qed

lemma hash_file_eq [simp]: "hash_file blake3 bs = blake3 bs"
  by (simp add: hash_file_def hasher_new_def hash_stream_fed)

lemma verify_stream_rest: "verify_stream path False rest (Hasher fed) = Inr (Hasher (fed @ rest))"
proof (induction "length rest" arbitrary: rest fed rule: less_induct)
  case less
  show ?case
  proof (cases "rest = []")
    case False
    have "length (drop pack_buffer rest) < length rest" using False by (simp add: pack_buffer_def)
    from less [OF this] False show ?thesis by (simp add: verify_stream.simps [of _ _ rest])
  qed (simp add: verify_stream.simps)
qed

lemma verify_stream_eq:
  assumes "8 \<le> length body"
  shows "verify_stream path True body hasher_new =
    (if take 8 body = pack_magic then Inr (Hasher body) else Inl (PackCorrupt (path @ '': bad magic'')))"
proof -
  have "take 8 (take pack_buffer body) = take 8 body" "min 8 (length (take pack_buffer body)) = 8"
    using assms by (simp_all add: pack_buffer_def min_def)
  moreover have "verify_stream path False (drop pack_buffer body) (Hasher (take pack_buffer body)) = Inr (Hasher body)"
    by (simp add: verify_stream_rest)
  ultimately show ?thesis
    using assms by (subst verify_stream.simps) (auto simp: Let_def hasher_new_def)
qed

text \<open>The check accepts exactly the sealed files.\<close>

lemma verify_pack_iff:
  assumes "hash_ok blake3"
  shows "verify_pack blake3 path file = Inr () \<longleftrightarrow>
    (\<exists>body. file = Some (body @ pack_footer_magic @ blake3 body) \<and> pack_header_len \<le> length body \<and> take 8 body = pack_magic)"
proof
  assume v: "verify_pack blake3 path file = Inr ()"
  then obtain bs where bs: "file = Some bs" by (cases "file") (simp_all add: verify_pack_def)
  let ?n = "length bs - pack_footer_len"
  let ?body = "take ?n bs" and ?footer = "drop ?n bs"
  have l: "pack_header_len + pack_footer_len \<le> length bs"
    using v by (simp add: verify_pack_def bs Let_def split: if_splits)
  then have b: "8 \<le> length ?body" "pack_header_len \<le> length ?body" by (simp_all add: pack_header_len_def pack_footer_len_def)
  have m: "take 8 ?body = pack_magic" "take 8 ?footer = pack_footer_magic" "drop 8 ?footer = blake3 ?body"
    using v l by (simp_all add: verify_pack_def bs Let_def verify_stream_eq [OF b(1)] split: if_splits)
  have "bs = ?body @ ?footer" "?footer = take 8 ?footer @ drop 8 ?footer" by (simp_all only: append_take_drop_id)
  then have "bs = ?body @ pack_footer_magic @ blake3 ?body" using m by metis
  then show "\<exists>body. file = Some (body @ pack_footer_magic @ blake3 body) \<and> pack_header_len \<le> length body \<and> take 8 body = pack_magic"
    using b(2) m(1) bs by blast
next
  assume "\<exists>body. file = Some (body @ pack_footer_magic @ blake3 body) \<and> pack_header_len \<le> length body \<and> take 8 body = pack_magic"
  then obtain body where b: "file = Some (body @ pack_footer_magic @ blake3 body)" "pack_header_len \<le> length body"
    "take 8 body = pack_magic" by blast
  have "length (blake3 body) = 32" using assms by (simp add: hash_ok_def)
  moreover have "8 \<le> length body" using b(2) by (simp add: pack_header_len_def)
  ultimately show "verify_pack blake3 path file = Inr ()"
    using b by (simp add: verify_pack_def Let_def pack_footer_len_def pack_header_len_def verify_stream_eq)
qed

section \<open>The writer's invariant\<close>

text \<open>A chunk in its stored form, with its hash, raw length and flags.\<close>

type_synonym packed_chunk = "chunk_hash \<times> bytes \<times> u32 \<times> u32"

definition pack_data :: "packed_chunk list \<Rightarrow> bytes" where
  "pack_data cs = concat (map (\<lambda>c. fst (snd c)) cs)"

lemma pack_data_simps [simp]:
  "pack_data [] = []" "pack_data ((h, bs, n, f) # cs) = bs @ pack_data cs" "pack_data (cs @ cs') = pack_data cs @ pack_data cs'"
  by (simp_all add: pack_data_def)

fun pack_entries_from :: "nat \<Rightarrow> packed_chunk list \<Rightarrow> pack_entry list" where
  "pack_entries_from at [] = []"
| "pack_entries_from at ((h, bs, n, f) # cs) =
     \<lparr>pe_hash = h, pe_offset = of_nat at, pe_stored_len = of_nat (length bs), pe_raw_len = n, pe_flags = f\<rparr>
       # pack_entries_from (at + length bs) cs"

lemma pack_entries_append:
  "pack_entries_from at (cs @ cs') = pack_entries_from at cs @ pack_entries_from (at + length (pack_data cs)) cs'"
  by (induction at cs rule: pack_entries_from.induct) (simp_all add: add.assoc)

lemma length_pack_entries [simp]: "length (pack_entries_from at cs) = length cs"
  by (induction at cs rule: pack_entries_from.induct) simp_all

definition pack_ok :: "packed_chunk list \<Rightarrow> pack_writer \<Rightarrow> bool" where
  "pack_ok cs w \<longleftrightarrow> w = \<lparr>pw_out = pack_header @ pack_data cs, pw_hasher = Hasher (pack_header @ pack_data cs),
     pw_data_len = of_nat (length (pack_data cs)), pw_entries = pack_entries_from 0 cs\<rparr>"

lemma create_pack_ok: "pack_ok [] create_pack"
  by (simp add: pack_ok_def create_pack_def hasher_new_def)

lemma pack_append_ok:
  "pack_ok cs w \<Longrightarrow> pack_append h bs n f w = (pw_data_len w, snd (pack_append h bs n f w))
     \<and> pack_ok (cs @ [(h, bs, n, f)]) (snd (pack_append h bs n f w))"
  by (simp add: pack_ok_def pack_append_def pack_entries_append)

lemma length_pack_header [simp]: "length pack_header = 16"
  by (simp add: pack_header_def)

lemma pack_header_magic: "take 8 (pack_header @ rest) = pack_magic"
  by (simp add: pack_header_def del: to_le.simps)

lemma sealed_pack_eq:
  "pack_ok cs w \<Longrightarrow> sealed_pack blake3 w = (pack_header @ pack_data cs) @ pack_footer_magic @ blake3 (pack_header @ pack_data cs)"
  by (simp add: pack_ok_def sealed_pack_def)

text \<open>The chunks a pack can hold: the widths of its fields suffice.\<close>

definition packable :: "packed_chunk list \<Rightarrow> bool" where
  "packable cs \<longleftrightarrow> (\<forall>(h, bs, n, f) \<in> set cs. length h = 32 \<and> length bs < 2 ^ 32)
     \<and> length cs < 2 ^ 32 \<and> length (pack_data cs) + pack_header_len < 2 ^ 64"

lemma sealed_pack_verifies:
  assumes "hash_ok blake3" "pack_ok cs w"
  shows "verify_pack blake3 path (Some (sealed_pack blake3 w)) = Inr ()"
proof -
  let ?body = "pack_header @ pack_data cs"
  have "Some (sealed_pack blake3 w) = Some (?body @ pack_footer_magic @ blake3 ?body)"
    using sealed_pack_eq [OF assms(2)] by simp
  moreover have "pack_header_len \<le> length ?body" by (simp add: pack_header_len_def)
  moreover have "take 8 ?body = pack_magic" by (rule pack_header_magic)
  ultimately show ?thesis unfolding verify_pack_iff [OF assms(1)] by blast
qed

lemma sealed_pack_range:
  assumes "hash_ok blake3" "pack_ok (cs @ (h, bs, n, f) # cs') w" "packable (cs @ (h, bs, n, f) # cs')"
  shows "read_pack_range path (Some (sealed_pack blake3 w)) (of_nat (length (pack_data cs))) (of_nat (length bs)) = Inr bs"
proof -
  let ?bytes = "sealed_pack blake3 w"
  have e: "?bytes = (pack_header @ pack_data cs) @ bs @ (pack_data cs' @ pack_footer_magic
       @ blake3 (pack_header @ pack_data cs @ bs @ pack_data cs'))"
    using sealed_pack_eq [OF assms(2), of blake3] by simp
  have b: "length (pack_data cs) + length bs + length (pack_data cs') + 16 < 2 ^ 64"
    using assms(3) by (simp add: packable_def pack_header_len_def)
  have l: "length ?bytes = 16 + length (pack_data cs) + length bs + length (pack_data cs') + 40"
    using assms(1) by (simp add: e hash_ok_def)
  have u: "unat (of_nat (length (pack_data cs)) :: u64) = length (pack_data cs)"
      "unat (of_nat (length bs) :: u64) = length bs"
    using b by (simp_all add: unsigned_of_nat take_bit_nat_eq_self)
  have "take (length bs) (drop (16 + length (pack_data cs)) ?bytes) = bs"
    unfolding e by simp
  then show ?thesis
    using b by (simp add: read_pack_range_def u l pack_header_len_def pack_footer_len_def)
qed

lemma length_pack_entry: "length (pe_hash e) = 32 \<Longrightarrow> length (encode_pack_entry e) = pack_entry_len"
  by (simp add: encode_pack_entry_def pack_entry_len_def del: to_le.simps)

lemma decode_encode_entry:
  assumes "length (pe_hash e) = 32"
  shows "decode_pack_entry (encode_pack_entry e) = e"
  by (cases e) (use assms in \<open>simp add: decode_pack_entry_def encode_pack_entry_def del: to_le.simps\<close>)

lemma whole_pieces_entries:
  assumes "\<forall>e \<in> set es. length (pe_hash e) = 32"
  shows "map decode_pack_entry (whole_pieces pack_entry_len (length es) (encode_all encode_pack_entry es)) = es
    \<and> length (encode_all encode_pack_entry es) = length es * pack_entry_len"
  using assms by (induction es) (simp_all add: length_pack_entry decode_encode_entry)

lemma pack_index_reads:
  assumes "hash_ok blake3" "length pack_id = 32" "\<forall>e \<in> set es. length (pe_hash e) = 32" "length es < 2 ^ 32"
  shows "read_pack_index blake3 path (Some (pack_index_bytes blake3 pack_id es)) = Inr (pack_id, es)"
proof -
  let ?n = "of_nat (length es) :: u32" and ?es = "encode_all encode_pack_entry es"
  let ?body = "pack_index_magic @ pack_id @ to_le 4 ?n @ ?es"
  note w = whole_pieces_entries [OF assms(3)]
  have n: "unat ?n = length es" using assms(4) by (simp add: unsigned_of_nat take_bit_nat_eq_self)
  have d: "length (hash_chunk blake3 ?body) = 32" using assms(1) by (simp add: hash_chunk_def hash_ok_def)
  have p: "0 < pack_entry_len" by (simp add: pack_entry_len_def)
  have s: "take (length (?body @ hash_chunk blake3 ?body) - 32) (?body @ hash_chunk blake3 ?body) = ?body"
      "drop (length (?body @ hash_chunk blake3 ?body) - 32) (?body @ hash_chunk blake3 ?body) = hash_chunk blake3 ?body"
    using d by simp_all
  have f: "take 32 (drop 8 ?body) = pack_id" "take 4 (drop 40 ?body) = to_le 4 ?n" "drop 44 ?body = ?es"
      "take 8 (?body @ hash_chunk blake3 ?body) = pack_index_magic" "44 + 32 \<le> length (?body @ hash_chunk blake3 ?body)"
    using assms(2) d by (simp_all del: to_le.simps)
  have k: "(from_le (to_le 4 ?n) :: u32) = ?n" by (simp del: to_le.simps)
  show ?thesis
    unfolding read_pack_index_def pack_index_bytes_def Let_def ok_or_simps rbind_simps s f k n
    using w p f(5) by (simp del: to_le.simps)
qed

end
