(* ===== verification/Store_Bytes.thy ===== *)
theory Store_Bytes
  imports Store_Counts Pack_Laws
begin

text \<open>
  That a store gives back what it was given: for every chunk of the ledger the bytes it was stored
  with are in its loose file, in the open pack, or in the pack and at the offset the ledger names.
  Storing a chunk and closing a pack keep this, over either representation of the ledger.
\<close>

section \<open>Paths\<close>

lemma path_set [simp]:
  "path_file (set_path p bs d) q = (if p = q then Some \<lparr>sf_bytes = bs, sf_mtime = sd_clock d\<rparr> else path_file d q)"
  by (simp add: path_file_def set_path_def update_conv')

lemma path_del [simp]: "path_file (del_path p d) q = (if p = q then None else path_file d q)"
  by (simp add: path_file_def del_path_def delete_conv')

lemma path_move:
  assumes "path_file d a = Some f" "a \<noteq> b"
  shows "path_file (move_path a b d) q = (if q = b then Some f else if q = a then None else path_file d q)"
  using assms by (simp add: path_file_def move_path_def update_conv' delete_conv')

lemma path_bytes_set [simp]: "path_bytes (set_path p bs d) q = (if p = q then Some bs else path_bytes d q)"
  by (simp add: path_bytes_def)

lemma path_bytes_del [simp]: "path_bytes (del_path p d) q = (if p = q then None else path_bytes d q)"
  by (simp add: path_bytes_def)

lemma disk_rest [simp]:
  "sd_index (set_path p bs d) = sd_index d" "sd_clock (set_path p bs d) = sd_clock d"
  "sd_index (del_path p d) = sd_index d" "sd_clock (del_path p d) = sd_clock d"
  "sd_index (move_path a b d) = sd_index d" "sd_clock (move_path a b d) = sd_clock d"
  by (auto simp: set_path_def del_path_def move_path_def split: option.splits)

lemma runs_write: "runs (write_path p bs) s () (s\<lparr>gs_disk := set_path p bs (set_path p [] (gs_disk s))\<rparr>)"
proof -
  let ?s = "s\<lparr>gs_disk := set_path p [] (gs_disk s)\<rparr>"
  have "runs (on_disk (set_path p bs)) ?s () (?s\<lparr>gs_disk := set_path p bs (gs_disk ?s)\<rparr>)" by (rule runs_disk)
  then show ?thesis unfolding write_path_def by (intro runs_bind [OF runs_disk]) simp
qed

lemma runs_rename:
  assumes "path_file (gs_disk s) a = Some f"
  shows "runs (rename_path a b) s () (s\<lparr>gs_disk := move_path a b (gs_disk s)\<rparr>)"
  unfolding rename_path_def
  by (rule runs_bind, rule runs_ask, rule refl, simp only: assms option.case, rule runs_disk)

text \<open>The directory changed at most at the paths \<open>P\<close>.\<close>

definition changed_at :: "store_path set \<Rightarrow> store_dir \<Rightarrow> store_dir \<Rightarrow> bool" where
  "changed_at P d d' \<longleftrightarrow> (\<forall>q. q \<notin> P \<longrightarrow> path_file d' q = path_file d q) \<and> sd_index d' = sd_index d \<and> sd_clock d' = sd_clock d"

lemma changed_refl [simp]: "changed_at P d d"
  by (simp add: changed_at_def)

lemma changed_trans: "changed_at P a b \<Longrightarrow> changed_at P b c \<Longrightarrow> changed_at P a c"
  by (simp add: changed_at_def)

lemma changed_mono: "changed_at P a b \<Longrightarrow> P \<subseteq> Q \<Longrightarrow> changed_at Q a b"
  by (auto simp: changed_at_def)

lemma changed_bytes: "changed_at P d d' \<Longrightarrow> q \<notin> P \<Longrightarrow> path_bytes d' q = path_bytes d q"
  by (simp add: changed_at_def path_bytes_def)

section \<open>Closing a pack\<close>

lemma finish_pack_runs:
  assumes "hash_ok blake3"
  shows "\<exists>d'. runs (finish_pack blake3 n w) s (to_hex (sealed_id blake3 w), pw_entries w) (s\<lparr>gs_disk := d'\<rparr>)
    \<and> path_bytes d' (PackFile (to_hex (sealed_id blake3 w))) = Some (sealed_pack blake3 w)
    \<and> path_bytes d' (PackIndex (to_hex (sealed_id blake3 w))) = Some (pack_index_bytes blake3 (sealed_id blake3 w) (pw_entries w))
    \<and> changed_at {PackPart n, PackFile (to_hex (sealed_id blake3 w)), PackIndexTmp (to_hex (sealed_id blake3 w)),
         PackIndex (to_hex (sealed_id blake3 w))} (gs_disk s) d'"
proof -
  let ?hex = "to_hex (sealed_id blake3 w)" and ?file = "sealed_pack blake3 w"
  let ?idx = "pack_index_bytes blake3 (sealed_id blake3 w) (pw_entries w)"
  let ?d1 = "set_path (PackPart n) ?file (gs_disk s)"
  let ?d2 = "move_path (PackPart n) (PackFile ?hex) ?d1"
  let ?d3 = "set_path (PackIndexTmp ?hex) ?idx (set_path (PackIndexTmp ?hex) [] ?d2)"
  let ?d4 = "move_path (PackIndexTmp ?hex) (PackIndex ?hex) ?d3"
  obtain f1 where f1: "path_file ?d1 (PackPart n) = Some f1" "sf_bytes f1 = ?file" by simp
  obtain f3 where f3: "path_file ?d3 (PackIndexTmp ?hex) = Some f3" "sf_bytes f3 = ?idx" by simp
  note m2 = path_move [OF f1(1), of "PackFile ?hex", simplified] and m4 = path_move [OF f3(1), of "PackIndex ?hex", simplified]
  have r1: "runs (on_disk (set_path (PackPart n) ?file)) s () (s\<lparr>gs_disk := ?d1\<rparr>)" by (rule runs_disk)
  have r2: "runs (rename_path (PackPart n) (PackFile ?hex)) (s\<lparr>gs_disk := ?d1\<rparr>) () (s\<lparr>gs_disk := ?d2\<rparr>)"
    using runs_rename [of "s\<lparr>gs_disk := ?d1\<rparr>" "PackPart n" f1 "PackFile ?hex"] f1(1) by simp
  have r3: "runs (write_path (PackIndexTmp ?hex) ?idx) (s\<lparr>gs_disk := ?d2\<rparr>) () (s\<lparr>gs_disk := ?d3\<rparr>)"
    using runs_write [of "PackIndexTmp ?hex" ?idx "s\<lparr>gs_disk := ?d2\<rparr>"] by simp
  have r4: "runs (rename_path (PackIndexTmp ?hex) (PackIndex ?hex)) (s\<lparr>gs_disk := ?d3\<rparr>) () (s\<lparr>gs_disk := ?d4\<rparr>)"
    using runs_rename [of "s\<lparr>gs_disk := ?d3\<rparr>" "PackIndexTmp ?hex" f3 "PackIndex ?hex"] f3(1) by simp
  have "runs (finish_pack blake3 n w) s (?hex, pw_entries w) (s\<lparr>gs_disk := ?d4\<rparr>)"
    unfolding finish_pack_def Let_def
    by (rule runs_bind, rule r1, rule runs_bind, rule r2, rule runs_bind, rule r3, rule runs_bind, rule r4, rule runs_ret)
  moreover have "path_bytes ?d4 (PackFile ?hex) = Some ?file" "path_bytes ?d4 (PackIndex ?hex) = Some ?idx"
    using f1(2) f3(2) by (simp_all add: path_bytes_def m4 m2)
  moreover have "changed_at {PackPart n, PackFile ?hex, PackIndexTmp ?hex, PackIndex ?hex} (gs_disk s) ?d4"
    by (simp add: changed_at_def m4 m2)
  ultimately show ?thesis by blast
qed

section \<open>What is stored where\<close>

definition chunk_stored :: "store_dir \<Rightarrow> string \<Rightarrow> chunk_info \<Rightarrow> bytes \<Rightarrow> bool" where
  "chunk_stored d hex info bs \<longleftrightarrow> length bs = unat (len_stored info)
     \<and> (case ci_pack info of
          Some p \<Rightarrow> (\<exists>off. pack_offset info = Some off \<and> read_in_pack p off (ucast (len_stored info)) d = Inr bs)
        | None \<Rightarrow> pack_offset info = None \<and> path_bytes d (LooseChunk hex) = Some bs)"

definition pack_file_of :: "hash_fun \<Rightarrow> packed_chunk list \<Rightarrow> bytes" where
  "pack_file_of blake3 cs = (pack_header @ pack_data cs) @ pack_footer_magic @ blake3 (pack_header @ pack_data cs)"

text \<open>Packs, in place and in quarantine, are files from \<open>U\<close> named by their content.\<close>

definition packs_named :: "hash_fun \<Rightarrow> bytes set \<Rightarrow> store_dir \<Rightarrow> bool" where
  "packs_named blake3 U d \<longleftrightarrow> (\<forall>hex bs. path_bytes d (PackFile hex) = Some bs \<or> path_bytes d (QuarantinePack hex) = Some bs
     \<longrightarrow> bs \<in> U \<and> hex = to_hex (blake3 bs))"

definition open_chunks :: "global_store \<Rightarrow> packed_chunk list \<Rightarrow> bool" where
  "open_chunks s cs \<longleftrightarrow> (case gs_open_pack s of None \<Rightarrow> cs = [] | Some (n, w) \<Rightarrow> pack_ok cs w)"

definition sealable :: "hash_fun \<Rightarrow> bytes set \<Rightarrow> packed_chunk list \<Rightarrow> bool" where
  "sealable blake3 U cs \<longleftrightarrow> packable cs \<and> pack_file_of blake3 cs \<in> U"

text \<open>A chunk of the open pack, as the ledger has it.\<close>

definition pending_chunk :: "(string \<Rightarrow> chunk_info option) \<Rightarrow> (string \<Rightarrow> bytes) \<Rightarrow> packed_chunk \<Rightarrow> bool" where
  "pending_chunk v c x = (case x of (h, bs, raw, fl) \<Rightarrow> c (to_hex h) = bs
     \<and> (\<exists>info. v (to_hex h) = Some info \<and> ci_pack info = None \<and> pack_offset info = None \<and> unat (len_stored info) = length bs))"

definition bytes_kept :: "hash_fun \<Rightarrow> bytes set \<Rightarrow> (string \<Rightarrow> chunk_info option) \<Rightarrow> (string \<Rightarrow> bytes) \<Rightarrow> store_dir \<Rightarrow> packed_chunk list \<Rightarrow> bool" where
  "bytes_kept blake3 U v c d cs \<longleftrightarrow> packs_named blake3 U d \<and> distinct (map fst cs) \<and> (cs = [] \<or> sealable blake3 U cs)
     \<and> (\<forall>x \<in> set cs. pending_chunk v c x)
     \<and> (\<forall>hex info. v hex = Some info \<and> hex \<notin> to_hex ` fst ` set cs \<longrightarrow> chunk_stored d hex info (c hex))"

text \<open>Differences of two entries that do not concern where the bytes are; and only that.\<close>

definition moved :: "chunk_info \<Rightarrow> chunk_info \<Rightarrow> bool" where
  "moved i j \<longleftrightarrow> len_raw i = len_raw j \<and> len_stored i = len_stored j \<and> ci_flags i = ci_flags j
     \<and> refcount i = refcount j \<and> zero_since i = zero_since j"

lemma moved_refl [simp]: "moved i i"
  by (simp add: moved_def)

lemma rel_moved_refl [simp]: "rel_option moved v v"
  by (cases v) simp_all

definition beside :: "global_store \<Rightarrow> global_store" where
  "beside s = (outside s)\<lparr>gs_disk := \<lparr>sd_files = [], sd_index = sd_index (gs_disk s), sd_clock = sd_clock (gs_disk s)\<rparr>,
     gs_open_pack := None, gs_parts := 0\<rparr>"

lemma beside_outside: "outside s = outside s' \<Longrightarrow> beside s = beside s'"
  using outsideD(1) by (metis beside_def)

lemma pack_path_hex: "length h = 32 \<Longrightarrow> pack_path (to_hex h) = Inr (PackFile (to_hex h))"
  using starts_at_boundary_to_hex by (cases h) (auto simp: pack_path_def to_hex_Cons)

lemma read_in_pack_file: "read_in_pack p off len d = Inr bs \<Longrightarrow> \<exists>file. path_bytes d (PackFile p) = Some file"
  by (auto simp: read_in_pack_def pack_path_def read_pack_range_def rbind_eq_Inr ok_or_eq_Inr split: if_splits)

lemma read_in_pack_cong: "path_bytes d' (PackFile p) = path_bytes d (PackFile p) \<Longrightarrow> read_in_pack p off len d' = read_in_pack p off len d"
  by (auto simp: read_in_pack_def pack_path_def)

text \<open>Where the loose files and the packs that are there are kept, what is stored is.\<close>

lemma chunk_stored_mono:
  assumes "chunk_stored d hex info bs" "path_bytes d' (LooseChunk hex) = path_bytes d (LooseChunk hex)"
    and "\<And>p file. path_bytes d (PackFile p) = Some file \<Longrightarrow> path_bytes d' (PackFile p) = Some file"
  shows "chunk_stored d' hex info bs"
proof (cases "ci_pack info")
  case (Some p)
  then obtain off where r: "pack_offset info = Some off" "read_in_pack p off (ucast (len_stored info)) d = Inr bs"
    using assms(1) by (auto simp: chunk_stored_def)
  from read_in_pack_file [OF r(2)] assms(3) have "path_bytes d' (PackFile p) = path_bytes d (PackFile p)" by auto
  then have e: "read_in_pack p o' len d' = read_in_pack p o' len d" for o' len by (rule read_in_pack_cong)
  show ?thesis using assms(1) by (simp add: chunk_stored_def Some e)
qed (use assms in \<open>simp add: chunk_stored_def\<close>)

section \<open>Resolving the chunks of a closed pack\<close>

definition located :: "string \<Rightarrow> pack_entry \<Rightarrow> chunk_info \<Rightarrow> chunk_info" where
  "located pack e info = info\<lparr>ci_pack := Some pack, pack_offset := Some (pe_offset e)\<rparr>"

definition entry_of :: "pack_entry list \<Rightarrow> string \<Rightarrow> pack_entry option" where
  "entry_of es hex = find (\<lambda>e. to_hex (pe_hash e) = hex) es"

lemma entry_of_simps [simp]:
  "entry_of [] hex = None"
  "entry_of (e # es) hex = (if to_hex (pe_hash e) = hex then Some e else entry_of es hex)"
  by (simp_all add: entry_of_def)

lemma entry_of_pack:
  assumes "distinct (map fst (cs1 @ (h, bs, raw, fl) # cs2))"
  shows "entry_of (pack_entries_from at (cs1 @ (h, bs, raw, fl) # cs2)) (to_hex h)
    = Some \<lparr>pe_hash = h, pe_offset = of_nat (at + length (pack_data cs1)), pe_stored_len = of_nat (length bs), pe_raw_len = raw, pe_flags = fl\<rparr>"
  using assms
proof (induction cs1 arbitrary: at)
  case (Cons c cs1)
  then show ?case by (cases c) (auto simp: to_hex_eq add.assoc)
qed simp

lemma entry_of_absent: "hex \<notin> to_hex ` fst ` set cs \<Longrightarrow> entry_of (pack_entries_from at cs) hex = None"
  by (induction at cs rule: pack_entries_from.induct) auto

lemma pack_entry_hashes: "pe_hash ` set (pack_entries_from at cs) = fst ` set cs"
  by (induction at cs rule: pack_entries_from.induct) auto

lemma pack_entry_hash_list: "map pe_hash (pack_entries_from at cs) = map fst cs"
  by (induction at cs rule: pack_entries_from.induct) auto

context chunk_table
begin

lemma resolve_entries:
  assumes "ok s" "distinct (map pe_hash es)" "\<forall>e \<in> set es. length (pe_hash e) = 32 \<and> view s (to_hex (pe_hash e)) \<noteq> None"
  shows "\<exists>s'. runs (for_each (resolve_entry pack) es) s () s' \<and> ok s' \<and> outside s' = outside s
    \<and> view s' = (\<lambda>hex. case entry_of es hex of Some e \<Rightarrow> map_option (located pack e) (view s hex) | None \<Rightarrow> view s hex)"
  using assms
proof (induction es arbitrary: s)
  case Nil
  then show ?case by (auto intro!: exI [of _ s] runs_ret)
next
  case (Cons e es)
  let ?hex = "to_hex (pe_hash e)"
  have hx: "hex_of_hash ?hex" using Cons.prems(3) by (auto simp: hex_of_hash_def)
  from update_view [OF Cons.prems(1) hx, of "located pack e"] Cons.prems(3) obtain s1 where
    s1: "chunk_update ?hex (located pack e) s = (Inr True, s1, [])" "ok s1"
      "view s1 = (view s)(?hex := map_option (located pack e) (view s ?hex))" "outside s1 = outside s" by auto
  have "(\<lambda>info. info\<lparr>ci_pack := Some pack, pack_offset := Some (pe_offset e)\<rparr>) = located pack e"
    by (simp add: located_def fun_eq_iff)
  then have step: "runs (resolve_entry pack e) s () s1"
    unfolding resolve_entry_def Let_def using s1(1) by (simp add: goes_def bind_run_def ret_def)
  have d: "distinct (map pe_hash es)" "pe_hash e \<notin> pe_hash ` set es" using Cons.prems(2) by auto
  have "\<forall>e' \<in> set es. length (pe_hash e') = 32 \<and> view s1 (to_hex (pe_hash e')) \<noteq> None"
    using Cons.prems(3) s1(3) by auto
  from Cons.IH [OF s1(2) d(1) this] obtain s2 where
    s2: "runs (for_each (resolve_entry pack) es) s1 () s2" "ok s2" "outside s2 = outside s1"
      "view s2 = (\<lambda>hex. case entry_of es hex of Some e \<Rightarrow> map_option (located pack e) (view s1 hex) | None \<Rightarrow> view s1 hex)" by blast
  have "entry_of es ?hex = None" using d(2) by (induction es) (auto simp: to_hex_eq)
  then have v: "view s2 = (\<lambda>hex. case entry_of (e # es) hex of Some e \<Rightarrow> map_option (located pack e) (view s hex) | None \<Rightarrow> view s hex)"
    by (auto simp: s2(4) s1(3) fun_eq_iff split: option.splits)
  have "runs (for_each (resolve_entry pack) (e # es)) s () s2" using runs_bind [OF step s2(1)] by simp
  then show ?case using s2(2,3) v s1(4) by auto
qed

theorem flush_packs_view:
  assumes "hash_ok blake3" "inj_on blake3 U" "ok s" "open_chunks s cs" "bytes_kept blake3 U (view s) c (gs_disk s) cs"
  shows "\<exists>s'. runs (flush_packs blake3) s () s' \<and> ok s' \<and> gs_open_pack s' = None
    \<and> bytes_kept blake3 U (view s') c (gs_disk s') [] \<and> (\<forall>hex. rel_option moved (view s hex) (view s' hex))
    \<and> beside s' = beside s"
proof (cases "gs_open_pack s")
  case None
  have "runs (flush_packs blake3) s () s"
    unfolding flush_packs_def by (rule runs_bind, rule runs_ask, rule refl, simp only: None option.case, rule runs_ret)
  moreover have "cs = []" using assms(4) None by (simp add: open_chunks_def)
  ultimately show ?thesis using assms(3,5) None by (intro exI [of _ s]) simp
next
  case (Some nw)
  obtain n w where nw: "gs_open_pack s = Some (n, w)" using Some by fastforce
  have w: "pack_ok cs w" using assms(4) nw by (simp add: open_chunks_def)
  let ?s1 = "s\<lparr>gs_open_pack := None\<rparr>"
  have s1: "ok ?s1" "view ?s1 = view s" using frame_view [of ?s1 s] assms(3) by simp_all
  show ?thesis
  proof (cases "cs = []")
    case True
    then have e: "pw_entries w = []" using w by (simp add: pack_ok_def)
    let ?s2 = "?s1\<lparr>gs_disk := del_path (PackPart n) (gs_disk ?s1)\<rparr>"
    have "runs (flush_packs blake3) s () ?s2"
      unfolding flush_packs_def
      by (rule runs_bind, rule runs_ask, rule refl, simp only: nw option.case prod.case e if_True simp_thms,
          rule runs_bind, rule runs_memory, unfold remove_path_def, rule runs_disk)
    moreover have "ok ?s2" "view ?s2 = view s" using frame_view [of ?s2 s] assms(3) by simp_all
    moreover have "bytes_kept blake3 U (view s) c (gs_disk ?s2) []"
      using assms(5) True chunk_stored_mono [of "gs_disk s" _ _ _ "gs_disk ?s2"] by (simp add: bytes_kept_def packs_named_def)
    moreover have "beside ?s2 = beside s" by (simp add: beside_def outside_def)
    ultimately show ?thesis by (intro exI [of _ ?s2]) simp
  next
    case False
    let ?hex = "to_hex (sealed_id blake3 w)" and ?file = "pack_file_of blake3 cs"
    have e: "pw_entries w = pack_entries_from 0 cs" "sealed_pack blake3 w = ?file"
      using w sealed_pack_eq [OF w] by (simp_all add: pack_ok_def pack_file_of_def)
    have id: "sealed_id blake3 w = blake3 ?file" by (simp add: sealed_id_def e(2))
    have U: "?file \<in> U" "packable cs" using assms(5) False by (simp_all add: bytes_kept_def sealable_def)
    from finish_pack_runs [OF assms(1), of n w ?s1] obtain d' where
      d': "runs (finish_pack blake3 n w) ?s1 (?hex, pw_entries w) (?s1\<lparr>gs_disk := d'\<rparr>)"
        "path_bytes d' (PackFile ?hex) = Some ?file"
        "changed_at {PackPart n, PackFile ?hex, PackIndexTmp ?hex, PackIndex ?hex} (gs_disk s) d'"
      unfolding e(2) by auto
    let ?s2 = "?s1\<lparr>gs_disk := d'\<rparr>"
    have s2: "ok ?s2" "view ?s2 = view s" using frame_view [of ?s2 s] assms(3) by simp_all
    have pend: "\<forall>x \<in> set cs. pending_chunk (view s) c x" and dist: "distinct (map fst cs)"
      using assms(5) by (simp_all add: bytes_kept_def)
    have pe: "length (pe_hash x) = 32 \<and> view ?s2 (to_hex (pe_hash x)) \<noteq> None" if x: "x \<in> set (pack_entries_from 0 cs)" for x
    proof -
      have "pe_hash x \<in> fst ` set cs" using x pack_entry_hashes [of 0 cs] by blast
      then obtain h bs raw fl where m: "(h, bs, raw, fl) \<in> set cs" "pe_hash x = h" by force
      then show ?thesis using U(2) pend by (force simp: packable_def pending_chunk_def s2(2))
    qed
    have dl: "distinct (map pe_hash (pack_entries_from 0 cs))" using dist by (simp add: pack_entry_hash_list)
    from resolve_entries [OF s2(1) dl, of ?hex] pe obtain s3 where
      s3: "runs (for_each (resolve_entry ?hex) (pack_entries_from 0 cs)) ?s2 () s3" "ok s3" "outside s3 = outside ?s2"
        "view s3 = (\<lambda>hex. case entry_of (pack_entries_from 0 cs) hex of
           Some e \<Rightarrow> map_option (located ?hex e) (view s hex) | None \<Rightarrow> view s hex)"
      unfolding s2(2) by blast
    have ne: "pw_entries w \<noteq> []" using False e(1) by (metis length_pack_entries length_0_conv)
    have run: "runs (flush_packs blake3) s () s3"
      unfolding flush_packs_def
      by (rule runs_bind, rule runs_ask, rule refl, simp only: nw option.case prod.case ne if_False,
          rule runs_bind, rule runs_memory, rule runs_bind, rule d'(1), unfold prod.case e(1), rule s3(1))
    have mv: "rel_option moved (view s hex) (view s3 hex)" for hex
      by (cases "view s hex"; cases "entry_of (pack_entries_from 0 cs) hex") (simp_all add: s3(4) located_def moved_def)
    have disk: "gs_disk s3 = d'" using outsideD(1) [OF s3(3)] by simp
    have same: "path_bytes d' (PackFile p) = Some f" if f: "path_bytes (gs_disk s) (PackFile p) = Some f" for p f
    proof (cases "p = ?hex")
      case True
      have "f \<in> U" "p = to_hex (blake3 f)" using assms(5) f by (auto simp: bytes_kept_def packs_named_def)
      then have "f = ?file" using True id U(1) assms(2) by (auto simp: to_hex_eq inj_on_def)
      then show ?thesis using d'(2) True by simp
    next
      case False
      then show ?thesis using changed_bytes [OF d'(3)] f by simp
    qed
    have named: "packs_named blake3 U d'"
      unfolding packs_named_def
    proof (intro allI impI)
      fix hex bs assume p: "path_bytes d' (PackFile hex) = Some bs \<or> path_bytes d' (QuarantinePack hex) = Some bs"
      show "bs \<in> U \<and> hex = to_hex (blake3 bs)"
      proof (cases "path_bytes d' (PackFile hex) = Some bs \<and> hex = ?hex")
        case True
        then show ?thesis using d'(2) U(1) id by auto
      next
        case False
        then have "path_bytes (gs_disk s) (PackFile hex) = Some bs \<or> path_bytes (gs_disk s) (QuarantinePack hex) = Some bs"
          using p changed_bytes [OF d'(3), of "PackFile hex"] changed_bytes [OF d'(3), of "QuarantinePack hex"]
          by (metis (no_types) insertE empty_iff store_path.distinct store_path.inject)
        then show ?thesis using assms(5) unfolding bytes_kept_def packs_named_def by blast
      qed
    qed
    have loose: "path_bytes d' (LooseChunk hex) = path_bytes (gs_disk s) (LooseChunk hex)" for hex
      using changed_bytes [OF d'(3)] by simp
    have stored: "chunk_stored d' hex info (c hex)" if v: "view s3 hex = Some info" for hex info
    proof (cases "hex \<in> to_hex ` fst ` set cs")
      case False
      then have "view s hex = Some info" using v s3(4) entry_of_absent [OF False] by simp
      then have "chunk_stored (gs_disk s) hex info (c hex)" using assms(5) False by (simp add: bytes_kept_def)
      then show ?thesis by (rule chunk_stored_mono [OF _ loose same])
    next
      case True
      then obtain h bs raw fl where m: "(h, bs, raw, fl) \<in> set cs" "hex = to_hex h" by force
      from split_list [OF m(1)] obtain cs1 cs2 where cs: "cs = cs1 @ (h, bs, raw, fl) # cs2" by blast
      obtain info0 where i0: "view s hex = Some info0" "unat (len_stored info0) = length bs" "c hex = bs"
        using pend m by (force simp: pending_chunk_def)
      have info: "info = located ?hex \<lparr>pe_hash = h, pe_offset = of_nat (length (pack_data cs1)), pe_stored_len = of_nat (length bs),
          pe_raw_len = raw, pe_flags = fl\<rparr> info0"
        using v i0(1) entry_of_pack [of cs1 h bs raw fl cs2 0] dist unfolding s3(4) cs m(2) by simp
      have l32: "length (blake3 ?file) = 32" using assms(1) by (simp add: hash_ok_def)
      have "(ucast (len_stored info0) :: u64) = of_nat (length bs)"
        by (simp flip: i0(2))
      then have "read_in_pack ?hex (of_nat (length (pack_data cs1))) (ucast (len_stored info0)) d' = Inr bs"
        using sealed_pack_range [OF assms(1) w [unfolded cs] U(2) [unfolded cs]] d'(2) l32
        by (simp add: read_in_pack_def pack_path_hex id e(2) cs)
      then show ?thesis using i0 by (simp add: chunk_stored_def info located_def)
    qed
    have "bytes_kept blake3 U (view s3) c (gs_disk s3) []"
      using named stored by (simp add: bytes_kept_def disk)
    moreover have "beside s3 = beside s"
    proof -
      have "beside s3 = beside ?s2" by (rule beside_outside [OF s3(3)])
      also have "\<dots> = beside s" using d'(3) by (simp add: beside_def outside_def changed_at_def)
      finally show ?thesis .
    qed
    moreover have "gs_open_pack s3 = None" using outsideD(2) [OF s3(3)] by simp
    ultimately show ?thesis using run s3(2) mv by blast
  qed
qed

end

end
