(* ===== verification/Store_Puts.thy ===== *)
theory Store_Puts
  imports Store_Bytes
begin

text \<open>
  Storing a chunk, over either representation of the ledger: a chunk the ledger has is left alone,
  a new one enters with no references, and every chunk keeps its bytes, also when the pack rolls
  over.
\<close>

definition fresh_chunk :: "bytes \<Rightarrow> u32 \<Rightarrow> u32 \<Rightarrow> chunk_info" where
  "fresh_chunk stored flags raw = \<lparr>len_raw = raw, len_stored = of_nat (length stored), ci_flags = flags, refcount = 0,
     zero_since = Some 0, ci_pack = None, pack_offset = None\<rparr>"

lemma length_fresh:
  assumes "length stored < 2 ^ 32"
  shows "unat (len_stored (fresh_chunk stored flags raw)) = length stored"
  using assms by (simp add: fresh_chunk_def unsigned_of_nat take_bit_nat_eq_self)

lemma fresh_pending:
  assumes "length stored < 2 ^ 32"
  shows "pending_chunk (v(to_hex hash \<mapsto> fresh_chunk stored flags raw)) (c(to_hex hash := stored)) (hash, stored, raw, flags)"
  using length_fresh [OF assms, of flags raw] by (simp add: pending_chunk_def) (simp add: fresh_chunk_def)

text \<open>Counts are kept when chunks only move, and when fresh ones are added.\<close>

lemma counts_moved:
  assumes "counts_match v assets" "\<And>hex. v hex \<noteq> None \<Longrightarrow> rel_option moved (v hex) (v' hex)"
    and "\<And>hex info. v hex = None \<Longrightarrow> v' hex = Some info \<Longrightarrow> refcount info = 0 \<and> zero_since info \<noteq> None"
  shows "counts_match v' assets"
proof -
  have dom: "dom v \<subseteq> dom v'" using assms(2) by (auto simp: dom_def) (metis option.rel_distinct(2) option.exhaust)
  have "counted assets hex info'" if v': "v' hex = Some info'" for hex info'
  proof (cases "v hex")
    case None
    then have "\<forall>a \<in> set assets. hex \<notin> set (snd a)" using assms(1) by (fastforce simp: counts_match_def assets_in_def)
    then have "listed assets hex = 0" by (simp add: listed_zero)
    then show ?thesis using assms(3) [OF None v'] by (simp add: counted_def)
  next
    case (Some info)
    have "rel_option moved (v hex) (v' hex)" using assms(2) Some by blast
    then have "moved info info'" unfolding Some v' by simp
    moreover have "counted assets hex info" using assms(1) Some by (simp add: counts_match_def)
    ultimately show ?thesis by (simp add: counted_def moved_def)
  qed
  moreover have "assets_in v' assets" using assms(1) dom by (fastforce simp: counts_match_def assets_in_def)
  ultimately show ?thesis by (simp add: counts_match_def)
qed

lemma beside_assets: "beside s = beside s' \<Longrightarrow> ix_assets (gs_index s) = ix_assets (gs_index s')"
proof -
  assume a: "beside s = beside s'"
  have "ix_assets (gs_index (beside s)) = ix_assets (gs_index s)" for s by (simp add: beside_def outside_def)
  then show ?thesis using a by metis
qed

context chunk_table
begin

theorem put_chunk_present:
  assumes "ok s" "length hash = 32" "view s (to_hex hash) \<noteq> None"
  shows "put_chunk blake3 hash stored flags raw s = (Inr False, s, [])"
proof -
  have "hex_of_hash (to_hex hash)" using assms(2) by (auto simp: hex_of_hash_def)
  from contains_view [OF assms(1) this] assms(3) show ?thesis
    by (simp add: put_chunk_def Let_def bind_run_def ask_def ret_def)
qed

lemma pending_keeps:
  assumes "\<forall>x \<in> set cs. pending_chunk (view s) c x" "view s hex = None"
  shows "hex \<notin> to_hex ` fst ` set cs" "\<forall>x \<in> set cs. pending_chunk ((view s)(hex \<mapsto> info)) (c(hex := bs)) x"
  using assms by (force simp: pending_chunk_def)+

theorem put_chunk_new:
  assumes "hash_ok blake3" "inj_on blake3 U" "ok s" "open_chunks s cs" "bytes_kept blake3 U (view s) c (gs_disk s) cs"
    and "length hash = 32" "length stored < 2 ^ 32" "view s (to_hex hash) = None"
    and "ix_layout (gs_index s) = PackfileLayout \<Longrightarrow> sealable blake3 U (cs @ [(hash, stored, raw, flags)])"
  shows "\<exists>s' cs'. runs (put_chunk blake3 hash stored flags raw) s True s' \<and> ok s' \<and> open_chunks s' cs'
    \<and> bytes_kept blake3 U (view s') (c(to_hex hash := stored)) (gs_disk s') cs'
    \<and> rel_option moved (Some (fresh_chunk stored flags raw)) (view s' (to_hex hash))
    \<and> (\<forall>hex. hex \<noteq> to_hex hash \<longrightarrow> rel_option moved (view s hex) (view s' hex)) \<and> beside s' = beside s"
proof -
  let ?hex = "to_hex hash" and ?entry = "fresh_chunk stored flags raw" and ?x = "(hash, stored, raw, flags)"
  have hx: "hex_of_hash ?hex" using assms(6) by (auto simp: hex_of_hash_def)
  have there: "chunk_contains ?hex s = Inr False" using contains_view [OF assms(3) hx] assms(8) by simp
  have entry: "\<lparr>len_raw = raw, len_stored = of_nat (length stored), ci_flags = flags, refcount = 0,
      zero_since = Some 0, ci_pack = None, pack_offset = None\<rparr> = ?entry" by (simp add: fresh_chunk_def)
  have kept: "packs_named blake3 U (gs_disk s)" "distinct (map fst cs)" "cs = [] \<or> sealable blake3 U cs"
      "\<forall>x \<in> set cs. pending_chunk (view s) c x"
      "\<And>hex info. view s hex = Some info \<Longrightarrow> hex \<notin> to_hex ` fst ` set cs \<Longrightarrow> chunk_stored (gs_disk s) hex info (c hex)"
    using assms(5) by (auto simp: bytes_kept_def)
  note pk = pending_keeps [OF kept(4) assms(8)]
  show ?thesis
  proof (cases "ix_layout (gs_index s)")
    case LooseLayout
    let ?d1 = "set_path (LooseChunkTmp ?hex) stored (set_path (LooseChunkTmp ?hex) [] (gs_disk s))"
    let ?d2 = "move_path (LooseChunkTmp ?hex) (LooseChunk ?hex) ?d1"
    obtain f where f: "path_file ?d1 (LooseChunkTmp ?hex) = Some f" "sf_bytes f = stored" by simp
    note m = path_move [OF f(1), of "LooseChunk ?hex", simplified]
    let ?s2 = "s\<lparr>gs_disk := ?d2\<rparr>"
    let ?s3 = "chunk_insert ?hex ?entry ?s2"
    have s2: "ok ?s2" "view ?s2 = view s" using frame_view [of ?s2 s] assms(3) by simp_all
    from insert_view [OF s2(1) hx, of ?entry] have
      s3: "ok ?s3" "view ?s3 = (view s)(?hex \<mapsto> ?entry)" "outside ?s3 = outside ?s2" by (simp_all add: s2(2))
    have r1: "runs (write_path (LooseChunkTmp ?hex) stored) s () (s\<lparr>gs_disk := ?d1\<rparr>)" by (rule runs_write)
    have r2: "runs (rename_path (LooseChunkTmp ?hex) (LooseChunk ?hex)) (s\<lparr>gs_disk := ?d1\<rparr>) () ?s2"
      using runs_rename [of "s\<lparr>gs_disk := ?d1\<rparr>" "LooseChunkTmp ?hex" f "LooseChunk ?hex"] f(1) by simp
    have run: "runs (put_chunk blake3 hash stored flags raw) s True ?s3"
      unfolding put_chunk_def Let_def entry
      by (rule runs_bind, rule runs_ask, rule there, simp only: if_False, rule runs_bind, rule runs_ask, rule refl,
          simp only: LooseLayout store_layout.case, rule runs_bind, rule runs_bind, rule r1, rule runs_bind, rule r2,
          rule runs_memory, rule runs_ret)
    have c2: "changed_at {LooseChunkTmp ?hex, LooseChunk ?hex} (gs_disk s) ?d2" by (simp add: changed_at_def m)
    have disk: "gs_disk ?s3 = ?d2" using outsideD(1) [OF s3(3)] by simp
    have lb: "path_bytes ?d2 (LooseChunk ?hex) = Some stored" using f(2) by (simp add: path_bytes_def m)
    have "chunk_stored ?d2 hex info ((c(?hex := stored)) hex)"
      if v: "view ?s3 hex = Some info" "hex \<notin> to_hex ` fst ` set cs" for hex info
    proof (cases "hex = ?hex")
      case True
      then have i: "info = ?entry" using v(1) by (simp add: s3(2))
      have u: "ci_pack ?entry = None" "pack_offset ?entry = None" by (simp_all add: fresh_chunk_def)
      show ?thesis using lb length_fresh [OF assms(7), of flags raw] by (simp add: i u True chunk_stored_def)
    next
      case False
      then have "chunk_stored (gs_disk s) hex info (c hex)" using kept(5) v by (simp add: s3(2))
      moreover have "path_bytes ?d2 (LooseChunk hex) = path_bytes (gs_disk s) (LooseChunk hex)"
        using changed_bytes [OF c2] False by simp
      moreover have "path_bytes ?d2 (PackFile p) = path_bytes (gs_disk s) (PackFile p)" for p
        using changed_bytes [OF c2] by simp
      ultimately show ?thesis using False chunk_stored_mono [of "gs_disk s" hex info "c hex" ?d2] by simp
    qed
    moreover have "packs_named blake3 U ?d2"
    proof -
      have "path_bytes ?d2 (PackFile p) = path_bytes (gs_disk s) (PackFile p)"
        "path_bytes ?d2 (QuarantinePack p) = path_bytes (gs_disk s) (QuarantinePack p)" for p
        using changed_bytes [OF c2] by simp_all
      then show ?thesis using kept(1) by (simp add: packs_named_def)
    qed
    ultimately have bk: "bytes_kept blake3 U (view ?s3) (c(?hex := stored)) (gs_disk ?s3) cs"
      using kept(2,3) pk(2) unfolding bytes_kept_def disk by (simp add: s3(2))
    have oc: "open_chunks ?s3 cs" using assms(4) outsideD(2) [OF s3(3)] by (simp add: open_chunks_def)
    have "beside ?s3 = beside ?s2" by (rule beside_outside [OF s3(3)])
    also have "\<dots> = beside s" by (simp add: beside_def outside_def)
    finally show ?thesis using run s3(1,2) bk oc by (intro exI [of _ ?s3] exI [of _ cs]) simp
  next
    case PackfileLayout
    let ?cs = "cs @ [?x]"
    have seal: "sealable blake3 U ?cs" by (rule assms(9) [OF PackfileLayout])
    define n w where "n = (case gs_open_pack s of None \<Rightarrow> gs_parts s | Some (n, _) \<Rightarrow> n)"
      and "w = (case gs_open_pack s of None \<Rightarrow> create_pack | Some (_, w) \<Rightarrow> w)"
    let ?s1 = "if gs_open_pack s = None
      then s\<lparr>gs_disk := set_path (PackPart n) [] (gs_disk s), gs_open_pack := Some (n, w), gs_parts := n + 1\<rparr> else s"
    have r1: "runs (if gs_open_pack s = None then open_pack else ret ()) s () ?s1"
    proof (cases "gs_open_pack s")
      case None
      have "runs open_pack s () (s\<lparr>gs_disk := set_path (PackPart (gs_parts s)) [] (gs_disk s),
          gs_open_pack := Some (gs_parts s, create_pack), gs_parts := gs_parts s + 1\<rparr>)"
        unfolding open_pack_def by (simp add: goes_def bind_run_def ask_def on_disk_def act_def memory_def)
      then show ?thesis using None by (simp add: n_def w_def)
    qed (simp add: runs_ret)
    have o1: "gs_open_pack ?s1 = Some (n, w)" by (cases "gs_open_pack s") (auto simp: n_def w_def)
    have wok: "pack_ok cs w" using assms(4) create_pack_ok by (auto simp: open_chunks_def w_def split: option.splits)
    let ?w = "snd (pack_append hash stored raw flags w)"
    have w2: "pack_ok ?cs ?w" using pack_append_ok [OF wok] by blast
    let ?s2 = "?s1\<lparr>gs_open_pack := Some (n, ?w)\<rparr>"
    let ?s3 = "chunk_insert ?hex ?entry ?s2"
    have t2: "gs_seg ?s2 = gs_seg s" "ix_chunks (gs_index ?s2) = ix_chunks (gs_index s)" by simp_all
    have s2: "ok ?s2" "view ?s2 = view s" using frame_view [OF t2 assms(3)] by blast+
    from insert_view [OF s2(1) hx, of ?entry] have
      s3: "ok ?s3" "view ?s3 = (view s)(?hex \<mapsto> ?entry)" "outside ?s3 = outside ?s2" by (simp_all add: s2(2))
    have c1: "changed_at {PackPart n} (gs_disk s) (gs_disk ?s1)" by (simp add: changed_at_def)
    have disk: "gs_disk ?s3 = gs_disk ?s1" using outsideD(1) [OF s3(3)] by simp
    have op: "gs_open_pack ?s3 = Some (n, ?w)" using outsideD(2) [OF s3(3)] by simp
    have oc: "open_chunks ?s3 ?cs" using w2 by (simp add: open_chunks_def op)
    have pb: "path_bytes (gs_disk ?s1) (PackFile p) = path_bytes (gs_disk s) (PackFile p)"
      "path_bytes (gs_disk ?s1) (QuarantinePack p) = path_bytes (gs_disk s) (QuarantinePack p)"
      "path_bytes (gs_disk ?s1) (LooseChunk p) = path_bytes (gs_disk s) (LooseChunk p)" for p
      using changed_bytes [OF c1] by simp_all
    have "distinct (map fst ?cs)" using kept(2) pk(1) by auto
    moreover have "\<forall>x \<in> set ?cs. pending_chunk (view ?s3) (c(?hex := stored)) x"
      using pk(2) [of ?entry stored] fresh_pending [OF assms(7), of "view s" hash flags raw c] by (simp add: s3(2))
    moreover have "chunk_stored (gs_disk ?s1) hex info ((c(?hex := stored)) hex)"
      if v: "view ?s3 hex = Some info" "hex \<notin> to_hex ` fst ` set ?cs" for hex info
    proof -
      have "hex \<noteq> ?hex" "hex \<notin> to_hex ` fst ` set cs" using v(2) by auto
      then have "chunk_stored (gs_disk s) hex info (c hex)" using kept(5) v(1) by (simp add: s3(2))
      then show ?thesis using pb \<open>hex \<noteq> ?hex\<close> chunk_stored_mono [of "gs_disk s" hex info "c hex" "gs_disk ?s1"] by simp
    qed
    moreover have "packs_named blake3 U (gs_disk ?s1)" using kept(1) pb by (simp add: packs_named_def)
    ultimately have bk: "bytes_kept blake3 U (view ?s3) (c(?hex := stored)) (gs_disk ?s3) ?cs"
      using seal unfolding bytes_kept_def disk by blast
    have "beside ?s3 = beside ?s2" by (rule beside_outside [OF s3(3)])
    also have "\<dots> = beside s" by (simp add: beside_def outside_def)
    finally have bs: "beside ?s3 = beside s" .
    have mv: "rel_option moved (view s hex) (view ?s3 hex)" if "hex \<noteq> ?hex" for hex using that by (simp add: s3(2))
    let ?full = "gs_pack_size ?s2 \<le> pw_data_len ?w"
    have upd: "?s1\<lparr>gs_open_pack := map_option (\<lambda>(n, w). (n, snd (pack_append hash stored raw flags w))) (gs_open_pack ?s1)\<rparr> = ?s2"
      by (simp only: o1 option.map prod.case)
    have rm: "runs (memory (\<lambda>s. s\<lparr>gs_open_pack :=
        map_option (\<lambda>(n, w). (n, snd (pack_append hash stored raw flags w))) (gs_open_pack s)\<rparr>)) ?s1 () ?s2"
      using runs_memory [of "\<lambda>s. s\<lparr>gs_open_pack :=
        map_option (\<lambda>(n, w). (n, snd (pack_append hash stored raw flags w))) (gs_open_pack s)\<rparr>" ?s1] unfolding upd .
    have ra: "runs (ask (\<lambda>s. Inr (case gs_open_pack s of None \<Rightarrow> False | Some (n, w) \<Rightarrow> gs_pack_size s \<le> pw_data_len w))) ?s2 ?full ?s2"
      by (rule runs_ask) simp
    have tail: "runs (put_chunk blake3 hash stored flags raw) s True s'"
      if t: "runs (if ?full then flush_packs blake3 else ret ()) ?s3 () s'" for s'
      unfolding put_chunk_def Let_def entry
      by (rule runs_bind, rule runs_ask, rule there, simp only: if_False, rule runs_bind, rule runs_ask, rule refl,
          simp only: PackfileLayout store_layout.case, rule runs_bind, rule runs_bind, rule runs_ask, rule refl,
          rule runs_bind, rule r1, rule runs_bind, rule rm, rule runs_bind, rule ra, rule runs_bind, rule runs_memory,
          rule t, rule runs_ret)
    show ?thesis
    proof (cases ?full)
      case False
      then have "runs (put_chunk blake3 hash stored flags raw) s True ?s3" by (intro tail) (simp only: if_False runs_ret)
      then show ?thesis using s3(1,2) oc bk bs mv by (intro exI [of _ ?s3] exI [of _ ?cs]) simp
    next
      case True
      from flush_packs_view [OF assms(1,2) s3(1) oc bk] obtain s4 where
        s4: "runs (flush_packs blake3) ?s3 () s4" "ok s4" "gs_open_pack s4 = None"
          "bytes_kept blake3 U (view s4) (c(?hex := stored)) (gs_disk s4) []"
          "\<forall>hex. rel_option moved (view ?s3 hex) (view s4 hex)" "beside s4 = beside ?s3" by blast
      have "runs (put_chunk blake3 hash stored flags raw) s True s4" using True s4(1) by (intro tail) (simp only: if_True)
      moreover have "rel_option moved (Some ?entry) (view s4 ?hex)" using spec [OF s4(5), of ?hex] by (simp add: s3(2))
      moreover have "rel_option moved (view s hex) (view s4 hex)" if "hex \<noteq> ?hex" for hex
        using spec [OF s4(5), of hex] that by (simp add: s3(2))
      ultimately show ?thesis using s4(2-4,6) bs by (intro exI [of _ s4] exI [of _ "[]"]) (simp add: open_chunks_def)
    qed
  qed
qed

end

end
