(* ===== verification/Journal_Laws.thy ===== *)
theory Journal_Laws
  imports Journal
begin

text \<open>
  What a journal record does: it is found where it was written, and applied to a ledger it makes
  every dirty entry of that ledger the one it was written from, leaving the others.
\<close>

section \<open>Steps\<close>

lemma ubind_return [simp]: "ubind (ureturn (Inr x)) f = f x"
  by (auto simp: ubind_def ureturn_def)

lemma ubind_fail [simp]: "ubind (ureturn (Inl e)) f = ureturn (Inl e)"
  by (auto simp: ubind_def ureturn_def)

lemma ubind_modify [simp]: "ubind (umodify g) f ix = f () (g ix)"
  by (auto simp: ubind_def umodify_def)

lemmas ubind_simps = ubind_return ubind_fail ubind_modify

lemma ubind_ok: "m ix = (Inr x, ix') \<Longrightarrow> ubind m f ix = f x ix'"
  by (simp add: ubind_def)

lemma ureturn_ok [simp]: "ureturn r ix = (r, ix)"
  by (simp add: ureturn_def)

section \<open>Chunks\<close>

lemma encode_chunks_Cons:
  assumes "encode_chunks width ords ((hex, info) # cs) = Inr bs"
  obtains h bs' where "hash_or_zero hex = Inr h" "encode_chunks width ords cs = Inr bs'"
    "bs = encode_chunk_entry width ords h info @ bs'"
  using assms by (auto simp: rbind_eq_Inr)

lemma apply_upserts_ok:
  fixes ords :: "(string \<times> u16) list"
  assumes "interned ids ords" "length ids < 2 ^ 16" "encode_chunks 2 ords cs = Inr bs"
    and "\<forall>(hex, info) \<in> set cs. hex_of_hash hex \<and> ledger_info info \<and> set_option (ci_pack info) \<subseteq> set ids"
  shows "apply_upserts (length cs) ids (bs @ rest) ix = (Inr rest, ix\<lparr>ix_chunks := bt_build cs (ix_chunks ix)\<rparr>)"
  using assms(3,4)
proof (induction cs arbitrary: bs ix)
  case Nil
  then show ?case by simp
next
  case (Cons c cs)
  obtain hex info where c: "c = (hex, info)" by fastforce
  then obtain h where h: "length h = 32" "hex = to_hex h" "ledger_info info" "set_option (ci_pack info) \<subseteq> set ids"
    using Cons.prems(2) by (auto simp: hex_of_hash_def)
  obtain bs' where bs: "encode_chunks 2 ords cs = Inr bs'" "bs = encode_chunk_entry 2 ords h info @ bs'"
    using Cons.prems(1) h(1,2) unfolding c by (elim encode_chunks_Cons) simp
  have w: "length ids < 2 ^ LENGTH(16)" "LENGTH(16) \<le> 8 * 2" using assms(2) by simp_all
  from take_chunk_entry_ok [OF assms(1) w h(1,3,4), of "bs' @ rest"] Cons.IH [OF bs(1)] Cons.prems(2)
  show ?case by (simp add: c bs(2) h(2))
qed

lemma apply_removals_ok:
  assumes "encode_hashes hexes = Inr bs" "\<forall>hex \<in> set hexes. hex_of_hash hex"
  shows "apply_removals (length hexes) (bs @ rest) ix = (Inr rest, ix\<lparr>ix_chunks := bt_remove_all hexes (ix_chunks ix)\<rparr>)"
  using assms
proof (induction hexes arbitrary: bs ix)
  case (Cons hex hexes)
  then obtain h bs' where "length h = 32" "hex = to_hex h" "encode_hashes hexes = Inr bs'" "bs = h @ bs'"
    by (auto simp: hex_of_hash_def rbind_eq_Inr)
  then show ?case using Cons by (simp add: take_hex_ok)
qed simp

section \<open>Building and removing\<close>

text \<open>The map that has \<open>src\<close>'s entries at \<open>ks\<close> and \<open>dst\<close>'s elsewhere.\<close>

definition overwrite :: "'k list \<Rightarrow> ('k \<times> 'v) list \<Rightarrow> ('k \<times> 'v) list \<Rightarrow> 'k \<Rightarrow> 'v option" where
  "overwrite ks src dst k = (if k \<in> set ks then map_of src k else map_of dst k)"

lemma present_keys: "map fst (present m ks) = filter (\<lambda>k. map_of m k \<noteq> None) ks"
  by (induction ks) (auto simp: present_def map_filter_simps split: option.splits)

lemma present_map_of: "map_of (present m ks) k = (if k \<in> set ks then map_of m k else None)"
  by (induction ks) (auto simp: present_def map_filter_simps split: option.splits)

lemma present_set: "set (present m ks) = {(k, v). k \<in> set ks \<and> map_of m k = Some v}"
  by (induction ks) (auto simp: present_def map_filter_simps split: option.splits)

lemma present_absent:
  assumes "distinct ks"
  shows "map_of (bt_remove_all (absent src ks) (bt_build (present src ks) dst)) = overwrite ks src dst"
    "map_of (bt_build (present src ks) (bt_remove_all (absent src ks) dst)) = overwrite ks src dst"
proof -
  have "distinct (map fst (present src ks))" using assms by (simp add: present_keys)
  then show "map_of (bt_remove_all (absent src ks) (bt_build (present src ks) dst)) = overwrite ks src dst"
    "map_of (bt_build (present src ks) (bt_remove_all (absent src ks) dst)) = overwrite ks src dst"
    by (auto simp: overwrite_def map_of_remove_all map_of_build present_map_of absent_def fun_eq_iff split: option.splits)
qed

section \<open>Assets and where their records are\<close>

text \<open>The location that applying an asset of a record that starts at \<open>s\<close> gives.\<close>

definition next_ref ::
    "journal_file \<Rightarrow> u64 \<Rightarrow> inline_record list \<Rightarrow> (string \<times> record_ref) list \<Rightarrow> string \<Rightarrow> record_ref option \<Rightarrow> record_ref option" where
  "next_ref file s inline records name old =
     (case map_of inline name of
        Some (off, len) \<Rightarrow> Some (InJournal file (s + off) len)
      | None \<Rightarrow>
          (case map_of records name of
             Some (InPack pack off len) \<Rightarrow> Some (InPack pack off len)
           | _ \<Rightarrow> (case old of Some (InJournal f off len) \<Rightarrow> Some (InJournal f off len) | _ \<Rightarrow> None)))"

text \<open>The tag, and what goes with it, that an asset's record is written with.\<close>

definition put_tag :: "(string \<times> record_ref) list \<Rightarrow> (string \<times> bytes) list \<Rightarrow> string \<Rightarrow> bytes" where
  "put_tag records pending name =
     (case map_of pending name of
        Some bytes \<Rightarrow> [2] @ to_le 4 (of_nat (length bytes) :: u32) @ bytes
      | None \<Rightarrow> encode_record_ref (map_of records name))"

definition put_inline :: "nat \<Rightarrow> (string \<times> bytes) list \<Rightarrow> string \<Rightarrow> inline_record list" where
  "put_inline at pending name =
     (case map_of pending name of
        Some bytes \<Rightarrow> [(name, of_nat (at + 5), of_nat (length bytes))]
      | None \<Rightarrow> [])"

lemma encode_asset_puts_Cons:
  "encode_asset_puts at records pending ((name, chunks) # rest) =
     rbind (encode_hashes chunks) (\<lambda>hs.
     let head = encode_text name @ to_le 4 (of_nat (length chunks) :: u32) @ hs;
         bs = head @ put_tag records pending name in
     rbind (encode_asset_puts (at + length bs) records pending rest) (\<lambda>(more, inlines).
       Inr (bs @ more, put_inline (at + length head) pending name @ inlines)))"
  by (cases "encode_hashes chunks")
    (auto simp: Let_def put_tag_def put_inline_def encode_record_ref_def add_ac split: option.splits record_ref.splits)

declare encode_asset_puts.simps(2) [simp del]

definition refs_ok :: "(string \<times> record_ref) list \<Rightarrow> bool" where
  "refs_ok records \<longleftrightarrow> (\<forall>name pack off len. map_of records name = Some (InPack pack off len) \<longrightarrow> length pack = 32)"

lemma apply_record_ref_ok:
  assumes "refs_ok records" "\<forall>bytes. map_of pending name = Some bytes \<longrightarrow> length bytes < 2 ^ 32"
    and "\<And>left. j + length left \<le> K \<Longrightarrow> at left = s + of_nat (K - length left)"
    and "pos + length (put_tag records pending name @ rest) = K" "bt_ok (ix_records ix)" "j \<le> pos"
  shows "\<exists>R. apply_record_ref file at name (put_tag records pending name @ rest) ix = (Inr rest, ix\<lparr>ix_records := R\<rparr>)
    \<and> bt_ok R \<and> map_of R = (map_of (ix_records ix))
        (name := next_ref file s (put_inline pos pending name) records name (map_of (ix_records ix) name))"
proof (cases "map_of pending name")
  case (Some bytes)
  have n: "unat (of_nat (length bytes) :: u32) = length bytes"
    using assms(2) Some by (simp add: unsigned_of_nat take_bit_nat_eq_self)
  have t: "take_bytes truncated 1 ([2] @ r) = Inr ([2], r)" for r by (rule take_bytes_append) simp
  have k: "K - length (bytes @ rest) = pos + 5" "j + length (bytes @ rest) \<le> K" using assms(4,6) Some by (auto simp: put_tag_def)
  have a: "at (bytes @ rest) = s + of_nat (pos + 5)" using assms(3) [OF k(2)] k(1) by simp
  have four: "LENGTH(32) \<le> 8 * 4" by simp
  have tags: "[2 :: byte] ! 0 = 2" "(2 :: byte) \<noteq> 0" "(2 :: byte) \<noteq> 1" by simp_all
  have "apply_record_ref file at name (put_tag records pending name @ rest) ix
      = (Inr rest, ix\<lparr>ix_records := bt_insert name (InJournal file (s + of_nat (pos + 5)) (of_nat (length bytes))) (ix_records ix)\<rparr>)"
    unfolding apply_record_ref_def put_tag_def Some option.case append.assoc
    by (simp only: t ubind_simps prod.case tags if_False if_True take_le_enc [OF four] Let_def n a take_bytes_append ureturn_ok) simp
  then show ?thesis
    using assms(5) Some
    by (intro exI [of _ "bt_insert name (InJournal file (s + of_nat (pos + 5)) (of_nat (length bytes))) (ix_records ix)"])
      (simp add: next_ref_def put_inline_def)
next
  case None
  show ?thesis
  proof (cases "\<exists>pack off len. map_of records name = Some (InPack pack off len)")
    case True
    then obtain pack off len where p: "map_of records name = Some (InPack pack off len)" by blast
    have t: "take_bytes truncated 1 ([1] @ r) = Inr ([1], r)" for r by (rule take_bytes_append) simp
    have l: "length pack = 32" using assms(1) p unfolding refs_ok_def by blast
    have four: "LENGTH(32) \<le> 8 * 4" by simp
    have tags: "[1 :: byte] ! 0 = 1" "(1 :: byte) \<noteq> 0" by simp_all
    have "apply_record_ref file at name (put_tag records pending name @ rest) ix
        = (Inr rest, ix\<lparr>ix_records := bt_insert name (InPack pack off len) (ix_records ix)\<rparr>)"
      unfolding apply_record_ref_def put_tag_def None option.case p encode_record_ref_def record_ref.case append.assoc
      by (simp only: t ubind_simps prod.case tags if_False if_True take_bytes_append [OF l] take_le_enc [OF four] ureturn_ok) simp
    then show ?thesis
      using assms(5) None p by (intro exI [of _ "bt_insert name (InPack pack off len) (ix_records ix)"])
        (simp add: next_ref_def put_inline_def)
  next
    case False
    then have z: "put_tag records pending name = [0]"
      using None by (auto simp: put_tag_def encode_record_ref_def split: option.splits record_ref.splits)
    have t: "take_bytes truncated 1 ([0] @ r) = Inr ([0], r)" for r by (rule take_bytes_append) simp
    let ?ix = "case map_of (ix_records ix) name of Some (InJournal _ _ _) \<Rightarrow> ix
        | _ \<Rightarrow> ix\<lparr>ix_records := bt_remove name (ix_records ix)\<rparr>"
    have a: "apply_record_ref file at name (put_tag records pending name @ rest) ix = (Inr rest, ?ix)"
      unfolding apply_record_ref_def z by (simp only: t ubind_simps prod.case ureturn_ok) simp
    have n: "next_ref file s (put_inline pos pending name) records name old
        = (case old of Some (InJournal f off len) \<Rightarrow> Some (InJournal f off len) | _ \<Rightarrow> None)" for old
      using False None by (auto simp: next_ref_def put_inline_def split: option.splits record_ref.splits)
    have e: "ix_records ?ix = (case map_of (ix_records ix) name of Some (InJournal _ _ _) \<Rightarrow> ix_records ix
        | _ \<Rightarrow> bt_remove name (ix_records ix))" "?ix = ix\<lparr>ix_records := ix_records ?ix\<rparr>"
      by (auto split: option.splits record_ref.splits)
    have "bt_ok (ix_records ?ix)" using assms(5) by (auto simp: e(1) split: option.splits record_ref.splits)
    moreover have "map_of (ix_records ?ix) = (map_of (ix_records ix))
        (name := next_ref file s (put_inline pos pending name) records name (map_of (ix_records ix) name))"
      by (auto simp: e(1) n fun_eq_iff split: option.splits record_ref.splits)
    ultimately show ?thesis using a e(2) by metis
  qed
qed

text \<open>The locations after applying a list of assets.\<close>

definition next_refs ::
    "journal_file \<Rightarrow> u64 \<Rightarrow> inline_record list \<Rightarrow> (string \<times> record_ref) list \<Rightarrow> string list \<Rightarrow> (string \<Rightarrow> record_ref option) \<Rightarrow> string \<Rightarrow> record_ref option" where
  "next_refs file s inline records names old n = (if n \<in> set names then next_ref file s inline records n (old n) else old n)"

lemma next_ref_other:
  "name \<notin> fst ` set xs \<Longrightarrow> next_ref file s (xs @ ys) records name old = next_ref file s ys records name old"
  "name \<notin> fst ` set ys \<Longrightarrow> next_ref file s (xs @ ys) records name old = next_ref file s xs records name old"
  by (simp_all add: next_ref_def map_add_def map_of_eq_None_iff [THEN iffD2] split: option.splits)

lemma apply_asset_puts_ok:
  assumes "refs_ok records" "\<forall>name bytes. map_of pending name = Some bytes \<longrightarrow> length bytes < 2 ^ 32"
    and "\<And>left. j + length left \<le> K \<Longrightarrow> at left = s + of_nat (K - length left)"
    and "\<forall>a \<in> set as. asset_ok a" "distinct (map fst as)" "encode_asset_puts pos records pending as = Inr (bs, inline)"
    and "pos + length (bs @ rest) = K" "bt_ok (ix_records ix)" "j \<le> pos"
  shows "fst ` set inline = set (map fst as) \<inter> dom (map_of pending)
    \<and> (\<exists>R. apply_asset_puts file at (length as) (bs @ rest) ix
          = (Inr rest, ix\<lparr>ix_assets := bt_build as (ix_assets ix), ix_records := R\<rparr>)
        \<and> bt_ok R \<and> map_of R = next_refs file s inline records (map fst as) (map_of (ix_records ix)))"
  using assms(4-9)
proof (induction as arbitrary: pos bs inline ix)
  case Nil
  then show ?case by (auto simp: next_refs_def fun_eq_iff intro!: exI [of _ "ix_records ix"])
next
  case (Cons a as)
  obtain name hexes where a: "a = (name, hexes)" by fastforce
  have ok: "pack_id_ok name" "length hexes < 2 ^ 32" "\<forall>hex \<in> set hexes. hex_of_hash hex"
    using Cons.prems(1) a by (auto simp: asset_ok_def)
  from encode_hashes_ok [OF ok(3)] obtain hs where hs: "encode_hashes hexes = Inr hs" "length hs = 32 * length hexes"
    "\<And>rest. decode_n take_hex (length hexes) (hs @ rest) = Inr (hexes, rest)" by blast
  let ?head = "encode_text name @ to_le 4 (of_nat (length hexes) :: u32) @ hs"
  let ?tag = "put_tag records pending name"
  obtain more inlines where m: "encode_asset_puts (pos + length (?head @ ?tag)) records pending as = Inr (more, inlines)"
    "bs = (?head @ ?tag) @ more" "inline = put_inline (pos + length ?head) pending name @ inlines"
    using Cons.prems(3) unfolding a encode_asset_puts_Cons hs(1) rbind_simps Let_def by (auto simp: rbind_eq_Inr)
  have n: "unat (of_nat (length hexes) :: u32) = length hexes"
    using ok(2) by (simp add: unsigned_of_nat take_bit_nat_eq_self)
  have four: "LENGTH(32) \<le> 8 * 4" by simp
  have room: "\<not> length (hs @ r) div 32 < length hexes" for r using hs(2) by simp
  have p1: "(pos + length ?head) + length (?tag @ more @ rest) = K" using Cons.prems(4) m(2) by (simp del: to_le.simps)
  have pend: "\<forall>bytes. map_of pending name = Some bytes \<longrightarrow> length bytes < 2 ^ 32" using assms(2) by blast
  have j1: "j \<le> pos + length ?head" using Cons.prems(6) by simp
  from apply_record_ref_ok [OF assms(1) pend assms(3) p1 Cons.prems(5) j1, of "file"] obtain R1 where
    R1: "apply_record_ref file at name (?tag @ more @ rest) ix = (Inr (more @ rest), ix\<lparr>ix_records := R1\<rparr>)" "bt_ok R1"
      "map_of R1 = (map_of (ix_records ix))
        (name := next_ref file s (put_inline (pos + length ?head) pending name) records name (map_of (ix_records ix) name))"
    by blast
  let ?ix1 = "ix\<lparr>ix_records := R1, ix_assets := bt_insert name hexes (ix_assets ix)\<rparr>"
  have p2: "(pos + length (?head @ ?tag)) + length (more @ rest) = K" using p1 by (simp del: to_le.simps)
  have d: "distinct (map fst as)" "name \<notin> fst ` set as" and oks: "\<forall>a \<in> set as. asset_ok a" using Cons.prems(1,2) a by auto
  have b1: "bt_ok (ix_records ?ix1)" using R1(2) by simp
  have j2: "j \<le> pos + length (?head @ ?tag)" using Cons.prems(6) by simp
  from Cons.IH [OF oks d(1) m(1) p2 b1 j2] obtain R where
    R: "fst ` set inlines = set (map fst as) \<inter> dom (map_of pending)"
      "apply_asset_puts file at (length as) (more @ rest) ?ix1
          = (Inr rest, ?ix1\<lparr>ix_assets := bt_build as (ix_assets ?ix1), ix_records := R\<rparr>)" "bt_ok R"
      "map_of R = next_refs file s inlines records (map fst as) (map_of R1)" by auto
  have run: "apply_asset_puts file at (length (a # as)) (bs @ rest) ix
      = (Inr rest, ix\<lparr>ix_assets := bt_build (a # as) (ix_assets ix), ix_records := R\<rparr>)"
    unfolding m(2) append.assoc list.size(4) add_Suc_right add_0_right apply_asset_puts.simps
    by (simp only: take_text_ok [OF ok(1)] ubind_simps prod.case take_le_enc [OF four] n room if_False hs(3) 
        ubind_ok [where m = "apply_record_ref file at name (?tag @ more @ rest)" and ix = ix, OF R1(1)])
      (use R(2) a in simp)
  have i1: "fst ` set (put_inline (pos + length ?head) pending name) = {name} \<inter> dom (map_of pending)"
    by (cases "map_of pending name") (auto simp: put_inline_def)
  have keys: "fst ` set inline = set (map fst (a # as)) \<inter> dom (map_of pending)"
    unfolding m(3) set_append image_Un i1 R(1) a by auto
  have "name \<notin> fst ` set inlines" using R(1) d(2) by auto
  then have self: "next_ref file s inline records name old = next_ref file s (put_inline (pos + length ?head) pending name) records name old" for old
    unfolding m(3) by (rule next_ref_other(2))
  have other: "next_ref file s inline records n old = next_ref file s inlines records n old" if "n \<noteq> name" for n old
    unfolding m(3) by (rule next_ref_other(1)) (use i1 that in auto)
  have "map_of R n = next_refs file s inline records (map fst (a # as)) (map_of (ix_records ix)) n" for n
    using d(2) self other unfolding R(4) next_refs_def R1(3) a by auto
  then show ?case using keys run R(3) by (auto simp: fun_eq_iff)
qed

lemma apply_asset_dels_ok:
  assumes "\<forall>s \<in> set ns. pack_id_ok s"
  shows "apply_asset_dels (length ns) (encode_all encode_text ns @ rest) ix
    = (Inr rest, ix\<lparr>ix_assets := bt_remove_all ns (ix_assets ix), ix_records := bt_remove_all ns (ix_records ix)\<rparr>)"
  using assms by (induction ns arbitrary: ix) (simp_all add: take_text_ok)

section \<open>One record\<close>

definition journal_fits :: "store_index \<Rightarrow> string list \<Rightarrow> string list \<Rightarrow> (string \<times> bytes) list \<Rightarrow> bool" where
  "journal_fits ix dc da pending \<longleftrightarrow> distinct dc \<and> distinct da \<and> length dc < 2 ^ 32 \<and> length da < 2 ^ 32
     \<and> (\<forall>hex \<in> set dc. hex_of_hash hex \<and> (\<forall>info. map_of (ix_chunks ix) hex = Some info \<longrightarrow> ledger_info info))
     \<and> card (packs_of (map snd (present (ix_chunks ix) dc))) < 2 ^ 16
     \<and> (\<forall>name \<in> set da. pack_id_ok name \<and> (\<forall>hexes. map_of (ix_assets ix) name = Some hexes \<longrightarrow> asset_ok (name, hexes)))
     \<and> refs_ok (ix_records ix) \<and> (\<forall>name bytes. map_of pending name = Some bytes \<longrightarrow> length bytes < 2 ^ 32)"

text \<open>What applying the record of \<open>ix\<close> makes of a ledger.\<close>

definition journal_applied ::
    "store_index \<Rightarrow> string list \<Rightarrow> string list \<Rightarrow> inline_record list \<Rightarrow> journal_file \<Rightarrow> u64 \<Rightarrow> store_index \<Rightarrow> store_index \<Rightarrow> bool" where
  "journal_applied ix dc da inline file s ix0 ix1 \<longleftrightarrow>
     bt_ok (ix_chunks ix1) \<and> map_of (ix_chunks ix1) = overwrite dc (ix_chunks ix) (ix_chunks ix0)
   \<and> bt_ok (ix_assets ix1) \<and> map_of (ix_assets ix1) = overwrite da (ix_assets ix) (ix_assets ix0)
   \<and> bt_ok (ix_records ix1)
   \<and> map_of (ix_records ix1) = (\<lambda>n. if n \<in> set da
          then (if map_of (ix_assets ix) n = None then None
                else next_ref file s inline (ix_records ix) n (map_of (ix_records ix0) n))
          else map_of (ix_records ix0) n)
   \<and> ix_layout ix1 = ix_layout ix0 \<and> ix_generation ix1 = ix_generation ix0"

lemma present_length: "length (present m ks) \<le> length ks"
  by (induction ks) (auto simp: present_def map_filter_simps split: option.splits)

lemma absent_length: "length (absent m ks) \<le> length ks"
  by (simp add: absent_def)

lemma encode_asset_puts_total:
  assumes "\<forall>a \<in> set as. asset_ok a"
  shows "\<exists>r. encode_asset_puts pos records pending as = Inr r"
  using assms
proof (induction as arbitrary: pos)
  case (Cons a as)
  obtain name hexes where a: "a = (name, hexes)" by fastforce
  obtain hs where "encode_hashes hexes = Inr hs" using encode_hashes_ok [of hexes] Cons.prems a by (auto simp: asset_ok_def)
  moreover have "\<exists>more inlines. encode_asset_puts k records pending as = Inr (more, inlines)" for k using Cons by simp
  then obtain more inlines where
    "encode_asset_puts (pos + length ((encode_text name @ to_le 4 (of_nat (length hexes) :: u32) @ hs) @ put_tag records pending name))
       records pending as = Inr (more, inlines)" by blast
  ultimately show ?case unfolding a encode_asset_puts_Cons by (simp add: Let_def add.assoc del: to_le.simps)
qed simp

text \<open>The parts of a record that was written.\<close>

definition journal_head :: "store_index \<Rightarrow> string list \<Rightarrow> string list \<Rightarrow> string list \<Rightarrow> bytes \<Rightarrow> bytes \<Rightarrow> bytes" where
  "journal_head ix dc da packs chunks removed =
     to_le 2 (of_nat (length packs) :: u16) @ encode_all encode_text packs
       @ to_le 4 (of_nat (length (present (ix_chunks ix) dc)) :: u32) @ chunks
       @ to_le 4 (of_nat (length (absent (ix_chunks ix) dc)) :: u32) @ removed
       @ to_le 4 (of_nat (length (present (ix_assets ix) da)) :: u32)"

definition journal_body :: "store_index \<Rightarrow> string list \<Rightarrow> string list \<Rightarrow> string list \<Rightarrow> bytes \<Rightarrow> bytes \<Rightarrow> bytes \<Rightarrow> bytes" where
  "journal_body ix dc da packs chunks removed puts =
     journal_head ix dc da packs chunks removed @ puts
       @ to_le 4 (of_nat (length (absent (ix_assets ix) da)) :: u32) @ encode_all encode_text (absent (ix_assets ix) da)"

definition journal_sealed :: "u64 \<Rightarrow> bytes \<Rightarrow> bytes" where
  "journal_sealed g body = journal_magic @ to_le 2 journal_version @ to_le 2 (0 :: u16)
     @ to_le 4 (of_nat (length body) :: u32) @ to_le 8 g @ body"

lemma encode_journal_parts:
  assumes "journal_fits ix dc da pending"
  shows "\<exists>packs (ords :: (string \<times> u16) list) chunks removed puts inline.
    interned packs ords \<and> length packs < 2 ^ 16 \<and> (\<forall>s \<in> set packs. pack_id_ok s)
    \<and> encode_chunks 2 ords (present (ix_chunks ix) dc) = Inr chunks
    \<and> length chunks = 70 * length (present (ix_chunks ix) dc)
    \<and> (\<forall>(hex, info) \<in> set (present (ix_chunks ix) dc). hex_of_hash hex \<and> ledger_info info \<and> set_option (ci_pack info) \<subseteq> set packs)
    \<and> encode_hashes (absent (ix_chunks ix) dc) = Inr removed \<and> length removed = 32 * length (absent (ix_chunks ix) dc)
    \<and> encode_asset_puts (24 + length (journal_head ix dc da packs chunks removed)) (ix_records ix) pending
         (present (ix_assets ix) da) = Inr (puts, inline)
    \<and> encode_journal_record blake3 ix g dc da pending
        = Inr (journal_sealed g (journal_body ix dc da packs chunks removed puts)
               @ hash_chunk blake3 (journal_sealed g (journal_body ix dc da packs chunks removed puts)), inline)"
proof -
  let ?ups = "present (ix_chunks ix) dc" and ?rem = "absent (ix_chunks ix) dc"
  obtain packs and ords :: "(string \<times> u16) list" where p: "intern_packs (map snd ?ups) ([], []) = (packs, ords)" by fastforce
  have "card (set [] \<union> packs_of (map snd ?ups)) < 2 ^ LENGTH(16)" using assms by (simp add: journal_fits_def)
  from intern_packs_ok [OF interned_Nil this p]
  have i: "interned packs ords" "set packs = packs_of (map snd ?ups)" "length packs < 2 ^ 16" by simp_all
  have cs: "hex_of_hash hex \<and> ledger_info info \<and> set_option (ci_pack info) \<subseteq> set packs" if "(hex, info) \<in> set ?ups" for hex info
    using that assms packs_of_in [OF that] by (auto simp: present_set journal_fits_def i(2))
  then have cok: "\<forall>(hex, info) \<in> set ?ups. hex_of_hash hex \<and> ledger_info info \<and> set_option (ci_pack info) \<subseteq> set packs" by blast
  have w: "length packs < 2 ^ LENGTH(16)" "LENGTH(16) \<le> 8 * 2" using i(3) by simp_all
  from encode_chunks_ok [OF i(1) w cok] obtain chunks where
    chunks: "encode_chunks 2 ords ?ups = Inr chunks" "length chunks = 70 * length ?ups" by auto
  have "\<forall>hex \<in> set ?rem. hex_of_hash hex" using assms by (auto simp: absent_def journal_fits_def)
  from encode_hashes_ok [OF this] obtain removed where
    removed: "encode_hashes ?rem = Inr removed" "length removed = 32 * length ?rem" by blast
  have aok: "\<forall>a \<in> set (present (ix_assets ix) da). asset_ok a" using assms by (auto simp: present_set journal_fits_def)
  from encode_asset_puts_total [OF this] obtain puts inline where
    puts: "encode_asset_puts (24 + length (journal_head ix dc da packs chunks removed)) (ix_records ix) pending
         (present (ix_assets ix) da) = Inr (puts, inline)" by (metis surj_pair)
  have ids: "\<forall>s \<in> set packs. pack_id_ok s"
    unfolding i(2) packs_of_def using cs by (fastforce simp: ledger_info_def)
  have "encode_journal_record blake3 ix g dc da pending
        = Inr (journal_sealed g (journal_body ix dc da packs chunks removed puts)
               @ hash_chunk blake3 (journal_sealed g (journal_body ix dc da packs chunks removed puts)), inline)"
    using puts unfolding encode_journal_record_def Let_def p prod.case chunks(1) removed(1) rbind_simps journal_header_size_def
      journal_head_def journal_body_def journal_sealed_def append.assoc by simp
  then show ?thesis using i(1,3) ids chunks cok removed puts by blast
qed

lemma next_record_found:
  assumes "hash_ok blake3" "length body < 2 ^ 32"
    and "out = journal_sealed g body"
  shows "next_journal_record blake3 ((out @ hash_chunk blake3 out) @ tail) = Some (out @ hash_chunk blake3 out, g)"
    "length out = 24 + length body" "drop 24 out = body"
proof -
  let ?n = "of_nat (length body) :: u32" and ?seal = "hash_chunk blake3 out"
  have n: "unat ?n = length body" using assms(2) by (simp add: unsigned_of_nat take_bit_nat_eq_self)
  have d: "length ?seal = 32" using assms(1) by (simp add: hash_chunk_def hash_ok_def)
  have m: "length journal_magic = 8" by (simp add: journal_magic_def)
  show l: "length out = 24 + length body" "drop 24 out = body" by (simp_all add: assms(3) journal_sealed_def m del: to_le.simps)
  have f: "take 8 ((out @ ?seal) @ tail) = journal_magic" "take 2 (drop 8 ((out @ ?seal) @ tail)) = to_le 2 journal_version"
      "take 4 (drop 12 ((out @ ?seal) @ tail)) = to_le 4 ?n" "take 8 (drop 16 ((out @ ?seal) @ tail)) = to_le 8 g"
    unfolding assms(3) journal_sealed_def by (simp_all add: m del: to_le.simps)
  have w: "LENGTH(16) \<le> 8 * 2" "LENGTH(32) \<le> 8 * 4" "LENGTH(64) \<le> 8 * 8" by simp_all
  have t: "take (journal_header_size + length body + journal_seal_size) ((out @ ?seal) @ tail) = out @ ?seal"
      "take (journal_header_size + length body + journal_seal_size - journal_seal_size) ((out @ ?seal) @ tail) = out"
      "drop (journal_header_size + length body + journal_seal_size - journal_seal_size) (out @ ?seal) = ?seal"
    using d l(1) by (simp_all add: journal_header_size_def journal_seal_size_def)
  have e: "\<not> (length ((out @ ?seal) @ tail) < journal_header_size + journal_seal_size \<or> journal_magic \<noteq> journal_magic)"
      "\<not> length ((out @ ?seal) @ tail) < journal_header_size + length body + journal_seal_size"
    using d l(1) by (simp_all add: journal_header_size_def journal_seal_size_def)
  show "next_journal_record blake3 ((out @ ?seal) @ tail) = Some (out @ ?seal, g)"
    unfolding next_journal_record_def f from_to_le_full [OF w(1)] from_to_le_full [OF w(2)] from_to_le_full [OF w(3)] n Let_def t
    using e by simp
qed

theorem journal_record_ok:
  assumes "hash_ok blake3" "journal_fits ix dc da pending" "bt_ok (ix_chunks ix0)" "bt_ok (ix_assets ix0)" "bt_ok (ix_records ix0)"
    and "encode_journal_record blake3 ix g dc da pending = Inr (rec, inline)" "length rec < 2 ^ 32"
  shows "next_journal_record blake3 (rec @ tail) = Some (rec, g)"
    "fst ` set inline = {n \<in> set da. map_of (ix_assets ix) n \<noteq> None \<and> map_of pending n \<noteq> None}"
    "\<exists>ix1. apply_journal_record (drop journal_header_size (take (length rec - journal_seal_size) rec)) file
          (s + of_nat journal_header_size) ix0 = (Inr (), ix1) \<and> journal_applied ix dc da inline file s ix0 ix1"
proof -
  let ?ups = "present (ix_chunks ix) dc" and ?rem = "absent (ix_chunks ix) dc"
  let ?puts = "present (ix_assets ix) da" and ?dels = "absent (ix_assets ix) da"
  from assms(2) have dist: "distinct dc" "distinct da" and few: "length dc < 2 ^ 32" "length da < 2 ^ 32"
    and recs: "refs_ok (ix_records ix)" "\<forall>name bytes. map_of pending name = Some bytes \<longrightarrow> length bytes < 2 ^ 32"
    by (simp_all add: journal_fits_def)
  from encode_journal_parts [OF assms(2), of blake3 g] obtain packs and ords :: "(string \<times> u16) list" and chunks removed puts inline' where
    i: "interned packs ords" "length packs < 2 ^ 16" "\<forall>s \<in> set packs. pack_id_ok s"
      "encode_chunks 2 ords ?ups = Inr chunks" "length chunks = 70 * length ?ups"
      "\<forall>(hex, info) \<in> set ?ups. hex_of_hash hex \<and> ledger_info info \<and> set_option (ci_pack info) \<subseteq> set packs"
      "encode_hashes ?rem = Inr removed" "length removed = 32 * length ?rem"
      "encode_asset_puts (24 + length (journal_head ix dc da packs chunks removed)) (ix_records ix) pending ?puts = Inr (puts, inline')"
      "encode_journal_record blake3 ix g dc da pending
        = Inr (journal_sealed g (journal_body ix dc da packs chunks removed puts)
               @ hash_chunk blake3 (journal_sealed g (journal_body ix dc da packs chunks removed puts)), inline')"
    by blast
  define body where "body = journal_body ix dc da packs chunks removed puts"
  define out where "out = journal_sealed g body"
  have rec: "rec = out @ hash_chunk blake3 out" "inline' = inline"
    using i(10) assms(6) by (simp_all add: body_def out_def)
  have d: "length (hash_chunk blake3 out) = 32" using assms(1) by (simp add: hash_chunk_def hash_ok_def)
  have lo: "length out = 24 + length body" by (simp add: out_def journal_sealed_def journal_magic_def del: to_le.simps)
  have lb: "length body < 2 ^ 32" using assms(7) rec(1) lo by simp
  note found = next_record_found [OF assms(1) lb out_def]
  show "next_journal_record blake3 (rec @ tail) = Some (rec, g)" unfolding rec(1) by (rule found(1))
  have b: "drop journal_header_size (take (length rec - journal_seal_size) rec) = body"
    using d found(3) unfolding rec(1) by (simp add: journal_header_size_def journal_seal_size_def)
  have u: "unat (of_nat (length packs) :: u16) = length packs" "unat (of_nat (length ?ups) :: u32) = length ?ups"
      "unat (of_nat (length ?rem) :: u32) = length ?rem" "unat (of_nat (length ?puts) :: u32) = length ?puts"
      "unat (of_nat (length ?dels) :: u32) = length ?dels"
    using i(2) few present_length [of "ix_chunks ix" dc] absent_length [of "ix_chunks ix" dc]
      present_length [of "ix_assets ix" da] absent_length [of "ix_assets ix" da]
    by (simp_all add: unsigned_of_nat take_bit_nat_eq_self)
  have w: "LENGTH(16) \<le> 8 * 2" "LENGTH(32) \<le> 8 * 4" by simp_all
  let ?at = "\<lambda>left :: bytes. (s + of_nat journal_header_size) + of_nat (length body - length left)"
  let ?K = "24 + length body"
  have at: "?at left = s + of_nat (?K - length left)" if "24 + length left \<le> ?K" for left
  proof -
    have e: "?K - length left = 24 + (length body - length left)" using that by linarith
    show ?thesis unfolding e of_nat_add journal_header_size_def by (simp only: add.assoc)
  qed
  define head where "head = journal_head ix dc da packs chunks removed"
  define dels where "dels = to_le 4 (of_nat (length ?dels) :: u32) @ encode_all encode_text ?dels"
  have body: "body = head @ puts @ dels" by (simp add: body_def journal_body_def head_def dels_def)
  let ?ix1 = "ix0\<lparr>ix_chunks := bt_remove_all ?rem (bt_build ?ups (ix_chunks ix0))\<rparr>"
  have aok: "\<forall>a \<in> set ?puts. asset_ok a" using assms(2) by (auto simp: present_set journal_fits_def)
  have pd: "distinct (map fst ?puts)" using dist(2) by (simp add: present_keys)
  have pk: "24 + length head + length (puts @ dels) = ?K" by (simp add: body)
  have pb: "bt_ok (ix_records ?ix1)" using assms(5) by simp
  have jl: "24 \<le> 24 + length head" by simp
  from apply_asset_puts_ok [OF recs at aok pd i(9) [folded head_def] pk pb jl, of "file", unfolded rec(2)] obtain R where
    keys: "fst ` set inline = set (map fst ?puts) \<inter> dom (map_of pending)" and
    R: "apply_asset_puts file ?at (length ?puts) (puts @ dels) ?ix1
          = (Inr dels, ?ix1\<lparr>ix_assets := bt_build ?puts (ix_assets ?ix1), ix_records := R\<rparr>)"
      "bt_ok R" "map_of R = next_refs file s inline (ix_records ix) (map fst ?puts) (map_of (ix_records ?ix1))"
    by blast
  show "fst ` set inline = {n \<in> set da. map_of (ix_assets ix) n \<noteq> None \<and> map_of pending n \<noteq> None}"
    unfolding keys present_keys by auto
  let ?ix3 = "ix0\<lparr>ix_chunks := bt_remove_all ?rem (bt_build ?ups (ix_chunks ix0)),
      ix_assets := bt_remove_all ?dels (bt_build ?puts (ix_assets ix0)), ix_records := bt_remove_all ?dels R\<rparr>"
  have dk: "\<forall>s \<in> set ?dels. pack_id_ok s" using assms(2) by (auto simp: absent_def journal_fits_def)
  have rk: "\<forall>hex \<in> set ?rem. hex_of_hash hex" using assms(2) by (auto simp: absent_def journal_fits_def)
  have room: "\<not> length (chunks @ r) div 70 < length ?ups" "\<not> length (removed @ r) div 32 < length ?rem" for r
    using i(5,8) by simp_all
  have h: "head @ r = to_le 2 (of_nat (length packs) :: u16) @ encode_all encode_text packs
       @ to_le 4 (of_nat (length ?ups) :: u32) @ chunks @ to_le 4 (of_nat (length ?rem) :: u32) @ removed
       @ to_le 4 (of_nat (length ?puts) :: u32) @ r" for r
    by (simp only: head_def journal_head_def append.assoc)
  note texts = take_texts_ok [OF i(3)]
  note c1 = apply_upserts_ok [OF i(1,2,4,6), of _ ix0]
  note c2 = apply_removals_ok [OF i(7) rk, of _ "ix0\<lparr>ix_chunks := bt_build ?ups (ix_chunks ix0)\<rparr>"]
  have c4: "apply_asset_dels (length ?dels) (encode_all encode_text ?dels) ix
      = (Inr [], ix\<lparr>ix_assets := bt_remove_all ?dels (ix_assets ix), ix_records := bt_remove_all ?dels (ix_records ix)\<rparr>)" for ix
    using apply_asset_dels_ok [OF dk, of "[]" ix] by simp
  define atf where "atf = ?at"
  have c3: "apply_asset_puts file atf (length ?puts) (puts @ dels) ?ix1
      = (Inr dels, ix0\<lparr>ix_chunks := bt_remove_all ?rem (bt_build ?ups (ix_chunks ix0)),
           ix_assets := bt_build ?puts (ix_assets ix0), ix_records := R\<rparr>)"
    using R(1) by (simp add: atf_def)
  have run: "apply_journal_record body file (s + of_nat journal_header_size) ix0 = (Inr (), ?ix3)"
    unfolding apply_journal_record_def atf_def [symmetric] unfolding body h
    by (simp only: take_le_enc [OF w(1)] take_le_enc [OF w(2)] ubind_simps prod.case u texts room if_False
        ubind_ok [where m = "apply_upserts (length ?ups) packs (chunks @ r)" and ix = ix0 for r, OF c1]
        ubind_ok [where m = "apply_removals (length ?rem) (removed @ r)" and ix = "ix0\<lparr>ix_chunks := bt_build ?ups (ix_chunks ix0)\<rparr>" for r, OF c2]
        dels_def)
      (simp add: ubind_ok [where m = "apply_asset_puts file atf (length ?puts) (puts @ dels)" and ix = "?ix1", OF c3, unfolded dels_def]
        u ubind_ok [where m = "apply_asset_dels (length ?dels) (encode_all encode_text ?dels)", OF c4] del: to_le.simps)
  have "journal_applied ix dc da inline file s ix0 ?ix3"
  proof -
    have c: "bt_ok (ix_chunks ?ix3)" "map_of (ix_chunks ?ix3) = overwrite dc (ix_chunks ix) (ix_chunks ix0)"
      using assms(3) present_absent(1) [OF dist(1)] by (simp_all add: bt_ok_build bt_ok_remove_all)
    have a: "bt_ok (ix_assets ?ix3)" "map_of (ix_assets ?ix3) = overwrite da (ix_assets ix) (ix_assets ix0)"
      using assms(4) present_absent(1) [OF dist(2)] by (simp_all add: bt_ok_build bt_ok_remove_all)
    have r: "bt_ok (ix_records ?ix3)" using R(2) by (simp add: bt_ok_remove_all)
    have "map_of (ix_records ?ix3) n = (if n \<in> set da
          then (if map_of (ix_assets ix) n = None then None
                else next_ref file s inline (ix_records ix) n (map_of (ix_records ix0) n))
          else map_of (ix_records ix0) n)" for n
      by (auto simp: map_of_remove_all R(3) next_refs_def present_keys absent_def)
    then show ?thesis using c a r by (simp add: journal_applied_def fun_eq_iff)
  qed
  then show "\<exists>ix1. apply_journal_record (drop journal_header_size (take (length rec - journal_seal_size) rec)) file
          (s + of_nat journal_header_size) ix0 = (Inr (), ix1) \<and> journal_applied ix dc da inline file s ix0 ix1"
    using run unfolding b by blast
qed

section \<open>Whole logs\<close>

text \<open>
  Whole journals: a log is its records back to back; replaying it applies them in order, a torn
  record at its end is not seen, and records no newer than the ledger are passed over.
\<close>

section \<open>Records back to back\<close>

definition sealed_record :: "hash_fun \<Rightarrow> bytes \<Rightarrow> u64 \<Rightarrow> bool" where
  "sealed_record blake3 rec g \<longleftrightarrow> next_journal_record blake3 rec = Some (rec, g)"

definition record_total :: "bytes \<Rightarrow> nat" where
  "record_total bs = journal_header_size + unat (from_le (take 4 (drop 12 bs)) :: u32) + journal_seal_size"

lemma none_else: "(if c then None else x) = Some y \<longleftrightarrow> \<not> c \<and> x = Some y"
  by simp

lemma next_record_iff:
  "next_journal_record blake3 bs = Some (rec, g) \<longleftrightarrow>
     56 \<le> length bs \<and> take 8 bs = journal_magic \<and> \<not> journal_version < from_le (take 2 (drop 8 bs))
     \<and> record_total bs \<le> length bs \<and> take (record_total bs) bs = rec \<and> from_le (take 8 (drop 16 bs)) = g
     \<and> hash_chunk blake3 (take (record_total bs - journal_seal_size) bs)
        = drop (record_total bs - journal_seal_size) (take (record_total bs) bs)"
proof -
  have c: "length bs < journal_header_size + journal_seal_size \<longleftrightarrow> \<not> 56 \<le> length bs"
    by (simp add: journal_header_size_def journal_seal_size_def not_le)
  show ?thesis
    unfolding next_journal_record_def Let_def record_total_def [symmetric] none_else option.inject prod.inject c not_less by blast
qed

lemma record_total_append: "56 \<le> length bs \<Longrightarrow> record_total (bs @ tail) = record_total bs"
  by (simp add: record_total_def)

lemma sealed_record_length: "sealed_record blake3 rec g \<Longrightarrow> length rec = record_total rec"
  unfolding sealed_record_def next_record_iff by (metis length_take min.absorb2)

lemma sealed_record_tail:
  assumes "sealed_record blake3 rec g"
  shows "next_journal_record blake3 (rec @ tail) = Some (rec, g)"
proof -
  note r = assms [unfolded sealed_record_def next_record_iff]
  have n: "56 \<le> length rec" using r by blast
  have f: "take 8 (rec @ tail) = take 8 rec" "take 2 (drop 8 (rec @ tail)) = take 2 (drop 8 rec)"
      "take 8 (drop 16 (rec @ tail)) = take 8 (drop 16 rec)" using n by simp_all
  have le: "record_total rec \<le> length rec" using r by blast
  then have tk: "take (record_total rec) (rec @ tail) = take (record_total rec) rec"
      "take (record_total rec - journal_seal_size) (rec @ tail) = take (record_total rec - journal_seal_size) rec" by simp_all
  have l: "56 \<le> length (rec @ tail)" "record_total rec \<le> length (rec @ tail)" using n le by simp_all
  show ?thesis unfolding next_record_iff f record_total_append [OF n] tk using l r by blast
qed

text \<open>A record that is cut short is not there.\<close>

lemma torn_record:
  assumes "sealed_record blake3 rec g" "k < length rec"
  shows "next_journal_record blake3 (take k rec) = None"
proof (rule ccontr)
  assume "next_journal_record blake3 (take k rec) \<noteq> None"
  then obtain r g' where "next_journal_record blake3 (take k rec) = Some (r, g')" by auto
  then have t: "56 \<le> length (take k rec)" "record_total (take k rec) \<le> length (take k rec)" unfolding next_record_iff by blast+
  from record_total_append [OF t(1), of "drop k rec"] have "record_total rec = record_total (take k rec)"
    unfolding append_take_drop_id .
  moreover have "length (take k rec) < length rec" using assms(2) by simp
  ultimately show False using t(2) sealed_record_length [OF assms(1)] by linarith
qed

type_synonym log_records = "(bytes \<times> u64) list"

definition log_bytes :: "log_records \<Rightarrow> bytes" where
  "log_bytes rs = concat (map fst rs)"

lemma log_bytes_simps [simp]:
  "log_bytes [] = []" "log_bytes (r # rs) = fst r @ log_bytes rs" "log_bytes (rs @ rs') = log_bytes rs @ log_bytes rs'"
  by (simp_all add: log_bytes_def)

definition log_ok :: "hash_fun \<Rightarrow> log_records \<Rightarrow> bool" where
  "log_ok blake3 rs \<longleftrightarrow> (\<forall>(rec, g) \<in> set rs. sealed_record blake3 rec g)"

lemma log_ok_simps [simp]:
  "log_ok blake3 []" "log_ok blake3 ((rec, g) # rs) \<longleftrightarrow> sealed_record blake3 rec g \<and> log_ok blake3 rs"
  "log_ok blake3 (rs @ rs') \<longleftrightarrow> log_ok blake3 rs \<and> log_ok blake3 rs'"
  by (auto simp: log_ok_def)

text \<open>Applying the records of a log in order, all of them; \<open>at\<close> is the offset of the first.\<close>

definition apply_at :: "journal_file \<Rightarrow> nat \<Rightarrow> bytes \<Rightarrow> unit upd" where
  "apply_at f at rec =
     apply_journal_record (drop journal_header_size (take (length rec - journal_seal_size) rec)) f
       (of_nat at + of_nat journal_header_size)"

fun apply_log :: "journal_file \<Rightarrow> nat \<Rightarrow> log_records \<Rightarrow> store_index \<Rightarrow> store_index option" where
  "apply_log f at [] ix = Some ix"
| "apply_log f at ((rec, g) # rs) ix =
     (if g = ix_generation ix + 1 then
        (case apply_at f at rec ix of
           (Inl _, _) \<Rightarrow> None
         | (Inr _, ix1) \<Rightarrow> apply_log f (at + length rec) rs (ix1\<lparr>ix_generation := g\<rparr>))
      else if ix_generation ix + 1 < g then None
      else apply_log f (at + length rec) rs ix)"

lemma apply_log_append:
  "apply_log f at (rs @ rs') ix = Option.bind (apply_log f at rs ix) (apply_log f (at + length (log_bytes rs)) rs')"
  by (induction f at rs ix rule: apply_log.induct) (auto simp: add.assoc split: sum.splits prod.splits)

theorem replay_log:
  assumes "log_ok blake3 rs" "apply_log f (length pre) rs ix = Some ix'" "next_journal_record blake3 tail = None"
  shows "replay_records blake3 f (pre @ log_bytes rs @ tail) (length pre) ix = (length pre + length (log_bytes rs), ix')"
  using assms(1,2)
proof (induction rs arbitrary: pre ix)
  case Nil
  then show ?case using assms(3) by (subst replay_records.simps) simp
next
  case (Cons r rs)
  obtain rec g where r: "r = (rec, g)" by fastforce
  have seal: "sealed_record blake3 rec g" "log_ok blake3 rs" using Cons.prems(1) r by simp_all
  have nxt: "next_journal_record blake3 (drop (length pre) (pre @ log_bytes (r # rs) @ tail)) = Some (rec, g)"
    using sealed_record_tail [OF seal(1)] r by simp
  let ?whole = "pre @ log_bytes (r # rs) @ tail"
  have ih: "replay_records blake3 f ?whole (length pre + length rec) ix1 = (length pre + length (log_bytes (r # rs)), ix')"
    if "apply_log f (length pre + length rec) rs ix1 = Some ix'" for ix1
    using Cons.IH [OF seal(2), of "pre @ rec" ix1] that r by (simp add: add.assoc)
  show ?case
  proof (cases "g = ix_generation ix + 1")
    case True
    obtain ix1 where a: "apply_at f (length pre) rec ix = (Inr (), ix1)"
      "apply_log f (length pre + length rec) rs (ix1\<lparr>ix_generation := g\<rparr>) = Some ix'"
      using Cons.prems(2) r True by (auto split: prod.splits sum.splits)
    show ?thesis using ih [OF a(2)] a(1) True unfolding apply_at_def
      by (subst replay_records.simps) (simp only: nxt option.case prod.case simp_thms if_True sum.case)
  next
    case False
    then have n: "\<not> ix_generation ix + 1 < g" "apply_log f (length pre + length rec) rs ix = Some ix'"
      using Cons.prems(2) r by (auto split: if_splits)
    show ?thesis using ih [OF n(2)] False n(1)
      by (subst replay_records.simps) (simp only: nxt option.case prod.case if_False)
  qed
qed

lemma no_record_empty [simp]: "next_journal_record blake3 [] = None"
  by (simp add: next_journal_record_def journal_header_size_def)

section \<open>Generations\<close>

text \<open>Records no newer than generation \<open>g\<close>; generations do not reach the end of their range.\<close>

definition no_newer :: "u64 \<Rightarrow> log_records \<Rightarrow> bool" where
  "no_newer g rs \<longleftrightarrow> (\<forall>(rec, g') \<in> set rs. g' \<le> g)"

definition roomy :: "u64 \<Rightarrow> bool" where
  "roomy g \<longleftrightarrow> unat g + 2 < 2 ^ 64"

lemma roomy_next: "roomy g \<Longrightarrow> unat (g + 1) = unat g + 1"
  by (simp add: roomy_def unat_word_ariths)

lemma roomy_less: "roomy g \<Longrightarrow> g < g + 1"
  by (simp add: word_less_nat_alt roomy_next)

lemma no_newer_mono: "no_newer g rs \<Longrightarrow> g \<le> g' \<Longrightarrow> no_newer g' rs"
  by (fastforce simp: no_newer_def)

theorem stale_log:
  assumes "no_newer (ix_generation ix) rs" "ix_generation ix < ix_generation ix + 1"
  shows "apply_log f at rs ix = Some ix"
  using assms(1)
proof (induction rs arbitrary: at)
  case (Cons r rs)
  obtain rec g where r: "r = (rec, g)" by fastforce
  have "g \<le> ix_generation ix" using Cons.prems r by (simp add: no_newer_def)
  then have "g \<noteq> ix_generation ix + 1" "\<not> ix_generation ix + 1 < g" using assms(2) by auto
  then show ?case using Cons r by (simp add: no_newer_def)
qed simp

end
