(* ===== verification/Ledger_Disk.thy ===== *)
theory Ledger_Disk
  imports Store_Puts Journal_Laws
begin

text \<open>
  The monolithic ledger on disk: what a directory must hold for it to open to a given ledger, how
  opening finds it, and which files a change may touch without losing it.
\<close>

section \<open>What is on disk\<close>

definition log_file :: "store_dir \<Rightarrow> journal_file \<Rightarrow> bytes" where
  "log_file d f = (case path_bytes d (LogFile f) of None \<Rightarrow> [] | Some bs \<Rightarrow> bs)"

text \<open>
  The log holds \<open>rs\<close>, which lead from the snapshot to \<open>L\<close>, and then \<open>torn\<close>, which is not a
  record; what was rotated away is older than the snapshot.
\<close>

definition logged :: "hash_fun \<Rightarrow> store_dir \<Rightarrow> store_index \<Rightarrow> log_records \<Rightarrow> bytes \<Rightarrow> store_index \<Rightarrow> bool" where
  "logged blake3 d snap rs torn L \<longleftrightarrow> log_file d LiveLog = log_bytes rs @ torn \<and> log_ok blake3 rs
     \<and> apply_log LiveLog 0 rs snap = Some L \<and> next_journal_record blake3 torn = None \<and> no_newer (ix_generation L) rs
     \<and> ix_generation snap \<le> ix_generation L \<and> length (log_bytes rs) < 2 ^ 64"

definition rotated :: "hash_fun \<Rightarrow> store_dir \<Rightarrow> store_index \<Rightarrow> bool" where
  "rotated blake3 d snap \<longleftrightarrow> (\<exists>ps torn. log_file d PrevLog = log_bytes ps @ torn \<and> log_ok blake3 ps
     \<and> no_newer (ix_generation snap) ps \<and> next_journal_record blake3 torn = None)"

definition is_snapshot :: "hash_fun \<Rightarrow> bytes \<Rightarrow> store_index \<Rightarrow> bool" where
  "is_snapshot blake3 bs snap \<longleftrightarrow> decode_index_versioned blake3 bs = Inr (snap, 2) \<and> 0 < length bs \<and> length bs < 2 ^ 64
     \<and> roomy (ix_generation snap)"

definition live_ledger :: "hash_fun \<Rightarrow> store_dir \<Rightarrow> bytes \<Rightarrow> store_index \<Rightarrow> log_records \<Rightarrow> bytes \<Rightarrow> store_index \<Rightarrow> bool" where
  "live_ledger blake3 d bs snap rs torn L \<longleftrightarrow> path_bytes d SnapshotFile = Some bs \<and> is_snapshot blake3 bs snap
     \<and> logged blake3 d snap rs torn L \<and> rotated blake3 d snap"

text \<open>The snapshot is only there as the previous one, while a new one takes its place.\<close>

definition prev_ledger :: "hash_fun \<Rightarrow> store_dir \<Rightarrow> store_index \<Rightarrow> bool" where
  "prev_ledger blake3 d L \<longleftrightarrow> path_bytes d SnapshotFile = None
     \<and> (\<exists>bs snap rs torn. path_bytes d SnapshotPrev = Some bs \<and> is_snapshot blake3 bs snap
          \<and> logged blake3 d snap rs torn L \<and> rotated blake3 d snap)"

section \<open>Replaying it\<close>

lemma replay_journal_file:
  "replay_journal blake3 f (path_bytes d (LogFile f)) ix
    = (let r = replay_records blake3 f (log_file d f) 0 ix in ((fst r, length (log_file d f)), snd r))"
proof (cases "path_bytes d (LogFile f)")
  case None
  then show ?thesis by (simp add: replay_journal_def replay_journal_from_def log_file_def replay_records.simps)
next
  case (Some bs)
  then show ?thesis by (simp add: replay_journal_def replay_journal_from_def log_file_def case_prod_unfold Let_def)
qed

lemma replay_live:
  assumes "logged blake3 d snap rs torn L"
  shows "replay_journal blake3 LiveLog (path_bytes d (LogFile LiveLog)) snap
    = ((length (log_bytes rs), length (log_file d LiveLog)), L)"
  using replay_log [of blake3 rs LiveLog "[]" snap L torn] assms by (simp add: logged_def replay_journal_file Let_def)

lemma replay_prev:
  assumes "rotated blake3 d snap" "roomy (ix_generation snap)"
  shows "snd (replay_journal blake3 PrevLog (path_bytes d (LogFile PrevLog)) snap) = snap"
proof -
  obtain ps torn where ps: "log_file d PrevLog = log_bytes ps @ torn" "log_ok blake3 ps" "no_newer (ix_generation snap) ps"
    "next_journal_record blake3 torn = None" using assms(1) by (auto simp: rotated_def)
  have "apply_log PrevLog 0 ps snap = Some snap" by (rule stale_log [OF ps(3) roomy_less [OF assms(2)]])
  then show ?thesis
    using replay_log [of blake3 ps PrevLog "[]" snap snap torn] ps by (simp add: replay_journal_file Let_def)
qed

section \<open>Runs that only tidy\<close>

text \<open>
  What an open sweeps and restores: half-staged files, and packs that come back from quarantine.
\<close>

definition tidy_paths :: "store_path set" where
  "tidy_paths = insert SnapshotTmp (range PackPart \<union> range RecordPackTmp \<union> range PackFile \<union> range PackIndex
     \<union> range QuarantinePack \<union> range QuarantineIndex \<union> range QuarantineSince)"

definition tidied :: "store_dir \<Rightarrow> store_dir \<Rightarrow> bool" where
  "tidied d d' \<longleftrightarrow> changed_at tidy_paths d d'
     \<and> (\<forall>hex. path_file d' (QuarantinePack hex) \<noteq> None \<longrightarrow> path_file d (QuarantinePack hex) \<noteq> None)"

lemma tidied_refl [simp]: "tidied d d"
  by (simp add: tidied_def)

lemma tidied_trans: "tidied a b \<Longrightarrow> tidied b c \<Longrightarrow> tidied a c"
  using changed_trans by (auto simp: tidied_def)

lemma tidied_del: "p \<in> tidy_paths \<Longrightarrow> tidied d (del_path p d)"
  by (auto simp: tidied_def changed_at_def split: if_splits)

lemma move_same: "changed_at {a, b} d (move_path a b d)"
proof (cases "path_file d a")
  case None
  then show ?thesis by (simp add: move_path_def)
next
  case (Some f)
  show ?thesis
  proof (cases "a = b")
    case True
    then have "path_file (move_path a b d) q = path_file d q" if "q \<noteq> a" for q
      using Some that by (simp add: path_file_def move_path_def update_conv' delete_conv')
    then show ?thesis using True by (simp add: changed_at_def)
  next
    case False
    then show ?thesis using path_move [OF Some False] by (simp add: changed_at_def)
  qed
qed

lemma tidied_move:
  assumes "a \<in> tidy_paths" "b \<in> tidy_paths" "b \<notin> range QuarantinePack"
  shows "tidied d (move_path a b d)"
proof -
  have "changed_at tidy_paths d (move_path a b d)" using changed_mono [OF move_same] assms(1,2) by blast
  moreover have "path_file d (QuarantinePack hex) \<noteq> None" if "path_file (move_path a b d) (QuarantinePack hex) \<noteq> None" for hex
  proof (cases "path_file d a")
    case (Some f)
    have "path_file (move_path b b d) (QuarantinePack hex) = path_file d (QuarantinePack hex)"
      using move_same [of b b d] assms(3) by (auto simp: changed_at_def)
    then show ?thesis using Some that path_move [OF Some, of b "QuarantinePack hex"] assms(3)
      by (cases "a = b") (auto split: if_splits)
  qed (use that in \<open>simp add: move_path_def\<close>)
  ultimately show ?thesis by (simp add: tidied_def)
qed

definition disk_run :: "unit store_run \<Rightarrow> global_store \<Rightarrow> bool" where
  "disk_run m s \<longleftrightarrow> (\<exists>d'. goes (\<lambda>t. tidied (gs_disk s) (gs_disk t)) m s () (s\<lparr>gs_disk := d'\<rparr>) \<and> tidied (gs_disk s) d')"

lemma disk_run_ret: "disk_run (ret ()) s"
  unfolding disk_run_def by (rule exI [of _ "gs_disk s"]) (simp add: goes_ret)

lemma disk_run_bind:
  assumes "disk_run m s" "\<And>d. tidied (gs_disk s) d \<Longrightarrow> disk_run k (s\<lparr>gs_disk := d\<rparr>)"
  shows "disk_run (bind_run m (\<lambda>_. k)) s"
proof -
  obtain d1 where d1: "goes (\<lambda>t. tidied (gs_disk s) (gs_disk t)) m s () (s\<lparr>gs_disk := d1\<rparr>)" "tidied (gs_disk s) d1"
    using assms(1) by (auto simp: disk_run_def)
  obtain d2 where d2: "goes (\<lambda>t. tidied d1 (gs_disk t)) k (s\<lparr>gs_disk := d1\<rparr>) () (s\<lparr>gs_disk := d2\<rparr>)" "tidied d1 d2"
    using assms(2) [OF d1(2)] by (auto simp: disk_run_def)
  have "goes (\<lambda>t. tidied (gs_disk s) (gs_disk t)) k (s\<lparr>gs_disk := d1\<rparr>) () (s\<lparr>gs_disk := d2\<rparr>)"
    by (rule goes_mono [OF d2(1)]) (rule tidied_trans [OF d1(2)])
  from goes_bind [OF d1(1) this] show ?thesis using tidied_trans [OF d1(2) d2(2)] by (auto simp: disk_run_def)
qed

lemma disk_run_ask: "f s = Inr x \<Longrightarrow> disk_run (k x) s \<Longrightarrow> disk_run (bind_run (ask f) k) s"
  by (auto simp: disk_run_def goes_def bind_run_def ask_def split: prod.splits)

lemma goes_disk: "P (s\<lparr>gs_disk := f (gs_disk s)\<rparr>) \<Longrightarrow> goes P (on_disk f) s () (s\<lparr>gs_disk := f (gs_disk s)\<rparr>)"
  unfolding on_disk_def by (rule goes_act)

lemma disk_run_remove: "p \<in> tidy_paths \<Longrightarrow> disk_run (remove_path p) s"
  unfolding disk_run_def remove_path_def
  by (rule exI [of _ "del_path p (gs_disk s)"]) (simp add: goes_disk tidied_del)

lemma disk_run_rename:
  assumes "path_file (gs_disk s) a \<noteq> None" "a \<in> tidy_paths" "b \<in> tidy_paths" "b \<notin> range QuarantinePack"
  shows "disk_run (rename_path a b) s"
proof -
  obtain f where f: "path_file (gs_disk s) a = Some f" using assms(1) by auto
  have "disk_run (on_disk (move_path a b)) s" unfolding disk_run_def
    by (rule exI [of _ "move_path a b (gs_disk s)"]) (use assms in \<open>simp add: goes_disk tidied_move\<close>)
  then show ?thesis unfolding rename_path_def by (intro disk_run_ask [OF refl]) (simp add: f)
qed

lemma disk_run_each:
  assumes "\<And>x d. x \<in> set xs \<Longrightarrow> disk_run (f x) (s\<lparr>gs_disk := d\<rparr>)"
  shows "disk_run (for_each f xs) s"
proof -
  have "disk_run (for_each f xs) (s\<lparr>gs_disk := d\<rparr>)" for d
    using assms
  proof (induction xs arbitrary: d)
    case Nil
    show ?case by (simp add: disk_run_ret)
  next
    case (Cons x xs)
    have "disk_run (for_each f xs) (s\<lparr>gs_disk := d'\<rparr>)" for d' using Cons by simp
    then show ?case unfolding for_each.simps
      by (intro disk_run_bind) (use Cons.prems [of x d] in simp_all)
  qed
  from this [of "gs_disk s"] show ?thesis by simp
qed

lemma tidy_sweep: "disk_run sweep_part_packs s"
proof -
  have t: "p \<in> tidy_paths" if "half_staged p" for p using that by (cases p) (auto simp: tidy_paths_def)
  show ?thesis unfolding sweep_part_packs_def
    by (intro disk_run_ask [OF refl] disk_run_each disk_run_remove) (auto intro: t)
qed

definition quarantine_ok :: "store_dir \<Rightarrow> bool" where
  "quarantine_ok d \<longleftrightarrow> (\<forall>hex. path_file d (QuarantinePack hex) \<noteq> None \<longrightarrow> pack_path hex = Inr (PackFile hex))"

lemma tidied_quarantine: "tidied d d' \<Longrightarrow> quarantine_ok d \<Longrightarrow> quarantine_ok d'"
  by (auto simp: tidied_def quarantine_ok_def)

lemma tidy_names:
  "PackPart n \<in> tidy_paths" "RecordPackTmp h \<in> tidy_paths" "PackFile hex \<in> tidy_paths" "PackIndex hex \<in> tidy_paths"
  "QuarantinePack hex \<in> tidy_paths" "QuarantineIndex hex \<in> tidy_paths" "QuarantineSince hex \<in> tidy_paths" "SnapshotTmp \<in> tidy_paths"
  by (auto simp: tidy_paths_def)

lemma tidy_restore_one:
  assumes "pack_path hex = Inr (PackFile hex)"
  shows "disk_run (restore_pack_from_quarantine hex) s"
  unfolding restore_pack_from_quarantine_def
proof (intro disk_run_ask [OF assms] disk_run_ask [OF refl] disk_run_bind, goal_cases)
  case 1
  show ?case by (auto intro!: disk_run_rename disk_run_ret tidy_names)
next
  case (2 d)
  show ?case by (auto intro!: disk_run_rename disk_run_ret tidy_names)
next
  case (3 d d')
  show ?case by (intro disk_run_remove tidy_names)
qed

lemma quarantined_there: "hex \<in> set (quarantined_packs d) \<Longrightarrow> path_file d (QuarantinePack hex) \<noteq> None"
proof -
  assume "hex \<in> set (quarantined_packs d)"
  then obtain p where "p \<in> set (store_paths d)" "quarantined_pack p = Some hex"
    by (auto simp: quarantined_packs_def map_filter_def)
  moreover have "p = QuarantinePack hex" using calculation(2) by (cases p) auto
  ultimately show ?thesis by (auto simp: store_paths_def path_file_def map_of_eq_None_iff)
qed

lemma tidy_restore:
  assumes "quarantine_ok (gs_disk s)" "live_pack_set s = Inr live"
  shows "disk_run restore_quarantined_packs s"
proof -
  let ?hexes = "quarantined_packs (gs_disk s)"
  have p: "pack_path hex = Inr (PackFile hex)" if "hex \<in> set ?hexes" for hex
    using assms(1) quarantined_there [OF that] by (simp add: quarantine_ok_def)
  have "disk_run (for_each (\<lambda>hex. if hex \<in> set live then restore_pack_from_quarantine hex else ret ()) ?hexes) s"
    by (rule disk_run_each) (auto intro: tidy_restore_one disk_run_ret p)
  then show ?thesis unfolding restore_quarantined_packs_def
    by (intro disk_run_ask [OF refl]) (auto intro: disk_run_ret disk_run_ask [where f = live_pack_set, OF assms(2)])
qed

end
