(* ===== verification/Ledger_Open.thy ===== *)
theory Ledger_Open
  imports Ledger_Disk
begin

text \<open>
  Opening a monolithic store: from a directory that holds a ledger, live or as the previous snapshot
  while a new one takes its place, an open gives a handle on exactly that ledger, and every
  directory the open passes through still holds it.
\<close>

section \<open>Directories that open to a ledger\<close>

definition no_segments :: "store_dir \<Rightarrow> bool" where
  "no_segments d \<longleftrightarrow> get_file (sd_index d) CurrentFile = None"

definition opens_live :: "hash_fun \<Rightarrow> store_index \<Rightarrow> store_dir \<Rightarrow> bool" where
  "opens_live blake3 L d \<longleftrightarrow> no_segments d \<and> quarantine_ok d \<and> (\<exists>bs snap rs torn. live_ledger blake3 d bs snap rs torn L)"

definition opens_prev :: "hash_fun \<Rightarrow> store_index \<Rightarrow> store_dir \<Rightarrow> bool" where
  "opens_prev blake3 L d \<longleftrightarrow> no_segments d \<and> quarantine_ok d \<and> prev_ledger blake3 d L"

definition opens_to :: "hash_fun \<Rightarrow> store_index \<Rightarrow> store_dir \<Rightarrow> bool" where
  "opens_to blake3 L d \<longleftrightarrow> opens_live blake3 L d \<or> opens_prev blake3 L d"

text \<open>The files a ledger is read from.\<close>

definition same_ledger_files :: "store_dir \<Rightarrow> store_dir \<Rightarrow> bool" where
  "same_ledger_files d d' \<longleftrightarrow> sd_index d' = sd_index d
     \<and> (\<forall>p \<in> {SnapshotFile, SnapshotPrev, LogFile LiveLog, LogFile PrevLog}. path_bytes d' p = path_bytes d p)"

lemma same_logs: "same_ledger_files d d' \<Longrightarrow> log_file d' f = log_file d f"
  by (cases f) (simp_all add: same_ledger_files_def log_file_def)

lemma same_logged: "same_ledger_files d d' \<Longrightarrow> logged blake3 d' snap rs torn L = logged blake3 d snap rs torn L"
  by (simp add: logged_def same_logs)

lemma same_rotated: "same_ledger_files d d' \<Longrightarrow> rotated blake3 d' snap = rotated blake3 d snap"
  by (simp add: rotated_def same_logs)

lemma same_live: "same_ledger_files d d' \<Longrightarrow> live_ledger blake3 d' bs snap rs torn L = live_ledger blake3 d bs snap rs torn L"
  using same_logged [of d d' blake3 snap rs torn L] same_rotated [of d d' blake3 snap]
  by (simp add: live_ledger_def same_ledger_files_def)

lemma same_prev:
  assumes "same_ledger_files d d'"
  shows "prev_ledger blake3 d' L = prev_ledger blake3 d L"
proof -
  have "path_bytes d' SnapshotFile = path_bytes d SnapshotFile" "path_bytes d' SnapshotPrev = path_bytes d SnapshotPrev"
    using assms by (simp_all add: same_ledger_files_def)
  then show ?thesis unfolding prev_ledger_def same_logged [OF assms] same_rotated [OF assms] by simp
qed

lemma changed_same:
  assumes "changed_at P d d'" "P \<inter> {SnapshotFile, SnapshotPrev, LogFile LiveLog, LogFile PrevLog} = {}"
  shows "same_ledger_files d d'"
  using assms by (auto simp: same_ledger_files_def changed_at_def path_bytes_def)

lemma tidied_same: "tidied d d' \<Longrightarrow> same_ledger_files d d'"
  by (rule changed_same [of tidy_paths]) (auto simp: tidied_def tidy_paths_def)

lemma tidied_opens:
  assumes "tidied d d'"
  shows "opens_live blake3 L d \<Longrightarrow> opens_live blake3 L d'" "opens_prev blake3 L d \<Longrightarrow> opens_prev blake3 L d'"
  using tidied_quarantine [OF assms] same_live [OF tidied_same [OF assms]] same_prev [OF tidied_same [OF assms]] tidied_same [OF assms]
  by (auto simp: opens_live_def opens_prev_def no_segments_def same_ledger_files_def)

section \<open>Loading\<close>

lemma load_live:
  assumes "live_ledger blake3 d bs snap rs torn L"
  shows "load_ledger blake3 json d = Inr (Some (snap, FromLive (of_nat (length bs))))"
  using assms by (simp add: live_ledger_def is_snapshot_def load_ledger_def)

lemma load_prev:
  assumes "path_bytes d SnapshotFile = None" "path_bytes d SnapshotPrev = Some bs" "is_snapshot blake3 bs snap"
  shows "load_ledger blake3 json d = Inr (Some (snap, FromPrev))"
  using assms by (simp add: is_snapshot_def load_ledger_def decode_index_def rbind_def)

section \<open>Opening\<close>

definition opened :: "global_store \<Rightarrow> store_index \<Rightarrow> u64 \<Rightarrow> u64 \<Rightarrow> store_dir \<Rightarrow> global_store" where
  "opened s ix jb sb d = s\<lparr>gs_disk := d, gs_index := ix, gs_journal_bytes := jb, gs_snapshot_bytes := sb,
     gs_snapshot_id := snapshot_identity d\<rparr>"

text \<open>The last steps of an open, over the ledger that was found.\<close>

lemma finish_open:
  assumes "gs_seg s = None" "quarantine_ok (gs_disk s)"
  shows "\<exists>d1 d2. goes (\<lambda>t. tidied (gs_disk s) (gs_disk t))
      (bind_run (if ro then ret () else sweep_part_packs) (\<lambda>_.
       bind_run (memory (\<lambda>s. s\<lparr>gs_index := ix, gs_journal_bytes := jb, gs_snapshot_bytes := sb,
         gs_snapshot_id := snapshot_identity (gs_disk s)\<rparr>)) (\<lambda>_.
       if ro then ret () else restore_quarantined_packs))) s ()
      ((opened s ix jb sb d1)\<lparr>gs_disk := d2\<rparr>)
    \<and> tidied (gs_disk s) d1 \<and> tidied (gs_disk s) d2 \<and> (ro \<longrightarrow> d2 = gs_disk s)"
proof -
  have sweep: "disk_run (if ro then ret () else sweep_part_packs) s" using disk_run_ret tidy_sweep by simp
  show ?thesis
  proof (cases ro)
    case True
    have "goes (\<lambda>t. tidied (gs_disk s) (gs_disk t))
      (bind_run (ret ()) (\<lambda>_. bind_run (memory (\<lambda>s. s\<lparr>gs_index := ix, gs_journal_bytes := jb, gs_snapshot_bytes := sb,
         gs_snapshot_id := snapshot_identity (gs_disk s)\<rparr>)) (\<lambda>_. ret ()))) s () (opened s ix jb sb (gs_disk s))"
      by (simp add: goes_def bind_run_def ret_def memory_def opened_def)
    then show ?thesis using True by (intro exI [of _ "gs_disk s"]) (simp add: opened_def)
  next
    case False
    from tidy_sweep [of s] obtain d1 where d1: "goes (\<lambda>t. tidied (gs_disk s) (gs_disk t)) sweep_part_packs s () (s\<lparr>gs_disk := d1\<rparr>)"
      "tidied (gs_disk s) d1" by (auto simp: disk_run_def)
    let ?s2 = "opened s ix jb sb d1"
    have m: "goes (\<lambda>t. tidied (gs_disk s) (gs_disk t)) (memory (\<lambda>s. s\<lparr>gs_index := ix, gs_journal_bytes := jb, gs_snapshot_bytes := sb,
         gs_snapshot_id := snapshot_identity (gs_disk s)\<rparr>)) (s\<lparr>gs_disk := d1\<rparr>) () ?s2"
      by (simp add: goes_def memory_def opened_def)
    have "live_pack_set ?s2 = Inr (List.map_filter (\<lambda>(_, info). ci_pack info) (ix_chunks ix))"
      using assms(1) by (simp add: live_pack_set_def chunks_iter_def opened_def)
    moreover have "gs_disk ?s2 = d1" by (simp add: opened_def)
    ultimately have "disk_run restore_quarantined_packs ?s2"
      using tidy_restore [of ?s2] tidied_quarantine [OF d1(2) assms(2)] by simp
    then obtain d2 where d2: "goes (\<lambda>t. tidied d1 (gs_disk t)) restore_quarantined_packs ?s2 () (?s2\<lparr>gs_disk := d2\<rparr>)" "tidied d1 d2"
      by (auto simp: disk_run_def opened_def)
    have r: "goes (\<lambda>t. tidied (gs_disk s) (gs_disk t)) restore_quarantined_packs ?s2 () (?s2\<lparr>gs_disk := d2\<rparr>)"
      by (rule goes_mono [OF d2(1)]) (rule tidied_trans [OF d1(2)])
    show ?thesis using goes_bind [OF d1(1) goes_bind [OF m r]] False d1(2) tidied_trans [OF d1(2) d2(2)]
      by (intro exI [of _ d1] exI [of _ d2]) simp
  qed
qed

lemma live_truncated:
  assumes "live_ledger blake3 d bs snap rs torn L"
  shows "live_ledger blake3 (set_path (LogFile LiveLog) (log_bytes rs) d) bs snap rs [] L"
  using assms by (auto simp: live_ledger_def logged_def rotated_def log_file_def)

lemma opens_live_log:
  assumes "live_ledger blake3 d bs snap rs torn L" "no_segments d" "quarantine_ok d"
  shows "opens_live blake3 L (set_path (LogFile LiveLog) (log_bytes rs) d)"
  using live_truncated [OF assms(1)] assms(2,3) by (auto simp: opens_live_def no_segments_def quarantine_ok_def)

lemma open_inner_mono:
  assumes "no_segments d"
  shows "open_inner env None ro (blank_store part ro d) = open_monolithic env None ro (blank_store part ro d)"
proof -
  have "get_file (sd_index (gs_disk (blank_store part ro d))) CurrentFile = None" using assms by (simp add: no_segments_def blank_store_def)
  then show ?thesis unfolding open_inner_def by (simp add: bind_run_def ask_def split: prod.split sum.split)
qed

theorem open_live_ledger:
  assumes "live_ledger (se_blake3 env) d bs snap rs torn L" "no_segments d" "quarantine_ok d"
  shows "\<exists>d1 d2. goes (\<lambda>t. opens_live (se_blake3 env) L (gs_disk t)) (open_inner env None ro) (blank_store part ro d) ()
      ((opened (blank_store part ro d) L (of_nat (length (log_bytes rs))) (of_nat (length bs)) d1)\<lparr>gs_disk := d2\<rparr>)
    \<and> (if ro then d2 = d else live_ledger (se_blake3 env) d2 bs snap rs [] L \<and> no_segments d2 \<and> quarantine_ok d2)"
proof -
  let ?b = "se_blake3 env" and ?s0 = "blank_store part ro d" and ?n = "length (log_bytes rs)"
  let ?P = "\<lambda>t. opens_live ?b L (gs_disk t)"
  have op0: "opens_live ?b L d" using assms by (auto simp: opens_live_def)
  have b: "length bs < 2 ^ 64" "0 < length bs" "?n < 2 ^ 64" using assms(1) by (simp_all add: live_ledger_def is_snapshot_def logged_def)
  have pos: "0 < (of_nat (length bs) :: u64)" using b by (simp add: word_less_nat_alt unsigned_of_nat take_bit_nat_eq_self)
  have "disk_run (if ro then ret () else remove_path SnapshotTmp) ?s0"
    using disk_run_ret disk_run_remove tidy_names by auto
  then obtain d0 where d0: "goes (\<lambda>t. tidied d (gs_disk t)) (if ro then ret () else remove_path SnapshotTmp) ?s0 () (?s0\<lparr>gs_disk := d0\<rparr>)"
    "tidied d d0" by (auto simp: disk_run_def blank_store_def)
  let ?s1 = "?s0\<lparr>gs_disk := d0\<rparr>"
  have ro0: "d0 = d" if ro using d0(1) that by (auto simp: goes_def ret_def blank_store_def)
  have r0: "goes ?P (if ro then ret () else remove_path SnapshotTmp) ?s0 () ?s1"
    by (rule goes_mono [OF d0(1)]) (rule tidied_opens(1) [OF _ op0])
  have live0: "live_ledger ?b d0 bs snap rs torn L" using same_live [OF tidied_same [OF d0(2)]] assms(1) by simp
  have q0: "no_segments d0" "quarantine_ok d0"
    using tidied_same [OF d0(2)] tidied_quarantine [OF d0(2) assms(3)] assms(2) by (simp_all add: no_segments_def same_ledger_files_def)
  have load: "load_ledger ?b (json_index env) (gs_disk ?s1) = Inr (Some (snap, FromLive (of_nat (length bs))))"
    using load_live [OF live0] by simp
  have logd: "logged ?b d0 snap rs torn L" using live0 by (simp add: live_ledger_def)
  have rep: "replay_journal ?b LiveLog (path_bytes (gs_disk ?s1) (LogFile LiveLog)) snap = ((?n, length (log_file d0 LiveLog)), L)"
    using replay_live [OF logd] by simp
  define cut where "cut = (?n < length (log_file d0 LiveLog) \<and> \<not> ro)"
  define d1 where "d1 = (if cut then set_path (LogFile LiveLog) (log_bytes rs) d0 else d0)"
  let ?s2 = "?s0\<lparr>gs_disk := d1\<rparr>"
  have lf: "take ?n (case path_bytes d0 (LogFile LiveLog) of None \<Rightarrow> [] | Some bs \<Rightarrow> bs) = log_bytes rs"
    using logd by (simp add: logged_def log_file_def)
  have live1: "live_ledger ?b d1 bs snap rs (if cut then [] else torn) L"
    using live_truncated [OF live0] live0 by (simp add: d1_def)
  have torn1: "(if cut then [] else torn) = []" if "\<not> ro"
    using that logd by (auto simp: cut_def logged_def)
  have q1: "no_segments d1" "quarantine_ok d1" using q0 by (auto simp: d1_def no_segments_def quarantine_ok_def)
  have op1: "opens_live ?b L d1" using live1 q1 by (auto simp: opens_live_def)
  have r1: "goes ?P (if cut then on_disk (\<lambda>d. set_path (LogFile LiveLog)
        (take ?n (case path_bytes d (LogFile LiveLog) of None \<Rightarrow> [] | Some bs \<Rightarrow> bs)) d) else ret ()) ?s1 () ?s2"
  proof (cases cut)
    case True
    have "?s1\<lparr>gs_disk := set_path (LogFile LiveLog) (take ?n (case path_bytes (gs_disk ?s1) (LogFile LiveLog) of None \<Rightarrow> [] | Some bs \<Rightarrow> bs)) (gs_disk ?s1)\<rparr> = ?s2"
      using True lf by (simp add: d1_def)
    then show ?thesis using True op1 goes_disk [of ?P "\<lambda>d. set_path (LogFile LiveLog)
        (take ?n (case path_bytes d (LogFile LiveLog) of None \<Rightarrow> [] | Some bs \<Rightarrow> bs)) d" ?s1] by simp
  qed (simp add: goes_ret d1_def)
  obtain d2 d3 where fin: "goes (\<lambda>t. tidied d1 (gs_disk t))
      (bind_run (if ro then ret () else sweep_part_packs) (\<lambda>_.
       bind_run (memory (\<lambda>s. s\<lparr>gs_index := L, gs_journal_bytes := of_nat ?n, gs_snapshot_bytes := of_nat (length bs),
         gs_snapshot_id := snapshot_identity (gs_disk s)\<rparr>)) (\<lambda>_.
       if ro then ret () else restore_quarantined_packs))) ?s2 ()
      ((opened ?s2 L (of_nat ?n) (of_nat (length bs)) d2)\<lparr>gs_disk := d3\<rparr>)" "tidied d1 d3" "ro \<longrightarrow> d3 = d1"
    using finish_open [where s = ?s2 and ro = ro and ix = L and jb = "of_nat ?n" and sb = "of_nat (length bs)"] q1(2) by (auto simp: blank_store_def)
  have r2: "goes ?P (bind_run (if ro then ret () else sweep_part_packs) (\<lambda>_.
       bind_run (memory (\<lambda>s. s\<lparr>gs_index := L, gs_journal_bytes := of_nat ?n, gs_snapshot_bytes := of_nat (length bs),
         gs_snapshot_id := snapshot_identity (gs_disk s)\<rparr>)) (\<lambda>_.
       if ro then ret () else restore_quarantined_packs))) ?s2 ()
      ((opened ?s0 L (of_nat ?n) (of_nat (length bs)) d2)\<lparr>gs_disk := d3\<rparr>)"
    using goes_mono [OF fin(1), of ?P] tidied_opens(1) [OF _ op1] by (simp add: opened_def)
  have rl: "goes ?P (recover_ledger ?b None ro (Some (snap, FromLive (of_nat (length bs))))) ?s1 (snap, of_nat (length bs)) ?s1"
    unfolding recover_ledger_def option.case prod.case ledger_source.case by (rule goes_ret)
  have ra: "goes ?P (ask (\<lambda>s. Inr (replay_journal ?b LiveLog (path_bytes (gs_disk s) (LogFile LiveLog)) snap))) ?s1
      ((?n, length (log_file d0 LiveLog)), L) ?s1" by (rule goes_ask) (simp only: rep)
  have "goes ?P (open_monolithic env None ro) ?s0 () ((opened ?s0 L (of_nat ?n) (of_nat (length bs)) d2)\<lparr>gs_disk := d3\<rparr>)"
    unfolding open_monolithic_def
    by (rule goes_bind [OF r0], rule goes_bind, rule goes_ask, rule load, rule goes_bind [OF rl],
        simp only: prod.case pos if_True, rule goes_bind, rule goes_bind [OF ra],
        simp only: prod.case cut_def [symmetric], rule goes_bind [OF r1 goes_ret],
        simp only: prod.case, rule goes_bind, rule goes_ask, rule refl, simp only: option.case if_False, rule r2)
  then have "goes ?P (open_inner env None ro) ?s0 () ((opened ?s0 L (of_nat ?n) (of_nat (length bs)) d2)\<lparr>gs_disk := d3\<rparr>)"
    by (simp add: goes_def open_inner_mono [OF assms(2)])
  moreover have "if ro then d3 = d else live_ledger ?b d3 bs snap rs [] L \<and> no_segments d3 \<and> quarantine_ok d3"
  proof (cases ro)
    case True
    then show ?thesis using fin(3) ro0 by (simp add: d1_def cut_def)
  next
    case False
    have "live_ledger ?b d3 bs snap rs [] L"
      using same_live [OF tidied_same [OF fin(2)]] live1 torn1 [OF False] by simp
    moreover have "no_segments d3 \<and> quarantine_ok d3"
      using q1 tidied_same [OF fin(2)] tidied_quarantine [OF fin(2) q1(2)] by (simp add: no_segments_def same_ledger_files_def)
    ultimately show ?thesis using False by simp
  qed
  ultimately show ?thesis by blast
qed

theorem open_prev_ledger:
  assumes "opens_prev (se_blake3 env) L d"
  shows "\<exists>d1 d2. goes (\<lambda>t. opens_prev (se_blake3 env) L (gs_disk t)) (open_inner env None ro) (blank_store part ro d) ()
      ((opened (blank_store part ro d) L 0 0 d1)\<lparr>gs_disk := d2\<rparr>) \<and> opens_prev (se_blake3 env) L d2"
proof -
  let ?b = "se_blake3 env" and ?s0 = "blank_store part ro d"
  let ?P = "\<lambda>t. opens_prev ?b L (gs_disk t)"
  have "disk_run (if ro then ret () else remove_path SnapshotTmp) ?s0"
    using disk_run_ret disk_run_remove tidy_names by auto
  then obtain d0 where d0: "goes (\<lambda>t. tidied d (gs_disk t)) (if ro then ret () else remove_path SnapshotTmp) ?s0 () (?s0\<lparr>gs_disk := d0\<rparr>)"
    "tidied d d0" by (auto simp: disk_run_def blank_store_def)
  let ?s1 = "?s0\<lparr>gs_disk := d0\<rparr>"
  have r0: "goes ?P (if ro then ret () else remove_path SnapshotTmp) ?s0 () ?s1"
    by (rule goes_mono [OF d0(1)]) (rule tidied_opens(2) [OF _ assms])
  have op0: "opens_prev ?b L d0" by (rule tidied_opens(2) [OF d0(2) assms])
  then obtain bs snap rs torn where p: "path_bytes d0 SnapshotFile = None" "path_bytes d0 SnapshotPrev = Some bs"
    "is_snapshot ?b bs snap" "logged ?b d0 snap rs torn L" "rotated ?b d0 snap" by (auto simp: opens_prev_def prev_ledger_def)
  have load: "load_ledger ?b (json_index env) (gs_disk ?s1) = Inr (Some (snap, FromPrev))"
    using load_prev [OF p(1-3)] by simp
  have roomy: "roomy (ix_generation snap)" using p(3) by (simp add: is_snapshot_def)
  have rec: "snd (replay_journal ?b LiveLog (path_bytes (gs_disk ?s1) (LogFile LiveLog))
       (snd (replay_journal ?b PrevLog (path_bytes (gs_disk ?s1) (LogFile PrevLog)) snap))) = L"
    using replay_prev [OF p(5) roomy] replay_live [OF p(4)] by simp
  obtain d2 d3 where fin: "goes (\<lambda>t. tidied d0 (gs_disk t))
      (bind_run (if ro then ret () else sweep_part_packs) (\<lambda>_.
       bind_run (memory (\<lambda>s. s\<lparr>gs_index := L, gs_journal_bytes := 0, gs_snapshot_bytes := 0,
         gs_snapshot_id := snapshot_identity (gs_disk s)\<rparr>)) (\<lambda>_.
       if ro then ret () else restore_quarantined_packs))) ?s1 () ((opened ?s1 L 0 0 d2)\<lparr>gs_disk := d3\<rparr>)" "tidied d0 d3"
    using finish_open [where s = ?s1 and ro = ro and ix = L and jb = 0 and sb = 0] op0 by (auto simp: blank_store_def opens_prev_def)
  have r2: "goes ?P (bind_run (if ro then ret () else sweep_part_packs) (\<lambda>_.
       bind_run (memory (\<lambda>s. s\<lparr>gs_index := L, gs_journal_bytes := 0, gs_snapshot_bytes := 0,
         gs_snapshot_id := snapshot_identity (gs_disk s)\<rparr>)) (\<lambda>_.
       if ro then ret () else restore_quarantined_packs))) ?s1 () ((opened ?s0 L 0 0 d2)\<lparr>gs_disk := d3\<rparr>)"
    using goes_mono [OF fin(1), of ?P] tidied_opens(2) [OF _ op0] by (simp add: opened_def)
  have rl: "goes ?P (recover_ledger ?b None ro (Some (snap, FromPrev))) ?s1 (L, 0) ?s1"
    unfolding recover_ledger_def option.case prod.case ledger_source.case by (rule goes_ask) (simp only: rec)
  have "goes ?P (open_monolithic env None ro) ?s0 () ((opened ?s0 L 0 0 d2)\<lparr>gs_disk := d3\<rparr>)"
    unfolding open_monolithic_def
    by (rule goes_bind [OF r0], rule goes_bind, rule goes_ask, rule load, rule goes_bind [OF rl],
        simp only: prod.case less_irrefl if_False, rule goes_bind [OF goes_ret],
        simp only: prod.case, rule goes_bind, rule goes_ask, rule refl, simp only: option.case if_False, rule r2)
  moreover have "no_segments d" using assms by (simp add: opens_prev_def)
  ultimately have "goes ?P (open_inner env None ro) ?s0 () ((opened ?s0 L 0 0 d2)\<lparr>gs_disk := d3\<rparr>)"
    by (simp add: goes_def open_inner_mono)
  moreover have "opens_prev ?b L d3" by (rule tidied_opens(2) [OF fin(2) op0])
  ultimately show ?thesis by blast
qed

theorem opens_to_opens:
  assumes "opens_to (se_blake3 env) L d"
  shows "\<exists>h d'. open_global_store env part None ro d = (Inr h, d') \<and> gs_index h = L \<and> gs_seg h = None \<and> gs_disk h = d'
    \<and> opens_to (se_blake3 env) L d'"
proof (cases "opens_live (se_blake3 env) L d")
  case True
  then obtain bs snap rs torn where l: "live_ledger (se_blake3 env) d bs snap rs torn L" "no_segments d" "quarantine_ok d"
    by (auto simp: opens_live_def)
  from open_live_ledger [OF l, of ro part] obtain d1 d2 where
    g: "goes (\<lambda>t. opens_live (se_blake3 env) L (gs_disk t)) (open_inner env None ro) (blank_store part ro d) ()
      ((opened (blank_store part ro d) L (of_nat (length (log_bytes rs))) (of_nat (length bs)) d1)\<lparr>gs_disk := d2\<rparr>)"
    and e: "if ro then d2 = d else live_ledger (se_blake3 env) d2 bs snap rs [] L \<and> no_segments d2 \<and> quarantine_ok d2" by blast
  have "opens_live (se_blake3 env) L d2" using e True by (cases ro) (auto simp: opens_live_def)
  then show ?thesis using g by (auto simp: goes_def open_global_store_def opened_def blank_store_def opens_to_def)
next
  case False
  then have p: "opens_prev (se_blake3 env) L d" using assms by (simp add: opens_to_def)
  from open_prev_ledger [OF p, of ro part] obtain d1 d2 where
    g: "goes (\<lambda>t. opens_prev (se_blake3 env) L (gs_disk t)) (open_inner env None ro) (blank_store part ro d) ()
      ((opened (blank_store part ro d) L 0 0 d1)\<lparr>gs_disk := d2\<rparr>)" "opens_prev (se_blake3 env) L d2" by blast
  then show ?thesis by (auto simp: goes_def open_global_store_def opened_def blank_store_def opens_to_def)
qed

end
