(* ===== verification/Record_Packs.thy ===== *)
theory Record_Packs
  imports Ledger_Open
begin

text \<open>
  Runs that change only certain files, and the packs of asset records, which a save writes before
  the ledger that names them.
\<close>

section \<open>Runs that touch certain files only\<close>

definition touches :: "store_path set \<Rightarrow> 'a store_run \<Rightarrow> global_store \<Rightarrow> 'a \<Rightarrow> global_store \<Rightarrow> bool" where
  "touches Q m s x s' \<longleftrightarrow> goes (\<lambda>t. changed_at Q (gs_disk s) (gs_disk t)) m s x s' \<and> changed_at Q (gs_disk s) (gs_disk s')"

lemma touches_bind:
  assumes "touches Q m s x s1" "touches Q (k x) s1 y s2"
  shows "touches Q (bind_run m k) s y s2"
proof -
  have c: "changed_at Q (gs_disk s) (gs_disk s1)" using assms(1) by (simp add: touches_def)
  have "goes (\<lambda>t. changed_at Q (gs_disk s) (gs_disk t)) (k x) s1 y s2"
    using assms(2) unfolding touches_def by (elim conjE goes_mono) (rule changed_trans [OF c])
  then show ?thesis using assms c changed_trans [OF c] by (auto simp: touches_def intro: goes_bind)
qed

lemma touches_ret: "touches Q (ret x) s x s"
  by (simp add: touches_def goes_ret)

lemma touches_ask: "f s = Inr x \<Longrightarrow> touches Q (ask f) s x s"
  by (simp add: touches_def goes_ask)

lemma touches_memory: "gs_disk (f s) = gs_disk s \<Longrightarrow> touches Q (memory f) s () (f s)"
  by (simp add: touches_def goes_def memory_def)

lemma touches_disk: "changed_at Q (gs_disk s) (f (gs_disk s)) \<Longrightarrow> touches Q (on_disk f) s () (s\<lparr>gs_disk := f (gs_disk s)\<rparr>)"
  by (simp add: touches_def goes_disk)

lemma changed_set: "p \<in> Q \<Longrightarrow> changed_at Q d (set_path p bs d)"
  by (auto simp: changed_at_def)

lemma changed_del: "p \<in> Q \<Longrightarrow> changed_at Q d (del_path p d)"
  by (auto simp: changed_at_def)

lemma changed_move: "a \<in> Q \<Longrightarrow> b \<in> Q \<Longrightarrow> changed_at Q d (move_path a b d)"
  by (rule changed_mono [OF move_same]) simp

lemma touches_write:
  assumes "p \<in> Q"
  shows "touches Q (write_path p bs) s () (s\<lparr>gs_disk := set_path p bs (set_path p [] (gs_disk s))\<rparr>)"
proof -
  let ?s1 = "s\<lparr>gs_disk := set_path p [] (gs_disk s)\<rparr>"
  have "touches Q (on_disk (set_path p bs)) ?s1 () (?s1\<lparr>gs_disk := set_path p bs (gs_disk ?s1)\<rparr>)"
    by (rule touches_disk) (rule changed_set [OF assms])
  then have "touches Q (on_disk (set_path p bs)) ?s1 () (s\<lparr>gs_disk := set_path p bs (set_path p [] (gs_disk s))\<rparr>)" by simp
  then show ?thesis unfolding write_path_def
    by (rule touches_bind [rotated]) (rule touches_disk, rule changed_set [OF assms])
qed

lemma touches_rename:
  assumes "path_file (gs_disk s) a \<noteq> None" "a \<in> Q" "b \<in> Q"
  shows "touches Q (rename_path a b) s () (s\<lparr>gs_disk := move_path a b (gs_disk s)\<rparr>)"
proof -
  obtain f where f: "path_file (gs_disk s) a = Some f" using assms(1) by auto
  show ?thesis unfolding rename_path_def
    by (rule touches_bind, rule touches_ask, rule refl, simp only: f option.case, rule touches_disk, rule changed_move [OF assms(2,3)])
qed

lemma touches_remove: "p \<in> Q \<Longrightarrow> touches Q (remove_path p) s () (s\<lparr>gs_disk := del_path p (gs_disk s)\<rparr>)"
  unfolding remove_path_def by (rule touches_disk) (rule changed_del)

lemma touches_mono: "touches Q m s x s' \<Longrightarrow> Q \<subseteq> R \<Longrightarrow> touches R m s x s'"
  unfolding touches_def by (metis (no_types, lifting) changed_mono goes_mono)

lemma touches_goes:
  assumes "touches Q m s x s'" "\<And>d. changed_at Q (gs_disk s) d \<Longrightarrow> P d"
  shows "goes (\<lambda>t. P (gs_disk t)) m s x s'"
  using assms unfolding touches_def by (auto elim: goes_mono)

section \<open>Record packs\<close>

definition record_paths :: "store_path set" where
  "record_paths = range RecordPack \<union> range RecordPackTmp"

lemma record_spans_names: "map fst (fst (record_spans before records)) = map fst records"
  by (induction before records rule: record_spans.induct) (auto split: prod.splits)

text \<open>The places a pack of records gives them.\<close>

definition packed_at :: "hash_fun \<Rightarrow> (string \<times> bytes) list \<Rightarrow> (string \<times> record_ref) list \<Rightarrow> bool" where
  "packed_at blake3 records ats \<longleftrightarrow> map fst ats = map fst records \<and> (\<forall>(name, at) \<in> set ats. record_in_pack at)"

lemma write_record_pack_touches:
  assumes "hash_ok blake3"
  shows "\<exists>ats d'. touches record_paths (write_record_pack blake3 records) s ats (s\<lparr>gs_disk := d'\<rparr>) \<and> packed_at blake3 records ats"
proof -
  obtain spans bs where sp: "record_spans [] records = (spans, bs)" by fastforce
  let ?pack = "hash_chunk blake3 bs"
  define ats where "ats = map (\<lambda>(name, offset, len). (name, InPack ?pack offset len)) spans"
  have q: "RecordPack ?pack \<in> record_paths" "RecordPackTmp ?pack \<in> record_paths" by (auto simp: record_paths_def)
  have names: "map fst spans = map fst records" using record_spans_names [of "[]" records] sp by simp
  have "map fst ats = map fst spans" by (simp add: ats_def case_prod_unfold)
  moreover have "length ?pack = 32" using assms by (simp add: hash_chunk_def hash_ok_def)
  ultimately have at: "packed_at blake3 records ats" using names by (auto simp: packed_at_def ats_def record_in_pack_def)
  show ?thesis
  proof (cases "path_file (gs_disk s) (RecordPack ?pack)")
    case None
    let ?s1 = "s\<lparr>gs_disk := set_path (RecordPackTmp ?pack) bs (set_path (RecordPackTmp ?pack) [] (gs_disk s))\<rparr>"
    let ?s2 = "?s1\<lparr>gs_disk := move_path (RecordPackTmp ?pack) (RecordPack ?pack) (gs_disk ?s1)\<rparr>"
    have r2: "touches record_paths (rename_path (RecordPackTmp ?pack) (RecordPack ?pack)) ?s1 () ?s2"
      by (rule touches_rename [OF _ q(2,1)]) simp
    have "touches record_paths (write_record_pack blake3 records) s ats ?s2"
      unfolding write_record_pack_def sp prod.case Let_def ats_def
      by (rule touches_bind, rule touches_ask, rule refl, simp only: None simp_thms if_True,
          rule touches_bind, rule touches_bind, rule touches_write [OF q(2)], rule r2, rule touches_ret)
    then show ?thesis using at by (intro exI [of _ ats] exI [of _ "gs_disk ?s2"]) simp
  next
    case (Some f)
    have "touches record_paths (write_record_pack blake3 records) s ats s"
      unfolding write_record_pack_def sp prod.case Let_def ats_def
      by (rule touches_bind, rule touches_ask, rule refl, simp only: Some option.distinct if_False,
          rule touches_bind, rule touches_ret, rule touches_ret)
    then show ?thesis using at by (intro exI [of _ ats] exI [of _ "gs_disk s"]) simp
  qed
qed

text \<open>The locations a list of records gets in a map.\<close>

lemma map_of_build_rev: "map_of (bt_build xs m) k = (case map_of (rev xs) k of Some v \<Rightarrow> Some v | None \<Rightarrow> map_of m k)"
  by (induction xs m rule: bt_build.induct) (auto simp: map_add_def split: option.splits)

lemma packed_build:
  assumes "packed_at blake3 records ats"
  shows "map_of (bt_build ats m) n = (if n \<in> fst ` set records then map_of (rev ats) n else map_of m n)"
    and "n \<in> fst ` set records \<Longrightarrow> \<exists>at. map_of (rev ats) n = Some at \<and> record_in_pack at"
proof -
  have k: "fst ` set (rev ats) = fst ` set records" using assms by (metis packed_at_def list.set_map set_rev)
  show e: "\<exists>at. map_of (rev ats) n = Some at \<and> record_in_pack at" if "n \<in> fst ` set records"
  proof -
    have "map_of (rev ats) n \<noteq> None" using that k by (simp add: map_of_eq_None_iff del: set_rev)
    then obtain at where "map_of (rev ats) n = Some at" by auto
    then show ?thesis using assms by (auto simp: packed_at_def dest!: map_of_SomeD)
  qed
  have "map_of (rev ats) n = None" if "n \<notin> fst ` set records"
    using that k by (simp add: map_of_eq_None_iff del: set_rev)
  then show "map_of (bt_build ats m) n = (if n \<in> fst ` set records then map_of (rev ats) n else map_of m n)"
    using e by (cases "n \<in> fst ` set records") (auto simp: map_of_build_rev simp del: set_rev split: option.split)
qed

section \<open>Records out of a journal\<close>

lemma journal_records_names:
  "journal_records d records = (staged, unreadable)
    \<Longrightarrow> fst ` set staged \<union> set unreadable = {n. \<exists>f off len. (n, InJournal f off len) \<in> set records}"
proof (induction d records arbitrary: staged unreadable rule: journal_records.induct)
  case (2 d name at rest)
  obtain st un where r: "journal_records d rest = (st, un)" by fastforce
  note ih = "2.IH" [OF r]
  have e: "{n. \<exists>f off len. (n, InJournal f off len) \<in> set ((name, at) # rest)}
      = (case at of InPack _ _ _ \<Rightarrow> {} | InJournal _ _ _ \<Rightarrow> {name}) \<union> {n. \<exists>f off len. (n, InJournal f off len) \<in> set rest}"
    by (cases at) auto
  show ?case unfolding e ih [symmetric] using "2.prems" r by (cases at) (auto split: option.splits)
qed simp

theorem move_records_touches:
  assumes "hash_ok blake3" "bt_ok (ix_records (gs_index s))" "refs_ok (ix_records (gs_index s))"
  shows "\<exists>R d'. touches record_paths (move_records_into_a_pack blake3) s ()
      (set_records R (s\<lparr>gs_disk := d', gs_pending := []\<rparr>))
    \<and> bt_ok R \<and> (\<forall>(name, at) \<in> set R. record_in_pack at)
    \<and> fst ` set R \<subseteq> fst ` set (ix_records (gs_index s)) \<union> fst ` set (gs_pending s)"
proof -
  let ?recs = "ix_records (gs_index s)"
  obtain inline unreadable where j: "journal_records (gs_disk s) ?recs = (inline, unreadable)" by fastforce
  let ?R1 = "bt_remove_all unreadable ?recs" and ?staged = "inline @ gs_pending s"
  let ?s1 = "set_records ?R1 s"
  let ?s2 = "?s1\<lparr>gs_pending := []\<rparr>"
  note names = journal_records_names [OF j]
  have in1: "record_in_pack at" if "map_of ?R1 n = Some at" "n \<notin> fst ` set inline" for n at
  proof -
    have m: "map_of ?recs n = Some at" "n \<notin> set unreadable" using that(1) by (auto simp: map_of_remove_all split: if_splits)
    have "n \<notin> {n. \<exists>f off len. (n, InJournal f off len) \<in> set ?recs}" using that(2) m(2) names by blast
    then have "\<nexists>f off len. at = InJournal f off len" using m(1) by (auto dest: map_of_SomeD)
    then obtain pack off len where "at = InPack pack off len" by (cases at) auto
    then show ?thesis using assms(3) m(1) by (auto simp: refs_ok_def record_in_pack_def)
  qed
  have b1: "bt_ok ?R1" by (rule bt_ok_remove_all [OF assms(2)])
  have k1: "fst ` set ?R1 \<subseteq> fst ` set ?recs"
  proof
    fix n assume "n \<in> fst ` set ?R1"
    then have "map_of ?R1 n \<noteq> None" by (simp add: map_of_eq_None_iff)
    then have "map_of ?recs n \<noteq> None" unfolding map_of_remove_all by (simp split: if_splits)
    then show "n \<in> fst ` set ?recs" by (simp add: map_of_eq_None_iff)
  qed
  have pre: "touches record_paths (move_records_into_a_pack blake3) s () s3"
    if "touches record_paths (if ?staged = [] then ret () else bind_run (write_record_pack blake3 ?staged) (\<lambda>ats.
       memory (\<lambda>s. set_records (bt_build ats (ix_records (gs_index s))) s))) ?s2 () s3" for s3
  proof -
    have a: "touches record_paths (ask (\<lambda>s. Inr (journal_records (gs_disk s) (ix_records (gs_index s))))) s (inline, unreadable) s"
      by (rule touches_ask) (simp add: j)
    have m1: "touches record_paths (memory (\<lambda>s. set_records (bt_remove_all unreadable (ix_records (gs_index s))) s)) s () ?s1"
      by (rule touches_memory) (simp add: set_records_def)
    have a2: "touches record_paths (ask (\<lambda>s. Inr (inline @ gs_pending s))) ?s1 ?staged ?s1"
      by (rule touches_ask) (simp add: set_records_def)
    have m2: "touches record_paths (memory (\<lambda>s. s\<lparr>gs_pending := []\<rparr>)) ?s1 () ?s2" by (rule touches_memory) simp
    show ?thesis unfolding move_records_into_a_pack_def
      by (rule touches_bind, rule a, simp only: prod.case, rule touches_bind, rule m1, rule touches_bind, rule a2,
          rule touches_bind, rule m2, rule that)
  qed
  show ?thesis
  proof (cases "?staged = []")
    case True
    then have "touches record_paths (move_records_into_a_pack blake3) s () ?s2" by (intro pre) (simp add: touches_ret)
    moreover have "?s2 = set_records ?R1 (s\<lparr>gs_disk := gs_disk s, gs_pending := []\<rparr>)" by (simp add: set_records_def)
    moreover have "\<forall>(name, at) \<in> set ?R1. record_in_pack at"
      using in1 True bt_ok_in [OF b1] by auto
    ultimately show ?thesis using b1 k1 by (intro exI [of _ ?R1] exI [of _ "gs_disk s"]) auto
  next
    case False
    obtain ats d' where w: "touches record_paths (write_record_pack blake3 ?staged) ?s2 ats (?s2\<lparr>gs_disk := d'\<rparr>)"
      "packed_at blake3 ?staged ats" using write_record_pack_touches [OF assms(1)] by blast
    let ?R = "bt_build ats ?R1"
    let ?s3 = "set_records ?R (s\<lparr>gs_disk := d', gs_pending := []\<rparr>)"
    have "touches record_paths (memory (\<lambda>s. set_records (bt_build ats (ix_records (gs_index s))) s)) (?s2\<lparr>gs_disk := d'\<rparr>) ()
        (set_records (bt_build ats (ix_records (gs_index (?s2\<lparr>gs_disk := d'\<rparr>)))) (?s2\<lparr>gs_disk := d'\<rparr>))"
      by (rule touches_memory) (simp add: set_records_def)
    moreover have "set_records (bt_build ats (ix_records (gs_index (?s2\<lparr>gs_disk := d'\<rparr>)))) (?s2\<lparr>gs_disk := d'\<rparr>) = ?s3"
      by (simp add: set_records_def)
    ultimately have m: "touches record_paths (memory (\<lambda>s. set_records (bt_build ats (ix_records (gs_index s))) s)) (?s2\<lparr>gs_disk := d'\<rparr>) () ?s3"
      by simp
    have "touches record_paths (move_records_into_a_pack blake3) s () ?s3"
      by (rule pre, simp only: False if_False, rule touches_bind, rule w(1), rule m)
    moreover have b: "bt_ok ?R" by (rule bt_ok_build [OF b1])
    moreover have "\<forall>(name, at) \<in> set ?R. record_in_pack at"
    proof clarify
      fix n at assume "(n, at) \<in> set ?R"
      then have "map_of ?R n = Some at" using bt_ok_in [OF b] by simp
      then show "record_in_pack at" using packed_build(1) [OF w(2), of ?R1 n] packed_build(2) [OF w(2), of n] in1 [of n at] by (auto split: if_splits)
    qed
    moreover have "fst ` set ?R \<subseteq> fst ` set ?recs \<union> fst ` set (gs_pending s)"
    proof
      fix n assume "n \<in> fst ` set ?R"
      then have "map_of ?R n \<noteq> None" by (simp add: map_of_eq_None_iff)
      then have "n \<in> fst ` set ?staged \<or> map_of ?R1 n \<noteq> None" using packed_build(1) [OF w(2), of ?R1 n] by (auto split: if_splits)
      moreover have "fst ` set inline \<subseteq> fst ` set ?recs" using names by force
      ultimately show "n \<in> fst ` set ?recs \<union> fst ` set (gs_pending s)" using k1 by (auto simp: map_of_eq_None_iff)
    qed
    ultimately show ?thesis by blast
  qed
qed

section \<open>The size of a snapshot\<close>

text \<open>How large a snapshot gets.\<close>

lemma length_hashes:
  assumes "encode_hashes hexes = Inr hs" "\<forall>hex \<in> set hexes. hex_of_hash hex"
  shows "length hs = 32 * length hexes"
  using encode_hashes_ok [OF assms(2)] assms(1) by auto

definition asset_sizes :: "(string \<times> string list) list \<Rightarrow> nat" where
  "asset_sizes as = sum_list (map (\<lambda>(name, hexes). 47 + length name + 32 * length hexes) as)"

lemma length_record_ref:
  assumes "\<forall>r. at = Some r \<longrightarrow> record_in_pack r"
  shows "length (encode_record_ref at) \<le> 41"
  using assms by (auto simp: encode_record_ref_def record_in_pack_def split: option.splits record_ref.splits)

lemma length_assets:
  assumes "encode_assets records as = Inr bs" "\<forall>a \<in> set as. asset_ok a" "\<forall>n r. map_of records n = Some r \<longrightarrow> record_in_pack r"
  shows "length bs \<le> asset_sizes as"
  using assms(1,2)
proof (induction as arbitrary: bs)
  case (Cons a as)
  obtain name hexes where a: "a = (name, hexes)" by fastforce
  obtain hs more where e: "encode_hashes hexes = Inr hs" "encode_assets records as = Inr more"
    "bs = encode_text name @ to_le 4 (of_nat (length hexes) :: u32) @ hs @ encode_record_ref (map_of records name) @ more"
    using Cons.prems(1) by (auto simp: a rbind_eq_Inr)
  have "length hs = 32 * length hexes" using length_hashes [OF e(1)] Cons.prems(2) a by (simp add: asset_ok_def)
  moreover have "length more \<le> asset_sizes as" using Cons.IH [OF e(2)] Cons.prems(2) by simp
  moreover have "length (encode_record_ref (map_of records name)) \<le> 41" by (rule length_record_ref) (use assms(3) in blast)
  moreover have "length (encode_text name) = 2 + length name" by (simp add: encode_text_def del: to_le.simps)
  ultimately show ?case by (simp add: e(3) a asset_sizes_def del: to_le.simps)
qed (simp add: asset_sizes_def)

lemma length_pack_texts:
  assumes "\<forall>p \<in> set ps. length p < 2 ^ 16"
  shows "length (encode_all encode_text ps) \<le> length ps * 65537"
  using assms by (induction ps) (auto simp: encode_text_def simp del: to_le.simps)

theorem snapshot_size:
  assumes "hash_ok blake3" "snapshot_ok ix" "encode_index blake3 now ix = Inr bs"
  shows "length bs \<le> 2 ^ 49 + 72 * length (ix_chunks ix) + asset_sizes (ix_assets ix)"
proof -
  obtain packs and ords :: "(string \<times> u32) list" where p: "intern_packs (map snd (ix_chunks ix)) ([], []) = (packs, ords)" by fastforce
  have "card (set [] \<union> packs_of (map snd (ix_chunks ix))) < 2 ^ LENGTH(32)" using assms(2) by (simp add: snapshot_ok_def)
  from intern_packs_ok [OF interned_Nil this p]
  have i: "interned packs ords" "set packs = packs_of (map snd (ix_chunks ix))" "length packs < 2 ^ 32" by simp_all
  have cok: "\<forall>(hex, info) \<in> set (ix_chunks ix). hex_of_hash hex \<and> ledger_info info \<and> set_option (ci_pack info) \<subseteq> set packs"
    using assms(2) packs_of_in by (fastforce simp: snapshot_ok_def chunks_ok_def i(2))
  have w: "length packs < 2 ^ LENGTH(32)" "LENGTH(32) \<le> 8 * 4" using i(3) by simp_all
  from encode_chunks_ok [OF i(1) w cok] obtain cs where
    cs: "encode_chunks 4 ords (ix_chunks ix) = Inr cs" "length cs = 72 * length (ix_chunks ix)" by auto
  obtain as where as: "encode_assets (ix_records ix) (ix_assets ix) = Inr as"
    using assms(3) unfolding encode_index_def p prod.case cs(1) rbind_simps by (auto simp: rbind_eq_Inr)
  have pids: "\<forall>s \<in> set packs. length s < 2 ^ 16"
    using assms(2) by (auto simp: i(2) packs_of_def snapshot_ok_def chunks_ok_def ledger_info_def pack_id_ok_def)
  have "\<forall>n r. map_of (ix_records ix) n = Some r \<longrightarrow> record_in_pack r"
    using assms(2) by (auto simp: snapshot_ok_def dest!: map_of_SomeD)
  then have la: "length as \<le> asset_sizes (ix_assets ix)"
    using length_assets [OF as] assms(2) by (simp add: snapshot_ok_def assets_stored_def)
  have d: "length (hash_chunk blake3 x) = 32" for x using assms(1) by (simp add: hash_chunk_def hash_ok_def)
  have lp: "length (encode_all encode_text packs) \<le> length packs * 65537" by (rule length_pack_texts [OF pids])
  have "length packs * 65537 \<le> 2 ^ 32 * 65537" using i(3) by simp
  then have "length (encode_all encode_text packs) + 200 \<le> 2 ^ 49" using lp by simp
  moreover have "length bs \<le> 200 + length (encode_all encode_text packs) + length cs + length as"
    using assms(3) unfolding encode_index_def p prod.case cs(1) as rbind_simps Let_def
    by (auto simp: d index_magic_def simp del: to_le.simps)
  ultimately show ?thesis using la cs(2) by linarith
qed

end
