(* ===== verification/Ledger_Saves.thy ===== *)
theory Ledger_Saves
  imports Record_Packs
begin

text \<open>
  Saving the monolithic ledger: a journal record extends the log by exactly the difference between
  memory and disk; a snapshot replaces what is on disk.  Every directory on the way opens to the
  ledger from before the save or to the one being saved.
\<close>

section \<open>What a save starts from\<close>

text \<open>The ledger in memory is the one on disk but for what is marked; \<open>L\<close> is the one on disk.\<close>

definition differs_at :: "string list \<Rightarrow> string list \<Rightarrow> (string \<times> bytes) list \<Rightarrow> store_index \<Rightarrow> store_index \<Rightarrow> bool" where
  "differs_at dc da pending ix L \<longleftrightarrow>
     bt_ok (ix_chunks ix) \<and> bt_ok (ix_assets ix) \<and> bt_ok (ix_records ix)
   \<and> bt_ok (ix_chunks L) \<and> bt_ok (ix_assets L) \<and> bt_ok (ix_records L)
   \<and> (\<forall>hex. hex \<notin> set dc \<longrightarrow> map_of (ix_chunks ix) hex = map_of (ix_chunks L) hex)
   \<and> (\<forall>n. n \<notin> set da \<longrightarrow> map_of (ix_assets ix) n = map_of (ix_assets L) n
        \<and> map_of (ix_records ix) n = map_of (ix_records L) n \<and> map_of pending n = None)
   \<and> (\<forall>n \<in> set da. (map_of (ix_assets ix) n = None \<longrightarrow> map_of (ix_records ix) n = None \<and> map_of pending n = None)
        \<and> (map_of (ix_assets ix) n \<noteq> None \<longrightarrow> map_of pending n \<noteq> None
             \<or> (\<exists>pack off len. map_of (ix_records ix) n = Some (InPack pack off len))))
   \<and> ix_layout ix = ix_layout L \<and> ix_generation ix = ix_generation L"

text \<open>The ledger fits its file formats.\<close>

definition ledger_sized :: "store_index \<Rightarrow> (string \<times> bytes) list \<Rightarrow> bool" where
  "ledger_sized ix pending \<longleftrightarrow> chunks_ok (ix_chunks ix) \<and> card (packs_of (map snd (ix_chunks ix))) < 2 ^ 32 \<and> assets_stored ix
     \<and> refs_ok (ix_records ix) \<and> fst ` set (ix_records ix) \<subseteq> fst ` set (ix_assets ix)
     \<and> fst ` set pending \<subseteq> fst ` set (ix_assets ix)
     \<and> 72 * length (ix_chunks ix) + asset_sizes (ix_assets ix) < 2 ^ 63"

text \<open>What is marked fits a journal record.\<close>

definition marks_fit :: "store_index \<Rightarrow> string list \<Rightarrow> string list \<Rightarrow> (string \<times> bytes) list \<Rightarrow> bool" where
  "marks_fit ix dc da pending \<longleftrightarrow> distinct dc \<and> distinct da \<and> length dc < 2 ^ 32 \<and> length da < 2 ^ 32
     \<and> (\<forall>hex \<in> set dc. hex_of_hash hex) \<and> card (packs_of (map snd (present (ix_chunks ix) dc))) < 2 ^ 16
     \<and> (\<forall>name \<in> set da. pack_id_ok name) \<and> (\<forall>name bytes. map_of pending name = Some bytes \<longrightarrow> length bytes < 2 ^ 32)"

lemma fits_journal:
  assumes "ledger_sized ix p" "marks_fit ix dc da pending" "refs_ok records"
  shows "journal_fits (ix\<lparr>ix_records := records\<rparr>) dc da pending"
  using assms by (fastforce simp: ledger_sized_def marks_fit_def journal_fits_def chunks_ok_def assets_stored_def dest: map_of_SomeD)

section \<open>A journal record\<close>

lemma inline_names:
  assumes "encode_asset_puts at records pending as = Inr (bs, inline)"
  shows "map fst inline = filter (\<lambda>n. map_of pending n \<noteq> None) (map fst as)"
  using assms
proof (induction as arbitrary: at bs inline)
  case (Cons a as)
  obtain name hexes where a: "a = (name, hexes)" by fastforce
  obtain hs where h: "encode_hashes hexes = Inr hs"
    using Cons.prems unfolding a encode_asset_puts_Cons by (auto simp: rbind_eq_Inr)
  let ?head = "encode_text name @ to_le 4 (of_nat (length hexes) :: u32) @ hs"
  obtain more inlines where m: "encode_asset_puts (at + length (?head @ put_tag records pending name)) records pending as = Inr (more, inlines)"
    "inline = put_inline (at + length ?head) pending name @ inlines"
    using Cons.prems unfolding a encode_asset_puts_Cons h rbind_simps Let_def by (auto simp: rbind_eq_Inr)
  show ?case using Cons.IH [OF m(1)] by (auto simp: m(2) a put_inline_def split: option.splits)
qed simp

lemma inline_distinct:
  assumes "encode_journal_record blake3 ix g dc da pending = Inr (rec, inline)" "distinct da"
  shows "distinct (map fst inline)"
proof -
  obtain packs and ords :: "(string \<times> u16) list" where p: "intern_packs (map snd (present (ix_chunks ix) dc)) ([], []) = (packs, ords)" by fastforce
  obtain at bs where "encode_asset_puts at (ix_records ix) pending (present (ix_assets ix) da) = Inr (bs, inline)"
    using assms(1) unfolding encode_journal_record_def Let_def p prod.case by (auto simp: rbind_eq_Inr)
  from inline_names [OF this] show ?thesis using assms(2) by (simp add: present_keys)
qed

lemma locate_inline_map:
  "map_of (locate_inline jb inline) n = map_option (\<lambda>(off, len). InJournal LiveLog (jb + off) len) (map_of inline n)"
  by (induction inline) (auto simp: locate_inline_def)

definition ledger_after :: "store_index \<Rightarrow> u64 \<Rightarrow> u64 \<Rightarrow> inline_record list \<Rightarrow> store_index" where
  "ledger_after ix g jb inline = ix\<lparr>ix_records := bt_build (locate_inline jb inline) (ix_records ix), ix_generation := g\<rparr>"

theorem journal_step:
  assumes "hash_ok blake3" "differs_at dc da pending ix L" "journal_fits ix dc da pending" "g = ix_generation L + 1"
    and "encode_journal_record blake3 ix g dc da pending = Inr (rec, inline)" "length rec < 2 ^ 32"
  shows "sealed_record blake3 rec g" "apply_log LiveLog at [(rec, g)] L = Some (ledger_after ix g (of_nat at) inline)"
proof -
  note d = assms(2) [unfolded differs_at_def]
  have b: "bt_ok (ix_chunks L)" "bt_ok (ix_assets L)" "bt_ok (ix_records L)" using d by blast+
  note r = journal_record_ok [OF assms(1,3) b assms(5,6)]
  show "sealed_record blake3 rec g" using r(1) [of "[]"] by (simp add: sealed_record_def)
  obtain ix1 where ix1: "apply_at LiveLog at rec L = (Inr (), ix1)" "journal_applied ix dc da inline LiveLog (of_nat at) L ix1"
    using r(3) [of LiveLog "of_nat at"] unfolding apply_at_def by blast
  note j = ix1(2) [unfolded journal_applied_def]
  have "map_of (ix_chunks ix1) = map_of (ix_chunks ix)" using j d by (auto simp: overwrite_def fun_eq_iff)
  then have c: "ix_chunks ix1 = ix_chunks ix" using j d by (intro bt_ext) blast+
  have "map_of (ix_assets ix1) = map_of (ix_assets ix)" using j d by (auto simp: overwrite_def fun_eq_iff)
  then have a: "ix_assets ix1 = ix_assets ix" using j d by (intro bt_ext) blast+
  have da: "distinct da" using assms(3) by (simp add: journal_fits_def)
  have di: "distinct (map fst inline)" by (rule inline_distinct [OF assms(5) da])
  have dl: "distinct (map fst (locate_inline (of_nat at) inline))" using di by (simp add: locate_inline_def case_prod_unfold comp_def)
  let ?R = "bt_build (locate_inline (of_nat at) inline) (ix_records ix)"
  have bR: "bt_ok ?R" using d by (intro bt_ok_build) blast
  have "map_of (ix_records ix1) n = map_of ?R n" for n
  proof -
    have m: "map_of ?R n = (case map_of inline n of Some (off, len) \<Rightarrow> Some (InJournal LiveLog (of_nat at + off) len)
        | None \<Rightarrow> map_of (ix_records ix) n)"
      unfolding map_of_build [OF dl] locate_inline_map by (auto split: option.splits)
    have i: "map_of inline n = None \<longleftrightarrow> \<not> (n \<in> set da \<and> map_of (ix_assets ix) n \<noteq> None \<and> map_of pending n \<noteq> None)"
      using r(2) by (auto simp: map_of_eq_None_iff)
    have e: "map_of (ix_records ix1) n = (if n \<in> set da
          then (if map_of (ix_assets ix) n = None then None
                else next_ref LiveLog (of_nat at) inline (ix_records ix) n (map_of (ix_records L) n))
          else map_of (ix_records L) n)" using j by simp
    show ?thesis
    proof (cases "n \<in> set da")
      case False
      then have "map_of inline n = None" "map_of (ix_records ix) n = map_of (ix_records L) n" using i d by blast+
      then show ?thesis using False by (simp add: e m)
    next
      case True
      note mark = True
      show ?thesis
      proof (cases "map_of (ix_assets ix) n")
        case None
        then have "map_of inline n = None" "map_of (ix_records ix) n = None" using i d mark by blast+
        then show ?thesis using mark None by (simp add: e m)
      next
        case (Some hexes)
        show ?thesis
        proof (cases "map_of inline n")
          case None
          then have "map_of pending n = None" using i mark Some by blast
          then obtain pack off len where "map_of (ix_records ix) n = Some (InPack pack off len)" using d mark Some by blast
          then show ?thesis using mark Some None by (simp add: e m next_ref_def)
        qed (use mark Some in \<open>auto simp: e m next_ref_def split: prod.splits\<close>)
      qed
    qed
  qed
  then have rec: "ix_records ix1 = ?R" using j bR by (intro bt_ext) (auto simp: fun_eq_iff)
  have "ix1\<lparr>ix_generation := g\<rparr> = ledger_after ix g (of_nat at) inline"
    using c a rec j d by (intro store_index.equality) (simp_all add: ledger_after_def)
  then show "apply_log LiveLog at [(rec, g)] L = Some (ledger_after ix g (of_nat at) inline)"
    by (simp add: assms(4) [symmetric] ix1(1))
qed

section \<open>A snapshot\<close>

definition saved_ledger :: "hash_fun \<Rightarrow> global_store \<Rightarrow> store_index \<Rightarrow> bool" where
  "saved_ledger blake3 s L \<longleftrightarrow> gs_seg s = None \<and> \<not> gs_read_only s \<and> no_segments (gs_disk s) \<and> quarantine_ok (gs_disk s)
     \<and> ((\<exists>bs snap rs. live_ledger blake3 (gs_disk s) bs snap rs [] L \<and> gs_snapshot_bytes s = of_nat (length bs)
            \<and> unat (gs_journal_bytes s) = length (log_bytes rs))
         \<or> prev_ledger blake3 (gs_disk s) L \<and> gs_snapshot_bytes s = 0)"

lemma saved_liveI:
  assumes "gs_seg s = None" "\<not> gs_read_only s" "no_segments (gs_disk s) \<and> quarantine_ok (gs_disk s)"
    and "live_ledger blake3 (gs_disk s) bs snap rs [] L" "gs_snapshot_bytes s = of_nat (length bs)"
    and "unat (gs_journal_bytes s) = length (log_bytes rs)"
  shows "saved_ledger blake3 s L"
  using assms by (auto simp: saved_ledger_def)

text \<open>The files a save may touch.\<close>

definition save_paths :: "store_path set" where
  "save_paths = {SnapshotFile, SnapshotTmp, SnapshotPrev, JsonIndex} \<union> range LogFile \<union> record_paths"

lemma record_paths_save: "record_paths \<subseteq> save_paths"
  by (auto simp: save_paths_def)

lemma record_paths_same: "changed_at record_paths d d' \<Longrightarrow> same_ledger_files d d'"
  by (erule changed_same) (auto simp: record_paths_def)

lemma changed_quarantine:
  assumes "changed_at P d d'" "P \<inter> range QuarantinePack = {}" "quarantine_ok d"
  shows "quarantine_ok d'"
proof -
  have "path_file d' (QuarantinePack hex) = path_file d (QuarantinePack hex)" for hex
    using assms(1,2) by (auto simp: changed_at_def)
  then show ?thesis using assms(3) by (simp add: quarantine_ok_def)
qed

lemma changed_segments: "changed_at P d d' \<Longrightarrow> no_segments d' = no_segments d"
  by (simp add: no_segments_def changed_at_def)

lemma save_quarantine: "save_paths \<inter> range QuarantinePack = {}"
  by (auto simp: save_paths_def record_paths_def)

text \<open>The ledger with records in packs only.\<close>

lemma packed_snapshot_ok:
  assumes "ledger_sized ix pending" "bt_ok R" "\<forall>(name, at) \<in> set R. record_in_pack at"
    and "fst ` set R \<subseteq> fst ` set (ix_records ix) \<union> fst ` set pending"
  shows "snapshot_ok (ix\<lparr>ix_records := R, ix_generation := g\<rparr>)"
proof -
  note l = assms(1) [unfolded ledger_sized_def]
  have k: "fst ` set (ix_records ix) \<subseteq> fst ` set (ix_assets ix)" "fst ` set pending \<subseteq> fst ` set (ix_assets ix)"
    and s: "72 * length (ix_chunks ix) + asset_sizes (ix_assets ix) < 2 ^ 63" using l by (simp_all only:)
  have "fst ` set R \<subseteq> fst ` set (ix_assets ix)" using subset_trans [OF assms(4) Un_least [OF k]] .
  moreover have "length (ix_chunks ix) * 72 < 2 ^ 64" using s by simp
  ultimately show ?thesis using l assms(2,3) by (simp add: snapshot_ok_def assets_stored_def)
qed

theorem snapshot_is_one:
  assumes "hash_ok blake3" "ledger_sized ix pending" "bt_ok R" "\<forall>(name, at) \<in> set R. record_in_pack at"
    and "fst ` set R \<subseteq> fst ` set (ix_records ix) \<union> fst ` set pending" "roomy g"
    and "ix' = ix\<lparr>ix_records := R, ix_generation := g\<rparr>"
  shows "\<exists>bs. encode_index blake3 now ix' = Inr bs \<and> index_seal_holds blake3 bs \<and> is_snapshot blake3 bs ix'"
proof -
  have ok: "snapshot_ok ix'" unfolding assms(7) by (rule packed_snapshot_ok [OF assms(2-5)])
  obtain bs where bs: "encode_index blake3 now ix' = Inr bs" "decode_index_versioned blake3 bs = Inr (ix', 2)" "index_seal_holds blake3 bs"
    using snapshot_decodes [OF assms(1) ok] by blast
  have "length bs \<le> 2 ^ 49 + 72 * length (ix_chunks ix') + asset_sizes (ix_assets ix')"
    by (rule snapshot_size [OF assms(1) ok bs(1)])
  also have "\<dots> < 2 ^ 64" using assms(2) by (simp add: ledger_sized_def assms(7))
  finally have "length bs < 2 ^ 64" .
  moreover have "0 < length bs" using bs(3) by (auto simp: index_seal_holds_def index_header_size_def)
  ultimately show ?thesis using bs assms(6) by (auto simp: is_snapshot_def assms(7))
qed

text \<open>The renames that put a new snapshot in place.\<close>

definition first_moved :: "store_dir \<Rightarrow> store_dir" where
  "first_moved d = (if path_file d SnapshotFile = None then d else move_path SnapshotFile SnapshotPrev d)"

definition then_moved :: "store_dir \<Rightarrow> store_dir" where
  "then_moved d = move_path SnapshotTmp SnapshotFile d"

definition log_moved :: "store_dir \<Rightarrow> store_dir" where
  "log_moved d = (if path_file d (LogFile LiveLog) = None then del_path (LogFile PrevLog) d
     else move_path (LogFile LiveLog) (LogFile PrevLog) d)"

lemma move_bytes:
  assumes "path_bytes d a = Some bs" "a \<noteq> b"
  shows "path_bytes (move_path a b d) q = (if q = b then Some bs else if q = a then None else path_bytes d q)"
proof -
  obtain f where f: "path_file d a = Some f" "sf_bytes f = bs" using assms(1) by (auto simp: path_bytes_def)
  show ?thesis using path_move [OF f(1) assms(2), of q] f(2) by (simp add: path_bytes_def)
qed

lemma first_prev:
  assumes "live_ledger blake3 d bs snap rs torn L \<or> prev_ledger blake3 d L"
  shows "prev_ledger blake3 (first_moved d) L"
    "p \<notin> {SnapshotFile, SnapshotPrev} \<Longrightarrow> path_file (first_moved d) p = path_file d p"
proof -
  show "path_file (first_moved d) p = path_file d p" if "p \<notin> {SnapshotFile, SnapshotPrev}"
    using that move_same [of SnapshotFile SnapshotPrev d] by (auto simp: first_moved_def changed_at_def)
  from assms show "prev_ledger blake3 (first_moved d) L"
  proof
    assume "prev_ledger blake3 d L"
    moreover from this have "path_file d SnapshotFile = None" by (simp add: prev_ledger_def path_bytes_def)
    ultimately show ?thesis by (simp add: first_moved_def)
  next
    assume "live_ledger blake3 d bs snap rs torn L"
    note l = this [unfolded live_ledger_def]
    have e: "first_moved d = move_path SnapshotFile SnapshotPrev d" using l by (auto simp: first_moved_def path_bytes_def)
    have f: "path_bytes (first_moved d) q = (if q = SnapshotPrev then Some bs else if q = SnapshotFile then None else path_bytes d q)" for q
      unfolding e by (rule move_bytes) (use l in simp_all)
    have lf: "log_file (first_moved d) j = log_file d j" for j by (simp add: log_file_def f)
    have "logged blake3 (first_moved d) snap rs torn L" "rotated blake3 (first_moved d) snap"
      using l by (simp_all add: logged_def rotated_def lf)
    then show "prev_ledger blake3 (first_moved d) L" using f l by (auto simp: prev_ledger_def)
  qed
qed

lemma rotation:
  assumes "prev_ledger blake3 d L" "path_bytes d SnapshotTmp = Some new"
    and "is_snapshot blake3 new ix'" "ix_generation L \<le> ix_generation ix'"
  shows "\<exists>rs torn. live_ledger blake3 (then_moved d) new ix' rs torn ix'"
    "live_ledger blake3 (log_moved (then_moved d)) new ix' [] [] ix'"
proof -
  obtain bs snap rs torn where l: "path_bytes d SnapshotPrev = Some bs" "is_snapshot blake3 bs snap"
    "logged blake3 d snap rs torn L" "rotated blake3 d snap" using assms(1) by (auto simp: prev_ledger_def)
  note lg0 = l(3) [unfolded logged_def]
  have t: "path_bytes (then_moved d) q = (if q = SnapshotFile then Some new else if q = SnapshotTmp then None
      else path_bytes d q)" for q
    unfolding then_moved_def by (rule move_bytes [OF assms(2)]) simp
  have lt: "log_file (then_moved d) j = log_file d j" for j by (simp add: log_file_def t)
  have nn: "no_newer (ix_generation ix') rs" using lg0 assms(4) by (auto intro: no_newer_mono)
  have roomy: "roomy (ix_generation ix')" using assms(3) by (simp add: is_snapshot_def)
  obtain ps torn' where ps: "log_file d PrevLog = log_bytes ps @ torn'" "log_ok blake3 ps" "no_newer (ix_generation snap) ps"
    "next_journal_record blake3 torn' = None" using l(4) by (auto simp: rotated_def)
  have sl: "ix_generation snap \<le> ix_generation ix'" using lg0 assms(4) by auto
  have lg: "logged blake3 (then_moved d) ix' rs torn ix'"
    using lg0 stale_log [OF nn roomy_less [OF roomy]] nn by (simp add: logged_def lt)
  have ro: "rotated blake3 (then_moved d) ix'"
    using ps no_newer_mono [OF ps(3) sl] by (auto simp: rotated_def lt)
  have live: "live_ledger blake3 (then_moved d) new ix' rs torn ix'" using lg ro t assms(3) by (simp add: live_ledger_def)
  then show "\<exists>rs torn. live_ledger blake3 (then_moved d) new ix' rs torn ix'" by blast
  let ?d = "then_moved d"
  have m: "path_bytes (log_moved ?d) q = (if q = LogFile PrevLog then path_bytes ?d (LogFile LiveLog)
      else if q = LogFile LiveLog then None else path_bytes ?d q)" for q
  proof (cases "path_file ?d (LogFile LiveLog)")
    case None
    then show ?thesis by (auto simp: log_moved_def path_bytes_def)
  next
    case (Some x)
    then have b: "path_bytes ?d (LogFile LiveLog) = Some (sf_bytes x)" by (simp add: path_bytes_def)
    show ?thesis using move_bytes [OF b, of "LogFile PrevLog" q] Some b by (simp add: log_moved_def)
  qed
  have "log_file (log_moved ?d) PrevLog = log_bytes rs @ torn" "log_file (log_moved ?d) LiveLog = []"
    using lt [of LiveLog] lg0 by (simp_all add: log_file_def m)
  then have "rotated blake3 (log_moved ?d) ix'" "logged blake3 (log_moved ?d) ix' [] [] ix'"
    using nn lg0 by (auto simp: rotated_def logged_def no_newer_def)
  moreover have "path_bytes (log_moved ?d) SnapshotFile = Some new" using live by (simp add: m live_ledger_def)
  ultimately show "live_ledger blake3 (log_moved (then_moved d)) new ix' [] [] ix'" using assms(3) by (simp add: live_ledger_def)
qed

lemma opens_changed:
  assumes "opens_to blake3 L d" "changed_at P d d'" "P \<inter> ({SnapshotFile, SnapshotPrev} \<union> range LogFile \<union> range QuarantinePack) = {}"
  shows "opens_to blake3 L d'"
proof -
  have same: "same_ledger_files d d'" by (rule changed_same [OF assms(2)]) (use assms(3) in blast)
  have "quarantine_ok d" using assms(1) by (auto simp: opens_to_def opens_live_def opens_prev_def)
  then have "quarantine_ok d'" by (rule changed_quarantine [OF assms(2), rotated]) (use assms(3) in auto)
  then show ?thesis
    using assms(1) same_live [OF same] same_prev [OF same] changed_segments [OF assms(2)]
    by (auto simp: opens_to_def opens_live_def opens_prev_def)
qed

lemma saved_opens: "saved_ledger blake3 s L \<Longrightarrow> opens_to blake3 L (gs_disk s)"
  by (auto simp: saved_ledger_def opens_to_def opens_live_def opens_prev_def)

theorem snapshot_goes:
  assumes "hash_ok blake3" "saved_ledger blake3 s L" "ledger_sized (gs_index s) (gs_pending s)" "bt_ok (ix_records (gs_index s))"
    and "roomy (ix_generation (gs_index s))" "ix_generation L \<le> ix_generation (gs_index s)"
  shows "\<exists>s' R d' sb. goes (\<lambda>t. opens_to blake3 L (gs_disk t) \<or> opens_to blake3 (gs_index s') (gs_disk t)) (write_snapshot blake3) s () s'
    \<and> saved_ledger blake3 s' (gs_index s') \<and> changed_at save_paths (gs_disk s) d'
    \<and> s' = (set_records R (s\<lparr>gs_disk := d', gs_pending := []\<rparr>))\<lparr>gs_snapshot_bytes := sb, gs_journal_bytes := 0\<rparr>
    \<and> bt_ok R \<and> (\<forall>(name, at) \<in> set R. record_in_pack at)
    \<and> fst ` set R \<subseteq> fst ` set (ix_records (gs_index s)) \<union> fst ` set (gs_pending s)"
proof -
  let ?ix = "gs_index s" and ?d = "gs_disk s"
  have rest: "gs_seg s = None" "\<not> gs_read_only s" "no_segments ?d" "quarantine_ok ?d"
    using assms(2) by (simp_all add: saved_ledger_def)
  have refs: "refs_ok (ix_records ?ix)" using assms(3) by (simp add: ledger_sized_def)
  obtain R d1 where mv: "touches record_paths (move_records_into_a_pack blake3) s () (set_records R (s\<lparr>gs_disk := d1, gs_pending := []\<rparr>))"
    and R: "bt_ok R" "\<forall>(name, at) \<in> set R. record_in_pack at"
      "fst ` set R \<subseteq> fst ` set (ix_records ?ix) \<union> fst ` set (gs_pending s)"
    using move_records_touches [OF assms(1,4) refs] by blast
  let ?ix' = "?ix\<lparr>ix_records := R\<rparr>" and ?s1 = "set_records R (s\<lparr>gs_disk := d1, gs_pending := []\<rparr>)"
  let ?P = "\<lambda>d. opens_to blake3 L d \<or> opens_to blake3 ?ix' d"
  have op0: "opens_to blake3 L ?d" by (rule saved_opens [OF assms(2)])
  have keeps: "opens_to blake3 L d'" if "changed_at Q d d'" "Q \<subseteq> insert SnapshotTmp record_paths" "opens_to blake3 L d" for Q d d'
  proof -
    have "Q \<inter> ({SnapshotFile, SnapshotPrev} \<union> range LogFile \<union> range QuarantinePack) = {}"
      using that(2) by (auto simp: record_paths_def)
    then show ?thesis by (rule opens_changed [OF that(3,1)])
  qed
  have c1: "changed_at record_paths ?d d1" using mv by (simp add: touches_def set_records_def)
  have q1: "no_segments d1" "quarantine_ok d1"
    using changed_segments [OF c1] changed_quarantine [OF c1 _ rest(4)] rest(3) by (auto simp: record_paths_def)
  have op1: "opens_to blake3 L d1" by (rule keeps [OF c1 _ op0]) blast
  have g1: "goes (\<lambda>t. ?P (gs_disk t)) (move_records_into_a_pack blake3) s () ?s1"
    by (rule touches_goes [OF mv]) (use keeps [OF _ _ op0] in blast)
  have six: "gs_index ?s1 = ?ix'" "gs_disk ?s1 = d1" by (simp_all add: set_records_def)
  have ixg: "?ix' = ?ix\<lparr>ix_records := R, ix_generation := ix_generation ?ix\<rparr>" by simp
  obtain new where new: "encode_index blake3 (now_epoch d1) ?ix' = Inr new" "index_seal_holds blake3 new" "is_snapshot blake3 new ?ix'"
    using snapshot_is_one [OF assms(1,3) R assms(5) ixg] by blast
  let ?d2 = "set_path SnapshotTmp new (set_path SnapshotTmp [] d1)"
  let ?s2 = "?s1\<lparr>gs_disk := ?d2\<rparr>"
  have t2: "touches {SnapshotTmp} (write_path SnapshotTmp new) ?s1 () ?s2"
    using touches_write [of SnapshotTmp "{SnapshotTmp}" new ?s1] by (simp add: set_records_def)
  have g2: "goes (\<lambda>t. ?P (gs_disk t)) (write_path SnapshotTmp new) ?s1 () ?s2"
    by (rule touches_goes [OF t2]) (use keeps [OF _ _ op1] six(2) in auto)
  have c2: "changed_at {SnapshotTmp} d1 ?d2" using t2 by (simp add: touches_def set_records_def)
  have op2: "opens_to blake3 L ?d2" by (rule keeps [OF c2 _ op1]) blast
  then obtain old snap rs torn where l2: "live_ledger blake3 ?d2 old snap rs torn L \<or> prev_ledger blake3 ?d2 L"
    by (auto simp: opens_to_def opens_live_def opens_prev_def)
  have q2: "no_segments ?d2" "quarantine_ok ?d2" using changed_segments [OF c2] changed_quarantine [OF c2 _ q1(2)] q1(1) by auto
  have gen: "ix_generation L \<le> ix_generation ?ix'" using assms(6) by simp
  have tmp: "path_bytes ?d2 SnapshotTmp = Some new" by simp
  let ?d3 = "first_moved ?d2"
  let ?d4 = "then_moved ?d3"
  note prev3 = first_prev(1) [OF l2]
  have tmp3b: "path_bytes ?d3 SnapshotTmp = Some new" using tmp first_prev(2) [OF l2, of SnapshotTmp] by (simp add: path_bytes_def)
  note rot = rotation [OF prev3 tmp3b new(3) gen]
  let ?d5 = "log_moved ?d4"
  let ?d6 = "del_path JsonIndex ?d5"
  have c3: "changed_at save_paths ?d2 ?d3" unfolding first_moved_def by (auto intro!: changed_move simp: save_paths_def)
  have c4: "changed_at save_paths ?d3 ?d4" unfolding then_moved_def by (rule changed_move) (auto simp: save_paths_def)
  have c5: "changed_at save_paths ?d4 ?d5" unfolding log_moved_def by (auto intro!: changed_move changed_del simp: save_paths_def)
  have c6: "changed_at save_paths ?d5 ?d6" by (rule changed_del) (simp add: save_paths_def)
  have q: "no_segments d \<and> quarantine_ok d" if "changed_at save_paths ?d2 d" for d
    using changed_segments [OF that] changed_quarantine [OF that save_quarantine q2(2)] q2(1) by simp
  have c24: "changed_at save_paths ?d2 ?d4" by (rule changed_trans [OF c3 c4])
  have c25: "changed_at save_paths ?d2 ?d5" by (rule changed_trans [OF c24 c5])
  have c26: "changed_at save_paths ?d2 ?d6" by (rule changed_trans [OF c25 c6])
  have p3: "?P ?d3" using prev3 q [OF c3] by (auto simp: opens_to_def opens_prev_def)
  have p4: "?P ?d4" using rot(1) q [OF c24] by (auto simp: opens_to_def opens_live_def)
  have live5: "live_ledger blake3 ?d5 new ?ix' [] [] ?ix'" by (rule rot(2))
  have p5: "?P ?d5" using live5 q [OF c25] by (auto simp: opens_to_def opens_live_def)
  have "same_ledger_files ?d5 ?d6" by (rule changed_same [OF changed_del [of JsonIndex "{JsonIndex}"]]) auto
  then have live6: "live_ledger blake3 ?d6 new ?ix' [] [] ?ix'" using same_live live5 by simp
  have p6: "?P ?d6" using live6 q [OF c26] by (auto simp: opens_to_def opens_live_def)
  let ?s3 = "?s1\<lparr>gs_disk := ?d3\<rparr>" and ?s4 = "?s1\<lparr>gs_disk := ?d4\<rparr>"
  let ?s5 = "?s1\<lparr>gs_disk := ?d5\<rparr>" and ?s6 = "?s1\<lparr>gs_disk := ?d6\<rparr>"
  let ?s7 = "?s6\<lparr>gs_snapshot_bytes := of_nat (length new), gs_journal_bytes := 0\<rparr>"
  have tmp3: "path_file ?d3 SnapshotTmp \<noteq> None" using tmp3b by (auto simp: path_bytes_def)
  have ren: "goes (\<lambda>t. ?P (gs_disk t)) (rename_path a b) (?s1\<lparr>gs_disk := d\<rparr>) () (?s1\<lparr>gs_disk := move_path a b d\<rparr>)"
    if f: "path_file d a \<noteq> None" and p: "?P (move_path a b d)" for a b d
  proof -
    obtain f where "path_file d a = Some f" using f by auto
    then have e: "path_file (gs_disk (?s1\<lparr>gs_disk := d\<rparr>)) a = Some f" by simp
    have g: "goes (\<lambda>t. ?P (gs_disk t)) (on_disk (move_path a b)) (?s1\<lparr>gs_disk := d\<rparr>) () (?s1\<lparr>gs_disk := move_path a b d\<rparr>)"
      using goes_disk [of "\<lambda>t. ?P (gs_disk t)" "move_path a b" "?s1\<lparr>gs_disk := d\<rparr>"] p by simp
    show ?thesis unfolding rename_path_def
      by (rule goes_bind, rule goes_ask, rule refl, simp only: e option.case, rule g)
  qed
  have rem: "goes (\<lambda>t. ?P (gs_disk t)) (remove_path a) (?s1\<lparr>gs_disk := d\<rparr>) () (?s1\<lparr>gs_disk := del_path a d\<rparr>)"
    if "?P (del_path a d)" for a d
    using goes_disk [of "\<lambda>t. ?P (gs_disk t)" "del_path a" "?s1\<lparr>gs_disk := d\<rparr>"] that unfolding remove_path_def by simp
  have g3: "goes (\<lambda>t. ?P (gs_disk t)) (if path_file ?d2 SnapshotFile = None then ret () else rename_path SnapshotFile SnapshotPrev) ?s2 () ?s3"
  proof (cases "path_file ?d2 SnapshotFile = None")
    case True
    have e: "?d3 = ?d2" unfolding first_moved_def by (rule if_P [OF True])
    show ?thesis unfolding if_P [OF True] e by (rule goes_ret)
  next
    case False
    have e: "?d3 = move_path SnapshotFile SnapshotPrev ?d2" unfolding first_moved_def by (rule if_not_P [OF False])
    show ?thesis unfolding if_not_P [OF False] e by (rule ren [OF False]) (use p3 in \<open>simp only: e\<close>)
  qed
  have g4: "goes (\<lambda>t. ?P (gs_disk t)) (rename_path SnapshotTmp SnapshotFile) ?s3 () ?s4"
    using ren [OF tmp3, of SnapshotFile] p4 by (simp only: then_moved_def)
  have g5: "goes (\<lambda>t. ?P (gs_disk t)) (if path_file ?d4 (LogFile LiveLog) = None then remove_path (LogFile PrevLog)
      else rename_path (LogFile LiveLog) (LogFile PrevLog)) ?s4 () ?s5"
  proof (cases "path_file ?d4 (LogFile LiveLog) = None")
    case True
    have e: "?d5 = del_path (LogFile PrevLog) ?d4" unfolding log_moved_def by (rule if_P [OF True])
    show ?thesis unfolding if_P [OF True] e by (rule rem) (use p5 in \<open>simp only: e\<close>)
  next
    case False
    have e: "?d5 = move_path (LogFile LiveLog) (LogFile PrevLog) ?d4" unfolding log_moved_def by (rule if_not_P [OF False])
    show ?thesis unfolding if_not_P [OF False] e by (rule ren [OF False]) (use p5 in \<open>simp only: e\<close>)
  qed
  have g6: "goes (\<lambda>t. ?P (gs_disk t)) (remove_path JsonIndex) ?s5 () ?s6" by (rule rem [OF p6])
  have g7: "goes (\<lambda>t. ?P (gs_disk t)) (memory (\<lambda>s. s\<lparr>gs_snapshot_bytes := of_nat (length new), gs_journal_bytes := 0\<rparr>)) ?s6 () ?s7"
    by (simp add: goes_def memory_def)
  have enc: "(\<lambda>s. encode_index blake3 (now_epoch (gs_disk s)) (gs_index s)) ?s1 = Inr new" using new(1) six by simp
  have st: "(\<lambda>s. Inr (path_bytes (gs_disk s) SnapshotTmp)) ?s2 = Inr (Some new)" using tmp by simp
  have a2: "goes (\<lambda>t. ?P (gs_disk t)) (ask (\<lambda>s. Inr (path_bytes (gs_disk s) SnapshotTmp))) ?s2 (Some new) ?s2" by (rule goes_ask) (rule st)
  have a1: "goes (\<lambda>t. ?P (gs_disk t)) (ask (\<lambda>s. encode_index blake3 (now_epoch (gs_disk s)) (gs_index s))) ?s1 new ?s1" by (rule goes_ask) (rule enc)
  have a3: "goes (\<lambda>t. ?P (gs_disk t)) (ask (\<lambda>s. Inr (path_file (gs_disk s) SnapshotFile))) ?s2 (path_file ?d2 SnapshotFile) ?s2"
    by (rule goes_ask) simp
  have a4: "goes (\<lambda>t. ?P (gs_disk t)) (ask (\<lambda>s. Inr (path_file (gs_disk s) (LogFile LiveLog)))) ?s4 (path_file ?d4 (LogFile LiveLog)) ?s4"
    by (rule goes_ask) simp
  have run: "goes (\<lambda>t. ?P (gs_disk t)) (write_snapshot blake3) s () ?s7"
    unfolding write_snapshot_def
    by (rule goes_bind, rule g1, rule goes_bind, rule a1, rule goes_bind, rule g2, rule goes_bind, rule a2,
        simp only: option.case new(2) not_True_eq_False if_False, rule goes_bind, rule a3, rule goes_bind, rule g3, rule goes_bind, rule g4, rule goes_bind, rule a4,
        rule goes_bind, rule g5, rule goes_bind, rule g6, rule g7)
  have e7: "?s7 = (set_records R (s\<lparr>gs_disk := ?d6, gs_pending := []\<rparr>))\<lparr>gs_snapshot_bytes := of_nat (length new), gs_journal_bytes := 0\<rparr>"
    by (simp add: set_records_def)
  have i7: "gs_index ?s7 = ?ix'" "gs_disk ?s7 = ?d6" by (simp_all add: set_records_def)
  have "saved_ledger blake3 ?s7 ?ix'"
    by (rule saved_liveI [where bs = new and snap = ?ix' and rs = "[]"])
      (use q [OF c26] rest(1,2) live6 in \<open>simp_all add: set_records_def\<close>)
  moreover have "changed_at save_paths ?d ?d6"
    using changed_trans [OF changed_mono [OF c1 record_paths_save] changed_trans [OF changed_mono [OF c2] c26]] by (simp add: save_paths_def)
  ultimately show ?thesis using run R i7(1) e7 by (intro exI [of _ ?s7] exI [of _ R] exI [of _ ?d6] exI [of _ "of_nat (length new)"]) auto
qed

end
