(* ===== verification/Ledger_Atomic.thy ===== *)
theory Ledger_Atomic
  imports Ledger_Saves
begin

text \<open>
  A save of the monolithic ledger as a whole: it succeeds, what it leaves on disk is the ledger in
  memory, and at every step on the way the directory opens to the ledger from before or from after.
\<close>

section \<open>Extending the journal\<close>

lemma append_goes:
  assumes "\<And>k. k \<le> length bs \<Longrightarrow> P (set_path p ((case path_bytes (gs_disk s) p of None \<Rightarrow> [] | Some old \<Rightarrow> old) @ take k bs) (gs_disk s))"
  shows "goes (\<lambda>t. P (gs_disk t)) (append_path p bs) s ()
    (s\<lparr>gs_disk := set_path p ((case path_bytes (gs_disk s) p of None \<Rightarrow> [] | Some old \<Rightarrow> old) @ bs) (gs_disk s)\<rparr>)"
  using assms by (auto simp: goes_def append_path_def Let_def less_Suc_eq_le simp del: upt_Suc)

lemma log_set: "log_file (set_path (LogFile f) bs d) j = (if j = f then bs else log_file d j)"
  by (simp add: log_file_def)

lemma torn_log:
  assumes "live_ledger blake3 d bs snap rs [] L" "sealed_record blake3 rec g" "k < length rec"
  shows "live_ledger blake3 (set_path (LogFile LiveLog) (log_file d LiveLog @ take k rec) d) bs snap rs (take k rec) L"
  using assms(1) torn_record [OF assms(2,3)] by (auto simp: live_ledger_def logged_def rotated_def log_set)

lemma longer_log:
  assumes "live_ledger blake3 d bs snap rs [] L" "sealed_record blake3 rec g" "ix_generation L \<le> g" "ix_generation L' = g"
    and "apply_log LiveLog (length (log_bytes rs)) [(rec, g)] L = Some L'" "length (log_bytes rs) + length rec < 2 ^ 64"
  shows "live_ledger blake3 (set_path (LogFile LiveLog) (log_file d LiveLog @ rec) d) bs snap (rs @ [(rec, g)]) [] L'"
proof -
  note l = assms(1) [unfolded live_ledger_def logged_def]
  let ?d = "set_path (LogFile LiveLog) (log_file d LiveLog @ rec) d"
  have "apply_log LiveLog 0 (rs @ [(rec, g)]) snap = Some L'"
    using l assms(5) unfolding apply_log_append by simp
  moreover have "no_newer g rs" using l assms(3) by (auto intro: no_newer_mono)
  then have "no_newer (ix_generation L') (rs @ [(rec, g)])" using assms(4) by (simp add: no_newer_def)
  ultimately have "logged blake3 ?d snap (rs @ [(rec, g)]) [] L'"
    using l assms(2-4,6) by (auto simp: logged_def log_set)
  moreover have "rotated blake3 ?d snap" using l by (simp add: rotated_def log_set)
  ultimately show ?thesis using l by (simp add: live_ledger_def)
qed

section \<open>Records that do not go inline\<close>

definition staged_records :: "hash_fun \<Rightarrow> (string \<times> bytes) list \<Rightarrow> unit store_run" where
  "staged_records blake3 pending =
     (if inline_records_max < sum_list (map (\<lambda>r. length (snd r)) pending) then
        bind_run (memory (\<lambda>s. s\<lparr>gs_pending := []\<rparr>)) (\<lambda>_.
        bind_run (write_record_pack blake3 pending) (\<lambda>ats.
        memory (\<lambda>s. set_records (bt_build ats (ix_records (gs_index s))) s)))
      else ret ())"

definition staged_from :: "global_store \<Rightarrow> (string \<times> record_ref) list \<Rightarrow> (string \<times> bytes) list \<Rightarrow> bool" where
  "staged_from s R p \<longleftrightarrow> R = ix_records (gs_index s) \<and> p = gs_pending s
     \<or> p = [] \<and> bt_ok R \<and> (\<forall>n. if n \<in> fst ` set (gs_pending s) then \<exists>at. map_of R n = Some at \<and> record_in_pack at
                                else map_of R n = map_of (ix_records (gs_index s)) n)"

lemma staged_from_cong:
  assumes "gs_index s' = gs_index s" "gs_pending s' = gs_pending s"
  shows "staged_from s' R p = staged_from s R p"
  unfolding staged_from_def assms ..

lemma staged_records_touches:
  assumes "hash_ok blake3" "bt_ok (ix_records (gs_index s))"
  shows "\<exists>R d' p. touches record_paths (staged_records blake3 (gs_pending s)) s () (set_records R (s\<lparr>gs_disk := d', gs_pending := p\<rparr>))
    \<and> staged_from s R p"
proof (cases "inline_records_max < sum_list (map (\<lambda>r. length (snd r)) (gs_pending s))")
  case True
  let ?s1 = "s\<lparr>gs_pending := []\<rparr>"
  obtain ats d' where w: "touches record_paths (write_record_pack blake3 (gs_pending s)) ?s1 ats (?s1\<lparr>gs_disk := d'\<rparr>)"
    "packed_at blake3 (gs_pending s) ats" using write_record_pack_touches [OF assms(1)] by blast
  let ?R = "bt_build ats (ix_records (gs_index s))"
  let ?s3 = "set_records ?R (s\<lparr>gs_disk := d', gs_pending := []\<rparr>)"
  have m1: "touches record_paths (memory (\<lambda>s. s\<lparr>gs_pending := []\<rparr>)) s () ?s1" by (rule touches_memory) simp
  have "touches record_paths (memory (\<lambda>s. set_records (bt_build ats (ix_records (gs_index s))) s)) (?s1\<lparr>gs_disk := d'\<rparr>) ()
      (set_records (bt_build ats (ix_records (gs_index (?s1\<lparr>gs_disk := d'\<rparr>)))) (?s1\<lparr>gs_disk := d'\<rparr>))"
    by (rule touches_memory) (simp add: set_records_def)
  moreover have "set_records (bt_build ats (ix_records (gs_index (?s1\<lparr>gs_disk := d'\<rparr>)))) (?s1\<lparr>gs_disk := d'\<rparr>) = ?s3"
    by (simp add: set_records_def)
  ultimately have m2: "touches record_paths (memory (\<lambda>s. set_records (bt_build ats (ix_records (gs_index s))) s)) (?s1\<lparr>gs_disk := d'\<rparr>) () ?s3"
    by simp
  have "touches record_paths (staged_records blake3 (gs_pending s)) s () ?s3"
    unfolding staged_records_def
    by (simp only: True if_True, rule touches_bind, rule m1, rule touches_bind, rule w(1), rule m2)
  moreover have "staged_from s ?R []"
    unfolding staged_from_def using bt_ok_build [OF assms(2)] packed_build [OF w(2)] by auto
  ultimately show ?thesis by blast
next
  case False
  have "touches record_paths (staged_records blake3 (gs_pending s)) s () s" using False by (simp add: staged_records_def touches_ret)
  moreover have "s = set_records (ix_records (gs_index s)) (s\<lparr>gs_disk := gs_disk s, gs_pending := gs_pending s\<rparr>)"
    by (simp add: set_records_def)
  ultimately show ?thesis by (metis staged_from_def)
qed

lemma staged_keeps:
  assumes "staged_from s R p" "differs_at dc da (gs_pending s) (gs_index s) L" "ledger_sized (gs_index s) (gs_pending s)"
    and "marks_fit (gs_index s) dc da (gs_pending s)"
  shows "differs_at dc da p ((gs_index s)\<lparr>ix_records := R\<rparr>) L" "ledger_sized ((gs_index s)\<lparr>ix_records := R\<rparr>) p"
    "marks_fit ((gs_index s)\<lparr>ix_records := R\<rparr>) dc da p"
    "fst ` set R \<union> fst ` set p \<subseteq> fst ` set (ix_records (gs_index s)) \<union> fst ` set (gs_pending s)"
proof -
  have same: "(gs_index s)\<lparr>ix_records := ix_records (gs_index s)\<rparr> = gs_index s" by simp
  consider "R = ix_records (gs_index s)" "p = gs_pending s"
    | "p = []" "bt_ok R" "\<And>n. n \<in> fst ` set (gs_pending s) \<Longrightarrow> \<exists>at. map_of R n = Some at \<and> record_in_pack at"
      "\<And>n. n \<notin> fst ` set (gs_pending s) \<Longrightarrow> map_of R n = map_of (ix_records (gs_index s)) n"
    using assms(1) unfolding staged_from_def by metis
  then have "differs_at dc da p ((gs_index s)\<lparr>ix_records := R\<rparr>) L \<and> ledger_sized ((gs_index s)\<lparr>ix_records := R\<rparr>) p
    \<and> marks_fit ((gs_index s)\<lparr>ix_records := R\<rparr>) dc da p
    \<and> fst ` set R \<union> fst ` set p \<subseteq> fst ` set (ix_records (gs_index s)) \<union> fst ` set (gs_pending s)"
  proof cases
    case 1
    then show ?thesis using assms(2-4) by simp
  next
    case 2
    note d = assms(2) [unfolded differs_at_def] and z = assms(3) [unfolded ledger_sized_def]
    have pend: "n \<in> fst ` set (gs_pending s) \<longleftrightarrow> map_of (gs_pending s) n \<noteq> None" for n by (simp add: map_of_eq_None_iff)
    have inpack: "\<exists>pack off len. map_of R n = Some (InPack pack off len) \<and> length pack = 32" if "n \<in> fst ` set (gs_pending s)" for n
      using 2(3) [OF that] by (auto simp: record_in_pack_def)
    have other: "map_of R n = map_of (ix_records (gs_index s)) n" if "map_of (gs_pending s) n = None" for n
      using 2(4) [of n] that pend by blast
    have diff: "differs_at dc da p ((gs_index s)\<lparr>ix_records := R\<rparr>) L"
      unfolding differs_at_def
    proof (intro conjI)
      show "\<forall>n. n \<notin> set da \<longrightarrow> map_of (ix_assets ((gs_index s)\<lparr>ix_records := R\<rparr>)) n = map_of (ix_assets L) n
        \<and> map_of (ix_records ((gs_index s)\<lparr>ix_records := R\<rparr>)) n = map_of (ix_records L) n \<and> map_of p n = None"
        using d other 2(1) by auto
      show "\<forall>n\<in>set da. (map_of (ix_assets ((gs_index s)\<lparr>ix_records := R\<rparr>)) n = None \<longrightarrow>
          map_of (ix_records ((gs_index s)\<lparr>ix_records := R\<rparr>)) n = None \<and> map_of p n = None) \<and>
         (map_of (ix_assets ((gs_index s)\<lparr>ix_records := R\<rparr>)) n \<noteq> None \<longrightarrow> map_of p n \<noteq> None
           \<or> (\<exists>pack off len. map_of (ix_records ((gs_index s)\<lparr>ix_records := R\<rparr>)) n = Some (InPack pack off len)))"
      proof
        fix n assume n: "n \<in> set da"
        show "(map_of (ix_assets ((gs_index s)\<lparr>ix_records := R\<rparr>)) n = None \<longrightarrow>
          map_of (ix_records ((gs_index s)\<lparr>ix_records := R\<rparr>)) n = None \<and> map_of p n = None) \<and>
         (map_of (ix_assets ((gs_index s)\<lparr>ix_records := R\<rparr>)) n \<noteq> None \<longrightarrow> map_of p n \<noteq> None
           \<or> (\<exists>pack off len. map_of (ix_records ((gs_index s)\<lparr>ix_records := R\<rparr>)) n = Some (InPack pack off len)))"
        proof -
          have dn: "(map_of (ix_assets (gs_index s)) n = None \<longrightarrow> map_of (ix_records (gs_index s)) n = None \<and> map_of (gs_pending s) n = None)
            \<and> (map_of (ix_assets (gs_index s)) n \<noteq> None \<longrightarrow> map_of (gs_pending s) n \<noteq> None
                 \<or> (\<exists>pack off len. map_of (ix_records (gs_index s)) n = Some (InPack pack off len)))" using d n by blast
          show ?thesis
          proof (cases "map_of (gs_pending s) n")
            case None
            then show ?thesis using dn other [OF None] 2(1) by auto
          next
            case (Some bytes)
            then show ?thesis using inpack [of n] pend [of n] dn by auto
          qed
        qed
      qed
    qed (use d 2(2) in simp_all)
    have keys: "fst ` set R \<subseteq> fst ` set (ix_records (gs_index s)) \<union> fst ` set (gs_pending s)"
    proof
      fix n assume "n \<in> fst ` set R"
      then have "map_of R n \<noteq> None" by (simp add: map_of_eq_None_iff)
      then show "n \<in> fst ` set (ix_records (gs_index s)) \<union> fst ` set (gs_pending s)"
        using 2(4) [of n] by (cases "n \<in> fst ` set (gs_pending s)") (auto simp: map_of_eq_None_iff)
    qed
    have "length pack = 32" if r: "map_of R n = Some (InPack pack off len)" for n pack off len
    proof (cases "n \<in> fst ` set (gs_pending s)")
      case True
      then show ?thesis using inpack [OF True] r by auto
    next
      case False
      then have "map_of (ix_records (gs_index s)) n = Some (InPack pack off len)" using 2(4) [OF False] r by simp
      moreover have "refs_ok (ix_records (gs_index s))" using z by (simp only:)
      ultimately show ?thesis unfolding refs_ok_def by metis
    qed
    then have refs: "refs_ok R" by (simp add: refs_ok_def)
    have k1: "fst ` set (ix_records (gs_index s)) \<subseteq> fst ` set (ix_assets (gs_index s))"
      "fst ` set (gs_pending s) \<subseteq> fst ` set (ix_assets (gs_index s))" using z by (simp_all only:)
    have k2: "fst ` set R \<subseteq> fst ` set (ix_assets (gs_index s))" by (rule subset_trans [OF keys Un_least [OF k1]])
    have sized: "ledger_sized ((gs_index s)\<lparr>ix_records := R\<rparr>) p"
      using z refs k2 2(1) by (simp add: ledger_sized_def assets_stored_def)
    have "marks_fit ((gs_index s)\<lparr>ix_records := R\<rparr>) dc da p" using assms(4) 2(1) by (simp add: marks_fit_def)
    then show ?thesis using diff sized keys 2(1) by simp
  qed
  then show "differs_at dc da p ((gs_index s)\<lparr>ix_records := R\<rparr>) L" "ledger_sized ((gs_index s)\<lparr>ix_records := R\<rparr>) p"
    "marks_fit ((gs_index s)\<lparr>ix_records := R\<rparr>) dc da p"
    "fst ` set R \<union> fst ` set p \<subseteq> fst ` set (ix_records (gs_index s)) \<union> fst ` set (gs_pending s)" by blast+
qed

section \<open>The save\<close>

definition after_save :: "global_store \<Rightarrow> global_store \<Rightarrow> bool" where
  "after_save s s' \<longleftrightarrow> (\<exists>R d' sb jb.
     s' = s\<lparr>gs_disk := d', gs_index := (gs_index s)\<lparr>ix_records := R, ix_generation := ix_generation (gs_index s) + 1\<rparr>,
        gs_pending := [], gs_dirty_chunks := [], gs_dirty_assets := [], gs_snapshot_bytes := sb, gs_journal_bytes := jb\<rparr>
   \<and> changed_at save_paths (gs_disk s) d' \<and> bt_ok R \<and> refs_ok R
   \<and> fst ` set R \<subseteq> fst ` set (ix_records (gs_index s)) \<union> fst ` set (gs_pending s))"

definition can_save :: "global_store \<Rightarrow> store_index \<Rightarrow> bool" where
  "can_save s L \<longleftrightarrow> differs_at (gs_dirty_chunks s) (gs_dirty_assets s) (gs_pending s) (gs_index s) L
     \<and> ledger_sized (gs_index s) (gs_pending s)
     \<and> marks_fit (gs_index s) (gs_dirty_chunks s) (gs_dirty_assets s) (gs_pending s)
     \<and> unat (journal_budget s) < 2 ^ 32 \<and> unat (ix_generation L) + 3 < 2 ^ 64"

lemma refs_ok_locate:
  assumes "refs_ok R"
  shows "refs_ok (bt_build (locate_inline jb inline) R)"
proof -
  have "\<exists>f off len. at = InJournal f off len" if "map_of (rev (locate_inline jb inline)) n = Some at" for n at
    using map_of_SomeD [OF that] by (auto simp: locate_inline_def)
  then show ?thesis using assms by (fastforce simp: refs_ok_def map_of_build_rev split: option.splits)
qed

lemma keys_locate: "fst ` set (bt_build (locate_inline jb inline) R) = fst ` set inline \<union> fst ` set R"
proof -
  have "fst ` set (bt_build xs m) = fst ` set xs \<union> fst ` set m" for xs :: "(string \<times> record_ref) list" and m
    by (induction xs m rule: bt_build.induct) auto
  moreover have "fst ` set (locate_inline jb inline) = fst ` set inline" by (force simp: locate_inline_def)
  ultimately show ?thesis by simp
qed

lemma saved_ledger_cong:
  assumes "saved_ledger blake3 s L" "gs_disk s' = gs_disk s" "gs_seg s' = gs_seg s" "gs_read_only s' = gs_read_only s"
    "gs_snapshot_bytes s' = gs_snapshot_bytes s" "gs_journal_bytes s' = gs_journal_bytes s"
  shows "saved_ledger blake3 s' L"
  using assms by (simp add: saved_ledger_def)

lemma saved_ledger_records:
  assumes "saved_ledger blake3 s L" "changed_at record_paths (gs_disk s) (gs_disk s')" "gs_seg s' = gs_seg s"
    "gs_read_only s' = gs_read_only s" "gs_snapshot_bytes s' = gs_snapshot_bytes s" "gs_journal_bytes s' = gs_journal_bytes s"
  shows "saved_ledger blake3 s' L"
proof -
  have "quarantine_ok (gs_disk s')"
    by (rule changed_quarantine [OF assms(2)]) (use assms(1) in \<open>auto simp: record_paths_def saved_ledger_def\<close>)
  then show ?thesis using assms same_live [OF record_paths_same [OF assms(2)]] same_prev [OF record_paths_same [OF assms(2)]]
      changed_segments [OF assms(2)] by (simp add: saved_ledger_def)
qed

definition set_generation :: "u64 \<Rightarrow> global_store \<Rightarrow> global_store" where
  "set_generation g s = s\<lparr>gs_index := (gs_index s)\<lparr>ix_generation := g\<rparr>\<rparr>"

lemma snapshot_save:
  assumes "hash_ok blake3" "saved_ledger blake3 s L" "ledger_sized (gs_index s) (gs_pending s)" "bt_ok (ix_records (gs_index s))"
    and "roomy g" "ix_generation L \<le> g"
  shows "\<exists>s' R d' sb. goes (\<lambda>t. opens_to blake3 L (gs_disk t) \<or> opens_to blake3 (gs_index s') (gs_disk t))
      (bind_run (memory (set_generation g)) (\<lambda>_. write_snapshot blake3)) s () s'
    \<and> saved_ledger blake3 s' (gs_index s') \<and> changed_at save_paths (gs_disk s) d'
    \<and> s' = s\<lparr>gs_disk := d', gs_index := (gs_index s)\<lparr>ix_records := R, ix_generation := g\<rparr>, gs_pending := [],
          gs_snapshot_bytes := sb, gs_journal_bytes := 0\<rparr>
    \<and> bt_ok R \<and> refs_ok R \<and> fst ` set R \<subseteq> fst ` set (ix_records (gs_index s)) \<union> fst ` set (gs_pending s)"
proof -
  let ?s3 = "set_generation g s"
  have i3: "gs_index ?s3 = (gs_index s)\<lparr>ix_generation := g\<rparr>" "gs_pending ?s3 = gs_pending s" "gs_disk ?s3 = gs_disk s"
    by (simp_all add: set_generation_def)
  have s3: "saved_ledger blake3 ?s3 L" by (rule saved_ledger_cong [OF assms(2)]) (simp_all add: set_generation_def)
  have z3: "ledger_sized (gs_index ?s3) (gs_pending ?s3)" using assms(3) by (simp add: i3 ledger_sized_def assets_stored_def)
  have b3: "bt_ok (ix_records (gs_index ?s3))" "roomy (ix_generation (gs_index ?s3))" "ix_generation L \<le> ix_generation (gs_index ?s3)"
    using assms(4-6) by (simp_all add: i3)
  from snapshot_goes [OF assms(1) s3 z3 b3] obtain s' R d' sb where
    sn: "goes (\<lambda>t. opens_to blake3 L (gs_disk t) \<or> opens_to blake3 (gs_index s') (gs_disk t)) (write_snapshot blake3) ?s3 () s'"
      "saved_ledger blake3 s' (gs_index s')" "changed_at save_paths (gs_disk ?s3) d'"
      "s' = (set_records R (?s3\<lparr>gs_disk := d', gs_pending := []\<rparr>))\<lparr>gs_snapshot_bytes := sb, gs_journal_bytes := 0\<rparr>"
      "bt_ok R" "\<forall>(name, at) \<in> set R. record_in_pack at"
      "fst ` set R \<subseteq> fst ` set (ix_records (gs_index ?s3)) \<union> fst ` set (gs_pending ?s3)" by blast
  have mem: "goes P (memory (set_generation g)) s () ?s3" for P
    by (simp add: goes_def memory_def)
  have "goes (\<lambda>t. opens_to blake3 L (gs_disk t) \<or> opens_to blake3 (gs_index s') (gs_disk t))
      (bind_run (memory (set_generation g)) (\<lambda>_. write_snapshot blake3)) s () s'"
    by (rule goes_bind, rule mem, rule sn(1))
  moreover have "refs_ok R" using sn(6) by (fastforce simp: refs_ok_def record_in_pack_def dest: map_of_SomeD)
  moreover have "s' = s\<lparr>gs_disk := d', gs_index := (gs_index s)\<lparr>ix_records := R, ix_generation := g\<rparr>, gs_pending := [],
      gs_snapshot_bytes := sb, gs_journal_bytes := 0\<rparr>" by (simp add: sn(4) set_records_def set_generation_def)
  ultimately show ?thesis using sn(2,3,5,7) i3
    by (intro exI [of _ s'] exI [of _ R] exI [of _ d'] exI [of _ sb] conjI) simp_all
qed

lemma save_index_mono:
  assumes "gs_seg s = None" "\<not> gs_read_only s"
    and "goes P (save_monolithic (se_blake3 env) (ix_generation (gs_index s) + 1) (gs_dirty_chunks s) (gs_dirty_assets s))
      (s\<lparr>gs_dirty_chunks := [], gs_dirty_assets := []\<rparr>) () s'"
  shows "goes P (save_index env) s () s'"
proof -
  have a1: "goes P (ask (\<lambda>s. Inr (gs_read_only s))) s False s" by (rule goes_ask) (use assms(2) in simp)
  have a2: "goes P (ask (\<lambda>s. Inr (gs_seg s))) s None s" by (rule goes_ask) (use assms(1) in simp)
  have a3: "goes P (ask (\<lambda>s. Inr (ix_generation (gs_index s) + 1, gs_dirty_chunks s, gs_dirty_assets s))) s
      (ix_generation (gs_index s) + 1, gs_dirty_chunks s, gs_dirty_assets s) s" by (rule goes_ask) simp
  have m: "goes P (memory (\<lambda>s. s\<lparr>gs_dirty_chunks := [], gs_dirty_assets := []\<rparr>)) s () (s\<lparr>gs_dirty_chunks := [], gs_dirty_assets := []\<rparr>)"
    by (simp add: goes_def memory_def)
  show ?thesis unfolding save_index_def
    by (rule goes_bind, rule a1, simp only: if_False, rule goes_bind, rule a2, simp only: option.case,
        rule goes_bind, rule a3, simp only: prod.case, rule goes_bind, rule m, rule assms(3))
qed

theorem save_mono_goes:
  assumes "hash_ok (se_blake3 env)" "saved_ledger (se_blake3 env) s L" "can_save s L"
  shows "\<exists>s'. goes (\<lambda>t. opens_to (se_blake3 env) L (gs_disk t) \<or> opens_to (se_blake3 env) (gs_index s') (gs_disk t)) (save_index env) s () s'
    \<and> saved_ledger (se_blake3 env) s' (gs_index s') \<and> after_save s s'"
proof -
  let ?b = "se_blake3 env" and ?g = "ix_generation (gs_index s) + 1"
  let ?dc = "gs_dirty_chunks s" and ?da = "gs_dirty_assets s"
  let ?snapshot = "bind_run (memory (\<lambda>s. s\<lparr>gs_index := (gs_index s)\<lparr>ix_generation := ?g\<rparr>\<rparr>)) (\<lambda>_. write_snapshot ?b)"
  have c: "differs_at ?dc ?da (gs_pending s) (gs_index s) L" "ledger_sized (gs_index s) (gs_pending s)"
    "marks_fit (gs_index s) ?dc ?da (gs_pending s)" "unat (journal_budget s) < 2 ^ 32" "unat (ix_generation L) + 3 < 2 ^ 64"
    using assms(3) by (simp_all only: can_save_def)
  have gl: "ix_generation (gs_index s) = ix_generation L" using c(1) by (simp add: differs_at_def)
  have lt: "ix_generation L < ?g" "roomy ?g" using c(5) by (simp_all add: gl word_less_nat_alt unat_word_ariths roomy_def)
  let ?s1 = "s\<lparr>gs_dirty_chunks := [], gs_dirty_assets := []\<rparr>"
  have s1: "saved_ledger ?b ?s1 L" by (rule saved_ledger_cong [OF assms(2)]) simp_all
  have recs: "bt_ok (ix_records (gs_index ?s1))" using c(1) by (simp add: differs_at_def)
  have rd: "gs_seg s = None" "\<not> gs_read_only s" using assms(2) by (simp_all add: saved_ledger_def)
  have snap: "?snapshot = bind_run (memory (set_generation ?g)) (\<lambda>_. write_snapshot ?b)"
    by (rule arg_cong [where f = "\<lambda>f. bind_run (memory f) (\<lambda>_. write_snapshot ?b)"]) (simp add: fun_eq_iff set_generation_def)
  show ?thesis
  proof (cases "gs_snapshot_bytes s = 0")
    case True
    have z1: "ledger_sized (gs_index ?s1) (gs_pending ?s1)" using c(2) by simp
    from snapshot_save [OF assms(1) s1 z1 recs lt(2) less_imp_le [OF lt(1)]] obtain s' R d' sb where
      sn: "goes (\<lambda>t. opens_to ?b L (gs_disk t) \<or> opens_to ?b (gs_index s') (gs_disk t))
          (bind_run (memory (set_generation ?g)) (\<lambda>_. write_snapshot ?b)) ?s1 () s'"
        "saved_ledger ?b s' (gs_index s')" "changed_at save_paths (gs_disk ?s1) d'"
        "s' = ?s1\<lparr>gs_disk := d', gs_index := (gs_index ?s1)\<lparr>ix_records := R, ix_generation := ?g\<rparr>, gs_pending := [],
           gs_snapshot_bytes := sb, gs_journal_bytes := 0\<rparr>"
        "bt_ok R" "refs_ok R" "fst ` set R \<subseteq> fst ` set (ix_records (gs_index ?s1)) \<union> fst ` set (gs_pending ?s1)" by blast
    have a4: "goes P (ask (\<lambda>s. Inr (gs_snapshot_bytes s))) ?s1 0 ?s1" for P by (rule goes_ask) (simp add: True)
    have "goes (\<lambda>t. opens_to ?b L (gs_disk t) \<or> opens_to ?b (gs_index s') (gs_disk t)) (save_monolithic ?b ?g ?dc ?da) ?s1 () s'"
      unfolding save_monolithic_def Let_def
      by (rule goes_bind, rule a4, simp only: simp_thms if_True, rule sn(1) [unfolded snap [symmetric]])
    then have run: "goes (\<lambda>t. opens_to ?b L (gs_disk t) \<or> opens_to ?b (gs_index s') (gs_disk t)) (save_index env) s () s'"
      by (rule save_index_mono [OF rd])
    have "after_save s s'"
      unfolding after_save_def
      by (intro exI [of _ R] exI [of _ d'] exI [of _ sb] exI [of _ 0]) (use sn(3-7) in simp)
    then show ?thesis using run sn(2) by blast
  next
    case snapshotted: False
  obtain R d2 p where st: "touches record_paths (staged_records ?b (gs_pending ?s1)) ?s1 () (set_records R (?s1\<lparr>gs_disk := d2, gs_pending := p\<rparr>))"
    and stf: "staged_from ?s1 R p" using staged_records_touches [OF assms(1) recs] by blast
  let ?s2 = "set_records R (?s1\<lparr>gs_disk := d2, gs_pending := p\<rparr>)"
  have f2: "gs_index ?s2 = (gs_index s)\<lparr>ix_records := R\<rparr>" "gs_pending ?s2 = p" "gs_disk ?s2 = d2" by (simp_all add: set_records_def)
  have from': "staged_from s R p" using stf staged_from_cong [of ?s1 s] by simp
  note k2 = staged_keeps [OF from' c(1-3)]
  have c2: "changed_at record_paths (gs_disk s) d2" using st by (simp add: touches_def set_records_def)
  have s2: "saved_ledger ?b ?s2 L" by (rule saved_ledger_records [OF assms(2)]) (use c2 in \<open>simp_all add: set_records_def\<close>)
  have sb2: "gs_snapshot_bytes ?s2 \<noteq> 0" using snapshotted by (simp add: set_records_def)
  then obtain bs snap rs where live: "live_ledger ?b d2 bs snap rs [] L" "gs_snapshot_bytes ?s2 = of_nat (length bs)"
    "unat (gs_journal_bytes ?s2) = length (log_bytes rs)" and q2: "no_segments d2" "quarantine_ok d2"
    using s2 f2(3) by (auto simp: saved_ledger_def)
  have budget: "journal_budget ?s2 = journal_budget s" by (cases "gs_journal_budget s") (simp_all add: journal_budget_def set_records_def)
  have refs: "refs_ok R" "bt_ok R" using k2(1,2) by (simp_all add: ledger_sized_def differs_at_def)
  have same: "(gs_index s)\<lparr>ix_records := R\<rparr>\<lparr>ix_records := R\<rparr> = (gs_index s)\<lparr>ix_records := R\<rparr>" by simp
  have jf: "journal_fits (gs_index ?s2) ?dc ?da p"
    using fits_journal [OF k2(2,3) refs(1)] by (simp only: f2 same)
  obtain rec inline where enc: "encode_journal_record ?b (gs_index ?s2) ?g ?dc ?da p = Inr (rec, inline)"
    using encode_journal_parts [OF jf, of ?b ?g] by blast
  let ?fits = "unat (gs_journal_bytes ?s2) + length rec \<le> unat (journal_budget ?s2)"
  have op0: "opens_to ?b L (gs_disk s)" by (rule saved_opens [OF assms(2)])
  have pre: "goes P (save_index env) s () s'"
    if P: "\<And>t. opens_to ?b L (gs_disk t) \<Longrightarrow> P t"
      and fin: "goes P (if ?fits then
        bind_run (append_journal rec) (\<lambda>_.
        memory (\<lambda>s. set_records (bt_build (locate_inline (gs_journal_bytes s) inline) (ix_records (gs_index s)))
          (s\<lparr>gs_index := (gs_index s)\<lparr>ix_generation := ?g\<rparr>, gs_pending := [],
             gs_journal_bytes := gs_journal_bytes s + of_nat (length rec)\<rparr>)))
      else ?snapshot) ?s2 () s'" for P s'
  proof -
    have stg: "goes P (staged_records ?b (gs_pending ?s1)) ?s1 () ?s2"
    proof -
      have "goes (\<lambda>t. opens_to ?b L (gs_disk t)) (staged_records ?b (gs_pending ?s1)) ?s1 () ?s2"
      proof (rule touches_goes [OF st])
        fix d assume "changed_at record_paths (gs_disk ?s1) d"
        then show "opens_to ?b L d" using opens_changed [OF op0, of record_paths d] by (auto simp: record_paths_def)
      qed
      then show ?thesis by (rule goes_mono) (rule P)
    qed
    have a4: "goes P (ask (\<lambda>s. Inr (gs_snapshot_bytes s))) ?s1 (gs_snapshot_bytes ?s1) ?s1" by (rule goes_ask) simp
    have sb1: "gs_snapshot_bytes ?s1 \<noteq> 0" using snapshotted by simp
    have a5: "goes P (ask (\<lambda>s. Inr (gs_pending s))) ?s1 (gs_pending ?s1) ?s1" by (rule goes_ask) simp
    have a6: "goes P (ask (\<lambda>s. encode_journal_record ?b (gs_index s) ?g ?dc ?da (gs_pending s))) ?s2 (rec, inline) ?s2"
      by (rule goes_ask) (simp only: f2(2) enc)
    have a7: "goes P (ask (\<lambda>s. Inr (unat (gs_journal_bytes s) + length rec \<le> unat (journal_budget s)))) ?s2 ?fits ?s2"
      by (rule goes_ask) simp
    have "goes P (save_monolithic ?b ?g ?dc ?da) ?s1 () s'"
      unfolding save_monolithic_def Let_def
      by (rule goes_bind, rule a4, simp only: sb1 if_False, rule goes_bind, rule a5,
          simp only: staged_records_def [symmetric], rule goes_bind, rule stg, rule goes_bind, rule a6, simp only: prod.case,
          rule goes_bind, rule a7, rule fin)
    then show ?thesis by (rule save_index_mono [OF rd])
  qed
  show ?thesis
  proof (cases ?fits)
    case True
    have small: "length rec < 2 ^ 32" "length (log_bytes rs) + length rec < 2 ^ 64"
      using True c(4) live(3) by (simp_all add: budget)
    let ?n = "length (log_bytes rs)"
    have at: "of_nat ?n = gs_journal_bytes ?s2" by (simp flip: live(3))
    have diff2: "differs_at ?dc ?da p (gs_index ?s2) L" using k2(1) by (simp only: f2)
    have g2: "?g = ix_generation L + 1" by (simp only: gl)
    note step = journal_step [OF assms(1) diff2 jf g2 enc small(1)]
    have st1: "sealed_record ?b rec ?g" "apply_log LiveLog ?n [(rec, ?g)] L = Some (ledger_after (gs_index ?s2) ?g (gs_journal_bytes ?s2) inline)"
      using step(1) step(2) [of ?n] unfolding at .
    let ?L = "ledger_after (gs_index ?s2) ?g (gs_journal_bytes ?s2) inline"
    let ?d3 = "set_path (LogFile LiveLog) (log_file d2 LiveLog @ rec) d2"
    have gL: "ix_generation ?L = ?g" by (simp add: ledger_after_def)
    have live3: "live_ledger ?b ?d3 bs snap (rs @ [(rec, ?g)]) [] ?L"
      by (rule longer_log [OF live(1) st1(1) _ gL st1(2) small(2)]) (use lt(1) in simp)
    have q: "no_segments (set_path (LogFile LiveLog) x d2) \<and> quarantine_ok (set_path (LogFile LiveLog) x d2)" for x
      using q2 by (auto simp: no_segments_def quarantine_ok_def)
    let ?P = "\<lambda>d. opens_to ?b L d \<or> opens_to ?b ?L d"
    have pk: "?P (set_path (LogFile LiveLog) (log_file d2 LiveLog @ take k rec) d2)" if "k \<le> length rec" for k
    proof (cases "k = length rec")
      case True
      then show ?thesis using live3 q by (auto simp: opens_to_def opens_live_def)
    next
      case False
      then have "k < length rec" using that by simp
      from torn_log [OF live(1) st1(1) this] show ?thesis using q by (auto simp: opens_to_def opens_live_def)
    qed
    have app: "goes (\<lambda>t. ?P (gs_disk t)) (append_journal rec) ?s2 () (?s2\<lparr>gs_disk := ?d3\<rparr>)"
      unfolding append_journal_def
      using append_goes [where bs = rec and P = ?P and s = ?s2 and p = "LogFile LiveLog"] pk by (simp add: f2(3) log_file_def)
    let ?s3 = "set_records (bt_build (locate_inline (gs_journal_bytes ?s2) inline) R)
          (?s2\<lparr>gs_disk := ?d3, gs_index := (gs_index ?s2)\<lparr>ix_generation := ?g\<rparr>, gs_pending := [],
             gs_journal_bytes := gs_journal_bytes ?s2 + of_nat (length rec)\<rparr>)"
    have mem: "goes (\<lambda>t. ?P (gs_disk t)) (memory (\<lambda>s. set_records (bt_build (locate_inline (gs_journal_bytes s) inline) (ix_records (gs_index s)))
          (s\<lparr>gs_index := (gs_index s)\<lparr>ix_generation := ?g\<rparr>, gs_pending := [],
             gs_journal_bytes := gs_journal_bytes s + of_nat (length rec)\<rparr>))) (?s2\<lparr>gs_disk := ?d3\<rparr>) () ?s3"
      by (simp add: goes_def memory_def set_records_def)
    have i3: "gs_index ?s3 = ?L" by (simp add: set_records_def ledger_after_def f2(1))
    have run: "goes (\<lambda>t. ?P (gs_disk t)) (save_index env) s () ?s3"
    proof (rule pre)
      fix t show "opens_to ?b L (gs_disk t) \<Longrightarrow> ?P (gs_disk t)" by blast
    qed (simp only: True if_True, rule goes_bind, rule app, rule mem)
    have jb: "unat (gs_journal_bytes ?s2 + of_nat (length rec)) = length (log_bytes (rs @ [(rec, ?g)]))"
    proof -
      have "unat (of_nat (length rec) :: u64) = length rec" using small(1) by (simp add: unsigned_of_nat take_bit_nat_eq_self)
      then show ?thesis using live(3) small(2) by (simp add: unat_word_ariths)
    qed
    have "saved_ledger ?b ?s3 (gs_index ?s3)"
      unfolding i3 by (rule saved_liveI [where bs = bs and snap = snap and rs = "rs @ [(rec, ?g)]"])
        (use rd q live3 live(2) jb in \<open>simp_all add: set_records_def\<close>)
    moreover have "after_save s ?s3"
      unfolding after_save_def
    proof (intro exI conjI)
      show "?s3 = s\<lparr>gs_disk := ?d3, gs_index := (gs_index s)\<lparr>ix_records := bt_build (locate_inline (gs_journal_bytes ?s2) inline) R, ix_generation := ?g\<rparr>,
        gs_pending := [], gs_dirty_chunks := [], gs_dirty_assets := [], gs_snapshot_bytes := gs_snapshot_bytes s,
        gs_journal_bytes := gs_journal_bytes ?s2 + of_nat (length rec)\<rparr>" by (simp add: set_records_def)
      show "changed_at save_paths (gs_disk s) ?d3"
        using changed_trans [OF changed_mono [OF c2 record_paths_save] changed_set [of "LogFile LiveLog" save_paths]]
        by (simp add: save_paths_def)
      show "bt_ok (bt_build (locate_inline (gs_journal_bytes ?s2) inline) R)" by (rule bt_ok_build [OF refs(2)])
      show "refs_ok (bt_build (locate_inline (gs_journal_bytes ?s2) inline) R)" by (rule refs_ok_locate [OF refs(1)])
      have db: "bt_ok (ix_chunks L)" "bt_ok (ix_assets L)" "bt_ok (ix_records L)" using c(1) by (simp_all add: differs_at_def)
      have "fst ` set inline \<subseteq> fst ` set p"
        using journal_record_ok(2) [OF assms(1) jf db enc small(1)] by (auto simp: map_of_eq_None_iff)
      then show "fst ` set (bt_build (locate_inline (gs_journal_bytes ?s2) inline) R)
          \<subseteq> fst ` set (ix_records (gs_index s)) \<union> fst ` set (gs_pending s)"
        using k2(4) by (simp only: keys_locate) blast
    qed
    ultimately show ?thesis using run i3 by (intro exI [of _ ?s3]) simp
  next
    case False
    have z2: "ledger_sized (gs_index ?s2) (gs_pending ?s2)" using k2(2) by (simp only: f2)
    have b2: "bt_ok (ix_records (gs_index ?s2))" using refs by (simp add: f2)
    from snapshot_save [OF assms(1) s2 z2 b2 lt(2) less_imp_le [OF lt(1)]] obtain s' R' d' sb where
      sn: "goes (\<lambda>t. opens_to ?b L (gs_disk t) \<or> opens_to ?b (gs_index s') (gs_disk t))
          (bind_run (memory (set_generation ?g)) (\<lambda>_. write_snapshot ?b)) ?s2 () s'"
        "saved_ledger ?b s' (gs_index s')" "changed_at save_paths (gs_disk ?s2) d'"
        "s' = ?s2\<lparr>gs_disk := d', gs_index := (gs_index ?s2)\<lparr>ix_records := R', ix_generation := ?g\<rparr>, gs_pending := [],
           gs_snapshot_bytes := sb, gs_journal_bytes := 0\<rparr>"
        "bt_ok R'" "refs_ok R'" "fst ` set R' \<subseteq> fst ` set (ix_records (gs_index ?s2)) \<union> fst ` set (gs_pending ?s2)" by blast
    have run: "goes (\<lambda>t. opens_to ?b L (gs_disk t) \<or> opens_to ?b (gs_index s') (gs_disk t)) (save_index env) s () s'"
    proof (rule pre)
      fix t show "opens_to ?b L (gs_disk t) \<Longrightarrow> opens_to ?b L (gs_disk t) \<or> opens_to ?b (gs_index s') (gs_disk t)" by blast
    qed (simp only: False if_False, rule sn(1) [unfolded snap [symmetric]])
    have "after_save s s'"
      unfolding after_save_def
    proof (intro exI conjI)
      show "s' = s\<lparr>gs_disk := d', gs_index := (gs_index s)\<lparr>ix_records := R', ix_generation := ?g\<rparr>,
        gs_pending := [], gs_dirty_chunks := [], gs_dirty_assets := [], gs_snapshot_bytes := sb, gs_journal_bytes := 0\<rparr>"
        by (simp add: sn(4) set_records_def)
      show "changed_at save_paths (gs_disk s) d'"
        using changed_trans [OF changed_mono [OF c2 record_paths_save]] sn(3) by (simp add: set_records_def)
      show "bt_ok R'" "refs_ok R'" by (rule sn(5), rule sn(6))
      have "fst ` set R' \<subseteq> fst ` set R \<union> fst ` set p" using sn(7) by (simp add: set_records_def)
      then show "fst ` set R' \<subseteq> fst ` set (ix_records (gs_index s)) \<union> fst ` set (gs_pending s)"
        using k2(4) by (rule subset_trans)
    qed
    then show ?thesis using run sn(2) by blast
  qed
  qed
qed

end
