(* ===== verification/Ledger_Types.thy ===== *)
theory Ledger_Types
  imports Ledger_Atomic
begin

text \<open>
  Whatever the files of a store hold, the ledger read from them is well formed: its maps are in
  order, and chunks go by the hexadecimal form of a 32-byte digest.
\<close>

section \<open>Well-formed ledgers\<close>

definition assets_typed :: "asset_table \<Rightarrow> bool" where
  "assets_typed as \<longleftrightarrow> bt_ok as \<and> (\<forall>(name, hexes) \<in> set as. \<forall>hex \<in> set hexes. hex_of_hash hex)"

definition chunks_typed :: "(string \<times> chunk_info) list \<Rightarrow> bool" where
  "chunks_typed cs \<longleftrightarrow> bt_ok cs \<and> (\<forall>(hex, info) \<in> set cs. hex_of_hash hex)"

definition ledger_typed :: "store_index \<Rightarrow> bool" where
  "ledger_typed ix \<longleftrightarrow> chunks_typed (ix_chunks ix) \<and> assets_typed (ix_assets ix) \<and> bt_ok (ix_records ix)"

lemma chunks_typed_insert: "chunks_typed cs \<Longrightarrow> hex_of_hash hex \<Longrightarrow> chunks_typed (bt_insert hex info cs)"
  using set_insert_subset [of hex info cs] by (auto simp: chunks_typed_def)

lemma assets_typed_insert:
  "assets_typed as \<Longrightarrow> \<forall>hex \<in> set hexes. hex_of_hash hex \<Longrightarrow> assets_typed (bt_insert name hexes as)"
  using set_insert_subset [of name hexes as] by (fastforce simp: assets_typed_def)

lemma chunks_typed_remove: "chunks_typed cs \<Longrightarrow> chunks_typed (bt_remove hex cs)"
  by (auto simp: chunks_typed_def set_remove)

lemma assets_typed_remove: "assets_typed as \<Longrightarrow> assets_typed (bt_remove name as)"
  by (auto simp: assets_typed_def set_remove)

lemmas typed_intros = chunks_typed_insert chunks_typed_remove assets_typed_insert assets_typed_remove

lemma chunks_typed_build:
  "\<forall>(hex, info) \<in> set xs. hex_of_hash hex \<Longrightarrow> chunks_typed cs \<Longrightarrow> chunks_typed (bt_build xs cs)"
  by (induction xs cs rule: bt_build.induct) (auto intro: chunks_typed_insert)

lemma assets_typed_build:
  "\<forall>(name, hexes) \<in> set xs. \<forall>hex \<in> set hexes. hex_of_hash hex \<Longrightarrow> assets_typed as \<Longrightarrow> assets_typed (bt_build xs as)"
  by (induction xs as rule: bt_build.induct) (auto intro: assets_typed_insert)

section \<open>What the parsers give\<close>

lemma decode_n_all:
  assumes "\<And>input x rest. dec input = Inr (x, rest) \<Longrightarrow> P x" "decode_n dec n input = Inr (xs, rest)"
  shows "\<forall>x \<in> set xs. P x"
  using assms(2) by (induction n arbitrary: input xs) (auto simp: rbind_eq_Inr dest: assms(1))

lemma hex_of_take [simp]: "32 \<le> length input \<Longrightarrow> hex_of_hash (to_hex (take 32 input))"
  unfolding hex_of_hash_def by (rule exI [of _ "take 32 input"]) simp

lemma take_hex_typed: "take_hex input = Inr (hex, rest) \<Longrightarrow> hex_of_hash hex"
  by (auto simp: take_hex_def take_bytes_def rbind_eq_Inr split: if_splits)

lemma hexes_typed: "decode_n take_hex n input = Inr (hexes, rest) \<Longrightarrow> \<forall>hex \<in> set hexes. hex_of_hash hex"
  by (rule decode_n_all [where dec = take_hex, OF take_hex_typed])

lemma take_chunk_entry_typed: "take_chunk_entry width none packs input = Inr (entry, rest) \<Longrightarrow> hex_of_hash (fst entry)"
  unfolding take_chunk_entry_def by (auto simp: take_bytes_def rbind_eq_Inr Let_def split: if_splits)

lemma take_index_asset_typed:
  "take_index_asset version input = Inr (a, rest) \<Longrightarrow> \<forall>hex \<in> set (fst (snd a)). hex_of_hash hex"
  unfolding take_index_asset_def rbind_eq_Inr
  by (auto simp: rbind_eq_Inr split: if_splits dest: hexes_typed)

lemma decode_body_typed:
  assumes "decode_index_body body = Inr (ix, version)"
  shows "ledger_typed ix"
proof -
  obtain packs n input chunks input2 ver k input3 as rest l g where
    c: "decode_n (take_chunk_entry 4 (- 1 :: u32) packs) n input = Inr (chunks, input2)"
    and a: "decode_n (take_index_asset ver) k input3 = Inr (as, rest)"
    and ix: "ix = \<lparr>ix_chunks = bt_build chunks [], ix_assets = bt_build (map (\<lambda>(name, hexes, _). (name, hexes)) as) [],
             ix_records = bt_build (record_refs as) [], ix_layout = l, ix_generation = g\<rparr>"
    using assms unfolding decode_index_body_def by (auto simp: rbind_eq_Inr split: if_splits)
  have "\<forall>x \<in> set chunks. hex_of_hash (fst x)" by (rule decode_n_all [OF take_chunk_entry_typed c])
  then have "chunks_typed (bt_build chunks [])" by (intro chunks_typed_build) (auto simp: chunks_typed_def)
  moreover have "\<forall>x \<in> set as. \<forall>hex \<in> set (fst (snd x)). hex_of_hash hex" by (rule decode_n_all [OF take_index_asset_typed a])
  then have "assets_typed (bt_build (map (\<lambda>(name, hexes, _). (name, hexes)) as) [])"
    by (intro assets_typed_build) (fastforce simp: assets_typed_def)+
  ultimately show ?thesis by (simp add: ledger_typed_def ix bt_ok_build)
qed

lemma decode_typed: "decode_index_versioned blake3 bs = Inr (ix, version) \<Longrightarrow> ledger_typed ix"
  by (auto simp: decode_index_versioned_def split: if_splits dest: decode_body_typed)

section \<open>What a replay keeps\<close>

text \<open>Updates that keep the ledger well formed, whether or not they succeed.\<close>

definition keeps_typed :: "'a upd \<Rightarrow> bool" where
  "keeps_typed m \<longleftrightarrow> (\<forall>ix. ledger_typed ix \<longrightarrow> ledger_typed (snd (m ix)))"

lemma keeps_return [simp]: "keeps_typed (ureturn r)"
  by (simp add: keeps_typed_def ureturn_def)

lemma keeps_modify: "(\<And>ix. ledger_typed ix \<Longrightarrow> ledger_typed (f ix)) \<Longrightarrow> keeps_typed (umodify f)"
  by (simp add: keeps_typed_def umodify_def)

lemma keeps_bind:
  assumes "keeps_typed m" "\<And>x ix ix'. m ix = (Inr x, ix') \<Longrightarrow> keeps_typed (f x)"
  shows "keeps_typed (ubind m f)"
  unfolding keeps_typed_def
proof (intro allI impI)
  fix ix assume t: "ledger_typed ix"
  obtain r ix' where m: "m ix = (r, ix')" by fastforce
  then have t': "ledger_typed ix'" using assms(1) t by (metis keeps_typed_def snd_conv)
  show "ledger_typed (snd (ubind m f ix))"
  proof (cases r)
    case (Inr x)
    then show ?thesis using assms(2) [of ix x ix'] m t' by (simp add: ubind_def keeps_typed_def)
  qed (use m t' in \<open>simp add: ubind_def\<close>)
qed

lemma keeps_read:
  assumes "\<And>x. r = Inr x \<Longrightarrow> keeps_typed (f x)"
  shows "keeps_typed (ubind (ureturn r) f)"
  by (rule keeps_bind) (auto simp: ureturn_def intro: assms)

lemma keeps_upserts: "keeps_typed (apply_upserts n packs input)"
proof (induction n arbitrary: input)
  case (Suc n)
  have "keeps_typed (umodify (\<lambda>ix. ix\<lparr>ix_chunks := bt_insert hex info (ix_chunks ix)\<rparr>))" if "hex_of_hash hex" for hex info
    using that by (intro keeps_modify) (simp add: ledger_typed_def chunks_typed_insert)
  then show ?case using Suc
    by (auto intro!: keeps_read keeps_bind dest!: take_chunk_entry_typed)
qed simp

lemma keeps_removals: "keeps_typed (apply_removals n input)"
proof (induction n arbitrary: input)
  case (Suc n)
  have "keeps_typed (umodify (\<lambda>ix. ix\<lparr>ix_chunks := bt_remove hex (ix_chunks ix)\<rparr>))" for hex
    by (intro keeps_modify) (simp add: ledger_typed_def chunks_typed_remove)
  then show ?case using Suc by (auto intro!: keeps_read keeps_bind)
qed simp

lemma keeps_record_ref: "keeps_typed (apply_record_ref f at name input)"
proof -
  have "keeps_typed (umodify (\<lambda>ix. case map_of (ix_records ix) name of
            Some (InJournal _ _ _) \<Rightarrow> ix | _ \<Rightarrow> ix\<lparr>ix_records := bt_remove name (ix_records ix)\<rparr>))"
    by (intro keeps_modify) (auto simp: ledger_typed_def split: option.split record_ref.split)
  moreover have "keeps_typed (umodify (\<lambda>ix. ix\<lparr>ix_records := bt_insert name r (ix_records ix)\<rparr>))" for r
    by (intro keeps_modify) (simp add: ledger_typed_def)
  ultimately show ?thesis unfolding apply_record_ref_def Let_def
    by (auto intro!: keeps_read keeps_bind)
qed

lemma keeps_asset_puts: "keeps_typed (apply_asset_puts f at n input)"
proof (induction n arbitrary: input)
  case (Suc n)
  have put: "keeps_typed (umodify (\<lambda>ix. ix\<lparr>ix_assets := bt_insert name hexes (ix_assets ix)\<rparr>))"
    if "\<forall>hex \<in> set hexes. hex_of_hash hex" for name hexes
    using that by (intro keeps_modify) (simp add: ledger_typed_def assets_typed_insert)
  then show ?case using Suc keeps_record_ref
    by (auto intro!: keeps_read keeps_bind put dest: bspec [OF hexes_typed])
qed simp

lemma keeps_asset_dels: "keeps_typed (apply_asset_dels n input)"
proof (induction n arbitrary: input)
  case (Suc n)
  have "keeps_typed (umodify (\<lambda>ix. ix\<lparr>ix_assets := bt_remove name (ix_assets ix), ix_records := bt_remove name (ix_records ix)\<rparr>))" for name
    by (intro keeps_modify) (simp add: ledger_typed_def assets_typed_remove)
  then show ?case using Suc by (auto intro!: keeps_read keeps_bind)
qed simp

lemma keeps_journal_record: "keeps_typed (apply_journal_record body f base)"
  unfolding apply_journal_record_def
  by (auto intro!: keeps_read keeps_bind keeps_upserts keeps_removals keeps_asset_puts keeps_asset_dels)

lemma replay_typed:
  assumes "ledger_typed ix"
  shows "ledger_typed (snd (replay_records blake3 f bs at ix))"
  using assms
proof (induction blake3 f bs at ix rule: replay_records.induct)
  case (1 blake3 f bs at ix)
  show ?case
  proof (cases "next_journal_record blake3 (drop at bs)")
    case None
    then show ?thesis using 1(3) by (subst replay_records.simps) simp
  next
    case (Some rg)
    obtain rec g where rg: "rg = (rec, g)" by fastforce
    let ?apply = "apply_journal_record (drop journal_header_size (take (length rec - journal_seal_size) rec))
                    f (of_nat at + of_nat journal_header_size)"
    obtain r ix1 where a: "?apply ix = (r, ix1)" by fastforce
    have t: "ledger_typed ix1" using keeps_journal_record 1(3) a by (metis keeps_typed_def snd_conv)
    have t': "ledger_typed (ix1\<lparr>ix_generation := g\<rparr>)" using t by (simp add: ledger_typed_def)
    show ?thesis
    proof (cases "g = ix_generation ix + 1")
      case True
      have "ledger_typed (snd (replay_records blake3 f bs (at + length rec) (ix1\<lparr>ix_generation := g\<rparr>)))" if "r = Inr u" for u
        using 1(1) [OF Some rg [symmetric] True a [symmetric] that t'] .
      then show ?thesis using Some rg True a t
        by (subst replay_records.simps) (cases r; simp)
    next
      case False
      then show ?thesis using Some rg 1(2) [OF Some rg [symmetric] False] 1(3)
        by (subst replay_records.simps) simp
    qed
  qed
qed

section \<open>What an open gives\<close>

text \<open>Runs that change nothing of the handle but its directory.\<close>

definition beyond_disk :: "'a store_run \<Rightarrow> bool" where
  "beyond_disk m \<longleftrightarrow> (\<forall>s r s' tr. m s = (r, s', tr) \<longrightarrow> gs_index s' = gs_index s \<and> gs_seg s' = gs_seg s)"

lemma bind_done: "bind_run m k s = (Inr y, s', tr) \<Longrightarrow> \<exists>x s1 tr1 tr2. m s = (Inr x, s1, tr1) \<and> k x s1 = (Inr y, s', tr2)"
  by (auto simp: bind_run_def split: prod.splits sum.splits)

lemma beyond_bind:
  assumes "beyond_disk m" "\<And>x. beyond_disk (k x)"
  shows "beyond_disk (bind_run m k)"
  unfolding beyond_disk_def
proof (intro allI impI)
  fix s r s' tr assume b: "bind_run m k s = (r, s', tr)"
  obtain r1 s1 tr1 where m: "m s = (r1, s1, tr1)" by (cases "m s")
  have k1: "gs_index s1 = gs_index s \<and> gs_seg s1 = gs_seg s" using assms(1) m by (simp add: beyond_disk_def)
  show "gs_index s' = gs_index s \<and> gs_seg s' = gs_seg s"
  proof (cases r1)
    case (Inr x)
    then obtain tr2 where "k x s1 = (r, s', tr2)" using b m by (auto simp: bind_run_def split: prod.splits)
    then show ?thesis using assms(2) [of x] k1 by (fastforce simp: beyond_disk_def)
  qed (use b m k1 in \<open>simp add: bind_run_def\<close>)
qed

lemma beyond_steps [simp]:
  "beyond_disk (ask f)" "beyond_disk (ret x)" "beyond_disk (fail e)" "beyond_disk (on_disk g)" "beyond_disk (remove_path p)"
  by (auto simp: beyond_disk_def ask_def ret_def fail_def on_disk_def act_def remove_path_def)

lemma beyond_paths [simp]: "beyond_disk (write_path p bs)" "beyond_disk (rename_path a b)"
  by (auto simp: write_path_def rename_path_def intro!: beyond_bind split: option.split)

lemma beyond_each: "(\<And>x. beyond_disk (f x)) \<Longrightarrow> beyond_disk (for_each f xs)"
  by (induction xs) (auto intro: beyond_bind)

lemma beyond_restore: "beyond_disk restore_quarantined_packs"
proof -
  have "beyond_disk (restore_pack_from_quarantine hex)" for hex
    unfolding restore_pack_from_quarantine_def by (auto intro!: beyond_bind)
  then show ?thesis unfolding restore_quarantined_packs_def by (auto intro!: beyond_bind beyond_each)
qed

lemma beyond_sweep: "beyond_disk sweep_part_packs"
  unfolding sweep_part_packs_def by (auto intro!: beyond_bind beyond_each)

lemma load_typed:
  assumes "\<And>bs ix. json bs = Some ix \<Longrightarrow> ledger_typed ix" "load_ledger blake3 json d = Inr (Some (ix, source))"
  shows "ledger_typed ix"
  using assms by (auto simp: load_ledger_def Let_def decode_index_def rbind_eq_Inr ok_or_eq_Inr
      split: option.splits sum.splits if_splits dest: decode_typed)

lemma journal_typed: "ledger_typed ix \<Longrightarrow> ledger_typed (snd (replay_journal blake3 f content ix))"
  using replay_typed by (auto simp: replay_journal_def replay_journal_from_def split: option.splits prod.splits)
    (metis snd_conv)

lemma bt_ok_filter: "bt_ok m \<Longrightarrow> bt_ok (filter P m)"
  by (induction m) auto

lemma recover_typed:
  assumes "\<And>ix source. found = Some (ix, source) \<Longrightarrow> ledger_typed ix"
    and "recover_ledger blake3 layout ro found s = (Inr (ix, n), s', tr)"
  shows "ledger_typed ix"
proof -
  have e: "ledger_typed (empty_index layout)" by (simp add: empty_index_def ledger_typed_def chunks_typed_def assets_typed_def)
  have k: "ledger_typed i \<Longrightarrow> ledger_typed (keep_packed i)" for i
    by (auto simp: ledger_typed_def keep_packed_def intro: bt_ok_filter)
  show ?thesis
  proof (cases found)
    case None
    then show ?thesis using assms(2) e
      by (auto simp: recover_ledger_def Let_def ret_def split: if_splits dest!: bind_done)
  next
    case (Some fs)
    then obtain i source where f: "found = Some (i, source)" by (cases fs) auto
    show ?thesis using assms(2) assms(1) [OF f] k [of i] journal_typed
      by (cases source) (auto simp: f recover_ledger_def ret_def ask_def split: if_splits dest!: bind_done)
  qed
qed

lemma recover_beyond: "beyond_disk (recover_ledger blake3 layout ro found)"
  unfolding recover_ledger_def Let_def
  by (auto intro!: beyond_bind split: option.split ledger_source.split prod.split)

lemma replayed_typed:
  assumes "ledger_typed ix"
    and "(if c then bind_run (ask (\<lambda>s. Inr (replay_journal blake3 f (g s) ix))) (\<lambda>((t, n), index).
            bind_run (m t n) (\<lambda>_. ret (index, of_nat t))) else ret (ix, 0)) s = (Inr (index, at :: u64), s', tr)"
  shows "ledger_typed index"
  using assms journal_typed by (auto simp: ask_def ret_def split: if_splits prod.splits dest!: bind_done) (metis snd_conv)

text \<open>What holds of a run's result when it succeeds.\<close>

definition yields :: "(global_store \<Rightarrow> bool) \<Rightarrow> 'a store_run \<Rightarrow> ('a \<Rightarrow> global_store \<Rightarrow> bool) \<Rightarrow> bool" where
  "yields P m Q \<longleftrightarrow> (\<forall>s x s' tr. P s \<longrightarrow> m s = (Inr x, s', tr) \<longrightarrow> Q x s')"

lemma yields_bind:
  assumes "yields P m Q" "\<And>x. yields (Q x) (k x) R"
  shows "yields P (bind_run m k) R"
  using assms bind_done unfolding yields_def by metis

lemma yields_any: "yields P m (\<lambda>_ _. True)"
  by (simp add: yields_def)

lemma yields_fail: "yields P (fail e) Q"
  by (simp add: yields_def fail_def)

lemma yields_if: "yields P m Q \<Longrightarrow> yields P m' Q \<Longrightarrow> yields P (if b then m else m') Q"
  by simp

lemma yields_beyond: "beyond_disk m \<Longrightarrow> (\<And>s. P s \<longleftrightarrow> Q (gs_index s)) \<Longrightarrow> yields P m (\<lambda>_. P)"
  by (simp add: yields_def beyond_disk_def)

theorem open_monolithic_typed:
  assumes "\<And>bs ix. json_index env bs = Some ix \<Longrightarrow> ledger_typed ix"
  shows "yields P (open_monolithic env layout ro) (\<lambda>_ s. ledger_typed (gs_index s))"
proof -
  let ?T = "\<lambda>index s. ledger_typed index"
  have load: "yields P (ask (\<lambda>s. load_ledger (se_blake3 env) (json_index env) (gs_disk s)))
      (\<lambda>found _. \<forall>ix source. found = Some (ix, source) \<longrightarrow> ledger_typed ix)" for P
    using load_typed [OF assms] by (auto simp: yields_def ask_def)
  have recover: "yields (\<lambda>_. \<forall>ix source. found = Some (ix, source) \<longrightarrow> ledger_typed ix)
      (recover_ledger (se_blake3 env) layout ro found) (\<lambda>(ix, n). ?T ix)" for found
    using recover_typed by (fastforce simp: yields_def)
  have journal: "yields (?T ix) (if c then bind_run (ask (\<lambda>s. Inr (replay_journal (se_blake3 env) f (g s) ix))) (\<lambda>((t, n), index).
            bind_run (m t n) (\<lambda>_. ret (index, of_nat t))) else ret (ix, 0)) (\<lambda>(ix, n :: u64). ?T ix)" for ix c f g m
    using replayed_typed by (fastforce simp: yields_def)
  have same: "yields (?T ix) m (\<lambda>_. ?T ix)" for ix and m :: "'z store_run" by (simp add: yields_def)
  have set: "yields (?T ix) (memory (\<lambda>s. s\<lparr>gs_index := ix, gs_journal_bytes := jb, gs_snapshot_bytes := sb,
       gs_snapshot_id := snapshot_identity (gs_disk s)\<rparr>)) (\<lambda>_ s. ledger_typed (gs_index s))" for ix jb sb
    by (simp add: yields_def memory_def)
  have last: "yields (\<lambda>s. ledger_typed (gs_index s)) (if ro then ret () else restore_quarantined_packs) (\<lambda>_ s. ledger_typed (gs_index s))"
    using beyond_restore by (intro yields_beyond [where Q = ledger_typed]) simp_all
  have finish: "yields (?T ix) (if b then fail e
     else
     bind_run (if ro then ret () else sweep_part_packs) (\<lambda>_.
     bind_run (memory (\<lambda>s. s\<lparr>gs_index := ix, gs_journal_bytes := jb, gs_snapshot_bytes := sb,
       gs_snapshot_id := snapshot_identity (gs_disk s)\<rparr>)) (\<lambda>_.
     if ro then ret () else restore_quarantined_packs))) (\<lambda>_ s. ledger_typed (gs_index s))" for ix b e jb sb
    by (rule yields_if, rule yields_fail, rule yields_bind [OF same yields_bind [OF set last]])
  show ?thesis unfolding open_monolithic_def
    by (rule yields_bind [OF yields_any], rule yields_bind [OF load], rule yields_bind [OF recover], simp only: split_paired_all prod.case,
        rule yields_bind [OF journal], simp only: split_paired_all prod.case, rule yields_bind [OF same finish])
qed

theorem open_typed:
  assumes "\<And>bs ix. json_index env bs = Some ix \<Longrightarrow> ledger_typed ix"
    and "open_global_store env part layout ro d = (Inr h, d')" "gs_seg h = None"
  shows "ledger_typed (gs_index h)"
proof -
  obtain u s' tr where o: "open_inner env layout ro (blank_store part ro d) = (Inr u, s', tr)" "h = s'"
    using assms(2) by (auto simp: open_global_store_def rbind_eq_Inr split: prod.splits)
  have seg: "yields (\<lambda>_. True) (open_segmented env layout ro) (\<lambda>_ s. gs_seg s \<noteq> None)"
  proof -
    have "yields P (if ro then ret () else restore_quarantined_packs) (\<lambda>_ s. gs_seg s \<noteq> None)"
      if "\<And>s. P s \<Longrightarrow> gs_seg s \<noteq> None" for P
      using that beyond_restore by (auto simp: yields_def beyond_disk_def ret_def)
    note last = this
    have set: "yields P (memory (\<lambda>s. s\<lparr>gs_index := ix, gs_seg := Some seg\<rparr>)) (\<lambda>_ s. gs_seg s \<noteq> None)" for P ix seg
      by (simp add: yields_def memory_def)
    show ?thesis unfolding open_segmented_def
      by (rule yields_bind [OF yields_any], simp only: split_paired_all prod.case, rule yields_if, rule yields_fail,
          rule yields_bind [OF yields_any], rule yields_bind [OF set], rule last)
  qed
  show ?thesis
  proof (cases "get_file (sd_index d) CurrentFile")
    case None
    then have "\<exists>tr. open_monolithic env layout ro (blank_store part ro d) = (Inr u, s', tr)"
      using o(1) by (auto simp: open_inner_def bind_run_def ask_def blank_store_def split: prod.splits)
    then show ?thesis using open_monolithic_typed [where P = "\<lambda>_. True", OF assms(1)] o(2) by (fastforce simp: yields_def)
  next
    case (Some f)
    then have "\<exists>tr. open_segmented env layout ro (blank_store part ro d) = (Inr u, s', tr)"
      using o(1) by (auto simp: open_inner_def bind_run_def ask_def blank_store_def split: prod.splits)
    then show ?thesis using seg assms(3) o(2) by (fastforce simp: yields_def)
  qed
qed

section \<open>Either ledger as a map\<close>

text \<open>
  The ledger's table of chunks whichever way a store keeps it, and the agreement of the two ways.
\<close>

section \<open>Either representation\<close>

definition table_ok :: "global_store \<Rightarrow> bool" where
  "table_ok s \<longleftrightarrow> (if gs_seg s = None then mono_ok s else seg_ok s)"

definition table_view :: "global_store \<Rightarrow> string \<Rightarrow> chunk_info option" where
  "table_view s = (if gs_seg s = None then mono_view s else seg_view s)"

lemma table_cases:
  assumes "table_ok s"
  obtains "mono_ok s" "gs_seg s = None" "table_view s = mono_view s"
    | "seg_ok s" "gs_seg s \<noteq> None" "table_view s = seg_view s"
  using assms by (auto simp: table_ok_def table_view_def split: if_splits)

lemma table_mono: "mono_ok s \<Longrightarrow> table_ok s \<and> table_view s = mono_view s"
  by (simp add: table_ok_def table_view_def mono_ok_def)

lemma table_seg: "seg_ok s \<Longrightarrow> table_ok s \<and> table_view s = seg_view s"
  by (auto simp: table_ok_def table_view_def seg_ok_def)

interpretation either: chunk_table table_ok table_view
proof
  fix s s' :: global_store and hex info f
  show "table_view s hex \<noteq> None \<Longrightarrow> hex_of_hash hex" if "table_ok s"
    using that by (cases rule: table_cases) (metis mono.view_hex, metis segmented.view_hex)
  show "hex_of_hash hex \<Longrightarrow> chunk_get hex s = Inr (table_view s hex)" if "table_ok s"
    using that by (cases rule: table_cases) (metis mono.get_view, metis segmented.get_view)
  show "hex_of_hash hex \<Longrightarrow> chunk_contains hex s = Inr (table_view s hex \<noteq> None)" if "table_ok s"
    using that by (cases rule: table_cases) (metis mono.contains_view, metis segmented.contains_view)
  show "hex_of_hash hex \<Longrightarrow> table_ok (chunk_insert hex info s) \<and> table_view (chunk_insert hex info s) = (table_view s)(hex \<mapsto> info)
      \<and> outside (chunk_insert hex info s) = outside s" if "table_ok s"
    using that by (cases rule: table_cases) (metis mono.insert_view table_mono, metis segmented.insert_view table_seg)
  show "hex_of_hash hex \<Longrightarrow> \<exists>s'. chunk_remove hex s = (Inr (table_view s hex), s', [])
      \<and> table_ok s' \<and> table_view s' = (table_view s)(hex := None) \<and> outside s' = outside s" if "table_ok s"
    using that by (cases rule: table_cases) (metis mono.remove_view table_mono, metis segmented.remove_view table_seg)
  show "hex_of_hash hex \<Longrightarrow> \<exists>s'. chunk_update hex f s = (Inr (table_view s hex \<noteq> None), s', [])
      \<and> table_ok s' \<and> table_view s' = (table_view s)(hex := map_option f (table_view s hex)) \<and> outside s' = outside s" if "table_ok s"
    using that by (cases rule: table_cases) (metis mono.update_view table_mono, metis segmented.update_view table_seg)
  show "\<exists>cs. chunks_iter s = Inr cs \<and> bt_ok cs \<and> map_of cs = table_view s" if "table_ok s"
    using that by (cases rule: table_cases) (metis mono.iter_view, metis segmented.iter_view)
  show "ix_chunks (gs_index s') = ix_chunks (gs_index s) \<Longrightarrow> table_ok s \<Longrightarrow> table_ok s' \<and> table_view s' = table_view s"
    if "gs_seg s' = gs_seg s"
    using that mono.frame_view [of s' s] segmented.frame_view [of s' s] by (auto simp: table_ok_def table_view_def)
qed

section \<open>Agreement\<close>

text \<open>Two stores whose tables stand for the same map; nothing that reads them tells them apart.\<close>

definition same_chunks :: "global_store \<Rightarrow> global_store \<Rightarrow> bool" where
  "same_chunks s t \<longleftrightarrow> table_ok s \<and> table_ok t \<and> table_view s = table_view t"

lemma same_listing:
  assumes "same_chunks s t"
  shows "chunks_iter s = chunks_iter t"
proof -
  obtain cs where cs: "chunks_iter s = Inr cs" "bt_ok cs" "map_of cs = table_view s"
    using assms either.iter_view [of s] by (auto simp: same_chunks_def)
  obtain ds where ds: "chunks_iter t = Inr ds" "bt_ok ds" "map_of ds = table_view t"
    using assms either.iter_view [of t] by (auto simp: same_chunks_def)
  have "cs = ds" using cs ds assms by (intro bt_ext) (simp_all add: same_chunks_def)
  then show ?thesis using cs ds by simp
qed

lemma same_reads:
  assumes "same_chunks s t" "hex_of_hash hex"
  shows "chunk_get hex s = chunk_get hex t" "chunk_contains hex s = chunk_contains hex t"
    "chunks_len s = chunks_len t" "live_pack_set s = live_pack_set t"
  using assms either.get_view either.contains_view either.len_view same_listing [OF assms(1)]
  by (simp_all add: same_chunks_def live_pack_set_def)

lemma same_insert: "same_chunks s t \<Longrightarrow> hex_of_hash hex \<Longrightarrow> same_chunks (chunk_insert hex info s) (chunk_insert hex info t)"
  using either.insert_view by (simp add: same_chunks_def)

lemma same_remove:
  assumes "same_chunks s t" "hex_of_hash hex"
  shows "\<exists>r s' t'. chunk_remove hex s = (r, s', []) \<and> chunk_remove hex t = (r, t', []) \<and> same_chunks s' t'"
  using either.remove_view [of s hex] either.remove_view [of t hex] assms by (auto simp: same_chunks_def)

lemma same_update:
  assumes "same_chunks s t" "hex_of_hash hex"
  shows "\<exists>r s' t'. chunk_update hex f s = (r, s', []) \<and> chunk_update hex f t = (r, t', []) \<and> same_chunks s' t'"
  using either.update_view [of s hex f] either.update_view [of t hex f] assms by (auto simp: same_chunks_def)

section \<open>Runs that cannot tell them apart\<close>

definition alike :: "global_store \<Rightarrow> global_store \<Rightarrow> bool" where
  "alike s t \<longleftrightarrow> same_chunks s t \<and> ix_assets (gs_index s) = ix_assets (gs_index t)
     \<and> assets_typed (ix_assets (gs_index s)) \<and> now_epoch (gs_disk s) = now_epoch (gs_disk t)"

definition same_run :: "'a store_run \<Rightarrow> global_store \<Rightarrow> global_store \<Rightarrow> bool" where
  "same_run m s t \<longleftrightarrow> (\<exists>r s' t' tr tr'. m s = (r, s', tr) \<and> m t = (r, t', tr') \<and> alike s' t')"

lemma same_run_bind:
  assumes "same_run m s t" "\<And>x s' t' tr. m s = (Inr x, s', tr) \<Longrightarrow> alike s' t' \<Longrightarrow> same_run (k x) s' t'"
  shows "same_run (bind_run m k) s t"
proof -
  obtain r s' t' tr tr' where m: "m s = (r, s', tr)" "m t = (r, t', tr')" "alike s' t'" using assms(1) by (auto simp: same_run_def)
  show ?thesis
  proof (cases r)
    case (Inl e)
    then show ?thesis using m by (simp add: same_run_def bind_run_def)
  next
    case (Inr x)
    obtain r2 s2 t2 tr2 tr2' where "k x s' = (r2, s2, tr2)" "k x t' = (r2, t2, tr2')" "alike s2 t2"
      using assms(2) [of x s' tr t'] m Inr by (auto simp: same_run_def)
    then show ?thesis using m Inr by (simp add: same_run_def bind_run_def)
  qed
qed

lemma same_run_ret: "alike s t \<Longrightarrow> same_run (ret x) s t"
  by (simp add: same_run_def ret_def)

lemma same_run_fail: "alike s t \<Longrightarrow> same_run (fail e) s t"
  by (simp add: same_run_def fail_def)

lemma same_run_ask: "alike s t \<Longrightarrow> f s = f t \<Longrightarrow> same_run (ask f) s t"
  by (simp add: same_run_def ask_def)

lemma same_run_memory: "alike (f s) (f t) \<Longrightarrow> same_run (memory f) s t"
  by (simp add: same_run_def memory_def)

lemma same_run_update:
  assumes "alike s t" "hex_of_hash hex"
  shows "same_run (chunk_update hex f) s t"
proof -
  note h = assms [unfolded alike_def same_chunks_def]
  obtain s' where s': "chunk_update hex f s = (Inr (table_view s hex \<noteq> None), s', [])" "table_ok s'"
      "table_view s' = (table_view s)(hex := map_option f (table_view s hex))" "outside s' = outside s"
    using either.update_view h by blast
  obtain t' where t': "chunk_update hex f t = (Inr (table_view t hex \<noteq> None), t', [])" "table_ok t'"
      "table_view t' = (table_view t)(hex := map_option f (table_view t hex))" "outside t' = outside t"
    using either.update_view h by blast
  have "assets_typed (ix_assets (gs_index t))" using h by metis
  then have "alike s' t'"
    using h s' t' outsideD(1,10) [OF s'(4)] outsideD(1,10) [OF t'(4)] by (simp add: alike_def same_chunks_def)
  then show ?thesis using s'(1) t'(1) h by (simp add: same_run_def)
qed

lemma same_run_each:
  assumes "\<And>x s t. x \<in> set xs \<Longrightarrow> alike s t \<Longrightarrow> same_run (f x) s t" "alike s t"
  shows "same_run (for_each f xs) s t"
  using assms by (induction xs arbitrary: s t) (auto intro!: same_run_ret same_run_bind)

lemma alike_frame:
  assumes "alike s t" "gs_seg s' = gs_seg s" "gs_seg t' = gs_seg t" "ix_chunks (gs_index s') = ix_chunks (gs_index s)"
    and "ix_chunks (gs_index t') = ix_chunks (gs_index t)" "ix_assets (gs_index s') = ix_assets (gs_index t')"
    and "gs_disk s' = gs_disk s" "gs_disk t' = gs_disk t" "assets_typed (ix_assets (gs_index s'))"
  shows "alike s' t'"
  using assms either.frame_view [OF assms(2,4)] either.frame_view [OF assms(3,5)] by (simp add: alike_def same_chunks_def)

lemma same_run_decrement:
  assumes "alike s t" "\<forall>hex \<in> set hs. hex_of_hash hex"
  shows "same_run (decrement hs) s t"
  unfolding decrement_def
  using assms(2) by (intro same_run_each assms(1) same_run_bind same_run_ask same_run_update same_run_ret)
    (auto simp: alike_def)

lemma same_run_count:
  assumes "alike s t" "\<forall>hex \<in> set hexes. hex_of_hash hex"
  shows "same_run (count_asset name hexes) s t"
proof -
  have there: "same_run (check_present hexes) s t" if "alike s t" for s t
    unfolding check_present_def
    using assms(2) same_reads(2) by (intro same_run_each that same_run_bind same_run_ask)
      (auto simp: alike_def intro!: same_run_ret same_run_fail)
  have take: "same_run (for_each (\<lambda>hex. bind_run (chunk_update hex take_reference) (\<lambda>_. ret ())) hexes) s t"
    if "alike s t" for s t
    using assms(2) by (intro same_run_each that same_run_bind same_run_update same_run_ret) auto
  have gone: "alike (remove_asset name s) (remove_asset name t)" if "alike s t" for s t
    using that by (intro alike_frame [OF that]) (auto simp: remove_asset_def alike_def intro: assets_typed_remove)
  have mark: "alike (dirty_asset name s) (dirty_asset name t)" if "alike s t" for s t
    using that by (intro alike_frame [OF that]) (auto simp: dirty_asset_def alike_def)
  have set: "alike (set_asset name hexes s) (set_asset name hexes t)" if "alike s t" for s t
    using that assms(2) by (intro alike_frame [OF that]) (auto simp: set_asset_def alike_def intro: assets_typed_insert)
  have old: "same_run (ask (\<lambda>s. Inr (map_of (ix_assets (gs_index s)) name))) s t" if "alike s t" for s t
    using that by (intro same_run_ask) (auto simp: alike_def)
  have typed: "\<forall>hex \<in> set hs. hex_of_hash hex"
    if "ask (\<lambda>s. Inr (map_of (ix_assets (gs_index s)) name)) s = (Inr (Some hs), s', tr)" "alike s t" for s t s' tr hs
    using that by (auto simp: ask_def alike_def assets_typed_def dest!: map_of_SomeD)
  show ?thesis unfolding count_asset_def
  proof (rule same_run_bind [OF there [OF assms(1)]], rule same_run_bind [OF old], assumption, rule same_run_bind)
    fix x1 s1 t1 tr1 x2 s2 t2 tr2
    assume a: "alike s1 t1" and o: "ask (\<lambda>s. Inr (map_of (ix_assets (gs_index s)) name)) s1 = (Inr x2, s2, tr2)" and b: "alike s2 t2"
    show "same_run (memory (remove_asset name)) s2 t2" by (rule same_run_memory) (rule gone [OF b])
    fix x3 s3 t3 tr3 assume c: "alike s3 t3"
    have d: "same_run (case x2 of Some chunks \<Rightarrow> decrement chunks | None \<Rightarrow> ret ()) s3 t3"
      using typed [of s1 _ s2 tr2 t1] o a c by (cases x2) (simp_all add: same_run_ret same_run_decrement)
    show "same_run (bind_run (case x2 of Some chunks \<Rightarrow> decrement chunks | None \<Rightarrow> ret ()) (\<lambda>_.
        bind_run (memory (dirty_asset name)) (\<lambda>_.
        bind_run (for_each (\<lambda>hex. bind_run (chunk_update hex take_reference) (\<lambda>_. ret ())) hexes) (\<lambda>_.
        memory (set_asset name hexes))))) s3 t3"
      by (rule same_run_bind [OF d], rule same_run_bind [OF same_run_memory], erule mark,
          rule same_run_bind [OF take], assumption, rule same_run_memory, erule set)
  qed
qed

section \<open>The invariant of a store\<close>

text \<open>
  The table is sound, every chunk it lists has its bytes (those \<open>c\<close> gives it), in a file or in
  the open pack, which holds \<open>cs\<close>, and the counts are those of the assets.
\<close>

definition store_kept :: "hash_fun \<Rightarrow> bytes set \<Rightarrow> (string \<Rightarrow> bytes) \<Rightarrow> packed_chunk list \<Rightarrow> global_store \<Rightarrow> bool" where
  "store_kept blake3 U c cs s \<longleftrightarrow> table_ok s \<and> open_chunks s cs
     \<and> bytes_kept blake3 U (table_view s) c (gs_disk s) cs \<and> counts_match (table_view s) (ix_assets (gs_index s))"

lemma kept_put:
  assumes "hash_ok blake3" "inj_on blake3 U" "store_kept blake3 U c cs s" "length hash = 32" "length stored < 2 ^ 32"
    and "ix_layout (gs_index s) = PackfileLayout \<Longrightarrow> sealable blake3 U (cs @ [(hash, stored, raw, flags)])"
  shows "\<exists>s' cs'. runs (put_chunk blake3 hash stored flags raw) s (table_view s (to_hex hash) = None) s'
    \<and> store_kept blake3 U (if table_view s (to_hex hash) = None then c(to_hex hash := stored) else c) cs' s'
    \<and> dom (table_view s') = insert (to_hex hash) (dom (table_view s))
    \<and> (\<forall>hex. table_view s hex \<noteq> None \<longrightarrow> rel_option moved (table_view s hex) (table_view s' hex)) \<and> beside s' = beside s"
proof (cases "table_view s (to_hex hash)")
  case (Some info)
  have "put_chunk blake3 hash stored flags raw s = (Inr False, s, [])"
    using either.put_chunk_present assms(3,4) Some by (simp add: store_kept_def)
  then have "runs (put_chunk blake3 hash stored flags raw) s False s" by (rule runsI)
  then show ?thesis using assms(3) Some by (intro exI [of _ s] exI [of _ cs]) auto
next
  case None
  note k = assms(3) [unfolded store_kept_def]
  obtain s' cs' where s': "runs (put_chunk blake3 hash stored flags raw) s True s'" "table_ok s'" "open_chunks s' cs'"
      "bytes_kept blake3 U (table_view s') (c(to_hex hash := stored)) (gs_disk s') cs'"
      "rel_option moved (Some (fresh_chunk stored flags raw)) (table_view s' (to_hex hash))"
      "\<And>hex. hex \<noteq> to_hex hash \<Longrightarrow> rel_option moved (table_view s hex) (table_view s' hex)" "beside s' = beside s"
    using either.put_chunk_new [OF assms(1,2) _ _ _ assms(4,5) None, of cs c raw flags] k assms(6) by blast
  obtain info' where i: "table_view s' (to_hex hash) = Some info'" "moved (fresh_chunk stored flags raw) info'"
    using s'(5) by (cases "table_view s' (to_hex hash)") auto
  have new: "hex = to_hex hash" if "table_view s hex = None" "table_view s' hex = Some j" for hex j
    using that s'(6) [of hex] by fastforce
  have old: "hex \<noteq> to_hex hash" if "table_view s hex \<noteq> None" for hex using that None by auto
  have "dom (table_view s') = insert (to_hex hash) (dom (table_view s))"
  proof (rule set_eqI)
    fix hex show "hex \<in> dom (table_view s') \<longleftrightarrow> hex \<in> insert (to_hex hash) (dom (table_view s))"
      using i s'(6) [of hex] by (cases "hex = to_hex hash"; cases "table_view s hex"; cases "table_view s' hex") auto
  qed
  moreover have "counts_match (table_view s') (ix_assets (gs_index s))"
  proof (rule counts_moved)
    show "counts_match (table_view s) (ix_assets (gs_index s))" using k by blast
    show "rel_option moved (table_view s hex) (table_view s' hex)" if "table_view s hex \<noteq> None" for hex
      by (rule s'(6) [OF old [OF that]])
    show "refcount j = 0 \<and> zero_since j \<noteq> None" if "table_view s hex = None" "table_view s' hex = Some j" for hex j
      using new [OF that] i that by (simp add: moved_def fresh_chunk_def) (metis option.discI)
  qed
  ultimately show ?thesis using None s'(1-4,7) s'(6) [OF old] beside_assets [OF s'(7)]
    by (intro exI [of _ s'] exI [of _ cs']) (simp add: store_kept_def)
qed

lemma kept_flush:
  assumes "hash_ok blake3" "inj_on blake3 U" "store_kept blake3 U c cs s"
  shows "\<exists>s'. runs (flush_packs blake3) s () s' \<and> store_kept blake3 U c [] s' \<and> gs_open_pack s' = None
    \<and> (\<forall>hex. rel_option moved (table_view s hex) (table_view s' hex)) \<and> beside s' = beside s"
proof -
  note k = assms(3) [unfolded store_kept_def]
  obtain s' where s': "runs (flush_packs blake3) s () s'" "table_ok s'" "gs_open_pack s' = None"
      "bytes_kept blake3 U (table_view s') c (gs_disk s') []"
      "\<forall>hex. rel_option moved (table_view s hex) (table_view s' hex)" "beside s' = beside s"
    using either.flush_packs_view [OF assms(1,2)] k by blast
  have "refcount j = 0 \<and> zero_since j \<noteq> None" if "table_view s hex = None" "table_view s' hex = Some j" for hex j
    using that spec [OF s'(5), of hex] by simp
  then have "counts_match (table_view s') (ix_assets (gs_index s))"
    using counts_moved k s'(5) by metis
  then show ?thesis using s' beside_assets [OF s'(6)] by (intro exI [of _ s']) (simp add: store_kept_def open_chunks_def)
qed

text \<open>Counting leaves the bytes alone.\<close>

lemma stored_alike_bytes: "stored_alike i j \<Longrightarrow> chunk_stored d hex i bs = chunk_stored d hex j bs"
  by (cases "ci_pack j") (simp_all add: stored_alike_def chunk_stored_def)

lemma bytes_alike:
  assumes "bytes_kept blake3 U v c d cs" "\<forall>hex. rel_option stored_alike (v hex) (v' hex)"
  shows "bytes_kept blake3 U v' c d cs"
proof -
  have a: "\<exists>i. v hex = Some i \<and> stored_alike i j" if "v' hex = Some j" for hex j
    using assms(2) that by (metis option_rel_Some2)
  have b: "\<exists>j. v' hex = Some j \<and> stored_alike i j" if "v hex = Some i" for hex i
    using assms(2) that by (metis option_rel_Some1)
  have "pending_chunk v' c x" if "pending_chunk v c x" for x
    using that b by (auto simp: pending_chunk_def stored_alike_def split: prod.splits) metis
  moreover have "chunk_stored d hex j (c hex)" if v: "v' hex = Some j" "hex \<notin> to_hex ` fst ` set cs" for hex j
  proof -
    obtain i where i: "v hex = Some i" "stored_alike i j" using a [OF v(1)] by blast
    have "chunk_stored d hex i (c hex)" using assms(1) i(1) v(2) by (simp add: bytes_kept_def)
    then show ?thesis using stored_alike_bytes [OF i(2)] by simp
  qed
  ultimately show ?thesis using assms(1) by (auto simp: bytes_kept_def)
qed

lemma kept_count:
  assumes "store_kept blake3 U c cs s" "distinct hexes" "set hexes \<subseteq> dom (table_view s)" "length (ix_assets (gs_index s)) + 1 < 2 ^ 64"
  shows "\<exists>s'. count_asset name hexes s = (Inr (), s', []) \<and> store_kept blake3 U c cs s'
    \<and> ix_assets (gs_index s') = bt_insert name hexes (bt_remove name (ix_assets (gs_index s)))
    \<and> (\<forall>hex. rel_option stored_alike (table_view s hex) (table_view s' hex)) \<and> beyond s' = beyond s"
proof -
  note k = assms(1) [unfolded store_kept_def]
  obtain s' where s': "count_asset name hexes s = (Inr (), s', [])" "table_ok s'"
      "ix_assets (gs_index s') = bt_insert name hexes (bt_remove name (ix_assets (gs_index s)))"
      "counts_match (table_view s') (ix_assets (gs_index s'))"
      "\<forall>hex. rel_option stored_alike (table_view s hex) (table_view s' hex)" "beyond s' = beyond s"
    using either.count_asset_view [OF _ _ assms(2-4)] k by blast
  have "gs_disk s' = gs_disk s" "gs_open_pack s' = gs_open_pack s"
    using s'(6) by (auto simp: beyond_def dest: arg_cong [where f = gs_disk] arg_cong [where f = gs_open_pack])
  then show ?thesis using s' bytes_alike [OF _ s'(5)] k
    by (intro exI [of _ s']) (simp add: store_kept_def open_chunks_def)
qed

lemma kept_reads:
  assumes "store_kept blake3 U c [] s" "length hash = 32" "table_view s (to_hex hash) = Some info"
  shows "read_chunk_stored hash s = Inr (c (to_hex hash), ci_flags info, len_raw info)"
proof -
  have "hex_of_hash (to_hex hash)" using assms(2) by (auto simp: hex_of_hash_def)
  then have g: "chunk_get (to_hex hash) s = Inr (Some info)" using either.get_view assms(1,3) by (simp add: store_kept_def)
  have "chunk_stored (gs_disk s) (to_hex hash) info (c (to_hex hash))"
    using assms(1,3) by (simp add: store_kept_def bytes_kept_def)
  then show ?thesis by (auto simp: read_chunk_stored_def g chunk_stored_def Let_def split: option.splits)
qed

end
