(* ===== verification/Store_Gc.thy ===== *)
theory Store_Gc
  imports Ledger_Types
begin

text \<open>
  Garbage collection of a chunk store: which files its steps touch, and so which chunks keep their
  bytes in every directory it passes through, whatever comes of it.
\<close>

section \<open>Runs, by what they touch\<close>

text \<open>Only files at \<open>X\<close> change, in every directory the run passes through, whatever its outcome.\<close>

definition same_files :: "store_path set \<Rightarrow> store_dir \<Rightarrow> store_dir \<Rightarrow> bool" where
  "same_files X d d' \<longleftrightarrow> (\<forall>p. p \<notin> X \<longrightarrow> path_file d' p = path_file d p)"

definition confined :: "store_path set \<Rightarrow> 'a store_run \<Rightarrow> bool" where
  "confined X m \<longleftrightarrow> (\<forall>s r s' tr. m s = (r, s', tr) \<longrightarrow> (\<forall>t \<in> set (s' # tr). same_files X (gs_disk s) (gs_disk t)))"

lemma same_files_trans: "same_files X a b \<Longrightarrow> same_files X b c \<Longrightarrow> same_files X a c"
  by (simp add: same_files_def)

lemma same_files_refl [simp]: "same_files X d d"
  by (simp add: same_files_def)

lemma confined_bind:
  assumes "confined X m" "\<And>x. confined X (k x)"
  shows "confined X (bind_run m k)"
  unfolding confined_def
proof (intro allI impI)
  fix s r s' tr assume b: "bind_run m k s = (r, s', tr)"
  obtain r1 s1 tr1 where m: "m s = (r1, s1, tr1)" by (cases "m s")
  have c1: "\<forall>t \<in> set (s1 # tr1). same_files X (gs_disk s) (gs_disk t)" using assms(1) m unfolding confined_def by blast
  show "\<forall>t \<in> set (s' # tr). same_files X (gs_disk s) (gs_disk t)"
  proof (cases r1)
    case (Inr x)
    obtain r2 s2 tr2 where k: "k x s1 = (r2, s2, tr2)" by (cases "k x s1")
    have "\<forall>t \<in> set (s2 # tr2). same_files X (gs_disk s1) (gs_disk t)" using assms(2) k unfolding confined_def by blast
    then have "\<forall>t \<in> set (s2 # tr2). same_files X (gs_disk s) (gs_disk t)"
      using c1 same_files_trans by (metis list.set_intros(1))
    then show ?thesis using b m Inr k c1 by (auto simp: bind_run_def)
  qed (use b m c1 in \<open>auto simp: bind_run_def\<close>)
qed

lemma confined_simps [simp]:
  "confined X (ask f)" "confined X (ret x)" "confined X (fail e)" "confined X (on_index i)"
  by (auto simp: confined_def ask_def ret_def fail_def on_index_def same_files_def path_file_def Let_def split: prod.splits)

lemma confined_memory: "(\<And>s. gs_disk (f s) = gs_disk s) \<Longrightarrow> confined X (memory f)"
  by (simp add: confined_def memory_def)

lemma confined_disk: "(\<And>d. same_files X d (f d)) \<Longrightarrow> confined X (on_disk f)"
  by (simp add: confined_def on_disk_def act_def)

lemma same_files_changed: "changed_at X d d' \<Longrightarrow> same_files X d d'"
  by (simp add: changed_at_def same_files_def)

lemma confined_write: "p \<in> X \<Longrightarrow> confined X (write_path p bs)"
  unfolding write_path_def by (intro confined_bind confined_disk same_files_changed changed_set)

lemma confined_remove: "p \<in> X \<Longrightarrow> confined X (remove_path p)"
  unfolding remove_path_def by (intro confined_disk same_files_changed changed_del)

lemma confined_rename: "a \<in> X \<Longrightarrow> b \<in> X \<Longrightarrow> confined X (rename_path a b)"
  unfolding rename_path_def
  by (intro confined_bind) (auto split: option.split intro!: confined_disk same_files_changed changed_move)

lemma confined_append: "p \<in> X \<Longrightarrow> confined X (append_path p bs)"
  unfolding confined_def append_path_def Let_def
  by (auto intro!: same_files_changed changed_set)

lemma confined_each: "(\<And>x. x \<in> set xs \<Longrightarrow> confined X (f x)) \<Longrightarrow> confined X (for_each f xs)"
  by (induction xs) (auto intro: confined_bind)

lemma confined_if: "confined X m \<Longrightarrow> confined X m' \<Longrightarrow> confined X (if b then m else m')"
  by simp

lemmas confined_rules = confined_bind confined_memory confined_write confined_remove confined_rename confined_append confined_each

section \<open>A save\<close>

lemma confined_record_pack: "confined save_paths (write_record_pack blake3 records)"
  unfolding write_record_pack_def
  by (auto simp: Let_def save_paths_def record_paths_def split: prod.split intro!: confined_rules)

lemma confined_move: "confined save_paths (move_records_into_a_pack blake3)"
  unfolding move_records_into_a_pack_def
  by (auto simp: set_records_def split: prod.split intro!: confined_rules confined_record_pack)

lemma confined_snapshot: "confined save_paths (write_snapshot blake3)"
proof -
  have "{SnapshotFile, SnapshotTmp, SnapshotPrev, JsonIndex} \<subseteq> save_paths" "\<And>f. LogFile f \<in> save_paths" by (auto simp: save_paths_def)
  then show ?thesis unfolding write_snapshot_def by (auto intro!: confined_rules confined_move)
qed

lemma confined_save: "confined save_paths (save_index env)"
proof -
  have "confined save_paths (save_monolithic (se_blake3 env) g dc da)" for g dc da
    unfolding save_monolithic_def append_journal_def Let_def
    by (auto simp: set_records_def split: prod.split intro!: confined_bind confined_memory confined_snapshot confined_record_pack confined_append)
      (simp add: save_paths_def)
  then show ?thesis unfolding save_index_def
    by (auto split: option.split prod.split intro!: confined_bind confined_memory)
qed

text \<open>In monolithic mode it leaves the table of chunks alone.\<close>

definition keeps_table :: "'a store_run \<Rightarrow> bool" where
  "keeps_table m \<longleftrightarrow> (\<forall>s r s' tr. m s = (r, s', tr) \<longrightarrow> gs_seg s = None
     \<longrightarrow> gs_seg s' = None \<and> ix_chunks (gs_index s') = ix_chunks (gs_index s))"

lemma keeps_table_bind:
  assumes "keeps_table m" "\<And>x. keeps_table (k x)"
  shows "keeps_table (bind_run m k)"
  unfolding keeps_table_def
proof (intro allI impI)
  fix s r s' tr assume b: "bind_run m k s = (r, s', tr)" and n: "gs_seg s = None"
  obtain r1 s1 tr1 where m: "m s = (r1, s1, tr1)" by (cases "m s")
  have c1: "gs_seg s1 = None \<and> ix_chunks (gs_index s1) = ix_chunks (gs_index s)" using assms(1) m n unfolding keeps_table_def by blast
  show "gs_seg s' = None \<and> ix_chunks (gs_index s') = ix_chunks (gs_index s)"
  proof (cases r1)
    case (Inr x)
    obtain r2 s2 tr2 where k: "k x s1 = (r2, s2, tr2)" by (cases "k x s1")
    then have "gs_seg s2 = None \<and> ix_chunks (gs_index s2) = ix_chunks (gs_index s1)"
      using assms(2) c1 unfolding keeps_table_def by blast
    then show ?thesis using b m Inr k c1 by (auto simp: bind_run_def)
  qed (use b m c1 in \<open>auto simp: bind_run_def\<close>)
qed

lemma keeps_table_beyond: "beyond_disk m \<Longrightarrow> keeps_table m"
  by (auto simp: beyond_disk_def keeps_table_def)

lemma keeps_table_memory:
  "(\<And>s. gs_seg s = None \<Longrightarrow> gs_seg (f s) = None \<and> ix_chunks (gs_index (f s)) = ix_chunks (gs_index s)) \<Longrightarrow> keeps_table (memory f)"
  by (simp add: keeps_table_def memory_def)

lemma beyond_append [simp]: "beyond_disk (append_path p bs)"
  by (auto simp: beyond_disk_def append_path_def Let_def)

lemma keeps_table_simps [simp]:
  "keeps_table (ask f)" "keeps_table (ret x)" "keeps_table (fail e)" "keeps_table (on_disk g)" "keeps_table (remove_path p)"
  "keeps_table (write_path p bs)" "keeps_table (rename_path a b)" "keeps_table (append_path p bs)"
  by (simp_all add: keeps_table_beyond)

lemma beyond_record_pack: "beyond_disk (write_record_pack blake3 records)"
  unfolding write_record_pack_def by (auto simp: Let_def split: prod.split intro!: beyond_bind)

lemma keeps_table_save:
  assumes "save_index env s = (r, s', tr)" "gs_seg s = None"
  shows "gs_seg s' = None \<and> ix_chunks (gs_index s') = ix_chunks (gs_index s)"
proof -
  have move: "keeps_table (move_records_into_a_pack b)" for b
    unfolding move_records_into_a_pack_def
    by (auto simp: set_records_def split: prod.split
        intro!: keeps_table_bind keeps_table_memory keeps_table_beyond [OF beyond_record_pack])
  have snap: "keeps_table (write_snapshot b)" for b
    unfolding write_snapshot_def
    by (auto intro!: keeps_table_bind keeps_table_memory move)
  have mono: "keeps_table (save_monolithic b g dc da)" for b g dc da
    unfolding save_monolithic_def append_journal_def Let_def
    by (auto simp: set_records_def split: prod.split
        intro!: keeps_table_bind keeps_table_memory snap keeps_table_beyond [OF beyond_record_pack])
  have m: "keeps_table (memory (\<lambda>s. s\<lparr>gs_dirty_chunks := [], gs_dirty_assets := []\<rparr>))"
    by (rule keeps_table_memory) simp
  let ?tail = "bind_run (ask (\<lambda>s. Inr (ix_generation (gs_index s) + 1, gs_dirty_chunks s, gs_dirty_assets s)))
           (\<lambda>(generation, dirty_chunks, dirty_assets).
         bind_run (memory (\<lambda>s. s\<lparr>gs_dirty_chunks := [], gs_dirty_assets := []\<rparr>)) (\<lambda>_.
         save_monolithic (se_blake3 env) generation dirty_chunks dirty_assets))"
  have "keeps_table ?tail"
    by (auto split: prod.split intro!: keeps_table_bind mono m)
  moreover have "(\<exists>tr. ?tail s = (r, s', tr)) \<or> s' = s"
    using assms by (auto simp: save_index_def bind_run_def [of "ask _"] ask_def fail_def split: prod.splits if_splits)
  ultimately show ?thesis using assms(2) unfolding keeps_table_def by blast
qed

section \<open>Triples\<close>

text \<open>
  From a state with \<open>P\<close>, every state of the run satisfies \<open>Q\<close>, and its result \<open>R\<close> if
  it succeeds.
\<close>

definition safe :: "(global_store \<Rightarrow> bool) \<Rightarrow> (global_store \<Rightarrow> bool) \<Rightarrow> 'a store_run \<Rightarrow> ('a \<Rightarrow> global_store \<Rightarrow> bool) \<Rightarrow> bool" where
  "safe Q P m R \<longleftrightarrow> (\<forall>s r s' tr. P s \<longrightarrow> m s = (r, s', tr) \<longrightarrow> (\<forall>t \<in> set (s' # tr). Q t) \<and> (\<forall>x. r = Inr x \<longrightarrow> R x s'))"

lemma safe_bind:
  assumes "safe Q P m R" "\<And>x. safe Q (R x) (k x) S"
  shows "safe Q P (bind_run m k) S"
  unfolding safe_def
proof (intro allI impI)
  fix s r s' tr assume p: "P s" and b: "bind_run m k s = (r, s', tr)"
  obtain r1 s1 tr1 where m: "m s = (r1, s1, tr1)" by (cases "m s")
  have a: "\<forall>t \<in> set (s1 # tr1). Q t" "\<And>x. r1 = Inr x \<Longrightarrow> R x s1" using assms(1) p m unfolding safe_def by blast+
  show "(\<forall>t \<in> set (s' # tr). Q t) \<and> (\<forall>x. r = Inr x \<longrightarrow> S x s')"
  proof (cases r1)
    case (Inr x)
    obtain r2 s2 tr2 where k: "k x s1 = (r2, s2, tr2)" by (cases "k x s1")
    have "(\<forall>t \<in> set (s2 # tr2). Q t) \<and> (\<forall>x. r2 = Inr x \<longrightarrow> S x s2)"
      using assms(2) [of x] a(2) [OF Inr] k unfolding safe_def by blast
    then show ?thesis using b m Inr k a(1) by (auto simp: bind_run_def)
  qed (use b m a in \<open>auto simp: bind_run_def\<close>)
qed

lemma safe_pre: "safe Q P m R \<Longrightarrow> (\<And>s. P' s \<Longrightarrow> P s) \<Longrightarrow> safe Q P' m R"
  unfolding safe_def by blast

lemma safe_ret: "(\<And>s. P s \<Longrightarrow> Q s \<and> R x s) \<Longrightarrow> safe Q P (ret x) R"
  by (simp add: safe_def ret_def)

lemma safe_ask: "(\<And>s. P s \<Longrightarrow> Q s) \<Longrightarrow> (\<And>s x. P s \<Longrightarrow> f s = Inr x \<Longrightarrow> R x s) \<Longrightarrow> safe Q P (ask f) R"
  by (simp add: safe_def ask_def)

lemma safe_if: "(b \<Longrightarrow> safe Q P m R) \<Longrightarrow> (\<not> b \<Longrightarrow> safe Q P m' R) \<Longrightarrow> safe Q P (if b then m else m') R"
  by simp

lemma safe_each: "(\<And>x. x \<in> set xs \<Longrightarrow> safe Q P (f x) (\<lambda>_. P)) \<Longrightarrow> (\<And>s. P s \<Longrightarrow> Q s) \<Longrightarrow> safe Q P (for_each f xs) (\<lambda>_. P)"
  by (induction xs) (auto intro: safe_ret safe_bind)

lemma safe_pure: "(\<And>s. P s \<Longrightarrow> b) \<Longrightarrow> (b \<Longrightarrow> safe Q P m R) \<Longrightarrow> safe Q P m R"
  unfolding safe_def by blast

section \<open>Chunks that keep their bytes\<close>

text \<open>\<open>K\<close> lists chunks that are to keep their bytes; the files they are in.\<close>

definition needed :: "(string \<Rightarrow> chunk_info option) \<Rightarrow> store_path set" where
  "needed K = {LooseChunk hex | hex. \<exists>info. K hex = Some info}
     \<union> {PackFile p | p. \<exists>hex info. K hex = Some info \<and> ci_pack info = Some p}"

definition keeps :: "(string \<Rightarrow> chunk_info option) \<Rightarrow> (string \<Rightarrow> bytes) \<Rightarrow> global_store \<Rightarrow> bool" where
  "keeps K c s \<longleftrightarrow> (\<forall>hex info. K hex = Some info \<longrightarrow> chunk_stored (gs_disk s) hex info (c hex))"

lemma keeps_files:
  assumes "keeps K c s" "same_files X (gs_disk s) (gs_disk t)" "X \<inter> needed K = {}"
  shows "keeps K c t"
  unfolding keeps_def
proof (intro allI impI)
  fix hex info assume k: "K hex = Some info"
  have st: "chunk_stored (gs_disk s) hex info (c hex)" using assms(1) k by (simp add: keeps_def)
  have "path_bytes (gs_disk t) p = path_bytes (gs_disk s) p" if "p \<in> needed K" for p
    using assms(2,3) that by (auto simp: same_files_def path_bytes_def)
  note same = this
  show "chunk_stored (gs_disk t) hex info (c hex)"
  proof (cases "ci_pack info")
    case None
    have "LooseChunk hex \<in> needed K" using k by (auto simp: needed_def)
    then show ?thesis using st None same by (simp add: chunk_stored_def)
  next
    case (Some p)
    have "PackFile p \<in> needed K" using k Some by (auto simp: needed_def)
    then have "path_bytes (gs_disk t) (PackFile p) = path_bytes (gs_disk s) (PackFile p)" by (rule same)
    from read_in_pack_cong [OF this] show ?thesis using st Some by (simp add: chunk_stored_def)
  qed
qed

lemma safe_confined:
  assumes "confined X m" "X \<inter> needed K = {}"
  shows "safe (keeps K c) (keeps K c) m (\<lambda>_ _. True)"
  using assms keeps_files unfolding safe_def confined_def by blast

text \<open>With the table of chunks standing for \<open>V\<close>, in memory or not, as \<open>b\<close> says.\<close>

definition holding :: "bool \<Rightarrow> (string \<Rightarrow> chunk_info option) \<Rightarrow> (string \<Rightarrow> chunk_info option) \<Rightarrow> (string \<Rightarrow> bytes) \<Rightarrow> global_store \<Rightarrow> bool" where
  "holding b V K c s \<longleftrightarrow> (gs_seg s = None \<longleftrightarrow> b) \<and> table_ok s \<and> table_view s = V \<and> keeps K c s"

lemma safe_holding:
  assumes "confined X m" "beyond_disk m" "X \<inter> needed K = {}"
  shows "safe (keeps K c) (holding b V K c) m (\<lambda>_. holding b V K c)"
  unfolding safe_def
proof (intro allI impI)
  fix s r s' tr assume h: "holding b V K c s" and m: "m s = (r, s', tr)"
  have k: "keeps K c t" if "t \<in> set (s' # tr)" for t
    using assms(1,3) m that h keeps_files unfolding confined_def holding_def by blast
  have "gs_index s' = gs_index s" "gs_seg s' = gs_seg s" using assms(2) m unfolding beyond_disk_def by blast+
  then have "table_ok s' \<and> table_view s' = table_view s" using either.frame_view [of s' s] h by (simp add: holding_def)
  then show "(\<forall>t \<in> set (s' # tr). keeps K c t) \<and> (\<forall>x. r = Inr x \<longrightarrow> holding b V K c s')"
    using h k \<open>gs_seg s' = gs_seg s\<close> by (simp add: holding_def)
qed

lemma safe_live:
  assumes "\<And>hex info. K hex = Some info \<Longrightarrow> V hex = Some info"
  shows "safe (keeps K c) (holding b V K c) (ask live_pack_set)
    (\<lambda>live s. holding b V K c s \<and> (\<forall>hex info p. K hex = Some info \<longrightarrow> ci_pack info = Some p \<longrightarrow> p \<in> set live))"
proof (rule safe_ask)
  fix s live assume h: "holding b V K c s" and l: "live_pack_set s = Inr live"
  have "set live = {p. \<exists>hex info. V hex = Some info \<and> ci_pack info = Some p}"
    using either.live_packs [of s] h l by (auto simp: holding_def)
  then show "holding b V K c s \<and> (\<forall>hex info p. K hex = Some info \<longrightarrow> ci_pack info = Some p \<longrightarrow> p \<in> set live)"
    using h assms by blast
qed (simp add: holding_def)

section \<open>The steps of a collection\<close>

lemma dead_pack: "(\<forall>hex info p. K hex = Some info \<longrightarrow> ci_pack info = Some p \<longrightarrow> p \<in> set live) \<Longrightarrow> p \<notin> set live
    \<Longrightarrow> {PackFile p, PackIndex p, QuarantinePack p, QuarantineIndex p, QuarantineSince p} \<inter> needed K = {}"
  by (auto simp: needed_def)

lemma quarantine_confined:
  "confined {PackFile p, PackIndex p, QuarantinePack p, QuarantineIndex p, QuarantineSince p} (quarantine_pack p)"
  unfolding quarantine_pack_def by (auto intro!: confined_rules)

lemma quarantine_beyond: "beyond_disk (quarantine_pack p)"
  unfolding quarantine_pack_def by (auto intro!: beyond_bind)

lemma safe_quarantine:
  assumes "\<forall>hex info p. K hex = Some info \<longrightarrow> ci_pack info = Some p \<longrightarrow> p \<in> set live"
  shows "safe (keeps K c) (holding b V K c) (if p \<in> set live then ret () else quarantine_pack p) (\<lambda>_. holding b V K c)"
proof (rule safe_if)
  show "safe (keeps K c) (holding b V K c) (ret ()) (\<lambda>_. holding b V K c)" by (rule safe_ret) (simp add: holding_def)
  assume "p \<notin> set live"
  from dead_pack [OF assms this] show "safe (keeps K c) (holding b V K c) (quarantine_pack p) (\<lambda>_. holding b V K c)"
    by (rule safe_holding [OF quarantine_confined quarantine_beyond])
qed

lemma safe_orphans:
  assumes "\<And>hex info. K hex = Some info \<Longrightarrow> V hex = Some info"
  shows "safe (keeps K c) (holding b V K c) (quarantine_orphan_packs grace) (\<lambda>_. holding b V K c)"
  unfolding quarantine_orphan_packs_def
proof (rule safe_bind [OF safe_live], rule assms, assumption)
  fix live
  let ?P = "\<lambda>s. holding b V K c s \<and> (\<forall>hex info p. K hex = Some info \<longrightarrow> ci_pack info = Some p \<longrightarrow> p \<in> set live)"
  show "safe (keeps K c) ?P
     (bind_run (ask (\<lambda>s. Inr (List.map_filter live_pack_file (store_paths (gs_disk s))))) (\<lambda>hexes.
     for_each (\<lambda>hex.
       if hex \<in> set live then ret ()
       else
       bind_run (ask (\<lambda>s. Inr (old_enough grace (gs_disk s) hex))) (\<lambda>old.
       if old then quarantine_pack hex else ret ())) hexes)) (\<lambda>_. holding b V K c)"
  proof (rule safe_pure [where b = "\<forall>hex info p. K hex = Some info \<longrightarrow> ci_pack info = Some p \<longrightarrow> p \<in> set live"], blast)
    assume l: "\<forall>hex info p. K hex = Some info \<longrightarrow> ci_pack info = Some p \<longrightarrow> p \<in> set live"
    let ?H = "holding b V K c"
    have keep: "keeps K c s" if "?H s" for s using that by (simp add: holding_def)
    have q: "safe (keeps K c) ?H (quarantine_pack p) (\<lambda>_. ?H)" if "p \<notin> set live" for p
      using safe_quarantine [OF l, of c b V p] that by simp
    have "safe (keeps K c) ?H (for_each (\<lambda>hex.
       if hex \<in> set live then ret ()
       else
       bind_run (ask (\<lambda>s. Inr (old_enough grace (gs_disk s) hex))) (\<lambda>old.
       if old then quarantine_pack hex else ret ())) hexes) (\<lambda>_. ?H)" for hexes
      by (intro safe_each safe_if safe_ret conjI keep safe_bind [where R = "\<lambda>_. ?H"] safe_ask q) simp_all
    then show ?thesis by (intro safe_bind [where R = "\<lambda>_. ?H"] safe_ask) (simp_all add: holding_def)
  qed
qed

lemma present_pack:
  assumes "keeps K c s" "path_file (gs_disk s) (PackFile p) = None"
  shows "PackFile p \<notin> needed K"
proof
  assume "PackFile p \<in> needed K"
  then obtain hex info where k: "K hex = Some info" "ci_pack info = Some p" by (auto simp: needed_def)
  then have "chunk_stored (gs_disk s) hex info (c hex)" using assms(1) by (simp add: keeps_def)
  then obtain off where "read_in_pack p off (ucast (len_stored info)) (gs_disk s) = Inr (c hex)"
    using k(2) by (auto simp: chunk_stored_def)
  from read_in_pack_file [OF this] show False using assms(2) by (simp add: path_bytes_def)
qed

lemma safe_restore: "safe (keeps K c) (holding b V K c) (restore_pack_from_quarantine hex) (\<lambda>_. holding b V K c)"
proof -
  let ?H = "holding b V K c"
  have keep: "keeps K c s" if "?H s" for s using that by (simp add: holding_def)
  have pack: "safe (keeps K c) (\<lambda>s. ?H s \<and> (pack \<longrightarrow> PackFile hex \<notin> needed K))
      (if pack then rename_path (QuarantinePack hex) (PackFile hex) else ret ()) (\<lambda>_. ?H)" for pack
  proof (rule safe_if)
    assume p: pack
    show "safe (keeps K c) (\<lambda>s. ?H s \<and> (pack \<longrightarrow> PackFile hex \<notin> needed K)) (rename_path (QuarantinePack hex) (PackFile hex)) (\<lambda>_. ?H)"
    proof (rule safe_pure [where b = "PackFile hex \<notin> needed K"])
      assume n: "PackFile hex \<notin> needed K"
      have "{QuarantinePack hex, PackFile hex} \<inter> needed K = {}" using n by (auto simp: needed_def)
      then have "safe (keeps K c) ?H (rename_path (QuarantinePack hex) (PackFile hex)) (\<lambda>_. ?H)"
        by (intro safe_holding [where X = "{QuarantinePack hex, PackFile hex}"] confined_rename) simp_all
      then show "safe (keeps K c) (\<lambda>s. ?H s \<and> (pack \<longrightarrow> PackFile hex \<notin> needed K)) (rename_path (QuarantinePack hex) (PackFile hex)) (\<lambda>_. ?H)"
        by (rule safe_pre) blast
    qed (use p in blast)
  qed (auto intro: safe_ret keep)
  have index: "safe (keeps K c) ?H (if i then rename_path (QuarantineIndex hex) (PackIndex hex) else ret ()) (\<lambda>_. ?H)" for i
    by (intro safe_if safe_holding [where X = "{QuarantineIndex hex, PackIndex hex}"] confined_rename) (auto simp: needed_def)
  have since: "safe (keeps K c) ?H (remove_path (QuarantineSince hex)) (\<lambda>_. ?H)"
    by (intro safe_holding [where X = "{QuarantineSince hex}"] confined_remove) (auto simp: needed_def)
  show ?thesis unfolding restore_pack_from_quarantine_def
    by (rule safe_bind [where R = "\<lambda>_. ?H"], rule safe_ask, erule keep, assumption,
        rule safe_bind [where R = "\<lambda>pack s. ?H s \<and> (pack \<longrightarrow> PackFile hex \<notin> needed K)"], rule safe_ask, erule keep,
        use present_pack in \<open>force simp: holding_def\<close>,
        rule safe_bind [OF pack], rule safe_bind [where R = "\<lambda>_. ?H"], rule safe_ask, erule keep, assumption,
        rule safe_bind [OF index], rule since)
qed

lemma safe_sum: "(\<And>x. x \<in> set xs \<Longrightarrow> safe Q P (f x) (\<lambda>_. P)) \<Longrightarrow> (\<And>s. P s \<Longrightarrow> Q s) \<Longrightarrow> safe Q P (sum_runs f xs) (\<lambda>_. P)"
  by (induction xs) (auto intro!: safe_bind intro: safe_ret)

lemma safe_sweep_quarantine:
  assumes "\<And>hex info. K hex = Some info \<Longrightarrow> V hex = Some info"
  shows "safe (keeps K c) (holding b V K c) (sweep_quarantine grace) (\<lambda>_. holding b V K c)"
proof -
  let ?H = "holding b V K c"
  have keep: "keeps K c s" if "?H s" for s using that by (simp add: holding_def)
  have gone: "safe (keeps K c) ?H (bind_run (ask (\<lambda>s. Inr (now_epoch (gs_disk s)))) (\<lambda>now.
      bind_run (ask (\<lambda>s. Inr (path_bytes (gs_disk s) (QuarantineSince hex)))) (\<lambda>stamp.
      case Option.bind stamp (\<lambda>bs. if is_utf8 bs then parse_u64 (trim_end (trim_start (text_of bs))) else None) of
        None \<Rightarrow> bind_run (write_path (QuarantineSince hex) (ascii (decimal (unat now)))) (\<lambda>_. ret 0)
      | Some since \<Rightarrow>
          if unat now - unat since < unat grace then ret 0
          else
          bind_run (ask (\<lambda>s. Inr (case path_bytes (gs_disk s) (QuarantinePack hex) of None \<Rightarrow> 0 | Some bs \<Rightarrow> of_nat (length bs)))) (\<lambda>len.
          bind_run (remove_path (QuarantinePack hex)) (\<lambda>_.
          bind_run (remove_path (QuarantineIndex hex)) (\<lambda>_.
          bind_run (remove_path (QuarantineSince hex)) (\<lambda>_.
          ret len))))))) (\<lambda>_. ?H)" for hex
    by (rule safe_holding [where X = "{QuarantinePack hex, QuarantineIndex hex, QuarantineSince hex}"])
      (auto simp: needed_def split: option.split intro!: confined_rules beyond_bind)
  have one: "safe (keeps K c) ?H (sweep_quarantined grace live hex) (\<lambda>_. ?H)" for live hex
    unfolding sweep_quarantined_def
    by (rule safe_if, rule safe_bind [OF safe_restore], rule safe_ret, simp add: holding_def, rule gone)
  have "safe (keeps K c) ?H (ask live_pack_set) (\<lambda>_. ?H)" by (rule safe_ask) (simp_all add: holding_def)
  then have "safe (keeps K c) ?H (bind_run (ask live_pack_set) (\<lambda>live. sum_runs (sweep_quarantined grace live) hexes)) (\<lambda>_. ?H)" for hexes
    by (rule safe_bind) (intro safe_sum one keep)
  note live = this
  show ?thesis unfolding sweep_quarantine_def
    by (rule safe_bind [where R = "\<lambda>_. ?H"], rule safe_ask, erule keep, assumption, rule safe_if, rule safe_ret,
        simp add: holding_def, rule live)
qed

lemma safe_dead_records: "safe (keeps K c) (holding b V K c) sweep_dead_record_packs (\<lambda>_. holding b V K c)"
  unfolding sweep_dead_record_packs_def
  by (rule safe_holding [where X = "range RecordPack"])
    (auto simp: needed_def intro!: confined_rules beyond_bind beyond_each)

section \<open>Removing the doomed\<close>

lemma safe_remove:
  assumes "hex_of_hash hex" "K hex = None"
  shows "safe (keeps K c) (holding b V K c) (remove_doomed hex) (\<lambda>_. holding b (V(hex := None)) K c)"
proof -
  let ?H = "holding b (V(hex := None)) K c"
  have "safe (keeps K c) (holding b V K c) (chunk_remove hex) (\<lambda>_. ?H)"
    unfolding safe_def
  proof (intro allI impI)
    fix s r s' tr assume h: "holding b V K c s" and m: "chunk_remove hex s = (r, s', tr)"
    from either.remove_view [OF _ assms(1), of s] h m have
      x: "tr = []" "table_ok s'" "table_view s' = V(hex := None)" "outside s' = outside s" by (auto simp: holding_def)
    have "gs_disk s' = gs_disk s" by (rule outsideD(1) [OF x(4)])
    then show "(\<forall>t \<in> set (s' # tr). keeps K c t) \<and> (\<forall>x. r = Inr x \<longrightarrow> ?H s')"
      using h x outsideD(9) [OF x(4)] by (simp add: holding_def keeps_def)
  qed
  moreover have "{LooseChunk hex} \<inter> needed K = {}" using assms(2) by (auto simp: needed_def)
  then have "safe (keeps K c) ?H (remove_path (LooseChunk hex)) (\<lambda>_. ?H)"
    by (intro safe_holding [where X = "{LooseChunk hex}"] confined_remove) simp_all
  then have "safe (keeps K c) ?H (case old of
       None \<Rightarrow> ret (0, None)
     | Some info \<Rightarrow>
         (case ci_pack info of
            Some pack \<Rightarrow> ret (0, Some pack)
          | None \<Rightarrow> bind_run (remove_path (LooseChunk hex)) (\<lambda>_. ret (ucast (len_stored info), None)))) (\<lambda>_. ?H)" for old
    by (auto split: option.split intro!: safe_ret safe_bind [where R = "\<lambda>_. ?H"] simp: holding_def)
  ultimately show ?thesis unfolding remove_doomed_def by (rule safe_bind)
qed

lemma safe_remove_all:
  assumes "\<forall>hex \<in> set hexes. hex_of_hash hex \<and> K hex = None"
  shows "safe (keeps K c) (holding b V K c) (remove_all_doomed hexes) (\<lambda>_. holding b (\<lambda>h. if h \<in> set hexes then None else V h) K c)"
  using assms
proof (induction hexes arbitrary: V)
  case (Cons hex hexes)
  let ?V = "\<lambda>h. if h \<in> set hexes then None else (V(hex := None)) h"
  have one: "safe (keeps K c) (holding b V K c) (remove_doomed hex) (\<lambda>_. holding b (V(hex := None)) K c)"
    using Cons.prems by (intro safe_remove) auto
  have "safe (keeps K c) (holding b (V(hex := None)) K c) (remove_all_doomed hexes) (\<lambda>_. holding b ?V K c)"
    by (rule Cons.IH) (use Cons.prems in simp)
  note rest = this
  have v: "(\<lambda>h. if h \<in> set (hex # hexes) then None else V h) = ?V" by auto
  show ?case unfolding remove_all_doomed.simps v
    by (rule safe_bind [OF one], simp only: split_paired_all prod.case, rule safe_bind [OF rest],
        simp only: split_paired_all prod.case, rule safe_ret, simp add: holding_def)
qed (simp, rule safe_ret, simp add: holding_def)

section \<open>A collection\<close>

text \<open>The chunks a collection at the store's time is to remove, and those it is not.\<close>

definition doomed_now :: "u64 \<Rightarrow> global_store \<Rightarrow> string \<Rightarrow> bool" where
  "doomed_now grace s hex \<longleftrightarrow> (\<exists>info. table_view s hex = Some info \<and> aged_out (now_epoch (gs_disk s)) grace info)"

definition spared :: "u64 \<Rightarrow> global_store \<Rightarrow> string \<Rightarrow> chunk_info option" where
  "spared grace s = (\<lambda>hex. if doomed_now grace s hex then None else table_view s hex)"

text \<open>A collection up to its save.\<close>

definition gc_until_save :: "'v store_env \<Rightarrow> u64 \<Rightarrow> (nat \<times> u64) store_run" where
  "gc_until_save env grace =
     bind_run (ask (\<lambda>s. rbind (chunks_iter s) (\<lambda>cs.
       Inr (map fst (filter (\<lambda>(_, info). aged_out (now_epoch (gs_disk s)) grace info) cs))))) (\<lambda>doomed.
     bind_run (remove_all_doomed doomed) (\<lambda>(bs, touched).
     bind_run
       (if touched = [] then ret ()
        else
        bind_run (ask live_pack_set) (\<lambda>live.
        for_each (\<lambda>pack. if pack \<in> set live then ret () else quarantine_pack pack) (hash_order env touched))) (\<lambda>_.
     bind_run (quarantine_orphan_packs grace) (\<lambda>_.
     bind_run (sweep_quarantine grace) (\<lambda>more.
     bind_run sweep_dead_record_packs (\<lambda>_.
     ret (length doomed, bs + more)))))))"

lemma bind_assoc: "bind_run (bind_run m k) l = bind_run m (\<lambda>x. bind_run (k x) l)"
  by (rule ext) (auto simp: bind_run_def split: prod.splits sum.splits)

lemma bind_ret: "bind_run (ret x) k = k x"
  by (rule ext) (simp add: bind_run_def ret_def split: prod.splits)

lemma gc_eq: "gc env grace = bind_run (gc_until_save env grace) (\<lambda>result. bind_run (save_index env) (\<lambda>_. ret result))"
  unfolding gc_def gc_until_save_def bind_assoc bind_ret by (simp only: case_prod_unfold bind_assoc bind_ret)

lemma doomed_listed:
  assumes "table_ok s" "chunks_iter s = Inr cs"
  shows "set (map fst (filter (\<lambda>(_, info). aged_out (now_epoch (gs_disk s)) grace info) cs)) = {hex. doomed_now grace s hex}"
    "distinct (map fst (filter (\<lambda>(_, info). aged_out (now_epoch (gs_disk s)) grace info) cs))"
proof -
  have "bt_ok cs" using either.iter_view [OF assms(1)] assms(2) by auto
  then show "distinct (map fst (filter (\<lambda>(_, info). aged_out (now_epoch (gs_disk s)) grace info) cs))"
    by (intro distinct_map_filter bt_ok_distinct)
  show "set (map fst (filter (\<lambda>(_, info). aged_out (now_epoch (gs_disk s)) grace info) cs)) = {hex. doomed_now grace s hex}"
    using either.iter_set [OF assms] by (force simp: doomed_now_def)
qed

theorem sweep_safe:
  assumes "table_ok s0" "keeps K c s0" "\<And>hex info. K hex = Some info \<Longrightarrow> spared grace s0 hex = Some info"
    and "b \<longleftrightarrow> gs_seg s0 = None"
  shows "safe (keeps K c) (\<lambda>s. s = s0) (gc_until_save env grace)
    (\<lambda>(n, bs) s. holding b (spared grace s0) K c s \<and> n = card {hex. doomed_now grace s0 hex})"
proof -
  let ?V = "spared grace s0"
  let ?H = "holding b ?V K c"
  have keep: "keeps K c s" if "?H s" for s using that by (simp add: holding_def)
  have h0: "holding b (table_view s0) K c s0" using assms(1,2,4) by (simp add: holding_def)
  have ask: "safe (keeps K c) (\<lambda>s. s = s0) (ask (\<lambda>s. rbind (chunks_iter s) (\<lambda>cs.
       Inr (map fst (filter (\<lambda>(_, info). aged_out (now_epoch (gs_disk s)) grace info) cs)))))
     (\<lambda>doomed s. s = s0 \<and> set doomed = {hex. doomed_now grace s0 hex} \<and> length doomed = card {hex. doomed_now grace s0 hex})"
  proof (rule safe_ask)
    fix s doomed assume e: "s = s0" and "rbind (chunks_iter s) (\<lambda>cs.
       Inr (map fst (filter (\<lambda>(_, info). aged_out (now_epoch (gs_disk s)) grace info) cs))) = Inr doomed"
    then obtain cs where cs: "chunks_iter s0 = Inr cs"
        "doomed = map fst (filter (\<lambda>(_, info). aged_out (now_epoch (gs_disk s0)) grace info) cs)" by (auto simp: rbind_eq_Inr)
    note l = doomed_listed [OF assms(1) cs(1), of grace, folded cs(2)]
    show "s = s0 \<and> set doomed = {hex. doomed_now grace s0 hex} \<and> length doomed = card {hex. doomed_now grace s0 hex}"
      using e l(1) distinct_card [OF l(2)] by simp
  qed (use assms(2) in simp)
  have orphans: "safe (keeps K c) ?H (quarantine_orphan_packs grace) (\<lambda>_. ?H)" by (rule safe_orphans [OF assms(3)])
  have sweep: "safe (keeps K c) ?H (sweep_quarantine grace) (\<lambda>_. ?H)" by (rule safe_sweep_quarantine [OF assms(3)])
  have touched: "safe (keeps K c) ?H (if touched = [] then ret ()
        else
        bind_run (ask live_pack_set) (\<lambda>live.
        for_each (\<lambda>pack. if pack \<in> set live then ret () else quarantine_pack pack) packs)) (\<lambda>_. ?H)" for touched :: "string list" and packs
  proof (rule safe_if, rule safe_ret, simp add: holding_def, rule safe_bind [OF safe_live], rule assms(3), assumption)
    fix live
    show "safe (keeps K c) (\<lambda>s. ?H s \<and> (\<forall>hex info p. K hex = Some info \<longrightarrow> ci_pack info = Some p \<longrightarrow> p \<in> set live))
      (for_each (\<lambda>pack. if pack \<in> set live then ret () else quarantine_pack pack) packs) (\<lambda>_. ?H)"
      by (rule safe_pure [where b = "\<forall>hex info p. K hex = Some info \<longrightarrow> ci_pack info = Some p \<longrightarrow> p \<in> set live"], blast,
          rule safe_pre [OF safe_each [OF safe_quarantine keep]]) blast+
  qed
  show ?thesis unfolding gc_until_save_def
  proof (rule safe_bind [OF ask])
    fix doomed
    let ?D = "set doomed = {hex. doomed_now grace s0 hex} \<and> length doomed = card {hex. doomed_now grace s0 hex}"
    let ?run = "bind_run (remove_all_doomed doomed) (\<lambda>(bs, touched).
     bind_run
       (if touched = [] then ret ()
        else
        bind_run (ask live_pack_set) (\<lambda>live.
        for_each (\<lambda>pack. if pack \<in> set live then ret () else quarantine_pack pack) (hash_order env touched))) (\<lambda>_.
     bind_run (quarantine_orphan_packs grace) (\<lambda>_.
     bind_run (sweep_quarantine grace) (\<lambda>more.
     bind_run sweep_dead_record_packs (\<lambda>_.
     ret (length doomed, bs + more))))))"
    show "safe (keeps K c) (\<lambda>s. s = s0 \<and> ?D) ?run
       (\<lambda>(n, bs) s. ?H s \<and> n = card {hex. doomed_now grace s0 hex})"
    proof (rule safe_pure [where b = ?D], blast)
      assume d: ?D
      have "\<forall>hex \<in> set doomed. hex_of_hash hex \<and> K hex = None"
      proof
        fix hex assume "hex \<in> set doomed"
        then have n: "doomed_now grace s0 hex" using d by blast
        then have "hex_of_hash hex" using either.view_hex [OF assms(1)] by (auto simp: doomed_now_def)
        moreover have "K hex = None" using n assms(3) [of hex] by (cases "K hex") (auto simp: spared_def)
        ultimately show "hex_of_hash hex \<and> K hex = None" by blast
      qed
      from safe_remove_all [OF this, of c b "table_view s0"]
      have "safe (keeps K c) (holding b (table_view s0) K c) (remove_all_doomed doomed) (\<lambda>_. ?H)"
        using d by (simp add: spared_def)
      then have rem: "safe (keeps K c) (\<lambda>s. s = s0 \<and> ?D) (remove_all_doomed doomed) (\<lambda>_. ?H)"
        by (rule safe_pre) (use h0 in blast)
      show "safe (keeps K c) (\<lambda>s. s = s0 \<and> ?D) ?run (\<lambda>(n, bs) s. ?H s \<and> n = card {hex. doomed_now grace s0 hex})"
        by (rule safe_bind [OF rem], simp only: split_paired_all prod.case, rule safe_bind [OF touched],
            rule safe_bind [OF orphans], rule safe_bind [OF sweep], rule safe_bind [OF safe_dead_records], rule safe_ret,
            use d keep in blast)
    qed
  qed
qed

theorem gc_safe:
  assumes "table_ok s0" "keeps K c s0" "\<And>hex info. K hex = Some info \<Longrightarrow> spared grace s0 hex = Some info"
  shows "safe (keeps K c) (\<lambda>s. s = s0) (gc env grace) (\<lambda>_ _. True)"
proof -
  have "save_paths \<inter> needed K = {}" by (auto simp: save_paths_def record_paths_def needed_def)
  from safe_confined [OF confined_save this, of c env]
  have save: "safe (keeps K c) (keeps K c) (save_index env) (\<lambda>_. keeps K c)"
    unfolding safe_def by (metis list.set_intros(1))
  have last: "safe (keeps K c) (\<lambda>s. holding (gs_seg s0 = None) (spared grace s0) K c s \<and> n = card {hex. doomed_now grace s0 hex})
      (bind_run (save_index env) (\<lambda>_. ret (n, bs))) (\<lambda>_ _. True)" for n and bs :: u64
    by (rule safe_bind [OF safe_pre [OF save]]) (auto simp: holding_def intro: safe_ret)
  show ?thesis unfolding gc_eq
    by (rule safe_bind [OF sweep_safe [OF assms refl]]) (use last in \<open>auto split: prod.splits\<close>)
qed

theorem gc_table:
  assumes "table_ok s0" "gs_seg s0 = None" "gc env grace s0 = (Inr (n, bs), s', tr)"
  shows "table_view s' = spared grace s0 \<and> n = card {hex. doomed_now grace s0 hex}"
proof -
  from bind_done [OF assms(3) [unfolded gc_eq]] obtain res s1 tr1 tr2 where
    a: "gc_until_save env grace s0 = (Inr res, s1, tr1)" "bind_run (save_index env) (\<lambda>_. ret res) s1 = (Inr (n, bs), s', tr2)" by blast
  from bind_done [OF a(2)] obtain tr3 where v: "save_index env s1 = (Inr (), s', tr3)" "res = (n, bs)" by (auto simp: ret_def)
  have "safe (keeps (\<lambda>_. None) (\<lambda>_. [])) (\<lambda>s. s = s0) (gc_until_save env grace)
    (\<lambda>(n, bs) s. holding True (spared grace s0) (\<lambda>_. None) (\<lambda>_. []) s \<and> n = card {hex. doomed_now grace s0 hex})"
    by (rule sweep_safe [OF assms(1)]) (simp_all add: keeps_def assms(2))
  then have h: "gs_seg s1 = None" "table_ok s1" "table_view s1 = spared grace s0" "n = card {hex. doomed_now grace s0 hex}"
    using a(1) v(2) unfolding safe_def holding_def by blast+
  have k: "gs_seg s' = None" "ix_chunks (gs_index s') = ix_chunks (gs_index s1)" using keeps_table_save [OF v(1) h(1)] by blast+
  then have "gs_seg s' = gs_seg s1" using h(1) by simp
  from either.frame_view [OF this k(2) h(2)] show ?thesis using h(3,4) by simp
qed

end
