(* ===== verification/Ledger_Commit.thy ===== *)
theory Ledger_Commit
  imports Ledger_Ops
begin

text \<open>
  Pruning, compacting, committing and creating a ledger, step by step: each returns, and every
  directory it passes through holds a ledger with the view and the asset table from before or from
  after the operation.
\<close>

section \<open>Pruning\<close>

lemma remove_gens_goes:
  assumes "ledger lib blake3 U g layout descs assets d" "g \<notin> set hs"
  shows "\<exists>d'. goes (ledger lib blake3 U g layout descs assets) (remove_gens hs) d () d'
    \<and> ledger lib blake3 U g layout descs assets d' \<and> set (id_gens d') \<subseteq> set (id_gens d)"
  using assms
proof (induction hs arbitrary: d)
  case Nil
  then show ?case by (auto intro: goes_ret)
next
  case (Cons h hs)
  let ?L = "ledger lib blake3 U g layout descs assets"
  have "gen_name h \<noteq> gen_name g" using Cons.prems(2) by auto
  from remove_gen_goes [OF Cons.prems(1) this] obtain d1 where
    d1: "goes ?L (remove_gen (gen_name h)) d () d1" "?L d1"
      "id_gens d1 = removeAll (gen_name h) (id_gens d)" by blast
  from Cons.IH [OF d1(2)] Cons.prems(2) obtain d' where d': "goes ?L (remove_gens hs) d1 () d'" "?L d'"
      "set (id_gens d') \<subseteq> set (id_gens d1)" by auto
  have "goes ?L (remove_gens (h # hs)) d () d'"
    unfolding remove_gens.simps by (rule goes_bind, rule d1(1), rule d'(1))
  then show ?case using d'(2,3) d1(3) by (intro exI [of _ d']) auto
qed

lemma newest_kept:
  assumes "g \<in> set gens" "\<forall>h \<in> set gens. h \<le> (g :: u64)"
  shows "g \<in> set (kept_gens gens)"
proof -
  have ne: "sort gens \<noteq> []" using assms(1) by (metis list.set_cases list.simps(3) set_sort)
  have "last (sort gens) \<in> set gens" using ne by (metis last_in_set set_sort)
  then have "last (sort gens) \<le> g" using assms(2) by blast
  moreover have "g \<le> last (sort gens)"
  proof -
    have "g \<in> set (sort gens)" using assms(1) by simp
    then obtain i where i: "i < length (sort gens)" "sort gens ! i = g" by (auto simp only: in_set_conv_nth)
    then have "sort gens ! i \<le> sort gens ! (length (sort gens) - 1)"
      by (intro sorted_nth_mono) (simp_all del: length_sort)
    then show ?thesis unfolding last_conv_nth [OF ne] i(2) .
  qed
  ultimately have "hd (rev (sort gens)) = g" using ne by (simp add: hd_rev)
  moreover have "hd (rev (sort gens)) \<in> set (take 2 (rev (sort gens)))"
    using ne by (cases "rev (sort gens)") simp_all
  ultimately show ?thesis by (simp add: kept_gens_def)
qed

lemma ledger_drop_orphan:
  assumes "ledger lib blake3 U g layout descs assets d" "n \<notin> rs_file ` fst ` set descs"
  shows "ledger lib blake3 U g layout descs assets (drop_file (PoolFile n) d)"
proof -
  have "desc_stored blake3 (drop_file (PoolFile n) d) x" if "x \<in> set descs" for x
  proof -
    have "desc_stored blake3 d x" using assms(1) that by (simp add: ledger_def gen_files_def)
    moreover have "rs_file (fst x) \<noteq> n" using assms(2) that by blast
    ultimately show ?thesis by (auto simp: desc_stored_def split: prod.splits)
  qed
  then show ?thesis using assms(1) by (auto simp: ledger_def gen_files_def pool_in_def)
qed

theorem prune_goes:
  assumes "lib_ok lib" "ledger lib blake3 U g layout descs assets d" "gens_upto g (id_gens d)"
  shows "\<exists>d'. goes (ledger lib blake3 U g layout descs assets) (prune_generations lib blake3) d () d'
    \<and> ledger lib blake3 U g layout descs assets d' \<and> gens_upto g (id_gens d')"
proof -
  let ?L = "ledger lib blake3 U g layout descs assets"
  define gens where "gens = sort (List.map_filter gen_number (id_gens d))"
  define keep where "keep = kept_gens gens"
  have gens: "set gens = {h. \<exists>n \<in> set (id_gens d). gen_number n = Some h}"
    by (auto simp: gens_def List.map_filter_def image_iff) (metis option.sel)
  have "gen_name g \<in> set (id_gens d)" using assms(2) by (simp add: ledger_def gen_files_def)
  then have "g \<in> set gens" using gens by force
  moreover have "\<forall>h \<in> set gens. h \<le> g" using assms(3) gens by (auto simp: gens_upto_def)
  ultimately have kept: "g \<in> set keep" unfolding keep_def by (rule newest_kept)
  then have "g \<notin> set (filter (\<lambda>g. g \<notin> set keep) gens)" by simp
  from remove_gens_goes [OF assms(2) this] obtain d1 where
    d1: "goes ?L (remove_gens (filter (\<lambda>g. g \<notin> set keep) gens)) d () d1" "?L d1" "set (id_gens d1) \<subseteq> set (id_gens d)" by blast
  define orphans where "orphans = orphan_segments (referenced_files lib blake3 keep d1) d1"
  let ?root = "\<lparr>rb_version = 1, rb_generation = g, rb_layout = layout, rb_segments = map fst descs\<rparr>"
  have "read_seg_root lib blake3 (gen_name g) d1 = Inr ?root"
    using d1(2) parse_root_bytes [OF assms(1), of ?root] by (simp add: read_seg_root_def ledger_def gen_files_def)
  then have "rs_file ` fst ` set descs \<subseteq> set (referenced_files lib blake3 keep d1)"
    using kept by (force simp: referenced_files_def)
  then have orph: "\<exists>n. p = PoolFile n \<and> n \<notin> rs_file ` fst ` set descs" if "p \<in> set orphans" for p
    using that by (auto simp: orphans_def orphan_segments_def)
  obtain d2 where d2: "goes ?L (drop_files orphans) d1 () d2" "?L d2" "id_gens d2 = id_gens d1"
    using drop_files_goes [of ?L d1 orphans] d1(2) orph ledger_drop_orphan by metis
  define w1 where "w1 = put_file WalLog [] d2"
  define w2 where "w2 = put_file WalLog [] w1"
  have w: "?L w1" "?L w2" using ledger_put(1) [of lib blake3 U g layout descs assets _ WalLog] d2(2)
    by (simp_all add: w1_def w2_def)
  have "goes ?L (prune_generations lib blake3) d () w2"
    unfolding prune_generations_def Let_def
    by (rule goes_bind, rule goes_ask, rule refl, fold gens_def, fold keep_def, rule goes_bind, rule d1(1),
        rule goes_bind, rule goes_ask, rule refl, fold orphans_def, rule goes_bind, rule d2(1),
        rule goes_writeI [OF w1_def w2_def w])
  moreover have "gens_upto g (id_gens w2)"
    using assms(3) d1(3) d2(3) by (auto simp: w1_def w2_def gens_upto_def)
  ultimately show ?thesis using w(2) by blast
qed

section \<open>Compacting\<close>

text \<open>A directory holds some ledger with this view and this asset table.\<close>

definition shows_view :: "'v ledger_lib \<Rightarrow> hash_fun \<Rightarrow> bytes set \<Rightarrow> (chunk_hash \<Rightarrow> chunk_info option) \<Rightarrow> asset_table \<Rightarrow> index_dir \<Rightarrow> bool" where
  "shows_view lib blake3 U v assets d \<longleftrightarrow>
     (\<exists>g layout descs. ledger lib blake3 U g layout descs assets d \<and> view_of descs = v)"

lemma shows_viewI: "ledger lib blake3 U g layout descs assets d \<Longrightarrow> shows_view lib blake3 U (view_of descs) assets d"
  by (auto simp: shows_view_def)

lemma live_map_live: "live_map (live_entries xs) = map_of xs"
proof
  fix h show "live_map (live_entries xs) h = map_of xs h"
    by (induction xs) (auto simp: live_map_def live_entries_def)
qed

lemma view_of_bases:
  assumes "\<forall>x \<in> set descs. fst (snd x) = BaseSeg" "concat (map (\<lambda>x. snd (snd x)) descs) = live_entries xs"
  shows "view_of descs = map_of xs"
proof -
  have "filter (\<lambda>x. fst (snd x) = BaseSeg) descs = descs" "filter (\<lambda>x. fst (snd x) = DeltaSeg) descs = []"
    using assms(1) by (auto simp: filter_id_conv filter_empty_conv)
  then show ?thesis by (simp add: view_of_def newest_first_def assms(2) live_map_live)
qed

text \<open>The entries a live view is written with.\<close>

definition graph_of :: "(chunk_hash \<Rightarrow> chunk_info option) \<Rightarrow> seg_entry set" where
  "graph_of v = {(h, Some info) | h info. v h = Some info}"

definition view_ok :: "(chunk_hash \<Rightarrow> chunk_info option) \<Rightarrow> bool" where
  "view_ok v \<longleftrightarrow> (\<forall>e \<in> graph_of v. valid_entry e)"

lemma live_entries_graph:
  assumes "map_of xs = v" "sorted_wrt (<) (map fst xs)"
  shows "set (live_entries xs) = graph_of v" "sorted_wrt (<) (map fst (live_entries xs))"
proof -
  have d: "distinct (map fst xs)" using assms(2) by (simp add: strict_sorted_iff)
  have "(h, info) \<in> set xs \<longleftrightarrow> v h = Some info" for h info
    using map_of_eq_Some_iff [OF d] assms(1) by blast
  then show "set (live_entries xs) = graph_of v" by (force simp: live_entries_def graph_of_def image_iff)
  have "map fst (live_entries xs) = map fst xs" by (auto simp: live_entries_def)
  then show "sorted_wrt (<) (map fst (live_entries xs))" using assms(2) by simp
qed

lemma seg_target_bounds: "0 < seg_target_records" "seg_target_records < 2 ^ 31"
  by (simp_all add: seg_target_records_def seg_record_len_def)

lemma next_generation: "unat g + 1 < 2 ^ 64 \<Longrightarrow> g + 1 \<noteq> (g :: u64)"
  by simp

text \<open>The view a ledger shows has only valid entries.\<close>

lemma stored_valid:
  assumes "\<forall>x \<in> set descs. desc_stored blake3 d x"
  shows "view_ok (view_of descs)"
proof -
  have "valid_entry (h, Some info)" if "view_of descs h = Some info" for h info
  proof -
    have "map_of (concat (newest_first descs)) h = Some (Some info)"
      using that by (auto simp: view_of_def live_map_def split: option.splits)
    then have "(h, Some info) \<in> set (concat (newest_first descs))" by (rule map_of_SomeD)
    then obtain x where "x \<in> set descs" "(h, Some info) \<in> set (snd (snd x))"
      by (auto simp: newest_first_def)
    then show ?thesis using assms by (auto simp: desc_stored_def good_entries_def list_all_iff)
  qed
  then show ?thesis by (auto simp: view_ok_def graph_of_def)
qed

theorem compact_goes:
  assumes "lib_ok lib" "hash_ok blake3" "inj_on blake3 U" "bodies_in U (graph_of (view_of descs))"
    and "ledger lib blake3 U g layout descs assets0 d" "handle_ok idx g layout descs" "assets_ok lib assets"
  shows "\<exists>idx' d' descs'. goes (\<lambda>s. ledger lib blake3 U g layout descs assets0 s \<or> shows_view lib blake3 U (view_of descs) assets s)
      (compact_index lib blake3 assets idx) d idx' d'
    \<and> ledger lib blake3 U (g + 1) layout descs' assets d' \<and> handle_ok idx' (g + 1) layout descs'
    \<and> view_of descs' = view_of descs \<and> gens_upto (g + 1) (id_gens d')"
proof -
  let ?old = "ledger lib blake3 U g layout descs assets0"
  let ?Q = "\<lambda>s. ?old s \<or> shows_view lib blake3 U (view_of descs) assets s"
  have gen: "si_generation idx = g" "si_layout idx = layout" using assms(6) by (auto simp: handle_ok_def)
  from kept.wal_goes [OF assms(5), of "''begin''" "g + 1"] obtain d1 where
    d1: "goes ?old (wal_append ''begin'' (g + 1)) d () d1" "?old d1" "quiet d d1" by blast
  from kept.gen_goes [OF d1(2), of "gen_name (g + 1)"] obtain d2 where
    d2: "goes ?old (make_gen (gen_name (g + 1))) d1 () d2" "?old d2"
      "set (id_gens d2) = insert (gen_name (g + 1)) (set (id_gens d1))" by blast
  from live_records_ok [OF assms(6)] obtain xs where
    xs: "live_records idx = Inr (hex_live xs)" "sorted_wrt (<) (map fst xs)" "map_of xs = view_of descs" by blast
  note g = live_entries_graph [OF xs(3) xs(2)]
  have "view_ok (view_of descs)"
    using assms(5) by (intro stored_valid [of _ blake3 d]) (simp add: ledger_def gen_files_def)
  then have v: "list_all valid_entry ([] @ live_entries xs)" using g(1) by (simp add: list_all_iff view_ok_def)
  have rest: "sorted_wrt (<) (map fst ([] @ live_entries xs))" "set ([] @ live_entries xs) \<subseteq> graph_of (view_of descs)"
      "length ([] :: seg_entry list) < seg_target_records"
    using g seg_target_bounds by simp_all
  from kept.batches_goes [OF d2(2) assms(2-4) seg_target_bounds v rest] obtain descs' d3 where
    d3: "goes ?old (write_batches blake3 seg_target_records (hex_records []) (hex_live xs)) d2 (map fst descs') d3"
      "?old d3" "quiet d2 d3" "\<forall>x \<in> set descs'. desc_stored blake3 d3 x \<and> fst (snd x) = BaseSeg"
      "concat (map (\<lambda>x. snd (snd x)) descs') = [] @ live_entries xs" by blast
  have view: "view_of descs' = view_of descs" using view_of_bases [of descs' xs] d3(4,5) xs(3) by simp
  have st: "\<forall>x \<in> set descs'. desc_stored blake3 d3 x" and ng: "gen_name (g + 1) \<in> set (id_gens d3)" and ne: "g + 1 \<noteq> g"
    using d3(3,4) d2(3) by (auto simp: quiet_def)
  let ?new = "ledger lib blake3 U (g + 1) layout descs' assets"
  from kept.publish_goes [OF d3(2) assms(1) ne assms(7) st ng] obtain d4 where
    d4: "goes (\<lambda>s. ?old s \<or> ?new s) (publish_generation lib blake3 (g + 1) layout (map fst descs') assets) d3 () d4"
      "?new d4" by blast
  from open_goes [OF assms(1,2) d4(2)] obtain idx' d5 where
    d5: "goes ?new (open_index lib blake3) d4 (idx', assets) d5" "?new d5" "handle_ok idx' (g + 1) layout descs'"
      "gens_upto (g + 1) (id_gens d5)" by blast
  from prune_goes [OF assms(1) d5(2,4)] obtain d6 where
    d6: "goes ?new (prune_generations lib blake3) d5 () d6" "?new d6" "gens_upto (g + 1) (id_gens d6)" by blast
  have new: "?Q s" if "?new s" for s using shows_viewI [OF that] view by simp
  have "goes ?Q (compact_index lib blake3 assets idx) d idx' d6"
    unfolding compact_index_def Let_def gen
  proof (rule goes_bind)
    show "goes ?Q (wal_append ''begin'' (g + 1)) d () d1" by (rule goes_mono [OF d1(1)]) blast
    show "goes ?Q (bind_run (make_gen (gen_name (g + 1))) (\<lambda>_.
        bind_run (ask (\<lambda>_. live_records idx)) (\<lambda>live.
        bind_run (write_batches blake3 seg_target_records [] live) (\<lambda>segs.
        bind_run (publish_generation lib blake3 (g + 1) layout segs assets) (\<lambda>_.
        bind_run (open_index lib blake3) (\<lambda>(fresh, _).
        bind_run (prune_generations lib blake3) (\<lambda>_. ret fresh))))))) d1 idx' d6"
    proof (rule goes_bind)
      show "goes ?Q (make_gen (gen_name (g + 1))) d1 () d2" by (rule goes_mono [OF d2(1)]) blast
      have b: "goes ?Q (write_batches blake3 seg_target_records [] (hex_live xs)) d2 (map fst descs') d3"
        using goes_mono [OF d3(1), of ?Q] by simp
      have p: "goes ?Q (publish_generation lib blake3 (g + 1) layout (map fst descs') assets) d3 () d4"
        by (rule goes_mono [OF d4(1)]) (use new in blast)
      have o: "goes ?Q (open_index lib blake3) d4 (idx', assets) d5" by (rule goes_mono [OF d5(1) new])
      have q: "goes ?Q (prune_generations lib blake3) d5 () d6" by (rule goes_mono [OF d6(1) new])
      have tail: "goes ?Q (case (idx', assets) of (fresh, _) \<Rightarrow> bind_run (prune_generations lib blake3) (\<lambda>_. ret fresh)) d5 idx' d6"
        unfolding prod.case by (rule goes_bind, rule q, rule goes_ret)
      show "goes ?Q (bind_run (ask (\<lambda>_. live_records idx)) (\<lambda>live.
        bind_run (write_batches blake3 seg_target_records [] live) (\<lambda>segs.
        bind_run (publish_generation lib blake3 (g + 1) layout segs assets) (\<lambda>_.
        bind_run (open_index lib blake3) (\<lambda>(fresh, _).
        bind_run (prune_generations lib blake3) (\<lambda>_. ret fresh)))))) d2 idx' d6"
        by (rule goes_bind, rule goes_ask, rule xs(1), rule goes_bind, rule b, rule goes_bind, rule p,
            rule goes_bind, rule o, rule tail)
    qed
  qed
  then show ?thesis using d6(2,3) d5(3) view by blast
qed

section \<open>Committing\<close>

text \<open>What a session's records make of a view: the abstract effect of a commit.\<close>

definition after_session :: "seg_entry list \<Rightarrow> (chunk_hash \<Rightarrow> chunk_info option) \<Rightarrow> chunk_hash \<Rightarrow> chunk_info option" where
  "after_session dirty v h = (case map_of dirty h of Some x \<Rightarrow> x | None \<Rightarrow> v h)"

lemma after_nothing [simp]: "after_session [] v = v"
  by (rule ext) (simp add: after_session_def)

lemma view_of_delta: "view_of (descs @ [(rs, DeltaSeg, dirty)]) = after_session dirty (view_of descs)"
  by (rule ext) (auto simp: view_of_def newest_first_def after_session_def live_map_def map_add_def split: option.splits)

lemma bodies_in_mono: "bodies_in U E \<Longrightarrow> F \<subseteq> E \<Longrightarrow> bodies_in U F"
  unfolding bodies_in_def by (meson order_trans)

definition good_session :: "seg_entry list \<Rightarrow> bool" where
  "good_session dirty \<longleftrightarrow> list_all valid_entry dirty \<and> length dirty < 2 ^ 31 \<and> sorted_wrt (<) (map fst dirty)"

lemma delta_goes:
  assumes "hash_ok blake3" "inj_on blake3 U" "bodies_in U E" "set dirty \<subseteq> E" "good_session dirty"
    and "ledger lib blake3 U g layout descs assets d"
  shows "\<exists>descs' d'. goes (ledger lib blake3 U g layout descs assets)
      (if hex_records dirty = [] then ret (map fst descs)
       else bind_run (write_segment blake3 DeltaSeg (hex_records dirty)) (\<lambda>rs. ret (map fst descs @ [rs]))) d (map fst descs') d'
    \<and> ledger lib blake3 U g layout descs assets d' \<and> quiet d d'
    \<and> (\<forall>x \<in> set descs'. desc_stored blake3 d' x) \<and> view_of descs' = after_session dirty (view_of descs)"
proof (cases dirty)
  case Nil
  have "\<forall>x \<in> set descs. desc_stored blake3 d x" using assms(6) by (simp add: ledger_def gen_files_def)
  then show ?thesis using Nil assms(6) by (intro exI [of _ descs] exI [of _ d]) (simp add: goes_ret)
next
  case (Cons e es)
  then have good: "good_entries dirty" using assms(5) by (auto simp: good_session_def good_entries_def)
  from kept.segment_goes [OF assms(6,1,2,3) good assms(4), of DeltaSeg] obtain rs d' where
    d': "goes (ledger lib blake3 U g layout descs assets) (write_segment blake3 DeltaSeg (hex_records dirty)) d rs d'"
      "ledger lib blake3 U g layout descs assets d'" "quiet d d'" "desc_stored blake3 d' (rs, DeltaSeg, dirty)" by blast
  have "goes (ledger lib blake3 U g layout descs assets)
      (bind_run (write_segment blake3 DeltaSeg (hex_records dirty)) (\<lambda>rs. ret (map fst descs @ [rs]))) d (map fst descs @ [rs]) d'"
    by (rule goes_bind, rule d'(1), rule goes_ret)
  moreover have "hex_records dirty \<noteq> []" using Cons by (cases e) simp
  moreover have "\<forall>x \<in> set descs. desc_stored blake3 d' x" using d'(2) by (simp add: ledger_def gen_files_def)
  ultimately show ?thesis
    using d'(2-4) by (intro exI [of _ "descs @ [(rs, DeltaSeg, dirty)]"] exI [of _ d']) (simp add: view_of_delta)
qed

theorem commit_goes:
  assumes "lib_ok lib" "hash_ok blake3" "inj_on blake3 U"
    and "bodies_in U (set dirty \<union> graph_of (after_session dirty (view_of descs)))" "good_session dirty"
    and "ledger lib blake3 U g layout descs assets0 d" "handle_ok idx g layout descs" "assets_ok lib assets"
  shows "\<exists>idx' d' g' descs'. goes (\<lambda>s. shows_view lib blake3 U (view_of descs) assets0 s
        \<or> shows_view lib blake3 U (after_session dirty (view_of descs)) assets s)
      (commit_generation lib blake3 (hex_records dirty) assets idx) d idx' d'
    \<and> ledger lib blake3 U g' layout descs' assets d' \<and> handle_ok idx' g' layout descs'
    \<and> view_of descs' = after_session dirty (view_of descs)"
proof -
  let ?v = "after_session dirty (view_of descs)"
  let ?old = "ledger lib blake3 U g layout descs assets0"
  let ?Q = "\<lambda>s. shows_view lib blake3 U (view_of descs) assets0 s \<or> shows_view lib blake3 U ?v assets s"
  have old: "?Q s" if "?old s" for s using shows_viewI [OF that] by simp
  have gen: "si_generation idx = g" "si_layout idx = layout" using assms(7) by (auto simp: handle_ok_def)
  from kept.wal_goes [OF assms(6), of "''begin''" "g + 1"] obtain d1 where
    d1: "goes ?old (wal_append ''begin'' (g + 1)) d () d1" "?old d1" by blast
  from kept.gen_goes [OF d1(2), of "gen_name (g + 1)"] obtain d2 where
    d2: "goes ?old (make_gen (gen_name (g + 1))) d1 () d2" "?old d2"
      "set (id_gens d2) = insert (gen_name (g + 1)) (set (id_gens d1))" by blast
  let ?root = "\<lparr>rb_version = 1, rb_generation = g, rb_layout = layout, rb_segments = map fst descs\<rparr>"
  have root: "read_seg_root lib blake3 (gen_name g) d2 = Inr ?root"
    using d2(2) parse_root_bytes [OF assms(1), of ?root] by (simp add: read_seg_root_def ledger_def gen_files_def)
  have sub: "set dirty \<subseteq> set dirty \<union> graph_of ?v" by blast
  from delta_goes [OF assms(2-4) sub assms(5) d2(2)] obtain descs1 d3 where
    d3: "goes ?old (if hex_records dirty = [] then ret (map fst descs)
       else bind_run (write_segment blake3 DeltaSeg (hex_records dirty)) (\<lambda>rs. ret (map fst descs @ [rs]))) d2 (map fst descs1) d3"
      "?old d3" "quiet d2 d3" "\<forall>x \<in> set descs1. desc_stored blake3 d3 x" "view_of descs1 = ?v" by blast
  have ng: "gen_name (g + 1) \<in> set (id_gens d3)" and ne: "g + 1 \<noteq> g" using d3(3) d2(3) by (auto simp: quiet_def)
  let ?new = "ledger lib blake3 U (g + 1) layout descs1 assets"
  have new: "?Q s" if "?new s" for s using shows_viewI [OF that] d3(5) by simp
  from kept.publish_goes [OF d3(2) assms(1) ne assms(8) d3(4) ng] obtain d4 where
    d4: "goes (\<lambda>s. ?old s \<or> ?new s) (publish_generation lib blake3 (g + 1) layout (map fst descs1) assets) d3 () d4"
      "?new d4" by blast
  from open_goes [OF assms(1,2) d4(2)] obtain idx1 d5 where
    d5: "goes ?new (open_index lib blake3) d4 (idx1, assets) d5" "?new d5" "handle_ok idx1 (g + 1) layout descs1"
      "gens_upto (g + 1) (id_gens d5)" by blast
  have b: "bodies_in U (graph_of (view_of descs1))" using bodies_in_mono [OF assms(4)] d3(5) by simp
  have "\<exists>idx' d6 g' descs'. goes ?Q (if needs_compaction idx1 then compact_index lib blake3 assets idx1 else ret idx1) d5 idx' d6
      \<and> ledger lib blake3 U g' layout descs' assets d6 \<and> handle_ok idx' g' layout descs' \<and> view_of descs' = ?v
      \<and> gens_upto g' (id_gens d6)"
  proof (cases "needs_compaction idx1")
    case True
    from compact_goes [OF assms(1-3) b d5(2,3) assms(8)] obtain idx' d6 descs' where
      c: "goes (\<lambda>s. ?new s \<or> shows_view lib blake3 U (view_of descs1) assets s) (compact_index lib blake3 assets idx1) d5 idx' d6"
        "ledger lib blake3 U (g + 1 + 1) layout descs' assets d6" "handle_ok idx' (g + 1 + 1) layout descs'"
        "view_of descs' = view_of descs1" "gens_upto (g + 1 + 1) (id_gens d6)" by blast
    have "goes ?Q (compact_index lib blake3 assets idx1) d5 idx' d6"
      by (rule goes_mono [OF c(1)]) (use new d3(5) in auto)
    then show ?thesis using True c(2-5) d3(5) by auto
  next
    case False
    then show ?thesis using d5(2-4) d3(5) goes_ret [of ?Q idx1 d5] by auto
  qed
  then obtain idx' d6 g' descs' where
    d6: "goes ?Q (if needs_compaction idx1 then compact_index lib blake3 assets idx1 else ret idx1) d5 idx' d6"
      "ledger lib blake3 U g' layout descs' assets d6" "handle_ok idx' g' layout descs'" "view_of descs' = ?v"
      "gens_upto g' (id_gens d6)" by blast
  from prune_goes [OF assms(1) d6(2,5)] obtain d7 where
    d7: "goes (ledger lib blake3 U g' layout descs' assets) (prune_generations lib blake3) d6 () d7"
      "ledger lib blake3 U g' layout descs' assets d7" by blast
  have w: "goes ?Q (wal_append ''begin'' (g + 1)) d () d1" by (rule goes_mono [OF d1(1) old])
  have m: "goes ?Q (make_gen (gen_name (g + 1))) d1 () d2" by (rule goes_mono [OF d2(1) old])
  have s: "goes ?Q (if hex_records dirty = [] then ret (rb_segments ?root)
       else bind_run (write_segment blake3 DeltaSeg (hex_records dirty)) (\<lambda>rs. ret (rb_segments ?root @ [rs]))) d2 (map fst descs1) d3"
    unfolding root_body.select_convs by (rule goes_mono [OF d3(1) old])
  have p: "goes ?Q (publish_generation lib blake3 (g + 1) layout (map fst descs1) assets) d3 () d4"
    by (rule goes_mono [OF d4(1)]) (use old new in blast)
  have o: "goes ?Q (open_index lib blake3) d4 (idx1, assets) d5" by (rule goes_mono [OF d5(1) new])
  have q: "goes ?Q (prune_generations lib blake3) d6 () d7"
    by (rule goes_mono [OF d7(1)]) (use shows_viewI d6(4) in fastforce)
  have tail: "goes ?Q (case (idx1, assets) of (fresh, _) \<Rightarrow>
      bind_run (if needs_compaction fresh then compact_index lib blake3 assets fresh else ret fresh) (\<lambda>idx.
      bind_run (prune_generations lib blake3) (\<lambda>_. ret idx))) d5 idx' d7"
    unfolding prod.case by (rule goes_bind, rule d6(1), rule goes_bind, rule q, rule goes_ret)
  have "goes ?Q (commit_generation lib blake3 (hex_records dirty) assets idx) d idx' d7"
    unfolding commit_generation_def Let_def gen
    by (rule goes_bind, rule w, rule goes_bind, rule m, rule goes_bind, rule goes_ask, rule root,
        rule goes_bind, rule s, rule goes_bind, rule p, rule goes_bind, rule o, rule tail)
  then show ?thesis using d7(2) d6(3,4) by blast
qed

section \<open>Creating\<close>

theorem create_goes:
  assumes "lib_ok lib" "hash_ok blake3" "inj_on blake3 U" "bodies_in U (set (live_entries xs))"
    and "pool_in blake3 U d" "list_all valid_entry (live_entries xs)" "sorted_wrt (<) (map fst xs)" "assets_ok lib assets"
  shows "\<exists>idx d' descs. goes (\<lambda>_. True) (create_index lib blake3 g layout (hex_live xs) assets) d (idx, assets) d'
    \<and> ledger lib blake3 U g layout descs assets d' \<and> handle_ok idx g layout descs \<and> view_of descs = map_of xs"
proof -
  let ?P = "pool_in blake3 U"
  from fresh.gen_goes [OF assms(5), of "gen_name g"] obtain d1 where
    d1: "goes ?P (make_gen (gen_name g)) d () d1" "?P d1" "gen_name g \<in> set (id_gens d1)" by blast
  from fresh.wal_goes [OF d1(2), of "''begin''" g] obtain d2 where
    d2: "goes ?P (wal_append ''begin'' g) d1 () d2" "?P d2" "quiet d1 d2" by blast
  have f: "map fst (live_entries xs) = map fst xs" by (auto simp: live_entries_def)
  have pre: "list_all valid_entry ([] @ live_entries xs)" "sorted_wrt (<) (map fst ([] @ live_entries xs))"
      "set ([] @ live_entries xs) \<subseteq> set (live_entries xs)" "length ([] :: seg_entry list) < seg_target_records"
    using assms(6,7) seg_target_bounds f by simp_all
  from fresh.batches_goes [OF d2(2) assms(2-4) seg_target_bounds pre] obtain descs d3 where
    d3: "goes ?P (write_batches blake3 seg_target_records (hex_records []) (hex_live xs)) d2 (map fst descs) d3"
      "?P d3" "quiet d2 d3" "\<forall>x \<in> set descs. desc_stored blake3 d3 x \<and> fst (snd x) = BaseSeg"
      "concat (map (\<lambda>x. snd (snd x)) descs) = [] @ live_entries xs" by blast
  have view: "view_of descs = map_of xs" using view_of_bases [of descs xs] d3(4,5) by simp
  have st: "\<forall>x \<in> set descs. desc_stored blake3 d3 x" and ng: "gen_name g \<in> set (id_gens d3)" and ne: "g \<noteq> g - 1"
    using d3(3,4) d2(3) d1(3) by (auto simp: quiet_def)
  let ?new = "ledger lib blake3 U g layout descs assets"
  from fresh.publish_goes [OF d3(2) assms(1) ne assms(8) st ng] obtain d4 where
    d4: "goes (\<lambda>s. ?P s \<or> ?new s) (publish_generation lib blake3 g layout (map fst descs) assets) d3 () d4" "?new d4" by blast
  from open_goes [OF assms(1,2) d4(2)] obtain idx d5 where
    d5: "goes ?new (open_index lib blake3) d4 (idx, assets) d5" "?new d5" "handle_ok idx g layout descs" by blast
  let ?T = "\<lambda>_ :: index_dir. True"
  have m: "goes ?T (make_gen (gen_name g)) d () d1" and w: "goes ?T (wal_append ''begin'' g) d1 () d2"
    and p: "goes ?T (publish_generation lib blake3 g layout (map fst descs) assets) d3 () d4"
    and o: "goes ?T (open_index lib blake3) d4 (idx, assets) d5"
    using goes_mono [OF d1(1), of ?T] goes_mono [OF d2(1), of ?T] goes_mono [OF d4(1), of ?T] goes_mono [OF d5(1), of ?T]
    by simp_all
  have b: "goes ?T (write_batches blake3 seg_target_records [] (hex_live xs)) d2 (map fst descs) d3"
    using goes_mono [OF d3(1), of ?T] by simp
  have "goes ?T (create_index lib blake3 g layout (hex_live xs) assets) d (idx, assets) d5"
    unfolding create_index_def
    by (rule goes_bind, rule m, rule goes_bind, rule w, rule goes_bind, rule b, rule goes_bind, rule p, rule o)
  then show ?thesis using d5(2,3) view by blast
qed

end
