(* ===== verification/Ledger.thy ===== *)
theory Ledger
  imports Ledger_Commit
begin

text \<open>
  The properties of the segmented chunk ledger (\<^verbatim>\<open>core/cavs-store/src/segindex.rs\<close>), and
  the concrete ledger their witnesses use.
\<close>

section \<open>A concrete ledger\<close>

text \<open>A printer and parser for roots and asset tables, with numbers in unary.\<close>

definition put_nat :: "nat \<Rightarrow> bytes" where
  "put_nat n = replicate n 1 @ [0]"

definition take_nat :: "bytes \<Rightarrow> nat \<times> bytes" where
  "take_nat bs = (let n = length (takeWhile (\<lambda>b. b = 1) bs) in (n, drop (Suc n) bs))"

lemma take_put_nat [simp]: "take_nat (put_nat n @ rest) = (n, rest)"
proof -
  have "takeWhile (\<lambda>b. b = 1) (put_nat n @ rest) = replicate n (1 :: byte)"
    by (induction n) (simp_all add: put_nat_def)
  then show ?thesis by (simp add: take_nat_def put_nat_def)
qed

definition put_str :: "string \<Rightarrow> bytes" where
  "put_str s = put_nat (length s) @ ascii s"

definition take_str :: "bytes \<Rightarrow> string \<times> bytes" where
  "take_str bs = (case take_nat bs of (n, bs) \<Rightarrow> (text_of (take n bs), drop n bs))"

lemma take_put_str [simp]: "take_str (put_str s @ rest) = (s, rest)"
  by (simp add: take_str_def put_str_def)

fun take_many :: "(bytes \<Rightarrow> 'a \<times> bytes) \<Rightarrow> nat \<Rightarrow> bytes \<Rightarrow> 'a list \<times> bytes" where
  "take_many dec 0 bs = ([], bs)"
| "take_many dec (Suc n) bs = (case dec bs of (x, bs) \<Rightarrow> (case take_many dec n bs of (xs, bs) \<Rightarrow> (x # xs, bs)))"

definition put_list :: "('a \<Rightarrow> bytes) \<Rightarrow> 'a list \<Rightarrow> bytes" where
  "put_list enc xs = put_nat (length xs) @ encode_all enc xs"

definition take_list :: "(bytes \<Rightarrow> 'a \<times> bytes) \<Rightarrow> bytes \<Rightarrow> 'a list \<times> bytes" where
  "take_list dec bs = (case take_nat bs of (n, bs) \<Rightarrow> take_many dec n bs)"

lemma take_put_list [simp]:
  assumes "\<And>x rest. dec (enc x @ rest) = (x, rest)"
  shows "take_list dec (put_list enc xs @ rest) = (xs, rest)"
proof -
  have "take_many dec (length xs) (encode_all enc xs @ rest) = (xs, rest)" for rest
    by (induction xs) (simp_all add: assms)
  then show ?thesis by (simp add: take_list_def put_list_def)
qed

definition put_segment :: "root_segment \<Rightarrow> bytes" where
  "put_segment rs = put_str (rs_file rs) @ put_str (rs_kind rs) @ put_nat (unat (rs_records rs))
     @ put_nat (unat (rs_size rs)) @ put_str (rs_min rs) @ put_str (rs_max rs)"

definition take_segment :: "bytes \<Rightarrow> root_segment \<times> bytes" where
  "take_segment bs =
     (case take_str bs of (f, bs) \<Rightarrow> case take_str bs of (k, bs) \<Rightarrow> case take_nat bs of (n, bs) \<Rightarrow>
      case take_nat bs of (z, bs) \<Rightarrow> case take_str bs of (lo, bs) \<Rightarrow> case take_str bs of (hi, bs) \<Rightarrow>
        (\<lparr>rs_file = f, rs_kind = k, rs_records = of_nat n, rs_size = of_nat z, rs_min = lo, rs_max = hi\<rparr>, bs))"

lemma take_put_segment [simp]: "take_segment (put_segment rs @ rest) = (rs, rest)"
  by (simp add: take_segment_def put_segment_def)

definition put_root :: "root_body \<Rightarrow> bytes" where
  "put_root b = put_nat (unat (rb_version b)) @ put_nat (unat (rb_generation b))
     @ put_nat (if rb_layout b = LooseLayout then 0 else 1) @ put_list put_segment (rb_segments b)"

definition take_root :: "bytes \<Rightarrow> root_body \<times> bytes" where
  "take_root bs =
     (case take_nat bs of (v, bs) \<Rightarrow> case take_nat bs of (g, bs) \<Rightarrow> case take_nat bs of (l, bs) \<Rightarrow>
      case take_list take_segment bs of (segs, bs) \<Rightarrow>
        (\<lparr>rb_version = of_nat v, rb_generation = of_nat g, rb_layout = (if l = 0 then LooseLayout else PackfileLayout),
          rb_segments = segs\<rparr>, bs))"

lemma take_put_root [simp]: "take_root (put_root b @ rest) = (b, rest)"
proof -
  have "(if (if rb_layout b = LooseLayout then 0 else 1 :: nat) = 0 then LooseLayout else PackfileLayout) = rb_layout b"
    by (cases "rb_layout b") simp_all
  then show ?thesis by (simp add: take_root_def put_root_def)
qed

datatype sample_value = SampleDoc string root_body | SampleBody root_body | SampleText string

definition sample_to_vec :: "sample_value \<Rightarrow> bytes" where
  "sample_to_vec v = (case v of
       SampleDoc c b \<Rightarrow> put_nat 0 @ put_str c @ put_root b
     | SampleBody b \<Rightarrow> put_nat 1 @ put_root b
     | SampleText s \<Rightarrow> put_nat 2 @ put_str s)"

definition sample_from_slice :: "bytes \<Rightarrow> sample_value option" where
  "sample_from_slice bs =
     (case take_nat bs of (t, bs) \<Rightarrow>
        if t = 0 then (case take_str bs of (c, bs) \<Rightarrow> Some (SampleDoc c (fst (take_root bs))))
        else if t = 1 then Some (SampleBody (fst (take_root bs))) else Some (SampleText (fst (take_str bs))))"

definition sample_lib :: "sample_value ledger_lib" where
  "sample_lib = \<lparr>to_vec = sample_to_vec, from_slice = sample_from_slice,
     json_get = (\<lambda>k v. case v of
         SampleDoc c b \<Rightarrow> if k = ''body'' then Some (SampleBody b) else if k = ''checksum'' then Some (SampleText c) else None
       | _ \<Rightarrow> None),
     json_str = (\<lambda>v. case v of SampleText s \<Rightarrow> Some s | _ \<Rightarrow> None),
     json_doc = (\<lambda>c v. case v of SampleBody b \<Rightarrow> SampleDoc c b | _ \<Rightarrow> v),
     root_to_value = SampleBody,
     root_from_value = (\<lambda>v. case v of SampleBody b \<Rightarrow> Some b | _ \<Rightarrow> None),
     assets_to_vec = put_list (\<lambda>(n, hs). put_str n @ put_list put_str hs),
     assets_from_slice = (\<lambda>bs. Some (fst (take_list (\<lambda>bs. case take_str bs of (n, bs) \<Rightarrow>
         case take_list take_str bs of (hs, bs) \<Rightarrow> ((n, hs), bs)) bs))),
     compress = Some, decompress = Some\<rparr>"

lemma sample_lib_ok: "lib_ok sample_lib"
proof -
  have doc: "sample_from_slice (sample_to_vec (SampleDoc c b)) = Some (SampleDoc c b)" for c b
    using take_put_nat [of 0 "put_str c @ put_root b"] take_put_str [of c "put_root b"] take_put_root [of b "[]"]
    by (simp add: sample_from_slice_def sample_to_vec_def)
  let ?enc = "\<lambda>(n, hs). put_str n @ put_list put_str hs"
  let ?dec = "\<lambda>bs. case take_str bs of (n, bs) \<Rightarrow> case take_list take_str bs of (hs, bs) \<Rightarrow> ((n, hs), bs)"
  have "?dec (?enc x @ rest) = (x, rest)" for x rest by (cases x) simp
  then have "take_list ?dec (put_list ?enc a @ []) = (a, [])" for a by (rule take_put_list)
  then have "take_list ?dec (put_list ?enc a) = (a, [])" for a by simp
  then show ?thesis by (simp add: lib_ok_def sample_lib_def doc)
qed

text \<open>A digest that tells apart what is hashed here: the kind byte of a segment.\<close>

definition kind_hash :: hash_fun where
  "kind_hash bs = replicate 32 (bs ! 10)"

lemma kind_hash_ok: "hash_ok kind_hash"
  by (simp add: hash_ok_def kind_hash_def)

definition sample_hash :: chunk_hash where
  "sample_hash = replicate 32 7"

definition sample_info :: chunk_info where
  "sample_info = \<lparr>len_raw = 5, len_stored = 3, ci_flags = 1, refcount = 2, zero_since = None, ci_pack = Some ''p'', pack_offset = Some 64\<rparr>"

definition sample_session :: "seg_entry list" where
  "sample_session = [(sample_hash, Some sample_info)]"

lemma sample_session_good: "good_session sample_session"
  by (simp add: good_session_def sample_session_def valid_entry_def valid_info_def pack_id_ok_def
      sample_hash_def sample_info_def no_zero_since_def no_offset_def utf8_length_def ascii_def)

definition sample_bodies :: "bytes set" where
  "sample_bodies = {body. \<exists>kind es. good_entries es \<and> set es \<subseteq> set sample_session
     \<and> segment_body kind (hex_records es) = Inr body}"

lemma sample_bodies_in: "E \<subseteq> set sample_session \<Longrightarrow> bodies_in sample_bodies E"
  unfolding bodies_in_def sample_bodies_def by blast

lemma segment_body_kind: "segment_body kind records = Inr body \<Longrightarrow> body ! 10 = seg_kind_code kind"
  by (auto simp: segment_body_def rbind_eq_Inr seg_magic_def nth_append simp del: to_le.simps)

lemma sample_inj: "inj_on kind_hash sample_bodies"
proof (rule inj_onI)
  fix x y assume x: "x \<in> sample_bodies" and y: "y \<in> sample_bodies" and eq: "kind_hash x = kind_hash y"
  have one: "es = sample_session" if "good_entries es" "set es \<subseteq> set sample_session" for es
  proof -
    have "distinct es" using that(1) by (auto simp: good_entries_def strict_sorted_iff distinct_map)
    moreover have "set es = {(sample_hash, Some sample_info)}"
      using that by (auto simp: good_entries_def sample_session_def subset_singleton_iff)
    ultimately have "length es = 1" using distinct_card [of es] by simp
    then obtain e where "es = [e]" by (cases es) auto
    then show ?thesis using \<open>set es = {(sample_hash, Some sample_info)}\<close> by (simp add: sample_session_def)
  qed
  obtain kx ky where b: "segment_body kx (hex_records sample_session) = Inr x" "segment_body ky (hex_records sample_session) = Inr y"
    using x y one unfolding sample_bodies_def by blast
  have "x ! 10 = y ! 10" using eq by (simp add: kind_hash_def)
  then have "seg_kind_code kx = seg_kind_code ky" using segment_body_kind [OF b(1)] segment_body_kind [OF b(2)] by simp
  then have "kx = ky" by (cases kx; cases ky) simp_all
  then show "x = y" using b by simp
qed

section \<open>Handles on a ledger\<close>

text \<open>
  The directory holds a ledger with the view \<open>v\<close> and the asset table, and \<open>idx\<close> is
  a handle opened on it.
\<close>

definition ledger_holds :: "'v ledger_lib \<Rightarrow> hash_fun \<Rightarrow> bytes set \<Rightarrow> index_dir \<Rightarrow> seg_index
    \<Rightarrow> (chunk_hash \<Rightarrow> chunk_info option) \<Rightarrow> asset_table \<Rightarrow> bool" where
  "ledger_holds lib blake3 U d idx v assets \<longleftrightarrow>
     (\<exists>g layout descs. ledger lib blake3 U g layout descs assets d \<and> handle_ok idx g layout descs \<and> view_of descs = v)"

definition answers :: "seg_index \<Rightarrow> (chunk_hash \<Rightarrow> chunk_info option) \<Rightarrow> bool" where
  "answers idx v \<longleftrightarrow> (\<forall>h. length h = 32 \<longrightarrow> index_lookup idx (to_hex h) = Inr (v h))"

lemma holds_answers: "ledger_holds lib blake3 U d idx v assets \<Longrightarrow> answers idx v"
  using index_lookup_ok by (auto simp: ledger_holds_def answers_def)

lemma shows_view_opens:
  assumes "lib_ok lib" "hash_ok blake3" "shows_view lib blake3 U v assets s"
  shows "\<exists>idx d' tr. open_index lib blake3 s = (Inr (idx, assets), d', tr) \<and> answers idx v"
proof -
  obtain g layout descs where l: "ledger lib blake3 U g layout descs assets s" "view_of descs = v"
    using assms(3) by (auto simp: shows_view_def)
  from open_goes [OF assms(1,2) l(1)] obtain idx d' where
    o: "goes (ledger lib blake3 U g layout descs assets) (open_index lib blake3) s (idx, assets) d'"
      "handle_ok idx g layout descs" by blast
  have "answers idx v" using index_lookup_ok [OF o(2)] l(2) by (simp add: answers_def)
  then show ?thesis using o(1) by (auto simp: goes_def)
qed

lemma goes_result: "goes P m d x d' \<Longrightarrow> m d = (r, e, tr) \<Longrightarrow> r = Inr x \<and> e = d' \<and> (\<forall>s \<in> set tr. P s)"
  by (auto simp: goes_def)

definition empty_dir :: index_dir where
  "empty_dir = \<lparr>id_files = [], id_gens = []\<rparr>"

definition sample_created :: "(seg_index \<times> asset_table) store_result \<times> index_dir \<times> index_dir list" where
  "sample_created = create_index sample_lib kind_hash 1 PackfileLayout [] [] empty_dir"

definition sample_dir :: index_dir where
  "sample_dir = fst (snd sample_created)"

definition sample_handle :: seg_index where
  "sample_handle = (case fst sample_created of Inr (idx, _) \<Rightarrow> idx | Inl _ \<Rightarrow> \<lparr>si_generation = 0, si_layout = LooseLayout, si_segments = []\<rparr>)"

lemma sample_assets_ok: "assets_ok sample_lib []"
  by (simp add: assets_ok_def sample_lib_def put_list_def put_nat_def)

lemma sample_ledger:
  "\<exists>descs. ledger sample_lib kind_hash sample_bodies 1 PackfileLayout descs [] sample_dir
    \<and> handle_ok sample_handle 1 PackfileLayout descs \<and> view_of descs = Map.empty"
proof -
  have p: "pool_in kind_hash sample_bodies empty_dir" by (simp add: pool_in_def empty_dir_def get_file_def)
  have "bodies_in sample_bodies (set (live_entries []))" by (rule sample_bodies_in) (simp add: live_entries_def)
  from create_goes [OF sample_lib_ok kind_hash_ok sample_inj this p _ _ sample_assets_ok, of 1 PackfileLayout]
  obtain idx d' descs where c: "goes (\<lambda>_. True) (create_index sample_lib kind_hash 1 PackfileLayout [] []) empty_dir (idx, []) d'"
    "ledger sample_lib kind_hash sample_bodies 1 PackfileLayout descs [] d'" "handle_ok idx 1 PackfileLayout descs"
    "view_of descs = map_of []" by (auto simp: live_entry_simps)
  then have "sample_dir = d'" "sample_handle = idx"
    by (auto simp: sample_dir_def sample_handle_def sample_created_def goes_def)
  then show ?thesis using c(2-4) by auto
qed

lemma sample_holds: "ledger_holds sample_lib kind_hash sample_bodies sample_dir sample_handle Map.empty []"
  using sample_ledger by (auto simp: ledger_holds_def)

lemma sample_bodies_session:
  "bodies_in sample_bodies (set sample_session \<union> graph_of (after_session sample_session Map.empty))"
proof (rule sample_bodies_in)
  show "set sample_session \<union> graph_of (after_session sample_session Map.empty) \<subseteq> set sample_session"
    by (auto simp: graph_of_def after_session_def sample_session_def split: if_splits)
qed

section \<open>Atomic commits\<close>

text \<open>
  C11.  A commit is atomic: whatever directory it passes through, so whatever a crash in the middle
  leaves, opening succeeds and every lookup and the asset table are those from before the commit, or
  they are all those from after it, also when the commit compacts and prunes.
\<close>

theorem commit_is_atomic:
  assumes "lib_ok lib" "hash_ok blake3" "inj_on blake3 U"
    and "bodies_in U (set dirty \<union> graph_of (after_session dirty v))" "good_session dirty" "assets_ok lib assets"
    and "ledger_holds lib blake3 U d idx v old_assets"
    and "commit_generation lib blake3 (hex_records dirty) assets idx d = (r, d', tr)" "s \<in> set tr"
  shows "\<exists>handle a d'' tr'. open_index lib blake3 s = (Inr (handle, a), d'', tr')
    \<and> (a = old_assets \<and> answers handle v \<or> a = assets \<and> answers handle (after_session dirty v))"
proof -
  obtain g layout descs where l: "ledger lib blake3 U g layout descs old_assets d" "handle_ok idx g layout descs" "view_of descs = v"
    using assms(7) by (auto simp: ledger_holds_def)
  from commit_goes [OF assms(1-3) _ assms(5) l(1,2) assms(6)] assms(4) l(3) obtain idx' d1 where
    "goes (\<lambda>s. shows_view lib blake3 U v old_assets s \<or> shows_view lib blake3 U (after_session dirty v) assets s)
      (commit_generation lib blake3 (hex_records dirty) assets idx) d idx' d1" by blast
  from goes_result [OF this assms(8)] assms(9)
  have "shows_view lib blake3 U v old_assets s \<or> shows_view lib blake3 U (after_session dirty v) assets s" by blast
  then show ?thesis using shows_view_opens [OF assms(1,2)] by blast
qed

lemma commit_trace_nonempty: "snd (snd (commit_generation lib blake3 dirty assets idx d)) \<noteq> []"
  by (simp add: commit_generation_def Let_def bind_run_def wal_append_def append_file_def act_def split: prod.splits)

lemma commit_is_atomic_witness:
  "\<exists>handle a d'' tr'. open_index sample_lib kind_hash
      (last (snd (snd (commit_generation sample_lib kind_hash (hex_records sample_session) [] sample_handle sample_dir))))
      = (Inr (handle, a), d'', tr')
    \<and> (a = [] \<and> answers handle Map.empty \<or> a = [] \<and> answers handle (after_session sample_session Map.empty))"
proof -
  obtain r d' tr where c: "commit_generation sample_lib kind_hash (hex_records sample_session) [] sample_handle sample_dir = (r, d', tr)"
    by (metis prod_cases3)
  then have "last tr \<in> set tr"
    using commit_trace_nonempty [of sample_lib kind_hash "hex_records sample_session" "[]" sample_handle sample_dir] by simp
  from commit_is_atomic [OF sample_lib_ok kind_hash_ok sample_inj sample_bodies_session sample_session_good
      sample_assets_ok sample_holds c this] c show ?thesis by simp
qed

text \<open>
  C13.  A commit returns, and refines the update of a map: the handle it returns is open on a
  directory that holds the old view overridden with the session's records, deletions included, and
  the new asset table.  It returns also when it folds the deltas into new base segments.
\<close>

theorem commit_refines_update:
  assumes "lib_ok lib" "hash_ok blake3" "inj_on blake3 U"
    and "bodies_in U (set dirty \<union> graph_of (after_session dirty v))" "good_session dirty" "assets_ok lib assets"
    and "ledger_holds lib blake3 U d idx v old_assets"
  shows "\<exists>idx' d' tr. commit_generation lib blake3 (hex_records dirty) assets idx d = (Inr idx', d', tr)
    \<and> ledger_holds lib blake3 U d' idx' (after_session dirty v) assets \<and> answers idx' (after_session dirty v)"
proof -
  obtain g layout descs where l: "ledger lib blake3 U g layout descs old_assets d" "handle_ok idx g layout descs" "view_of descs = v"
    using assms(7) by (auto simp: ledger_holds_def)
  from commit_goes [OF assms(1-3) _ assms(5) l(1,2) assms(6)] assms(4) l(3) obtain idx' d' g' descs' P where
    c: "goes P (commit_generation lib blake3 (hex_records dirty) assets idx) d idx' d'"
      "ledger lib blake3 U g' layout descs' assets d'" "handle_ok idx' g' layout descs'" "view_of descs' = after_session dirty v"
    by blast
  then have h: "ledger_holds lib blake3 U d' idx' (after_session dirty v) assets" by (auto simp: ledger_holds_def)
  then show ?thesis using c(1) holds_answers [OF h] by (auto simp: goes_def)
qed

lemma commit_refines_update_witness:
  "\<exists>idx' d' tr. commit_generation sample_lib kind_hash (hex_records sample_session) [] sample_handle sample_dir = (Inr idx', d', tr)
    \<and> index_lookup idx' (to_hex sample_hash) = Inr (Some sample_info)"
proof -
  from commit_refines_update [OF sample_lib_ok kind_hash_ok sample_inj sample_bodies_session sample_session_good
      sample_assets_ok sample_holds]
  obtain idx' d' tr where "commit_generation sample_lib kind_hash (hex_records sample_session) [] sample_handle sample_dir = (Inr idx', d', tr)"
    "answers idx' (after_session sample_session Map.empty)" by blast
  moreover have "length sample_hash = 32" by (simp add: sample_hash_def)
  ultimately show ?thesis by (auto simp: answers_def after_session_def sample_session_def)
qed

text \<open>
  C27.  The streaming merge over the segments ends, and yields each live chunk once, in ascending
  order of its hash, with the newest record: exactly the entries that lookups find.
\<close>

theorem ledger_iteration_exact:
  assumes "ledger_holds lib blake3 U d idx v assets"
  shows "\<exists>xs. live_records idx = Inr (map (\<lambda>(h, info). (to_hex h, info)) xs) \<and> sorted_wrt (<) (map fst xs)
    \<and> (\<forall>h info. (h, info) \<in> set xs \<longleftrightarrow> v h = Some info)"
proof -
  obtain g layout descs where l: "handle_ok idx g layout descs" "view_of descs = v"
    using assms by (auto simp: ledger_holds_def)
  from live_records_ok [OF l(1)] obtain xs where
    xs: "live_records idx = Inr (hex_live xs)" "sorted_wrt (<) (map fst xs)" "map_of xs = view_of descs" by blast
  have "distinct (map fst xs)" using xs(2) by (simp add: strict_sorted_iff)
  then have "(h, info) \<in> set xs \<longleftrightarrow> v h = Some info" for h info
    using map_of_eq_Some_iff xs(3) l(2) by metis
  then show ?thesis using xs(1,2) by (auto simp: hex_live_def)
qed

lemma ledger_iteration_exact_witness: "live_records sample_handle = Inr []"
proof -
  from ledger_iteration_exact [OF sample_holds] obtain xs where
    xs: "live_records sample_handle = Inr (map (\<lambda>(h, info). (to_hex h, info)) xs)" "\<forall>h info. (h, info) \<notin> set xs" by auto
  then have "xs = []" by (cases xs) auto
  then show ?thesis using xs(1) by simp
qed

text \<open>
  C28.  A segment file survives writing and opening: what opens is accepted by its seal, and the
  binary search in it finds exactly the records it was written from, deletions as deletions.
\<close>

theorem segment_file_roundtrip:
  assumes "hash_ok blake3" "list_all valid_entry es" "length es < 2 ^ 31" "es \<noteq> []" "sorted_wrt (<) (map fst es)"
  shows "\<exists>body s. segment_body kind (hex_records es) = Inr body
    \<and> open_segment (root_entry blake3 kind (hex_records es) body) (body @ hash_chunk blake3 body) = Inr s
    \<and> verify_seals blake3 [s] = Inr () \<and> sg_kind s = kind
    \<and> (\<forall>h. seg_lookup s h = Inr (map_option (\<lambda>info. (info, state_code info)) (map_of es h)))"
proof -
  from segment_opens [OF assms, of kind] obtain body s where
    b: "segment_body kind (hex_records es) = Inr body"
      "open_segment (root_entry blake3 kind (hex_records es) body) (body @ hash_chunk blake3 body) = Inr s"
      "seg_holds s es" "sg_kind s = kind" "sg_mmap s = body @ hash_chunk blake3 body" by blast
  have "length (hash_chunk blake3 body) = 32" using assms(1) by (simp add: hash_ok_def hash_chunk_def)
  then have "verify_seals blake3 [s] = Inr ()" by (simp add: b(5) Let_def)
  then show ?thesis using b seg_lookup_correct by blast
qed

lemma segment_file_roundtrip_witness:
  "\<exists>body s. segment_body DeltaSeg (hex_records sample_session) = Inr body
    \<and> open_segment (root_entry kind_hash DeltaSeg (hex_records sample_session) body) (body @ hash_chunk kind_hash body) = Inr s
    \<and> seg_lookup s sample_hash = Inr (Some (Some sample_info, state_live))"
proof -
  have "list_all valid_entry sample_session" "length sample_session < 2 ^ 31" "sorted_wrt (<) (map fst sample_session)"
      "sample_session \<noteq> []"
    using sample_session_good by (auto simp: good_session_def sample_session_def)
  from segment_file_roundtrip [OF kind_hash_ok this(1,2,4,3), of DeltaSeg] obtain body s where
    "segment_body DeltaSeg (hex_records sample_session) = Inr body"
    "open_segment (root_entry kind_hash DeltaSeg (hex_records sample_session) body) (body @ hash_chunk kind_hash body) = Inr s"
    "\<forall>h. seg_lookup s h = Inr (map_option (\<lambda>info. (info, state_code info)) (map_of sample_session h))" by blast
  then show ?thesis by (auto simp: sample_session_def)
qed

section \<open>A reader beside a writer\<close>

text \<open>
  Opening removes the generations newer than \<^verbatim>\<open>CURRENT\<close>, and it does so for a
  read-only open too.  Beside a writer that has staged its generation and not yet swapped, that
  removes the staged root; the writer's swap then names a generation that cannot be opened.
\<close>

lemma drop_files_result:
  "\<exists>tr. drop_files ps d = (Inr (), fold drop_file ps d, tr)"
proof (induction ps arbitrary: d)
  case Nil
  then show ?case by (simp add: ret_def)
next
  case (Cons p ps)
  from Cons.IH [of "drop_file p d"] show ?case by (auto simp: bind_run_def act_def)
qed

lemma get_fold_drop: "get_file (fold drop_file ps d) p = (if p \<in> set ps then None else get_file d p)"
  by (induction ps arbitrary: d) auto

lemma remove_gen_result:
  "\<exists>d' tr. remove_gen n d = (Inr (), d', tr) \<and> (\<forall>p. get_file d' p = (if in_gen n p then None else get_file d p))"
proof -
  let ?ps = "filter (in_gen n) (map fst (id_files d))"
  obtain tr where "drop_files ?ps d = (Inr (), fold drop_file ?ps d, tr)" using drop_files_result by blast
  moreover have "get_file (fold drop_file ?ps d) p = (if in_gen n p then None else get_file d p)" for p
    using get_file_listed [of d p] by (cases "get_file d p") (auto simp: get_fold_drop)
  ultimately show ?thesis by (simp add: remove_gen_def bind_run_def ask_def act_def)
qed

lemma sweep_result:
  "\<exists>d' tr. sweep_gens g ns d = (Inr (), d', tr) \<and> (\<forall>p. get_file d' p =
     (if \<exists>n \<in> set ns. in_gen n p \<and> (\<exists>h. gen_number n = Some h \<and> g < h) then None else get_file d p))"
proof (induction ns arbitrary: d)
  case Nil
  then show ?case by (simp add: ret_def)
next
  case (Cons n ns)
  show ?case
  proof (cases "\<exists>h. gen_number n = Some h \<and> g < h")
    case True
    obtain d1 tr1 where d1: "remove_gen n d = (Inr (), d1, tr1)" "\<forall>p. get_file d1 p = (if in_gen n p then None else get_file d p)"
      using remove_gen_result by blast
    from Cons.IH [of d1] obtain d2 tr2 where d2: "sweep_gens g ns d1 = (Inr (), d2, tr2)"
      "\<forall>p. get_file d2 p = (if \<exists>n \<in> set ns. in_gen n p \<and> (\<exists>h. gen_number n = Some h \<and> g < h) then None else get_file d1 p)" by blast
    have "sweep_gens g (n # ns) d = (Inr (), d2, tr1 @ tr2)" using True d1(1) d2(1) by (auto simp: bind_run_def)
    then show ?thesis using True d1(2) d2(2) by (intro exI [of _ d2] exI [of _ "tr1 @ tr2"] conjI allI) auto
  next
    case False
    then have "(case gen_number n of Some gen \<Rightarrow> if g < gen then remove_gen n else ret () | None \<Rightarrow> ret ()) = ret ()"
      by (auto split: option.splits)
    then have "sweep_gens g (n # ns) d = sweep_gens g ns d" by (simp add: bind_run_def ret_def)
    then show ?thesis using Cons.IH [of d] False by auto
  qed
qed

text \<open>
  Opening is not harmless beside a live writer: if the directory holds a ledger and a newer
  generation is staged in it, then after an open, which is what \<^verbatim>\<open>open_read_only\<close>
  runs as well, completing the writer's swap leaves a ledger that no longer opens.
\<close>

theorem open_breaks_staged_commit:
  assumes "ledger_holds lib blake3 U d idx v assets" "si_generation idx < g" "gen_name g \<in> set (id_gens d)"
    and "open_index lib blake3 d = (r, d1, tr1)" "swap_current g d1 = (r2, d2, tr2)"
  shows "fst (open_index lib blake3 d2) = Inl (IndexCorrupt ''root.idx unreadable'')"
proof -
  have cur: "current_generation d = Inr (si_generation idx)"
    using assms(1) current_text_ok [of "si_generation idx"]
    by (auto simp: ledger_holds_def handle_ok_def ledger_def current_generation_def)
  obtain ds tr where sw: "sweep_gens (si_generation idx) (id_gens d) d = (Inr (), ds, tr)" "\<forall>p. get_file ds p =
     (if \<exists>n \<in> set (id_gens d). in_gen n p \<and> (\<exists>h. gen_number n = Some h \<and> si_generation idx < h) then None else get_file d p)"
    using sweep_result by blast
  have "d1 = ds" using assms(4) sw(1) by (auto simp: open_index_def bind_run_def ask_def cur split: sum.splits)
  moreover have "gen_number (gen_name g) = Some g" "in_gen (gen_name g) (GenFile (gen_name g) f)" for f by simp_all
  ultimately have gone: "get_file d1 (GenFile (gen_name g) f) = None" for f
    using sw(2) assms(2,3) by (metis (mono_tags, lifting))
  have d2: "d2 = put_file CurrentFile (current_text g) (drop_file CurrentTmp
      (put_file CurrentTmp (current_text g) (put_file CurrentTmp [] d1)))"
    using assms(5) by (simp add: swap_current_def bind_run_def write_file_def act_def rename_file_def current_text_def)
  have gone2: "get_file d2 (GenFile (gen_name g) f) = None" for f using gone by (simp add: d2)
  have cur2: "current_generation d2 = Inr g" using current_text_ok [of g] by (simp add: current_generation_def d2)
  obtain ds2 tr' where sw2: "sweep_gens g (id_gens d2) d2 = (Inr (), ds2, tr')" "\<forall>p. get_file ds2 p =
     (if \<exists>n \<in> set (id_gens d2). in_gen n p \<and> (\<exists>h. gen_number n = Some h \<and> g < h) then None else get_file d2 p)"
    using sweep_result by blast
  have "get_file ds2 (GenFile (gen_name g) ''root.idx'') = None" using sw2(2) gone2 by simp
  then show ?thesis
    by (simp add: open_index_def bind_run_def ask_def cur2 sw2(1) read_generation_def read_seg_root_def)
qed

definition staged_dir :: index_dir where
  "staged_dir = sample_dir\<lparr>id_gens := gen_name 2 # id_gens sample_dir\<rparr>"

lemma staged_holds:
  "ledger_holds sample_lib kind_hash sample_bodies staged_dir sample_handle Map.empty [] \<and> si_generation sample_handle < 2"
proof -
  from sample_ledger obtain descs where c: "ledger sample_lib kind_hash sample_bodies 1 PackfileLayout descs [] sample_dir"
    "handle_ok sample_handle 1 PackfileLayout descs" "view_of descs = Map.empty" by blast
  have "ledger sample_lib kind_hash sample_bodies 1 PackfileLayout descs [] staged_dir"
    unfolding staged_dir_def
    by (rule ledger_gens [OF c(1)]) (use c(1) in \<open>simp add: ledger_def gen_files_def\<close>)
  moreover have "si_generation sample_handle = 1" using c(2) by (simp add: handle_ok_def)
  ultimately show ?thesis using c(2,3) by (auto simp: ledger_holds_def)
qed

lemma open_breaks_staged_commit_witness:
  "fst (open_index sample_lib kind_hash (fst (snd (swap_current 2 (fst (snd (open_index sample_lib kind_hash staged_dir)))))))
    = Inl (IndexCorrupt ''root.idx unreadable'')"
proof -
  obtain r d1 tr1 where o: "open_index sample_lib kind_hash staged_dir = (r, d1, tr1)" by (metis prod_cases3)
  obtain r2 d2 tr2 where w: "swap_current 2 d1 = (r2, d2, tr2)" by (metis prod_cases3)
  have "gen_name 2 \<in> set (id_gens staged_dir)" by (simp add: staged_dir_def)
  from open_breaks_staged_commit [OF conjunct1 [OF staged_holds] conjunct2 [OF staged_holds] this o w] show ?thesis
    by (simp add: o w)
qed

end
