(* ===== verification/Chunk_Store.thy ===== *)
theory Chunk_Store
  imports Store_Gc Ledger
begin

text \<open>
  What a chunk store promises: the properties of \<^verbatim>\<open>core/cavs-store/src/global.rs\<close>
  and \<^verbatim>\<open>packfile.rs\<close>, each with an instance.
\<close>

section \<open>A sample store\<close>

definition sample_env :: "sample_value store_env" where
  "sample_env = \<lparr>se_ledger = sample_lib, se_blake3 = kind_hash, record_to_vec = (\<lambda>_. []), record_from_slice = (\<lambda>_. None),
     json_index = (\<lambda>_. None), zstd_decompress = (\<lambda>_ _. None), hash_order = remdups\<rparr>"

definition sample_key :: string where
  "sample_key = to_hex sample_hash"

lemma sample_key_hex [simp]: "hex_of_hash sample_key"
  unfolding hex_of_hash_def sample_key_def by (rule exI [of _ sample_hash]) (simp add: sample_hash_def)

definition sample_chunk :: chunk_info where
  "sample_chunk = \<lparr>len_raw = 5, len_stored = 3, ci_flags = 1, refcount = 1, zero_since = None, ci_pack = None, pack_offset = None\<rparr>"

text \<open>The ledger on disk is empty; in memory an asset of one chunk has been published.\<close>

definition sample_old :: store_index where
  "sample_old = empty_index (Some PackfileLayout)"

definition sample_new :: store_index where
  "sample_new = sample_old\<lparr>ix_chunks := [(sample_key, sample_chunk)], ix_assets := [(''a'', [sample_key])]\<rparr>"

definition sample_files :: "bytes \<Rightarrow> store_dir" where
  "sample_files bs = set_path SnapshotFile bs \<lparr>sd_files = [], sd_index = \<lparr>id_files = [], id_gens = []\<rparr>, sd_clock = 0\<rparr>"

definition sample_store :: "bytes \<Rightarrow> global_store" where
  "sample_store bs = (blank_store 0 False (sample_files bs))\<lparr>gs_index := sample_new, gs_dirty_chunks := [sample_key],
     gs_dirty_assets := [''a''], gs_pending := [(''a'', [1, 2])], gs_snapshot_bytes := of_nat (length bs),
     gs_journal_budget := Some 4096\<rparr>"

lemma sample_empty_ok: "ledger_sized sample_old []"
  by (simp add: ledger_sized_def sample_old_def empty_index_def chunks_ok_def assets_stored_def refs_ok_def asset_sizes_def packs_of_def)

lemma sample_snapshot: "\<exists>bs. is_snapshot kind_hash bs sample_old"
  using snapshot_is_one [of kind_hash sample_old "[]" "[]" 0 sample_old 0] sample_empty_ok
  by (auto simp: sample_old_def empty_index_def roomy_def kind_hash_ok)

lemma sample_saved:
  assumes "is_snapshot kind_hash bs sample_old"
  shows "saved_ledger kind_hash (sample_store bs) sample_old"
proof (rule saved_liveI)
  have "rotated kind_hash (gs_disk (sample_store bs)) sample_old"
    unfolding rotated_def by (rule exI [of _ "[]"])
      (simp add: log_file_def sample_store_def blank_store_def sample_files_def path_bytes_def path_file_def set_path_def no_newer_def)
  then   show "live_ledger kind_hash (gs_disk (sample_store bs)) bs sample_old [] [] sample_old"
    using assms by (simp add: live_ledger_def logged_def log_file_def sample_store_def blank_store_def sample_files_def
        path_bytes_def path_file_def set_path_def log_ok_def no_newer_def)
qed (simp_all add: sample_store_def blank_store_def sample_files_def no_segments_def quarantine_ok_def get_file_def set_path_def
    path_file_def)

lemma sample_can_save: "can_save (sample_store bs) sample_old"
proof -
  have n: "sample_new = \<lparr>ix_chunks = [(sample_key, sample_chunk)], ix_assets = [(''a'', [sample_key])], ix_records = [],
      ix_layout = PackfileLayout, ix_generation = 0\<rparr>" by (simp add: sample_new_def sample_old_def empty_index_def)
  have o: "sample_old = \<lparr>ix_chunks = [], ix_assets = [], ix_records = [], ix_layout = PackfileLayout, ix_generation = 0\<rparr>"
    by (simp add: sample_old_def empty_index_def)
  have a: "pack_id_ok ''a''" by (simp add: pack_id_ok_def ascii_def utf8_length_def)
  have d: "differs_at [sample_key] [''a''] [(''a'', [1, 2])] sample_new sample_old"
    by (simp add: differs_at_def n o)
  have l: "ledger_sized sample_new [(''a'', [1, 2])]"
    using a by (simp add: ledger_sized_def n chunks_ok_def assets_stored_def refs_ok_def asset_sizes_def packs_of_def
        ledger_info_def sample_chunk_def asset_ok_def)
  have m: "marks_fit sample_new [sample_key] [''a''] [(''a'', [1, 2])]"
    using a by (simp add: marks_fit_def n present_def packs_of_def sample_chunk_def map_filter_def)
  show ?thesis using d l m by (simp add: can_save_def sample_store_def blank_store_def journal_budget_def o)
qed

section \<open>Saving and opening\<close>

definition opens_as :: "'v store_env \<Rightarrow> store_index \<Rightarrow> store_dir \<Rightarrow> bool" where
  "opens_as env L d \<longleftrightarrow> (\<forall>part read_only. \<exists>h d'. open_global_store env part None read_only d = (Inr h, d')
     \<and> gs_index h = L \<and> gs_disk h = d')"

lemma opens_asI: "opens_to (se_blake3 env) L d \<Longrightarrow> opens_as env L d"
  using opens_to_opens unfolding opens_as_def by blast

text \<open>
  C6.  Saving a store with a single ledger file is atomic, when the ledger on the disk is an intact
  live snapshot with its journal whole, or when there is no live snapshot and the previous one is
  intact.  (Not covered is a corrupt live snapshot from which the open fell back on the previous
  one: the next snapshot then renames the corrupt file over the good one, and a crash after that
  leaves no ledger.)  The ledger in memory must differ from the one on the disk only where it is
  marked unsaved, and be of a size the formats hold.  Then the save succeeds, nothing is left marked
  as unsaved, and the directory opens to the ledger in memory; and whatever directory the save
  passes through, so whatever a crash in the middle leaves, also in the middle of an append, opens
  to the ledger from before the save or to the one from after it.  The store can be saved again.
\<close>

theorem save_survives_crashes:
  assumes "hash_ok (se_blake3 env)" "saved_ledger (se_blake3 env) s L" "can_save s L"
  shows "\<exists>s' tr. save_index env s = (Inr (), s', tr)
    \<and> ix_chunks (gs_index s') = ix_chunks (gs_index s) \<and> ix_assets (gs_index s') = ix_assets (gs_index s)
    \<and> gs_dirty_chunks s' = [] \<and> gs_dirty_assets s' = [] \<and> gs_pending s' = []
    \<and> opens_as env (gs_index s') (gs_disk s')
    \<and> (\<forall>t \<in> set tr. opens_as env L (gs_disk t) \<or> opens_as env (gs_index s') (gs_disk t))
    \<and> saved_ledger (se_blake3 env) s' (gs_index s')"
proof -
  obtain s' where g: "goes (\<lambda>t. opens_to (se_blake3 env) L (gs_disk t) \<or> opens_to (se_blake3 env) (gs_index s') (gs_disk t)) (save_index env) s () s'"
    and k: "saved_ledger (se_blake3 env) s' (gs_index s')" "after_save s s'"
    using save_mono_goes [OF assms] by blast
  obtain tr where tr: "save_index env s = (Inr (), s', tr)"
      "\<forall>t \<in> set tr. opens_as env L (gs_disk t) \<or> opens_as env (gs_index s') (gs_disk t)"
    using g opens_asI unfolding goes_def by blast
  have "opens_as env (gs_index s') (gs_disk s')" using saved_opens [OF k(1)] by (rule opens_asI)
  then show ?thesis using tr k by (intro exI [of _ s'] exI [of _ tr]) (auto simp: after_save_def)
qed

lemma save_survives_crashes_witness:
  "\<exists>bs s' tr. save_index sample_env (sample_store bs) = (Inr (), s', tr)
    \<and> ix_chunks (gs_index s') = [(sample_key, sample_chunk)] \<and> opens_as sample_env (gs_index s') (gs_disk s')"
proof -
  obtain bs where bs: "is_snapshot kind_hash bs sample_old" using sample_snapshot by blast
  have h: "hash_ok (se_blake3 sample_env)" "saved_ledger (se_blake3 sample_env) (sample_store bs) sample_old"
    using kind_hash_ok sample_saved [OF bs] by (simp_all add: sample_env_def)
  show ?thesis using save_survives_crashes [OF h sample_can_save]
    by (auto simp: sample_store_def sample_new_def sample_old_def)
qed

text \<open>
  C14.  Recovery always finishes, and can be interrupted anywhere.  A directory that holds a ledger,
  live, under a torn journal record, or as the previous snapshot beside a half-written one, opens to
  exactly that ledger; and every directory the opening passes through opens to it again.
\<close>

theorem recovery_can_be_interrupted:
  assumes "opens_to (se_blake3 env) L d"
  shows "\<exists>h tr. open_inner env None read_only (blank_store part read_only d) = (Inr (), h, tr)
    \<and> gs_index h = L \<and> (\<forall>t \<in> set (h # tr). opens_as env L (gs_disk t))"
proof (cases "opens_live (se_blake3 env) L d")
  case True
  then obtain bs snap rs torn where l: "live_ledger (se_blake3 env) d bs snap rs torn L" "no_segments d" "quarantine_ok d"
    by (auto simp: opens_live_def)
  from open_live_ledger [OF l, of read_only part] obtain d1 d2 where
    g: "goes (\<lambda>t. opens_live (se_blake3 env) L (gs_disk t)) (open_inner env None read_only) (blank_store part read_only d) ()
      ((opened (blank_store part read_only d) L (of_nat (length (log_bytes rs))) (of_nat (length bs)) d1)\<lparr>gs_disk := d2\<rparr>)"
    and e: "if read_only then d2 = d else live_ledger (se_blake3 env) d2 bs snap rs [] L \<and> no_segments d2 \<and> quarantine_ok d2" by blast
  have "opens_live (se_blake3 env) L d2" using e True by (cases read_only) (auto simp: opens_live_def)
  then show ?thesis using g opens_asI by (fastforce simp: goes_def opened_def opens_to_def)
next
  case False
  then have p: "opens_prev (se_blake3 env) L d" using assms by (simp add: opens_to_def)
  from open_prev_ledger [OF p, of read_only part] obtain d1 d2 where
    g: "goes (\<lambda>t. opens_prev (se_blake3 env) L (gs_disk t)) (open_inner env None read_only) (blank_store part read_only d) ()
      ((opened (blank_store part read_only d) L 0 0 d1)\<lparr>gs_disk := d2\<rparr>)" "opens_prev (se_blake3 env) L d2" by blast
  then show ?thesis using opens_asI by (fastforce simp: goes_def opened_def opens_to_def)
qed

lemma recovery_can_be_interrupted_witness:
  "\<exists>bs h tr. open_inner sample_env None False (blank_store 0 False (sample_files bs)) = (Inr (), h, tr) \<and> gs_index h = sample_old"
proof -
  obtain bs where bs: "is_snapshot kind_hash bs sample_old" using sample_snapshot by blast
  have "opens_to (se_blake3 sample_env) sample_old (sample_files bs)"
    using saved_opens [OF sample_saved [OF bs]] by (simp add: sample_store_def blank_store_def sample_env_def)
  from recovery_can_be_interrupted [OF this, of False 0] show ?thesis by blast
qed

section \<open>The files of the ledger\<close>

text \<open>
  A ledger snapshot decodes to the ledger it was written from, with every chunk entry, asset,
  record location, layout and generation, and its seal verifies.
\<close>

theorem snapshot_roundtrip:
  assumes "hash_ok blake3" "snapshot_ok ix"
  shows "\<exists>bs. encode_index blake3 now ix = Inr bs \<and> decode_index blake3 bs = Inr ix \<and> index_seal_holds blake3 bs"
  using snapshot_decodes [OF assms, of now] by (auto simp: decode_index_def)

lemma snapshot_roundtrip_witness:
  "\<exists>bs. encode_index kind_hash 7 sample_new = Inr bs \<and> decode_index kind_hash bs = Inr sample_new \<and> index_seal_holds kind_hash bs"
proof (rule snapshot_roundtrip [OF kind_hash_ok])
  have "pack_id_ok ''a''" by (simp add: pack_id_ok_def ascii_def utf8_length_def)
  then show "snapshot_ok sample_new"
    by (simp add: snapshot_ok_def sample_new_def sample_old_def empty_index_def chunks_ok_def assets_stored_def packs_of_def
        ledger_info_def sample_chunk_def asset_ok_def)
qed

text \<open>
  C23.  A journal record brings a reader from the ledger on disk to the one in memory.  Replaying
  what the log held and the record gives the writer's ledger, with the records it carries inline
  located in the log, and the whole log is accounted for; and if the record was cut short anywhere,
  the replay gives the ledger from before, and says where to cut the log.
\<close>

theorem journal_record_all_or_nothing:
  assumes "hash_ok blake3" "log_ok blake3 rs" "apply_log LiveLog 0 rs snap = Some L"
    and "differs_at dc da pending ix L" "journal_fits ix dc da pending" "g = ix_generation L + 1"
    and "encode_journal_record blake3 ix g dc da pending = Inr (rec, inline)" "length rec < 2 ^ 32" "k < length rec"
  shows "replay_journal blake3 LiveLog (Some (log_bytes rs @ rec)) snap
      = ((length (log_bytes rs @ rec), length (log_bytes rs @ rec)),
         ix\<lparr>ix_records := bt_build (locate_inline (of_nat (length (log_bytes rs))) inline) (ix_records ix), ix_generation := g\<rparr>)
    \<and> replay_journal blake3 LiveLog (Some (log_bytes rs @ take k rec)) snap
      = ((length (log_bytes rs), length (log_bytes rs @ take k rec)), L)"
proof -
  note step = journal_step [OF assms(1,4-8)]
  have ok: "log_ok blake3 (rs @ [(rec, g)])" using assms(2) step(1) by simp
  have ap: "apply_log LiveLog (length []) (rs @ [(rec, g)]) snap = Some (ledger_after ix g (of_nat (length (log_bytes rs))) inline)"
    using assms(3) step(2) [of "length (log_bytes rs)"] by (simp only: apply_log_append list.size add_0 bind.simps)
  have whole: "replay_records blake3 LiveLog (log_bytes rs @ rec) 0 snap
      = (length (log_bytes rs @ rec), ledger_after ix g (of_nat (length (log_bytes rs))) inline)"
    using replay_log [OF ok ap no_record_empty] by simp
  have ap0: "apply_log LiveLog (length []) rs snap = Some L" using assms(3) by simp
  have torn: "replay_records blake3 LiveLog (log_bytes rs @ take k rec) 0 snap = (length (log_bytes rs), L)"
    using replay_log [OF assms(2) ap0 torn_record [OF step(1) assms(9)]] by simp
  show ?thesis using whole torn by (simp add: replay_journal_def replay_journal_from_def ledger_after_def)
qed

lemma sample_record:
  "\<exists>rec inline. encode_journal_record kind_hash sample_new 1 [sample_key] [''a''] [(''a'', [1, 2])] = Inr (rec, inline)
    \<and> length rec < 2 ^ 32 \<and> 30 < length rec"
  by (simp add: encode_journal_record_def sample_new_def sample_old_def empty_index_def present_def absent_def map_filter_def
      sample_chunk_def sample_key_def sample_hash_def encode_chunk_entry_def encode_text_def hash_chunk_def kind_hash_def
      journal_magic_def ascii_def journal_version_def del: to_le.simps)

lemma journal_record_all_or_nothing_witness:
  "\<exists>rec inline. encode_journal_record kind_hash sample_new 1 [sample_key] [''a''] [(''a'', [1, 2])] = Inr (rec, inline)
    \<and> replay_journal kind_hash LiveLog (Some (take 30 rec)) sample_old = ((0, 30), sample_old)"
proof -
  obtain rec inline where e: "encode_journal_record kind_hash sample_new 1 [sample_key] [''a''] [(''a'', [1, 2])] = Inr (rec, inline)"
      "length rec < 2 ^ 32" "30 < length rec"
    using sample_record by blast
  have "can_save (sample_store []) sample_old" by (rule sample_can_save)
  then have c: "differs_at [sample_key] [''a''] [(''a'', [1, 2])] sample_new sample_old"
      "ledger_sized sample_new [(''a'', [1, 2])]" "marks_fit sample_new [sample_key] [''a''] [(''a'', [1, 2])]"
    by (simp_all add: can_save_def sample_store_def blank_store_def)
  have f: "journal_fits sample_new [sample_key] [''a''] [(''a'', [1, 2])]"
    using fits_journal [OF c(2,3), of "ix_records sample_new"] c(2) by (simp add: ledger_sized_def)
  have g: "(1 :: u64) = ix_generation sample_old + 1" by (simp add: sample_old_def empty_index_def)
  have s: "log_ok kind_hash []" "apply_log LiveLog 0 [] sample_old = Some sample_old" by simp_all
  from journal_record_all_or_nothing [OF kind_hash_ok s c(1) f g e] e show ?thesis by simp
qed

section \<open>Packs\<close>

text \<open>
  The check of a pack accepts exactly the files made of a header with the right magic, any data
  and a footer with its magic and the digest of all that precedes it.
\<close>

theorem pack_check_exact:
  assumes "hash_ok blake3"
  shows "verify_pack blake3 path contents = Inr () \<longleftrightarrow>
    (\<exists>body. contents = Some (body @ pack_footer_magic @ blake3 body) \<and> pack_header_len \<le> length body \<and> take 8 body = pack_magic)"
  by (rule verify_pack_iff [OF assms])

lemma pack_check_exact_witness:
  "verify_pack kind_hash path (Some (sealed_pack kind_hash create_pack)) = Inr () \<longleftrightarrow>
    (\<exists>body. Some (sealed_pack kind_hash create_pack) = Some (body @ pack_footer_magic @ kind_hash body)
      \<and> pack_header_len \<le> length body \<and> take 8 body = pack_magic)"
  by (rule pack_check_exact [OF kind_hash_ok])

definition append_all :: "packed_chunk list \<Rightarrow> pack_writer" where
  "append_all cs = fold (\<lambda>(h, bs, n, f) w. snd (pack_append h bs n f w)) cs create_pack"

lemma append_all_ok: "pack_ok cs (append_all cs)"
  unfolding append_all_def
proof (induction cs rule: rev_induct)
  case (snoc c cs)
  obtain h bs n f where c: "c = (h, bs, n, f)" by (cases c) auto
  from pack_append_ok [OF snoc, of h bs n f] show ?case by (simp add: c)
qed (simp add: create_pack_ok)

text \<open>
  C26.  Chunks appended to a pack one after the other read back from the closed pack: it passes its
  check, its sidecar index decodes, and the entries of the index lead, in order, to each chunk's
  hash, bytes, length and flags.
\<close>

theorem packed_chunks_roundtrip:
  assumes "hash_ok blake3" "packable cs"
  shows "let w = append_all cs; pack = sealed_pack blake3 w; pack_id = sealed_id blake3 w in
      verify_pack blake3 path (Some pack) = Inr ()
    \<and> (\<exists>es. read_pack_index blake3 path (Some (pack_index_bytes blake3 pack_id (pw_entries w))) = Inr (pack_id, es)
         \<and> map (\<lambda>e. (pe_hash e, read_pack_range path (Some pack) (pe_offset e) (ucast (pe_stored_len e)), pe_raw_len e, pe_flags e)) es
           = map (\<lambda>(h, bs, n, f). (h, Inr bs, n, f)) cs)"
proof -
  let ?w = "append_all cs"
  let ?pack = "sealed_pack blake3 ?w" and ?id = "sealed_id blake3 ?w"
  note w = append_all_ok [of cs]
  have es: "pw_entries ?w = pack_entries_from 0 cs" using w by (simp add: pack_ok_def)
  have h: "\<forall>e \<in> set (pw_entries ?w). length (pe_hash e) = 32"
  proof
    fix e assume "e \<in> set (pw_entries ?w)"
    then have "pe_hash e \<in> pe_hash ` set (pack_entries_from 0 cs)" unfolding es by (rule imageI)
    then have "pe_hash e \<in> fst ` set cs" unfolding pack_entry_hashes .
    then show "length (pe_hash e) = 32" using assms(2) by (auto simp: packable_def)
  qed
  have "length (pw_entries ?w) < 2 ^ 32" "length ?id = 32" using assms by (simp_all add: es packable_def sealed_id_def hash_ok_def)
  from pack_index_reads [OF assms(1) this(2) h this(1)]
  have idx: "read_pack_index blake3 path (Some (pack_index_bytes blake3 ?id (pw_entries ?w))) = Inr (?id, pw_entries ?w)" .
  let ?f = "\<lambda>e. (pe_hash e, read_pack_range path (Some ?pack) (pe_offset e) (ucast (pe_stored_len e)), pe_raw_len e, pe_flags e)"
  have "map ?f (pack_entries_from (length (pack_data pre)) cs') = map (\<lambda>(h, bs, n, f). (h, Inr bs, n, f)) cs'"
    if "cs = pre @ cs'" for pre cs'
    using that
  proof (induction cs' arbitrary: pre)
    case (Cons c cs')
    obtain h bs n f where c: "c = (h, bs, n, f)" by (cases c) auto
    have p: "pack_ok (pre @ (h, bs, n, f) # cs') ?w" "packable (pre @ (h, bs, n, f) # cs')" using w assms(2) Cons.prems c by simp_all
    have "length bs < 2 ^ 32" using p(2) by (simp add: packable_def)
    then have u: "(ucast (of_nat (length bs) :: u32) :: u64) = of_nat (length bs)"
      by (simp add: unsigned_of_nat take_bit_nat_eq_self)
    show ?case using Cons.IH [of "pre @ [c]"] Cons.prems sealed_pack_range [OF assms(1) p, of path] u by (simp add: c)
  qed simp
  from this [of "[]" cs] have "map ?f (pw_entries ?w) = map (\<lambda>(h, bs, n, f). (h, Inr bs, n, f)) cs" by (simp add: es)
  then show ?thesis unfolding Let_def
    by (intro conjI exI [of _ "pw_entries ?w"] idx sealed_pack_verifies [OF assms(1) w])
qed

lemma packed_chunks_roundtrip_witness:
  "let w = append_all [(sample_hash, [1, 2, 3], 5, 1)]; pack = sealed_pack kind_hash w; pack_id = sealed_id kind_hash w in
    \<exists>es. read_pack_index kind_hash ''pack'' (Some (pack_index_bytes kind_hash pack_id (pw_entries w))) = Inr (pack_id, es)
      \<and> map (\<lambda>e. (pe_hash e, read_pack_range ''pack'' (Some pack) (pe_offset e) (ucast (pe_stored_len e)), pe_raw_len e, pe_flags e)) es
         = [(sample_hash, Inr [1, 2, 3], 5, 1)]"
proof -
  have "packable [(sample_hash, [1, 2, 3], 5, 1)]" by (simp add: packable_def sample_hash_def pack_header_len_def)
  from packed_chunks_roundtrip [OF kind_hash_ok this, of "''pack''"] show ?thesis by (simp add: Let_def)
qed

section \<open>Chunks and assets\<close>

text \<open>
  C12.  Storing a chunk keeps the store sound, whichever way its ledger is kept and whether or not
  the pack rolls over.  A chunk the ledger has is left alone and \<^verbatim>\<open>false\<close> returned; a new one
  enters, with the bytes it was stored with; every other chunk keeps its bytes, flags and counts.
  Apart from the chunk table and its marks of what is unsaved, the open pack with its numbering, and
  the store's files (of which this says that every listed chunk's bytes are there), the handle is
  as it was: assets, batch, journal counts, and the files of the segmented index.
\<close>

theorem put_chunk_keeps_store:
  assumes "hash_ok blake3" "inj_on blake3 U" "store_kept blake3 U c cs s" "length hash = 32" "length stored < 2 ^ 32"
    and "ix_layout (gs_index s) = PackfileLayout \<Longrightarrow> sealable blake3 U (cs @ [(hash, stored, raw, flags)])"
  shows "\<exists>s' tr cs'. put_chunk blake3 hash stored flags raw s = (Inr (table_view s (to_hex hash) = None), s', tr)
    \<and> store_kept blake3 U (if table_view s (to_hex hash) = None then c(to_hex hash := stored) else c) cs' s'
    \<and> dom (table_view s') = insert (to_hex hash) (dom (table_view s))
    \<and> (\<forall>hex. table_view s hex \<noteq> None \<longrightarrow> rel_option moved (table_view s hex) (table_view s' hex)) \<and> beside s' = beside s"
  using kept_put [OF assms] by (auto simp: goes_def)

text \<open>A store with nothing in it, and the pack a first chunk gives.\<close>

definition sample_blank :: global_store where
  "sample_blank = (blank_store 0 False (sample_files []))\<lparr>gs_index := sample_old\<rparr>"

definition sample_packed :: packed_chunk where
  "sample_packed = (sample_hash, [1, 2, 3], 5, 1)"

lemma sample_kept: "store_kept kind_hash {pack_file_of kind_hash [sample_packed]} c [] sample_blank"
  by (simp add: store_kept_def sample_blank_def sample_old_def empty_index_def blank_store_def table_ok_def table_view_def mono_ok_def
      mono_view_def open_chunks_def bytes_kept_def packs_named_def counts_match_def assets_in_def sample_files_def
      path_bytes_def path_file_def set_path_def)

lemma sample_sealable: "sealable kind_hash {pack_file_of kind_hash [sample_packed]} [sample_packed]"
  by (simp add: sealable_def sample_packed_def packable_def sample_hash_def pack_header_len_def)

lemma put_chunk_keeps_store_witness:
  "\<exists>s' tr cs'. put_chunk kind_hash sample_hash [1, 2, 3] 1 5 sample_blank = (Inr True, s', tr)
    \<and> store_kept kind_hash {pack_file_of kind_hash [sample_packed]} (\<lambda>_. [1, 2, 3]) cs' s' \<and> dom (table_view s') = {sample_key}"
proof -
  have v: "table_view sample_blank = (\<lambda>_. None)"
    by (simp add: fun_eq_iff table_view_def mono_view_def sample_blank_def sample_old_def empty_index_def blank_store_def)
  have l: "length sample_hash = 32" "length [1 :: byte, 2, 3] < 2 ^ 32" by (simp_all add: sample_hash_def)
  have seal: "sealable kind_hash {pack_file_of kind_hash [sample_packed]} ([] @ [(sample_hash, [1, 2, 3], 5, 1)])"
    using sample_sealable by (simp add: sample_packed_def)
  have u: "(\<lambda>_. [1, 2, 3])(k := [1, 2, 3]) = (\<lambda>_ :: string. [1 :: byte, 2, 3])" for k by auto
  from put_chunk_keeps_store [OF kind_hash_ok _ sample_kept [of "\<lambda>_. [1, 2, 3]"] l seal] show ?thesis
    by (auto simp: v sample_key_def u)
qed

text \<open>
  C24.  Closing the open pack makes every chunk readable: in a sound store the flush succeeds, and
  then reading any chunk the ledger lists returns the bytes it was stored with, its flags and its
  raw length, from a loose file or out of a pack.
\<close>

theorem flushed_chunks_read_back:
  assumes "hash_ok blake3" "inj_on blake3 U" "store_kept blake3 U c cs s"
  shows "\<exists>s' tr. flush_packs blake3 s = (Inr (), s', tr) \<and> store_kept blake3 U c [] s' \<and> gs_open_pack s' = None
    \<and> (\<forall>hash info. length hash = 32 \<and> table_view s (to_hex hash) = Some info
         \<longrightarrow> read_chunk_stored hash s' = Inr (c (to_hex hash), ci_flags info, len_raw info))"
proof -
  obtain s' where s': "runs (flush_packs blake3) s () s'" "store_kept blake3 U c [] s'" "gs_open_pack s' = None"
      "\<forall>hex. rel_option moved (table_view s hex) (table_view s' hex)" using kept_flush [OF assms] by blast
  have "read_chunk_stored hash s' = Inr (c (to_hex hash), ci_flags info, len_raw info)"
    if h: "length hash = 32" "table_view s (to_hex hash) = Some info" for hash info
  proof -
    obtain info' where i: "table_view s' (to_hex hash) = Some info'" "moved info info'"
      using s'(4) h(2) by (metis option_rel_Some1)
    from kept_reads [OF s'(2) h(1) i(1)] i(2) show ?thesis by (simp add: moved_def)
  qed
  then show ?thesis using s'(1-3) by (auto simp: goes_def)
qed

lemma flushed_chunks_read_back_witness:
  "\<exists>s tr s' tr'. put_chunk kind_hash sample_hash [1, 2, 3] 1 5 sample_blank = (Inr True, s, tr)
    \<and> flush_packs kind_hash s = (Inr (), s', tr') \<and> (\<exists>flags raw. read_chunk_stored sample_hash s' = Inr ([1, 2, 3], flags, raw))"
proof -
  let ?U = "{pack_file_of kind_hash [sample_packed]}"
  have l: "length sample_hash = 32" "length [1 :: byte, 2, 3] < 2 ^ 32" by (simp_all add: sample_hash_def)
  have "sealable kind_hash ?U ([] @ [(sample_hash, [1, 2, 3], 5, 1)])" using sample_sealable by (simp add: sample_packed_def)
  from kept_put [OF kind_hash_ok _ sample_kept [of "\<lambda>_. [1, 2, 3]"] l this] obtain s cs where
    s: "runs (put_chunk kind_hash sample_hash [1, 2, 3] 1 5) sample_blank True s" "store_kept kind_hash ?U (\<lambda>_. [1, 2, 3]) cs s"
      "dom (table_view s) = {sample_key}"
    by (auto simp: table_view_def mono_view_def sample_blank_def sample_old_def empty_index_def blank_store_def sample_key_def fun_upd_def)
  obtain info where "table_view s (to_hex sample_hash) = Some info" using s(3) by (auto simp: sample_key_def dom_def)
  with flushed_chunks_read_back [OF kind_hash_ok _ s(2)] l(1) s(1) show ?thesis by (fastforce simp: goes_def)
qed

lemma listed_card:
  assumes "bt_ok assets"
  shows "listed assets hex = card {n. \<exists>hs. map_of assets n = Some hs \<and> hex \<in> set hs}"
proof -
  have d: "distinct (map fst assets)" using assms by (rule bt_ok_distinct)
  let ?f = "filter (\<lambda>a. hex \<in> set (snd a)) assets"
  have "{n. \<exists>hs. map_of assets n = Some hs \<and> hex \<in> set hs} = fst ` set ?f"
    using d by (force simp: map_of_eq_Some_iff)
  moreover have "distinct (map fst ?f)" using d by (rule distinct_map_filter)
  ultimately show ?thesis by (metis distinct_card length_map list.set_map listed_def)
qed

text \<open>
  The counting step of publishing (from the check that every chunk is there to the entry of
  the asset, after the open pack was sealed and before anything is written) counts exactly.  When a
  chunk of the asset is not in the ledger, the first one missing is reported and the step has
  changed nothing.  Otherwise the asset replaces one of the same name,
  the reference count of every chunk is again the number of assets that list it, a chunk has a time
  of its last use just when nothing lists it, and every chunk keeps its bytes.
\<close>

theorem publish_counts_exactly:
  assumes "store_kept blake3 U c cs s" "distinct hexes" "\<forall>hex \<in> set hexes. hex_of_hash hex" "length (ix_assets (gs_index s)) + 1 < 2 ^ 64"
  shows "case find (\<lambda>hex. table_view s hex = None) hexes of
      Some hex \<Rightarrow> count_asset name hexes s = (Inl (MissingChunk hex), s, [])
    | None \<Rightarrow> (\<exists>s'. count_asset name hexes s = (Inr (), s', []) \<and> store_kept blake3 U c cs s'
         \<and> ix_assets (gs_index s') = bt_insert name hexes (bt_remove name (ix_assets (gs_index s)))
         \<and> (\<forall>hex info. table_view s' hex = Some info \<longrightarrow>
              unat (refcount info) = card {n. \<exists>hs. map_of (ix_assets (gs_index s')) n = Some hs \<and> hex \<in> set hs}
              \<and> (refcount info = 0 \<longleftrightarrow> zero_since info \<noteq> None)))"
proof (cases "find (\<lambda>hex. table_view s hex = None) hexes")
  case (Some hex)
  then show ?thesis using either.count_asset_missing [OF _ assms(3)] assms(1) by (simp add: store_kept_def)
next
  case None
  then have "set hexes \<subseteq> dom (table_view s)" by (auto simp: find_None_iff)
  from kept_count [OF assms(1,2) this assms(4), of name] obtain s' where
    s': "count_asset name hexes s = (Inr (), s', [])" "store_kept blake3 U c cs s'"
      "ix_assets (gs_index s') = bt_insert name hexes (bt_remove name (ix_assets (gs_index s)))" by blast
  have m: "counts_match (table_view s') (ix_assets (gs_index s'))" using s'(2) by (simp add: store_kept_def)
  have "bt_ok (ix_assets (gs_index s'))" using m by (simp add: counts_match_def assets_in_def)
  then have "unat (refcount info) = card {n. \<exists>hs. map_of (ix_assets (gs_index s')) n = Some hs \<and> hex \<in> set hs}
      \<and> (refcount info = 0 \<longleftrightarrow> zero_since info \<noteq> None)" if "table_view s' hex = Some info" for hex info
    using m that listed_card [of "ix_assets (gs_index s')" hex] by (simp add: counts_match_def counted_def)
  then show ?thesis unfolding None option.case using s' by blast
qed

lemma publish_counts_exactly_witness:
  "count_asset ''a'' [sample_key] sample_blank = (Inl (MissingChunk sample_key), sample_blank, [])"
proof -
  have v: "table_view sample_blank = (\<lambda>_. None)"
    by (simp add: fun_eq_iff table_view_def mono_view_def sample_blank_def sample_old_def empty_index_def blank_store_def)
  have "distinct [sample_key]" "\<forall>hex \<in> set [sample_key]. hex_of_hash hex" "length (ix_assets (gs_index sample_blank)) + 1 < 2 ^ 64"
    by (simp_all add: sample_blank_def sample_old_def empty_index_def)
  from publish_counts_exactly [OF sample_kept this, where name = "''a''"] show ?thesis by (simp add: v)
qed

text \<open>
  C22.  The two ways of keeping the ledger, the sorted map in memory and the segmented index under
  its overlay, cannot be told apart by what reads and changes the table of chunks: where they stand
  for the same map, looking up, testing, listing, counting and the set of live packs agree; and
  publishing an asset and unpublishing its chunks end the same way, with the same error or none,
  and leave tables that again stand for the same map, and the same assets.
\<close>

theorem representations_agree:
  assumes "alike s t" "mono_ok s" "seg_ok t" "\<forall>hex \<in> set hexes. hex_of_hash hex" "hex_of_hash hex"
  shows "chunk_get hex s = chunk_get hex t \<and> chunk_contains hex s = chunk_contains hex t
    \<and> chunks_iter s = chunks_iter t \<and> chunks_len s = chunks_len t \<and> live_pack_set s = live_pack_set t
    \<and> fst (count_asset name hexes s) = fst (count_asset name hexes t)
    \<and> alike (fst (snd (count_asset name hexes s))) (fst (snd (count_asset name hexes t)))
    \<and> fst (decrement hexes s) = fst (decrement hexes t)
    \<and> alike (fst (snd (decrement hexes s))) (fst (snd (decrement hexes t)))"
proof -
  have c: "same_chunks s t" using assms(1) by (simp add: alike_def)
  have "same_run (count_asset name hexes) s t" "same_run (decrement hexes) s t"
    using same_run_count same_run_decrement assms(1,4) by blast+
  then show ?thesis using same_reads [OF c assms(5)] same_listing [OF c] by (auto simp: same_run_def)
qed

lemma representations_agree_witness:
  "\<exists>t. seg_ok t \<and> chunks_iter sample_blank = chunks_iter t
    \<and> fst (count_asset ''a'' [sample_key] sample_blank) = fst (count_asset ''a'' [sample_key] t)"
proof -
  let ?t = "sample_blank\<lparr>gs_seg := Some \<lparr>ss_index = sample_handle, ss_overlay = []\<rparr>\<rparr>"
  obtain descs where h: "handle_ok sample_handle 1 PackfileLayout descs" "view_of descs = Map.empty" using sample_ledger by blast
  have seg: "seg_ok ?t" using h(1) by (auto simp: seg_ok_def)
  have b: "base_view sample_handle hex = None" for hex
    using index_lookup_ok [OF h(1)] h(2) by (auto simp: base_view_def hex_of_hash_def)
  have mono: "mono_ok sample_blank" by (simp add: mono_ok_def sample_blank_def sample_old_def empty_index_def blank_store_def)
  have "alike sample_blank ?t"
    using seg mono by (simp add: alike_def same_chunks_def table_ok_def table_view_def mono_view_def seg_view_def b fun_eq_iff
        sample_blank_def sample_old_def empty_index_def blank_store_def assets_typed_def)
  from representations_agree [OF this mono seg, of "[sample_key]" sample_key "''a''"] seg show ?thesis by auto
qed

section \<open>Garbage collection\<close>

text \<open>
  C7.  Garbage collection never loses a chunk in use.  In every directory it passes through, so also
  when it fails or the process dies in the middle, and whether or not the pack of the chunk also
  holds garbage, every chunk that an asset lists or that became unused less than the grace period
  ago is still stored where the ledger said, with its bytes; chunks still in the open pack excepted,
  which are in no file yet.
\<close>

theorem gc_spares_chunks_in_use:
  assumes "store_kept blake3 U c cs s" "gc env grace s = (r, s', tr)" "t \<in> set (s' # tr)"
    and "table_view s hex = Some info" "hex \<notin> to_hex ` fst ` set cs"
    and "(\<exists>name hexes. map_of (ix_assets (gs_index s)) name = Some hexes \<and> hex \<in> set hexes)
       \<or> \<not> aged_out (now_epoch (gs_disk s)) grace info"
  shows "chunk_stored (gs_disk t) hex info (c hex)"
proof -
  note k = assms(1) [unfolded store_kept_def]
  have m: "counts_match (table_view s) (ix_assets (gs_index s))" using k by blast
  have "\<not> aged_out (now_epoch (gs_disk s)) grace info"
  proof
    assume a: "aged_out (now_epoch (gs_disk s)) grace info"
    then have "refcount info = 0" by (simp add: aged_out_def)
    moreover have "counted (ix_assets (gs_index s)) hex info" using m assms(4) by (simp add: counts_match_def)
    ultimately have "\<forall>x \<in> set (ix_assets (gs_index s)). hex \<notin> set (snd x)" by (simp add: counted_def listed_zero)
    then show False using assms(6) a by (fastforce dest!: map_of_SomeD)
  qed
  then have sp: "spared grace s hex = Some info" using assms(4) by (simp add: spared_def doomed_now_def)
  let ?K = "\<lambda>h. if h \<in> to_hex ` fst ` set cs then None else spared grace s h"
  have "keeps ?K c s" using k by (simp add: keeps_def bytes_kept_def spared_def)
  have sub: "spared grace s h = Some i" if "?K h = Some i" for h i using that by (simp split: if_splits)
  from gc_safe [OF conjunct1 [OF k] \<open>keeps ?K c s\<close> sub, of env] have "keeps ?K c t"
    using assms(2,3) unfolding safe_def by blast
  then show ?thesis using sp assms(5) by (simp add: keeps_def)
qed

text \<open>A store with one asset, of one chunk in a file of its own.\<close>

definition sample_loose :: global_store where
  "sample_loose = (blank_store 0 False (set_path (LooseChunk sample_key) [1, 2, 3] (sample_files [])))\<lparr>gs_index := sample_new\<rparr>"

lemma sample_loose_kept: "store_kept kind_hash {} (\<lambda>_. [1, 2, 3]) [] sample_loose"
proof -
  have ix: "gs_index sample_loose = \<lparr>ix_chunks = [(sample_key, sample_chunk)], ix_assets = [(''a'', [sample_key])], ix_records = [],
      ix_layout = PackfileLayout, ix_generation = 0\<rparr>"
    by (simp add: sample_loose_def sample_new_def sample_old_def empty_index_def)
  have v: "table_view sample_loose = [sample_key \<mapsto> sample_chunk]"
    by (simp add: table_view_def mono_view_def ix) (simp add: sample_loose_def blank_store_def)
  have "chunk_stored (gs_disk sample_loose) sample_key sample_chunk [1, 2, 3]"
    by (simp add: chunk_stored_def sample_chunk_def sample_loose_def blank_store_def)
  then have b: "bytes_kept kind_hash {} (table_view sample_loose) (\<lambda>_. [1, 2, 3]) (gs_disk sample_loose) []"
    by (simp add: bytes_kept_def v packs_named_def)
      (simp add: sample_loose_def blank_store_def sample_files_def path_bytes_def path_file_def set_path_def)
  have "counts_match (table_view sample_loose) (ix_assets (gs_index sample_loose))"
    by (auto simp: v ix counts_match_def assets_in_def counted_def listed_def sample_chunk_def split: if_splits)
  moreover have "table_ok sample_loose"
    by (simp add: table_ok_def mono_ok_def ix) (simp add: sample_loose_def blank_store_def)
  moreover have "open_chunks sample_loose []" by (simp add: open_chunks_def sample_loose_def blank_store_def)
  ultimately show ?thesis using b by (simp add: store_kept_def)
qed

lemma gc_spares_chunks_in_use_witness:
  "\<exists>r s' tr. gc sample_env 0 sample_loose = (r, s', tr) \<and> chunk_stored (gs_disk s') sample_key sample_chunk [1, 2, 3]"
proof -
  obtain r s' tr where g: "gc sample_env 0 sample_loose = (r, s', tr)" by (cases "gc sample_env 0 sample_loose")
  have ix: "gs_index sample_loose = \<lparr>ix_chunks = [(sample_key, sample_chunk)], ix_assets = [(''a'', [sample_key])], ix_records = [],
      ix_layout = PackfileLayout, ix_generation = 0\<rparr>"
    by (simp add: sample_loose_def sample_new_def sample_old_def empty_index_def)
  have v: "table_view sample_loose sample_key = Some sample_chunk"
    by (simp add: table_view_def mono_view_def ix) (simp add: sample_loose_def blank_store_def)
  have "\<not> aged_out (now_epoch (gs_disk sample_loose)) 0 sample_chunk" by (simp add: aged_out_def sample_chunk_def)
  with gc_spares_chunks_in_use [OF sample_loose_kept g, of s' sample_key sample_chunk] v g show ?thesis by auto
qed

text \<open>
  C25.  A collection that succeeds on a store with a single ledger file, whose reference counts are
  those of its assets, removes from the ledger exactly the chunks that no asset lists and whose time
  of last use is at least the grace period ago, leaves every other entry as it was, and returns how
  many it removed.  (A chunk that was stored and never published carries the time of last use 0,
  1970: for such a chunk no grace period counts.)
\<close>

theorem gc_removes_exactly_the_unused:
  assumes "table_ok s" "gs_seg s = None" "counts_match (table_view s) (ix_assets (gs_index s))"
    and "gc env grace s = (Inr (n, freed), s', tr)"
  defines "idle \<equiv> \<lambda>hex. (\<forall>(name, hexes) \<in> set (ix_assets (gs_index s)). hex \<notin> set hexes)
      \<and> (\<exists>info z. table_view s hex = Some info \<and> zero_since info = Some z
           \<and> unat grace \<le> unat (now_epoch (gs_disk s)) - unat z)"
  shows "n = card {hex. idle hex} \<and> (\<forall>hex. table_view s' hex = (if idle hex then None else table_view s hex))"
proof -
  have same: "doomed_now grace s hex \<longleftrightarrow> idle hex" for hex
  proof (cases "table_view s hex")
    case (Some info)
    then have c: "counted (ix_assets (gs_index s)) hex info" using assms(3) by (simp add: counts_match_def)
    have "refcount info = 0 \<longleftrightarrow> listed (ix_assets (gs_index s)) hex = 0"
      using c unfolding counted_def by (metis unat_eq_zero)
    moreover have "listed (ix_assets (gs_index s)) hex = 0
        \<longleftrightarrow> (\<forall>(name, hexes) \<in> set (ix_assets (gs_index s)). hex \<notin> set hexes)"
      by (auto simp: listed_def filter_empty_conv)
    moreover have "refcount info = 0 \<longleftrightarrow> (\<exists>z. zero_since info = Some z)" using c by (auto simp: counted_def)
    ultimately show ?thesis using Some by (auto simp: doomed_now_def aged_out_def idle_def)
  qed (simp add: doomed_now_def idle_def)
  have "{hex. idle hex} = {hex. doomed_now grace s hex}" "spared grace s = (\<lambda>hex. if idle hex then None else table_view s hex)"
    by (simp_all add: same spared_def)
  then show ?thesis using gc_table [OF assms(1,2,4)] by (simp add: doomed_now_def)
qed

lemma gc_removes_exactly_the_unused_witness:
  "\<exists>bs s' tr. gc sample_env 0 (sample_store bs) = (Inr (0, 0), s', tr) \<and> table_view s' sample_key = Some sample_chunk"
proof -
  obtain bs where bs: "is_snapshot kind_hash bs sample_old" using sample_snapshot by blast
  let ?s = "sample_store bs"
  have h: "hash_ok (se_blake3 sample_env)" "saved_ledger (se_blake3 sample_env) ?s sample_old"
    using kind_hash_ok sample_saved [OF bs] by (simp_all add: sample_env_def)
  obtain s' where sv: "goes (\<lambda>_. True) (save_index sample_env) ?s () s'"
    using save_mono_goes [OF h sample_can_save] by (auto simp: goes_def)
  have ix: "gs_index ?s = \<lparr>ix_chunks = [(sample_key, sample_chunk)], ix_assets = [(''a'', [sample_key])], ix_records = [],
      ix_layout = PackfileLayout, ix_generation = 0\<rparr>"
    by (simp add: sample_store_def sample_new_def sample_old_def empty_index_def)
  have seg: "gs_seg ?s = None" by (simp add: sample_store_def blank_store_def)
  have p: "store_paths (gs_disk ?s) = [SnapshotFile]"
    by (simp add: sample_store_def blank_store_def sample_files_def store_paths_def set_path_def)
  have na: "\<not> aged_out now 0 sample_chunk" for now by (simp add: aged_out_def sample_chunk_def)
  have "gc_until_save sample_env 0 ?s = (Inr (0, 0), ?s, [])"
    by (simp add: gc_until_save_def bind_run_def ask_def ret_def chunks_iter_def seg ix na quarantine_orphan_packs_def live_pack_set_def
        p map_filter_simps sweep_quarantine_def quarantined_packs_def sweep_dead_record_packs_def)
  then obtain tr where g: "gc sample_env 0 ?s = (Inr (0, 0), s', tr)"
    using sv by (auto simp: gc_eq bind_run_def goes_def ret_def)
  have ok: "table_ok ?s" by (simp add: table_ok_def seg mono_ok_def ix)
  have v: "table_view ?s sample_key = Some sample_chunk" by (simp add: table_view_def seg mono_view_def ix)
  have vs: "table_view ?s = [sample_key \<mapsto> sample_chunk]" by (simp add: table_view_def seg mono_view_def ix fun_eq_iff)
  have "counts_match (table_view ?s) (ix_assets (gs_index ?s))"
    by (auto simp: vs ix counts_match_def assets_in_def counted_def listed_def sample_chunk_def split: if_splits)
  from gc_removes_exactly_the_unused [OF ok seg this g] have "table_view s' sample_key = Some sample_chunk"
    by (simp add: v ix)
  then show ?thesis using g by blast
qed

end
