(* ===== verification/Plan_Format.thy ===== *)
theory Plan_Format
  imports Block_Diff
begin

text \<open>
  Offline plans (\<^verbatim>\<open>.cavsplan\<close>): the types, the encoder, the decoder and the structural validation of
  \<^verbatim>\<open>core/cavs-plan/src/lib.rs\<close>.  A plan says how an old build becomes a new one: ranges copied from
  old entries and inline bytes taken from its payload.  The compressor is a parameter.
\<close>

section \<open>Types\<close>

definition plan_magic :: bytes where
  "plan_magic = ascii ''CAVSPLN1''"

definition plan_version :: u16 where
  "plan_version = 1"

definition plan_max_entries :: u64 where
  "plan_max_entries = push_bit 24 1"

definition plan_max_ops :: u64 where
  "plan_max_ops = push_bit 28 1"

definition plan_max_blob_raw :: u64 where
  "plan_max_blob_raw = push_bit 30 16"

text \<open>The last is a panic of the code, which the source's type of errors does not have.\<close>

datatype plan_error = PlanBadMagic | PlanUnsupportedVersion u16 | PlanTruncated string | PlanMalformed string
  | PlanIntegrityMismatch | PlanInvalid string | PlanPathTraversal bytes | PlanNotPortable
  | PlanApplyHashMismatch bytes | PlanJournal string | PlanUnsupportedSymlink bytes | PlanIo string
  | PlanPanicked string

datatype plan_kind = AnalysisPlan | PortablePlan

fun plan_kind_code :: "plan_kind \<Rightarrow> byte" where
  "plan_kind_code AnalysisPlan = 1"
| "plan_kind_code PortablePlan = 2"

definition plan_kind_from_u8 :: "byte \<Rightarrow> plan_kind option" where
  "plan_kind_from_u8 v = (if v = 1 then Some AnalysisPlan else if v = 2 then Some PortablePlan else None)"

fun plan_kind_label :: "plan_kind \<Rightarrow> string" where
  "plan_kind_label AnalysisPlan = ''analysis''"
| "plan_kind_label PortablePlan = ''portable''"

datatype plan_mode = ArtifactPlan | DirectoryPlan

fun plan_mode_code :: "plan_mode \<Rightarrow> byte" where
  "plan_mode_code ArtifactPlan = 1"
| "plan_mode_code DirectoryPlan = 2"

definition plan_mode_from_u8 :: "byte \<Rightarrow> plan_mode option" where
  "plan_mode_from_u8 v = (if v = 1 then Some ArtifactPlan else if v = 2 then Some DirectoryPlan else None)"

fun plan_mode_label :: "plan_mode \<Rightarrow> string" where
  "plan_mode_label ArtifactPlan = ''artifact''"
| "plan_mode_label DirectoryPlan = ''directory''"

record old_entry =
  oe_id :: u32
  oe_path :: bytes
  oe_size :: u64

record plan_entry =
  pe_id :: u32
  pe_path :: bytes
  pe_kind :: entry_kind
  pe_size :: u64
  pe_executable :: bool
  pe_target :: "bytes option"
  pe_blake3 :: "chunk_hash option"

datatype plan_op =
    CopyOld (from_entry: u32) (from_offset: u64) (to_entry: u32) (to_offset: u64) (to_len: u64)
  | Inline (to_entry: u32) (to_offset: u64) (to_len: u64) (blob_at: u64)

record offline_plan =
  op_kind :: plan_kind
  op_mode :: plan_mode
  op_block_size :: u32
  old_label :: bytes
  old_size :: u64
  old_blake3 :: "chunk_hash option"
  new_label :: bytes
  new_size :: u64
  old_entries :: "old_entry list"
  new_entries :: "plan_entry list"
  plan_deleted :: "bytes list"
  plan_ops :: "plan_op list"
  plan_blob :: bytes

record plan_summary =
  ops_total :: u64
  copy_ops :: u64
  inline_ops :: u64
  sum_reused :: u64
  sum_inline :: u64
  sum_files :: u64
  sum_dirs :: u64
  sum_symlinks :: u64
  sum_deleted :: u64
  unchanged_files :: u64

section \<open>Fields\<close>

text \<open>The crate has its own copy of the varint writer, which is \<open>write_varuint\<close>, and of the reader.\<close>

definition plan_read_var :: "bytes \<Rightarrow> plan_error + u64 \<times> bytes" where
  "plan_read_var = read_varuint_with (PlanTruncated ''varint'') (PlanMalformed ''overlong varint'')
     (PlanMalformed ''varint overflow'')"

definition plan_write_str :: "bytes \<Rightarrow> bytes" where
  "plan_write_str s = write_varuint (of_nat (length s)) @ s"

definition plan_read_str :: "bytes \<Rightarrow> plan_error + bytes \<times> bytes" where
  "plan_read_str input =
     rbind (plan_read_var input) (\<lambda>(len, input).
     let len = unat len in
     if length input < len \<or> 2 ^ 16 < len then Inl (PlanTruncated ''string'')
     else if is_utf8 (take len input) then Inr (take len input, drop len input)
     else Inl (PlanMalformed ''string not UTF-8''))"

definition plan_byte :: "string \<Rightarrow> bytes \<Rightarrow> plan_error + byte \<times> bytes" where
  "plan_byte what input = rbind (take_bytes (PlanTruncated what) 1 input) (\<lambda>(b, input). Inr (hd b, input))"

definition plan_read_flag :: "string \<Rightarrow> bytes \<Rightarrow> plan_error + bool \<times> bytes" where
  "plan_read_flag what input =
     rbind (plan_byte what input) (\<lambda>(b, input).
     if b = 0 then Inr (False, input) else if b = 1 then Inr (True, input) else Inl (PlanMalformed what))"

definition plan_write_hash :: "chunk_hash option \<Rightarrow> bytes" where
  "plan_write_hash h = (case h of Some h \<Rightarrow> 1 # h | None \<Rightarrow> [0])"

definition plan_read_hash :: "string \<Rightarrow> string \<Rightarrow> bytes \<Rightarrow> plan_error + chunk_hash option \<times> bytes" where
  "plan_read_hash flag what input =
     rbind (plan_byte flag input) (\<lambda>(b, input).
     if b = 0 then Inr (None, input)
     else if b = 1 then rbind (take_bytes (PlanTruncated what) 32 input) (\<lambda>(h, input). Inr (Some h, input))
     else Inl (PlanMalformed flag))"

text \<open>The id of an entry: a varint that must fit in 32 bits.\<close>

definition plan_read_id :: "string \<Rightarrow> bytes \<Rightarrow> plan_error + u32 \<times> bytes" where
  "plan_read_id what input =
     rbind (plan_read_var input) (\<lambda>(i, input).
     if 0xffffffff < i then Inl (PlanMalformed what) else Inr (ucast i, input))"

text \<open>A counted list: the count is checked against its cap before anything is read.\<close>

definition write_counted :: "('a \<Rightarrow> bytes) \<Rightarrow> 'a list \<Rightarrow> bytes" where
  "write_counted enc xs = write_varuint (of_nat (length xs)) @ encode_all enc xs"

definition plan_read_counted ::
    "u64 \<Rightarrow> string \<Rightarrow> (bytes \<Rightarrow> plan_error + 'a \<times> bytes) \<Rightarrow> bytes \<Rightarrow> plan_error + 'a list \<times> bytes" where
  "plan_read_counted limit what dec input =
     rbind (plan_read_var input) (\<lambda>(n, input).
     if limit < n then Inl (PlanMalformed what) else decode_n dec (unat n) input)"

section \<open>Entries and operations\<close>

definition write_old_entry :: "old_entry \<Rightarrow> bytes" where
  "write_old_entry e =
     write_varuint (ucast (oe_id e)) @ plan_write_str (oe_path e) @ write_varuint (oe_size e)"

definition read_old_entry :: "bytes \<Rightarrow> plan_error + old_entry \<times> bytes" where
  "read_old_entry input =
     rbind (plan_read_id ''old entry id out of range'' input) (\<lambda>(i, input).
     rbind (plan_read_str input) (\<lambda>(path, input).
     rbind (plan_read_var input) (\<lambda>(size, input).
     Inr (\<lparr>oe_id = i, oe_path = path, oe_size = size\<rparr>, input))))"

definition write_plan_entry :: "plan_entry \<Rightarrow> bytes" where
  "write_plan_entry e =
     write_varuint (ucast (pe_id e)) @ plan_write_str (pe_path e) @ [entry_kind_code (pe_kind e)]
     @ write_varuint (pe_size e) @ [flag_byte (pe_executable e)]
     @ plan_write_str (case pe_target e of None \<Rightarrow> [] | Some t \<Rightarrow> t) @ plan_write_hash (pe_blake3 e)"

definition read_plan_entry :: "bytes \<Rightarrow> plan_error + plan_entry \<times> bytes" where
  "read_plan_entry input =
     rbind (plan_read_id ''new entry id out of range'' input) (\<lambda>(i, input).
     rbind (plan_read_str input) (\<lambda>(path, input).
     rbind (plan_byte ''entry kind'' input) (\<lambda>(k, input).
     rbind (ok_or (PlanMalformed ''unknown entry kind'') (entry_kind_from_u8 k)) (\<lambda>kind.
     rbind (plan_read_var input) (\<lambda>(size, input).
     rbind (plan_read_flag ''exec flag'' input) (\<lambda>(exec, input).
     rbind (plan_read_str input) (\<lambda>(target, input).
     rbind (plan_read_hash ''entry hash flag'' ''entry hash'' input) (\<lambda>(hash, input).
     Inr (\<lparr>pe_id = i, pe_path = path, pe_kind = kind, pe_size = size, pe_executable = exec,
           pe_target = (if target = [] then None else Some target), pe_blake3 = hash\<rparr>, input)))))))))"

fun write_plan_op :: "plan_op \<Rightarrow> bytes" where
  "write_plan_op (CopyOld old off new noff len) =
     1 # write_varuint (ucast old) @ write_varuint off @ write_varuint (ucast new) @ write_varuint noff
       @ write_varuint len"
| "write_plan_op (Inline new noff len boff) =
     2 # write_varuint (ucast new) @ write_varuint noff @ write_varuint len @ write_varuint boff"

definition read_copy_op :: "bytes \<Rightarrow> plan_error + plan_op \<times> bytes" where
  "read_copy_op input =
     rbind (plan_read_var input) (\<lambda>(old, input).
     rbind (plan_read_var input) (\<lambda>(off, input).
     rbind (plan_read_var input) (\<lambda>(new, input).
     rbind (plan_read_var input) (\<lambda>(noff, input).
     rbind (plan_read_var input) (\<lambda>(len, input).
     if 0xffffffff < old \<or> 0xffffffff < new then Inl (PlanMalformed ''op entry id out of range'')
     else Inr (CopyOld (ucast old) off (ucast new) noff len, input))))))"

definition read_inline_op :: "bytes \<Rightarrow> plan_error + plan_op \<times> bytes" where
  "read_inline_op input =
     rbind (plan_read_var input) (\<lambda>(new, input).
     rbind (plan_read_var input) (\<lambda>(noff, input).
     rbind (plan_read_var input) (\<lambda>(len, input).
     rbind (plan_read_var input) (\<lambda>(boff, input).
     if 0xffffffff < new then Inl (PlanMalformed ''op entry id out of range'')
     else Inr (Inline (ucast new) noff len boff, input)))))"

definition read_plan_op :: "bytes \<Rightarrow> plan_error + plan_op \<times> bytes" where
  "read_plan_op input =
     rbind (plan_byte ''op tag'' input) (\<lambda>(tag, input).
     if tag = 1 then read_copy_op input
     else if tag = 2 then read_inline_op input
     else Inl (PlanMalformed ''unknown op tag''))"

section \<open>Validation\<close>

text \<open>\<^verbatim>\<open>split('/')\<close>: the components between separators, of which there is always one more.\<close>

fun split_on :: "'a \<Rightarrow> 'a list \<Rightarrow> 'a list list" where
  "split_on sep [] = [[]]"
| "split_on sep (x # xs) =
     (if x = sep then [] # split_on sep xs
      else case split_on sep xs of [] \<Rightarrow> [[x]] | c # cs \<Rightarrow> (x # c) # cs)"

definition path_is_safe :: "bytes \<Rightarrow> bool" where
  "path_is_safe p \<longleftrightarrow> p \<noteq> [] \<and> hd p \<noteq> 0x2f \<and> 0x5c \<notin> set p \<and> 0x3a \<notin> set p \<and> 0 \<notin> set p
     \<and> list_all (\<lambda>c. c \<noteq> [] \<and> c \<noteq> [0x2e] \<and> c \<noteq> [0x2e, 0x2e]) (split_on 0x2f p)"

definition path_text :: "bytes \<Rightarrow> string" where
  "path_text p = map (\<lambda>b. char_of (unat b)) p"

fun check_old_entries :: "plan_mode \<Rightarrow> u32 set \<Rightarrow> old_entry list \<Rightarrow> plan_error + u32 set" where
  "check_old_entries mode seen [] = Inr seen"
| "check_old_entries mode seen (e # es) =
     (if oe_id e \<in> seen then Inl (PlanInvalid (''duplicate old entry id '' @ decimal (unat (oe_id e))))
      else if mode = DirectoryPlan \<and> \<not> path_is_safe (oe_path e) then Inl (PlanPathTraversal (oe_path e))
      else check_old_entries mode (insert (oe_id e) seen) es)"

fun check_new_entries ::
    "plan_mode \<Rightarrow> (u32 \<Rightarrow> plan_entry option) \<Rightarrow> plan_entry list \<Rightarrow> plan_error + (u32 \<Rightarrow> plan_entry option)" where
  "check_new_entries mode by_id [] = Inr by_id"
| "check_new_entries mode by_id (e # es) =
     (if by_id (pe_id e) \<noteq> None then Inl (PlanInvalid (''duplicate new entry id '' @ decimal (unat (pe_id e))))
      else if mode = DirectoryPlan \<and> \<not> path_is_safe (pe_path e) then Inl (PlanPathTraversal (pe_path e))
      else if pe_kind e = EntryFile \<and> pe_blake3 e = None
      then Inl (PlanInvalid (''file entry '' @ path_text (pe_path e) @ '' has no content hash''))
      else check_new_entries mode (by_id(pe_id e \<mapsto> e)) es)"

fun check_deleted :: "bytes list \<Rightarrow> plan_error + unit" where
  "check_deleted [] = Inr ()"
| "check_deleted (p # ps) = (if path_is_safe p then check_deleted ps else Inl (PlanPathTraversal p))"

fun check_op_source :: "plan_kind \<Rightarrow> u32 set \<Rightarrow> bytes \<Rightarrow> plan_op \<Rightarrow> plan_error + unit" where
  "check_op_source kind old_ids blob (CopyOld old off new noff len) =
     (if old \<in> old_ids then Inr ()
      else Inl (PlanInvalid (''op references unknown old entry '' @ decimal (unat old))))"
| "check_op_source kind old_ids blob (Inline new noff len boff) =
     (if kind = PortablePlan \<and> (u64_max < unat boff + unat len \<or> length blob < unat boff + unat len)
      then Inl (PlanInvalid ''inline op reads past the blob'') else Inr ())"

text \<open>The cursor of an entry is how far its operations have covered it; the addition is unchecked.\<close>

definition check_op :: "(u32 \<Rightarrow> plan_entry option) \<Rightarrow> (u32 \<Rightarrow> u64) \<Rightarrow> plan_op \<Rightarrow> plan_error + (u32 \<Rightarrow> u64)" where
  "check_op by_id cursor op =
     (case by_id (to_entry op) of
        None \<Rightarrow> Inl (PlanInvalid (''op references unknown new entry '' @ decimal (unat (to_entry op))))
      | Some entry \<Rightarrow>
          let at = cursor (to_entry op) in
          if to_offset op \<noteq> at
          then Inl (PlanInvalid (''gap/overlap in '' @ path_text (pe_path entry) @ '' at offset '' @ decimal (unat at)
            @ '' (op starts at '' @ decimal (unat (to_offset op)) @ '')''))
          else
          let at = at + to_len op in
          if pe_size entry < at
          then Inl (PlanInvalid (''ops overflow '' @ path_text (pe_path entry) @ '' ('' @ decimal (unat at) @ '' of ''
            @ decimal (unat (pe_size entry)) @ '' bytes)''))
          else Inr (cursor(to_entry op := at)))"

fun check_ops :: "plan_kind \<Rightarrow> u32 set \<Rightarrow> (u32 \<Rightarrow> plan_entry option) \<Rightarrow> bytes \<Rightarrow> (u32 \<Rightarrow> u64) \<Rightarrow> plan_op list
    \<Rightarrow> plan_error + (u32 \<Rightarrow> u64)" where
  "check_ops kind old_ids by_id blob cursor [] = Inr cursor"
| "check_ops kind old_ids by_id blob cursor (op # ops) =
     rbind (check_op_source kind old_ids blob op) (\<lambda>_.
     rbind (check_op by_id cursor op) (\<lambda>cursor.
     check_ops kind old_ids by_id blob cursor ops))"

fun check_covered :: "(u32 \<Rightarrow> u64) \<Rightarrow> plan_entry list \<Rightarrow> plan_error + unit" where
  "check_covered cursor [] = Inr ()"
| "check_covered cursor (e # es) =
     (if pe_kind e = EntryFile \<and> cursor (pe_id e) \<noteq> pe_size e
      then Inl (PlanInvalid (''ops cover '' @ decimal (unat (cursor (pe_id e))) @ '' of '' @ decimal (unat (pe_size e))
        @ '' bytes of '' @ path_text (pe_path e)))
      else check_covered cursor es)"

definition plan_validate :: "offline_plan \<Rightarrow> plan_error + unit" where
  "plan_validate p =
     rbind (check_old_entries (op_mode p) {} (old_entries p)) (\<lambda>old_ids.
     rbind (check_new_entries (op_mode p) (\<lambda>_. None) (new_entries p)) (\<lambda>by_id.
     rbind (check_deleted (plan_deleted p)) (\<lambda>_.
     rbind (check_ops (op_kind p) old_ids by_id (plan_blob p) (\<lambda>_. 0) (plan_ops p)) (\<lambda>cursor.
     check_covered cursor (new_entries p)))))"

section \<open>The file\<close>

definition plan_head :: "offline_plan \<Rightarrow> bytes" where
  "plan_head p =
     to_le 2 plan_version @ [plan_kind_code (op_kind p)] @ [plan_mode_code (op_mode p)]
     @ write_varuint (ucast (op_block_size p)) @ plan_write_str (old_label p) @ write_varuint (old_size p)
     @ plan_write_hash (old_blake3 p) @ plan_write_str (new_label p) @ write_varuint (new_size p)"

definition plan_lists :: "offline_plan \<Rightarrow> bytes" where
  "plan_lists p =
     write_counted write_old_entry (old_entries p) @ write_counted write_plan_entry (new_entries p)
     @ write_counted plan_write_str (plan_deleted p) @ write_counted write_plan_op (plan_ops p)"

definition write_blob :: "bytes \<Rightarrow> bytes \<Rightarrow> bytes" where
  "write_blob raw stored = write_varuint (of_nat (length raw)) @ write_varuint (of_nat (length stored)) @ stored"

definition plan_encode :: "hash_fun \<Rightarrow> (int \<Rightarrow> bytes \<Rightarrow> bytes) \<Rightarrow> int \<Rightarrow> offline_plan \<Rightarrow> bytes" where
  "plan_encode blake3 compress level p =
     (let stored = (if plan_blob p = [] then [] else compress level (plan_blob p));
          out = plan_magic @ plan_head p @ plan_lists p @ write_blob (plan_blob p) stored
      in out @ hash_chunk blake3 out)"

definition read_blob :: "(bytes \<Rightarrow> nat \<Rightarrow> bytes option) \<Rightarrow> bytes \<Rightarrow> plan_error + bytes" where
  "read_blob decompress input =
     rbind (plan_read_var input) (\<lambda>(raw_len, input).
     if plan_max_blob_raw < raw_len then Inl (PlanMalformed ''blob too large'')
     else
     rbind (plan_read_var input) (\<lambda>(comp_len, input).
     rbind (take_bytes (PlanTruncated ''blob'') (unat comp_len) input) (\<lambda>(comp, input).
     if input \<noteq> [] then Inl (PlanMalformed ''trailing bytes'')
     else if raw_len = 0 then Inr []
     else
     rbind (ok_or (PlanMalformed ''blob does not decompress'') (decompress comp (unat raw_len))) (\<lambda>raw.
     if length raw \<noteq> unat raw_len then Inl (PlanMalformed ''blob length mismatch'') else Inr raw))))"

definition read_plan_body :: "(bytes \<Rightarrow> nat \<Rightarrow> bytes option) \<Rightarrow> bytes \<Rightarrow> plan_error + offline_plan" where
  "read_plan_body decompress input =
     rbind (take_le (PlanTruncated ''version'') 2 input) (\<lambda>(version, input).
     if version \<noteq> plan_version then Inl (PlanUnsupportedVersion version)
     else
     rbind (plan_byte ''kind'' input) (\<lambda>(k, input).
     rbind (ok_or (PlanMalformed ''unknown plan kind'') (plan_kind_from_u8 k)) (\<lambda>kind.
     rbind (plan_byte ''mode'' input) (\<lambda>(m, input).
     rbind (ok_or (PlanMalformed ''unknown plan mode'') (plan_mode_from_u8 m)) (\<lambda>mode.
     rbind (plan_read_id ''block size out of range'' input) (\<lambda>(bsize, input).
     rbind (plan_read_str input) (\<lambda>(olabel, input).
     rbind (plan_read_var input) (\<lambda>(osize, input).
     rbind (plan_read_hash ''old hash flag'' ''old hash'' input) (\<lambda>(ohash, input).
     rbind (plan_read_str input) (\<lambda>(nlabel, input).
     rbind (plan_read_var input) (\<lambda>(nsize, input).
     rbind (plan_read_counted plan_max_entries ''old entry count too large'' read_old_entry input) (\<lambda>(olds, input).
     rbind (plan_read_counted plan_max_entries ''new entry count too large'' read_plan_entry input) (\<lambda>(news, input).
     rbind (plan_read_counted plan_max_entries ''deleted count too large'' plan_read_str input) (\<lambda>(dels, input).
     rbind (plan_read_counted plan_max_ops ''op count too large'' read_plan_op input) (\<lambda>(ops, input).
     rbind (read_blob decompress input) (\<lambda>blob.
     let p = \<lparr>op_kind = kind, op_mode = mode, op_block_size = bsize, old_label = olabel, old_size = osize,
              old_blake3 = ohash, new_label = nlabel, new_size = nsize, old_entries = olds, new_entries = news,
              plan_deleted = dels, plan_ops = ops, plan_blob = blob\<rparr>
     in rbind (plan_validate p) (\<lambda>_. Inr p)))))))))))))))))"

definition plan_decode :: "hash_fun \<Rightarrow> (bytes \<Rightarrow> nat \<Rightarrow> bytes option) \<Rightarrow> bytes \<Rightarrow> plan_error + offline_plan" where
  "plan_decode blake3 decompress bs =
     (if length bs < length plan_magic + 2 + 32 then Inl (PlanTruncated ''header'')
      else if take 8 bs \<noteq> plan_magic then Inl PlanBadMagic
      else
      let body_len = length bs - 32 in
      if hash_chunk blake3 (take body_len bs) \<noteq> drop body_len bs then Inl PlanIntegrityMismatch
      else read_plan_body decompress (drop 8 (take body_len bs)))"

section \<open>Summary\<close>

text \<open>
  Derived numbers, added up in 64-bit words; the second component counts the copied bytes of each
  entry.
\<close>

fun sum_op :: "plan_op \<Rightarrow> plan_summary \<times> (u32 \<Rightarrow> u64) \<Rightarrow> plan_summary \<times> (u32 \<Rightarrow> u64)" where
  "sum_op (CopyOld old off new noff len) (s, copied) =
     (s\<lparr>copy_ops := copy_ops s + 1, sum_reused := sum_reused s + len\<rparr>, copied(new := copied new + len))"
| "sum_op (Inline new noff len boff) (s, copied) =
     (s\<lparr>inline_ops := inline_ops s + 1, sum_inline := sum_inline s + len\<rparr>, copied)"

definition sum_entry :: "(u32 \<Rightarrow> u64) \<Rightarrow> plan_entry \<Rightarrow> plan_summary \<Rightarrow> plan_summary" where
  "sum_entry copied e s =
     (case pe_kind e of
        EntryFile \<Rightarrow>
          s\<lparr>sum_files := sum_files s + 1,
            unchanged_files := (if copied (pe_id e) = pe_size e \<and> 0 < pe_size e
              then unchanged_files s + 1 else unchanged_files s)\<rparr>
      | EntryDirectory \<Rightarrow> s\<lparr>sum_dirs := sum_dirs s + 1\<rparr>
      | EntrySymlink \<Rightarrow> s\<lparr>sum_symlinks := sum_symlinks s + 1\<rparr>)"

definition plan_summary_of :: "offline_plan \<Rightarrow> plan_summary" where
  "plan_summary_of p =
     (let start = \<lparr>ops_total = of_nat (length (plan_ops p)), copy_ops = 0, inline_ops = 0, sum_reused = 0,
            sum_inline = 0, sum_files = 0, sum_dirs = 0, sum_symlinks = 0,
            sum_deleted = of_nat (length (plan_deleted p)), unchanged_files = 0\<rparr>;
          (s, copied) = fold sum_op (plan_ops p) (start, \<lambda>_. 0)
      in fold (sum_entry copied) (new_entries p) s)"

end
