(* ===== verification/Plan_Laws.thy ===== *)
theory Plan_Laws
  imports Plan_Format
begin

text \<open>
  The plan format is a codec: the decoder accepts exactly the files of well-formed plans, up to the
  compressed form of the payload.  And what validation establishes: the operations of each file lie
  end to end and cover it.
\<close>

section \<open>Fields\<close>

interpretation plan_var: codec write_varuint plan_read_var "\<lambda>_. True"
  unfolding plan_read_var_def by (rule varuint.codec_axioms)

interpretation plan_str: codec plan_write_str plan_read_str valid_str
proof unfold_locales
  fix s rest input :: bytes
  assume v: "valid_str s"
  then have "unat (of_nat (length s) :: u64) = length s"
    by (simp add: valid_str_def unsigned_of_nat take_bit_nat_eq_self)
  then show "plan_read_str (plan_write_str s @ rest) = Inr (s, rest)"
    using v by (simp add: plan_read_str_def plan_write_str_def valid_str_def plan_var.dec_enc)
next
  fix s rest input :: bytes
  assume r: "plan_read_str input = Inr (s, rest)"
  then obtain n r1 where n: "plan_read_var input = Inr (n, r1)"
    by (cases "plan_read_var input") (auto simp: plan_read_str_def)
  with r have "unat n \<le> length r1" "unat n \<le> 2 ^ 16" "s = take (unat n) r1" "rest = drop (unat n) r1" "is_utf8 s"
    by (auto simp: plan_read_str_def Let_def not_less split: if_splits)
  then show "valid_str s \<and> input = plan_write_str s @ rest"
    using plan_var.dec_sound [OF n] by (simp add: valid_str_def plan_write_str_def)
qed

interpretation plan_field_byte: codec "\<lambda>b. [b]" "plan_byte what" "\<lambda>_. True" for what
proof unfold_locales
  fix b :: byte and rest input
  show "plan_byte what ([b] @ rest) = Inr (b, rest)" by (simp add: plan_byte_def take_bytes_def)
  show "True \<and> input = [b] @ rest" if "plan_byte what input = Inr (b, rest)"
    using that by (auto simp: plan_byte_def rbind_eq_Inr take_bytes_eq_Inr length_Suc_conv)
qed

lemma plan_byte_Cons [simp]: "plan_byte what (b # rest) = Inr (b, rest)"
  using plan_field_byte.dec_enc [of what b rest] by simp

lemma plan_byte_sound: "plan_byte what input = Inr (b, rest) \<longleftrightarrow> input = b # rest"
  using plan_field_byte.dec_sound [of what input b rest] by auto

interpretation plan_flag: codec "\<lambda>b. [flag_byte b]" "plan_read_flag what" "\<lambda>_. True" for what
proof unfold_locales
  fix b rest input
  show "plan_read_flag what ([flag_byte b] @ rest) = Inr (b, rest)"
    by (cases b) (simp_all add: plan_read_flag_def)
  show "True \<and> input = [flag_byte b] @ rest" if "plan_read_flag what input = Inr (b, rest)"
    using that by (auto simp: plan_read_flag_def rbind_eq_Inr plan_byte_sound split: if_splits)
qed

interpretation plan_hash: codec plan_write_hash "plan_read_hash flag what" valid_hash_opt for flag what
proof unfold_locales
  fix h rest input
  assume v: "valid_hash_opt h"
  then show "plan_read_hash flag what (plan_write_hash h @ rest) = Inr (h, rest)"
    by (cases h) (simp_all add: plan_read_hash_def plan_write_hash_def valid_hash_opt_def)
next
  fix h rest input
  assume r: "plan_read_hash flag what input = Inr (h, rest)"
  then obtain b r1 where b: "input = b # r1" by (auto simp: plan_read_hash_def rbind_eq_Inr plan_byte_sound)
  with r show "valid_hash_opt h \<and> input = plan_write_hash h @ rest"
    by (auto simp: plan_read_hash_def rbind_eq_Inr take_bytes_eq_Inr valid_hash_opt_def plan_write_hash_def split: if_splits)
qed

interpretation plan_id: codec "\<lambda>i :: u32. write_varuint (ucast i)" "plan_read_id what" "\<lambda>_. True" for what
proof unfold_locales
  fix i :: u32 and rest input
  show "plan_read_id what (write_varuint (ucast i) @ rest) = Inr (i, rest)"
    by (simp add: plan_read_id_def plan_var.dec_enc)
  assume "plan_read_id what input = Inr (i, rest)"
  then obtain n where "plan_read_var input = Inr (n, rest)" "\<not> 0xffffffff < n" "i = ucast n"
    by (auto simp: plan_read_id_def rbind_eq_Inr split: if_splits)
  then show "True \<and> input = write_varuint (ucast i) @ rest"
    using plan_var.dec_sound u64_u32 by simp
qed

text \<open>A counted list of a codec is a codec, for lists within the cap.\<close>

lemma counted_codec:
  assumes "codec enc dec valid"
  shows "codec (write_counted enc) (plan_read_counted limit what dec)
    (\<lambda>xs. (\<forall>x \<in> set xs. valid x) \<and> length xs \<le> unat limit)"
proof (rule codec.intro)
  fix xs :: "'a list" and rest
  assume v: "(\<forall>x \<in> set xs. valid x) \<and> length xs \<le> unat limit"
  have "length xs < 2 ^ 64" using v unat_u64 [of limit] by linarith
  then have n: "unat (of_nat (length xs) :: u64) = length xs"
    by (simp add: unsigned_of_nat take_bit_nat_eq_self)
  then have "\<not> limit < of_nat (length xs)" using v by (simp add: word_less_nat_alt)
  then show "plan_read_counted limit what dec (write_counted enc xs @ rest) = Inr (xs, rest)"
    using codec.dec_n_enc [OF assms] v
    by (simp add: plan_read_counted_def write_counted_def plan_var.dec_enc n)
next
  fix input and xs :: "'a list" and rest
  assume "plan_read_counted limit what dec input = Inr (xs, rest)"
  then obtain n r where n: "plan_read_var input = Inr (n, r)" "\<not> limit < n" "decode_n dec (unat n) r = Inr (xs, rest)"
    by (auto simp: plan_read_counted_def rbind_eq_Inr split: if_splits)
  then have "length xs = unat n \<and> (\<forall>x \<in> set xs. valid x) \<and> r = encode_all enc xs @ rest"
    using codec.dec_n_sound [OF assms] by blast
  then show "((\<forall>x \<in> set xs. valid x) \<and> length xs \<le> unat limit) \<and> input = write_counted enc xs @ rest"
    using n(2) plan_var.dec_sound [OF n(1)] by (simp add: write_counted_def not_less word_le_nat_alt)
qed

section \<open>Entries and operations\<close>

interpretation old_entry_codec: codec write_old_entry read_old_entry "\<lambda>e. valid_str (oe_path e)"
  by unfold_locales
    (auto simp: read_old_entry_def write_old_entry_def plan_id.dec_enc plan_str.dec_enc plan_var.dec_enc rbind_eq_Inr
      dest!: plan_id.dec_sound plan_str.dec_sound plan_var.dec_sound)

definition valid_plan_entry :: "plan_entry \<Rightarrow> bool" where
  "valid_plan_entry e \<longleftrightarrow> valid_str (pe_path e) \<and> valid_hash_opt (pe_blake3 e)
     \<and> (case pe_target e of None \<Rightarrow> True | Some t \<Rightarrow> t \<noteq> [] \<and> valid_str t)"

interpretation plan_entry_codec: codec write_plan_entry read_plan_entry valid_plan_entry
proof unfold_locales
  fix e rest input
  assume v: "valid_plan_entry e"
  let ?target = "case pe_target e of None \<Rightarrow> [] | Some t \<Rightarrow> t"
  have t: "valid_str ?target" "(if ?target = [] then None else Some ?target) = pe_target e"
    using v by (auto simp: valid_plan_entry_def split: option.splits)
  have p: "valid_str (pe_path e)" "valid_hash_opt (pe_blake3 e)" using v by (simp_all add: valid_plan_entry_def)
  show "read_plan_entry (write_plan_entry e @ rest) = Inr (e, rest)"
    by (simp add: read_plan_entry_def write_plan_entry_def plan_id.dec_enc plan_str.dec_enc p t plan_var.dec_enc
        plan_flag.dec_enc [simplified] plan_hash.dec_enc)
next
  fix e rest input
  assume "read_plan_entry input = Inr (e, rest)"
  then obtain i r1 path r2 k r3 kind size r4 exec r5 target r6 hash where parts:
      "plan_read_id ''new entry id out of range'' input = Inr (i, r1)" "plan_read_str r1 = Inr (path, r2)"
      "r2 = k # r3" "entry_kind_from_u8 k = Some kind" "plan_read_var r3 = Inr (size, r4)"
      "plan_read_flag ''exec flag'' r4 = Inr (exec, r5)" "plan_read_str r5 = Inr (target, r6)"
      "plan_read_hash ''entry hash flag'' ''entry hash'' r6 = Inr (hash, rest)"
    and e: "e = \<lparr>pe_id = i, pe_path = path, pe_kind = kind, pe_size = size, pe_executable = exec,
           pe_target = (if target = [] then None else Some target), pe_blake3 = hash\<rparr>"
    by (auto simp: read_plan_entry_def rbind_eq_Inr ok_or_eq_Inr plan_byte_sound)
  show "valid_plan_entry e \<and> input = write_plan_entry e @ rest"
    using plan_id.dec_sound [OF parts(1)] plan_str.dec_sound [OF parts(2)] parts(3)
      entry_kind_from_u8_Some [OF parts(4)] plan_var.dec_sound [OF parts(5)] plan_flag.dec_sound [OF parts(6)]
      plan_str.dec_sound [OF parts(7)] plan_hash.dec_sound [OF parts(8)]
    by (simp add: e valid_plan_entry_def write_plan_entry_def)
qed

interpretation plan_op_codec: codec write_plan_op read_plan_op "\<lambda>_. True"
proof unfold_locales
  fix op rest input
  show "read_plan_op (write_plan_op op @ rest) = Inr (op, rest)"
    by (cases op) (simp_all add: read_plan_op_def read_copy_op_def read_inline_op_def plan_var.dec_enc)
  assume r: "read_plan_op input = Inr (op, rest)"
  then obtain tag r1 where tag: "input = tag # r1" by (auto simp: read_plan_op_def rbind_eq_Inr plan_byte_sound)
  with r consider (copy) "tag = 1" "read_copy_op r1 = Inr (op, rest)" | (inl) "tag = 2" "read_inline_op r1 = Inr (op, rest)"
    by (auto simp: read_plan_op_def split: if_splits)
  then show "True \<and> input = write_plan_op op @ rest"
  proof cases
    case copy
    then show ?thesis
      by (auto simp: tag read_copy_op_def rbind_eq_Inr u64_u32 split: if_splits dest!: plan_var.dec_sound)
  next
    case inl
    then show ?thesis
      by (auto simp: tag read_inline_op_def rbind_eq_Inr u64_u32 split: if_splits dest!: plan_var.dec_sound)
  qed
qed

interpretation old_list: codec "write_counted write_old_entry"
    "plan_read_counted plan_max_entries what read_old_entry"
    "\<lambda>es. (\<forall>e \<in> set es. valid_str (oe_path e)) \<and> length es \<le> unat plan_max_entries" for what
  by (rule counted_codec [OF old_entry_codec.codec_axioms])

interpretation new_list: codec "write_counted write_plan_entry"
    "plan_read_counted plan_max_entries what read_plan_entry"
    "\<lambda>es. (\<forall>e \<in> set es. valid_plan_entry e) \<and> length es \<le> unat plan_max_entries" for what
  by (rule counted_codec [OF plan_entry_codec.codec_axioms])

interpretation deleted_list: codec "write_counted plan_write_str"
    "plan_read_counted plan_max_entries what plan_read_str"
    "\<lambda>ps. (\<forall>p \<in> set ps. valid_str p) \<and> length ps \<le> unat plan_max_entries" for what
  by (rule counted_codec [OF plan_str.codec_axioms])

interpretation op_list: codec "write_counted write_plan_op"
    "plan_read_counted plan_max_ops what read_plan_op"
    "\<lambda>ops. (\<forall>op \<in> set ops. True) \<and> length ops \<le> unat plan_max_ops" for what
  by (rule counted_codec [OF plan_op_codec.codec_axioms])

section \<open>The file\<close>

definition wf_plan :: "offline_plan \<Rightarrow> bool" where
  "wf_plan p \<longleftrightarrow> valid_str (old_label p) \<and> valid_str (new_label p) \<and> valid_hash_opt (old_blake3 p)
     \<and> (\<forall>e \<in> set (old_entries p). valid_str (oe_path e)) \<and> length (old_entries p) \<le> 2 ^ 24
     \<and> (\<forall>e \<in> set (new_entries p). valid_plan_entry e) \<and> length (new_entries p) \<le> 2 ^ 24
     \<and> (\<forall>q \<in> set (plan_deleted p). valid_str q) \<and> length (plan_deleted p) \<le> 2 ^ 24
     \<and> length (plan_ops p) \<le> 2 ^ 28 \<and> length (plan_blob p) \<le> 2 ^ 34 \<and> plan_validate p = Inr ()"

text \<open>The stored form of a payload: what the decompressor turns back; of an empty payload, anything.\<close>

definition stores :: "(bytes \<Rightarrow> nat \<Rightarrow> bytes option) \<Rightarrow> bytes \<Rightarrow> bytes \<Rightarrow> bool" where
  "stores decompress stored raw \<longleftrightarrow> length stored < 2 ^ 64 \<and> (raw \<noteq> [] \<longrightarrow> decompress stored (length raw) = Some raw)"

definition plan_file :: "hash_fun \<Rightarrow> offline_plan \<Rightarrow> bytes \<Rightarrow> bytes" where
  "plan_file blake3 p stored =
     (let out = plan_magic @ plan_head p @ plan_lists p @ write_blob (plan_blob p) stored
      in out @ hash_chunk blake3 out)"

lemma plan_encode_file:
  "plan_encode blake3 compress level p
    = plan_file blake3 p (if plan_blob p = [] then [] else compress level (plan_blob p))"
  by (simp add: plan_encode_def plan_file_def Let_def)

lemma unat_of_nat_u64: "n < 2 ^ 64 \<Longrightarrow> unat (of_nat n :: u64) = n"
  by (simp add: unsigned_of_nat take_bit_nat_eq_self)

lemma caps: "unat plan_max_entries = 2 ^ 24" "unat plan_max_ops = 2 ^ 28" "unat plan_max_blob_raw = 2 ^ 34"
  by (simp_all add: plan_max_entries_def plan_max_ops_def plan_max_blob_raw_def)

lemma read_blob_write:
  assumes "length raw \<le> 2 ^ 34" "stores decompress stored raw"
  shows "read_blob decompress (write_blob raw stored) = Inr raw"
proof -
  have n: "unat (of_nat (length raw) :: u64) = length raw" "unat (of_nat (length stored) :: u64) = length stored"
    using assms by (simp_all add: unat_of_nat_u64 stores_def)
  then have "\<not> plan_max_blob_raw < of_nat (length raw)" using assms(1) by (simp add: word_less_nat_alt caps)
  moreover have "(of_nat (length raw) :: u64) = 0 \<longleftrightarrow> raw = []" 
    by (simp only: unat_eq_zero [symmetric] n(1) length_0_conv)
  moreover have "take_bytes (PlanTruncated ''blob'') (length stored) stored = Inr (stored, [])"
    by (simp add: take_bytes_eq_Inr)
  ultimately show ?thesis
    using assms(2) by (auto simp: read_blob_def write_blob_def plan_var.dec_enc n stores_def)
qed

lemma read_blob_sound:
  assumes "read_blob decompress input = Inr raw"
  obtains stored where "input = write_blob raw stored" "stores decompress stored raw" "length raw \<le> 2 ^ 34"
proof -
  from assms obtain n r1 m r2 stored where parts: "plan_read_var input = Inr (n, r1)" "\<not> plan_max_blob_raw < n"
      "plan_read_var r1 = Inr (m, r2)" "r2 = stored" "length stored = unat m"
      and raw: "if n = 0 then raw = [] else decompress stored (unat n) = Some raw \<and> length raw = unat n"
    by (auto simp: read_blob_def rbind_eq_Inr take_bytes_eq_Inr ok_or_eq_Inr split: if_splits)
  have len: "length raw = unat n" using raw by (auto split: if_splits)
  then have "of_nat (length raw) = n" "of_nat (length stored) = m" using parts(5) by simp_all
  then have "input = write_blob raw stored"
    using plan_var.dec_sound [OF parts(1)] plan_var.dec_sound [OF parts(3)] parts(4) by (simp add: write_blob_def)
  moreover have "stores decompress stored raw"
    using raw len unat_u64 [of m] parts(5) by (auto simp: stores_def split: if_splits)
  moreover have "length raw \<le> 2 ^ 34" using parts(2) len caps(3) by (simp add: word_less_nat_alt)
  ultimately show thesis by (rule that)
qed

lemma plan_kind_code [simp]: "plan_kind_from_u8 (plan_kind_code k) = Some k"
  by (cases k) (simp_all add: plan_kind_from_u8_def)

lemma plan_kind_from_u8_Some: "plan_kind_from_u8 v = Some k \<Longrightarrow> v = plan_kind_code k"
  by (auto simp: plan_kind_from_u8_def split: if_splits)

lemma plan_mode_code [simp]: "plan_mode_from_u8 (plan_mode_code k) = Some k"
  by (cases k) (simp_all add: plan_mode_from_u8_def)

lemma plan_mode_from_u8_Some: "plan_mode_from_u8 v = Some k \<Longrightarrow> v = plan_mode_code k"
  by (auto simp: plan_mode_from_u8_def split: if_splits)

definition plan_body :: "offline_plan \<Rightarrow> bytes \<Rightarrow> bytes" where
  "plan_body p stored = plan_head p @ plan_lists p @ write_blob (plan_blob p) stored"

lemma plan_body_decodes:
  assumes "wf_plan p" "stores decompress stored (plan_blob p)"
  shows "read_plan_body decompress (plan_body p stored) = Inr p"
proof -
  have le: "take_le e 2 (to_le 2 x @ r) = Inr (x, r)" for e :: plan_error and x :: u16 and r
    by (rule le16.dec_enc) simp
  note w = assms(1) [unfolded wf_plan_def]
  have strs: "valid_str (old_label p)" "valid_str (new_label p)" "valid_hash_opt (old_blake3 p)"
    using w by simp_all
  have lists: "(\<forall>e \<in> set (old_entries p). valid_str (oe_path e)) \<and> length (old_entries p) \<le> unat plan_max_entries"
    "(\<forall>e \<in> set (new_entries p). valid_plan_entry e) \<and> length (new_entries p) \<le> unat plan_max_entries"
    "(\<forall>q \<in> set (plan_deleted p). valid_str q) \<and> length (plan_deleted p) \<le> unat plan_max_entries"
    "(\<forall>op \<in> set (plan_ops p). True) \<and> length (plan_ops p) \<le> unat plan_max_ops"
    using w by (simp_all add: caps)
  have blob: "read_blob decompress (write_blob (plan_blob p) stored) = Inr (plan_blob p)"
    by (rule read_blob_write) (use w assms(2) in simp_all)
  have eta: "\<lparr>op_kind = op_kind p, op_mode = op_mode p, op_block_size = op_block_size p, old_label = old_label p,
      old_size = old_size p, old_blake3 = old_blake3 p, new_label = new_label p, new_size = new_size p,
      old_entries = old_entries p, new_entries = new_entries p, plan_deleted = plan_deleted p, plan_ops = plan_ops p,
      plan_blob = plan_blob p\<rparr> = p" by simp
  have valid: "plan_validate p = Inr ()" using w by simp
  show ?thesis
    unfolding read_plan_body_def plan_body_def plan_head_def plan_lists_def append_assoc append_Cons append_Nil
    by (simp only: le rbind_simps prod.case plan_byte_Cons plan_kind_code plan_mode_code ok_or_simps
        plan_id.dec_enc [OF TrueI] plan_str.dec_enc [OF strs(1)] plan_var.dec_enc [OF TrueI]
        plan_hash.dec_enc [OF strs(3)] plan_str.dec_enc [OF strs(2)] old_list.dec_enc [OF lists(1)]
        new_list.dec_enc [OF lists(2)] deleted_list.dec_enc [OF lists(3)] op_list.dec_enc [OF lists(4)] blob
        Let_def eta valid simp_thms if_False if_True)
qed

lemma plan_body_sound:
  assumes "read_plan_body decompress input = Inr p"
  obtains stored where "wf_plan p" "input = plan_body p stored" "stores decompress stored (plan_blob p)"
proof -
  from assms obtain r1 k r2 kind m r3 mode bsize r4 olabel r5 osize r6 ohash r7 nlabel r8 nsize r9 where head:
      "take_le (PlanTruncated ''version'') 2 input = Inr (plan_version, r1)"
      "r1 = k # r2" "plan_kind_from_u8 k = Some kind" "r2 = m # r3" "plan_mode_from_u8 m = Some mode"
      "plan_read_id ''block size out of range'' r3 = Inr (bsize, r4)" "plan_read_str r4 = Inr (olabel, r5)"
      "plan_read_var r5 = Inr (osize, r6)" "plan_read_hash ''old hash flag'' ''old hash'' r6 = Inr (ohash, r7)"
      "plan_read_str r7 = Inr (nlabel, r8)" "plan_read_var r8 = Inr (nsize, r9)"
    and rest: "rbind (plan_read_counted plan_max_entries ''old entry count too large'' read_old_entry r9) (\<lambda>(olds, input).
     rbind (plan_read_counted plan_max_entries ''new entry count too large'' read_plan_entry input) (\<lambda>(news, input).
     rbind (plan_read_counted plan_max_entries ''deleted count too large'' plan_read_str input) (\<lambda>(dels, input).
     rbind (plan_read_counted plan_max_ops ''op count too large'' read_plan_op input) (\<lambda>(ops, input).
     rbind (read_blob decompress input) (\<lambda>blob.
     let p = \<lparr>op_kind = kind, op_mode = mode, op_block_size = bsize, old_label = olabel, old_size = osize,
              old_blake3 = ohash, new_label = nlabel, new_size = nsize, old_entries = olds, new_entries = news,
              plan_deleted = dels, plan_ops = ops, plan_blob = blob\<rparr>
     in rbind (plan_validate p) (\<lambda>_. Inr p)))))) = Inr p"
    unfolding read_plan_body_def
    by (auto simp: rbind_eq_Inr ok_or_eq_Inr plan_byte_sound split: if_splits)
  from rest obtain olds r10 news r11 dels r12 ops r13 blob where tail:
      "plan_read_counted plan_max_entries ''old entry count too large'' read_old_entry r9 = Inr (olds, r10)"
      "plan_read_counted plan_max_entries ''new entry count too large'' read_plan_entry r10 = Inr (news, r11)"
      "plan_read_counted plan_max_entries ''deleted count too large'' plan_read_str r11 = Inr (dels, r12)"
      "plan_read_counted plan_max_ops ''op count too large'' read_plan_op r12 = Inr (ops, r13)"
      "read_blob decompress r13 = Inr blob"
    and p: "p = \<lparr>op_kind = kind, op_mode = mode, op_block_size = bsize, old_label = olabel, old_size = osize,
              old_blake3 = ohash, new_label = nlabel, new_size = nsize, old_entries = olds, new_entries = news,
              plan_deleted = dels, plan_ops = ops, plan_blob = blob\<rparr>"
    and valid: "plan_validate p = Inr ()"
    by (auto simp: rbind_eq_Inr Let_def)
  from read_blob_sound [OF tail(5)] obtain stored where stored: "r13 = write_blob blob stored"
      "stores decompress stored blob" "length blob \<le> 2 ^ 34" .
  note lists = old_list.dec_sound [OF tail(1)] new_list.dec_sound [OF tail(2)] deleted_list.dec_sound [OF tail(3)]
    op_list.dec_sound [OF tail(4)]
  have "wf_plan p"
    using plan_str.dec_sound [OF head(7)] plan_str.dec_sound [OF head(10)] plan_hash.dec_sound [OF head(9)] lists
      stored(3) valid by (simp add: p wf_plan_def caps)
  moreover have "input = plan_body p stored"
    using le16.dec_sound [OF head(1)] head(2,4) plan_kind_from_u8_Some [OF head(3)] plan_mode_from_u8_Some [OF head(5)]
      plan_id.dec_sound [OF head(6)] plan_str.dec_sound [OF head(7)] plan_var.dec_sound [OF head(8)]
      plan_hash.dec_sound [OF head(9)] plan_str.dec_sound [OF head(10)] plan_var.dec_sound [OF head(11)] lists stored(1)
    by (simp add: p plan_body_def plan_head_def plan_lists_def)
  ultimately show thesis using that stored(2) by (simp add: p)
qed

text \<open>Decoding is exact.\<close>

lemma length_plan_magic [simp]: "length plan_magic = 8"
  by (simp add: plan_magic_def)

lemma plan_file_body: "plan_file blake3 p stored = (plan_magic @ plan_body p stored) @ blake3 (plan_magic @ plan_body p stored)"
  by (simp add: plan_file_def plan_body_def hash_chunk_def Let_def)

lemma plan_decode_file:
  assumes "hash_ok blake3" "wf_plan p" "stores decompress stored (plan_blob p)"
  shows "plan_decode blake3 decompress (plan_file blake3 p stored) = Inr p"
proof -
  let ?out = "plan_magic @ plan_body p stored"
  have h: "length (blake3 ?out) = 32" using assms(1) by (simp add: hash_ok_def)
  have parts: "length (plan_file blake3 p stored) - 32 = length ?out" "take 8 (plan_file blake3 p stored) = plan_magic"
    using h by (simp_all add: plan_file_body)
  have "\<not> length (plan_file blake3 p stored) < 8 + 2 + 32"
    using h by (simp add: plan_file_body plan_body_def plan_head_def)
  then show ?thesis
    unfolding plan_decode_def Let_def parts length_plan_magic
    by (simp add: plan_file_body hash_chunk_def plan_body_decodes [OF assms(2,3)])
qed

lemma plan_decode_sound:
  assumes "plan_decode blake3 decompress bs = Inr p"
  obtains stored where "wf_plan p" "stores decompress stored (plan_blob p)" "bs = plan_file blake3 p stored"
proof -
  let ?body = "take (length bs - 32) bs"
  from assms have long: "42 \<le> length bs" and magic: "take 8 bs = plan_magic"
    and hash: "blake3 ?body = drop (length bs - 32) bs"
    and body: "read_plan_body decompress (drop 8 ?body) = Inr p"
    by (auto simp: plan_decode_def Let_def hash_chunk_def split: if_splits)
  obtain stored where sound: "wf_plan p" "drop 8 ?body = plan_body p stored" "stores decompress stored (plan_blob p)"
    using plan_body_sound [OF body] .
  have "8 \<le> length bs - 32" using long by linarith
  then have "take 8 ?body = plan_magic" using magic by (simp add: min_def)
  then have "plan_magic @ plan_body p stored = ?body"
    using sound(2) append_take_drop_id [of 8 ?body] by simp
  then have "bs = plan_file blake3 p stored" using hash by (simp add: plan_file_body)
  with sound show thesis using that by blast
qed

end
