(* ===== verification/Plan_Build.thy ===== *)
theory Plan_Build
  imports Plan_Laws
begin

text \<open>
  Building a plan (\<^verbatim>\<open>build\<close> in \<^verbatim>\<open>core/cavs-plan/src/lib.rs\<close>): every file of the new build is
  diffed against the signature of the old one.  The new build is a file, or a tree given by its
  relative paths in sorted order with what is at each, as \<^verbatim>\<open>walk_sorted\<close> lists them; names are UTF-8.
  \<open>None\<close> is a diff that does not return.
\<close>

datatype new_build = NewFile (build_label: bytes) bytes | NewTree (build_label: bytes) "(bytes \<times> source_item) list"

definition add_diff_op :: "u32 \<Rightarrow> bytes \<Rightarrow> diff_op \<Rightarrow> offline_plan \<Rightarrow> offline_plan" where
  "add_diff_op i content op p =
     (case op of
        CopyOldRange old off noff len \<Rightarrow>
          p\<lparr>plan_ops := plan_ops p @ [CopyOld old (of_nat off) i (of_nat noff) (of_nat len)]\<rparr>
      | InlineData noff len \<Rightarrow>
          let boff = of_nat (length (plan_blob p));
              p = (if op_kind p = PortablePlan then p\<lparr>plan_blob := plan_blob p @ take len (drop noff content)\<rparr> else p)
          in p\<lparr>plan_ops := plan_ops p @ [Inline i (of_nat noff) (of_nat len) boff]\<rparr>)"

definition add_file :: "hash_fun \<Rightarrow> weak_index \<Rightarrow> bytes \<Rightarrow> bytes \<Rightarrow> bool \<Rightarrow> offline_plan \<Rightarrow> offline_plan option" where
  "add_file blake3 idx rel content exec p =
     (let i = of_nat (length (new_entries p));
          target = (if op_mode p = DirectoryPlan then Some rel else None)
      in map_option (\<lambda>diff.
           let p = fold (add_diff_op i content) (dp_ops diff) p
           in p\<lparr>new_entries := new_entries p @ [\<lparr>pe_id = i, pe_path = rel, pe_kind = EntryFile,
                  pe_size = of_nat (length content), pe_executable = exec, pe_target = None,
                  pe_blake3 = Some (hash_chunk blake3 content)\<rparr>],
                new_size := new_size p + of_nat (length content)\<rparr>)
         (diff_bytes blake3 idx content target))"

definition add_other :: "bytes \<Rightarrow> entry_kind \<Rightarrow> bytes option \<Rightarrow> offline_plan \<Rightarrow> offline_plan" where
  "add_other rel kind target p =
     p\<lparr>new_entries := new_entries p @ [\<lparr>pe_id = of_nat (length (new_entries p)), pe_path = rel, pe_kind = kind,
          pe_size = 0, pe_executable = False, pe_target = target, pe_blake3 = None\<rparr>]\<rparr>"

fun add_item :: "hash_fun \<Rightarrow> weak_index \<Rightarrow> bytes \<Rightarrow> source_item \<Rightarrow> offline_plan \<Rightarrow> offline_plan option" where
  "add_item blake3 idx rel (SourceLink target) p = Some (add_other rel EntrySymlink (Some target) p)"
| "add_item blake3 idx rel SourceDir p = Some (add_other rel EntryDirectory None p)"
| "add_item blake3 idx rel (SourceFile exec pieces) p = add_file blake3 idx rel (concat pieces) exec p"

fun add_items :: "hash_fun \<Rightarrow> weak_index \<Rightarrow> (bytes \<times> source_item) list \<Rightarrow> offline_plan
    \<Rightarrow> (plan_error + offline_plan) option" where
  "add_items blake3 idx [] p = Some (Inr p)"
| "add_items blake3 idx ((path, item) # xs) p =
     (let rel = unix_path path in
      if \<not> path_is_safe rel then Some (Inl (PlanPathTraversal rel))
      else case add_item blake3 idx rel item p of None \<Rightarrow> None | Some p \<Rightarrow> add_items blake3 idx xs p)"

definition start_plan :: "cavs_signature \<Rightarrow> plan_kind \<Rightarrow> plan_mode \<Rightarrow> bytes \<Rightarrow> offline_plan" where
  "start_plan sig kind mode label =
     \<lparr>op_kind = kind, op_mode = mode, op_block_size = cs_block_size sig, old_label = source_label sig,
      old_size = cs_source_size sig, old_blake3 = source_blake3 sig, new_label = label, new_size = 0,
      old_entries = map (\<lambda>e. \<lparr>oe_id = entry_id e, oe_path = entry_path e, oe_size = entry_size e\<rparr>)
        (filter (\<lambda>e. entry_kind e = EntryFile) (cs_entries sig)),
      new_entries = [], plan_deleted = [], plan_ops = [], plan_blob = []\<rparr>"

definition missing_paths :: "cavs_signature \<Rightarrow> (bytes \<times> source_item) list \<Rightarrow> bytes list" where
  "missing_paths sig tree = filter (\<lambda>q. q \<notin> unix_path ` fst ` set tree) (map entry_path (cs_entries sig))"

definition validated :: "offline_plan \<Rightarrow> plan_error + offline_plan" where
  "validated p = rbind (plan_validate p) (\<lambda>_. Inr p)"

fun plan_build :: "hash_fun \<Rightarrow> cavs_signature \<Rightarrow> new_build \<Rightarrow> plan_kind \<Rightarrow> (plan_error + offline_plan) option" where
  "plan_build blake3 sig (NewFile label content) kind =
     (if cs_kind sig = DirectoryContainer
      then Some (Inl (PlanInvalid ''old signature describes a directory but the new build is a single file''))
      else map_option validated
        (add_file blake3 (index_build sig) label content False (start_plan sig kind ArtifactPlan label)))"
| "plan_build blake3 sig (NewTree label tree) kind =
     (if cs_kind sig = SingleArtifact
      then Some (Inl (PlanInvalid ''old signature describes a single artifact but the new build is a directory''))
      else map_option (\<lambda>r. rbind r (\<lambda>p. validated (p\<lparr>plan_deleted := missing_paths sig tree\<rparr>)))
        (add_items blake3 (index_build sig) tree (start_plan sig kind DirectoryPlan label)))"

section \<open>What the operations of a plan yield\<close>

definition own_ops :: "u32 \<Rightarrow> plan_op list \<Rightarrow> plan_op list" where
  "own_ops i ops = filter (\<lambda>op. to_entry op = i) ops"

lemma own_ops_simps [simp]:
  "own_ops i [] = []"
  "own_ops i (op # ops) = (if to_entry op = i then op # own_ops i ops else own_ops i ops)"
  "own_ops i (xs @ ys) = own_ops i xs @ own_ops i ys"
  by (simp_all add: own_ops_def)

fun yields_bytes :: "(u32 \<Rightarrow> bytes) \<Rightarrow> bytes \<Rightarrow> plan_op \<Rightarrow> bytes" where
  "yields_bytes old blob (CopyOld e off _ _ len) = take (unat len) (drop (unat off) (old e))"
| "yields_bytes old blob (Inline _ _ len boff) = take (unat len) (drop (unat boff) blob)"

definition entry_output :: "(u32 \<Rightarrow> bytes) \<Rightarrow> offline_plan \<Rightarrow> u32 \<Rightarrow> bytes" where
  "entry_output old p i = concat (map (yields_bytes old (plan_blob p)) (own_ops i (plan_ops p)))"

text \<open>How far the operations of an entry reach, in natural numbers, when they lie end to end.\<close>

fun op_end :: "nat \<Rightarrow> plan_op list \<Rightarrow> nat option" where
  "op_end at [] = Some at"
| "op_end at (op # ops) = (if unat (to_offset op) = at then op_end (at + unat (to_len op)) ops else None)"

lemma op_end_append: "op_end at (xs @ ys) = (case op_end at xs of None \<Rightarrow> None | Some m \<Rightarrow> op_end m ys)"
  by (induction xs arbitrary: at) auto

lemma op_end_mono: "op_end at ops = Some n \<Longrightarrow> at \<le> n"
  by (induction ops arbitrary: at) (fastforce split: if_splits)+

section \<open>What validation accepts\<close>

lemma check_old_entries_iff:
  "check_old_entries mode seen es = Inr ids \<longleftrightarrow>
     distinct (map oe_id es) \<and> oe_id ` set es \<inter> seen = {} \<and> ids = oe_id ` set es \<union> seen
     \<and> (mode = DirectoryPlan \<longrightarrow> (\<forall>e \<in> set es. path_is_safe (oe_path e)))"
  by (induction es arbitrary: seen) auto

definition entries_by_id :: "plan_entry list \<Rightarrow> u32 \<Rightarrow> plan_entry option" where
  "entries_by_id es = map_of (map (\<lambda>e. (pe_id e, e)) es)"

definition entry_ok :: "plan_mode \<Rightarrow> plan_entry \<Rightarrow> bool" where
  "entry_ok mode e \<longleftrightarrow> (mode = DirectoryPlan \<longrightarrow> path_is_safe (pe_path e)) \<and> (pe_kind e = EntryFile \<longrightarrow> pe_blake3 e \<noteq> None)"

lemma check_new_entries_iff:
  "check_new_entries mode by_id es = Inr by_id' \<longleftrightarrow>
     distinct (map pe_id es) \<and> (\<forall>e \<in> set es. by_id (pe_id e) = None \<and> entry_ok mode e)
     \<and> by_id' = by_id ++ entries_by_id es"
proof (induction es arbitrary: by_id)
  case Nil
  show ?case by (auto simp: entries_by_id_def)
next
  case (Cons e es)
  have join: "by_id(pe_id e \<mapsto> e) ++ entries_by_id es = by_id ++ entries_by_id (e # es)"
    if "pe_id e \<notin> pe_id ` set es"
  proof -
    have "entries_by_id es (pe_id e) = None"
      using that by (force simp: entries_by_id_def map_of_eq_None_iff)
    then show ?thesis by (auto simp: fun_eq_iff map_add_def entries_by_id_def split: option.splits)
  qed
  show ?case
  proof (cases "by_id (pe_id e) = None \<and> entry_ok mode e")
    case True
    then have run: "check_new_entries mode by_id (e # es) = check_new_entries mode (by_id(pe_id e \<mapsto> e)) es"
      by (auto simp: entry_ok_def)
    have "(\<forall>x \<in> set es. (by_id(pe_id e \<mapsto> e)) (pe_id x) = None \<and> entry_ok mode x)
      \<longleftrightarrow> pe_id e \<notin> pe_id ` set es \<and> (\<forall>x \<in> set es. by_id (pe_id x) = None \<and> entry_ok mode x)"
      by (auto split: if_splits) (metis imageI)
    then show ?thesis
      unfolding run Cons.IH using True join by (cases "pe_id e \<in> pe_id ` set es") (simp_all del: fun_upd_apply)
  qed (auto simp: entry_ok_def split: if_splits)
qed

lemma check_deleted_iff: "check_deleted ps = Inr () \<longleftrightarrow> (\<forall>p \<in> set ps. path_is_safe p)"
  by (induction ps) auto

lemma check_covered_iff:
  "check_covered cursor es = Inr () \<longleftrightarrow> (\<forall>e \<in> set es. pe_kind e = EntryFile \<longrightarrow> cursor (pe_id e) = pe_size e)"
  by (induction es) auto

text \<open>One entry's operations, with the code's wrapping cursor.\<close>

fun word_end :: "u64 \<Rightarrow> u64 \<Rightarrow> plan_op list \<Rightarrow> u64 option" where
  "word_end full at [] = Some at"
| "word_end full at (op # ops) =
     (if to_offset op = at \<and> at + to_len op \<le> full then word_end full (at + to_len op) ops else None)"

definition source_ok :: "offline_plan \<Rightarrow> plan_op \<Rightarrow> bool" where
  "source_ok p op \<longleftrightarrow> (case op of
      CopyOld e _ _ _ _ \<Rightarrow> e \<in> oe_id ` set (old_entries p)
    | Inline _ _ len boff \<Rightarrow> op_kind p = PortablePlan \<longrightarrow>
        unat boff + unat len \<le> u64_max \<and> unat boff + unat len \<le> length (plan_blob p))"

lemma check_op_source_iff:
  "check_op_source (op_kind p) (oe_id ` set (old_entries p)) (plan_blob p) op = Inr () \<longleftrightarrow> source_ok p op"
  by (cases op) (auto simp: source_ok_def)

lemma check_op_iff:
  "check_op by_id cursor op = Inr cursor' \<longleftrightarrow>
     (\<exists>e. by_id (to_entry op) = Some e \<and> to_offset op = cursor (to_entry op)
       \<and> cursor (to_entry op) + to_len op \<le> pe_size e \<and> cursor' = cursor(to_entry op := cursor (to_entry op) + to_len op))"
  by (auto simp: check_op_def Let_def split: option.splits)

lemma check_ops_iff:
  "check_ops (op_kind p) (oe_id ` set (old_entries p)) by_id (plan_blob p) cursor ops = Inr cursor' \<longleftrightarrow>
     (\<forall>op \<in> set ops. source_ok p op \<and> by_id (to_entry op) \<noteq> None)
     \<and> (\<forall>i. case by_id i of None \<Rightarrow> cursor' i = cursor i
          | Some e \<Rightarrow> word_end (pe_size e) (cursor i) (own_ops i ops) = Some (cursor' i))"
proof (induction ops arbitrary: cursor)
  case Nil
  show ?case by (auto simp: fun_eq_iff split: option.splits)
next
  case (Cons op ops)
  show ?case
  proof (cases "source_ok p op \<and> (\<exists>e. by_id (to_entry op) = Some e \<and> to_offset op = cursor (to_entry op)
       \<and> cursor (to_entry op) + to_len op \<le> pe_size e)")
    case True
    let ?i = "to_entry op"
    let ?cursor = "cursor(?i := cursor ?i + to_len op)"
    have run: "check_op_source (op_kind p) (oe_id ` set (old_entries p)) (plan_blob p) op = Inr ()"
      "check_op by_id cursor op = Inr ?cursor"
      using True by (auto simp: check_op_source_iff check_op_iff)
    have here: "(case by_id i of None \<Rightarrow> cursor' i = ?cursor i
          | Some e \<Rightarrow> word_end (pe_size e) (?cursor i) (own_ops i ops) = Some (cursor' i)) =
      (case by_id i of None \<Rightarrow> cursor' i = cursor i
          | Some e \<Rightarrow> word_end (pe_size e) (cursor i) (own_ops i (op # ops)) = Some (cursor' i))" for i
    proof (cases "i = ?i")
      case False
      then have "to_entry op \<noteq> i" by simp
      then show ?thesis by (cases "by_id i") simp_all
    qed (use True in auto)
    have "(\<forall>op' \<in> set (op # ops). source_ok p op' \<and> by_id (to_entry op') \<noteq> None)
      \<longleftrightarrow> (\<forall>op' \<in> set ops. source_ok p op' \<and> by_id (to_entry op') \<noteq> None)" using True by auto
    then show ?thesis unfolding check_ops.simps run rbind_simps Cons.IH here by blast
  next
    case False
    have "check_ops (op_kind p) (oe_id ` set (old_entries p)) by_id (plan_blob p) cursor (op # ops) \<noteq> Inr cursor'"
      using False by (auto simp: rbind_eq_Inr check_op_source_iff check_op_iff)
    moreover have "\<not> ((\<forall>op' \<in> set (op # ops). source_ok p op' \<and> by_id (to_entry op') \<noteq> None)
      \<and> (\<forall>i. case by_id i of None \<Rightarrow> cursor' i = cursor i
          | Some e \<Rightarrow> word_end (pe_size e) (cursor i) (own_ops i (op # ops)) = Some (cursor' i)))"
      using False by (auto split: option.splits if_splits dest!: spec [of _ "to_entry op"])
    ultimately show ?thesis by blast
  qed
qed

text \<open>
  Validation accepts a plan exactly when: ids are distinct, paths safe, files have hashes, sources
  exist, operations are for entries of the plan, and those of each file lie end to end from zero to
  its full, with the cursor counted in 64-bit words.
\<close>

lemma plan_validate_iff:
  "plan_validate p = Inr () \<longleftrightarrow>
     distinct (map oe_id (old_entries p)) \<and> distinct (map pe_id (new_entries p))
     \<and> (op_mode p = DirectoryPlan \<longrightarrow> (\<forall>e \<in> set (old_entries p). path_is_safe (oe_path e)))
     \<and> (\<forall>e \<in> set (new_entries p). entry_ok (op_mode p) e) \<and> (\<forall>q \<in> set (plan_deleted p). path_is_safe q)
     \<and> (\<forall>op \<in> set (plan_ops p). source_ok p op \<and> to_entry op \<in> pe_id ` set (new_entries p))
     \<and> (\<forall>e \<in> set (new_entries p). \<exists>n. word_end (pe_size e) 0 (own_ops (pe_id e) (plan_ops p)) = Some n
          \<and> (pe_kind e = EntryFile \<longrightarrow> n = pe_size e))"
proof -
  let ?by_id = "entries_by_id (new_entries p)"
  let ?D = "distinct (map pe_id (new_entries p))"
  have dom: "?by_id i \<noteq> None \<longleftrightarrow> i \<in> pe_id ` set (new_entries p)" for i
    by (force simp: entries_by_id_def map_of_eq_None_iff)
  have at: "?by_id i = Some e \<longleftrightarrow> e \<in> set (new_entries p) \<and> pe_id e = i" if ?D for i e
    using that by (auto simp: entries_by_id_def map_of_eq_Some_iff comp_def)
  have cover: "(\<exists>c. (\<forall>i. case ?by_id i of None \<Rightarrow> c i = 0
          | Some e \<Rightarrow> word_end (pe_size e) 0 (own_ops i (plan_ops p)) = Some (c i))
        \<and> (\<forall>e \<in> set (new_entries p). pe_kind e = EntryFile \<longrightarrow> c (pe_id e) = pe_size e)) \<longleftrightarrow>
      (\<forall>e \<in> set (new_entries p). \<exists>n. word_end (pe_size e) 0 (own_ops (pe_id e) (plan_ops p)) = Some n
          \<and> (pe_kind e = EntryFile \<longrightarrow> n = pe_size e))" (is "?A = ?B") if ?D
  proof
    assume ?A
    then obtain c where c: "\<And>i. case ?by_id i of None \<Rightarrow> c i = 0
          | Some e \<Rightarrow> word_end (pe_size e) 0 (own_ops i (plan_ops p)) = Some (c i)"
      "\<And>e. e \<in> set (new_entries p) \<Longrightarrow> pe_kind e = EntryFile \<Longrightarrow> c (pe_id e) = pe_size e" by blast
    show ?B
    proof
      fix e assume e: "e \<in> set (new_entries p)"
      then have "?by_id (pe_id e) = Some e" using at [OF that] by blast
      then show "\<exists>n. word_end (pe_size e) 0 (own_ops (pe_id e) (plan_ops p)) = Some n
          \<and> (pe_kind e = EntryFile \<longrightarrow> n = pe_size e)" using c(1) [of "pe_id e"] c(2) [OF e] by simp
    qed
  next
    assume B: ?B
    let ?c = "\<lambda>i. case ?by_id i of None \<Rightarrow> 0
      | Some e \<Rightarrow> (case word_end (pe_size e) 0 (own_ops i (plan_ops p)) of None \<Rightarrow> 0 | Some n \<Rightarrow> n)"
    have "case ?by_id i of None \<Rightarrow> ?c i = 0
          | Some e \<Rightarrow> word_end (pe_size e) 0 (own_ops i (plan_ops p)) = Some (?c i)" (is "?C i") for i
    proof (cases "?by_id i")
      case (Some e)
      then have "e \<in> set (new_entries p)" "pe_id e = i" using at [OF \<open>?D\<close>] by blast+
      then obtain n where "word_end (pe_size e) 0 (own_ops i (plan_ops p)) = Some n" using B by blast
      then show ?thesis using Some by simp
    qed simp
    moreover have "?c (pe_id e) = pe_size e" if e: "e \<in> set (new_entries p)" "pe_kind e = EntryFile" for e
    proof -
      have "?by_id (pe_id e) = Some e" using at [OF \<open>?D\<close>] e by blast
      then show ?thesis using B e by fastforce
    qed
    ultimately show ?A by (intro exI [of _ ?c]) blast
  qed
  have ops: "(\<exists>c. check_ops (op_kind p) (oe_id ` set (old_entries p)) ?by_id (plan_blob p) (\<lambda>_. 0) (plan_ops p) = Inr c
        \<and> (\<forall>e \<in> set (new_entries p). pe_kind e = EntryFile \<longrightarrow> c (pe_id e) = pe_size e)) \<longleftrightarrow>
      (\<forall>op \<in> set (plan_ops p). source_ok p op \<and> to_entry op \<in> pe_id ` set (new_entries p))
      \<and> (\<forall>e \<in> set (new_entries p). \<exists>n. word_end (pe_size e) 0 (own_ops (pe_id e) (plan_ops p)) = Some n
          \<and> (pe_kind e = EntryFile \<longrightarrow> n = pe_size e))" if ?D
    unfolding check_ops_iff dom cover [OF that, symmetric] by blast
  have del: "(\<exists>u. check_deleted (plan_deleted p) = Inr u) \<longleftrightarrow> (\<forall>q \<in> set (plan_deleted p). path_is_safe q)"
    unfolding check_deleted_iff [symmetric] by simp
  show ?thesis
  proof (cases ?D)
    case True
    then show ?thesis
      unfolding plan_validate_def rbind_eq_Inr check_old_entries_iff check_new_entries_iff check_covered_iff
      using ops [OF True] by (simp only: ex_simps empty_iff Un_empty_right map_add_empty empty_map_add inf_bot_right simp_thms
          conj_assoc del)
  next
    case False
    then show ?thesis
      unfolding plan_validate_def rbind_eq_Inr check_old_entries_iff check_new_entries_iff by blast
  qed
qed

text \<open>The cursor does not wrap where an operation is shorter than what the file leaves free of 64 bits.\<close>

lemma word_end_nat:
  assumes "at \<le> full" "\<forall>op \<in> set ops. unat full + unat (to_len op) < 2 ^ 64"
  shows "word_end full at ops = Some n \<longleftrightarrow> op_end (unat at) ops = Some (unat n) \<and> n \<le> full"
  using assms
proof (induction ops arbitrary: at)
  case Nil
  then show ?case by simp (metis unsigned_word_eqI)
next
  case (Cons op ops)
  have "unat at \<le> unat full" using Cons.prems(1) by (simp add: word_le_nat_alt)
  then have "unat at + unat (to_len op) < 2 ^ 64" using Cons.prems(2) by fastforce
  then have add: "unat (at + to_len op) = unat at + unat (to_len op)" by (simp add: unat_word_ariths)
  show ?case
  proof (cases "to_offset op = at \<and> at + to_len op \<le> full")
    case True
    then show ?thesis using Cons.IH [of "at + to_len op"] Cons.prems(2) by (simp add: add)
  next
    case False
    then have "\<not> (op_end (unat at) (op # ops) = Some (unat n) \<and> n \<le> full)"
      using op_end_mono [of "unat at + unat (to_len op)" ops "unat n"]
      by (auto simp: word_le_nat_alt add word_unat_eq_iff split: if_splits)
    then show ?thesis using False by auto
  qed
qed

end
