(* ===== verification/Plan_Built.thy ===== *)
theory Plan_Built
  imports Plan_Build Diff_Laws
begin

text \<open>
  What building a plan establishes: it always returns, the plan is valid, and the operations of each
  file yield the file's new content from the old entries.
\<close>

section \<open>Where a diff copies from\<close>

text \<open>Every copy of a diff is within an entry that the signature has blocks of.\<close>

definition copies_from :: "cavs_signature \<Rightarrow> (u32 \<Rightarrow> bytes) \<Rightarrow> diff_op \<Rightarrow> bool" where
  "copies_from sig old op \<longleftrightarrow> (case op of
      CopyOldRange e off _ len \<Rightarrow> e \<in> block_entry ` set (cs_blocks sig) \<and> off + len \<le> length (old e)
    | InlineData _ _ \<Rightarrow> True)"

abbreviation all_from :: "cavs_signature \<Rightarrow> (u32 \<Rightarrow> bytes) \<Rightarrow> diff_op list \<Rightarrow> bool" where
  "all_from sig old ops \<equiv> \<forall>op \<in> set ops. copies_from sig old op"

lemma emit_inline_from:
  "all_from sig old (dp_ops plan) \<Longrightarrow> all_from sig old (dp_ops (emit_inline at stop plan))"
proof (induction at stop plan rule: emit_inline.induct)
  case (1 at stop plan)
  then show ?case
    by (cases "at < stop") (auto simp: emit_inline.simps [of at stop plan] Let_def copies_from_def)
qed

lemma take_match_from:
  assumes "describes blake3 sig old" "all_from sig old (dp_ops (sc_plan st))" "bs = unat (cs_block_size sig)"
    and "find_match blake3 (index_build sig) window target weak prev = Some i"
  shows "all_from sig old (dp_ops (sc_plan (take_match (index_build sig) bs pos i st)))"
proof -
  let ?b = "cs_blocks sig ! i"
  note f = find_match_sound [OF assms(4)]
  have b: "?b \<in> set (cs_blocks sig)" using f by simp
  then have "unat (block_offset ?b) + unat (block_len ?b) \<le> length (old (block_entry ?b))"
    using assms(1) unfolding describes_def by blast
  then have "unat (block_offset ?b) + bs \<le> length (old (block_entry ?b))" using assms(3) f by simp
  then have "copies_from sig old (CopyOldRange (block_entry ?b) (unat (block_offset ?b)) pos bs)"
    using b by (simp add: copies_from_def)
  then show ?thesis
    using emit_inline_from [OF assms(2)] by (auto simp: take_match_def Let_def index_block_def index_build_def)
qed

lemma scan_loop_from:
  assumes "scan_loop blake3 idx bs new target pos rw st = Some st'"
  shows "describes blake3 sig old \<and> idx = index_build sig \<and> bs = unat (cs_block_size sig)
    \<longrightarrow> all_from sig old (dp_ops (sc_plan st)) \<longrightarrow> all_from sig old (dp_ops (sc_plan st'))"
proof (rule scan_loop.raw_induct [OF _ assms, where P = "\<lambda>blake3 idx bs new target pos rw st st'.
    describes blake3 sig old \<and> idx = index_build sig \<and> bs = unat (cs_block_size sig)
    \<longrightarrow> all_from sig old (dp_ops (sc_plan st)) \<longrightarrow> all_from sig old (dp_ops (sc_plan st'))"], intro impI)
  fix loop blake3 idx bs new target pos rw st st'
  assume IH: "\<And>blake3 idx bs new target pos rw st st'. loop blake3 idx bs new target pos rw st = Some st' \<Longrightarrow>
      describes blake3 sig old \<and> idx = index_build sig \<and> bs = unat (cs_block_size sig)
      \<longrightarrow> all_from sig old (dp_ops (sc_plan st)) \<longrightarrow> all_from sig old (dp_ops (sc_plan st'))"
    and run: "(case find_match blake3 idx (take bs (drop pos new)) target (rolling_digest rw) (sc_prev st) of
        None \<Rightarrow>
          if length new \<le> pos + bs then Some st
          else loop blake3 idx bs new target (pos + 1) (roll (new ! pos) (new ! (pos + bs)) rw) st
      | Some i \<Rightarrow>
          let st = take_match idx bs pos i st; pos = pos + bs in
          if length new < pos + bs then Some st
          else loop blake3 idx bs new target pos (rolling_new (take bs (drop pos new))) st) = Some st'"
    and h: "describes blake3 sig old \<and> idx = index_build sig \<and> bs = unat (cs_block_size sig)"
    and st: "all_from sig old (dp_ops (sc_plan st))"
  show "all_from sig old (dp_ops (sc_plan st'))"
  proof (cases "find_match blake3 idx (take bs (drop pos new)) target (rolling_digest rw) (sc_prev st)")
    case None
    let ?rw = "roll (new ! pos) (new ! (pos + bs)) rw"
    have go: "(if length new \<le> pos + bs then Some st else loop blake3 idx bs new target (pos + 1) ?rw st) = Some st'"
      using run unfolding None option.case .
    show ?thesis
    proof (cases "length new \<le> pos + bs")
      case True
      then have "st' = st" using go by simp
      then show ?thesis using st by blast
    next
      case False
      then have "loop blake3 idx bs new target (pos + 1) ?rw st = Some st'" using go by simp
      from IH [OF this] show ?thesis using h st by blast
    qed
  next
    case (Some i)
    let ?st = "take_match idx bs pos i st"
    have "all_from sig old (dp_ops (sc_plan ?st))"
      using take_match_from [of blake3 sig old st bs] h st Some by blast
    moreover have go: "(if length new < pos + bs + bs then Some ?st
        else loop blake3 idx bs new target (pos + bs) (rolling_new (take bs (drop (pos + bs) new))) ?st) = Some st'"
      using run unfolding Some option.case Let_def .
    ultimately show ?thesis
    proof (cases "length new < pos + bs + bs")
      case True
      then have "st' = ?st" using go by simp
      then show ?thesis using \<open>all_from sig old (dp_ops (sc_plan ?st))\<close> by blast
    next
      case False
      then have "loop blake3 idx bs new target (pos + bs) (rolling_new (take bs (drop (pos + bs) new))) ?st = Some st'"
        using go by simp
      from IH [OF this] show ?thesis using h \<open>all_from sig old (dp_ops (sc_plan ?st))\<close> by blast
    qed
  qed
qed

lemma coalesce_onto_cases:
  obtains (merge) pe po pn pl out' len where "out = CopyOldRange pe po pn pl # out'"
      "op = CopyOldRange pe (po + pl) (pn + pl) len"
      "coalesce_onto out (op # ops) = coalesce_onto (CopyOldRange pe po pn (pl + len) # out') ops"
    | (push) "coalesce_onto out (op # ops) = coalesce_onto (op # out) ops"
proof (cases out)
  case Nil
  then show thesis using push by (cases op) simp_all
next
  case (Cons recent out')
  show thesis
  proof (cases "\<exists>pe po pn pl len. recent = CopyOldRange pe po pn pl \<and> op = CopyOldRange pe (po + pl) (pn + pl) len")
    case True
    then show thesis using merge Cons by auto
  next
    case False
    show thesis
    proof (rule push)
      show "coalesce_onto out (op # ops) = coalesce_onto (op # out) ops"
        using False by (cases recent; cases op) (auto simp: Cons)
    qed
  qed
qed

lemma coalesce_onto_from:
  "all_from sig old out \<Longrightarrow> all_from sig old ops \<Longrightarrow> all_from sig old (coalesce_onto out ops)"
proof (induction ops arbitrary: out)
  case (Cons op ops)
  have ops: "copies_from sig old op" "all_from sig old ops" using Cons.prems(2) by simp_all
  show ?case
  proof (cases rule: coalesce_onto_cases [of out op ops])
    case (merge pe po pn pl out' len)
    have "all_from sig old (CopyOldRange pe po pn (pl + len) # out')"
      using Cons.prems(1) ops(1) by (simp add: merge(1,2) copies_from_def)
    then show ?thesis unfolding merge(3) by (rule Cons.IH) (rule ops)
  next
    case push
    have "all_from sig old (op # out)" using Cons.prems(1) ops(1) by simp
    then show ?thesis unfolding push by (rule Cons.IH) (rule ops)
  qed
qed simp

lemma diff_bytes_from:
  assumes "diff_bytes blake3 (index_build sig) new target = Some plan" "describes blake3 sig old"
  shows "all_from sig old (dp_ops plan)"
proof -
  let ?bs = "unat (cs_block_size sig)"
  let ?start = "\<lparr>sc_plan = empty_diff_plan, sc_owed = 0, sc_prev = None\<rparr>"
  from assms(1) obtain st where st: "(if ?bs \<le> length new \<and> by_weak (index_build sig) \<noteq> []
            then scan_loop blake3 (index_build sig) ?bs new target 0 (rolling_new (take ?bs new)) ?start
            else Some ?start) = Some st"
    and "plan = emit_inline (sc_owed st) (length new) (sc_plan st)
      \<lparr>dp_ops := coalesce (dp_ops (emit_inline (sc_owed st) (length new) (sc_plan st)))\<rparr>"
    unfolding diff_bytes_def Let_def wi_sig_build map_option_eq_Some by blast
  then have plan: "dp_ops plan = coalesce (dp_ops (emit_inline (sc_owed st) (length new) (sc_plan st)))" by simp
  have start: "all_from sig old (dp_ops (sc_plan ?start))" by (simp add: empty_diff_plan_def)
  have "all_from sig old (dp_ops (sc_plan st))"
  proof (cases "?bs \<le> length new \<and> by_weak (index_build sig) \<noteq> []")
    case True
    then have "scan_loop blake3 (index_build sig) ?bs new target 0 (rolling_new (take ?bs new)) ?start = Some st"
      using st by simp
    from scan_loop_from [OF this, of sig old] show ?thesis using assms(2) start by blast
  next
    case False
    have "st = ?start" using st unfolding if_not_P [OF False] by (rule option.inject [THEN iffD1, symmetric])
    then show ?thesis using start by blast
  qed
  then show ?thesis
    unfolding plan coalesce_def by (intro coalesce_onto_from emit_inline_from) simp_all
qed

section \<open>From a diff to the operations of a plan\<close>

definition well_sourced :: "u32 set \<Rightarrow> (u32 \<Rightarrow> bytes) \<Rightarrow> bool \<Rightarrow> nat \<Rightarrow> plan_op \<Rightarrow> bool" where
  "well_sourced E old portable n op \<longleftrightarrow> (case op of
      CopyOld e off _ _ len \<Rightarrow> e \<in> E \<and> unat off + unat len \<le> length (old e)
    | Inline _ _ len boff \<Rightarrow> portable \<longrightarrow> unat boff + unat len \<le> n)"

lemma well_sourced_mono: "well_sourced E old portable n op \<Longrightarrow> n \<le> m \<Longrightarrow> well_sourced E old portable m op"
  by (cases op) (auto simp: well_sourced_def)

text \<open>
  What the operations of one file add to a plan: they reach from \<open>at\<close> to \<open>n\<close>, and yield what the
  diff's do, whatever the payload grows to later.
\<close>

definition adds_ops :: "u32 set \<Rightarrow> (u32 \<Rightarrow> bytes) \<Rightarrow> bytes \<Rightarrow> u32 \<Rightarrow> nat \<Rightarrow> nat \<Rightarrow> diff_op list
    \<Rightarrow> offline_plan \<Rightarrow> plan_op list \<Rightarrow> bytes \<Rightarrow> bool" where
  "adds_ops E old content i at n ds p new extra \<longleftrightarrow>
     length extra \<le> n - at \<and> op_end at new = Some n
     \<and> (\<forall>op \<in> set new. to_entry op = i \<and> unat (to_len op) \<le> length content
          \<and> well_sourced E old (op_kind p = PortablePlan) (length (plan_blob p) + length extra) op)
     \<and> (op_kind p = PortablePlan \<longrightarrow>
          (\<forall>z. concat (map (yields_bytes old (plan_blob p @ extra @ z)) new) = rebuild old content ds))"

lemma coverage_end_mono: "coverage_end at ds = Some n \<Longrightarrow> at \<le> n"
  by (induction ds arbitrary: at) (fastforce split: if_splits)+

lemma add_diff_ops:
  assumes "length content < 2 ^ 64" "\<forall>e. length (old e) < 2 ^ 64" "n \<le> length content"
    and "block_entry ` set (cs_blocks sig) \<subseteq> E"
    and "coverage_end at ds = Some n" "all_from sig old ds" "length (plan_blob p) + (n - at) < 2 ^ 64"
  shows "\<exists>new extra. fold (add_diff_op i content) ds p
      = p\<lparr>plan_ops := plan_ops p @ new, plan_blob := plan_blob p @ extra\<rparr>
    \<and> adds_ops E old content i at n ds p new extra"
  using assms(5-)
proof (induction ds arbitrary: at p)
  case Nil
  then show ?case by (intro exI [of _ "[]"]) (simp add: adds_ops_def)
next
  case (Cons d ds)
  let ?at = "at + op_len d"
  have d: "new_offset d = at" "coverage_end ?at ds = Some n" using Cons.prems(1) by (auto split: if_splits)
  have le: "?at \<le> n" by (rule coverage_end_mono [OF d(2)])
  have small: "unat (of_nat at :: u64) = at" "unat (of_nat (op_len d) :: u64) = op_len d"
    using le assms(1,3) by (simp_all add: unat_of_nat_u64)
  have from_ds: "all_from sig old ds" using Cons.prems(2) by simp
  show ?case
  proof (cases d)
    case (CopyOldRange e off noff len)
    let ?op = "CopyOld e (of_nat off) i (of_nat noff) (of_nat len)"
    let ?p = "p\<lparr>plan_ops := plan_ops p @ [?op]\<rparr>"
    have c: "e \<in> E" "off + len \<le> length (old e)"
      using Cons.prems(2) assms(4) by (auto simp: CopyOldRange copies_from_def)
    then have "off < 2 ^ 64" using assms(2) by (meson le_add1 le_less_trans order_trans)
    then have off: "unat (of_nat off :: u64) = off" by (rule unat_of_nat_u64)
    have "length (plan_blob ?p) + (n - ?at) < 2 ^ 64" using Cons.prems(3) by simp
    from Cons.IH [OF d(2) from_ds this] obtain new extra where
        run: "fold (add_diff_op i content) ds ?p
          = ?p\<lparr>plan_ops := plan_ops ?p @ new, plan_blob := plan_blob ?p @ extra\<rparr>"
        and ok: "adds_ops E old content i ?at n ds ?p new extra" by blast
    have "fold (add_diff_op i content) (d # ds) p
        = p\<lparr>plan_ops := plan_ops p @ ?op # new, plan_blob := plan_blob p @ extra\<rparr>"
      using run by (simp add: CopyOldRange add_diff_op_def)
    moreover have "adds_ops E old content i at n (d # ds) p (?op # new) extra"
      using ok small off c d(1) le assms(3) by (auto simp: adds_ops_def CopyOldRange well_sourced_def)
    ultimately show ?thesis by blast
  next
    case (InlineData noff len)
    let ?op = "Inline i (of_nat noff) (of_nat len) (of_nat (length (plan_blob p)))"
    define mine where "mine = (if op_kind p = PortablePlan then take len (drop noff content) else [])"
    let ?p = "p\<lparr>plan_ops := plan_ops p @ [?op], plan_blob := plan_blob p @ mine\<rparr>"
    have step: "add_diff_op i content d p = ?p"
      by (cases p) (simp add: InlineData add_diff_op_def Let_def mine_def)
    have boff: "unat (of_nat (length (plan_blob p)) :: u64) = length (plan_blob p)"
      using Cons.prems(3) by (intro unat_of_nat_u64) simp
    have fits: "noff + len \<le> length content" using d(1) le assms(3) by (simp add: InlineData)
    have mine: "op_kind p = PortablePlan \<Longrightarrow> length mine = len" "length mine \<le> len"
      using fits by (simp_all add: mine_def)
    have "length (plan_blob ?p) + (n - ?at) < 2 ^ 64" using Cons.prems(3) mine(2) le by (simp add: InlineData)
    from Cons.IH [OF d(2) from_ds this] obtain new extra where
        run: "fold (add_diff_op i content) ds ?p
          = ?p\<lparr>plan_ops := plan_ops ?p @ new, plan_blob := plan_blob ?p @ extra\<rparr>"
        and ok: "adds_ops E old content i ?at n ds ?p new extra" by blast
    have "fold (add_diff_op i content) (d # ds) p
        = p\<lparr>plan_ops := plan_ops p @ ?op # new, plan_blob := plan_blob p @ (mine @ extra)\<rparr>"
      using run step by simp
    moreover have "adds_ops E old content i at n (d # ds) p (?op # new) (mine @ extra)"
    proof -
      have "length extra \<le> n - ?at" using ok by (simp add: adds_ops_def)
      then have "length (mine @ extra) \<le> n - at" using mine(2) le by (simp add: InlineData)
      moreover have "op_end at (?op # new) = Some n" using ok small d(1) by (simp add: adds_ops_def InlineData)
      moreover have "well_sourced E old (op_kind p = PortablePlan) (length (plan_blob p) + length (mine @ extra)) ?op"
        using mine(1) boff small(2) by (auto simp: well_sourced_def InlineData)
      then have "\<forall>op \<in> set (?op # new). to_entry op = i \<and> unat (to_len op) \<le> length content
          \<and> well_sourced E old (op_kind p = PortablePlan) (length (plan_blob p) + length (mine @ extra)) op"
        using ok fits small(2) by (simp add: adds_ops_def InlineData add.assoc)
      moreover have "concat (map (yields_bytes old (plan_blob p @ (mine @ extra) @ z)) (?op # new)) = rebuild old content (d # ds)"
        if k: "op_kind p = PortablePlan" for z
        using ok k mine(1) boff small(2) by (simp add: adds_ops_def InlineData) (simp add: mine_def)
      ultimately show ?thesis unfolding adds_ops_def by blast
    qed
    ultimately show ?thesis by blast
  qed
qed

section \<open>A plan in progress\<close>

text \<open>Entry \<open>k\<close> of the plan has the content \<open>c\<close>, and its operations reach to its end.\<close>

definition entry_built :: "hash_fun \<Rightarrow> bool \<Rightarrow> (u32 \<Rightarrow> bytes) \<Rightarrow> offline_plan \<Rightarrow> nat \<Rightarrow> bytes \<Rightarrow> bool" where
  "entry_built blake3 good old p k c \<longleftrightarrow>
     (let e = new_entries p ! k in
      pe_id e = of_nat k \<and> entry_ok (op_mode p) e \<and> pe_size e = of_nat (length c)
      \<and> (if pe_kind e = EntryFile then pe_blake3 e = Some (blake3 c) else c = [])
      \<and> op_end 0 (own_ops (of_nat k) (plan_ops p)) = Some (length c)
      \<and> (good \<longrightarrow> op_kind p = PortablePlan \<longrightarrow> entry_output old p (of_nat k) = c))"

definition built_upto :: "hash_fun \<Rightarrow> u32 set \<Rightarrow> bool \<Rightarrow> (u32 \<Rightarrow> bytes) \<Rightarrow> offline_plan \<Rightarrow> bytes list \<Rightarrow> bool" where
  "built_upto blake3 E good old p cs \<longleftrightarrow> length (new_entries p) = length cs
     \<and> (\<forall>k < length cs. entry_built blake3 good old p k (cs ! k))
     \<and> (\<forall>op \<in> set (plan_ops p). unat (to_entry op) < length cs \<and> unat (to_len op) \<le> length (cs ! unat (to_entry op))
          \<and> well_sourced E old (op_kind p = PortablePlan) (length (plan_blob p)) op)
     \<and> length (plan_blob p) \<le> length (concat cs)"

lemma unat_id: "k < 2 ^ 32 \<Longrightarrow> unat (of_nat k :: u32) = k"
  by (simp add: unsigned_of_nat take_bit_nat_eq_self)

lemma own_ops_none: "(\<forall>op \<in> set ops. unat (to_entry op) < n) \<Longrightarrow> n < 2 ^ 32 \<Longrightarrow> own_ops (of_nat n) ops = []"
  unfolding own_ops_def by (rule filter_False) (metis less_irrefl unat_id)

lemma own_ops_all: "\<forall>op \<in> set ops. to_entry op = i \<Longrightarrow> own_ops i ops = ops"
  by (auto simp: own_ops_def filter_id_conv)

lemma own_ops_other: "\<forall>op \<in> set ops. to_entry op = i \<Longrightarrow> i \<noteq> j \<Longrightarrow> own_ops j ops = []"
  by (auto simp: own_ops_def)

text \<open>What an operation already yields does not change when the payload grows.\<close>

lemma yields_extend:
  "well_sourced E old True (length blob) op \<Longrightarrow> yields_bytes old (blob @ extra) op = yields_bytes old blob op"
  by (cases op) (auto simp: well_sourced_def)

lemma output_extend:
  assumes "\<forall>op \<in> set ops. well_sourced E old True (length blob) op"
  shows "concat (map (yields_bytes old (blob @ extra)) (own_ops i ops)) = concat (map (yields_bytes old blob) (own_ops i ops))"
  using assms yields_extend by (intro arg_cong [where f = concat] map_cong) (auto simp: own_ops_def)

text \<open>One more entry, with the operations that a diff of its content adds.\<close>

lemma built_step:
  assumes built: "built_upto blake3 E good old p cs" and few: "length cs < 2 ^ 24"
    and adds: "adds_ops E old c (of_nat (length cs)) 0 (length c) ds p new extra"
    and right: "good \<Longrightarrow> rebuild old c ds = c"
    and e: "pe_id e = of_nat (length cs)" "entry_ok (op_mode p) e" "pe_size e = of_nat (length c)"
      "if pe_kind e = EntryFile then pe_blake3 e = Some (blake3 c) else c = []"
    and p': "new_entries p' = new_entries p @ [e]" "plan_ops p' = plan_ops p @ new" "plan_blob p' = plan_blob p @ extra"
      "op_kind p' = op_kind p" "op_mode p' = op_mode p"
  shows "built_upto blake3 E good old p' (cs @ [c])"
proof -
  let ?n = "length cs"
  have n: "?n < 2 ^ 32" "unat (of_nat ?n :: u32) = ?n" using few by (simp_all add: unat_id)
  have len: "length (new_entries p) = ?n" using built by (simp add: built_upto_def)
  have mine: "\<forall>op \<in> set new. to_entry op = of_nat ?n" using adds by (simp add: adds_ops_def)
  have before: "\<forall>op \<in> set (plan_ops p). unat (to_entry op) < ?n" using built by (simp add: built_upto_def)
  have own_new: "own_ops (of_nat ?n) (plan_ops p') = new"
    using own_ops_none [OF before n(1)] own_ops_all [OF mine] by (simp add: p')
  have own_old: "own_ops (of_nat k) (plan_ops p') = own_ops (of_nat k) (plan_ops p)" if k: "k < ?n" for k
  proof -
    have "of_nat ?n \<noteq> (of_nat k :: u32)" using k n unat_id [of k] by (metis less_trans nat_neq_iff)
    then show ?thesis using own_ops_other [OF mine] by (simp add: p')
  qed
  have entry: "entry_built blake3 good old p' k ((cs @ [c]) ! k)" if k: "k < ?n + 1" for k
  proof (cases "k = ?n")
    case True
    have at: "new_entries p' ! ?n = e" by (simp add: p' len [symmetric])
    have "entry_output old p' (of_nat ?n) = c" if "good" "op_kind p' = PortablePlan"
    proof -
      have "\<forall>z. concat (map (yields_bytes old (plan_blob p @ extra @ z)) new) = rebuild old c ds"
        using adds that p' by (simp add: adds_ops_def)
      from this [rule_format, of "[]"] show ?thesis
        using right that unfolding entry_output_def own_new p'(3) by simp
    qed
    moreover have "op_end 0 new = Some (length c)" using adds by (simp add: adds_ops_def)
    ultimately show ?thesis using e by (simp add: entry_built_def True at own_new p'(4,5) Let_def)
  next
    case False
    then have less: "k < ?n" using k by simp
    have "entry_built blake3 good old p k (cs ! k)" using built less by (simp add: built_upto_def)
    moreover have at: "new_entries p' ! k = new_entries p ! k" using less by (simp add: p' len nth_append)
    moreover have "entry_output old p' (of_nat k) = entry_output old p (of_nat k)" if "op_kind p = PortablePlan"
    proof -
      have "\<forall>op \<in> set (plan_ops p). well_sourced E old True (length (plan_blob p)) op"
        using built that by (simp add: built_upto_def)
      from output_extend [OF this] show ?thesis unfolding entry_output_def own_old [OF less] p'(3) .
    qed
    ultimately show ?thesis
      using less unfolding entry_built_def Let_def own_old [OF less] p'(4,5) at by (simp add: nth_append)
  qed
  moreover have "\<forall>op \<in> set (plan_ops p'). unat (to_entry op) < ?n + 1
      \<and> unat (to_len op) \<le> length ((cs @ [c]) ! unat (to_entry op))
      \<and> well_sourced E old (op_kind p' = PortablePlan) (length (plan_blob p')) op"
  proof
    fix op assume "op \<in> set (plan_ops p')"
    then consider "op \<in> set (plan_ops p)" | "op \<in> set new" by (auto simp: p')
    then show "unat (to_entry op) < ?n + 1 \<and> unat (to_len op) \<le> length ((cs @ [c]) ! unat (to_entry op))
      \<and> well_sourced E old (op_kind p' = PortablePlan) (length (plan_blob p')) op"
    proof cases
      case 1
      then have "unat (to_entry op) < ?n" "unat (to_len op) \<le> length (cs ! unat (to_entry op))"
        "well_sourced E old (op_kind p = PortablePlan) (length (plan_blob p)) op"
        using built by (auto simp: built_upto_def)
      then show ?thesis using well_sourced_mono by (auto simp: p' nth_append)
    next
      case 2
      then show ?thesis using adds n(2) by (auto simp: adds_ops_def p')
    qed
  qed
  moreover have "length (plan_blob p') \<le> length (concat (cs @ [c]))"
    using built adds by (simp add: built_upto_def adds_ops_def p')
  ultimately show ?thesis by (simp add: built_upto_def p' len)
qed

text \<open>A plan in progress validates, when its old entries and deletions are sound.\<close>

lemma built_valid:
  assumes "built_upto blake3 (oe_id ` set (old_entries p)) good old p cs" "length cs \<le> 2 ^ 24" "length (concat cs) < 2 ^ 63"
    and "distinct (map oe_id (old_entries p))"
    and "op_mode p = DirectoryPlan \<Longrightarrow> \<forall>e \<in> set (old_entries p). path_is_safe (oe_path e)"
    and "\<forall>q \<in> set (plan_deleted p). path_is_safe q"
  shows "plan_validate p = Inr ()"
proof -
  note b = assms(1) [unfolded built_upto_def]
  have len: "length (new_entries p) = length cs" using b by blast
  have entry: "entry_built blake3 good old p k (cs ! k)" if "k < length cs" for k using b that by blast
  have ids: "map pe_id (new_entries p) = map of_nat [0..<length cs]"
    using entry len by (intro nth_equalityI) (auto simp: entry_built_def Let_def)
  have inj: "inj_on (of_nat :: nat \<Rightarrow> u32) (set [0..<length cs])"
    by (rule inj_on_subset [OF of_nat_u32_inj]) (use assms(2) in auto)
  then have distinct: "distinct (map pe_id (new_entries p))" by (simp add: ids distinct_map)
  have short: "length c < 2 ^ 63" if "c \<in> set cs" for c
  proof -
    have "length c \<le> length (concat cs)" using member_le_sum_list [of "length c" "map length cs"] that by (simp add: length_concat)
    then show ?thesis using assms(3) by linarith
  qed
  have index: "\<exists>k < length cs. e = new_entries p ! k" if "e \<in> set (new_entries p)" for e
    using that len by (auto simp: in_set_conv_nth)
  have ok: "entry_ok (op_mode p) e" if "e \<in> set (new_entries p)" for e
    using index [OF that] entry by (auto simp: entry_built_def Let_def)
  have sources: "source_ok p op \<and> to_entry op \<in> pe_id ` set (new_entries p)" if op: "op \<in> set (plan_ops p)" for op
  proof
    have w: "well_sourced (oe_id ` set (old_entries p)) old (op_kind p = PortablePlan) (length (plan_blob p)) op"
      and to: "unat (to_entry op) < length cs" using b op by blast+
    have "length (plan_blob p) \<le> u64_max" using b assms(3) by (simp add: u64_max_def)
    then show "source_ok p op" using w by (cases op) (auto simp: well_sourced_def source_ok_def)
    have "to_entry op \<in> of_nat ` {0..<length cs}"
      by (rule image_eqI [where x = "unat (to_entry op)"]) (use to in simp_all)
    then have "to_entry op \<in> set (map pe_id (new_entries p))" by (simp only: ids set_map set_upt)
    then show "to_entry op \<in> pe_id ` set (new_entries p)" by simp
  qed
  have cover: "\<exists>n. word_end (pe_size e) 0 (own_ops (pe_id e) (plan_ops p)) = Some n \<and> (pe_kind e = EntryFile \<longrightarrow> n = pe_size e)"
    if e: "e \<in> set (new_entries p)" for e
  proof -
    obtain k where k: "k < length cs" "e = new_entries p ! k" using index [OF e] by blast
    have eb: "pe_id e = of_nat k" "pe_size e = of_nat (length (cs ! k))"
      "op_end 0 (own_ops (of_nat k) (plan_ops p)) = Some (length (cs ! k))"
      using entry [OF k(1)] by (simp_all add: entry_built_def Let_def k(2))
    have small: "length (cs ! k) < 2 ^ 63" using short k(1) by simp
    then have size: "unat (pe_size e) = length (cs ! k)" using eb(2) by (simp add: unat_of_nat_u64)
    have "\<forall>op \<in> set (own_ops (pe_id e) (plan_ops p)). unat (pe_size e) + unat (to_len op) < 2 ^ 64"
    proof
      fix op assume op: "op \<in> set (own_ops (pe_id e) (plan_ops p))"
      have "unat (to_entry op) = k" using op eb(1) k(1) assms(2) by (auto simp: own_ops_def unat_id)
      then have "unat (to_len op) \<le> length (cs ! k)" using b op by (auto simp: own_ops_def)
      then show "unat (pe_size e) + unat (to_len op) < 2 ^ 64" using size small by simp
    qed
    then have "word_end (pe_size e) 0 (own_ops (pe_id e) (plan_ops p)) = Some (pe_size e)"
      using word_end_nat [of 0 "pe_size e" "own_ops (pe_id e) (plan_ops p)" "pe_size e"] eb size by simp
    then show ?thesis by blast
  qed
  show ?thesis
    unfolding plan_validate_iff using assms(4-6) distinct ok sources cover by blast
qed

section \<open>Building returns\<close>

text \<open>The fields of a plan that adding entries leaves alone.\<close>

definition same_frame :: "offline_plan \<Rightarrow> offline_plan \<Rightarrow> bool" where
  "same_frame p p' \<longleftrightarrow> op_kind p' = op_kind p \<and> op_mode p' = op_mode p \<and> old_entries p' = old_entries p
     \<and> plan_deleted p' = plan_deleted p \<and> op_block_size p' = op_block_size p \<and> old_label p' = old_label p
     \<and> old_size p' = old_size p \<and> old_blake3 p' = old_blake3 p \<and> new_label p' = new_label p"

definition planned_file :: "hash_fun \<Rightarrow> nat \<Rightarrow> bytes \<Rightarrow> bool \<Rightarrow> bytes \<Rightarrow> plan_entry" where
  "planned_file blake3 k rel exec c = \<lparr>pe_id = of_nat k, pe_path = rel, pe_kind = EntryFile, pe_size = of_nat (length c),
     pe_executable = exec, pe_target = None, pe_blake3 = Some (blake3 c)\<rparr>"

text \<open>A signature that a plan can be built against.\<close>

definition buildable :: "hash_fun \<Rightarrow> cavs_signature \<Rightarrow> (u32 \<Rightarrow> bytes) \<Rightarrow> u32 set \<Rightarrow> bool" where
  "buildable blake3 sig old E \<longleftrightarrow> 0 < cs_block_size sig \<and> describes blake3 sig old \<and> (\<forall>e. length (old e) < 2 ^ 64)
     \<and> block_entry ` set (cs_blocks sig) \<subseteq> E"

lemma add_file_returns:
  assumes sig: "buildable blake3 sig old E" and good: "good \<Longrightarrow> no_collision blake3 sig old c"
    and built: "built_upto blake3 E good old p cs" "length cs < 2 ^ 24" "length (concat (cs @ [c])) < 2 ^ 63"
    and safe: "op_mode p = DirectoryPlan \<Longrightarrow> path_is_safe rel"
  shows "\<exists>p'. add_file blake3 (index_build sig) rel c exec p = Some p' \<and> same_frame p p'
    \<and> new_entries p' = new_entries p @ [planned_file blake3 (length cs) rel exec c]
    \<and> built_upto blake3 E good old p' (cs @ [c])"
proof -
  let ?target = "if op_mode p = DirectoryPlan then Some rel else None" and ?i = "of_nat (length cs) :: u32"
  have pos: "0 < cs_block_size sig" using sig by (simp add: buildable_def)
  have desc: "describes blake3 sig old" and small: "\<forall>e. length (old e) < 2 ^ 64" and E: "block_entry ` set (cs_blocks sig) \<subseteq> E"
    using sig by (simp_all add: buildable_def)
  obtain diff where diff: "diff_bytes blake3 (index_build sig) c ?target = Some diff"
      "validate_coverage diff (length c)" "good \<Longrightarrow> rebuild old c (dp_ops diff) = c"
    by (rule diff_bytes_returns [OF pos, where good = good and old = old]) (use desc good in auto)
  have blob: "length (plan_blob p) + (length c - 0) < 2 ^ 64"
    using built(1,3) by (simp add: built_upto_def)
  have "length c < 2 ^ 64" using built(3) by simp
  then have "\<exists>new extra. fold (add_diff_op ?i c) (dp_ops diff) p
      = p\<lparr>plan_ops := plan_ops p @ new, plan_blob := plan_blob p @ extra\<rparr>
    \<and> adds_ops E old c ?i 0 (length c) (dp_ops diff) p new extra"
    by (rule add_diff_ops [OF _ small order_refl E _ diff_bytes_from [OF diff(1) desc] blob])
      (use diff(2) in \<open>simp_all add: validate_coverage_def\<close>)
  then obtain new extra where run: "fold (add_diff_op ?i c) (dp_ops diff) p
      = p\<lparr>plan_ops := plan_ops p @ new, plan_blob := plan_blob p @ extra\<rparr>"
    and adds: "adds_ops E old c ?i 0 (length c) (dp_ops diff) p new extra" by blast
  have len: "length (new_entries p) = length cs" using built(1) by (simp add: built_upto_def)
  let ?e = "planned_file blake3 (length cs) rel exec c"
  let ?p = "p\<lparr>plan_ops := plan_ops p @ new, plan_blob := plan_blob p @ extra, new_entries := new_entries p @ [?e],
    new_size := new_size p + of_nat (length c)\<rparr>"
  have "add_file blake3 (index_build sig) rel c exec p = Some ?p"
    using diff(1) run by (simp add: add_file_def Let_def len planned_file_def hash_chunk_def)
  moreover have "same_frame p ?p" by (simp add: same_frame_def)
  moreover have "built_upto blake3 E good old ?p (cs @ [c])"
    by (rule built_step [OF built(1,2) adds diff(3), where e = ?e])
      (use safe in \<open>simp_all add: planned_file_def entry_ok_def\<close>)
  ultimately show ?thesis by (intro exI [of _ ?p]) simp
qed

lemma add_other_built:
  assumes built: "built_upto blake3 E good old p cs" "length cs < 2 ^ 24" and kind: "kind \<noteq> EntryFile"
    and safe: "op_mode p = DirectoryPlan \<Longrightarrow> path_is_safe rel"
  shows "same_frame p (add_other rel kind target p)" "built_upto blake3 E good old (add_other rel kind target p) (cs @ [[]])"
proof -
  have len: "length (new_entries p) = length cs" using built(1) by (simp add: built_upto_def)
  let ?e = "\<lparr>pe_id = of_nat (length cs), pe_path = rel, pe_kind = kind, pe_size = 0, pe_executable = False,
    pe_target = target, pe_blake3 = None\<rparr>"
  show "same_frame p (add_other rel kind target p)" by (simp add: same_frame_def add_other_def)
  have adds: "adds_ops E old [] (of_nat (length cs)) 0 (length ([] :: bytes)) [] p [] []" by (simp add: adds_ops_def)
  show "built_upto blake3 E good old (add_other rel kind target p) (cs @ [[]])"
    by (rule built_step [OF built adds, where e = ?e])
      (use kind safe in \<open>simp_all add: add_other_def len entry_ok_def\<close>)
qed

text \<open>The entry of each item, and its content.\<close>

fun planned :: "hash_fun \<Rightarrow> nat \<Rightarrow> bytes \<times> source_item \<Rightarrow> plan_entry" where
  "planned blake3 k (path, SourceLink target) = \<lparr>pe_id = of_nat k, pe_path = unix_path path, pe_kind = EntrySymlink,
     pe_size = 0, pe_executable = False, pe_target = Some target, pe_blake3 = None\<rparr>"
| "planned blake3 k (path, SourceDir) = \<lparr>pe_id = of_nat k, pe_path = unix_path path, pe_kind = EntryDirectory,
     pe_size = 0, pe_executable = False, pe_target = None, pe_blake3 = None\<rparr>"
| "planned blake3 k (path, SourceFile exec pieces) = planned_file blake3 k (unix_path path) exec (concat pieces)"

fun item_content :: "bytes \<times> source_item \<Rightarrow> bytes" where
  "item_content (path, SourceFile exec pieces) = concat pieces"
| "item_content (path, item) = []"

fun planned_all :: "hash_fun \<Rightarrow> nat \<Rightarrow> (bytes \<times> source_item) list \<Rightarrow> plan_entry list" where
  "planned_all blake3 k [] = []"
| "planned_all blake3 k (x # xs) = planned blake3 k x # planned_all blake3 (k + 1) xs"

lemma same_frame_trans: "same_frame p q \<Longrightarrow> same_frame q r \<Longrightarrow> same_frame p r"
  by (simp add: same_frame_def)

lemma add_items_return:
  assumes sig: "buildable blake3 sig old E" and good: "good \<Longrightarrow> \<forall>x \<in> set tree. no_collision blake3 sig old (item_content x)"
    and "built_upto blake3 E good old p cs" "length cs + length tree \<le> 2 ^ 24"
    and "length (concat cs) + length (concat (map item_content tree)) < 2 ^ 63"
    and safe: "\<forall>x \<in> set tree. path_is_safe (unix_path (fst x))"
  shows "\<exists>p'. add_items blake3 (index_build sig) tree p = Some (Inr p') \<and> same_frame p p'
    \<and> new_entries p' = new_entries p @ planned_all blake3 (length cs) tree
    \<and> built_upto blake3 E good old p' (cs @ map item_content tree)"
  using assms(2-)
proof (induction tree arbitrary: p cs)
  case Nil
  then show ?case by (simp add: same_frame_def)
next
  case (Cons x tree)
  obtain path item where x: "x = (path, item)" by (cases x)
  have safe: "path_is_safe (unix_path path)" using Cons.prems(5) by (simp add: x)
  have few: "length cs < 2 ^ 24" using Cons.prems(3) by simp
  have len: "length (new_entries p) = length cs" using Cons.prems(2) by (simp add: built_upto_def)
  have "\<exists>q. add_item blake3 (index_build sig) (unix_path path) item p = Some q \<and> same_frame p q
    \<and> new_entries q = new_entries p @ [planned blake3 (length cs) x] \<and> built_upto blake3 E good old q (cs @ [item_content x])"
  proof (cases item)
    case (SourceFile exec pieces)
    have "length (concat (cs @ [concat pieces])) < 2 ^ 63" using Cons.prems(4) by (simp add: x SourceFile)
    from add_file_returns [OF sig _ Cons.prems(2) few this safe] Cons.prems(1)
    show ?thesis by (simp add: x SourceFile)
  next
    case SourceDir
    show ?thesis
      using add_other_built [OF Cons.prems(2) few, of EntryDirectory "unix_path path" None] safe
      by (simp add: x SourceDir) (simp add: add_other_def len)
  next
    case (SourceLink target)
    show ?thesis
      using add_other_built [OF Cons.prems(2) few, of EntrySymlink "unix_path path" "Some target"] safe
      by (simp add: x SourceLink) (simp add: add_other_def len)
  qed
  then obtain q where q: "add_item blake3 (index_build sig) (unix_path path) item p = Some q" "same_frame p q"
      "new_entries q = new_entries p @ [planned blake3 (length cs) x]"
      "built_upto blake3 E good old q (cs @ [item_content x])" by blast
  have "\<exists>p'. add_items blake3 (index_build sig) tree q = Some (Inr p') \<and> same_frame q p'
    \<and> new_entries p' = new_entries q @ planned_all blake3 (length (cs @ [item_content x])) tree
    \<and> built_upto blake3 E good old p' ((cs @ [item_content x]) @ map item_content tree)"
    by (rule Cons.IH) (use Cons.prems q(4) in simp_all)
  then show ?case using q safe same_frame_trans [OF q(2)] by (auto simp: x)
qed

section \<open>Signatures that plans are built against\<close>

definition file_ids :: "cavs_signature \<Rightarrow> u32 set" where
  "file_ids sig = entry_id ` {e \<in> set (cs_entries sig). entry_kind e = EntryFile}"

lemma start_plan_ids: "oe_id ` set (old_entries (start_plan sig kind mode label)) = file_ids sig"
  by (simp add: start_plan_def file_ids_def image_image)

lemma start_plan_distinct:
  "distinct (map entry_id (cs_entries sig)) \<Longrightarrow> distinct (map oe_id (old_entries (start_plan sig kind mode label)))"
  by (simp add: start_plan_def comp_def distinct_map_filter)

lemma start_built: "built_upto blake3 E good old (start_plan sig kind mode label) []"
  by (simp add: built_upto_def start_plan_def)

lemma described_buildable:
  assumes "good_items es" "\<forall>x \<in> set es. length (snd x) < 2 ^ 64" "block_size_ok bsize"
    and sig_def: "sig = described_signature blake3 kind bsize profile label es"
  shows "buildable blake3 sig (content_of es) (file_ids sig)" "distinct (map entry_id (cs_entries sig))"
proof -
  have "length (content_of es i) < 2 ^ 64" for i
  proof (cases "map_of (map (\<lambda>(e, c). (entry_id e, c)) es) i")
    case (Some c)
    then obtain e where "(e, c) \<in> set es" by (auto dest!: map_of_SomeD)
    then show ?thesis using assms(2) Some by (force simp: content_of_def)
  qed (simp add: content_of_def)
  moreover have "block_entry b \<in> file_ids sig" if b: "b \<in> set (cs_blocks sig)" for b
  proof -
    obtain x where x: "x \<in> set es" "b \<in> set (content_blocks blake3 (unat bsize) (entry_id (fst x)) 0 (snd x))"
      using b by (auto simp: sig_def described_signature_def item_blocks_def)
    then have "snd x \<noteq> []" by auto
    then have "entry_kind (fst x) = EntryFile" using assms(1) x(1) by (auto simp: good_items_def)
    moreover have "block_entry b = entry_id (fst x)"
      using content_blocks_describe [OF x(2), of 0] assms(2) x(1) block_size_okD [OF assms(3)] by simp
    ultimately show ?thesis using x(1) by (auto simp: file_ids_def sig_def described_signature_def)
  qed
  moreover have "0 < cs_block_size sig"
    using block_size_okD [OF assms(3)] by (simp add: sig_def described_signature_def word_less_nat_alt)
  ultimately show "buildable blake3 sig (content_of es) (file_ids sig)"
    using described_describes [OF assms(1-3)] by (auto simp: buildable_def sig_def)
  show "distinct (map entry_id (cs_entries sig))"
    using assms(1) by (simp add: sig_def described_signature_def good_items_def comp_def)
qed

lemma built_file_plan:
  assumes "buildable blake3 sig old (file_ids sig)" "distinct (map entry_id (cs_entries sig))"
    and "cs_kind sig = SingleArtifact" "good \<Longrightarrow> no_collision blake3 sig old new" "length new < 2 ^ 63"
  shows "\<exists>p. plan_build blake3 sig (NewFile label new) kind = Some (Inr p) \<and> plan_validate p = Inr ()
    \<and> same_frame (start_plan sig kind ArtifactPlan label) p \<and> new_entries p = [planned_file blake3 0 label False new]
    \<and> built_upto blake3 (file_ids sig) good old p [new]"
proof -
  let ?start = "start_plan sig kind ArtifactPlan label"
  have mode: "op_mode ?start = ArtifactPlan" "new_entries ?start = []" by (simp_all add: start_plan_def)
  obtain p where p: "add_file blake3 (index_build sig) label new False ?start = Some p" "same_frame ?start p"
      "new_entries p = [planned_file blake3 0 label False new]" "built_upto blake3 (file_ids sig) good old p [new]"
    using add_file_returns [OF assms(1,4) start_built [of blake3 "file_ids sig" good old sig kind ArtifactPlan label], of label False]
      assms(5) mode by auto
  have frame: "old_entries p = old_entries ?start" "op_mode p = ArtifactPlan" "plan_deleted p = []"
    using p(2) by (simp_all add: same_frame_def) (simp_all add: start_plan_def)
  have "built_upto blake3 (oe_id ` set (old_entries p)) good old p [new]"
    using p(4) by (simp only: frame start_plan_ids)
  then have "plan_validate p = Inr ()"
    by (rule built_valid) (use assms(5) start_plan_distinct [OF assms(2)] in \<open>simp_all add: frame\<close>)
  then show ?thesis using p assms(3) by (intro exI [of _ p]) (simp add: validated_def)
qed

lemma built_tree_plan:
  assumes "buildable blake3 sig old (file_ids sig)" "distinct (map entry_id (cs_entries sig))"
    and "cs_kind sig = DirectoryContainer" "good \<Longrightarrow> \<forall>x \<in> set tree. no_collision blake3 sig old (item_content x)"
    and "length tree \<le> 2 ^ 24" "length (concat (map item_content tree)) < 2 ^ 63"
    and "\<forall>x \<in> set tree. path_is_safe (unix_path (fst x))" "\<forall>e \<in> set (cs_entries sig). path_is_safe (entry_path e)"
  shows "\<exists>p. plan_build blake3 sig (NewTree label tree) kind = Some (Inr p) \<and> plan_validate p = Inr ()
    \<and> same_frame ((start_plan sig kind DirectoryPlan label)\<lparr>plan_deleted := missing_paths sig tree\<rparr>) p
    \<and> new_entries p = planned_all blake3 0 tree
    \<and> built_upto blake3 (file_ids sig) good old p (map item_content tree)"
proof -
  let ?start = "start_plan sig kind DirectoryPlan label"
  have mode: "op_mode ?start = DirectoryPlan" "new_entries ?start = []" by (simp_all add: start_plan_def)
  obtain p where p: "add_items blake3 (index_build sig) tree ?start = Some (Inr p)" "same_frame ?start p"
      "new_entries p = planned_all blake3 0 tree" "built_upto blake3 (file_ids sig) good old p (map item_content tree)"
    using add_items_return [OF assms(1,4) start_built [of blake3 "file_ids sig" good old sig kind DirectoryPlan label]]
      assms(5-7) mode by auto
  let ?p = "p\<lparr>plan_deleted := missing_paths sig tree\<rparr>"
  have frame: "old_entries ?p = old_entries ?start" "op_mode ?p = DirectoryPlan" "plan_deleted ?p = missing_paths sig tree"
    using p(2) by (simp_all add: same_frame_def) (simp_all add: start_plan_def)
  have built: "built_upto blake3 (file_ids sig) good old ?p (map item_content tree)"
    using p(4) by (simp add: built_upto_def entry_built_def entry_output_def Let_def del: nth_map)
  have "built_upto blake3 (oe_id ` set (old_entries ?p)) good old ?p (map item_content tree)"
    using built by (simp only: frame start_plan_ids)
  then have "plan_validate ?p = Inr ()"
  proof (rule built_valid)
    show "\<forall>e \<in> set (old_entries ?p). path_is_safe (oe_path e)"
      unfolding frame(1) using assms(8) by (auto simp: start_plan_def)
    show "\<forall>q \<in> set (plan_deleted ?p). path_is_safe q"
      unfolding frame(3) using assms(8) by (auto simp: missing_paths_def)
    show "distinct (map oe_id (old_entries ?p))" unfolding frame(1) by (rule start_plan_distinct [OF assms(2)])
  qed (use assms(5,6) in simp_all)
  then show ?thesis
    using p built assms(3) by (intro exI [of _ ?p]) (simp add: validated_def same_frame_def)
qed

end
