(* ===== verification/Plan_Apply.thy ===== *)
theory Plan_Apply
  imports Plan_Built
begin

text \<open>
  Applying an artifact plan (\<^verbatim>\<open>core/cavs-plan/src/apply.rs\<close>): the output is rebuilt into a
  \<^verbatim>\<open>.part\<close> file beside it, checked against its hash, and renamed.  The old file is another one
  than the two that are written; every state of those is on the trace, the part file with every
  prefix it could hold.  Writes that the operating system refuses are not modelled.
\<close>

section \<open>Running the operations of an entry\<close>

definition plan_read_chunk :: nat where
  "plan_read_chunk = 8 * 1024 * 1024"

type_synonym old_reader = "u32 \<Rightarrow> u64 \<Rightarrow> nat \<Rightarrow> plan_error + bytes"

text \<open>\<^verbatim>\<open>seek\<close> and \<^verbatim>\<open>read_exact\<close> on a file.\<close>

definition read_exact_at :: "bytes \<Rightarrow> u64 \<Rightarrow> nat \<Rightarrow> plan_error + bytes" where
  "read_exact_at file off n =
     (if unat off + n \<le> length file then Inr (take n (drop (unat off) file))
      else Inl (PlanIo ''failed to fill whole buffer''))"

definition single_source :: "bytes \<Rightarrow> old_reader" where
  "single_source file i off n = read_exact_at file off n"

text \<open>
  The pieces given to the sink, marked as old bytes or not, and the error that stopped them: a range
  is read in pieces of bounded size.
\<close>

function copy_pieces :: "old_reader \<Rightarrow> u32 \<Rightarrow> u64 \<Rightarrow> nat \<Rightarrow> (bytes \<times> bool) list \<times> plan_error option" where
  "copy_pieces read i off left =
     (if left = 0 then ([], None)
      else
      let n = min left plan_read_chunk in
      case read i off n of
        Inl e \<Rightarrow> ([], Some e)
      | Inr bs \<Rightarrow> (case copy_pieces read i (off + of_nat n) (left - n) of (ps, stop) \<Rightarrow> ((bs, True) # ps, stop)))"
  by pat_completeness auto
termination by (relation "measure (\<lambda>(_, _, _, left). left)") (auto simp: plan_read_chunk_def)

declare copy_pieces.simps [simp del]

fun op_pieces :: "old_reader \<Rightarrow> bytes \<Rightarrow> plan_op \<Rightarrow> (bytes \<times> bool) list \<times> plan_error option" where
  "op_pieces read blob (CopyOld e off _ _ len) = copy_pieces read e off (unat len)"
| "op_pieces read blob (Inline _ _ len boff) =
     (if length blob < unat boff + unat len then ([], Some (PlanPanicked ''slice index out of range''))
      else ([(take (unat len) (drop (unat boff) blob), False)], None))"

text \<open>\<^verbatim>\<open>write_entry\<close>: the operations of the plan that are for the entry, in order.\<close>

fun entry_pieces :: "old_reader \<Rightarrow> bytes \<Rightarrow> u32 \<Rightarrow> plan_op list \<Rightarrow> (bytes \<times> bool) list \<times> plan_error option" where
  "entry_pieces read blob i [] = ([], None)"
| "entry_pieces read blob i (op # ops) =
     (if to_entry op \<noteq> i then entry_pieces read blob i ops
      else case op_pieces read blob op of
        (ps, Some e) \<Rightarrow> (ps, Some e)
      | (ps, None) \<Rightarrow> (case entry_pieces read blob i ops of (qs, stop) \<Rightarrow> (ps @ qs, stop)))"

record apply_stats =
  files_total :: u64
  files_written :: u64
  files_noop :: u64
  dirs_created :: u64
  symlinks_created :: u64
  files_deleted :: u64
  bytes_written :: u64
  bytes_from_old :: u64
  bytes_from_blob :: u64

definition no_stats :: apply_stats where
  "no_stats = \<lparr>files_total = 0, files_written = 0, files_noop = 0, dirs_created = 0, symlinks_created = 0,
     files_deleted = 0, bytes_written = 0, bytes_from_old = 0, bytes_from_blob = 0\<rparr>"

definition count_piece :: "bytes \<times> bool \<Rightarrow> apply_stats \<Rightarrow> apply_stats" where
  "count_piece piece s =
     (let n = of_nat (length (fst piece)); s = s\<lparr>bytes_written := bytes_written s + n\<rparr>
      in if snd piece then s\<lparr>bytes_from_old := bytes_from_old s + n\<rparr> else s\<lparr>bytes_from_blob := bytes_from_blob s + n\<rparr>)"

section \<open>Artifacts\<close>

definition ensure_portable :: "offline_plan \<Rightarrow> plan_error + unit" where
  "ensure_portable p =
     (if op_kind p \<noteq> PortablePlan \<and> 0 < sum_inline (plan_summary_of p) then Inl PlanNotPortable else Inr ())"

definition check_old_size :: "offline_plan \<Rightarrow> bytes \<Rightarrow> plan_error + unit" where
  "check_old_size p old =
     (if op_mode p = ArtifactPlan \<and> length old \<noteq> unat (old_size p)
      then Inl (PlanInvalid (''old artifact is '' @ decimal (length old) @ '' bytes; the plan was diffed against ''
        @ decimal (unat (old_size p)) @ '' bytes (wrong or modified old version)''))
      else Inr ())"

record artifact_files =
  af_part :: "bytes option"
  af_out :: "bytes option"

text \<open>\<open>old\<close> is the content of the old file, if it opens.\<close>

definition apply_artifact :: "hash_fun \<Rightarrow> offline_plan \<Rightarrow> bytes option \<Rightarrow> artifact_files
    \<Rightarrow> (plan_error + apply_stats) \<times> artifact_files \<times> artifact_files list" where
  "apply_artifact blake3 p old d =
     (case rbind (if op_mode p \<noteq> ArtifactPlan
                  then Inl (PlanInvalid ''artifact apply needs an artifact plan (use directory apply)'') else Inr ()) (\<lambda>_.
           rbind (ensure_portable p) (\<lambda>_.
           rbind (ok_or (PlanInvalid ''plan has no output file'') (find (\<lambda>e. pe_kind e = EntryFile) (new_entries p))) (\<lambda>entry.
           rbind (ok_or (PlanIo ''open'') old) (\<lambda>old.
           rbind (check_old_size p old) (\<lambda>_. Inr (entry, old)))))) of
        Inl e \<Rightarrow> (Inl e, d, [])
      | Inr (entry, old) \<Rightarrow>
          let (pieces, stop) = entry_pieces (single_source old) (plan_blob p) (pe_id entry) (plan_ops p);
              content = concat (map fst pieces);
              stats = fold count_piece pieces (no_stats\<lparr>files_total := 1\<rparr>);
              writing = map (\<lambda>k. d\<lparr>af_part := Some (take k content)\<rparr>) [0..<length content + 1];
              written = d\<lparr>af_part := Some content\<rparr>
          in case stop of
               Some e \<Rightarrow> (Inl e, written, writing)
             | None \<Rightarrow>
                 if Some (blake3 content) \<noteq> pe_blake3 entry
                 then let d = d\<lparr>af_part := None\<rparr> in (Inl (PlanApplyHashMismatch (pe_path entry)), d, writing @ [d])
                 else let d = \<lparr>af_part = None, af_out = Some content\<rparr> in (Inr (stats\<lparr>files_written := 1\<rparr>), d, writing @ [d]))"

section \<open>The old source\<close>

text \<open>
  \<open>files\<close> gives the content of a path under the old root; the artifact is the path it is given.
\<close>

fun hash_old_entries :: "hash_fun \<Rightarrow> (bytes \<Rightarrow> bytes option) \<Rightarrow> old_entry list \<Rightarrow> hasher \<Rightarrow> plan_error + chunk_hash" where
  "hash_old_entries blake3 files [] h = Inr (hasher_finalize blake3 h)"
| "hash_old_entries blake3 files (e # es) h =
     (case files (oe_path e) of
        None \<Rightarrow> Inl (PlanIo ''open'')
      | Some bs \<Rightarrow> hash_old_entries blake3 files es (hasher_update bs h))"

definition hash_old_file :: "hash_fun \<Rightarrow> bytes option \<Rightarrow> plan_error + chunk_hash" where
  "hash_old_file blake3 file = map_sum id blake3 (ok_or (PlanIo ''open'') file)"

definition verify_old_source :: "hash_fun \<Rightarrow> offline_plan \<Rightarrow> (bytes \<Rightarrow> bytes option) \<Rightarrow> bytes \<Rightarrow> plan_error + unit" where
  "verify_old_source blake3 p files path =
     (case old_blake3 p of
        None \<Rightarrow> Inr ()
      | Some expected \<Rightarrow>
          rbind (case op_mode p of
                   ArtifactPlan \<Rightarrow> hash_old_file blake3 (files path)
                 | DirectoryPlan \<Rightarrow> hash_old_entries blake3 files (old_entries p) hasher_new) (\<lambda>got.
          if got \<noteq> expected then Inl (PlanInvalid ''old source does not match the plan's recorded content hash'')
          else Inr ()))"

section \<open>What a run writes\<close>

lemma copy_pieces_bytes:
  assumes "unat off + left \<le> length file" "length file < 2 ^ 64"
  shows "snd (copy_pieces (\<lambda>_. read_exact_at file) i off left) = None
    \<and> concat (map fst (fst (copy_pieces (\<lambda>_. read_exact_at file) i off left))) = take left (drop (unat off) file)"
  using assms(1)
proof (induction left arbitrary: off rule: less_induct)
  case (less left)
  show ?case
  proof (cases "left = 0")
    case True
    then show ?thesis by (simp add: copy_pieces.simps)
  next
    case False
    let ?n = "min left plan_read_chunk"
    have n: "0 < ?n" "?n \<le> left" using False by (simp_all add: plan_read_chunk_def)
    have "unat off + ?n < 2 ^ 64 \<or> unat off + ?n = length file" using less.prems assms(2) n by linarith
    then have add: "unat (off + of_nat ?n) = unat off + ?n"
      using less.prems assms(2) n by (simp add: unat_word_ariths unat_of_nat_u64)
    have rec: "snd (copy_pieces (\<lambda>_. read_exact_at file) i (off + of_nat ?n) (left - ?n)) = None
      \<and> concat (map fst (fst (copy_pieces (\<lambda>_. read_exact_at file) i (off + of_nat ?n) (left - ?n))))
        = take (left - ?n) (drop (unat off + ?n) file)"
      using less.IH [of "left - ?n" "off + of_nat ?n"] less.prems n add by simp
    have "read_exact_at file off ?n = Inr (take ?n (drop (unat off) file))"
      using less.prems n by (simp add: read_exact_at_def)
    then show ?thesis
      using rec False take_drop_join [of ?n "unat off" "file" "left - ?n"] n
      by (simp add: copy_pieces.simps [of _ i off left] Let_def split_beta)
  qed
qed

lemma entry_pieces_bytes:
  assumes "\<forall>op \<in> set (own_ops i ops). well_sourced E old True (length blob) op" "\<forall>e. length (old e) < 2 ^ 64"
    and "\<And>e. e \<in> E \<Longrightarrow> read e = read_exact_at (old e)"
  shows "snd (entry_pieces read blob i ops) = None
    \<and> concat (map fst (fst (entry_pieces read blob i ops))) = concat (map (yields_bytes old blob) (own_ops i ops))"
  using assms(1)
proof (induction ops)
  case (Cons op ops)
  show ?case
  proof (cases "to_entry op = i")
    case True
    have op: "well_sourced E old True (length blob) op" using Cons.prems True by simp
    have rest: "snd (entry_pieces read blob i ops) = None
      \<and> concat (map fst (fst (entry_pieces read blob i ops))) = concat (map (yields_bytes old blob) (own_ops i ops))"
      using Cons True by simp
    have "snd (op_pieces read blob op) = None \<and> concat (map fst (fst (op_pieces read blob op))) = yields_bytes old blob op"
    proof (cases op)
      case (CopyOld e off new noff len)
      then have c: "e \<in> E" "unat off + unat len \<le> length (old e)" using op by (simp_all add: well_sourced_def)
      have eta: "copy_pieces read e off (unat len) = copy_pieces (\<lambda>_. read_exact_at (old e)) e off (unat len)"
        for off len using assms(3) [OF c(1)]
      proof -
        have "copy_pieces read e off n = copy_pieces (\<lambda>_. read_exact_at (old e)) e off n" for off n
        proof (induction n arbitrary: off rule: less_induct)
          case (less n)
          then show ?case
            using assms(3) [OF c(1)]
            by (cases "n = 0")
              (simp add: copy_pieces.simps, simp add: copy_pieces.simps [of _ e off n] plan_read_chunk_def Let_def split: sum.split)
        qed
        then show ?thesis .
      qed
      show ?thesis using copy_pieces_bytes [OF c(2)] assms(2) by (simp add: CopyOld eta)
    qed (use op in \<open>simp add: well_sourced_def\<close>)
    then show ?thesis
      using rest True by (cases "op_pieces read blob op"; cases "entry_pieces read blob i ops") auto
  qed (use Cons in simp)
qed simp

lemma pieces_counted:
  "bytes_written (fold count_piece ps s) = bytes_written s + of_nat (length (concat (map fst ps)))
   \<and> bytes_from_old (fold count_piece ps s) + bytes_from_blob (fold count_piece ps s)
     = bytes_from_old s + bytes_from_blob s + of_nat (length (concat (map fst ps)))"
proof (induction ps arbitrary: s)
  case (Cons x ps)
  show ?case using Cons.IH [of "count_piece x s"] by (simp add: count_piece_def Let_def algebra_simps)
qed simp

end
