(* ===== verification/Plan_Dir.thy ===== *)
theory Plan_Dir
  imports Plan_Apply
begin

text \<open>
  Applying a directory plan (\<^verbatim>\<open>apply_dir\<close> in \<^verbatim>\<open>core/cavs-plan/src/apply.rs\<close>) to the tree
  under the output root.  Every state the tree goes through is on a trace, a file being written with
  every prefix.  Where the operating system follows a symbolic link at the end of a path, \<open>follow\<close>
  says where it leads; on the way to it, a path runs through directories.  Of a file's mode, whether
  it is executable is kept.  The texts of operating-system errors are left out.  A write that the
  disk refuses ends the run in a state that is on the trace; it is not an outcome of its own.  The
  old files of an entry are read before the entry is written.
\<close>

section \<open>Trees\<close>

datatype tree_node = TreeFile (node_bytes: bytes) (node_exec: bool) | TreeDir | TreeLink bytes

type_synonym tree = "(bytes \<times> tree_node) list"

definition staging_dir :: bytes where
  "staging_dir = ascii ''.cavs-staging''"

definition apply_journal_file :: bytes where
  "apply_journal_file = ascii ''.cavs-journal.json''"

definition journal_tmp :: bytes where
  "journal_tmp = ascii ''.cavs-journal.json.tmp''"

definition below :: "bytes \<Rightarrow> bytes \<Rightarrow> bool" where
  "below dir q \<longleftrightarrow> length dir < length q \<and> take (length dir + 1) q = dir @ [0x2f]"

definition staged_at :: "u32 \<Rightarrow> bytes" where
  "staged_at i = staging_dir @ [0x2f] @ ascii (CHR 0x65 # decimal (unat i))"

text \<open>The proper prefixes of a path that are directories, from the top.\<close>

definition parents :: "bytes \<Rightarrow> bytes list" where
  "parents q = map (\<lambda>k. take k q) (filter (\<lambda>k. q ! k = 0x2f) [0..<length q])"

section \<open>The state of a run\<close>

record apply_journal =
  aj_plan :: string
  aj_plan_path :: "bytes option"
  aj_old_root :: bytes
  aj_out_root :: bytes
  aj_state :: string
  aj_staged :: "bytes list"
  aj_moved :: "bytes list"

text \<open>
  What comes from elsewhere: the digest, the compressor, the JSON form of a journal, and where links
  lead.
\<close>

record apply_env =
  ae_blake3 :: hash_fun
  ae_compress :: "int \<Rightarrow> bytes \<Rightarrow> bytes"
  journal_to_vec :: "apply_journal \<Rightarrow> bytes"
  journal_from_slice :: "bytes \<Rightarrow> apply_journal option"
  ae_follow :: "tree \<Rightarrow> bytes \<Rightarrow> bytes"

record apply_state =
  as_tree :: tree
  as_trace :: "tree list"
  as_stats :: apply_stats
  as_journal :: apply_journal
  as_staged :: "plan_entry list"

text \<open>A step stops the run with an error, or lets it go on.\<close>

type_synonym apply_step = "apply_state \<Rightarrow> plan_error option \<times> apply_state"

definition pass :: apply_step where
  "pass s = (None, s)"

definition stop :: "plan_error \<Rightarrow> apply_step" where
  "stop e s = (Some e, s)"

definition seq :: "apply_step \<Rightarrow> apply_step \<Rightarrow> apply_step" where
  "seq m k s = (case m s of (Some e, s) \<Rightarrow> (Some e, s) | (None, s) \<Rightarrow> k s)"

text \<open>\<^verbatim>\<open>let _ = ..\<close>: a step whose error is ignored.\<close>

definition attempt :: "apply_step \<Rightarrow> apply_step" where
  "attempt m s = (None, snd (m s))"

fun each :: "('a \<Rightarrow> apply_step) \<Rightarrow> 'a list \<Rightarrow> apply_step" where
  "each f [] = pass"
| "each f (x # xs) = seq (f x) (each f xs)"

definition looking :: "(apply_state \<Rightarrow> apply_step) \<Rightarrow> apply_step" where
  "looking f s = f s s"

definition note_state :: "(apply_state \<Rightarrow> apply_state) \<Rightarrow> apply_step" where
  "note_state f s = (None, f s)"

definition count :: "(apply_stats \<Rightarrow> apply_stats) \<Rightarrow> apply_step" where
  "count f = note_state (\<lambda>s. s\<lparr>as_stats := f (as_stats s)\<rparr>)"

definition set_tree :: "(tree \<Rightarrow> tree) \<Rightarrow> apply_step" where
  "set_tree f s = (None, s\<lparr>as_tree := f (as_tree s), as_trace := as_trace s @ [f (as_tree s)]\<rparr>)"

section \<open>Operations on the tree\<close>

definition content_at :: "apply_env \<Rightarrow> tree \<Rightarrow> bytes \<Rightarrow> bytes option" where
  "content_at env t q = (case map_of t (ae_follow env t q) of Some (TreeFile bs _) \<Rightarrow> Some bs | _ \<Rightarrow> None)"

definition is_dir_at :: "apply_env \<Rightarrow> tree \<Rightarrow> bytes \<Rightarrow> bool" where
  "is_dir_at env t q \<longleftrightarrow> q = [] \<or> map_of t (ae_follow env t q) = Some TreeDir"

text \<open>\<^verbatim>\<open>File::create\<close> and a buffered write of the whole content.\<close>

definition create_file :: "apply_env \<Rightarrow> bytes \<Rightarrow> bytes \<Rightarrow> apply_step" where
  "create_file env path bs =
     looking (\<lambda>s.
       let t = as_tree s; q = ae_follow env t path;
           exec = (case map_of t q of Some (TreeFile _ e) \<Rightarrow> e | _ \<Rightarrow> False) in
       if map_of t q = Some TreeDir then stop (PlanIo ''create'')
       else each (\<lambda>k. set_tree (AList.update q (TreeFile (take k bs) exec))) [0..<length bs + 1])"

definition rename_file_to :: "bytes \<Rightarrow> bytes \<Rightarrow> apply_step" where
  "rename_file_to a b =
     looking (\<lambda>s.
       let t = as_tree s; up = parents b in
       case map_of t a of
         None \<Rightarrow> stop (PlanIo ''rename'')
       | Some node \<Rightarrow>
           if map_of t b = Some TreeDir \<or> (up \<noteq> [] \<and> map_of t (last up) \<noteq> Some TreeDir) then stop (PlanIo ''rename'')
           else set_tree (\<lambda>t. AList.update b node (AList.delete a t)))"

definition make_dir :: "apply_env \<Rightarrow> bytes \<Rightarrow> apply_step" where
  "make_dir env q =
     looking (\<lambda>s.
       if is_dir_at env (as_tree s) q then pass
       else if map_of (as_tree s) q \<noteq> None then stop (PlanIo ''create_dir_all'')
       else set_tree (AList.update q TreeDir))"

definition create_dir_all :: "apply_env \<Rightarrow> bytes \<Rightarrow> apply_step" where
  "create_dir_all env q = each (make_dir env) (parents q @ [q])"

definition create_parent :: "apply_env \<Rightarrow> bytes \<Rightarrow> apply_step" where
  "create_parent env q = each (make_dir env) (parents q)"

definition set_executable :: "apply_env \<Rightarrow> bytes \<Rightarrow> bool \<Rightarrow> apply_step" where
  "set_executable env path exec =
     looking (\<lambda>s.
       let t = as_tree s; q = ae_follow env t path in
       case map_of t q of
         None \<Rightarrow> stop (PlanIo ''metadata'')
       | Some (TreeFile bs e) \<Rightarrow> if e = exec then pass else set_tree (AList.update q (TreeFile bs exec))
       | Some _ \<Rightarrow> pass)"

definition create_symlink :: "apply_env \<Rightarrow> bytes \<Rightarrow> bytes \<Rightarrow> apply_step" where
  "create_symlink env target link =
     seq (looking (\<lambda>s.
            case map_of (as_tree s) link of
              None \<Rightarrow> pass
            | Some TreeDir \<Rightarrow> stop (PlanIo ''remove_file'')
            | Some _ \<Rightarrow> set_tree (AList.delete link)))
     (seq (create_parent env link)
          (if target = [] then stop (PlanIo ''symlink'') else set_tree (AList.update link (TreeLink target))))"

definition remove_managed :: "apply_env \<Rightarrow> bytes \<Rightarrow> apply_step" where
  "remove_managed env path =
     looking (\<lambda>s.
       let t = as_tree s; counted = count (\<lambda>st. st\<lparr>files_deleted := files_deleted st + 1\<rparr>) in
       if is_dir_at env t path then
         (if map_of t path = Some TreeDir \<and> list_all (\<lambda>x. \<not> below path (fst x)) t
          then seq (set_tree (AList.delete path)) counted else pass)
       else if map_of t path \<noteq> None then seq (set_tree (AList.delete path)) counted
       else pass)"

section \<open>The journal\<close>

definition save_journal :: "apply_env \<Rightarrow> apply_step" where
  "save_journal env =
     looking (\<lambda>s.
       seq (create_file env journal_tmp (journal_to_vec env (as_journal s)))
           (rename_file_to journal_tmp apply_journal_file))"

definition journal_state :: "apply_env \<Rightarrow> string \<Rightarrow> apply_step" where
  "journal_state env state = seq (note_state (\<lambda>s. s\<lparr>as_journal := (as_journal s)\<lparr>aj_state := state\<rparr>\<rparr>)) (save_journal env)"

definition load_journal :: "apply_env \<Rightarrow> tree \<Rightarrow> plan_error + apply_journal option" where
  "load_journal env t =
     (case map_of t (ae_follow env t apply_journal_file) of
        None \<Rightarrow> Inr None
      | Some (TreeFile bs _) \<Rightarrow>
          (case journal_from_slice env bs of
             None \<Rightarrow> Inl (PlanJournal ''corrupt journal'') | Some j \<Rightarrow> Inr (Some j))
      | Some _ \<Rightarrow> Inl (PlanIo ''read''))"

definition plan_identity :: "apply_env \<Rightarrow> offline_plan \<Rightarrow> string" where
  "plan_identity env p = to_hex (hash_chunk (ae_blake3 env) (plan_encode (ae_blake3 env) (ae_compress env) 1 p))"

section \<open>Staging\<close>

definition file_matches :: "apply_env \<Rightarrow> tree \<Rightarrow> bytes \<Rightarrow> u64 \<Rightarrow> chunk_hash \<Rightarrow> bool" where
  "file_matches env t path len expected \<longleftrightarrow>
     (case content_at env t path of None \<Rightarrow> False | Some bs \<Rightarrow> length bs = unat len \<and> ae_blake3 env bs = expected)"

text \<open>
  The old root is the output root (\<open>None\<close>), or another tree, which does not change.
\<close>

definition old_file :: "apply_env \<Rightarrow> tree option \<Rightarrow> tree \<Rightarrow> bytes \<Rightarrow> bytes option" where
  "old_file env old t path = (case old of None \<Rightarrow> content_at env t path | Some o_tree \<Rightarrow> content_at env o_tree path)"

definition dir_source :: "offline_plan \<Rightarrow> (bytes \<Rightarrow> bytes option) \<Rightarrow> old_reader" where
  "dir_source p files i off n =
     (case map_of (rev (map (\<lambda>e. (oe_id e, oe_path e)) (old_entries p))) i of
        None \<Rightarrow> Inl (PlanInvalid (''op references unknown old entry '' @ decimal (unat i)))
      | Some path \<Rightarrow> (case files path of None \<Rightarrow> Inl (PlanIo ''open'') | Some bs \<Rightarrow> read_exact_at bs off n))"

definition list_staged :: "plan_entry \<Rightarrow> apply_step" where
  "list_staged e = note_state (\<lambda>s. s\<lparr>as_staged := as_staged s @ [e]\<rparr>)"

text \<open>What was written is read back before it counts as staged.\<close>

definition check_staged :: "apply_env \<Rightarrow> plan_entry \<Rightarrow> chunk_hash \<Rightarrow> apply_step" where
  "check_staged env e expected =
     looking (\<lambda>s.
       case content_at env (as_tree s) (staged_at (pe_id e)) of
         None \<Rightarrow> stop (PlanIo ''open'')
       | Some bs \<Rightarrow>
           if ae_blake3 env bs \<noteq> expected
           then seq (attempt (journal_state env ''failed'')) (stop (PlanApplyHashMismatch (pe_path e)))
           else list_staged e)"

definition rebuild_entry :: "apply_env \<Rightarrow> offline_plan \<Rightarrow> tree option \<Rightarrow> plan_entry \<Rightarrow> chunk_hash \<Rightarrow> apply_step" where
  "rebuild_entry env p old e expected =
     looking (\<lambda>s.
       case entry_pieces (dir_source p (old_file env old (as_tree s))) (plan_blob p) (pe_id e) (plan_ops p) of
         (pieces, failed) \<Rightarrow>
           seq (count (fold count_piece pieces))
           (seq (create_file env (staged_at (pe_id e)) (concat (map fst pieces)))
           (case failed of Some err \<Rightarrow> stop err | None \<Rightarrow> check_staged env e expected)))"

text \<open>A file that is already the new one is left alone; one staged by a run before is kept.\<close>

definition stage_entry :: "apply_env \<Rightarrow> offline_plan \<Rightarrow> tree option \<Rightarrow> plan_entry \<Rightarrow> chunk_hash \<Rightarrow> apply_step" where
  "stage_entry env p old e expected =
     looking (\<lambda>s.
       if file_matches env (as_tree s) (pe_path e) (pe_size e) expected
       then count (\<lambda>st. st\<lparr>files_noop := files_noop st + 1\<rparr>)
       else if file_matches env (as_tree s) (staged_at (pe_id e)) (pe_size e) expected then list_staged e
       else seq (create_file env (staged_at (pe_id e)) []) (rebuild_entry env p old e expected))"

definition stage_all :: "apply_env \<Rightarrow> offline_plan \<Rightarrow> tree option \<Rightarrow> apply_step" where
  "stage_all env p old =
     each (\<lambda>e. if pe_kind e \<noteq> EntryFile then pass
               else seq (count (\<lambda>st. st\<lparr>files_total := files_total st + 1\<rparr>))
                 (case pe_blake3 e of
                    None \<Rightarrow> stop (PlanPanicked ''validated: files carry a hash'')
                  | Some expected \<Rightarrow> stage_entry env p old e expected)) (new_entries p)"

section \<open>Commit\<close>

definition make_entry_dir :: "apply_env \<Rightarrow> plan_entry \<Rightarrow> apply_step" where
  "make_entry_dir env e =
     looking (\<lambda>s.
       if pe_kind e \<noteq> EntryDirectory \<or> is_dir_at env (as_tree s) (pe_path e) then pass
       else seq (create_dir_all env (pe_path e)) (count (\<lambda>st. st\<lparr>dirs_created := dirs_created st + 1\<rparr>)))"

definition commit_entry :: "apply_env \<Rightarrow> plan_entry \<Rightarrow> apply_step" where
  "commit_entry env e =
     seq (create_parent env (pe_path e))
     (seq (rename_file_to (staged_at (pe_id e)) (pe_path e))
     (seq (set_executable env (pe_path e) (pe_executable e))
     (seq (note_state (\<lambda>s. s\<lparr>as_journal := (as_journal s)\<lparr>aj_moved := aj_moved (as_journal s) @ [pe_path e]\<rparr>\<rparr>))
          (count (\<lambda>st. st\<lparr>files_written := files_written st + 1\<rparr>)))))"

definition mark_executable :: "apply_env \<Rightarrow> plan_entry \<Rightarrow> apply_step" where
  "mark_executable env e = (if pe_kind e = EntryFile then set_executable env (pe_path e) (pe_executable e) else pass)"

definition link_entry :: "apply_env \<Rightarrow> plan_entry \<Rightarrow> apply_step" where
  "link_entry env e =
     (if pe_kind e = EntrySymlink
      then seq (create_symlink env (case pe_target e of None \<Rightarrow> [] | Some t \<Rightarrow> t) (pe_path e))
             (count (\<lambda>st. st\<lparr>symlinks_created := symlinks_created st + 1\<rparr>))
      else pass)"

text \<open>\<^verbatim>\<open>remove_dir_all\<close>, one path after the other; then the journal is removed.\<close>

definition clear_staging :: apply_step where
  "clear_staging =
     looking (\<lambda>s. each (\<lambda>q. set_tree (AList.delete q))
       (rev (filter (below staging_dir) (map fst (as_tree s))) @ [staging_dir]))"

definition commit_all :: "apply_env \<Rightarrow> offline_plan \<Rightarrow> bool \<Rightarrow> apply_step" where
  "commit_all env p delete_removed =
     seq (note_state (\<lambda>s. s\<lparr>as_journal := (as_journal s)\<lparr>aj_staged := map pe_path (as_staged s)\<rparr>\<rparr>))
     (seq (journal_state env ''verified'')
     (seq (each (make_entry_dir env) (new_entries p))
     (seq (journal_state env ''committing'')
     (seq (looking (\<lambda>s. each (commit_entry env) (as_staged s)))
     (seq (each (mark_executable env) (new_entries p))
     (seq (each (link_entry env) (new_entries p))
     (seq (if delete_removed then each (remove_managed env) (plan_deleted p) else pass)
     (seq (journal_state env ''committed'')
     (seq clear_staging (set_tree (AList.delete apply_journal_file)))))))))))"

text \<open>\<open>check_old\<close>, \<open>delete_removed\<close> and the path of the plan are the options.\<close>

definition apply_dir :: "apply_env \<Rightarrow> offline_plan \<Rightarrow> tree option \<Rightarrow> bytes \<Rightarrow> bytes \<Rightarrow> bool \<Rightarrow> bool \<Rightarrow> bytes option \<Rightarrow> tree
    \<Rightarrow> (plan_error + apply_stats) \<times> tree \<times> tree list" where
  "apply_dir env p old old_root out_root check_old delete_removed plan_path t =
     (let identity = plan_identity env p;
          journal = \<lparr>aj_plan = identity, aj_plan_path = plan_path, aj_old_root = old_root, aj_out_root = out_root,
            aj_state = ''staging'', aj_staged = [], aj_moved = []\<rparr> in
      case rbind (if op_mode p \<noteq> DirectoryPlan
                  then Inl (PlanInvalid ''directory apply needs a directory plan (use artifact apply)'') else Inr ()) (\<lambda>_.
           rbind (ensure_portable p) (\<lambda>_.
           rbind (if check_old then verify_old_source (ae_blake3 env) p (old_file env old t) [] else Inr ()) (\<lambda>_.
           rbind (load_journal env t) (\<lambda>found.
           case found of
             Some j \<Rightarrow>
               if aj_plan j \<noteq> identity
               then Inl (if length (aj_plan j) < 12 then PlanPanicked ''slice index out of range''
                         else PlanJournal ''belongs to a different apply'')
               else Inr ()
           | None \<Rightarrow> Inr ())))) of
        Inl e \<Rightarrow> (Inl e, t, [])
      | Inr _ \<Rightarrow>
          (case seq (make_dir env staging_dir)
                (seq (save_journal env)
                (seq (stage_all env p old)
                     (commit_all env p delete_removed)))
              \<lparr>as_tree = t, as_trace = [], as_stats = no_stats, as_journal = journal, as_staged = []\<rparr> of
             (Some e, s) \<Rightarrow> (Inl e, as_tree s, as_trace s)
           | (None, s) \<Rightarrow> (Inr (as_stats s), as_tree s, as_trace s)))"

end
