(* ===== verification/Plan_Dir_Laws.thy ===== *)
theory Plan_Dir_Laws
  imports Plan_Dir Seg_Commit
begin

text \<open>
  What applying a directory plan may do to the tree, at every moment of the run.
\<close>

section \<open>Rules for steps\<close>

text \<open>From \<open>I\<close>, the step goes on in \<open>J\<close>, or stops in \<open>S\<close>.\<close>

definition steps :: "(apply_state \<Rightarrow> bool) \<Rightarrow> (apply_state \<Rightarrow> bool) \<Rightarrow> apply_step \<Rightarrow> (apply_state \<Rightarrow> bool) \<Rightarrow> bool" where
  "steps S I m J \<longleftrightarrow> (\<forall>s. I s \<longrightarrow> (case m s of (Some e, s') \<Rightarrow> S s' | (None, s') \<Rightarrow> J s'))"

lemma steps_pass: "(\<And>s. I s \<Longrightarrow> J s) \<Longrightarrow> steps S I pass J"
  by (simp add: steps_def pass_def)

lemma steps_stop: "(\<And>s. I s \<Longrightarrow> S s) \<Longrightarrow> steps S I (stop e) J"
  by (simp add: steps_def stop_def)

lemma steps_seq: "steps S I m J \<Longrightarrow> steps S J k K \<Longrightarrow> steps S I (seq m k) K"
  by (fastforce simp: steps_def seq_def split: prod.splits option.splits)

lemma steps_looking: "(\<And>s. I s \<Longrightarrow> steps S (\<lambda>s'. s' = s) (f s) J) \<Longrightarrow> steps S I (looking f) J"
  by (simp add: steps_def looking_def)

lemma steps_attempt: "steps S I m J \<Longrightarrow> (\<And>s. J s \<Longrightarrow> S s) \<Longrightarrow> steps S I (attempt m) S"
  by (fastforce simp: steps_def attempt_def split_beta split: option.splits)

lemma steps_note: "(\<And>s. I s \<Longrightarrow> J (f s)) \<Longrightarrow> steps S I (note_state f) J"
  by (simp add: steps_def note_state_def)

lemma steps_pre: "steps S I m J \<Longrightarrow> (\<And>s. I' s \<Longrightarrow> I s) \<Longrightarrow> steps S I' m J"
  by (simp add: steps_def)

lemma steps_post: "steps S I m J \<Longrightarrow> (\<And>s. J s \<Longrightarrow> J' s) \<Longrightarrow> steps S I m J'"
  by (auto simp: steps_def split: prod.splits option.splits)

lemma steps_if: "(b \<Longrightarrow> steps S I m J) \<Longrightarrow> (\<not> b \<Longrightarrow> steps S I k J) \<Longrightarrow> steps S I (if b then m else k) J"
  by simp

lemma steps_each_upto:
  assumes "\<And>pre x post. xs = pre @ x # post \<Longrightarrow> steps S (I pre) (f x) (I (pre @ [x]))"
  shows "steps S (I []) (each f xs) (I xs)"
proof -
  have "steps S (I pre) (each f post) (I (pre @ post))" if "xs = pre @ post" for pre post
    using that
  proof (induction post arbitrary: pre)
    case Nil
    then show ?case by (simp add: steps_pass)
  next
    case (Cons x post)
    have "steps S (I (pre @ [x])) (each f post) (I ((pre @ [x]) @ post))" by (rule Cons.IH) (simp add: Cons.prems)
    then show ?case using steps_seq [OF assms [OF Cons.prems]] by simp
  qed
  from this [of "[]" xs] show ?thesis by simp
qed

lemma steps_each: "(\<And>x. x \<in> set xs \<Longrightarrow> steps S I (f x) I) \<Longrightarrow> steps S I (each f xs) I"
  by (rule steps_each_upto [where I = "\<lambda>_. I"]) simp

section \<open>What a plan allows\<close>

text \<open>Everything but the staging directory and the journal.\<close>

definition visible :: "bytes \<Rightarrow> bool" where
  "visible q \<longleftrightarrow> q \<noteq> staging_dir \<and> \<not> below staging_dir q \<and> q \<noteq> apply_journal_file \<and> q \<noteq> journal_tmp"

definition same_content :: "tree_node option \<Rightarrow> tree_node option \<Rightarrow> bool" where
  "same_content a b \<longleftrightarrow> a = b \<or> (\<exists>bs e e'. a = Some (TreeFile bs e) \<and> b = Some (TreeFile bs e'))"

definition links_at :: "offline_plan \<Rightarrow> bytes \<Rightarrow> plan_entry set" where
  "links_at p q = {e \<in> set (new_entries p). pe_kind e = EntrySymlink \<and> pe_path e = q}"

definition needs_dir :: "offline_plan \<Rightarrow> bytes \<Rightarrow> bool" where
  "needs_dir p q \<longleftrightarrow> (\<exists>e \<in> set (new_entries p). q \<in> set (parents (pe_path e)) \<or> (pe_kind e = EntryDirectory \<and> q = pe_path e))"

text \<open>
  What may be at a path where \<open>a\<close> was: the same content; the verified content of a file entry; a
  directory that was missing; a link of the plan; nothing, where the plan deletes.
\<close>

definition allowed :: "hash_fun \<Rightarrow> offline_plan \<Rightarrow> bool \<Rightarrow> bytes \<Rightarrow> tree_node option \<Rightarrow> tree_node option \<Rightarrow> bool" where
  "allowed blake3 p del q a b \<longleftrightarrow> same_content a b
     \<or> (\<exists>e \<in> set (new_entries p). pe_kind e = EntryFile \<and> pe_path e = q
          \<and> (\<exists>bs ex. b = Some (TreeFile bs ex) \<and> pe_blake3 e = Some (blake3 bs)))
     \<or> (b = Some TreeDir \<and> needs_dir p q \<and> (a = None \<or> links_at p q \<noteq> {} \<or> del \<and> q \<in> set (plan_deleted p)))
     \<or> (\<exists>e \<in> links_at p q. b = None \<or> (\<exists>tg. pe_target e = Some tg \<and> b = Some (TreeLink tg)))
     \<or> (del \<and> q \<in> set (plan_deleted p) \<and> b = None)"

definition good_tree :: "hash_fun \<Rightarrow> offline_plan \<Rightarrow> bool \<Rightarrow> tree \<Rightarrow> tree \<Rightarrow> bool" where
  "good_tree blake3 p del t x \<longleftrightarrow> (\<forall>q. if visible q then allowed blake3 p del q (map_of t q) (map_of x q)
     else \<forall>l. map_of x q \<noteq> Some (TreeLink l))"

definition good_state :: "hash_fun \<Rightarrow> offline_plan \<Rightarrow> bool \<Rightarrow> tree \<Rightarrow> apply_state \<Rightarrow> bool" where
  "good_state blake3 p del t s \<longleftrightarrow> good_tree blake3 p del t (as_tree s) \<and> (\<forall>x \<in> set (as_trace s). good_tree blake3 p del t x)"

text \<open>The operating system follows links only.\<close>

definition follows_links :: "apply_env \<Rightarrow> bool" where
  "follows_links env \<longleftrightarrow> (\<forall>t q. (\<forall>l. map_of t q \<noteq> Some (TreeLink l)) \<longrightarrow> ae_follow env t q = q)"

text \<open>The file of an entry is staged, with the content the plan gives it.\<close>

definition staged_ok :: "hash_fun \<Rightarrow> tree \<Rightarrow> plan_entry \<Rightarrow> bool" where
  "staged_ok blake3 x e \<longleftrightarrow> pe_kind e = EntryFile
     \<and> (\<exists>bs ex. map_of x (staged_at (pe_id e)) = Some (TreeFile bs ex) \<and> pe_blake3 e = Some (blake3 bs))"

section \<open>Private paths\<close>

lemma staged_at_inj: "staged_at i = staged_at j \<longleftrightarrow> i = j"
proof
  assume "staged_at i = staged_at j"
  then have a: "ascii (decimal (unat i)) = ascii (decimal (unat j))" by (simp add: staged_at_def ascii_def)
  have "decimal (unat i) = decimal (unat j)" by (metis a text_of_ascii)
  moreover have "parse_digits 0 (decimal (unat i)) = Some (unat i)" for i :: u32
    by (rule parse_decimal) (use unsigned_less [of i, where 'a = nat] in simp)
  ultimately have "unat i = unat j" by (metis option.inject)
  then show "i = j" by (rule unsigned_word_eqI)
qed simp

lemma private_paths:
  "\<not> visible (staged_at i)" "\<not> visible apply_journal_file" "\<not> visible journal_tmp" "\<not> visible staging_dir"
  "staged_at i \<noteq> apply_journal_file" "staged_at i \<noteq> journal_tmp" "staged_at i \<noteq> staging_dir"
  "apply_journal_file \<noteq> journal_tmp" "staging_dir \<noteq> apply_journal_file" "staging_dir \<noteq> journal_tmp"
proof -
  show "\<not> visible (staged_at i)" by (simp add: visible_def below_def staged_at_def)
  show "\<not> visible apply_journal_file" "\<not> visible journal_tmp" "\<not> visible staging_dir" by (simp_all add: visible_def)
  show "staged_at i \<noteq> apply_journal_file" "staged_at i \<noteq> journal_tmp" "staged_at i \<noteq> staging_dir"
    "apply_journal_file \<noteq> journal_tmp" "staging_dir \<noteq> apply_journal_file" "staging_dir \<noteq> journal_tmp"
    by (simp_all add: staged_at_def staging_dir_def apply_journal_file_def journal_tmp_def ascii_def)
qed

section \<open>Good trees\<close>

lemma follow_private:
  assumes "follows_links env" "good_tree blake3 p del t x" "\<not> visible q"
  shows "ae_follow env x q = q"
proof -
  have "\<forall>l. map_of x q \<noteq> Some (TreeLink l)" using assms(2,3) by (simp add: good_tree_def)
  then show ?thesis using assms(1) by (simp add: follows_links_def)
qed

lemma good_update:
  assumes "good_tree blake3 p del t x" "visible q \<Longrightarrow> allowed blake3 p del q (map_of t q) (Some n)"
    and "\<not> visible q \<Longrightarrow> \<forall>l. n \<noteq> TreeLink l"
  shows "good_tree blake3 p del t (AList.update q n x)"
  using assms by (simp add: good_tree_def update_conv')

lemma good_delete:
  assumes "good_tree blake3 p del t x" "visible q \<Longrightarrow> allowed blake3 p del q (map_of t q) None"
  shows "good_tree blake3 p del t (AList.delete q x)"
  using assms by (simp add: good_tree_def delete_conv')

lemma allowed_exec:
  "allowed blake3 p del q a (Some (TreeFile bs e)) \<Longrightarrow> allowed blake3 p del q a (Some (TreeFile bs e'))"
  by (auto simp: allowed_def same_content_def)

lemma allowed_dir:
  "allowed blake3 p del q a None \<Longrightarrow> needs_dir p q \<Longrightarrow> allowed blake3 p del q a (Some TreeDir)"
  by (auto simp: allowed_def same_content_def)

section \<open>What holds during a run\<close>

text \<open>The file of an entry is in place.\<close>

definition placed :: "hash_fun \<Rightarrow> tree \<Rightarrow> plan_entry \<Rightarrow> bool" where
  "placed blake3 x e \<longleftrightarrow> pe_kind e = EntryFile
     \<and> (\<exists>bs ex. map_of x (pe_path e) = Some (TreeFile bs ex) \<and> pe_blake3 e = Some (blake3 bs))"

text \<open>The paths of a plan's entries are apart from one another, and from what is private and deleted.\<close>

definition clear_plan :: "offline_plan \<Rightarrow> bool" where
  "clear_plan p \<longleftrightarrow> distinct (map pe_id (new_entries p)) \<and> distinct (map pe_path (new_entries p))
     \<and> (\<forall>e \<in> set (new_entries p). visible (pe_path e)) \<and> pe_path ` set (new_entries p) \<inter> set (plan_deleted p) = {}"

lemma clear_ids: "clear_plan p \<Longrightarrow> e \<in> set (new_entries p) \<Longrightarrow> e' \<in> set (new_entries p) \<Longrightarrow> pe_id e = pe_id e' \<Longrightarrow> e = e'"
  by (meson clear_plan_def distinct_map inj_onD)

lemma clear_paths: "clear_plan p \<Longrightarrow> e \<in> set (new_entries p) \<Longrightarrow> e' \<in> set (new_entries p) \<Longrightarrow> pe_path e = pe_path e' \<Longrightarrow> e = e'"
  by (meson clear_plan_def distinct_map inj_onD)

text \<open>
  Every state so far is good; the entries of \<open>st\<close> are the list of staged ones, those of \<open>es\<close> have
  their file staged, those of \<open>D\<close> have it in place.
\<close>

definition holding_dir :: "apply_env \<Rightarrow> offline_plan \<Rightarrow> bool \<Rightarrow> tree \<Rightarrow> plan_entry list \<Rightarrow> plan_entry set \<Rightarrow> plan_entry set
    \<Rightarrow> apply_state \<Rightarrow> bool" where
  "holding_dir env p del t st es D s \<longleftrightarrow> good_state (ae_blake3 env) p del t s \<and> as_staged s = st
     \<and> es \<subseteq> set (new_entries p) \<and> D \<subseteq> set (new_entries p)
     \<and> (\<forall>e \<in> es. staged_ok (ae_blake3 env) (as_tree s) e) \<and> (\<forall>e \<in> D. placed (ae_blake3 env) (as_tree s) e)"

abbreviation dir_steps :: "apply_env \<Rightarrow> offline_plan \<Rightarrow> bool \<Rightarrow> tree \<Rightarrow> (apply_state \<Rightarrow> bool) \<Rightarrow> apply_step
    \<Rightarrow> (apply_state \<Rightarrow> bool) \<Rightarrow> bool" where
  "dir_steps env p del t \<equiv> steps (good_state (ae_blake3 env) p del t)"

lemma holding_good: "holding_dir env p del t st es D s \<Longrightarrow> good_state (ae_blake3 env) p del t s"
  by (simp add: holding_dir_def)

lemma holding_tree: "holding_dir env p del t st es D s \<Longrightarrow> good_tree (ae_blake3 env) p del t (as_tree s)"
  by (simp add: holding_dir_def good_state_def)

lemma holding_note:
  "holding_dir env p del t st es D s \<Longrightarrow> as_tree (f s) = as_tree s \<Longrightarrow> as_trace (f s) = as_trace s \<Longrightarrow> as_staged (f s) = st'
    \<Longrightarrow> holding_dir env p del t st' es D (f s)"
  by (simp add: holding_dir_def good_state_def)

text \<open>A change of the tree at one path that keeps what is staged and placed there.\<close>

definition keeps_files :: "hash_fun \<Rightarrow> plan_entry set \<Rightarrow> plan_entry set \<Rightarrow> tree \<Rightarrow> tree \<Rightarrow> bool" where
  "keeps_files blake3 es D x y \<longleftrightarrow> (\<forall>e \<in> es. staged_ok blake3 x e \<longrightarrow> staged_ok blake3 y e)
     \<and> (\<forall>e \<in> D. placed blake3 x e \<longrightarrow> placed blake3 y e)"

lemma steps_set:
  assumes "\<And>s. I s \<Longrightarrow> holding_dir env p del t st es D s"
    and "\<And>s. I s \<Longrightarrow> good_tree (ae_blake3 env) p del t (f (as_tree s))"
    and "\<And>s. I s \<Longrightarrow> keeps_files (ae_blake3 env) es D (as_tree s) (f (as_tree s))"
    and "\<And>s. I s \<Longrightarrow> J (f (as_tree s))"
  shows "dir_steps env p del t I (set_tree f) (\<lambda>s. holding_dir env p del t st es D s \<and> J (as_tree s))"
  unfolding steps_def
proof (intro allI impI)
  fix s assume s: "I s"
  have "good_state (ae_blake3 env) p del t (s\<lparr>as_tree := f (as_tree s), as_trace := as_trace s @ [f (as_tree s)]\<rparr>)"
    using holding_good [OF assms(1) [OF s]] assms(2) [OF s] by (auto simp: good_state_def)
  then show "case set_tree f s of
      (None, s') \<Rightarrow> holding_dir env p del t st es D s' \<and> J (as_tree s')
    | (Some e, s') \<Rightarrow> good_state (ae_blake3 env) p del t s'"
    using assms(1) [OF s] assms(3,4) [OF s] by (simp add: set_tree_def holding_dir_def keeps_files_def)
qed

lemma keeps_other:
  assumes "\<And>e. e \<in> es \<Longrightarrow> staged_at (pe_id e) \<noteq> q" "\<And>e. e \<in> D \<Longrightarrow> pe_path e \<noteq> q"
  shows "keeps_files blake3 es D x (AList.update q n x)" "keeps_files blake3 es D x (AList.delete q x)"
  using assms by (auto simp: keeps_files_def staged_ok_def placed_def update_conv' delete_conv')

lemma keeps_trans: "keeps_files blake3 es D x y \<Longrightarrow> keeps_files blake3 es D y z \<Longrightarrow> keeps_files blake3 es D x z"
  by (simp add: keeps_files_def)

lemma keeps_fresh: "map_of x q = None \<Longrightarrow> keeps_files blake3 es D x (AList.update q n x)"
  by (auto simp: keeps_files_def staged_ok_def placed_def update_conv')

lemma keeps_exec: "map_of x q = Some (TreeFile bs e) \<Longrightarrow> keeps_files blake3 es D x (AList.update q (TreeFile bs e') x)"
  by (force simp: keeps_files_def staged_ok_def placed_def update_conv')

section \<open>The steps\<close>

lemma good_state_upd [simp]:
  "good_state blake3 p del t (s\<lparr>as_stats := st\<rparr>) = good_state blake3 p del t s"
  "good_state blake3 p del t (s\<lparr>as_journal := j\<rparr>) = good_state blake3 p del t s"
  "good_state blake3 p del t (s\<lparr>as_staged := es\<rparr>) = good_state blake3 p del t s"
  by (simp_all add: good_state_def)

lemma steps_count:
  "dir_steps env p del t (holding_dir env p del t st es D) (count f) (holding_dir env p del t st es D)"
  unfolding count_def by (rule steps_note) (simp add: holding_dir_def)

lemma steps_create_private:
  assumes "follows_links env" "\<not> visible q" "\<And>e. e \<in> es \<Longrightarrow> staged_at (pe_id e) \<noteq> q" "\<And>e. e \<in> D \<Longrightarrow> pe_path e \<noteq> q"
  shows "dir_steps env p del t (holding_dir env p del t st es D) (create_file env q bs)
    (\<lambda>s. holding_dir env p del t st es D s \<and> (\<exists>ex. map_of (as_tree s) q = Some (TreeFile bs ex)))"
  unfolding create_file_def Let_def
proof (rule steps_looking, rule steps_if)
  fix s assume s: "holding_dir env p del t st es D s"
  show "dir_steps env p del t (\<lambda>s'. s' = s) (stop (PlanIo ''create''))
    (\<lambda>s. holding_dir env p del t st es D s \<and> (\<exists>ex. map_of (as_tree s) q = Some (TreeFile bs ex)))"
    using holding_good [OF s] by (intro steps_stop) simp
  let ?q = "ae_follow env (as_tree s) q"
  let ?e = "case map_of (as_tree s) ?q of Some (TreeFile _ e) \<Rightarrow> e | _ \<Rightarrow> False"
  have q: "?q = q" by (rule follow_private [OF assms(1) holding_tree [OF s] assms(2)])
  let ?f = "\<lambda>k. set_tree (AList.update q (TreeFile (take k bs) ?e))"
  let ?I = "\<lambda>pre s'. holding_dir env p del t st es D s' \<and> (pre = [] \<or> map_of (as_tree s') q = Some (TreeFile (take (last pre) bs) ?e))"
  have "dir_steps env p del t (?I pre) (?f k) (?I (pre @ [k]))" for pre k
    by (rule steps_post [OF steps_set [where st = st and es = es and D = D
          and J = "\<lambda>x. map_of x q = Some (TreeFile (take k bs) ?e)"]])
      (use keeps_other [OF assms(3,4)] in \<open>auto intro!: good_update dest: holding_tree simp: assms(2) update_conv'\<close>)
  from steps_each_upto [of "[0..<length bs + 1]" _ ?I ?f, OF this]
  have "dir_steps env p del t (?I []) (each ?f [0..<length bs + 1]) (?I [0..<length bs + 1])" .
  then show "dir_steps env p del t (\<lambda>s'. s' = s) (each (\<lambda>k. set_tree (AList.update ?q (TreeFile (take k bs) ?e))) [0..<length bs + 1])
    (\<lambda>s. holding_dir env p del t st es D s \<and> (\<exists>ex. map_of (as_tree s) q = Some (TreeFile bs ex)))"
    unfolding q by (rule steps_post [OF steps_pre]) (use s in \<open>auto simp: last_upt\<close>)
qed

lemma steps_rename:
  assumes move: "\<And>node. map_of (as_tree s0) a = Some node \<Longrightarrow>
      good_tree (ae_blake3 env) p del t (AList.update b node (AList.delete a (as_tree s0)))
      \<and> keeps_files (ae_blake3 env) es D (as_tree s0) (AList.update b node (AList.delete a (as_tree s0)))"
    and s0: "holding_dir env p del t st es D s0"
  shows "dir_steps env p del t (\<lambda>s. s = s0) (rename_file_to a b)
    (\<lambda>s. holding_dir env p del t st es D s \<and> map_of (as_tree s) b = map_of (as_tree s0) a \<and> map_of (as_tree s0) a \<noteq> None)"
proof (cases "map_of (as_tree s0) a")
  case None
  then show ?thesis using holding_good [OF s0] by (simp add: rename_file_to_def steps_def looking_def stop_def Let_def)
next
  case (Some node)
  show ?thesis
    unfolding rename_file_to_def Let_def
    by (rule steps_looking, simp add: Some, intro conjI impI,
        (rule steps_stop, use holding_good [OF s0] in simp)+,
        rule steps_post [OF steps_set [where st = st and es = es and D = D and J = "\<lambda>x. map_of x b = Some node"]])
      (use move [OF Some] s0 in \<open>auto simp: update_conv'\<close>)
qed

lemma steps_save_journal:
  assumes "follows_links env" "D \<subseteq> set (new_entries p)" "clear_plan p"
  shows "dir_steps env p del t (holding_dir env p del t st es D) (save_journal env) (holding_dir env p del t st es D)"
  unfolding save_journal_def
proof (rule steps_looking, rule steps_seq)
  fix s assume s: "holding_dir env p del t st es D s"
  have D: "pe_path e \<noteq> journal_tmp" "pe_path e \<noteq> apply_journal_file" if "e \<in> D" for e
  proof -
    have "visible (pe_path e)" using that assms(2,3) by (auto simp: clear_plan_def)
    then show "pe_path e \<noteq> journal_tmp" "pe_path e \<noteq> apply_journal_file" using private_paths(2,3) by metis+
  qed
  let ?js = "journal_to_vec env (as_journal s)"
  show "dir_steps env p del t (\<lambda>s'. s' = s) (create_file env journal_tmp ?js)
      (\<lambda>s. holding_dir env p del t st es D s \<and> (\<exists>ex. map_of (as_tree s) journal_tmp = Some (TreeFile ?js ex)))"
    by (rule steps_pre [OF steps_create_private [OF assms(1)]]) (use private_paths D s in auto)
  show "dir_steps env p del t (\<lambda>s. holding_dir env p del t st es D s \<and> (\<exists>ex. map_of (as_tree s) journal_tmp = Some (TreeFile ?js ex)))
      (rename_file_to journal_tmp apply_journal_file) (holding_dir env p del t st es D)"
    unfolding steps_def
  proof (intro allI impI, elim conjE exE)
    fix s1 ex assume s1: "holding_dir env p del t st es D s1" "map_of (as_tree s1) journal_tmp = Some (TreeFile ?js ex)"
    have "keeps_files (ae_blake3 env) es D (as_tree s1) (AList.update apply_journal_file n (AList.delete journal_tmp (as_tree s1)))" for n
      by (rule keeps_trans [OF keeps_other(2) keeps_other(1)]) (use private_paths D in auto)
    moreover have "good_tree (ae_blake3 env) p del t (AList.update apply_journal_file (TreeFile ?js ex) (AList.delete journal_tmp (as_tree s1)))"
      by (intro good_update good_delete holding_tree [OF s1(1)]) (use private_paths in auto)
    ultimately have "dir_steps env p del t (\<lambda>s. s = s1) (rename_file_to journal_tmp apply_journal_file)
        (\<lambda>s. holding_dir env p del t st es D s \<and> map_of (as_tree s) apply_journal_file = map_of (as_tree s1) journal_tmp
          \<and> map_of (as_tree s1) journal_tmp \<noteq> None)"
      by (intro steps_rename s1(1)) (use s1(2) in auto)
    then show "case rename_file_to journal_tmp apply_journal_file s1 of
        (None, s') \<Rightarrow> holding_dir env p del t st es D s' | (Some e, s') \<Rightarrow> good_state (ae_blake3 env) p del t s'"
      by (auto simp: steps_def split: prod.splits option.splits)
  qed
qed

lemma steps_journal_state:
  assumes "follows_links env" "D \<subseteq> set (new_entries p)" "clear_plan p"
  shows "dir_steps env p del t (holding_dir env p del t st es D) (journal_state env state) (holding_dir env p del t st es D)"
  unfolding journal_state_def
  by (rule steps_seq [OF steps_note steps_save_journal [OF assms]]) (auto intro: holding_note simp: holding_dir_def good_state_def)

lemma steps_make_dir:
  assumes "visible q \<Longrightarrow> needs_dir p q"
  shows "dir_steps env p del t (holding_dir env p del t st es D) (make_dir env q) (holding_dir env p del t st es D)"
  unfolding make_dir_def
proof (rule steps_looking, intro steps_if)
  fix s assume s: "holding_dir env p del t st es D s"
  show "dir_steps env p del t (\<lambda>s'. s' = s) pass (holding_dir env p del t st es D)" using s by (intro steps_pass) simp
  show "dir_steps env p del t (\<lambda>s'. s' = s) (stop (PlanIo ''create_dir_all'')) (holding_dir env p del t st es D)"
    using holding_good [OF s] by (intro steps_stop) simp
  assume "\<not> map_of (as_tree s) q \<noteq> None"
  then have fresh: "map_of (as_tree s) q = None" by simp
  have "good_tree (ae_blake3 env) p del t (AList.update q TreeDir (as_tree s))"
  proof (rule good_update [OF holding_tree [OF s]])
    assume v: "visible q"
    have "allowed (ae_blake3 env) p del q (map_of t q) None"
      using holding_tree [OF s] v fresh unfolding good_tree_def by metis
    then show "allowed (ae_blake3 env) p del q (map_of t q) (Some TreeDir)" using allowed_dir assms [OF v] by blast
  qed simp
  then show "dir_steps env p del t (\<lambda>s'. s' = s) (set_tree (AList.update q TreeDir)) (holding_dir env p del t st es D)"
    using s keeps_fresh [OF fresh]
    by (intro steps_post [OF steps_set [where st = st and es = es and D = D and J = "\<lambda>_. True"]]) auto
qed

lemma steps_parents:
  assumes "e \<in> set (new_entries p)"
  shows "dir_steps env p del t (holding_dir env p del t st es D) (create_parent env (pe_path e)) (holding_dir env p del t st es D)"
  unfolding create_parent_def
  by (intro steps_each steps_make_dir) (use assms in \<open>auto simp: needs_dir_def\<close>)

lemma steps_entry_dir:
  assumes "e \<in> set (new_entries p)"
  shows "dir_steps env p del t (holding_dir env p del t st es D) (make_entry_dir env e) (holding_dir env p del t st es D)"
  unfolding make_entry_dir_def
proof (rule steps_looking, rule steps_if)
  fix s assume s: "holding_dir env p del t st es D s"
  show "dir_steps env p del t (\<lambda>s'. s' = s) pass (holding_dir env p del t st es D)" using s by (intro steps_pass) simp
  assume "\<not> (pe_kind e \<noteq> EntryDirectory \<or> is_dir_at env (as_tree s) (pe_path e))"
  then have "pe_kind e = EntryDirectory" by simp
  then have make: "dir_steps env p del t (holding_dir env p del t st es D) (create_dir_all env (pe_path e)) (holding_dir env p del t st es D)"
    unfolding create_dir_all_def by (intro steps_each steps_make_dir) (use assms in \<open>auto simp: needs_dir_def\<close>)
  show "dir_steps env p del t (\<lambda>s'. s' = s) (seq (create_dir_all env (pe_path e))
      (count (\<lambda>st. st\<lparr>dirs_created := dirs_created st + 1\<rparr>))) (holding_dir env p del t st es D)"
    by (rule steps_pre [OF steps_seq [OF make steps_count]]) (use s in simp)
qed

lemma steps_set_executable:
  "dir_steps env p del t (holding_dir env p del t st es D) (set_executable env path exec) (holding_dir env p del t st es D)"
  unfolding set_executable_def Let_def
proof (rule steps_looking)
  fix s assume s: "holding_dir env p del t st es D s"
  let ?q = "ae_follow env (as_tree s) path"
  show "dir_steps env p del t (\<lambda>s'. s' = s)
    (case map_of (as_tree s) ?q of
       None \<Rightarrow> stop (PlanIo ''metadata'')
     | Some (TreeFile bs e) \<Rightarrow> if e = exec then pass else set_tree (AList.update ?q (TreeFile bs exec))
     | Some _ \<Rightarrow> pass) (holding_dir env p del t st es D)"
  proof (cases "\<exists>bs e. map_of (as_tree s) ?q = Some (TreeFile bs e) \<and> e \<noteq> exec")
    case True
    then obtain bs e where n: "map_of (as_tree s) ?q = Some (TreeFile bs e)" "e \<noteq> exec" by blast
    have "good_tree (ae_blake3 env) p del t (AList.update ?q (TreeFile bs exec) (as_tree s))"
    proof (rule good_update [OF holding_tree [OF s]])
      assume "visible ?q"
      then have "allowed (ae_blake3 env) p del ?q (map_of t ?q) (Some (TreeFile bs e))"
        using holding_tree [OF s] n(1) unfolding good_tree_def by metis
      then show "allowed (ae_blake3 env) p del ?q (map_of t ?q) (Some (TreeFile bs exec))" by (rule allowed_exec)
    qed simp
    then have "dir_steps env p del t (\<lambda>s'. s' = s) (set_tree (AList.update ?q (TreeFile bs exec))) (holding_dir env p del t st es D)"
      using s keeps_exec [OF n(1)]
      by (intro steps_post [OF steps_set [where st = st and es = es and D = D and J = "\<lambda>_. True"]]) auto
    then show ?thesis using n by simp
  next
    case False
    then show ?thesis
      using s holding_good [OF s]
      by (cases "map_of (as_tree s) ?q") (auto intro!: steps_stop steps_pass split: tree_node.split)
  qed
qed

lemma steps_commit_entry:
  assumes clear: "clear_plan p" and sub: "insert e es \<union> D \<subseteq> set (new_entries p)" "e \<notin> es"
  shows "dir_steps env p del t (holding_dir env p del t st (insert e es) D) (commit_entry env e)
    (holding_dir env p del t st es (insert e D))"
  unfolding commit_entry_def
proof (rule steps_seq [OF steps_parents])
  have e: "e \<in> set (new_entries p)" using sub(1) by simp
  then show "e \<in> set (new_entries p)" .
  let ?a = "staged_at (pe_id e)" and ?b = "pe_path e"
  have v: "visible ?b" using clear e by (simp add: clear_plan_def)
  have ab: "?a \<noteq> ?b" using v private_paths(1) by metis
  have others: "staged_at (pe_id e') \<noteq> ?a" "staged_at (pe_id e') \<noteq> ?b" if "e' \<in> es" for e'
  proof -
    have "e' \<noteq> e" "e' \<in> set (new_entries p)" using that sub by auto
    then show "staged_at (pe_id e') \<noteq> ?a" using clear_ids [OF clear _ e] staged_at_inj by blast
    show "staged_at (pe_id e') \<noteq> ?b" using v private_paths(1) by metis
  qed
  have final: "pe_path e' \<noteq> ?a" "e' \<noteq> e \<Longrightarrow> pe_path e' \<noteq> ?b" if "e' \<in> D" for e'
  proof -
    have e': "e' \<in> set (new_entries p)" using that sub by auto
    then have "visible (pe_path e')" using clear by (simp add: clear_plan_def)
    then show "pe_path e' \<noteq> ?a" using private_paths(1) by metis
    show "e' \<noteq> e \<Longrightarrow> pe_path e' \<noteq> ?b" using clear_paths [OF clear e' e] by blast
  qed
  have move: "dir_steps env p del t (holding_dir env p del t st (insert e es) D) (rename_file_to ?a ?b)
      (holding_dir env p del t st es (insert e D))"
    unfolding steps_def
  proof (intro allI impI)
    fix s assume s: "holding_dir env p del t st (insert e es) D s"
    then obtain bs ex where node: "map_of (as_tree s) ?a = Some (TreeFile bs ex)" "pe_blake3 e = Some (ae_blake3 env bs)"
      and kind: "pe_kind e = EntryFile" by (auto simp: holding_dir_def staged_ok_def)
    let ?x = "AList.update ?b (TreeFile bs ex) (AList.delete ?a (as_tree s))"
    have "allowed (ae_blake3 env) p del ?b a (Some (TreeFile bs ex))" for a using e kind node(2) by (auto simp: allowed_def)
    then have good: "good_tree (ae_blake3 env) p del t ?x"
      using private_paths(1)
      by (intro good_update good_delete holding_tree [OF s]) auto
    have at: "map_of ?x ?b = Some (TreeFile bs ex)" by (simp add: update_conv')
    have keep: "keeps_files (ae_blake3 env) es (D - {e}) (as_tree s) ?x"
      by (rule keeps_trans [OF keeps_other(2) keeps_other(1)]) (use others final in auto)
    have placed: "placed (ae_blake3 env) ?x e" using at node(2) kind by (auto simp: placed_def)
    have "holding_dir env p del t st es (insert e D) (s\<lparr>as_tree := ?x, as_trace := as_trace s @ [?x]\<rparr>)"
      using s good keep placed by (auto simp: holding_dir_def good_state_def keeps_files_def)
    then show "case rename_file_to ?a ?b s of
        (None, s') \<Rightarrow> holding_dir env p del t st es (insert e D) s' | (Some e, s') \<Rightarrow> good_state (ae_blake3 env) p del t s'"
      using node(1) holding_good [OF s] by (simp add: rename_file_to_def looking_def Let_def stop_def set_tree_def)
  qed
  have noted: "dir_steps env p del t (holding_dir env p del t st es (insert e D))
      (note_state (\<lambda>s. s\<lparr>as_journal := (as_journal s)\<lparr>aj_moved := aj_moved (as_journal s) @ [pe_path e]\<rparr>\<rparr>))
      (holding_dir env p del t st es (insert e D))"
    by (rule steps_note) (simp add: holding_dir_def)
  show "dir_steps env p del t (holding_dir env p del t st (insert e es) D)
     (seq (rename_file_to ?a ?b) (seq (set_executable env ?b (pe_executable e))
       (seq (note_state (\<lambda>s. s\<lparr>as_journal := (as_journal s)\<lparr>aj_moved := aj_moved (as_journal s) @ [pe_path e]\<rparr>\<rparr>))
          (count (\<lambda>st. st\<lparr>files_written := files_written st + 1\<rparr>)))))
     (holding_dir env p del t st es (insert e D))"
    by (rule steps_seq [OF move steps_seq [OF steps_set_executable steps_seq [OF noted steps_count]]])
qed

lemma steps_link_entry:
  assumes clear: "clear_plan p" and sub: "es = {}" "D \<subseteq> {e \<in> set (new_entries p). pe_kind e = EntryFile}"
    and e: "e \<in> set (new_entries p)"
  shows "dir_steps env p del t (holding_dir env p del t st es D) (link_entry env e) (holding_dir env p del t st es D)"
  unfolding link_entry_def
proof (rule steps_if)
  show "dir_steps env p del t (holding_dir env p del t st es D) pass (holding_dir env p del t st es D)" by (rule steps_pass)
  assume kind: "pe_kind e = EntrySymlink"
  let ?q = "pe_path e" and ?tg = "case pe_target e of None \<Rightarrow> [] | Some t \<Rightarrow> t"
  have link: "e \<in> links_at p ?q" using e kind by (simp add: links_at_def)
  have other: "pe_path e' \<noteq> ?q" if "e' \<in> D" for e'
  proof -
    have "e' \<noteq> e" "e' \<in> set (new_entries p)" using that sub(2) kind by auto
    then show ?thesis using clear_paths [OF clear _ e] by blast
  qed
  have keep: "keeps_files (ae_blake3 env) es D x (AList.update ?q n x)" "keeps_files (ae_blake3 env) es D x (AList.delete ?q x)" for x n
    by (rule keeps_other, use sub(1) other in auto)+
  have allow: "allowed (ae_blake3 env) p del ?q a None" "pe_target e = Some tg \<Longrightarrow> allowed (ae_blake3 env) p del ?q a (Some (TreeLink tg))" for a tg
    using link by (auto simp: allowed_def)
  have remove: "dir_steps env p del t (holding_dir env p del t st es D)
      (looking (\<lambda>s. case map_of (as_tree s) ?q of
              None \<Rightarrow> pass | Some TreeDir \<Rightarrow> stop (PlanIo ''remove_file'') | Some _ \<Rightarrow> set_tree (AList.delete ?q)))
      (holding_dir env p del t st es D)"
  proof (rule steps_looking)
    fix s assume s: "holding_dir env p del t st es D s"
    have del: "dir_steps env p del t (\<lambda>s'. s' = s) (set_tree (AList.delete ?q)) (holding_dir env p del t st es D)"
      by (rule steps_post [OF steps_set [where st = st and es = es and D = D and J = "\<lambda>_. True"]])
        (use s keep(2) allow(1) in \<open>auto intro!: good_delete dest: holding_tree\<close>)
    have stop: "dir_steps env p del t (\<lambda>s'. s' = s) (stop (PlanIo ''remove_file'')) (holding_dir env p del t st es D)"
      using holding_good [OF s] by (intro steps_stop) simp
    show "dir_steps env p del t (\<lambda>s'. s' = s)
      (case map_of (as_tree s) ?q of
         None \<Rightarrow> pass | Some TreeDir \<Rightarrow> stop (PlanIo ''remove_file'') | Some _ \<Rightarrow> set_tree (AList.delete ?q))
      (holding_dir env p del t st es D)"
      using s del stop by (auto intro!: steps_pass split: option.split tree_node.split)
  qed
  have put: "dir_steps env p del t (holding_dir env p del t st es D)
      (if ?tg = [] then stop (PlanIo ''symlink'') else set_tree (AList.update ?q (TreeLink ?tg)))
      (holding_dir env p del t st es D)"
  proof (rule steps_if)
    show "dir_steps env p del t (holding_dir env p del t st es D) (stop (PlanIo ''symlink'')) (holding_dir env p del t st es D)"
      by (rule steps_stop) (rule holding_good)
    assume "?tg \<noteq> []"
    then have "pe_target e = Some ?tg" by (cases "pe_target e") simp_all
    then have a: "allowed (ae_blake3 env) p del ?q a (Some (TreeLink ?tg))" for a by (rule allow(2))
    have v: "visible ?q" using clear e by (simp add: clear_plan_def)
    show "dir_steps env p del t (holding_dir env p del t st es D) (set_tree (AList.update ?q (TreeLink ?tg))) (holding_dir env p del t st es D)"
      by (rule steps_post [OF steps_set [where st = st and es = es and D = D and J = "\<lambda>_. True"]])
        (use keep(1) a v in \<open>auto intro!: good_update dest: holding_tree\<close>)
  qed
  show "dir_steps env p del t (holding_dir env p del t st es D)
      (seq (create_symlink env ?tg ?q) (count (\<lambda>st. st\<lparr>symlinks_created := symlinks_created st + 1\<rparr>)))
      (holding_dir env p del t st es D)"
    unfolding create_symlink_def by (rule steps_seq [OF steps_seq [OF remove steps_seq [OF steps_parents [OF e] put]] steps_count])
qed

lemma steps_remove_managed:
  assumes clear: "clear_plan p" and sub: "es = {}" "D \<subseteq> set (new_entries p)"
    and q: "del" "q \<in> set (plan_deleted p)"
  shows "dir_steps env p del t (holding_dir env p del t st es D) (remove_managed env q) (holding_dir env p del t st es D)"
proof -
  have other: "pe_path e \<noteq> q" if "e \<in> D" for e using that clear sub(2) q(2) by (auto simp: clear_plan_def)
  have keep: "keeps_files (ae_blake3 env) es D x (AList.delete q x)" for x
    by (rule keeps_other) (use sub(1) other in auto)
  have "allowed (ae_blake3 env) p del q a None" for a using q by (simp add: allowed_def)
  then have del: "dir_steps env p del t (holding_dir env p del t st es D) (set_tree (AList.delete q)) (holding_dir env p del t st es D)"
    by (intro steps_post [OF steps_set [where st = st and es = es and D = D and J = "\<lambda>_. True"]])
      (use keep in \<open>auto intro!: good_delete dest: holding_tree\<close>)
  note gone = steps_pre [OF steps_seq [OF del steps_count]]
  show ?thesis
    unfolding remove_managed_def Let_def
    by (rule steps_looking, intro steps_if) (auto intro!: gone steps_pass)
qed

section \<open>Whole runs\<close>

text \<open>
  The whole run of a directory plan: what it stages, what it commits, and what it leaves at every
  moment.
\<close>

section \<open>Staging\<close>

definition no_file_links :: "offline_plan \<Rightarrow> tree \<Rightarrow> bool" where
  "no_file_links p t \<longleftrightarrow> (\<forall>e \<in> set (new_entries p). pe_kind e = EntryFile \<longrightarrow> (\<forall>l. map_of t (pe_path e) \<noteq> Some (TreeLink l)))"

text \<open>After staging \<open>pre\<close>: what is listed is staged, and every file is staged or in place.\<close>

definition staging :: "apply_env \<Rightarrow> offline_plan \<Rightarrow> bool \<Rightarrow> tree \<Rightarrow> plan_entry list \<Rightarrow> apply_state \<Rightarrow> bool" where
  "staging env p del t pre s \<longleftrightarrow> (\<exists>st D. holding_dir env p del t st (set st) D s \<and> distinct st \<and> set st \<subseteq> set pre
     \<and> (no_file_links p t \<longrightarrow> {e \<in> set pre. pe_kind e = EntryFile} \<subseteq> set st \<union> D))"

lemma content_private:
  assumes "follows_links env" "good_tree blake3 p del t x" "\<not> visible q" "content_at env x q = Some bs"
  shows "\<exists>ex. map_of x q = Some (TreeFile bs ex)"
  using assms(4) follow_private [OF assms(1-3)] by (auto simp: content_at_def split: option.splits tree_node.splits)

lemma links_elsewhere:
  assumes "clear_plan p" "e \<in> set (new_entries p)" "pe_kind e = EntryFile"
  shows "links_at p (pe_path e) = {}"
proof -
  have False if "e' \<in> links_at p (pe_path e)" for e'
  proof -
    have "e' \<in> set (new_entries p)" "pe_path e' = pe_path e" "pe_kind e' = EntrySymlink" using that by (auto simp: links_at_def)
    then show False using clear_paths [OF assms(1) _ assms(2)] assms(3) by fastforce
  qed
  then show ?thesis by blast
qed

lemma content_placed:
  assumes "follows_links env" "good_tree (ae_blake3 env) p del t x" "clear_plan p" "no_file_links p t"
    and "e \<in> set (new_entries p)" "pe_kind e = EntryFile" "pe_blake3 e = Some expected"
    and "file_matches env x (pe_path e) (pe_size e) expected"
  shows "placed (ae_blake3 env) x e"
proof -
  let ?q = "pe_path e"
  have "visible ?q" using assms(3,5) by (simp add: clear_plan_def)
  then have a: "allowed (ae_blake3 env) p del ?q (map_of t ?q) (map_of x ?q)" using assms(2) unfolding good_tree_def by metis
  have "map_of x ?q \<noteq> Some (TreeLink l)" for l
  proof
    assume "map_of x ?q = Some (TreeLink l)"
    then have "same_content (map_of t ?q) (Some (TreeLink l))"
      using a links_elsewhere [OF assms(3,5,6)] by (simp add: allowed_def)
    then show False using assms(4-6) by (auto simp: same_content_def no_file_links_def)
  qed
  then have "ae_follow env x ?q = ?q" using assms(1) by (simp add: follows_links_def)
  then show ?thesis
    using assms(6-8) by (auto simp: file_matches_def content_at_def placed_def split: option.splits tree_node.splits)
qed

lemma staging_noop:
  assumes "staging env p del t pre s" "no_file_links p t \<longrightarrow> placed (ae_blake3 env) (as_tree s) e" "e \<in> set (new_entries p)"
  shows "staging env p del t (pre @ [e]) s"
proof -
  obtain st D where h: "holding_dir env p del t st (set st) D s" "distinct st" "set st \<subseteq> set pre"
    "no_file_links p t \<longrightarrow> {e \<in> set pre. pe_kind e = EntryFile} \<subseteq> set st \<union> D" using assms(1) by (auto simp: staging_def)
  let ?D = "if no_file_links p t then insert e D else D"
  have "holding_dir env p del t st (set st) ?D s" using h(1) assms(2,3) by (auto simp: holding_dir_def)
  then show ?thesis
    unfolding staging_def using h(2-4) by (intro exI [of _ st] exI [of _ ?D]) auto
qed

lemma staging_keep:
  assumes "holding_dir env p del t st (set st) D s" "distinct st" "set st \<subseteq> set pre" "e \<notin> set pre" "e \<in> set (new_entries p)"
    and "no_file_links p t \<longrightarrow> {e \<in> set pre. pe_kind e = EntryFile} \<subseteq> set st \<union> D" "staged_ok (ae_blake3 env) (as_tree s) e"
  shows "staging env p del t (pre @ [e]) (s\<lparr>as_staged := as_staged s @ [e]\<rparr>)"
  unfolding staging_def
  using assms by (intro exI [of _ "st @ [e]"] exI [of _ D]) (auto simp: holding_dir_def)

text \<open>A state in which the next entry is about to be staged; \<open>staged\<close> is how it ends.\<close>

lemma steps_list_staged:
  assumes "distinct st" "set st \<subseteq> set pre" "e \<notin> set pre" "e \<in> set (new_entries p)"
    and "no_file_links p t \<longrightarrow> {e \<in> set pre. pe_kind e = EntryFile} \<subseteq> set st \<union> D"
  shows "dir_steps env p del t (\<lambda>s. holding_dir env p del t st (set st) D s \<and> staged_ok (ae_blake3 env) (as_tree s) e)
    (list_staged e) (staging env p del t (pre @ [e]))"
  unfolding list_staged_def by (rule steps_note) (use staging_keep [OF _ assms] in auto)

lemma content_staged:
  assumes "follows_links env" "good_tree (ae_blake3 env) p del t x" "pe_kind e = EntryFile" "pe_blake3 e = Some (ae_blake3 env bs)"
    and "content_at env x (staged_at (pe_id e)) = Some bs"
  shows "staged_ok (ae_blake3 env) x e"
  using content_private [OF assms(1,2) private_paths(1) assms(5)] assms(3,4) by (auto simp: staged_ok_def)

lemma steps_check_staged:
  assumes follows: "follows_links env" and clear: "clear_plan p" and kind: "pe_kind e = EntryFile" "pe_blake3 e = Some expected"
    and D: "D \<subseteq> set (new_entries p)"
    and listed: "dir_steps env p del t (\<lambda>s. holding_dir env p del t st es D s \<and> staged_ok (ae_blake3 env) (as_tree s) e)
      (list_staged e) J"
  shows "dir_steps env p del t (holding_dir env p del t st es D) (check_staged env e expected) J"
  unfolding check_staged_def
proof (rule steps_looking)
  let ?H = "holding_dir env p del t st es D"
  fix s assume s: "?H s"
  show "dir_steps env p del t (\<lambda>s'. s' = s)
    (case content_at env (as_tree s) (staged_at (pe_id e)) of
       None \<Rightarrow> stop (PlanIo ''open'')
     | Some bs \<Rightarrow>
         if ae_blake3 env bs \<noteq> expected then seq (attempt (journal_state env ''failed'')) (stop (PlanApplyHashMismatch (pe_path e)))
         else list_staged e) J"
  proof (cases "content_at env (as_tree s) (staged_at (pe_id e))")
    case None
    then show ?thesis using holding_good [OF s] by (auto intro: steps_stop)
  next
    case (Some bs)
    have bad: "dir_steps env p del t (\<lambda>s'. s' = s)
        (seq (attempt (journal_state env ''failed'')) (stop (PlanApplyHashMismatch (pe_path e)))) J"
      by (rule steps_seq [OF steps_attempt [OF steps_pre [OF steps_journal_state [OF follows D clear]]] steps_stop]) (use s holding_good in auto)
    have "dir_steps env p del t (\<lambda>s'. s' = s) (list_staged e) J" if "ae_blake3 env bs = expected"
      by (rule steps_pre [OF listed]) (use s content_staged [OF follows holding_tree [OF s] kind(1) _ Some] kind(2) that in simp)
    then show ?thesis using bad Some by simp
  qed
qed

lemma steps_rebuild_entry:
  assumes create: "\<And>bs. dir_steps env p del t H (create_file env (staged_at (pe_id e)) bs) H"
    and check: "dir_steps env p del t H (check_staged env e expected) J"
    and H: "H = holding_dir env p del t st es D"
  shows "dir_steps env p del t H (rebuild_entry env p old e expected) J"
  unfolding rebuild_entry_def
proof (rule steps_looking)
  fix s assume s: "H s"
  let ?run = "entry_pieces (dir_source p (old_file env old (as_tree s))) (plan_blob p) (pe_id e) (plan_ops p)"
  have "dir_steps env p del t H (case snd ?run of Some err \<Rightarrow> stop err | None \<Rightarrow> check_staged env e expected) J"
    using check holding_good by (cases "snd ?run") (auto intro: steps_stop simp: H)
  from steps_seq [OF create this]
  have "dir_steps env p del t H (seq (count (fold count_piece (fst ?run)))
      (seq (create_file env (staged_at (pe_id e)) (concat (map fst (fst ?run))))
        (case snd ?run of Some err \<Rightarrow> stop err | None \<Rightarrow> check_staged env e expected))) J"
    by (rule steps_seq [rotated]) (simp add: H steps_count)
  then show "dir_steps env p del t (\<lambda>s'. s' = s)
      (case ?run of (pieces, failed) \<Rightarrow>
         seq (count (fold count_piece pieces))
         (seq (create_file env (staged_at (pe_id e)) (concat (map fst pieces)))
         (case failed of Some err \<Rightarrow> stop err | None \<Rightarrow> check_staged env e expected))) J"
    unfolding case_prod_unfold by (rule steps_pre) (use s in simp)
qed

lemma steps_stage_entry:
  assumes follows: "follows_links env" and clear: "clear_plan p"
    and e: "e \<in> set (new_entries p)" "e \<notin> set pre" "set pre \<subseteq> set (new_entries p)" "pe_kind e = EntryFile"
      "pe_blake3 e = Some expected"
  shows "dir_steps env p del t (staging env p del t pre) (stage_entry env p old e expected) (staging env p del t (pre @ [e]))"
  unfolding stage_entry_def
proof (rule steps_looking, intro steps_if)
  fix s assume s: "staging env p del t pre s"
  let ?path = "staged_at (pe_id e)" and ?b = "ae_blake3 env"
  obtain st D where h: "holding_dir env p del t st (set st) D s" "distinct st" "set st \<subseteq> set pre"
    "no_file_links p t \<longrightarrow> {e \<in> set pre. pe_kind e = EntryFile} \<subseteq> set st \<union> D" using s by (auto simp: staging_def)
  let ?H = "holding_dir env p del t st (set st) D"
  note listed = steps_list_staged [OF h(2,3) e(2,1) h(4)]
  show "dir_steps env p del t (\<lambda>s'. s' = s) (count (\<lambda>st. st\<lparr>files_noop := files_noop st + 1\<rparr>)) (staging env p del t (pre @ [e]))"
    if m: "file_matches env (as_tree s) (pe_path e) (pe_size e) expected"
  proof -
    have "no_file_links p t \<longrightarrow> placed ?b (as_tree s) e"
      using content_placed [OF follows holding_tree [OF h(1)] clear _ e(1,4,5) m] by blast
    then have "staging env p del t (pre @ [e]) s" by (rule staging_noop [OF s _ e(1)])
    then show ?thesis unfolding count_def by (intro steps_note) (auto simp: staging_def holding_dir_def)
  qed
  show "dir_steps env p del t (\<lambda>s'. s' = s) (list_staged e) (staging env p del t (pre @ [e]))"
    if "file_matches env (as_tree s) ?path (pe_size e) expected"
    by (rule steps_pre [OF listed])
      (use h(1) content_staged [OF follows holding_tree [OF h(1)] e(4)] e(5) that in \<open>auto simp: file_matches_def split: option.splits\<close>)
  have apart: "staged_at (pe_id e') \<noteq> ?path" if "e' \<in> set st" for e'
  proof -
    have "e' \<in> set (new_entries p)" "e' \<noteq> e" using that h(3) e(2,3) by auto
    then show ?thesis using clear_ids [OF clear _ e(1)] staged_at_inj by blast
  qed
  have D: "pe_path e' \<noteq> ?path" if "e' \<in> D" for e'
  proof -
    have "visible (pe_path e')" using that h(1) clear by (auto simp: holding_dir_def clear_plan_def)
    then show ?thesis using private_paths(1) by metis
  qed
  have sub: "D \<subseteq> set (new_entries p)" using h(1) by (simp add: holding_dir_def)
  have create: "dir_steps env p del t ?H (create_file env ?path bs) ?H" for bs
    by (rule steps_post [OF steps_create_private [OF follows private_paths(1) apart D]]) auto
  note rebuild = steps_rebuild_entry [OF create steps_check_staged [OF follows clear e(4,5) sub listed] refl]
  show "dir_steps env p del t (\<lambda>s'. s' = s) (seq (create_file env ?path []) (rebuild_entry env p old e expected))
      (staging env p del t (pre @ [e]))"
    by (rule steps_pre [OF steps_seq [OF create rebuild]]) (use h(1) in simp)
qed

lemma steps_stage_all:
  assumes "follows_links env" "clear_plan p"
  shows "dir_steps env p del t (staging env p del t []) (stage_all env p old) (staging env p del t (new_entries p))"
  unfolding stage_all_def
proof (rule steps_each_upto)
  fix pre e post assume split: "new_entries p = pre @ e # post"
  then have "distinct (pre @ e # post)" using assms(2) by (metis clear_plan_def distinct_map)
  then have e: "e \<in> set (new_entries p)" "e \<notin> set pre" "set pre \<subseteq> set (new_entries p)" using split by auto
  have skip: "dir_steps env p del t (staging env p del t pre) pass (staging env p del t (pre @ [e]))" if "pe_kind e \<noteq> EntryFile"
    by (rule steps_pass) (use that in \<open>auto simp: staging_def\<close>)
  have total: "dir_steps env p del t (staging env p del t pre) (count f) (staging env p del t pre)" for f
    unfolding count_def by (rule steps_note) (auto simp: staging_def holding_dir_def)
  have "dir_steps env p del t (staging env p del t pre)
      (case pe_blake3 e of None \<Rightarrow> stop (PlanPanicked ''validated: files carry a hash'')
         | Some expected \<Rightarrow> stage_entry env p old e expected) (staging env p del t (pre @ [e]))" if "pe_kind e = EntryFile"
    using steps_stage_entry [OF assms e that]
    by (cases "pe_blake3 e") (auto intro!: steps_stop simp: staging_def dest: holding_good)
  from steps_seq [OF total this] skip
  show "dir_steps env p del t (staging env p del t pre)
      (if pe_kind e \<noteq> EntryFile then pass
       else seq (count (\<lambda>st. st\<lparr>files_total := files_total st + 1\<rparr>))
         (case pe_blake3 e of None \<Rightarrow> stop (PlanPanicked ''validated: files carry a hash'')
          | Some expected \<Rightarrow> stage_entry env p old e expected)) (staging env p del t (pre @ [e]))"
    by simp
qed

section \<open>Commit\<close>

lemma steps_commits:
  assumes "clear_plan p" "distinct st" "set st \<union> D \<subseteq> set (new_entries p)"
  shows "dir_steps env p del t (holding_dir env p del t st (set st) D) (looking (\<lambda>s. each (commit_entry env) (as_staged s)))
    (holding_dir env p del t st {} (D \<union> set st))"
proof (rule steps_looking)
  fix s assume s: "holding_dir env p del t st (set st) D s"
  have listed: "as_staged s = st" using s by (simp add: holding_dir_def)
  let ?I = "\<lambda>pre. holding_dir env p del t st (set st - set pre) (D \<union> set pre)"
  have "dir_steps env p del t (?I []) (each (commit_entry env) st) (?I st)"
  proof (rule steps_each_upto)
    fix pre e post assume split: "st = pre @ e # post"
    then have e: "insert e (set st - set (pre @ [e])) = set st - set pre" "insert e (D \<union> set pre) = D \<union> set (pre @ [e])"
      using assms(2) by auto
    have "dir_steps env p del t (holding_dir env p del t st (insert e (set st - set (pre @ [e]))) (D \<union> set pre)) (commit_entry env e)
        (holding_dir env p del t st (set st - set (pre @ [e])) (insert e (D \<union> set pre)))"
      by (rule steps_commit_entry [OF assms(1)]) (use assms(3) split in auto)
    then show "dir_steps env p del t (?I pre) (commit_entry env e) (?I (pre @ [e]))" by (simp only: e)
  qed
  then show "dir_steps env p del t (\<lambda>s'. s' = s) (each (commit_entry env) (as_staged s)) (holding_dir env p del t st {} (D \<union> set st))"
    unfolding listed by (rule steps_pre [OF steps_post]) (use s in simp_all)
qed

lemma steps_commit_all:
  assumes follows: "follows_links env" and clear: "clear_plan p" and st: "distinct st"
    and sub: "set st \<union> D \<subseteq> {e \<in> set (new_entries p). pe_kind e = EntryFile}"
  shows "dir_steps env p del t (holding_dir env p del t st (set st) D) (commit_all env p del) (holding_dir env p del t st {} (D \<union> set st))"
proof -
  let ?D = "D \<union> set st"
  have in_plan: "set st \<union> D \<subseteq> set (new_entries p)" "D \<subseteq> set (new_entries p)" "?D \<subseteq> set (new_entries p)" using sub by auto
  have noted: "dir_steps env p del t (holding_dir env p del t st (set st) D)
      (note_state (\<lambda>s. s\<lparr>as_journal := (as_journal s)\<lparr>aj_staged := map pe_path (as_staged s)\<rparr>\<rparr>))
      (holding_dir env p del t st (set st) D)"
    by (rule steps_note) (simp add: holding_dir_def)
  note first_save = steps_journal_state [OF follows in_plan(2) clear] and later_save = steps_journal_state [OF follows in_plan(3) clear]
  have dirs: "dir_steps env p del t (holding_dir env p del t st (set st) D) (each (make_entry_dir env) (new_entries p))
      (holding_dir env p del t st (set st) D)"
    by (rule steps_each [OF steps_entry_dir])
  let ?J = "holding_dir env p del t st {} ?D"
  have marks: "dir_steps env p del t ?J (each (mark_executable env) (new_entries p)) ?J"
    unfolding mark_executable_def by (intro steps_each steps_if steps_set_executable steps_pass)
  have links: "dir_steps env p del t ?J (each (link_entry env) (new_entries p)) ?J"
    by (rule steps_each [OF steps_link_entry [OF clear refl]]) (use sub in auto)
  have gone: "dir_steps env p del t ?J (if del then each (remove_managed env) (plan_deleted p) else pass) ?J"
    by (intro steps_if steps_pass steps_each steps_remove_managed [OF clear refl in_plan(3)])
  have away: "visible (pe_path e)" if "e \<in> ?D" for e using that in_plan(3) clear by (auto simp: clear_plan_def)
  have swept: "dir_steps env p del t ?J clear_staging ?J"
    unfolding clear_staging_def
  proof (rule steps_looking)
    fix s assume s: "?J s"
    let ?qs = "rev (filter (below staging_dir) (map fst (as_tree s))) @ [staging_dir]"
    have "dir_steps env p del t ?J (each (\<lambda>q. set_tree (AList.delete q)) ?qs) ?J"
    proof (rule steps_each)
      fix q assume "q \<in> set ?qs"
      then have hidden: "\<not> visible q" by (auto simp: visible_def)
      have "pe_path e \<noteq> q" if "e \<in> ?D" for e using away [OF that] hidden by metis
      then show "dir_steps env p del t ?J (set_tree (AList.delete q)) ?J"
        by (intro steps_post [OF steps_set [where st = st and es = "{}" and D = ?D and J = "\<lambda>_. True"]])
          (use hidden in \<open>auto intro!: keeps_other good_delete dest: holding_tree\<close>)
    qed
    then show "dir_steps env p del t (\<lambda>s'. s' = s) (each (\<lambda>q. set_tree (AList.delete q)) ?qs) ?J"
      by (rule steps_pre) (use s in simp)
  qed
  have last: "dir_steps env p del t ?J (set_tree (AList.delete apply_journal_file)) ?J"
  proof (rule steps_post [OF steps_set [where st = st and es = "{}" and D = ?D and J = "\<lambda>_. True"]])
    fix s assume s: "?J s"
    have "pe_path e \<noteq> apply_journal_file" if "e \<in> ?D" for e using away [OF that] private_paths(2) by metis
    then show "keeps_files (ae_blake3 env) {} ?D (as_tree s) (AList.delete apply_journal_file (as_tree s))"
      by (intro keeps_other) auto
    show "good_tree (ae_blake3 env) p del t (AList.delete apply_journal_file (as_tree s))"
      by (rule good_delete [OF holding_tree [OF s]]) (use private_paths(2) in simp)
  qed auto
  show ?thesis
    unfolding commit_all_def
    by (intro steps_seq [OF noted] steps_seq [OF first_save] steps_seq [OF dirs] steps_seq [OF steps_commits [OF clear st in_plan(1)]]
        steps_seq [OF marks] steps_seq [OF links] steps_seq [OF gone] steps_seq [OF later_save] steps_seq [OF swept] last)
qed

end
