(* ===== verification/Plans.thy ===== *)
theory Plans
  imports Plan_Apply Delta Plan_Dir_Laws
begin

text \<open>
  What offline plans promise: the properties of the crate \<^verbatim>\<open>cavs-plan\<close>, each with an instance.
\<close>

section \<open>What the compressor promises\<close>

text \<open>
  The documented contract of \<^verbatim>\<open>zstd::bulk\<close>: what it compressed, it decompresses, given the length.
\<close>

definition zstd_ok :: "(int \<Rightarrow> bytes \<Rightarrow> bytes) \<Rightarrow> (bytes \<Rightarrow> nat \<Rightarrow> bytes option) \<Rightarrow> bool" where
  "zstd_ok zenc zdec \<longleftrightarrow> (\<forall>level raw. length raw \<le> 2 ^ 34 \<longrightarrow>
     length (zenc level raw) < 2 ^ 64 \<and> zdec (zenc level raw) (length raw) = Some raw)"

definition stored_raw :: "bytes \<Rightarrow> nat \<Rightarrow> bytes option" where
  "stored_raw bs n = (if length bs \<le> n then Some bs else None)"

lemma zstd_raw: "zstd_ok (\<lambda>_ bs. bs) stored_raw"
  by (simp add: zstd_ok_def stored_raw_def)

lemma decode_encode:
  assumes "hash_ok blake3" "zstd_ok zenc zdec" "wf_plan p"
  shows "plan_decode blake3 zdec (plan_encode blake3 zenc level p) = Inr p"
  unfolding plan_encode_file
  by (rule plan_decode_file [OF assms(1,3)]) (use assms(2,3) in \<open>auto simp: stores_def zstd_ok_def wf_plan_def\<close>)

section \<open>Samples\<close>

text \<open>A digest that tells short strings apart.\<close>

definition pad_hash :: hash_fun where
  "pad_hash x = take 32 (x @ replicate 32 0)"

lemma hash_ok_pad: "hash_ok pad_hash"
  by (auto simp: hash_ok_def pad_hash_def min_def)

definition sample_pieces :: "bytes list" where
  "sample_pieces = [[1, 2], [3]]"

definition sample_file_signature :: cavs_signature where
  "sample_file_signature = described_signature pad_hash SingleArtifact (clamp_block_size 0) (ascii ''fixed'') [111]
     [file_item [111] [1, 2, 3]]"

lemma sample_signed: "sign_file pad_hash sample_pieces 0 [111] = Some (Inr sample_file_signature)"
  by (simp add: sign_file_described sample_file_signature_def sample_pieces_def)

lemma sample_file_blocks: "cs_blocks sample_file_signature = [one_block pad_hash 0 0 [1, 2, 3]]"
  by (simp add: sample_file_signature_def described_signature_def item_blocks_def file_item_def min_block_1024
      content_blocks_short)

lemma sample_file_content: "content_of [file_item [111] [1, 2, 3]] 0 = [1, 2, 3]"
  by (simp add: content_of_def file_item_def)

lemma sample_no_collision: "no_collision pad_hash sample_file_signature (content_of [file_item [111] [1, 2, 3]]) [1, 2, 3]"
proof -
  have n: "unat (cs_block_size sample_file_signature) = 1024"
    by (simp add: sample_file_signature_def described_signature_def min_block_1024)
  have b: "block_bytes (content_of [file_item [111] [1, 2, 3]]) (one_block pad_hash 0 0 [1, 2, 3]) = [1, 2, 3]"
    by (simp add: block_bytes_def one_block_def sample_file_content)
  have "drop pos [1, 2, 3 :: byte] \<in> {[1, 2, 3], [2, 3], [3], []}" for pos
    by (cases pos; cases "pos - 1"; cases "pos - 2") (auto simp: numeral_2_eq_2)
  then have "pad_hash (take 1024 (drop pos [1, 2, 3])) = pad_hash [1, 2, 3] \<longrightarrow> take 1024 (drop pos [1, 2, 3]) = [1, 2, 3 :: byte]" for pos
    by (rule insertE [of "drop pos [1, 2, 3]" "[1, 2, 3]" "{[2, 3], [3], []}"]) (auto simp: pad_hash_def numeral_eq_Suc)
  then show ?thesis by (simp add: no_collision_def sample_file_blocks n b)
qed

section \<open>The plan file\<close>

text \<open>
  C33.  The decoder of plan files is exact (for a hash of 32 bytes): it accepts precisely the files of
  well-formed plans (within the caps, with valid strings, and passing structural validation), with
  a payload stored in a form that the decompressor turns back, and gives that plan; so a decoded
  plan is always valid, and nothing that fails the trailer is read.
\<close>

theorem plan_file_exact:
  assumes "hash_ok blake3"
  shows "plan_decode blake3 zdec bs = Inr p \<longleftrightarrow>
    wf_plan p \<and> (\<exists>stored. stores zdec stored (plan_blob p) \<and> bs = plan_file blake3 p stored)"
  using plan_decode_file [OF assms] plan_decode_sound by blast

definition tiny_plan :: offline_plan where
  "tiny_plan = \<lparr>op_kind = PortablePlan, op_mode = ArtifactPlan, op_block_size = 1024, old_label = [], old_size = 0,
     old_blake3 = None, new_label = [], new_size = 1, old_entries = [],
     new_entries = [\<lparr>pe_id = 0, pe_path = [], pe_kind = EntryFile, pe_size = 1, pe_executable = False, pe_target = None,
       pe_blake3 = Some (pad_hash [7])\<rparr>],
     plan_deleted = [], plan_ops = [Inline 0 0 1 0], plan_blob = [7]\<rparr>"

lemma u64_max_num: "u64_max = 18446744073709551615"
  by (simp add: u64_max_def)

lemma tiny_plan_wf: "wf_plan tiny_plan"
proof -
  have "length (pad_hash [7]) = 32" using hash_ok_pad by (simp add: hash_ok_def)
  moreover have "plan_validate tiny_plan = Inr ()"
    by (simp add: plan_validate_iff tiny_plan_def u64_max_num entry_ok_def source_ok_def)
  ultimately show ?thesis
    unfolding wf_plan_def by (simp add: tiny_plan_def valid_plan_entry_def valid_hash_opt_def)
qed

lemma plan_file_exact_witness:
  "plan_decode pad_hash stored_raw (plan_file pad_hash tiny_plan [7]) = Inr tiny_plan"
proof -
  have "plan_blob tiny_plan = [7]" by (simp add: tiny_plan_def)
  then have "stores stored_raw [7] (plan_blob tiny_plan)" by (simp add: stores_def stored_raw_def)
  then show ?thesis using plan_file_exact [OF hash_ok_pad] tiny_plan_wf by blast
qed

section \<open>Validation\<close>

text \<open>
  An accepted plan rebuilds every file from its start to its end: the operations of a file are
  in order, without gap or overlap, and reach exactly its size, where no operation is so long that
  the unchecked 64-bit cursor of the check wraps.
\<close>

theorem accepted_plan_tiles:
  assumes "plan_decode blake3 zdec bs = Inr p" "e \<in> set (new_entries p)" "pe_kind e = EntryFile"
    and "\<forall>op \<in> set (own_ops (pe_id e) (plan_ops p)). unat (pe_size e) + unat (to_len op) < 2 ^ 64"
  shows "op_end 0 (own_ops (pe_id e) (plan_ops p)) = Some (unat (pe_size e))
    \<and> (\<forall>op \<in> set (own_ops (pe_id e) (plan_ops p)). source_ok p op)"
proof -
  obtain stored where "wf_plan p" using plan_decode_sound [OF assms(1)] .
  then have "plan_validate p = Inr ()" by (simp add: wf_plan_def)
  then have "word_end (pe_size e) 0 (own_ops (pe_id e) (plan_ops p)) = Some (pe_size e)"
    "\<forall>op \<in> set (plan_ops p). source_ok p op"
    using assms(2,3) unfolding plan_validate_iff by auto
  then show ?thesis
    using word_end_nat [OF _ assms(4), of 0 "pe_size e"] by (auto simp: own_ops_def)
qed

lemma accepted_plan_tiles_witness: "op_end 0 (own_ops 0 (plan_ops tiny_plan)) = Some 1"
proof -
  let ?e = "hd (new_entries tiny_plan)"
  have "?e \<in> set (new_entries tiny_plan)" "pe_kind ?e = EntryFile" "pe_id ?e = 0" "pe_size ?e = 1"
    by (simp_all add: tiny_plan_def)
  moreover have "\<forall>op \<in> set (own_ops (pe_id ?e) (plan_ops tiny_plan)). unat (pe_size ?e) + unat (to_len op) < 2 ^ 64"
    by (simp add: tiny_plan_def)
  ultimately show ?thesis
    using accepted_plan_tiles [OF plan_file_exact_witness, of ?e] by simp
qed

text \<open>Where it does wrap, the check passes operations that overlap: five bytes, back four, and on.\<close>

definition wrapping_plan :: offline_plan where
  "wrapping_plan = tiny_plan\<lparr>old_entries := [\<lparr>oe_id = 0, oe_path = [], oe_size = 0\<rparr>],
     new_entries := [\<lparr>pe_id = 0, pe_path = [], pe_kind = EntryFile, pe_size = 10, pe_executable = False,
       pe_target = None, pe_blake3 = Some []\<rparr>],
     plan_ops := [CopyOld 0 0 0 0 5, CopyOld 0 0 0 5 (- 1), CopyOld 0 0 0 4 6]\<rparr>"

lemma wrapping_plan_accepted:
  "plan_validate wrapping_plan = Inr () \<and> op_end 0 (own_ops 0 (plan_ops wrapping_plan)) = None"
  by (simp add: plan_validate_def wrapping_plan_def tiny_plan_def check_op_def)

section \<open>Updating an artifact\<close>

definition first_file :: "offline_plan \<Rightarrow> plan_entry option" where
  "first_file p = find (\<lambda>e. pe_kind e = EntryFile) (new_entries p)"

text \<open>
  Applying never shows a wrong output: whatever the plan and the old file, at every moment of the
  run, also if it stops there, the output is the one from before or has the hash the plan gives for
  it, and it has changed only if the run succeeds.
\<close>

theorem apply_never_commits_wrong:
  assumes "apply_artifact blake3 p old d = (r, d', tr)" "x \<in> set (d' # tr)"
  shows "(af_out x = af_out d \<or> (\<exists>e c. first_file p = Some e \<and> af_out x = Some c \<and> pe_blake3 e = Some (blake3 c)))
    \<and> (\<not> is_ok r \<longrightarrow> af_out x = af_out d)"
  using assms unfolding apply_artifact_def first_file_def
  by (auto simp: Let_def rbind_eq_Inr ok_or_eq_Inr split: sum.splits prod.splits option.splits if_splits)

lemma apply_never_commits_wrong_witness:
  "\<exists>tr. apply_artifact (\<lambda>x. x) (tiny_plan\<lparr>plan_blob := [8]\<rparr>) (Some []) \<lparr>af_part = None, af_out = Some [5]\<rparr>
    = (Inl (PlanApplyHashMismatch []), \<lparr>af_part = None, af_out = Some [5]\<rparr>, tr)
    \<and> (\<forall>x \<in> set tr. af_out x = Some [5])"
proof -
  let ?d = "\<lparr>af_part = None, af_out = Some [5]\<rparr>"
  obtain tr where run: "apply_artifact (\<lambda>x. x) (tiny_plan\<lparr>plan_blob := [8]\<rparr>) (Some []) ?d
      = (Inl (PlanApplyHashMismatch []), \<lparr>af_part = None, af_out = Some [5]\<rparr>, tr)"
    by (simp add: apply_artifact_def tiny_plan_def ensure_portable_def check_old_size_def pad_hash_def numeral_eq_Suc Let_def)
  have "\<forall>x \<in> set tr. af_out x = Some [5]"
    using apply_never_commits_wrong [OF run] by simp
  with run show ?thesis by blast
qed

text \<open>
  C3.  An artifact update end to end: sign the old file (of less than 2^64 bytes), build the portable
  plan of the new file (at most 2^34 bytes) against the signature, write the plan and read it back,
  and apply it to the old file.  Building returns a plan; if it has at most 2^28 operations, the plan
  read back is the plan built; and applying succeeds, leaves exactly the new file and no
  \<^verbatim>\<open>.part\<close>, and counts its bytes; unless the hash collides on a window of the new file and a
  block of the old.  The two names must be UTF-8 of at most 65536 bytes, the hash 32 bytes long, and
  the decompressor must undo the compressor.
\<close>

theorem artifact_update_rebuilds:
  assumes "hash_ok blake3" "zstd_ok zenc zdec" "valid_str old_name" "valid_str new_name"
    and "sign_file blake3 pieces bsize old_name = Some (Inr s)" "length (concat pieces) < 2 ^ 64" "length new \<le> 2 ^ 34"
    and "no_collision blake3 s (content_of [file_item old_name (concat pieces)]) new"
  shows "\<exists>p stats tr. plan_build blake3 s (NewFile new_name new) PortablePlan = Some (Inr p)
    \<and> (length (plan_ops p) \<le> 2 ^ 28 \<longrightarrow> plan_decode blake3 zdec (plan_encode blake3 zenc level p) = Inr p)
    \<and> apply_artifact blake3 p (Some (concat pieces)) d = (Inr stats, \<lparr>af_part = None, af_out = Some new\<rparr>, tr)
    \<and> bytes_written stats = of_nat (length new)"
proof -
  let ?item = "file_item old_name (concat pieces)" and ?old = "content_of [file_item old_name (concat pieces)]"
  let ?start = "start_plan s PortablePlan ArtifactPlan new_name"
  have s: "s = described_signature blake3 SingleArtifact (clamp_block_size bsize) (ascii ''fixed'') old_name [?item]"
    using assms(5) by (simp add: sign_file_described)
  have items: "good_items [?item]" "\<forall>x \<in> set [?item]. length (snd x) < 2 ^ 64"
    using assms(6) by (simp_all add: good_items_def file_item_def)
  note sig = described_buildable [OF items clamp_ok s]
  have kind: "cs_kind s = SingleArtifact" "source_blake3 s = Some (blake3 (concat pieces))"
    "cs_source_size s = of_nat (length (concat pieces))" "source_label s = old_name"
    by (simp_all add: s described_signature_def file_item_def)
  have "length new < 2 ^ 63" using assms(7) by simp
  from built_file_plan [OF sig kind(1), where good = True] assms(8) this
  obtain p where p: "plan_build blake3 s (NewFile new_name new) PortablePlan = Some (Inr p)" "plan_validate p = Inr ()"
      "same_frame ?start p" "new_entries p = [planned_file blake3 0 new_name False new]"
      "built_upto blake3 (file_ids s) True ?old p [new]"
    by blast
  have frame: "op_kind p = PortablePlan" "op_mode p = ArtifactPlan" "old_entries p = old_entries ?start" "plan_deleted p = []"
    "old_label p = old_name" "old_size p = of_nat (length (concat pieces))" "old_blake3 p = Some (blake3 (concat pieces))"
    "new_label p = new_name"
    using p(3) kind by (simp_all add: same_frame_def) (simp_all add: start_plan_def)
  have olds: "old_entries p = [\<lparr>oe_id = 0, oe_path = old_name, oe_size = of_nat (length (concat pieces))\<rparr>]"
    by (simp add: frame start_plan_def s described_signature_def file_item_def)
  have wf: "wf_plan p" if "length (plan_ops p) \<le> 2 ^ 28"
  proof -
    have "length (plan_blob p) \<le> 2 ^ 34" using p(5) assms(7) by (simp add: built_upto_def)
    moreover have "valid_plan_entry (planned_file blake3 0 new_name False new)"
      using assms(1,4) by (simp add: valid_plan_entry_def planned_file_def valid_hash_opt_def hash_ok_def)
    ultimately show ?thesis
      using that p(2) assms(1,3,4) by (simp add: wf_plan_def frame(4-) olds p(4) valid_hash_opt_def hash_ok_def)
  qed
  let ?pieces = "entry_pieces (single_source (concat pieces)) (plan_blob p) 0 (plan_ops p)"
  have old0: "?old 0 = concat pieces" using content_of_item [of "[?item]" ?item] by (simp add: file_item_def)
  have es: "cs_entries s = [fst ?item]" by (simp add: s described_signature_def)
  have the: "entry_kind (fst ?item) = EntryFile" "entry_id (fst ?item) = 0" by (simp_all add: file_item_def)
  have "{e \<in> set [fst ?item]. entry_kind e = EntryFile} = {fst ?item}" using the(1) by (simp only: list.set) blast
  then have ids: "file_ids s = {0}" unfolding file_ids_def es by (simp only: image_insert image_empty the(2))
  have "snd ?pieces = None \<and> concat (map fst (fst ?pieces)) = concat (map (yields_bytes ?old (plan_blob p)) (own_ops 0 (plan_ops p)))"
  proof (rule entry_pieces_bytes)
    show "\<forall>op \<in> set (own_ops 0 (plan_ops p)). well_sourced {0} ?old True (length (plan_blob p)) op"
      using p(5) by (auto simp: built_upto_def own_ops_def frame(1) ids)
    show "\<forall>e. length (?old e) < 2 ^ 64" using sig(1) by (simp add: buildable_def)
    show "single_source (concat pieces) e = read_exact_at (?old e)" if "e \<in> {0}" for e
      using that old0 by (auto simp: single_source_def fun_eq_iff)
  qed
  moreover have "concat (map (yields_bytes ?old (plan_blob p)) (own_ops 0 (plan_ops p))) = new"
    using p(5) by (simp add: built_upto_def entry_built_def entry_output_def frame(1) Let_def)
  ultimately have written: "snd ?pieces = None" "concat (map fst (fst ?pieces)) = new" by simp_all
  have first: "find (\<lambda>e. pe_kind e = EntryFile) (new_entries p) = Some (planned_file blake3 0 new_name False new)"
    by (simp add: p(4) planned_file_def)
  have sz: "length (concat pieces) = unat (old_size p)" using assms(6) by (simp add: frame(6) unat_of_nat_u64)
  have "\<exists>stats tr. apply_artifact blake3 p (Some (concat pieces)) d = (Inr stats, \<lparr>af_part = None, af_out = Some new\<rparr>, tr)
      \<and> bytes_written stats = of_nat (length new)"
    using written sz pieces_counted [of "fst ?pieces" "no_stats\<lparr>files_total := 1\<rparr>"]
    by (simp add: apply_artifact_def frame(1,2) ensure_portable_def first check_old_size_def split_beta planned_file_def
        no_stats_def Let_def)
  then show ?thesis using p(1) decode_encode [OF assms(1,2) wf] by blast
qed

lemma artifact_update_rebuilds_witness:
  "\<exists>p stats tr. plan_build pad_hash sample_file_signature (NewFile [110] [1, 2, 3]) PortablePlan = Some (Inr p)
    \<and> apply_artifact pad_hash p (Some [1, 2, 3]) \<lparr>af_part = None, af_out = None\<rparr>
        = (Inr stats, \<lparr>af_part = None, af_out = Some [1, 2, 3]\<rparr>, tr)"
proof -
  have names: "valid_str [111]" "valid_str [110]" by (simp_all add: valid_ascii)
  have c: "concat sample_pieces = [1, 2, 3]" by (simp add: sample_pieces_def)
  show ?thesis
    using artifact_update_rebuilds [OF hash_ok_pad zstd_raw names sample_signed, of "[1, 2, 3]" 0 "\<lparr>af_part = None, af_out = None\<rparr>"]
      sample_no_collision by (auto simp: c)
qed

section \<open>Directory plans\<close>

text \<open>
  What applying a directory plan promises, and what building one does: properties of the crate
  \<^verbatim>\<open>cavs-plan\<close>, each with an instance.
\<close>

section \<open>Runs\<close>







section \<open>Applying to a directory\<close>







section \<open>Building against a tree\<close>

lemma tree_entry_paths: "map (\<lambda>x. entry_path (fst x)) (tree_entries n tree) = map (\<lambda>x. unix_path (fst x)) tree"
proof (induction tree arbitrary: n)
  case (Cons x tree)
  then show ?case by (cases x; cases "snd x") auto
qed simp

text \<open>
  C9.  A plan of a tree is complete: after signing the old tree, building a portable plan of the new
  one returns a plan that passes validation; it has an entry for each item of the new tree, in
  order, with its path, kind, executable bit, link target, size and hash; its deletions are exactly
  the old paths that the new tree lacks; and the operations of each file, carried out on the old
  files, give exactly its content.  Every path of both trees must be safe, neither tree may have
  more than 2^24 items, each old file must be shorter than 2^64 bytes and the new files together
  shorter than 2^63, and the hash must not collide on a window of a new file and a block of the old
  tree.
\<close>

theorem tree_plan_complete:
  assumes "sign_dir blake3 old_tree bsize label = Some (Inr s)" "length old_tree \<le> 2 ^ 24"
    and "\<forall>x \<in> set (tree_entries 0 old_tree). length (snd x) < 2 ^ 64"
    and "\<forall>x \<in> set old_tree \<union> set tree. path_is_safe (unix_path (fst x))"
    and "\<forall>x \<in> set tree. no_collision blake3 s (content_of (tree_entries 0 old_tree)) (item_content x)"
    and "length tree \<le> 2 ^ 24" "length (concat (map item_content tree)) < 2 ^ 63"
  shows "\<exists>p. plan_build blake3 s (NewTree new_name tree) PortablePlan = Some (Inr p) \<and> plan_validate p = Inr ()
    \<and> new_entries p = planned_all blake3 0 tree
    \<and> plan_deleted p = filter (\<lambda>q. q \<notin> unix_path ` fst ` set tree) (map (\<lambda>x. unix_path (fst x)) old_tree)
    \<and> (\<forall>k < length tree. entry_output (content_of (tree_entries 0 old_tree)) p (of_nat k) = item_content (tree ! k))"
proof -
  let ?items = "tree_entries 0 old_tree"
  have s: "s = described_signature blake3 DirectoryContainer (clamp_block_size bsize) (ascii ''fixed'') label ?items"
    using assms(1) by (simp add: sign_dir_described)
  note sig = described_buildable [OF tree_good [OF assms(2)] assms(3) clamp_ok s]
  have kind: "cs_kind s = DirectoryContainer" by (simp add: s described_signature_def)
  have paths: "map entry_path (cs_entries s) = map (\<lambda>x. unix_path (fst x)) old_tree"
    using tree_entry_paths [of 0 old_tree] by (simp add: s described_signature_def comp_def)
  have same: "entry_path ` set (cs_entries s) = (\<lambda>x. unix_path (fst x)) ` set old_tree"
    using arg_cong [OF paths, of set] by simp
  have "\<forall>e \<in> set (cs_entries s). path_is_safe (entry_path e)"
  proof
    fix e assume "e \<in> set (cs_entries s)"
    then have "entry_path e \<in> (\<lambda>x. unix_path (fst x)) ` set old_tree" by (subst same [symmetric]) (rule imageI)
    then obtain x where "x \<in> set old_tree" "entry_path e = unix_path (fst x)" by (rule imageE)
    then show "path_is_safe (entry_path e)" using assms(4) by (simp only: Un_iff ball_Un)
  qed
  from built_tree_plan [OF sig kind, where good = True] assms(4-7) this
  obtain p where p: "plan_build blake3 s (NewTree new_name tree) PortablePlan = Some (Inr p)" "plan_validate p = Inr ()"
      "same_frame ((start_plan s PortablePlan DirectoryPlan new_name)\<lparr>plan_deleted := missing_paths s tree\<rparr>) p"
      "new_entries p = planned_all blake3 0 tree"
      "built_upto blake3 (file_ids s) True (content_of ?items) p (map item_content tree)"
    by blast
  have "op_kind p = PortablePlan" "plan_deleted p = missing_paths s tree"
    using p(3) by (simp_all add: same_frame_def start_plan_def)
  moreover have "entry_output (content_of ?items) p (of_nat k) = item_content (tree ! k)" if "k < length tree" for k
    using p(5) that calculation(1) by (simp add: built_upto_def entry_built_def Let_def)
  ultimately show ?thesis using p(1,2,4) by (simp add: missing_paths_def paths)
qed

lemma tree_plan_complete_witness:
  "\<exists>s p. sign_dir (\<lambda>x. x) [([98], SourceFile False [[1, 2]])] 0 [] = Some (Inr s)
    \<and> plan_build (\<lambda>x. x) s (NewTree [] [([97], SourceDir)]) PortablePlan = Some (Inr p)
    \<and> plan_deleted p = [[98]] \<and> length (new_entries p) = 1"
proof -
  let ?old = "[([98], SourceFile False [[1, 2]])]" and ?new = "[([97], SourceDir)]"
  obtain s where s: "sign_dir (\<lambda>x. x) ?old 0 [] = Some (Inr s)" by (simp add: sign_dir_described)
  have safe: "path_is_safe (unix_path [97])" "path_is_safe (unix_path [98])"
    by (simp_all add: path_is_safe_def unix_path_def)
  have "\<forall>x \<in> set ?new. no_collision (\<lambda>x. x) s (content_of (tree_entries 0 ?old)) (item_content x)"
    by (simp add: no_collision_def)
  then show ?thesis
    using tree_plan_complete [OF s, of ?new "[]"] s safe by (auto simp: unix_path_def)
qed

end
