(* ===== verification/Rebuild_Plan.thy ===== *)
theory Rebuild_Plan
  imports Seg_Format
begin

text \<open>
  Hybrid reconstruction plans: the crate \<^verbatim>\<open>core/cavs-rebuild-plan\<close>.  A plan rebuilds an artifact
  from ranges of the one installed before, chunks of the local cache and chunks of the network.
  Sizes are 64-bit words; the time the selection takes is left out.
\<close>

section \<open>Types\<close>

definition max_coalesced_range :: u64 where
  "max_coalesced_range = 8 * 1024 * 1024"

record plan_part =
  pp_len :: u32
  pp_blake3 :: string

datatype rebuild_op =
    CopyPreviousRange u64 u64 u64 "plan_part list"
  | CopyCacheChunk string u64 u32
  | FetchNetworkChunk string u64 u32

fun output_range :: "rebuild_op \<Rightarrow> u64 \<times> u64" where
  "output_range (CopyPreviousRange _ off len _) = (off, len)"
| "output_range (CopyCacheChunk _ off len) = (off, ucast len)"
| "output_range (FetchNetworkChunk _ off len) = (off, ucast len)"

record plan_stats =
  st_ops_total :: u64
  st_before_coalescing :: u64
  st_coalesced :: u64
  st_previous_ops :: u64
  st_cache_ops :: u64
  st_fetch_ops :: u64
  st_previous_bytes :: u64
  st_cache_bytes :: u64
  st_network_bytes :: u64

record reconstruction_plan =
  rp_asset :: string
  rp_output_name :: string
  rp_target_size :: u64
  rp_ops :: "rebuild_op list"
  rp_stats :: plan_stats

record needed_chunk =
  nc_hash :: string
  nc_len :: u32
  nc_offset :: u64

datatype availability = InCache | InPrevious u64 | InBoth u64 | Missing

section \<open>Planning\<close>

definition source_score :: "u64 \<Rightarrow> u64 \<Rightarrow> u32 \<Rightarrow> u32 \<Rightarrow> u64" where
  "source_score network disk seeks verify = network * 100 + disk + ucast seeks * 4096 + ucast verify * 512"

record planning =
  pl_ops :: "rebuild_op list"
  pl_stats :: plan_stats
  pl_target :: u64
  pl_source_end :: "u64 option"

definition count_chunk :: "needed_chunk \<Rightarrow> planning \<Rightarrow> planning" where
  "count_chunk c s =
     s\<lparr>pl_target := max (pl_target s) (nc_offset c + ucast (nc_len c)),
       pl_stats := (pl_stats s)\<lparr>st_before_coalescing := st_before_coalescing (pl_stats s) + 1\<rparr>\<rparr>"

definition fetch_chunk :: "needed_chunk \<Rightarrow> planning \<Rightarrow> planning" where
  "fetch_chunk c s =
     s\<lparr>pl_stats := (pl_stats s)\<lparr>st_fetch_ops := st_fetch_ops (pl_stats s) + 1,
         st_network_bytes := st_network_bytes (pl_stats s) + ucast (nc_len c)\<rparr>,
       pl_ops := pl_ops s @ [FetchNetworkChunk (nc_hash c) (nc_offset c) (nc_len c)],
       pl_source_end := None\<rparr>"

definition cache_chunk :: "needed_chunk \<Rightarrow> planning \<Rightarrow> planning" where
  "cache_chunk c s =
     s\<lparr>pl_stats := (pl_stats s)\<lparr>st_cache_ops := st_cache_ops (pl_stats s) + 1,
         st_cache_bytes := st_cache_bytes (pl_stats s) + ucast (nc_len c)\<rparr>,
       pl_ops := pl_ops s @ [CopyCacheChunk (nc_hash c) (nc_offset c) (nc_len c)],
       pl_source_end := None\<rparr>"

text \<open>
  A range of the previous artifact continues the last operation when both its source and its output
  do and the budget allows.
\<close>

definition push_previous :: "needed_chunk \<Rightarrow> u64 \<Rightarrow> rebuild_op list \<Rightarrow> rebuild_op list" where
  "push_previous c source ops =
     (let len = ucast (nc_len c); part = \<lparr>pp_len = nc_len c, pp_blake3 = nc_hash c\<rparr>;
          fresh = ops @ [CopyPreviousRange source (nc_offset c) len [part]]
      in if ops = [] then fresh
         else case last ops of
           CopyPreviousRange po pn pl parts \<Rightarrow>
             if po + pl = source \<and> pn + pl = nc_offset c \<and> pl + len \<le> max_coalesced_range
             then butlast ops @ [CopyPreviousRange po pn (pl + len) (parts @ [part])]
             else fresh
         | _ \<Rightarrow> fresh)"

definition previous_chunk :: "needed_chunk \<Rightarrow> u64 \<Rightarrow> planning \<Rightarrow> planning" where
  "previous_chunk c source s =
     s\<lparr>pl_stats := (pl_stats s)\<lparr>st_previous_ops := st_previous_ops (pl_stats s) + 1,
         st_previous_bytes := st_previous_bytes (pl_stats s) + ucast (nc_len c)\<rparr>,
       pl_source_end := Some (source + ucast (nc_len c)),
       pl_ops := push_previous c source (pl_ops s)\<rparr>"

definition prefer_previous :: "needed_chunk \<Rightarrow> u64 \<Rightarrow> u64 option \<Rightarrow> bool" where
  "prefer_previous c source source_end =
     (source_score 0 (ucast (nc_len c)) (if source_end = Some source then 0 else 1) 1
        \<le> source_score 0 (ucast (nc_len c)) 1 1)"

definition plan_chunk :: "(needed_chunk \<Rightarrow> availability) \<Rightarrow> needed_chunk \<Rightarrow> planning \<Rightarrow> planning" where
  "plan_chunk avail c s =
     (let s = count_chunk c s in
      case avail c of
        Missing \<Rightarrow> fetch_chunk c s
      | InCache \<Rightarrow> cache_chunk c s
      | InPrevious source \<Rightarrow> previous_chunk c source s
      | InBoth source \<Rightarrow>
          if prefer_previous c source (pl_source_end s) then previous_chunk c source s else cache_chunk c s)"

definition no_plan_stats :: plan_stats where
  "no_plan_stats = \<lparr>st_ops_total = 0, st_before_coalescing = 0, st_coalesced = 0, st_previous_ops = 0,
     st_cache_ops = 0, st_fetch_ops = 0, st_previous_bytes = 0, st_cache_bytes = 0, st_network_bytes = 0\<rparr>"

definition rebuild_plan :: "string \<Rightarrow> string \<Rightarrow> needed_chunk list \<Rightarrow> (needed_chunk \<Rightarrow> availability) \<Rightarrow> reconstruction_plan" where
  "rebuild_plan asset name chunks avail =
     (let s = fold (plan_chunk avail) chunks
            \<lparr>pl_ops = [], pl_stats = no_plan_stats, pl_target = 0, pl_source_end = None\<rparr>;
          n = of_nat (length (pl_ops s));
          stats = (pl_stats s)\<lparr>st_ops_total := n, st_coalesced := st_before_coalescing (pl_stats s) - n\<rparr>
      in \<lparr>rp_asset = asset, rp_output_name = name, rp_target_size = pl_target s, rp_ops = pl_ops s, rp_stats = stats\<rparr>)"

definition availability_from_sets :: "(string \<Rightarrow> bool) \<Rightarrow> (string \<Rightarrow> u64 option) \<Rightarrow> needed_chunk \<Rightarrow> availability" where
  "availability_from_sets cached previous c =
     (case (cached (nc_hash c), previous (nc_hash c)) of
        (True, Some off) \<Rightarrow> InBoth off
      | (False, Some off) \<Rightarrow> InPrevious off
      | (True, None) \<Rightarrow> InCache
      | (False, None) \<Rightarrow> Missing)"

section \<open>Validation\<close>

fun check_rebuild_ops :: "u64 \<Rightarrow> rebuild_op list \<Rightarrow> string + u64" where
  "check_rebuild_ops at [] = Inr at"
| "check_rebuild_ops at (op # ops) =
     (case output_range op of (off, len) \<Rightarrow>
        if off \<noteq> at
        then Inl (''plan gap/overlap at output offset '' @ decimal (unat at) @ '' (op starts at '' @ decimal (unat off) @ '')'')
        else
        let covered = (case op of CopyPreviousRange _ _ _ parts \<Rightarrow> sum_list (map (\<lambda>p. ucast (pp_len p)) parts) | _ \<Rightarrow> len)
        in if covered \<noteq> len
           then Inl (''coalesced range parts cover '' @ decimal (unat covered) @ '' of '' @ decimal (unat len) @ '' bytes'')
           else check_rebuild_ops (at + len) ops)"

definition rebuild_validate :: "reconstruction_plan \<Rightarrow> string + unit" where
  "rebuild_validate plan =
     rbind (check_rebuild_ops 0 (rp_ops plan)) (\<lambda>at.
     if at \<noteq> rp_target_size plan
     then Inl (''plan covers '' @ decimal (unat at) @ '' of '' @ decimal (unat (rp_target_size plan)) @ '' target bytes'')
     else Inr ())"

section \<open>Carrying out a plan\<close>

text \<open>
  Carrying out a reconstruction plan.  The executor is in another crate (\<^verbatim>\<open>cavs-client\<close>); here
  an operation stands for the bytes it names, and a range of the previous artifact is verified part
  by part.
\<close>

section \<open>What operations stand for\<close>

text \<open>The sources: the previous artifact, the cache, the network.\<close>

record rebuild_sources =
  src_previous :: bytes
  src_cache :: "string \<Rightarrow> bytes"
  src_network :: "string \<Rightarrow> bytes"

definition source_range :: "nat \<Rightarrow> nat \<Rightarrow> bytes \<Rightarrow> bytes" where
  "source_range off n bs = take n (drop off bs)"

lemma range_join: "source_range off m bs @ source_range (off + m) n bs = source_range off (m + n) bs"
  by (simp add: source_range_def take_add add.commute)

fun op_bytes :: "rebuild_sources \<Rightarrow> rebuild_op \<Rightarrow> bytes" where
  "op_bytes src (CopyPreviousRange off _ len _) = source_range (unat off) (unat len) (src_previous src)"
| "op_bytes src (CopyCacheChunk hash _ _) = src_cache src hash"
| "op_bytes src (FetchNetworkChunk hash _ _) = src_network src hash"

fun parts_verify :: "(bytes \<Rightarrow> string) \<Rightarrow> bytes \<Rightarrow> nat \<Rightarrow> plan_part list \<Rightarrow> bool" where
  "parts_verify digest prev off [] = True"
| "parts_verify digest prev off (p # ps) \<longleftrightarrow>
     digest (source_range off (unat (pp_len p)) prev) = pp_blake3 p \<and> parts_verify digest prev (off + unat (pp_len p)) ps"

definition parts_length :: "plan_part list \<Rightarrow> nat" where
  "parts_length ps = sum_list (map (\<lambda>p. unat (pp_len p)) ps)"

lemma parts_verify_snoc:
  "parts_verify digest prev off (ps @ [p]) \<longleftrightarrow> parts_verify digest prev off ps
     \<and> digest (source_range (off + parts_length ps) (unat (pp_len p)) prev) = pp_blake3 p"
  by (induction ps arbitrary: off) (auto simp: parts_length_def add.assoc)

text \<open>
  A range is within the previous artifact and the budget of coalescing, covered by its parts, and
  they verify.
\<close>

fun op_sound :: "(bytes \<Rightarrow> string) \<Rightarrow> rebuild_sources \<Rightarrow> rebuild_op \<Rightarrow> bool" where
  "op_sound digest src (CopyPreviousRange off _ len parts) \<longleftrightarrow>
     unat off + unat len \<le> length (src_previous src) \<and> parts_length parts = unat len
     \<and> (unat len \<le> unat max_coalesced_range \<or> length parts = 1)
     \<and> parts_verify digest (src_previous src) (unat off) parts"
| "op_sound digest src op \<longleftrightarrow> True"

text \<open>The wanted chunks, one after the other, and what the sources must hold of them.\<close>

fun tiled :: "nat \<Rightarrow> needed_chunk list \<Rightarrow> bool" where
  "tiled at [] = True"
| "tiled at (c # cs) \<longleftrightarrow> unat (nc_offset c) = at \<and> tiled (at + unat (nc_len c)) cs"

definition chunks_length :: "needed_chunk list \<Rightarrow> nat" where
  "chunks_length cs = sum_list (map (\<lambda>c. unat (nc_len c)) cs)"

lemma chunks_length_simps [simp]:
  "chunks_length [] = 0" "chunks_length (c # cs) = unat (nc_len c) + chunks_length cs"
  "chunks_length (cs @ ds) = chunks_length cs + chunks_length ds"
  by (simp_all add: chunks_length_def)

lemma tiled_append: "tiled at (cs @ ds) \<longleftrightarrow> tiled at cs \<and> tiled (at + chunks_length cs) ds"
  by (induction cs arbitrary: at) (auto simp: add.assoc)

definition honest :: "(bytes \<Rightarrow> string) \<Rightarrow> rebuild_sources \<Rightarrow> (needed_chunk \<Rightarrow> bytes) \<Rightarrow> (needed_chunk \<Rightarrow> availability)
    \<Rightarrow> needed_chunk \<Rightarrow> bool" where
  "honest digest src content avail c \<longleftrightarrow> length (content c) = unat (nc_len c) \<and> digest (content c) = nc_hash c
     \<and> (avail c = InCache \<or> (\<exists>off. avail c = InBoth off) \<longrightarrow> src_cache src (nc_hash c) = content c)
     \<and> (\<forall>off. avail c = InPrevious off \<or> avail c = InBoth off \<longrightarrow>
          unat off + unat (nc_len c) \<le> length (src_previous src)
          \<and> source_range (unat off) (unat (nc_len c)) (src_previous src) = content c)
     \<and> (avail c = Missing \<longrightarrow> src_network src (nc_hash c) = content c)"

section \<open>Validation of an extended plan\<close>

lemma check_rebuild_append:
  "check_rebuild_ops at (xs @ ys) = rbind (check_rebuild_ops at xs) (\<lambda>at. check_rebuild_ops at ys)"
  by (induction xs arbitrary: at) (auto simp: rbind_def Let_def split: prod.splits)

lemma unat_ucast_32_64: "unat (ucast (x :: u32) :: u64) = unat x"
  using unsigned_less [of x, where 'a = nat] by (simp add: unsigned_ucast_eq take_bit_nat_eq_self)

lemma unat_add_fits: "unat (a :: u64) + unat b < 2 ^ 64 \<Longrightarrow> unat (a + b) = unat a + unat b"
  by (rule unat_add_lem [THEN iffD1]) simp

definition parts_sum :: "plan_part list \<Rightarrow> u64" where
  "parts_sum ps = sum_list (map (\<lambda>p. ucast (pp_len p)) ps)"

lemma parts_sum_length: "parts_sum ps = of_nat (parts_length ps)"
  by (induction ps) (simp_all add: parts_sum_def parts_length_def unat_ucast_32_64 [symmetric])

lemma check_range:
  assumes "parts_length parts = unat len"
  shows "check_rebuild_ops at [CopyPreviousRange so off len parts]
    = (if off = at then Inr (at + len) else check_rebuild_ops at [CopyPreviousRange so off len parts])"
proof -
  have "parts_sum parts = len" using assms by (simp add: parts_sum_length)
  then show ?thesis by (simp add: parts_sum_def)
qed

lemma check_offset: "check_rebuild_ops at [op] = Inr x \<Longrightarrow> fst (output_range op) = at \<and> x = at + snd (output_range op)"
  by (auto simp: Let_def split: prod.splits if_splits)

section \<open>A step of the planner\<close>

text \<open>The operations of a plan are in order up to \<open>at\<close>, are sound, and stand for the bytes.\<close>

definition ops_for :: "(bytes \<Rightarrow> string) \<Rightarrow> rebuild_sources \<Rightarrow> u64 \<Rightarrow> bytes \<Rightarrow> rebuild_op list \<Rightarrow> bool" where
  "ops_for digest src at out ops \<longleftrightarrow> check_rebuild_ops 0 ops = Inr at
     \<and> concat (map (op_bytes src) ops) = out \<and> (\<forall>op \<in> set ops. op_sound digest src op)"

lemma ops_for_snoc:
  assumes "ops_for digest src at out ops" "op_sound digest src op" "op_bytes src op = bs"
    and "check_rebuild_ops at [op] = Inr (at + len)"
  shows "ops_for digest src (at + len) (out @ bs) (ops @ [op])"
  using assms by (auto simp: ops_for_def check_rebuild_append)

lemma one_part:
  assumes "unat source + unat n \<le> length (src_previous src)" "source_range (unat source) (unat n) (src_previous src) = bs" "digest bs = hash"
  shows "op_sound digest src (CopyPreviousRange source off (ucast (n :: u32)) [\<lparr>pp_len = n, pp_blake3 = hash\<rparr>])"
    "check_rebuild_ops off [CopyPreviousRange source off (ucast n) [\<lparr>pp_len = n, pp_blake3 = hash\<rparr>]] = Inr (off + ucast n)"
  using assms by (simp_all add: parts_length_def unat_ucast_32_64)

lemma merged_part:
  assumes old: "op_sound digest src (CopyPreviousRange po pn pl parts)" and budget: "pl + ucast (n :: u32) \<le> max_coalesced_range"
    and new: "unat (po + pl) + unat n \<le> length (src_previous src)"
      "source_range (unat (po + pl)) (unat n) (src_previous src) = bs" "digest bs = hash"
    and size: "length (src_previous src) < 2 ^ 64"
  defines "op \<equiv> CopyPreviousRange po pn (pl + ucast n) (parts @ [\<lparr>pp_len = n, pp_blake3 = hash\<rparr>])"
  shows "op_sound digest src op" "op_bytes src op = op_bytes src (CopyPreviousRange po pn pl parts) @ bs"
    "check_rebuild_ops pn [op] = Inr (pn + pl + ucast n)"
proof -
  have po: "unat (po + pl) = unat po + unat pl"
    using old size by (intro unat_add_fits) simp
  have pl: "unat (pl + ucast n) = unat pl + unat n"
    using new(1) size unat_add_fits [of pl "ucast n"] by (simp add: po unat_ucast_32_64)
  have cover: "parts_length (parts @ [\<lparr>pp_len = n, pp_blake3 = hash\<rparr>]) = unat (pl + ucast n)"
    using old by (simp add: pl) (simp add: parts_length_def)
  have "parts_length parts = unat pl" "parts_verify digest (src_previous src) (unat po) parts" using old by simp_all
  then have "parts_verify digest (src_previous src) (unat po) (parts @ [\<lparr>pp_len = n, pp_blake3 = hash\<rparr>])"
    using new by (simp add: parts_verify_snoc po)
  moreover have "unat (pl + ucast n) \<le> unat max_coalesced_range" using budget by (simp add: word_le_nat_alt)
  ultimately show "op_sound digest src op" using new(1) cover by (simp add: op_def po pl)
  show "op_bytes src op = op_bytes src (CopyPreviousRange po pn pl parts) @ bs"
    using new(2) range_join [of "unat po" "unat pl" "src_previous src" "unat n"] by (simp add: op_def po pl)
  show "check_rebuild_ops pn [op] = Inr (pn + pl + ucast n)"
    using check_range [OF cover, of pn po pn] by (simp add: op_def add.assoc)
qed

lemma push_previous_ops:
  assumes ops: "ops_for digest src (nc_offset c) out ops"
    and new: "unat source + unat (nc_len c) \<le> length (src_previous src)"
      "source_range (unat source) (unat (nc_len c)) (src_previous src) = bs" "digest bs = nc_hash c"
    and size: "length (src_previous src) < 2 ^ 64"
  shows "ops_for digest src (nc_offset c + ucast (nc_len c)) (out @ bs) (push_previous c source ops)"
proof -
  let ?part = "\<lparr>pp_len = nc_len c, pp_blake3 = nc_hash c\<rparr>"
  let ?new = "CopyPreviousRange source (nc_offset c) (ucast (nc_len c)) [?part]"
  have fresh: "ops_for digest src (nc_offset c + ucast (nc_len c)) (out @ bs) (ops @ [?new])"
  proof (rule ops_for_snoc [OF ops])
    show "op_sound digest src ?new" by (rule one_part(1) [where digest = digest and bs = bs]) (fact new)+
    show "check_rebuild_ops (nc_offset c) [?new] = Inr (nc_offset c + ucast (nc_len c))"
      by (rule one_part(2) [where digest = digest and bs = bs]) (fact new)+
    show "op_bytes src ?new = bs" using new(2) by (simp add: unat_ucast_32_64)
  qed
  show ?thesis
  proof (cases "push_previous c source ops = ops @ [?new]")
    case True
    then show ?thesis using fresh by simp
  next
    case False
    then obtain po pn pl parts where last: "ops \<noteq> []" "last ops = CopyPreviousRange po pn pl parts" "po + pl = source"
        "pn + pl = nc_offset c" "pl + ucast (nc_len c) \<le> max_coalesced_range"
      and push: "push_previous c source ops = butlast ops @ [CopyPreviousRange po pn (pl + ucast (nc_len c)) (parts @ [?part])]"
      by (fastforce simp: push_previous_def Let_def split: if_splits rebuild_op.splits)
    let ?old = "CopyPreviousRange po pn pl parts"
    have split: "ops = butlast ops @ [?old]" using last(1,2) by (metis append_butlast_last_id)
    have parts: "check_rebuild_ops 0 (butlast ops @ [?old]) = Inr (nc_offset c)"
        "concat (map (op_bytes src) (butlast ops @ [?old])) = out" "\<forall>op \<in> set (butlast ops @ [?old]). op_sound digest src op"
      using ops by (simp_all add: ops_for_def split [symmetric])
    from parts(1) obtain at where at: "check_rebuild_ops 0 (butlast ops) = Inr at" "check_rebuild_ops at [?old] = Inr (nc_offset c)"
      by (auto simp: check_rebuild_append rbind_eq_Inr simp del: check_rebuild_ops.simps)
    have pn: "pn = at" using check_offset [OF at(2)] by simp
    have old: "op_sound digest src ?old" using parts(3) by simp
    note m = merged_part [where digest = digest and bs = bs and hash = "nc_hash c", OF old last(5) _ _ new(3) size]
    have "ops_for digest src at (concat (map (op_bytes src) (butlast ops))) (butlast ops)"
      using at(1) parts(3) by (simp add: ops_for_def)
    have where_new: "unat (po + pl) + unat (nc_len c) \<le> length (src_previous src)"
      "source_range (unat (po + pl)) (unat (nc_len c)) (src_previous src) = bs"
      using new(1,2) last(3) by simp_all
    have "ops_for digest src (at + (pl + ucast (nc_len c)))
        (concat (map (op_bytes src) (butlast ops)) @ op_bytes src ?old @ bs)
        (butlast ops @ [CopyPreviousRange po pn (pl + ucast (nc_len c)) (parts @ [?part])])"
      by (rule ops_for_snoc [OF \<open>ops_for digest src at _ _\<close> m(1) [OF where_new] m(2) [OF where_new]])
        (use m(3) [OF where_new] in \<open>simp only: pn add.assoc\<close>)
    moreover have "concat (map (op_bytes src) (butlast ops)) @ op_bytes src ?old = out" using parts(2) by simp
    moreover have "at + (pl + ucast (nc_len c)) = nc_offset c + ucast (nc_len c)"
      using last(4) pn by (simp add: add.assoc [symmetric])
    ultimately show ?thesis unfolding push by (metis append.assoc)
  qed
qed

section \<open>A whole plan\<close>

text \<open>What the planner has after the chunks \<open>cs\<close>; the counters add up to their bytes.\<close>

definition bytes_counted :: "(needed_chunk \<Rightarrow> availability) \<Rightarrow> needed_chunk list \<Rightarrow> plan_stats \<Rightarrow> bool" where
  "bytes_counted avail cs st \<longleftrightarrow> unat (st_network_bytes st) = chunks_length (filter (\<lambda>c. avail c = Missing) cs)
     \<and> unat (st_network_bytes st) + unat (st_previous_bytes st) + unat (st_cache_bytes st) = chunks_length cs"

definition planned_chunks :: "(bytes \<Rightarrow> string) \<Rightarrow> rebuild_sources \<Rightarrow> (needed_chunk \<Rightarrow> bytes) \<Rightarrow> (needed_chunk \<Rightarrow> availability)
    \<Rightarrow> needed_chunk list \<Rightarrow> planning \<Rightarrow> bool" where
  "planned_chunks digest src content avail cs s \<longleftrightarrow>
     ops_for digest src (of_nat (chunks_length cs)) (concat (map content cs)) (pl_ops s)
     \<and> pl_target s = of_nat (chunks_length cs) \<and> bytes_counted avail cs (pl_stats s)"

lemma plan_chunk_planned:
  assumes s: "planned_chunks digest src content avail cs s" and c: "honest digest src content avail c"
    and at: "unat (nc_offset c) = chunks_length cs" and small: "chunks_length cs + unat (nc_len c) < 2 ^ 64"
    and prev: "length (src_previous src) < 2 ^ 64"
  shows "planned_chunks digest src content avail (cs @ [c]) (plan_chunk avail c s)"
proof -
  let ?len = "ucast (nc_len c) :: u64" and ?st = "pl_stats s"
  have off: "nc_offset c = of_nat (chunks_length cs)" by (simp add: at [symmetric])
  have sum: "of_nat (chunks_length (cs @ [c])) = nc_offset c + ?len"
    by (simp add: off)
  have "nc_offset c \<le> nc_offset c + ?len"
    using small at by (simp add: word_le_nat_alt unat_add_fits unat_ucast_32_64)
  then have target: "max (pl_target s) (nc_offset c + ?len) = nc_offset c + ?len"
    using s by (simp add: planned_chunks_def off max_def)
  have ops: "ops_for digest src (nc_offset c) (concat (map content cs)) (pl_ops s)"
    using s by (simp add: planned_chunks_def off)
  have counted: "bytes_counted avail cs ?st" using s by (simp add: planned_chunks_def)
  have grow: "unat (x + ?len) = unat x + unat (nc_len c)" if "unat x \<le> chunks_length cs" for x
    using that small by (simp add: unat_add_fits unat_ucast_32_64)
  have within: "unat (st_network_bytes ?st) \<le> chunks_length cs" "unat (st_previous_bytes ?st) \<le> chunks_length cs"
    "unat (st_cache_bytes ?st) \<le> chunks_length cs" using counted by (simp_all add: bytes_counted_def)
  have single: "ops_for digest src (nc_offset c + ?len) (concat (map content cs) @ content c) (pl_ops s @ [op])"
    if "op \<in> {CopyCacheChunk (nc_hash c) (nc_offset c) (nc_len c), FetchNetworkChunk (nc_hash c) (nc_offset c) (nc_len c)}"
      "op_bytes src op = content c" for op
    by (rule ops_for_snoc [OF ops _ that(2)]) (use that(1) in auto)
  have fetched: "planned_chunks digest src content avail (cs @ [c]) (fetch_chunk c (count_chunk c s))" if "avail c = Missing"
    using single [of "FetchNetworkChunk (nc_hash c) (nc_offset c) (nc_len c)"] c that counted target grow [OF within(1)]
    by (simp add: planned_chunks_def sum fetch_chunk_def count_chunk_def bytes_counted_def honest_def del: chunks_length_simps(3))
      simp
  have cached: "planned_chunks digest src content avail (cs @ [c]) (cache_chunk c (count_chunk c s))"
    if "avail c = InCache \<or> (\<exists>off. avail c = InBoth off)"
    using single [of "CopyCacheChunk (nc_hash c) (nc_offset c) (nc_len c)"] c that counted target grow [OF within(3)]
    by (auto simp: planned_chunks_def off [symmetric] cache_chunk_def count_chunk_def bytes_counted_def honest_def)
  have copied: "planned_chunks digest src content avail (cs @ [c]) (previous_chunk c source (count_chunk c s))"
    if "avail c = InPrevious source \<or> avail c = InBoth source" for source
    using push_previous_ops [OF ops _ _ _ prev, of source "content c"] c that counted target grow [OF within(2)]
    by (auto simp: planned_chunks_def off [symmetric] previous_chunk_def count_chunk_def bytes_counted_def honest_def)
  show ?thesis
    using fetched cached copied by (auto simp: plan_chunk_def Let_def split: availability.splits)
qed

lemma planned_all_chunks:
  assumes "tiled 0 cs" "chunks_length cs < 2 ^ 64" "\<forall>c \<in> set cs. honest digest src content avail c"
    and "length (src_previous src) < 2 ^ 64"
  shows "planned_chunks digest src content avail cs (fold (plan_chunk avail) cs
    \<lparr>pl_ops = [], pl_stats = no_plan_stats, pl_target = 0, pl_source_end = None\<rparr>)"
  using assms(1-3)
proof (induction cs rule: rev_induct)
  case Nil
  then show ?case by (simp add: planned_chunks_def ops_for_def bytes_counted_def no_plan_stats_def)
next
  case (snoc c cs)
  have "planned_chunks digest src content avail cs (fold (plan_chunk avail) cs
      \<lparr>pl_ops = [], pl_stats = no_plan_stats, pl_target = 0, pl_source_end = None\<rparr>)"
    using snoc by (simp add: tiled_append)
  then show ?case
    using plan_chunk_planned [of digest src content avail cs _ c] snoc.prems assms(4) by (simp add: tiled_append)
qed

text \<open>
  C16.  A reconstruction plan is right and economical.  Let the wanted chunks follow one another from 0
  with a total size of less than 2^64 bytes, let the previous artifact be shorter than 2^64 bytes,
  and let each chunk's bytes have its length and hash and be where the availability says (in the
  cache, in a range of the previous artifact, in both, or on the network).  Then the plan passes its
  own validation, its target size is the sum of the chunks, carrying out its operations gives the
  chunks' bytes in order, and the bytes it counts as fetched are exactly those of the chunks that
  are nowhere local.  Each copied range lies within the previous artifact, its parts cover it and
  each verifies against its own chunk's hash, and it is no longer than the 8 MiB budget unless it
  is a single chunk.
\<close>

theorem rebuild_plan_exact:
  fixes asset name :: string
  assumes "tiled 0 chunks" "chunks_length chunks < 2 ^ 64" "length (src_previous src) < 2 ^ 64"
    and "\<forall>c \<in> set chunks. honest digest src content avail c"
  defines "plan \<equiv> rebuild_plan asset name chunks avail"
  shows "rebuild_validate plan = Inr () \<and> unat (rp_target_size plan) = chunks_length chunks
    \<and> concat (map (op_bytes src) (rp_ops plan)) = concat (map content chunks)
    \<and> unat (st_network_bytes (rp_stats plan)) = chunks_length (filter (\<lambda>c. avail c = Missing) chunks)
    \<and> (\<forall>op \<in> set (rp_ops plan). op_sound digest src op)"
proof -
  note p = planned_all_chunks [OF assms(1,2,4,3)]
  show ?thesis
    using p assms(2)
    by (simp add: plan_def rebuild_plan_def planned_chunks_def ops_for_def bytes_counted_def rebuild_validate_def
        unsigned_of_nat take_bit_nat_eq_self Let_def)
qed

text \<open>Two chunks of the previous artifact side by side, and one to fetch.\<close>

definition sample_chunks :: "needed_chunk list" where
  "sample_chunks = [\<lparr>nc_hash = ''a'', nc_len = 2, nc_offset = 0\<rparr>, \<lparr>nc_hash = ''b'', nc_len = 1, nc_offset = 2\<rparr>,
     \<lparr>nc_hash = ''c'', nc_len = 1, nc_offset = 3\<rparr>]"

definition sample_previous :: "string \<Rightarrow> u64 option" where
  "sample_previous = [''a'' \<mapsto> 1, ''b'' \<mapsto> 3]"

lemma rebuild_plan_exact_witness:
  "concat (map (op_bytes \<lparr>src_previous = [9, 1, 2, 3], src_cache = \<lambda>_. [], src_network = \<lambda>_. [4]\<rparr>)
      (rp_ops (rebuild_plan [] [] sample_chunks (availability_from_sets (\<lambda>_. False) sample_previous)))) = [1, 2, 3, 4]
    \<and> rp_ops (rebuild_plan [] [] sample_chunks (availability_from_sets (\<lambda>_. False) sample_previous))
      = [CopyPreviousRange 1 0 3 [\<lparr>pp_len = 2, pp_blake3 = ''a''\<rparr>, \<lparr>pp_len = 1, pp_blake3 = ''b''\<rparr>], FetchNetworkChunk ''c'' 3 1]"
proof -
  let ?src = "\<lparr>src_previous = [9, 1, 2, 3], src_cache = \<lambda>_. [], src_network = \<lambda>_. [4]\<rparr>"
  let ?content = "\<lambda>c. if nc_hash c = ''a'' then [1, 2] else if nc_hash c = ''b'' then [3] else [4]"
  let ?digest = "\<lambda>bs. if bs = [1, 2] then ''a'' else if bs = [3] then ''b'' else ''c''"
  let ?avail = "availability_from_sets (\<lambda>_. False) sample_previous"
  have "\<forall>c \<in> set sample_chunks. honest ?digest ?src ?content ?avail c"
    by (simp add: sample_chunks_def honest_def availability_from_sets_def sample_previous_def source_range_def)
  moreover have "tiled 0 sample_chunks" "chunks_length sample_chunks = 4" "concat (map ?content sample_chunks) = [1, 2, 3, 4]"
    by (simp_all add: sample_chunks_def)
  ultimately have "concat (map (op_bytes ?src) (rp_ops (rebuild_plan [] [] sample_chunks ?avail))) = [1, 2, 3, 4]"
    using rebuild_plan_exact [of sample_chunks ?src ?digest ?content ?avail "[]" "[]"] by simp
  moreover have "rp_ops (rebuild_plan [] [] sample_chunks ?avail)
      = [CopyPreviousRange 1 0 3 [\<lparr>pp_len = 2, pp_blake3 = ''a''\<rparr>, \<lparr>pp_len = 1, pp_blake3 = ''b''\<rparr>], FetchNetworkChunk ''c'' 3 1]"
    by code_simp
  ultimately show ?thesis by blast
qed

end
