(* ===== verification/Spec2Isabelle.thy ===== *)
theory Spec2Isabelle
  imports Traversal Encodings Storage Negotiation Bundle_Transfer Delta Chunk_Store Plans Rebuild_Plan
begin

text \<open>
  A verification library for the core of CAVS, content-addressable storage and delivery of large
  files. Paths below are relative to \<^verbatim>\<open>src/core\<close>. The root theory only
  imports the others; each property stands in the theory of its part, numbered, with an instance
  after it that applies it to concrete data where it has hypotheses.

  \<^bold>\<open>The program's parts and how they interact.\<close> Everything is named by a
  BLAKE3 hash (\<^verbatim>\<open>cavs-hash\<close>). Three groups of crates build on that:

  \<^item> The object graph (\<^verbatim>\<open>cavs-object\<close>). A structural object is an
    envelope with dependencies and a body, and has one canonical encoding and so one id; chunks
    are raw bytes. An object directory keeps each object in a file of its own. A budgeted walk
    follows dependencies; collection, transfer plans and bundles use it. A bundle carries a part
    of one directory's graph to another; negotiation lets the receiver say what it has, exactly or
    by a Bloom filter.
  \<^item> The chunk store (\<^verbatim>\<open>cavs-store\<close>). Chunks are loose or in
    append-only packs; a ledger says where each is, how many assets list it, and since when none
    does. The ledger is either one snapshot with a journal, or a segmented index of immutable
    generations. Publishing, unpublishing and garbage collection change the counts; a save makes
    them durable.
  \<^item> Updates of files (\<^verbatim>\<open>cavs-signature\<close>,
    \<^verbatim>\<open>cavs-plan\<close>, \<^verbatim>\<open>cavs-rebuild-plan\<close>). A
    signature lists the blocks of an old file or tree; a diff against it yields copies and inline
    data; an offline plan is the diff of a whole build in a file of its own, applied in place
    through a staging directory and a journal. A reconstruction plan does the like from whole
    chunks.

  \<^bold>\<open>Conventions.\<close> A struct is a record, an enum a datatype with the source's
  constructors, \<^verbatim>\<open>Result\<close> is a sum with the error on the left and
  \<open>rbind\<close> (of Prelude) for \<^verbatim>\<open>?\<close>. Bytes and fixed-width
  integers are machine words, which wrap as in a release build; \<^verbatim>\<open>usize\<close>
  is a natural number, the target being a 64-bit machine. Names and labels are their UTF-8 bytes
  (Prelude has the validity test), a \<^verbatim>\<open>BTreeMap\<close> is a sorted list of pairs
  (Sorted_Map), a \<^verbatim>\<open>HashMap\<close> an association list or a function. A panic is
  an error value of its own. Each map entry of the manifest names the lines a definition
  translates.

  \<^bold>\<open>Theories.\<close>

  \<^item> Shared: Prelude (words, results, the collection \<open>result_simps\<close>, UTF-8),
    Codec (the locale \<open>codec\<close>, fixed-width integers, varints, counted sequences),
    Cavs_Hash (digests, hexadecimal text, the Merkle root), Sorted_Map, Weak_Hash.
  \<^item> Objects: Object_Id (also errors and their messages), Envelope, Encodings.
  \<^item> Traversal: Graph_Walk (\<^verbatim>\<open>walk.rs\<close>: the stack machine with its
    path, budgets, filters and pauses), Walk_Reach and Walk_Cycles (its two invariants), Have_Sets
    (transfer plans), Traversal.
  \<^item> The object directory: Object_Store (\<^verbatim>\<open>store.rs\<close>), Store_Laws
    (the contract \<open>content_store\<close>), Store_Steps (many writers as a step relation),
    Store_Durability (power cuts), Gc (\<^verbatim>\<open>gc.rs\<close>), Storage.
  \<^item> Negotiation: Negotiate (\<^verbatim>\<open>negotiate.rs\<close>), Negotiation.
    Signatures of bundles: Sign (\<^verbatim>\<open>sign.rs\<close>).
  \<^item> Bundles: Bundle_Format and Bundle_File (the file), Bundle (creating, verifying,
    importing), Bundle_Laws, Exchange (from one store to another), Bundle_Transfer.
  \<^item> Block signatures: Block_Signature and Signature_Laws (the file
    \<^verbatim>\<open>.cavssig\<close>), Signature_Builder, Builder_Laws and Signed_Sources
    (signing and checking), Block_Diff and Diff_Laws (the delta), Delta.
  \<^item> Offline plans: Plan_Format and Plan_Laws (the file \<^verbatim>\<open>.cavsplan\<close>
    and its validation), Plan_Build and Plan_Built (making plans), Plan_Apply (artifacts),
    Plan_Dir and Plan_Dir_Laws (directories, with the tree, the journal and the trace of states),
    Plans.
  \<^item> Reconstruction plans: Rebuild_Plan.
  \<^item> The segmented ledger: Seg_Format, Seg_Laws (segment files), Seg_Merge (the k-way
    merge), Seg_Index, Seg_Commit (the directory \<^verbatim>\<open>index/\<close>), Ledger_State,
    Ledger_Writes, Ledger_Ops, Ledger_Commit, Ledger.
  \<^item> The chunk store: Pack_File and Pack_Laws (packs), Index_Format and Index_Laws (the
    snapshot), Journal and Journal_Laws (the journal), Store_Dir (the state of a handle),
    Store_Chunks (accessors, storing), Store_Save, Store_Open, Store_Assets (publishing and
    collection); and their laws: Chunk_Table (either ledger as one map), Store_Counts,
    Store_Bytes, Store_Puts, Store_Gc, Ledger_Disk, Ledger_Open, Record_Packs (and the size of a
    snapshot), Ledger_Saves, Ledger_Atomic, Ledger_Types, Chunk_Store.

  \<^bold>\<open>Interfaces.\<close> Each is a locale whose client's lemmas are proved once,
  interpreted on the code's own definitions. \<open>codec\<close> says that decoding inverts
  encoding and that nothing but encodings decode; every field of every file is one, lists of them
  are again. \<open>content_store\<close> (and its extension \<open>bounded_store\<close>) is what
  an import needs of an object store; the loose-object directory is one.
  \<open>walk_invariant\<close> lifts an invariant of one round of the walk to whole walks;
  closure under dependencies and the state of the ancestors' path are its instances.
  \<open>have_contract\<close> is what a transfer plan needs of a have-set; exact sets, the Bloom
  filter and the summary of the wire give it. \<open>chunk_table\<close> is a ledger seen as a
  map; the snapshot, the segmented ledger and their union are such tables.
  \<open>disk_invariant\<close> carries a fact about the index directory through every operation
  that writes beside it.

  \<^bold>\<open>What the properties show.\<close> They stand at the end of each part: Storage,
  Traversal and Encodings, Bundle_Transfer, Delta, Plans, Rebuild_Plan, Ledger, Chunk_Store.

  \<^item> End to end: a bundle fills an empty store with the graph of its roots; a signed source
    and a diff rebuild a file; a plan built, written, read and applied updates an artifact.
  \<^item> Crashes and failures: what every state of a directory update, a commit, a save, a
    recovery, a failed import, a flushed batch after a power cut, or a torn journal record still
    holds.
  \<^item> Garbage collection, of objects and of chunks: nothing in use goes, whatever happens
    meanwhile, and exactly what is unused does.
  \<^item> Storing and reading back: single objects, interleaved writers, chunks loose and in
    packs.
  \<^item> Refinement of an abstract map, or of a plain description: commits, the merge, the two
    forms of the ledger, the streaming builder of signatures.
  \<^item> Planning: diffs, plans of trees, reconstruction plans, transfer plans.
  \<^item> Graphs: what a walk yields, that success means acyclic, that each error has its cause,
    that an import leaves the graph closed.
  \<^item> File formats: exact in both directions, or round trips: segments, bundles, signatures,
    plans, envelopes. Checksums: the rolling checksum and the detection of changes.

  Negotiation and Sign have lemmas of the same kind that are not numbered: a summary never hides
  an object that is missing, a filter survives the wire, verification sorts every signature into
  one list.

  \<^bold>\<open>Parameters.\<close> Code outside the repository is an argument of the definitions
  that use it: BLAKE3 (assumed only to give 32 bytes; where two contents could collide the
  property says so), Ed25519 (the record \<open>ed25519\<close>), Zstandard and
  \<^verbatim>\<open>serde_json\<close> (assumed to give back what they were given, within the
  limit on size where there is one), the clock, the order in which a hash map is iterated or a
  directory is listed, and where the system leads a symbolic link. What other processes do between
  two accesses of a collection is a function of the number of the access, and so is what becomes
  of each write of an import (\<open>io_outcome\<close>: done, refused at each stage, or cut after
  any number of bytes).

  \<^bold>\<open>Crashes.\<close> In the chunk store and in the application of plans an operation
  is a run that records every directory it passes through, a file being written prefix by prefix;
  a property about crashes quantifies over all of them. The object directory distinguishes in
  addition the bytes and the names that were forced to disk from those a power cut may take.

  \<^bold>\<open>Termination and fuel.\<close> No definition uses fuel. Loops are structural or
  have a measure, with four exceptions that are partial functions: the scan of the diff, the loop
  of the signature builder, and the two loops of the merge. The properties about diffs, signing
  and iteration show that these return. The bounds in the properties are those of the formats:
  2^24 entries and 2^28 operations or blocks, strings of 65536 bytes, lengths below 2^64.

  \<^bold>\<open>What is not modelled.\<close> In the chunk store and the application of plans, a
  write that the disk refuses is not an outcome of its own (the states it can leave are on the
  traces), \<^verbatim>\<open>fsync\<close> and its modes are left out, and so are repacking,
  migration between the ledgers, exports and statistics. The ledger's former JSON form is read
  through a parameter. The size of a Bloom filter is computed over the reals where the code uses
  \<^verbatim>\<open>f64\<close>. Walking a file tree for signing is given by its sorted paths.
  Promised objects, manifests, chunking, the container format, the network crates, the
  command-line tools, bindings and the desktop application are left out; the manifest gives the
  reason for each.

  \<^bold>\<open>Findings.\<close> Where modelling showed that the code, or a comment, says
  something else than it does, the manifest lists it with its line.
\<close>

end
